(* ===== verification/Rail_Prelude.thy ===== *)
theory Rail_Prelude
  imports Main "HOL-Library.Word"
begin

unbundle bit_operations_syntax

text \<open>
  Shared vocabulary of the development: the machine integers of the C++ code, the
  \<^verbatim>\<open>Error\<close>/\<^verbatim>\<open>Result\<close> types of \<^verbatim>\<open>include/rail/result.h\<close>, bytes and their
  conversion to characters, the little- and big-endian layouts of a word, and generic
  lemmas on lists and on the error-or-value type that the component theories share.
\<close>

section \<open>Machine integers and bytes\<close>

type_synonym u8 = "8 word"
type_synonym u16 = "16 word"
type_synonym u32 = "32 word"
type_synonym u64 = "64 word"

text \<open>A signed 64-bit value, kept as its two's complement word.\<close>

type_synonym i64 = "64 word"

type_synonym byte = "8 word"

definition byte_of_char :: "char \<Rightarrow> byte" where
  "byte_of_char c = word_of_nat (of_char c)"

definition char_of_byte :: "byte \<Rightarrow> char" where
  "char_of_byte b = char_of (unat b)"

lemma char_of_byte_of_char [simp]: "char_of_byte (byte_of_char c) = c"
proof -
  have "(of_char c :: nat) < 256"
    by simp
  then show ?thesis
    by (simp add: byte_of_char_def char_of_byte_def unat_of_nat take_bit_eq_mod)
qed

lemma byte_of_char_of_byte [simp]: "byte_of_char (char_of_byte b) = b"
proof -
  have "unat b < 2 ^ LENGTH(8)" by (rule unsigned_less)
  then show ?thesis
    by (simp add: byte_of_char_def char_of_byte_def)
qed

lemma map_char_byte [simp]: "map (char_of_byte \<circ> byte_of_char) s = s"
  by (induction s) simp_all

section \<open>Errors as values\<close>

text \<open>
  \<^verbatim>\<open>struct Error { std::error_code Code; std::string Context; }\<close>. An error code is a
  value of a category; only the generic category (errno values) is told apart by the code.
\<close>

datatype error_code = Generic int | Foreign int

record Error =
  Code :: error_code
  Context :: string

type_synonym 'a Result = "Error + 'a"

definition fail :: "error_code \<Rightarrow> string \<Rightarrow> 'a Result" where
  "fail c ctx = Inl \<lparr>Code = c, Context = ctx\<rparr>"

definition EPROTO :: int where
  "EPROTO = 71"

definition failErrno :: "int \<Rightarrow> string \<Rightarrow> 'a Result" where
  "failErrno errno ctx = fail (Generic errno) ctx"

definition failMessage :: "string \<Rightarrow> 'a Result" where
  "failMessage ctx = fail (Generic EPROTO) ctx"

text \<open>
  \<^verbatim>\<open>if (!R) return std::unexpected(R.error());\<close> followed by the rest of the function.
\<close>

definition bindR :: "'a Result \<Rightarrow> ('a \<Rightarrow> 'b Result) \<Rightarrow> 'b Result" where
  "bindR r f = (case r of Inl e \<Rightarrow> Inl e | Inr x \<Rightarrow> f x)"

named_theorems result_simps \<open>evaluation of the error-or-value operations\<close>

lemma bindR_simps [simp, result_simps]:
  "bindR (Inl e) f = Inl e"
  "bindR (Inr x) f = f x"
  by (simp_all add: bindR_def)

lemma bindR_Inr_iff:
  "bindR r f = Inr y \<longleftrightarrow> (\<exists>x. r = Inr x \<and> f x = Inr y)"
  by (cases r) simp_all

lemma bindR_Inl_iff:
  "bindR r f = Inl e \<longleftrightarrow> r = Inl e \<or> (\<exists>x. r = Inr x \<and> f x = Inl e)"
  by (cases r) simp_all

lemma fail_neq_Inr [simp]:
  "fail c ctx \<noteq> Inr x" "Inr x \<noteq> fail c ctx"
  "failMessage ctx \<noteq> Inr x" "Inr x \<noteq> failMessage ctx"
  "failErrno n ctx \<noteq> Inr x" "Inr x \<noteq> failErrno n ctx"
  by (simp_all add: fail_def failMessage_def failErrno_def)

lemma failMessage_Inl: "failMessage ctx = Inl e \<longleftrightarrow> e = \<lparr>Code = Generic EPROTO, Context = ctx\<rparr>"
  by (auto simp: failMessage_def fail_def)

definition is_ok :: "'a Result \<Rightarrow> bool" where
  "is_ok r = (case r of Inl _ \<Rightarrow> False | Inr _ \<Rightarrow> True)"

lemma is_ok_simps [simp, result_simps]:
  "is_ok (Inr x)" "\<not> is_ok (Inl e)" "\<not> is_ok (failMessage ctx)" "\<not> is_ok (failErrno n ctx)"
  by (simp_all add: is_ok_def failMessage_def failErrno_def fail_def)

section \<open>Bytes of a word\<close>

text \<open>
  \<^verbatim>\<open>memcpy\<close> of an integer on a little-endian machine: byte \<open>i\<close> holds bits \<open>8 i\<close> to
  \<open>8 i + 7\<close>. The decoder rebuilds the word from the bytes.
\<close>

definition le_bytes :: "nat \<Rightarrow> 'a::len word \<Rightarrow> byte list" where
  "le_bytes n w = map (\<lambda>i. ucast (drop_bit (8 * i) w)) [0..<n]"

primrec le_word :: "byte list \<Rightarrow> 'a::len word" where
  "le_word [] = 0"
| "le_word (b # bs) = ucast b OR push_bit 8 (le_word bs)"

definition be_bytes :: "nat \<Rightarrow> 'a::len word \<Rightarrow> byte list" where
  "be_bytes n w = rev (le_bytes n w)"

lemma length_le_bytes [simp]: "length (le_bytes n w) = n"
  by (simp add: le_bytes_def)

lemma length_be_bytes [simp]: "length (be_bytes n w) = n"
  by (simp add: be_bytes_def)

lemma nth_le_bytes: "i < n \<Longrightarrow> le_bytes n w ! i = ucast (drop_bit (8 * i) w)"
  by (simp add: le_bytes_def)

lemma bit_le_word:
  "bit (le_word bs :: 'a::len word) k \<longleftrightarrow>
     k < LENGTH('a) \<and> k div 8 < length bs \<and> bit (bs ! (k div 8)) (k mod 8)"
proof (induction bs arbitrary: k)
  case Nil
  then show ?case by simp
next
  case (Cons b bs)
  show ?case
  proof (cases "k < 8")
    case True
    then have "k div 8 = 0" and "k mod 8 = k" by simp_all
    with True show ?thesis
      by (simp add: bit_or_iff bit_push_bit_iff bit_ucast_iff)
  next
    case False
    then have k: "k div 8 = Suc ((k - 8) div 8)" "k mod 8 = (k - 8) mod 8"
      by (simp_all add: le_div_geq le_mod_geq)
    have "\<not> bit b k"
      using False bit_imp_le_length [of b k] by auto
    with False Cons.IH [of "k - 8"] show ?thesis
      unfolding k by (auto simp: bit_or_iff bit_push_bit_iff bit_ucast_iff)
  qed
qed

lemma le_word_le_bytes:
  fixes w :: "'a::len word"
  assumes "LENGTH('a) = 8 * n"
  shows "le_word (le_bytes n w) = w"
proof (rule bit_word_eqI)
  fix k
  assume k: "k < LENGTH('a)"
  with assms have i: "k div 8 < n" by auto
  have "bit (le_bytes n w ! (k div 8)) (k mod 8) \<longleftrightarrow> bit w (8 * (k div 8) + k mod 8)"
    using i by (simp add: nth_le_bytes bit_ucast_iff bit_drop_bit_eq)
  with k i show "bit (le_word (le_bytes n w) :: 'a word) k \<longleftrightarrow> bit w k"
    by (simp add: bit_le_word)
qed

lemma le_bytes_inject:
  fixes v w :: "'a::len word"
  assumes "LENGTH('a) = 8 * n"
  shows "le_bytes n v = le_bytes n w \<longleftrightarrow> v = w"
  using le_word_le_bytes [OF assms] by metis

section \<open>Lists\<close>

lemma take_append_length [simp]: "n = length xs \<Longrightarrow> take n (xs @ ys) = xs"
  by simp

lemma drop_append_length [simp]: "n = length xs \<Longrightarrow> drop n (xs @ ys) = ys"
  by simp

lemma unat_of_nat_small:
  "n < 2 ^ LENGTH('a) \<Longrightarrow> unat (of_nat n :: 'a::len word) = n"
  by (simp add: unat_of_nat take_bit_nat_eq_self)

lemma drop_take_split: "i + n \<le> length xs \<Longrightarrow> take n (drop i xs) @ drop (i + n) xs = drop i xs"
  by (metis add.commute append_take_drop_id drop_drop)

lemma take_take_drop: "take i xs @ take n (drop i xs) = take (i + n) xs"
  by (simp add: take_add)

lemma take_then_take:
  assumes "m \<le> p"
  shows "take m xs @ take (p - length (take m xs)) (drop m xs) = take p xs"
proof (cases "m \<le> length xs")
  case True
  then show ?thesis using assms take_take_drop [of m xs "p - m"] by (simp add: min_def)
next
  case False
  then show ?thesis using assms by simp
qed

lemma unat_drop_bit: "unat (drop_bit n w) = unat w div 2 ^ n"
proof -
  have "unat (drop_bit n w) = drop_bit n (unat w)"
    by (simp only: unsigned_drop_bit_eq take_bit_nat_eq_self [OF unsigned_less])
  then show ?thesis by (simp only: drop_bit_eq_div [of n "unat w"])
qed

end
