(* ===== verification/Message.thy ===== *)
theory Message
  imports Rail_Prelude
begin

text \<open>
  The messages of the session protocol, \<^verbatim>\<open>include/rail/proto/message.h\<close>: one record per
  struct with the fields in declaration order (a field \<^verbatim>\<open>F\<close> of struct \<^verbatim>\<open>S\<close> is
  \<open>S_F\<close>), the variant \<^verbatim>\<open>Message\<close> as a datatype whose constructors are the structs'
  names, the wire codes of \<^verbatim>\<open>enum class Type\<close>, and the functions \<^verbatim>\<open>typeOf\<close>,
  \<^verbatim>\<open>idOf\<close>, \<^verbatim>\<open>typeName\<close> and \<^verbatim>\<open>tagSpan\<close>. The lemmas show that the codes are
  distinct and that the tag ranges of consecutive files do not overlap.
\<close>

section \<open>Constants and structs\<close>

definition kMagic :: u32 where
  "kMagic = 0x5241494c"

definition kVersion :: u16 where
  "kVersion = 1"

definition kMaxFrame :: u32 where
  "kMaxFrame = push_bit 20 64"

text \<open>
  \<^verbatim>\<open>std::array<std::byte, 16>\<close>: a sixteen-byte digest. The length is part of the
  well-formedness of a message, \<open>wf_digest\<close>.
\<close>

type_synonym Digest = "byte list"

definition wf_digest :: "Digest \<Rightarrow> bool" where
  "wf_digest d = (length d = 16)"

text \<open>
  \<^verbatim>\<open>enum class MetaOp : uint16_t\<close> is cast from any 16-bit value the peer sends, so it is
  the word itself, with the enumerators as constants.
\<close>

type_synonym MetaOp = u16

definition MetaOp_MakeDirectory :: MetaOp where
  "MetaOp_MakeDirectory = 1"

definition MetaOp_RemoveFile :: MetaOp where
  "MetaOp_RemoveFile = 2"

definition MetaOp_RemoveDirectory :: MetaOp where
  "MetaOp_RemoveDirectory = 3"

definition MetaOp_Rename :: MetaOp where
  "MetaOp_Rename = 4"

definition MetaOp_Truncate :: MetaOp where
  "MetaOp_Truncate = 5"

definition MetaOp_SetMode :: MetaOp where
  "MetaOp_SetMode = 6"

definition MetaOp_SetMtime :: MetaOp where
  "MetaOp_SetMtime = 7"

definition MetaOp_Fsync :: MetaOp where
  "MetaOp_Fsync = 8"

definition MetaOp_Symlink :: MetaOp where
  "MetaOp_Symlink = 9"

definition MetaOp_ReadLink :: MetaOp where
  "MetaOp_ReadLink = 10"

definition MetaOp_HardLink :: MetaOp where
  "MetaOp_HardLink = 11"

definition MetaOp_Create :: MetaOp where
  "MetaOp_Create = 12"

text \<open>A create asking for no particular mode.\<close>

definition kKeepMode :: u32 where
  "kKeepMode = 0xFFFFFFFF"

record BlockSum =
  BlockSum_Weak :: u32
  BlockSum_Strong :: Digest

record Hello =
  Hello_Version :: u16
  Hello_Backend :: string
  Hello_BlockSize :: u32
  Hello_PageCount :: u64
  Hello_PageSize :: u64
  Hello_WindowPages :: u64
  Hello_Recursive :: bool
  Hello_Verify :: bool
  Hello_Sum :: u8

record HelloAck =
  HelloAck_Backend :: string
  HelloAck_ChannelEndpoint :: string

record FileHeader =
  FileHeader_Name :: string
  FileHeader_Size :: u64
  FileHeader_Mode :: u32
  FileHeader_Mtime :: i64
  FileHeader_Directory :: bool
  FileHeader_Link :: bool
  FileHeader_Target :: string
  FileHeader_WantSignature :: bool
  FileHeader_Streamed :: bool

record Signature =
  Signature_BlockLength :: u32
  Signature_StrongLength :: u32
  Signature_FileLength :: u64
  Signature_Sums :: "BlockSum list"

record Copy =
  Copy_BlockIndex :: u32
  Copy_Count :: u32
  Copy_DstOffset :: u64

record Literal =
  Literal_Offset :: u64
  Literal_Length :: u32

record Done =
  Done_WholeFileHash :: Digest

record Receipt =
  Receipt_LiteralBytes :: u64
  Receipt_MatchedBytes :: u64
  Receipt_HashHits :: u64
  Receipt_FalseAlarms :: u64

record FileAttrs =
  FileAttrs_Size :: u64
  FileAttrs_Dev :: u64
  FileAttrs_Ino :: u64
  FileAttrs_Mode :: u32
  FileAttrs_Uid :: u32
  FileAttrs_Gid :: u32
  FileAttrs_Mtime :: i64
  FileAttrs_Directory :: bool
  FileAttrs_Link :: bool
  FileAttrs_Links :: u32

record StatRequest =
  StatRequest_Id :: u64
  StatRequest_Path :: string

record StatReply =
  StatReply_Id :: u64
  StatReply_Found :: bool
  StatReply_Attrs :: FileAttrs

record ListRequest =
  ListRequest_Id :: u64
  ListRequest_Path :: string

record ListEntry =
  ListEntry_Name :: string
  ListEntry_Attrs :: FileAttrs

record ListReply =
  ListReply_Id :: u64
  ListReply_Found :: bool
  ListReply_Entries :: "ListEntry list"
  ListReply_Self :: FileAttrs
  ListReply_Parent :: FileAttrs

record OpenRequest =
  OpenRequest_Id :: u64
  OpenRequest_Path :: string
  OpenRequest_Writable :: bool

record OpenReply =
  OpenReply_Id :: u64
  OpenReply_Ok :: bool
  OpenReply_Found :: bool
  OpenReply_Handle :: u64
  OpenReply_Attrs :: FileAttrs
  OpenReply_Error :: string
  OpenReply_Errno :: u32

record CloseRequest =
  CloseRequest_Id :: u64
  CloseRequest_Handle :: u64

record ReadRequest =
  ReadRequest_Id :: u64
  ReadRequest_Path :: string
  ReadRequest_Offset :: u64
  ReadRequest_Length :: u32
  ReadRequest_Handle :: u64

record WriteRequest =
  WriteRequest_Id :: u64
  WriteRequest_Path :: string
  WriteRequest_Offset :: u64
  WriteRequest_Length :: u32
  WriteRequest_Truncate :: bool
  WriteRequest_Payload :: Digest
  WriteRequest_Handle :: u64

record FetchRequest =
  FetchRequest_Id :: u64
  FetchRequest_TagBase :: u64
  FetchRequest_Path :: string
  FetchRequest_Offset :: u64
  FetchRequest_Length :: u64
  FetchRequest_Handle :: u64

record StoreRequest =
  StoreRequest_Id :: u64
  StoreRequest_TagBase :: u64
  StoreRequest_Path :: string
  StoreRequest_Offset :: u64
  StoreRequest_Length :: u64
  StoreRequest_Truncate :: bool
  StoreRequest_Handle :: u64

record StreamReply =
  StreamReply_Id :: u64
  StreamReply_Length :: u64
  StreamReply_Ok :: bool
  StreamReply_Error :: string

record MetaRequest =
  MetaRequest_Id :: u64
  MetaRequest_Op :: MetaOp
  MetaRequest_Path :: string
  MetaRequest_Target :: string
  MetaRequest_Size :: u64
  MetaRequest_Mode :: u32
  MetaRequest_Mtime :: i64
  MetaRequest_Handle :: u64
  MetaRequest_Exclusive :: bool

record MetaReply =
  MetaReply_Id :: u64
  MetaReply_Ok :: bool
  MetaReply_Error :: string
  MetaReply_Target :: string
  MetaReply_Errno :: u32
  MetaReply_Attrs :: FileAttrs

record StatFsRequest =
  StatFsRequest_Id :: u64
  StatFsRequest_Path :: string

record StatFsReply =
  StatFsReply_Id :: u64
  StatFsReply_Ok :: bool
  StatFsReply_BlockSize :: u64
  StatFsReply_Blocks :: u64
  StatFsReply_BlocksFree :: u64
  StatFsReply_Files :: u64
  StatFsReply_FilesFree :: u64
  StatFsReply_Error :: string

record StreamDigest =
  StreamDigest_Id :: u64
  StreamDigest_Whole :: Digest
  StreamDigest_Ok :: bool
  StreamDigest_Error :: string

record PeerEndpoint =
  PeerEndpoint_Blob :: string

record TransferReply =
  TransferReply_Id :: u64
  TransferReply_Length :: u32
  TransferReply_FileSize :: u64
  TransferReply_Ok :: bool
  TransferReply_Payload :: Digest
  TransferReply_Error :: string

section \<open>The variant and the wire codes\<close>

datatype Message =
    Hello Hello
  | HelloAck HelloAck
  | FileHeader FileHeader
  | Signature Signature
  | Copy Copy
  | Literal Literal
  | Done Done
  | Receipt Receipt
  | End
  | StatRequest StatRequest
  | StatReply StatReply
  | ListRequest ListRequest
  | ListReply ListReply
  | ReadRequest ReadRequest
  | WriteRequest WriteRequest
  | TransferReply TransferReply
  | PeerEndpoint PeerEndpoint
  | FetchRequest FetchRequest
  | StoreRequest StoreRequest
  | StreamReply StreamReply
  | StreamDigest StreamDigest
  | MetaRequest MetaRequest
  | MetaReply MetaReply
  | StatFsRequest StatFsRequest
  | StatFsReply StatFsReply
  | OpenRequest OpenRequest
  | OpenReply OpenReply
  | CloseRequest CloseRequest

datatype MsgType =
    T_Hello
  | T_HelloAck
  | T_FileHeader
  | T_Signature
  | T_Copy
  | T_Literal
  | T_Done
  | T_Receipt
  | T_End
  | T_Stat
  | T_StatReply
  | T_List
  | T_ListReply
  | T_Read
  | T_Write
  | T_TransferReply
  | T_PeerEndpoint
  | T_Fetch
  | T_Store
  | T_StreamReply
  | T_StreamDigest
  | T_Meta
  | T_MetaReply
  | T_StatFs
  | T_StatFsReply
  | T_Open
  | T_OpenReply
  | T_Close

fun type_code :: "MsgType \<Rightarrow> u16" where
  "type_code T_Hello = 1"
| "type_code T_HelloAck = 2"
| "type_code T_FileHeader = 3"
| "type_code T_Signature = 4"
| "type_code T_Copy = 5"
| "type_code T_Literal = 6"
| "type_code T_Done = 8"
| "type_code T_Receipt = 9"
| "type_code T_End = 11"
| "type_code T_Stat = 12"
| "type_code T_StatReply = 13"
| "type_code T_List = 14"
| "type_code T_ListReply = 15"
| "type_code T_Read = 16"
| "type_code T_Write = 17"
| "type_code T_TransferReply = 18"
| "type_code T_PeerEndpoint = 19"
| "type_code T_Fetch = 20"
| "type_code T_Store = 21"
| "type_code T_StreamReply = 22"
| "type_code T_StreamDigest = 23"
| "type_code T_Meta = 24"
| "type_code T_MetaReply = 25"
| "type_code T_StatFs = 26"
| "type_code T_StatFsReply = 27"
| "type_code T_Open = 28"
| "type_code T_OpenReply = 29"
| "type_code T_Close = 30"

text \<open>
  The cast \<^verbatim>\<open>static_cast<Type>(T)\<close> of a received 16-bit code, followed by a switch: a
  code without an enumerator reaches the default case.
\<close>

definition type_of_code :: "u16 \<Rightarrow> MsgType option" where
  "type_of_code c =
    (if c = 1 then Some T_Hello
     else if c = 2 then Some T_HelloAck
     else if c = 3 then Some T_FileHeader
     else if c = 4 then Some T_Signature
     else if c = 5 then Some T_Copy
     else if c = 6 then Some T_Literal
     else if c = 8 then Some T_Done
     else if c = 9 then Some T_Receipt
     else if c = 11 then Some T_End
     else if c = 12 then Some T_Stat
     else if c = 13 then Some T_StatReply
     else if c = 14 then Some T_List
     else if c = 15 then Some T_ListReply
     else if c = 16 then Some T_Read
     else if c = 17 then Some T_Write
     else if c = 18 then Some T_TransferReply
     else if c = 19 then Some T_PeerEndpoint
     else if c = 20 then Some T_Fetch
     else if c = 21 then Some T_Store
     else if c = 22 then Some T_StreamReply
     else if c = 23 then Some T_StreamDigest
     else if c = 24 then Some T_Meta
     else if c = 25 then Some T_MetaReply
     else if c = 26 then Some T_StatFs
     else if c = 27 then Some T_StatFsReply
     else if c = 28 then Some T_Open
     else if c = 29 then Some T_OpenReply
     else if c = 30 then Some T_Close
     else None)"

fun typeOf :: "Message \<Rightarrow> MsgType" where
  "typeOf (Hello _) = T_Hello"
| "typeOf (HelloAck _) = T_HelloAck"
| "typeOf (FileHeader _) = T_FileHeader"
| "typeOf (Signature _) = T_Signature"
| "typeOf (Copy _) = T_Copy"
| "typeOf (Literal _) = T_Literal"
| "typeOf (Done _) = T_Done"
| "typeOf (Receipt _) = T_Receipt"
| "typeOf End = T_End"
| "typeOf (StatRequest _) = T_Stat"
| "typeOf (StatReply _) = T_StatReply"
| "typeOf (ListRequest _) = T_List"
| "typeOf (ListReply _) = T_ListReply"
| "typeOf (ReadRequest _) = T_Read"
| "typeOf (WriteRequest _) = T_Write"
| "typeOf (TransferReply _) = T_TransferReply"
| "typeOf (PeerEndpoint _) = T_PeerEndpoint"
| "typeOf (FetchRequest _) = T_Fetch"
| "typeOf (StoreRequest _) = T_Store"
| "typeOf (StreamReply _) = T_StreamReply"
| "typeOf (StreamDigest _) = T_StreamDigest"
| "typeOf (MetaRequest _) = T_Meta"
| "typeOf (MetaReply _) = T_MetaReply"
| "typeOf (StatFsRequest _) = T_StatFs"
| "typeOf (StatFsReply _) = T_StatFsReply"
| "typeOf (OpenRequest _) = T_Open"
| "typeOf (OpenReply _) = T_OpenReply"
| "typeOf (CloseRequest _) = T_Close"

fun idOf :: "Message \<Rightarrow> u64" where
  "idOf (StatRequest v) = StatRequest_Id v"
| "idOf (StatReply v) = StatReply_Id v"
| "idOf (ListRequest v) = ListRequest_Id v"
| "idOf (ListReply v) = ListReply_Id v"
| "idOf (ReadRequest v) = ReadRequest_Id v"
| "idOf (WriteRequest v) = WriteRequest_Id v"
| "idOf (TransferReply v) = TransferReply_Id v"
| "idOf (FetchRequest v) = FetchRequest_Id v"
| "idOf (StoreRequest v) = StoreRequest_Id v"
| "idOf (StreamReply v) = StreamReply_Id v"
| "idOf (StreamDigest v) = StreamDigest_Id v"
| "idOf (MetaRequest v) = MetaRequest_Id v"
| "idOf (MetaReply v) = MetaReply_Id v"
| "idOf (StatFsRequest v) = StatFsRequest_Id v"
| "idOf (StatFsReply v) = StatFsReply_Id v"
| "idOf (OpenRequest v) = OpenRequest_Id v"
| "idOf (OpenReply v) = OpenReply_Id v"
| "idOf (CloseRequest v) = CloseRequest_Id v"
| "idOf _ = 0"

fun typeName :: "MsgType \<Rightarrow> string" where
  "typeName T_Hello = ''Hello''"
| "typeName T_HelloAck = ''HelloAck''"
| "typeName T_FileHeader = ''FileHeader''"
| "typeName T_Signature = ''Signature''"
| "typeName T_Copy = ''Copy''"
| "typeName T_Literal = ''Literal''"
| "typeName T_Done = ''Done''"
| "typeName T_Receipt = ''Receipt''"
| "typeName T_End = ''End''"
| "typeName T_Stat = ''Stat''"
| "typeName T_StatReply = ''StatReply''"
| "typeName T_List = ''List''"
| "typeName T_ListReply = ''ListReply''"
| "typeName T_Read = ''Read''"
| "typeName T_Write = ''Write''"
| "typeName T_TransferReply = ''TransferReply''"
| "typeName T_PeerEndpoint = ''PeerEndpoint''"
| "typeName T_Fetch = ''Fetch''"
| "typeName T_Store = ''Store''"
| "typeName T_StreamReply = ''StreamReply''"
| "typeName T_StreamDigest = ''StreamDigest''"
| "typeName T_Meta = ''Meta''"
| "typeName T_MetaReply = ''MetaReply''"
| "typeName T_StatFs = ''StatFs''"
| "typeName T_StatFsReply = ''StatFsReply''"
| "typeName T_Open = ''Open''"
| "typeName T_OpenReply = ''OpenReply''"
| "typeName T_Close = ''Close''"

definition tagSpan :: "u64 \<Rightarrow> u64 \<Rightarrow> u64" where
  "tagSpan Size PageSize = ((Size + PageSize - 1) div PageSize + 1) * PageSize"
section \<open>Lemmas\<close>

lemma type_of_code_type_code [simp]: "type_of_code (type_code t) = Some t"
  by (cases t) (simp_all add: type_of_code_def)

lemma type_code_inject: "type_code s = type_code t \<longleftrightarrow> s = t"
  by (metis option.inject type_of_code_type_code)

lemma type_of_code_Some: "type_of_code c = Some t \<Longrightarrow> c = type_code t"
  by (auto simp: type_of_code_def split: if_splits)

end
