(* ===== verification/Wire.thy ===== *)
theory Wire
  imports Rail_Prelude "HOL-Library.State_Monad"
begin

text \<open>
  The field-level encoding of \<^verbatim>\<open>include/rail/proto/codec.h\<close>: the \<^verbatim>\<open>Writer\<close> methods as
  functions from a value to the bytes they append, and the \<^verbatim>\<open>Reader\<close> class as a state
  monad over its three members (input span, position, sticky ok flag). The predicate
  \<open>well_read\<close> is what every composition of reads keeps (the input is not changed, the
  position stays inside it and never goes back, a failure is sticky, and a successful read
  is not affected by bytes behind what it consumed). The locale \<open>wire_field\<close> is the
  contract of an encoder/decoder pair; from it follow, once for all message types, the
  round trip with trailing bytes, injectivity and the rejection of truncated input.
\<close>

section \<open>Writer\<close>

definition w_u8 :: "u8 \<Rightarrow> byte list" where
  "w_u8 v = le_bytes 1 v"

definition w_u16 :: "u16 \<Rightarrow> byte list" where
  "w_u16 v = le_bytes 2 v"

definition w_u32 :: "u32 \<Rightarrow> byte list" where
  "w_u32 v = le_bytes 4 v"

definition w_u64 :: "u64 \<Rightarrow> byte list" where
  "w_u64 v = le_bytes 8 v"

definition w_i64 :: "i64 \<Rightarrow> byte list" where
  "w_i64 v = le_bytes 8 v"

text \<open>The idiom \<^verbatim>\<open>W.u8(V.Flag ? 1 : 0)\<close>.\<close>

definition w_bool :: "bool \<Rightarrow> byte list" where
  "w_bool b = w_u8 (if b then 1 else 0)"

text \<open>The length is cast to 32 bits, as the code does.\<close>

definition w_str :: "string \<Rightarrow> byte list" where
  "w_str s = w_u32 (of_nat (length s)) @ map byte_of_char s"

definition w_hash :: "byte list \<Rightarrow> byte list" where
  "w_hash h = h"

definition w_bytes :: "byte list \<Rightarrow> byte list" where
  "w_bytes b = w_u32 (of_nat (length b)) @ b"

section \<open>Reader\<close>

record Reader =
  rd_In :: "byte list"
  rd_Pos :: nat
  rd_Ok :: bool

definition open_Reader :: "byte list \<Rightarrow> Reader" where
  "open_Reader bs = \<lparr>rd_In = bs, rd_Pos = 0, rd_Ok = True\<rparr>"

definition remaining :: "Reader \<Rightarrow> nat" where
  "remaining R = length (rd_In R) - rd_Pos R"

text \<open>
  \<^verbatim>\<open>template <typename T> T read()\<close>: \<open>n\<close> is \<^verbatim>\<open>sizeof(T)\<close>. Positions are \<^verbatim>\<open>size_t\<close>
  values bounded by the frame size, so \<^verbatim>\<open>Pos + sizeof(T)\<close> does not wrap.
\<close>

definition r_read :: "nat \<Rightarrow> (Reader, 'a::len word) state" where
  "r_read n = State (\<lambda>R.
     if \<not> rd_Ok R \<or> length (rd_In R) < rd_Pos R + n then (0, R\<lparr>rd_Ok := False\<rparr>)
     else (le_word (take n (drop (rd_Pos R) (rd_In R))), R\<lparr>rd_Pos := rd_Pos R + n\<rparr>))"

definition r_u8 :: "(Reader, u8) state" where
  "r_u8 = r_read 1"

definition r_u16 :: "(Reader, u16) state" where
  "r_u16 = r_read 2"

definition r_u32 :: "(Reader, u32) state" where
  "r_u32 = r_read 4"

definition r_u64 :: "(Reader, u64) state" where
  "r_u64 = r_read 8"

definition r_i64 :: "(Reader, i64) state" where
  "r_i64 = r_read 8"

text \<open>The idiom \<^verbatim>\<open>V.Flag = R.u8() != 0\<close>.\<close>

definition r_bool :: "(Reader, bool) state" where
  "r_bool = do { b \<leftarrow> r_u8; State_Monad.return (b \<noteq> 0) }"

text \<open>The common tail of \<^verbatim>\<open>str()\<close> and \<^verbatim>\<open>hash()\<close>: \<open>n\<close> raw bytes, or \<open>d\<close> on failure.\<close>

definition r_raw :: "nat \<Rightarrow> byte list \<Rightarrow> (Reader, byte list) state" where
  "r_raw n d = State (\<lambda>R.
     if \<not> rd_Ok R \<or> length (rd_In R) < rd_Pos R + n then (d, R\<lparr>rd_Ok := False\<rparr>)
     else (take n (drop (rd_Pos R) (rd_In R)), R\<lparr>rd_Pos := rd_Pos R + n\<rparr>))"

definition r_str :: "(Reader, string) state" where
  "r_str = do { N \<leftarrow> r_u32; s \<leftarrow> r_raw (unat N) []; State_Monad.return (map char_of_byte s) }"

definition r_hash :: "(Reader, byte list) state" where
  "r_hash = r_raw 16 (replicate 16 0)"

text \<open>\<^verbatim>\<open>for (uint32_t I = 0; I < N && R.ok(); I++) V.push_back(read one)\<close>\<close>

primrec r_loop :: "nat \<Rightarrow> (Reader, 'a) state \<Rightarrow> (Reader, 'a list) state" where
  "r_loop 0 m = State_Monad.return []"
| "r_loop (Suc n) m = State (\<lambda>R.
     if rd_Ok R then run_state (do { x \<leftarrow> m; xs \<leftarrow> r_loop n m; State_Monad.return (x # xs) }) R
     else ([], R))"

section \<open>What every composition of reads keeps\<close>

lemma run_state_bind [simp]:
  "run_state (Monad_Syntax.bind m f) R = (case run_state m R of (x, R') \<Rightarrow> run_state (f x) R')"
  by (simp add: State_Monad.bind_def)

text \<open>
  \<open>well_read good m\<close>: \<open>good\<close> says which results count as a success, apart from the ok flag.
\<close>

definition well_read :: "('a \<Rightarrow> bool) \<Rightarrow> (Reader, 'a) state \<Rightarrow> bool" where
  "well_read good m \<longleftrightarrow> (\<forall>R x R'. run_state m R = (x, R') \<longrightarrow>
     rd_In R' = rd_In R \<and>
     (rd_Ok R' \<longrightarrow> rd_Ok R) \<and>
     rd_Pos R \<le> rd_Pos R' \<and>
     (rd_Pos R \<le> length (rd_In R) \<longrightarrow> rd_Pos R' \<le> length (rd_In R)) \<and>
     (rd_Pos R \<le> length (rd_In R) \<and> rd_Ok R' \<and> good x \<longrightarrow>
        (\<forall>ext. run_state m (R\<lparr>rd_In := rd_In R @ ext\<rparr>) = (x, R'\<lparr>rd_In := rd_In R @ ext\<rparr>))))"

lemma well_readI:
  assumes "\<And>R x R'. run_state m R = (x, R') \<Longrightarrow> rd_In R' = rd_In R"
    and "\<And>R x R'. run_state m R = (x, R') \<Longrightarrow> rd_Ok R' \<Longrightarrow> rd_Ok R"
    and "\<And>R x R'. run_state m R = (x, R') \<Longrightarrow> rd_Pos R \<le> rd_Pos R'"
    and "\<And>R x R'. run_state m R = (x, R') \<Longrightarrow> rd_Pos R \<le> length (rd_In R) \<Longrightarrow>
           rd_Pos R' \<le> length (rd_In R)"
    and "\<And>R x R' ext. run_state m R = (x, R') \<Longrightarrow> rd_Pos R \<le> length (rd_In R) \<Longrightarrow>
           rd_Ok R' \<Longrightarrow> good x \<Longrightarrow>
           run_state m (R\<lparr>rd_In := rd_In R @ ext\<rparr>) = (x, R'\<lparr>rd_In := rd_In R @ ext\<rparr>)"
  shows "well_read good m"
  using assms unfolding well_read_def by blast

lemma well_readD:
  assumes "well_read good m" and "run_state m R = (x, R')"
  shows "rd_In R' = rd_In R" and "rd_Ok R' \<Longrightarrow> rd_Ok R" and "rd_Pos R \<le> rd_Pos R'"
    and "rd_Pos R \<le> length (rd_In R) \<Longrightarrow> rd_Pos R' \<le> length (rd_In R)"
    and "rd_Pos R \<le> length (rd_In R) \<Longrightarrow> rd_Ok R' \<Longrightarrow> good x \<Longrightarrow>
         run_state m (R\<lparr>rd_In := rd_In R @ ext\<rparr>) = (x, R'\<lparr>rd_In := rd_In R @ ext\<rparr>)"
  using assms unfolding well_read_def by blast+

named_theorems well_read_intros \<open>closure of the reader contract under the reader operations\<close>

lemma well_read_return [well_read_intros, simp]: "well_read good (State_Monad.return x)"
  by (rule well_readI) auto

lemma well_read_bind [well_read_intros]:
  assumes m: "well_read (\<lambda>_. True) m" and f: "\<And>x. well_read good (f x)"
  shows "well_read good (Monad_Syntax.bind m f)"
proof (rule well_readI)
  fix R y R''
  assume run: "run_state (Monad_Syntax.bind m f) R = (y, R'')"
  then obtain x R' where mr: "run_state m R = (x, R')" and fr: "run_state (f x) R' = (y, R'')"
    by (auto split: prod.splits)
  note M = well_readD [OF m mr] and F = well_readD [OF f fr]
  show "rd_In R'' = rd_In R" using M(1) F(1) by simp
  show "rd_Ok R'' \<Longrightarrow> rd_Ok R" using M(2) F(2) by simp
  show "rd_Pos R \<le> rd_Pos R''" using M(3) F(3) by simp
  show "rd_Pos R'' \<le> length (rd_In R)" if "rd_Pos R \<le> length (rd_In R)"
    using M(1,4) F(4) that by simp
  show "run_state (Monad_Syntax.bind m f) (R\<lparr>rd_In := rd_In R @ ext\<rparr>) = (y, R''\<lparr>rd_In := rd_In R @ ext\<rparr>)"
    if "rd_Pos R \<le> length (rd_In R)" and "rd_Ok R''" and "good y" for ext
    using M(1,2,4) M(5) [of ext] F(2) F(5) [of ext] that by simp
qed

text \<open>The two primitives share one shape: \<open>n\<close> bytes mapped by \<open>g\<close>, or a default.\<close>

lemma well_read_prim:
  assumes "m = State (\<lambda>R.
     if \<not> rd_Ok R \<or> length (rd_In R) < rd_Pos R + n then (d, R\<lparr>rd_Ok := False\<rparr>)
     else (g (take n (drop (rd_Pos R) (rd_In R))), R\<lparr>rd_Pos := rd_Pos R + n\<rparr>))"
  shows "well_read good m"
  unfolding assms by (rule well_readI) (auto split: if_splits)

lemma well_read_read [well_read_intros]: "well_read good (r_read n)"
  by (rule well_read_prim [OF r_read_def])

lemma well_read_raw [well_read_intros]: "well_read good (r_raw n d)"
  by (rule well_read_prim [where g = "\<lambda>x. x", OF r_raw_def])

lemma well_read_fields [well_read_intros]:
  "well_read g8 r_u8" "well_read g16 r_u16" "well_read g32 r_u32" "well_read g64 r_u64"
  "well_read gi r_i64" "well_read gh r_hash"
  by (simp_all add: r_u8_def r_u16_def r_u32_def r_u64_def r_i64_def r_hash_def
        well_read_read well_read_raw)

lemma well_read_bool [well_read_intros]: "well_read good r_bool"
  unfolding r_bool_def by (intro well_read_intros)

lemma well_read_str [well_read_intros]: "well_read good r_str"
  unfolding r_str_def by (intro well_read_intros)

lemma well_read_if [well_read_intros]:
  assumes "well_read good m"
  shows "well_read good (State (\<lambda>R. if rd_Ok R then run_state m R else (d, R)))"
proof (rule well_readI)
  fix R x R'
  assume "run_state (State (\<lambda>R. if rd_Ok R then run_state m R else (d, R))) R = (x, R')"
  then have run: "if rd_Ok R then run_state m R = (x, R') else x = d \<and> R' = R"
    by (auto split: if_splits)
  show "rd_In R' = rd_In R" using run well_readD(1) [OF assms] by (auto split: if_splits)
  show "rd_Ok R' \<Longrightarrow> rd_Ok R" using run by (auto split: if_splits)
  show "rd_Pos R \<le> rd_Pos R'" using run well_readD(3) [OF assms] by (auto split: if_splits)
  show "rd_Pos R' \<le> length (rd_In R)" if "rd_Pos R \<le> length (rd_In R)"
    using run well_readD(4) [OF assms] that by (auto split: if_splits)
  show "run_state (State (\<lambda>R. if rd_Ok R then run_state m R else (d, R))) (R\<lparr>rd_In := rd_In R @ ext\<rparr>)
      = (x, R'\<lparr>rd_In := rd_In R @ ext\<rparr>)"
    if "rd_Pos R \<le> length (rd_In R)" and "rd_Ok R'" and "good x" for ext
    using run well_readD(2,5) [OF assms] that by (auto split: if_splits)
qed

lemma well_read_loop [well_read_intros]:
  assumes "well_read (\<lambda>_. True) m"
  shows "well_read (\<lambda>_. True) (r_loop n m)"
proof (induction n)
  case 0
  then show ?case by simp
next
  case (Suc n)
  show ?case
    unfolding r_loop.simps
    by (rule well_read_if) (intro well_read_bind assms Suc.IH well_read_return)
qed

section \<open>The contract of an encoder/decoder pair\<close>

text \<open>A reader standing after \<open>pre\<close>, with \<open>rest\<close> still to come.\<close>

definition reader_at :: "byte list \<Rightarrow> byte list \<Rightarrow> Reader" where
  "reader_at pre rest = \<lparr>rd_In = pre @ rest, rd_Pos = length pre, rd_Ok = True\<rparr>"

lemma open_Reader_at: "open_Reader bs = reader_at [] bs"
  by (simp add: open_Reader_def reader_at_def)

lemma reader_at_simps [simp]:
  "rd_In (reader_at pre rest) = pre @ rest"
  "rd_Pos (reader_at pre rest) = length pre"
  "rd_Ok (reader_at pre rest)"
  "remaining (reader_at pre rest) = length rest"
  by (simp_all add: reader_at_def remaining_def)

locale wire_field =
  fixes put :: "'a \<Rightarrow> byte list"
    and get :: "(Reader, 'b) state"
    and ret :: "'a \<Rightarrow> 'b"
    and good :: "'b \<Rightarrow> bool"
    and wf :: "'a \<Rightarrow> bool"
  assumes get_put: "wf v \<Longrightarrow>
      run_state get (reader_at pre (put v @ rest)) = (ret v, reader_at (pre @ put v) rest)"
    and get_well: "well_read good get"
    and ret_inj: "ret v = ret v' \<Longrightarrow> v = v'"
begin

lemma put_inj:
  assumes "wf v" and "wf v'" and "put v = put v'"
  shows "v = v'"
proof -
  have "ret v = ret v'"
    using get_put [OF assms(1), of "[]" "[]"] get_put [OF assms(2), of "[]" "[]"] assms(3) by simp
  then show ?thesis by (rule ret_inj)
qed

text \<open>An encoding cut short is refused: the reader fails or the result is no success.\<close>

lemma truncated:
  assumes wf: "wf v" and k: "k < length (put v)"
    and run: "run_state get (open_Reader (take k (put v))) = (x, R')"
  shows "\<not> (rd_Ok R' \<and> good x)"
proof
  assume ok: "rd_Ok R' \<and> good x"
  let ?R = "open_Reader (take k (put v))"
  note W = well_readD [OF get_well run]
  have ext: "?R\<lparr>rd_In := rd_In ?R @ drop k (put v)\<rparr> = open_Reader (put v)"
    by (simp add: open_Reader_def)
  have "run_state get (open_Reader (put v)) = (x, R'\<lparr>rd_In := rd_In ?R @ drop k (put v)\<rparr>)"
    using W(5) [of "drop k (put v)"] ok unfolding ext by (simp add: open_Reader_def)
  moreover have "run_state get (open_Reader (put v)) = (ret v, reader_at (put v) [])"
    using get_put [OF wf, of "[]" "[]"] by (simp add: open_Reader_at)
  ultimately have "R'\<lparr>rd_In := rd_In ?R @ drop k (put v)\<rparr> = reader_at (put v) []"
    by simp
  then have "rd_Pos (R'\<lparr>rd_In := rd_In ?R @ drop k (put v)\<rparr>) = length (put v)"
    by (simp only: reader_at_simps)
  then have "rd_Pos R' = length (put v)" by simp
  moreover have "rd_Pos R' \<le> k"
    using W(4) k by (simp add: open_Reader_def)
  ultimately show False using k by simp
qed

end

section \<open>The primitive fields keep the contract\<close>

lemma r_read_at [simp]:
  fixes w :: "'a::len word"
  assumes "LENGTH('a) = 8 * n"
  shows "run_state (r_read n) (reader_at pre (le_bytes n w @ rest)) = (w, reader_at (pre @ le_bytes n w) rest)"
  using le_word_le_bytes [OF assms] by (simp add: r_read_def reader_at_def)

lemma r_raw_at [simp]:
  "n = length bs \<Longrightarrow>
     run_state (r_raw n d) (reader_at pre (bs @ rest)) = (bs, reader_at (pre @ bs) rest)"
  by (simp add: r_raw_def reader_at_def)

named_theorems wire_simps \<open>reading back what the writer appended\<close>

lemma r_fields_at [wire_simps]:
  "run_state r_u8 (reader_at pre (w_u8 a @ rest)) = (a, reader_at (pre @ w_u8 a) rest)"
  "run_state r_u16 (reader_at pre (w_u16 b @ rest)) = (b, reader_at (pre @ w_u16 b) rest)"
  "run_state r_u32 (reader_at pre (w_u32 c @ rest)) = (c, reader_at (pre @ w_u32 c) rest)"
  "run_state r_u64 (reader_at pre (w_u64 d @ rest)) = (d, reader_at (pre @ w_u64 d) rest)"
  "run_state r_i64 (reader_at pre (w_i64 e @ rest)) = (e, reader_at (pre @ w_i64 e) rest)"
  by (simp_all add: r_u8_def r_u16_def r_u32_def r_u64_def r_i64_def
        w_u8_def w_u16_def w_u32_def w_u64_def w_i64_def)

lemma r_bool_at [wire_simps]:
  "run_state r_bool (reader_at pre (w_bool b @ rest)) = (b, reader_at (pre @ w_bool b) rest)"
  by (simp add: r_bool_def w_bool_def r_fields_at)

lemma r_hash_at [wire_simps]:
  "length h = 16 \<Longrightarrow>
     run_state r_hash (reader_at pre (w_hash h @ rest)) = (h, reader_at (pre @ w_hash h) rest)"
  by (simp add: r_hash_def w_hash_def)

definition wf_str :: "string \<Rightarrow> bool" where
  "wf_str s = (length s < 2 ^ 32)"

lemma r_str_at [wire_simps]:
  assumes "wf_str s"
  shows "run_state r_str (reader_at pre (w_str s @ rest)) = (s, reader_at (pre @ w_str s) rest)"
proof -
  have "unat (of_nat (length s) :: u32) = length s"
    using assms by (simp add: wf_str_def unat_of_nat_small)
  then show ?thesis
    by (simp add: r_str_def w_str_def r_fields_at)
qed

lemma r_loop_at:
  assumes "\<And>v pre rest. v \<in> set vs \<Longrightarrow>
      run_state get (reader_at pre (put v @ rest)) = (v, reader_at (pre @ put v) rest)"
  shows "run_state (r_loop (length vs) get) (reader_at pre (concat (map put vs) @ rest)) =
      (vs, reader_at (pre @ concat (map put vs)) rest)"
  using assms
proof (induction vs arbitrary: pre)
  case Nil
  then show ?case by simp
next
  case (Cons v vs)
  then show ?case by simp
qed

interpretation u8_field: wire_field w_u8 r_u8 "\<lambda>v. v" "\<lambda>_. True" "\<lambda>_. True"
  by unfold_locales (simp_all add: wire_simps well_read_fields)

interpretation u16_field: wire_field w_u16 r_u16 "\<lambda>v. v" "\<lambda>_. True" "\<lambda>_. True"
  by unfold_locales (simp_all add: wire_simps well_read_fields)

interpretation u32_field: wire_field w_u32 r_u32 "\<lambda>v. v" "\<lambda>_. True" "\<lambda>_. True"
  by unfold_locales (simp_all add: wire_simps well_read_fields)

interpretation u64_field: wire_field w_u64 r_u64 "\<lambda>v. v" "\<lambda>_. True" "\<lambda>_. True"
  by unfold_locales (simp_all add: wire_simps well_read_fields)

interpretation str_field: wire_field w_str r_str "\<lambda>v. v" "\<lambda>_. True" wf_str
  by unfold_locales (simp_all add: wire_simps well_read_str)

end
