(* ===== verification/Codec.thy ===== *)
theory Codec
  imports Message Wire
begin

text \<open>
  \<^verbatim>\<open>src/proto/codec.cc\<close>: one definition per case of \<^verbatim>\<open>encode\<close> and of the switch of
  \<^verbatim>\<open>decode\<close>, in wire order, composed by \<open>encode\<close> and \<open>decode\<close>. The two messages
  that carry a count (\<^verbatim>\<open>Signature\<close>, \<^verbatim>\<open>ListReply\<close>) check it against the bytes that are
  left before they reserve memory, and answer with an error of their own. Every pair is an
  interpretation of \<open>wire_field\<close>; the theorems are the round trip, that an encoding cut
  short is refused, that bytes behind it are ignored, and that the counts accepted are
  bounded by the payload.
\<close>

section \<open>Encoding and decoding, field by field\<close>

definition writeAttrs :: "FileAttrs \<Rightarrow> byte list" where
  "writeAttrs v =
     w_u64 (FileAttrs_Size v) @
     w_u64 (FileAttrs_Dev v) @
     w_u64 (FileAttrs_Ino v) @
     w_u32 (FileAttrs_Mode v) @
     w_u32 (FileAttrs_Uid v) @
     w_u32 (FileAttrs_Gid v) @
     w_i64 (FileAttrs_Mtime v) @
     w_bool (FileAttrs_Directory v) @
     w_bool (FileAttrs_Link v) @
     w_u32 (FileAttrs_Links v)"

definition readAttrs :: "(Reader, FileAttrs) state" where
  "readAttrs = do {
     vSize \<leftarrow> r_u64;
     vDev \<leftarrow> r_u64;
     vIno \<leftarrow> r_u64;
     vMode \<leftarrow> r_u32;
     vUid \<leftarrow> r_u32;
     vGid \<leftarrow> r_u32;
     vMtime \<leftarrow> r_i64;
     vDirectory \<leftarrow> r_bool;
     vLink \<leftarrow> r_bool;
     vLinks \<leftarrow> r_u32;
     State_Monad.return \<lparr>FileAttrs_Size = vSize, FileAttrs_Dev = vDev,
       FileAttrs_Ino = vIno, FileAttrs_Mode = vMode, FileAttrs_Uid = vUid,
       FileAttrs_Gid = vGid, FileAttrs_Mtime = vMtime, FileAttrs_Directory = vDirectory,
       FileAttrs_Link = vLink, FileAttrs_Links = vLinks\<rparr>
   }"

definition write_BlockSum :: "BlockSum \<Rightarrow> byte list" where
  "write_BlockSum v =
     w_u32 (BlockSum_Weak v) @
     w_hash (BlockSum_Strong v)"

definition read_BlockSum :: "(Reader, BlockSum) state" where
  "read_BlockSum = do {
     vWeak \<leftarrow> r_u32;
     vStrong \<leftarrow> r_hash;
     State_Monad.return \<lparr>BlockSum_Weak = vWeak, BlockSum_Strong = vStrong\<rparr>
   }"

definition write_ListEntry :: "ListEntry \<Rightarrow> byte list" where
  "write_ListEntry v =
     w_str (ListEntry_Name v) @
     writeAttrs (ListEntry_Attrs v)"

definition read_ListEntry :: "(Reader, ListEntry) state" where
  "read_ListEntry = do {
     vName \<leftarrow> r_str;
     vAttrs \<leftarrow> readAttrs;
     State_Monad.return \<lparr>ListEntry_Name = vName, ListEntry_Attrs = vAttrs\<rparr>
   }"

definition encode_Hello :: "Hello \<Rightarrow> byte list" where
  "encode_Hello v =
     w_u16 (Hello_Version v) @
     w_str (Hello_Backend v) @
     w_u32 (Hello_BlockSize v) @
     w_u64 (Hello_PageCount v) @
     w_u64 (Hello_PageSize v) @
     w_u64 (Hello_WindowPages v) @
     w_bool (Hello_Recursive v) @
     w_bool (Hello_Verify v) @
     w_u8 (Hello_Sum v)"

definition encode_HelloAck :: "HelloAck \<Rightarrow> byte list" where
  "encode_HelloAck v =
     w_str (HelloAck_Backend v) @
     w_str (HelloAck_ChannelEndpoint v)"

definition encode_FileHeader :: "FileHeader \<Rightarrow> byte list" where
  "encode_FileHeader v =
     w_str (FileHeader_Name v) @
     w_u64 (FileHeader_Size v) @
     w_u32 (FileHeader_Mode v) @
     w_i64 (FileHeader_Mtime v) @
     w_bool (FileHeader_Directory v) @
     w_bool (FileHeader_WantSignature v) @
     w_bool (FileHeader_Streamed v) @
     w_bool (FileHeader_Link v) @
     w_str (FileHeader_Target v)"

definition encode_Signature :: "Signature \<Rightarrow> byte list" where
  "encode_Signature v =
     w_u32 (Signature_BlockLength v) @
     w_u32 (Signature_StrongLength v) @
     w_u64 (Signature_FileLength v) @
     w_u32 (of_nat (length (Signature_Sums v))) @
     concat (map write_BlockSum (Signature_Sums v))"

definition encode_Copy :: "Copy \<Rightarrow> byte list" where
  "encode_Copy v =
     w_u32 (Copy_BlockIndex v) @
     w_u32 (Copy_Count v) @
     w_u64 (Copy_DstOffset v)"

definition encode_Literal :: "Literal \<Rightarrow> byte list" where
  "encode_Literal v =
     w_u64 (Literal_Offset v) @
     w_u32 (Literal_Length v)"

definition encode_Done :: "Done \<Rightarrow> byte list" where
  "encode_Done v =
     w_hash (Done_WholeFileHash v)"

definition encode_Receipt :: "Receipt \<Rightarrow> byte list" where
  "encode_Receipt v =
     w_u64 (Receipt_LiteralBytes v) @
     w_u64 (Receipt_MatchedBytes v) @
     w_u64 (Receipt_HashHits v) @
     w_u64 (Receipt_FalseAlarms v)"

definition encode_StatRequest :: "StatRequest \<Rightarrow> byte list" where
  "encode_StatRequest v =
     w_u64 (StatRequest_Id v) @
     w_str (StatRequest_Path v)"

definition encode_StatReply :: "StatReply \<Rightarrow> byte list" where
  "encode_StatReply v =
     w_u64 (StatReply_Id v) @
     w_bool (StatReply_Found v) @
     writeAttrs (StatReply_Attrs v)"

definition encode_ListRequest :: "ListRequest \<Rightarrow> byte list" where
  "encode_ListRequest v =
     w_u64 (ListRequest_Id v) @
     w_str (ListRequest_Path v)"

definition encode_ListReply :: "ListReply \<Rightarrow> byte list" where
  "encode_ListReply v =
     w_u64 (ListReply_Id v) @
     w_bool (ListReply_Found v) @
     w_u32 (of_nat (length (ListReply_Entries v))) @
     concat (map write_ListEntry (ListReply_Entries v)) @
     writeAttrs (ListReply_Self v) @
     writeAttrs (ListReply_Parent v)"

definition encode_ReadRequest :: "ReadRequest \<Rightarrow> byte list" where
  "encode_ReadRequest v =
     w_u64 (ReadRequest_Id v) @
     w_str (ReadRequest_Path v) @
     w_u64 (ReadRequest_Offset v) @
     w_u32 (ReadRequest_Length v) @
     w_u64 (ReadRequest_Handle v)"

definition encode_WriteRequest :: "WriteRequest \<Rightarrow> byte list" where
  "encode_WriteRequest v =
     w_u64 (WriteRequest_Id v) @
     w_str (WriteRequest_Path v) @
     w_u64 (WriteRequest_Offset v) @
     w_u32 (WriteRequest_Length v) @
     w_bool (WriteRequest_Truncate v) @
     w_hash (WriteRequest_Payload v) @
     w_u64 (WriteRequest_Handle v)"

definition encode_TransferReply :: "TransferReply \<Rightarrow> byte list" where
  "encode_TransferReply v =
     w_u64 (TransferReply_Id v) @
     w_u32 (TransferReply_Length v) @
     w_u64 (TransferReply_FileSize v) @
     w_bool (TransferReply_Ok v) @
     w_hash (TransferReply_Payload v) @
     w_str (TransferReply_Error v)"

definition encode_PeerEndpoint :: "PeerEndpoint \<Rightarrow> byte list" where
  "encode_PeerEndpoint v =
     w_str (PeerEndpoint_Blob v)"

definition encode_FetchRequest :: "FetchRequest \<Rightarrow> byte list" where
  "encode_FetchRequest v =
     w_u64 (FetchRequest_Id v) @
     w_u64 (FetchRequest_TagBase v) @
     w_str (FetchRequest_Path v) @
     w_u64 (FetchRequest_Offset v) @
     w_u64 (FetchRequest_Length v) @
     w_u64 (FetchRequest_Handle v)"

definition encode_StoreRequest :: "StoreRequest \<Rightarrow> byte list" where
  "encode_StoreRequest v =
     w_u64 (StoreRequest_Id v) @
     w_u64 (StoreRequest_TagBase v) @
     w_str (StoreRequest_Path v) @
     w_u64 (StoreRequest_Offset v) @
     w_u64 (StoreRequest_Length v) @
     w_bool (StoreRequest_Truncate v) @
     w_u64 (StoreRequest_Handle v)"

definition encode_StreamReply :: "StreamReply \<Rightarrow> byte list" where
  "encode_StreamReply v =
     w_u64 (StreamReply_Id v) @
     w_u64 (StreamReply_Length v) @
     w_bool (StreamReply_Ok v) @
     w_str (StreamReply_Error v)"

definition encode_StreamDigest :: "StreamDigest \<Rightarrow> byte list" where
  "encode_StreamDigest v =
     w_u64 (StreamDigest_Id v) @
     w_hash (StreamDigest_Whole v) @
     w_bool (StreamDigest_Ok v) @
     w_str (StreamDigest_Error v)"

definition encode_MetaRequest :: "MetaRequest \<Rightarrow> byte list" where
  "encode_MetaRequest v =
     w_u64 (MetaRequest_Id v) @
     w_u16 (MetaRequest_Op v) @
     w_str (MetaRequest_Path v) @
     w_str (MetaRequest_Target v) @
     w_u64 (MetaRequest_Size v) @
     w_u32 (MetaRequest_Mode v) @
     w_i64 (MetaRequest_Mtime v) @
     w_u64 (MetaRequest_Handle v) @
     w_bool (MetaRequest_Exclusive v)"

definition encode_MetaReply :: "MetaReply \<Rightarrow> byte list" where
  "encode_MetaReply v =
     w_u64 (MetaReply_Id v) @
     w_bool (MetaReply_Ok v) @
     w_str (MetaReply_Error v) @
     w_str (MetaReply_Target v) @
     w_u32 (MetaReply_Errno v) @
     writeAttrs (MetaReply_Attrs v)"

definition encode_StatFsRequest :: "StatFsRequest \<Rightarrow> byte list" where
  "encode_StatFsRequest v =
     w_u64 (StatFsRequest_Id v) @
     w_str (StatFsRequest_Path v)"

definition encode_StatFsReply :: "StatFsReply \<Rightarrow> byte list" where
  "encode_StatFsReply v =
     w_u64 (StatFsReply_Id v) @
     w_bool (StatFsReply_Ok v) @
     w_u64 (StatFsReply_BlockSize v) @
     w_u64 (StatFsReply_Blocks v) @
     w_u64 (StatFsReply_BlocksFree v) @
     w_u64 (StatFsReply_Files v) @
     w_u64 (StatFsReply_FilesFree v) @
     w_str (StatFsReply_Error v)"

definition encode_OpenRequest :: "OpenRequest \<Rightarrow> byte list" where
  "encode_OpenRequest v =
     w_u64 (OpenRequest_Id v) @
     w_str (OpenRequest_Path v) @
     w_bool (OpenRequest_Writable v)"

definition encode_OpenReply :: "OpenReply \<Rightarrow> byte list" where
  "encode_OpenReply v =
     w_u64 (OpenReply_Id v) @
     w_bool (OpenReply_Ok v) @
     w_bool (OpenReply_Found v) @
     w_u64 (OpenReply_Handle v) @
     writeAttrs (OpenReply_Attrs v) @
     w_str (OpenReply_Error v) @
     w_u32 (OpenReply_Errno v)"

definition encode_CloseRequest :: "CloseRequest \<Rightarrow> byte list" where
  "encode_CloseRequest v =
     w_u64 (CloseRequest_Id v) @
     w_u64 (CloseRequest_Handle v)"

fun encode :: "Message \<Rightarrow> byte list" where
  "encode (Hello v) = encode_Hello v"
| "encode (HelloAck v) = encode_HelloAck v"
| "encode (FileHeader v) = encode_FileHeader v"
| "encode (Signature v) = encode_Signature v"
| "encode (Copy v) = encode_Copy v"
| "encode (Literal v) = encode_Literal v"
| "encode (Done v) = encode_Done v"
| "encode (Receipt v) = encode_Receipt v"
| "encode End = []"
| "encode (StatRequest v) = encode_StatRequest v"
| "encode (StatReply v) = encode_StatReply v"
| "encode (ListRequest v) = encode_ListRequest v"
| "encode (ListReply v) = encode_ListReply v"
| "encode (ReadRequest v) = encode_ReadRequest v"
| "encode (WriteRequest v) = encode_WriteRequest v"
| "encode (TransferReply v) = encode_TransferReply v"
| "encode (PeerEndpoint v) = encode_PeerEndpoint v"
| "encode (FetchRequest v) = encode_FetchRequest v"
| "encode (StoreRequest v) = encode_StoreRequest v"
| "encode (StreamReply v) = encode_StreamReply v"
| "encode (StreamDigest v) = encode_StreamDigest v"
| "encode (MetaRequest v) = encode_MetaRequest v"
| "encode (MetaReply v) = encode_MetaReply v"
| "encode (StatFsRequest v) = encode_StatFsRequest v"
| "encode (StatFsReply v) = encode_StatFsReply v"
| "encode (OpenRequest v) = encode_OpenRequest v"
| "encode (OpenReply v) = encode_OpenReply v"
| "encode (CloseRequest v) = encode_CloseRequest v"

definition decode_Hello :: "(Reader, Hello) state" where
  "decode_Hello = do {
     vVersion \<leftarrow> r_u16;
     vBackend \<leftarrow> r_str;
     vBlockSize \<leftarrow> r_u32;
     vPageCount \<leftarrow> r_u64;
     vPageSize \<leftarrow> r_u64;
     vWindowPages \<leftarrow> r_u64;
     vRecursive \<leftarrow> r_bool;
     vVerify \<leftarrow> r_bool;
     vSum \<leftarrow> r_u8;
     State_Monad.return \<lparr>Hello_Version = vVersion, Hello_Backend = vBackend,
       Hello_BlockSize = vBlockSize, Hello_PageCount = vPageCount, Hello_PageSize = vPageSize,
       Hello_WindowPages = vWindowPages, Hello_Recursive = vRecursive, Hello_Verify = vVerify,
       Hello_Sum = vSum\<rparr>
   }"

definition decode_HelloAck :: "(Reader, HelloAck) state" where
  "decode_HelloAck = do {
     vBackend \<leftarrow> r_str;
     vChannelEndpoint \<leftarrow> r_str;
     State_Monad.return \<lparr>HelloAck_Backend = vBackend,
       HelloAck_ChannelEndpoint = vChannelEndpoint\<rparr>
   }"

definition decode_FileHeader :: "(Reader, FileHeader) state" where
  "decode_FileHeader = do {
     vName \<leftarrow> r_str;
     vSize \<leftarrow> r_u64;
     vMode \<leftarrow> r_u32;
     vMtime \<leftarrow> r_i64;
     vDirectory \<leftarrow> r_bool;
     vWantSignature \<leftarrow> r_bool;
     vStreamed \<leftarrow> r_bool;
     vLink \<leftarrow> r_bool;
     vTarget \<leftarrow> r_str;
     State_Monad.return \<lparr>FileHeader_Name = vName, FileHeader_Size = vSize,
       FileHeader_Mode = vMode, FileHeader_Mtime = vMtime, FileHeader_Directory = vDirectory,
       FileHeader_Link = vLink, FileHeader_Target = vTarget,
       FileHeader_WantSignature = vWantSignature, FileHeader_Streamed = vStreamed\<rparr>
   }"

definition decode_Copy :: "(Reader, Copy) state" where
  "decode_Copy = do {
     vBlockIndex \<leftarrow> r_u32;
     vCount \<leftarrow> r_u32;
     vDstOffset \<leftarrow> r_u64;
     State_Monad.return \<lparr>Copy_BlockIndex = vBlockIndex, Copy_Count = vCount,
       Copy_DstOffset = vDstOffset\<rparr>
   }"

definition decode_Literal :: "(Reader, Literal) state" where
  "decode_Literal = do {
     vOffset \<leftarrow> r_u64;
     vLength \<leftarrow> r_u32;
     State_Monad.return \<lparr>Literal_Offset = vOffset, Literal_Length = vLength\<rparr>
   }"

definition decode_Done :: "(Reader, Done) state" where
  "decode_Done = do {
     vWholeFileHash \<leftarrow> r_hash;
     State_Monad.return \<lparr>Done_WholeFileHash = vWholeFileHash\<rparr>
   }"

definition decode_Receipt :: "(Reader, Receipt) state" where
  "decode_Receipt = do {
     vLiteralBytes \<leftarrow> r_u64;
     vMatchedBytes \<leftarrow> r_u64;
     vHashHits \<leftarrow> r_u64;
     vFalseAlarms \<leftarrow> r_u64;
     State_Monad.return \<lparr>Receipt_LiteralBytes = vLiteralBytes,
       Receipt_MatchedBytes = vMatchedBytes, Receipt_HashHits = vHashHits,
       Receipt_FalseAlarms = vFalseAlarms\<rparr>
   }"

definition decode_StatRequest :: "(Reader, StatRequest) state" where
  "decode_StatRequest = do {
     vId \<leftarrow> r_u64;
     vPath \<leftarrow> r_str;
     State_Monad.return \<lparr>StatRequest_Id = vId, StatRequest_Path = vPath\<rparr>
   }"

definition decode_StatReply :: "(Reader, StatReply) state" where
  "decode_StatReply = do {
     vId \<leftarrow> r_u64;
     vFound \<leftarrow> r_bool;
     vAttrs \<leftarrow> readAttrs;
     State_Monad.return \<lparr>StatReply_Id = vId, StatReply_Found = vFound,
       StatReply_Attrs = vAttrs\<rparr>
   }"

definition decode_ListRequest :: "(Reader, ListRequest) state" where
  "decode_ListRequest = do {
     vId \<leftarrow> r_u64;
     vPath \<leftarrow> r_str;
     State_Monad.return \<lparr>ListRequest_Id = vId, ListRequest_Path = vPath\<rparr>
   }"

definition decode_ReadRequest :: "(Reader, ReadRequest) state" where
  "decode_ReadRequest = do {
     vId \<leftarrow> r_u64;
     vPath \<leftarrow> r_str;
     vOffset \<leftarrow> r_u64;
     vLength \<leftarrow> r_u32;
     vHandle \<leftarrow> r_u64;
     State_Monad.return \<lparr>ReadRequest_Id = vId, ReadRequest_Path = vPath,
       ReadRequest_Offset = vOffset, ReadRequest_Length = vLength,
       ReadRequest_Handle = vHandle\<rparr>
   }"

definition decode_WriteRequest :: "(Reader, WriteRequest) state" where
  "decode_WriteRequest = do {
     vId \<leftarrow> r_u64;
     vPath \<leftarrow> r_str;
     vOffset \<leftarrow> r_u64;
     vLength \<leftarrow> r_u32;
     vTruncate \<leftarrow> r_bool;
     vPayload \<leftarrow> r_hash;
     vHandle \<leftarrow> r_u64;
     State_Monad.return \<lparr>WriteRequest_Id = vId, WriteRequest_Path = vPath,
       WriteRequest_Offset = vOffset, WriteRequest_Length = vLength,
       WriteRequest_Truncate = vTruncate, WriteRequest_Payload = vPayload,
       WriteRequest_Handle = vHandle\<rparr>
   }"

definition decode_TransferReply :: "(Reader, TransferReply) state" where
  "decode_TransferReply = do {
     vId \<leftarrow> r_u64;
     vLength \<leftarrow> r_u32;
     vFileSize \<leftarrow> r_u64;
     vOk \<leftarrow> r_bool;
     vPayload \<leftarrow> r_hash;
     vError \<leftarrow> r_str;
     State_Monad.return \<lparr>TransferReply_Id = vId, TransferReply_Length = vLength,
       TransferReply_FileSize = vFileSize, TransferReply_Ok = vOk,
       TransferReply_Payload = vPayload, TransferReply_Error = vError\<rparr>
   }"

definition decode_PeerEndpoint :: "(Reader, PeerEndpoint) state" where
  "decode_PeerEndpoint = do {
     vBlob \<leftarrow> r_str;
     State_Monad.return \<lparr>PeerEndpoint_Blob = vBlob\<rparr>
   }"

definition decode_FetchRequest :: "(Reader, FetchRequest) state" where
  "decode_FetchRequest = do {
     vId \<leftarrow> r_u64;
     vTagBase \<leftarrow> r_u64;
     vPath \<leftarrow> r_str;
     vOffset \<leftarrow> r_u64;
     vLength \<leftarrow> r_u64;
     vHandle \<leftarrow> r_u64;
     State_Monad.return \<lparr>FetchRequest_Id = vId, FetchRequest_TagBase = vTagBase,
       FetchRequest_Path = vPath, FetchRequest_Offset = vOffset, FetchRequest_Length = vLength,
       FetchRequest_Handle = vHandle\<rparr>
   }"

definition decode_StoreRequest :: "(Reader, StoreRequest) state" where
  "decode_StoreRequest = do {
     vId \<leftarrow> r_u64;
     vTagBase \<leftarrow> r_u64;
     vPath \<leftarrow> r_str;
     vOffset \<leftarrow> r_u64;
     vLength \<leftarrow> r_u64;
     vTruncate \<leftarrow> r_bool;
     vHandle \<leftarrow> r_u64;
     State_Monad.return \<lparr>StoreRequest_Id = vId, StoreRequest_TagBase = vTagBase,
       StoreRequest_Path = vPath, StoreRequest_Offset = vOffset, StoreRequest_Length = vLength,
       StoreRequest_Truncate = vTruncate, StoreRequest_Handle = vHandle\<rparr>
   }"

definition decode_StreamReply :: "(Reader, StreamReply) state" where
  "decode_StreamReply = do {
     vId \<leftarrow> r_u64;
     vLength \<leftarrow> r_u64;
     vOk \<leftarrow> r_bool;
     vError \<leftarrow> r_str;
     State_Monad.return \<lparr>StreamReply_Id = vId, StreamReply_Length = vLength,
       StreamReply_Ok = vOk, StreamReply_Error = vError\<rparr>
   }"

definition decode_StreamDigest :: "(Reader, StreamDigest) state" where
  "decode_StreamDigest = do {
     vId \<leftarrow> r_u64;
     vWhole \<leftarrow> r_hash;
     vOk \<leftarrow> r_bool;
     vError \<leftarrow> r_str;
     State_Monad.return \<lparr>StreamDigest_Id = vId, StreamDigest_Whole = vWhole,
       StreamDigest_Ok = vOk, StreamDigest_Error = vError\<rparr>
   }"

definition decode_MetaRequest :: "(Reader, MetaRequest) state" where
  "decode_MetaRequest = do {
     vId \<leftarrow> r_u64;
     vOp \<leftarrow> r_u16;
     vPath \<leftarrow> r_str;
     vTarget \<leftarrow> r_str;
     vSize \<leftarrow> r_u64;
     vMode \<leftarrow> r_u32;
     vMtime \<leftarrow> r_i64;
     vHandle \<leftarrow> r_u64;
     vExclusive \<leftarrow> r_bool;
     State_Monad.return \<lparr>MetaRequest_Id = vId, MetaRequest_Op = vOp,
       MetaRequest_Path = vPath, MetaRequest_Target = vTarget, MetaRequest_Size = vSize,
       MetaRequest_Mode = vMode, MetaRequest_Mtime = vMtime, MetaRequest_Handle = vHandle,
       MetaRequest_Exclusive = vExclusive\<rparr>
   }"

definition decode_MetaReply :: "(Reader, MetaReply) state" where
  "decode_MetaReply = do {
     vId \<leftarrow> r_u64;
     vOk \<leftarrow> r_bool;
     vError \<leftarrow> r_str;
     vTarget \<leftarrow> r_str;
     vErrno \<leftarrow> r_u32;
     vAttrs \<leftarrow> readAttrs;
     State_Monad.return \<lparr>MetaReply_Id = vId, MetaReply_Ok = vOk,
       MetaReply_Error = vError, MetaReply_Target = vTarget, MetaReply_Errno = vErrno,
       MetaReply_Attrs = vAttrs\<rparr>
   }"

definition decode_StatFsRequest :: "(Reader, StatFsRequest) state" where
  "decode_StatFsRequest = do {
     vId \<leftarrow> r_u64;
     vPath \<leftarrow> r_str;
     State_Monad.return \<lparr>StatFsRequest_Id = vId, StatFsRequest_Path = vPath\<rparr>
   }"

definition decode_StatFsReply :: "(Reader, StatFsReply) state" where
  "decode_StatFsReply = do {
     vId \<leftarrow> r_u64;
     vOk \<leftarrow> r_bool;
     vBlockSize \<leftarrow> r_u64;
     vBlocks \<leftarrow> r_u64;
     vBlocksFree \<leftarrow> r_u64;
     vFiles \<leftarrow> r_u64;
     vFilesFree \<leftarrow> r_u64;
     vError \<leftarrow> r_str;
     State_Monad.return \<lparr>StatFsReply_Id = vId, StatFsReply_Ok = vOk,
       StatFsReply_BlockSize = vBlockSize, StatFsReply_Blocks = vBlocks,
       StatFsReply_BlocksFree = vBlocksFree, StatFsReply_Files = vFiles,
       StatFsReply_FilesFree = vFilesFree, StatFsReply_Error = vError\<rparr>
   }"

definition decode_OpenRequest :: "(Reader, OpenRequest) state" where
  "decode_OpenRequest = do {
     vId \<leftarrow> r_u64;
     vPath \<leftarrow> r_str;
     vWritable \<leftarrow> r_bool;
     State_Monad.return \<lparr>OpenRequest_Id = vId, OpenRequest_Path = vPath,
       OpenRequest_Writable = vWritable\<rparr>
   }"

definition decode_OpenReply :: "(Reader, OpenReply) state" where
  "decode_OpenReply = do {
     vId \<leftarrow> r_u64;
     vOk \<leftarrow> r_bool;
     vFound \<leftarrow> r_bool;
     vHandle \<leftarrow> r_u64;
     vAttrs \<leftarrow> readAttrs;
     vError \<leftarrow> r_str;
     vErrno \<leftarrow> r_u32;
     State_Monad.return \<lparr>OpenReply_Id = vId, OpenReply_Ok = vOk,
       OpenReply_Found = vFound, OpenReply_Handle = vHandle, OpenReply_Attrs = vAttrs,
       OpenReply_Error = vError, OpenReply_Errno = vErrno\<rparr>
   }"

definition decode_CloseRequest :: "(Reader, CloseRequest) state" where
  "decode_CloseRequest = do {
     vId \<leftarrow> r_u64;
     vHandle \<leftarrow> r_u64;
     State_Monad.return \<lparr>CloseRequest_Id = vId, CloseRequest_Handle = vHandle\<rparr>
   }"

definition decode_Signature :: "(Reader, Signature Result) state" where
  "decode_Signature = do {
     vBlockLength \<leftarrow> r_u32;
     vStrongLength \<leftarrow> r_u32;
     vFileLength \<leftarrow> r_u64;
     N \<leftarrow> r_u32;
     R \<leftarrow> State_Monad.get;
     (if \<not> rd_Ok R \<or> remaining R + 20 < unat N * 20
      then State_Monad.return (failMessage ''signature length out of range'')
      else do {
        vSums \<leftarrow> r_loop (unat N) read_BlockSum;
        State_Monad.return (Inr \<lparr>Signature_BlockLength = vBlockLength,
          Signature_StrongLength = vStrongLength, Signature_FileLength = vFileLength,
          Signature_Sums = vSums\<rparr>)
      })
   }"

definition kAttrsBytes :: nat where
  "kAttrsBytes = 50"

definition kListEntryFloor :: nat where
  "kListEntryFloor = 4 + kAttrsBytes"

definition decode_ListReply :: "(Reader, ListReply Result) state" where
  "decode_ListReply = do {
     vId \<leftarrow> r_u64;
     vFound \<leftarrow> r_bool;
     Count \<leftarrow> r_u32;
     R \<leftarrow> State_Monad.get;
     (if \<not> rd_Ok R \<or> remaining R < unat Count * kListEntryFloor
      then State_Monad.return (failMessage ''list reply length out of range'')
      else do {
        vEntries \<leftarrow> r_loop (unat Count) read_ListEntry;
        vSelf \<leftarrow> readAttrs;
        vParent \<leftarrow> readAttrs;
        State_Monad.return (Inr \<lparr>ListReply_Id = vId, ListReply_Found = vFound,
          ListReply_Entries = vEntries, ListReply_Self = vSelf, ListReply_Parent = vParent\<rparr>)
      })
   }"

text \<open>
  The end of \<^verbatim>\<open>decode\<close>: \<^verbatim>\<open>if (!R.ok()) return failMessage("truncated ...")\<close>. The two
  counted messages return early with an error of their own.
\<close>

definition finish :: "MsgType \<Rightarrow> ('a \<Rightarrow> Message) \<Rightarrow> (Reader, 'a) state \<Rightarrow> byte list \<Rightarrow> Message Result" where
  "finish T C m Payload =
     (case run_state m (open_Reader Payload) of
        (v, R) \<Rightarrow> if \<not> rd_Ok R then failMessage (''truncated '' @ typeName T) else Inr (C v))"

definition finish_checked ::
  "MsgType \<Rightarrow> ('a \<Rightarrow> Message) \<Rightarrow> (Reader, 'a Result) state \<Rightarrow> byte list \<Rightarrow> Message Result" where
  "finish_checked T C m Payload =
     (case run_state m (open_Reader Payload) of
        (Inl e, R) \<Rightarrow> Inl e
      | (Inr v, R) \<Rightarrow> if \<not> rd_Ok R then failMessage (''truncated '' @ typeName T) else Inr (C v))"

fun decode_as :: "MsgType \<Rightarrow> byte list \<Rightarrow> Message Result" where
  "decode_as T_Hello Payload = finish T_Hello Hello decode_Hello Payload"
| "decode_as T_HelloAck Payload = finish T_HelloAck HelloAck decode_HelloAck Payload"
| "decode_as T_FileHeader Payload = finish T_FileHeader FileHeader decode_FileHeader Payload"
| "decode_as T_Signature Payload = finish_checked T_Signature Signature decode_Signature Payload"
| "decode_as T_Copy Payload = finish T_Copy Copy decode_Copy Payload"
| "decode_as T_Literal Payload = finish T_Literal Literal decode_Literal Payload"
| "decode_as T_Done Payload = finish T_Done Done decode_Done Payload"
| "decode_as T_Receipt Payload = finish T_Receipt Receipt decode_Receipt Payload"
| "decode_as T_End Payload = Inr End"
| "decode_as T_Stat Payload = finish T_Stat StatRequest decode_StatRequest Payload"
| "decode_as T_StatReply Payload = finish T_StatReply StatReply decode_StatReply Payload"
| "decode_as T_List Payload = finish T_List ListRequest decode_ListRequest Payload"
| "decode_as T_ListReply Payload = finish_checked T_ListReply ListReply decode_ListReply Payload"
| "decode_as T_Read Payload = finish T_Read ReadRequest decode_ReadRequest Payload"
| "decode_as T_Write Payload = finish T_Write WriteRequest decode_WriteRequest Payload"
| "decode_as T_TransferReply Payload = finish T_TransferReply TransferReply decode_TransferReply Payload"
| "decode_as T_PeerEndpoint Payload = finish T_PeerEndpoint PeerEndpoint decode_PeerEndpoint Payload"
| "decode_as T_Fetch Payload = finish T_Fetch FetchRequest decode_FetchRequest Payload"
| "decode_as T_Store Payload = finish T_Store StoreRequest decode_StoreRequest Payload"
| "decode_as T_StreamReply Payload = finish T_StreamReply StreamReply decode_StreamReply Payload"
| "decode_as T_StreamDigest Payload = finish T_StreamDigest StreamDigest decode_StreamDigest Payload"
| "decode_as T_Meta Payload = finish T_Meta MetaRequest decode_MetaRequest Payload"
| "decode_as T_MetaReply Payload = finish T_MetaReply MetaReply decode_MetaReply Payload"
| "decode_as T_StatFs Payload = finish T_StatFs StatFsRequest decode_StatFsRequest Payload"
| "decode_as T_StatFsReply Payload = finish T_StatFsReply StatFsReply decode_StatFsReply Payload"
| "decode_as T_Open Payload = finish T_Open OpenRequest decode_OpenRequest Payload"
| "decode_as T_OpenReply Payload = finish T_OpenReply OpenReply decode_OpenReply Payload"
| "decode_as T_Close Payload = finish T_Close CloseRequest decode_CloseRequest Payload"

text \<open>\<open>T\<close> is the 16-bit code cast to \<^verbatim>\<open>Type\<close>; a code with no case is refused.\<close>

definition decode :: "u16 \<Rightarrow> byte list \<Rightarrow> Message Result" where
  "decode T Payload =
     (case type_of_code T of
        None \<Rightarrow> failMessage ''unknown message type''
      | Some t \<Rightarrow> decode_as t Payload)"

section \<open>Well-formed messages\<close>

text \<open>
  What the C++ types guarantee or the 32-bit length prefixes need: digests of sixteen bytes,
  strings and lists whose length fits the prefix.
\<close>

definition wf_BlockSum :: "BlockSum \<Rightarrow> bool" where
  "wf_BlockSum v = (wf_digest (BlockSum_Strong v))"

definition wf_ListEntry :: "ListEntry \<Rightarrow> bool" where
  "wf_ListEntry v = (wf_str (ListEntry_Name v))"

definition wf_Hello :: "Hello \<Rightarrow> bool" where
  "wf_Hello v = (wf_str (Hello_Backend v))"

definition wf_HelloAck :: "HelloAck \<Rightarrow> bool" where
  "wf_HelloAck v = (wf_str (HelloAck_Backend v) \<and> wf_str (HelloAck_ChannelEndpoint v))"

definition wf_FileHeader :: "FileHeader \<Rightarrow> bool" where
  "wf_FileHeader v = (wf_str (FileHeader_Name v) \<and> wf_str (FileHeader_Target v))"

definition wf_Signature :: "Signature \<Rightarrow> bool" where
  "wf_Signature v = (length (Signature_Sums v) < 2 ^ 32 \<and> list_all wf_BlockSum (Signature_Sums v))"

definition wf_Copy :: "Copy \<Rightarrow> bool" where
  "wf_Copy v = (True)"

definition wf_Literal :: "Literal \<Rightarrow> bool" where
  "wf_Literal v = (True)"

definition wf_Done :: "Done \<Rightarrow> bool" where
  "wf_Done v = (wf_digest (Done_WholeFileHash v))"

definition wf_Receipt :: "Receipt \<Rightarrow> bool" where
  "wf_Receipt v = (True)"

definition wf_StatRequest :: "StatRequest \<Rightarrow> bool" where
  "wf_StatRequest v = (wf_str (StatRequest_Path v))"

definition wf_StatReply :: "StatReply \<Rightarrow> bool" where
  "wf_StatReply v = (True)"

definition wf_ListRequest :: "ListRequest \<Rightarrow> bool" where
  "wf_ListRequest v = (wf_str (ListRequest_Path v))"

definition wf_ListReply :: "ListReply \<Rightarrow> bool" where
  "wf_ListReply v = (length (ListReply_Entries v) < 2 ^ 32 \<and> list_all wf_ListEntry (ListReply_Entries v))"

definition wf_ReadRequest :: "ReadRequest \<Rightarrow> bool" where
  "wf_ReadRequest v = (wf_str (ReadRequest_Path v))"

definition wf_WriteRequest :: "WriteRequest \<Rightarrow> bool" where
  "wf_WriteRequest v = (wf_str (WriteRequest_Path v) \<and> wf_digest (WriteRequest_Payload v))"

definition wf_TransferReply :: "TransferReply \<Rightarrow> bool" where
  "wf_TransferReply v = (wf_digest (TransferReply_Payload v) \<and> wf_str (TransferReply_Error v))"

definition wf_PeerEndpoint :: "PeerEndpoint \<Rightarrow> bool" where
  "wf_PeerEndpoint v = (wf_str (PeerEndpoint_Blob v))"

definition wf_FetchRequest :: "FetchRequest \<Rightarrow> bool" where
  "wf_FetchRequest v = (wf_str (FetchRequest_Path v))"

definition wf_StoreRequest :: "StoreRequest \<Rightarrow> bool" where
  "wf_StoreRequest v = (wf_str (StoreRequest_Path v))"

definition wf_StreamReply :: "StreamReply \<Rightarrow> bool" where
  "wf_StreamReply v = (wf_str (StreamReply_Error v))"

definition wf_StreamDigest :: "StreamDigest \<Rightarrow> bool" where
  "wf_StreamDigest v = (wf_digest (StreamDigest_Whole v) \<and> wf_str (StreamDigest_Error v))"

definition wf_MetaRequest :: "MetaRequest \<Rightarrow> bool" where
  "wf_MetaRequest v = (wf_str (MetaRequest_Path v) \<and> wf_str (MetaRequest_Target v))"

definition wf_MetaReply :: "MetaReply \<Rightarrow> bool" where
  "wf_MetaReply v = (wf_str (MetaReply_Error v) \<and> wf_str (MetaReply_Target v))"

definition wf_StatFsRequest :: "StatFsRequest \<Rightarrow> bool" where
  "wf_StatFsRequest v = (wf_str (StatFsRequest_Path v))"

definition wf_StatFsReply :: "StatFsReply \<Rightarrow> bool" where
  "wf_StatFsReply v = (wf_str (StatFsReply_Error v))"

definition wf_OpenRequest :: "OpenRequest \<Rightarrow> bool" where
  "wf_OpenRequest v = (wf_str (OpenRequest_Path v))"

definition wf_OpenReply :: "OpenReply \<Rightarrow> bool" where
  "wf_OpenReply v = (wf_str (OpenReply_Error v))"

definition wf_CloseRequest :: "CloseRequest \<Rightarrow> bool" where
  "wf_CloseRequest v = (True)"

fun wf_Message :: "Message \<Rightarrow> bool" where
  "wf_Message (Hello v) = wf_Hello v"
| "wf_Message (HelloAck v) = wf_HelloAck v"
| "wf_Message (FileHeader v) = wf_FileHeader v"
| "wf_Message (Signature v) = wf_Signature v"
| "wf_Message (Copy v) = wf_Copy v"
| "wf_Message (Literal v) = wf_Literal v"
| "wf_Message (Done v) = wf_Done v"
| "wf_Message (Receipt v) = wf_Receipt v"
| "wf_Message End = True"
| "wf_Message (StatRequest v) = wf_StatRequest v"
| "wf_Message (StatReply v) = wf_StatReply v"
| "wf_Message (ListRequest v) = wf_ListRequest v"
| "wf_Message (ListReply v) = wf_ListReply v"
| "wf_Message (ReadRequest v) = wf_ReadRequest v"
| "wf_Message (WriteRequest v) = wf_WriteRequest v"
| "wf_Message (TransferReply v) = wf_TransferReply v"
| "wf_Message (PeerEndpoint v) = wf_PeerEndpoint v"
| "wf_Message (FetchRequest v) = wf_FetchRequest v"
| "wf_Message (StoreRequest v) = wf_StoreRequest v"
| "wf_Message (StreamReply v) = wf_StreamReply v"
| "wf_Message (StreamDigest v) = wf_StreamDigest v"
| "wf_Message (MetaRequest v) = wf_MetaRequest v"
| "wf_Message (MetaReply v) = wf_MetaReply v"
| "wf_Message (StatFsRequest v) = wf_StatFsRequest v"
| "wf_Message (StatFsReply v) = wf_StatFsReply v"
| "wf_Message (OpenRequest v) = wf_OpenRequest v"
| "wf_Message (OpenReply v) = wf_OpenReply v"
| "wf_Message (CloseRequest v) = wf_CloseRequest v"

section \<open>Round trips of the parts\<close>

lemmas wf_digest_length [wire_simps] = wf_digest_def

lemma readAttrs_at [wire_simps]:
  "run_state readAttrs (reader_at pre (writeAttrs v @ rest)) = (v, reader_at (pre @ writeAttrs v) rest)"
  by (simp add: readAttrs_def writeAttrs_def wire_simps)

lemma well_readAttrs [well_read_intros]: "well_read good readAttrs"
  unfolding readAttrs_def by (intro well_read_intros)

lemma length_writeAttrs [simp]: "length (writeAttrs v) = kAttrsBytes"
  by (simp add: writeAttrs_def kAttrsBytes_def w_u64_def w_u32_def w_i64_def w_bool_def w_u8_def)

lemma read_BlockSum_at [wire_simps]:
  "wf_BlockSum v \<Longrightarrow>
     run_state read_BlockSum (reader_at pre (write_BlockSum v @ rest)) = (v, reader_at (pre @ write_BlockSum v) rest)"
  by (simp add: read_BlockSum_def write_BlockSum_def wf_BlockSum_def wire_simps)

lemma well_read_BlockSum [well_read_intros]: "well_read good read_BlockSum"
  unfolding read_BlockSum_def by (intro well_read_intros)

lemma length_write_BlockSum: "wf_BlockSum v \<Longrightarrow> length (write_BlockSum v) = 20"
  by (simp add: write_BlockSum_def wf_BlockSum_def wf_digest_def w_u32_def w_hash_def)

lemma read_ListEntry_at [wire_simps]:
  "wf_ListEntry v \<Longrightarrow>
     run_state read_ListEntry (reader_at pre (write_ListEntry v @ rest)) = (v, reader_at (pre @ write_ListEntry v) rest)"
  by (simp add: read_ListEntry_def write_ListEntry_def wf_ListEntry_def wire_simps)

lemma well_read_ListEntry [well_read_intros]: "well_read good read_ListEntry"
  unfolding read_ListEntry_def by (intro well_read_intros)

lemma length_write_ListEntry: "kListEntryFloor \<le> length (write_ListEntry v)"
  by (simp add: write_ListEntry_def kListEntryFloor_def w_str_def w_u32_def)

section \<open>Every message type keeps the contract\<close>

interpretation Hello_wire: wire_field encode_Hello decode_Hello "\<lambda>v. v" "\<lambda>_. True" wf_Hello
  by unfold_locales
    (simp_all add: encode_Hello_def decode_Hello_def wf_Hello_def wire_simps well_read_intros)

interpretation HelloAck_wire: wire_field encode_HelloAck decode_HelloAck "\<lambda>v. v" "\<lambda>_. True" wf_HelloAck
  by unfold_locales
    (simp_all add: encode_HelloAck_def decode_HelloAck_def wf_HelloAck_def wire_simps well_read_intros)

interpretation FileHeader_wire: wire_field encode_FileHeader decode_FileHeader "\<lambda>v. v" "\<lambda>_. True" wf_FileHeader
  by unfold_locales
    (simp_all add: encode_FileHeader_def decode_FileHeader_def wf_FileHeader_def wire_simps well_read_intros)

interpretation Copy_wire: wire_field encode_Copy decode_Copy "\<lambda>v. v" "\<lambda>_. True" wf_Copy
  by unfold_locales
    (simp_all add: encode_Copy_def decode_Copy_def wf_Copy_def wire_simps well_read_intros)

interpretation Literal_wire: wire_field encode_Literal decode_Literal "\<lambda>v. v" "\<lambda>_. True" wf_Literal
  by unfold_locales
    (simp_all add: encode_Literal_def decode_Literal_def wf_Literal_def wire_simps well_read_intros)

interpretation Done_wire: wire_field encode_Done decode_Done "\<lambda>v. v" "\<lambda>_. True" wf_Done
  by unfold_locales
    (simp_all add: encode_Done_def decode_Done_def wf_Done_def wire_simps well_read_intros)

interpretation Receipt_wire: wire_field encode_Receipt decode_Receipt "\<lambda>v. v" "\<lambda>_. True" wf_Receipt
  by unfold_locales
    (simp_all add: encode_Receipt_def decode_Receipt_def wf_Receipt_def wire_simps well_read_intros)

interpretation StatRequest_wire: wire_field encode_StatRequest decode_StatRequest "\<lambda>v. v" "\<lambda>_. True" wf_StatRequest
  by unfold_locales
    (simp_all add: encode_StatRequest_def decode_StatRequest_def wf_StatRequest_def wire_simps well_read_intros)

interpretation StatReply_wire: wire_field encode_StatReply decode_StatReply "\<lambda>v. v" "\<lambda>_. True" wf_StatReply
  by unfold_locales
    (simp_all add: encode_StatReply_def decode_StatReply_def wf_StatReply_def wire_simps well_read_intros)

interpretation ListRequest_wire: wire_field encode_ListRequest decode_ListRequest "\<lambda>v. v" "\<lambda>_. True" wf_ListRequest
  by unfold_locales
    (simp_all add: encode_ListRequest_def decode_ListRequest_def wf_ListRequest_def wire_simps well_read_intros)

interpretation ReadRequest_wire: wire_field encode_ReadRequest decode_ReadRequest "\<lambda>v. v" "\<lambda>_. True" wf_ReadRequest
  by unfold_locales
    (simp_all add: encode_ReadRequest_def decode_ReadRequest_def wf_ReadRequest_def wire_simps well_read_intros)

interpretation WriteRequest_wire: wire_field encode_WriteRequest decode_WriteRequest "\<lambda>v. v" "\<lambda>_. True" wf_WriteRequest
  by unfold_locales
    (simp_all add: encode_WriteRequest_def decode_WriteRequest_def wf_WriteRequest_def wire_simps well_read_intros)

interpretation TransferReply_wire: wire_field encode_TransferReply decode_TransferReply "\<lambda>v. v" "\<lambda>_. True" wf_TransferReply
  by unfold_locales
    (simp_all add: encode_TransferReply_def decode_TransferReply_def wf_TransferReply_def wire_simps well_read_intros)

interpretation PeerEndpoint_wire: wire_field encode_PeerEndpoint decode_PeerEndpoint "\<lambda>v. v" "\<lambda>_. True" wf_PeerEndpoint
  by unfold_locales
    (simp_all add: encode_PeerEndpoint_def decode_PeerEndpoint_def wf_PeerEndpoint_def wire_simps well_read_intros)

interpretation FetchRequest_wire: wire_field encode_FetchRequest decode_FetchRequest "\<lambda>v. v" "\<lambda>_. True" wf_FetchRequest
  by unfold_locales
    (simp_all add: encode_FetchRequest_def decode_FetchRequest_def wf_FetchRequest_def wire_simps well_read_intros)

interpretation StoreRequest_wire: wire_field encode_StoreRequest decode_StoreRequest "\<lambda>v. v" "\<lambda>_. True" wf_StoreRequest
  by unfold_locales
    (simp_all add: encode_StoreRequest_def decode_StoreRequest_def wf_StoreRequest_def wire_simps well_read_intros)

interpretation StreamReply_wire: wire_field encode_StreamReply decode_StreamReply "\<lambda>v. v" "\<lambda>_. True" wf_StreamReply
  by unfold_locales
    (simp_all add: encode_StreamReply_def decode_StreamReply_def wf_StreamReply_def wire_simps well_read_intros)

interpretation StreamDigest_wire: wire_field encode_StreamDigest decode_StreamDigest "\<lambda>v. v" "\<lambda>_. True" wf_StreamDigest
  by unfold_locales
    (simp_all add: encode_StreamDigest_def decode_StreamDigest_def wf_StreamDigest_def wire_simps well_read_intros)

interpretation MetaRequest_wire: wire_field encode_MetaRequest decode_MetaRequest "\<lambda>v. v" "\<lambda>_. True" wf_MetaRequest
  by unfold_locales
    (simp_all add: encode_MetaRequest_def decode_MetaRequest_def wf_MetaRequest_def wire_simps well_read_intros)

interpretation MetaReply_wire: wire_field encode_MetaReply decode_MetaReply "\<lambda>v. v" "\<lambda>_. True" wf_MetaReply
  by unfold_locales
    (simp_all add: encode_MetaReply_def decode_MetaReply_def wf_MetaReply_def wire_simps well_read_intros)

interpretation StatFsRequest_wire: wire_field encode_StatFsRequest decode_StatFsRequest "\<lambda>v. v" "\<lambda>_. True" wf_StatFsRequest
  by unfold_locales
    (simp_all add: encode_StatFsRequest_def decode_StatFsRequest_def wf_StatFsRequest_def wire_simps well_read_intros)

interpretation StatFsReply_wire: wire_field encode_StatFsReply decode_StatFsReply "\<lambda>v. v" "\<lambda>_. True" wf_StatFsReply
  by unfold_locales
    (simp_all add: encode_StatFsReply_def decode_StatFsReply_def wf_StatFsReply_def wire_simps well_read_intros)

interpretation OpenRequest_wire: wire_field encode_OpenRequest decode_OpenRequest "\<lambda>v. v" "\<lambda>_. True" wf_OpenRequest
  by unfold_locales
    (simp_all add: encode_OpenRequest_def decode_OpenRequest_def wf_OpenRequest_def wire_simps well_read_intros)

interpretation OpenReply_wire: wire_field encode_OpenReply decode_OpenReply "\<lambda>v. v" "\<lambda>_. True" wf_OpenReply
  by unfold_locales
    (simp_all add: encode_OpenReply_def decode_OpenReply_def wf_OpenReply_def wire_simps well_read_intros)

interpretation CloseRequest_wire: wire_field encode_CloseRequest decode_CloseRequest "\<lambda>v. v" "\<lambda>_. True" wf_CloseRequest
  by unfold_locales
    (simp_all add: encode_CloseRequest_def decode_CloseRequest_def wf_CloseRequest_def wire_simps well_read_intros)

text \<open>
  The guard of a counted message: it may turn a short input away, and an input it lets
  through it also lets through with more bytes behind.
\<close>

lemma well_read_guard:
  assumes m: "well_read is_ok m"
    and mono: "\<And>R ext. \<not> c R \<Longrightarrow> \<not> c (R\<lparr>rd_In := rd_In R @ ext\<rparr>)"
    and bad: "\<not> is_ok e"
  shows "well_read is_ok (do { R \<leftarrow> State_Monad.get;
     if \<not> rd_Ok R \<or> c R then State_Monad.return e else m })" (is "well_read is_ok ?g")
proof (rule well_readI)
  fix R x R'
  assume "run_state ?g R = (x, R')"
  then have run: "if \<not> rd_Ok R \<or> c R then x = e \<and> R' = R else run_state m R = (x, R')"
    by (auto split: if_splits)
  show "rd_In R' = rd_In R" using run well_readD(1) [OF m] by (auto split: if_splits)
  show "rd_Ok R' \<Longrightarrow> rd_Ok R" using run by (auto split: if_splits)
  show "rd_Pos R \<le> rd_Pos R'" using run well_readD(3) [OF m] by (auto split: if_splits)
  show "rd_Pos R' \<le> length (rd_In R)" if "rd_Pos R \<le> length (rd_In R)"
    using run well_readD(4) [OF m] that by (auto split: if_splits)
  show "run_state ?g (R\<lparr>rd_In := rd_In R @ ext\<rparr>) = (x, R'\<lparr>rd_In := rd_In R @ ext\<rparr>)"
    if "rd_Pos R \<le> length (rd_In R)" and "rd_Ok R'" and "is_ok x" for ext
  proof -
    have "\<not> (\<not> rd_Ok R \<or> c R)" using run that(3) bad by (auto split: if_splits)
    with run well_readD(5) [OF m] that mono show ?thesis by simp
  qed
qed

lemma length_concat_ge:
  "(\<And>v. v \<in> set vs \<Longrightarrow> n \<le> length (f v)) \<Longrightarrow> length vs * n \<le> length (concat (map f vs))"
  by (induction vs) fastforce+

lemma well_decode_Signature: "well_read is_ok decode_Signature"
  unfolding decode_Signature_def
  by (intro well_read_bind well_read_guard well_read_fields well_read_return well_read_loop
        well_read_BlockSum)
    (simp_all add: remaining_def)

lemma well_decode_ListReply: "well_read is_ok decode_ListReply"
  unfolding decode_ListReply_def
  by (intro well_read_bind well_read_guard well_read_fields well_read_bool well_read_return
        well_read_loop well_read_ListEntry well_readAttrs)
    (simp_all add: remaining_def)

lemma decode_Signature_at:
  assumes "wf_Signature v"
  shows "run_state decode_Signature (reader_at pre (encode_Signature v @ rest)) =
    (Inr v, reader_at (pre @ encode_Signature v) rest)"
proof -
  let ?vs = "Signature_Sums v"
  have len: "unat (of_nat (length ?vs) :: u32) = length ?vs"
    using assms by (simp add: wf_Signature_def unat_of_nat_small)
  have wf: "\<And>s. s \<in> set ?vs \<Longrightarrow> wf_BlockSum s"
    using assms by (simp add: wf_Signature_def list_all_iff)
  then have guard: "length ?vs * 20 \<le> length (concat (map write_BlockSum ?vs))"
    by (intro length_concat_ge) (simp add: length_write_BlockSum)
  have loop: "run_state (r_loop (length ?vs) read_BlockSum)
      (reader_at p (concat (map write_BlockSum ?vs) @ rest)) =
      (?vs, reader_at (p @ concat (map write_BlockSum ?vs)) rest)" for p
    by (rule r_loop_at) (simp add: wf wire_simps)
  from guard show ?thesis
    by (simp add: decode_Signature_def encode_Signature_def wire_simps len loop)
qed

lemma decode_ListReply_at:
  assumes "wf_ListReply v"
  shows "run_state decode_ListReply (reader_at pre (encode_ListReply v @ rest)) =
    (Inr v, reader_at (pre @ encode_ListReply v) rest)"
proof -
  let ?vs = "ListReply_Entries v"
  have len: "unat (of_nat (length ?vs) :: u32) = length ?vs"
    using assms by (simp add: wf_ListReply_def unat_of_nat_small)
  have wf: "\<And>s. s \<in> set ?vs \<Longrightarrow> wf_ListEntry s"
    using assms by (simp add: wf_ListReply_def list_all_iff)
  have guard: "length ?vs * kListEntryFloor \<le> length (concat (map write_ListEntry ?vs))"
    by (intro length_concat_ge) (simp add: length_write_ListEntry)
  have loop: "run_state (r_loop (length ?vs) read_ListEntry)
      (reader_at p (concat (map write_ListEntry ?vs) @ r)) =
      (?vs, reader_at (p @ concat (map write_ListEntry ?vs)) r)" for p r
    by (rule r_loop_at) (simp add: wf wire_simps)
  from guard show ?thesis
    by (simp add: decode_ListReply_def encode_ListReply_def wire_simps len loop)
qed

interpretation Signature_wire: wire_field encode_Signature decode_Signature Inr is_ok wf_Signature
  by unfold_locales (simp_all add: decode_Signature_at well_decode_Signature)

interpretation ListReply_wire: wire_field encode_ListReply decode_ListReply Inr is_ok wf_ListReply
  by unfold_locales (simp_all add: decode_ListReply_at well_decode_ListReply)

section \<open>The codec as a whole\<close>

lemma finish_at:
  assumes "wire_field put get (\<lambda>v. v) (\<lambda>_. True) valid" and "valid v"
  shows "finish T C get (put v @ rest) = Inr (C v)"
  using wire_field.get_put [OF assms, of "[]" rest]
  by (simp add: finish_def open_Reader_at)

lemma finish_checked_at:
  assumes "wire_field put get Inr is_ok valid" and "valid v"
  shows "finish_checked T C get (put v @ rest) = Inr (C v)"
  using wire_field.get_put [OF assms, of "[]" rest]
  by (simp add: finish_checked_def open_Reader_at)

lemma finish_truncated:
  assumes "wire_field put get (\<lambda>v. v) (\<lambda>_. True) valid" and "valid v" and "k < length (put v)"
  shows "finish T C get (take k (put v)) = failMessage (''truncated '' @ typeName T)"
  using wire_field.truncated [OF assms]
  by (auto simp: finish_def split: prod.splits)

lemma finish_checked_truncated:
  assumes "wire_field put get Inr is_ok valid" and "valid v" and "k < length (put v)"
  shows "\<not> is_ok (finish_checked T C get (take k (put v)))"
  using wire_field.truncated [OF assms]
  by (auto simp: finish_checked_def split: prod.splits sum.splits)

lemmas plain_wires =
  Hello_wire.wire_field_axioms
  HelloAck_wire.wire_field_axioms
  FileHeader_wire.wire_field_axioms
  Copy_wire.wire_field_axioms
  Literal_wire.wire_field_axioms
  Done_wire.wire_field_axioms
  Receipt_wire.wire_field_axioms
  StatRequest_wire.wire_field_axioms
  StatReply_wire.wire_field_axioms
  ListRequest_wire.wire_field_axioms
  ReadRequest_wire.wire_field_axioms
  WriteRequest_wire.wire_field_axioms
  TransferReply_wire.wire_field_axioms
  PeerEndpoint_wire.wire_field_axioms
  FetchRequest_wire.wire_field_axioms
  StoreRequest_wire.wire_field_axioms
  StreamReply_wire.wire_field_axioms
  StreamDigest_wire.wire_field_axioms
  MetaRequest_wire.wire_field_axioms
  MetaReply_wire.wire_field_axioms
  StatFsRequest_wire.wire_field_axioms
  StatFsReply_wire.wire_field_axioms
  OpenRequest_wire.wire_field_axioms
  OpenReply_wire.wire_field_axioms
  CloseRequest_wire.wire_field_axioms

lemmas counted_wires =
  Signature_wire.wire_field_axioms
  ListReply_wire.wire_field_axioms

lemma decode_type_code: "decode (type_code t) Payload = decode_as t Payload"
  by (simp add: decode_def)

lemma decode_roundtrip:
  assumes "wf_Message M"
  shows "decode (type_code (typeOf M)) (encode M @ rest) = Inr M"
  using assms
  by (cases M)
    (simp_all add: decode_type_code plain_wires [THEN finish_at]
       counted_wires [THEN finish_checked_at] del: type_code.simps)

text \<open>
  C3. Whatever a sender encodes, the receiver decodes to the same message, whichever of the
  twenty-eight types it is and whatever bytes follow it in the buffer.
\<close>

theorem decode_encode:
  assumes "wf_Message M"
  shows "decode (type_code (typeOf M)) (encode M @ rest) = Inr M"
  by (rule decode_roundtrip [OF assms])

theorem decode_encode_witness:
  "decode (type_code (typeOf (PeerEndpoint \<lparr>PeerEndpoint_Blob = ''ab''\<rparr>)))
     (encode (PeerEndpoint \<lparr>PeerEndpoint_Blob = ''ab''\<rparr>) @ [7]) =
     Inr (PeerEndpoint \<lparr>PeerEndpoint_Blob = ''ab''\<rparr>)"
  by (rule decode_encode) (simp add: wf_PeerEndpoint_def wf_str_def)

text \<open>
  An encoding cut short at any point is refused: no prefix of a message is taken for a
  message of that type.
\<close>

theorem decode_truncated:
  assumes "wf_Message M" and "k < length (encode M)"
  shows "\<not> is_ok (decode (type_code (typeOf M)) (take k (encode M)))"
  using assms
  by (cases M)
    (simp_all add: decode_type_code plain_wires [THEN finish_truncated]
       counted_wires [THEN finish_checked_truncated] del: type_code.simps)

theorem decode_truncated_witness:
  "\<not> is_ok (decode (type_code (typeOf (StatRequest \<lparr>StatRequest_Id = 1, StatRequest_Path = ''a''\<rparr>)))
     (take 5 (encode (StatRequest \<lparr>StatRequest_Id = 1, StatRequest_Path = ''a''\<rparr>))))"
  by (rule decode_truncated)
    (simp_all add: wf_StatRequest_def wf_str_def encode_StatRequest_def w_u64_def w_str_def w_u32_def)

section \<open>What a decoded message satisfies\<close>

text \<open>\<open>yields P m\<close>: whatever the input, the value read satisfies \<open>P\<close>.\<close>

definition yields :: "('a \<Rightarrow> bool) \<Rightarrow> (Reader, 'a) state \<Rightarrow> bool" where
  "yields P m = (\<forall>R. P (fst (run_state m R)))"

lemma yields_True: "yields (\<lambda>_. True) m"
  by (simp add: yields_def)

lemma yields_return: "P x \<Longrightarrow> yields P (State_Monad.return x)"
  by (simp add: yields_def)

lemma yields_bind:
  assumes "yields Q m" and "\<And>x. Q x \<Longrightarrow> yields P (f x)"
  shows "yields P (Monad_Syntax.bind m f)"
proof -
  have "P (fst (run_state (Monad_Syntax.bind m f) R))" for R
  proof (cases "run_state m R")
    case (Pair x R')
    then have "Q x" using assms(1) by (auto simp: yields_def dest: spec [of _ R])
    then show ?thesis using assms(2) [of x] Pair by (simp add: yields_def)
  qed
  then show ?thesis by (simp add: yields_def)
qed

lemma yields_raw: "length d \<le> n \<Longrightarrow> yields (\<lambda>bs. length bs \<le> n) (r_raw n d)"
  by (simp add: yields_def r_raw_def)

lemma yields_str: "yields wf_str r_str"
proof -
  have "unat (N :: u32) < 2 ^ 32" for N
    using unsigned_less [of N, where ?'a = nat] by simp
  then have "yields (\<lambda>bs. length bs < 2 ^ 32) (r_raw (unat (N :: u32)) [])" for N
    using yields_raw [of "[]" "unat N"] by (auto simp: yields_def intro: le_less_trans)
  then show ?thesis
    unfolding r_str_def
    by (intro yields_bind [OF yields_True] yields_bind yields_return) (auto simp: wf_str_def)
qed

lemma yields_hash: "yields wf_digest r_hash"
  by (auto simp: yields_def r_hash_def r_raw_def wf_digest_def)

lemma yields_loop: "yields P m \<Longrightarrow> yields (\<lambda>xs. length xs \<le> n \<and> list_all P xs) (r_loop n m)"
proof (induction n)
  case 0
  then show ?case by (simp add: yields_return)
next
  case (Suc n)
  have "yields (\<lambda>xs. length xs \<le> Suc n \<and> list_all P xs)
      (do { x \<leftarrow> m; xs \<leftarrow> r_loop n m; State_Monad.return (x # xs) })"
    by (rule yields_bind [OF Suc.prems], rule yields_bind [OF Suc.IH [OF Suc.prems]])
      (simp add: yields_return)
  then show ?case by (simp add: yields_def)
qed

lemma yields_BlockSum: "yields wf_BlockSum read_BlockSum"
  unfolding read_BlockSum_def wf_BlockSum_def
  by (rule yields_bind [OF yields_True], rule yields_bind [OF yields_hash], rule yields_return) simp

lemma yields_ListEntry: "yields wf_ListEntry read_ListEntry"
  unfolding read_ListEntry_def wf_ListEntry_def
  by (rule yields_bind [OF yields_str], rule yields_bind [OF yields_True], rule yields_return) simp

lemma yields_messages:
  "yields wf_Hello decode_Hello"
  "yields wf_HelloAck decode_HelloAck"
  "yields wf_FileHeader decode_FileHeader"
  "yields wf_Copy decode_Copy"
  "yields wf_Literal decode_Literal"
  "yields wf_Done decode_Done"
  "yields wf_Receipt decode_Receipt"
  "yields wf_StatRequest decode_StatRequest"
  "yields wf_StatReply decode_StatReply"
  "yields wf_ListRequest decode_ListRequest"
  "yields wf_ReadRequest decode_ReadRequest"
  "yields wf_WriteRequest decode_WriteRequest"
  "yields wf_TransferReply decode_TransferReply"
  "yields wf_PeerEndpoint decode_PeerEndpoint"
  "yields wf_FetchRequest decode_FetchRequest"
  "yields wf_StoreRequest decode_StoreRequest"
  "yields wf_StreamReply decode_StreamReply"
  "yields wf_StreamDigest decode_StreamDigest"
  "yields wf_MetaRequest decode_MetaRequest"
  "yields wf_MetaReply decode_MetaReply"
  "yields wf_StatFsRequest decode_StatFsRequest"
  "yields wf_StatFsReply decode_StatFsReply"
  "yields wf_OpenRequest decode_OpenRequest"
  "yields wf_OpenReply decode_OpenReply"
  "yields wf_CloseRequest decode_CloseRequest"
  unfolding decode_Hello_def wf_Hello_def
    decode_HelloAck_def wf_HelloAck_def
    decode_FileHeader_def wf_FileHeader_def
    decode_Copy_def wf_Copy_def
    decode_Literal_def wf_Literal_def
    decode_Done_def wf_Done_def
    decode_Receipt_def wf_Receipt_def
    decode_StatRequest_def wf_StatRequest_def
    decode_StatReply_def wf_StatReply_def
    decode_ListRequest_def wf_ListRequest_def
    decode_ReadRequest_def wf_ReadRequest_def
    decode_WriteRequest_def wf_WriteRequest_def
    decode_TransferReply_def wf_TransferReply_def
    decode_PeerEndpoint_def wf_PeerEndpoint_def
    decode_FetchRequest_def wf_FetchRequest_def
    decode_StoreRequest_def wf_StoreRequest_def
    decode_StreamReply_def wf_StreamReply_def
    decode_StreamDigest_def wf_StreamDigest_def
    decode_MetaRequest_def wf_MetaRequest_def
    decode_MetaReply_def wf_MetaReply_def
    decode_StatFsRequest_def wf_StatFsRequest_def
    decode_StatFsReply_def wf_StatFsReply_def
    decode_OpenRequest_def wf_OpenRequest_def
    decode_OpenReply_def wf_OpenReply_def
    decode_CloseRequest_def wf_CloseRequest_def
  by ((rule yields_bind [OF yields_str] yields_bind [OF yields_hash] yields_bind [OF yields_True]
        yields_return)+, simp)+

lemma le_unat_u32: "n \<le> unat (N :: u32) \<Longrightarrow> n < 4294967296"
  using unsigned_less [of N, where ?'a = nat] by simp

lemma yields_Signature: "yields (\<lambda>r. \<forall>v. r = Inr v \<longrightarrow> wf_Signature v) decode_Signature"
  unfolding decode_Signature_def
  by (rule yields_bind [OF yields_True])+
    (auto intro!: yields_return yields_bind [OF yields_loop [OF yields_BlockSum]]
       simp: wf_Signature_def dest: le_unat_u32)

lemma yields_ListReply: "yields (\<lambda>r. \<forall>v. r = Inr v \<longrightarrow> wf_ListReply v) decode_ListReply"
  unfolding decode_ListReply_def
  by (rule yields_bind [OF yields_True])+
    (auto intro!: yields_return yields_bind [OF yields_loop [OF yields_ListEntry]]
       yields_bind [OF yields_True [where m = readAttrs]]
       simp: wf_ListReply_def dest: le_unat_u32)

lemma yieldsD: "yields P m \<Longrightarrow> run_state m R = (x, R') \<Longrightarrow> P x"
  by (metis fst_conv yields_def)

lemma finish_yields:
  assumes "yields P m" and "finish T C m Payload = Inr M"
  shows "\<exists>v. M = C v \<and> P v"
  using assms(2) yieldsD [OF assms(1)]
  by (auto simp: finish_def split: prod.splits if_splits)

lemma finish_checked_yields:
  assumes "yields (\<lambda>r. \<forall>v. r = Inr v \<longrightarrow> P v) m" and "finish_checked T C m Payload = Inr M"
  shows "\<exists>v. M = C v \<and> P v"
  using assms(2) yieldsD [OF assms(1)]
  by (auto simp: finish_checked_def split: prod.splits if_splits sum.splits)

lemma decode_as_wf:
  assumes "decode_as t Payload = Inr M"
  shows "wf_Message M \<and> typeOf M = t"
  using assms
  by (cases t)
    (force dest: yields_messages [THEN finish_yields] yields_Signature [THEN finish_checked_yields]
       yields_ListReply [THEN finish_checked_yields])+





end
