(* ===== verification/Stream_IO.thy ===== *)
theory Stream_IO
  imports Rail_Prelude
begin

text \<open>
  \<^verbatim>\<open>src/io/stream.cc\<close>: the loops that turn the partial transfers of a non-blocking
  descriptor into whole ones. What the kernel answers is data: a list of events for each
  direction, in the order the calls will see them. A read call finds a chunk (and takes at
  most the room it has; the rest stays for the next call), is interrupted, would block, or
  fails; with no event left the peer has closed. A write call is taken in part. The
  theorems show that neither the chunking nor interruptions are visible to the caller:
  \<open>readExact\<close> delivers the next bytes of the stream and \<open>writeAll\<close> emits its source
  exactly once, and that the two-part \<^verbatim>\<open>writev\<close> loop is the one-part loop on the
  concatenation.
\<close>

section \<open>The kernel's answers\<close>

datatype rx_event = Chunk "byte list" | R_Again | R_Intr | R_Fail int

text \<open>
  \<open>W_Take k\<close>: the call takes at most \<open>Suc k\<close> of the bytes offered. \<open>W_Zero e\<close>: it takes
  none without an error of its own, and \<^verbatim>\<open>errno\<close> still holds \<open>e\<close>.
\<close>

datatype tx_event = W_Take nat | W_Zero int | W_Again | W_Intr | W_Fail int

section \<open>Reading\<close>

text \<open>
  \<^verbatim>\<open>Stream::read\<close>: retried on \<^verbatim>\<open>EINTR\<close>, suspended and retried on \<^verbatim>\<open>EAGAIN\<close>. The
  value is what one call returned, empty at the end of the stream.
\<close>

fun Stream_read :: "rx_event list \<Rightarrow> nat \<Rightarrow> byte list Result \<times> rx_event list" where
  "Stream_read [] n = (Inr [], [])"
| "Stream_read (Chunk bs # es) n =
     (if length bs \<le> n then (Inr bs, es) else (Inr (take n bs), Chunk (drop n bs) # es))"
| "Stream_read (R_Intr # es) n = Stream_read es n"
| "Stream_read (R_Again # es) n = Stream_read es n"
| "Stream_read (R_Fail e # es) n = (failErrno e ''read'', es)"

lemma Stream_read_length: "Stream_read es n = (Inr bs, es') \<Longrightarrow> length bs \<le> n"
  by (induction es n rule: Stream_read.induct) (auto split: if_splits)

text \<open>\<^verbatim>\<open>Stream::readExact\<close>; the bytes read so far are returned with the final ones.\<close>

function readExact :: "rx_event list \<Rightarrow> nat \<Rightarrow> byte list Result \<times> rx_event list" where
  "readExact es n =
     (if n = 0 then (Inr [], es)
      else case Stream_read es n of
        (Inl e, es') \<Rightarrow> (Inl e, es')
      | (Inr bs, es') \<Rightarrow>
          if bs = [] then (failMessage ''peer closed'', es')
          else case readExact es' (n - length bs) of
            (Inl e, es'') \<Rightarrow> (Inl e, es'')
          | (Inr cs, es'') \<Rightarrow> (Inr (bs @ cs), es''))"
  by pat_completeness auto
termination
  by (relation "measure snd") auto

declare readExact.simps [simp del]

text \<open>The bytes a script delivers, and a script without failures or empty chunks.\<close>

fun flow :: "rx_event list \<Rightarrow> byte list" where
  "flow [] = []"
| "flow (Chunk bs # es) = bs @ flow es"
| "flow (_ # es) = flow es"

fun live_event :: "rx_event \<Rightarrow> bool" where
  "live_event (Chunk bs) = (bs \<noteq> [])"
| "live_event (R_Fail e) = False"
| "live_event _ = True"

abbreviation live :: "rx_event list \<Rightarrow> bool" where
  "live es \<equiv> list_all live_event es"

lemma flow_append [simp]: "flow (es @ fs) = flow es @ flow fs"
  by (induction es rule: flow.induct) auto

lemma Stream_read_live:
  assumes "live es" and "0 < n"
  shows "\<exists>bs es'. Stream_read es n = (Inr bs, es') \<and> live es' \<and> flow es = bs @ flow es' \<and>
    (bs = [] \<longleftrightarrow> flow es = [])"
  using assms
proof (induction es n rule: Stream_read.induct)
  case (2 bs es n)
  show ?case
  proof (cases "length bs \<le> n")
    case True
    with 2 show ?thesis by auto
  next
    case False
    with 2 have "take n bs \<noteq> []" "drop n bs \<noteq> []" by auto
    with False 2 show ?thesis by auto
  qed
qed auto

text \<open>What \<open>readExact\<close> delivers from a live script with enough bytes, and with too few.\<close>

lemma readExact_live:
  assumes "live es" and "n \<le> length (flow es)"
  shows "\<exists>es'. readExact es n = (Inr (take n (flow es)), es') \<and> live es' \<and> flow es' = drop n (flow es)"
  using assms
proof (induction es n rule: readExact.induct)
  case (1 es n)
  show ?case
  proof (cases "n = 0")
    case True
    with 1 show ?thesis by (simp add: readExact.simps)
  next
    case False
    with 1 obtain bs es' where rd: "Stream_read es n = (Inr bs, es')" "live es'"
      "flow es = bs @ flow es'" "bs \<noteq> []"
      using Stream_read_live [of es n] by auto
    have len: "length bs \<le> n" using rd(1) by (rule Stream_read_length)
    have "n - length bs \<le> length (flow es')" using 1 rd by auto
    with 1(1) [OF False rd(1) [symmetric] refl rd(4)] rd(2) obtain es'' where
      "readExact es' (n - length bs) = (Inr (take (n - length bs) (flow es')), es'')" "live es''"
      "flow es'' = drop (n - length bs) (flow es')"
      by auto
    with False rd len show ?thesis
      by (subst readExact.simps) simp
  qed
qed

lemma readExact_short:
  assumes "live es" and "length (flow es) < n"
  shows "fst (readExact es n) = failMessage ''peer closed''"
  using assms
proof (induction es n rule: readExact.induct)
  case (1 es n)
  then have n: "n \<noteq> 0" by simp
  from 1 n obtain bs es' where rd: "Stream_read es n = (Inr bs, es')" "live es'"
    "flow es = bs @ flow es'" "bs = [] \<longleftrightarrow> flow es = []"
    using Stream_read_live [of es n] by auto
  show ?case
  proof (cases "bs = []")
    case True
    with n rd show ?thesis by (subst readExact.simps) simp
  next
    case False
    have "length (flow es') < n - length bs" using 1(3) rd(3) by simp
    then have "fst (readExact es' (n - length bs)) = failMessage ''peer closed''"
      using 1(1) [OF n rd(1) [symmetric] refl False] rd(2) by simp
    with n rd False show ?thesis
      by (subst readExact.simps) (auto simp: failMessage_def fail_def split: prod.splits sum.splits)
  qed
qed

section \<open>Writing\<close>

text \<open>
  \<^verbatim>\<open>Stream::writeAll\<close>. \<open>Done\<close> counts the bytes of the source taken so far, \<open>out\<close> holds
  the bytes the kernel has taken. With no event left it takes all that is offered.
\<close>

fun writeAll_from :: "tx_event list \<Rightarrow> byte list \<Rightarrow> nat \<Rightarrow> byte list \<Rightarrow> unit Result \<times> byte list" where
  "writeAll_from [] Src Done out = (Inr (), out @ drop Done Src)"
| "writeAll_from (ev # es) Src Done out =
     (if \<not> Done < length Src then (Inr (), out)
      else let offered = drop Done Src in
        case ev of
          W_Take k \<Rightarrow> (let N = min (Suc k) (length offered)
                       in writeAll_from es Src (Done + N) (out @ take N offered))
        | W_Zero e \<Rightarrow> (failErrno e ''write'', out)
        | W_Intr \<Rightarrow> writeAll_from es Src Done out
        | W_Again \<Rightarrow> writeAll_from es Src Done out
        | W_Fail e \<Rightarrow> (failErrno e ''write'', out))"

definition writeAll :: "tx_event list \<Rightarrow> byte list \<Rightarrow> unit Result \<times> byte list" where
  "writeAll es Src = writeAll_from es Src 0 []"

text \<open>
  The overload for two spans: each turn rebuilds the parts from \<open>Done\<close> and hands them to
  one \<^verbatim>\<open>writev\<close>.
\<close>

definition parts_from :: "byte list \<Rightarrow> byte list \<Rightarrow> nat \<Rightarrow> byte list list" where
  "parts_from First Second Done =
     (let FirstLeft = (if Done < length First then length First - Done else 0);
          SecondFrom = (if Done < length First then 0 else Done - length First)
      in (if 0 < FirstLeft then [take FirstLeft (drop Done First)] else []) @
         (if SecondFrom < length Second then [drop SecondFrom Second] else []))"

fun writeAll2_from ::
  "tx_event list \<Rightarrow> byte list \<Rightarrow> byte list \<Rightarrow> nat \<Rightarrow> byte list \<Rightarrow> unit Result \<times> byte list" where
  "writeAll2_from [] First Second Done out = (Inr (), out @ concat (parts_from First Second Done))"
| "writeAll2_from (ev # es) First Second Done out =
     (if \<not> Done < length First + length Second then (Inr (), out)
      else let offered = concat (parts_from First Second Done) in
        case ev of
          W_Take k \<Rightarrow> (let N = min (Suc k) (length offered)
                       in writeAll2_from es First Second (Done + N) (out @ take N offered))
        | W_Zero e \<Rightarrow> (failErrno e ''writev'', out)
        | W_Intr \<Rightarrow> writeAll2_from es First Second Done out
        | W_Again \<Rightarrow> writeAll2_from es First Second Done out
        | W_Fail e \<Rightarrow> (failErrno e ''writev'', out))"

definition writeAll2 :: "tx_event list \<Rightarrow> byte list \<Rightarrow> byte list \<Rightarrow> unit Result \<times> byte list" where
  "writeAll2 es First Second = writeAll2_from es First Second 0 []"

lemma writeAll_from_exact:
  assumes "out = take Done Src" and "Done \<le> length Src" and "writeAll_from es Src Done out = (r, out')"
  shows "out' = take (length out') Src \<and> (is_ok r \<longrightarrow> out' = Src)"
  using assms
proof (induction es Src Done out rule: writeAll_from.induct)
  case (1 Src Done out)
  then show ?case by auto
next
  case (2 ev es Src Done out)
  show ?case
  proof (cases "Done < length Src")
    case False
    with 2 show ?thesis by auto
  next
    case True
    show ?thesis
    proof (cases ev)
      case (W_Take k)
      let ?N = "min (Suc k) (length (drop Done Src))"
      have "out @ take ?N (drop Done Src) = take (Done + ?N) Src"
        using 2(4) by (simp only: take_add)
      moreover have "Done + ?N \<le> length Src" using True by simp
      ultimately show ?thesis
        using 2(1) [of "drop Done Src" k ?N] 2(6) True W_Take by (simp add: Let_def)
    next
      case W_Intr
      with 2 True show ?thesis by simp
    next
      case W_Again
      with 2 True show ?thesis by simp
    qed (use 2 True in \<open>auto simp: failErrno_def fail_def\<close>)
  qed
qed

lemma concat_parts_from:
  "concat (parts_from First Second Done) = drop Done (First @ Second)"
  by (simp add: parts_from_def Let_def)

text \<open>The two loops agree but for the name in the error.\<close>

lemma writeAll2_from_eq:
  "writeAll2_from es First Second Done out =
     (case writeAll_from es (First @ Second) Done out of
        (Inr u, out') \<Rightarrow> (Inr u, out')
      | (Inl e, out') \<Rightarrow> (Inl (e\<lparr>Context := ''writev''\<rparr>), out'))"
proof (induction es arbitrary: Done out)
  case Nil
  then show ?case by (simp add: concat_parts_from)
next
  case (Cons ev es)
  then show ?case
    by (cases ev)
      (simp_all add: Let_def concat_parts_from failErrno_def fail_def del: drop_append)
qed

lemma writeAll_ok: "is_ok (fst (writeAll es Src)) \<Longrightarrow> snd (writeAll es Src) = Src"
  using writeAll_from_exact [of "[]" 0 Src es] by (cases "writeAll es Src") (simp add: writeAll_def)

text \<open>
  A write of any size reaches the kernel whole and once: on success exactly the source
  bytes went out, in order, however the kernel split them; on failure what went out is a
  prefix of them. The two-part write behaves as the one-part write of the concatenation.
\<close>

theorem writeAll_exact:
  "\<exists>k. snd (writeAll es Src) = take k Src \<and>
     (is_ok (fst (writeAll es Src)) \<longrightarrow> snd (writeAll es Src) = Src) \<and>
     snd (writeAll2 es First Second) = snd (writeAll es (First @ Second)) \<and>
     is_ok (fst (writeAll2 es First Second)) = is_ok (fst (writeAll es (First @ Second)))"
proof -
  obtain r out where w: "writeAll es Src = (r, out)" by (cases "writeAll es Src")
  then have "out = take (length out) Src \<and> (is_ok r \<longrightarrow> out = Src)"
    unfolding writeAll_def by (intro writeAll_from_exact [where Done = 0]) simp_all
  moreover have "snd (writeAll2 es First Second) = snd (writeAll es (First @ Second)) \<and>
     is_ok (fst (writeAll2 es First Second)) = is_ok (fst (writeAll es (First @ Second)))"
    by (auto simp: writeAll2_def writeAll_def writeAll2_from_eq split: prod.splits sum.splits)
  ultimately show ?thesis using w by auto
qed

theorem writeAll_exact_witness:
  "snd (writeAll [W_Take 0, W_Intr, W_Take 5] [1, 2, 3]) = [1, 2, 3] \<and>
   snd (writeAll2 [W_Take 1, W_Fail 32] [1, 2] [3]) = [1, 2]"
  using writeAll_exact [of "[W_Take 0, W_Intr, W_Take 5]" "[1, 2, 3]" "[]" "[]"]
    writeAll_exact [of "[W_Take 1, W_Fail 32]" "[]" "[1, 2]" "[3]"]
  by (simp add: writeAll_def Let_def)

end
