(* ===== verification/ControlChannel.thy ===== *)
theory ControlChannel
  imports Codec Stream_IO
begin

text \<open>
  \<^verbatim>\<open>src/proto/control-channel.cc\<close>: the frames of the control channel,
  \<open>magic(4) | type(2) | length(4) | payload\<close>, written over \<open>writeAll\<close> and read over
  \<open>readExact\<close>. One frame is on the wire at a time; that the senders take turns is the
  subject of theory \<open>Turn\<close>. The theorems show that a sequence of messages sent on one end
  is received on the other in the same order whatever chunks the kernel delivers, and which
  frames are refused.
\<close>

definition kHeaderSize :: nat where
  "kHeaderSize = 10"

text \<open>\<^verbatim>\<open>std::memcpy(Buf.data() + At, &V, n)\<close> into a buffer.\<close>

definition memcpy_at :: "nat \<Rightarrow> byte list \<Rightarrow> byte list \<Rightarrow> byte list" where
  "memcpy_at At V Buf = take At Buf @ V @ drop (At + length V) Buf"

text \<open>
  \<^verbatim>\<open>sendClaimed\<close>: room for the header, the payload encoded behind it, then the header
  filled in. \<open>out_buf\<close> is the buffer handed to the write.
\<close>

definition out_buf :: "Message \<Rightarrow> byte list" where
  "out_buf M =
     (let OutBuf = replicate kHeaderSize 0 @ encode M;
          T = type_code (typeOf M);
          Length = (of_nat (length OutBuf - kHeaderSize) :: u32)
      in memcpy_at 6 (w_u32 Length) (memcpy_at 4 (w_u16 T) (memcpy_at 0 (w_u32 kMagic) OutBuf)))"

definition sendClaimed :: "tx_event list \<Rightarrow> Message \<Rightarrow> unit Result \<times> byte list" where
  "sendClaimed tx M = writeAll tx (out_buf M)"

definition receive :: "rx_event list \<Rightarrow> Message Result \<times> rx_event list" where
  "receive es =
     (case readExact es kHeaderSize of
        (Inl e, es') \<Rightarrow> (Inl e, es')
      | (Inr Header, es') \<Rightarrow>
          let Magic = (le_word (take 4 Header) :: u32);
              T = (le_word (take 2 (drop 4 Header)) :: u16);
              Length = (le_word (take 4 (drop 6 Header)) :: u32)
          in if Magic \<noteq> kMagic then (failMessage ''bad frame magic'', es')
             else if kMaxFrame < Length then (failMessage ''frame too large'', es')
             else if 0 < Length
             then (case readExact es' (unat Length) of
                     (Inl e, es'') \<Rightarrow> (Inl e, es'')
                   | (Inr InBuf, es'') \<Rightarrow> (decode T InBuf, es''))
             else (decode T [], es'))"

text \<open>\<^verbatim>\<open>template <typename T> expect()\<close>: \<open>proj\<close> is the \<^verbatim>\<open>std::get_if\<close> of the alternative.\<close>

definition expect :: "(Message \<Rightarrow> 'a option) \<Rightarrow> rx_event list \<Rightarrow> 'a Result \<times> rx_event list" where
  "expect proj es =
     (case receive es of
        (Inl e, es') \<Rightarrow> (Inl e, es')
      | (Inr M, es') \<Rightarrow>
          (case proj M of
             Some v \<Rightarrow> (Inr v, es')
           | None \<Rightarrow> (failMessage (''unexpected message '' @ typeName (typeOf M)), es')))"

section \<open>One frame\<close>

definition frame :: "Message \<Rightarrow> byte list" where
  "frame M = w_u32 kMagic @ w_u16 (type_code (typeOf M)) @ w_u32 (of_nat (length (encode M))) @ encode M"

lemma out_buf_frame: "out_buf M = frame M"
  by (simp add: out_buf_def frame_def kHeaderSize_def memcpy_at_def Let_def w_u32_def w_u16_def
        numeral_eq_Suc)

lemma header_parts:
  fixes T :: u16 and L :: u32
  defines "h \<equiv> w_u32 kMagic @ w_u16 T @ w_u32 L"
  shows "length h = kHeaderSize" "le_word (take 4 h) = kMagic"
    "le_word (take 2 (drop 4 h)) = T" "le_word (take 4 (drop 6 h)) = L"
  by (simp_all add: h_def w_u32_def w_u16_def kHeaderSize_def le_word_le_bytes)

lemma kMaxFrame_nat: "unat kMaxFrame = 67108864"
  by (simp add: kMaxFrame_def push_bit_eq_mult)

text \<open>The receiver on a live stream that starts with a header of any type and length.\<close>

lemma receive_header:
  assumes "live es" and "flow es = (w_u32 kMagic @ w_u16 T @ w_u32 L) @ body @ rest"
    and "unat L = length body" and "L \<le> kMaxFrame"
  shows "\<exists>es'. receive es = (decode T body, es') \<and> live es' \<and> flow es' = rest"
proof -
  let ?h = "w_u32 kMagic @ w_u16 T @ w_u32 L"
  note h = header_parts [of T L]
  have t: "take kHeaderSize (flow es) = ?h" and d: "drop kHeaderSize (flow es) = body @ rest"
    using h(1) unfolding assms(2) by simp_all
  obtain es1 where r1: "readExact es kHeaderSize = (Inr ?h, es1)" "live es1" "flow es1 = body @ rest"
    using readExact_live [OF assms(1), of kHeaderSize] h(1) t d assms(2) by auto
  show ?thesis
  proof (cases "body = []")
    case True
    then have "L = 0" using assms(3) by (simp add: unat_eq_0)
    then show ?thesis
      using r1 h True by (auto simp: receive_def Let_def)
  next
    case False
    then have L: "0 < L" using assms(3) by (metis length_0_conv unat_0 word_neq_0_conv)
    obtain es2 where "readExact es1 (length body) = (Inr body, es2)" "live es2" "flow es2 = rest"
      using readExact_live [OF r1(2), of "length body"] r1(3) by auto
    then show ?thesis
      using r1(1) h L assms(3,4) by (auto simp: receive_def Let_def not_less)
  qed
qed

lemma receive_frame:
  assumes "wf_Message M" and "length (encode M) \<le> unat kMaxFrame" and "live es"
    and "flow es = frame M @ rest"
  shows "\<exists>es'. receive es = (Inr M, es') \<and> live es' \<and> flow es' = rest"
proof -
  let ?L = "of_nat (length (encode M)) :: u32"
  have L: "unat ?L = length (encode M)"
    using assms(2) by (intro unat_of_nat_small) (simp add: kMaxFrame_nat)
  then have "?L \<le> kMaxFrame" using assms(2) by (simp add: word_le_nat_alt)
  then obtain es' where "receive es = (decode (type_code (typeOf M)) (encode M), es')" "live es'" "flow es' = rest"
    using receive_header [OF assms(3), of "type_code (typeOf M)" ?L "encode M" rest] assms(4) L
    by (auto simp: frame_def)
  then show ?thesis using decode_roundtrip [OF assms(1), of "[]"] by simp
qed

section \<open>A session's messages\<close>

primrec receive_n :: "nat \<Rightarrow> rx_event list \<Rightarrow> Message list Result \<times> rx_event list" where
  "receive_n 0 es = (Inr [], es)"
| "receive_n (Suc n) es =
     (case receive es of
        (Inl e, es') \<Rightarrow> (Inl e, es')
      | (Inr M, es') \<Rightarrow>
          (case receive_n n es' of
             (Inl e, es'') \<Rightarrow> (Inl e, es'')
           | (Inr Ms, es'') \<Rightarrow> (Inr (M # Ms), es'')))"

text \<open>
  C6. What one end sends the other receives: if every send of a sequence of messages
  succeeded and the kernel delivers what was written, in whatever chunks and with whatever
  interruptions, then the same number of receives returns the same messages in order and
  leaves the rest of the stream untouched.
\<close>

theorem control_channel_roundtrip:
  assumes "list_all (\<lambda>M. wf_Message M \<and> length (encode M) \<le> unat kMaxFrame) Ms"
    and "list_all2 (\<lambda>M tx. is_ok (fst (sendClaimed tx M))) Ms txs"
    and "live es"
    and "flow es = concat (map2 (\<lambda>M tx. snd (sendClaimed tx M)) Ms txs) @ rest"
  shows "\<exists>es'. receive_n (length Ms) es = (Inr Ms, es') \<and> live es' \<and> flow es' = rest"
  using assms
proof (induction Ms arbitrary: txs es)
  case Nil
  then show ?case by simp
next
  case (Cons M Ms)
  obtain tx txs' where txs: "txs = tx # txs'" using Cons.prems(2) by (cases txs) auto
  have sent: "snd (sendClaimed tx M) = frame M"
    using Cons.prems(2) writeAll_ok [of tx "out_buf M"] by (simp add: txs sendClaimed_def out_buf_frame)
  obtain es1 where "receive es = (Inr M, es1)" "live es1"
    "flow es1 = concat (map2 (\<lambda>M tx. snd (sendClaimed tx M)) Ms txs') @ rest"
    using receive_frame [of M es "concat (map2 (\<lambda>M tx. snd (sendClaimed tx M)) Ms txs') @ rest"]
      Cons.prems sent by (auto simp: txs)
  moreover from this obtain es2 where "receive_n (length Ms) es1 = (Inr Ms, es2)" "live es2" "flow es2 = rest"
    using Cons.IH [of txs' es1] Cons.prems txs by auto
  ultimately show ?case by simp
qed

theorem control_channel_roundtrip_witness:
  "\<exists>es'. receive_n (length [End, End]) [R_Intr, Chunk (take 7 (frame End)), R_Again,
       Chunk (drop 7 (frame End) @ frame End)] = (Inr [End, End], es') \<and> live es' \<and> flow es' = []"
proof (rule control_channel_roundtrip [where txs = "[[W_Take 3], [W_Intr]]"])
  show "list_all2 (\<lambda>M tx. is_ok (fst (sendClaimed tx M))) [End, End] [[W_Take 3], [W_Intr]]"
    by (simp add: sendClaimed_def out_buf_frame frame_def writeAll_def Let_def w_u32_def w_u16_def)
  then have "snd (sendClaimed [W_Take 3] End) = frame End" "snd (sendClaimed [W_Intr] End) = frame End"
    by (simp_all add: sendClaimed_def out_buf_frame writeAll_ok)
  then show "flow [R_Intr, Chunk (take 7 (frame End)), R_Again, Chunk (drop 7 (frame End) @ frame End)] =
      concat (map2 (\<lambda>M tx. snd (sendClaimed tx M)) [End, End] [[W_Take 3], [W_Intr]]) @ []"
    by simp
qed (simp_all add: frame_def w_u32_def w_u16_def length_0_conv [symmetric] del: length_0_conv)

text \<open>
  C27. A frame that does not open with the magic, or whose length field exceeds the largest
  frame, is refused with its own error after the ten header bytes: nothing is allocated for
  its payload and nothing of it is read.
\<close>

theorem receive_refuses:
  assumes "live es" and "flow es = w_u32 m @ w_u16 T @ w_u32 L @ rest"
    and "m \<noteq> kMagic \<or> kMaxFrame < L"
  shows "\<exists>es'. receive es =
      (failMessage (if m \<noteq> kMagic then ''bad frame magic'' else ''frame too large''), es') \<and>
      live es' \<and> flow es' = rest"
proof -
  let ?h = "w_u32 m @ w_u16 T @ w_u32 L"
  have h: "length ?h = kHeaderSize" "le_word (take 4 ?h) = m" "le_word (take 4 (drop 6 ?h)) = L"
    by (simp_all add: w_u32_def w_u16_def kHeaderSize_def le_word_le_bytes)
  have t: "take kHeaderSize (flow es) = ?h" "drop kHeaderSize (flow es) = rest"
    using h(1) unfolding assms(2) by simp_all
  obtain es1 where "readExact es kHeaderSize = (Inr ?h, es1)" "live es1" "flow es1 = rest"
    using readExact_live [OF assms(1), of kHeaderSize] h(1) t assms(2) by auto
  then show ?thesis
    using h(2,3) assms(3) by (auto simp: receive_def Let_def)
qed

theorem receive_refuses_witness:
  "\<exists>es'. receive [Chunk (w_u32 kMagic @ w_u16 1 @ w_u32 67108865 @ [9])] =
      (failMessage (if (kMagic :: u32) \<noteq> kMagic then ''bad frame magic'' else ''frame too large''), es') \<and>
      live es' \<and> flow es' = [9]"
proof (rule receive_refuses)
  show "kMagic \<noteq> kMagic \<or> kMaxFrame < (67108865 :: u32)"
    by (simp add: word_less_nat_alt kMaxFrame_nat)
qed simp_all

end
