(* ===== verification/Checksum.thy ===== *)
theory Checksum
  imports Rail_Prelude
begin

text \<open>
  \<^verbatim>\<open>src/app/checksum.cc\<close> and \<^verbatim>\<open>include/rail/app/checksum.h\<close>: the rolling weak checksum,
  its bucket hash, the printed digest, and the streaming hash with its switch. The
  four-at-a-time loop is shown to be the byte-at-a-time sum, and rolling a sum by one byte to
  be the sum of the moved block. The xxhash library is a parameter.
\<close>

section \<open>The weak checksum\<close>

text \<open>\<^verbatim>\<open>static_cast<uint32_t>(Buf[I])\<close> of an \<^verbatim>\<open>int8_t\<close>: sign extended.\<close>

definition schar :: "byte \<Rightarrow> u32" where
  "schar b = scast b"

text \<open>\<^verbatim>\<open>static_cast<int32_t>(Block.size())\<close>; a negative length runs no loop.\<close>

definition weak_len :: "nat \<Rightarrow> nat" where
  "weak_len n = nat (sint (of_nat n :: u32))"

function weak_quads :: "byte list \<Rightarrow> nat \<Rightarrow> nat \<Rightarrow> u32 \<Rightarrow> u32 \<Rightarrow> nat \<times> u32 \<times> u32" where
  "weak_quads Buf Len I S1 S2 =
     (if I + 4 < Len
      then weak_quads Buf Len (I + 4)
        (S1 + (schar (Buf ! I) + schar (Buf ! (I + 1)) + schar (Buf ! (I + 2)) + schar (Buf ! (I + 3))))
        (S2 + (4 * (S1 + schar (Buf ! I)) + 3 * schar (Buf ! (I + 1)) + 2 * schar (Buf ! (I + 2)) +
               schar (Buf ! (I + 3))))
      else (I, S1, S2))"
  by pat_completeness auto
termination
  by (relation "measure (\<lambda>(Buf, Len, I, S1, S2). Len - I)") auto

function weak_rest :: "byte list \<Rightarrow> nat \<Rightarrow> nat \<Rightarrow> u32 \<Rightarrow> u32 \<Rightarrow> u32 \<times> u32" where
  "weak_rest Buf Len I S1 S2 =
     (if I < Len
      then (let S1' = S1 + schar (Buf ! I) in weak_rest Buf Len (I + 1) S1' (S2 + S1'))
      else (S1, S2))"
  by pat_completeness auto
termination
  by (relation "measure (\<lambda>(Buf, Len, I, S1, S2). Len - I)") auto

declare weak_quads.simps [simp del] weak_rest.simps [simp del]

definition weakChecksum :: "byte list \<Rightarrow> u32" where
  "weakChecksum Block =
     (let Len = weak_len (length Block) in
      case weak_quads Block Len 0 0 0 of (I, S1, S2) \<Rightarrow>
        case weak_rest Block Len I S1 S2 of (S1, S2) \<Rightarrow>
          (S1 AND 0xffff) + push_bit 16 S2)"

definition rollWeak :: "u32 \<Rightarrow> byte \<Rightarrow> byte \<Rightarrow> u32 \<Rightarrow> u32" where
  "rollWeak S Out In BlockLen =
     (let O' = schar Out;
          I' = schar In;
          S1 = S AND 0xffff;
          S2 = drop_bit 16 S;
          S1 = (S1 - O' + I') AND 0xffff;
          S2 = (S2 - BlockLen * O' + S1) AND 0xffff
      in S1 OR push_bit 16 S2)"

definition weakHash :: "u32 \<Rightarrow> u32" where
  "weakHash Weak = (drop_bit 16 Weak + (Weak AND 0xffff)) AND 0xffff"

section \<open>The printed digest\<close>

definition hex_digit :: "u8 \<Rightarrow> char" where
  "hex_digit v = ''0123456789abcdef'' ! unat v"

definition toHex :: "byte list \<Rightarrow> string" where
  "toHex D = concat (map (\<lambda>V. [hex_digit (drop_bit 4 V), hex_digit (V AND 0x0f)]) D)"

section \<open>Streaming hashes\<close>

text \<open>
  The xxhash functions the code calls, on a state type of their own: \<open>xx_digest\<close> returns the
  low and the high half, and a 64-bit hash only the low one.
\<close>

record 's xxhash =
  xx_reset :: "'s"
  xx_update :: "'s \<Rightarrow> byte list \<Rightarrow> 's"
  xx_digest :: "'s \<Rightarrow> u64 \<times> u64"

datatype Sum = XxH3 | XxH64

record 's Hasher =
  Which :: Sum
  State :: "'s"

type_synonym 's xxlib = "Sum \<Rightarrow> 's xxhash"

definition Hasher_new :: "'s xxlib \<Rightarrow> Sum \<Rightarrow> 's Hasher" where
  "Hasher_new X W = \<lparr>Which = W, State = xx_reset (X W)\<rparr>"

definition Hasher_reset :: "'s xxlib \<Rightarrow> 's Hasher \<Rightarrow> 's Hasher" where
  "Hasher_reset X H = H\<lparr>State := xx_reset (X (Which H))\<rparr>"

definition Hasher_update :: "'s xxlib \<Rightarrow> 's Hasher \<Rightarrow> byte list \<Rightarrow> 's Hasher" where
  "Hasher_update X H Data = H\<lparr>State := xx_update (X (Which H)) (State H) Data\<rparr>"

definition Hasher_digest :: "'s xxlib \<Rightarrow> 's Hasher \<Rightarrow> byte list" where
  "Hasher_digest X H =
     (case xx_digest (X (Which H)) (State H) of (low64, high64) \<Rightarrow>
        if Which H = XxH64 then le_bytes 8 low64 @ replicate 8 0
        else le_bytes 8 low64 @ le_bytes 8 high64)"

record 's Verifier =
  On :: bool
  Hash :: "'s Hasher"

definition Verifier_new :: "'s xxlib \<Rightarrow> bool \<Rightarrow> Sum \<Rightarrow> 's Verifier" where
  "Verifier_new X on W = \<lparr>On = on, Hash = Hasher_new X W\<rparr>"

definition Verifier_update :: "'s xxlib \<Rightarrow> 's Verifier \<Rightarrow> byte list \<Rightarrow> 's Verifier" where
  "Verifier_update X V Data = (if On V then V\<lparr>Hash := Hasher_update X (Hash V) Data\<rparr> else V)"

definition Verifier_reset :: "'s xxlib \<Rightarrow> 's Verifier \<Rightarrow> 's Verifier" where
  "Verifier_reset X V = (if On V then V\<lparr>Hash := Hasher_reset X (Hash V)\<rparr> else V)"

definition Verifier_digest :: "'s xxlib \<Rightarrow> 's Verifier \<Rightarrow> byte list" where
  "Verifier_digest X V = (if On V then Hasher_digest X (Hash V) else replicate 16 0)"

definition Verifier_matches :: "'s xxlib \<Rightarrow> 's Verifier \<Rightarrow> byte list \<Rightarrow> bool" where
  "Verifier_matches X V Theirs \<longleftrightarrow> \<not> On V \<or> Hasher_digest X (Hash V) = Theirs"

section \<open>The sums as folds\<close>

text \<open>One byte at a time, as rsync states it.\<close>

definition weak_step :: "u32 \<times> u32 \<Rightarrow> byte \<Rightarrow> u32 \<times> u32" where
  "weak_step = (\<lambda>(S1, S2) b. (S1 + schar b, S2 + (S1 + schar b)))"

definition weak_sums :: "byte list \<Rightarrow> u32 \<times> u32" where
  "weak_sums bs = foldl weak_step (0, 0) bs"

definition pack :: "u32 \<times> u32 \<Rightarrow> u32" where
  "pack = (\<lambda>(S1, S2). take_bit 16 S1 OR push_bit 16 (take_bit 16 S2))"

lemma weak_rest_foldl:
  "Len \<le> length Buf \<Longrightarrow>
     weak_rest Buf Len I S1 S2 = foldl weak_step (S1, S2) (drop I (take Len Buf))"
proof (induction Buf Len I S1 S2 rule: weak_rest.induct)
  case (1 Buf Len I S1 S2)
  show ?case
  proof (cases "I < Len")
    case True
    with 1 have "drop I (take Len Buf) = Buf ! I # drop (I + 1) (take Len Buf)"
      by (subst Cons_nth_drop_Suc [symmetric]) auto
    with 1 True show ?thesis
      by (subst weak_rest.simps) (simp add: weak_step_def Let_def)
  next
    case False
    then show ?thesis by (subst weak_rest.simps) simp
  qed
qed

lemma drop_four:
  assumes "I + 4 \<le> length xs"
  shows "drop I xs = xs ! I # xs ! (I + 1) # xs ! (I + 2) # xs ! (I + 3) # drop (I + 4) xs"
  using assms
  by (simp add: Cons_nth_drop_Suc [symmetric] numeral_eq_Suc)

lemma weak_quads_foldl:
  assumes "Len \<le> length Buf"
  shows "weak_quads Buf Len I S1 S2 = (I', S1', S2') \<Longrightarrow>
     foldl weak_step (S1', S2') (drop I' (take Len Buf)) = foldl weak_step (S1, S2) (drop I (take Len Buf))"
  using assms
proof (induction Buf Len I S1 S2 rule: weak_quads.induct)
  case (1 Buf Len I S1 S2)
  show ?case
  proof (cases "I + 4 < Len")
    case True
    with 1(3) have "I + 4 \<le> length (take Len Buf)" by simp
    then have "drop I (take Len Buf) = Buf ! I # Buf ! (I + 1) # Buf ! (I + 2) # Buf ! (I + 3) #
        drop (I + 4) (take Len Buf)"
      using True 1(3) by (simp add: drop_four)
    then show ?thesis
      using 1(1) [OF True] 1(2,3) True
      by (subst (asm) (2) weak_quads.simps) (simp add: weak_step_def algebra_simps)
  next
    case False
    with 1(2) show ?thesis by (simp add: weak_quads.simps [of Buf Len I])
  qed
qed

lemma weak_len_small: "n < 2 ^ 31 \<Longrightarrow> weak_len n = n"
  by (simp add: weak_len_def signed_of_nat signed_take_bit_int_eq_self)

lemma and_ffff: "w AND 0xffff = take_bit 16 (w :: u32)"
  by (simp add: take_bit_eq_mask mask_eq_exp_minus_1)

lemma pack_plus: "(S1 AND 0xffff) + push_bit 16 S2 = pack (S1, S2)"
proof -
  have "take_bit 16 S1 AND push_bit 16 S2 = 0"
    by (rule bit_word_eqI) (auto simp: bit_and_iff bit_push_bit_iff bit_take_bit_iff)
  then have "take_bit 16 S1 + push_bit 16 S2 = take_bit 16 S1 OR push_bit 16 S2"
    by (metis word_plus_and_or add_0)
  also have "\<dots> = pack (S1, S2)"
    unfolding pack_def prod.case
    by (rule bit_word_eqI) (auto simp only: bit_or_iff bit_push_bit_iff bit_take_bit_iff, simp_all add: possible_bit_def exp_eq_zero_iff)
  finally show ?thesis by (simp add: and_ffff)
qed

text \<open>
  The loop over four bytes computes the sums taken one byte at a time, on every block that
  fits the 32-bit length the loop counts with.
\<close>

lemma weakChecksum_pack:
  assumes "length Block < 2 ^ 31"
  shows "weakChecksum Block = pack (weak_sums Block)"
proof -
  obtain I S1 S2 where q: "weak_quads Block (length Block) 0 0 0 = (I, S1, S2)"
    by (cases "weak_quads Block (length Block) 0 0 0") auto
  have "weak_rest Block (length Block) I S1 S2 = weak_sums Block"
    using weak_quads_foldl [OF _ q] weak_rest_foldl [of "length Block" Block I S1 S2]
    by (simp add: weak_sums_def)
  with q assms show ?thesis
    by (simp add: weakChecksum_def weak_len_small Let_def pack_plus split: prod.split)
qed

section \<open>Rolling\<close>

lemma foldl_weak_step:
  "foldl weak_step (S1, S2) bs =
     (S1 + sum_list (map schar bs), S2 + of_nat (length bs) * S1 + snd (weak_sums bs))"
proof -
  have *: "foldl weak_step (S1, S2) bs =
     (S1 + fst (foldl weak_step (0, 0) bs), S2 + of_nat (length bs) * S1 + snd (foldl weak_step (0, 0) bs)) \<and>
     fst (foldl weak_step (0, 0) bs) = sum_list (map schar bs)" for S1 S2
  proof (induction bs rule: rev_induct)
    case Nil
    then show ?case by simp
  next
    case (snoc b bs)
    then show ?case
      by (cases "foldl weak_step (0, 0) bs") (simp add: weak_step_def algebra_simps)
  qed
  from * [of S1 S2] show ?thesis by (simp add: weak_sums_def)
qed

lemma weak_sums_Cons:
  "weak_sums (b # bs) = (schar b + sum_list (map schar bs), of_nat (Suc (length bs)) * schar b + snd (weak_sums bs))"
  using foldl_weak_step [of "schar b" "schar b" bs]
  by (simp add: weak_sums_def weak_step_def algebra_simps)

lemma weak_sums_snoc:
  "weak_sums (bs @ [b]) = (sum_list (map schar bs) + schar b, snd (weak_sums bs) + (sum_list (map schar bs) + schar b))"
proof -
  have "weak_sums bs = (sum_list (map schar bs), snd (weak_sums bs))"
    using foldl_weak_step [of 0 0 bs] by (simp add: weak_sums_def)
  moreover have "weak_sums (bs @ [b]) = weak_step (weak_sums bs) b"
    by (simp add: weak_sums_def)
  ultimately show ?thesis
    by (cases "weak_sums bs") (simp add: weak_step_def)
qed

lemma pack_low: "take_bit 16 (pack (a, b)) = take_bit 16 a"
  unfolding pack_def prod.case
  by (rule bit_word_eqI) (auto simp only: bit_or_iff bit_push_bit_iff bit_take_bit_iff)

lemma pack_high: "drop_bit 16 (pack (a, b)) = take_bit 16 b"
  unfolding pack_def prod.case
  by (rule bit_word_eqI)
    (auto simp only: bit_or_iff bit_push_bit_iff bit_take_bit_iff bit_drop_bit_eq comp_apply
      diff_add_inverse, simp_all)

text \<open>Arithmetic on the low sixteen bits does not see the others.\<close>

lemma low_cong:
  fixes a b :: u32
  shows "take_bit 16 (take_bit 16 a + b) = take_bit 16 (a + b)"
    "take_bit 16 (a + take_bit 16 b) = take_bit 16 (a + b)"
    "take_bit 16 (take_bit 16 a - b) = take_bit 16 (a - b)"
  by (transfer, simp add: take_bit_take_bit, simp add: take_bit_eq_mod mod_simps)+

lemma rollWeak_pack:
  "rollWeak (pack (S1, S2)) Out In n =
     pack (S1 - schar Out + schar In, S2 - n * schar Out + (S1 - schar Out + schar In))"
proof -
  have 1: "take_bit 16 (take_bit 16 S1 - a + b) = take_bit 16 (S1 - a + b)" for a b
    using low_cong(1) [of "take_bit 16 S1 - a" b] low_cong(1) [of "S1 - a" b] low_cong(3) [of S1 a]
    by simp
  have 2: "take_bit 16 (take_bit 16 S2 - a + take_bit 16 b) = take_bit 16 (S2 - a + b)" for a b
    using low_cong(1) [of "take_bit 16 S2 - a" b] low_cong(1) [of "S2 - a" b] low_cong(3) [of S2 a]
      low_cong(2) [of "take_bit 16 S2 - a" b]
    by metis
  show ?thesis
    unfolding rollWeak_def Let_def and_ffff pack_low pack_high 1 unfolding 2
    by (simp only: pack_def prod.case)
qed

lemma roll_weak:
  assumes "length Mid < 2 ^ 31 - 1"
  shows "rollWeak (weakChecksum (Out # Mid)) Out In (of_nat (length (Out # Mid))) = weakChecksum (Mid @ [In])"
proof -
  have l: "length (Out # Mid) < 2 ^ 31" "length (Mid @ [In]) < 2 ^ 31" using assms by simp_all
  show ?thesis
    unfolding weakChecksum_pack [OF l(1)] weakChecksum_pack [OF l(2)] weak_sums_Cons weak_sums_snoc rollWeak_pack
    by (simp add: algebra_simps)
qed

text \<open>
  C28. The optimised weak checksum is the sum it stands for, and rolling it by one byte in
  constant time gives the checksum of the moved window: for every window that starts with
  \<open>Out\<close> and of any length the loop can count, whatever the byte that enters.
\<close>

theorem rollWeak_weakChecksum:
  assumes "length Mid < 2 ^ 31 - 1"
  shows "rollWeak (weakChecksum (Out # Mid)) Out In (of_nat (length (Out # Mid))) = weakChecksum (Mid @ [In]) \<and>
    weakChecksum (Out # Mid) = pack (foldl weak_step (0, 0) (Out # Mid))"
  using roll_weak [OF assms, of Out In] weakChecksum_pack [of "Out # Mid", unfolded weak_sums_def] assms by (metis length_Cons less_diff_conv Suc_eq_plus1)

theorem rollWeak_weakChecksum_witness:
  "rollWeak (weakChecksum [200, 1, 2, 3, 4, 5]) 200 7 (of_nat (length [200 :: byte, 1, 2, 3, 4, 5])) =
     weakChecksum ([1, 2, 3, 4, 5] @ [7]) \<and>
   weakChecksum [200, 1, 2, 3, 4, 5] = pack (foldl weak_step (0, 0) [200, 1, 2, 3, 4, 5])"
  by (rule rollWeak_weakChecksum) simp

lemma weakHash_bound: "weakHash Weak < 2 ^ 16"
proof -
  have "weakHash Weak = take_bit 16 (drop_bit 16 Weak + (Weak AND 0xffff))"
    unfolding weakHash_def by (rule and_ffff)
  then have "unat (weakHash Weak) < 2 ^ 16"
    by (simp only: unsigned_take_bit_eq take_bit_nat_less_exp)
  then show ?thesis by (simp add: word_less_nat_alt)
qed

section \<open>What a verifier accepts\<close>

text \<open>
  The documented law of a streaming hash: the digest is that of everything fed to it since
  the last reset, however it was cut into updates.
\<close>

definition streams :: "'s xxlib \<Rightarrow> (Sum \<Rightarrow> byte list \<Rightarrow> u64 \<times> u64) \<Rightarrow> bool" where
  "streams X H \<longleftrightarrow> (\<forall>W bss. xx_digest (X W) (foldl (xx_update (X W)) (xx_reset (X W)) bss) = H W (concat bss))"

lemma Hasher_digest_cong:
  "Which H = Which H' \<Longrightarrow> xx_digest (X (Which H)) (State H) = xx_digest (X (Which H)) (State H') \<Longrightarrow>
     Hasher_digest X H = Hasher_digest X H'"
  by (simp add: Hasher_digest_def)

lemma foldl_Verifier_update:
  "foldl (Verifier_update X) V bss =
     (if On V then V\<lparr>Hash := foldl (Hasher_update X) (Hash V) bss\<rparr> else V)"
  by (induction bss rule: rev_induct) (simp_all add: Verifier_update_def)

lemma foldl_Hasher_update:
  "foldl (Hasher_update X) H bss = H\<lparr>State := foldl (xx_update (X (Which H))) (State H) bss\<rparr>"
  by (induction bss rule: rev_induct) (simp_all add: Hasher_update_def)

lemma Verifier_fed:
  assumes "streams X H"
  shows "Verifier_digest X (foldl (Verifier_update X) (Verifier_reset X V) bss) =
    (if On V then Hasher_digest X ((Hash V)\<lparr>State := foldl (xx_update (X (Which (Hash V)))) (xx_reset (X (Which (Hash V)))) [concat bss]\<rparr>)
     else replicate 16 0)"
proof -
  have "xx_digest (X W) (foldl (xx_update (X W)) (xx_reset (X W)) bss) =
      xx_digest (X W) (foldl (xx_update (X W)) (xx_reset (X W)) [concat bss])" for W
    using assms unfolding streams_def by (simp only: concat.simps append_Nil2)
  then show ?thesis
    by (auto simp: Verifier_digest_def Verifier_reset_def Hasher_reset_def foldl_Verifier_update
        foldl_Hasher_update intro!: Hasher_digest_cong)
qed

text \<open>
  Two ends that agreed on a hash and on whether to verify, and that fed the same bytes
  since their last reset, accept each other's digest, however each of them cut the bytes and
  whatever it hashed before; a verifier that is switched off accepts every digest.
\<close>

theorem Verifier_agrees:
  assumes "streams X H" and "Which (Hash V) = Which (Hash V')" and "On V \<longrightarrow> On V'"
    and "concat bss = concat bss'"
  shows "Verifier_matches X (foldl (Verifier_update X) (Verifier_reset X V) bss)
    (Verifier_digest X (foldl (Verifier_update X) (Verifier_reset X V') bss'))"
proof (cases "On V")
  case True
  have "On (foldl (Verifier_update X) (Verifier_reset X V) bss)"
    using True by (simp add: foldl_Verifier_update Verifier_reset_def)
  then have "Verifier_matches X (foldl (Verifier_update X) (Verifier_reset X V) bss) D \<longleftrightarrow>
      Verifier_digest X (foldl (Verifier_update X) (Verifier_reset X V) bss) = D" for D
    by (simp add: Verifier_matches_def Verifier_digest_def)
  then show ?thesis
    using assms True by (simp add: Verifier_fed [OF assms(1)] Hasher_digest_def)
next
  case False
  then show ?thesis
    by (simp add: Verifier_matches_def foldl_Verifier_update Verifier_reset_def)
qed

text \<open>A stand-in library whose state is the bytes fed and whose digest counts them.\<close>

definition counting_xx :: "nat xxlib" where
  "counting_xx W = \<lparr>xx_reset = 0, xx_update = (\<lambda>n bs. n + length bs), xx_digest = (\<lambda>n. (of_nat n, 0))\<rparr>"

lemma counting_xx_streams: "streams counting_xx (\<lambda>W bs. (of_nat (length bs), 0))"
proof -
  have "foldl (\<lambda>n bs. n + length bs) k bss = k + length (concat bss)" for k and bss :: "byte list list"
    by (induction bss arbitrary: k) simp_all
  then show ?thesis by (simp add: streams_def counting_xx_def)
qed

theorem Verifier_agrees_witness:
  "Verifier_matches counting_xx
     (foldl (Verifier_update counting_xx) (Verifier_reset counting_xx (Verifier_new counting_xx True XxH64)) [[1, 2], [3]])
     (Verifier_digest counting_xx (foldl (Verifier_update counting_xx)
        (Verifier_reset counting_xx (Verifier_new counting_xx True XxH64)) [[1], [], [2, 3]]))"
  by (rule Verifier_agrees [OF counting_xx_streams]) simp_all

end
