(* ===== verification/FileReader.thy ===== *)
theory FileReader
  imports Rail_Prelude
begin

text \<open>
  \<^verbatim>\<open>src/fs/reader.cc\<close>: reading a file through \<^verbatim>\<open>pread\<close>. The kernel may return less
  than was asked for, be interrupted or fail; the schedule of its answers is data. The
  interface \<open>steady_file\<close> is what the block algorithms rely on, and the reader on an
  unchanging file is its interpretation.
\<close>

text \<open>
  \<open>P_Take k\<close>: the call returns at most \<open>Suc k\<close> bytes, zero only at the end of the file.
  With no answer left a call returns all it was asked for that the file has.
\<close>

datatype pread_event = P_Take nat | P_Intr | P_Fail int

definition pread :: "byte list \<Rightarrow> nat \<Rightarrow> nat \<Rightarrow> nat \<Rightarrow> byte list" where
  "pread Data most Offset n = take (min most n) (drop Offset Data)"

text \<open>\<^verbatim>\<open>FileReader::read\<close>: \<open>got\<close> holds the bytes placed in \<^verbatim>\<open>Dst\<close> so far.\<close>

fun FileReader_read_from :: "byte list \<Rightarrow> pread_event list \<Rightarrow> nat \<Rightarrow> nat \<Rightarrow> byte list \<Rightarrow> byte list Result" where
  "FileReader_read_from Data [] n Offset got =
     (if length got < n then Inr (got @ pread Data n (Offset + length got) (n - length got)) else Inr got)"
| "FileReader_read_from Data (ev # es) n Offset got =
     (if \<not> length got < n then Inr got
      else case ev of
        P_Take k \<Rightarrow>
          (let N = pread Data (Suc k) (Offset + length got) (n - length got) in
           if N = [] then Inr got else FileReader_read_from Data es n Offset (got @ N))
      | P_Intr \<Rightarrow> FileReader_read_from Data es n Offset got
      | P_Fail e \<Rightarrow> failErrno e ''pread'')"

definition FileReader_read :: "byte list \<Rightarrow> pread_event list \<Rightarrow> nat \<Rightarrow> nat \<Rightarrow> byte list Result" where
  "FileReader_read Data es Offset n = FileReader_read_from Data es n Offset []"

section \<open>What the block algorithms rely on\<close>

text \<open>
  A source of bytes that does not change while it is read: a read returns what is there,
  short only at the end.
\<close>

locale steady_file =
  fixes rd :: "nat \<Rightarrow> nat \<Rightarrow> byte list Result"
    and Data :: "byte list"
  assumes rd_full: "rd Offset n = Inr (take n (drop Offset Data))"
begin

lemma rd_inside: "Offset + n \<le> length Data \<Longrightarrow> \<exists>bs. rd Offset n = Inr bs \<and> length bs = n \<and> bs = take n (drop Offset Data)"
  by (simp add: rd_full)

lemma rd_never_fails: "is_ok (rd Offset n)"
  by (simp add: rd_full)

end

fun calm :: "pread_event \<Rightarrow> bool" where
  "calm (P_Fail e) = False"
| "calm _ = True"

lemma FileReader_read_from_calm:
  assumes "list_all calm es" and "drop Offset Data = got @ left" and "length got \<le> n"
  shows "FileReader_read_from Data es n Offset got = Inr (got @ take (n - length got) left)"
  using assms
proof (induction Data es n Offset got arbitrary: left rule: FileReader_read_from.induct)
  case (1 Data n Offset got)
  have "drop (Offset + length got) Data = left"
    using 1(2) by (metis add.commute append_eq_conv_conj drop_drop)
  then show ?case by (simp add: pread_def)
next
  case (2 Data ev es n Offset got)
  have left: "drop (Offset + length got) Data = left"
    using 2(4) by (metis add.commute append_eq_conv_conj drop_drop)
  show ?case
  proof (cases "length got < n")
    case False
    with 2 show ?thesis by simp
  next
    case True
    show ?thesis
    proof (cases ev)
      case (P_Take k)
      let ?m = "min (Suc k) (n - length got)"
      have N: "pread Data (Suc k) (Offset + length got) (n - length got) = take ?m left"
        by (simp add: pread_def left)
      show ?thesis
      proof (cases "left = []")
        case True
        with \<open>length got < n\<close> P_Take show ?thesis by (simp add: N)
      next
        case False
        then have ne: "take ?m left \<noteq> []" using True by simp
        have "FileReader_read_from Data es n Offset (got @ take ?m left) =
            Inr ((got @ take ?m left) @ take (n - length (got @ take ?m left)) (drop ?m left))"
          by (rule 2(1) [OF _ P_Take N [symmetric] ne]) (use 2 True in auto)
        moreover have "take ?m left @ take (n - length (got @ take ?m left)) (drop ?m left) =
            take (n - length got) left"
          using take_then_take [of ?m "n - length got" left] by (simp only: length_append diff_diff_left min.cobounded2)
        ultimately show ?thesis
          using True P_Take ne by (simp add: N)
      qed
    qed (use 2 True in simp_all)
  qed
qed

text \<open>Interruptions and short reads are invisible: schedules of \<open>None\<close> and \<open>Some k\<close>.\<close>

definition calm_schedule :: "nat option list \<Rightarrow> pread_event list" where
  "calm_schedule ks = map (\<lambda>k. case k of None \<Rightarrow> P_Intr | Some k \<Rightarrow> P_Take k) ks"

lemma calm_calm_schedule: "list_all calm (calm_schedule ks)"
  by (induction ks) (simp_all add: calm_schedule_def split: option.split)

interpretation reader: steady_file "\<lambda>Offset n. FileReader_read Data (calm_schedule (sched Offset n)) Offset n" Data
  for Data sched
  by unfold_locales (simp add: FileReader_read_def FileReader_read_from_calm [OF calm_calm_schedule, where left = "drop _ _"])

end
