(* ===== verification/Block_Signature.thy ===== *)
theory Block_Signature
  imports Message Checksum FileReader
begin

text \<open>
  \<^verbatim>\<open>src/app/signature.cc\<close>: how a basis file is cut into blocks, how many bytes of the strong
  hash are compared, and the sums of the blocks.
\<close>

definition kDefaultBlockSize :: u32 where
  "kDefaultBlockSize = 700"

definition kBlockSumBias :: int where
  "kBlockSumBias = 10"

lemma shift_decreases:
  assumes "0 < n" and "drop_bit n w \<noteq> 0"
  shows "unat (drop_bit n w) < unat w"
proof -
  have "unat w \<noteq> 0" using assms(2) by (auto simp: unat_eq_0)
  moreover have "(1 :: nat) < 2 ^ n" using assms(1) one_less_power [of "2 :: nat" n] by simp
  ultimately show ?thesis unfolding unat_drop_bit by simp
qed

section \<open>The block length\<close>

text \<open>\<^verbatim>\<open>for (uint64_t L = FileLength; L >>= 2;) C <<= 1;\<close>\<close>

function block_scale :: "u64 \<Rightarrow> u32 \<Rightarrow> u32" where
  "block_scale L C = (let L' = drop_bit 2 L in if L' = 0 then C else block_scale L' (push_bit 1 C))"
  by pat_completeness auto
termination
  by (relation "measure (\<lambda>(L, C). unat L)") (auto simp: Let_def simp del: drop_bit_of_0 drop_bit_Suc intro!: shift_decreases)

declare block_scale.simps [simp del]

text \<open>The \<^verbatim>\<open>do ... while (C >= 8)\<close> loop: one bit of the root a turn.\<close>

definition block_bit :: "u64 \<Rightarrow> u32 \<Rightarrow> u32 \<Rightarrow> u32" where
  "block_bit FileLength Blength C =
     (let B = Blength OR C
      in if FileLength < (ucast B :: u64) * ucast B then B AND NOT C else B)"

function block_root :: "u64 \<Rightarrow> u32 \<Rightarrow> u32 \<Rightarrow> u32" where
  "block_root FileLength Blength C =
     (let B = block_bit FileLength Blength C;
          C' = drop_bit 1 C
      in if 8 \<le> C' then block_root FileLength B C' else B)"
  by pat_completeness auto
termination
  by (relation "measure (\<lambda>(F, B, C). unat C)") (auto simp: Let_def simp del: drop_bit_of_0 drop_bit_Suc intro!: shift_decreases)

declare block_root.simps [simp del]

definition chooseBlockLength :: "u64 \<Rightarrow> u32 \<Rightarrow> u32" where
  "chooseBlockLength FileLength MaxBlockSize =
     (if FileLength \<le> ucast kDefaultBlockSize * ucast kDefaultBlockSize then kDefaultBlockSize
      else let C = block_scale FileLength 1
           in if C = 0 \<or> MaxBlockSize \<le> C then MaxBlockSize
              else max (block_root FileLength 0 C) kDefaultBlockSize)"

section \<open>The compared part of the strong hash\<close>

text \<open>\<^verbatim>\<open>for (uint64_t L = FileLength; L >>= 1;) B += 2;\<close>\<close>

function strong_up :: "u64 \<Rightarrow> int \<Rightarrow> int" where
  "strong_up L B = (let L' = drop_bit 1 L in if L' = 0 then B else strong_up L' (B + 2))"
  by pat_completeness auto
termination
  by (relation "measure (\<lambda>(L, B). unat L)") (auto simp: Let_def simp del: drop_bit_of_0 drop_bit_Suc intro!: shift_decreases)

text \<open>\<^verbatim>\<open>for (uint32_t C = BlockLength; (C >>= 1) && B;) B--;\<close>\<close>

function strong_down :: "u32 \<Rightarrow> int \<Rightarrow> int" where
  "strong_down C B = (let C' = drop_bit 1 C in if C' \<noteq> 0 \<and> B \<noteq> 0 then strong_down C' (B - 1) else B)"
  by pat_completeness auto
termination
  by (relation "measure (\<lambda>(C, B). unat C)") (auto simp: Let_def simp del: drop_bit_of_0 drop_bit_Suc intro!: shift_decreases)

declare strong_up.simps [simp del] strong_down.simps [simp del]

text \<open>The division of C++ truncates towards zero.\<close>

definition div_trunc :: "int \<Rightarrow> int \<Rightarrow> int" where
  "div_trunc a b = sgn a * sgn b * (\<bar>a\<bar> div \<bar>b\<bar>)"

definition chooseStrongLength :: "u64 \<Rightarrow> u32 \<Rightarrow> u32" where
  "chooseStrongLength FileLength BlockLength =
     (let B = strong_down BlockLength (strong_up FileLength kBlockSumBias);
          S2 = div_trunc (B + 1 - 32 + 7) 8
      in of_int (max 2 (min 16 S2)))"

section \<open>The blocks of a file\<close>

definition blockLengthAt :: "Signature \<Rightarrow> u32 \<Rightarrow> u32" where
  "blockLengthAt Sig Index =
     (if Signature_BlockLength Sig = 0 \<or> length (Signature_Sums Sig) \<le> unat Index then 0
      else let Start = (ucast Index :: u64) * ucast (Signature_BlockLength Sig);
               Left = Signature_FileLength Sig - Start
           in ucast (min Left (ucast (Signature_BlockLength Sig))))"

text \<open>
  \<^verbatim>\<open>buildSignature\<close>: \<open>rd\<close> reads the basis and \<open>strong\<close> is the strong checksum. The loop
  advances by what a read returned and stops at zero.
\<close>

definition sum_of :: "(byte list \<Rightarrow> Digest) \<Rightarrow> byte list \<Rightarrow> BlockSum" where
  "sum_of strong View = \<lparr>BlockSum_Weak = weakChecksum View, BlockSum_Strong = strong View\<rparr>"

function signature_sums ::
  "(nat \<Rightarrow> nat \<Rightarrow> byte list Result) \<Rightarrow> (byte list \<Rightarrow> Digest) \<Rightarrow> nat \<Rightarrow> nat \<Rightarrow> nat \<Rightarrow> BlockSum list Result" where
  "signature_sums rd strong BlockLength FileLength Offset =
     (if \<not> Offset < FileLength then Inr []
      else bindR (rd Offset (min BlockLength (FileLength - Offset))) (\<lambda>View.
        if View = [] then Inr []
        else bindR (signature_sums rd strong BlockLength FileLength (Offset + length View)) (\<lambda>Sums.
          Inr (sum_of strong View # Sums))))"
  by pat_completeness auto
termination
  by (relation "measure (\<lambda>(rd, strong, B, F, Offset). F - Offset)") (auto simp: length_greater_0_conv [symmetric] simp del: length_greater_0_conv)

declare signature_sums.simps [simp del]

definition buildSignature ::
  "(nat \<Rightarrow> nat \<Rightarrow> byte list Result) \<Rightarrow> u64 \<Rightarrow> (byte list \<Rightarrow> Digest) \<Rightarrow> u32 \<Rightarrow> u32 \<Rightarrow> Signature Result" where
  "buildSignature rd Size strong BlockLength StrongLength =
     (let Sig = \<lparr>Signature_BlockLength = BlockLength, Signature_StrongLength = StrongLength,
                 Signature_FileLength = Size, Signature_Sums = []\<rparr>
      in if Size = 0 \<or> BlockLength = 0 then Inr Sig
         else bindR (signature_sums rd strong (unat BlockLength) (unat Size) 0) (\<lambda>Sums.
           Inr (Sig\<lparr>Signature_Sums := Sums\<rparr>)))"

section \<open>The block length is the rounded root\<close>

lemma block_scale_power:
  assumes "L \<noteq> 0"
  shows "\<exists>k. block_scale L (push_bit j 1) = push_bit (j + k) 1 \<and> 4 ^ k \<le> unat L \<and> unat L < 4 ^ Suc k"
  using assms
proof (induction L "push_bit j 1 :: u32" arbitrary: j rule: block_scale.induct)
  case (1 L)
  let ?L = "drop_bit 2 L"
  have q: "unat ?L = unat L div 4" by (simp only: unat_drop_bit) simp
  show ?case
  proof (cases "?L = 0")
    case True
    then have "unat L div 4 = 0" using q by (simp only: unat_0)
    moreover have "1 \<le> unat L" using 1(2) by (simp add: Suc_le_eq unat_gt_0)
    ultimately show ?thesis
      using True by (intro exI [of _ 0]) (subst block_scale.simps, simp add: Let_def)
  next
    case False
    obtain k where k: "block_scale ?L (push_bit (Suc j) 1) = push_bit (Suc j + k) 1"
      "4 ^ k \<le> unat ?L" "unat ?L < 4 ^ Suc k"
      using 1(1) [OF refl False, of "Suc j"] False by (auto simp: push_bit_push_bit)
    have "4 ^ Suc k \<le> unat L" "unat L < 4 ^ Suc (Suc k)"
      using k(2,3) unfolding q by (simp_all add: less_eq_div_iff_mult_less_eq div_less_iff_less_mult mult.commute)
    with k(1) False show ?thesis
      by (intro exI [of _ "Suc k"]) (subst block_scale.simps, simp add: Let_def push_bit_push_bit mult.commute)
  qed
qed

lemma unat_exp: "k < 32 \<Longrightarrow> unat (2 ^ k :: u32) = 2 ^ k"
  using unat_of_nat_small [of "2 ^ k", where 'a = 32] power_strict_increasing [of k 32 "2 :: nat"] by simp

lemma unat_ucast_u32 [simp]: "unat (ucast (B :: u32) :: u64) = unat B"
  using unsigned_less [where 'a = nat, of B] by (simp only: unsigned_ucast_eq) (rule take_bit_nat_eq_self, simp)

lemma block_bit_cases:
  fixes Bl :: u32
  assumes "k < 32" and "take_bit (Suc k) Bl = 0"
  defines "C \<equiv> push_bit k 1"
  shows "unat (Bl OR C) = unat Bl + 2 ^ k" and "(Bl OR C) AND NOT C = Bl"
    and "take_bit k (Bl OR C) = 0" and "take_bit k Bl = 0"
proof -
  have b: "\<not> bit Bl i" if "i \<le> k" for i
    using assms(2) that by (metis bit_take_bit_iff bit_0_eq bot_apply bot_bool_def less_Suc_eq_le)
  have bC: "bit C i \<longleftrightarrow> i = k" for i
    using assms(1) by (auto simp: C_def bit_exp_iff)
  have "unat Bl AND unat C = 0"
    unfolding unsigned_and_eq [symmetric] by (subst unat_eq_0, rule bit_word_eqI) (auto simp: bit_and_iff bC b)
  then have "unat Bl OR unat C = unat Bl + unat C" by (simp add: disjunctive_add_eq_or)
  moreover have "unat C = 2 ^ k" using assms(1) by (simp add: C_def unat_exp)
  ultimately show "unat (Bl OR C) = unat Bl + 2 ^ k" by (simp add: unsigned_or_eq)
  show "(Bl OR C) AND NOT C = Bl"
    by (rule bit_word_eqI) (auto simp: bit_and_iff bit_or_iff bit_not_iff bC b)
  show "take_bit k (Bl OR C) = 0" "take_bit k Bl = 0"
    by (rule bit_word_eqI; auto simp: bit_take_bit_iff bit_or_iff bC b)+
qed

lemma unat_square: "unat ((ucast (B :: u32) :: u64) * ucast B) = unat B * unat B"
proof -
  have "unat B * unat B < 2 ^ 32 * 2 ^ 32"
    using unsigned_less [of B] by (intro mult_strict_mono) auto
  then show ?thesis
    by (simp add: unat_word_ariths)
qed

lemma block_bit_step:
  assumes "k < 32" and "take_bit (Suc k) Bl = 0"
    and "unat Bl * unat Bl \<le> unat F" and "unat F < (unat Bl + 2 ^ Suc k) * (unat Bl + 2 ^ Suc k)"
  defines "B \<equiv> block_bit F Bl (push_bit k 1)"
  shows "take_bit k B = 0 \<and> unat B * unat B \<le> unat F \<and> unat F < (unat B + 2 ^ k) * (unat B + 2 ^ k)"
proof -
  note c = block_bit_cases [OF assms(1,2)]
  have lt: "F < (ucast x :: u64) * ucast x \<longleftrightarrow> unat F < unat x * unat x" for x :: u32
    by (simp add: word_less_nat_alt unat_square)
  show ?thesis
  proof (cases "unat F < (unat Bl + 2 ^ k) * (unat Bl + 2 ^ k)")
    case True
    then have "B = Bl" using c(1,2) by (simp add: B_def block_bit_def Let_def lt)
    with True assms(3) c(4) show ?thesis by simp
  next
    case False
    then have "B = Bl OR push_bit k 1" using c(1) by (simp add: B_def block_bit_def Let_def lt)
    with False assms(4) c(1,3) show ?thesis by (simp add: mult_2 add.assoc)
  qed
qed

lemma block_root_rounded:
  assumes "3 \<le> k" and "k < 32" and "take_bit (Suc k) Bl = 0"
    and "unat Bl * unat Bl \<le> unat F" and "unat F < (unat Bl + 2 ^ Suc k) * (unat Bl + 2 ^ Suc k)"
  defines "r \<equiv> block_root F Bl (push_bit k 1)"
  shows "8 dvd unat r \<and> unat r * unat r \<le> unat F \<and> unat F < (unat r + 8) * (unat r + 8)"
  using assms(1-5) unfolding r_def
proof (induction k arbitrary: Bl rule: dec_induct)
  case base
  let ?B = "block_bit F Bl (push_bit 3 1)"
  have s: "take_bit 3 ?B = 0" "unat ?B * unat ?B \<le> unat F" "unat F < (unat ?B + 2 ^ 3) * (unat ?B + 2 ^ 3)"
    using block_bit_step [of 3 Bl F] base by auto
  have "take_bit 3 (unat ?B) = 0" using s(1) by (metis unsigned_take_bit_eq unat_0)
  then have "8 dvd unat ?B" by (simp add: take_bit_eq_mod mod_eq_0_iff_dvd)
  moreover have "block_root F Bl (push_bit 3 1) = ?B"
    by (subst block_root.simps) (simp add: Let_def)
  ultimately show ?case using s by simp
next
  case (step k)
  let ?B = "block_bit F Bl (push_bit (Suc k) 1)"
  have C': "drop_bit 1 (push_bit (Suc k) 1 :: u32) = push_bit k 1"
    by (rule bit_word_eqI) (use step.prems(1) in \<open>auto simp: bit_drop_bit_eq bit_exp_iff simp flip: power_Suc\<close>)
  have "(2 :: nat) ^ 3 \<le> 2 ^ k" using step.hyps by (intro power_increasing) auto
  then have "8 \<le> (push_bit k 1 :: u32)"
    using step.prems(1) by (simp add: word_le_nat_alt unat_exp)
  then have "block_root F Bl (push_bit (Suc k) 1) = block_root F ?B (push_bit k 1)"
    by (subst block_root.simps) (simp only: Let_def C' if_True)
  moreover have "take_bit (Suc k) ?B = 0 \<and> unat ?B * unat ?B \<le> unat F \<and>
      unat F < (unat ?B + 2 ^ Suc k) * (unat ?B + 2 ^ Suc k)"
    using block_bit_step [of "Suc k" Bl F] step.prems by blast
  ultimately show ?case using step.IH [of ?B] step.prems(1) by auto
qed

lemma chooseStrongLength_range: "2 \<le> chooseStrongLength F B \<and> chooseStrongLength F B \<le> 16"
proof -
  define n where "n = max 2 (min 16 (div_trunc (strong_down B (strong_up F kBlockSumBias) + 1 - 32 + 7) 8))"
  then have "2 \<le> n" "n \<le> 16" by auto
  moreover from this have "unat (of_int n :: u32) = nat n"
    using unat_of_nat_small [of "nat n", where 'a = 32] by simp
  ultimately have "2 \<le> (of_int n :: u32) \<and> (of_int n :: u32) \<le> 16"
    by (auto simp: word_le_nat_alt nat_le_iff le_nat_iff)
  then show ?thesis by (simp add: chooseStrongLength_def Let_def n_def)
qed

lemma chooseBlockLength_fits:
  fixes FileLength :: u64
  assumes "MaxBlockSize = 2 ^ m" and "m < 32" and "kDefaultBlockSize \<le> MaxBlockSize"
  defines "r \<equiv> chooseBlockLength FileLength MaxBlockSize"
  shows "kDefaultBlockSize \<le> r \<and> r \<le> MaxBlockSize \<and> (r \<noteq> kDefaultBlockSize \<longrightarrow> unat r * unat r \<le> unat FileLength) \<and>
    (r \<noteq> kDefaultBlockSize \<and> r \<noteq> MaxBlockSize \<longrightarrow> 8 dvd unat r \<and> unat FileLength < (unat r + 8) * (unat r + 8))"
proof -
  show ?thesis
  proof (cases "FileLength \<le> ucast kDefaultBlockSize * ucast kDefaultBlockSize")
    case True
    then have "r = kDefaultBlockSize" by (simp add: r_def chooseBlockLength_def)
    with assms(3) show ?thesis by simp
  next
    case False
    then have big: "490000 < unat FileLength"
      by (simp add: kDefaultBlockSize_def word_le_nat_alt)
    then have "FileLength \<noteq> 0" by auto
    then obtain k where k: "block_scale FileLength 1 = push_bit k 1" "4 ^ k \<le> unat FileLength"
      "unat FileLength < 4 ^ Suc k"
      using block_scale_power [of FileLength 0] by auto
    have "\<not> k \<le> 8" using big k(3) power_increasing [of "Suc k" 9 "4 :: nat"] by auto
    then have "3 \<le> k" by simp
    have "(4 :: nat) ^ k < 4 ^ 32" using k(2) unsigned_less [where 'a = nat, of FileLength] by (simp add: order.strict_trans1)
    then have "k < 32" by (rule power_less_imp_less_exp [rotated]) simp
    define C where "C = block_scale FileLength 1"
    have C: "C = 2 ^ k" "unat C = 2 ^ k" using k(1) \<open>k < 32\<close> by (simp_all add: C_def unat_exp)
    show ?thesis
    proof (cases "C = 0 \<or> MaxBlockSize \<le> C")
      case True
      then have "r = MaxBlockSize" using False by (simp add: r_def chooseBlockLength_def Let_def C_def)
      moreover have "unat MaxBlockSize \<le> 2 ^ k" using True C \<open>k < 32\<close> by (auto simp: word_le_nat_alt)
      then have "unat MaxBlockSize * unat MaxBlockSize \<le> 2 ^ k * 2 ^ k" by (intro mult_le_mono)
      ultimately show ?thesis using k(2) assms(3) by (simp add: power_mult_distrib [symmetric])
    next
      case F: False
      let ?b = "block_root FileLength 0 C"
      have rb: "r = max ?b kDefaultBlockSize" using False F by (simp add: r_def chooseBlockLength_def Let_def C_def)
      have R: "8 dvd unat ?b \<and> unat ?b * unat ?b \<le> unat FileLength \<and> unat FileLength < (unat ?b + 8) * (unat ?b + 8)"
        using block_root_rounded [OF \<open>3 \<le> k\<close> \<open>k < 32\<close>, of 0 FileLength] k(3) C(1)
        by (simp add: power_mult_distrib [symmetric])
      have "k < m" using F assms(1,2) C(2) \<open>k < 32\<close> by (simp add: word_le_nat_alt unat_exp not_le)
      then have "(2 :: nat) ^ Suc k \<le> 2 ^ m" by (intro power_increasing) auto
      moreover have "unat ?b < 2 ^ Suc k"
      proof (rule ccontr)
        assume "\<not> unat ?b < 2 ^ Suc k"
        then have "2 ^ Suc k * 2 ^ Suc k \<le> unat ?b * unat ?b" by (intro mult_mono) auto
        with R k(3) show False by (simp add: power_mult_distrib [symmetric])
      qed
      ultimately have "?b \<le> MaxBlockSize" using assms(1,2) by (simp add: word_le_nat_alt unat_exp)
      with R rb assms(3) show ?thesis by (auto simp: max_def)
    qed
  qed
qed



section \<open>The signature of a file\<close>

text \<open>The blocks a file is cut into: full ones and a shorter last one.\<close>

function blocks :: "nat \<Rightarrow> byte list \<Rightarrow> byte list list" where
  "blocks B xs = (if B = 0 \<or> xs = [] then [] else take B xs # blocks B (drop B xs))"
  by pat_completeness auto
termination
  by (relation "measure (\<lambda>(B, xs). length xs)") auto

declare blocks.simps [simp del]

lemma concat_blocks: "0 < B \<Longrightarrow> concat (blocks B xs) = xs"
  by (induction B xs rule: blocks.induct) (subst blocks.simps, simp)

lemma nth_blocks:
  "i < length (blocks B xs) \<Longrightarrow> blocks B xs ! i = take B (drop (i * B) xs) \<and> i * B < length xs"
proof (induction B xs arbitrary: i rule: blocks.induct)
  case (1 B xs)
  show ?case
  proof (cases "B = 0 \<or> xs = []")
    case True
    with 1 show ?thesis by (auto simp: blocks.simps [of B xs])
  next
    case False
    note b = blocks.simps [of B xs]
    show ?thesis
    proof (cases i)
      case 0
      with False show ?thesis by (simp add: b)
    next
      case (Suc j)
      then have "j < length (blocks B (drop B xs))" using 1(2) False by (simp add: b)
      with 1(1) [OF False, of j] Suc False show ?thesis
        by (auto simp: b add.commute)
    qed
  qed
qed

context steady_file
begin

lemma signature_sums_blocks:
  assumes "0 < B"
  shows "signature_sums rd strong B (length Data) Offset = Inr (map (sum_of strong) (blocks B (drop Offset Data)))"
proof (induction "length Data - Offset" arbitrary: Offset rule: less_induct)
  case less
  show ?case
  proof (cases "Offset < length Data")
    case False
    then show ?thesis by (simp add: signature_sums.simps [of rd strong B "length Data" Offset] blocks.simps)
  next
    case True
    let ?v = "take B (drop Offset Data)"
    have v: "rd Offset (min B (length Data - Offset)) = Inr ?v" by (simp add: rd_full min_def)
    have "signature_sums rd strong B (length Data) (Offset + length ?v) =
        Inr (map (sum_of strong) (blocks B (drop (Offset + length ?v) Data)))"
      by (rule less) (use True assms in auto)
    moreover have "drop (Offset + length ?v) Data = drop B (drop Offset Data)"
      by (auto simp: min_def add.commute)
    moreover have "blocks B (drop Offset Data) = ?v # blocks B (drop B (drop Offset Data))"
      using True assms by (subst blocks.simps) simp
    ultimately show ?thesis
      using True assms v by (subst signature_sums.simps) simp
  qed
qed

end

lemma blockLengthAt_blocks:
  assumes "Signature_FileLength Sig = of_nat (length Data)" and "length Data < 2 ^ 64"
    and "Signature_BlockLength Sig \<noteq> 0"
    and "length (Signature_Sums Sig) = length (blocks (unat (Signature_BlockLength Sig)) Data)"
    and "unat Index < length (Signature_Sums Sig)"
  shows "unat (blockLengthAt Sig Index) = length (blocks (unat (Signature_BlockLength Sig)) Data ! unat Index)"
proof -
  let ?B = "unat (Signature_BlockLength Sig)" and ?i = "unat Index"
  note nb = nth_blocks [of ?i ?B Data]
  have lt: "?i * ?B < length Data" using nb assms(4,5) by simp
  define Start where "Start = (ucast Index :: u64) * ucast (Signature_BlockLength Sig)"
  have S: "unat Start = ?i * ?B"
    using lt assms(2) by (simp add: Start_def unat_word_ariths)
  have F: "unat (Signature_FileLength Sig) = length Data"
    using assms(1,2) by (simp add: unat_of_nat_small)
  have L: "unat (Signature_FileLength Sig - Start) = length Data - ?i * ?B"
    using S F lt by (subst unat_sub) (simp_all add: word_le_nat_alt)
  define M where "M = min (Signature_FileLength Sig - Start) (ucast (Signature_BlockLength Sig))"
  have M: "unat M = min (length Data - ?i * ?B) ?B"
    using L by (simp add: M_def min_def word_le_nat_alt)
  have "unat M < 2 ^ 32" using M unsigned_less [where 'a = nat, of "Signature_BlockLength Sig"] by (simp add: min_def)
  then have "unat (ucast M :: u32) = unat M" by (simp only: unsigned_ucast_eq) (rule take_bit_nat_eq_self, simp)
  moreover have "blockLengthAt Sig Index = ucast M"
    using assms(3,5) by (simp add: blockLengthAt_def Let_def M_def Start_def not_le)
  ultimately show ?thesis using M nb assms(4,5) by simp
qed

lemma buildSignature_reader:
  fixes BlockLength :: u32
  assumes "length Data < 2 ^ 64" and "BlockLength \<noteq> 0"
  shows "buildSignature (\<lambda>Offset n. FileReader_read Data (calm_schedule (sched Offset n)) Offset n)
      (of_nat (length Data)) strong BlockLength StrongLength =
    Inr \<lparr>Signature_BlockLength = BlockLength, Signature_StrongLength = StrongLength,
      Signature_FileLength = of_nat (length Data),
      Signature_Sums = map (sum_of strong) (blocks (unat BlockLength) Data)\<rparr>"
proof (cases "Data = []")
  case True
  then show ?thesis by (simp add: buildSignature_def Let_def blocks.simps)
next
  case False
  have B: "0 < unat BlockLength" using assms(2) by (simp add: unat_gt_0)
  have len: "unat (of_nat (length Data) :: u64) = length Data" using assms(1) by (simp add: unat_of_nat_small)
  with False have "(of_nat (length Data) :: u64) \<noteq> 0" by (metis length_0_conv unat_0)
  with assms(2) reader.signature_sums_blocks [OF B, of Data sched strong 0] len show ?thesis
    by (simp add: buildSignature_def Let_def)
qed

lemma buildSignature_steady:
  assumes "length Data < 2 ^ 64" and "BlockLength \<noteq> 0"
    and "buildSignature (\<lambda>Offset n. FileReader_read Data (calm_schedule (sched Offset n)) Offset n)
        (of_nat (length Data)) strong BlockLength StrongLength = Inr Sig"
  shows "Signature_BlockLength Sig = BlockLength \<and> Signature_FileLength Sig = of_nat (length Data) \<and>
    Signature_Sums Sig = map (sum_of strong) (blocks (unat BlockLength) Data)"
  using assms(3) buildSignature_reader [OF assms(1,2), of sched strong StrongLength] by auto

text \<open>
  C30. The signature of an unchanging file describes it completely: there is one sum per
  block, in order, each the weak and strong checksum of its block; the blocks put together
  are the file; and \<open>blockLengthAt\<close> is the length of each of them, the short last one
  included. This holds for every schedule of short and interrupted reads.
\<close>

theorem buildSignature_describes:
  assumes "length Data < 2 ^ 64" and "BlockLength \<noteq> 0"
  shows "\<exists>Sig. buildSignature (\<lambda>Offset n. FileReader_read Data (calm_schedule (sched Offset n)) Offset n)
        (of_nat (length Data)) strong BlockLength StrongLength = Inr Sig \<and>
      Signature_Sums Sig = map (sum_of strong) (blocks (unat BlockLength) Data) \<and>
      concat (blocks (unat BlockLength) Data) = Data \<and>
      (\<forall>Index. unat Index < length (Signature_Sums Sig) \<longrightarrow>
         unat (blockLengthAt Sig Index) = length (blocks (unat BlockLength) Data ! unat Index))"
proof -
  let ?Sig = "\<lparr>Signature_BlockLength = BlockLength, Signature_StrongLength = StrongLength,
     Signature_FileLength = of_nat (length Data),
     Signature_Sums = map (sum_of strong) (blocks (unat BlockLength) Data)\<rparr>"
  have "\<forall>Index. unat Index < length (Signature_Sums ?Sig) \<longrightarrow>
      unat (blockLengthAt ?Sig Index) = length (blocks (unat BlockLength) Data ! unat Index)"
    using blockLengthAt_blocks [of ?Sig Data] assms by simp
  moreover have "concat (blocks (unat BlockLength) Data) = Data"
    using assms(2) by (intro concat_blocks) (simp add: unat_gt_0)
  ultimately show ?thesis
    using buildSignature_reader [OF assms, of sched strong StrongLength] by auto
qed

theorem buildSignature_describes_witness:
  "\<exists>Sig. buildSignature (\<lambda>Offset n. FileReader_read [1, 2, 3, 4, 5] (calm_schedule [Some 0, None]) Offset n)
        (of_nat (length [1 :: byte, 2, 3, 4, 5])) (\<lambda>bs. replicate 16 0) 2 2 = Inr Sig \<and>
      Signature_Sums Sig = map (sum_of (\<lambda>bs. replicate 16 0)) (blocks (unat (2 :: u32)) [1, 2, 3, 4, 5]) \<and>
      concat (blocks (unat (2 :: u32)) [1, 2, 3, 4, 5]) = [1, 2, 3, 4, 5 :: byte] \<and>
      (\<forall>Index. unat Index < length (Signature_Sums Sig) \<longrightarrow>
         unat (blockLengthAt Sig Index) = length (blocks (unat (2 :: u32)) [1, 2, 3, 4, 5] ! unat Index))"
  by (rule buildSignature_describes) simp_all

end
