(* ===== verification/Differ.thy ===== *)
theory Differ
  imports Block_Signature
begin

text \<open>
  \<^verbatim>\<open>src/app/differ.cc\<close>: the scan of a source file against the signature of a basis, which
  emits copy and literal instructions. The hash table with its chains is shown to refine a
  list of candidate blocks; the instructions are shown to lay the source out without gap or
  overlap and to rebuild it from the basis; the scan is shown to return. Offsets are natural
  numbers: a file size is an \<^verbatim>\<open>off_t\<close>, so no sum of an offset and a block length reaches
  \<open>2 ^ 64\<close>. Table and chain are functions of the index, which holds \<open>-1\<close> where nothing was
  stored; an \<^verbatim>\<open>int32_t\<close> index is an integer, a signature of one frame having fewer than
  \<open>2 ^ 31\<close> sums.
\<close>

section \<open>Data\<close>

datatype Kind = K_Copy | K_Literal

record Instruction =
  Ins_K :: Kind
  Ins_BlockIndex :: nat
  Ins_SrcOffset :: nat
  Ins_DstOffset :: nat
  Ins_Length :: nat
  Ins_Bytes :: "byte list"

record Report =
  Rep_LiteralBytes :: nat
  Rep_MatchedBytes :: nat
  Rep_HashHits :: nat
  Rep_FalseAlarms :: nat

text \<open>
  The sink sees the instructions in order and may refuse one; \<open>D_Emitted\<close> are those it took.
\<close>

type_synonym InstructionSink = "Instruction list \<Rightarrow> Instruction \<Rightarrow> Error option"

record Differ =
  D_MaxChainLen :: nat
  D_TableSize :: u32
  D_WantI :: int
  D_DstCursor :: nat
  D_HashTable :: "nat \<Rightarrow> int"
  D_Chain :: "nat \<Rightarrow> int"
  D_Window :: "byte list"
  D_WindowBase :: nat
  D_WindowLen :: nat
  D_SourceLen :: nat
  D_Rep :: Report
  D_Emitted :: "Instruction list"

definition kMaxWindow :: nat where
  "kMaxWindow = 4 * 2 ^ 20"

definition Differ_new :: "nat \<Rightarrow> Differ" where
  "Differ_new Limit = \<lparr>D_MaxChainLen = Limit, D_TableSize = 0, D_WantI = 0, D_DstCursor = 0,
     D_HashTable = (\<lambda>_. -1), D_Chain = (\<lambda>_. -1), D_Window = [], D_WindowBase = 0, D_WindowLen = 0, D_SourceLen = 0,
     D_Rep = \<lparr>Rep_LiteralBytes = 0, Rep_MatchedBytes = 0, Rep_HashHits = 0, Rep_FalseAlarms = 0\<rparr>, D_Emitted = []\<rparr>"

section \<open>The hash table\<close>

definition slot :: "u32 \<Rightarrow> u32 \<Rightarrow> nat" where
  "slot Size Weak = unat (weakHash Weak mod Size)"

primrec fill_table :: "u32 \<Rightarrow> BlockSum list \<Rightarrow> nat \<Rightarrow> (nat \<Rightarrow> int) \<Rightarrow> (nat \<Rightarrow> int) \<Rightarrow> (nat \<Rightarrow> int) \<times> (nat \<Rightarrow> int)" where
  "fill_table Size [] I Table Ch = (Table, Ch)"
| "fill_table Size (s # Sums) I Table Ch =
     (let T = slot Size (BlockSum_Weak s)
      in fill_table Size Sums (Suc I) (Table(T := int I)) (Ch(I := Table T)))"

definition table_size :: "nat \<Rightarrow> u32" where
  "table_size Count =
     (let Size = of_nat (Count div 8) * 10 + 11
      in if Size < push_bit 16 1 then push_bit 16 1 else Size)"

definition buildHashTable :: "Signature \<Rightarrow> Differ \<Rightarrow> Differ" where
  "buildHashTable Sig D =
     (let Size = table_size (length (Signature_Sums Sig))
      in case fill_table Size (Signature_Sums Sig) 0 (\<lambda>_. -1) (\<lambda>_. -1) of
           (Table, Ch) \<Rightarrow> D\<lparr>D_TableSize := Size, D_HashTable := Table, D_Chain := Ch\<rparr>)"

text \<open>
  The chain walk of \<open>lookup\<close>. The first argument is how many more entries may be visited,
  \<^verbatim>\<open>MaxChainLen - ChainLen\<close>. The strong checksum of the window is computed when first
  needed and then kept, which its value does not show. The result is the block and the
  number of false alarms.
\<close>

definition strong_equal :: "Signature \<Rightarrow> Digest \<Rightarrow> nat \<Rightarrow> bool" where
  "strong_equal Sig Strong I \<longleftrightarrow>
     take (unat (Signature_StrongLength Sig)) Strong =
     take (unat (Signature_StrongLength Sig)) (BlockSum_Strong (Signature_Sums Sig ! I))"

primrec chain_walk ::
  "nat \<Rightarrow> Signature \<Rightarrow> (nat \<Rightarrow> int) \<Rightarrow> u32 \<Rightarrow> byte list \<Rightarrow> Digest \<Rightarrow> int \<Rightarrow> int \<Rightarrow> int \<Rightarrow> nat \<Rightarrow> int \<times> nat" where
  "chain_walk 0 Sig Ch Weak Win Strong Want I Best Alarms = (Best, Alarms)"
| "chain_walk (Suc n) Sig Ch Weak Win Strong Want I Best Alarms =
     (if I < 0 then (Best, Alarms)
      else let Idx = nat I; Next = Ch Idx in
        if BlockSum_Weak (Signature_Sums Sig ! Idx) \<noteq> Weak
        then chain_walk n Sig Ch Weak Win Strong Want Next Best Alarms
        else if unat (blockLengthAt Sig (of_nat Idx)) \<noteq> length Win
        then chain_walk n Sig Ch Weak Win Strong Want Next Best Alarms
        else if \<not> strong_equal Sig Strong Idx
        then chain_walk n Sig Ch Weak Win Strong Want Next Best (Suc Alarms)
        else if I = Want then (I, Alarms)
        else chain_walk n Sig Ch Weak Win Strong Want Next (if Best < 0 then I else Best) Alarms)"

definition lookup :: "(byte list \<Rightarrow> Digest) \<Rightarrow> Signature \<Rightarrow> Differ \<Rightarrow> u32 \<Rightarrow> byte list \<Rightarrow> int \<times> Differ" where
  "lookup strong Sig D Weak Win =
     (let I = D_HashTable D (slot (D_TableSize D) Weak)
      in if I < 0 then (-1, D)
         else case chain_walk (D_MaxChainLen D) Sig (D_Chain D) Weak Win (strong Win) (D_WantI D) I (-1)
                     (Rep_FalseAlarms (D_Rep D)) of
           (Best, Alarms) \<Rightarrow> (Best, D\<lparr>D_Rep := (D_Rep D)\<lparr>Rep_HashHits := Suc (Rep_HashHits (D_Rep D)), Rep_FalseAlarms := Alarms\<rparr>\<rparr>))"

section \<open>The window on the source\<close>

type_synonym reader = "nat \<Rightarrow> nat \<Rightarrow> byte list Result"

definition fillWindow :: "reader \<Rightarrow> nat \<Rightarrow> Differ \<Rightarrow> Differ Result" where
  "fillWindow rd At D =
     bindR (rd At (min (length (D_Window D)) (D_SourceLen D - At))) (\<lambda>bs.
       Inr (D\<lparr>D_Window := bs @ drop (length bs) (D_Window D), D_WindowBase := At, D_WindowLen := length bs\<rparr>))"

definition ensureWindow :: "reader \<Rightarrow> Signature \<Rightarrow> nat \<Rightarrow> Differ \<Rightarrow> Differ Result" where
  "ensureWindow rd Sig At D =
     (let Need = min (At + unat (Signature_BlockLength Sig)) (D_SourceLen D)
      in if D_WindowBase D \<le> At \<and> Need \<le> D_WindowBase D + D_WindowLen D then Inr D
         else fillWindow rd At D)"

section \<open>Emitting\<close>

definition emit :: "InstructionSink \<Rightarrow> Instruction \<Rightarrow> Differ \<Rightarrow> Differ Result" where
  "emit Out Ins D =
     (case Out (D_Emitted D) Ins of
        Some e \<Rightarrow> Inl e
      | None \<Rightarrow> Inr (D\<lparr>D_Emitted := D_Emitted D @ [Ins]\<rparr>))"

function emitLiteral :: "InstructionSink \<Rightarrow> nat \<Rightarrow> nat \<Rightarrow> Differ \<Rightarrow> Differ Result" where
  "emitLiteral Out Offset Len D =
     (if \<not> 0 < Len then Inr D
      else let N = min Len kMaxWindow;
               Ins = \<lparr>Ins_K = K_Literal, Ins_BlockIndex = 0, Ins_SrcOffset = Offset, Ins_DstOffset = D_DstCursor D, Ins_Length = N, Ins_Bytes = []\<rparr>
           in bindR (emit Out Ins D) (\<lambda>D.
                emitLiteral Out (Offset + N) (Len - N)
                  (D\<lparr>D_Rep := (D_Rep D)\<lparr>Rep_LiteralBytes := Rep_LiteralBytes (D_Rep D) + N\<rparr>, D_DstCursor := D_DstCursor D + N\<rparr>)))"
  by pat_completeness auto
termination
  by (relation "measure (\<lambda>(Out, Offset, Len, D). Len)") (auto simp: kMaxWindow_def)

declare emitLiteral.simps [simp del]

definition emitCopy :: "InstructionSink \<Rightarrow> int \<Rightarrow> nat \<Rightarrow> byte list \<Rightarrow> Differ \<Rightarrow> Differ Result" where
  "emitCopy Out Index Offset Bs D =
     (let Ins = \<lparr>Ins_K = K_Copy, Ins_BlockIndex = nat Index, Ins_SrcOffset = Offset, Ins_DstOffset = D_DstCursor D,
                 Ins_Length = length Bs, Ins_Bytes = Bs\<rparr>
      in bindR (emit Out Ins D) (\<lambda>D.
           Inr (D\<lparr>D_Rep := (D_Rep D)\<lparr>Rep_MatchedBytes := Rep_MatchedBytes (D_Rep D) + length Bs\<rparr>,
                  D_DstCursor := D_DstCursor D + length Bs\<rparr>)))"

section \<open>The scan\<close>

definition matchFinalBlock ::
  "reader \<Rightarrow> (byte list \<Rightarrow> Digest) \<Rightarrow> Signature \<Rightarrow> InstructionSink \<Rightarrow> nat \<Rightarrow> Differ \<Rightarrow> (bool \<times> Differ) Result" where
  "matchFinalBlock rd strong Sig Out From D =
     (let LastIdx = (of_nat (length (Signature_Sums Sig) - 1) :: u32);
          LastLen = unat (blockLengthAt Sig LastIdx);
          Last = Signature_Sums Sig ! unat LastIdx
      in if LastLen = 0 \<or> unat (Signature_BlockLength Sig) \<le> LastLen \<or> D_SourceLen D < LastLen then Inr (False, D)
         else let At = D_SourceLen D - LastLen in
           if At < From then Inr (False, D)
           else bindR (rd At LastLen) (\<lambda>View.
             if length View \<noteq> LastLen then Inr (False, D)
             else if weakChecksum View \<noteq> BlockSum_Weak Last then Inr (False, D)
             else if \<not> strong_equal Sig (strong View) (unat LastIdx) then Inr (False, D)
             else bindR (if From < At then emitLiteral Out From (At - From) D else Inr D) (\<lambda>D.
               bindR (emitCopy Out (int (unat LastIdx)) At View D) (\<lambda>D. Inr (True, D)))))"

record Scan =
  S_Diff :: Differ
  S_Offset :: nat
  S_LastMatch :: nat
  S_Weak :: u32
  S_Stale :: bool

text \<open>One turn of the \<^verbatim>\<open>while\<close> loop of \<open>diff\<close>: it leaves the loop or goes round again.\<close>

datatype 'a turn = Leave 'a | Again 'a

definition scan_block :: "Signature \<Rightarrow> nat" where
  "scan_block Sig = unat (Signature_BlockLength Sig)"

definition scan_miss :: "reader \<Rightarrow> Signature \<Rightarrow> nat \<Rightarrow> Scan \<Rightarrow> Scan turn Result" where
  "scan_miss rd Sig W S =
     (let D = S_Diff S; Block = scan_block Sig in
      if D_SourceLen D \<le> S_Offset S + Block then Inr (Leave S)
      else if D_WindowLen D \<le> W + Block
      then bindR (fillWindow rd (S_Offset S) D) (\<lambda>D. Inr (Again (S\<lparr>S_Diff := D, S_Stale := True\<rparr>)))
      else Inr (Again (S\<lparr>S_Weak := rollWeak (S_Weak S) (D_Window D ! W) (D_Window D ! (W + Block)) (Signature_BlockLength Sig),
                         S_Offset := S_Offset S + 1\<rparr>)))"

definition scan_hit :: "Signature \<Rightarrow> InstructionSink \<Rightarrow> nat \<Rightarrow> int \<Rightarrow> Scan \<Rightarrow> Scan turn Result" where
  "scan_hit Sig Out W I S =
     bindR (if S_LastMatch S < S_Offset S then emitLiteral Out (S_LastMatch S) (S_Offset S - S_LastMatch S) (S_Diff S)
            else Inr (S_Diff S)) (\<lambda>D.
       let Matched = unat (blockLengthAt Sig (of_nat (nat I))) in
       bindR (emitCopy Out I (S_Offset S) (take Matched (drop W (D_Window D))) D) (\<lambda>D.
         Inr (Again (S\<lparr>S_Diff := D\<lparr>D_WantI := I + 1\<rparr>, S_Offset := S_Offset S + Matched,
                       S_LastMatch := S_Offset S + Matched, S_Stale := True\<rparr>))))"

definition scan_turn ::
  "reader \<Rightarrow> (byte list \<Rightarrow> Digest) \<Rightarrow> Signature \<Rightarrow> InstructionSink \<Rightarrow> Scan \<Rightarrow> Scan turn Result" where
  "scan_turn rd strong Sig Out S =
     (let Block = scan_block Sig in
      if \<not> S_Offset S + Block \<le> D_SourceLen (S_Diff S) then Inr (Leave S)
      else bindR (ensureWindow rd Sig (S_Offset S) (S_Diff S)) (\<lambda>D.
        let W = S_Offset S - D_WindowBase D;
            Win = take Block (drop W (D_Window D));
            Wk = (if S_Stale S then weakChecksum Win else S_Weak S)
        in case lookup strong Sig D Wk Win of
             (I, D) \<Rightarrow>
               let S = S\<lparr>S_Diff := D, S_Weak := Wk, S_Stale := False\<rparr>
               in if I < 0 then scan_miss rd Sig W S else scan_hit Sig Out W I S))"

text \<open>The loop; \<open>None\<close> stands for a scan that never ends.\<close>

partial_function (option) scan_loop ::
  "reader \<Rightarrow> (byte list \<Rightarrow> Digest) \<Rightarrow> Signature \<Rightarrow> InstructionSink \<Rightarrow> Scan \<Rightarrow> Scan Result option" where
  "scan_loop rd strong Sig Out S =
     (case scan_turn rd strong Sig Out S of
        Inl e \<Rightarrow> Some (Inl e)
      | Inr (Leave S') \<Rightarrow> Some (Inr S')
      | Inr (Again S') \<Rightarrow> scan_loop rd strong Sig Out S')"

definition scan_finish ::
  "reader \<Rightarrow> (byte list \<Rightarrow> Digest) \<Rightarrow> Signature \<Rightarrow> InstructionSink \<Rightarrow> Scan \<Rightarrow> Differ Result" where
  "scan_finish rd strong Sig Out S =
     bindR (if S_LastMatch S < D_SourceLen (S_Diff S)
            then matchFinalBlock rd strong Sig Out (S_LastMatch S) (S_Diff S) else Inr (False, S_Diff S)) (\<lambda>(Matched, D).
       let Last = (if Matched then D_SourceLen D else S_LastMatch S)
       in if Last < D_SourceLen D then emitLiteral Out Last (D_SourceLen D - Last) D else Inr D)"

definition diff ::
  "reader \<Rightarrow> nat \<Rightarrow> (byte list \<Rightarrow> Digest) \<Rightarrow> Signature \<Rightarrow> InstructionSink \<Rightarrow> Differ \<Rightarrow> Differ Result option" where
  "diff rd Size strong Sig Out D =
     (let D = D\<lparr>D_SourceLen := Size, D_DstCursor := 0, D_WantI := 0\<rparr> in
      if Signature_Sums Sig = [] \<or> Signature_BlockLength Sig = 0 \<or> Size < scan_block Sig
      then Some (emitLiteral Out 0 Size D)
      else let D = (buildHashTable Sig D)\<lparr>D_Window := replicate (min kMaxWindow Size) 0, D_WindowBase := 0, D_WindowLen := 0\<rparr> in
        case fillWindow rd 0 D of
          Inl e \<Rightarrow> Some (Inl e)
        | Inr D \<Rightarrow>
            (case scan_loop rd strong Sig Out \<lparr>S_Diff = D, S_Offset = 0, S_LastMatch = 0, S_Weak = 0, S_Stale = True\<rparr> of
               None \<Rightarrow> None
             | Some (Inl e) \<Rightarrow> Some (Inl e)
             | Some (Inr S) \<Rightarrow> Some (scan_finish rd strong Sig Out S)))"

section \<open>The table refines lists of candidates\<close>

text \<open>The blocks that share a slot, last one first, and a chain that links such a list.\<close>

definition bucket :: "u32 \<Rightarrow> BlockSum list \<Rightarrow> nat \<Rightarrow> nat list" where
  "bucket Size Sums T = rev (filter (\<lambda>i. slot Size (BlockSum_Weak (Sums ! i)) = T) [0..<length Sums])"

primrec linked :: "(nat \<Rightarrow> int) \<Rightarrow> int \<Rightarrow> nat list \<Rightarrow> bool" where
  "linked Ch h [] = (h = -1)"
| "linked Ch h (i # is) = (h = int i \<and> linked Ch (Ch i) is)"

definition candidate :: "Signature \<Rightarrow> Digest \<Rightarrow> u32 \<Rightarrow> byte list \<Rightarrow> nat \<Rightarrow> bool" where
  "candidate Sig Strong Weak Win i \<longleftrightarrow>
     BlockSum_Weak (Signature_Sums Sig ! i) = Weak \<and> unat (blockLengthAt Sig (of_nat i)) = length Win \<and>
     strong_equal Sig Strong i"

definition table_ok :: "Signature \<Rightarrow> Differ \<Rightarrow> bool" where
  "table_ok Sig D \<longleftrightarrow>
     (\<forall>T. linked (D_Chain D) (D_HashTable D T) (bucket (D_TableSize D) (Signature_Sums Sig) T))"

lemma bucket_snoc:
  "bucket Size (Sums @ [s]) T =
     (if slot Size (BlockSum_Weak s) = T then [length Sums] else []) @ bucket Size Sums T"
proof -
  have "filter (\<lambda>i. slot Size (BlockSum_Weak ((Sums @ [s]) ! i)) = T) [0..<length Sums] =
      filter (\<lambda>i. slot Size (BlockSum_Weak (Sums ! i)) = T) [0..<length Sums]"
    by (rule filter_cong) (auto simp: nth_append)
  then show ?thesis by (simp add: bucket_def)
qed

lemma set_bucket: "set (bucket Size Sums T) = {i. i < length Sums \<and> slot Size (BlockSum_Weak (Sums ! i)) = T}"
  by (auto simp: bucket_def)

lemma linked_update: "linked Ch h is \<Longrightarrow> j \<notin> set is \<Longrightarrow> linked (Ch(j := v)) h is"
  by (induction "is" arbitrary: h) auto

lemma fill_table_linked:
  assumes "\<And>T. linked Ch (Table T) (bucket Size pre T)"
    and "fill_table Size suf (length pre) Table Ch = (Table', Ch')"
  shows "linked Ch' (Table' T) (bucket Size (pre @ suf) T)"
  using assms
proof (induction suf arbitrary: pre Table Ch)
  case Nil
  then show ?case by simp
next
  case (Cons s suf)
  let ?t = "slot Size (BlockSum_Weak s)"
  have "linked (Ch(length pre := Table ?t)) ((Table(?t := int (length pre))) T) (bucket Size (pre @ [s]) T)" for T
    using Cons.prems(1) linked_update [OF Cons.prems(1), of "length pre"] by (simp add: bucket_snoc set_bucket)
  then have "linked Ch' (Table' T) (bucket Size ((pre @ [s]) @ suf) T)"
    by (rule Cons.IH) (use Cons.prems(2) in \<open>simp add: Let_def del: fun_upd_apply\<close>)
  then show ?case by simp
qed

lemma buildHashTable_table_ok: "table_ok Sig (buildHashTable Sig D)"
proof -
  obtain Table Ch where "fill_table (table_size (length (Signature_Sums Sig))) (Signature_Sums Sig) 0 (\<lambda>_. -1) (\<lambda>_. -1) = (Table, Ch)"
    by fastforce
  with fill_table_linked [of "\<lambda>_. -1" "\<lambda>_. -1" "table_size (length (Signature_Sums Sig))" "[]" "Signature_Sums Sig" Table Ch]
  show ?thesis by (simp add: table_ok_def buildHashTable_def Let_def bucket_def)
qed

lemma chain_walk_candidates:
  fixes n :: nat and Sig :: Signature and Strong :: Digest and Weak :: u32 and Win :: "byte list"
  assumes "linked Ch h is" and "Best = -1 \<or> 0 \<le> Best"
  defines "cs \<equiv> filter (candidate Sig Strong Weak Win) (take n is)"
  shows "fst (chain_walk n Sig Ch Weak Win Strong Want h Best Alarms) =
     (if Want \<in> int ` set cs then Want else if Best < 0 \<and> cs \<noteq> [] then int (hd cs) else Best)"
  using assms(1,2) unfolding cs_def
proof (induction n arbitrary: h "is" Best Alarms)
  case 0
  then show ?case by simp
next
  case (Suc n)
  show ?case
  proof (cases "is")
    case Nil
    with Suc.prems show ?thesis by simp
  next
    case (Cons i js)
    with Suc.prems have h: "h = int i" and l: "linked Ch (Ch i) js" by auto
    note IH = Suc.IH [OF l]
    show ?thesis
    proof (cases "candidate Sig Strong Weak Win i")
      case False
      let ?A = "if BlockSum_Weak (Signature_Sums Sig ! i) = Weak \<and>
          unat (blockLengthAt Sig (of_nat i)) = length Win then Suc Alarms else Alarms"
      have "chain_walk (Suc n) Sig Ch Weak Win Strong Want h Best Alarms =
          chain_walk n Sig Ch Weak Win Strong Want (Ch i) Best ?A"
        using False by (simp add: h Let_def candidate_def)
      with False Cons IH [of Best ?A] Suc.prems(2) show ?thesis by simp
    next
      case True
      then have "chain_walk (Suc n) Sig Ch Weak Win Strong Want h Best Alarms =
          (if int i = Want then (int i, Alarms)
           else chain_walk n Sig Ch Weak Win Strong Want (Ch i) (if Best < 0 then int i else Best) Alarms)"
        by (simp add: h Let_def candidate_def)
      with True Cons IH [of "if Best < 0 then int i else Best" Alarms] Suc.prems(2) show ?thesis by auto
    qed
  qed
qed

lemma lookup_candidates:
  fixes strong :: "byte list \<Rightarrow> Digest"
  assumes "table_ok Sig D"
  defines "cs \<equiv> \<lambda>Weak Win. filter (candidate Sig (strong Win) Weak Win)
      (take (D_MaxChainLen D) (bucket (D_TableSize D) (Signature_Sums Sig) (slot (D_TableSize D) Weak)))"
  shows "fst (lookup strong Sig D Weak Win) =
     (if D_WantI D \<in> int ` set (cs Weak Win) then D_WantI D
      else if cs Weak Win \<noteq> [] then int (hd (cs Weak Win)) else -1)"
proof -
  let ?T = "slot (D_TableSize D) Weak"
  let ?b = "bucket (D_TableSize D) (Signature_Sums Sig) ?T"
  have l: "linked (D_Chain D) (D_HashTable D ?T) ?b" using assms(1) by (simp add: table_ok_def)
  show ?thesis
  proof (cases "?b")
    case Nil
    with l show ?thesis by (simp add: lookup_def cs_def)
  next
    case (Cons i js)
    with l have "\<not> D_HashTable D ?T < 0" by simp
    then have "fst (lookup strong Sig D Weak Win) = fst (chain_walk (D_MaxChainLen D) Sig (D_Chain D) Weak Win (strong Win)
        (D_WantI D) (D_HashTable D ?T) (-1) (Rep_FalseAlarms (D_Rep D)))"
      by (simp add: lookup_def Let_def split: prod.split)
    also have "\<dots> = (if D_WantI D \<in> int ` set (cs Weak Win) then D_WantI D
        else if cs Weak Win \<noteq> [] then int (hd (cs Weak Win)) else -1)"
      using chain_walk_candidates [OF l, of "-1"]
      by (simp add: cs_def)
    finally show ?thesis .
  qed
qed

text \<open>
  The hash table with its chains finds what a search of all blocks would: a block it
  returns is within the signature and matches the window in weak sum, length and strong
  prefix; and when no more blocks than the chain limit share the slot, a window that some
  block matches is found, and the block that continues the previous copy is preferred.
\<close>

theorem lookup_correct:
  assumes "D = buildHashTable Sig D0"
    and "fst (lookup strong Sig D Weak Win) = I"
  shows "(I = -1 \<or> (\<exists>i < length (Signature_Sums Sig). I = int i \<and> candidate Sig (strong Win) Weak Win i)) \<and>
    (length (bucket (D_TableSize D) (Signature_Sums Sig) (slot (D_TableSize D) Weak)) \<le> D_MaxChainLen D \<longrightarrow>
       (\<forall>i < length (Signature_Sums Sig). candidate Sig (strong Win) Weak Win i \<longrightarrow>
          I \<noteq> -1 \<and> (int i = D_WantI D \<longrightarrow> I = int i)))"
proof -
  let ?b = "bucket (D_TableSize D) (Signature_Sums Sig) (slot (D_TableSize D) Weak)"
  define cs where "cs = filter (candidate Sig (strong Win) Weak Win) (take (D_MaxChainLen D) ?b)"
  have I: "I = (if D_WantI D \<in> int ` set cs then D_WantI D else if cs \<noteq> [] then int (hd cs) else -1)"
    unfolding assms(2) [symmetric] cs_def
    by (rule lookup_candidates) (simp add: assms(1) buildHashTable_table_ok)
  have cs: "i < length (Signature_Sums Sig) \<and> candidate Sig (strong Win) Weak Win i" if "i \<in> set cs" for i
    using that set_bucket [of "D_TableSize D" "Signature_Sums Sig"] by (auto simp: cs_def dest!: in_set_takeD)
  have "i \<in> set cs" if "length ?b \<le> D_MaxChainLen D" "i < length (Signature_Sums Sig)" "candidate Sig (strong Win) Weak Win i" for i
    using that by (simp add: cs_def set_bucket) (simp add: candidate_def)
  note complete = this
  have "I = -1 \<or> (\<exists>i < length (Signature_Sums Sig). I = int i \<and> candidate Sig (strong Win) Weak Win i)"
  proof (cases "cs = []")
    case True
    then show ?thesis using I by simp
  next
    case False
    then have "I \<in> int ` set cs" unfolding I by simp
    then show ?thesis using cs by auto
  qed
  moreover have "I \<noteq> -1 \<and> (int i = D_WantI D \<longrightarrow> I = int i)"
    if "length ?b \<le> D_MaxChainLen D" "i < length (Signature_Sums Sig)" "candidate Sig (strong Win) Weak Win i" for i
  proof -
    have i: "i \<in> set cs" by (rule complete) (use that in auto)
    then have "I \<in> int ` set cs" unfolding I by auto
    moreover have "I = int i" if "int i = D_WantI D" using that i unfolding I by (metis imageI)
    ultimately show ?thesis by auto
  qed
  ultimately show ?thesis by blast
qed

text \<open>A signature of the five bytes \<open>1 2 3 4 5\<close> in blocks of two, with a strong hash that is the block itself.\<close>

definition sample_strong :: "byte list \<Rightarrow> Digest" where
  "sample_strong bs = take 16 (bs @ replicate 16 0)"

definition sample_sig :: Signature where
  "sample_sig = \<lparr>Signature_BlockLength = 2, Signature_StrongLength = 2, Signature_FileLength = 5,
     Signature_Sums = map (sum_of sample_strong) (blocks 2 [1, 2, 3, 4, 5])\<rparr>"

lemma sample_blocks: "blocks 2 [1, 2, 3, 4, 5] = [[1, 2], [3, 4], [5]]"
  by (simp add: blocks.simps)

theorem lookup_correct_witness:
  "let D = buildHashTable sample_sig (Differ_new 32); I = fst (lookup sample_strong sample_sig D (weakChecksum [3, 4]) [3, 4])
   in (I = -1 \<or> (\<exists>i < length (Signature_Sums sample_sig). I = int i \<and>
          candidate sample_sig (sample_strong [3, 4]) (weakChecksum [3, 4]) [3, 4] i)) \<and>
    (length (bucket (D_TableSize D) (Signature_Sums sample_sig) (slot (D_TableSize D) (weakChecksum [3, 4]))) \<le> D_MaxChainLen D \<longrightarrow>
       (\<forall>i < length (Signature_Sums sample_sig). candidate sample_sig (sample_strong [3, 4]) (weakChecksum [3, 4]) [3, 4] i \<longrightarrow>
          I \<noteq> -1 \<and> (int i = D_WantI D \<longrightarrow> I = int i)))"
  unfolding Let_def by (rule lookup_correct [OF refl refl])

section \<open>What the instructions rebuild\<close>

text \<open>
  The destination: a copy takes its bytes from the basis, a literal takes them from the data
  channel, where the sender puts the source bytes. The instructions must follow one another
  without gap or overlap.
\<close>

definition piece :: "byte list \<Rightarrow> nat \<Rightarrow> byte list \<Rightarrow> Instruction \<Rightarrow> byte list" where
  "piece Basis B Src Ins =
     (case Ins_K Ins of
        K_Copy \<Rightarrow> take (Ins_Length Ins) (drop (Ins_BlockIndex Ins * B) Basis)
      | K_Literal \<Rightarrow> take (Ins_Length Ins) (drop (Ins_SrcOffset Ins) Src))"

primrec rebuild :: "byte list \<Rightarrow> nat \<Rightarrow> byte list \<Rightarrow> nat \<Rightarrow> Instruction list \<Rightarrow> byte list option" where
  "rebuild Basis B Src At [] = Some []"
| "rebuild Basis B Src At (i # is) =
     (if Ins_DstOffset i = At \<and> length (piece Basis B Src i) = Ins_Length i
      then map_option ((@) (piece Basis B Src i)) (rebuild Basis B Src (At + Ins_Length i) is)
      else None)"

lemma rebuild_append:
  assumes "rebuild Basis B Src At is = Some out"
  shows "rebuild Basis B Src At (is @ js) = map_option ((@) out) (rebuild Basis B Src (At + length out) js)"
  using assms
proof (induction "is" arbitrary: At out)
  case Nil
  then show ?case by (simp add: map_option.id [unfolded id_def] option.map_ident)
next
  case (Cons i "is")
  then obtain out' where "rebuild Basis B Src (At + Ins_Length i) is = Some out'"
    "out = piece Basis B Src i @ out'" "Ins_DstOffset i = At" "length (piece Basis B Src i) = Ins_Length i"
    by (auto split: if_splits)
  with Cons.IH [of "At + Ins_Length i" out'] show ?case
    by (simp add: option.map_comp comp_def add.assoc)
qed

text \<open>The log of a differ that has covered the source up to \<open>n\<close>.\<close>

definition covered :: "byte list \<Rightarrow> nat \<Rightarrow> byte list \<Rightarrow> Differ \<Rightarrow> nat \<Rightarrow> bool" where
  "covered Basis B Src D n \<longleftrightarrow>
     rebuild Basis B Src 0 (D_Emitted D) = Some (take n Src) \<and> n \<le> length Src \<and> D_DstCursor D = n \<and>
     list_all (\<lambda>i. Ins_DstOffset i = Ins_SrcOffset i \<and> 0 < Ins_Length i \<and>
       (Ins_K i = K_Copy \<longrightarrow> Ins_Bytes i = take (Ins_Length i) (drop (Ins_SrcOffset i) Src) \<and>
         Ins_Length i = length (take B (drop (Ins_BlockIndex i * B) Basis))) \<and>
       (Ins_K i = K_Literal \<longrightarrow> Ins_Length i \<le> kMaxWindow)) (D_Emitted D) \<and>
     Rep_LiteralBytes (D_Rep D) + Rep_MatchedBytes (D_Rep D) = n"

definition same_scan :: "Differ \<Rightarrow> Differ \<Rightarrow> bool" where
  "same_scan D D' \<longleftrightarrow> D' = D\<lparr>D_Rep := D_Rep D', D_DstCursor := D_DstCursor D', D_Emitted := D_Emitted D'\<rparr>"

lemma same_scan_refl [simp]: "same_scan D D"
  by (simp add: same_scan_def)

lemma same_scan_trans: "same_scan D D' \<Longrightarrow> same_scan D' D'' \<Longrightarrow> same_scan D D''"
  unfolding same_scan_def by (cases D, cases D', cases D'') simp

lemma same_scan_fields:
  "same_scan D D' \<Longrightarrow> D_SourceLen D' = D_SourceLen D \<and> D_Window D' = D_Window D \<and> D_WindowBase D' = D_WindowBase D \<and>
     D_WindowLen D' = D_WindowLen D \<and> D_Chain D' = D_Chain D \<and> D_HashTable D' = D_HashTable D \<and> D_TableSize D' = D_TableSize D \<and>
     D_MaxChainLen D' = D_MaxChainLen D"
  unfolding same_scan_def by (cases D, cases D') simp

lemma emit_Inr:
  "emit Out Ins D = Inr D' \<longleftrightarrow> Out (D_Emitted D) Ins = None \<and> D' = D\<lparr>D_Emitted := D_Emitted D @ [Ins]\<rparr>"
  by (auto simp: emit_def split: option.splits)

lemma take_extend: "n + m \<le> length xs \<Longrightarrow> take n xs @ take m (drop n xs) = take (n + m) xs"
  by (rule take_take_drop)

lemma emitLiteral_covers:
  assumes "emitLiteral Out At Len D = Inr D'" and "covered Basis B Src D At" and "At + Len \<le> length Src"
  shows "covered Basis B Src D' (At + Len) \<and> same_scan D D'"
  using assms
proof (induction Out At Len D rule: emitLiteral.induct)
  case (1 Out At Len D)
  show ?case
  proof (cases "0 < Len")
    case False
    with 1 show ?thesis by (simp add: emitLiteral.simps [of Out At Len D])
  next
    case True
    define N where "N = min Len kMaxWindow"
    define Ins where "Ins = \<lparr>Ins_K = K_Literal, Ins_BlockIndex = 0, Ins_SrcOffset = At, Ins_DstOffset = D_DstCursor D,
       Ins_Length = N, Ins_Bytes = []\<rparr>"
    define D1 where "D1 = D\<lparr>D_Emitted := D_Emitted D @ [Ins]\<rparr>"
    define D2 where "D2 = D1\<lparr>D_Rep := (D_Rep D1)\<lparr>Rep_LiteralBytes := Rep_LiteralBytes (D_Rep D1) + N\<rparr>,
       D_DstCursor := D_DstCursor D1 + N\<rparr>"
    have e: "emit Out Ins D = Inr D1" and r: "emitLiteral Out (At + N) (Len - N) D2 = Inr D'"
      using 1(2) True by (auto simp: emitLiteral.simps [of Out At Len D] Let_def N_def [symmetric] Ins_def [symmetric]
          bindR_Inr_iff emit_Inr D1_def D2_def)
    have N: "0 < N" "At + N \<le> length Src" "N \<le> Len" "N \<le> kMaxWindow" using True 1(4) by (auto simp: N_def kMaxWindow_def)
    have "rebuild Basis B Src 0 (D_Emitted D @ [Ins]) = Some (take (At + N) Src)"
      using rebuild_append [of Basis B Src 0 "D_Emitted D" "take At Src" "[Ins]"] 1(3) N
      by (simp add: covered_def piece_def Ins_def take_extend)
    then have "covered Basis B Src D2 (At + N)"
      using 1(3) N by (simp add: covered_def D2_def D1_def Ins_def)
    then have "covered Basis B Src D' (At + N + (Len - N)) \<and> same_scan D2 D'"
      using 1(1) [OF _ N_def Ins_def, of D1] True r N 1(4) by (simp add: D2_def)
    moreover have "same_scan D D2" by (simp add: same_scan_def D2_def D1_def)
    ultimately show ?thesis using N(3) same_scan_trans by auto
  qed
qed

lemma emitCopy_covers:
  assumes "emitCopy Out (int i) At Bs D = Inr D'" and "covered Basis B Src D At"
    and "Bs \<noteq> []" and "Bs = take (length Bs) (drop At Src)" and "At + length Bs \<le> length Src"
    and "take B (drop (i * B) Basis) = Bs"
  shows "covered Basis B Src D' (At + length Bs) \<and> same_scan D D'"
proof -
  define Ins where "Ins = \<lparr>Ins_K = K_Copy, Ins_BlockIndex = i, Ins_SrcOffset = At, Ins_DstOffset = D_DstCursor D,
     Ins_Length = length Bs, Ins_Bytes = Bs\<rparr>"
  have D': "D' = D\<lparr>D_Emitted := D_Emitted D @ [Ins],
      D_Rep := (D_Rep D)\<lparr>Rep_MatchedBytes := Rep_MatchedBytes (D_Rep D) + length Bs\<rparr>, D_DstCursor := D_DstCursor D + length Bs\<rparr>"
    using assms(1) by (auto simp: emitCopy_def Let_def bindR_Inr_iff emit_Inr Ins_def)
  have "take (length Bs) (drop (i * B) Basis) = Bs" using assms(6) by (metis append_take_drop_id take_append_length)
  then have "rebuild Basis B Src 0 (D_Emitted D @ [Ins]) = Some (take At Src @ Bs)"
    using rebuild_append [of Basis B Src 0 "D_Emitted D" "take At Src" "[Ins]"] assms
    by (simp add: covered_def piece_def Ins_def)
  also have "take At Src @ Bs = take (At + length Bs) Src"
    using assms(4,5) take_extend by metis
  finally have "covered Basis B Src D' (At + length Bs)"
    using assms(2-5) arg_cong [OF assms(6), of length] by (auto simp: covered_def D' Ins_def)
  moreover have "same_scan D D'" by (simp add: same_scan_def D')
  ultimately show ?thesis ..
qed

section \<open>The scan keeps its invariant\<close>

text \<open>What the window holds, and what the signature describes.\<close>

definition window_ok :: "byte list \<Rightarrow> Differ \<Rightarrow> bool" where
  "window_ok Src D \<longleftrightarrow>
     D_SourceLen D = length Src \<and> length (D_Window D) = min kMaxWindow (length Src) \<and>
     D_WindowBase D + D_WindowLen D \<le> length Src \<and> D_WindowLen D \<le> length (D_Window D) \<and>
     take (D_WindowLen D) (D_Window D) = take (D_WindowLen D) (drop (D_WindowBase D) Src)"

definition signature_of :: "(byte list \<Rightarrow> Digest) \<Rightarrow> byte list \<Rightarrow> Signature \<Rightarrow> bool" where
  "signature_of strong Basis Sig \<longleftrightarrow>
     Signature_BlockLength Sig \<noteq> 0 \<and> length Basis < 2 ^ 64 \<and> Signature_FileLength Sig = of_nat (length Basis) \<and>
     Signature_Sums Sig = map (sum_of strong) (blocks (scan_block Sig) Basis) \<and> length (Signature_Sums Sig) < 2 ^ 31"

text \<open>
  The strong hash tells the windows of the source from the blocks of the basis: no collision
  of the weak sum together with the compared prefix of the strong one.
\<close>

definition no_collision :: "(byte list \<Rightarrow> Digest) \<Rightarrow> Signature \<Rightarrow> byte list \<Rightarrow> byte list \<Rightarrow> bool" where
  "no_collision strong Sig Basis Src \<longleftrightarrow>
     (\<forall>b \<in> set (blocks (scan_block Sig) Basis). \<forall>At \<le> length Src.
        let w = take (length b) (drop At Src); n = unat (Signature_StrongLength Sig) in
        length w = length b \<and> weakChecksum w = weakChecksum b \<and> take n (strong w) = take n (strong b) \<longrightarrow> w = b)"

definition scan_inv :: "byte list \<Rightarrow> Signature \<Rightarrow> byte list \<Rightarrow> Scan \<Rightarrow> bool" where
  "scan_inv Basis Sig Src S \<longleftrightarrow>
     window_ok Src (S_Diff S) \<and> table_ok Sig (S_Diff S) \<and>
     covered Basis (scan_block Sig) Src (S_Diff S) (S_LastMatch S) \<and>
     S_LastMatch S \<le> S_Offset S \<and> S_Offset S \<le> length Src \<and>
     (\<not> S_Stale S \<longrightarrow> S_Offset S + scan_block Sig \<le> length Src \<and>
        S_Weak S = weakChecksum (take (scan_block Sig) (drop (S_Offset S) Src)))"

text \<open>
  The turns left: two for each byte still to pass, and one more while the byte after the
  block is not in the window.
\<close>

definition turns_left :: "Signature \<Rightarrow> byte list \<Rightarrow> Scan \<Rightarrow> nat" where
  "turns_left Sig Src S =
     (let D = S_Diff S in 2 * (length Src - S_Offset S) +
        (if D_WindowBase D \<le> S_Offset S \<and> S_Offset S + scan_block Sig < D_WindowBase D + D_WindowLen D then 0 else 1))"

lemma window_span:
  assumes "window_ok Src D" and "D_WindowBase D \<le> At" and "At + n \<le> D_WindowBase D + D_WindowLen D"
  shows "take n (drop (At - D_WindowBase D) (D_Window D)) = take n (drop At Src)"
proof -
  let ?W = "At - D_WindowBase D"
  have "take n (drop ?W (take (D_WindowLen D) (D_Window D))) = take n (drop ?W (take (D_WindowLen D) (drop (D_WindowBase D) Src)))"
    using assms(1) by (simp add: window_ok_def)
  then show ?thesis
    using assms(2,3) by (simp add: take_drop min_absorb1)
qed

lemma window_nth:
  assumes "window_ok Src D" and "D_WindowBase D \<le> At" and "At < D_WindowBase D + D_WindowLen D"
  shows "D_Window D ! (At - D_WindowBase D) = Src ! At"
proof -
  have "D_Window D ! (At - D_WindowBase D) = take (D_WindowLen D) (D_Window D) ! (At - D_WindowBase D)"
    using assms by simp
  also have "\<dots> = take (D_WindowLen D) (drop (D_WindowBase D) Src) ! (At - D_WindowBase D)"
    using assms(1) by (simp add: window_ok_def)
  also have "\<dots> = Src ! At" using assms by (simp add: window_ok_def)
  finally show ?thesis .
qed

lemma window_ok_cong:
  "D_SourceLen D' = D_SourceLen D \<Longrightarrow> D_Window D' = D_Window D \<Longrightarrow> D_WindowBase D' = D_WindowBase D \<Longrightarrow>
     D_WindowLen D' = D_WindowLen D \<Longrightarrow> window_ok Src D' = window_ok Src D"
  by (simp add: window_ok_def)

lemma lookup_fields:
  "lookup strong Sig D Wk Win = (I, D') \<Longrightarrow> \<exists>h a. D' = D\<lparr>D_Rep := (D_Rep D)\<lparr>Rep_HashHits := h, Rep_FalseAlarms := a\<rparr>\<rparr>"
  by (cases D, cases "D_Rep D") (auto simp: lookup_def Let_def split: if_splits prod.splits intro!: exI)

lemma lookup_block:
  assumes "signature_of strong Basis Sig" and "no_collision strong Sig Basis Src" and "table_ok Sig D"
    and "lookup strong Sig D (weakChecksum Win) Win = (I, D')" and "\<not> I < 0"
    and "Win = take (scan_block Sig) (drop At Src)" and "At + scan_block Sig \<le> length Src"
  shows "\<exists>i. I = int i \<and> unat (blockLengthAt Sig (of_nat i)) = scan_block Sig \<and>
    take (scan_block Sig) (drop (i * scan_block Sig) Basis) = Win"
proof -
  let ?B = "scan_block Sig"
  define cs where "cs = filter (candidate Sig (strong Win) (weakChecksum Win) Win)
      (take (D_MaxChainLen D) (bucket (D_TableSize D) (Signature_Sums Sig) (slot (D_TableSize D) (weakChecksum Win))))"
  have "I = (if D_WantI D \<in> int ` set cs then D_WantI D else if cs \<noteq> [] then int (hd cs) else -1)"
    using lookup_candidates [OF assms(3), of strong "weakChecksum Win" Win] assms(4) by (simp add: cs_def)
  with assms(5) have "I \<in> int ` set cs" by (auto split: if_splits)
  then obtain i where i: "I = int i" "candidate Sig (strong Win) (weakChecksum Win) Win i" "i < length (Signature_Sums Sig)"
    using set_bucket [of "D_TableSize D" "Signature_Sums Sig"] by (auto simp: cs_def dest!: in_set_takeD)
  let ?b = "blocks ?B Basis ! i"
  have sums: "Signature_Sums Sig = map (sum_of strong) (blocks ?B Basis)" and ib: "i < length (blocks ?B Basis)"
    using assms(1) i(3) by (auto simp: signature_of_def)
  have i32: "unat (of_nat i :: u32) = i"
    using i(3) assms(1) by (intro unat_of_nat_small) (auto simp: signature_of_def)
  have len: "length Win = ?B" using assms(6,7) by simp
  have blen: "unat (blockLengthAt Sig (of_nat i)) = length ?b"
    using blockLengthAt_blocks [of Sig Basis "of_nat i"] assms(1) i(3) i32 by (simp add: signature_of_def scan_block_def)
  have c: "weakChecksum ?b = weakChecksum Win" "length ?b = ?B" "strong_equal Sig (strong Win) i"
    using i(2) blen len ib by (simp_all add: candidate_def sums sum_of_def)
  have "?b \<in> set (blocks ?B Basis)" using ib by simp
  then have "Win = ?b"
    using assms(2,6,7) c ib unfolding no_collision_def
    by (auto simp: Let_def strong_equal_def sums sum_of_def dest!: bspec [where x = ?b] spec [where x = At])
  then show ?thesis
    using i(1) blen c(2) nth_blocks [OF ib] by auto
qed

definition rewindowed :: "Differ \<Rightarrow> Differ \<Rightarrow> bool" where
  "rewindowed D D' \<longleftrightarrow> D' = D\<lparr>D_Window := D_Window D', D_WindowBase := D_WindowBase D', D_WindowLen := D_WindowLen D'\<rparr>"

lemma rewindowed_keeps:
  assumes "rewindowed D D'"
  shows "covered Basis B Src D' n = covered Basis B Src D n" and "table_ok Sig D' = table_ok Sig D"
  using assms unfolding rewindowed_def by (cases D, cases D', simp add: covered_def table_ok_def)+

lemma same_scan_keeps:
  assumes "same_scan D D'"
  shows "window_ok Src D' = window_ok Src D" and "table_ok Sig D' = table_ok Sig D"
  using assms unfolding same_scan_def by (cases D, cases D', simp add: window_ok_def table_ok_def)+

lemma turns_left_less:
  assumes "S_Offset S < S_Offset S'" and "S_Offset S' \<le> length Src"
  shows "turns_left Sig Src S' < turns_left Sig Src S"
proof -
  have "2 * (length Src - S_Offset S') + 1 < 2 * (length Src - S_Offset S)" using assms by linarith
  then show ?thesis unfolding turns_left_def Let_def by simp
qed

definition accepts :: "InstructionSink \<Rightarrow> bool" where
  "accepts Out \<longleftrightarrow> (\<forall>is i. Out is i = None)"

lemma emitLiteral_accepts: "accepts Out \<Longrightarrow> \<exists>D'. emitLiteral Out At Len D = Inr D'"
proof (induction Out At Len D rule: emitLiteral.induct)
  case (1 Out At Len D)
  show ?case
  proof (cases "0 < Len")
    case True
    define Ins where "Ins = \<lparr>Ins_K = K_Literal, Ins_BlockIndex = 0, Ins_SrcOffset = At, Ins_DstOffset = D_DstCursor D,
       Ins_Length = min Len kMaxWindow, Ins_Bytes = []\<rparr>"
    have "emit Out Ins D = Inr (D\<lparr>D_Emitted := D_Emitted D @ [Ins]\<rparr>)"
      using 1(2) by (simp add: emit_Inr accepts_def)
    with True 1(1) [OF _ refl Ins_def, of "D\<lparr>D_Emitted := D_Emitted D @ [Ins]\<rparr>"] 1(2) show ?thesis
      by (simp add: emitLiteral.simps [of Out At Len D] Let_def Ins_def [symmetric])
  qed (simp add: emitLiteral.simps)
qed

lemma emitCopy_accepts: "accepts Out \<Longrightarrow> \<exists>D'. emitCopy Out I At Bs D = Inr D'"
  by (auto simp: emitCopy_def Let_def bindR_Inr_iff emit_Inr accepts_def)

context steady_file
begin

lemma fillWindow_steady:
  assumes "window_ok Data D" and "At \<le> length Data"
  shows "\<exists>D'. fillWindow rd At D = Inr D' \<and> window_ok Data D' \<and> rewindowed D D' \<and> D_WindowBase D' = At \<and>
    D_WindowLen D' = min (min kMaxWindow (length Data)) (length Data - At)"
proof -
  let ?n = "min (min kMaxWindow (length Data)) (length Data - At)"
  let ?D = "D\<lparr>D_Window := take ?n (drop At Data) @ drop ?n (D_Window D), D_WindowBase := At, D_WindowLen := ?n\<rparr>"
  have len: "length (take ?n (drop At Data)) = ?n" by simp
  have "fillWindow rd At D = Inr ?D"
    using assms len by (simp add: fillWindow_def window_ok_def rd_full)
  moreover have "window_ok Data ?D"
    using assms by (auto simp: window_ok_def min_def)
  moreover have "rewindowed D ?D" by (simp add: rewindowed_def)
  ultimately show ?thesis by auto
qed

lemma ensureWindow_steady:
  assumes "window_ok Data D" and "At + scan_block Sig \<le> length Data" and "scan_block Sig \<le> kMaxWindow"
  shows "\<exists>D'. ensureWindow rd Sig At D = Inr D' \<and> window_ok Data D' \<and> rewindowed D D' \<and> D_WindowBase D' \<le> At \<and>
    At + scan_block Sig \<le> D_WindowBase D' + D_WindowLen D' \<and>
    (D_WindowBase D \<le> At \<and> At + scan_block Sig < D_WindowBase D + D_WindowLen D \<longrightarrow> D' = D)"
proof (cases "D_WindowBase D \<le> At \<and> At + scan_block Sig \<le> D_WindowBase D + D_WindowLen D")
  case True
  then show ?thesis
    using assms by (intro exI [of _ D]) (auto simp: ensureWindow_def Let_def rewindowed_def scan_block_def)
next
  case False
  obtain D' where D': "fillWindow rd At D = Inr D'" "window_ok Data D'" "rewindowed D D'" "D_WindowBase D' = At"
    "D_WindowLen D' = min (min kMaxWindow (length Data)) (length Data - At)"
    using fillWindow_steady [OF assms(1), of At] assms(2) by auto
  have "ensureWindow rd Sig At D = Inr D'"
    using False D'(1) assms by (auto simp: ensureWindow_def Let_def window_ok_def scan_block_def)
  with D' False assms(2,3) show ?thesis by auto
qed

lemma scan_miss_steady:
  assumes "scan_inv Basis Sig Data S" and "\<not> S_Stale S"
    and "0 < scan_block Sig" and "scan_block Sig < kMaxWindow \<or> length Data \<le> kMaxWindow"
    and "D_WindowBase (S_Diff S) \<le> S_Offset S"
    and "S_Offset S + scan_block Sig \<le> D_WindowBase (S_Diff S) + D_WindowLen (S_Diff S)"
  shows "\<exists>T. scan_miss rd Sig (S_Offset S - D_WindowBase (S_Diff S)) S = Inr T \<and>
    (case T of Leave S' \<Rightarrow> S' = S | Again S' \<Rightarrow> scan_inv Basis Sig Data S' \<and>
       (turns_left Sig Data S' < turns_left Sig Data S))"
proof -
  let ?D = "S_Diff S" and ?B = "scan_block Sig" and ?o = "S_Offset S"
  let ?W = "?o - D_WindowBase ?D"
  have inv: "window_ok Data ?D" "table_ok Sig ?D" "covered Basis ?B Data ?D (S_LastMatch S)" "S_LastMatch S \<le> ?o"
    "?o + ?B \<le> length Data" "S_Weak S = weakChecksum (take ?B (drop ?o Data))"
    using assms(1,2) by (auto simp: scan_inv_def)
  have src: "D_SourceLen ?D = length Data" using inv(1) by (simp add: window_ok_def)
  consider (leave) "length Data \<le> ?o + ?B" | (refill) "?o + ?B < length Data" "D_WindowLen ?D \<le> ?W + ?B"
    | (roll) "?o + ?B < length Data" "?W + ?B < D_WindowLen ?D" by linarith
  then show ?thesis
  proof cases
    case leave
    then show ?thesis by (simp add: scan_miss_def Let_def src)
  next
    case refill
    obtain D' where D': "fillWindow rd ?o ?D = Inr D'" "window_ok Data D'" "rewindowed ?D D'" "D_WindowBase D' = ?o"
      "D_WindowLen D' = min (min kMaxWindow (length Data)) (length Data - ?o)"
      using fillWindow_steady [OF inv(1), of ?o] inv(5) by auto
    let ?S = "S\<lparr>S_Diff := D', S_Stale := True\<rparr>"
    have "scan_miss rd Sig ?W S = Inr (Again ?S)" using refill D'(1) by (simp add: scan_miss_def Let_def src)
    moreover have "scan_inv Basis Sig Data ?S"
      using D' inv rewindowed_keeps [OF D'(3)] by (simp add: scan_inv_def)
    moreover have "?o + ?B < D_WindowBase D' + D_WindowLen D'" using D'(4,5) assms(4) refill(1) by auto
    then have "turns_left Sig Data ?S < turns_left Sig Data S"
      using D'(4) refill(2) assms(5) by (simp add: turns_left_def Let_def)
    ultimately show ?thesis by auto
  next
    case roll
    define S' where "S' = S\<lparr>S_Weak := rollWeak (S_Weak S) (D_Window ?D ! ?W) (D_Window ?D ! (?W + ?B)) (Signature_BlockLength Sig),
       S_Offset := ?o + 1\<rparr>"
    have "scan_miss rd Sig ?W S = Inr (Again S')" using roll by (simp add: scan_miss_def Let_def src S'_def)
    moreover have "S_Weak S' = weakChecksum (take ?B (drop (?o + 1) Data))"
    proof -
      have out: "D_Window ?D ! ?W = Data ! ?o"
        using window_nth [OF inv(1) assms(5)] assms(3,6) by simp
      have "?W + ?B = (?o + ?B) - D_WindowBase ?D" using assms(5) by simp
      then have inn: "D_Window ?D ! (?W + ?B) = Data ! (?o + ?B)"
        using window_nth [OF inv(1), of "?o + ?B"] roll(2) assms(5) by simp
      let ?M = "take (?B - 1) (drop (?o + 1) Data)"
      obtain b where b: "?B = Suc b" using assms(3) by (cases ?B) auto
      have 1: "take ?B (drop ?o Data) = Data ! ?o # ?M"
        using roll(1) by (simp add: b Cons_nth_drop_Suc [symmetric])
      have 2: "take ?B (drop (?o + 1) Data) = ?M @ [Data ! (?o + ?B)]"
        using roll(1) by (simp add: b take_Suc_conv_app_nth)
      have "?B < 2 ^ 31" using assms(4) inv(5) by (auto simp: kMaxWindow_def)
      then have "length ?M < 2 ^ 31 - 1" using assms(3) by simp
      moreover have "Signature_BlockLength Sig = of_nat (length (Data ! ?o # ?M))"
        using roll(1) assms(3) by (simp add: scan_block_def)
      ultimately show ?thesis
        using roll_weak [of ?M "Data ! ?o" "Data ! (?o + ?B)"] inv(6) 1 2 by (simp add: S'_def out inn)
    qed
    then have "scan_inv Basis Sig Data S'"
      using inv roll(1) assms(2) by (simp add: scan_inv_def S'_def)
    moreover have "turns_left Sig Data S' < turns_left Sig Data S"
      using roll(1) by (intro turns_left_less) (simp_all add: S'_def)
    ultimately show ?thesis by auto
  qed
qed

lemma scan_hit_steady:
  assumes "scan_inv Basis Sig Data S" and "\<not> S_Stale S" and "0 < scan_block Sig"
    and "D_WindowBase (S_Diff S) \<le> S_Offset S"
    and "S_Offset S + scan_block Sig \<le> D_WindowBase (S_Diff S) + D_WindowLen (S_Diff S)"
    and "unat (blockLengthAt Sig (of_nat i)) = scan_block Sig"
    and "take (scan_block Sig) (drop (i * scan_block Sig) Basis) = take (scan_block Sig) (drop (S_Offset S) Data)"
    and "scan_hit Sig Out (S_Offset S - D_WindowBase (S_Diff S)) (int i) S = Inr T"
  shows "\<exists>S'. T = Again S' \<and> scan_inv Basis Sig Data S' \<and> turns_left Sig Data S' < turns_left Sig Data S"
proof -
  let ?B = "scan_block Sig" and ?o = "S_Offset S"
  let ?W = "?o - D_WindowBase (S_Diff S)" and ?win = "take ?B (drop ?o Data)"
  have inv: "window_ok Data (S_Diff S)" "table_ok Sig (S_Diff S)" "covered Basis ?B Data (S_Diff S) (S_LastMatch S)"
    "S_LastMatch S \<le> ?o" "?o + ?B \<le> length Data"
    using assms(1,2) by (auto simp: scan_inv_def)
  define lit where "lit = (if S_LastMatch S < ?o then emitLiteral Out (S_LastMatch S) (?o - S_LastMatch S) (S_Diff S) else Inr (S_Diff S))"
  obtain D1 D2 where D1: "lit = Inr D1" and D2: "emitCopy Out (int i) ?o (take ?B (drop ?W (D_Window D1))) D1 = Inr D2"
    and T: "T = Again (S\<lparr>S_Diff := D2\<lparr>D_WantI := int i + 1\<rparr>, S_Offset := ?o + ?B, S_LastMatch := ?o + ?B, S_Stale := True\<rparr>)"
    using assms(6,8) by (auto simp: scan_hit_def Let_def lit_def [symmetric] bindR_Inr_iff)
  have c1: "covered Basis ?B Data D1 ?o \<and> same_scan (S_Diff S) D1"
  proof (cases "S_LastMatch S < ?o")
    case True
    with D1 have e: "emitLiteral Out (S_LastMatch S) (?o - S_LastMatch S) (S_Diff S) = Inr D1" by (simp add: lit_def)
    show ?thesis using emitLiteral_covers [OF e inv(3)] inv(4,5) by simp
  next
    case False
    then show ?thesis using D1 inv(3,4) by (simp add: lit_def)
  qed
  have win: "take ?B (drop ?W (D_Window D1)) = ?win"
    using window_span [OF inv(1) assms(4,5)] same_scan_fields [of "S_Diff S" D1] c1 by simp
  have len: "length ?win = ?B" using inv(5) by simp
  have "covered Basis ?B Data D2 (?o + length ?win) \<and> same_scan D1 D2"
  proof (rule emitCopy_covers)
    show "emitCopy Out (int i) ?o ?win D1 = Inr D2" using D2 win by simp
    show "?win \<noteq> []" using len assms(3) by force
    show "take ?B (drop (i * ?B) Basis) = ?win" using assms(7) by simp
  qed (use c1 len inv(5) in auto)
  then have c2: "covered Basis ?B Data D2 (?o + ?B)" "same_scan (S_Diff S) D2"
    using c1 len same_scan_trans by auto
  let ?S = "S\<lparr>S_Diff := D2\<lparr>D_WantI := int i + 1\<rparr>, S_Offset := ?o + ?B, S_LastMatch := ?o + ?B, S_Stale := True\<rparr>"
  have "scan_inv Basis Sig Data ?S"
    using c2(1) same_scan_keeps [OF c2(2)] inv(1,2,5)
    by (auto simp: scan_inv_def window_ok_def table_ok_def covered_def)
  moreover have "turns_left Sig Data ?S < turns_left Sig Data S"
    by (rule turns_left_less) (use assms(3) inv(5) in auto)
  ultimately show ?thesis using T by auto
qed

lemma scan_turn_steady:
  assumes "signature_of strong Basis Sig" and "no_collision strong Sig Basis Data"
    and "scan_block Sig < kMaxWindow \<or> length Data \<le> kMaxWindow"
    and "scan_inv Basis Sig Data S" and "scan_turn rd strong Sig Out S = Inr T"
  shows "case T of Leave S' \<Rightarrow> scan_inv Basis Sig Data S'
    | Again S' \<Rightarrow> scan_inv Basis Sig Data S' \<and> turns_left Sig Data S' < turns_left Sig Data S"
proof (cases "S_Offset S + scan_block Sig \<le> length Data")
  case False
  then show ?thesis using assms(4,5) by (auto simp: scan_turn_def Let_def scan_inv_def window_ok_def)
next
  case True
  let ?B = "scan_block Sig" and ?o = "S_Offset S"
  have inv: "window_ok Data (S_Diff S)" "table_ok Sig (S_Diff S)" "covered Basis ?B Data (S_Diff S) (S_LastMatch S)"
    "S_LastMatch S \<le> ?o" "\<not> S_Stale S \<longrightarrow> S_Weak S = weakChecksum (take ?B (drop ?o Data))"
    using assms(4) by (auto simp: scan_inv_def)
  have B: "0 < ?B" "?B \<le> kMaxWindow" using assms(1,3) True by (auto simp: scan_block_def signature_of_def unat_gt_0)
  obtain D1 where D1: "ensureWindow rd Sig ?o (S_Diff S) = Inr D1" "window_ok Data D1" "rewindowed (S_Diff S) D1"
    "D_WindowBase D1 \<le> ?o" "?o + ?B \<le> D_WindowBase D1 + D_WindowLen D1"
    "D_WindowBase (S_Diff S) \<le> ?o \<and> ?o + ?B < D_WindowBase (S_Diff S) + D_WindowLen (S_Diff S) \<longrightarrow> D1 = S_Diff S"
    using ensureWindow_steady [OF inv(1) True B(2)] by auto
  define Win where "Win = take ?B (drop ?o Data)"
  have win: "take ?B (drop (?o - D_WindowBase D1) (D_Window D1)) = Win"
    using window_span [OF D1(2,4,5)] by (simp add: Win_def)
  have wk: "\<not> S_Stale S \<Longrightarrow> S_Weak S = weakChecksum Win" using inv(5) by (simp add: Win_def)
  obtain I D2 where look: "lookup strong Sig D1 (weakChecksum Win) Win = (I, D2)" by fastforce
  then obtain h a where D2: "D2 = D1\<lparr>D_Rep := (D_Rep D1)\<lparr>Rep_HashHits := h, Rep_FalseAlarms := a\<rparr>\<rparr>"
    using lookup_fields by blast
  have d2: "window_ok Data D2 = window_ok Data D1" "table_ok Sig D2 = table_ok Sig D1"
    "covered Basis ?B Data D2 n = covered Basis ?B Data D1 n" for n
    by (simp_all add: D2 window_ok_def table_ok_def covered_def)
  define S1 where "S1 = S\<lparr>S_Diff := D2, S_Weak := weakChecksum Win, S_Stale := False\<rparr>"
  have S1: "scan_inv Basis Sig Data S1" "\<not> S_Stale S1" "S_Offset S1 = ?o" "S_Diff S1 = D2"
    "D_WindowBase D2 = D_WindowBase D1" "D_WindowLen D2 = D_WindowLen D1"
    using rewindowed_keeps [OF D1(3)] D1(2) inv(2-4) True d2
    by (simp_all add: S1_def scan_inv_def Win_def) (simp_all add: D2)
  have less: "turns_left Sig Data S1 \<le> turns_left Sig Data S"
    using D1(6) by (auto simp: turns_left_def Let_def S1(3-6))
  have turn: "scan_turn rd strong Sig Out S =
      (if I < 0 then scan_miss rd Sig (?o - D_WindowBase D1) S1 else scan_hit Sig Out (?o - D_WindowBase D1) I S1)"
    using True D1(1) inv(1) look win wk by (cases "S_Stale S") (simp_all add: scan_turn_def Let_def window_ok_def S1_def)
  show ?thesis
  proof (cases "I < 0")
    case True
    then have miss: "scan_miss rd Sig (?o - D_WindowBase D1) S1 = Inr T" using turn assms(5) by simp
    obtain T' where "scan_miss rd Sig (?o - D_WindowBase D1) S1 = Inr T'" "case T' of Leave S' \<Rightarrow> S' = S1
        | Again S' \<Rightarrow> scan_inv Basis Sig Data S' \<and> turns_left Sig Data S' < turns_left Sig Data S1"
      using scan_miss_steady [OF S1(1,2) B(1) assms(3)] D1(4,5) S1 by auto
    with miss S1(1) less show ?thesis by (cases T) auto
  next
    case False
    have tab: "table_ok Sig D1" using rewindowed_keeps [OF D1(3)] inv(2) by simp
    obtain i where i: "I = int i" "unat (blockLengthAt Sig (of_nat i)) = ?B" "take ?B (drop (i * ?B) Basis) = Win"
      using lookup_block [OF assms(1,2) tab look False Win_def True] by auto
    then show ?thesis
      using scan_hit_steady [OF S1(1,2) B(1), of i Out T] D1(4,5) S1 less turn assms(5) False
      by (auto simp: Win_def)
  qed
qed

text \<open>With a sink that takes every instruction nothing fails.\<close>

lemma scan_turn_accepts:
  assumes "accepts Out"
  shows "\<exists>T. scan_turn rd strong Sig Out S = Inr T"
proof -
  have f: "\<exists>D'. fillWindow rd At D = Inr D'" for At D by (simp add: fillWindow_def rd_full)
  have e: "\<exists>D'. ensureWindow rd Sig At D = Inr D'" for At D using f by (auto simp: ensureWindow_def Let_def)
  have m: "\<exists>T. scan_miss rd Sig W S = Inr T" for W S
    using f [of "S_Offset S" "S_Diff S"] by (auto simp: scan_miss_def Let_def)
  have h: "\<exists>T. scan_hit Sig Out W I S = Inr T" for W I S
    using emitLiteral_accepts [OF assms, of "S_LastMatch S" "S_Offset S - S_LastMatch S" "S_Diff S"]
      emitCopy_accepts [OF assms] by (fastforce simp: scan_hit_def Let_def bindR_Inr_iff)
  obtain D1 where "ensureWindow rd Sig (S_Offset S) (S_Diff S) = Inr D1" using e by blast
  then show ?thesis using m h by (auto simp: scan_turn_def Let_def split: prod.split)
qed

lemma scan_loop_steady:
  assumes "signature_of strong Basis Sig" and "no_collision strong Sig Basis Data"
    and "scan_block Sig < kMaxWindow \<or> length Data \<le> kMaxWindow" and "scan_inv Basis Sig Data S"
  shows "\<exists>r. scan_loop rd strong Sig Out S = Some r \<and> (\<forall>S'. r = Inr S' \<longrightarrow> scan_inv Basis Sig Data S') \<and>
    (accepts Out \<longrightarrow> is_ok r)"
  using assms(4)
proof (induction "turns_left Sig Data S" arbitrary: S rule: less_induct)
  case less
  show ?case
  proof (cases "scan_turn rd strong Sig Out S")
    case (Inl e)
    moreover have "\<not> accepts Out" using Inl scan_turn_accepts [of Out strong Sig S] by auto
    ultimately show ?thesis by (subst scan_loop.simps) simp
  next
    case (Inr T)
    note t = scan_turn_steady [OF assms(1-3) less.prems Inr]
    show ?thesis
    proof (cases T)
      case (Leave S')
      with t Inr show ?thesis by (subst scan_loop.simps) simp
    next
      case (Again S')
      with t Inr less.hyps [of S'] show ?thesis by (subst scan_loop.simps) simp
    qed
  qed
qed

lemma matchFinalBlock_steady:
  assumes "signature_of strong Basis Sig" and "no_collision strong Sig Basis Data"
    and "Signature_Sums Sig \<noteq> []" and "D_SourceLen D = length Data"
    and "covered Basis (scan_block Sig) Data D From"
    and "matchFinalBlock rd strong Sig Out From D = Inr (Matched, D')"
  shows "same_scan D D' \<and> covered Basis (scan_block Sig) Data D' (if Matched then length Data else From)"
proof (cases Matched)
  case False
  then have "D' = D"
    using assms(6) by (auto simp: matchFinalBlock_def Let_def bindR_Inr_iff split: if_splits)
  with False assms(5) show ?thesis by simp
next
  case True
  let ?B = "scan_block Sig" and ?n = "length (Signature_Sums Sig)"
  define i where "i = ?n - 1"
  have n31: "?n < 2 ^ 31" and bl: "?n = length (blocks ?B Basis)" using assms(1) by (auto simp: signature_of_def)
  have i: "i < ?n" using assms(3) by (simp add: i_def)
  have u: "unat (of_nat i :: u32) = i" using i n31 by (intro unat_of_nat_small) simp
  let ?b = "blocks ?B Basis ! i"
  have blen: "unat (blockLengthAt Sig (of_nat i)) = length ?b"
    using blockLengthAt_blocks [of Sig Basis "of_nat i"] assms(1) i u by (simp add: signature_of_def scan_block_def)
  define At where "At = length Data - length ?b"
  define View where "View = take (length ?b) (drop At Data)"
  define lit where "lit = (if From < At then emitLiteral Out From (At - From) D else Inr D)"
  have facts: "length ?b \<noteq> 0" "length ?b \<le> length Data" "From \<le> At" "weakChecksum View = BlockSum_Weak (Signature_Sums Sig ! i)"
      "strong_equal Sig (strong View) i"
    and ex: "\<exists>D1. lit = Inr D1 \<and> emitCopy Out (int i) At View D1 = Inr D'"
    using assms(6) True
    unfolding matchFinalBlock_def Let_def i_def [symmetric] u blen rd_full assms(4) At_def [symmetric] bindR_simps
      View_def [symmetric] lit_def [symmetric]
    by (auto simp: bindR_Inr_iff split: if_splits)
  have len: "length View = length ?b" using facts(2) by (simp add: View_def At_def)
  have "?b \<in> set (blocks ?B Basis)" using i bl by simp
  moreover have "Signature_Sums Sig ! i = sum_of strong ?b" using assms(1) i bl by (simp add: signature_of_def)
  moreover have "At \<le> length Data" by (simp add: At_def)
  ultimately have view: "View = ?b"
    using assms(2) facts(4,5) len unfolding no_collision_def View_def
    by (auto simp: Let_def strong_equal_def sum_of_def dest!: bspec [where x = ?b] spec [where x = At])
  obtain D1 where D1: "lit = Inr D1" "emitCopy Out (int i) At View D1 = Inr D'" using ex by auto
  have c1: "covered Basis ?B Data D1 At \<and> same_scan D D1"
  proof (cases "From < At")
    case True
    with D1 have e: "emitLiteral Out From (At - From) D = Inr D1" by (simp add: lit_def)
    show ?thesis using emitLiteral_covers [OF e assms(5)] True by (simp add: At_def)
  next
    case False
    then show ?thesis using D1(1) assms(5) facts(3) by (simp add: lit_def)
  qed
  have end_at: "At + length View = length Data" using len facts(2) by (simp add: At_def)
  have sl: "take ?B (drop (i * ?B) Basis) = View" using nth_blocks [of i ?B Basis] i bl view by simp
  have vl: "View = take (length View) (drop At Data)" unfolding len by (rule View_def)
  have ne: "View \<noteq> []" using len facts(1) by auto
  have "covered Basis ?B Data D' (At + length View) \<and> same_scan D1 D'"
    by (rule emitCopy_covers [OF D1(2) _ ne vl _ sl]) (use c1 end_at in simp_all)
  with c1 end_at True show ?thesis using same_scan_trans by auto
qed

lemma scan_finish_steady:
  assumes "signature_of strong Basis Sig" and "no_collision strong Sig Basis Data"
    and "Signature_Sums Sig \<noteq> []" and "scan_inv Basis Sig Data S"
    and "scan_finish rd strong Sig Out S = Inr D"
  shows "covered Basis (scan_block Sig) Data D (length Data)"
proof -
  let ?B = "scan_block Sig" and ?c = "covered Basis (scan_block Sig) Data"
  have inv: "D_SourceLen (S_Diff S) = length Data" "?c (S_Diff S) (S_LastMatch S)" "S_LastMatch S \<le> length Data"
    using assms(4) by (auto simp: scan_inv_def window_ok_def)
  obtain M D1 where m: "(if S_LastMatch S < length Data then matchFinalBlock rd strong Sig Out (S_LastMatch S) (S_Diff S)
      else Inr (False, S_Diff S)) = Inr (M, D1)"
    and f: "(let Last = (if M then D_SourceLen D1 else S_LastMatch S)
       in if Last < D_SourceLen D1 then emitLiteral Out Last (D_SourceLen D1 - Last) D1 else Inr D1) = Inr D"
    using assms(5) by (auto simp: scan_finish_def bindR_Inr_iff inv(1))
  define Last where "Last = (if M then length Data else S_LastMatch S)"
  have c1: "same_scan (S_Diff S) D1 \<and> ?c D1 Last"
  proof (cases "S_LastMatch S < length Data")
    case True
    with m show ?thesis
      unfolding Last_def by (intro matchFinalBlock_steady [OF assms(1-3) inv(1,2)]) simp
  next
    case False
    with m inv show ?thesis by (auto simp: Last_def)
  qed
  have src: "D_SourceLen D1 = length Data" using c1 same_scan_fields inv(1) by metis
  have f': "(if Last < length Data then emitLiteral Out Last (length Data - Last) D1 else Inr D1) = Inr D"
    using f unfolding Let_def src Last_def .
  show ?thesis
  proof (cases "Last < length Data")
    case True
    then have "emitLiteral Out Last (length Data - Last) D1 = Inr D"
      using f' by simp
    with emitLiteral_covers [of Out Last "length Data - Last" D1 D Basis ?B Data] c1 True show ?thesis by simp
  next
    case False
    then have "D = D1" using f' by simp
    moreover have "Last = length Data" using False inv(3) by (auto simp: Last_def split: if_splits)
    ultimately show ?thesis using c1 by simp
  qed
qed

lemma scan_finish_accepts:
  assumes "accepts Out"
  shows "is_ok (scan_finish rd strong Sig Out S)"
proof -
  obtain el where el: "\<And>At Len D. emitLiteral Out At Len D = Inr (el At Len D)"
    using emitLiteral_accepts [OF assms] by metis
  obtain ec where ec: "\<And>I At Bs D. emitCopy Out I At Bs D = Inr (ec I At Bs D)"
    using emitCopy_accepts [OF assms] by metis
  have "is_ok (matchFinalBlock rd strong Sig Out From D)" for From D
    by (simp add: matchFinalBlock_def Let_def rd_full el ec)
  then show ?thesis
    by (simp add: scan_finish_def Let_def el bindR_def split: sum.split) (metis is_ok_simps(2))
qed

end

lemma diff_covers:
  assumes "length Src < 2 ^ 63" and "length Basis < 2 ^ 63" and "BlockLength \<noteq> 0"
    and "length (blocks (unat BlockLength) Basis) < 2 ^ 31"
    and "unat BlockLength < kMaxWindow \<or> length Src \<le> kMaxWindow"
    and "buildSignature (\<lambda>Offset n. FileReader_read Basis (calm_schedule (bsched Offset n)) Offset n)
        (of_nat (length Basis)) strong BlockLength StrongLength = Inr Sig"
    and "no_collision strong Sig Basis Src"
  shows "\<exists>r. diff (\<lambda>Offset n. FileReader_read Src (calm_schedule (sched Offset n)) Offset n)
        (length Src) strong Sig Out (Differ_new 32) = Some r \<and> (accepts Out \<longrightarrow> is_ok r) \<and>
      (\<forall>D. r = Inr D \<longrightarrow> covered Basis (unat BlockLength) Src D (length Src))"
proof -
  let ?rd = "\<lambda>Offset n. FileReader_read Src (calm_schedule (sched Offset n)) Offset n"
  obtain B: "Signature_BlockLength Sig = BlockLength" and FL: "Signature_FileLength Sig = of_nat (length Basis)"
    and sums: "Signature_Sums Sig = map (sum_of strong) (blocks (unat BlockLength) Basis)"
    using buildSignature_steady [OF _ assms(3,6)] assms(2) by auto
  have sig: "signature_of strong Basis Sig" and blk: "scan_block Sig = unat BlockLength"
    using assms B FL sums by (auto simp: signature_of_def scan_block_def)
  let ?D0 = "(Differ_new 32)\<lparr>D_SourceLen := length Src, D_DstCursor := 0, D_WantI := 0\<rparr>"
  have c0: "covered Basis (scan_block Sig) Src ?D0 0" by (simp add: covered_def Differ_new_def)
  have "\<exists>r. diff ?rd (length Src) strong Sig Out (Differ_new 32) = Some r \<and> (accepts Out \<longrightarrow> is_ok r) \<and>
      (\<forall>D. r = Inr D \<longrightarrow> covered Basis (scan_block Sig) Src D (length Src))"
  proof (cases "Signature_Sums Sig = [] \<or> Signature_BlockLength Sig = 0 \<or> length Src < scan_block Sig")
    case True
    then have "diff ?rd (length Src) strong Sig Out (Differ_new 32) = Some (emitLiteral Out 0 (length Src) ?D0)"
      by (auto simp: diff_def Let_def)
    moreover have "covered Basis (scan_block Sig) Src D (length Src)" if "emitLiteral Out 0 (length Src) ?D0 = Inr D" for D
      using emitLiteral_covers [OF that c0] by simp
    ultimately show ?thesis using emitLiteral_accepts [of Out 0 "length Src" ?D0] by auto
  next
    case False
    let ?D1 = "(buildHashTable Sig ?D0)\<lparr>D_Window := replicate (min kMaxWindow (length Src)) 0, D_WindowBase := 0, D_WindowLen := 0\<rparr>"
    have w1: "window_ok Src ?D1" "table_ok Sig ?D1" "covered Basis (scan_block Sig) Src ?D1 0"
      using c0 buildHashTable_table_ok [of Sig ?D0]
      by (auto simp: window_ok_def buildHashTable_def Let_def covered_def table_ok_def split: prod.splits)
    obtain D2 where D2: "fillWindow ?rd 0 ?D1 = Inr D2" "window_ok Src D2" "rewindowed ?D1 D2"
      using reader.fillWindow_steady [OF w1(1), of 0 sched] by auto
    let ?S = "\<lparr>S_Diff = D2, S_Offset = 0, S_LastMatch = 0, S_Weak = 0, S_Stale = True\<rparr>"
    have "scan_inv Basis Sig Src ?S"
      using D2(2) w1(2,3) rewindowed_keeps [OF D2(3)] by (simp add: scan_inv_def)
    then obtain r where r: "scan_loop ?rd strong Sig Out ?S = Some r" "\<forall>S'. r = Inr S' \<longrightarrow> scan_inv Basis Sig Src S'"
      "accepts Out \<longrightarrow> is_ok r"
      using reader.scan_loop_steady [OF sig assms(7), of ?S sched Out] assms(5) blk by auto
    have d: "diff ?rd (length Src) strong Sig Out (Differ_new 32) =
        (case r of Inl e \<Rightarrow> Some (Inl e) | Inr S \<Rightarrow> Some (scan_finish ?rd strong Sig Out S))"
      using False D2(1) r(1) by (simp add: diff_def Let_def)
    show ?thesis
    proof (cases r)
      case (Inl e)
      with d r(3) show ?thesis by simp
    next
      case (Inr S)
      have "covered Basis (scan_block Sig) Src D (length Src)" if "scan_finish ?rd strong Sig Out S = Inr D" for D
        using reader.scan_finish_steady [OF sig assms(7) _ _ that] False r(2) Inr by auto
      with d Inr reader.scan_finish_accepts [of Out Src sched strong Sig S] show ?thesis by auto
    qed
  qed
  then show ?thesis by (simp add: blk)
qed

text \<open>
  C2. The delta of a source against the signature of a basis rebuilds the source. On an
  unchanging source file, read through any schedule of short and interrupted reads, against
  the signature \<open>buildSignature\<close> gives for the basis, and unless the hashes collide, the scan
  returns; if it succeeds, as it does whenever the sink takes every instruction, then
  applying the instructions to the basis and the literal bytes gives exactly the source, the
  instructions follow one another without gap or overlap, the bytes attached to a copy are
  the source bytes it stands for, no literal exceeds the window, and the report's literal
  and matched bytes add up to the file. The block length must be smaller than the window
  unless the whole file fits in it.
\<close>

theorem diff_rebuilds:
  assumes "length Src < 2 ^ 63" and "length Basis < 2 ^ 63" and "BlockLength \<noteq> 0"
    and "length (blocks (unat BlockLength) Basis) < 2 ^ 31"
    and "unat BlockLength < kMaxWindow \<or> length Src \<le> kMaxWindow"
    and "buildSignature (\<lambda>Offset n. FileReader_read Basis (calm_schedule (bsched Offset n)) Offset n)
        (of_nat (length Basis)) strong BlockLength StrongLength = Inr Sig"
    and "no_collision strong Sig Basis Src"
  shows "\<exists>r. diff (\<lambda>Offset n. FileReader_read Src (calm_schedule (sched Offset n)) Offset n)
        (length Src) strong Sig Out (Differ_new 32) = Some r \<and>
      (accepts Out \<longrightarrow> is_ok r) \<and>
      (\<forall>D. r = Inr D \<longrightarrow> rebuild Basis (unat BlockLength) Src 0 (D_Emitted D) = Some Src \<and>
         list_all (\<lambda>i. Ins_DstOffset i = Ins_SrcOffset i \<and> 0 < Ins_Length i \<and>
           (Ins_K i = K_Copy \<longrightarrow> Ins_Bytes i = take (Ins_Length i) (drop (Ins_SrcOffset i) Src)) \<and>
           (Ins_K i = K_Literal \<longrightarrow> Ins_Length i \<le> kMaxWindow)) (D_Emitted D) \<and>
         Rep_LiteralBytes (D_Rep D) + Rep_MatchedBytes (D_Rep D) = length Src)"
proof -
  obtain r where r: "diff (\<lambda>Offset n. FileReader_read Src (calm_schedule (sched Offset n)) Offset n) (length Src) strong Sig Out (Differ_new 32) = Some r"
    "accepts Out \<longrightarrow> is_ok r" "\<forall>D. r = Inr D \<longrightarrow> covered Basis (unat BlockLength) Src D (length Src)"
    using diff_covers [OF assms, of sched Out] by blast
  then show ?thesis by (auto simp: covered_def list_all_iff)
qed

lemma sample_signature:
  "buildSignature (\<lambda>Offset n. FileReader_read [1, 2, 3, 4, 5] (calm_schedule [Some 0]) Offset n)
     (of_nat (length [1 :: byte, 2, 3, 4, 5])) sample_strong 2 2 = Inr sample_sig"
  using buildSignature_reader [of "[1, 2, 3, 4, 5]" 2 "\<lambda>_ _. [Some 0]" sample_strong 2] by (simp add: sample_sig_def)

lemma sample_no_collision: "no_collision sample_strong sample_sig [1, 2, 3, 4, 5] Src"
proof -
  have blk: "scan_block sample_sig = 2" by (simp add: scan_block_def sample_sig_def)
  have "w = b" if "b \<in> {[1, 2], [3, 4], [5]}" "length w = length b" "take 2 (sample_strong w) = take 2 (sample_strong b)"
    for w b :: "byte list"
  proof (cases w)
    case (Cons x xs)
    then show ?thesis using that by (cases xs) (auto simp: sample_strong_def numeral_eq_Suc)
  qed (use that in auto)
  then show ?thesis
    by (auto simp: no_collision_def Let_def blk sample_blocks) (simp_all add: sample_sig_def)
qed

theorem diff_rebuilds_witness:
  "\<exists>r. diff (\<lambda>Offset n. FileReader_read [9, 1, 2, 3, 4, 5] (calm_schedule [None, Some 1]) Offset n)
        (length [9 :: byte, 1, 2, 3, 4, 5]) sample_strong sample_sig (\<lambda>_ _. None) (Differ_new 32) = Some r \<and>
      (accepts (\<lambda>_ _. None) \<longrightarrow> is_ok r) \<and>
      (\<forall>D. r = Inr D \<longrightarrow> rebuild [1, 2, 3, 4, 5] (unat (2 :: u32)) [9, 1, 2, 3, 4, 5] 0 (D_Emitted D) = Some [9, 1, 2, 3, 4, 5] \<and>
         list_all (\<lambda>i. Ins_DstOffset i = Ins_SrcOffset i \<and> 0 < Ins_Length i \<and>
           (Ins_K i = K_Copy \<longrightarrow> Ins_Bytes i = take (Ins_Length i) (drop (Ins_SrcOffset i) [9, 1, 2, 3, 4, 5])) \<and>
           (Ins_K i = K_Literal \<longrightarrow> Ins_Length i \<le> kMaxWindow)) (D_Emitted D) \<and>
         Rep_LiteralBytes (D_Rep D) + Rep_MatchedBytes (D_Rep D) = length [9 :: byte, 1, 2, 3, 4, 5])"
  by (rule diff_rebuilds [OF _ _ _ _ _ sample_signature sample_no_collision])
    (simp_all add: sample_blocks kMaxWindow_def)

section \<open>A scan that never ends\<close>

text \<open>
  The states of a scan whose window holds one block and no more: the refill for the next byte
  reads the same bytes again.
\<close>

definition stuck :: "(byte list \<Rightarrow> Digest) \<Rightarrow> Signature \<Rightarrow> byte list \<Rightarrow> Scan \<Rightarrow> bool" where
  "stuck strong Sig Src S \<longleftrightarrow>
     window_ok Src (S_Diff S) \<and> table_ok Sig (S_Diff S) \<and> S_Stale S \<and> S_Offset S = 0 \<and>
     D_WindowBase (S_Diff S) = 0 \<and> D_WindowLen (S_Diff S) = kMaxWindow"

context steady_file
begin

lemma stuck_turn:
  assumes "scan_block Sig = kMaxWindow" and "kMaxWindow < length Data"
    and "\<forall>s \<in> set (Signature_Sums Sig). BlockSum_Weak s \<noteq> weakChecksum (take kMaxWindow Data)"
    and "stuck strong Sig Data S"
  shows "\<exists>S'. scan_turn rd strong Sig Out S = Inr (Again S') \<and> stuck strong Sig Data S'"
proof -
  let ?D = "S_Diff S" and ?Win = "take kMaxWindow Data"
  have st: "window_ok Data ?D" "table_ok Sig ?D" "S_Stale S" "S_Offset S = 0" "D_WindowBase ?D = 0" "D_WindowLen ?D = kMaxWindow"
    using assms(4) by (auto simp: stuck_def)
  have src: "D_SourceLen ?D = length Data" using st(1) by (simp add: window_ok_def)
  have ens: "ensureWindow rd Sig 0 ?D = Inr ?D" using st(5,6) assms(1) by (simp add: ensureWindow_def Let_def scan_block_def)
  have win: "take kMaxWindow (D_Window ?D) = ?Win" using window_span [OF st(1), of 0 kMaxWindow] st(5,6) by simp
  obtain I D2 where look: "lookup strong Sig ?D (weakChecksum ?Win) ?Win = (I, D2)" by fastforce
  then obtain h a where D2: "D2 = ?D\<lparr>D_Rep := (D_Rep ?D)\<lparr>Rep_HashHits := h, Rep_FalseAlarms := a\<rparr>\<rparr>"
    using lookup_fields by blast
  have "filter (candidate Sig (strong ?Win) (weakChecksum ?Win) ?Win) (take (D_MaxChainLen ?D)
      (bucket (D_TableSize ?D) (Signature_Sums Sig) (slot (D_TableSize ?D) (weakChecksum ?Win)))) = []"
    using assms(3) set_bucket [of "D_TableSize ?D" "Signature_Sums Sig"]
    by (auto simp: filter_empty_conv candidate_def dest!: in_set_takeD)
  then have "I = -1" using lookup_candidates [OF st(2), of strong "weakChecksum ?Win" ?Win] look by simp
  define S1 where "S1 = S\<lparr>S_Diff := D2, S_Weak := weakChecksum ?Win, S_Stale := False\<rparr>"
  have w2: "window_ok Data D2" "table_ok Sig D2" using st(1,2) by (auto simp: D2 window_ok_def table_ok_def)
  obtain D3 where D3: "fillWindow rd 0 D2 = Inr D3" "window_ok Data D3" "rewindowed D2 D3" "D_WindowBase D3 = 0"
    "D_WindowLen D3 = min (min kMaxWindow (length Data)) (length Data)"
    using fillWindow_steady [OF w2(1), of 0] by auto
  have "scan_miss rd Sig 0 S1 = Inr (Again (S1\<lparr>S_Diff := D3, S_Stale := True\<rparr>))"
    using assms(1,2) D3(1) st src by (simp add: scan_miss_def Let_def S1_def D2)
  moreover have "scan_turn rd strong Sig Out S = scan_miss rd Sig 0 S1"
    using assms(1,2) st src ens win look \<open>I = -1\<close> by (simp add: scan_turn_def Let_def S1_def)
  moreover have "stuck strong Sig Data (S1\<lparr>S_Diff := D3, S_Stale := True\<rparr>)"
    using D3 w2 rewindowed_keeps(2) [OF D3(3)] assms(2) st(4) by (simp add: stuck_def S1_def)
  ultimately show ?thesis by auto
qed

lemma stuck_loop:
  assumes "scan_block Sig = kMaxWindow" and "kMaxWindow < length Data"
    and "\<forall>s \<in> set (Signature_Sums Sig). BlockSum_Weak s \<noteq> weakChecksum (take kMaxWindow Data)"
    and "stuck strong Sig Data S"
  shows "scan_loop rd strong Sig Out S = None"
proof -
  have "\<not> stuck strong Sig Data S'" if "scan_loop rd' strong' Sig' Out' S' = Some r"
    "rd' = rd" "strong' = strong" "Sig' = Sig" "Out' = Out" for rd' strong' Sig' Out' S' r
    using that(2-5)
  proof (induction rd' strong' Sig' Out' S' r rule: scan_loop.raw_induct)
    case (1 loop rd' strong' Sig' Out' S' r)
    then show ?case
      using stuck_turn [OF assms(1-3), of strong S' Out] by (auto split: sum.splits turn.splits)
  qed (rule that(1))
  then show ?thesis using assms(4) by (metis not_Some_eq)
qed

end

text \<open>
  C31. The bound of the block length in the preceding property is needed: with a block as
  long as the window, which a data channel's largest block allows and a peer may ask for, a
  longer source whose first window matches no block keeps the scan refilling the same window
  for ever.
\<close>

theorem diff_livelock:
  assumes "scan_block Sig = kMaxWindow" and "kMaxWindow < length Src" and "Signature_Sums Sig \<noteq> []"
    and "\<forall>s \<in> set (Signature_Sums Sig). BlockSum_Weak s \<noteq> weakChecksum (take kMaxWindow Src)"
  shows "diff (\<lambda>Offset n. FileReader_read Src (calm_schedule (sched Offset n)) Offset n)
    (length Src) strong Sig Out (Differ_new 32) = None"
proof -
  let ?rd = "\<lambda>Offset n. FileReader_read Src (calm_schedule (sched Offset n)) Offset n"
  let ?D0 = "(Differ_new 32)\<lparr>D_SourceLen := length Src, D_DstCursor := 0, D_WantI := 0\<rparr>"
  let ?D1 = "(buildHashTable Sig ?D0)\<lparr>D_Window := replicate (min kMaxWindow (length Src)) 0, D_WindowBase := 0, D_WindowLen := 0\<rparr>"
  have w1: "window_ok Src ?D1" "table_ok Sig ?D1"
    using buildHashTable_table_ok [of Sig ?D0]
    by (auto simp: window_ok_def buildHashTable_def Let_def table_ok_def split: prod.splits)
  obtain D2 where D2: "fillWindow ?rd 0 ?D1 = Inr D2" "window_ok Src D2" "rewindowed ?D1 D2" "D_WindowBase D2 = 0"
    "D_WindowLen D2 = min (min kMaxWindow (length Src)) (length Src - 0)"
    using reader.fillWindow_steady [OF w1(1), of 0 sched] by auto
  let ?S = "\<lparr>S_Diff = D2, S_Offset = 0, S_LastMatch = 0, S_Weak = 0, S_Stale = True\<rparr>"
  have "stuck strong Sig Src ?S"
    using D2 w1(2) rewindowed_keeps(2) [OF D2(3)] assms(2) by (simp add: stuck_def)
  then have "scan_loop ?rd strong Sig Out ?S = None"
    by (rule reader.stuck_loop [OF assms(1,2,4)])
  moreover have "Signature_BlockLength Sig \<noteq> 0" using assms(1) by (auto simp: scan_block_def kMaxWindow_def)
  ultimately show ?thesis using D2(1) assms by (simp add: diff_def Let_def)
qed

theorem diff_livelock_witness:
  "let Src = replicate (Suc kMaxWindow) 0;
       Sig = \<lparr>Signature_BlockLength = 4194304, Signature_StrongLength = 16, Signature_FileLength = 4194304,
              Signature_Sums = [\<lparr>BlockSum_Weak = weakChecksum (take kMaxWindow Src) + 1, BlockSum_Strong = replicate 16 0\<rparr>]\<rparr>
   in diff (\<lambda>Offset n. FileReader_read Src (calm_schedule []) Offset n)
        (length Src) sample_strong Sig (\<lambda>_ _. None) (Differ_new 32) = None"
  unfolding Let_def by (rule diff_livelock) (simp_all add: scan_block_def kMaxWindow_def del: replicate_Suc replicate.simps)

end
