(* ===== verification/FilterRules.thy ===== *)
theory FilterRules
  imports Rail_Prelude
begin

text \<open>
  \<^verbatim>\<open>src/app/filter.cc\<close>: the include and exclude rules of a push. The matcher, which
  backtracks over indices of the pattern and the text, is modelled on their suffixes, since
  it never looks back. It is shown to decide the language of the pattern: a pattern is a
  sequence of tokens, each with its set of texts, and a path is allowed by the first rule
  whose language has the path or, for a rule that is not anchored, one of its tails at a
  component boundary.
\<close>

section \<open>The matcher\<close>

text \<open>\<^verbatim>\<open>char\<close> compares as a signed byte.\<close>

definition char_le :: "char \<Rightarrow> char \<Rightarrow> bool" where
  "char_le a b \<longleftrightarrow> sint (byte_of_char a) \<le> sint (byte_of_char b)"

text \<open>
  The loop of \<open>matchClass\<close> from index \<^verbatim>\<open>I\<close>: whether the class has the character, and the
  suffix at its closing bracket; \<open>None\<close> when there is none.
\<close>

function class_scan :: "string \<Rightarrow> char \<Rightarrow> bool \<Rightarrow> bool \<Rightarrow> (bool \<times> string) option" where
  "class_scan s C First Matched =
     (case s of
        [] \<Rightarrow> None
      | x # xs \<Rightarrow>
          if x = CHR '']'' \<and> \<not> First then Some (Matched, x # xs)
          else case xs of
            y # z # zs \<Rightarrow>
              if y = CHR ''-'' \<and> z \<noteq> CHR '']''
              then class_scan zs C False (Matched \<or> char_le x C \<and> char_le C z)
              else class_scan xs C False (Matched \<or> x = C)
          | _ \<Rightarrow> class_scan xs C False (Matched \<or> x = C))"
  by pat_completeness auto
termination
  by (relation "measure (\<lambda>(s, C, First, Matched). length s)") auto

declare class_scan.simps [simp del]

text \<open>\<open>matchClass\<close> on the suffix after the opening bracket: the suffix after the closing one.\<close>

definition class_open :: "string \<Rightarrow> bool \<times> string" where
  "class_open s =
     (case s of x # xs \<Rightarrow> if x = CHR ''!'' \<or> x = CHR ''^'' then (True, xs) else (False, s) | [] \<Rightarrow> (False, s))"

definition matchClass :: "string \<Rightarrow> char \<Rightarrow> string option" where
  "matchClass s C =
     (case class_open s of
        (Negated, s') \<Rightarrow>
          (case class_scan s' C True False of
             None \<Rightarrow> None
           | Some (Matched, rest) \<Rightarrow> if Matched \<noteq> Negated then Some (tl rest) else None))"

lemma class_scan_shorter: "class_scan s C First Matched = Some (m, rest) \<Longrightarrow> rest \<noteq> [] \<and> length rest \<le> length s"
proof (induction s C First Matched rule: class_scan.induct)
  case (1 s C First Matched)
  then show ?case
    by (subst (asm) (5) class_scan.simps) (fastforce split: list.splits if_splits)
qed

lemma matchClass_shorter:
  assumes "matchClass s C = Some rest"
  shows "length rest \<le> length s"
proof -
  obtain n s' where o: "class_open s = (n, s')" by fastforce
  then have "length s' \<le> length s" by (auto simp: class_open_def split: list.splits if_splits)
  with assms o show ?thesis
    by (fastforce simp: matchClass_def split: option.splits if_splits dest!: class_scan_shorter)
qed

text \<open>\<open>globMatch\<close> and its inner loop over the text a star may skip.\<close>

function globMatch :: "string \<Rightarrow> string \<Rightarrow> bool"
  and star_loop :: "bool \<Rightarrow> string \<Rightarrow> string \<Rightarrow> bool" where
  "globMatch Pattern Text =
     (case Pattern of
        [] \<Rightarrow> Text = []
      | C # P \<Rightarrow>
          if C = CHR ''*'' then
            (let CrossesSlash = (P \<noteq> [] \<and> hd P = CHR ''*'');
                 Next = (if CrossesSlash then dropWhile (\<lambda>c. c = CHR ''*'') (tl P) else P)
             in star_loop CrossesSlash Next Text)
          else (case Text of
             [] \<Rightarrow> False
           | X # T \<Rightarrow>
               if C = CHR ''?'' then X \<noteq> CHR ''/'' \<and> globMatch P T
               else if C = CHR ''['' then
                 (case matchClass P X of None \<Rightarrow> False | Some Rest \<Rightarrow> globMatch Rest T)
               else C = X \<and> globMatch P T))"
| "star_loop CrossesSlash Next Text =
     (globMatch Next Text \<or>
      (case Text of
         [] \<Rightarrow> False
       | X # T \<Rightarrow> (CrossesSlash \<or> X \<noteq> CHR ''/'') \<and> star_loop CrossesSlash Next T))"
  by pat_completeness auto
termination
proof (relation "inv_image (less_than <*lex*> less_than) (\<lambda>x. case x of
    Inl (p, t) \<Rightarrow> (length p, 2 * length t) | Inr (c, n, t) \<Rightarrow> (length n, Suc (2 * length t)))")
qed (auto simp: less_Suc_eq_le dest: matchClass_shorter intro: le_trans [OF length_dropWhile_le])

declare globMatch.simps [simp del] star_loop.simps [simp del]

text \<open>\<open>matchesAnywhere\<close>: the tail after each slash in turn.\<close>

fun after_slash :: "string \<Rightarrow> string option" where
  "after_slash [] = None"
| "after_slash (c # cs) = (if c = CHR ''/'' then Some cs else after_slash cs)"

lemma after_slash_shorter: "after_slash s = Some r \<Longrightarrow> length r < length s"
  by (induction s) (auto split: if_splits)

function matchesAnywhere :: "string \<Rightarrow> string \<Rightarrow> bool" where
  "matchesAnywhere Pattern Path =
     (globMatch Pattern Path \<or>
      (case after_slash Path of None \<Rightarrow> False | Some Rest \<Rightarrow> matchesAnywhere Pattern Rest))"
  by pat_completeness auto
termination
  by (relation "measure (\<lambda>(p, s). length s)") (auto simp: after_slash_shorter)

declare matchesAnywhere.simps [simp del]

section \<open>The rules\<close>

record Rule =
  Rule_Pattern :: string
  Rule_Include :: bool
  Rule_DirectoryOnly :: bool
  Rule_Anchored :: bool

definition space :: "char \<Rightarrow> bool" where
  "space c \<longleftrightarrow> c \<in> {CHR '' '', CHR 0x09, CHR 0x0D, CHR 0x0A}"

definition trimmed :: "string \<Rightarrow> string" where
  "trimmed Line = rev (dropWhile space (rev (dropWhile space Line)))"

definition ends_with :: "string \<Rightarrow> string \<Rightarrow> bool" where
  "ends_with s t \<longleftrightarrow> length t \<le> length s \<and> drop (length s - length t) s = t"

definition starts_with :: "string \<Rightarrow> string \<Rightarrow> bool" where
  "starts_with s t \<longleftrightarrow> take (length t) s = t"

text \<open>The rule of one pattern, after the three-star form has been split.\<close>

definition plain_rule :: "string \<Rightarrow> bool \<Rightarrow> Rule list" where
  "plain_rule P Include =
     (let DirectoryOnly = ends_with P ''/'';
          P = (if DirectoryOnly then butlast P else P);
          Anchored = starts_with P ''/'';
          P = (if Anchored then tl P else P)
      in if P = [] then []
         else [\<lparr>Rule_Pattern = P, Rule_Include = Include, Rule_DirectoryOnly = DirectoryOnly, Rule_Anchored = Anchored\<rparr>])"

function add :: "string \<Rightarrow> bool \<Rightarrow> Rule list \<Rightarrow> Rule list" where
  "add Pattern Include Rules =
     (if Pattern = [] then Rules
      else if 4 < length Pattern \<and> ends_with Pattern ''/***''
      then add (take (length Pattern - 4) Pattern) Include Rules @
           plain_rule (take (length Pattern - 3) Pattern @ ''**'') Include
      else Rules @ plain_rule Pattern Include)"
  by pat_completeness auto
termination
  by (relation "measure (\<lambda>(p, i, r). length p)") auto

declare add.simps [simp del]

definition addRule :: "string \<Rightarrow> Rule list \<Rightarrow> Rule list Result" where
  "addRule Line Rules =
     (let Text = trimmed Line in
      if Text = [] then Inr Rules
      else if starts_with Text ''+ '' \<or> starts_with Text ''- ''
      then Inr (add (trimmed (drop 2 Text)) (hd Text = CHR ''+'') Rules)
      else if starts_with Text ''include '' then Inr (add (trimmed (drop 8 Text)) True Rules)
      else if starts_with Text ''exclude '' then Inr (add (trimmed (drop 8 Text)) False Rules)
      else failMessage (''filter rule must open with '' @ [CHR 0x27] @ ''+ '' @ [CHR 0x27] @ '' or '' @
             [CHR 0x27] @ ''- '' @ [CHR 0x27] @ '': '' @ Line))"

text \<open>
  \<open>addFrom\<close>: the lines of a rule file, \<open>None\<close> when it cannot be opened.
\<close>

fun add_line :: "bool \<Rightarrow> string \<Rightarrow> Rule list \<Rightarrow> Rule list" where
  "add_line Include Line Rules =
     (let Text = trimmed Line in
      if Text = [] \<or> hd Text = CHR ''#'' \<or> hd Text = CHR '';'' then Rules else add Text Include Rules)"

definition addFrom :: "string \<Rightarrow> string list option \<Rightarrow> bool \<Rightarrow> Rule list \<Rightarrow> Rule list Result" where
  "addFrom File Lines Include Rules =
     (case Lines of
        None \<Rightarrow> failMessage (''cannot read '' @ File)
      | Some Ls \<Rightarrow> Inr (fold (add_line Include) Ls Rules))"

definition rule_matches :: "string \<Rightarrow> Rule \<Rightarrow> bool" where
  "rule_matches Relative R =
     (if Rule_Anchored R then globMatch (Rule_Pattern R) Relative else matchesAnywhere (Rule_Pattern R) Relative)"

primrec allows :: "Rule list \<Rightarrow> string \<Rightarrow> bool \<Rightarrow> bool" where
  "allows [] Relative Directory = True"
| "allows (R # Rules) Relative Directory =
     (if Rule_DirectoryOnly R \<and> \<not> Directory then allows Rules Relative Directory
      else if rule_matches Relative R then Rule_Include R
      else allows Rules Relative Directory)"

section \<open>The language of a pattern\<close>

datatype item = One char | Range char char

datatype token = Lit char | Any1 | Class bool "item list" | Star | DStar | Unclosed

fun item_has :: "char \<Rightarrow> item \<Rightarrow> bool" where
  "item_has C (One x) = (x = C)"
| "item_has C (Range x z) = (char_le x C \<and> char_le C z)"

text \<open>The items of a class, up to its closing bracket, which cannot be the first character.\<close>

function class_items :: "string \<Rightarrow> bool \<Rightarrow> (item list \<times> string) option" where
  "class_items s First =
     (case s of
        [] \<Rightarrow> None
      | x # xs \<Rightarrow>
          if x = CHR '']'' \<and> \<not> First then Some ([], xs)
          else case xs of
            y # z # zs \<Rightarrow>
              if y = CHR ''-'' \<and> z \<noteq> CHR '']''
              then map_option (\<lambda>(is, r). (Range x z # is, r)) (class_items zs False)
              else map_option (\<lambda>(is, r). (One x # is, r)) (class_items xs False)
          | _ \<Rightarrow> map_option (\<lambda>(is, r). (One x # is, r)) (class_items xs False))"
  by pat_completeness auto
termination
  by (relation "measure (\<lambda>(s, First). length s)") auto

declare class_items.simps [simp del]

lemma class_scan_items:
  "map_option (\<lambda>(m, r). (m, tl r)) (class_scan s C First Matched) =
   map_option (\<lambda>(is, r). (Matched \<or> (\<exists>i \<in> set is. item_has C i), r)) (class_items s First)"
proof (induction s C First Matched rule: class_scan.induct)
  case (1 s C First Matched)
  show ?case
  proof (cases s)
    case Nil
    then show ?thesis by (simp add: class_scan.simps class_items.simps)
  next
    case (Cons x xs)
    show ?thesis
    proof (cases "x = CHR '']'' \<and> \<not> First")
      case True
      with Cons show ?thesis by (subst class_scan.simps, subst class_items.simps) simp
    next
      case False
      have one: "map_option (\<lambda>(m, r). (m, tl r)) (class_scan xs C False (Matched \<or> x = C)) =
          map_option (\<lambda>(is, r). ((Matched \<or> x = C) \<or> (\<exists>i \<in> set is. item_has C i), r)) (class_items xs False)"
        if "\<And>y z zs. xs = y # z # zs \<Longrightarrow> \<not> (y = CHR ''-'' \<and> z \<noteq> CHR '']'')"
      proof (cases xs)
        case Nil
        then show ?thesis using 1(1) [OF Cons False] by simp
      next
        case (Cons y ys)
        then show ?thesis using 1(2) [OF \<open>s = x # xs\<close> False Cons] 1(4) [OF \<open>s = x # xs\<close> False Cons] that
          by (cases ys) auto
      qed
      show ?thesis
      proof (cases "\<exists>z zs. xs = CHR ''-'' # z # zs \<and> z \<noteq> CHR '']''")
        case True
        then obtain z zs where z: "xs = CHR ''-'' # z # zs" "z \<noteq> CHR '']''" by auto
        have sc: "class_scan s C First Matched = class_scan zs C False (Matched \<or> char_le x C \<and> char_le C z)"
          using Cons False z by (subst class_scan.simps) auto
        have it: "class_items s First = map_option (\<lambda>(is, r). (Range x z # is, r)) (class_items zs False)"
          using Cons False z by (subst class_items.simps) auto
        show ?thesis
          unfolding sc it using 1(3) [OF Cons False z(1)] z(2)
          by (auto simp: option.map_comp comp_def case_prod_beta disj_assoc)
      next
        case F: False
        have sc: "class_scan s C First Matched = class_scan xs C False (Matched \<or> x = C)"
          using Cons False F by (subst class_scan.simps) (auto split: list.splits)
        have it: "class_items s First = map_option (\<lambda>(is, r). (One x # is, r)) (class_items xs False)"
          using Cons False F by (subst class_items.simps) (auto split: list.splits)
        have "map_option (\<lambda>(m, r). (m, tl r)) (class_scan xs C False (Matched \<or> x = C)) =
            map_option (\<lambda>(is, r). ((Matched \<or> x = C) \<or> (\<exists>i \<in> set is. item_has C i), r)) (class_items xs False)"
          by (rule one) (use F in blast)
        then show ?thesis
          unfolding sc it by (auto simp: option.map_comp comp_def case_prod_unfold disj_assoc)
      qed
    qed
  qed
qed

lemma class_items_shorter: "class_items s First = Some (is, rest) \<Longrightarrow> length rest \<le> length s"
proof (induction s First arbitrary: "is" rule: class_items.induct)
  case (1 s First)
  then show ?case
    by (subst (asm) (5) class_items.simps) (fastforce split: list.splits if_splits)
qed

lemma class_rest_shorter:
  assumes "class_items (snd (class_open P)) True = Some (is, rest)"
  shows "length rest \<le> length P"
proof -
  have "length (snd (class_open P)) \<le> length P"
    by (auto simp: class_open_def split: list.splits)
  then show ?thesis using class_items_shorter [OF assms] by simp
qed

function tokens :: "string \<Rightarrow> token list" where
  "tokens Pattern =
     (case Pattern of
        [] \<Rightarrow> []
      | C # P \<Rightarrow>
          if C = CHR ''*'' then
            (if P \<noteq> [] \<and> hd P = CHR ''*'' then DStar # tokens (dropWhile (\<lambda>c. c = CHR ''*'') (tl P)) else Star # tokens P)
          else if C = CHR ''?'' then Any1 # tokens P
          else if C = CHR ''['' then
            (case class_items (snd (class_open P)) True of
               None \<Rightarrow> [Unclosed]
             | Some (is, Rest) \<Rightarrow> Class (fst (class_open P)) is # tokens Rest)
          else Lit C # tokens P)"
  by pat_completeness auto
termination
  by (relation "measure length")
    (auto simp: less_Suc_eq_le dest: class_rest_shorter intro: le_trans [OF length_dropWhile_le])

declare tokens.simps [simp del]

fun token_text :: "token \<Rightarrow> string \<Rightarrow> bool" where
  "token_text (Lit c) s \<longleftrightarrow> s = [c]"
| "token_text Any1 s \<longleftrightarrow> (\<exists>x. s = [x] \<and> x \<noteq> CHR ''/'')"
| "token_text (Class Negated is) s \<longleftrightarrow> (\<exists>x. s = [x] \<and> (\<exists>i \<in> set is. item_has x i) \<noteq> Negated)"
| "token_text Star s \<longleftrightarrow> CHR ''/'' \<notin> set s"
| "token_text DStar s \<longleftrightarrow> True"
| "token_text Unclosed s \<longleftrightarrow> False"

primrec language :: "token list \<Rightarrow> string \<Rightarrow> bool" where
  "language [] s \<longleftrightarrow> s = []"
| "language (t # ts) s \<longleftrightarrow> (\<exists>u v. s = u @ v \<and> token_text t u \<and> language ts v)"

lemma language_single:
  assumes "\<And>u. token_text t u \<Longrightarrow> \<exists>x. u = [x]"
  shows "language (t # ts) s \<longleftrightarrow> (case s of [] \<Rightarrow> False | x # xs \<Rightarrow> token_text t [x] \<and> language ts xs)"
proof -
  have "language (t # ts) s \<longleftrightarrow> (\<exists>x v. s = x # v \<and> token_text t [x] \<and> language ts v)"
  proof
    assume "language (t # ts) s"
    then obtain u v where "s = u @ v" "token_text t u" "language ts v" by auto
    then show "\<exists>x v. s = x # v \<and> token_text t [x] \<and> language ts v" using assms [of u] by auto
  next
    assume "\<exists>x v. s = x # v \<and> token_text t [x] \<and> language ts v"
    then obtain x v where "s = [x] @ v" "token_text t [x]" "language ts v" by auto
    then show "language (t # ts) s" unfolding language.simps by blast
  qed
  then show ?thesis by (cases s) auto
qed

lemma language_singles:
  "language (Lit c # ts) s = (case s of [] \<Rightarrow> False | x # xs \<Rightarrow> token_text (Lit c) [x] \<and> language ts xs)"
  "language (Any1 # ts) s = (case s of [] \<Rightarrow> False | x # xs \<Rightarrow> token_text Any1 [x] \<and> language ts xs)"
  "language (Class n is # ts) s = (case s of [] \<Rightarrow> False | x # xs \<Rightarrow> token_text (Class n is) [x] \<and> language ts xs)"
  by (rule language_single; auto)+

lemma matchClass_items:
  "matchClass P X = (case class_items (snd (class_open P)) True of
     None \<Rightarrow> None
   | Some (is, Rest) \<Rightarrow> if (\<exists>i \<in> set is. item_has X i) \<noteq> fst (class_open P) then Some Rest else None)"
  using class_scan_items [of "snd (class_open P)" X True False]
  by (cases "class_items (snd (class_open P)) True"; cases "class_scan (snd (class_open P)) X True False")
    (auto simp: matchClass_def case_prod_beta)

lemma language_star:
  "language ((if Cross then DStar else Star) # ts) s \<longleftrightarrow>
     (\<exists>u v. s = u @ v \<and> (Cross \<or> CHR ''/'' \<notin> set u) \<and> language ts v)"
  by (cases Cross) simp_all

lemma language_star_Cons:
  "language ((if Cross then DStar else Star) # ts) (x # xs) \<longleftrightarrow>
     language ts (x # xs) \<or> (Cross \<or> x \<noteq> CHR ''/'') \<and> language ((if Cross then DStar else Star) # ts) xs"
  (is "?l \<longleftrightarrow> ?now \<or> ?later")
proof
  assume ?l
  then obtain u v where uv: "x # xs = u @ v" "Cross \<or> CHR ''/'' \<notin> set u" "language ts v"
    unfolding language_star by auto
  show "?now \<or> ?later"
  proof (cases u)
    case Nil
    with uv show ?thesis by simp
  next
    case (Cons y u')
    then have "xs = u' @ v \<and> (Cross \<or> CHR ''/'' \<notin> set u') \<and> language ts v" "Cross \<or> x \<noteq> CHR ''/''"
      using uv by auto
    then show ?thesis unfolding language_star by blast
  qed
next
  assume "?now \<or> ?later"
  then show ?l
  proof
    assume ?now
    then have "x # xs = [] @ (x # xs) \<and> (Cross \<or> CHR ''/'' \<notin> set []) \<and> language ts (x # xs)" by simp
    then show ?l unfolding language_star by blast
  next
    assume ?later
    then obtain u v where "x # xs = (x # u) @ v \<and> (Cross \<or> CHR ''/'' \<notin> set (x # u)) \<and> language ts v"
      unfolding language_star by auto
    then show ?l unfolding language_star by blast
  qed
qed

lemma star_loop_language:
  assumes "\<And>t. globMatch Next t = language ts t"
  shows "star_loop Cross Next Text = language ((if Cross then DStar else Star) # ts) Text"
proof (induction Text)
  case Nil
  show ?case by (subst star_loop.simps) (simp add: assms)
next
  case (Cons x xs)
  then show ?case
    unfolding language_star_Cons by (subst star_loop.simps) (simp add: assms del: language.simps(2))
qed

lemma globMatch_language: "globMatch Pattern Text = language (tokens Pattern) Text"
proof (induction Pattern arbitrary: Text rule: tokens.induct)
  case (1 Pattern)
  show ?case
  proof (cases Pattern)
    case Nil
    then show ?thesis by (subst globMatch.simps, subst tokens.simps) simp
  next
    case (Cons C P)
    note g = globMatch.simps [of "C # P" Text] and t = tokens.simps [of "C # P"]
    consider (star) "C = CHR ''*''" | (any) "C = CHR ''?''" | (cls) "C = CHR ''[''"
      | (lit) "C \<noteq> CHR ''*''" "C \<noteq> CHR ''?''" "C \<noteq> CHR ''[''" by auto
    then show ?thesis
    proof cases
      case star
      show ?thesis
      proof (cases "P \<noteq> [] \<and> hd P = CHR ''*''")
        case True
        let ?n = "dropWhile (\<lambda>c. c = CHR ''*'') (tl P)"
        have "globMatch Pattern Text = star_loop True ?n Text" "tokens Pattern = DStar # tokens ?n"
          using star Cons True by (subst globMatch.simps tokens.simps, simp add: Let_def)+
        with star_loop_language [OF 1(1) [OF Cons star True], of True] show ?thesis by simp
      next
        case False
        have "globMatch Pattern Text = star_loop False P Text" "tokens Pattern = Star # tokens P"
          using star Cons False by (subst globMatch.simps tokens.simps, auto simp: Let_def)+
        with star_loop_language [OF 1(2) [OF Cons star False], of False] show ?thesis by simp
      qed
    next
      case any
      with 1(3) [OF Cons] show ?thesis
        unfolding Cons g t by (simp add: language_singles del: language.simps(2) split: list.split)
    next
      case lit
      with 1(5) [OF Cons] show ?thesis
        unfolding Cons g t by (auto simp add: language_singles simp del: language.simps(2) split: list.split)
    next
      case cls
      show ?thesis
      proof (cases "class_items (snd (class_open P)) True")
        case None
        with cls show ?thesis unfolding Cons g t by (simp add: matchClass_items split: list.split)
      next
        case (Some r)
        then obtain "is" Rest where "class_items (snd (class_open P)) True = Some (is, Rest)" by (cases r) auto
        with cls 1(4) [OF Cons _ _ _ this refl] show ?thesis
          unfolding Cons g t by (auto simp: matchClass_items language_singles simp del: language.simps(2) split: list.split)
      qed
    qed
  qed
qed

section \<open>What is allowed\<close>

text \<open>The tails of a path at its component boundaries.\<close>

definition tail_at :: "string \<Rightarrow> string \<Rightarrow> bool" where
  "tail_at Path s \<longleftrightarrow> (\<exists>p. Path = p @ s \<and> (p = [] \<or> last p = CHR ''/''))"

lemma after_slash_None: "after_slash Path = None \<longleftrightarrow> CHR ''/'' \<notin> set Path"
  by (induction Path) auto

lemma after_slash_Some: "after_slash Path = Some r \<Longrightarrow> \<exists>a. Path = a @ CHR ''/'' # r \<and> CHR ''/'' \<notin> set a"
proof (induction Path)
  case (Cons c cs)
  show ?case
  proof (cases "c = CHR ''/''")
    case True
    then show ?thesis using Cons.prems by (intro exI [of _ "[]"]) simp
  next
    case False
    then obtain a where "cs = a @ CHR ''/'' # r" "CHR ''/'' \<notin> set a" using Cons by auto
    then show ?thesis using False by (intro exI [of _ "c # a"]) simp
  qed
qed simp

lemma tail_at_after_slash:
  "tail_at Path s \<longleftrightarrow> s = Path \<or> (case after_slash Path of None \<Rightarrow> False | Some Rest \<Rightarrow> tail_at Rest s)"
proof (cases "after_slash Path")
  case None
  then have "CHR ''/'' \<notin> set Path" by (simp add: after_slash_None)
  then have "p = []" if "Path = p @ s" "p = [] \<or> last p = CHR ''/''" for p
    using that last_in_set [of p] by (metis UnI1 set_append)
  then show ?thesis using None by (auto simp: tail_at_def)
next
  case (Some r)
  then obtain a where a: "Path = a @ CHR ''/'' # r" "CHR ''/'' \<notin> set a" using after_slash_Some by blast
  have "tail_at r s" if p: "Path = p @ s" "p \<noteq> []" "last p = CHR ''/''" for p
  proof -
    have "CHR ''/'' \<in> set p" using p(2,3) last_in_set by fastforce
    then obtain p' where "p = a @ CHR ''/'' # p'" "r = p' @ s"
      using a p(1) by (auto simp: append_eq_append_conv2 Cons_eq_append_conv append_eq_Cons_conv)
    with p(3) show ?thesis unfolding tail_at_def by (cases "p' = []") auto
  qed
  moreover have "tail_at Path s" if "tail_at r s"
  proof -
    from that obtain p where "r = p @ s" "p = [] \<or> last p = CHR ''/''" by (auto simp: tail_at_def)
    then have "Path = (a @ CHR ''/'' # p) @ s" "last (a @ CHR ''/'' # p) = CHR ''/''" using a by auto
    then show ?thesis unfolding tail_at_def by blast
  qed
  ultimately show ?thesis using Some by (auto simp: tail_at_def)
qed

lemma matchesAnywhere_tails: "matchesAnywhere Pattern Path \<longleftrightarrow> (\<exists>s. tail_at Path s \<and> language (tokens Pattern) s)"
proof (induction Pattern Path rule: matchesAnywhere.induct)
  case (1 Pattern Path)
  show ?case
    using 1 by (subst matchesAnywhere.simps)
      (auto simp: tail_at_after_slash [of Path] globMatch_language split: option.splits)
qed

text \<open>The meaning of a rule.\<close>

definition rule_applies :: "string \<Rightarrow> bool \<Rightarrow> Rule \<Rightarrow> bool" where
  "rule_applies Relative Directory R \<longleftrightarrow>
     (Rule_DirectoryOnly R \<longrightarrow> Directory) \<and>
     (\<exists>s. (if Rule_Anchored R then s = Relative else tail_at Relative s) \<and> language (tokens (Rule_Pattern R)) s)"

text \<open>
  C32. The filter does what its rules mean: the backtracking matcher decides the language of
  a pattern, in which a star passes no slash, a double star passes everything, a question
  mark and a class take one character and an unclosed class matches nothing; an unanchored
  rule applies where its language has a tail of the path at a component boundary; and a path
  is decided by the first rule that applies to it, or allowed when there is none.
\<close>

theorem allows_first_rule:
  "(globMatch Pattern Text \<longleftrightarrow> language (tokens Pattern) Text) \<and>
   allows Rules Relative Directory =
     (case filter (rule_applies Relative Directory) Rules of [] \<Rightarrow> True | R # _ \<Rightarrow> Rule_Include R)"
proof
  have "rule_matches Relative R \<longleftrightarrow> (\<exists>s. (if Rule_Anchored R then s = Relative else tail_at Relative s) \<and>
      language (tokens (Rule_Pattern R)) s)" for R
    by (simp add: rule_matches_def globMatch_language matchesAnywhere_tails)
  then show "allows Rules Relative Directory =
     (case filter (rule_applies Relative Directory) Rules of [] \<Rightarrow> True | R # _ \<Rightarrow> Rule_Include R)"
    by (induction Rules) (auto simp: rule_applies_def)
qed (rule globMatch_language)

end
