(* ===== verification/SafePath.thy ===== *)
theory SafePath
  imports Rail_Prelude "HOL-Library.Sublist"
begin

text \<open>
  \<^verbatim>\<open>src/fs/safe-path.cc\<close>: the check every path a peer names goes through before it is
  used under a root, and the near-side check of an export. A path is its text; the file
  system's answers, the status of a path without following a link and its weakly canonical
  form, are parameters.
\<close>

section \<open>Paths as text\<close>

text \<open>The parts of a path between its slashes, empty ones dropped.\<close>

fun split_slash :: "string \<Rightarrow> string \<Rightarrow> string list" where
  "split_slash acc [] = [acc]"
| "split_slash acc (c # cs) = (if c = CHR ''/'' then acc # split_slash [] cs else split_slash (acc @ [c]) cs)"

definition parts :: "string \<Rightarrow> string list" where
  "parts p = filter (\<lambda>s. s \<noteq> []) (split_slash [] p)"

definition is_absolute :: "string \<Rightarrow> bool" where
  "is_absolute p \<longleftrightarrow> p \<noteq> [] \<and> hd p = CHR ''/''"

text \<open>\<^verbatim>\<open>operator/\<close> with a relative right side.\<close>

definition path_append :: "string \<Rightarrow> string \<Rightarrow> string" where
  "path_append Root Rel =
     (if is_absolute Rel then Rel
      else if Root = [] \<or> last Root = CHR ''/'' then Root @ Rel
      else Root @ ''/'' @ Rel)"

definition has_parent_path :: "string \<Rightarrow> bool" where
  "has_parent_path p \<longleftrightarrow> CHR ''/'' \<in> set p"

section \<open>The check\<close>

datatype file_status = Regular | Directory_status | Symlink | Other_status

record file_system =
  symlink_status :: "string \<Rightarrow> file_status option"
  weakly_canonical :: "string \<Rightarrow> string option"

definition real_of :: "file_system \<Rightarrow> string \<Rightarrow> string" where
  "real_of fs p = (case weakly_canonical fs p of Some q \<Rightarrow> q | None \<Rightarrow> p)"

definition within :: "string \<Rightarrow> string \<Rightarrow> bool" where
  "within RootText RealText =
     (let Prefix = (if RootText \<noteq> [] \<and> last RootText = CHR ''/'' then RootText else RootText @ ''/'')
      in RealText = RootText \<or> take (length Prefix) RealText = Prefix)"

definition underRoot :: "file_system \<Rightarrow> string \<Rightarrow> string \<Rightarrow> string Result" where
  "underRoot fs Root Name =
     (if Name = [] then failMessage ''refusing empty path from peer''
      else if is_absolute Name then failMessage (''refusing absolute path from peer: '' @ Name)
      else if ''..'' \<in> set (parts Name) then failMessage (''refusing parent reference from peer: '' @ Name)
      else let Candidate = path_append Root Name in
        if \<not> has_parent_path Name \<and>
           (case symlink_status fs Candidate of None \<Rightarrow> False | Some st \<Rightarrow> st \<noteq> Symlink)
        then Inr Candidate
        else if \<not> within (real_of fs Root) (real_of fs Candidate)
        then failMessage (''refusing path outside the root: '' @ Name)
        else Inr Candidate)"

definition EINVAL :: int where
  "EINVAL = 22"

definition strip_slashes :: "string \<Rightarrow> string" where
  "strip_slashes s = rev (dropWhile (\<lambda>c. c = CHR ''/'') (rev s))"

definition exportRoot :: "string \<Rightarrow> string Result" where
  "exportRoot Given =
     (let Trimmed = strip_slashes Given in
      if Trimmed = [] then Inr ''.''
      else if hd Trimmed = CHR ''/''
      then fail (Generic EINVAL) ''export is relative to what the daemon serves; use / for the whole of it''
      else Inr Trimmed)"

section \<open>Containment\<close>

lemma split_slash_append:
  "split_slash acc (a @ CHR ''/'' # b) = split_slash acc a @ split_slash [] b"
  by (induction acc a rule: split_slash.induct) auto

lemma parts_Nil [simp]: "parts [] = []"
  by (simp add: parts_def)

lemma parts_append: "parts (a @ CHR ''/'' # b) = parts a @ parts b"
  by (simp add: parts_def split_slash_append)

lemma parts_trailing: "parts (a @ ''/'') = parts a"
  using parts_append [of a "[]"] by (simp add: parts_def)

lemma within_parts:
  assumes "within a b"
  shows "prefix (parts a) (parts b)"
proof (cases "b = a")
  case True
  then show ?thesis by simp
next
  case False
  show ?thesis
  proof (cases "a \<noteq> [] \<and> last a = CHR ''/''")
    case True
    then obtain a' where a: "a = a' @ ''/''" by (metis append_butlast_last_id)
    with assms False obtain r where "b = a' @ CHR ''/'' # r"
      by (auto simp: within_def Let_def) (metis append.assoc append_Cons append_Nil append_take_drop_id)
    then show ?thesis by (simp add: a parts_append parts_trailing)
  next
    case F: False
    with assms False obtain r where "b = a @ CHR ''/'' # r"
      by (auto simp: within_def Let_def) (metis append.assoc append_Cons append_Nil append_take_drop_id)+
    then show ?thesis by (simp add: parts_append)
  qed
qed

text \<open>
  What the short cut for a direct child relies on: an entry of the root that is there and is
  not a link resolves to itself in the resolved root.
\<close>

definition children_resolve :: "file_system \<Rightarrow> string \<Rightarrow> bool" where
  "children_resolve fs Root \<longleftrightarrow>
     (\<forall>Name st. CHR ''/'' \<notin> set Name \<and> Name \<noteq> [] \<and> Name \<noteq> ''..'' \<and>
        symlink_status fs (path_append Root Name) = Some st \<and> st \<noteq> Symlink \<longrightarrow>
        parts (real_of fs (path_append Root Name)) =
          parts (real_of fs Root) @ (if Name = ''.'' then [] else [Name]))"

lemma parts_no_slash: "CHR ''/'' \<notin> set p \<Longrightarrow> p \<noteq> [] \<Longrightarrow> parts p = [p]"
proof -
  have "CHR ''/'' \<notin> set p \<Longrightarrow> split_slash acc p = [acc @ p]" for acc
    by (induction acc p rule: split_slash.induct) auto
  then show "CHR ''/'' \<notin> set p \<Longrightarrow> p \<noteq> [] \<Longrightarrow> parts p = [p]" by (simp add: parts_def)
qed

text \<open>
  C24. A path from a peer that is accepted stays under the root: it is relative, has no
  parent reference, is the root with the name appended, and what it resolves to lies at or
  below what the root resolves to, component by component, so that a sibling whose name
  merely starts with the root's does not pass. An empty, absolute or parent-referencing name
  and one that resolves outside are refused, each with its own error.
\<close>

theorem underRoot_contained:
  assumes "children_resolve fs Root" and "underRoot fs Root Name = Inr Candidate"
  shows "Candidate = path_append Root Name \<and> Name \<noteq> [] \<and> \<not> is_absolute Name \<and> ''..'' \<notin> set (parts Name) \<and>
    prefix (parts (real_of fs Root)) (parts (real_of fs Candidate))"
proof -
  have basic: "Candidate = path_append Root Name" "Name \<noteq> []" "\<not> is_absolute Name" "''..'' \<notin> set (parts Name)"
    using assms(2) by (auto simp: underRoot_def Let_def split: if_splits)
  have "prefix (parts (real_of fs Root)) (parts (real_of fs Candidate))"
  proof (cases "within (real_of fs Root) (real_of fs Candidate)")
    case True
    then show ?thesis by (rule within_parts)
  next
    case False
    with assms(2) basic obtain st where st: "\<not> has_parent_path Name" "symlink_status fs Candidate = Some st" "st \<noteq> Symlink"
      by (auto simp: underRoot_def Let_def split: if_splits option.splits)
    then have ns: "CHR ''/'' \<notin> set Name" by (simp add: has_parent_path_def)
    then have "Name \<noteq> ''..''" using basic(4) parts_no_slash [OF ns basic(2)] by auto
    then have "parts (real_of fs Candidate) = parts (real_of fs Root) @ (if Name = ''.'' then [] else [Name])"
      using assms(1) st ns basic(1,2) by (simp add: children_resolve_def)
    then show ?thesis by simp
  qed
  with basic show ?thesis by simp
qed

text \<open>A file system of plain entries, where nothing is a link and every path is its own form.\<close>

definition plain_fs :: file_system where
  "plain_fs = \<lparr>symlink_status = (\<lambda>p. None), weakly_canonical = (\<lambda>p. Some p)\<rparr>"

theorem underRoot_contained_witness:
  "path_append ''/srv'' ''a/b'' = path_append ''/srv'' ''a/b'' \<and> ''a/b'' \<noteq> [] \<and> \<not> is_absolute ''a/b'' \<and>
   ''..'' \<notin> set (parts ''a/b'') \<and>
   prefix (parts (real_of plain_fs ''/srv'')) (parts (real_of plain_fs (path_append ''/srv'' ''a/b'')))"
proof (rule underRoot_contained)
  show "children_resolve plain_fs ''/srv''" by (simp add: children_resolve_def plain_fs_def)
  show "underRoot plain_fs ''/srv'' ''a/b'' = Inr (path_append ''/srv'' ''a/b'')"
    by (simp add: underRoot_def is_absolute_def parts_def has_parent_path_def path_append_def within_def
        real_of_def plain_fs_def Let_def)
qed

lemma strip_slashes_last: "strip_slashes s \<noteq> [] \<Longrightarrow> last (strip_slashes s) \<noteq> CHR ''/''"
  using hd_dropWhile [of "\<lambda>c. c = CHR ''/''" "rev s"] by (simp add: strip_slashes_def last_rev)

lemma strip_slashes_id: "s = [] \<or> last s \<noteq> CHR ''/'' \<Longrightarrow> strip_slashes s = s"
  unfolding strip_slashes_def by (cases s rule: rev_cases) auto

text \<open>
  An export the near side lets through is one the far side does not refuse for being
  empty or absolute: it is a non-empty relative name without a trailing slash, and checking
  it again changes nothing; the empty export and one of slashes only stand for the whole
  tree; an absolute one is refused as an invalid argument.
\<close>

theorem exportRoot_accepted:
  "case exportRoot Given of
     Inr E \<Rightarrow> E \<noteq> [] \<and> \<not> is_absolute E \<and> last E \<noteq> CHR ''/'' \<and> exportRoot E = Inr E \<and>
       (E = ''.'' \<or> (\<exists>n. Given = E @ replicate n (CHR ''/'')))
   | Inl e \<Rightarrow> is_absolute Given \<and> Code e = Generic EINVAL"
proof -
  let ?t = "strip_slashes Given"
  have given: "\<exists>n. Given = ?t @ replicate n (CHR ''/'')"
  proof -
    have "Given = rev (dropWhile (\<lambda>c. c = CHR ''/'') (rev Given)) @ rev (takeWhile (\<lambda>c. c = CHR ''/'') (rev Given))"
      by (metis rev_append rev_rev_ident takeWhile_dropWhile_id)
    moreover have "rev (takeWhile (\<lambda>c. c = CHR ''/'') (rev Given)) =
        replicate (length (takeWhile (\<lambda>c. c = CHR ''/'') (rev Given))) (CHR ''/'')"
      by (rule replicate_eqI) (auto dest: set_takeWhileD)
    ultimately show ?thesis unfolding strip_slashes_def by metis
  qed
  consider (whole) "?t = []" | (absolute) "?t \<noteq> []" "hd ?t = CHR ''/''" | (relative) "?t \<noteq> []" "hd ?t \<noteq> CHR ''/''" by auto
  then show ?thesis
  proof cases
    case whole
    then have "exportRoot Given = Inr ''.''" by (simp add: exportRoot_def Let_def)
    moreover have "exportRoot ''.'' = Inr ''.''" by (simp add: exportRoot_def strip_slashes_def)
    ultimately show ?thesis by (simp add: is_absolute_def)
  next
    case absolute
    then have "is_absolute Given" using given by (auto simp: is_absolute_def) (metis append_Nil2 hd_append2)+
    with absolute show ?thesis by (simp add: exportRoot_def Let_def fail_def)
  next
    case relative
    then have e: "exportRoot Given = Inr ?t" by (simp add: exportRoot_def Let_def)
    have "strip_slashes ?t = ?t" using strip_slashes_last strip_slashes_id relative(1) by blast
    then have "exportRoot ?t = Inr ?t" using relative by (simp add: exportRoot_def Let_def)
    then show ?thesis
      using e relative given strip_slashes_last [of Given] by (simp add: is_absolute_def)
  qed
qed

end
