(* ===== verification/FileWriter.thy ===== *)
theory FileWriter
  imports SafePath
begin

text \<open>
  \<^verbatim>\<open>src/fs/writer.cc\<close>: a file is written under a temporary name beside its destination and
  renamed into place when complete. The files the process sees are a map from paths; the
  kernel's answers to the calls that can fail, and the split of each write, are data. The
  theorems show that the destination changes only by a successful commit, and then to
  exactly what was written, and that no two writers of a process share a temporary file.
\<close>

record FileMeta =
  Meta_Size :: u64
  Meta_Mode :: u32
  Meta_Mtime :: i64

record file_image =
  f_data :: "byte list"
  f_mode :: u32
  f_mtime :: i64

type_synonym files = "string \<rightharpoonup> file_image"

datatype Durability = PageCache | Fsync

datatype syscall = Open_Direct | Open_Plain | Sys_Ftruncate | Sys_Fsync | Sys_Fchmod | Sys_Futimens | Sys_Rename

text \<open>The answer to each call: \<open>None\<close> is success.\<close>

type_synonym answers = "syscall \<Rightarrow> int option"

record FileWriter =
  fw_Open :: bool
  fw_TempPath :: string
  fw_FinalPath :: string
  fw_Meta :: FileMeta
  fw_Durable :: Durability
  fw_Direct :: bool
  fw_Committed :: bool

section \<open>The temporary name\<close>

definition digit :: "nat \<Rightarrow> char" where
  "digit n = char_of (48 + n)"

fun decimal :: "nat \<Rightarrow> string" where
  "decimal n = (if n < 10 then [digit n] else decimal (n div 10) @ [digit (n mod 10)])"

declare decimal.simps [simp del]

definition filename :: "string \<Rightarrow> string" where
  "filename p = rev (takeWhile (\<lambda>c. c \<noteq> CHR ''/'') (rev p))"

definition parent_path :: "string \<Rightarrow> string" where
  "parent_path p =
     (let q = rev (dropWhile (\<lambda>c. c \<noteq> CHR ''/'') (rev p))
      in if q \<noteq> [] \<and> strip_slashes q = [] then ''/'' else strip_slashes q)"

definition temp_path :: "nat \<Rightarrow> nat \<Rightarrow> string \<Rightarrow> string" where
  "temp_path pid temp_id Dst =
     (let Dir = (if parent_path Dst = [] then ''.'' else parent_path Dst)
      in path_append Dir (''.rail.tmp.'' @ decimal pid @ ''.'' @ decimal temp_id @ ''.'' @ filename Dst))"

section \<open>Opening, writing, committing\<close>

text \<open>
  \<open>openDestination\<close>: whether the descriptor is direct, or the error of the plain open. A
  direct open that is refused falls back.
\<close>

definition openDestination :: "answers \<Rightarrow> bool \<Rightarrow> int + bool" where
  "openDestination sys Direct =
     (if Direct \<and> sys Open_Direct = None then Inr True
      else case sys Open_Plain of None \<Rightarrow> Inr False | Some e \<Rightarrow> Inl e)"

text \<open>\<open>create\<close> takes the next temporary number and truncates what has that name.\<close>

definition FileWriter_create ::
  "answers \<Rightarrow> nat \<Rightarrow> string \<Rightarrow> FileMeta \<Rightarrow> Durability \<Rightarrow> bool \<Rightarrow> nat \<times> files \<Rightarrow> FileWriter Result \<times> nat \<times> files" where
  "FileWriter_create sys pid Dst Meta D Direct = (\<lambda>(next_id, fs).
     let Temp = temp_path pid next_id Dst in
     case openDestination sys Direct of
       Inl e \<Rightarrow> (failErrno e (''open '' @ Temp), Suc next_id, fs)
     | Inr Granted \<Rightarrow>
         (Inr \<lparr>fw_Open = True, fw_TempPath = Temp, fw_FinalPath = Dst, fw_Meta = Meta, fw_Durable = D,
               fw_Direct = Granted, fw_Committed = False\<rparr>,
          Suc next_id, fs(Temp \<mapsto> \<lparr>f_data = [], f_mode = 0x180, f_mtime = 0\<rparr>)))"

text \<open>
  \<^verbatim>\<open>pwrite\<close> at an offset; a gap past the end reads as zeros, and writing nothing changes
  nothing.
\<close>

definition overwrite :: "nat \<Rightarrow> byte list \<Rightarrow> byte list \<Rightarrow> byte list" where
  "overwrite Offset Bs Data =
     (if Bs = [] then Data else take Offset (Data @ replicate (Offset - length Data) 0) @ Bs @ drop (Offset + length Bs) Data)"

definition change_file :: "string \<Rightarrow> (file_image \<Rightarrow> file_image) \<Rightarrow> files \<Rightarrow> files" where
  "change_file p f fs = (case fs p of None \<Rightarrow> fs | Some x \<Rightarrow> fs(p \<mapsto> f x))"

text \<open>\<open>PW_Take k\<close>: the call takes at most \<open>k\<close> bytes; with no answer left it takes all.\<close>

datatype pwrite_event = PW_Take nat | PW_Intr | PW_Fail int

fun write_from :: "pwrite_event list \<Rightarrow> FileWriter \<Rightarrow> byte list \<Rightarrow> nat \<Rightarrow> nat \<Rightarrow> files \<Rightarrow> unit Result \<times> files" where
  "write_from [] w Src Offset Done fs =
     (Inr (), if Done < length Src
       then change_file (fw_TempPath w) (f_data_update (overwrite (Offset + Done) (drop Done Src))) fs else fs)"
| "write_from (ev # es) w Src Offset Done fs =
     (if \<not> Done < length Src then (Inr (), fs)
      else case ev of
        PW_Take k \<Rightarrow>
          (let N = take k (drop Done Src)
           in write_from es w Src Offset (Done + length N)
                (change_file (fw_TempPath w) (f_data_update (overwrite (Offset + Done) N)) fs))
      | PW_Intr \<Rightarrow> write_from es w Src Offset Done fs
      | PW_Fail e \<Rightarrow> (failErrno e ''pwrite'', fs))"

definition FileWriter_write :: "pwrite_event list \<Rightarrow> FileWriter \<Rightarrow> byte list \<Rightarrow> nat \<Rightarrow> files \<Rightarrow> unit Result \<times> files" where
  "FileWriter_write es w Src Offset fs = write_from es w Src Offset 0 fs"

definition kDirectAlignment :: u64 where
  "kDirectAlignment = 4096"

definition roundUp :: "u64 \<Rightarrow> u64" where
  "roundUp N = (N + kDirectAlignment - 1) AND NOT (kDirectAlignment - 1)"

definition writeLength :: "FileWriter \<Rightarrow> u64 \<Rightarrow> u64" where
  "writeLength w Length = (if fw_Direct w then roundUp Length else Length)"

lemma roundUp_nat:
  assumes "unat N + 4095 < 2 ^ 64"
  shows "unat (roundUp N) = (unat N + 4095) div 4096 * 4096"
proof -
  have m: "NOT (kDirectAlignment - 1) = NOT (mask 12 :: u64)" by (simp add: kDirectAlignment_def mask_eq_exp_minus_1)
  have "roundUp N = push_bit 12 (drop_bit 12 (N + 4095))"
    unfolding roundUp_def m by (rule bit_word_eqI) (auto simp: kDirectAlignment_def bit_simps add.commute)
  moreover have n: "unat (N + 4095) = unat N + 4095" using assms by (simp add: unat_word_ariths)
  moreover have "(unat N + 4095) div 4096 * 4096 < 2 ^ 64" using assms div_times_less_eq_dividend [of "unat N + 4095" 4096] by linarith
  ultimately show ?thesis
    by (simp add: push_bit_eq_mult drop_bit_eq_div unat_word_ariths unat_div_distrib n del: mult_numeral_1_right)
qed

lemma roundUp_le: "unat N < 2 ^ 63 \<Longrightarrow> unat N \<le> unat (roundUp N)"
  using div_mult_mod_eq [of "unat N + 4095" 4096] by (subst roundUp_nat) auto

definition resize :: "nat \<Rightarrow> byte list \<Rightarrow> byte list" where
  "resize n Data = take n (Data @ replicate (n - length Data) 0)"

text \<open>The metadata steps of \<open>commit\<close>, up to the close.\<close>

definition commit_meta :: "answers \<Rightarrow> FileWriter \<Rightarrow> files \<Rightarrow> unit Result \<times> files" where
  "commit_meta sys w fs =
     (let m = fw_Meta w; t = fw_TempPath w in
      case sys Sys_Ftruncate of
        Some e \<Rightarrow> (failErrno e ''ftruncate'', fs)
      | None \<Rightarrow>
        let fs = change_file t (f_data_update (resize (unat (Meta_Size m)))) fs in
        if fw_Durable w = Fsync \<and> sys Sys_Fsync \<noteq> None then (failErrno (the (sys Sys_Fsync)) ''fsync'', fs)
        else if Meta_Mode m \<noteq> 0 \<and> sys Sys_Fchmod \<noteq> None then (failErrno (the (sys Sys_Fchmod)) ''fchmod'', fs)
        else let fs = (if Meta_Mode m \<noteq> 0 then change_file t (f_mode_update (\<lambda>_. Meta_Mode m)) fs else fs) in
          if Meta_Mtime m \<noteq> 0 \<and> sys Sys_Futimens \<noteq> None
          then (failErrno (the (sys Sys_Futimens)) ''futimens'', fs)
          else (Inr (), if Meta_Mtime m \<noteq> 0 then change_file t (f_mtime_update (\<lambda>_. Meta_Mtime m)) fs else fs))"

definition ENOENT :: int where
  "ENOENT = 2"

definition FileWriter_commit :: "answers \<Rightarrow> FileWriter \<Rightarrow> files \<Rightarrow> unit Result \<times> FileWriter \<times> files" where
  "FileWriter_commit sys w fs =
     (case commit_meta sys w fs of
        (Inl e, fs) \<Rightarrow> (Inl e, w, fs)
      | (Inr _, fs) \<Rightarrow>
          let w = w\<lparr>fw_Open := False\<rparr> in
          case (if fs (fw_TempPath w) = None then Some ENOENT else sys Sys_Rename) of
            Some e \<Rightarrow> (fail (Foreign e) (''rename to '' @ fw_FinalPath w), w, fs)
          | None \<Rightarrow>
              (Inr (), w\<lparr>fw_Committed := True\<rparr>,
               (fs(fw_TempPath w := None))(fw_FinalPath w := fs (fw_TempPath w))))"

text \<open>The destructor.\<close>

definition FileWriter_abandon :: "FileWriter \<Rightarrow> files \<Rightarrow> FileWriter \<times> files" where
  "FileWriter_abandon w fs =
     (w\<lparr>fw_Open := False\<rparr>,
      if \<not> fw_Committed w \<and> fw_TempPath w \<noteq> [] then fs(fw_TempPath w := None) else fs)"

section \<open>The life of a writer\<close>

text \<open>
  What a receiver does with a writer: create it, write some ranges, commit if all went well,
  and destroy it.
\<close>

fun write_all :: "(pwrite_event list \<times> byte list \<times> nat) list \<Rightarrow> FileWriter \<Rightarrow> files \<Rightarrow> unit Result \<times> files" where
  "write_all [] w fs = (Inr (), fs)"
| "write_all ((es, Src, Offset) # ws) w fs =
     (case FileWriter_write es w Src Offset fs of
        (Inl e, fs) \<Rightarrow> (Inl e, fs)
      | (Inr _, fs) \<Rightarrow> write_all ws w fs)"

definition write_file ::
  "answers \<Rightarrow> nat \<Rightarrow> string \<Rightarrow> FileMeta \<Rightarrow> Durability \<Rightarrow> bool \<Rightarrow> (pwrite_event list \<times> byte list \<times> nat) list \<Rightarrow>
     nat \<times> files \<Rightarrow> unit Result \<times> files" where
  "write_file sys pid Dst Meta D Direct ws st =
     (case FileWriter_create sys pid Dst Meta D Direct st of
        (Inl e, _, fs) \<Rightarrow> (Inl e, fs)
      | (Inr w, _, fs) \<Rightarrow>
          (case write_all ws w fs of
             (Inl e, fs) \<Rightarrow> (Inl e, snd (FileWriter_abandon w fs))
           | (Inr _, fs) \<Rightarrow>
               (case FileWriter_commit sys w fs of
                  (r, w, fs) \<Rightarrow> (r, snd (FileWriter_abandon w fs)))))"

section \<open>Temporary names are not shared\<close>

fun read_decimal :: "string \<Rightarrow> nat" where
  "read_decimal s = foldl (\<lambda>n c. 10 * n + (of_char c - 48)) 0 s"

lemma digit_of_char: "n < 10 \<Longrightarrow> of_char (digit n) = 48 + n"
  by (simp add: digit_def)

lemma read_decimal_decimal: "foldl (\<lambda>n c. 10 * n + (of_char c - 48)) 0 (decimal n) = n"
proof (induction n rule: decimal.induct)
  case (1 n)
  then show ?case by (cases "n < 10") (simp_all add: decimal.simps [of n] digit_of_char)
qed

lemma decimal_inject: "decimal m = decimal n \<longleftrightarrow> m = n"
  by (metis read_decimal_decimal)

lemma set_decimal: "set (decimal n) \<subseteq> digit ` {..<10}"
proof (induction n rule: decimal.induct)
  case (1 n)
  then show ?case by (cases "n < 10") (simp_all add: decimal.simps [of n])
qed

lemma decimal_chars: "CHR ''.'' \<notin> set (decimal n)" "CHR ''/'' \<notin> set (decimal n)"
proof -
  have "c \<notin> set (decimal n)" if "of_char c < (48 :: nat)" for c
    using set_decimal [of n] that digit_of_char by fastforce
  then show "CHR ''.'' \<notin> set (decimal n)" "CHR ''/'' \<notin> set (decimal n)" by simp_all
qed

lemma append_dot_inject:
  assumes "a @ CHR ''.'' # x = b @ CHR ''.'' # y" and "CHR ''.'' \<notin> set a" and "CHR ''.'' \<notin> set b"
  shows "a = b \<and> x = y"
  using assms by (induction a arbitrary: b) (auto simp: Cons_eq_append_conv append_eq_Cons_conv)

lemma filename_no_slash: "CHR ''/'' \<notin> set (filename p)"
  unfolding filename_def by (auto dest: set_takeWhileD)

lemma filename_append:
  assumes "CHR ''/'' \<notin> set x" and "x \<noteq> []"
  shows "filename (path_append Dir x) = x"
proof -
  have all: "takeWhile (\<lambda>c. c \<noteq> CHR ''/'') (rev x @ ys) = rev x @ takeWhile (\<lambda>c. c \<noteq> CHR ''/'') ys" for ys
    using assms(1) by (intro takeWhile_append2) auto
  have "filename (a @ CHR ''/'' # x) = x" for a
    by (simp add: filename_def all)
  moreover have "filename x = x" unfolding filename_def using all [of "[]"] by (simp only: append_Nil2 takeWhile.simps rev_rev_ident)
  moreover have "\<not> is_absolute x" using assms by (cases x) (auto simp: is_absolute_def)
  moreover from calculation have "filename (Dir @ x) = x" if "Dir = [] \<or> last Dir = CHR ''/''"
    using that by (cases Dir rule: rev_cases) auto
  ultimately show ?thesis by (simp add: path_append_def)
qed

lemma filename_temp:
  "filename (temp_path pid i Dst) = ''.rail.tmp.'' @ decimal pid @ ''.'' @ decimal i @ ''.'' @ filename Dst"
  unfolding temp_path_def Let_def
  by (rule filename_append) (use decimal_chars filename_no_slash in auto)

lemma temp_path_not_final: "temp_path pid i Dst \<noteq> Dst"
proof
  assume "temp_path pid i Dst = Dst"
  then have "length (filename Dst) = length (''.rail.tmp.'' @ decimal pid @ ''.'' @ decimal i @ ''.'' @ filename Dst)"
    using filename_temp [of pid i Dst] by simp
  then show False by simp
qed

text \<open>
  Two writers of one process never stage in the same temporary file, whatever their
  destinations, because the running number in the name can be read back from it; and a
  temporary file is never a destination of its own writer.
\<close>

theorem temp_path_distinct:
  "(temp_path pid i Dst = temp_path pid j Dst' \<longrightarrow> i = j) \<and> temp_path pid i Dst \<noteq> Dst"
proof
  show "temp_path pid i Dst = temp_path pid j Dst' \<longrightarrow> i = j"
  proof
    assume "temp_path pid i Dst = temp_path pid j Dst'"
    then have "decimal i @ CHR ''.'' # filename Dst = decimal j @ CHR ''.'' # filename Dst'"
      using filename_temp [of pid i Dst] filename_temp [of pid j Dst'] by simp
    then show "i = j" using append_dot_inject decimal_chars(1) decimal_inject by metis
  qed
qed (rule temp_path_not_final)

theorem temp_path_distinct_witness:
  "temp_path 7 0 ''d/x'' \<noteq> temp_path 7 1 ''d/x'' \<and> temp_path 7 0 ''d/x'' \<noteq> ''d/x''"
  using temp_path_distinct [of 7 0 "''d/x''" 1 "''d/x''"] by simp

section \<open>The destination changes only by a commit\<close>

lemma overwrite_append: "overwrite (At + length A) B (overwrite At A d) = overwrite At (A @ B) d"
proof -
  have "min (length d) At + (At - length d) = At" by simp
  then show ?thesis by (auto simp: overwrite_def ac_simps)
qed

lemma write_from_data:
  assumes "fs (fw_TempPath w) = Some f" and "f_data f = overwrite Offset (take Done Src) d" and "Done \<le> length Src"
    and "write_from es w Src Offset Done fs = (r, fs')"
  shows "\<exists>f'. fs' = fs(fw_TempPath w \<mapsto> f') \<and> f_mode f' = f_mode f \<and> f_mtime f' = f_mtime f \<and>
    (is_ok r \<longrightarrow> f_data f' = overwrite Offset Src d)"
  using assms
proof (induction es w Src Offset Done fs arbitrary: f rule: write_from.induct)
  case (1 w Src Offset Done fs)
  have "overwrite (Offset + Done) (drop Done Src) (f_data f) = overwrite Offset Src d"
    using overwrite_append [of Offset "take Done Src" "drop Done Src" d] 1(2,3) by simp
  with 1 show ?case
    by (cases "Done < length Src")
      (auto simp: change_file_def fun_upd_idem intro: exI [of _ f]
        intro!: exI [of _ "f_data_update (overwrite (Offset + Done) (drop Done Src)) f"])
next
  case (2 ev es w Src Offset Done fs)
  show ?case
  proof (cases "Done < length Src")
    case False
    with 2 show ?thesis by (intro exI [of _ f]) (auto simp: fun_upd_idem)
  next
    case True
    show ?thesis
    proof (cases ev)
      case (PW_Take k)
      define N where "N = take k (drop Done Src)"
      define g where "g = f_data_update (overwrite (Offset + Done) N) f"
      have fs1: "change_file (fw_TempPath w) (f_data_update (overwrite (Offset + Done) N)) fs = fs(fw_TempPath w \<mapsto> g)"
        using 2(3) by (simp add: change_file_def g_def)
      have "take Done Src @ N = take (Done + length N) Src" using True by (simp add: N_def min_def take_take_drop)
      then have "f_data g = overwrite Offset (take (Done + length N) Src) d"
        using overwrite_append [of Offset "take Done Src" N d] 2(4,5) by (simp add: g_def)
      moreover have "Done + length N \<le> length Src" using True by (simp add: N_def)
      moreover have "write_from es w Src Offset (Done + length N) (fs(fw_TempPath w \<mapsto> g)) = (r, fs')"
        using 2(6) True PW_Take by (simp add: N_def [symmetric] fs1)
      ultimately obtain f' where "fs' = (fs(fw_TempPath w \<mapsto> g))(fw_TempPath w \<mapsto> f')" "f_mode f' = f_mode g"
        "f_mtime f' = f_mtime g" "is_ok r \<longrightarrow> f_data f' = overwrite Offset Src d"
        using 2(1) [OF _ PW_Take N_def, of g] True fs1 by (auto simp del: fun_upd_apply simp add: fun_upd_same)
      then show ?thesis by (auto simp: g_def)
    next
      case PW_Intr
      with 2(2) [OF _ PW_Intr 2(3-5)] 2(6) True show ?thesis by simp
    next
      case (PW_Fail e)
      with 2 True show ?thesis by (intro exI [of _ f]) (auto simp: fun_upd_idem)
    qed
  qed
qed

lemma commit_meta_data:
  assumes "fs (fw_TempPath w) = Some f" and "commit_meta sys w fs = (r, fs')"
  shows "\<exists>f'. fs' = fs(fw_TempPath w \<mapsto> f') \<and>
    (is_ok r \<longrightarrow> f' = \<lparr>f_data = resize (unat (Meta_Size (fw_Meta w))) (f_data f),
       f_mode = (if Meta_Mode (fw_Meta w) \<noteq> 0 then Meta_Mode (fw_Meta w) else f_mode f),
       f_mtime = (if Meta_Mtime (fw_Meta w) \<noteq> 0 then Meta_Mtime (fw_Meta w) else f_mtime f)\<rparr>)"
proof -
  let ?t = "fw_TempPath w"
  have c: "change_file ?t g fs = fs(?t \<mapsto> g f)" "change_file ?t g (fs(?t \<mapsto> x)) = fs(?t \<mapsto> g x)" for g x
    using assms(1) by (simp_all add: change_file_def)
  have id: "fs = fs(?t \<mapsto> f)" using assms(1) by (simp add: fun_upd_idem)
  let ?m = "fw_Meta w"
  define f1 where "f1 = f_data_update (resize (unat (Meta_Size ?m))) f"
  define f2 where "f2 = (if Meta_Mode ?m \<noteq> 0 then f_mode_update (\<lambda>_. Meta_Mode ?m) f1 else f1)"
  define f3 where "f3 = (if Meta_Mtime ?m \<noteq> 0 then f_mtime_update (\<lambda>_. Meta_Mtime ?m) f2 else f2)"
  have 2: "(if Meta_Mode ?m \<noteq> 0 then change_file ?t (f_mode_update (\<lambda>_. Meta_Mode ?m)) (fs(?t \<mapsto> f1)) else fs(?t \<mapsto> f1)) =
      fs(?t \<mapsto> f2)" by (simp add: c f2_def)
  have 3: "(if Meta_Mtime ?m \<noteq> 0 then change_file ?t (f_mtime_update (\<lambda>_. Meta_Mtime ?m)) (fs(?t \<mapsto> f2)) else fs(?t \<mapsto> f2)) =
      fs(?t \<mapsto> f3)" by (simp add: c f3_def)
  note eq = assms(2) [unfolded commit_meta_def Let_def c(1) f1_def [symmetric] 2 3]
  have f3: "f3 = \<lparr>f_data = resize (unat (Meta_Size ?m)) (f_data f),
      f_mode = (if Meta_Mode ?m \<noteq> 0 then Meta_Mode ?m else f_mode f),
      f_mtime = (if Meta_Mtime ?m \<noteq> 0 then Meta_Mtime ?m else f_mtime f)\<rparr>"
    by (cases f) (simp add: f3_def f2_def f1_def)
  show ?thesis
  proof (cases "is_ok r")
    case True
    with eq f3 show ?thesis by (auto split: option.splits if_splits)
  next
    case False
    with eq id show ?thesis by (auto split: option.splits if_splits)
  qed
qed

lemma write_all_data:
  assumes "fs (fw_TempPath w) = Some f" and "write_all ws w fs = (r, fs')"
  shows "\<exists>f'. fs' = fs(fw_TempPath w \<mapsto> f') \<and> f_mode f' = f_mode f \<and> f_mtime f' = f_mtime f \<and>
    (is_ok r \<longrightarrow> f_data f' = foldl (\<lambda>d (es, Src, Offset). overwrite Offset Src d) (f_data f) ws)"
  using assms
proof (induction ws arbitrary: fs f)
  case Nil
  then show ?case by (auto intro!: exI [of _ f] simp: fun_upd_idem)
next
  case (Cons x ws)
  obtain es Src Offset where x: "x = (es, Src, Offset)" by (cases x)
  obtain r1 fs1 where w1: "write_from es w Src Offset 0 fs = (r1, fs1)" by fastforce
  obtain g where g: "fs1 = fs(fw_TempPath w \<mapsto> g)" "f_mode g = f_mode f" "f_mtime g = f_mtime f"
    "is_ok r1 \<longrightarrow> f_data g = overwrite Offset Src (f_data f)"
    using write_from_data [OF Cons.prems(1) _ _ w1, of "f_data f"] by (auto simp: overwrite_def)
  show ?case
  proof (cases r1)
    case (Inl e)
    with Cons.prems(2) w1 g show ?thesis by (auto simp: x FileWriter_write_def)
  next
    case (Inr u)
    then have "write_all ws w fs1 = (r, fs')" using Cons.prems(2) w1 by (simp add: x FileWriter_write_def)
    with Cons.IH [of fs1 g] g Inr obtain f' where "fs' = fs1(fw_TempPath w \<mapsto> f')" "f_mode f' = f_mode f"
      "f_mtime f' = f_mtime f"
      "is_ok r \<longrightarrow> f_data f' = foldl (\<lambda>d (es, Src, Offset). overwrite Offset Src d) (overwrite Offset Src (f_data f)) ws"
      by (auto simp del: fun_upd_apply simp add: fun_upd_same)
    with g(1) show ?thesis by (auto simp: x)
  qed
qed

text \<open>
  C7. A file arrives whole or not at all. Whatever calls fail and however the writes are
  split, no path but the destination and the temporary one is touched; a run that fails
  leaves the destination as it was and its temporary file removed; a run that succeeds
  leaves no temporary file, and at the destination exactly the bytes written, cut or filled
  to the announced size, with the announced mode and time where these are given.
\<close>

theorem write_file_atomic:
  assumes "write_file sys pid Dst Meta D Direct ws (i, fs) = (r, fs')"
  defines "temp \<equiv> temp_path pid i Dst"
  shows "(is_ok r \<longrightarrow> fs' = (fs(temp := None))(Dst \<mapsto>
       \<lparr>f_data = resize (unat (Meta_Size Meta)) (foldl (\<lambda>d (es, Src, Offset). overwrite Offset Src d) [] ws),
        f_mode = (if Meta_Mode Meta \<noteq> 0 then Meta_Mode Meta else 0x180),
        f_mtime = Meta_Mtime Meta\<rparr>)) \<and>
    (\<not> is_ok r \<longrightarrow> fs' = fs \<or> fs' = fs(temp := None))"
proof -
  have ne: "temp \<noteq> Dst" "temp \<noteq> []"
    using temp_path_not_final filename_temp [of pid i Dst] by (auto simp: temp_def filename_def)
  show ?thesis
  proof (cases "openDestination sys Direct")
    case (Inl e)
    with assms(1) show ?thesis by (auto simp: write_file_def FileWriter_create_def Let_def failErrno_def fail_def)
  next
    case (Inr Granted)
    let ?w = "\<lparr>fw_Open = True, fw_TempPath = temp, fw_FinalPath = Dst, fw_Meta = Meta, fw_Durable = D,
       fw_Direct = Granted, fw_Committed = False\<rparr>"
    let ?f = "\<lparr>f_data = [], f_mode = 0x180, f_mtime = 0\<rparr>"
    obtain r1 fs1 where w1: "write_all ws ?w (fs(temp \<mapsto> ?f)) = (r1, fs1)" by fastforce
    obtain g where g: "fs1 = fs(temp \<mapsto> g)" "f_mode g = 0x180" "f_mtime g = 0"
      "is_ok r1 \<longrightarrow> f_data g = foldl (\<lambda>d (es, Src, Offset). overwrite Offset Src d) [] ws"
      using write_all_data [OF _ w1, of ?f] by auto
    note run = assms(1) [unfolded write_file_def FileWriter_create_def prod.case Let_def Inr temp_def [symmetric] sum.case w1]
    show ?thesis
    proof (cases r1)
      case (Inl e)
      with run g ne show ?thesis by (auto simp: FileWriter_abandon_def)
    next
      case ok: (Inr u)
      obtain r2 fs2 where w2: "commit_meta sys ?w fs1 = (r2, fs2)" by fastforce
      obtain h where h: "fs2 = fs(temp \<mapsto> h)"
        "is_ok r2 \<longrightarrow> h = \<lparr>f_data = resize (unat (Meta_Size Meta)) (f_data g),
          f_mode = (if Meta_Mode Meta \<noteq> 0 then Meta_Mode Meta else 0x180), f_mtime = Meta_Mtime Meta\<rparr>"
        using commit_meta_data [OF _ w2, of g] g(1-3) by auto
      show ?thesis
      proof (cases r2)
        case (Inl e)
        with run ok w2 h ne show ?thesis by (auto simp: FileWriter_commit_def FileWriter_abandon_def)
      next
        case (Inr u2)
        with run ok w2 h g ne show ?thesis
          by (cases "sys Sys_Rename")
            (auto simp: FileWriter_commit_def FileWriter_abandon_def Let_def fail_def fun_upd_twist)
      qed
    qed
  qed
qed

theorem write_file_atomic_witness:
  "let X = write_file (\<lambda>_. None) 1 ''d/x'' \<lparr>Meta_Size = 2, Meta_Mode = 0, Meta_Mtime = 0\<rparr> PageCache False
       [([PW_Take 1, PW_Intr], [5, 6], 0)] (0, \<lambda>_. None)
   in is_ok (fst X) \<and> snd X ''d/x'' = Some \<lparr>f_data = [5, 6], f_mode = 0x180, f_mtime = 0\<rparr>"
proof -
  let ?X = "write_file (\<lambda>_. None) 1 ''d/x'' \<lparr>Meta_Size = 2, Meta_Mode = 0, Meta_Mtime = 0\<rparr> PageCache False
       [([PW_Take 1, PW_Intr], [5, 6], 0)] (0, \<lambda>_. None)"
  have "is_ok (fst ?X)"
    by (simp add: write_file_def FileWriter_create_def openDestination_def FileWriter_write_def change_file_def
        FileWriter_commit_def commit_meta_def Let_def)
  then show ?thesis
    using write_file_atomic [OF prod.collapse [symmetric], of "\<lambda>_. None" 1 "''d/x''"
        "\<lparr>Meta_Size = 2, Meta_Mode = 0, Meta_Mtime = 0\<rparr>" PageCache False "[([PW_Take 1, PW_Intr], [5, 6], 0)]" 0 "\<lambda>_. None"]
    by (simp add: Let_def overwrite_def resize_def)
qed

end
