(* ===== verification/Loop.thy ===== *)
theory Loop
  imports Rail_Prelude
begin

text \<open>
  \<^verbatim>\<open>src/io/loop.cc\<close>: the single-threaded event loop. A coroutine handle is a number and a
  coroutine that has finished is in the set \<open>dn\<close>. What \<^verbatim>\<open>epoll_ctl\<close> answers is an argument
  of the operations that call it, the clock and the events of one \<^verbatim>\<open>epoll_wait\<close> are
  arguments of the parts of a turn. The theorems show that a parked coroutine has exactly
  one wakeup pending, that no operation loses one, and which call sequence breaks this.
\<close>

type_synonym handle = nat

section \<open>State\<close>

record Wake =
  Wake_H :: handle
  Wake_Fd :: int

record Parked =
  Parked_H :: handle
  Parked_Events :: u32

record Timer =
  Timer_When :: nat
  Timer_Fd :: int
  Timer_H :: handle

record Loop =
  L_Ready :: "Wake list"
  L_Waiters :: "int \<rightharpoonup> Parked list"
  L_Shared :: "int set"
  L_Dormant :: "int set"
  L_Registered :: int
  L_Timed :: "Timer list"
  L_Driven :: "nat list"
  L_NextDriverId :: nat
  L_Quiet :: nat

definition Loop_new :: Loop where
  "Loop_new = \<lparr>L_Ready = [], L_Waiters = Map.empty, L_Shared = {}, L_Dormant = {}, L_Registered = 0, L_Timed = [],
     L_Driven = [], L_NextDriverId = 1, L_Quiet = 0\<rparr>"

section \<open>Operations\<close>

definition push_ready :: "handle set \<Rightarrow> handle \<Rightarrow> int \<Rightarrow> Loop \<Rightarrow> Loop" where
  "push_ready dn H Fd L = (if H \<in> dn then L else L\<lparr>L_Ready := L_Ready L @ [\<lparr>Wake_H = H, Wake_Fd = Fd\<rparr>]\<rparr>)"

definition schedule :: "handle set \<Rightarrow> handle \<Rightarrow> Loop \<Rightarrow> Loop" where
  "schedule dn H L = push_ready dn H (-1) L"

definition parked_on :: "int \<Rightarrow> Loop \<Rightarrow> Parked list" where
  "parked_on Fd L = (case L_Waiters L Fd of None \<Rightarrow> [] | Some ws \<Rightarrow> ws)"

text \<open>Drops the entry of a descriptor nobody waits on any more.\<close>

definition set_waiters :: "int \<Rightarrow> Parked list \<Rightarrow> Loop \<Rightarrow> Loop" where
  "set_waiters Fd ws L = L\<lparr>L_Waiters := (L_Waiters L)(Fd := (if ws = [] then None else Some ws))\<rparr>"

text \<open>The two attempts to arm the descriptor: \<^verbatim>\<open>EPOLL_CTL_MOD\<close>, then \<^verbatim>\<open>EPOLL_CTL_ADD\<close>.\<close>

record ctl =
  ctl_mod :: bool
  ctl_add :: bool

definition wait :: "handle set \<Rightarrow> ctl \<Rightarrow> int \<Rightarrow> u32 \<Rightarrow> handle \<Rightarrow> Loop \<Rightarrow> Loop" where
  "wait dn c Fd Events H L =
     (let L = L\<lparr>L_Dormant := L_Dormant L - {Fd}\<rparr>;
          OnFd = parked_on Fd L @ [\<lparr>Parked_H = H, Parked_Events = Events\<rparr>];
          L = set_waiters Fd OnFd L
      in if Fd \<in> L_Shared L then L
         else if ctl_mod c then L
         else if ctl_add c then L\<lparr>L_Registered := L_Registered L + 1\<rparr>
         else schedule dn H (set_waiters Fd (filter (\<lambda>W. Parked_H W \<noteq> H) OnFd) L))"

definition waitFor :: "handle set \<Rightarrow> ctl \<Rightarrow> nat \<Rightarrow> int \<Rightarrow> u32 \<Rightarrow> nat \<Rightarrow> handle \<Rightarrow> Loop \<Rightarrow> Loop" where
  "waitFor dn c Now Fd Events TimeoutMs H L =
     (let L = wait dn c Fd Events H L
      in L\<lparr>L_Timed := L_Timed L @ [\<lparr>Timer_When = Now + TimeoutMs, Timer_Fd = Fd, Timer_H = H\<rparr>]\<rparr>)"

definition cancel :: "handle \<Rightarrow> Loop \<Rightarrow> Loop" where
  "cancel H L = L\<lparr>
     L_Ready := filter (\<lambda>W. Wake_H W \<noteq> H) (L_Ready L),
     L_Timed := filter (\<lambda>T. Timer_H T \<noteq> H) (L_Timed L),
     L_Waiters := (\<lambda>Fd. case L_Waiters L Fd of
        None \<Rightarrow> None
      | Some ws \<Rightarrow> let ws' = filter (\<lambda>W. Parked_H W \<noteq> H) ws in if ws' = [] then None else Some ws')\<rparr>"

text \<open>One parked coroutine is made runnable and its timer dropped.\<close>

definition wake_one :: "handle set \<Rightarrow> int \<Rightarrow> Parked \<Rightarrow> Loop \<Rightarrow> Loop" where
  "wake_one dn Fd W L =
     push_ready dn (Parked_H W) Fd (L\<lparr>L_Timed := filter (\<lambda>T. Timer_H T \<noteq> Parked_H W) (L_Timed L)\<rparr>)"

definition wake :: "handle set \<Rightarrow> int \<Rightarrow> Loop \<Rightarrow> Loop" where
  "wake dn Fd L =
     (case L_Waiters L Fd of
        None \<Rightarrow> L
      | Some ws \<Rightarrow> set_waiters Fd [] (fold (wake_one dn Fd) ws L))"

definition share :: "bool \<Rightarrow> int \<Rightarrow> Loop \<Rightarrow> Loop" where
  "share added Fd L = (if \<not> added then L else L\<lparr>L_Registered := L_Registered L + 1, L_Shared := insert Fd (L_Shared L)\<rparr>)"

definition forget :: "handle set \<Rightarrow> bool \<Rightarrow> int \<Rightarrow> Loop \<Rightarrow> Loop" where
  "forget dn deleted Fd L =
     (let L = wake dn Fd L;
          L = L\<lparr>L_Shared := L_Shared L - {Fd}, L_Dormant := L_Dormant L - {Fd},
                L_Timed := filter (\<lambda>T. Timer_Fd T \<noteq> Fd) (L_Timed L)\<rparr>
      in if deleted then L\<lparr>L_Registered := L_Registered L - 1\<rparr> else L)"

definition idle :: "handle set \<Rightarrow> bool \<Rightarrow> int \<Rightarrow> Loop \<Rightarrow> Loop" where
  "idle dn deleted Fd L =
     (if Fd \<in> L_Shared L then L\<lparr>L_Dormant := insert Fd (L_Dormant L)\<rparr> else forget dn deleted Fd L)"

definition hasWork :: "Loop \<Rightarrow> bool" where
  "hasWork L \<longleftrightarrow> L_Ready L \<noteq> [] \<or> L_Timed L \<noteq> [] \<or> int (card (L_Dormant L)) < L_Registered L"

definition drive :: "Loop \<Rightarrow> nat \<times> Loop" where
  "drive L = (L_NextDriverId L, L\<lparr>L_Driven := L_Driven L @ [L_NextDriverId L], L_NextDriverId := L_NextDriverId L + 1\<rparr>)"

definition undrive :: "nat \<Rightarrow> Loop \<Rightarrow> Loop" where
  "undrive Driver L = L\<lparr>L_Driven := filter (\<lambda>d. d \<noteq> Driver) (L_Driven L)\<rparr>"

section \<open>The parts of a turn\<close>

text \<open>The next coroutine to resume; one that has finished is skipped.\<close>

definition pop_ready :: "handle set \<Rightarrow> Loop \<Rightarrow> handle option \<times> Loop" where
  "pop_ready dn L =
     (case L_Ready L of
        [] \<Rightarrow> (None, L)
      | W # ws \<Rightarrow> (if Wake_H W \<in> dn then None else Some (Wake_H W), L\<lparr>L_Ready := ws\<rparr>))"

text \<open>One expired timer: its waiter is dropped from the descriptor and made runnable.\<close>

definition expire_one :: "handle set \<Rightarrow> Timer \<Rightarrow> Loop \<Rightarrow> Loop" where
  "expire_one dn T L =
     push_ready dn (Timer_H T) (Timer_Fd T)
       (case L_Waiters L (Timer_Fd T) of
          None \<Rightarrow> L
        | Some ws \<Rightarrow> set_waiters (Timer_Fd T) (filter (\<lambda>W. Parked_H W \<noteq> Timer_H T) ws) L)"

definition expire :: "handle set \<Rightarrow> nat \<Rightarrow> Loop \<Rightarrow> Loop" where
  "expire dn Now L =
     fold (expire_one dn) (filter (\<lambda>T. Timer_When T \<le> Now) (L_Timed L))
       (L\<lparr>L_Timed := filter (\<lambda>T. \<not> Timer_When T \<le> Now) (L_Timed L)\<rparr>)"

text \<open>One reported descriptor; \<open>deleted\<close> is the answer to taking an idle one out.\<close>

definition report :: "handle set \<Rightarrow> bool \<Rightarrow> int \<Rightarrow> Loop \<Rightarrow> Loop" where
  "report dn deleted Fd L =
     (case L_Waiters L Fd of
        None \<Rightarrow> if Fd \<notin> L_Shared L \<and> deleted then L\<lparr>L_Registered := L_Registered L - 1\<rparr> else L
      | Some ws \<Rightarrow> set_waiters Fd [] (fold (wake_one dn Fd) ws L))"

definition poll_timeout :: "bool \<Rightarrow> bool \<Rightarrow> Loop \<Rightarrow> nat \<times> Loop" where
  "poll_timeout Advanced Woke L =
     (let L = L\<lparr>L_Quiet := (if Advanced \<or> Woke then 0 else L_Quiet L + 1)\<rparr>;
          Timeout = (if L_Ready L \<noteq> [] \<or> Advanced then 0 else if L_Timed L = [] then 50 else 10)
      in (if L_Driven L \<noteq> [] \<and> L_Quiet L < 256 \<and> 1 < Timeout then 1 else Timeout, L))"

text \<open>
  One turn, from the point where the transports have been driven (\<open>Advanced\<close> is whether one
  found work). \<open>resume\<close> runs a coroutine to its next suspension, with whatever it does to the
  loop and whichever coroutines it finishes; \<open>events\<close> are the descriptors that the poll with
  the given timeout reports, each with the answer to taking it out.
\<close>

primrec resume_batch ::
    "(handle \<Rightarrow> handle set \<times> Loop \<Rightarrow> handle set \<times> Loop) \<Rightarrow> nat \<Rightarrow> handle set \<times> Loop \<Rightarrow> handle set \<times> Loop" where
  "resume_batch resume 0 s = s"
| "resume_batch resume (Suc n) s =
     (if L_Ready (snd s) = [] then s
      else case pop_ready (fst s) (snd s) of
        (None, L) \<Rightarrow> resume_batch resume n (fst s, L)
      | (Some h, L) \<Rightarrow> resume_batch resume n (resume h (fst s, L)))"

definition step ::
    "(handle \<Rightarrow> handle set \<times> Loop \<Rightarrow> handle set \<times> Loop) \<Rightarrow> bool \<Rightarrow> nat \<Rightarrow> (nat \<Rightarrow> (int \<times> bool) list) \<Rightarrow>
     handle \<Rightarrow> handle set \<times> Loop \<Rightarrow> bool \<times> handle set \<times> Loop" where
  "step resume Advanced Now events Until s =
     (let Woke = L_Ready (snd s) \<noteq> [];
          (dn, L) = resume_batch resume (length (L_Ready (snd s))) s
      in if Until \<in> dn then (True, dn, L)
         else if \<not> hasWork L then (False, dn, L)
         else let (Timeout, L) = poll_timeout Advanced Woke (expire dn Now L)
              in (True, dn, fold (\<lambda>(Fd, deleted). report dn deleted Fd) (events Timeout) L))"

section \<open>Exactly one wakeup\<close>

definition ready_handles :: "Loop \<Rightarrow> handle list" where
  "ready_handles L = map Wake_H (L_Ready L)"

definition on_fd :: "Loop \<Rightarrow> int \<Rightarrow> handle list" where
  "on_fd L Fd = map Parked_H (parked_on Fd L)"

definition pending :: "Loop \<Rightarrow> handle set" where
  "pending L = set (ready_handles L) \<union> {h. \<exists>Fd. h \<in> set (on_fd L Fd)}"

text \<open>
  No coroutine is runnable twice, parked twice or both, and every timer belongs to a
  coroutine parked on its descriptor.
\<close>

definition once :: "Loop \<Rightarrow> bool" where
  "once L \<longleftrightarrow>
     distinct (ready_handles L) \<and> (\<forall>Fd. distinct (on_fd L Fd)) \<and>
     (\<forall>Fd. set (ready_handles L) \<inter> set (on_fd L Fd) = {}) \<and>
     (\<forall>Fd Fd'. Fd \<noteq> Fd' \<longrightarrow> set (on_fd L Fd) \<inter> set (on_fd L Fd') = {}) \<and>
     distinct (map Timer_H (L_Timed L)) \<and>
     (\<forall>T \<in> set (L_Timed L). Timer_H T \<in> set (on_fd L (Timer_Fd T)))"

named_theorems loop_simps \<open>the lists of handles after an update\<close>

lemma on_fd_simps [loop_simps]:
  "on_fd (set_waiters Fd ws L) = (on_fd L)(Fd := map Parked_H ws)"
  "on_fd (push_ready dn H Fd L) = on_fd L" "on_fd (L\<lparr>L_Ready := r\<rparr>) = on_fd L"
  "on_fd (L\<lparr>L_Timed := t\<rparr>) = on_fd L" "on_fd (L\<lparr>L_Dormant := d\<rparr>) = on_fd L"
  "on_fd (L\<lparr>L_Quiet := q\<rparr>) = on_fd L"
  "on_fd (L\<lparr>L_Registered := n\<rparr>) = on_fd L" "on_fd (L\<lparr>L_Shared := s\<rparr>) = on_fd L"
  "parked_on Fd' (L\<lparr>L_Dormant := d\<rparr>) = parked_on Fd' L"
  by (auto simp: fun_eq_iff on_fd_def parked_on_def set_waiters_def push_ready_def)

lemma ready_simps [loop_simps]:
  "H \<notin> dn \<Longrightarrow> ready_handles (push_ready dn H Fd L) = ready_handles L @ [H]"
  "ready_handles (set_waiters Fd ws L) = ready_handles L"
  "ready_handles (L\<lparr>L_Timed := t\<rparr>) = ready_handles L" "ready_handles (L\<lparr>L_Dormant := d\<rparr>) = ready_handles L"
  "ready_handles (L\<lparr>L_Quiet := q\<rparr>) = ready_handles L"
  "ready_handles (L\<lparr>L_Registered := n\<rparr>) = ready_handles L" "ready_handles (L\<lparr>L_Shared := s\<rparr>) = ready_handles L"
  by (simp_all add: ready_handles_def push_ready_def set_waiters_def)

lemma timed_simps [loop_simps]:
  "L_Timed (push_ready dn H Fd L) = L_Timed L" "L_Timed (set_waiters Fd ws L) = L_Timed L"
  "L_Shared (set_waiters Fd ws L) = L_Shared L"
  by (simp_all add: push_ready_def set_waiters_def)

lemma pending_cong:
  "(\<And>h. h \<in> set (ready_handles L') \<or> (\<exists>Fd. h \<in> set (on_fd L' Fd)) \<longleftrightarrow> h \<in> P) \<Longrightarrow> pending L' = P"
  by (auto simp: pending_def)

text \<open>Coroutines enter, move between and leave the lists, one operation at a time.\<close>

lemma wait_cases:
  assumes "H \<notin> pending L" and "H \<notin> dn"
  shows "(on_fd (wait dn c Fd Events H L) = (on_fd L)(Fd := on_fd L Fd @ [H]) \<and>
      ready_handles (wait dn c Fd Events H L) = ready_handles L) \<or>
    (\<not> (ctl_mod c \<or> ctl_add c \<or> Fd \<in> L_Shared L) \<and> on_fd (wait dn c Fd Events H L) = on_fd L \<and>
      ready_handles (wait dn c Fd Events H L) = ready_handles L @ [H])"
proof -
  have "filter (\<lambda>W. Parked_H W \<noteq> H) (parked_on Fd L) = parked_on Fd L"
    using assms(1) by (intro filter_True) (auto simp: pending_def on_fd_def)
  then show ?thesis
    using assms(2) by (auto simp: fun_eq_iff wait_def Let_def schedule_def loop_simps) (simp_all add: on_fd_def)
qed

lemma wait_timed [loop_simps]: "L_Timed (wait dn c Fd Events H L) = L_Timed L"
  by (simp add: wait_def Let_def schedule_def loop_simps)

text \<open>The lists alone, which the cases below change in five ways.\<close>

definition placed :: "handle list \<Rightarrow> (int \<Rightarrow> handle list) \<Rightarrow> Timer list \<Rightarrow> bool" where
  "placed r f t \<longleftrightarrow>
     distinct r \<and> (\<forall>Fd. distinct (f Fd)) \<and> (\<forall>Fd. set r \<inter> set (f Fd) = {}) \<and>
     (\<forall>Fd Fd'. Fd \<noteq> Fd' \<longrightarrow> set (f Fd) \<inter> set (f Fd') = {}) \<and>
     distinct (map Timer_H t) \<and> (\<forall>T \<in> set t. Timer_H T \<in> set (f (Timer_Fd T)))"

lemma once_placed: "once L = placed (ready_handles L) (on_fd L) (L_Timed L)"
  by (simp add: once_def placed_def)

lemma placed_ready: "placed r f t \<Longrightarrow> h \<notin> set r \<Longrightarrow> (\<And>Fd. h \<notin> set (f Fd)) \<Longrightarrow> placed (r @ [h]) f t"
  by (auto simp: placed_def)

lemma placed_park:
  assumes "placed r f t" and "h \<notin> set r" and "\<And>Fd. h \<notin> set (f Fd)"
  shows "placed r (f(Fd := f Fd @ [h])) t"
  using assms unfolding placed_def
  by (intro conjI allI impI ballI; simp; fastforce)

lemma placed_timer:
  "placed r f t \<Longrightarrow> Timer_H T \<in> set (f (Timer_Fd T)) \<Longrightarrow> Timer_H T \<notin> Timer_H ` set t \<Longrightarrow> placed r f (t @ [T])"
  by (auto simp: placed_def)

lemma placed_drop:
  assumes "placed r f t"
  shows "placed (filter (\<lambda>x. x \<noteq> h) r) (\<lambda>Fd. filter (\<lambda>x. x \<noteq> h) (f Fd)) (filter (\<lambda>T. Timer_H T \<noteq> h) t)"
proof -
  have "distinct (map Timer_H (filter (\<lambda>T. Timer_H T \<noteq> h) t))"
    using assms by (simp add: placed_def distinct_map_filter)
  then show ?thesis
    using assms unfolding placed_def by (intro conjI allI impI ballI; simp; fastforce)
qed

lemma placed_wake:
  assumes "placed r f t" and "set hs \<subseteq> set (f Fd)" and "distinct hs"
  shows "placed (r @ hs) (f(Fd := filter (\<lambda>x. x \<notin> set hs) (f Fd))) (filter (\<lambda>T. Timer_H T \<notin> set hs) t)"
proof -
  have "distinct (map Timer_H (filter (\<lambda>T. Timer_H T \<notin> set hs) t))"
    using assms(1) by (simp add: placed_def distinct_map_filter)
  then show ?thesis
    using assms unfolding placed_def
    by (intro conjI allI impI ballI; simp; fastforce)
qed

lemma wait_once:
  assumes "once L" and "H \<notin> pending L" and "H \<notin> dn"
  shows "once (wait dn c Fd Events H L) \<and> pending (wait dn c Fd Events H L) = insert H (pending L)"
proof -
  have H: "H \<notin> set (ready_handles L)" "\<And>Fd. H \<notin> set (on_fd L Fd)"
    using assms(2) by (auto simp: pending_def)
  from wait_cases [OF assms(2,3), of c Fd Events] show ?thesis
  proof
    assume *: "on_fd (wait dn c Fd Events H L) = (on_fd L)(Fd := on_fd L Fd @ [H]) \<and>
      ready_handles (wait dn c Fd Events H L) = ready_handles L"
    then have "pending (wait dn c Fd Events H L) = insert H (pending L)"
      unfolding pending_def by (auto split: if_splits)
    with * show ?thesis
      using placed_park [of _ _ _ H Fd] assms(1) H by (simp add: once_placed wait_timed)
  next
    assume *: "\<not> (ctl_mod c \<or> ctl_add c \<or> Fd \<in> L_Shared L) \<and> on_fd (wait dn c Fd Events H L) = on_fd L \<and>
      ready_handles (wait dn c Fd Events H L) = ready_handles L @ [H]"
    then show ?thesis
      using placed_ready [of _ _ _ H] assms(1) H by (auto simp: once_placed wait_timed pending_def)
  qed
qed

lemma waitFor_once:
  assumes "once L" and "H \<notin> pending L" and "H \<notin> dn" and "ctl_mod c \<or> ctl_add c \<or> Fd \<in> L_Shared L"
  shows "once (waitFor dn c Now Fd Events Ms H L) \<and> pending (waitFor dn c Now Fd Events Ms H L) = insert H (pending L)"
proof -
  let ?L = "wait dn c Fd Events H L"
  have w: "once ?L" "pending ?L = insert H (pending L)" using wait_once [OF assms(1-3)] by auto
  have on: "H \<in> set (on_fd ?L Fd)" using wait_cases [OF assms(2,3), of c Fd Events] assms(4) by auto
  have "H \<notin> Timer_H ` set (L_Timed L)" using assms(1,2) by (auto simp: once_def pending_def)
  then show ?thesis
    using placed_timer [of _ _ _ "\<lparr>Timer_When = Now + Ms, Timer_Fd = Fd, Timer_H = H\<rparr>"] w on
    by (auto simp: waitFor_def Let_def once_placed loop_simps pending_def)
qed

lemma schedule_once:
  assumes "once L" and "H \<notin> pending L" and "H \<notin> dn"
  shows "once (schedule dn H L) \<and> pending (schedule dn H L) = insert H (pending L)"
  using placed_ready [of _ _ _ H] assms
  by (auto simp: schedule_def once_placed loop_simps pending_def)

lemma cancel_once:
  assumes "once L"
  shows "once (cancel H L) \<and> pending (cancel H L) = pending L - {H}"
proof -
  have on: "on_fd (cancel H L) = (\<lambda>Fd. filter (\<lambda>x. x \<noteq> H) (on_fd L Fd))"
    by (auto simp: fun_eq_iff on_fd_def parked_on_def cancel_def Let_def filter_map comp_def split: option.splits)
  have "ready_handles (cancel H L) = filter (\<lambda>x. x \<noteq> H) (ready_handles L)"
    by (simp add: ready_handles_def cancel_def filter_map comp_def)
  moreover have "L_Timed (cancel H L) = filter (\<lambda>T. Timer_H T \<noteq> H) (L_Timed L)" by (simp add: cancel_def)
  ultimately show ?thesis
    using placed_drop [of _ _ _ H] assms on by (auto simp: once_placed pending_def)
qed

lemma fold_wake_one:
  assumes "Parked_H ` set ws \<inter> dn = {}"
  shows "ready_handles (fold (wake_one dn Fd) ws L) = ready_handles L @ map Parked_H ws \<and>
    on_fd (fold (wake_one dn Fd) ws L) = on_fd L \<and>
    L_Timed (fold (wake_one dn Fd) ws L) = filter (\<lambda>T. Timer_H T \<notin> Parked_H ` set ws) (L_Timed L)"
  using assms
proof (induction ws arbitrary: L)
  case Nil
  then show ?case by simp
next
  case (Cons w ws)
  then have w: "Parked_H w \<notin> dn" by auto
  have "on_fd (wake_one dn Fd w L) = on_fd L" "ready_handles (wake_one dn Fd w L) = ready_handles L @ [Parked_H w]"
    "L_Timed (wake_one dn Fd w L) = filter (\<lambda>T. Timer_H T \<noteq> Parked_H w) (L_Timed L)"
    using w by (simp_all add: wake_one_def loop_simps)
  with Cons show ?case by (auto simp: intro!: filter_cong)
qed

text \<open>All coroutines parked on a descriptor become runnable, in the order they came.\<close>

lemma wake_all_once:
  assumes "once L" and "pending L \<inter> dn = {}" and "L_Waiters L Fd = Some ws"
  defines "L' \<equiv> set_waiters Fd [] (fold (wake_one dn Fd) ws L)"
  shows "once L' \<and> pending L' = pending L \<and> ready_handles L' = ready_handles L @ on_fd L Fd \<and> on_fd L' Fd = []"
proof -
  have ws: "on_fd L Fd = map Parked_H ws" using assms(3) by (simp add: on_fd_def parked_on_def)
  then have "Parked_H ` set ws \<subseteq> pending L" by (auto simp: pending_def) (metis image_eqI list.set_map)
  then have f: "ready_handles (fold (wake_one dn Fd) ws L) = ready_handles L @ on_fd L Fd"
    "on_fd (fold (wake_one dn Fd) ws L) = on_fd L"
    "L_Timed (fold (wake_one dn Fd) ws L) = filter (\<lambda>T. Timer_H T \<notin> set (on_fd L Fd)) (L_Timed L)"
    using fold_wake_one [of ws dn Fd L] assms(2) ws by auto
  have L': "ready_handles L' = ready_handles L @ on_fd L Fd" "on_fd L' = (on_fd L)(Fd := [])"
    "L_Timed L' = filter (\<lambda>T. Timer_H T \<notin> set (on_fd L Fd)) (L_Timed L)"
    using f by (simp_all add: L'_def loop_simps)
  have "distinct (on_fd L Fd)" using assms(1) by (simp add: once_def)
  then have "once L'"
    using placed_wake [of "ready_handles L" "on_fd L" "L_Timed L" "on_fd L Fd" Fd] assms(1) L' by (simp add: once_placed)
  moreover have "pending L' = pending L" using L' by (auto simp: pending_def split: if_splits)
  ultimately show ?thesis using L' by simp
qed

lemma wake_once:
  assumes "once L" and "pending L \<inter> dn = {}"
  shows "once (wake dn Fd L) \<and> pending (wake dn Fd L) = pending L \<and> on_fd (wake dn Fd L) Fd = []"
proof (cases "L_Waiters L Fd")
  case None
  with assms(1) show ?thesis by (simp add: wake_def on_fd_def parked_on_def)
next
  case (Some ws)
  with wake_all_once [OF assms Some] show ?thesis by (simp add: wake_def)
qed

lemma report_once:
  assumes "once L" and "pending L \<inter> dn = {}"
  shows "once (report dn d Fd L) \<and> pending (report dn d Fd L) = pending L"
proof (cases "L_Waiters L Fd")
  case None
  with assms(1) show ?thesis by (simp add: report_def once_placed pending_def loop_simps)
next
  case (Some ws)
  with wake_all_once [OF assms Some] show ?thesis by (simp add: report_def)
qed

lemma forget_once:
  assumes "once L" and "pending L \<inter> dn = {}"
  shows "once (forget dn d Fd L) \<and> pending (forget dn d Fd L) = pending L"
proof -
  have w: "once (wake dn Fd L)" "pending (wake dn Fd L) = pending L" "on_fd (wake dn Fd L) Fd = []"
    using wake_once [OF assms] by auto
  then have "filter (\<lambda>T. Timer_Fd T \<noteq> Fd) (L_Timed (wake dn Fd L)) = L_Timed (wake dn Fd L)"
    by (intro filter_True) (auto simp: once_def)
  then show ?thesis using w by (simp add: forget_def Let_def once_placed pending_def loop_simps)
qed

lemma moved_handle:
  assumes "h \<in> set (f Fd)"
  shows "insert h (R \<union> {x. \<exists>Fd'. x \<in> set ((f(Fd := filter (\<lambda>x. x \<noteq> h) (f Fd))) Fd')}) = R \<union> {x. \<exists>Fd'. x \<in> set (f Fd')}"
    (is "insert h (R \<union> ?A) = R \<union> ?B")
proof -
  have "x \<in> ?A \<longleftrightarrow> x \<in> ?B" if "x \<noteq> h" for x
    unfolding mem_Collect_eq by (intro iff_exI) (use that in simp)
  moreover have "h \<in> ?B" using assms by blast
  ultimately have "insert h ?A = ?B" unfolding set_eq_iff insert_iff by metis
  then show ?thesis by (metis Un_insert_right)
qed

lemma expire_one_once:
  assumes "placed (ready_handles L) (on_fd L) (keep @ T # ts)" and "Timer_H T \<notin> dn"
  shows "placed (ready_handles (expire_one dn T L)) (on_fd (expire_one dn T L)) (keep @ ts)"
    and "pending (expire_one dn T L) = pending L" and "L_Timed (expire_one dn T L) = L_Timed L"
proof -
  let ?h = "Timer_H T" and ?fd = "Timer_Fd T"
  have h: "?h \<in> set (on_fd L ?fd)" using assms(1) by (simp add: placed_def)
  then obtain ws where ws: "L_Waiters L ?fd = Some ws" "on_fd L ?fd = map Parked_H ws"
    by (cases "L_Waiters L ?fd") (auto simp: on_fd_def parked_on_def)
  have e: "ready_handles (expire_one dn T L) = ready_handles L @ [?h]"
    "on_fd (expire_one dn T L) = (on_fd L)(?fd := filter (\<lambda>x. x \<noteq> ?h) (on_fd L ?fd))"
    using assms(2) ws by (simp_all add: expire_one_def loop_simps filter_map comp_def)
  have "?h \<notin> Timer_H ` set keep" "?h \<notin> Timer_H ` set ts" using assms(1) by (auto simp: placed_def)
  then have "filter (\<lambda>T'. Timer_H T' \<noteq> ?h) keep = keep" "filter (\<lambda>T'. Timer_H T' \<noteq> ?h) ts = ts"
    by (intro filter_True ballI; metis image_eqI)+
  then have "filter (\<lambda>T'. Timer_H T' \<notin> set [?h]) (keep @ T # ts) = keep @ ts" by simp
  then show "placed (ready_handles (expire_one dn T L)) (on_fd (expire_one dn T L)) (keep @ ts)"
    using placed_wake [OF assms(1), of "[?h]" ?fd] h e by simp
  show "pending (expire_one dn T L) = pending L"
    using moved_handle [of ?h "on_fd L" ?fd "set (ready_handles L)"] h by (simp add: pending_def e)
  show "L_Timed (expire_one dn T L) = L_Timed L" using ws by (simp add: expire_one_def loop_simps)
qed

lemma fold_expire_once:
  assumes "placed (ready_handles L) (on_fd L) (keep @ ts)" and "pending L \<inter> dn = {}"
  shows "placed (ready_handles (fold (expire_one dn) ts L)) (on_fd (fold (expire_one dn) ts L)) keep \<and>
    pending (fold (expire_one dn) ts L) = pending L \<and> L_Timed (fold (expire_one dn) ts L) = L_Timed L"
  using assms
proof (induction ts arbitrary: L)
  case Nil
  then show ?case by simp
next
  case (Cons T ts)
  have "Timer_H T \<in> set (on_fd L (Timer_Fd T))" using Cons.prems(1) by (simp add: placed_def)
  then have "Timer_H T \<notin> dn" using Cons.prems(2) by (auto simp: pending_def)
  note e = expire_one_once [OF Cons.prems(1) this]
  show ?case using Cons.IH [OF e(1)] e(2,3) Cons.prems(2) by simp
qed

lemma expire_once:
  assumes "once L" and "pending L \<inter> dn = {}"
  shows "once (expire dn Now L) \<and> pending (expire dn Now L) = pending L"
proof -
  let ?keep = "filter (\<lambda>T. \<not> Timer_When T \<le> Now) (L_Timed L)" and ?ts = "filter (\<lambda>T. Timer_When T \<le> Now) (L_Timed L)"
  let ?L = "L\<lparr>L_Timed := ?keep\<rparr>"
  have "distinct (map Timer_H (?keep @ ?ts))"
    using assms(1) by (auto simp: once_def distinct_map_filter distinct_map inj_on_def)
  then have "placed (ready_handles ?L) (on_fd ?L) (?keep @ ?ts)"
    using assms(1) by (auto simp: once_placed placed_def loop_simps)
  then show ?thesis
    using fold_expire_once [of ?L ?keep ?ts dn] assms(2) by (simp add: expire_def once_placed pending_def loop_simps)
qed

lemma pop_ready_once:
  assumes "once L" and "pending L \<inter> dn = {}" and "L_Ready L \<noteq> []"
  shows "\<exists>h L'. pop_ready dn L = (Some h, L') \<and> once L' \<and> h \<in> pending L \<and> pending L' = pending L - {h}"
proof -
  obtain W ws where r: "L_Ready L = W # ws" using assms(3) by (cases "L_Ready L") auto
  then have "Wake_H W \<in> pending L" by (simp add: pending_def ready_handles_def)
  then have d: "Wake_H W \<notin> dn" using assms(2) by auto
  have rh: "ready_handles L = Wake_H W # map Wake_H ws" using r by (simp add: ready_handles_def)
  have rh': "ready_handles (L\<lparr>L_Ready := ws\<rparr>) = map Wake_H ws" by (simp add: ready_handles_def)
  have "once (L\<lparr>L_Ready := ws\<rparr>)"
    using assms(1) unfolding once_placed placed_def rh rh' by (simp add: loop_simps)
  moreover have "pending (L\<lparr>L_Ready := ws\<rparr>) = pending L - {Wake_H W}"
    using assms(1) unfolding once_def pending_def rh rh' by (auto simp: loop_simps)
  ultimately show ?thesis using r d \<open>Wake_H W \<in> pending L\<close> by (simp add: pop_ready_def)
qed

text \<open>
  The runs of the loop: \<open>dn\<close> are the coroutines that have finished and \<open>P\<close> those that
  suspended into the loop and have not been resumed or destroyed since. A timed wait is armed.
\<close>

inductive loop_run :: "handle set \<Rightarrow> handle set \<Rightarrow> Loop \<Rightarrow> bool" where
  start: "loop_run {} {} Loop_new"
| finished: "loop_run dn P L \<Longrightarrow> h \<notin> P \<Longrightarrow> loop_run (insert h dn) P L"
| scheduled: "loop_run dn P L \<Longrightarrow> h \<notin> P \<Longrightarrow> h \<notin> dn \<Longrightarrow> loop_run dn (insert h P) (schedule dn h L)"
| waits: "loop_run dn P L \<Longrightarrow> h \<notin> P \<Longrightarrow> h \<notin> dn \<Longrightarrow> loop_run dn (insert h P) (wait dn c Fd Events h L)"
| waits_for: "loop_run dn P L \<Longrightarrow> h \<notin> P \<Longrightarrow> h \<notin> dn \<Longrightarrow> ctl_mod c \<or> ctl_add c \<or> Fd \<in> L_Shared L \<Longrightarrow>
    loop_run dn (insert h P) (waitFor dn c Now Fd Events Ms h L)"
| destroyed: "loop_run dn P L \<Longrightarrow> loop_run dn (P - {h}) (cancel h L)"
| woken: "loop_run dn P L \<Longrightarrow> loop_run dn P (wake dn Fd L)"
| shared: "loop_run dn P L \<Longrightarrow> loop_run dn P (share b Fd L)"
| forgotten: "loop_run dn P L \<Longrightarrow> loop_run dn P (forget dn b Fd L)"
| idled: "loop_run dn P L \<Longrightarrow> loop_run dn P (idle dn b Fd L)"
| reported: "loop_run dn P L \<Longrightarrow> loop_run dn P (report dn b Fd L)"
| expired: "loop_run dn P L \<Longrightarrow> loop_run dn P (expire dn Now L)"
| quietened: "loop_run dn P L \<Longrightarrow> loop_run dn P (L\<lparr>L_Quiet := n\<rparr>)"
| resumed: "loop_run dn P L \<Longrightarrow> pop_ready dn L = (Some h, L') \<Longrightarrow> loop_run dn (P - {h}) L'"

lemma loop_run_once: "loop_run dn P L \<Longrightarrow> once L \<and> pending L = P \<and> P \<inter> dn = {}"
proof (induction rule: loop_run.induct)
  case start
  show ?case by (simp add: once_def pending_def Loop_new_def ready_handles_def on_fd_def parked_on_def)
next
  case (finished dn P L h)
  then show ?case by auto
next
  case (shared dn P L b Fd)
  then show ?case by (simp add: share_def once_placed pending_def loop_simps)
next
  case (quietened dn P L n)
  then show ?case by (simp add: once_placed pending_def loop_simps)
next
  case (idled dn P L b Fd)
  then show ?case using forget_once [of L dn b Fd] by (auto simp: idle_def once_placed pending_def loop_simps)
next
  case (resumed dn P L h L')
  then have "L_Ready L \<noteq> []" by (auto simp: pop_ready_def split: list.splits)
  then show ?case using resumed pop_ready_once [of L dn] by auto
next
  case (scheduled dn P L h)
  then show ?case using schedule_once [of L h dn] by auto
next
  case (waits dn P L h c Fd Events)
  then show ?case using wait_once [of L h dn c Fd Events] by auto
next
  case (waits_for dn P L h c Fd Now Events Ms)
  then show ?case using waitFor_once [of L h dn c Fd Now Events Ms] by auto
next
  case (destroyed dn P L h)
  then show ?case using cancel_once [of L h] by auto
qed (use wake_once forget_once report_once expire_once in auto)

text \<open>
  A turn of the loop is itself a sequence of those steps, as long as what a resumed
  coroutine does is: so the turns of a whole program stay within the runs above.
\<close>

definition resumes_in_run :: "(handle \<Rightarrow> handle set \<times> Loop \<Rightarrow> handle set \<times> Loop) \<Rightarrow> bool" where
  "resumes_in_run resume \<longleftrightarrow>
     (\<forall>h dn P L. loop_run dn P L \<and> h \<notin> P \<and> h \<notin> dn \<longrightarrow>
        (\<exists>P'. loop_run (fst (resume h (dn, L))) P' (snd (resume h (dn, L)))))"

lemma resume_batch_run:
  assumes "resumes_in_run resume" and "loop_run dn P L"
  shows "\<exists>P'. loop_run (fst (resume_batch resume n (dn, L))) P' (snd (resume_batch resume n (dn, L)))"
  using assms(2)
proof (induction n arbitrary: dn P L)
  case 0
  then show ?case by auto
next
  case (Suc n)
  show ?case
  proof (cases "L_Ready L")
    case Nil
    with Suc.prems show ?thesis by auto
  next
    case (Cons W ws)
    have o: "once L" "pending L = P" "P \<inter> dn = {}" using loop_run_once [OF Suc.prems] by auto
    then obtain h L' where p: "pop_ready dn L = (Some h, L')" "h \<in> P"
      using pop_ready_once [of L dn] Cons by auto
    with Suc.prems have "loop_run dn (P - {h}) L'" by (auto intro: resumed)
    moreover have "h \<notin> dn" using p(2) o(3) by auto
    ultimately obtain P' where "loop_run (fst (resume h (dn, L'))) P' (snd (resume h (dn, L')))"
      using assms(1) unfolding resumes_in_run_def by blast
    from Suc.IH [OF this] show ?thesis using Cons p(1) by simp
  qed
qed

lemma reports_run:
  "loop_run dn P L \<Longrightarrow> loop_run dn P (fold (\<lambda>(Fd, deleted). report dn deleted Fd) es L)"
  by (induction es arbitrary: L) (auto intro: reported)

lemma step_run:
  assumes "resumes_in_run resume" and "loop_run dn P L" and "step resume Advanced Now events Until (dn, L) = (going, dn', L')"
  shows "\<exists>P'. loop_run dn' P' L'"
proof -
  obtain dn1 L1 where b: "resume_batch resume (length (L_Ready L)) (dn, L) = (dn1, L1)" by fastforce
  then obtain P1 where r: "loop_run dn1 P1 L1"
    using resume_batch_run [OF assms(1,2), of "length (L_Ready L)"] by auto
  obtain t L2 where t: "poll_timeout Advanced (L_Ready L \<noteq> []) (expire dn1 Now L1) = (t, L2)" by fastforce
  then have "L2 = (expire dn1 Now L1)\<lparr>L_Quiet := L_Quiet L2\<rparr>" by (auto simp: poll_timeout_def Let_def)
  with quietened [OF expired [OF r]] have "loop_run dn1 P1 L2" by metis
  note ends = r reports_run [OF this]
  have "(dn', L') = (dn1, L1) \<or> (dn', L') = (dn1, fold (\<lambda>(Fd, deleted). report dn1 deleted Fd) (events t) L2)"
    using assms(3) unfolding step_def snd_conv Let_def b prod.case t by (auto split: if_splits)
  with ends show ?thesis by blast
qed


lemma sample_run: "loop_run {} {7, 8} (expire {} 5 (waitFor {} \<lparr>ctl_mod = False, ctl_add = True\<rparr> 0 3 1 5 8
    (wait {} \<lparr>ctl_mod = False, ctl_add = True\<rparr> 3 1 7 Loop_new)))"
proof -
  have "loop_run {} (insert 8 (insert 7 {})) (waitFor {} \<lparr>ctl_mod = False, ctl_add = True\<rparr> 0 3 1 5 8
      (wait {} \<lparr>ctl_mod = False, ctl_add = True\<rparr> 3 1 7 Loop_new))"
    by (intro waits_for waits start) simp_all
  then show ?thesis using expired [of "{}" "{8, 7}"] by (simp add: insert_commute)
qed


text \<open>
  A timed wait on a descriptor that cannot be armed leaves two wakeups for one wait: the
  coroutine is scheduled at once as a retry, and its timer is kept as well, so it is resumed
  a second time when the timer expires, wherever it has got to by then.
\<close>

theorem waitFor_unarmed_resumes_twice:
  "let L1 = waitFor dn \<lparr>ctl_mod = False, ctl_add = False\<rparr> Now Fd Events Ms h Loop_new;
       (first, L2) = pop_ready dn L1;
       (second, L3) = pop_ready dn (expire dn (Now + Ms) L2)
   in h \<notin> dn \<longrightarrow> first = Some h \<and> second = Some h"
  by (simp add: waitFor_def wait_def Let_def schedule_def push_ready_def Loop_new_def parked_on_def set_waiters_def
      pop_ready_def expire_def expire_one_def)

theorem waitFor_unarmed_resumes_twice_witness:
  "let L1 = waitFor {} \<lparr>ctl_mod = False, ctl_add = False\<rparr> 0 4 1 10 9 Loop_new;
       (first, L2) = pop_ready {} L1;
       (second, L3) = pop_ready {} (expire {} (0 + 10) L2)
   in first = Some 9 \<and> second = Some 9"
  using waitFor_unarmed_resumes_twice [of "{}" 0 4 1 10 9] by (simp add: Let_def split: prod.splits)

end
