(* ===== verification/Transition.thy ===== *)
theory Transition
  imports Rail_Prelude
begin

text \<open>
  The contracts of the components that several coroutines or threads share. A component is a
  transition system whose steps are its operations, interleaved in any order; what it
  promises in every reachable state follows from an invariant its steps keep. The locales
  below state that contract once; each component interprets them on its own steps.
\<close>

locale transition_system =
  fixes init :: 's
    and step :: "'s \<Rightarrow> 's \<Rightarrow> bool"
    and inv :: "'s \<Rightarrow> bool"
  assumes inv_init: "inv init"
    and inv_step: "inv s \<Longrightarrow> step s s' \<Longrightarrow> inv s'"
begin

definition reachable :: "'s \<Rightarrow> bool" where
  "reachable s \<longleftrightarrow> step\<^sup>*\<^sup>* init s"

lemma inv_steps:
  assumes "step\<^sup>*\<^sup>* s s'" and "inv s"
  shows "inv s'"
  using assms by (induction rule: rtranclp_induct) (auto intro: inv_step)

lemma reachable_inv: "reachable s \<Longrightarrow> inv s"
  using inv_steps inv_init by (auto simp: reachable_def)

end

text \<open>
  A lock that is handed from one coroutine to the next: an \<^emph>\<open>owner\<close> is a coroutine that holds
  it or to which it has been handed and which has not run yet, the \<^emph>\<open>queue\<close> are those that
  wait for it. One that never loses its turn has an owner whenever it is held.
\<close>

locale hand_off = transition_system init step inv
  for init :: 's and step and inv +
  fixes held :: "'s \<Rightarrow> bool"
    and owners :: "'s \<Rightarrow> 'h set"
    and queue :: "'s \<Rightarrow> 'h list"
  assumes one_owner: "inv s \<Longrightarrow> x \<in> owners s \<Longrightarrow> y \<in> owners s \<Longrightarrow> x = y"
    and free_empty: "inv s \<Longrightarrow> \<not> held s \<Longrightarrow> owners s = {} \<and> queue s = []"
    and queue_waits: "inv s \<Longrightarrow> distinct (queue s) \<and> set (queue s) \<inter> owners s = {}"
begin

lemma exclusive:
  assumes "reachable s" and "x \<in> owners s" and "y \<in> owners s"
  shows "x = y"
  using one_owner [OF reachable_inv] assms by blast

lemma waiting_held: "reachable s \<Longrightarrow> queue s \<noteq> [] \<Longrightarrow> held s"
  using free_empty [OF reachable_inv] by blast

end

locale lossless_hand_off = hand_off +
  assumes held_owned: "inv s \<Longrightarrow> held s \<Longrightarrow> owners s \<noteq> {}"
begin

lemma held_by_one: "reachable s \<Longrightarrow> held s \<Longrightarrow> \<exists>h. owners s = {h}"
  using held_owned [OF reachable_inv] one_owner [OF reachable_inv] by blast

lemma waiting_owned: "reachable s \<Longrightarrow> queue s \<noteq> [] \<Longrightarrow> \<exists>h. owners s = {h} \<and> h \<notin> set (queue s)"
  using held_by_one waiting_held queue_waits [OF reachable_inv] by blast

end

end
