(* ===== verification/Turn.thy ===== *)
theory Turn
  imports Transition
begin

text \<open>
  \<^verbatim>\<open>include/rail/io/turn.h\<close>: one coroutine at a time, in arrival order. An awaiter is known by
  the number of the coroutine whose frame holds it. A coroutine that is destroyed is first
  taken out of the event loop (\<^verbatim>\<open>Coro::destroy\<close>, \<^verbatim>\<open>Loop::cancel\<close>), then the awaiter in its
  frame is destroyed. The theorems show that the turn is a first-come first-served lock that
  is never held twice and, whichever coroutines are destroyed, never lost.
\<close>

section \<open>State and operations\<close>

record Awaiter =
  Aw_Queued :: bool
  Aw_Handed :: bool

record Turn =
  T_Held :: bool
  T_Waiting :: "nat list"
  T_Awaiters :: "nat \<rightharpoonup> Awaiter"
  T_Scheduled :: "nat list"
  T_Holding :: "nat set"

definition Turn_new :: Turn where
  "Turn_new = \<lparr>T_Held = False, T_Waiting = [], T_Awaiters = Map.empty, T_Scheduled = [], T_Holding = {}\<rparr>"

definition await_ready :: "Turn \<Rightarrow> bool" where
  "await_ready T \<longleftrightarrow> \<not> T_Held T"

definition await_suspend :: "nat \<Rightarrow> Turn \<Rightarrow> Turn" where
  "await_suspend h T = T\<lparr>
     T_Awaiters := (T_Awaiters T)(h \<mapsto> \<lparr>Aw_Queued = True, Aw_Handed = False\<rparr>),
     T_Waiting := T_Waiting T @ [h]\<rparr>"

text \<open>The awaiter is a temporary: it goes, with both flags cleared, once its coroutine runs on.\<close>

definition await_resume :: "nat \<Rightarrow> Turn \<Rightarrow> Turn" where
  "await_resume h T = T\<lparr>T_Awaiters := (T_Awaiters T)(h := None), T_Held := True\<rparr>"

definition give :: "Turn \<Rightarrow> Turn" where
  "give T =
     (case T_Waiting T of
        [] \<Rightarrow> T\<lparr>T_Held := False\<rparr>
      | Next # ws \<Rightarrow> T\<lparr>
          T_Waiting := ws,
          T_Awaiters := (T_Awaiters T)(Next \<mapsto> \<lparr>Aw_Queued = False, Aw_Handed = True\<rparr>),
          T_Scheduled := T_Scheduled T @ [Next]\<rparr>)"

definition destroy_awaiter :: "nat \<Rightarrow> Turn \<Rightarrow> Turn" where
  "destroy_awaiter h T =
     (case T_Awaiters T h of
        None \<Rightarrow> T
      | Some A \<Rightarrow>
          let T = T\<lparr>T_Awaiters := (T_Awaiters T)(h := None)\<rparr>
          in if Aw_Queued A then T\<lparr>T_Waiting := filter (\<lambda>x. x \<noteq> h) (T_Waiting T)\<rparr>
             else if Aw_Handed A then give T else T)"

definition loop_cancel :: "nat \<Rightarrow> Turn \<Rightarrow> Turn" where
  "loop_cancel h T = T\<lparr>T_Scheduled := filter (\<lambda>x. x \<noteq> h) (T_Scheduled T)\<rparr>"

section \<open>Steps\<close>

text \<open>
  A coroutine takes the turn at once or waits for it, the loop resumes one it was handed to,
  the holder gives it back (also when it is destroyed, by \<^verbatim>\<open>Holding\<close>), or a coroutine is
  destroyed while it waits or after the turn was handed to it.
\<close>

inductive turn_step :: "Turn \<Rightarrow> Turn \<Rightarrow> bool" where
  takes: "await_ready T \<Longrightarrow> T_Awaiters T h = None \<Longrightarrow> h \<notin> T_Holding T \<Longrightarrow>
    turn_step T ((await_resume h T)\<lparr>T_Holding := insert h (T_Holding T)\<rparr>)"
| waits: "\<not> await_ready T \<Longrightarrow> T_Awaiters T h = None \<Longrightarrow> h \<notin> T_Holding T \<Longrightarrow> turn_step T (await_suspend h T)"
| resumed: "h \<in> set (T_Scheduled T) \<Longrightarrow>
    turn_step T ((await_resume h (loop_cancel h T))\<lparr>T_Holding := insert h (T_Holding T)\<rparr>)"
| gives: "h \<in> T_Holding T \<Longrightarrow> turn_step T (give (T\<lparr>T_Holding := T_Holding T - {h}\<rparr>))"
| destroyed: "T_Awaiters T h = Some A \<Longrightarrow> turn_step T (destroy_awaiter h (loop_cancel h T))"

section \<open>Invariant\<close>

definition owners :: "Turn \<Rightarrow> nat set" where
  "owners T = T_Holding T \<union> set (T_Scheduled T)"

definition flags_of :: "Turn \<Rightarrow> nat \<Rightarrow> Awaiter option" where
  "flags_of T h =
     (if h \<in> set (T_Waiting T) then Some \<lparr>Aw_Queued = True, Aw_Handed = False\<rparr>
      else if h \<in> set (T_Scheduled T) then Some \<lparr>Aw_Queued = False, Aw_Handed = True\<rparr>
      else None)"

text \<open>
  The flags of an awaiter say where it is; the turn has at most one owner, has one exactly
  when it is held, and nobody waits for a turn that is free.
\<close>

definition turn_inv :: "Turn \<Rightarrow> bool" where
  "turn_inv T \<longleftrightarrow>
     T_Awaiters T = flags_of T \<and> distinct (T_Waiting T) \<and> set (T_Waiting T) \<inter> owners T = {} \<and>
     (if T_Held T then (\<exists>h. T_Holding T = {h} \<and> T_Scheduled T = [] \<or> T_Holding T = {} \<and> T_Scheduled T = [h])
      else T_Holding T = {} \<and> T_Scheduled T = [] \<and> T_Waiting T = [])"

lemma turn_inv_new: "turn_inv Turn_new"
  by (simp add: turn_inv_def Turn_new_def flags_of_def fun_eq_iff)

text \<open>Handing on: a turn without an owner that is still marked held.\<close>

definition ownerless :: "Turn \<Rightarrow> bool" where
  "ownerless T \<longleftrightarrow> T_Held T \<and> T_Awaiters T = flags_of T \<and> distinct (T_Waiting T) \<and> T_Holding T = {} \<and> T_Scheduled T = []"

lemma give_inv:
  assumes "ownerless T"
  shows "turn_inv (give T)"
proof (cases "T_Waiting T")
  case Nil
  with assms show ?thesis by (simp add: give_def turn_inv_def ownerless_def flags_of_def fun_eq_iff)
next
  case (Cons n ws)
  with assms show ?thesis by (auto simp: give_def turn_inv_def ownerless_def owners_def flags_of_def fun_eq_iff)
qed

lemma turn_inv_holding: "turn_inv T \<Longrightarrow> h \<in> T_Holding T \<Longrightarrow> ownerless (T\<lparr>T_Holding := T_Holding T - {h}\<rparr>)"
  by (auto simp: turn_inv_def ownerless_def flags_of_def fun_eq_iff split: if_splits)

lemma turn_inv_scheduled:
  assumes "turn_inv T" and "h \<in> set (T_Scheduled T)"
  shows "T_Scheduled T = [h]" and "T_Holding T = {}" and "T_Held T" and "h \<notin> set (T_Waiting T)"
    and "T_Awaiters T h = Some \<lparr>Aw_Queued = False, Aw_Handed = True\<rparr>"
  using assms by (auto simp: turn_inv_def owners_def flags_of_def split: if_splits)

lemma turn_inv_step:
  assumes "turn_inv T" and "turn_step T T'"
  shows "turn_inv T'"
  using assms(2,1)
proof cases
  case (takes h)
  with assms(1) show ?thesis
    by (auto simp: turn_inv_def await_ready_def await_resume_def owners_def flags_of_def fun_eq_iff)
next
  case (waits h)
  then have "h \<notin> set (T_Waiting T)" "h \<notin> set (T_Scheduled T)"
    using assms(1) by (auto simp: turn_inv_def flags_of_def split: if_splits)
  with waits assms(1) show ?thesis
    by (auto simp: turn_inv_def await_ready_def await_suspend_def owners_def flags_of_def fun_eq_iff)
next
  case (resumed h)
  note s = turn_inv_scheduled [OF assms(1) resumed(2)]
  with resumed assms(1) show ?thesis
    by (auto simp: turn_inv_def await_resume_def loop_cancel_def owners_def flags_of_def fun_eq_iff)
next
  case (gives h)
  then show ?thesis using give_inv [OF turn_inv_holding [OF assms(1)]] by simp
next
  case (destroyed h A)
  show ?thesis
  proof (cases "h \<in> set (T_Scheduled T)")
    case True
    note s = turn_inv_scheduled [OF assms(1) True]
    have "ownerless ((loop_cancel h T)\<lparr>T_Awaiters := (T_Awaiters T)(h := None)\<rparr>)"
      using s assms(1) by (auto simp: ownerless_def turn_inv_def loop_cancel_def flags_of_def fun_eq_iff)
    from give_inv [OF this] show ?thesis
      using s destroyed(1) by (simp add: destroy_awaiter_def loop_cancel_def Let_def)
  next
    case False
    then have "h \<in> set (T_Waiting T)" "Aw_Queued A"
      using destroyed assms(1) by (auto simp: turn_inv_def flags_of_def split: if_splits)
    then show ?thesis using destroyed assms(1) False
      by (auto simp: turn_inv_def destroy_awaiter_def loop_cancel_def Let_def owners_def flags_of_def fun_eq_iff filter_True
          split: if_splits)
  qed
qed

lemma turn_inv_owners:
  assumes "turn_inv T"
  shows "if T_Held T then \<exists>h. owners T = {h} else owners T = {} \<and> T_Waiting T = []"
    and "distinct (T_Waiting T) \<and> set (T_Waiting T) \<inter> owners T = {}"
  using assms by (auto simp: turn_inv_def owners_def)

interpretation turn: lossless_hand_off Turn_new turn_step turn_inv T_Held owners T_Waiting
proof unfold_locales
  show "turn_inv T \<Longrightarrow> turn_step T T' \<Longrightarrow> turn_inv T'" for T T' by (rule turn_inv_step)
  fix T assume T: "turn_inv T"
  show "x \<in> owners T \<Longrightarrow> y \<in> owners T \<Longrightarrow> x = y" for x y
    using turn_inv_owners(1) [OF T] by (auto split: if_splits)
  show "\<not> T_Held T \<Longrightarrow> owners T = {} \<and> T_Waiting T = []" "T_Held T \<Longrightarrow> owners T \<noteq> {}"
    using turn_inv_owners(1) [OF T] by (auto split: if_splits)
  show "distinct (T_Waiting T) \<and> set (T_Waiting T) \<inter> owners T = {}" by (rule turn_inv_owners(2) [OF T])
qed (rule turn_inv_new)

section \<open>A first-come first-served lock\<close>

type_synonym lock = "nat option \<times> nat list"

inductive lock_step :: "lock \<Rightarrow> lock \<Rightarrow> bool" where
  acquire: "lock_step (None, []) (Some h, [])"
| queue_up: "h \<noteq> x \<Longrightarrow> h \<notin> set q \<Longrightarrow> lock_step (Some x, q) (Some x, q @ [h])"
| pass_on: "lock_step (Some x, h # q) (Some h, q)"
| release: "lock_step (Some x, []) (None, [])"
| leave: "h \<in> set q \<Longrightarrow> lock_step (Some x, q) (Some x, filter (\<lambda>x. x \<noteq> h) q)"

definition owner :: "Turn \<Rightarrow> nat option" where
  "owner T = (case T_Scheduled T of h # _ \<Rightarrow> Some h | [] \<Rightarrow> if T_Holding T = {} then None else Some (the_elem (T_Holding T)))"

definition lock_of :: "Turn \<Rightarrow> lock" where
  "lock_of T = (owner T, T_Waiting T)"

lemma give_lock:
  "ownerless T \<Longrightarrow> lock_step (Some x, T_Waiting T) (lock_of (give T))"
  by (cases "T_Waiting T") (auto simp: give_def ownerless_def lock_of_def owner_def intro: lock_step.intros)

lemma turn_step_lock:
  assumes "turn_inv T" and "turn_step T T'"
  shows "lock_step\<^sup>=\<^sup>= (lock_of T) (lock_of T')"
  using assms(2)
proof cases
  case (takes h)
  then have "lock_of T = (None, [])" "lock_of T' = (Some h, [])"
    using assms(1) by (auto simp: await_ready_def turn_inv_def lock_of_def owner_def await_resume_def)
  then show ?thesis by (simp add: lock_step.acquire)
next
  case (waits h)
  then have q: "h \<notin> set (T_Waiting T)" "h \<notin> owners T" and "T_Held T"
    using assms(1) by (auto simp: await_ready_def turn_inv_def flags_of_def owners_def split: if_splits)
  then obtain x where "owner T = Some x" "h \<noteq> x"
    using assms(1) by (auto simp: turn_inv_def owner_def owners_def)
  moreover have "lock_of T' = (owner T, T_Waiting T @ [h])"
    using waits(1) by (simp add: lock_of_def owner_def await_suspend_def split: list.split)
  ultimately show ?thesis using q by (simp add: lock_of_def lock_step.queue_up)
next
  case (resumed h)
  note s = turn_inv_scheduled [OF assms(1) resumed(2)]
  show ?thesis using resumed(1) s by (simp add: lock_of_def owner_def await_resume_def loop_cancel_def)
next
  case (gives h)
  have "lock_of T = (Some h, T_Waiting T)"
    using gives(2) assms(1) by (auto simp: lock_of_def owner_def turn_inv_def split: if_splits)
  with give_lock [OF turn_inv_holding [OF assms(1) gives(2)]] show ?thesis using gives(1) by simp
next
  case (destroyed h A)
  show ?thesis
  proof (cases "h \<in> set (T_Scheduled T)")
    case True
    note s = turn_inv_scheduled [OF assms(1) True]
    have "ownerless ((loop_cancel h T)\<lparr>T_Awaiters := (T_Awaiters T)(h := None)\<rparr>)"
      using s assms(1) by (auto simp: ownerless_def turn_inv_def loop_cancel_def flags_of_def fun_eq_iff)
    from give_lock [OF this, of h] show ?thesis
      using s destroyed(1) by (simp add: destroy_awaiter_def loop_cancel_def Let_def lock_of_def owner_def)
  next
    case False
    then have w: "h \<in> set (T_Waiting T)" "Aw_Queued A" "T_Held T"
      using destroyed(2) assms(1) by (auto simp: turn_inv_def flags_of_def split: if_splits)
    then obtain x where ow: "owner T = Some x" using assms(1) by (auto simp: turn_inv_def owner_def)
    have "filter (\<lambda>x. x \<noteq> h) (T_Scheduled T) = T_Scheduled T" using False by (intro filter_True) auto
    then have "lock_of T' = (owner T, filter (\<lambda>x. x \<noteq> h) (T_Waiting T))"
      using destroyed w by (simp add: destroy_awaiter_def loop_cancel_def Let_def lock_of_def owner_def split: list.split)
    then show ?thesis using ow w(1) by (simp add: lock_of_def lock_step.leave)
  qed
qed

text \<open>
  C20. Every step any coroutine takes with a turn, from a fresh turn on and including the
  destruction of coroutines that wait or were just handed it, is a step of a first-come
  first-served lock with one owner, or changes nothing of it: the turn goes to the coroutine
  at the head of the queue, arrivals go to its end, and a destroyed coroutine only leaves.
\<close>

theorem turn_fifo_lock:
  assumes "turn_step\<^sup>*\<^sup>* Turn_new T" and "turn_step T T'"
  shows "lock_step\<^sup>=\<^sup>= (lock_of T) (lock_of T')"
  using turn_step_lock [OF turn.reachable_inv assms(2)] assms(1) by (simp add: turn.reachable_def)

definition one_waiting :: Turn where
  "one_waiting = await_suspend 2 ((await_resume 1 Turn_new)\<lparr>T_Holding := {1}\<rparr>)"

lemma one_waiting_reachable: "turn_step\<^sup>*\<^sup>* Turn_new one_waiting"
proof -
  let ?T = "(await_resume 1 Turn_new)\<lparr>T_Holding := {1}\<rparr>"
  have "turn_step Turn_new ?T"
    using takes [of Turn_new 1] by (simp add: Turn_new_def await_ready_def)
  moreover have "turn_step ?T one_waiting"
    using waits [of ?T 2] by (simp add: one_waiting_def Turn_new_def await_ready_def await_resume_def)
  ultimately show ?thesis by (meson rtranclp.simps)
qed

theorem turn_fifo_lock_witness:
  "lock_step\<^sup>=\<^sup>= (Some 1, [2]) (lock_of (give (one_waiting\<lparr>T_Holding := T_Holding one_waiting - {1}\<rparr>)))"
  using turn_fifo_lock [OF one_waiting_reachable gives [of 1]]
  by (simp add: one_waiting_def lock_of_def owner_def await_suspend_def await_resume_def Turn_new_def)

section \<open>Every waiter is served\<close>

text \<open>The one move open to the owner: run, if it has been handed the turn, or give it back.\<close>

definition owner_moves :: "Turn \<Rightarrow> Turn" where
  "owner_moves T =
     (case T_Scheduled T of
        h # _ \<Rightarrow> (await_resume h (loop_cancel h T))\<lparr>T_Holding := insert h (T_Holding T)\<rparr>
      | [] \<Rightarrow> give (T\<lparr>T_Holding := {}\<rparr>))"

lemma owner_moves_step:
  assumes "turn_inv T" and "T_Held T"
  shows "turn_step T (owner_moves T)"
proof (cases "T_Scheduled T")
  case Nil
  then obtain h where h: "T_Holding T = {h}" using assms by (auto simp: turn_inv_def)
  show ?thesis using gives [of h T] Nil h by (simp add: owner_moves_def)
next
  case (Cons h hs)
  then show ?thesis using resumed [of h T] by (simp add: owner_moves_def)
qed

text \<open>Two moves of the owner bring the head of the queue to the turn.\<close>

lemma two_moves:
  assumes "turn_inv T" and "T_Scheduled T = []" and "T_Waiting T = h # ws"
  shows "let T' = owner_moves (owner_moves T) in turn_inv T' \<and> T_Holding T' = {h} \<and> T_Scheduled T' = [] \<and> T_Waiting T' = ws"
proof -
  have held: "T_Held T" using assms by (auto simp: turn_inv_def split: if_splits)
  note inv1 = turn_inv_step [OF assms(1) owner_moves_step [OF assms(1) held]]
  have m: "T_Scheduled (owner_moves T) = [h]" "T_Waiting (owner_moves T) = ws" "T_Holding (owner_moves T) = {}"
    "T_Held (owner_moves T)"
    using assms(2,3) held by (simp_all add: owner_moves_def give_def)
  note inv2 = turn_inv_step [OF inv1 owner_moves_step [OF inv1 m(4)]]
  show ?thesis using inv2 m by (simp add: owner_moves_def [of "owner_moves T"] await_resume_def loop_cancel_def Let_def)
qed

lemma served:
  "turn_inv T \<Longrightarrow> T_Scheduled T = [] \<Longrightarrow> T_Waiting T = ws @ h # us \<Longrightarrow>
     T_Holding ((owner_moves ^^ (2 * length ws + 2)) T) = {h}"
proof (induction ws arbitrary: T)
  case Nil
  then show ?case using two_moves [of T h us] by (simp add: Let_def)
next
  case (Cons w ws)
  let ?T = "owner_moves (owner_moves T)"
  have "turn_inv ?T" "T_Scheduled ?T = []" "T_Waiting ?T = ws @ h # us"
    using two_moves [of T w "ws @ h # us"] Cons.prems by (simp_all add: Let_def)
  from Cons.IH [OF this] show ?case by (simp add: funpow_swap1)
qed

text \<open>
  C34. No turn is lost. In every reachable state in which a coroutine waits, the turn is held
  by exactly one coroutine, or handed to exactly one that the loop will run, whatever was
  destroyed before; and once that one and those ahead of the waiter have each run and given
  the turn back, the waiter holds it, alone.
\<close>

theorem turn_served:
  assumes "turn_step\<^sup>*\<^sup>* Turn_new T" and "T_Waiting T = ws @ h # us"
  shows "(\<exists>x. owners T = {x} \<and> x \<notin> set (T_Waiting T)) \<and>
    (\<exists>n \<le> 2 * length ws + 3. T_Holding ((owner_moves ^^ n) T) = {h})"
proof
  have r: "turn.reachable T" using assms(1) by (simp add: turn.reachable_def)
  show "\<exists>x. owners T = {x} \<and> x \<notin> set (T_Waiting T)" using turn.waiting_owned [OF r] assms(2) by simp
  note inv = turn.reachable_inv [OF r]
  show "\<exists>n \<le> 2 * length ws + 3. T_Holding ((owner_moves ^^ n) T) = {h}"
  proof (cases "T_Scheduled T")
    case Nil
    with served [OF inv Nil assms(2)] show ?thesis by (intro exI [of _ "2 * length ws + 2"]) simp
  next
    case (Cons x xs)
    note s = turn_inv_scheduled [OF inv, of x]
    let ?T = "owner_moves T"
    have "turn_inv ?T" using turn_inv_step [OF inv owner_moves_step [OF inv]] s(3) Cons by simp
    moreover have "T_Scheduled ?T = []" "T_Waiting ?T = ws @ h # us"
      using s(1) Cons assms(2) by (simp_all add: owner_moves_def await_resume_def loop_cancel_def)
    ultimately have "T_Holding ((owner_moves ^^ (2 * length ws + 2)) ?T) = {h}" by (rule served)
    then show ?thesis by (intro exI [of _ "2 * length ws + 3"]) (simp add: numeral_3_eq_3 funpow_swap1)
  qed
qed

theorem turn_served_witness:
  "(\<exists>x. owners one_waiting = {x} \<and> x \<notin> set (T_Waiting one_waiting)) \<and>
   (\<exists>n \<le> 2 * length ([] :: nat list) + 3. T_Holding ((owner_moves ^^ n) one_waiting) = {2})"
  by (rule turn_served [OF one_waiting_reachable, of "[]" 2 "[]"])
    (simp add: one_waiting_def await_suspend_def await_resume_def Turn_new_def)

end
