(* ===== verification/Gate.thy ===== *)
theory Gate
  imports Transition
begin

text \<open>
  \<^verbatim>\<open>vfs::Gate\<close> of \<^verbatim>\<open>include/rail/vfs/remotes.h\<close>: the lock around the socket that replies share.
  It hands its turn on like a turn does, but an awaiter does not know that it was handed the
  turn: it keeps only the handle it queued. The theorems show that at most one coroutine ever
  writes, and that one destroyed between being handed the gate and running closes it for good.
\<close>

section \<open>State and operations\<close>

text \<open>\<open>G_Queued\<close> holds the coroutines whose awaiter is alive with its handle set.\<close>

record Gate =
  G_Held :: bool
  G_Waiting :: "nat list"
  G_Queued :: "nat set"
  G_Scheduled :: "nat list"
  G_Holding :: "nat set"

definition Gate_new :: Gate where
  "Gate_new = \<lparr>G_Held = False, G_Waiting = [], G_Queued = {}, G_Scheduled = [], G_Holding = {}\<rparr>"

definition gate_ready :: "Gate \<Rightarrow> bool" where
  "gate_ready G \<longleftrightarrow> \<not> G_Held G"

definition gate_suspend :: "nat \<Rightarrow> Gate \<Rightarrow> Gate" where
  "gate_suspend h G = G\<lparr>G_Queued := insert h (G_Queued G), G_Waiting := G_Waiting G @ [h]\<rparr>"

definition gate_resume :: "nat \<Rightarrow> Gate \<Rightarrow> Gate" where
  "gate_resume h G = G\<lparr>G_Queued := G_Queued G - {h}, G_Held := True\<rparr>"

definition gate_give :: "Gate \<Rightarrow> Gate" where
  "gate_give G =
     (case G_Waiting G of
        [] \<Rightarrow> G\<lparr>G_Held := False\<rparr>
      | H # ws \<Rightarrow> G\<lparr>G_Waiting := ws, G_Scheduled := G_Scheduled G @ [H]\<rparr>)"

definition gate_destroy :: "nat \<Rightarrow> Gate \<Rightarrow> Gate" where
  "gate_destroy h G =
     (if h \<in> G_Queued G then G\<lparr>G_Waiting := filter (\<lambda>x. x \<noteq> h) (G_Waiting G), G_Queued := G_Queued G - {h}\<rparr> else G)"

definition gate_cancel :: "nat \<Rightarrow> Gate \<Rightarrow> Gate" where
  "gate_cancel h G = G\<lparr>G_Scheduled := filter (\<lambda>x. x \<noteq> h) (G_Scheduled G)\<rparr>"

section \<open>Steps\<close>

inductive gate_step :: "Gate \<Rightarrow> Gate \<Rightarrow> bool" where
  takes: "gate_ready G \<Longrightarrow> h \<notin> G_Queued G \<Longrightarrow> h \<notin> G_Holding G \<Longrightarrow>
    gate_step G ((gate_resume h G)\<lparr>G_Holding := insert h (G_Holding G)\<rparr>)"
| waits: "\<not> gate_ready G \<Longrightarrow> h \<notin> G_Queued G \<Longrightarrow> h \<notin> G_Holding G \<Longrightarrow> gate_step G (gate_suspend h G)"
| resumed: "h \<in> set (G_Scheduled G) \<Longrightarrow>
    gate_step G ((gate_resume h (gate_cancel h G))\<lparr>G_Holding := insert h (G_Holding G)\<rparr>)"
| gives: "h \<in> G_Holding G \<Longrightarrow> gate_step G (gate_give (G\<lparr>G_Holding := G_Holding G - {h}\<rparr>))"
| destroyed: "h \<in> G_Queued G \<Longrightarrow> gate_step G (gate_destroy h (gate_cancel h G))"

section \<open>Exclusion\<close>

definition gate_owners :: "Gate \<Rightarrow> nat set" where
  "gate_owners G = G_Holding G \<union> set (G_Scheduled G)"

definition gate_inv :: "Gate \<Rightarrow> bool" where
  "gate_inv G \<longleftrightarrow>
     G_Queued G = set (G_Waiting G) \<union> set (G_Scheduled G) \<and> distinct (G_Waiting G) \<and>
     set (G_Waiting G) \<inter> gate_owners G = {} \<and>
     (G_Holding G = {} \<and> (\<exists>h. G_Scheduled G = [] \<or> G_Scheduled G = [h]) \<or> (\<exists>h. G_Holding G = {h} \<and> G_Scheduled G = [])) \<and>
     (\<not> G_Held G \<longrightarrow> G_Holding G = {} \<and> G_Scheduled G = [] \<and> G_Waiting G = [])"

lemma gate_inv_step:
  assumes "gate_inv G" and "gate_step G G'"
  shows "gate_inv G'"
  using assms(2)
proof cases
  case (takes h)
  with assms(1) show ?thesis by (auto simp: gate_inv_def gate_owners_def gate_ready_def gate_resume_def)
next
  case (waits h)
  with assms(1) show ?thesis by (auto simp: gate_inv_def gate_owners_def gate_ready_def gate_suspend_def)
next
  case (resumed h)
  with assms(1) show ?thesis by (auto simp: gate_inv_def gate_owners_def gate_resume_def gate_cancel_def)
next
  case (gives h)
  with assms(1) show ?thesis
    by (cases "G_Waiting G") (auto simp: gate_inv_def gate_owners_def gate_give_def)
next
  case (destroyed h)
  with assms(1) show ?thesis by (auto simp: gate_inv_def gate_owners_def gate_destroy_def gate_cancel_def)
qed

lemma gate_inv_owners:
  assumes "gate_inv G"
  shows "x \<in> gate_owners G \<Longrightarrow> y \<in> gate_owners G \<Longrightarrow> x = y"
    and "\<not> G_Held G \<Longrightarrow> gate_owners G = {} \<and> G_Waiting G = []"
    and "distinct (G_Waiting G) \<and> set (G_Waiting G) \<inter> gate_owners G = {}"
  using assms by (auto simp: gate_inv_def gate_owners_def)

interpretation gate: hand_off Gate_new gate_step gate_inv G_Held gate_owners G_Waiting
proof unfold_locales
  show "gate_inv Gate_new" by (simp add: gate_inv_def gate_owners_def Gate_new_def)
  show "gate_inv G \<Longrightarrow> gate_step G G' \<Longrightarrow> gate_inv G'" for G G' by (rule gate_inv_step)
qed (fact gate_inv_owners)+

text \<open>
  Whatever coroutines take, wait for, give back and are destroyed over a gate, at most one
  holds it or has been handed it at any time: two handlers never write to the socket at once.
\<close>

theorem gate_exclusive:
  assumes "gate_step\<^sup>*\<^sup>* Gate_new G" and "x \<in> gate_owners G" and "y \<in> gate_owners G"
  shows "x = y"
  using gate.exclusive assms by (simp add: gate.reachable_def)

lemma gate_first: "gate_step\<^sup>*\<^sup>* Gate_new ((gate_resume 1 Gate_new)\<lparr>G_Holding := {1}\<rparr>)"
  using takes [of Gate_new 1] by (simp add: Gate_new_def gate_ready_def)

theorem gate_exclusive_witness:
  "1 \<in> gate_owners ((gate_resume 1 Gate_new)\<lparr>G_Holding := {1}\<rparr>) \<and> (1 :: nat) = 1"
  using gate_exclusive [OF gate_first, of 1 1] by (simp add: gate_owners_def)

section \<open>A lost turn\<close>

definition lost :: "Gate \<Rightarrow> bool" where
  "lost G \<longleftrightarrow> G_Held G \<and> G_Holding G = {} \<and> G_Scheduled G = []"

lemma lost_step: "lost G \<Longrightarrow> gate_step G G' \<Longrightarrow> lost G'"
  by (erule gate_step.cases) (auto simp: lost_def gate_ready_def gate_suspend_def gate_destroy_def gate_cancel_def)

lemma lost_steps:
  assumes "gate_step\<^sup>*\<^sup>* G G'" and "lost G"
  shows "lost G'"
  using assms by (induction rule: rtranclp_induct) (auto intro: lost_step)

text \<open>
  The gate can be closed for good: a coroutine that is destroyed after the gate was handed
  to it and before the loop ran it takes the turn with it. From the state that run ends in,
  the gate stays marked as held and no coroutine ever holds it again, whatever happens.
\<close>

theorem gate_turn_lost:
  "\<exists>G. gate_step\<^sup>*\<^sup>* Gate_new G \<and> (\<forall>G'. gate_step\<^sup>*\<^sup>* G G' \<longrightarrow> G_Held G' \<and> gate_owners G' = {})"
proof -
  let ?G1 = "(gate_resume 1 Gate_new)\<lparr>G_Holding := {1}\<rparr>"
  let ?G2 = "gate_suspend 2 ?G1"
  let ?G3 = "gate_give (?G2\<lparr>G_Holding := {}\<rparr>)"
  let ?G4 = "gate_destroy 2 (gate_cancel 2 ?G3)"
  have "gate_step ?G1 ?G2"
    using waits [of ?G1 2] by (simp add: Gate_new_def gate_ready_def gate_resume_def)
  moreover have "gate_step ?G2 ?G3"
    using gives [of 1 ?G2] by (simp add: gate_suspend_def)
  moreover have "gate_step ?G3 ?G4"
    using destroyed [of 2 ?G3] by (simp add: gate_suspend_def gate_give_def gate_resume_def Gate_new_def)
  ultimately have "gate_step\<^sup>*\<^sup>* Gate_new ?G4" by (rule rtranclp.intros(2) [OF rtranclp.intros(2) [OF rtranclp.intros(2) [OF gate_first]]])
  moreover have "lost ?G4"
    by (simp add: lost_def gate_suspend_def gate_give_def gate_resume_def gate_destroy_def gate_cancel_def Gate_new_def)
  then have "gate_step\<^sup>*\<^sup>* ?G4 G' \<Longrightarrow> G_Held G' \<and> gate_owners G' = {}" for G'
    using lost_steps [of ?G4 G'] by (simp add: lost_def gate_owners_def)
  ultimately show ?thesis by blast
qed

theorem gate_turn_lost_witness:
  "\<exists>G. gate_step\<^sup>*\<^sup>* Gate_new G \<and> G_Held G \<and> gate_owners G = {} \<and> \<not> gate_ready G"
  using gate_turn_lost by (fastforce simp: gate_ready_def)

end
