(* ===== verification/Memory.thy ===== *)
theory Memory
  imports Transition
begin

text \<open>
  \<^verbatim>\<open>src/memory.cc\<close>: registered memory, handed out as runs of whole frames by first fit. An
  address is a number, a region is known by its position, and what \<^verbatim>\<open>posix_memalign\<close> and the
  registration with the devices answer is an argument of the operations that call them. Sizes
  in bytes are 64-bit words, since \<^verbatim>\<open>framesFor\<close> computes with them. The theorems show that
  the runs that are out never overlap, whichever threads allocate, grow and release, that a
  request is only refused when it has to be, and where the arithmetic wraps around.
\<close>

section \<open>Regions, pages and runs\<close>

record MemoryRegion =
  MR_Base :: nat
  MR_Length :: u64
  MR_Taken :: "bool list"
  MR_Used :: nat

record MemoryStats =
  Allocated :: nat
  Direct :: nat
  Copied :: nat
  Exhausted :: nat
  RegionsGrown :: nat

record Page =
  Pg_Ptr :: "nat option"
  Pg_Len :: nat
  Pg_Capacity :: nat
  Pg_Home :: "nat option"
  Pg_Hook :: bool
  Pg_Index :: nat

definition Page_null :: Page where
  "Page_null = \<lparr>Pg_Ptr = None, Pg_Len = 0, Pg_Capacity = 0, Pg_Home = None, Pg_Hook = False, Pg_Index = 0\<rparr>"

definition Page_resize :: "nat \<Rightarrow> Page \<Rightarrow> Page" where
  "Page_resize N P = P\<lparr>Pg_Len := (if N < Pg_Capacity P then N else Pg_Capacity P)\<rparr>"

record Run =
  Run_Ptr :: "nat option"
  Run_Length :: nat
  Run_Home :: "nat option"
  Run_First :: nat
  Run_Frames :: nat
  Run_Owner :: bool

definition Run_null :: Run where
  "Run_null = \<lparr>Run_Ptr = None, Run_Length = 0, Run_Home = None, Run_First = 0, Run_Frames = 0, Run_Owner = False\<rparr>"

definition Run_valid :: "Run \<Rightarrow> bool" where
  "Run_valid R \<longleftrightarrow> Run_Ptr R \<noteq> None"

definition borrow :: "nat \<Rightarrow> nat \<Rightarrow> Run \<Rightarrow> Page" where
  "borrow Offset Bytes R =
     (case Run_Ptr R of
        None \<Rightarrow> Page_null
      | Some P \<Rightarrow>
          if Offset > Run_Length R \<or> Bytes > Run_Length R - Offset then Page_null
          else \<lparr>Pg_Ptr = Some (P + Offset), Pg_Len = Bytes, Pg_Capacity = Bytes, Pg_Home = Run_Home R, Pg_Hook = False, Pg_Index = 0\<rparr>)"

section \<open>The allocator\<close>

record Memory =
  M_Regions :: "MemoryRegion list"
  M_RegionBytes :: u64
  M_FrameSize :: u64
  M_RegionCeiling :: nat
  M_Stats :: MemoryStats

definition framesFor :: "u64 \<Rightarrow> u64 \<Rightarrow> u64" where
  "framesFor Bytes FrameSize = (Bytes + FrameSize - 1) div FrameSize"

definition mark :: "bool \<Rightarrow> nat \<Rightarrow> nat \<Rightarrow> bool list \<Rightarrow> bool list" where
  "mark b First Frames Taken = fold (\<lambda>J ts. ts[J := b]) [First..<First + Frames] Taken"

text \<open>The first frame of the first gap of \<open>Frames\<close> free frames; \<open>Consecutive\<close> are free before \<open>I\<close>.\<close>

fun take_scan :: "nat \<Rightarrow> bool list \<Rightarrow> nat \<Rightarrow> nat \<Rightarrow> nat option" where
  "take_scan Frames [] I Consecutive = None"
| "take_scan Frames (t # ts) I Consecutive =
     (let Consecutive = (if t then 0 else Consecutive + 1)
      in if Consecutive < Frames then take_scan Frames ts (I + 1) Consecutive else Some (I + 1 - Frames))"

definition take_region :: "nat \<Rightarrow> MemoryRegion \<Rightarrow> nat option" where
  "take_region Frames One =
     (if Frames > length (MR_Taken One) - MR_Used One then None else take_scan Frames (MR_Taken One) 0 0)"

fun take_regions :: "nat \<Rightarrow> nat \<Rightarrow> MemoryRegion list \<Rightarrow> (nat \<times> nat) option" where
  "take_regions Frames k [] = None"
| "take_regions Frames k (One # Rest) =
     (case take_region Frames One of
        Some First \<Rightarrow> Some (k, First)
      | None \<Rightarrow> take_regions Frames (k + 1) Rest)"

definition occupy :: "nat \<Rightarrow> nat \<Rightarrow> MemoryRegion \<Rightarrow> MemoryRegion" where
  "occupy First Frames One = One\<lparr>MR_Taken := mark True First Frames (MR_Taken One), MR_Used := MR_Used One + Frames\<rparr>"

definition takeLocked :: "nat \<Rightarrow> Memory \<Rightarrow> Run \<times> Memory" where
  "takeLocked Frames M =
     (case take_regions Frames 0 (M_Regions M) of
        None \<Rightarrow> (Run_null, M)
      | Some (k, First) \<Rightarrow>
          let One = M_Regions M ! k
          in (\<lparr>Run_Ptr = Some (MR_Base One + First * unat (M_FrameSize M)), Run_Length = Frames * unat (M_FrameSize M),
               Run_Home = Some k, Run_First = First, Run_Frames = Frames, Run_Owner = True\<rparr>,
              M\<lparr>M_Regions := (M_Regions M)[k := occupy First Frames One],
                M_Stats := (M_Stats M)\<lparr>Allocated := Allocated (M_Stats M) + 1\<rparr>\<rparr>))"

text \<open>\<open>base\<close> is the address of the new block, if both the allocation and the registration succeed.\<close>

definition build :: "nat option \<Rightarrow> Memory \<Rightarrow> MemoryRegion option" where
  "build base M =
     map_option (\<lambda>b. \<lparr>MR_Base = b, MR_Length = M_RegionBytes M,
       MR_Taken = replicate (unat (M_RegionBytes M div M_FrameSize M)) False, MR_Used = 0\<rparr>) base"

definition push_region :: "MemoryRegion \<Rightarrow> Memory \<Rightarrow> Memory" where
  "push_region Fresh M = M\<lparr>M_Regions := M_Regions M @ [Fresh],
     M_Stats := (M_Stats M)\<lparr>RegionsGrown := RegionsGrown (M_Stats M) + 1\<rparr>\<rparr>"

definition growLocked :: "nat option \<Rightarrow> Memory \<Rightarrow> bool \<times> Memory" where
  "growLocked base M =
     (if length (M_Regions M) \<ge> M_RegionCeiling M then (False, M)
      else case build base M of
        None \<Rightarrow> (False, M)
      | Some Fresh \<Rightarrow> (True, push_region Fresh M))"

definition Memory_new :: "nat option \<Rightarrow> nat \<Rightarrow> u64 \<Rightarrow> u64 \<Rightarrow> Memory option" where
  "Memory_new base Regions RegionBytes FrameSize =
     (case growLocked base \<lparr>M_Regions = [], M_RegionBytes = RegionBytes, M_FrameSize = FrameSize, M_RegionCeiling = Regions,
         M_Stats = \<lparr>Allocated = 0, Direct = 0, Copied = 0, Exhausted = 0, RegionsGrown = 0\<rparr>\<rparr> of
        (True, M) \<Rightarrow> Some M
      | (False, _) \<Rightarrow> None)"

definition exhausted :: "Memory \<Rightarrow> Memory" where
  "exhausted M = M\<lparr>M_Stats := (M_Stats M)\<lparr>Exhausted := Exhausted (M_Stats M) + 1\<rparr>\<rparr>"

text \<open>A whole allocation with no other thread between its locked sections.\<close>

definition alloc :: "nat option \<Rightarrow> u64 \<Rightarrow> Memory \<Rightarrow> Run \<times> Memory" where
  "alloc base Bytes M =
     (if Bytes = 0 then (Run_null, M)
      else let Frames = framesFor Bytes (M_FrameSize M)
      in if Frames > M_RegionBytes M div M_FrameSize M then (Run_null, exhausted M)
      else let (Mine, M) = takeLocked (unat Frames) M
      in if Run_valid Mine then (Mine, M)
      else let (Mine, M) = takeLocked (unat Frames) M
      in if Run_valid Mine then (Mine, M)
      else case growLocked base M of
        (False, M) \<Rightarrow> (Run_null, exhausted M)
      | (True, M) \<Rightarrow>
          let (Mine, M) = takeLocked (unat Frames) M
          in if Run_valid Mine then (Mine, M) else (Mine, exhausted M))"

definition vacate :: "nat \<Rightarrow> nat \<Rightarrow> MemoryRegion \<Rightarrow> MemoryRegion" where
  "vacate First Frames R = R\<lparr>MR_Taken := mark False First Frames (MR_Taken R), MR_Used := MR_Used R - Frames\<rparr>"

definition release :: "nat \<Rightarrow> nat \<Rightarrow> nat \<Rightarrow> Memory \<Rightarrow> Memory" where
  "release k First Frames M = M\<lparr>M_Regions := (M_Regions M)[k := vacate First Frames (M_Regions M ! k)]\<rparr>"

text \<open>A run gives its frames back when it is destroyed or assigned over; one moved from owns none.\<close>

definition Run_destroy :: "Run \<Rightarrow> Memory \<Rightarrow> Memory" where
  "Run_destroy R M = (if Run_Owner R then release (the (Run_Home R)) (Run_First R) (Run_Frames R) M else M)"

definition Run_assign :: "Run \<Rightarrow> Run \<Rightarrow> Memory \<Rightarrow> Run \<times> Run \<times> Memory" where
  "Run_assign R Other M = (Other, Run_null, Run_destroy R M)"

definition freeFrames :: "Memory \<Rightarrow> nat" where
  "freeFrames M = sum_list (map (\<lambda>One. length (filter Not (MR_Taken One))) (M_Regions M))"

definition totalFrames :: "Memory \<Rightarrow> nat" where
  "totalFrames M = sum_list (map (\<lambda>One. length (MR_Taken One)) (M_Regions M))"

definition countDirect :: "Memory \<Rightarrow> Memory" where
  "countDirect M = M\<lparr>M_Stats := (M_Stats M)\<lparr>Direct := Direct (M_Stats M) + 1\<rparr>\<rparr>"

definition countCopied :: "Memory \<Rightarrow> Memory" where
  "countCopied M = M\<lparr>M_Stats := (M_Stats M)\<lparr>Copied := Copied (M_Stats M) + 1\<rparr>\<rparr>"

definition kMaxRegions :: nat where
  "kMaxRegions = 64"

definition kReclaimableShare :: nat where
  "kReclaimableShare = 4"

definition regionsThatFit :: "nat \<Rightarrow> nat \<Rightarrow> nat" where
  "regionsThatFit Available RegionBytes =
     (if RegionBytes = 0 then 1
      else let Fits = (Available div kReclaimableShare) div RegionBytes
           in if Fits < 1 then 1 else if Fits > kMaxRegions then kMaxRegions else Fits)"

section \<open>Gaps\<close>

lemma length_mark [simp]: "length (mark b First Frames ts) = length ts"
proof -
  have "length (fold (\<lambda>J ts. ts[J := b]) js ts) = length ts" for js by (induction js arbitrary: ts) simp_all
  then show ?thesis by (simp add: mark_def)
qed

lemma nth_mark: "k < length ts \<Longrightarrow> mark b First Frames ts ! k = (if First \<le> k \<and> k < First + Frames then b else ts ! k)"
proof -
  have "k < length ts \<Longrightarrow> fold (\<lambda>J ts. ts[J := b]) js ts ! k = (if k \<in> set js then b else ts ! k)" for js
    by (induction js arbitrary: ts) (auto simp: nth_list_update)
  then show "k < length ts \<Longrightarrow> ?thesis" by (simp add: mark_def)
qed

text \<open>\<open>gap\<close>: all frames of the run lie in the region and are free.\<close>

definition gap :: "nat \<Rightarrow> nat \<Rightarrow> bool list \<Rightarrow> bool" where
  "gap First Frames ts \<longleftrightarrow> First + Frames \<le> length ts \<and> (\<forall>k. First \<le> k \<longrightarrow> k < First + Frames \<longrightarrow> \<not> ts ! k)"

text \<open>
  What the scan has seen: the last \<open>c\<close> frames before \<open>I\<close> are free, no gap ends before \<open>I\<close>, and
  the streak is as long as it can be.
\<close>

definition scan_at :: "nat \<Rightarrow> bool list \<Rightarrow> nat \<Rightarrow> nat \<Rightarrow> bool" where
  "scan_at Frames ts I c \<longleftrightarrow>
     c \<le> I \<and> I \<le> length ts \<and> c < Frames \<and> (\<forall>k. I - c \<le> k \<longrightarrow> k < I \<longrightarrow> \<not> ts ! k) \<and>
     (c < I \<longrightarrow> ts ! (I - c - 1)) \<and> (\<forall>F. F + Frames \<le> I \<longrightarrow> \<not> gap F Frames ts)"

lemma scan_next:
  assumes "scan_at Frames ts I c" and "I < length ts"
  defines "c' \<equiv> if ts ! I then 0 else c + 1"
  shows "if c' < Frames then scan_at Frames ts (I + 1) c'
    else gap (I + 1 - Frames) Frames ts \<and> Frames \<le> I + 1 \<and> (\<forall>F < I + 1 - Frames. \<not> gap F Frames ts)"
proof -
  have s: "c \<le> I" "c < Frames" "\<And>k. I - c \<le> k \<Longrightarrow> k < I \<Longrightarrow> \<not> ts ! k" "c < I \<Longrightarrow> ts ! (I - c - 1)"
    "\<And>F. F + Frames \<le> I \<Longrightarrow> \<not> gap F Frames ts"
    using assms(1) by (auto simp: scan_at_def)
  show ?thesis
  proof (cases "c' < Frames")
    case True
    have g: "\<not> gap F Frames ts" if F: "F + Frames \<le> I + 1" for F
    proof (cases "F + Frames \<le> I")
      case False
      then have e: "F + Frames = I + 1" using F by simp
      show ?thesis
      proof (cases "ts ! I")
        case t: True
        have "F \<le> I" "I < F + Frames" using e s(2) by auto
        with t show ?thesis unfolding gap_def by blast
      next
        case f: False
        then have "c + 1 < Frames" using True by (simp add: c'_def)
        then have "c < I" "F \<le> I - c - 1" "I - c - 1 < F + Frames" using e by auto
        with s(4) show ?thesis unfolding gap_def by blast
      qed
    qed (use s(5) in blast)
    have f: "\<not> ts ! k" if "I + 1 - c' \<le> k" "k < I + 1" for k
      using that s(3) [of k] by (cases "k = I") (auto simp: c'_def split: if_splits)
    have l: "c' < I + 1 \<Longrightarrow> ts ! (I + 1 - c' - 1)" using s(4) by (auto simp: c'_def split: if_splits)
    have "c' \<le> I + 1" using s(1) by (simp add: c'_def)
    then have "scan_at Frames ts (I + 1) c'"
      unfolding scan_at_def using True assms(2) g f l by (intro conjI allI impI) simp_all
    with True show ?thesis by simp
  next
    case False
    then have c: "\<not> ts ! I" "Frames = c + 1" using s(2) by (auto simp: c'_def split: if_splits)
    have "gap (I + 1 - Frames) Frames ts"
      unfolding gap_def using c s(1,3) assms(2) by (auto simp: less_Suc_eq)
    moreover have "\<not> gap F Frames ts" if "F < I + 1 - Frames" for F
      using s(5) [of F] that c(2) s(1) by simp
    ultimately show ?thesis using False c(2) s(1) by simp
  qed
qed

lemma take_scan_from:
  "scan_at Frames ts I c \<Longrightarrow>
     (case take_scan Frames (drop I ts) I c of
        None \<Rightarrow> (\<forall>F. \<not> gap F Frames ts)
      | Some F \<Rightarrow> gap F Frames ts \<and> (\<forall>F' < F. \<not> gap F' Frames ts))"
proof (induction "length ts - I" arbitrary: I c)
  case 0
  then have "I = length ts" by (simp add: scan_at_def)
  with 0 show ?case by (auto simp: scan_at_def gap_def)
next
  case (Suc n)
  then have I: "I < length ts" by simp
  then have d: "drop I ts = ts ! I # drop (I + 1) ts" by (simp add: Cons_nth_drop_Suc)
  show ?case using scan_next [OF Suc.prems I] Suc.hyps(1) [of "I + 1"] Suc.hyps(2) unfolding d
    by (auto simp: Let_def split: if_splits option.splits)
qed

lemma take_scan_gap:
  assumes "0 < Frames"
  shows "case take_scan Frames ts 0 0 of
      None \<Rightarrow> (\<forall>F. \<not> gap F Frames ts)
    | Some F \<Rightarrow> gap F Frames ts \<and> (\<forall>F' < F. \<not> gap F' Frames ts)"
  using take_scan_from [of Frames ts 0 0] assms by (simp add: scan_at_def gap_def)

text \<open>Also for a request of no frames at all, which the scan answers with frame one.\<close>

lemma take_scan_some: "take_scan Frames ts 0 0 = Some F \<Longrightarrow> gap F Frames ts"
  using take_scan_gap [of Frames ts] by (cases "Frames = 0"; cases ts) (auto simp: gap_def Let_def split: if_splits)

section \<open>Regions stay consistent\<close>

definition taken_count :: "bool list \<Rightarrow> nat" where
  "taken_count ts = card {k. k < length ts \<and> ts ! k}"

lemma taken_count_mark:
  assumes "First + Frames \<le> length ts"
  shows "(\<forall>k. First \<le> k \<longrightarrow> k < First + Frames \<longrightarrow> \<not> ts ! k) \<Longrightarrow> taken_count (mark True First Frames ts) = taken_count ts + Frames"
    and "(\<forall>k. First \<le> k \<longrightarrow> k < First + Frames \<longrightarrow> ts ! k) \<Longrightarrow> taken_count (mark False First Frames ts) + Frames = taken_count ts"
proof -
  let ?T = "{k. k < length ts \<and> ts ! k}" and ?R = "{First..<First + Frames}"
  have fin: "finite ?T" "finite ?R" by simp_all
  show "taken_count (mark True First Frames ts) = taken_count ts + Frames"
    if "\<forall>k. First \<le> k \<longrightarrow> k < First + Frames \<longrightarrow> \<not> ts ! k"
  proof -
    have "{k. k < length ts \<and> mark True First Frames ts ! k} = ?T \<union> ?R" using assms by (auto simp: nth_mark)
    moreover have "?T \<inter> ?R = {}" using that by auto
    ultimately show ?thesis using card_Un_disjoint [OF fin] by (simp add: taken_count_def)
  qed
  show "taken_count (mark False First Frames ts) + Frames = taken_count ts"
    if "\<forall>k. First \<le> k \<longrightarrow> k < First + Frames \<longrightarrow> ts ! k"
  proof -
    have "{k. k < length ts \<and> mark False First Frames ts ! k} = ?T - ?R" using assms by (auto simp: nth_mark split: if_splits)
    moreover have "?R \<subseteq> ?T" using assms that by auto
    ultimately show ?thesis
      using card_Diff_subset [OF fin(2)] card_mono [OF fin(1), of ?R] by (simp add: taken_count_def)
  qed
qed

lemma taken_count_le: "taken_count ts \<le> length ts"
  unfolding taken_count_def using card_mono [of "{..<length ts}" "{k. k < length ts \<and> ts ! k}"] by auto

lemma gap_fits:
  assumes "gap First Frames ts"
  shows "Frames \<le> length ts - taken_count ts"
proof -
  have "taken_count ts + Frames \<le> length ts"
    using taken_count_mark(1) [of First Frames ts] taken_count_le [of "mark True First Frames ts"] assms by (simp add: gap_def)
  then show ?thesis by simp
qed

definition region_ok :: "MemoryRegion \<Rightarrow> bool" where
  "region_ok R \<longleftrightarrow> MR_Used R = taken_count (MR_Taken R)"

lemma region_ok_occupy: "region_ok R \<Longrightarrow> gap First Frames (MR_Taken R) \<Longrightarrow> region_ok (occupy First Frames R)"
  using taken_count_mark(1) by (simp add: region_ok_def occupy_def gap_def)

text \<open>The count of used frames only saves the scan of a region that is too full.\<close>

lemma take_region_gap:
  assumes "region_ok R" and "0 < Frames"
  shows "case take_region Frames R of
      None \<Rightarrow> (\<forall>F. \<not> gap F Frames (MR_Taken R))
    | Some F \<Rightarrow> gap F Frames (MR_Taken R) \<and> (\<forall>F' < F. \<not> gap F' Frames (MR_Taken R))"
proof (cases "Frames > length (MR_Taken R) - MR_Used R")
  case True
  then have "\<not> gap F Frames (MR_Taken R)" for F using gap_fits [of F] assms(1) by (fastforce simp: region_ok_def)
  with True show ?thesis by (simp add: take_region_def)
next
  case False
  with take_scan_gap [OF assms(2), of "MR_Taken R"] show ?thesis by (simp add: take_region_def)
qed

lemma take_regions_some:
  "take_regions Frames k Rs = Some (i, F) \<Longrightarrow> k \<le> i \<and> i < k + length Rs \<and> take_region Frames (Rs ! (i - k)) = Some F"
proof (induction Rs arbitrary: k)
  case Nil
  then show ?case by simp
next
  case (Cons R Rs)
  then show ?case
    by (cases "take_region Frames R") (use Cons.IH [of "k + 1"] in \<open>fastforce simp: nth_Cons' Suc_le_eq\<close>)+
qed

lemma take_regions_gap:
  assumes "0 < Frames" and "\<forall>R \<in> set Rs. region_ok R"
  shows "case take_regions Frames k Rs of
      None \<Rightarrow> (\<forall>j < length Rs. \<forall>F. \<not> gap F Frames (MR_Taken (Rs ! j)))
    | Some (i, F) \<Rightarrow> gap F Frames (MR_Taken (Rs ! (i - k))) \<and> k \<le> i \<and> i < k + length Rs \<and>
        (\<forall>j F'. j + k < i \<or> j + k = i \<and> F' < F \<longrightarrow> \<not> gap F' Frames (MR_Taken (Rs ! j)))"
  using assms(2)
proof (induction Rs arbitrary: k)
  case Nil
  then show ?case by simp
next
  case (Cons R Rs)
  have R: "region_ok R" using Cons.prems by simp
  show ?case
  proof (cases "take_region Frames R")
    case None
    with take_region_gap [OF R assms(1)] have n: "\<not> gap F Frames (MR_Taken R)" for F by simp
    have IH: "case take_regions Frames (k + 1) Rs of
        None \<Rightarrow> (\<forall>j < length Rs. \<forall>F. \<not> gap F Frames (MR_Taken (Rs ! j)))
      | Some (i, F) \<Rightarrow> gap F Frames (MR_Taken (Rs ! (i - (k + 1)))) \<and> k + 1 \<le> i \<and> i < k + 1 + length Rs \<and>
          (\<forall>j F'. j + (k + 1) < i \<or> j + (k + 1) = i \<and> F' < F \<longrightarrow> \<not> gap F' Frames (MR_Taken (Rs ! j)))"
      by (rule Cons.IH) (use Cons.prems in simp)
    then show ?thesis
    proof (cases "take_regions Frames (k + 1) Rs")
      case None': None
      with IH None n show ?thesis by (auto simp: nth_Cons' less_Suc_eq_0_disj)
    next
      case (Some p)
      then obtain i F where p: "p = (i, F)" by fastforce
      have "\<not> gap F' Frames (MR_Taken ((R # Rs) ! j))" if "j + k < i \<or> j + k = i \<and> F' < F" for j F'
        using IH Some p n that by (cases j) auto
      with IH Some p None show ?thesis by (auto simp: nth_Cons')
    qed
  next
    case (Some F)
    with take_region_gap [OF R assms(1)] show ?thesis by auto
  qed
qed

section \<open>Threads\<close>

text \<open>
  Threads interleave at the locks: a run is taken or given back while \<^verbatim>\<open>Lock\<close> is held; a
  thread that grows the memory holds \<^verbatim>\<open>Growing\<close> from the check of the ceiling to the push of
  the new region, and lets others take and release in between.
\<close>

record mem_system =
  S_Memory :: Memory
  S_Live :: "Run list"
  S_Growing :: bool

inductive mem_step :: "mem_system \<Rightarrow> mem_system \<Rightarrow> bool" where
  taken: "takeLocked Frames (S_Memory S) = (R, M) \<Longrightarrow> Run_valid R \<Longrightarrow>
    mem_step S (S\<lparr>S_Memory := M, S_Live := R # S_Live S\<rparr>)"
| refused: "mem_step S (S\<lparr>S_Memory := exhausted (S_Memory S)\<rparr>)"
| destroyed: "R \<in> set (S_Live S) \<Longrightarrow>
    mem_step S (S\<lparr>S_Memory := Run_destroy R (S_Memory S), S_Live := remove1 R (S_Live S)\<rparr>)"
| grow_begins: "\<not> S_Growing S \<Longrightarrow> length (M_Regions (S_Memory S)) < M_RegionCeiling (S_Memory S) \<Longrightarrow>
    mem_step S (S\<lparr>S_Growing := True\<rparr>)"
| grow_fails: "S_Growing S \<Longrightarrow> mem_step S (S\<lparr>S_Growing := False\<rparr>)"
| grown: "S_Growing S \<Longrightarrow> build base (S_Memory S) = Some Fresh \<Longrightarrow>
    mem_step S (S\<lparr>S_Memory := push_region Fresh (S_Memory S), S_Growing := False\<rparr>)"

definition covers :: "nat \<Rightarrow> nat \<Rightarrow> Run \<Rightarrow> bool" where
  "covers i k R \<longleftrightarrow> Run_Home R = Some i \<and> Run_First R \<le> k \<and> k < Run_First R + Run_Frames R"

definition in_region :: "Memory \<Rightarrow> Run \<Rightarrow> bool" where
  "in_region M R \<longleftrightarrow> Run_Owner R \<and>
     (\<exists>i < length (M_Regions M). Run_Home R = Some i \<and> Run_First R + Run_Frames R \<le> length (MR_Taken (M_Regions M ! i)) \<and>
        Run_Ptr R = Some (MR_Base (M_Regions M ! i) + Run_First R * unat (M_FrameSize M)) \<and>
        Run_Length R = Run_Frames R * unat (M_FrameSize M))"

lemma in_region_mono:
  assumes "in_region M R" and "length (M_Regions M) \<le> length (M_Regions M')" and "M_FrameSize M' = M_FrameSize M"
    and "\<And>i. i < length (M_Regions M) \<Longrightarrow> MR_Base (M_Regions M' ! i) = MR_Base (M_Regions M ! i) \<and>
      length (MR_Taken (M_Regions M' ! i)) = length (MR_Taken (M_Regions M ! i))"
  shows "in_region M' R"
proof -
  obtain i where "i < length (M_Regions M)" "Run_Owner R" "Run_Home R = Some i"
    "Run_First R + Run_Frames R \<le> length (MR_Taken (M_Regions M ! i))"
    "Run_Ptr R = Some (MR_Base (M_Regions M ! i) + Run_First R * unat (M_FrameSize M))"
    "Run_Length R = Run_Frames R * unat (M_FrameSize M)"
    using assms(1) by (auto simp: in_region_def)
  then show ?thesis unfolding in_region_def using assms(2,3) assms(4) [of i] by (intro conjI exI [of _ i]) simp_all
qed

text \<open>
  Every frame is marked taken exactly when one run covers it, no frame is covered twice, and
  the used frames are those of the runs that are out.
\<close>

definition region_inv :: "Memory \<Rightarrow> Run list \<Rightarrow> nat \<Rightarrow> bool" where
  "region_inv M Live i \<longleftrightarrow>
     region_ok (M_Regions M ! i) \<and> length (MR_Taken (M_Regions M ! i)) = unat (M_RegionBytes M div M_FrameSize M) \<and>
     (\<forall>k < length (MR_Taken (M_Regions M ! i)). length (filter (covers i k) Live) = of_bool (MR_Taken (M_Regions M ! i) ! k))"

definition mem_inv :: "mem_system \<Rightarrow> bool" where
  "mem_inv S \<longleftrightarrow>
     (\<forall>R \<in> set (S_Live S). in_region (S_Memory S) R) \<and>
     (\<forall>i < length (M_Regions (S_Memory S)). region_inv (S_Memory S) (S_Live S) i) \<and>
     sum_list (map MR_Used (M_Regions (S_Memory S))) = sum_list (map Run_Frames (S_Live S)) \<and>
     length (M_Regions (S_Memory S)) + of_bool (S_Growing S) \<le> M_RegionCeiling (S_Memory S)"

lemma takeLocked_cases:
  assumes "takeLocked Frames M = (R, M')"
  shows "R = Run_null \<and> M' = M \<and> take_regions Frames 0 (M_Regions M) = None \<or>
    (\<exists>i F. take_regions Frames 0 (M_Regions M) = Some (i, F) \<and> i < length (M_Regions M) \<and> gap F Frames (MR_Taken (M_Regions M ! i)) \<and>
      R = \<lparr>Run_Ptr = Some (MR_Base (M_Regions M ! i) + F * unat (M_FrameSize M)), Run_Length = Frames * unat (M_FrameSize M),
           Run_Home = Some i, Run_First = F, Run_Frames = Frames, Run_Owner = True\<rparr> \<and>
      M_Regions M' = (M_Regions M)[i := occupy F Frames (M_Regions M ! i)] \<and> M_FrameSize M' = M_FrameSize M \<and>
      M_RegionCeiling M' = M_RegionCeiling M \<and> M_RegionBytes M' = M_RegionBytes M)"
proof (cases "take_regions Frames 0 (M_Regions M)")
  case None
  with assms show ?thesis by (simp add: takeLocked_def)
next
  case (Some p)
  then obtain i F where p: "p = (i, F)" by fastforce
  then have t: "i < length (M_Regions M)" "take_region Frames (M_Regions M ! i) = Some F"
    using take_regions_some [of Frames 0 "M_Regions M" i F] Some by auto
  then have "gap F Frames (MR_Taken (M_Regions M ! i))"
    by (auto simp: take_region_def intro: take_scan_some split: if_splits)
  with assms Some p t(1) show ?thesis by (auto simp: takeLocked_def Let_def)
qed

lemma sum_used_update:
  "i < length Rs \<Longrightarrow> sum_list (map MR_Used (Rs[i := R])) + MR_Used (Rs ! i) = sum_list (map MR_Used Rs) + MR_Used R"
  by (induction Rs arbitrary: i) (auto simp: nth_Cons split: nat.splits)

lemma sum_used_occupy:
  "i < length Rs \<Longrightarrow> sum_list (map MR_Used (Rs[i := occupy F n (Rs ! i)])) = sum_list (map MR_Used Rs) + n"
  "i < length Rs \<Longrightarrow> n \<le> MR_Used (Rs ! i) \<Longrightarrow> sum_list (map MR_Used (Rs[i := vacate F n (Rs ! i)])) + n = sum_list (map MR_Used Rs)"
  using sum_used_update [of i Rs "occupy F n (Rs ! i)"] sum_used_update [of i Rs "vacate F n (Rs ! i)"]
  by (simp_all add: occupy_def vacate_def)

lemma mem_inv_taken:
  assumes "mem_inv S" and "takeLocked Frames (S_Memory S) = (R, M)" and "Run_valid R"
  shows "mem_inv (S\<lparr>S_Memory := M, S_Live := R # S_Live S\<rparr>)"
proof -
  let ?M = "S_Memory S"
  obtain i F where t: "i < length (M_Regions ?M)" "gap F Frames (MR_Taken (M_Regions ?M ! i))"
    "R = \<lparr>Run_Ptr = Some (MR_Base (M_Regions ?M ! i) + F * unat (M_FrameSize ?M)), Run_Length = Frames * unat (M_FrameSize ?M),
       Run_Home = Some i, Run_First = F, Run_Frames = Frames, Run_Owner = True\<rparr>"
    "M_Regions M = (M_Regions ?M)[i := occupy F Frames (M_Regions ?M ! i)]" "M_FrameSize M = M_FrameSize ?M"
    "M_RegionCeiling M = M_RegionCeiling ?M" "M_RegionBytes M = M_RegionBytes ?M"
    using takeLocked_cases [OF assms(2)] assms(3) by (auto simp: Run_valid_def Run_null_def)
  have sum: "sum_list (map MR_Used (M_Regions M)) = sum_list (map Run_Frames (R # S_Live S))"
    using assms(1) t by (simp add: mem_inv_def sum_used_occupy)
  have "in_region M R'" if "in_region ?M R'" for R'
    using that by (rule in_region_mono) (use t(1,4,5) in \<open>simp_all add: nth_list_update occupy_def\<close>)
  moreover have "in_region M R" using t by (simp add: in_region_def occupy_def gap_def)
  ultimately have live: "in_region M R'" if "R' \<in> set (R # S_Live S)" for R'
    using assms(1) that by (auto simp: mem_inv_def)
  have "region_inv M (R # S_Live S) j" if "j < length (M_Regions M)" for j
  proof (cases "j = i")
    case True
    have "region_inv ?M (S_Live S) i" using assms(1) t(1) by (simp add: mem_inv_def)
    moreover have "MR_Taken (M_Regions M ! i) = mark True F Frames (MR_Taken (M_Regions ?M ! i))"
      "region_ok (M_Regions M ! i)"
      using t(1,2,4) calculation by (simp_all add: occupy_def region_inv_def region_ok_occupy [unfolded occupy_def])
    ultimately show ?thesis
      using True t(2,3,5,7) by (auto simp: region_inv_def covers_def nth_mark gap_def)
  next
    case False
    then have "region_inv ?M (S_Live S) j" "M_Regions M ! j = M_Regions ?M ! j" "\<And>k. \<not> covers j k R"
      using assms(1) t(3,4) that by (simp_all add: mem_inv_def covers_def)
    then show ?thesis using t(5,7) by (simp add: region_inv_def)
  qed
  then show ?thesis using assms(1) t(4,6) live sum by (simp add: mem_inv_def)
qed

lemma mem_inv_destroyed:
  assumes "mem_inv S" and "R \<in> set (S_Live S)"
  shows "mem_inv (S\<lparr>S_Memory := Run_destroy R (S_Memory S), S_Live := remove1 R (S_Live S)\<rparr>)"
proof -
  let ?M = "S_Memory S"
  have "in_region ?M R" using assms by (simp add: mem_inv_def)
  then obtain i where t: "Run_Owner R" "i < length (M_Regions ?M)" "Run_Home R = Some i"
    "Run_First R + Run_Frames R \<le> length (MR_Taken (M_Regions ?M ! i))"
    by (auto simp: in_region_def)
  let ?r = "M_Regions ?M ! i" and ?M' = "Run_destroy R ?M"
  have M': "M_Regions ?M' = (M_Regions ?M)[i := vacate (Run_First R) (Run_Frames R) ?r]"
    "M_FrameSize ?M' = M_FrameSize ?M" "M_RegionCeiling ?M' = M_RegionCeiling ?M" "M_RegionBytes ?M' = M_RegionBytes ?M"
    using t by (simp_all add: Run_destroy_def release_def)
  have old: "region_inv ?M (S_Live S) j" if "j < length (M_Regions ?M)" for j
    using assms(1) that by (simp add: mem_inv_def)
  have all: "MR_Taken ?r ! k" if "Run_First R \<le> k" "k < Run_First R + Run_Frames R" for k
  proof -
    have "R \<in> set (filter (covers i k) (S_Live S))" using that t assms(2) by (simp add: covers_def)
    then have "length (filter (covers i k) (S_Live S)) \<noteq> 0" by force
    with old [OF t(2)] that t(4) show ?thesis by (auto simp: region_inv_def split: if_splits)
  qed
  have used: "taken_count (mark False (Run_First R) (Run_Frames R) (MR_Taken ?r)) + Run_Frames R = MR_Used ?r"
    using taken_count_mark(2) [OF t(4)] all old [OF t(2)] by (auto simp: region_inv_def region_ok_def)
  then have "region_ok (vacate (Run_First R) (Run_Frames R) ?r)" by (auto simp: region_ok_def vacate_def)
  then have ok: "region_ok (M_Regions ?M' ! i)" using M'(1) t(2) by simp
  have "sum_list (map Run_Frames (remove1 R (S_Live S))) + Run_Frames R = sum_list (map Run_Frames (S_Live S))"
    using sum_list_map_remove1 [OF assms(2), of Run_Frames] by simp
  then have sum: "sum_list (map MR_Used (M_Regions ?M')) = sum_list (map Run_Frames (remove1 R (S_Live S)))"
    using sum_used_occupy(2) [OF t(2), of "Run_Frames R" "Run_First R"] used assms(1) M'(1) by (simp add: mem_inv_def)
  have live: "in_region ?M' R'" if "R' \<in> set (remove1 R (S_Live S))" for R'
  proof (rule in_region_mono)
    show "in_region ?M R'" using assms(1) that set_remove1_subset [of R "S_Live S"] by (auto simp: mem_inv_def)
  qed (use M' t(2) in \<open>simp_all add: nth_list_update vacate_def\<close>)
  have "region_inv ?M' (remove1 R (S_Live S)) j" if "j < length (M_Regions ?M')" for j
  proof (cases "j = i")
    case True
    have "MR_Taken (M_Regions ?M' ! i) = mark False (Run_First R) (Run_Frames R) (MR_Taken ?r)"
      using M'(1) t(2) by (simp add: vacate_def)
    then show ?thesis
      using True ok old [OF t(2)] M'(2,4) t(3) assms(2)
      by (auto simp: region_inv_def filter_remove1 length_remove1 covers_def nth_mark)
  next
    case False
    then have "region_inv ?M (S_Live S) j" "M_Regions ?M' ! j = M_Regions ?M ! j" "\<And>k. \<not> covers j k R"
      using old M'(1) t(3) that by (simp_all add: covers_def)
    then show ?thesis using M'(2,4) by (simp add: region_inv_def filter_remove1 remove1_idem)
  qed
  then show ?thesis using assms(1) M'(1,3) live sum by (simp add: mem_inv_def)
qed

lemma mem_inv_step:
  assumes "mem_inv S" and "mem_step S S'"
  shows "mem_inv S'"
  using assms(2)
proof cases
  case (grown base Fresh)
  let ?M = "S_Memory S" and ?M' = "push_region Fresh (S_Memory S)"
  have fresh: "length (MR_Taken Fresh) = unat (M_RegionBytes ?M div M_FrameSize ?M)" "MR_Used Fresh = 0"
      "\<And>k. k < length (MR_Taken Fresh) \<Longrightarrow> \<not> MR_Taken Fresh ! k"
    using grown(3) by (auto simp: build_def)
  then have "region_ok Fresh" by (simp add: region_ok_def taken_count_def)
  moreover have "filter (covers (length (M_Regions ?M)) k) (S_Live S) = []" for k
    using assms(1) by (auto simp: mem_inv_def in_region_def covers_def filter_empty_conv)
  ultimately have "region_inv ?M' (S_Live S) (length (M_Regions ?M))"
    using fresh by (simp add: region_inv_def push_region_def)
  moreover have "region_inv ?M' (S_Live S) i" if "i < length (M_Regions ?M)" for i
    using assms(1) that by (simp add: mem_inv_def region_inv_def push_region_def nth_append)
  ultimately have "region_inv ?M' (S_Live S) i" if "i < length (M_Regions ?M')" for i
    using that by (cases "i = length (M_Regions ?M)") (simp_all add: push_region_def)
  moreover have "in_region ?M' R" if "R \<in> set (S_Live S)" for R
    by (rule in_region_mono [of ?M]) (use assms(1) that in \<open>simp_all add: mem_inv_def push_region_def nth_append\<close>)
  ultimately show ?thesis using assms(1) grown(1,2) fresh(2) by (simp add: mem_inv_def) (simp add: push_region_def)
next
  case (taken Frames R M)
  then show ?thesis using mem_inv_taken [OF assms(1)] by simp
next
  case (destroyed R)
  then show ?thesis using mem_inv_destroyed [OF assms(1)] by simp
qed (use assms(1) in \<open>simp_all add: mem_inv_def region_inv_def in_region_def exhausted_def\<close>)

definition mem_start :: "nat \<Rightarrow> u64 \<Rightarrow> u64 \<Rightarrow> mem_system" where
  "mem_start Regions RegionBytes FrameSize =
     \<lparr>S_Memory = \<lparr>M_Regions = [], M_RegionBytes = RegionBytes, M_FrameSize = FrameSize, M_RegionCeiling = Regions,
        M_Stats = \<lparr>Allocated = 0, Direct = 0, Copied = 0, Exhausted = 0, RegionsGrown = 0\<rparr>\<rparr>,
      S_Live = [], S_Growing = False\<rparr>"

interpretation memory: transition_system "mem_start Regions RegionBytes FrameSize" mem_step mem_inv
  for Regions RegionBytes FrameSize
  by unfold_locales (simp_all add: mem_inv_step, simp add: mem_inv_def mem_start_def)

lemma mem_steps_frame_size: "mem_step\<^sup>*\<^sup>* S S' \<Longrightarrow> M_FrameSize (S_Memory S') = M_FrameSize (S_Memory S)"
proof (induction rule: rtranclp_induct)
  case base
  show ?case ..
next
  case (step T U)
  have "M_FrameSize (S_Memory U) = M_FrameSize (S_Memory T)"
    using step.hyps(2)
  proof cases
    case (taken Frames R M)
    then show ?thesis using takeLocked_cases [OF taken(2)] by auto
  qed (auto simp: exhausted_def Run_destroy_def release_def push_region_def)
  with step.IH show ?case by simp
qed

section \<open>Runs do not overlap\<close>

definition run_bytes :: "Run \<Rightarrow> nat set" where
  "run_bytes R = (case Run_Ptr R of None \<Rightarrow> {} | Some P \<Rightarrow> {P..<P + Run_Length R})"

definition region_bytes :: "Memory \<Rightarrow> nat \<Rightarrow> nat set" where
  "region_bytes M i = {MR_Base (M_Regions M ! i)..<MR_Base (M_Regions M ! i) + unat (M_RegionBytes M)}"

definition blocks_apart :: "Memory \<Rightarrow> bool" where
  "blocks_apart M \<longleftrightarrow> (\<forall>i j. i < j \<longrightarrow> j < length (M_Regions M) \<longrightarrow> region_bytes M i \<inter> region_bytes M j = {})"

text \<open>A byte of a run lies in its region, in the frame its offset says, and that frame is covered.\<close>

lemma run_bytes_frame:
  assumes "mem_inv S" and "R \<in> set (S_Live S)" and "x \<in> run_bytes R"
  obtains i k where "i < length (M_Regions (S_Memory S))" and "k = (x - MR_Base (M_Regions (S_Memory S) ! i)) div unat (M_FrameSize (S_Memory S))"
    and "k < length (MR_Taken (M_Regions (S_Memory S) ! i))" and "covers i k R" and "x \<in> region_bytes (S_Memory S) i"
proof -
  let ?M = "S_Memory S" and ?fs = "unat (M_FrameSize (S_Memory S))"
  obtain i where i: "i < length (M_Regions ?M)" "Run_Home R = Some i"
    "Run_First R + Run_Frames R \<le> length (MR_Taken (M_Regions ?M ! i))"
    "Run_Ptr R = Some (MR_Base (M_Regions ?M ! i) + Run_First R * ?fs)" "Run_Length R = Run_Frames R * ?fs"
    using assms(1,2) by (auto simp: mem_inv_def in_region_def)
  let ?b = "MR_Base (M_Regions ?M ! i)"
  define y where "y = x - ?b - Run_First R * ?fs"
  have y: "x = ?b + Run_First R * ?fs + y" "y < Run_Frames R * ?fs"
    using assms(3) i(4,5) by (auto simp: run_bytes_def y_def)
  then have fs: "0 < ?fs" by (cases "?fs = 0") auto
  have q: "y div ?fs < Run_Frames R" using y(2) by (simp add: less_mult_imp_div_less)
  have k: "(x - ?b) div ?fs = Run_First R + y div ?fs" using y(1) fs by simp
  have "x - ?b < (Run_First R + Run_Frames R) * ?fs" using y by (simp add: add_mult_distrib)
  also have "\<dots> \<le> unat (M_RegionBytes ?M div M_FrameSize ?M) * ?fs"
    using i(1,3) assms(1) by (intro mult_le_mono1) (simp add: mem_inv_def region_inv_def)
  also have "\<dots> \<le> unat (M_RegionBytes ?M)" by (simp add: unat_div_distrib)
  finally have "x \<in> region_bytes ?M i" using y(1) by (simp add: region_bytes_def)
  then show thesis using that [OF i(1) refl] k q i(2,3) by (simp add: covers_def)
qed

lemma two_covers:
  assumes "a < length xs" and "b < length xs" and "a \<noteq> b" and "P (xs ! a)" and "P (xs ! b)"
  shows "2 \<le> length (filter P xs)"
proof -
  have "{a, b} \<subseteq> {k. k < length xs \<and> P (xs ! k)}" using assms by auto
  then have "card {a, b} \<le> card {k. k < length xs \<and> P (xs ! k)}" by (intro card_mono) simp_all
  then show ?thesis using assms(3) by (simp add: length_filter_conv_card)
qed

lemma filter_Not_taken: "length (filter Not ts) + taken_count ts = length ts"
  using sum_length_filter_compl [of Not ts] by (simp add: taken_count_def length_filter_conv_card)

lemma free_frames_sum:
  "(\<forall>R \<in> set Rs. region_ok R) \<Longrightarrow>
     sum_list (map (\<lambda>One. length (filter Not (MR_Taken One))) Rs) + sum_list (map MR_Used Rs) = sum_list (map (\<lambda>One. length (MR_Taken One)) Rs)"
proof (induction Rs)
  case (Cons R Rs)
  then show ?case using filter_Not_taken [of "MR_Taken R"] by (simp add: region_ok_def)
qed simp

lemma live_runs_apart:
  assumes "mem_inv S" and "blocks_apart (S_Memory S)" and "a < length (S_Live S)" and "b < length (S_Live S)" and "a \<noteq> b"
  shows "run_bytes (S_Live S ! a) \<inter> run_bytes (S_Live S ! b) = {}"
proof -
  let ?M = "S_Memory S"
  have False if x: "x \<in> run_bytes (S_Live S ! a)" "x \<in> run_bytes (S_Live S ! b)" for x
  proof -
    obtain i k where i: "i < length (M_Regions ?M)" "k = (x - MR_Base (M_Regions ?M ! i)) div unat (M_FrameSize ?M)"
      "k < length (MR_Taken (M_Regions ?M ! i))" "covers i k (S_Live S ! a)" "x \<in> region_bytes ?M i"
      by (rule run_bytes_frame [OF assms(1) nth_mem [OF assms(3)] x(1)])
    obtain j l where j: "j < length (M_Regions ?M)" "l = (x - MR_Base (M_Regions ?M ! j)) div unat (M_FrameSize ?M)"
      "covers j l (S_Live S ! b)" "x \<in> region_bytes ?M j"
      by (rule run_bytes_frame [OF assms(1) nth_mem [OF assms(4)] x(2)])
    have "i = j" using assms(2) i(1,5) j(1,4) unfolding blocks_apart_def by (metis disjoint_iff nat_neq_iff)
    then have "2 \<le> length (filter (covers i k) (S_Live S))" using two_covers [OF assms(3-5), of "covers i k"] i j by simp
    moreover have "region_inv ?M (S_Live S) i" using assms(1) i(1) by (simp add: mem_inv_def)
    ultimately show False using i(3) by (auto simp: region_inv_def of_bool_def split: if_splits)
  qed
  then show ?thesis by blast
qed

text \<open>
  C35. However threads allocate, grow the memory and drop runs, no byte ever belongs to two of
  the runs that are out, provided the blocks the regions are made of do not overlap; and the
  free frames together with those of the runs that are out make up all frames, so none leaks.
  The number of regions stays within the ceiling.
\<close>

theorem memory_runs_apart:
  assumes "mem_step\<^sup>*\<^sup>* (mem_start Regions RegionBytes FrameSize) S" and "blocks_apart (S_Memory S)"
    and "a < length (S_Live S)" and "b < length (S_Live S)" and "a \<noteq> b"
  shows "run_bytes (S_Live S ! a) \<inter> run_bytes (S_Live S ! b) = {} \<and>
    freeFrames (S_Memory S) + sum_list (map Run_Frames (S_Live S)) = totalFrames (S_Memory S) \<and>
    length (M_Regions (S_Memory S)) \<le> M_RegionCeiling (S_Memory S)"
proof (intro conjI)
  let ?M = "S_Memory S"
  have inv: "mem_inv S" using memory.reachable_inv assms(1) by (simp add: memory.reachable_def)
  show "run_bytes (S_Live S ! a) \<inter> run_bytes (S_Live S ! b) = {}" by (rule live_runs_apart [OF inv assms(2-5)])
  have "\<forall>R \<in> set (M_Regions ?M). region_ok R" using inv by (auto simp: mem_inv_def region_inv_def in_set_conv_nth)
  then show "freeFrames ?M + sum_list (map Run_Frames (S_Live S)) = totalFrames ?M"
    using free_frames_sum [of "M_Regions ?M"] inv by (simp add: freeFrames_def totalFrames_def mem_inv_def)
  show "length (M_Regions ?M) \<le> M_RegionCeiling ?M" using inv by (simp add: mem_inv_def)
qed

definition sample_system :: "bool list \<Rightarrow> Run list \<Rightarrow> mem_system" where
  "sample_system ts Live =
     \<lparr>S_Memory = \<lparr>M_Regions = [\<lparr>MR_Base = 100, MR_Length = 3, MR_Taken = ts, MR_Used = length (filter (\<lambda>t. t) ts)\<rparr>],
        M_RegionBytes = 3, M_FrameSize = 1, M_RegionCeiling = 1,
        M_Stats = \<lparr>Allocated = length Live, Direct = 0, Copied = 0, Exhausted = 0, RegionsGrown = 1\<rparr>\<rparr>,
      S_Live = Live, S_Growing = False\<rparr>"

definition sample_runs :: "Run list" where
  "sample_runs =
     [\<lparr>Run_Ptr = Some 101, Run_Length = 2, Run_Home = Some 0, Run_First = 1, Run_Frames = 2, Run_Owner = True\<rparr>,
      \<lparr>Run_Ptr = Some 100, Run_Length = 1, Run_Home = Some 0, Run_First = 0, Run_Frames = 1, Run_Owner = True\<rparr>]"

lemma replicate_eq_3: "replicate 3 x = [x, x, x]"
  by (simp add: numeral_3_eq_3)

lemma sample_grown_reachable: "mem_step\<^sup>*\<^sup>* (mem_start 1 3 1) (sample_system [False, False, False] [])"
proof -
  have s1: "mem_step (mem_start 1 3 1) ((mem_start 1 3 1)\<lparr>S_Growing := True\<rparr>)"
    by (rule grow_begins) (simp_all add: mem_start_def)
  have s2: "mem_step ((mem_start 1 3 1)\<lparr>S_Growing := True\<rparr>) (sample_system [False, False, False] [])"
    using grown [of "(mem_start 1 3 1)\<lparr>S_Growing := True\<rparr>" "Some 100"]
    by (simp add: mem_start_def build_def push_region_def sample_system_def replicate_eq_3)
  show ?thesis using s1 s2 by (rule converse_rtranclp_into_rtranclp [OF _ r_into_rtranclp [of mem_step]])
qed

lemma sample_system_reachable: "mem_step\<^sup>*\<^sup>* (mem_start 1 3 1) (sample_system [True, True, True] sample_runs)"
proof -
  let ?grown = "sample_system [False, False, False] []"
  let ?one = "sample_system [True, False, False] (tl sample_runs)"
  have s3: "mem_step ?grown ?one"
    using taken [of 1 ?grown "sample_runs ! 1" "S_Memory ?one"]
    by (simp add: sample_system_def sample_runs_def takeLocked_def take_region_def occupy_def mark_def Run_valid_def Let_def)
  have s4: "mem_step ?one (sample_system [True, True, True] sample_runs)"
    using taken [of 2 ?one "sample_runs ! 0" "S_Memory (sample_system [True, True, True] sample_runs)"]
    by (simp add: sample_system_def sample_runs_def takeLocked_def take_region_def occupy_def mark_def Run_valid_def Let_def
        upt_rec numeral_2_eq_2)
  show ?thesis by (rule rtranclp.intros(2) [OF rtranclp.intros(2) [OF sample_grown_reachable s3] s4])
qed

theorem memory_runs_apart_witness:
  "run_bytes (sample_runs ! 0) \<inter> run_bytes (sample_runs ! 1) = {} \<and>
   freeFrames (S_Memory (sample_system [True, True, True] sample_runs)) + 3 = 3"
  using memory_runs_apart [OF sample_system_reachable, of 0 1]
  by (simp add: blocks_apart_def sample_system_def sample_runs_def totalFrames_def)

section \<open>Requests\<close>

lemma framesFor_exact:
  assumes "0 < FrameSize" and "unat Bytes + unat FrameSize \<le> 2 ^ 64"
  shows "unat (framesFor Bytes FrameSize) = (unat Bytes + unat FrameSize - 1) div unat FrameSize"
proof -
  have fs: "0 < unat FrameSize" using assms(1) by (simp add: word_less_nat_alt)
  have one: "unat (FrameSize - 1) = unat FrameSize - 1" using assms(1) by (intro unat_minus_one) auto
  have "unat (Bytes + (FrameSize - 1)) = unat Bytes + unat (FrameSize - 1)"
    using assms(2) fs one by (intro unat_add_lem [THEN iffD1]) simp
  then have "unat (Bytes + FrameSize - 1) = unat Bytes + unat FrameSize - 1" using fs one by (simp add: add_diff_eq)
  then show ?thesis by (simp add: framesFor_def unat_div_distrib)
qed

lemma frames_length:
  fixes n fs :: nat
  assumes "0 < fs"
  shows "n \<le> (n + fs - 1) div fs * fs" and "(n + fs - 1) div fs * fs < n + fs"
proof -
  have "(n + fs - 1) div fs * fs + (n + fs - 1) mod fs = n + fs - 1" by simp
  moreover have "(n + fs - 1) mod fs < fs" using assms by simp
  ultimately show "n \<le> (n + fs - 1) div fs * fs" "(n + fs - 1) div fs * fs < n + fs" using assms by linarith+
qed

text \<open>Taking a run fails exactly when no region has a gap that long.\<close>

lemma takeLocked_refuses:
  assumes "0 < Frames" and "\<forall>R \<in> set (M_Regions M). region_ok R"
  shows "Run_valid (fst (takeLocked Frames M)) \<longleftrightarrow>
    (\<exists>i < length (M_Regions M). \<exists>F. gap F Frames (MR_Taken (M_Regions M ! i)))"
  using take_regions_gap [OF assms, of 0]
  by (cases "take_regions Frames 0 (M_Regions M)") (auto simp: takeLocked_def Run_valid_def Run_null_def Let_def)

lemma takeLocked_length: "Run_valid (fst (takeLocked Frames M)) \<Longrightarrow> Run_Length (fst (takeLocked Frames M)) = Frames * unat (M_FrameSize M)"
  by (auto simp: takeLocked_def Run_valid_def Run_null_def Let_def split: option.splits prod.splits)

lemma takeLocked_invalid: "\<not> Run_valid (fst (takeLocked Frames M)) \<Longrightarrow> takeLocked Frames M = (Run_null, M)"
  by (auto simp: takeLocked_def Run_valid_def Let_def split: option.splits prod.splits)

text \<open>A new region always has room for a request no larger than a region.\<close>

lemma takeLocked_fresh:
  assumes "0 < Frames" and "\<forall>R \<in> set (M_Regions M). region_ok R" and "build base M = Some Fresh"
    and "Frames \<le> unat (M_RegionBytes M div M_FrameSize M)"
  shows "Run_valid (fst (takeLocked Frames (push_region Fresh M)))"
proof -
  have f: "MR_Taken Fresh = replicate (unat (M_RegionBytes M div M_FrameSize M)) False" "MR_Used Fresh = 0"
    using assms(3) by (auto simp: build_def)
  then have "region_ok Fresh" "gap 0 Frames (MR_Taken Fresh)" using assms(4) by (simp_all add: region_ok_def taken_count_def gap_def)
  then have "\<exists>i < length (M_Regions (push_region Fresh M)). \<exists>F. gap F Frames (MR_Taken (M_Regions (push_region Fresh M) ! i))"
    by (intro exI [of _ "length (M_Regions M)"] conjI exI [of _ 0]) (simp_all add: push_region_def)
  then show ?thesis
    using takeLocked_refuses [OF assms(1), of "push_region Fresh M"] assms(2) \<open>region_ok Fresh\<close> by (simp add: push_region_def)
qed

lemma alloc_cases:
  fixes M :: Memory
  assumes "Bytes \<noteq> 0"
  defines "Frames \<equiv> unat (framesFor Bytes (M_FrameSize M))"
  shows "unat (M_RegionBytes M div M_FrameSize M) < Frames \<Longrightarrow> fst (alloc base Bytes M) = Run_null"
    and "Frames \<le> unat (M_RegionBytes M div M_FrameSize M) \<Longrightarrow> Run_valid (fst (takeLocked Frames M)) \<Longrightarrow>
      fst (alloc base Bytes M) = fst (takeLocked Frames M)"
    and "Frames \<le> unat (M_RegionBytes M div M_FrameSize M) \<Longrightarrow> \<not> Run_valid (fst (takeLocked Frames M)) \<Longrightarrow>
      fst (alloc base Bytes M) = (case growLocked base M of (True, M') \<Rightarrow> fst (takeLocked Frames M') | (False, _) \<Rightarrow> Run_null)"
  using takeLocked_invalid [of Frames M] assms(1)
  by (auto simp: alloc_def Frames_def word_less_nat_alt word_le_nat_alt Let_def Run_valid_def Run_null_def split: prod.splits bool.splits)

lemma alloc_length:
  assumes "0 < M_FrameSize M" and "unat Bytes + unat (M_FrameSize M) \<le> 2 ^ 64" and "Run_valid (fst (alloc base Bytes M))"
  shows "Run_Length (fst (alloc base Bytes M)) =
    (unat Bytes + unat (M_FrameSize M) - 1) div unat (M_FrameSize M) * unat (M_FrameSize M)"
proof -
  let ?n = "unat (framesFor Bytes (M_FrameSize M))"
  have b: "Bytes \<noteq> 0" using assms(3) by (auto simp: alloc_def Run_valid_def Run_null_def)
  note c = alloc_cases [OF b, of M base]
  have fits: "?n \<le> unat (M_RegionBytes M div M_FrameSize M)"
    using c(1) assms(3) by (auto simp: Run_valid_def Run_null_def not_less [symmetric])
  have "Run_Length (fst (alloc base Bytes M)) = ?n * unat (M_FrameSize M)"
  proof (cases "Run_valid (fst (takeLocked ?n M))")
    case True
    then show ?thesis using c(2) fits takeLocked_length by simp
  next
    case False
    obtain M' where g: "growLocked base M = (True, M')" "fst (alloc base Bytes M) = fst (takeLocked ?n M')"
      using c(3) [OF fits False] assms(3) by (auto simp: Run_valid_def Run_null_def split: prod.splits bool.splits)
    then have "M_FrameSize M' = M_FrameSize M" by (auto simp: growLocked_def push_region_def split: if_splits option.splits)
    then show ?thesis using g(2) takeLocked_length [of ?n M'] assms(3) by simp
  qed
  then show ?thesis using framesFor_exact [OF assms(1,2)] by simp
qed

text \<open>
  An allocation of some bytes, no more than what rounding up to whole frames can represent,
  gives a run that holds them and less than one frame more, and it is refused exactly when it
  exceeds a region or when no region has that many consecutive free frames and none can be
  added, because the ceiling is reached or the system has no memory to give.
\<close>

theorem alloc_served:
  assumes "mem_step\<^sup>*\<^sup>* (mem_start Regions RegionBytes FrameSize) S" and "M = S_Memory S"
    and "0 < M_FrameSize M" and "Bytes \<noteq> 0" and "unat Bytes + unat (M_FrameSize M) \<le> 2 ^ 64"
  defines "Frames \<equiv> (unat Bytes + unat (M_FrameSize M) - 1) div unat (M_FrameSize M)"
  shows "if Run_valid (fst (alloc base Bytes M))
    then unat Bytes \<le> Run_Length (fst (alloc base Bytes M)) \<and> Run_Length (fst (alloc base Bytes M)) < unat Bytes + unat (M_FrameSize M)
    else unat (M_RegionBytes M div M_FrameSize M) < Frames \<or>
      (\<forall>i < length (M_Regions M). \<forall>F. \<not> gap F Frames (MR_Taken (M_Regions M ! i))) \<and>
        (M_RegionCeiling M \<le> length (M_Regions M) \<or> base = None)"
proof -
  have inv: "mem_inv S" using memory.reachable_inv assms(1) by (simp add: memory.reachable_def)
  have ok: "\<forall>R \<in> set (M_Regions M). region_ok R"
    using inv assms(2) by (auto simp: mem_inv_def region_inv_def in_set_conv_nth)
  have fs: "0 < unat (M_FrameSize M)" using assms(3) by (simp add: word_less_nat_alt)
  have F: "unat (framesFor Bytes (M_FrameSize M)) = Frames" using framesFor_exact [OF assms(3,5)] by (simp add: Frames_def)
  have "0 < unat Bytes" using assms(4) by (simp add: unat_gt_0)
  then have pos: "0 < Frames" unfolding Frames_def using fs by (simp add: div_greater_zero_iff)
  note len = frames_length [OF fs, of "unat Bytes", folded Frames_def]
  note c = alloc_cases [OF assms(4), of M base, unfolded F]
  show ?thesis
  proof (cases "unat (M_RegionBytes M div M_FrameSize M) < Frames")
    case True
    then show ?thesis using c(1) by (simp add: Run_valid_def Run_null_def)
  next
    case fits: False
    show ?thesis
    proof (cases "Run_valid (fst (takeLocked Frames M))")
      case True
      then show ?thesis using c(2) fits len takeLocked_length by simp
    next
      case False
      then have none: "\<forall>i < length (M_Regions M). \<forall>F. \<not> gap F Frames (MR_Taken (M_Regions M ! i))"
        using takeLocked_refuses [OF pos ok] by blast
      show ?thesis
      proof (cases "M_RegionCeiling M \<le> length (M_Regions M) \<or> base = None")
        case True
        then show ?thesis using c(3) False fits none by (auto simp: growLocked_def build_def Run_valid_def Run_null_def)
      next
        case grow: False
        then obtain Fresh where b: "build base M = Some Fresh" by (auto simp: build_def)
        then have "growLocked base M = (True, push_region Fresh M)" using grow by (simp add: growLocked_def)
        moreover have "Run_valid (fst (takeLocked Frames (push_region Fresh M)))"
          using takeLocked_fresh [OF pos ok b] fits by simp
        ultimately show ?thesis
          using c(3) False fits len takeLocked_length [of Frames "push_region Fresh M"] by (simp add: push_region_def)
      qed
    qed
  qed
qed

theorem alloc_served_witness:
  "let M = S_Memory (sample_system [True, True, True] sample_runs)
   in \<not> Run_valid (fst (alloc None 2 M)) \<and> (\<forall>F. \<not> gap F 2 [True, True, True])"
  using alloc_served [OF sample_system_reachable refl, of 2 None]
  by (simp add: Let_def sample_system_def alloc_def takeLocked_def take_region_def framesFor_def Run_valid_def Run_null_def growLocked_def)

lemma unat_less_64: "unat (w :: u64) < 2 ^ 64"
  using unsigned_less [of w] by simp

text \<open>
  Rounding up wraps around: a request within one frame of the 64-bit limit is computed as
  no frames at all and granted a run that is valid and holds no byte.
\<close>

theorem alloc_wraps:
  assumes "2 ^ 64 < unat Bytes + unat (M_FrameSize M)" and "M_Regions M = One # Rest" and "MR_Taken One \<noteq> []"
  shows "Run_valid (fst (alloc base Bytes M)) \<and> Run_Length (fst (alloc base Bytes M)) = 0"
proof -
  have fs: "M_FrameSize M \<noteq> 0" using assms(1) unat_less_64 [of Bytes] by (auto simp: unat_eq_zero)
  have b: "Bytes \<noteq> 0" using assms(1) unat_less_64 [of "M_FrameSize M"] by (auto simp: unat_eq_zero)
  have "unat (M_FrameSize M - 1) = unat (M_FrameSize M) - 1" using fs by (rule unat_minus_one)
  then have "unat (Bytes + (M_FrameSize M - 1)) = unat Bytes + unat (M_FrameSize M) - 1 - 2 ^ 64"
    using assms(1) unat_less_64 [of Bytes] unat_less_64 [of "M_FrameSize M"] by (simp add: unat_word_ariths le_mod_geq)
  then have "unat (Bytes + M_FrameSize M - 1) < unat (M_FrameSize M)"
    using assms(1) unat_less_64 [of Bytes] by (simp add: add_diff_eq)
  then have f: "framesFor Bytes (M_FrameSize M) = 0"
    by (simp add: framesFor_def word_less_nat_alt unat_eq_zero [symmetric] unat_div_distrib)
  obtain t ts where "MR_Taken One = t # ts" using assms(3) by (cases "MR_Taken One") auto
  then have "Run_valid (fst (takeLocked 0 M))" "Run_Length (fst (takeLocked 0 M)) = 0"
    using assms(2) by (simp_all add: takeLocked_def take_region_def Let_def Run_valid_def)
  then show ?thesis using alloc_cases(2) [OF b, of M base] f by simp
qed

theorem alloc_wraps_witness:
  "Run_valid (fst (alloc None 0xFFFFFFFFFFFFFFFF ((S_Memory (sample_system [False, False, False] []))\<lparr>M_FrameSize := 2\<rparr>)))"
  using alloc_wraps [of "0xFFFFFFFFFFFFFFFF" "(S_Memory (sample_system [False, False, False] []))\<lparr>M_FrameSize := 2\<rparr>"
      "hd (M_Regions (S_Memory (sample_system [False, False, False] [])))" "[]" None]
  by (simp add: sample_system_def)

end
