(* ===== verification/Sink.thy ===== *)
theory Sink
  imports Rail_Prelude
begin

text \<open>
  \<^verbatim>\<open>include/rail/stream/sink.h\<close>, \<^verbatim>\<open>src/stream/sink.cc\<close>: where the bytes of a transfer come from
  and where they land. The two interfaces \<^verbatim>\<open>PageSource\<close> and \<^verbatim>\<open>PageSink\<close> are locales over the
  operations a transfer calls; what a transfer gains from them is proved once, inside the
  locales. The buffer source and sink are their first instances, the address space (a later
  theory) the second. A read or write is complete when it returns: the number of bytes it
  reports is the result the await returns.
\<close>

section \<open>Buffers\<close>

record BufferSource =
  BSrc_From :: "byte list"
  BSrc_Base :: nat

record BufferSink =
  BSink_Into :: "byte list"
  BSink_Base :: nat

text \<open>\<^verbatim>\<open>memcpy\<close> into a buffer that has room for it.\<close>

definition patch :: "nat \<Rightarrow> byte list \<Rightarrow> byte list \<Rightarrow> byte list" where
  "patch At Src Data = take At Data @ Src @ drop (At + length Src) Data"

definition BufferSource_read :: "BufferSource \<Rightarrow> nat \<Rightarrow> nat \<Rightarrow> byte list Result" where
  "BufferSource_read S Want Offset =
     (if Offset < BSrc_Base S then failMessage ''a streamed read started before the buffer''
      else let At = Offset - BSrc_Base S
      in if At > length (BSrc_From S) then failMessage ''a streamed read started past the buffer''
      else Inr (take (min Want (length (BSrc_From S) - At)) (drop At (BSrc_From S))))"

definition BufferSink_write :: "BufferSink \<Rightarrow> byte list \<Rightarrow> nat \<Rightarrow> nat Result \<times> BufferSink" where
  "BufferSink_write S Src Offset =
     (if Offset < BSink_Base S then (failMessage ''a streamed write landed before the buffer'', S)
      else let At = Offset - BSink_Base S
      in if At > length (BSink_Into S) then (failMessage ''a streamed write landed past the buffer'', S)
      else if length Src > length (BSink_Into S) - At then (failMessage ''a streamed write ran past the end of the buffer'', S)
      else (Inr (length Src), S\<lparr>BSink_Into := patch At Src (BSink_Into S)\<rparr>))"

section \<open>Patches\<close>

lemma length_patch [simp]: "At + length Src \<le> length Data \<Longrightarrow> length (patch At Src Data) = length Data"
  by (simp add: patch_def)

lemma nth_patch:
  "At + length Src \<le> length Data \<Longrightarrow> k < length Data \<Longrightarrow>
     patch At Src Data ! k = (if At \<le> k \<and> k < At + length Src then Src ! (k - At) else Data ! k)"
  by (auto simp: patch_def nth_append)

lemma patch_window:
  assumes "At + length Src \<le> length Data" and "B + n \<le> length Data" and "B + n \<le> At \<or> At + length Src \<le> B"
  shows "take n (drop B (patch At Src Data)) = take n (drop B Data)"
  using assms by (intro nth_equalityI) (auto simp: nth_patch)

lemma patch_own:
  assumes "At + length Src \<le> length Data"
  shows "take (length Src) (drop At (patch At Src Data)) = Src"
  using assms by (simp add: patch_def)

section \<open>Transfers\<close>

text \<open>The writes of pages that arrive in any order, up to the first refusal.\<close>

fun land :: "('s \<Rightarrow> byte list \<Rightarrow> nat \<Rightarrow> nat Result \<times> 's) \<Rightarrow> 's \<Rightarrow> (nat \<times> byte list) list \<Rightarrow> unit Result \<times> 's" where
  "land submitWrite s [] = (Inr (), s)"
| "land submitWrite s ((Offset, Src) # ps) =
     (case submitWrite s Src Offset of
        (Inl e, s') \<Rightarrow> (Inl e, s')
      | (Inr _, s') \<Rightarrow> land submitWrite s' ps)"

text \<open>Reads that go on where the last one stopped; \<open>n\<close> bounds the number of reads.\<close>

fun drain :: "('s \<Rightarrow> nat \<Rightarrow> nat \<Rightarrow> byte list Result) \<Rightarrow> nat \<Rightarrow> 's \<Rightarrow> nat \<Rightarrow> nat \<Rightarrow> byte list option" where
  "drain submitRead n s Want Offset =
     (if Want = 0 then Some []
      else case n of
        0 \<Rightarrow> None
      | Suc m \<Rightarrow>
          (case submitRead s Want Offset of
             Inl _ \<Rightarrow> None
           | Inr Bs \<Rightarrow> map_option (\<lambda>rest. Bs @ rest) (drain submitRead m s (Want - length Bs) (Offset + length Bs))))"

declare drain.simps [simp del]

section \<open>The interfaces\<close>

locale page_sink =
  fixes submitWrite :: "'s \<Rightarrow> byte list \<Rightarrow> nat \<Rightarrow> nat Result \<times> 's"
    and contents :: "'s \<Rightarrow> byte list"
    and base :: "'s \<Rightarrow> nat"
    and sound :: "'s \<Rightarrow> bool"
  assumes write_ok: "sound s \<Longrightarrow> submitWrite s Src Offset = (Inr n, s') \<Longrightarrow>
      sound s' \<and> base s' = base s \<and> n = length Src \<and> base s \<le> Offset \<and> Offset - base s + length Src \<le> length (contents s) \<and>
      contents s' = patch (Offset - base s) Src (contents s)"
    and write_refused: "submitWrite s Src Offset = (Inl e, s') \<Longrightarrow> s' = s"
begin

lemma write_keeps:
  assumes "sound s" and "submitWrite s Src Offset = (Inr n, s')"
  shows "sound s'" and "base s' = base s" and "length (contents s') = length (contents s)"
proof -
  note ok = write_ok [OF assms]
  then show "sound s'" "base s' = base s" by simp_all
  have "length (patch (Offset - base s) Src (contents s)) = length (contents s)" using ok by (intro length_patch) blast
  then show "length (contents s') = length (contents s)" using ok by simp
qed

lemma land_step:
  assumes "land submitWrite s ((Offset, Src) # ps) = (Inr (), t)"
  obtains n s' where "submitWrite s Src Offset = (Inr n, s')" and "land submitWrite s' ps = (Inr (), t)"
proof (cases "submitWrite s Src Offset")
  case (Pair r s')
  with assms that show thesis by (cases r) auto
qed

lemma land_keeps:
  assumes "land submitWrite s ps = (Inr (), t)" and "sound s"
  shows "sound t \<and> base t = base s \<and> length (contents t) = length (contents s)"
  using assms
proof (induction ps arbitrary: s)
  case Nil
  then show ?case by simp
next
  case (Cons p ps)
  obtain Offset Src where p: "p = (Offset, Src)" by fastforce
  obtain n s' where w: "submitWrite s Src Offset = (Inr n, s')" "land submitWrite s' ps = (Inr (), t)"
    using Cons.prems(1) unfolding p by (rule land_step)
  show ?case using Cons.IH [OF w(2)] write_keeps [OF Cons.prems(2) w(1)] by simp
qed

text \<open>A window that no later page touches keeps its bytes.\<close>

lemma land_untouched:
  assumes "land submitWrite s ps = (Inr (), t)" and "sound s" and "base s \<le> A" and "A - base s + n \<le> length (contents s)"
    and "\<forall>(Offset, Src) \<in> set ps. A + n \<le> Offset \<or> Offset + length Src \<le> A"
  shows "take n (drop (A - base s) (contents t)) = take n (drop (A - base s) (contents s))"
  using assms
proof (induction ps arbitrary: s)
  case Nil
  then show ?case by simp
next
  case (Cons p ps)
  obtain Offset Src where p: "p = (Offset, Src)" by fastforce
  obtain m s' where w: "submitWrite s Src Offset = (Inr m, s')" "land submitWrite s' ps = (Inr (), t)"
    using Cons.prems(1) unfolding p by (rule land_step)
  note ok = write_ok [OF Cons.prems(2) w(1)]
  have "take n (drop (A - base s) (contents t)) = take n (drop (A - base s) (contents s'))"
    using Cons.IH [OF w(2)] write_keeps [OF Cons.prems(2) w(1)] Cons.prems(3-5) by simp
  also have "\<dots> = take n (drop (A - base s) (contents s))"
  proof -
    have "A - base s + n \<le> Offset - base s \<or> Offset - base s + length Src \<le> A - base s"
      using Cons.prems(3,5) ok unfolding p by auto
    then show ?thesis using ok Cons.prems(4) patch_window [of "Offset - base s" Src "contents s" "A - base s" n] by metis
  qed
  finally show ?case .
qed

text \<open>Every page that does not overlap a later one can be read back where it was to land.\<close>

lemma land_all:
  assumes "land submitWrite s (ps @ (Offset, Src) # qs) = (Inr (), t)" and "sound s"
    and "\<forall>(Offset', Src') \<in> set qs. Offset + length Src \<le> Offset' \<or> Offset' + length Src' \<le> Offset"
  shows "base s \<le> Offset \<and> take (length Src) (drop (Offset - base s) (contents t)) = Src"
  using assms(1,2)
proof (induction ps arbitrary: s)
  case Nil
  then obtain m s' where w: "submitWrite s Src Offset = (Inr m, s')" "land submitWrite s' qs = (Inr (), t)"
    using land_step by (metis append_Nil)
  note ok = write_ok [OF Nil.prems(2) w(1)]
  have "take (length Src) (drop (Offset - base s) (contents t)) = take (length Src) (drop (Offset - base s) (contents s'))"
    using land_untouched [OF w(2), of Offset "length Src"] write_keeps [OF Nil.prems(2) w(1)] ok assms(3) by (metis (no_types, lifting))
  with ok patch_own [of "Offset - base s" Src "contents s"] show ?case by metis
next
  case (Cons p ps)
  obtain Offset' Src' where p: "p = (Offset', Src')" by fastforce
  obtain m s' where w: "submitWrite s Src' Offset' = (Inr m, s')" "land submitWrite s' (ps @ (Offset, Src) # qs) = (Inr (), t)"
    using Cons.prems(1) unfolding p append_Cons by (rule land_step)
  note ok = write_ok [OF Cons.prems(2) w(1)]
  show ?case using Cons.IH [OF w(2)] ok by simp
qed

end

locale page_source =
  fixes submitRead :: "'s \<Rightarrow> nat \<Rightarrow> nat \<Rightarrow> byte list Result"
    and source_contents :: "'s \<Rightarrow> byte list"
    and source_base :: "'s \<Rightarrow> nat"
    and source_sound :: "'s \<Rightarrow> bool"
  assumes read_ok: "source_sound s \<Longrightarrow> submitRead s Want Offset = Inr Bs \<Longrightarrow>
      source_base s \<le> Offset \<and> length Bs \<le> Want \<and> length Bs \<le> length (source_contents s) - (Offset - source_base s) \<and>
      Bs = take (length Bs) (drop (Offset - source_base s) (source_contents s))"
    and read_some: "source_sound s \<Longrightarrow> source_base s \<le> Offset \<Longrightarrow> Offset - source_base s < length (source_contents s) \<Longrightarrow>
      0 < Want \<Longrightarrow> \<exists>Bs. submitRead s Want Offset = Inr Bs \<and> Bs \<noteq> []"
begin

text \<open>As many reads as bytes are always enough, and they give the bytes of the range.\<close>

lemma drain_all:
  assumes "source_sound s" and "source_base s \<le> Offset" and "Offset - source_base s + Want \<le> length (source_contents s)" and "Want \<le> n"
  shows "drain submitRead n s Want Offset = Some (take Want (drop (Offset - source_base s) (source_contents s)))"
  using assms(2-4)
proof (induction n arbitrary: Want Offset)
  case 0
  then show ?case by (simp add: drain.simps)
next
  case (Suc n)
  show ?case
  proof (cases "Want = 0")
    case True
    then show ?thesis by (simp add: drain.simps)
  next
    case False
    then have "Offset - source_base s < length (source_contents s)" using Suc.prems(2) by linarith
    then obtain Bs where Bs: "submitRead s Want Offset = Inr Bs" "Bs \<noteq> []"
      using read_some [OF assms(1) Suc.prems(1), of Want] False by auto
    have r: "length Bs \<le> Want" "Bs = take (length Bs) (drop (Offset - source_base s) (source_contents s))"
      using read_ok [OF assms(1) Bs(1)] by auto
    have "Want - length Bs \<le> n" using Bs(2) Suc.prems(3) by (cases Bs) auto
    then have "drain submitRead n s (Want - length Bs) (Offset + length Bs) =
        Some (take (Want - length Bs) (drop (length Bs) (drop (Offset - source_base s) (source_contents s))))"
      using Suc.IH [of "Offset + length Bs" "Want - length Bs"] Suc.prems r(1) by (simp add: add.commute)
    moreover have "take Want xs = take k xs @ take (Want - k) (drop k xs)" if "k \<le> Want" for k and xs :: "byte list"
      using that take_add [of k "Want - k" xs] by simp
    ultimately show ?thesis using False Bs(1) r by (simp add: drain.simps)
  qed
qed

end

interpretation buffer_sink: page_sink BufferSink_write BSink_Into BSink_Base "\<lambda>_. True"
  by unfold_locales (auto simp: BufferSink_write_def Let_def failMessage_def fail_def split: if_splits)

interpretation buffer_source: page_source BufferSource_read BSrc_From BSrc_Base "\<lambda>_. True"
  by unfold_locales (auto simp: BufferSource_read_def Let_def failMessage_def fail_def split: if_splits)

end
