(* ===== verification/AddressSpace.thy ===== *)
theory AddressSpace
  imports Memory Sink
begin

text \<open>
  \<^verbatim>\<open>src/address-space.cc\<close> and the address-space source and sink of \<^verbatim>\<open>src/stream/sink.cc\<close>: a
  window of a file held in pages, registered ones when the memory has them and heap ones when
  it has not. The bytes of the process are a store from addresses to bytes, so that what the
  pages share with each other shows. The theorems show that the pages of a claimed window do
  not overlap, that the window behaves as one flat buffer, and that what lands in it is read
  back.
\<close>

section \<open>Operations\<close>

record AddressSpace =
  AS_Held :: "Run list"
  AS_Heap :: nat
  AS_Views :: "Page list"
  AS_PageBytes :: nat
  AS_Base :: nat

definition AddressSpace_new :: AddressSpace where
  "AddressSpace_new = \<lparr>AS_Held = [], AS_Heap = 0, AS_Views = [], AS_PageBytes = 0, AS_Base = 0\<rparr>"

definition space_release :: "AddressSpace \<Rightarrow> Memory \<Rightarrow> AddressSpace \<times> Memory" where
  "space_release A M =
     (A\<lparr>AS_Views := [], AS_Held := [], AS_Heap := 0, AS_PageBytes := 0\<rparr>, fold Run_destroy (AS_Held A) M)"

text \<open>\<open>base\<close> answers the request for a new block that each allocation may have to make.\<close>

primrec claim_runs :: "(nat \<Rightarrow> nat option) \<Rightarrow> u64 \<Rightarrow> nat \<Rightarrow> Run list \<Rightarrow> Memory \<Rightarrow> Run list \<times> Memory" where
  "claim_runs base Bytes 0 Taken M = (Taken, M)"
| "claim_runs base Bytes (Suc n) Taken M =
     (let (One, M) = alloc (base n) Bytes M
      in if \<not> Run_valid One then ([], fold Run_destroy Taken M)
         else claim_runs base Bytes n (Taken @ [One]) M)"

text \<open>\<open>heap\<close> is the address of the block the views fall back to.\<close>

definition heap_page :: "nat \<Rightarrow> nat \<Rightarrow> nat \<Rightarrow> Page" where
  "heap_page heap Bytes I =
     \<lparr>Pg_Ptr = Some (heap + I * Bytes), Pg_Len = Bytes, Pg_Capacity = Bytes, Pg_Home = None, Pg_Hook = False, Pg_Index = 0\<rparr>"

definition claim :: "(nat \<Rightarrow> nat option) \<Rightarrow> nat \<Rightarrow> u64 \<Rightarrow> nat \<Rightarrow> AddressSpace \<Rightarrow> Memory \<Rightarrow> AddressSpace \<times> Memory" where
  "claim base heap Bytes Count A M =
     (let (A, M) = space_release A M
      in if Bytes = 0 \<or> Count = 0 then (A, M)
      else let A = A\<lparr>AS_PageBytes := unat Bytes\<rparr>;
               (Taken, M) = claim_runs base Bytes Count [] M
      in if length Taken = Count then (A\<lparr>AS_Held := Taken, AS_Views := map (borrow 0 (unat Bytes)) Taken\<rparr>, M)
         else (A\<lparr>AS_Heap := unat Bytes * Count, AS_Views := map (heap_page heap (unat Bytes)) [0..<Count]\<rparr>, M))"

definition rebase :: "nat \<Rightarrow> AddressSpace \<Rightarrow> AddressSpace" where
  "rebase Start A = A\<lparr>AS_Base := Start\<rparr>"

definition capacity :: "AddressSpace \<Rightarrow> nat" where
  "capacity A = length (AS_Views A) * AS_PageBytes A"

record Mapping =
  Map_Where :: "Page option"
  Map_Offset :: nat
  Map_Length :: nat

definition Mapping_none :: Mapping where
  "Mapping_none = \<lparr>Map_Where = None, Map_Offset = 0, Map_Length = 0\<rparr>"

definition space_at :: "AddressSpace \<Rightarrow> nat \<Rightarrow> nat \<Rightarrow> Mapping" where
  "space_at A Offset Length =
     (if AS_Views A = [] \<or> Offset < AS_Base A then Mapping_none
      else let Into = Offset - AS_Base A; Index = Into div AS_PageBytes A
      in if Index \<ge> length (AS_Views A) then Mapping_none
      else let Within = Into mod AS_PageBytes A
      in \<lparr>Map_Where = Some (AS_Views A ! Index), Map_Offset = Within, Map_Length = min Length (AS_PageBytes A - Within)\<rparr>)"

section \<open>Source and sink\<close>

record space =
  Sp_Space :: AddressSpace
  Sp_Store :: "nat \<Rightarrow> byte"

definition read_store :: "(nat \<Rightarrow> byte) \<Rightarrow> nat \<Rightarrow> nat \<Rightarrow> byte list" where
  "read_store st P n = map (\<lambda>i. st (P + i)) [0..<n]"

definition write_store :: "nat \<Rightarrow> byte list \<Rightarrow> (nat \<Rightarrow> byte) \<Rightarrow> nat \<Rightarrow> byte" where
  "write_store P Src st = (\<lambda>a. if P \<le> a \<and> a < P + length Src then Src ! (a - P) else st a)"

definition space_read :: "space \<Rightarrow> nat \<Rightarrow> nat \<Rightarrow> byte list Result" where
  "space_read S Want Offset =
     (let W = space_at (Sp_Space S) Offset Want
      in case Map_Where W of
           None \<Rightarrow> failMessage ''a streamed read started outside the address space''
         | Some Pg \<Rightarrow> Inr (read_store (Sp_Store S) (the (Pg_Ptr Pg) + Map_Offset W) (min Want (Map_Length W))))"

definition space_write :: "space \<Rightarrow> byte list \<Rightarrow> nat \<Rightarrow> nat Result \<times> space" where
  "space_write S Src Offset =
     (let W = space_at (Sp_Space S) Offset (length Src)
      in case Map_Where W of
           None \<Rightarrow> (failMessage ''a streamed write landed outside the address space'', S)
         | Some Pg \<Rightarrow>
             if Map_Length W \<noteq> length Src then (failMessage ''a streamed write landed outside the address space'', S)
             else (Inr (length Src), S\<lparr>Sp_Store := write_store (the (Pg_Ptr Pg) + Map_Offset W) Src (Sp_Store S)\<rparr>))"

text \<open>The page the fabric may write or read in place of a copy; both directions use one rule.\<close>

definition landing :: "AddressSpace \<Rightarrow> nat \<Rightarrow> nat \<Rightarrow> Page option" where
  "landing A Offset Length =
     (let W = space_at A Offset Length
      in case Map_Where W of
           None \<Rightarrow> None
         | Some Pg \<Rightarrow> if Map_Offset W \<noteq> 0 \<or> Map_Length W \<noteq> Length then None
             else if Pg_Home Pg = None then None else Some Pg)"

section \<open>A flat window\<close>

definition page_bytes :: "(nat \<Rightarrow> byte) \<Rightarrow> Page \<Rightarrow> byte list" where
  "page_bytes st Pg = read_store st (the (Pg_Ptr Pg)) (Pg_Len Pg)"

definition page_range :: "Page \<Rightarrow> nat set" where
  "page_range Pg = (case Pg_Ptr Pg of None \<Rightarrow> {} | Some P \<Rightarrow> {P..<P + Pg_Len Pg})"

definition space_contents :: "space \<Rightarrow> byte list" where
  "space_contents S = concat (map (page_bytes (Sp_Store S)) (AS_Views (Sp_Space S)))"

definition views_apart :: "Page list \<Rightarrow> bool" where
  "views_apart vs \<longleftrightarrow> (\<forall>i j. i < j \<longrightarrow> j < length vs \<longrightarrow> page_range (vs ! i) \<inter> page_range (vs ! j) = {})"

definition space_sound :: "space \<Rightarrow> bool" where
  "space_sound S \<longleftrightarrow>
     (AS_Views (Sp_Space S) \<noteq> [] \<longrightarrow> 0 < AS_PageBytes (Sp_Space S)) \<and>
     (\<forall>Pg \<in> set (AS_Views (Sp_Space S)). Pg_Ptr Pg \<noteq> None \<and> Pg_Len Pg = AS_PageBytes (Sp_Space S)) \<and>
     views_apart (AS_Views (Sp_Space S))"

lemma space_at_cases:
  assumes "0 < AS_PageBytes A"
  shows "Map_Where (space_at A Offset Length) = None \<longleftrightarrow> \<not> (AS_Base A \<le> Offset \<and> Offset - AS_Base A < capacity A)"
proof (cases "AS_Views A = [] \<or> Offset < AS_Base A")
  case True
  then show ?thesis by (auto simp: space_at_def Mapping_none_def capacity_def)
next
  case False
  have "length (AS_Views A) \<le> (Offset - AS_Base A) div AS_PageBytes A \<longleftrightarrow> capacity A \<le> Offset - AS_Base A"
    using assms by (simp add: capacity_def less_eq_div_iff_mult_less_eq)
  with False show ?thesis by (auto simp: space_at_def Mapping_none_def Let_def not_less)
qed

lemma length_read_store [simp]: "length (read_store st P n) = n"
  by (simp add: read_store_def)

lemma read_store_slice: "w + n \<le> m \<Longrightarrow> read_store st (P + w) n = take n (drop w (read_store st P m))"
  by (intro nth_equalityI) (simp_all add: read_store_def add.assoc)

lemma concat_slice:
  assumes "\<forall>x \<in> set xss. length x = b" and "i < length xss" and "w + n \<le> b"
  shows "take n (drop (i * b + w) (concat xss)) = take n (drop w (xss ! i)) \<and> i * b + w + n \<le> length (concat xss)"
  using assms
proof (induction xss arbitrary: i)
  case Nil
  then show ?case by simp
next
  case (Cons x xss)
  then show ?case by (cases i) (auto simp: drop_append take_append add.assoc)
qed

lemma concat_patch:
  assumes "\<forall>x \<in> set xss. length x = b" and "i < length xss" and "w + length Src \<le> b"
  shows "concat (xss[i := patch w Src (xss ! i)]) = patch (i * b + w) Src (concat xss)"
  using assms
proof (induction xss arbitrary: i)
  case Nil
  then show ?case by simp
next
  case (Cons x xss)
  then show ?case by (cases i) (auto simp: patch_def drop_append take_append add.assoc)
qed

lemma length_concat_same: "\<forall>x \<in> set xss. length x = b \<Longrightarrow> length (concat xss) = length xss * b"
  by (induction xss) auto

lemma length_space_contents: "space_sound S \<Longrightarrow> length (space_contents S) = capacity (Sp_Space S)"
  unfolding space_contents_def capacity_def
  by (subst length_concat_same [of _ "AS_PageBytes (Sp_Space S)"]) (auto simp: page_bytes_def space_sound_def)

lemma page_bytes_write:
  assumes "Pg_Ptr Pg = Some P" and "w + length Src \<le> Pg_Len Pg"
  shows "page_bytes (write_store (P + w) Src st) Pg = patch w Src (page_bytes st Pg)"
  using assms by (intro nth_equalityI) (auto simp: page_bytes_def read_store_def write_store_def nth_patch)

lemma page_bytes_other:
  assumes "page_range Pg \<inter> {P..<P + length Src} = {}" and "Pg_Ptr Pg \<noteq> None"
  shows "page_bytes (write_store P Src st) Pg = page_bytes st Pg"
  using assms by (auto simp: page_bytes_def read_store_def write_store_def page_range_def disjoint_iff)

text \<open>A write within one page changes that page of the window only.\<close>

lemma pages_write:
  assumes "space_sound S" and "i < length (AS_Views (Sp_Space S))" and "w + length Src \<le> AS_PageBytes (Sp_Space S)"
  defines "vs \<equiv> AS_Views (Sp_Space S)"
  defines "st \<equiv> write_store (the (Pg_Ptr (vs ! i)) + w) Src (Sp_Store S)"
  shows "map (page_bytes st) vs = (map (page_bytes (Sp_Store S)) vs)[i := patch w Src (page_bytes (Sp_Store S) (vs ! i))]"
proof (rule nth_equalityI)
  fix j assume "j < length (map (page_bytes st) vs)"
  then have j: "j < length vs" by simp
  obtain P where P: "Pg_Ptr (vs ! i) = Some P" "Pg_Len (vs ! i) = AS_PageBytes (Sp_Space S)"
    using assms(1) nth_mem [OF assms(2)] by (fastforce simp: space_sound_def vs_def)
  show "map (page_bytes st) vs ! j = (map (page_bytes (Sp_Store S)) vs)[i := patch w Src (page_bytes (Sp_Store S) (vs ! i))] ! j"
  proof (cases "j = i")
    case True
    then show ?thesis using j P assms(3) page_bytes_write [of "vs ! i" P w Src] by (simp add: st_def)
  next
    case False
    have "page_range (vs ! j) \<inter> page_range (vs ! i) = {}"
      using assms(1) j False assms(2) unfolding space_sound_def views_apart_def vs_def by (metis Int_commute nat_neq_iff)
    moreover have "{P + w..<P + w + length Src} \<subseteq> page_range (vs ! i)" using P assms(3) by (auto simp: page_range_def)
    ultimately have "page_range (vs ! j) \<inter> {P + w..<P + w + length Src} = {}" by blast
    moreover have "Pg_Ptr (vs ! j) \<noteq> None" using assms(1) j by (auto simp: space_sound_def vs_def)
    ultimately show ?thesis using j False P page_bytes_other by (simp add: st_def)
  qed
qed simp

lemma space_at_some:
  assumes "space_sound S" and "Map_Where (space_at (Sp_Space S) Offset n) = Some Pg"
  defines "A \<equiv> Sp_Space S"
  obtains i w where "i < length (AS_Views A)" and "Pg = AS_Views A ! i" and "w < AS_PageBytes A" and "AS_Base A \<le> Offset"
    and "Offset - AS_Base A = i * AS_PageBytes A + w" and "Map_Offset (space_at A Offset n) = w"
    and "Map_Length (space_at A Offset n) = min n (AS_PageBytes A - w)"
proof -
  have ne: "AS_Views A \<noteq> []" "AS_Base A \<le> Offset" "(Offset - AS_Base A) div AS_PageBytes A < length (AS_Views A)"
    using assms(2) by (auto simp: space_at_def Mapping_none_def Let_def A_def split: if_splits)
  then have "0 < AS_PageBytes A" using assms(1) by (simp add: space_sound_def A_def)
  with ne that [of "(Offset - AS_Base A) div AS_PageBytes A" "(Offset - AS_Base A) mod AS_PageBytes A"] assms(2) show thesis
    by (simp add: space_at_def Let_def A_def)
qed

lemma page_bytes_length: "space_sound S \<Longrightarrow> \<forall>x \<in> set (map (page_bytes st) (AS_Views (Sp_Space S))). length x = AS_PageBytes (Sp_Space S)"
  by (auto simp: space_sound_def page_bytes_def)

lemma space_write_ok:
  assumes "space_sound S" and "space_write S Src Offset = (Inr n, S')"
  shows "space_sound S' \<and> AS_Base (Sp_Space S') = AS_Base (Sp_Space S) \<and> n = length Src \<and> AS_Base (Sp_Space S) \<le> Offset \<and>
    Offset - AS_Base (Sp_Space S) + length Src \<le> length (space_contents S) \<and>
    space_contents S' = patch (Offset - AS_Base (Sp_Space S)) Src (space_contents S)"
proof -
  let ?A = "Sp_Space S"
  obtain Pg where Pg: "Map_Where (space_at ?A Offset (length Src)) = Some Pg" "Map_Length (space_at ?A Offset (length Src)) = length Src"
    "n = length Src" "S' = S\<lparr>Sp_Store := write_store (the (Pg_Ptr Pg) + Map_Offset (space_at ?A Offset (length Src))) Src (Sp_Store S)\<rparr>"
    using assms(2) by (auto simp: space_write_def Let_def failMessage_def fail_def split: option.splits if_splits)
  obtain i w where i: "i < length (AS_Views ?A)" "Pg = AS_Views ?A ! i" "w < AS_PageBytes ?A" "AS_Base ?A \<le> Offset"
    "Offset - AS_Base ?A = i * AS_PageBytes ?A + w" "Map_Offset (space_at ?A Offset (length Src)) = w"
    "Map_Length (space_at ?A Offset (length Src)) = min (length Src) (AS_PageBytes ?A - w)"
    by (rule space_at_some [OF assms(1) Pg(1)])
  have fits: "w + length Src \<le> AS_PageBytes ?A" using Pg(2) i(3,7) by simp
  have "space_contents S' = patch (i * AS_PageBytes ?A + w) Src (space_contents S)"
    using pages_write [OF assms(1) i(1) fits] concat_patch [OF page_bytes_length [OF assms(1), of "Sp_Store S"], of i w Src] i(1,2,6) fits Pg(4)
    by (simp add: space_contents_def)
  moreover have "i * AS_PageBytes ?A + w + length Src \<le> length (space_contents S)"
    using concat_slice [OF page_bytes_length [OF assms(1), of "Sp_Store S"], of i w "length Src"] i(1) fits by (simp add: space_contents_def)
  ultimately show ?thesis using assms(1) Pg(3,4) i(4,5) by (simp add: space_sound_def)
qed

interpretation space_sink: page_sink space_write space_contents "\<lambda>S. AS_Base (Sp_Space S)" space_sound
  by unfold_locales (use space_write_ok in blast,
      auto simp: space_write_def Let_def failMessage_def fail_def split: option.splits if_splits)

lemma space_read_ok:
  assumes "space_sound S" and "space_read S Want Offset = Inr Bs"
  shows "AS_Base (Sp_Space S) \<le> Offset \<and> length Bs \<le> Want \<and>
    length Bs \<le> length (space_contents S) - (Offset - AS_Base (Sp_Space S)) \<and>
    Bs = take (length Bs) (drop (Offset - AS_Base (Sp_Space S)) (space_contents S))"
proof -
  let ?A = "Sp_Space S"
  obtain Pg where Pg: "Map_Where (space_at ?A Offset Want) = Some Pg"
    "Bs = read_store (Sp_Store S) (the (Pg_Ptr Pg) + Map_Offset (space_at ?A Offset Want)) (min Want (Map_Length (space_at ?A Offset Want)))"
    using assms(2) by (auto simp: space_read_def Let_def failMessage_def fail_def split: option.splits)
  obtain i w where i: "i < length (AS_Views ?A)" "Pg = AS_Views ?A ! i" "w < AS_PageBytes ?A" "AS_Base ?A \<le> Offset"
    "Offset - AS_Base ?A = i * AS_PageBytes ?A + w" "Map_Offset (space_at ?A Offset Want) = w"
    "Map_Length (space_at ?A Offset Want) = min Want (AS_PageBytes ?A - w)"
    by (rule space_at_some [OF assms(1) Pg(1)])
  let ?n = "min Want (AS_PageBytes ?A - w)"
  have len: "Pg_Len Pg = AS_PageBytes ?A" using assms(1) nth_mem [OF i(1)] i(2) by (simp add: space_sound_def)
  have "Bs = take ?n (drop w (page_bytes (Sp_Store S) Pg))"
    using Pg(2) i(3,6,7) len read_store_slice [of w ?n "AS_PageBytes ?A"] by (simp add: page_bytes_def)
  moreover have L: "length Bs = ?n" using Pg(2) i(7) by simp
  moreover have "w + ?n \<le> AS_PageBytes ?A" using i(3) by simp
  note sl = concat_slice [OF page_bytes_length [OF assms(1), of "Sp_Store S"] _ this, of i]
  then have "take ?n (drop (Offset - AS_Base ?A) (space_contents S)) = take ?n (drop w (page_bytes (Sp_Store S) Pg))"
    "i * AS_PageBytes ?A + w + ?n \<le> length (space_contents S)"
    using i(1,2,5) by (simp_all add: space_contents_def)
  moreover from this(2) have "?n \<le> length (space_contents S) - (Offset - AS_Base ?A)" unfolding i(5) by linarith
  ultimately show ?thesis using i(4) by simp
qed

lemma space_read_some:
  assumes "space_sound S" and "AS_Base (Sp_Space S) \<le> Offset" and "Offset - AS_Base (Sp_Space S) < length (space_contents S)" and "0 < Want"
  shows "\<exists>Bs. space_read S Want Offset = Inr Bs \<and> Bs \<noteq> []"
proof -
  let ?A = "Sp_Space S"
  have c: "Offset - AS_Base ?A < capacity ?A" using assms(3) length_space_contents [OF assms(1)] by simp
  then have "0 < AS_PageBytes ?A" by (cases "AS_PageBytes ?A") (auto simp: capacity_def)
  then obtain Pg where Pg: "Map_Where (space_at ?A Offset Want) = Some Pg"
    using space_at_cases [of ?A Offset Want] assms(2) c by auto
  obtain i w where "w < AS_PageBytes ?A" "Map_Length (space_at ?A Offset Want) = min Want (AS_PageBytes ?A - w)"
    by (rule space_at_some [OF assms(1) Pg])
  then show ?thesis using Pg assms(4) by (auto simp: space_read_def Let_def read_store_def)
qed

interpretation space_source: page_source space_read space_contents "\<lambda>S. AS_Base (Sp_Space S)" space_sound
  by unfold_locales (use space_read_ok in blast, use space_read_some in blast)

text \<open>
  C36. Pages that land in an address space, in any order and all accepted, are read back as
  they were sent: a read loop over the range of a page that no later page overlaps returns
  exactly its bytes, however it is cut at the page boundaries of the window, and needs no
  more reads than there are bytes.
\<close>

theorem space_roundtrip:
  assumes "space_sound S" and "land space_write S (ps @ (Offset, Src) # qs) = (Inr (), T)"
    and "\<forall>(Offset', Src') \<in> set qs. Offset + length Src \<le> Offset' \<or> Offset' + length Src' \<le> Offset"
  shows "drain space_read (length Src) T (length Src) Offset = Some Src"
proof -
  have k: "space_sound T" "AS_Base (Sp_Space T) = AS_Base (Sp_Space S)"
    using space_sink.land_keeps [OF assms(2,1)] by auto
  have w: "AS_Base (Sp_Space S) \<le> Offset" "take (length Src) (drop (Offset - AS_Base (Sp_Space S)) (space_contents T)) = Src"
    using space_sink.land_all [OF assms(2,1,3)] by auto
  show ?thesis
  proof (cases "Src = []")
    case False
    have "length (take (length Src) (drop (Offset - AS_Base (Sp_Space S)) (space_contents T))) = length Src"
      using w(2) by (rule arg_cong)
    then have "length Src \<le> length (space_contents T) - (Offset - AS_Base (Sp_Space S))" by simp
    moreover have "0 < length Src" using False by simp
    ultimately have "Offset - AS_Base (Sp_Space T) + length Src \<le> length (space_contents T)" using k(2) by linarith
    from space_source.drain_all [OF k(1) _ this] show ?thesis using w k(2) by simp
  qed (simp add: drain.simps)
qed

definition sample_space :: space where
  "sample_space = \<lparr>Sp_Space = \<lparr>AS_Held = [], AS_Heap = 4, AS_Views = [heap_page 10 2 0, heap_page 10 2 1], AS_PageBytes = 2, AS_Base = 6\<rparr>,
     Sp_Store = (\<lambda>_. 0)\<rparr>"

theorem space_roundtrip_witness:
  "drain space_read 2 (snd (land space_write sample_space [(8, [7, 9]), (6, [5])])) 2 8 = Some [7, 9]"
proof -
  let ?T = "snd (land space_write sample_space [(8, [7, 9]), (6, [5])])"
  have "space_sound sample_space"
    by (auto simp: space_sound_def sample_space_def views_apart_def heap_page_def page_range_def less_Suc_eq)
  moreover have "land space_write sample_space ([] @ (8, [7, 9]) # [(6, [5])]) = (Inr (), ?T)"
    by (simp add: sample_space_def space_write_def space_at_def heap_page_def)
  ultimately show ?thesis using space_roundtrip [of sample_space "[]" 8 "[7, 9]" "[(6, [5])]" ?T] by (simp add: numeral_2_eq_2)
qed

section \<open>Claimed pages\<close>

lemma alloc_steps:
  assumes "\<not> S_Growing S" and "alloc base Bytes (S_Memory S) = (R, M)"
  shows "mem_step\<^sup>*\<^sup>* S (S\<lparr>S_Memory := M, S_Live := (if Run_valid R then R # S_Live S else S_Live S)\<rparr>)"
proof -
  let ?M = "S_Memory S" and ?n = "unat (framesFor Bytes (M_FrameSize (S_Memory S)))"
  have take: "mem_step T (T\<lparr>S_Memory := N, S_Live := R # S_Live T\<rparr>)"
    if "takeLocked n (S_Memory T) = (R, N)" "Run_valid R" for T n N R
    using taken that by blast
  have same: "S\<lparr>S_Memory := ?M, S_Live := S_Live S\<rparr> = S" by simp
  show ?thesis
  proof (cases "Bytes = 0 \<or> unat (M_RegionBytes ?M div M_FrameSize ?M) < ?n")
    case True
    then have "R = Run_null" "M = ?M \<or> M = exhausted ?M"
      using assms(2) by (auto simp: alloc_def Let_def word_less_nat_alt split: if_splits)
    then show ?thesis using refused [of S] by (auto simp: Run_valid_def Run_null_def)
  next
    case False
    then have a: "Bytes \<noteq> 0" "\<not> M_RegionBytes ?M div M_FrameSize ?M < framesFor Bytes (M_FrameSize ?M)"
      by (auto simp: word_less_nat_alt)
    obtain R1 M1 where t1: "takeLocked ?n ?M = (R1, M1)" by fastforce
    show ?thesis
    proof (cases "Run_valid R1")
      case True
      then have "R = R1" "M = M1" using assms(2) a t1 by (simp_all add: alloc_def Let_def)
      with take [OF t1 True] True show ?thesis by auto
    next
      case nv: False
      then have m1: "M1 = ?M" using takeLocked_invalid [of ?n ?M] t1 by simp
      obtain g M2 where g: "growLocked base ?M = (g, M2)" by fastforce
      show ?thesis
      proof (cases g)
        case False
        then have "M2 = ?M" using g by (auto simp: growLocked_def split: if_splits option.splits)
        then have "R = Run_null" "M = exhausted ?M"
          using assms(2) a t1 nv m1 g False by (simp_all add: alloc_def Let_def)
        then show ?thesis using refused [of S] by (auto simp: Run_valid_def Run_null_def)
      next
        case True
        then obtain Fresh where f: "build base ?M = Some Fresh" "M2 = push_region Fresh ?M"
          "length (M_Regions ?M) < M_RegionCeiling ?M"
          using g by (auto simp: growLocked_def split: if_splits option.splits)
        let ?S1 = "S\<lparr>S_Growing := True\<rparr>" and ?S2 = "S\<lparr>S_Memory := M2\<rparr>"
        have "mem_step S ?S1" by (rule grow_begins [OF assms(1) f(3)])
        moreover have "mem_step ?S1 ?S2" using grown [of ?S1 base Fresh] f(1,2) assms(1) by (cases S) simp
        ultimately have up: "mem_step\<^sup>*\<^sup>* S ?S2" by (rule rtranclp.intros(2) [OF r_into_rtranclp])
        obtain R3 M3 where t3: "takeLocked ?n M2 = (R3, M3)" by fastforce
        have r: "R = R3" "M = (if Run_valid R3 then M3 else exhausted M3)"
          using assms(2) a t1 nv m1 g True t3 by (auto simp: alloc_def Let_def split: if_splits)
        have "mem_step ?S2 (S\<lparr>S_Memory := M, S_Live := (if Run_valid R then R # S_Live S else S_Live S)\<rparr>)"
        proof (cases "Run_valid R3")
          case True
          then show ?thesis using take [of ?n ?S2 R3 M3] t3 r by simp
        next
          case False
          then have "M3 = M2" using takeLocked_invalid [of ?n M2] t3 by simp
          then show ?thesis using refused [of ?S2] r False by simp
        qed
        with up show ?thesis by (rule rtranclp.intros(2))
      qed
    qed
  qed
qed

text \<open>Claimed runs join those that are out, newest first.\<close>

lemma claim_runs_steps:
  assumes "claim_runs base Bytes n Taken (S_Memory S) = (Rs, M)" and "length Rs = length Taken + n" and "\<not> S_Growing S"
    and "S_Live S = rev Taken @ L" and "\<forall>R \<in> set Taken. Run_valid R \<and> unat Bytes \<le> Run_Length R"
    and "0 < M_FrameSize (S_Memory S)" and "unat Bytes + unat (M_FrameSize (S_Memory S)) \<le> 2 ^ 64" and "0 < n + length Taken"
  shows "mem_step\<^sup>*\<^sup>* S (S\<lparr>S_Memory := M, S_Live := rev Rs @ L\<rparr>) \<and> (\<forall>R \<in> set Rs. Run_valid R \<and> unat Bytes \<le> Run_Length R)"
  using assms
proof (induction n arbitrary: Taken S)
  case 0
  then show ?case by (cases S) simp
next
  case (Suc n)
  obtain One M1 where a: "alloc (base n) Bytes (S_Memory S) = (One, M1)" by fastforce
  have v: "Run_valid One" using Suc.prems(1,2) a by (auto split: if_splits)
  then have c: "claim_runs base Bytes n (Taken @ [One]) M1 = (Rs, M)" using Suc.prems(1) a by simp
  let ?S = "S\<lparr>S_Memory := M1, S_Live := One # S_Live S\<rparr>"
  have up: "mem_step\<^sup>*\<^sup>* S ?S" using alloc_steps [OF Suc.prems(3) a] v by simp
  have fs: "M_FrameSize M1 = M_FrameSize (S_Memory S)" using mem_steps_frame_size [OF up] by simp
  have "0 < unat (M_FrameSize (S_Memory S))" using Suc.prems(6) by (simp add: word_less_nat_alt)
  then have "unat Bytes \<le> Run_Length One"
    using alloc_length [OF Suc.prems(6,7), of "base n"] frames_length(1) a v by simp
  then have "mem_step\<^sup>*\<^sup>* ?S (?S\<lparr>S_Memory := M, S_Live := rev Rs @ L\<rparr>) \<and> (\<forall>R \<in> set Rs. Run_valid R \<and> unat Bytes \<le> Run_Length R)"
    by (intro Suc.IH [of "Taken @ [One]" ?S]) (use c Suc.prems v fs in auto)
  with up show ?case by auto
qed

lemma borrow_range:
  assumes "Run_valid R" and "n \<le> Run_Length R"
  shows "page_range (borrow 0 n R) \<subseteq> run_bytes R" and "Pg_Ptr (borrow 0 n R) \<noteq> None" and "Pg_Len (borrow 0 n R) = n"
  using assms by (auto simp: borrow_def Run_valid_def run_bytes_def page_range_def)

lemma heap_pages_apart: "views_apart (map (heap_page heap b) [0..<n])"
proof -
  have "page_range (heap_page heap b i) \<inter> page_range (heap_page heap b j) = {}" if "i < j" for i j
  proof -
    have "Suc i * b \<le> j * b" using that by (intro mult_le_mono1) simp
    then show ?thesis by (auto simp: page_range_def heap_page_def)
  qed
  then show ?thesis by (simp add: views_apart_def)
qed

lemma rev_nth_live: "i < length Rs \<Longrightarrow> (rev Rs @ L) ! (length Rs - Suc i) = Rs ! i"
  by (auto simp: nth_append rev_nth)

text \<open>
  Claiming pages always succeeds with as many pages as asked for, each of the size asked
  for: whether they are registered or fall back to the heap, no two of them share a byte, and
  registered ones share none with any run that was already out. So the window is sound for
  any contents of memory.
\<close>

theorem claim_pages_apart:
  assumes "mem_step\<^sup>*\<^sup>* (mem_start Regions RegionBytes FrameSize) S" and "\<not> S_Growing S" and "AS_Held A = []"
    and "claim base heap Bytes Count A (S_Memory S) = (A', M)" and "blocks_apart M"
    and "Bytes \<noteq> 0" and "Count \<noteq> 0" and "0 < M_FrameSize (S_Memory S)" and "unat Bytes + unat (M_FrameSize (S_Memory S)) \<le> 2 ^ 64"
  shows "length (AS_Views A') = Count \<and> AS_PageBytes A' = unat Bytes \<and> space_sound \<lparr>Sp_Space = A', Sp_Store = st\<rparr> \<and>
    (AS_Held A' \<noteq> [] \<longrightarrow> (\<forall>Pg \<in> set (AS_Views A'). \<forall>R \<in> set (S_Live S). page_range Pg \<inter> run_bytes R = {}))"
proof -
  have b: "0 < unat Bytes" using assms(6) by (simp add: unat_gt_0)
  obtain Rs M' where c: "claim_runs base Bytes Count [] (S_Memory S) = (Rs, M')" by fastforce
  have A': "if length Rs = Count
    then AS_Held A' = Rs \<and> AS_Views A' = map (borrow 0 (unat Bytes)) Rs \<and> AS_PageBytes A' = unat Bytes \<and> M = M'
    else AS_Held A' = [] \<and> AS_Views A' = map (heap_page heap (unat Bytes)) [0..<Count] \<and> AS_PageBytes A' = unat Bytes"
    using assms(3,4,6,7) c by (auto simp: claim_def space_release_def Let_def)
  show ?thesis
  proof (cases "length Rs = Count")
    case False
    then show ?thesis using A' b heap_pages_apart [of heap "unat Bytes" Count]
      by (auto simp: space_sound_def heap_page_def)
  next
    case True
    let ?S = "S\<lparr>S_Memory := M', S_Live := rev Rs @ S_Live S\<rparr>"
    have r: "mem_step\<^sup>*\<^sup>* S ?S" "\<forall>R \<in> set Rs. Run_valid R \<and> unat Bytes \<le> Run_Length R"
      using claim_runs_steps [OF c, of "S_Live S"] True assms(2,7-9) by auto
    have inv: "mem_inv ?S"
      using memory.reachable_inv [of Regions RegionBytes FrameSize ?S] rtranclp_trans [OF assms(1) r(1)] by (simp add: memory.reachable_def)
    have apart: "run_bytes ((rev Rs @ S_Live S) ! i) \<inter> run_bytes ((rev Rs @ S_Live S) ! j) = {}"
      if "i < length (rev Rs @ S_Live S)" "j < length (rev Rs @ S_Live S)" "i \<noteq> j" for i j
      using live_runs_apart [OF inv _ _ _ that(3)] that(1,2) assms(5) A' True by simp
    have page: "page_range (borrow 0 (unat Bytes) R) \<subseteq> run_bytes R" "Pg_Ptr (borrow 0 (unat Bytes) R) \<noteq> None"
      "Pg_Len (borrow 0 (unat Bytes) R) = unat Bytes" if "R \<in> set Rs" for R
      using borrow_range r(2) that by blast+
    have "page_range (borrow 0 (unat Bytes) (Rs ! i)) \<inter> page_range (borrow 0 (unat Bytes) (Rs ! j)) = {}"
      if "i < j" "j < length Rs" for i j
    proof -
      have "run_bytes (Rs ! i) \<inter> run_bytes (Rs ! j) = {}"
        using apart [of "length Rs - Suc i" "length Rs - Suc j"] that by (simp add: rev_nth_live)
      then show ?thesis using page(1) [of "Rs ! i"] page(1) [of "Rs ! j"] that by fastforce
    qed
    then have "views_apart (map (borrow 0 (unat Bytes)) Rs)" by (simp add: views_apart_def)
    moreover have "page_range (borrow 0 (unat Bytes) R') \<inter> run_bytes R = {}" if R: "R' \<in> set Rs" "R \<in> set (S_Live S)" for R R'
    proof -
      obtain i j where ij: "i < length Rs" "R' = Rs ! i" "j < length (S_Live S)" "R = S_Live S ! j"
        using R by (auto simp: in_set_conv_nth)
      have "run_bytes R' \<inter> run_bytes R = {}"
        using apart [of "length Rs - Suc i" "length Rs + j"] ij by (simp add: rev_nth_live) (simp add: nth_append)
      then show ?thesis using page(1) [OF R(1)] by blast
    qed
    ultimately show ?thesis using A' True b page(2,3) by (auto simp: space_sound_def)
  qed
qed

theorem claim_pages_apart_witness:
  "let (A, M) = claim (\<lambda>_. None) 500 1 2 AddressSpace_new (S_Memory (sample_system [False, False, False] []))
   in map Pg_Ptr (AS_Views A) = [Some 100, Some 101] \<and> space_sound \<lparr>Sp_Space = A, Sp_Store = (\<lambda>_. 0)\<rparr>"
proof -
  let ?S = "sample_system [False, False, False] []"
  have e: "case claim (\<lambda>_. None) 500 1 2 AddressSpace_new (S_Memory ?S) of
      (A, M) \<Rightarrow> map Pg_Ptr (AS_Views A) = [Some 100, Some 101] \<and> length (M_Regions M) = 1"
    by code_simp
  obtain A M where c: "claim (\<lambda>_. None) 500 1 2 AddressSpace_new (S_Memory ?S) = (A, M)" by fastforce
  then have v: "map Pg_Ptr (AS_Views A) = [Some 100, Some 101]" "length (M_Regions M) = 1" using e by simp_all
  have "space_sound \<lparr>Sp_Space = A, Sp_Store = (\<lambda>_. 0)\<rparr>"
    using claim_pages_apart [OF sample_grown_reachable _ _ c, of "\<lambda>_. 0"] v(2)
    by (simp add: sample_system_def AddressSpace_new_def blocks_apart_def)
  with v(1) c show ?thesis by simp
qed

end
