(* ===== verification/PagePool.thy ===== *)
theory PagePool
  imports AddressSpace
begin

text \<open>
  \<^verbatim>\<open>src/page-pool.cc\<close>: a fixed number of registered pages that coroutines borrow. The free list
  is a stack of page indices; a coroutine that finds it empty waits, and a page that comes back
  wakes the first one. The theorems show that no page is ever lent twice or lost and that a
  woken coroutine that finds the pool empty again queues again; and that a coroutine destroyed
  between being woken and running leaves its page free with others still asleep.
\<close>

section \<open>State and operations\<close>

record PagePool =
  PP_Slots :: "Run list"
  PP_PageCount :: nat
  PP_PageSize :: u64
  PP_FreeList :: "nat list"
  PP_Waiters :: "nat list"

definition backed :: "PagePool \<Rightarrow> bool" where
  "backed P \<longleftrightarrow> length (PP_Slots P) = PP_PageCount P"

text \<open>The allocation loop of the constructor gives up, and gives back, on the first refusal.\<close>

definition PagePool_new :: "(nat \<Rightarrow> nat option) \<Rightarrow> nat \<Rightarrow> u64 \<Rightarrow> Memory \<Rightarrow> PagePool \<times> Memory" where
  "PagePool_new base PageCount PageSize M =
     (let (Slots, M) = claim_runs base PageSize PageCount [] M
      in (\<lparr>PP_Slots = Slots, PP_PageCount = PageCount, PP_PageSize = PageSize,
           PP_FreeList = (if length Slots = PageCount then rev [0..<PageCount] else []), PP_Waiters = []\<rparr>, M))"

text \<open>The free list's back is its last element.\<close>

definition take_page :: "PagePool \<Rightarrow> Page \<times> PagePool" where
  "take_page P =
     (let Index = last (PP_FreeList P); R = PP_Slots P ! Index
      in (\<lparr>Pg_Ptr = Run_Ptr R, Pg_Len = unat (PP_PageSize P), Pg_Capacity = unat (PP_PageSize P), Pg_Home = Run_Home R,
           Pg_Hook = True, Pg_Index = Index\<rparr>,
          P\<lparr>PP_FreeList := butlast (PP_FreeList P)\<rparr>))"

text \<open>The handle woken, if any, goes to the event loop.\<close>

definition releaseIndex :: "nat \<Rightarrow> PagePool \<Rightarrow> nat option \<times> PagePool" where
  "releaseIndex Index P =
     (let P = P\<lparr>PP_FreeList := PP_FreeList P @ [Index]\<rparr>
      in case PP_Waiters P of
           [] \<Rightarrow> (None, P)
         | H # ws \<Rightarrow> (Some H, P\<lparr>PP_Waiters := ws\<rparr>))"

definition suspend :: "nat \<Rightarrow> PagePool \<Rightarrow> PagePool" where
  "suspend h P = P\<lparr>PP_Waiters := PP_Waiters P @ [h]\<rparr>"

section \<open>Steps\<close>

text \<open>
  With the pool go the pages that are out, the coroutines whose awaiter is alive (\<open>PS_Queued\<close>)
  and those the loop will resume. A resumed coroutine goes round its loop: it takes a page or
  waits again. A page that goes out of use gives itself back through its hook.
\<close>

record pool_system =
  PS_Pool :: PagePool
  PS_Out :: "nat list"
  PS_Queued :: "nat set"
  PS_Scheduled :: "nat list"

definition enter :: "nat \<Rightarrow> pool_system \<Rightarrow> pool_system" where
  "enter h S =
     (if PP_FreeList (PS_Pool S) = []
      then S\<lparr>PS_Pool := suspend h (PS_Pool S), PS_Queued := insert h (PS_Queued S)\<rparr>
      else let (Pg, P) = take_page (PS_Pool S) in S\<lparr>PS_Pool := P, PS_Out := Pg_Index Pg # PS_Out S\<rparr>)"

definition hand_back :: "nat \<Rightarrow> pool_system \<Rightarrow> pool_system" where
  "hand_back i S =
     (let (H, P) = releaseIndex i (PS_Pool S)
      in S\<lparr>PS_Pool := P, PS_Out := remove1 i (PS_Out S),
           PS_Scheduled := PS_Scheduled S @ (case H of None \<Rightarrow> [] | Some h \<Rightarrow> [h])\<rparr>)"

inductive pool_step :: "pool_system \<Rightarrow> pool_system \<Rightarrow> bool" where
  acquires: "backed (PS_Pool S) \<Longrightarrow> h \<notin> PS_Queued S \<Longrightarrow> pool_step S (enter h S)"
| resumed: "h \<in> set (PS_Scheduled S) \<Longrightarrow>
    pool_step S (enter h (S\<lparr>PS_Scheduled := remove1 h (PS_Scheduled S), PS_Queued := PS_Queued S - {h}\<rparr>))"
| returned: "i \<in> set (PS_Out S) \<Longrightarrow> pool_step S (hand_back i S)"
| destroyed: "h \<in> PS_Queued S \<Longrightarrow>
    pool_step S (S\<lparr>PS_Pool := (PS_Pool S)\<lparr>PP_Waiters := filter (\<lambda>x. x \<noteq> h) (PP_Waiters (PS_Pool S))\<rparr>,
      PS_Queued := PS_Queued S - {h}, PS_Scheduled := filter (\<lambda>x. x \<noteq> h) (PS_Scheduled S)\<rparr>)"

definition pool_start :: "Run list \<Rightarrow> u64 \<Rightarrow> pool_system" where
  "pool_start Slots PageSize =
     \<lparr>PS_Pool = \<lparr>PP_Slots = Slots, PP_PageCount = length Slots, PP_PageSize = PageSize, PP_FreeList = rev [0..<length Slots], PP_Waiters = []\<rparr>,
      PS_Out = [], PS_Queued = {}, PS_Scheduled = []\<rparr>"

lemma PagePool_new_start:
  "PagePool_new base n PageSize M = (P, M') \<Longrightarrow> backed P \<Longrightarrow> PS_Pool (pool_start (PP_Slots P) PageSize) = P"
  by (auto simp: PagePool_new_def backed_def pool_start_def Let_def split: prod.splits if_splits)

section \<open>Conservation\<close>

definition pool_inv :: "Run list \<Rightarrow> pool_system \<Rightarrow> bool" where
  "pool_inv Slots S \<longleftrightarrow>
     PP_Slots (PS_Pool S) = Slots \<and> PP_PageCount (PS_Pool S) = length Slots \<and>
     distinct (PP_FreeList (PS_Pool S) @ PS_Out S) \<and> set (PP_FreeList (PS_Pool S) @ PS_Out S) = {..<length Slots} \<and>
     distinct (PP_Waiters (PS_Pool S) @ PS_Scheduled S) \<and> set (PP_Waiters (PS_Pool S) @ PS_Scheduled S) = PS_Queued S"

lemma pool_inv_enter:
  assumes "pool_inv Slots S" and "h \<notin> PS_Queued S"
  shows "pool_inv Slots (enter h S)"
proof (cases "PP_FreeList (PS_Pool S) = []")
  case True
  then show ?thesis using assms by (auto simp: pool_inv_def enter_def suspend_def)
next
  case False
  then obtain xs x where "PP_FreeList (PS_Pool S) = xs @ [x]" by (metis append_butlast_last_id)
  then show ?thesis using assms by (auto simp: pool_inv_def enter_def take_page_def Let_def)
qed

lemma pool_inv_step:
  assumes "pool_inv Slots S" and "pool_step S S'"
  shows "pool_inv Slots S'"
  using assms(2)
proof cases
  case (acquires h)
  then show ?thesis using pool_inv_enter [OF assms(1)] by simp
next
  case (resumed h)
  have "pool_inv Slots (S\<lparr>PS_Scheduled := remove1 h (PS_Scheduled S), PS_Queued := PS_Queued S - {h}\<rparr>)"
    using assms(1) resumed(2) by (auto simp: pool_inv_def)
  then show ?thesis using resumed(1) pool_inv_enter [of Slots _ h] by simp
next
  case (returned i)
  then show ?thesis using assms(1)
    by (cases "PP_Waiters (PS_Pool S)") (auto simp: pool_inv_def hand_back_def releaseIndex_def)
next
  case (destroyed h)
  then show ?thesis using assms(1) by (auto simp: pool_inv_def)
qed

interpretation pool: transition_system "pool_start Slots PageSize" pool_step "pool_inv Slots" for Slots PageSize
proof unfold_locales
  show "pool_inv Slots (pool_start Slots PageSize)" by (auto simp: pool_inv_def pool_start_def)
  show "pool_inv Slots S \<Longrightarrow> pool_step S S' \<Longrightarrow> pool_inv Slots S'" for S S' by (rule pool_inv_step)
qed

text \<open>
  C37. Whatever coroutines borrow, wait, return and are destroyed, every page of a pool is at
  any time either free or lent, and exactly once: none is lent to two borrowers, none is lost.
  A coroutine that waits is in the queue or about to run, and exactly once.
\<close>

theorem pool_conserves_pages:
  assumes "pool_step\<^sup>*\<^sup>* (pool_start Slots PageSize) S"
  shows "distinct (PP_FreeList (PS_Pool S) @ PS_Out S) \<and> set (PP_FreeList (PS_Pool S) @ PS_Out S) = {..<length Slots} \<and>
    distinct (PP_Waiters (PS_Pool S) @ PS_Scheduled S) \<and> set (PP_Waiters (PS_Pool S) @ PS_Scheduled S) = PS_Queued S"
  using pool.reachable_inv [of Slots PageSize S] assms by (simp add: pool.reachable_def pool_inv_def)

definition lent_once :: pool_system where
  "lent_once = \<lparr>PS_Pool = \<lparr>PP_Slots = [Run_null], PP_PageCount = 1, PP_PageSize = 8, PP_FreeList = [], PP_Waiters = [2, 3]\<rparr>,
     PS_Out = [0], PS_Queued = {2, 3}, PS_Scheduled = []\<rparr>"

lemma lent_once_reachable: "pool_step\<^sup>*\<^sup>* (pool_start [Run_null] 8) lent_once"
proof -
  let ?S0 = "pool_start [Run_null] 8"
  let ?S1 = "enter 1 ?S0" and ?S2 = "enter 2 (enter 1 ?S0)"
  note d = pool_start_def enter_def take_page_def suspend_def lent_once_def backed_def
  have s1: "pool_step ?S0 ?S1" by (rule acquires) (simp_all add: d)
  have s2: "pool_step ?S1 ?S2" by (rule acquires) (simp_all add: d)
  have "pool_step ?S2 (enter 3 ?S2)" by (rule acquires) (simp_all add: d)
  moreover have "enter 3 ?S2 = lent_once" by (simp add: d insert_commute)
  ultimately have s3: "pool_step ?S2 lent_once" by simp
  note step = converse_rtranclp_into_rtranclp [of pool_step]
  show ?thesis by (rule step [OF s1 step [OF s2 r_into_rtranclp [of pool_step, OF s3]]])
qed

theorem pool_conserves_pages_witness:
  "distinct (PP_FreeList (PS_Pool lent_once) @ PS_Out lent_once) \<and> set (PP_FreeList (PS_Pool lent_once) @ PS_Out lent_once) = {..<1}"
  using pool_conserves_pages [OF lent_once_reachable] by simp

section \<open>A lost wakeup\<close>

text \<open>
  A wakeup can be lost: when a page comes back and the coroutine it wakes is destroyed
  before it runs, the page stays free while the next coroutine in the queue goes on waiting.
  The run ends with every page of the pool free, nobody about to run, and a coroutine asleep.
\<close>

theorem pool_wakeup_lost:
  "\<exists>S. pool_step\<^sup>*\<^sup>* (pool_start [Run_null] 8) S \<and> PP_FreeList (PS_Pool S) = [0] \<and> PS_Out S = [] \<and>
     PS_Scheduled S = [] \<and> PP_Waiters (PS_Pool S) = [3]"
proof -
  let ?S1 = "hand_back 0 lent_once"
  let ?S2 = "?S1\<lparr>PS_Pool := (PS_Pool ?S1)\<lparr>PP_Waiters := filter (\<lambda>x. x \<noteq> 2) (PP_Waiters (PS_Pool ?S1))\<rparr>,
      PS_Queued := PS_Queued ?S1 - {2}, PS_Scheduled := filter (\<lambda>x. x \<noteq> 2) (PS_Scheduled ?S1)\<rparr>"
  note d = hand_back_def releaseIndex_def lent_once_def
  have s1: "pool_step lent_once ?S1" by (rule returned) (simp add: lent_once_def)
  have s2: "pool_step ?S1 ?S2" by (rule destroyed) (simp add: d)
  have r: "pool_step\<^sup>*\<^sup>* (pool_start [Run_null] 8) ?S2"
    by (rule rtranclp.intros(2) [OF rtranclp.intros(2) [OF lent_once_reachable s1] s2])
  show ?thesis by (intro exI [of _ ?S2] conjI, rule r) (simp_all add: d)
qed

end
