(* ===== verification/Xdr.thy ===== *)
theory Xdr
  imports Rail_Prelude "HOL-Library.State_Monad"
begin

text \<open>
  \<^verbatim>\<open>src/nfs/xdr.cc\<close>: the XDR encoding of the NFS server. The writer is its state (the bytes
  written, and a payload kept apart with its padding) with one function per method; the reader
  is a state monad over its three members, as the source threads them. The lemmas give, for
  every method of the reader, what it returns on what the matching method of the writer wrote,
  and that a failed read stays failed.
\<close>

section \<open>Writer\<close>

definition kMaxPad :: nat where
  "kMaxPad = 3"

record XdrPayload =
  Pay_Body :: "byte list"
  Pay_Tail :: "byte list"
  Pay_Pad :: nat

definition payload_of :: "byte list \<Rightarrow> byte list \<Rightarrow> nat \<Rightarrow> XdrPayload" where
  "payload_of Body Tail Pad = \<lparr>Pay_Body = Body, Pay_Tail = Tail, Pay_Pad = (if Pad < kMaxPad then Pad else kMaxPad)\<rparr>"

definition payload_size :: "XdrPayload \<Rightarrow> nat" where
  "payload_size P = length (Pay_Body P) + length (Pay_Tail P) + Pay_Pad P"

record XdrWriter =
  X_Out :: "byte list"
  X_Tail :: "byte list"
  X_TailPad :: nat

definition XdrWriter_new :: XdrWriter where
  "XdrWriter_new = \<lparr>X_Out = [], X_Tail = [], X_TailPad = 0\<rparr>"

definition padding :: "nat \<Rightarrow> nat" where
  "padding Length = (4 - Length mod 4) mod 4"

definition be32 :: "u32 \<Rightarrow> byte list" where
  "be32 V = map (\<lambda>Shift. ucast (drop_bit Shift V)) [24, 16, 8, 0]"

definition x_u32 :: "u32 \<Rightarrow> XdrWriter \<Rightarrow> XdrWriter" where
  "x_u32 V W = W\<lparr>X_Out := X_Out W @ be32 V\<rparr>"

definition x_u64 :: "u64 \<Rightarrow> XdrWriter \<Rightarrow> XdrWriter" where
  "x_u64 V W = x_u32 (ucast V) (x_u32 (ucast (drop_bit 32 V)) W)"

definition x_boolean :: "bool \<Rightarrow> XdrWriter \<Rightarrow> XdrWriter" where
  "x_boolean V W = x_u32 (if V then 1 else 0) W"

definition x_pad :: "nat \<Rightarrow> XdrWriter \<Rightarrow> XdrWriter" where
  "x_pad Length W = W\<lparr>X_Out := X_Out W @ replicate (padding Length) 0\<rparr>"

definition x_fixed :: "byte list \<Rightarrow> XdrWriter \<Rightarrow> XdrWriter" where
  "x_fixed V W = x_pad (length V) (W\<lparr>X_Out := X_Out W @ V\<rparr>)"

definition x_opaque :: "byte list \<Rightarrow> XdrWriter \<Rightarrow> XdrWriter" where
  "x_opaque V W = x_fixed V (x_u32 (of_nat (length V)) W)"

definition x_opaqueTail :: "byte list \<Rightarrow> XdrWriter \<Rightarrow> XdrWriter" where
  "x_opaqueTail V W = (x_u32 (of_nat (length V)) W)\<lparr>X_Tail := V, X_TailPad := padding (length V)\<rparr>"

definition x_text :: "string \<Rightarrow> XdrWriter \<Rightarrow> XdrWriter" where
  "x_text V W = x_opaque (map byte_of_char V) W"

definition x_size :: "XdrWriter \<Rightarrow> nat" where
  "x_size W = length (X_Out W) + length (X_Tail W) + X_TailPad W"

definition x_payload :: "XdrWriter \<Rightarrow> XdrPayload" where
  "x_payload W = payload_of (X_Out W) (X_Tail W) (X_TailPad W)"

text \<open>\<^verbatim>\<open>resize\<close> of the byte vector fills with zeros when it grows.\<close>

definition x_truncate :: "nat \<Rightarrow> XdrWriter \<Rightarrow> XdrWriter" where
  "x_truncate To W = W\<lparr>X_Tail := [], X_TailPad := 0, X_Out := take To (X_Out W) @ replicate (To - length (X_Out W)) 0\<rparr>"

definition x_clear :: "XdrWriter \<Rightarrow> XdrWriter" where
  "x_clear W = W\<lparr>X_Tail := [], X_TailPad := 0, X_Out := []\<rparr>"

section \<open>Reader\<close>

record XdrReader =
  XR_In :: "byte list"
  XR_At :: nat
  XR_Ok :: bool

definition XdrReader_open :: "byte list \<Rightarrow> XdrReader" where
  "XdrReader_open bs = \<lparr>XR_In = bs, XR_At = 0, XR_Ok = True\<rparr>"

definition x_left :: "XdrReader \<Rightarrow> nat" where
  "x_left R = (if XR_Ok R then length (XR_In R) - XR_At R else 0)"

definition x_want :: "nat \<Rightarrow> (XdrReader, bool) state" where
  "x_want Length = State (\<lambda>R.
     if \<not> XR_Ok R then (False, R)
     else if length (XR_In R) - XR_At R < Length then (False, R\<lparr>XR_Ok := False\<rparr>)
     else (True, R))"

definition be32_word :: "byte list \<Rightarrow> u32" where
  "be32_word bs = foldl (\<lambda>V B. push_bit 8 V OR ucast B) 0 bs"

definition x_r_u32 :: "(XdrReader, u32) state" where
  "x_r_u32 = do {
     w \<leftarrow> x_want 4;
     if \<not> w then State_Monad.return 0
     else State (\<lambda>R. (be32_word (take 4 (drop (XR_At R) (XR_In R))), R\<lparr>XR_At := XR_At R + 4\<rparr>)) }"

definition x_r_u64 :: "(XdrReader, u64) state" where
  "x_r_u64 = do { High \<leftarrow> x_r_u32; Low \<leftarrow> x_r_u32; State_Monad.return (push_bit 32 (ucast High) OR ucast Low) }"

definition x_r_boolean :: "(XdrReader, bool) state" where
  "x_r_boolean = do { v \<leftarrow> x_r_u32; State_Monad.return (v \<noteq> 0) }"

definition x_r_fixed :: "nat \<Rightarrow> (XdrReader, byte list) state" where
  "x_r_fixed Length =
     (let Total = Length + padding Length
      in do {
        w \<leftarrow> x_want Total;
        if \<not> w then State_Monad.return []
        else State (\<lambda>R. (take Length (drop (XR_At R) (XR_In R)), R\<lparr>XR_At := XR_At R + Total\<rparr>)) })"

definition x_r_opaque :: "nat \<Rightarrow> (XdrReader, byte list) state" where
  "x_r_opaque Limit = do {
     Length \<leftarrow> x_r_u32;
     R \<leftarrow> State_Monad.get;
     if \<not> XR_Ok R then State_Monad.return []
     else if unat Length > Limit then do { _ \<leftarrow> State_Monad.set (R\<lparr>XR_Ok := False\<rparr>); State_Monad.return [] }
     else x_r_fixed (unat Length) }"

definition x_r_text :: "nat \<Rightarrow> (XdrReader, string) state" where
  "x_r_text Limit = do {
     View \<leftarrow> x_r_opaque Limit;
     R \<leftarrow> State_Monad.get;
     if \<not> XR_Ok R then State_Monad.return [] else State_Monad.return (map char_of_byte View) }"

section \<open>Reading back\<close>

named_theorems xdr_read \<open>what a read returns at the bytes of the matching write\<close>
named_theorems xdr_out \<open>the bytes each write appends\<close>

lemma padding_bound: "padding n \<le> 3"
  using mod_less_divisor [of 4 "4 - n mod 4"] by (simp add: padding_def)

lemma padding_simps [simp]: "n mod 4 = 0 \<Longrightarrow> padding n = 0"
  by (simp add: padding_def)

lemma length_be32 [simp]: "length (be32 v) = 4"
  by (simp add: be32_def)

lemma be32_bytes: "be32 v = be_bytes 4 v"
  by (simp add: be32_def be_bytes_def le_bytes_def numeral_eq_Suc)

lemma foldl_be_word: "foldl (\<lambda>V B. push_bit 8 V OR ucast B) 0 bs = (le_word (rev bs) :: u32)"
proof (induction bs rule: rev_induct)
  case Nil
  then show ?case by simp
next
  case (snoc b bs)
  then show ?case by (simp add: or.commute)
qed

lemma be32_word_be32 [simp]: "be32_word (be32 v) = v"
  by (simp add: be32_word_def foldl_be_word be32_bytes be_bytes_def le_word_le_bytes)

text \<open>A reader in the middle of its input: \<open>pre\<close> is behind it and \<open>rest\<close> ahead.\<close>

abbreviation reading :: "byte list \<Rightarrow> byte list \<Rightarrow> XdrReader" where
  "reading pre rest \<equiv> \<lparr>XR_In = pre @ rest, XR_At = length pre, XR_Ok = True\<rparr>"

lemma XdrReader_open_reading: "XdrReader_open bs = reading [] bs"
  by (simp add: XdrReader_open_def)

lemma run_bind [simp]:
  "run_state (Monad_Syntax.bind m f) R = (case run_state m R of (x, R') \<Rightarrow> run_state (f x) R')"
  by (simp add: State_Monad.bind_def)

lemma want_at [xdr_read]: "run_state (x_want n) (reading pre rest) =
   (if length rest < n then (False, (reading pre rest)\<lparr>XR_Ok := False\<rparr>) else (True, reading pre rest))"
  by (simp add: x_want_def)

lemma r_u32_at [xdr_read]: "run_state x_r_u32 (reading pre (be32 v @ rest)) = (v, reading (pre @ be32 v) rest)"
  by (simp add: x_r_u32_def x_want_def)

lemma join_halves: "push_bit 32 (ucast (ucast (drop_bit 32 v) :: u32)) OR ucast (ucast v :: u32) = (v :: u64)"
  by (rule bit_word_eqI) (auto simp: bit_or_iff bit_push_bit_iff bit_ucast_iff bit_drop_bit_eq)

lemma r_u64_at [xdr_read]:
  "run_state x_r_u64 (reading pre (be32 (ucast (drop_bit 32 v)) @ be32 (ucast v) @ rest)) =
     (v, reading (pre @ be32 (ucast (drop_bit 32 v)) @ be32 (ucast v)) rest)"
  using r_u32_at [of "pre @ be32 (ucast (drop_bit 32 v))" "ucast v" rest]
  by (simp add: x_r_u64_def xdr_read join_halves)

lemma r_boolean_at [xdr_read]:
  "run_state x_r_boolean (reading pre (be32 (if b then 1 else 0) @ rest)) = (b, reading (pre @ be32 (if b then 1 else 0)) rest)"
  by (simp add: x_r_boolean_def xdr_read)

lemma r_fixed_at [xdr_read]:
  "run_state (x_r_fixed (length v)) (reading pre (v @ replicate (padding (length v)) 0 @ rest)) =
     (v, reading (pre @ v @ replicate (padding (length v)) 0) rest)"
  by (simp add: x_r_fixed_def x_want_def Let_def)

definition opaque_bytes :: "byte list \<Rightarrow> byte list" where
  "opaque_bytes v = be32 (of_nat (length v)) @ v @ replicate (padding (length v)) 0"

lemma r_opaque_at [xdr_read]:
  assumes "length v \<le> Limit" and "Limit < 2 ^ 32"
  shows "run_state (x_r_opaque Limit) (reading pre (opaque_bytes v @ rest)) = (v, reading (pre @ opaque_bytes v) rest)"
proof -
  have n: "unat (of_nat (length v) :: u32) = length v" using assms by (intro unat_of_nat_small) simp
  then show ?thesis
    using assms(1) r_fixed_at [of v "pre @ be32 (of_nat (length v))" rest]
    by (simp add: x_r_opaque_def opaque_bytes_def xdr_read)
qed

lemma r_text_at [xdr_read]:
  assumes "length s \<le> Limit" and "Limit < 2 ^ 32"
  shows "run_state (x_r_text Limit) (reading pre (opaque_bytes (map byte_of_char s) @ rest)) =
    (s, reading (pre @ opaque_bytes (map byte_of_char s)) rest)"
  using r_opaque_at [of "map byte_of_char s" Limit pre rest] assms by (simp add: x_r_text_def)

text \<open>Too little input, or more than the limit, fails and stays failed.\<close>

lemma r_opaque_over:
  assumes "Limit < length v" and "length v < 2 ^ 32"
  shows "\<not> XR_Ok (snd (run_state (x_r_opaque Limit) (reading pre (opaque_bytes v @ rest))))"
proof -
  have n: "unat (of_nat (length v) :: u32) = length v" using assms by (intro unat_of_nat_small) simp
  then show ?thesis using assms(1) by (simp add: x_r_opaque_def opaque_bytes_def xdr_read)
qed

lemma r_failed:
  assumes "\<not> XR_Ok R"
  shows "run_state x_r_u32 R = (0, R)" and "run_state (x_r_fixed n) R = ([], R)" and "run_state (x_r_opaque Limit) R = ([], R)"
  using assms by (simp_all add: x_r_u32_def x_r_fixed_def x_r_opaque_def x_want_def Let_def)

lemma x_writes [xdr_out]:
  "X_Out (x_u32 v W) = X_Out W @ be32 v"
  "X_Out (x_u64 w W) = X_Out W @ be32 (ucast (drop_bit 32 w)) @ be32 (ucast w)"
  "X_Out (x_boolean b W) = X_Out W @ be32 (if b then 1 else 0)"
  "X_Out (x_fixed bs W) = X_Out W @ bs @ replicate (padding (length bs)) 0"
  "X_Out (x_opaque bs W) = X_Out W @ opaque_bytes bs"
  "X_Out (x_text s W) = X_Out W @ opaque_bytes (map byte_of_char s)"
  "X_Out XdrWriter_new = []"
  by (simp_all add: x_u32_def x_u64_def x_boolean_def x_fixed_def x_pad_def x_opaque_def x_text_def opaque_bytes_def XdrWriter_new_def)

text \<open>A payload kept apart puts the same bytes on the wire as one that was copied.\<close>

definition payload_bytes :: "XdrPayload \<Rightarrow> byte list" where
  "payload_bytes P = Pay_Body P @ Pay_Tail P @ replicate (Pay_Pad P) 0"

lemma opaqueTail_copied:
  "payload_bytes (x_payload (x_opaqueTail v (W\<lparr>X_Tail := [], X_TailPad := 0\<rparr>))) = payload_bytes (x_payload (x_opaque v (W\<lparr>X_Tail := [], X_TailPad := 0\<rparr>)))"
  using padding_bound [of "length v"]
  by (auto simp: payload_bytes_def x_payload_def payload_of_def kMaxPad_def x_opaqueTail_def x_opaque_def x_fixed_def x_pad_def x_u32_def)

end
