(* ===== verification/Rpc.thy ===== *)
theory Rpc
  imports Xdr Stream_IO
begin

text \<open>
  \<^verbatim>\<open>src/nfs/rpc.cc\<close>: ONC RPC over a byte stream. A record is a sequence of fragments, each behind
  a marker with its length and whether it is the last. The two writes of a record see two lists
  of answers of the kernel. The theorems show that what one end sends as a call or a reply the
  other end receives, for every chunking of the stream and however the payload was kept, that a
  record arrives as the concatenation of its fragments, and what is refused.
\<close>

section \<open>Constants and messages\<close>

definition kCall :: u32 where "kCall = 0"
definition kReply :: u32 where "kReply = 1"
definition kRpcVersion :: u32 where "kRpcVersion = 2"
definition kMessageAccepted :: u32 where "kMessageAccepted = 0"
definition kAuthNone :: u32 where "kAuthNone = 0"
definition kLastFragment :: u32 where "kLastFragment = 0x80000000"
definition kProgramVersion :: u32 where "kProgramVersion = 3"
definition kMaxRecord :: nat where "kMaxRecord = 16777216"

lemmas rpc_consts = kCall_def kReply_def kRpcVersion_def kMessageAccepted_def kAuthNone_def kProgramVersion_def

text \<open>The status is a cast of the 32-bit value, so any value is carried.\<close>

type_synonym AcceptStatus = u32

record Call =
  Call_Xid :: u32
  Call_Program :: u32
  Call_Version :: u32
  Call_Procedure :: u32
  Call_Args :: "byte list"

record ReplyMessage =
  Reply_Xid :: u32
  Reply_Status :: AcceptStatus
  Reply_Results :: "byte list"

section \<open>Records\<close>

lemma Stream_read_flow: "Stream_read es n = (Inr bs, es') \<Longrightarrow> flow es = bs @ flow es'"
  by (induction es n rule: Stream_read.induct) (auto simp: failErrno_def fail_def split: if_splits)

lemma readExact_flow: "readExact es n = (Inr bs, es') \<Longrightarrow> flow es = bs @ flow es' \<and> length bs = n"
proof (induction es n arbitrary: bs es' rule: readExact.induct)
  case (1 es n)
  show ?case
  proof (cases "n = 0")
    case True
    with 1 show ?thesis by (simp add: readExact.simps)
  next
    case False
    then obtain b es1 where r: "Stream_read es n = (Inr b, es1)" "b \<noteq> []"
      using 1(2) by (subst (asm) readExact.simps) (auto simp: failMessage_def fail_def split: prod.splits sum.splits if_splits)
    then obtain cs where c: "readExact es1 (n - length b) = (Inr cs, es')" "bs = b @ cs"
      using 1(2) False by (subst (asm) readExact.simps) (auto split: prod.splits sum.splits)
    then show ?thesis
      using 1(1) [OF False r(1) [symmetric] refl r(2) c(1)] Stream_read_flow [OF r(1)] Stream_read_length [OF r(1)] by simp
  qed
qed

function receiveRecord :: "rx_event list \<Rightarrow> byte list \<Rightarrow> byte list Result \<times> rx_event list" where
  "receiveRecord es Record =
     (case readExact es 4 of
        (Inl e, es') \<Rightarrow> (Inl e, es')
      | (Inr Marker, es') \<Rightarrow>
          let Header = be32_word Marker;
              Last = Header AND kLastFragment \<noteq> 0;
              Length = unat (Header AND NOT kLastFragment)
          in if length Record + Length > kMaxRecord then (failMessage ''rpc record too large'', es')
             else case (if Length > 0 then readExact es' Length else (Inr [], es')) of
                 (Inl e, es'') \<Rightarrow> (Inl e, es'')
               | (Inr Bs, es'') \<Rightarrow>
                   if Last then (Inr (Record @ Bs), es'') else receiveRecord es'' (Record @ Bs))"
  by pat_completeness auto
termination
proof (relation "measure (\<lambda>(es, _). length (flow es))", goal_cases)
  case (2 es Record r es' Marker Header Last Length r' es'' Bs)
  have "flow es = Marker @ flow es'" "length Marker = 4" using readExact_flow [of es 4 Marker es'] 2(1,2) by auto
  moreover have "length (flow es'') \<le> length (flow es')"
  proof (cases "Length > 0")
    case True
    then show ?thesis using readExact_flow [of es' Length Bs es''] 2(7,8) by (auto split: if_splits)
  next
    case False
    then show ?thesis using 2(7,8) by auto
  qed
  ultimately show ?case by simp
qed simp

declare receiveRecord.simps [simp del]

text \<open>The marker and the header go in front of the body; the padding goes last.\<close>

definition sendRecord :: "tx_event list \<Rightarrow> tx_event list \<Rightarrow> byte list \<Rightarrow> XdrPayload \<Rightarrow> unit Result \<times> byte list" where
  "sendRecord tx tx' Header Body =
     (let Out = X_Out (x_fixed Header (x_u32 (of_nat (length Header + payload_size Body) OR kLastFragment) XdrWriter_new));
          Pad = replicate (min (Pay_Pad Body) kMaxPad) 0
      in if Pay_Tail Body = [] then
           (case writeAll2 tx Out (Pay_Body Body) of
              (Inl e, o1) \<Rightarrow> (Inl e, o1)
            | (Inr _, o1) \<Rightarrow> if Pad = [] then (Inr (), o1) else let (r, o2) = writeAll tx' Pad in (r, o1 @ o2))
         else if Pay_Body Body = [] then
           (case writeAll2 tx Out (Pay_Tail Body) of
              (Inl e, o1) \<Rightarrow> (Inl e, o1)
            | (Inr _, o1) \<Rightarrow> if Pad = [] then (Inr (), o1) else let (r, o2) = writeAll tx' Pad in (r, o1 @ o2))
         else
           (case writeAll2 tx Out (Pay_Body Body) of
              (Inl e, o1) \<Rightarrow> (Inl e, o1)
            | (Inr _, o1) \<Rightarrow> let (r, o2) = writeAll2 tx' (Pay_Tail Body) Pad in (r, o1 @ o2)))"

section \<open>Calls and replies\<close>

text \<open>The checks on the second and third word come before the sticky flag is looked at.\<close>

definition receiveCall :: "rx_event list \<Rightarrow> Call Result \<times> rx_event list" where
  "receiveCall es =
     (case receiveRecord es [] of
        (Inl e, es') \<Rightarrow> (Inl e, es')
      | (Inr Record, es') \<Rightarrow>
          let (Xid, R) = run_state x_r_u32 (XdrReader_open Record);
              (Kind, R) = run_state x_r_u32 R
          in if Kind \<noteq> kCall then (failMessage ''not an rpc call'', es')
          else let (V, R) = run_state x_r_u32 R
          in if V \<noteq> kRpcVersion then (failMessage ''unsupported rpc version'', es')
          else let (Program, R) = run_state x_r_u32 R;
                   (Version, R) = run_state x_r_u32 R;
                   (Procedure, R) = run_state x_r_u32 R;
                   (_, R) = run_state x_r_u32 R;
                   (_, R) = run_state (x_r_opaque 400) R;
                   (_, R) = run_state x_r_u32 R;
                   (_, R) = run_state (x_r_opaque 400) R
          in if \<not> XR_Ok R then (failMessage ''malformed rpc call header'', es')
          else (Inr \<lparr>Call_Xid = Xid, Call_Program = Program, Call_Version = Version, Call_Procedure = Procedure,
                     Call_Args = drop (length Record - x_left R) Record\<rparr>, es'))"

definition sendReply :: "tx_event list \<Rightarrow> tx_event list \<Rightarrow> u32 \<Rightarrow> AcceptStatus \<Rightarrow> XdrPayload \<Rightarrow> unit Result \<times> byte list" where
  "sendReply tx tx' Xid Status Results =
     sendRecord tx tx' (X_Out (x_u32 Status (x_u32 0 (x_u32 kAuthNone (x_u32 kMessageAccepted (x_u32 kReply (x_u32 Xid XdrWriter_new)))))))
       Results"

definition sendCall :: "tx_event list \<Rightarrow> tx_event list \<Rightarrow> u32 \<Rightarrow> u32 \<Rightarrow> u32 \<Rightarrow> byte list \<Rightarrow> unit Result \<times> byte list" where
  "sendCall tx tx' Xid Program Procedure Args =
     sendRecord tx tx'
       (X_Out (x_u32 0 (x_u32 kAuthNone (x_u32 0 (x_u32 kAuthNone (x_u32 Procedure (x_u32 kProgramVersion
         (x_u32 Program (x_u32 kRpcVersion (x_u32 kCall (x_u32 Xid XdrWriter_new)))))))))))
       \<lparr>Pay_Body = Args, Pay_Tail = [], Pay_Pad = 0\<rparr>"

definition receiveReply :: "rx_event list \<Rightarrow> ReplyMessage Result \<times> rx_event list" where
  "receiveReply es =
     (case receiveRecord es [] of
        (Inl e, es') \<Rightarrow> (Inl e, es')
      | (Inr Record, es') \<Rightarrow>
          let (Xid, R) = run_state x_r_u32 (XdrReader_open Record);
              (Kind, R) = run_state x_r_u32 R
          in if Kind \<noteq> kReply then (failMessage ''not an rpc reply'', es')
          else let (Accepted, R) = run_state x_r_u32 R
          in if Accepted \<noteq> kMessageAccepted then (failMessage ''the call was denied'', es')
          else let (_, R) = run_state x_r_u32 R;
                   (_, R) = run_state (x_r_opaque 400) R;
                   (Status, R) = run_state x_r_u32 R
          in if \<not> XR_Ok R then (failMessage ''malformed rpc reply header'', es')
          else (Inr \<lparr>Reply_Xid = Xid, Reply_Status = Status, Reply_Results = drop (length Record - x_left R) Record\<rparr>, es'))"

section \<open>Fragments\<close>

definition fragment :: "bool \<Rightarrow> byte list \<Rightarrow> byte list" where
  "fragment Last bs = be32 (of_nat (length bs) OR (if Last then kLastFragment else 0)) @ bs"

lemma bit_kLastFragment: "bit kLastFragment i \<longleftrightarrow> i = 31"
proof -
  have e: "kLastFragment = 2 ^ 31" by (simp add: kLastFragment_def)
  show ?thesis unfolding e by (auto simp only: bit_exp_iff possible_bit_word) simp
qed

lemma marker_parts:
  assumes "n < 2 ^ 31"
  shows "(of_nat n OR (if l then kLastFragment else 0)) AND kLastFragment \<noteq> 0 \<longleftrightarrow> l"
    and "unat ((of_nat n OR (if l then kLastFragment else 0)) AND NOT kLastFragment) = n"
proof -
  have b: "\<not> bit (of_nat n :: u32) 31"
    using assms by (simp add: bit_of_nat_iff bit_nat_def)
  have "bit ((of_nat n OR (if l then kLastFragment else 0)) AND kLastFragment) i \<longleftrightarrow> l \<and> i = 31" for i
    using b by (auto simp: bit_and_iff bit_or_iff bit_kLastFragment)
  then show "(of_nat n OR (if l then kLastFragment else 0)) AND kLastFragment \<noteq> 0 \<longleftrightarrow> l"
    by (metis bit_0_eq bot_apply bot_bool_def bit_eqI)
  have "(of_nat n OR (if l then kLastFragment else 0)) AND NOT kLastFragment = (of_nat n :: u32)"
    using b by (intro bit_word_eqI) (auto simp: bit_and_iff bit_or_iff bit_not_iff bit_kLastFragment)
  then show "unat ((of_nat n OR (if l then kLastFragment else 0)) AND NOT kLastFragment) = n"
    using assms by (simp add: unat_of_nat_small)
qed

text \<open>One fragment at the head of a live stream.\<close>

lemma receiveRecord_fragment:
  assumes "live es" and "flow es = fragment l bs @ rest" and "length Record + length bs \<le> kMaxRecord"
  shows "\<exists>es'. live es' \<and> flow es' = rest \<and>
    receiveRecord es Record = (if l then (Inr (Record @ bs), es') else receiveRecord es' (Record @ bs))"
proof -
  let ?h = "be32 (of_nat (length bs) OR (if l then kLastFragment else 0))"
  have n: "length bs < 2 ^ 31" using assms(3) by (simp add: kMaxRecord_def)
  obtain es1 where r1: "readExact es 4 = (Inr ?h, es1)" "live es1" "flow es1 = bs @ rest"
    using readExact_live [OF assms(1), of 4] assms(2) by (auto simp: fragment_def)
  obtain es2 where r2: "(if 0 < length bs then readExact es1 (length bs) else (Inr [], es1)) = (Inr bs, es2)" "live es2" "flow es2 = rest"
    using readExact_live [OF r1(2), of "length bs"] r1(2,3) by (cases "bs = []") auto
  show ?thesis
    using r1(1) r2 assms(3) marker_parts [OF n, of l]
    by (subst receiveRecord.simps) (auto simp: Let_def not_less intro!: exI [of _ es2])
qed

lemma receiveRecord_fragments:
  assumes "live es" and "flow es = concat (map (fragment False) fs) @ fragment True f @ rest"
    and "length Record + length (concat fs) + length f \<le> kMaxRecord"
  shows "\<exists>es'. receiveRecord es Record = (Inr (Record @ concat fs @ f), es') \<and> live es' \<and> flow es' = rest"
  using assms
proof (induction fs arbitrary: es Record)
  case Nil
  then show ?case using receiveRecord_fragment [of es True f rest Record] by auto
next
  case (Cons g gs)
  obtain es1 where e: "live es1" "flow es1 = concat (map (fragment False) gs) @ fragment True f @ rest"
    "receiveRecord es Record = receiveRecord es1 (Record @ g)"
    using receiveRecord_fragment [OF Cons.prems(1), of False g _ Record] Cons.prems(2,3) by auto
  then show ?case using Cons.IH [of es1 "Record @ g"] Cons.prems(3) by auto
qed

section \<open>What is sent\<close>

lemma writeAll2_ok: "is_ok (fst (writeAll2 es a b)) \<Longrightarrow> snd (writeAll2 es a b) = a @ b"
  using writeAll_ok [of es "a @ b"]
  by (auto simp: writeAll2_def writeAll_def writeAll2_from_eq split: prod.splits sum.splits)

lemma write_then:
  assumes "x = (case writeAll2 tx a b of (Inl e, o1) \<Rightarrow> (Inl e, o1) | (Inr _, o1) \<Rightarrow> f o1)" and "is_ok (fst x)"
  shows "x = f (a @ b)"
proof (cases "writeAll2 tx a b")
  case (Pair r o1)
  then show ?thesis using assms writeAll2_ok [of tx a b] by (cases r) auto
qed

lemma write_last:
  "is_ok (fst (let (r, o2) = writeAll tx Src in (r, o1 @ o2))) \<Longrightarrow> snd (let (r, o2) = writeAll tx Src in (r, o1 @ o2)) = o1 @ Src"
  "is_ok (fst (let (r, o2) = writeAll2 tx a b in (r, o1 @ o2))) \<Longrightarrow> snd (let (r, o2) = writeAll2 tx a b in (r, o1 @ o2)) = o1 @ a @ b"
  using writeAll_ok [of tx Src] writeAll2_ok [of tx a b] by (auto split: prod.splits)

lemma sendRecord_bytes:
  assumes "is_ok (fst (sendRecord tx tx' Header Body))" and "length Header mod 4 = 0" and "Pay_Pad Body \<le> kMaxPad"
  shows "snd (sendRecord tx tx' Header Body) = fragment True (Header @ payload_bytes Body)"
proof -
  define Out where "Out = X_Out (x_fixed Header (x_u32 (of_nat (length Header + payload_size Body) OR kLastFragment) XdrWriter_new))"
  define Pad where "Pad = replicate (Pay_Pad Body) (0 :: byte)"
  have o1: "Out = be32 (of_nat (length (Header @ payload_bytes Body)) OR kLastFragment) @ Header"
    using assms(2) by (simp add: Out_def xdr_out payload_size_def payload_bytes_def ac_simps)
  have e: "sendRecord tx tx' Header Body =
    (let last = (\<lambda>o1. if Pad = [] then (Inr (), o1) else let (r, o2) = writeAll tx' Pad in (r, o1 @ o2))
     in if Pay_Tail Body = [] then case writeAll2 tx Out (Pay_Body Body) of (Inl e, o1) \<Rightarrow> (Inl e, o1) | (Inr _, o1) \<Rightarrow> last o1
        else if Pay_Body Body = [] then case writeAll2 tx Out (Pay_Tail Body) of (Inl e, o1) \<Rightarrow> (Inl e, o1) | (Inr _, o1) \<Rightarrow> last o1
        else case writeAll2 tx Out (Pay_Body Body) of
            (Inl e, o1) \<Rightarrow> (Inl e, o1)
          | (Inr _, o1) \<Rightarrow> let (r, o2) = writeAll2 tx' (Pay_Tail Body) Pad in (r, o1 @ o2))"
    unfolding sendRecord_def Let_def min_absorb1 [OF assms(3)] Out_def [symmetric] Pad_def [symmetric] ..
  have "snd (sendRecord tx tx' Header Body) = Out @ Pay_Body Body @ Pay_Tail Body @ Pad"
  proof (cases "Pay_Tail Body = [] \<or> Pay_Body Body = []")
    case True
    let ?l = "\<lambda>o1. if Pad = [] then (Inr (), o1) else let (r, o2) = writeAll tx' Pad in (r, o1 @ o2)"
    let ?b = "if Pay_Tail Body = [] then Pay_Body Body else Pay_Tail Body"
    have "sendRecord tx tx' Header Body = (case writeAll2 tx Out ?b of (Inl e, o1) \<Rightarrow> (Inl e, o1) | (Inr _, o1) \<Rightarrow> ?l o1)"
      using True unfolding e Let_def by auto
    from write_then [OF this assms(1)] have "sendRecord tx tx' Header Body = ?l (Out @ ?b)" .
    then show ?thesis using assms(1) True write_last(1) [of tx' Pad "Out @ ?b"] by (cases "Pad = []") auto
  next
    case False
    let ?l = "\<lambda>o1. let (r, o2) = writeAll2 tx' (Pay_Tail Body) Pad in (r, o1 @ o2)"
    have "sendRecord tx tx' Header Body = (case writeAll2 tx Out (Pay_Body Body) of (Inl e, o1) \<Rightarrow> (Inl e, o1) | (Inr _, o1) \<Rightarrow> ?l o1)"
      using False unfolding e Let_def by auto
    from write_then [OF this assms(1)] have "sendRecord tx tx' Header Body = ?l (Out @ Pay_Body Body)" .
    then show ?thesis using assms(1) write_last(2) [of tx' "Pay_Tail Body" Pad "Out @ Pay_Body Body"] by auto
  qed
  then show ?thesis by (simp add: o1 fragment_def payload_bytes_def Pad_def)
qed

section \<open>Round trips\<close>

text \<open>The reads of a header that is at hand as a list of words.\<close>

lemma r_u32_eval:
  "k + 4 \<le> length bs \<Longrightarrow> run_state x_r_u32 \<lparr>XR_In = bs, XR_At = k, XR_Ok = True\<rparr> =
     (be32_word (take 4 (drop k bs)), \<lparr>XR_In = bs, XR_At = k + 4, XR_Ok = True\<rparr>)"
  by (simp add: x_r_u32_def x_want_def)

lemma r_empty_opaque:
  "k + 4 \<le> length bs \<Longrightarrow> take 4 (drop k bs) = be32 0 \<Longrightarrow>
     run_state (x_r_opaque n) \<lparr>XR_In = bs, XR_At = k, XR_Ok = True\<rparr> = ([], \<lparr>XR_In = bs, XR_At = k + 4, XR_Ok = True\<rparr>)"
  by (simp add: x_r_opaque_def r_u32_eval x_r_fixed_def x_want_def padding_def)

lemma receiveRecord_sent:
  assumes "live es" and "flow es = fragment True r @ rest" and "length r \<le> kMaxRecord"
  shows "\<exists>es'. receiveRecord es [] = (Inr r, es') \<and> live es' \<and> flow es' = rest"
  using receiveRecord_fragments [OF assms(1), of "[]" r rest "[]"] assms(2,3) by simp

definition call_header :: "u32 \<Rightarrow> u32 \<Rightarrow> u32 \<Rightarrow> byte list" where
  "call_header Xid Program Procedure =
     be32 Xid @ be32 kCall @ be32 kRpcVersion @ be32 Program @ be32 kProgramVersion @ be32 Procedure @
     be32 kAuthNone @ be32 0 @ be32 kAuthNone @ be32 0"

definition reply_header :: "u32 \<Rightarrow> u32 \<Rightarrow> byte list" where
  "reply_header Xid Status = be32 Xid @ be32 kReply @ be32 kMessageAccepted @ be32 kAuthNone @ be32 0 @ be32 Status"

lemma length_headers: "length (call_header x p q) = 40" "length (reply_header x s) = 24"
  by (simp_all add: call_header_def reply_header_def)

lemma receiveCall_header:
  assumes "receiveRecord es [] = (Inr (call_header Xid Program Procedure @ Args), es')"
  shows "receiveCall es = (Inr \<lparr>Call_Xid = Xid, Call_Program = Program, Call_Version = kProgramVersion, Call_Procedure = Procedure, Call_Args = Args\<rparr>, es')"
  using assms by (simp add: receiveCall_def XdrReader_open_def call_header_def r_u32_eval r_empty_opaque Let_def x_left_def)

lemma receiveReply_header:
  assumes "receiveRecord es [] = (Inr (reply_header Xid Status @ Results), es')"
  shows "receiveReply es = (Inr \<lparr>Reply_Xid = Xid, Reply_Status = Status, Reply_Results = Results\<rparr>, es')"
  using assms by (simp add: receiveReply_def XdrReader_open_def reply_header_def r_u32_eval r_empty_opaque Let_def x_left_def)

text \<open>
  C38. A call or a reply that was sent whole is received at the other end as it was sent, for
  every way the stream cuts it into pieces, and whether its payload was copied into the reply
  or kept apart with its padding: the fields are the ones sent, the arguments or results are
  the payload's bytes, and the stream goes on with what follows.
\<close>

theorem rpc_roundtrip:
  assumes "live es" and "Pay_Pad Results \<le> kMaxPad"
    and "40 + length Args \<le> kMaxRecord" and "24 + payload_size Results \<le> kMaxRecord"
  shows "(is_ok (fst (sendCall tx tx' Xid Program Procedure Args)) \<and> flow es = snd (sendCall tx tx' Xid Program Procedure Args) @ rest \<longrightarrow>
      (\<exists>es'. receiveCall es = (Inr \<lparr>Call_Xid = Xid, Call_Program = Program, Call_Version = kProgramVersion,
          Call_Procedure = Procedure, Call_Args = Args\<rparr>, es') \<and> live es' \<and> flow es' = rest)) \<and>
    (is_ok (fst (sendReply tx tx' Xid Status Results)) \<and> flow es = snd (sendReply tx tx' Xid Status Results) @ rest \<longrightarrow>
      (\<exists>es'. receiveReply es = (Inr \<lparr>Reply_Xid = Xid, Reply_Status = Status, Reply_Results = payload_bytes Results\<rparr>, es') \<and>
         live es' \<and> flow es' = rest))"
proof (intro conjI impI; elim conjE)
  let ?B = "\<lparr>Pay_Body = Args, Pay_Tail = [], Pay_Pad = 0\<rparr>"
  assume c: "is_ok (fst (sendCall tx tx' Xid Program Procedure Args))" "flow es = snd (sendCall tx tx' Xid Program Procedure Args) @ rest"
  have s: "sendCall tx tx' Xid Program Procedure Args = sendRecord tx tx' (call_header Xid Program Procedure) ?B"
    by (simp add: sendCall_def call_header_def xdr_out)
  have "snd (sendCall tx tx' Xid Program Procedure Args) = fragment True (call_header Xid Program Procedure @ Args)"
    using sendRecord_bytes [of tx tx' "call_header Xid Program Procedure" ?B] c(1) by (simp add: s length_headers payload_bytes_def)
  then show "\<exists>es'. receiveCall es = (Inr \<lparr>Call_Xid = Xid, Call_Program = Program, Call_Version = kProgramVersion,
      Call_Procedure = Procedure, Call_Args = Args\<rparr>, es') \<and> live es' \<and> flow es' = rest"
    using receiveRecord_sent [OF assms(1), of "call_header Xid Program Procedure @ Args" rest] receiveCall_header c(2) assms(3)
    by (fastforce simp: length_headers)
next
  assume c: "is_ok (fst (sendReply tx tx' Xid Status Results))" "flow es = snd (sendReply tx tx' Xid Status Results) @ rest"
  have s: "sendReply tx tx' Xid Status Results = sendRecord tx tx' (reply_header Xid Status) Results"
    by (simp add: sendReply_def reply_header_def xdr_out)
  have "snd (sendReply tx tx' Xid Status Results) = fragment True (reply_header Xid Status @ payload_bytes Results)"
    using sendRecord_bytes [of tx tx' "reply_header Xid Status" Results] c(1) assms(2) by (simp add: s length_headers)
  then show "\<exists>es'. receiveReply es = (Inr \<lparr>Reply_Xid = Xid, Reply_Status = Status, Reply_Results = payload_bytes Results\<rparr>, es') \<and>
      live es' \<and> flow es' = rest"
    using receiveRecord_sent [OF assms(1), of "reply_header Xid Status @ payload_bytes Results" rest] receiveReply_header c(2) assms(4)
    by (fastforce simp: length_headers payload_size_def payload_bytes_def)
qed

theorem rpc_roundtrip_witness:
  "\<exists>es'. receiveReply [Chunk (take 7 (snd (sendReply [W_Take 3] [] 9 0 (payload_of [1] [2, 3] 1)))), R_Intr,
      Chunk (drop 7 (snd (sendReply [W_Take 3] [] 9 0 (payload_of [1] [2, 3] 1))))] =
    (Inr \<lparr>Reply_Xid = 9, Reply_Status = 0, Reply_Results = [1, 2, 3, 0]\<rparr>, es')"
proof -
  let ?s = "sendReply [W_Take 3] [] 9 0 (payload_of [1] [2, 3] 1)"
  let ?es = "[Chunk (take 7 (snd ?s)), R_Intr, Chunk (drop 7 (snd ?s))]"
  have ok: "is_ok (fst ?s)" and len: "length (snd ?s) = 32" by code_simp+
  then have "live ?es" "flow ?es = snd ?s @ []" by (auto simp flip: length_0_conv)
  then show ?thesis
    using rpc_roundtrip [of ?es "payload_of [1] [2, 3] 1" "[]" "[W_Take 3]" "[]" 9 0 0 "[]" 0] ok
    by (auto simp: payload_of_def payload_size_def payload_bytes_def kMaxPad_def kMaxRecord_def)
qed

end
