(* ===== verification/Inodes.thy ===== *)
theory Inodes
  imports FileWriter Transition
begin

text \<open>
  \<^verbatim>\<open>src/fuse/inodes.cc\<close>: the numbers a FUSE mount hands to the kernel. A table of nodes, each
  with its parent, its name and how often the kernel holds it, and an index by parent and name.
  The mount calls every operation under one lock (\<^verbatim>\<open>insertIno\<close> and its siblings in
  \<^verbatim>\<open>src/fuse/mount.cc\<close>), so a run of the mount is a sequence of operations. The theorems show that
  the two tables always describe the same tree, that the path of every number is found, and
  that a listing never takes away a name the kernel holds.
\<close>

section \<open>State\<close>

type_synonym Ino = u64

definition kRootIno :: Ino where
  "kRootIno = 1"

record Node =
  N_Parent :: Ino
  N_Name :: string
  N_Refs :: u64
  N_Kids :: u64

record Inodes =
  I_Cold :: "Ino list"
  I_Nodes :: "Ino \<rightharpoonup> Node"
  I_ByName :: "string \<rightharpoonup> Ino"
  I_Root :: string
  I_Next :: Ino

definition Inodes_new :: "string \<Rightarrow> Inodes" where
  "Inodes_new Root = \<lparr>I_Cold = [], I_Nodes = Map.empty, I_ByName = Map.empty, I_Root = Root, I_Next = kRootIno + 1\<rparr>"

definition known :: "Inodes \<Rightarrow> Ino \<Rightarrow> bool" where
  "known s i \<longleftrightarrow> i = kRootIno \<or> I_Nodes s i \<noteq> None"

definition join :: "string \<Rightarrow> string \<Rightarrow> string" where
  "join Dir Name = (if Dir = [] \<or> Dir = ''.'' then Name else Dir @ ''/'' @ Name)"

definition keyOf :: "Ino \<Rightarrow> string \<Rightarrow> string" where
  "keyOf Parent Name = decimal (unat Parent) @ ''/'' @ Name"

definition kListedLimit :: nat where
  "kListedLimit = 65536"

section \<open>Operations\<close>

text \<open>
  The containers' calls: \<^verbatim>\<open>emplace\<close> keeps what is there, \<^verbatim>\<open>operator[]\<close> makes a default node, and
  \<open>bump\<close> is the change of \<^verbatim>\<open>Kids\<close> in a parent that is still there.
\<close>

definition emplace :: "'k \<Rightarrow> 'v \<Rightarrow> ('k \<rightharpoonup> 'v) \<Rightarrow> ('k \<rightharpoonup> 'v)" where
  "emplace k v m = (case m k of None \<Rightarrow> m(k \<mapsto> v) | Some _ \<Rightarrow> m)"

definition node_at :: "(Ino \<rightharpoonup> Node) \<Rightarrow> Ino \<Rightarrow> Node" where
  "node_at N i = (case N i of None \<Rightarrow> \<lparr>N_Parent = 0, N_Name = [], N_Refs = 0, N_Kids = 0\<rparr> | Some n \<Rightarrow> n)"

definition bump :: "Ino \<Rightarrow> u64 \<Rightarrow> (Ino \<rightharpoonup> Node) \<Rightarrow> (Ino \<rightharpoonup> Node)" where
  "bump p d N = (case N p of None \<Rightarrow> N | Some u \<Rightarrow> N(p \<mapsto> u\<lparr>N_Kids := N_Kids u + d\<rparr>))"

definition ino_create :: "Ino \<Rightarrow> string \<Rightarrow> u64 \<Rightarrow> Inodes \<Rightarrow> Ino \<times> Inodes" where
  "ino_create Parent Name Refs s =
     (let Fresh = I_Next s
      in (Fresh, s\<lparr>I_Next := Fresh + 1,
            I_Nodes := bump Parent 1 (emplace Fresh \<lparr>N_Parent = Parent, N_Name = Name, N_Refs = Refs, N_Kids = 0\<rparr> (I_Nodes s)),
            I_ByName := emplace (keyOf Parent Name) Fresh (I_ByName s)\<rparr>))"

definition ino_erase :: "Ino \<Rightarrow> Node \<Rightarrow> Inodes \<Rightarrow> Inodes" where
  "ino_erase i n s =
     s\<lparr>I_Nodes := (bump (N_Parent n) (- 1) (I_Nodes s))(i := None),
       I_ByName := (I_ByName s)(keyOf (N_Parent n) (N_Name n) := None)\<rparr>"

function ino_trim :: "Inodes \<Rightarrow> Inodes" where
  "ino_trim s =
     (if length (I_Cold s) > kListedLimit then
        let Oldest = hd (I_Cold s); s1 = s\<lparr>I_Cold := tl (I_Cold s)\<rparr>
        in case I_Nodes s1 Oldest of
             None \<Rightarrow> ino_trim s1
           | Some n \<Rightarrow>
               if N_Refs n > 0 \<or> N_Kids n > 0 then ino_trim s1 else ino_trim (ino_erase Oldest n s1)
      else s)"
  by pat_completeness auto
termination by (relation "measure (length \<circ> I_Cold)") (auto simp: ino_erase_def)

declare ino_trim.simps [simp del]

definition ino_insert :: "Ino \<Rightarrow> string \<Rightarrow> Inodes \<Rightarrow> Ino \<times> Inodes" where
  "ino_insert Parent Name s =
     (case I_ByName s (keyOf Parent Name) of
        Some i \<Rightarrow> let n = node_at (I_Nodes s) i in (i, s\<lparr>I_Nodes := (I_Nodes s)(i \<mapsto> n\<lparr>N_Refs := N_Refs n + 1\<rparr>)\<rparr>)
      | None \<Rightarrow> ino_create Parent Name 1 s)"

definition ino_reserve :: "Ino \<Rightarrow> string \<Rightarrow> Inodes \<Rightarrow> Ino \<times> Inodes" where
  "ino_reserve Parent Name s =
     (case I_ByName s (keyOf Parent Name) of
        Some i \<Rightarrow> (i, s)
      | None \<Rightarrow> let (Fresh, s) = ino_create Parent Name 0 s in (Fresh, ino_trim (s\<lparr>I_Cold := I_Cold s @ [Fresh]\<rparr>)))"

definition ino_release :: "Ino \<Rightarrow> string \<Rightarrow> Inodes \<Rightarrow> Inodes" where
  "ino_release Parent Name s =
     (case I_ByName s (keyOf Parent Name) of
        None \<Rightarrow> s
      | Some i \<Rightarrow> (case I_Nodes s i of None \<Rightarrow> s | Some n \<Rightarrow> if N_Refs n > 0 then s else ino_erase i n s))"

definition ino_forget :: "Ino \<Rightarrow> u64 \<Rightarrow> Inodes \<Rightarrow> Inodes" where
  "ino_forget I Count s =
     (case I_Nodes s I of
        None \<Rightarrow> s
      | Some n \<Rightarrow>
          if N_Refs n > Count then s\<lparr>I_Nodes := (I_Nodes s)(I \<mapsto> n\<lparr>N_Refs := N_Refs n - Count\<rparr>)\<rparr>
          else ino_erase I n s)"

definition ino_parent :: "Inodes \<Rightarrow> Ino \<Rightarrow> Ino" where
  "ino_parent s i = (case I_Nodes s i of None \<Rightarrow> kRootIno | Some n \<Rightarrow> N_Parent n)"

text \<open>
  The climb to the root collects the names; a number that is not in the table ends it with no
  path. In a table with a cycle it would not end, which is the outer \<open>None\<close>.
\<close>

partial_function (option) path_parts :: "(Ino \<rightharpoonup> Node) \<Rightarrow> Ino \<Rightarrow> string list \<Rightarrow> string list option option" where
  "path_parts N At Parts =
     (if At = kRootIno then Some (Some Parts)
      else case N At of None \<Rightarrow> Some None | Some n \<Rightarrow> path_parts N (N_Parent n) (N_Name n # Parts))"

definition ino_path :: "Inodes \<Rightarrow> Ino \<Rightarrow> string option" where
  "ino_path s i = map_option (\<lambda>r. case r of None \<Rightarrow> [] | Some Parts \<Rightarrow> foldl join (I_Root s) Parts) (path_parts (I_Nodes s) i [])"

definition ino_reparent :: "Ino \<Rightarrow> string \<Rightarrow> Ino \<Rightarrow> string \<Rightarrow> Inodes \<Rightarrow> Inodes" where
  "ino_reparent Parent Name NewParent NewName s =
     (case I_ByName s (keyOf Parent Name) of
        None \<Rightarrow> s
      | Some Moving \<Rightarrow>
          let s = s\<lparr>I_ByName := (I_ByName s)(keyOf Parent Name := None)\<rparr>;
              s = (case I_ByName s (keyOf NewParent NewName) of
                     None \<Rightarrow> s
                   | Some c \<Rightarrow>
                       let N = (case I_Nodes s c of None \<Rightarrow> I_Nodes s | Some g \<Rightarrow> (bump (N_Parent g) (- 1) (I_Nodes s))(c := None))
                       in s\<lparr>I_Nodes := N, I_ByName := (I_ByName s)(keyOf NewParent NewName := None)\<rparr>);
              N = bump (N_Parent (node_at (I_Nodes s) Moving)) (- 1) (I_Nodes s);
              N = N(Moving \<mapsto> (node_at N Moving)\<lparr>N_Parent := NewParent, N_Name := NewName\<rparr>)
          in s\<lparr>I_Nodes := bump NewParent 1 N, I_ByName := emplace (keyOf NewParent NewName) Moving (I_ByName s)\<rparr>)"

definition ino_drop :: "Ino \<Rightarrow> string \<Rightarrow> Inodes \<Rightarrow> Inodes" where
  "ino_drop Parent Name s =
     (case I_ByName s (keyOf Parent Name) of
        None \<Rightarrow> s
      | Some i \<Rightarrow>
          (case I_Nodes s i of
             Some n \<Rightarrow> ino_erase i n s
           | None \<Rightarrow> s\<lparr>I_ByName := (I_ByName s)(keyOf Parent Name := None)\<rparr>))"

section \<open>Runs of a mount\<close>

datatype ino_op =
    Insert Ino string
  | Reserve Ino string
  | Release Ino string
  | Forget Ino u64
  | Reparent Ino string Ino string
  | Drop Ino string

fun ino_apply :: "ino_op \<Rightarrow> Inodes \<Rightarrow> Inodes" where
  "ino_apply (Insert p nm) s = snd (ino_insert p nm s)"
| "ino_apply (Reserve p nm) s = snd (ino_reserve p nm s)"
| "ino_apply (Release p nm) s = ino_release p nm s"
| "ino_apply (Forget i c) s = ino_forget i c s"
| "ino_apply (Reparent p nm p' nm') s = ino_reparent p nm p' nm' s"
| "ino_apply (Drop p nm) s = ino_drop p nm s"

text \<open>The edges of the tree, from a parent to its children.\<close>

definition up :: "(Ino \<rightharpoonup> Node) \<Rightarrow> Ino \<Rightarrow> Ino option" where
  "up N j = map_option N_Parent (N j)"

definition kids :: "(Ino \<rightharpoonup> Node) \<Rightarrow> Ino \<Rightarrow> Ino set" where
  "kids N p = {j. up N j = Some p}"

definition edges :: "(Ino \<rightharpoonup> Node) \<Rightarrow> (Ino \<times> Ino) set" where
  "edges N = {(p, j). up N j = Some p}"

text \<open>
  What the handlers check and what the kernel promises: names are made under a parent that is
  known, and no directory is moved below itself.
\<close>

fun allowed :: "ino_op \<Rightarrow> Inodes \<Rightarrow> bool" where
  "allowed (Insert p nm) s = known s p"
| "allowed (Reserve p nm) s = known s p"
| "allowed (Reparent p nm p' nm') s =
     (known s p \<and> known s p' \<and> (\<forall>m. I_ByName s (keyOf p nm) = Some m \<longrightarrow> (m, p') \<notin> (edges (I_Nodes s))\<^sup>*))"
| "allowed _ s = True"

text \<open>The numbers are 64 bits wide and never reused, so a run ends before they wrap.\<close>

inductive ino_step :: "Inodes \<Rightarrow> Inodes \<Rightarrow> bool" where
  step: "allowed op s \<Longrightarrow> I_Next s < - 1 \<Longrightarrow> ino_step s (ino_apply op s)"

section \<open>The invariant\<close>

definition node_key :: "Node \<Rightarrow> string" where
  "node_key n = keyOf (N_Parent n) (N_Name n)"

definition key :: "(Ino \<rightharpoonup> Node) \<Rightarrow> Ino \<Rightarrow> string option" where
  "key N i = map_option node_key (N i)"

definition inverse_maps :: "('a \<rightharpoonup> 'b) \<Rightarrow> ('b \<rightharpoonup> 'a) \<Rightarrow> bool" where
  "inverse_maps B K \<longleftrightarrow> (\<forall>k i. B k = Some i \<longleftrightarrow> K i = Some k)"

definition names_ok :: "(Ino \<rightharpoonup> Node) \<Rightarrow> (string \<rightharpoonup> Ino) \<Rightarrow> bool" where
  "names_ok N B \<longleftrightarrow> inverse_maps B (key N)"

definition counts_ok :: "(Ino \<rightharpoonup> Node) \<Rightarrow> bool" where
  "counts_ok N \<longleftrightarrow> (\<forall>i n. N i = Some n \<longrightarrow> N_Kids n = of_nat (card (kids N i)))"

definition range_ok :: "(Ino \<rightharpoonup> Node) \<Rightarrow> Ino \<Rightarrow> bool" where
  "range_ok N nx \<longleftrightarrow> kRootIno < nx \<and> (\<forall>i n. N i = Some n \<longrightarrow> kRootIno < i \<and> i < nx \<and> N_Parent n < nx)"

definition tree_wf :: "(Ino \<rightharpoonup> Node) \<Rightarrow> (string \<rightharpoonup> Ino) \<Rightarrow> Ino \<Rightarrow> bool" where
  "tree_wf N B nx \<longleftrightarrow> names_ok N B \<and> counts_ok N \<and> range_ok N nx \<and> acyclic (edges N)"

definition tree_ok :: "Inodes \<Rightarrow> bool" where
  "tree_ok s \<longleftrightarrow> tree_wf (I_Nodes s) (I_ByName s) (I_Next s)"

definition inodes_wf :: "Inodes \<Rightarrow> bool" where
  "inodes_wf s \<longleftrightarrow> tree_ok s \<and> length (I_Cold s) \<le> kListedLimit"

lemma keyOf_inject: "keyOf p nm = keyOf p' nm' \<longleftrightarrow> p = p' \<and> nm = nm'"
proof
  assume e: "keyOf p nm = keyOf p' nm'"
  have "a = b \<and> x = y" if "a @ CHR ''/'' # x = b @ CHR ''/'' # y" "CHR ''/'' \<notin> set a" "CHR ''/'' \<notin> set b" for a b x y
    using that by (induction a arbitrary: b) (auto simp: Cons_eq_append_conv append_eq_Cons_conv)
  from this [of "decimal (unat p)" nm "decimal (unat p')" nm'] e
  show "p = p' \<and> nm = nm'" by (simp add: keyOf_def decimal_chars decimal_inject word_unat_eq_iff)
qed simp

lemma bump_apply:
  "bump p d N i = (if i = p then map_option (\<lambda>u. u\<lparr>N_Kids := N_Kids u + d\<rparr>) (N i) else N i)"
  by (auto simp: bump_def split: option.splits)

lemma key_bump [simp]: "key (bump p d N) = key N"
  by (rule ext) (auto simp: key_def bump_apply node_key_def [abs_def] option.map_comp comp_def)

lemma key_upd [simp]: "key (N(i \<mapsto> n)) = (key N)(i \<mapsto> node_key n)" "key (N(i := None)) = (key N)(i := None)"
  by (auto simp: key_def)

lemma inverse_maps_remove: "inverse_maps B K \<Longrightarrow> K i = Some k \<Longrightarrow> inverse_maps (B(k := None)) (K(i := None))"
  by (auto simp: inverse_maps_def) (metis option.inject)+

lemma inverse_maps_add: "inverse_maps B K \<Longrightarrow> K i = None \<Longrightarrow> B k = None \<Longrightarrow> inverse_maps (B(k \<mapsto> i)) (K(i \<mapsto> k))"
  by (auto simp: inverse_maps_def) (metis option.distinct(1))+

lemma inverse_maps_move:
  "inverse_maps B K \<Longrightarrow> K i = Some k \<Longrightarrow> B k' = None \<or> k' = k \<Longrightarrow> inverse_maps (B(k := None, k' \<mapsto> i)) (K(i \<mapsto> k'))"
  using inverse_maps_add [OF inverse_maps_remove [of B K i k], of i k'] by auto

lemma up_bump [simp]: "up (bump p d N) = up N"
  by (rule ext) (auto simp: up_def bump_apply option.map_comp comp_def)

lemma up_upd [simp]: "up (N(i \<mapsto> n)) = (up N)(i \<mapsto> N_Parent n)" "up (N(i := None)) = (up N)(i := None)"
  by (auto simp: up_def)

lemma kids_bump [simp]: "kids (bump p d N) = kids N" and edges_bump [simp]: "edges (bump p d N) = edges N"
  by (auto simp: kids_def edges_def)

lemma card_word_less: "A \<subseteq> - {0 :: Ino} \<Longrightarrow> card A < 2 ^ 64"
proof -
  assume "A \<subseteq> - {0}"
  then have "A \<subset> UNIV" by auto
  then have "card A < card (UNIV :: Ino set)" by (intro psubset_card_mono) simp_all
  then show "card A < 2 ^ 64" by (simp add: card_word)
qed

text \<open>One node less, one node more, and one node elsewhere.\<close>

lemma counts_remove:
  assumes "counts_ok N" and "N i = Some n" and "N_Parent n \<noteq> i"
  shows "counts_ok ((bump (N_Parent n) (- 1) N)(i := None))"
proof -
  define N' where "N' = (bump (N_Parent n) (- 1) N)(i := None)"
  have k: "kids N' q = kids N q - {i}" for q by (auto simp: N'_def kids_def)
  have i: "i \<in> kids N q \<longleftrightarrow> q = N_Parent n" for q using assms(2) by (auto simp: kids_def up_def)
  have "N_Kids m = of_nat (card (kids N' j))" if j: "N' j = Some m" for j m
  proof (cases "j = N_Parent n")
    case True
    then obtain m0 where m: "N j = Some m0" "N_Kids m = N_Kids m0 - 1" using j assms(3) by (auto simp: N'_def bump_apply split: if_splits)
    have "card (kids N j) > 0" using i [of j] True by (simp add: card_gt_0_iff) blast
    then show ?thesis using assms(1) m i [of j] True by (simp add: counts_ok_def k of_nat_diff)
  next
    case False
    then show ?thesis using j assms(1) i [of j] by (auto simp: counts_ok_def k N'_def [THEN fun_cong] bump_apply split: if_splits)
  qed
  then show ?thesis by (simp add: counts_ok_def flip: N'_def)
qed

lemma counts_add:
  assumes "counts_ok N" and "N i = None" and "kids N i = {}" and "p \<noteq> i"
  shows "counts_ok (bump p 1 (N(i \<mapsto> \<lparr>N_Parent = p, N_Name = nm, N_Refs = r, N_Kids = 0\<rparr>)))"
proof -
  define N' where "N' = bump p 1 (N(i \<mapsto> \<lparr>N_Parent = p, N_Name = nm, N_Refs = r, N_Kids = 0\<rparr>))"
  have k: "kids N' q = (if q = p then insert i (kids N q) else kids N q)" for q
    using assms(2) by (auto simp: N'_def kids_def up_def split: if_splits)
  have i: "i \<notin> kids N q" for q using assms(2) by (auto simp: kids_def up_def)
  have "N_Kids m = of_nat (card (kids N' j))" if "N' j = Some m" for j m
    using that assms(1,3,4) i [of p] by (auto simp: counts_ok_def k N'_def [THEN fun_cong] bump_apply split: if_splits)
  then show ?thesis by (simp add: counts_ok_def flip: N'_def)
qed

lemma counts_move:
  assumes "counts_ok N" and "N i = Some n" and "N_Parent n \<noteq> i" and "p \<noteq> i"
    and "N1 = bump (N_Parent n) (- 1) N"
  shows "counts_ok (bump p 1 (N1(i \<mapsto> (node_at N1 i)\<lparr>N_Parent := p, N_Name := nm\<rparr>)))"
proof -
  define N' where "N' = bump p 1 (N1(i \<mapsto> (node_at N1 i)\<lparr>N_Parent := p, N_Name := nm\<rparr>))"
  have n1: "node_at N1 i = n" using assms(2,3,5) by (simp add: node_at_def bump_apply)
  have k: "kids N' q = (if q = p then insert i (kids N q) else kids N q - {i})" for q
    by (auto simp: N'_def kids_def assms(5) split: if_splits)
  have i: "i \<in> kids N q \<longleftrightarrow> q = N_Parent n" for q using assms(2) by (auto simp: kids_def up_def)
  have c: "of_nat (card (kids N (N_Parent n) - {i})) = (of_nat (card (kids N (N_Parent n))) - 1 :: u64)"
    using i [of "N_Parent n"] card_gt_0_iff [of "kids N (N_Parent n)"] by (auto simp: of_nat_diff)
  have "N_Kids m = of_nat (card (kids N' j))" if j: "N' j = Some m" for j m
  proof -
    obtain m0 where m0: "N j = Some m0"
      "N_Kids m = N_Kids m0 + (if j = N_Parent n then - 1 else 0) + (if j = p then 1 else 0)"
      using j assms(2,3,4) n1 by (auto simp: N'_def bump_apply assms(5) split: if_splits)
    then have "N_Kids m0 = of_nat (card (kids N j))" using assms(1) by (simp add: counts_ok_def)
    then show ?thesis using m0(2) i [of j] c by (auto simp: k card_insert_if)
  qed
  then show ?thesis by (simp add: counts_ok_def flip: N'_def)
qed

lemma acyclic_parent: "acyclic (edges N) \<Longrightarrow> N i = Some n \<Longrightarrow> N_Parent n \<noteq> i"
  by (auto simp: acyclic_def edges_def up_def)

lemma tree_remove:
  assumes "tree_wf N B nx" and "N i = Some n"
  shows "tree_wf ((bump (N_Parent n) (- 1) N)(i := None)) (B(node_key n := None)) nx"
proof -
  let ?N = "(bump (N_Parent n) (- 1) N)(i := None)"
  have "names_ok ?N (B(node_key n := None))"
    using assms inverse_maps_remove [of B "key N" i] by (simp add: tree_wf_def names_ok_def key_def)
  moreover have "counts_ok ?N"
    using assms counts_remove acyclic_parent by (auto simp: tree_wf_def)
  moreover have "range_ok ?N nx" using assms by (auto simp: tree_wf_def range_ok_def bump_apply)
  moreover have "edges ?N \<subseteq> edges N" by (auto simp: edges_def split: if_splits)
  ultimately show ?thesis using assms(1) acyclic_subset by (auto simp: tree_wf_def)
qed

lemma tree_add:
  assumes "tree_wf N B nx" and "B (keyOf p nm) = None" and "p < nx" and "nx < - 1"
  shows "tree_wf (bump p 1 (N(nx \<mapsto> \<lparr>N_Parent = p, N_Name = nm, N_Refs = r, N_Kids = 0\<rparr>))) (B(keyOf p nm \<mapsto> nx)) (nx + 1)"
proof -
  let ?n = "\<lparr>N_Parent = p, N_Name = nm, N_Refs = r, N_Kids = 0\<rparr>"
  let ?N = "bump p 1 (N(nx \<mapsto> ?n))"
  have "1 + nx \<noteq> 0" using assms(4) by (metis add.commute eq_neg_iff_add_eq_0 order_less_irrefl)
  then have lt: "x < nx + 1 \<longleftrightarrow> x < nx \<or> x = nx" for x :: Ino
    using unatSuc [of nx] by (auto simp: word_less_nat_alt add.commute word_unat_eq_iff less_Suc_eq)
  have fresh: "N nx = None" using assms(1) by (cases "N nx") (auto simp: tree_wf_def range_ok_def)
  have leaf: "kids N nx = {}" using assms(1) by (auto simp: tree_wf_def range_ok_def kids_def up_def)
  have "names_ok ?N (B(keyOf p nm \<mapsto> nx))"
    using assms(1,2) fresh inverse_maps_add [of B "key N" nx] by (simp add: tree_wf_def names_ok_def node_key_def key_def)
  moreover have "counts_ok ?N"
    using counts_add [of N nx p nm r] assms(1,3) fresh leaf by (auto simp: tree_wf_def)
  moreover have "range_ok ?N (nx + 1)"
    using assms(1,3) by (auto simp: tree_wf_def range_ok_def bump_apply lt)
  moreover have "acyclic (edges ?N)"
  proof -
    have e: "edges ?N = insert (p, nx) (edges N)" using fresh by (auto simp: edges_def up_def split: if_splits)
    have "(nx, p) \<notin> (edges N)\<^sup>*"
      using leaf assms(3) by (auto simp: kids_def edges_def elim: converse_rtranclE)
    then show ?thesis unfolding e using assms(1) by (simp add: acyclic_insert tree_wf_def)
  qed
  ultimately show ?thesis by (simp add: tree_wf_def)
qed

lemma tree_touch:
  assumes "tree_wf N B nx" and "N i = Some n"
  shows "tree_wf (N(i \<mapsto> n\<lparr>N_Refs := r\<rparr>)) B nx"
proof -
  have "up (N(i \<mapsto> n\<lparr>N_Refs := r\<rparr>)) = up N" "key (N(i \<mapsto> n\<lparr>N_Refs := r\<rparr>)) = key N"
    using assms(2) by (auto simp: up_def key_def node_key_def)
  then show ?thesis
    using assms by (auto simp: tree_wf_def names_ok_def counts_ok_def range_ok_def kids_def edges_def)
qed

lemma tree_move:
  assumes "tree_wf N B nx" and "N i = Some n" and "B (keyOf p nm) = None \<or> keyOf p nm = node_key n"
    and "p < nx" and "(i, p) \<notin> (edges N)\<^sup>*" and "N1 = bump (N_Parent n) (- 1) N"
  shows "tree_wf (bump p 1 (N1(i \<mapsto> (node_at N1 i)\<lparr>N_Parent := p, N_Name := nm\<rparr>))) (B(node_key n := None, keyOf p nm \<mapsto> i)) nx"
proof -
  let ?N = "bump p 1 (N1(i \<mapsto> (node_at N1 i)\<lparr>N_Parent := p, N_Name := nm\<rparr>))"
  have ne: "N_Parent n \<noteq> i" "p \<noteq> i" using assms(1,2,5) acyclic_parent by (auto simp: tree_wf_def)
  have n1: "node_at N1 i = n" using assms(2,6) ne by (simp add: node_at_def bump_apply)
  have "names_ok ?N (B(node_key n := None, keyOf p nm \<mapsto> i))"
    using assms(1,2,3) n1 inverse_maps_move [of B "key N" i "node_key n" "keyOf p nm"]
    by (simp add: tree_wf_def names_ok_def key_def assms(6)) (simp add: node_key_def)
  moreover have "counts_ok ?N"
    using counts_move [OF _ assms(2) ne assms(6), of nm] assms(1) by (simp add: tree_wf_def)
  moreover have "range_ok ?N nx"
    using assms(1,2,4) n1 by (auto simp: tree_wf_def range_ok_def bump_apply assms(6))
  moreover have "acyclic (edges ?N)"
  proof -
    have e: "edges ?N \<subseteq> insert (p, i) (edges N)" by (auto simp: edges_def assms(6) split: if_splits)
    have "acyclic (insert (p, i) (edges N))" using assms(1,5) by (simp add: acyclic_insert tree_wf_def)
    then show ?thesis using e acyclic_subset by blast
  qed
  ultimately show ?thesis by (simp add: tree_wf_def)
qed

section \<open>Every operation keeps it\<close>

lemma tree_ok_cold [simp]: "tree_ok (s\<lparr>I_Cold := c\<rparr>) = tree_ok s"
  by (simp add: tree_ok_def)

lemma known_less: "tree_ok s \<Longrightarrow> known s p \<Longrightarrow> p < I_Next s"
  by (auto simp: known_def tree_ok_def tree_wf_def range_ok_def)

lemma by_name:
  assumes "tree_ok s" and "I_ByName s k = Some i"
  obtains n where "I_Nodes s i = Some n" and "node_key n = k"
  using assms by (auto simp: tree_ok_def tree_wf_def names_ok_def inverse_maps_def key_def)

lemma erase_tree: "tree_ok s \<Longrightarrow> I_Nodes s i = Some n \<Longrightarrow> tree_ok (ino_erase i n s)"
  using tree_remove [of "I_Nodes s" "I_ByName s" "I_Next s" i n]
  by (simp add: tree_ok_def ino_erase_def node_key_def)

lemma erase_cold [simp]: "I_Cold (ino_erase i n s) = I_Cold s"
  by (simp add: ino_erase_def)

lemma erase_wf: "inodes_wf s \<Longrightarrow> I_Nodes s i = Some n \<Longrightarrow> inodes_wf (ino_erase i n s)"
  by (simp add: inodes_wf_def erase_tree)

lemma touch_wf: "inodes_wf s \<Longrightarrow> I_Nodes s i = Some n \<Longrightarrow> inodes_wf (s\<lparr>I_Nodes := (I_Nodes s)(i \<mapsto> n\<lparr>N_Refs := r\<rparr>)\<rparr>)"
  using tree_touch [of "I_Nodes s" "I_ByName s" "I_Next s" i n r] by (simp add: inodes_wf_def tree_ok_def)

lemma create_tree:
  assumes "tree_ok s" and "I_ByName s (keyOf p nm) = None" and "known s p" and "I_Next s < - 1"
    and "ino_create p nm r s = (i, s')"
  shows "tree_ok s' \<and> I_Cold s' = I_Cold s"
proof -
  have "I_Nodes s (I_Next s) = None"
    using assms(1) by (cases "I_Nodes s (I_Next s)") (auto simp: tree_ok_def tree_wf_def range_ok_def)
  then show ?thesis
    using tree_add [OF assms(1) [unfolded tree_ok_def] assms(2) known_less [OF assms(1,3)] assms(4), of r] assms(2,5)
    by (auto simp: ino_create_def Let_def emplace_def tree_ok_def)
qed

lemma trim_cases:
  assumes "length (I_Cold s) > kListedLimit" and "s1 = s\<lparr>I_Cold := tl (I_Cold s)\<rparr>"
  obtains "ino_trim s = ino_trim s1"
    | n where "I_Nodes s (hd (I_Cold s)) = Some n" and "N_Refs n = 0" and "N_Kids n = 0"
      and "ino_trim s = ino_trim (ino_erase (hd (I_Cold s)) n s1)"
  using assms ino_trim.simps [of s]
  by (cases "I_Nodes s (hd (I_Cold s))") (auto simp: Let_def word_gt_0 split: if_splits)

lemma trim_wf: "tree_ok s \<Longrightarrow> inodes_wf (ino_trim s)"
proof (induction "length (I_Cold s)" arbitrary: s rule: less_induct)
  case less
  show ?case
  proof (cases "length (I_Cold s) > kListedLimit")
    case True
    then have l: "length (tl (I_Cold s)) < length (I_Cold s)" by (cases "I_Cold s") auto
    show ?thesis
      using less.hyps [of "s\<lparr>I_Cold := tl (I_Cold s)\<rparr>"] less.hyps [of "ino_erase _ _ (s\<lparr>I_Cold := tl (I_Cold s)\<rparr>)"] less.prems l
      by (cases rule: trim_cases [OF True refl]) (auto simp: erase_tree)
  next
    case False
    with less.prems show ?thesis by (subst ino_trim.simps) (simp add: inodes_wf_def)
  qed
qed

lemma reparent_wf:
  assumes "inodes_wf s" and "allowed (Reparent p nm p' nm') s"
  shows "inodes_wf (ino_reparent p nm p' nm' s)"
proof (cases "I_ByName s (keyOf p nm)")
  case None
  then show ?thesis using assms(1) by (simp add: ino_reparent_def)
next
  case (Some m)
  let ?k = "keyOf p nm" and ?k' = "keyOf p' nm'"
  have t0: "tree_ok s" using assms(1) by (simp add: inodes_wf_def)
  note t = t0 [unfolded tree_ok_def]
  obtain n where n: "I_Nodes s m = Some n" "node_key n = ?k" by (rule by_name [OF t0 Some])
  have p': "p' < I_Next s" using known_less [OF t0] assms(2) by simp
  have nc: "(m, p') \<notin> (edges (I_Nodes s))\<^sup>*" using assms(2) Some by simp
  show ?thesis
  proof (cases "I_ByName s ?k' = None \<or> ?k' = ?k")
    case True
    have "bump (N_Parent (node_at (I_Nodes s) m)) (- 1) (I_Nodes s) = bump (N_Parent n) (- 1) (I_Nodes s)"
      using n(1) by (simp add: node_at_def)
    from tree_move [OF t n(1) _ p' nc this, of nm'] True n(2)
    show ?thesis using assms(1) True Some
      by (auto simp: ino_reparent_def Let_def inodes_wf_def tree_ok_def emplace_def fun_upd_idem)
  next
    case False
    then obtain c where c: "I_ByName s ?k' = Some c" by auto
    obtain g where g: "I_Nodes s c = Some g" "node_key g = ?k'" by (rule by_name [OF t0 c])
    let ?N = "(bump (N_Parent g) (- 1) (I_Nodes s))(c := None)" and ?B = "(I_ByName s)(?k' := None)"
    have t': "tree_wf ?N ?B (I_Next s)" using tree_remove [OF t g(1)] g(2) by simp
    have "m \<noteq> c" using n g False by auto
    then obtain n' where n': "?N m = Some n'" "node_key n' = ?k" 
      using n by (cases "m = N_Parent g") (auto simp: bump_apply node_key_def)
    have "edges ?N \<subseteq> edges (I_Nodes s)" by (auto simp: edges_def split: if_splits)
    then have nc': "(m, p') \<notin> (edges ?N)\<^sup>*" using nc rtrancl_mono by blast
    have "bump (N_Parent (node_at ?N m)) (- 1) ?N = bump (N_Parent n') (- 1) ?N"
      using n'(1) by (simp add: node_at_def)
    from tree_move [OF t' n'(1) _ p' nc' this, of nm'] n'(2)
    show ?thesis using assms(1) False Some c g
      by (auto simp: ino_reparent_def Let_def inodes_wf_def tree_ok_def emplace_def fun_upd_twist)
  qed
qed

lemma ino_apply_wf:
  assumes "inodes_wf s" and "allowed op s" and "I_Next s < - 1"
  shows "inodes_wf (ino_apply op s)"
proof (cases op)
  case (Insert p nm)
  show ?thesis
  proof (cases "I_ByName s (keyOf p nm)")
    case None
    then show ?thesis
      using create_tree [of s p nm 1] assms Insert
      by (cases "ino_create p nm 1 s") (simp add: inodes_wf_def ino_insert_def)
  next
    case (Some i)
    then obtain n where "I_Nodes s i = Some n" by (metis by_name inodes_wf_def assms(1))
    then show ?thesis using Some touch_wf [OF assms(1), of i n] Insert by (simp add: ino_insert_def Let_def node_at_def)
  qed
next
  case (Reserve p nm)
  show ?thesis
  proof (cases "I_ByName s (keyOf p nm)")
    case None
    then show ?thesis
      using create_tree [of s p nm 0] assms Reserve trim_wf
      by (cases "ino_create p nm 0 s") (simp add: inodes_wf_def ino_reserve_def)
  next
    case Some
    then show ?thesis using assms(1) Reserve by (simp add: ino_reserve_def)
  qed
next
  case (Release p nm)
  then show ?thesis using assms(1) by (auto simp: ino_release_def erase_wf split: option.split)
next
  case (Forget i c)
  then show ?thesis
    using assms(1) by (auto simp: ino_forget_def erase_wf touch_wf split: option.split)
next
  case (Reparent p nm p' nm')
  then show ?thesis using reparent_wf assms by simp
next
  case (Drop p nm)
  show ?thesis
  proof (cases "I_ByName s (keyOf p nm)")
    case None
    then show ?thesis using assms(1) Drop by (simp add: ino_drop_def)
  next
    case (Some i)
    then obtain n where "I_Nodes s i = Some n" by (metis by_name inodes_wf_def assms(1))
    then show ?thesis using Some erase_wf [OF assms(1)] Drop by (simp add: ino_drop_def)
  qed
qed

interpretation ino: transition_system "Inodes_new R" ino_step inodes_wf for R
proof
  show "inodes_wf (Inodes_new R)"
    by (simp add: Inodes_new_def inodes_wf_def tree_ok_def tree_wf_def names_ok_def inverse_maps_def key_def
        counts_ok_def range_ok_def edges_def up_def acyclic_def kRootIno_def)
qed (auto simp: ino_apply_wf elim: ino_step.cases)

lemma reachable_wf: "ino_step\<^sup>*\<^sup>* (Inodes_new R) s \<Longrightarrow> inodes_wf s"
  using ino.reachable_inv by (simp add: ino.reachable_def)

section \<open>Paths\<close>

inductive linked :: "(Ino \<rightharpoonup> Node) \<Rightarrow> Ino \<Rightarrow> bool" for N where
  root: "linked N kRootIno"
| node: "N i = Some n \<Longrightarrow> linked N (N_Parent n) \<Longrightarrow> linked N i"

inductive_simps linked_iff: "linked N i"

lemma edges_wf: "inodes_wf s \<Longrightarrow> wf (edges (I_Nodes s))"
  by (simp add: inodes_wf_def tree_ok_def tree_wf_def finite_acyclic_wf)

lemma path_parts_total:
  assumes "wf (edges N)"
  shows "\<exists>r. (\<forall>ps. path_parts N i ps = Some (map_option (\<lambda>qs. qs @ ps) r)) \<and> (r \<noteq> None \<longleftrightarrow> linked N i)"
  using assms
proof (induction i rule: wf_induct_rule)
  case (less i)
  show ?case
  proof (cases "i = kRootIno \<or> N i = None")
    case True
    then show ?thesis
      by (intro exI [of _ "if i = kRootIno then Some [] else None"]) (auto simp: path_parts.simps [of N i] linked_iff [of N i])
  next
    case False
    then obtain n where n: "N i = Some n" "i \<noteq> kRootIno" by auto
    then have "(N_Parent n, i) \<in> edges N" by (simp add: edges_def up_def)
    from less.IH [OF this] obtain r where r: "\<forall>ps. path_parts N (N_Parent n) ps = Some (map_option (\<lambda>qs. qs @ ps) r)"
      "r \<noteq> None \<longleftrightarrow> linked N (N_Parent n)" by blast
    then show ?thesis
      using n by (intro exI [of _ "map_option (\<lambda>qs. qs @ [N_Name n]) r"])
        (auto simp: path_parts.simps [of N i] option.map_comp comp_def linked_iff [of N i])
  qed
qed

text \<open>A node without children can come or go without changing the path of any other.\<close>

lemma path_parts_other:
  assumes "wf (edges N)" and "i \<noteq> e" and "kids N e = {}"
    and "\<And>j. j \<noteq> e \<Longrightarrow> map_option (\<lambda>n. (N_Parent n, N_Name n)) (N' j) = map_option (\<lambda>n. (N_Parent n, N_Name n)) (N j)"
  shows "path_parts N' i ps = path_parts N i ps"
  using assms(1,2)
proof (induction i arbitrary: ps rule: wf_induct_rule)
  case (less i)
  show ?case
  proof (cases "N i")
    case None
    then show ?thesis using assms(4) [OF less.prems] by (simp add: path_parts.simps [of _ i])
  next
    case (Some n)
    then obtain n' where n': "N' i = Some n'" "N_Parent n' = N_Parent n" "N_Name n' = N_Name n"
      using assms(4) [OF less.prems] by auto
    have "(N_Parent n, i) \<in> edges N" "N_Parent n \<noteq> e" using Some assms(3) by (auto simp: edges_def kids_def up_def)
    from less.IH [OF this] show ?thesis using Some n' by (simp add: path_parts.simps [of _ i])
  qed
qed

lemma fresh_leaf:
  assumes r: "range_ok N nx"
  shows "N nx = None" and "kids N nx = {}" and "kids N i \<subseteq> - {0}"
proof -
  have *: "0 < j \<and> j < nx \<and> q < nx" if "N j = Some n" "N_Parent n = q" for j n q
    using r that order_le_less_trans [OF word_zero_le, of kRootIno j] by (auto simp: range_ok_def)
  show "N nx = None" using * by (cases "N nx") auto
  show "kids N nx = {}" "kids N i \<subseteq> - {0}" using * by (fastforce simp: kids_def up_def)+
qed

lemma link_bump [simp]:
  "map_option (\<lambda>n. (N_Parent n, N_Name n)) (bump p d N j) = map_option (\<lambda>n. (N_Parent n, N_Name n)) (N j)"
  by (auto simp: bump_apply option.map_comp comp_def)

lemma path_cong: "I_Root s' = I_Root s \<Longrightarrow> path_parts (I_Nodes s') i [] = path_parts (I_Nodes s) i [] \<Longrightarrow> ino_path s' i = ino_path s i"
  by (simp only: ino_path_def)

lemma kids_count:
  assumes "tree_ok s" and "I_Nodes s i = Some n"
  shows "unat (N_Kids n) = card (kids (I_Nodes s) i)"
  using assms card_word_less [OF fresh_leaf(3) [of "I_Nodes s" "I_Next s" i]] by (simp add: tree_ok_def tree_wf_def counts_ok_def unat_of_nat take_bit_eq_mod)

lemma path_cold [simp]: "ino_path (s\<lparr>I_Cold := c\<rparr>) i = ino_path s i"
  by (rule path_cong) simp_all

lemma path_erase:
  assumes "tree_ok s" and "I_Nodes s e = Some n" and "N_Kids n = 0" and "i \<noteq> e"
  shows "ino_path (ino_erase e n s) i = ino_path s i"
proof -
  have w: "wf (edges (I_Nodes s))" using assms(1) by (simp add: tree_ok_def tree_wf_def finite_acyclic_wf)
  have k: "kids (I_Nodes s) e = {}" using kids_count [OF assms(1,2)] assms(3) by simp
  show ?thesis
    using path_parts_other [OF w assms(4) k, of "(bump (N_Parent n) (- 1) (I_Nodes s))(e := None)"]
    by (intro path_cong) (simp_all add: ino_erase_def)
qed

lemma erase_refs: "i \<noteq> e \<Longrightarrow> map_option N_Refs (I_Nodes (ino_erase e n s) i) = map_option N_Refs (I_Nodes s i)"
  by (auto simp: ino_erase_def bump_apply option.map_comp comp_def)

lemma trim_keeps:
  assumes "tree_ok s" and "map_option N_Refs (I_Nodes s i) = Some r" and "0 < r"
  shows "map_option N_Refs (I_Nodes (ino_trim s) i) = Some r \<and> ino_path (ino_trim s) i = ino_path s i"
  using assms
proof (induction "length (I_Cold s)" arbitrary: s rule: less_induct)
  case less
  show ?case
  proof (cases "length (I_Cold s) > kListedLimit")
    case False
    then show ?thesis using less.prems by (simp add: ino_trim.simps [of s])
  next
    case True
    let ?s = "s\<lparr>I_Cold := tl (I_Cold s)\<rparr>"
    have l: "length (I_Cold ?s) < length (I_Cold s)" using True by (cases "I_Cold s") auto
    show ?thesis
    proof (cases rule: trim_cases [OF True refl])
      case 1
      then show ?thesis using less.hyps [OF l] less.prems by simp
    next
      case (2 n)
      let ?e = "ino_erase (hd (I_Cold s)) n ?s"
      have i: "i \<noteq> hd (I_Cold s)" using 2 less.prems(2,3) by auto
      have "ino_path ?e i = ino_path s i" using path_erase [of ?s "hd (I_Cold s)" n i] less.prems(1) 2 i by simp
      moreover have "map_option N_Refs (I_Nodes ?e i) = Some r" using erase_refs [OF i, of n ?s] less.prems(2) by simp
      moreover have "tree_ok ?e" using erase_tree [of ?s "hd (I_Cold s)" n] less.prems(1) 2(1) by simp
      ultimately show ?thesis using less.hyps [of ?e] l less.prems(3) 2(4) by simp
    qed
  qed
qed

section \<open>A run\<close>

text \<open>A directory and a file in it are looked up; then the file is renamed into the root.\<close>

definition run_looked :: Inodes where
  "run_looked = ino_apply (Insert 2 ''f'') (ino_apply (Insert kRootIno ''d'') (Inodes_new ''exp''))"

definition run_moved :: Inodes where
  "run_moved = ino_apply (Reparent 2 ''f'' kRootIno ''g'') run_looked"

lemmas ino_eval = run_looked_def run_moved_def Inodes_new_def ino_insert_def ino_reparent_def ino_create_def emplace_def bump_def
  node_at_def keyOf_inject kRootIno_def Let_def

lemma run_looked_nodes:
  "I_Nodes run_looked = [2 \<mapsto> \<lparr>N_Parent = 1, N_Name = ''d'', N_Refs = 1, N_Kids = 1\<rparr>, 3 \<mapsto> \<lparr>N_Parent = 2, N_Name = ''f'', N_Refs = 1, N_Kids = 0\<rparr>]"
  "I_ByName run_looked = [keyOf 1 ''d'' \<mapsto> 2, keyOf 2 ''f'' \<mapsto> 3]"
  "I_Next run_looked = 4" "I_Root run_looked = ''exp''" "I_Cold run_looked = []"
  by (simp_all add: ino_eval fun_upd_twist)

lemma run_looked_reachable: "ino_step\<^sup>*\<^sup>* (Inodes_new ''exp'') run_looked"
proof -
  have "ino_step (Inodes_new ''exp'') (ino_apply (Insert kRootIno ''d'') (Inodes_new ''exp''))"
    by (rule ino_step.step) (simp_all add: known_def Inodes_new_def kRootIno_def)
  moreover have "ino_step (ino_apply (Insert kRootIno ''d'') (Inodes_new ''exp'')) run_looked"
    unfolding run_looked_def by (rule ino_step.step) (simp_all add: known_def ino_eval)
  ultimately show ?thesis by (meson converse_rtranclp_into_rtranclp rtranclp.rtrancl_refl)
qed

lemma run_moved_reachable: "ino_step\<^sup>*\<^sup>* (Inodes_new ''exp'') run_moved"
proof -
  have e: "edges (I_Nodes run_looked) = {(1, 2), (2, 3)}" by (auto simp: run_looked_nodes edges_def up_def split: if_splits)
  have "(3, 1) \<notin> (edges (I_Nodes run_looked))\<^sup>*" by (auto simp: e elim: converse_rtranclE)
  then have "ino_step run_looked run_moved" unfolding run_moved_def
    by (intro ino_step.step) (simp_all add: known_def run_looked_nodes keyOf_inject kRootIno_def)
  with run_looked_reachable show ?thesis by (rule rtranclp.rtrancl_into_rtrancl)
qed

section \<open>Properties\<close>

text \<open>
  C22. In every run of a mount the two tables of \<^verbatim>\<open>Inodes\<close> describe the same tree: a name under a
  parent leads to a number exactly when that number's node has that parent and that name, no two
  nodes share a parent and a name, every number in use is below the next fresh one and is not
  the root's, every node counts its children exactly, and the list of names that were only
  listed stays within its bound.
\<close>

theorem inodes_agree:
  assumes "ino_step\<^sup>*\<^sup>* (Inodes_new R) s"
  shows "(\<forall>p nm i. I_ByName s (keyOf p nm) = Some i \<longleftrightarrow> (\<exists>n. I_Nodes s i = Some n \<and> N_Parent n = p \<and> N_Name n = nm)) \<and>
    (\<forall>i n j m. I_Nodes s i = Some n \<and> I_Nodes s j = Some m \<and> N_Parent n = N_Parent m \<and> N_Name n = N_Name m \<longrightarrow> i = j) \<and>
    (\<forall>i n. I_Nodes s i = Some n \<longrightarrow> kRootIno < i \<and> i < I_Next s \<and>
       unat (N_Kids n) = card {j. \<exists>m. I_Nodes s j = Some m \<and> N_Parent m = i}) \<and>
    length (I_Cold s) \<le> kListedLimit"
proof -
  have w: "names_ok (I_Nodes s) (I_ByName s)" "counts_ok (I_Nodes s)" "range_ok (I_Nodes s) (I_Next s)" "length (I_Cold s) \<le> kListedLimit"
    using reachable_wf [OF assms] by (simp_all add: inodes_wf_def tree_ok_def tree_wf_def)
  have b: "I_ByName s (keyOf p nm) = Some i \<longleftrightarrow> (\<exists>n. I_Nodes s i = Some n \<and> N_Parent n = p \<and> N_Name n = nm)" for p nm i
    using w(1) by (auto simp: names_ok_def inverse_maps_def key_def node_key_def keyOf_inject)
  have "unat (N_Kids n) = card (kids (I_Nodes s) i)" if "I_Nodes s i = Some n" for i n
    using kids_count [OF _ that] reachable_wf [OF assms] by (simp add: inodes_wf_def)
  moreover have "kids (I_Nodes s) i = {j. \<exists>m. I_Nodes s j = Some m \<and> N_Parent m = i}" for i by (auto simp: kids_def up_def)
  moreover have "i = j"
    if "I_Nodes s i = Some n \<and> I_Nodes s j = Some m \<and> N_Parent n = N_Parent m \<and> N_Name n = N_Name m" for i n j m
    using that b [of "N_Parent m" "N_Name m" i] b [of "N_Parent m" "N_Name m" j] by simp
  moreover have "kRootIno < i \<and> i < I_Next s" if "I_Nodes s i = Some n" for i n using w(3) that by (simp add: range_ok_def)
  ultimately show ?thesis using w(4) b by (intro conjI allI impI; (elim conjE)?) auto
qed

theorem inodes_agree_witness: "I_ByName run_moved (keyOf kRootIno ''g'') = Some 3 \<and> length (I_Cold run_moved) \<le> kListedLimit"
proof -
  have "I_Nodes run_moved 3 = Some \<lparr>N_Parent = 1, N_Name = ''g'', N_Refs = 1, N_Kids = 0\<rparr>"
    by (simp add: run_moved_def run_looked_nodes ino_reparent_def keyOf_inject Let_def node_at_def bump_def kRootIno_def emplace_def)
  then show ?thesis using inodes_agree [OF run_moved_reachable] by (simp add: kRootIno_def)
qed

text \<open>
  The climb that computes a path always ends, in every state a mount can reach: the root
  has the mount's own path, a number whose parents are all known has its name joined to its
  parent's path, so that a rename moves everything below it, and any other number has none.
\<close>

theorem inodes_path:
  assumes "ino_step\<^sup>*\<^sup>* (Inodes_new R) s"
  shows "ino_path s kRootIno = Some (I_Root s) \<and>
    (\<forall>i n. I_Nodes s i = Some n \<and> linked (I_Nodes s) i \<longrightarrow>
       (\<exists>d. ino_path s (N_Parent n) = Some d \<and> ino_path s i = Some (join d (N_Name n)))) \<and>
    (\<forall>i. \<not> linked (I_Nodes s) i \<longrightarrow> ino_path s i = Some [])"
proof (intro conjI allI impI; (elim conjE)?)
  have w: "inodes_wf s" by (rule reachable_wf [OF assms])
  note total = path_parts_total [OF edges_wf [OF w]]
  show "ino_path s kRootIno = Some (I_Root s)" by (simp add: ino_path_def path_parts.simps)
  fix i
  show "ino_path s i = Some []" if "\<not> linked (I_Nodes s) i"
    using total [of i] that by (auto simp: ino_path_def)
  fix n
  assume n: "I_Nodes s i = Some n" "linked (I_Nodes s) i"
  have r: "i \<noteq> kRootIno" using w n(1) by (auto simp: inodes_wf_def tree_ok_def tree_wf_def range_ok_def)
  then have "linked (I_Nodes s) (N_Parent n)" using n by (auto simp: linked_iff [of _ i])
  then obtain qs where qs: "\<And>ps. path_parts (I_Nodes s) (N_Parent n) ps = Some (Some (qs @ ps))"
    using total [of "N_Parent n"] by auto
  then show "\<exists>d. ino_path s (N_Parent n) = Some d \<and> ino_path s i = Some (join d (N_Name n))"
    using n(1) r by (simp add: ino_path_def path_parts.simps [of _ i])
qed

theorem inodes_path_witness: "ino_path run_moved 3 = Some ''exp/g'' \<and> ino_path run_looked 3 = Some ''exp/d/f''"
proof -
  have m: "I_Nodes run_moved 3 = Some \<lparr>N_Parent = 1, N_Name = ''g'', N_Refs = 1, N_Kids = 0\<rparr>" "I_Root run_moved = ''exp''"
    by (simp_all add: run_moved_def run_looked_nodes ino_reparent_def keyOf_inject Let_def node_at_def bump_def kRootIno_def emplace_def)
  then have "linked (I_Nodes run_moved) 3" using linked.root by (auto intro: linked.node simp: kRootIno_def)
  then have "ino_path run_moved 3 = Some ''exp/g''"
    using inodes_path [OF run_moved_reachable, THEN conjunct1]
      inodes_path [OF run_moved_reachable, THEN conjunct2, THEN conjunct1, rule_format, of 3] m by (auto simp: kRootIno_def join_def)
  moreover have "linked (I_Nodes run_looked) 2" "linked (I_Nodes run_looked) 3"
    using linked.root by (auto intro!: linked.node [of _ 3] linked.node [of _ 2] simp: kRootIno_def run_looked_nodes)
  then have "ino_path run_looked 3 = Some ''exp/d/f''"
    using inodes_path [OF run_looked_reachable, THEN conjunct1]
      inodes_path [OF run_looked_reachable, THEN conjunct2, THEN conjunct1, rule_format, of 2]
      inodes_path [OF run_looked_reachable, THEN conjunct2, THEN conjunct1, rule_format, of 3]
    by (auto simp: kRootIno_def join_def run_looked_nodes)
  ultimately show ?thesis by simp
qed

text \<open>
  Listing a directory, however large, keeps every name the kernel holds: a number with a
  reference keeps its node, its references and its path, although the reservation may evict any
  number of names that were only listed.
\<close>

theorem listing_keeps_held:
  assumes "ino_step\<^sup>*\<^sup>* (Inodes_new R) s" and "known s p" and "I_Next s < - 1"
    and "I_Nodes s i = Some n" and "0 < N_Refs n"
  shows "(\<exists>n'. I_Nodes (snd (ino_reserve p nm s)) i = Some n' \<and> N_Refs n' = N_Refs n) \<and>
    ino_path (snd (ino_reserve p nm s)) i = ino_path s i"
proof (cases "I_ByName s (keyOf p nm)")
  case Some
  then show ?thesis using assms(4) by (simp add: ino_reserve_def)
next
  case None
  have w: "inodes_wf s" by (rule reachable_wf [OF assms(1)])
  then have t: "tree_ok s" by (simp add: inodes_wf_def)
  obtain f s1 where c: "ino_create p nm 0 s = (f, s1)" by fastforce
  have t1: "tree_ok s1" using create_tree [OF t None assms(2,3) c] by simp
  have fresh: "I_Nodes s (I_Next s) = None" "kids (I_Nodes s) (I_Next s) = {}" "i \<noteq> I_Next s"
    using t assms(4) fresh_leaf [of "I_Nodes s" "I_Next s"] by (auto simp: tree_ok_def tree_wf_def)
  let ?link = "\<lambda>N j. map_option (\<lambda>n. (N_Parent n, N_Name n)) (N j)"
  have n1: "j \<noteq> I_Next s \<Longrightarrow> ?link (I_Nodes s1) j = ?link (I_Nodes s) j" for j
    using c fresh(1) by (auto simp: ino_create_def Let_def emplace_def)
  have "ino_path s1 i = ino_path s i"
    using path_parts_other [OF edges_wf [OF w] fresh(3,2) n1] c by (intro path_cong) (auto simp: ino_create_def Let_def)
  moreover have "map_option N_Refs (I_Nodes s1 i) = Some (N_Refs n)"
    using c fresh(1,3) assms(4) by (auto simp: ino_create_def Let_def emplace_def bump_apply)
  ultimately show ?thesis
    using trim_keeps [of "s1\<lparr>I_Cold := I_Cold s1 @ [f]\<rparr>" i "N_Refs n"] t1 assms(5) None c
    by (auto simp: ino_reserve_def)
qed

theorem listing_keeps_held_witness: "ino_path (snd (ino_reserve kRootIno ''h'' run_looked)) 3 = ino_path run_looked 3"
  using listing_keeps_held [OF run_looked_reachable, of kRootIno 3] by (simp add: run_looked_nodes known_def)

end
