(* ===== verification/PageLayout.thy ===== *)
theory PageLayout
  imports Rail_Prelude
begin

text \<open>
  How a range is cut into pages, as the paged streams and the sync transfers cut it: pages of one
  size from the start of the range, the last one short.
\<close>

function pages :: "nat \<Rightarrow> nat \<Rightarrow> nat \<Rightarrow> (nat \<times> nat) list" where
  "pages PB At End = (if 0 < PB \<and> At < End then (At, min PB (End - At)) # pages PB (At + min PB (End - At)) End else [])"
  by pat_completeness auto
termination by (relation "measure (\<lambda>(PB, At, End). End - At)") auto

declare pages.simps [simp del]

lemma pages_bounds:
  "(k, l) \<in> set (pages PB At End) \<Longrightarrow> At \<le> k \<and> 0 < l \<and> l \<le> PB \<and> k + l \<le> End \<and> PB dvd k - At"
proof (induction PB At End rule: pages.induct)
  case (1 PB At End)
  let ?m = "min PB (End - At)"
  have t: "0 < PB" "At < End" using "1.prems" by (auto simp: pages.simps [of PB At End] split: if_splits)
  then consider "k = At" "l = ?m" | "(k, l) \<in> set (pages PB (At + ?m) End)"
    using "1.prems" by (auto simp: pages.simps [of PB At End])
  then show ?case
  proof cases
    case 1
    then show ?thesis using t by simp
  next
    case 2
    then have r: "At + ?m \<le> k" "0 < l" "l \<le> PB" "k + l \<le> End" "PB dvd k - (At + ?m)" using "1.IH" t by blast+
    then have m: "?m = PB" by linarith
    then have "k - At = PB + (k - (At + PB))" using r(1) by linarith
    then have "PB dvd k - At" using r(5) m by (metis dvd_add dvd_refl)
    with r show ?thesis by linarith
  qed
qed

lemma pages_concat:
  "0 < PB \<Longrightarrow> concat (map (\<lambda>(k, l). take l (drop k File)) (pages PB At End)) = take (End - At) (drop At File)"
proof (induction PB At End rule: pages.induct)
  case (1 PB At End)
  have t: "take m xs @ take (n - m) (drop m xs) = take n xs" if "m \<le> n" for m n and xs :: "'a list"
    using that take_add [of m "n - m" xs] by simp
  show ?case
  proof (cases "At < End")
    case True
    let ?m = "min PB (End - At)"
    have "concat (map (\<lambda>(k, l). take l (drop k File)) (pages PB At End)) = take ?m (drop At File) @ take (End - (At + ?m)) (drop (At + ?m) File)"
      using 1 True by (subst pages.simps) auto
    also have "\<dots> = take (End - At) (drop At File)" using t [of ?m "End - At" "drop At File"] by (simp add: add.commute)
    finally show ?thesis .
  qed (simp add: pages.simps)
qed

lemma pages_split: "pages PB At End = a @ (k, l) # b \<Longrightarrow> b = pages PB (k + l) End"
proof (induction PB At End arbitrary: a rule: pages.induct)
  case (1 PB At End)
  then have t: "0 < PB \<and> At < End" by (auto simp: pages.simps [of PB At End] split: if_splits)
  then have p: "pages PB At End = (At, min PB (End - At)) # pages PB (At + min PB (End - At)) End" by (subst pages.simps) simp
  show ?case
  proof (cases a)
    case Nil
    then show ?thesis using "1.prems" p by auto
  next
    case (Cons x a')
    then show ?thesis using "1.IH" [OF t] "1.prems" p by auto
  qed
qed

end
