(* ===== verification/PageStream.thy ===== *)
theory PageStream
  imports AddressSpace Checksum PageLayout
begin

text \<open>
  \<^verbatim>\<open>src/stream/page-stream.cc\<close>: a transfer in pages. The sender reads ahead, keeps a window of
  sends in flight and hashes what it ships; the receiver posts a receive per page, hashes what
  arrives and writes it to its sink. What the kernel, the fabric and the pool answer are
  arguments: the pool has a number of pages, and an acquisition with all of them in the hands of
  the transfer itself never returns, which is \<open>None\<close>. The theorems show that a transfer over any
  geometry the code computes from two pages on never waits for itself, ships one message per
  page whatever the reads answer, and lands at the receiver with agreeing digests.
\<close>

section \<open>Geometry\<close>

record StreamGeometry =
  Window :: nat
  ReadAhead :: nat
  WriteDepth :: nat

definition forChannel :: "nat \<Rightarrow> nat \<Rightarrow> nat \<Rightarrow> StreamGeometry" where
  "forChannel Pages InFlight Depth =
     (let W = max 1 (min (min (Pages div 2) (Pages - 1)) InFlight);
          R = max 1 (min (if Pages > W + 1 then Pages - W - 1 else 1) Depth)
      in \<lparr>Window = W, ReadAhead = R, WriteDepth = min 2 R\<rparr>)"

definition alignUp :: "nat \<Rightarrow> nat" where
  "alignUp N = (N + 4095) div 4096 * 4096"

section \<open>The sender\<close>

text \<open>
  What the sender meets: the pool, the source (pages of its own for a range, the submission of a
  read and what its completion reports), the fabric, and the two fault injectors.
\<close>

record tx_env =
  tx_G :: StreamGeometry
  tx_PageBytes :: nat
  tx_Pages :: nat
  tx_Backed :: bool
  tx_direct :: bool
  tx_sending :: "nat \<Rightarrow> nat \<Rightarrow> byte list option"
  tx_submitRead :: "nat \<Rightarrow> nat \<Rightarrow> (byte list Result) Result"
  tx_send :: "nat \<Rightarrow> unit Result"
  tx_TagBase :: nat
  tx_AbortAfterPages :: nat
  tx_RefuseSendAfterPages :: nat

record Reading =
  R_Direct :: "byte list option"
  R_Op :: "byte list Result"
  R_Key :: nat
  R_Length :: nat
  R_Failed :: bool

record Sending =
  S_Pooled :: bool
  S_Op :: "unit Result"

record 'h PageSender =
  T_FlipOneBit :: bool
  T_Shipped :: nat
  T_LeftUnsent :: bool
  T_Pooled :: nat
  T_Whole :: "'h Verifier"
  T_Failure :: "unit Result"
  T_Prefetch :: "Reading list"
  T_InFlight :: "Sending list"
  T_Sent :: "(nat \<times> byte list) list"

definition PageSender_new :: "'h xxlib \<Rightarrow> bool \<Rightarrow> bool \<Rightarrow> Sum \<Rightarrow> 'h PageSender" where
  "PageSender_new X FlipOneBit Verify W =
     \<lparr>T_FlipOneBit = FlipOneBit, T_Shipped = 0, T_LeftUnsent = False, T_Pooled = 0, T_Whole = Verifier_new X Verify W,
      T_Failure = Inr (), T_Prefetch = [], T_InFlight = [], T_Sent = []\<rparr>"

definition tx_tag :: "tx_env \<Rightarrow> nat \<Rightarrow> nat" where
  "tx_tag E Key = (tx_TagBase E + Key) mod 2 ^ 64"

text \<open>The pages of the pool that this transfer holds.\<close>

definition tx_held :: "'h PageSender \<Rightarrow> nat" where
  "tx_held s = length (filter (\<lambda>R. R_Direct R = None) (T_Prefetch s)) + length (filter S_Pooled (T_InFlight s))"

definition markFailed :: "Reading \<Rightarrow> Reading" where
  "markFailed R = R\<lparr>R_Failed := True, R_Op := Inr []\<rparr>"

definition keep_first :: "unit Result \<Rightarrow> Error \<Rightarrow> unit Result" where
  "keep_first F e = (if is_ok F then Inl e else F)"

function tx_fill :: "tx_env \<Rightarrow> nat \<Rightarrow> 'h PageSender \<Rightarrow> nat \<Rightarrow> (unit Result \<times> 'h PageSender \<times> nat) option" where
  "tx_fill E End s Cursor =
     (if length (T_Prefetch s) < ReadAhead (tx_G E) \<and> Cursor < End then
        let Take = min (tx_PageBytes E) (End - Cursor)
        in case (if T_FlipOneBit s then None else tx_sending E Cursor Take) of
             Some Mine \<Rightarrow>
               tx_fill E End
                 (s\<lparr>T_Prefetch := T_Prefetch s @ [\<lparr>R_Direct = Some Mine, R_Op = Inr [], R_Key = Cursor, R_Length = Take mod 2 ^ 32, R_Failed = False\<rparr>]\<rparr>)
                 (Cursor + Take)
           | None \<Rightarrow>
               if \<not> tx_Backed E then Some (failMessage ''out of registered memory for a transfer page'', s, Cursor)
               else if tx_held s \<ge> tx_Pages E then None
               else
                 let Len = Take mod 2 ^ 32;
                     R = \<lparr>R_Direct = None, R_Op = Inr [], R_Key = Cursor, R_Length = Len, R_Failed = False\<rparr>;
                     Abort = tx_AbortAfterPages E > 0 \<and> T_Pooled s \<ge> tx_AbortAfterPages E;
                     s = s\<lparr>T_Pooled := T_Pooled s + 1\<rparr>
                 in if Abort then
                      tx_fill E End
                        (s\<lparr>T_Failure := (if is_ok (T_Failure s) then failMessage ''stream aborted before reading a page'' else T_Failure s),
                           T_Prefetch := T_Prefetch s @ [markFailed R]\<rparr>) (Cursor + Len)
                    else
                      (case tx_submitRead E (if tx_direct E then min (alignUp Len) (tx_PageBytes E) else Len) Cursor of
                         Inl e \<Rightarrow>
                           tx_fill E End
                             (s\<lparr>T_Failure := keep_first (T_Failure s) e, T_Prefetch := T_Prefetch s @ [markFailed R]\<rparr>) (Cursor + Len)
                       | Inr Op \<Rightarrow>
                           tx_fill E End (s\<lparr>T_Prefetch := T_Prefetch s @ [R\<lparr>R_Op := Op\<rparr>]\<rparr>) (Cursor + Len))
      else Some (Inr (), s, Cursor))"
  by pat_completeness auto
termination by (relation "measure (\<lambda>(E, End, s, Cursor). ReadAhead (tx_G E) - length (T_Prefetch s))") auto

declare tx_fill.simps [simp del]

text \<open>The bytes of a page as they go out: what was read, cut to the page, or zeros.\<close>

definition readOrZero :: "Reading \<Rightarrow> unit Result \<Rightarrow> byte list \<times> unit Result" where
  "readOrZero R F =
     (case (if R_Failed R then None else Some (R_Op R)) of
        Some (Inr Got) \<Rightarrow> (take (R_Length R) Got, F)
      | Some (Inl e) \<Rightarrow> (replicate (R_Length R) 0, keep_first F e)
      | None \<Rightarrow> (replicate (R_Length R) 0, F))"

definition flip :: "byte list \<Rightarrow> byte list" where
  "flip bs = bs[7 := bs ! 7 XOR 1]"

definition shipReady :: "'h xxlib \<Rightarrow> tx_env \<Rightarrow> 'h PageSender \<Rightarrow> unit Result \<times> 'h PageSender" where
  "shipReady X E s =
     (let Ready = hd (T_Prefetch s)
      in if tx_RefuseSendAfterPages E > 0 \<and> T_Shipped s \<ge> tx_RefuseSendAfterPages E
         then (failMessage ''the fabric refused a send'', s)
         else
           let s = s\<lparr>T_Shipped := T_Shipped s + 1\<rparr>
           in case R_Direct Ready of
                Some Mine \<Rightarrow>
                  (Inr (), s\<lparr>T_Whole := Verifier_update X (T_Whole s) Mine, T_Prefetch := tl (T_Prefetch s),
                     T_InFlight := T_InFlight s @ [\<lparr>S_Pooled = False, S_Op = tx_send E (tx_tag E (R_Key Ready))\<rparr>],
                     T_Sent := T_Sent s @ [(tx_tag E (R_Key Ready), Mine)]\<rparr>)
              | None \<Rightarrow>
                  let (Buf, F) = readOrZero Ready (T_Failure s);
                      Flipped = T_FlipOneBit s \<and> length Buf > 8
                  in (Inr (), s\<lparr>T_Failure := F, T_Whole := Verifier_update X (T_Whole s) Buf, T_Prefetch := tl (T_Prefetch s),
                        T_FlipOneBit := T_FlipOneBit s \<and> \<not> Flipped,
                        T_InFlight := T_InFlight s @ [\<lparr>S_Pooled = True, S_Op = tx_send E (tx_tag E (R_Key Ready))\<rparr>],
                        T_Sent := T_Sent s @ [(tx_tag E (R_Key Ready), if Flipped then flip Buf else Buf)]\<rparr>))"

definition giveUp :: "'h PageSender \<Rightarrow> 'h PageSender" where
  "giveUp s = s\<lparr>T_LeftUnsent := True\<rparr>"

fun tx_join :: "nat \<Rightarrow> Sending list \<Rightarrow> unit Result \<times> Sending list" where
  "tx_join Keep [] = (Inr (), [])"
| "tx_join Keep (S # Ss) =
     (if length (S # Ss) > Keep then (case S_Op S of Inl e \<Rightarrow> (Inl e, Ss) | Inr _ \<Rightarrow> tx_join Keep Ss) else (Inr (), S # Ss))"

definition tx_drain :: "nat \<Rightarrow> 'h PageSender \<Rightarrow> unit Result \<times> 'h PageSender" where
  "tx_drain Keep s = (let (r, Ss) = tx_join Keep (T_InFlight s) in (r, s\<lparr>T_InFlight := Ss\<rparr>))"

text \<open>Every coroutine and read that is left is awaited; what it reports is dropped.\<close>

definition tx_quiesce :: "'h PageSender \<Rightarrow> 'h PageSender" where
  "tx_quiesce s = s\<lparr>T_InFlight := [], T_Prefetch := []\<rparr>"

definition tx_finish :: "nat \<Rightarrow> 'h PageSender \<Rightarrow> nat Result \<times> 'h PageSender" where
  "tx_finish Length s =
     (case tx_drain 0 s of
        (Inl e, s) \<Rightarrow> (Inl e, giveUp s)
      | (Inr _, s) \<Rightarrow> ((case T_Failure s of Inl e \<Rightarrow> Inl e | Inr _ \<Rightarrow> Inr Length), s))"

partial_function (option) tx_loop ::
  "'h xxlib \<Rightarrow> tx_env \<Rightarrow> nat \<Rightarrow> nat \<Rightarrow> nat \<Rightarrow> 'h PageSender \<Rightarrow> (nat Result \<times> 'h PageSender) option" where
  "tx_loop X E Length End Cursor s =
     (if Cursor < End \<or> T_Prefetch s \<noteq> [] then
        (case tx_fill E End s Cursor of
           None \<Rightarrow> None
         | Some (r, s, C) \<Rightarrow>
             (case r of
                Inl e \<Rightarrow> Some (Inl e, giveUp s)
              | Inr _ \<Rightarrow>
                  if T_Prefetch s = [] then Some (tx_finish Length s)
                  else
                    (case tx_drain (Window (tx_G E) - 1) s of
                       (r, s) \<Rightarrow>
                         (case r of
                            Inl e \<Rightarrow> Some (Inl e, giveUp s)
                          | Inr _ \<Rightarrow>
                              (case shipReady X E s of
                                 (r, s) \<Rightarrow>
                                   (case r of
                                      Inl e \<Rightarrow> Some (Inl e, giveUp s)
                                    | Inr _ \<Rightarrow> tx_loop X E Length End C s))))))
      else Some (tx_finish Length s))"

definition tx_stream :: "'h xxlib \<Rightarrow> tx_env \<Rightarrow> nat \<Rightarrow> nat \<Rightarrow> 'h PageSender \<Rightarrow> (nat Result \<times> 'h PageSender) option" where
  "tx_stream X E Offset Length s =
     map_option (\<lambda>(r, s). (r, tx_quiesce s)) (tx_loop X E Length ((Offset + Length) mod 2 ^ 64) Offset s)"

section \<open>The receiver\<close>

text \<open>
  The sink as the receiver calls it: the length a write is padded to, the write itself (a page of
  the sink's own takes the bytes as they arrive), what its completion reports, and whether the
  sink has a page of its own for a range. \<open>rx_slack\<close> is what a page holds behind its bytes.
\<close>

record 's sink_ops =
  so_writeLength :: "nat \<Rightarrow> nat"
  so_submitWrite :: "'s \<Rightarrow> byte list \<Rightarrow> nat \<Rightarrow> nat Result \<times> 's"
  so_awaitWrite :: "nat \<Rightarrow> unit Result"
  so_landing :: "'s \<Rightarrow> nat \<Rightarrow> nat \<Rightarrow> bool"
  so_arrive :: "'s \<Rightarrow> byte list \<Rightarrow> nat \<Rightarrow> 's"

record rx_env =
  rx_G :: StreamGeometry
  rx_PageBytes :: nat
  rx_Pages :: nat
  rx_Backed :: bool
  rx_recv :: "nat \<Rightarrow> nat \<Rightarrow> byte list Result"
  rx_slack :: "nat \<Rightarrow> byte list"
  rx_TagBase :: nat

record Posted =
  P_Direct :: bool
  P_Op :: "byte list Result"
  P_Offset :: nat
  P_Length :: nat

record ('h, 's) PageReceiver =
  Rx_Whole :: "'h Verifier"
  Rx_Receiving :: "Posted list"
  Rx_Writes :: "nat list"
  Rx_Sink :: 's

definition PageReceiver_new :: "'h xxlib \<Rightarrow> bool \<Rightarrow> Sum \<Rightarrow> 's \<Rightarrow> ('h, 's) PageReceiver" where
  "PageReceiver_new X Verify W Sink = \<lparr>Rx_Whole = Verifier_new X Verify W, Rx_Receiving = [], Rx_Writes = [], Rx_Sink = Sink\<rparr>"

definition rx_tag :: "rx_env \<Rightarrow> nat \<Rightarrow> nat" where
  "rx_tag E At = (rx_TagBase E + At) mod 2 ^ 64"

definition rx_held :: "('h, 's) PageReceiver \<Rightarrow> nat" where
  "rx_held s = length (filter (\<lambda>P. \<not> P_Direct P) (Rx_Receiving s)) + length (Rx_Writes s)"

text \<open>
  One posted page at a time from the front, while more than \<open>Keep\<close> are posted. A page of the
  sink's own holds its bytes when its receive is joined.
\<close>

function rx_store ::
  "'h xxlib \<Rightarrow> 's sink_ops \<Rightarrow> rx_env \<Rightarrow> nat \<Rightarrow> ('h, 's) PageReceiver \<Rightarrow> unit Result \<times> ('h, 's) PageReceiver" where
  "rx_store X K E Keep s =
     (case Rx_Receiving s of
        [] \<Rightarrow> (Inr (), s)
      | P # Ps \<Rightarrow>
          if length (P # Ps) > Keep then
            (case P_Op P of
               Inl e \<Rightarrow> (Inl e, s\<lparr>Rx_Receiving := Ps\<rparr>)
             | Inr Bs \<Rightarrow>
                 let s = s\<lparr>Rx_Whole := Verifier_update X (Rx_Whole s) Bs, Rx_Receiving := Ps\<rparr>
                 in if P_Direct P then rx_store X K E Keep (s\<lparr>Rx_Sink := so_arrive K (Rx_Sink s) Bs (P_Offset P)\<rparr>)
                    else
                      let Padded = min (so_writeLength K (length Bs)) (rx_PageBytes E)
                      in case so_submitWrite K (Rx_Sink s) (take Padded (Bs @ rx_slack E (P_Offset P))) (P_Offset P) of
                           (Inl e, k) \<Rightarrow> (Inl e, s\<lparr>Rx_Sink := k\<rparr>)
                         | (Inr _, k) \<Rightarrow> rx_store X K E Keep (s\<lparr>Rx_Sink := k, Rx_Writes := Rx_Writes s @ [P_Offset P]\<rparr>))
          else (Inr (), s))"
  by pat_completeness auto
termination by (relation "measure (\<lambda>(X, K, E, Keep, s). length (Rx_Receiving s))") auto

declare rx_store.simps [simp del]

fun rx_join :: "'s sink_ops \<Rightarrow> nat \<Rightarrow> nat list \<Rightarrow> unit Result \<times> nat list" where
  "rx_join K Keep [] = (Inr (), [])"
| "rx_join K Keep (W # Ws) =
     (if length (W # Ws) > Keep then (case so_awaitWrite K W of Inl e \<Rightarrow> (Inl e, Ws) | Inr _ \<Rightarrow> rx_join K Keep Ws) else (Inr (), W # Ws))"

definition awaitWrites :: "'s sink_ops \<Rightarrow> nat \<Rightarrow> ('h, 's) PageReceiver \<Rightarrow> unit Result \<times> ('h, 's) PageReceiver" where
  "awaitWrites K Keep s = (let (r, Ws) = rx_join K Keep (Rx_Writes s) in (r, s\<lparr>Rx_Writes := Ws\<rparr>))"

definition rx_quiesce :: "('h, 's) PageReceiver \<Rightarrow> ('h, 's) PageReceiver" where
  "rx_quiesce s = s\<lparr>Rx_Receiving := [], Rx_Writes := []\<rparr>"

definition rx_finish ::
  "'h xxlib \<Rightarrow> 's sink_ops \<Rightarrow> rx_env \<Rightarrow> nat \<Rightarrow> ('h, 's) PageReceiver \<Rightarrow> nat Result \<times> ('h, 's) PageReceiver" where
  "rx_finish X K E Length s =
     (case rx_store X K E 0 s of
        (Inl e, s) \<Rightarrow> (Inl e, s)
      | (Inr _, s) \<Rightarrow>
          (case awaitWrites K 0 s of
             (Inl e, s) \<Rightarrow> (Inl e, s)
           | (Inr _, s) \<Rightarrow> (Inr Length, s)))"

partial_function (option) rx_loop ::
  "'h xxlib \<Rightarrow> 's sink_ops \<Rightarrow> rx_env \<Rightarrow> nat \<Rightarrow> nat \<Rightarrow> nat \<Rightarrow> ('h, 's) PageReceiver \<Rightarrow> (nat Result \<times> ('h, 's) PageReceiver) option" where
  "rx_loop X K E Length End At s =
     (if At < End then
        (case rx_store X K E (Window (rx_G E) - 1) s of
           (r, s) \<Rightarrow>
             (case r of
                Inl e \<Rightarrow> Some (Inl e, s)
              | Inr _ \<Rightarrow>
                  (case awaitWrites K (WriteDepth (rx_G E)) s of
                     (r, s) \<Rightarrow>
                       (case r of
                          Inl e \<Rightarrow> Some (Inl e, s)
                        | Inr _ \<Rightarrow>
                            let Take = min (rx_PageBytes E) (End - At) mod 2 ^ 32;
                                P = \<lparr>P_Direct = True, P_Op = rx_recv E (rx_tag E At) Take, P_Offset = At, P_Length = Take\<rparr>
                            in if so_landing K (Rx_Sink s) At Take then
                                 rx_loop X K E Length End (At + Take) (s\<lparr>Rx_Receiving := Rx_Receiving s @ [P]\<rparr>)
                               else if \<not> rx_Backed E then Some (failMessage ''out of registered memory for a transfer page'', s)
                               else if rx_held s \<ge> rx_Pages E then None
                               else rx_loop X K E Length End (At + Take) (s\<lparr>Rx_Receiving := Rx_Receiving s @ [P\<lparr>P_Direct := False\<rparr>]\<rparr>)))))
      else Some (rx_finish X K E Length s))"

definition rx_land ::
  "'h xxlib \<Rightarrow> 's sink_ops \<Rightarrow> rx_env \<Rightarrow> nat \<Rightarrow> nat \<Rightarrow> ('h, 's) PageReceiver \<Rightarrow> (nat Result \<times> ('h, 's) PageReceiver) option" where
  "rx_land X K E Offset Length s =
     map_option (\<lambda>(r, s). (r, rx_quiesce s)) (rx_loop X K E Length ((Offset + Length) mod 2 ^ 64) Offset s)"

section \<open>The sender ships every page\<close>

lemma forChannel_fits:
  assumes "2 \<le> Pages"
  shows "0 < Window (forChannel Pages F D)" and "0 < ReadAhead (forChannel Pages F D)"
    and "ReadAhead (forChannel Pages F D) + Window (forChannel Pages F D) \<le> Pages"
    and "Window (forChannel Pages F D) + WriteDepth (forChannel Pages F D) \<le> Pages"
proof -
  define W where "W = max 1 (min (min (Pages div 2) (Pages - 1)) F)"
  define R where "R = max 1 (min (if Pages > W + 1 then Pages - W - 1 else 1) D)"
  have "min (min (Pages div 2) (Pages - 1)) F \<le> Pages - 1" by simp
  then have w: "1 \<le> W" "W \<le> Pages - 1" using assms by (simp_all add: W_def)
  have x: "1 \<le> (if Pages > W + 1 then Pages - W - 1 else 1)" by (simp add: Suc_le_eq)
  then have "R \<le> (if Pages > W + 1 then Pages - W - 1 else 1)" unfolding R_def by (meson max.bounded_iff min.cobounded1)
  then have r: "R + W \<le> Pages" using w assms by (cases "Pages > W + 1") simp_all
  have "1 \<le> R" by (simp add: R_def)
  have "forChannel Pages F D = \<lparr>Window = W, ReadAhead = R, WriteDepth = min 2 R\<rparr>"
    by (simp only: forChannel_def Let_def W_def R_def)
  with w r \<open>1 \<le> R\<close> show "0 < Window (forChannel Pages F D)" "0 < ReadAhead (forChannel Pages F D)"
    "ReadAhead (forChannel Pages F D) + Window (forChannel Pages F D) \<le> Pages"
    "Window (forChannel Pages F D) + WriteDepth (forChannel Pages F D) \<le> Pages" by auto
qed

definition tx_fair :: "tx_env \<Rightarrow> bool" where
  "tx_fair E \<longleftrightarrow> 0 < tx_PageBytes E \<and> tx_PageBytes E < 2 ^ 32 \<and> tx_Backed E \<and> tx_AbortAfterPages E = 0 \<and> tx_RefuseSendAfterPages E = 0 \<and>
     (\<forall>t. tx_send E t = Inr ()) \<and> 0 < Window (tx_G E) \<and> 0 < ReadAhead (tx_G E) \<and> ReadAhead (tx_G E) + Window (tx_G E) \<le> tx_Pages E"

text \<open>A page as it is read ahead, and as it goes out.\<close>

definition tx_ask :: "tx_env \<Rightarrow> nat \<Rightarrow> nat" where
  "tx_ask E l = (if tx_direct E then min (alignUp l) (tx_PageBytes E) else l)"

definition reading_of :: "tx_env \<Rightarrow> nat \<times> nat \<Rightarrow> Reading" where
  "reading_of E = (\<lambda>(k, l).
     let R = \<lparr>R_Direct = None, R_Op = Inr [], R_Key = k, R_Length = l, R_Failed = False\<rparr>
     in case tx_sending E k l of
          Some Mine \<Rightarrow> R\<lparr>R_Direct := Some Mine\<rparr>
        | None \<Rightarrow> (case tx_submitRead E (tx_ask E l) k of Inl e \<Rightarrow> markFailed R | Inr Op \<Rightarrow> R\<lparr>R_Op := Op\<rparr>))"

definition reading_bytes :: "Reading \<Rightarrow> byte list" where
  "reading_bytes R = (case R_Direct R of Some Mine \<Rightarrow> Mine | None \<Rightarrow> fst (readOrZero R (Inr ())))"

definition await_ok :: "Reading \<Rightarrow> bool" where
  "await_ok R \<longleftrightarrow> R_Direct R \<noteq> None \<or> R_Failed R \<or> is_ok (R_Op R)"

lemma reading_key [simp]: "R_Key (reading_of E (k, l)) = k"
  by (auto simp: reading_of_def markFailed_def Let_def split: option.split sum.split)

lemma is_ok_keep_first [simp]: "\<not> is_ok (keep_first F e)"
  by (simp add: keep_first_def)

lemma readOrZero_snd: "is_ok (snd (readOrZero R F)) \<longleftrightarrow> is_ok F \<and> (R_Failed R \<or> is_ok (R_Op R))"
  by (auto simp: readOrZero_def split: sum.split)

lemma readOrZero_fst: "fst (readOrZero R F) = fst (readOrZero R F')"
  by (auto simp: readOrZero_def split: sum.split)

lemma tx_fill_stop:
  "\<not> (length (T_Prefetch s) < ReadAhead (tx_G E) \<and> Cursor < End) \<Longrightarrow> tx_fill E End s Cursor = Some (Inr (), s, Cursor)"
  by (subst tx_fill.simps) (simp only: if_False)

lemma tx_fill_step:
  assumes "tx_PageBytes E < 2 ^ 32 \<and> tx_Backed E \<and> tx_AbortAfterPages E = 0" and "\<not> T_FlipOneBit s" and "\<not> tx_Pages E \<le> tx_held s"
    and go: "length (T_Prefetch s) < ReadAhead (tx_G E) \<and> Cursor < End"
    and T: "T = min (tx_PageBytes E) (End - Cursor)"
  obtains F n where "tx_fill E End s Cursor =
      tx_fill E End (s\<lparr>T_Prefetch := T_Prefetch s @ [reading_of E (Cursor, T)], T_Failure := F, T_Pooled := n\<rparr>) (Cursor + T)"
    and "is_ok F \<longleftrightarrow> is_ok (T_Failure s) \<and> \<not> R_Failed (reading_of E (Cursor, T))"
proof -
  have "T < 2 ^ 32" using assms(1) by (auto simp: T min_less_iff_disj)
  then have m: "T mod 2 ^ 32 = T" by (rule mod_less)
  note step = tx_fill.simps [of E End s Cursor, unfolded if_P [OF go] Let_def T [symmetric] m]
  show thesis
  proof (cases "tx_sending E Cursor T")
    case (Some Mine)
    then show thesis using that [where F = "T_Failure s" and n = "T_Pooled s"] assms(2) step by (simp add: reading_of_def)
  next
    case None
    show thesis
    proof (cases "tx_submitRead E (tx_ask E T) Cursor")
      case (Inl e)
      then show thesis using that [where F = "keep_first (T_Failure s) e" and n = "T_Pooled s + 1"] None assms(1-3) step
        by (cases s) (simp add: reading_of_def tx_ask_def markFailed_def)
    next
      case (Inr Op)
      then show thesis using that [where F = "T_Failure s" and n = "T_Pooled s + 1"] None assms(1-3) step
        by (cases s) (simp add: reading_of_def tx_ask_def)
    qed
  qed
qed

lemma tx_fill_pages:
  assumes "tx_fair E" and "\<not> T_FlipOneBit s" and "length (T_InFlight s) \<le> Window (tx_G E)"
  shows "\<exists>b c F n C. pages (tx_PageBytes E) Cursor End = b @ c \<and> c = pages (tx_PageBytes E) C End \<and>
    tx_fill E End s Cursor = Some (Inr (), s\<lparr>T_Prefetch := T_Prefetch s @ map (reading_of E) b, T_Failure := F, T_Pooled := n\<rparr>, C) \<and>
    (is_ok F \<longleftrightarrow> is_ok (T_Failure s) \<and> (\<forall>p \<in> set b. \<not> R_Failed (reading_of E p))) \<and>
    (length (T_Prefetch s) < ReadAhead (tx_G E) \<and> Cursor < End \<longrightarrow> b \<noteq> [])"
  using assms
proof (induction "ReadAhead (tx_G E) - length (T_Prefetch s)" arbitrary: s Cursor rule: less_induct)
  case less
  let ?PB = "tx_PageBytes E"
  define T where "T = min (tx_PageBytes E) (End - Cursor)"
  show ?case
  proof (cases "length (T_Prefetch s) < ReadAhead (tx_G E) \<and> Cursor < End")
    case False
    then have "tx_fill E End s Cursor = Some (Inr (), s, Cursor)" by (rule tx_fill_stop)
    then show ?thesis
      using False by (intro exI [of _ "[]"] exI [of _ "pages ?PB Cursor End"] exI [of _ "T_Failure s"] exI [of _ "T_Pooled s"] exI [of _ Cursor]) auto
  next
    case True
    have pb: "0 < ?PB" using less.prems(1) by (simp add: tx_fair_def)
    have p: "pages ?PB Cursor End = (Cursor, T) # pages ?PB (Cursor + T) End" using pb True unfolding T_def by (subst pages.simps) simp
    have "tx_held s \<le> length (T_Prefetch s) + length (T_InFlight s)" by (simp add: tx_held_def add_mono)
    then have held: "\<not> tx_Pages E \<le> tx_held s" using True less.prems(1,3) by (simp add: tx_fair_def)
    let ?R = "reading_of E (Cursor, T)"
    obtain F n where f: "tx_fill E End s Cursor =
        tx_fill E End (s\<lparr>T_Prefetch := T_Prefetch s @ [?R], T_Failure := F, T_Pooled := n\<rparr>) (Cursor + T)"
      "is_ok F \<longleftrightarrow> is_ok (T_Failure s) \<and> \<not> R_Failed ?R"
      by (rule tx_fill_step [OF _ less.prems(2) held True T_def]) (use less.prems(1) in \<open>simp add: tx_fair_def\<close>)
    let ?s = "s\<lparr>T_Prefetch := T_Prefetch s @ [?R], T_Failure := F, T_Pooled := n\<rparr>"
    have less_s: "ReadAhead (tx_G E) - length (T_Prefetch ?s) < ReadAhead (tx_G E) - length (T_Prefetch s)"
      and flip_s: "\<not> T_FlipOneBit ?s" and win_s: "length (T_InFlight ?s) \<le> Window (tx_G E)"
      using True less.prems by auto
    obtain b c F' n' C where ih: "pages ?PB (Cursor + T) End = b @ c" "c = pages ?PB C End"
      "tx_fill E End ?s (Cursor + T) = Some (Inr (), ?s\<lparr>T_Prefetch := T_Prefetch ?s @ map (reading_of E) b, T_Failure := F', T_Pooled := n'\<rparr>, C)"
      "is_ok F' \<longleftrightarrow> is_ok (T_Failure ?s) \<and> (\<forall>p \<in> set b. \<not> R_Failed (reading_of E p))"
      using less.hyps [OF less_s less.prems(1) flip_s win_s, of "Cursor + T"] by blast
    show ?thesis
      using ih f by (intro exI [of _ "(Cursor, T) # b"] exI [of _ c] exI [of _ F'] exI [of _ n'] exI [of _ C]) (auto simp: p)
  qed
qed

lemma tx_join_ok: "\<forall>S \<in> set Ss. S_Op S = Inr () \<Longrightarrow> tx_join Keep Ss = (Inr (), drop (length Ss - Keep) Ss)"
proof (induction Ss)
  case (Cons S Ss)
  then show ?case by (cases "length Ss < Keep") (auto simp: Suc_diff_le not_less)
qed simp

lemma tx_drain_ok:
  assumes "\<forall>S \<in> set (T_InFlight s). S_Op S = Inr ()"
  shows "tx_drain Keep s = (Inr (), s\<lparr>T_InFlight := drop (length (T_InFlight s) - Keep) (T_InFlight s)\<rparr>)"
  using tx_join_ok [OF assms] by (simp add: tx_drain_def)

definition tx_out :: "tx_env \<Rightarrow> Reading \<Rightarrow> nat \<times> byte list" where
  "tx_out E R = (tx_tag E (R_Key R), reading_bytes R)"

lemma shipReady_page:
  assumes "tx_RefuseSendAfterPages E = 0" and "\<not> T_FlipOneBit s" and "T_Prefetch s = R # Rs"
  obtains F where "shipReady X E s = (Inr (), s\<lparr>T_Shipped := T_Shipped s + 1, T_Failure := F,
      T_Whole := Verifier_update X (T_Whole s) (reading_bytes R), T_Prefetch := Rs, T_Sent := T_Sent s @ [tx_out E R],
      T_InFlight := T_InFlight s @ [\<lparr>S_Pooled = (R_Direct R = None), S_Op = tx_send E (tx_tag E (R_Key R))\<rparr>]\<rparr>)"
    and "is_ok F \<longleftrightarrow> is_ok (T_Failure s) \<and> await_ok R"
proof (cases "R_Direct R")
  case (Some Mine)
  then show thesis
    using that [of "T_Failure s"] assms by (cases s) (auto simp: shipReady_def Let_def reading_bytes_def tx_out_def await_ok_def)
next
  case None
  obtain Buf F where r: "readOrZero R (T_Failure s) = (Buf, F)" by fastforce
  then have "Buf = fst (readOrZero R (Inr ()))" "is_ok F \<longleftrightarrow> is_ok (T_Failure s) \<and> (R_Failed R \<or> is_ok (R_Op R))"
    using readOrZero_fst [of R "T_Failure s" "Inr ()"] readOrZero_snd [of R "T_Failure s"] by simp_all
  with None r show thesis
    using that [of F] assms by (cases s) (auto simp: shipReady_def Let_def reading_bytes_def tx_out_def await_ok_def)
qed

lemma tx_finish_ok:
  assumes "\<forall>S \<in> set (T_InFlight s). S_Op S = Inr ()"
  shows "tx_finish L s = (case T_Failure s of Inl e \<Rightarrow> Inl e | Inr _ \<Rightarrow> Inr L, s\<lparr>T_InFlight := []\<rparr>)"
  using tx_drain_ok [OF assms, of 0] by (simp add: tx_finish_def)

lemma tx_loop_pages:
  assumes "tx_fair E" and "\<not> T_FlipOneBit s" and "\<forall>S \<in> set (T_InFlight s). S_Op S = Inr ()" and "length (T_InFlight s) \<le> Window (tx_G E)"
    and "Rs = T_Prefetch s @ map (reading_of E) (pages (tx_PageBytes E) C End)"
  shows "\<exists>r s'. tx_loop X E L End C s = Some (r, s') \<and> T_Sent s' = T_Sent s @ map (tx_out E) Rs \<and>
    T_Whole s' = foldl (Verifier_update X) (T_Whole s) (map reading_bytes Rs) \<and> T_LeftUnsent s' = T_LeftUnsent s \<and>
    (r = Inr L \<longleftrightarrow> is_ok r) \<and>
    (is_ok r \<longleftrightarrow> is_ok (T_Failure s) \<and> (\<forall>R \<in> set Rs. await_ok R) \<and>
       (\<forall>p \<in> set (pages (tx_PageBytes E) C End). \<not> R_Failed (reading_of E p)))"
  using assms
proof (induction "length Rs" arbitrary: s C Rs rule: less_induct)
  case less
  let ?PB = "tx_PageBytes E"
  show ?case
  proof (cases "C < End \<or> T_Prefetch s \<noteq> []")
    case False
    then have n: "Rs = []" "pages ?PB C End = []" using less.prems(5) by (simp_all add: pages.simps)
    have "tx_loop X E L End C s = Some (tx_finish L s)" using False by (simp add: tx_loop.simps)
    then show ?thesis using tx_finish_ok [OF less.prems(3), of L] n by (cases "T_Failure s") auto
  next
    case True
    obtain b c F n C' where f: "pages ?PB C End = b @ c" "c = pages ?PB C' End"
      "tx_fill E End s C = Some (Inr (), s\<lparr>T_Prefetch := T_Prefetch s @ map (reading_of E) b, T_Failure := F, T_Pooled := n\<rparr>, C')"
      "is_ok F \<longleftrightarrow> is_ok (T_Failure s) \<and> (\<forall>p \<in> set b. \<not> R_Failed (reading_of E p))"
      "length (T_Prefetch s) < ReadAhead (tx_G E) \<and> C < End \<longrightarrow> b \<noteq> []"
      using tx_fill_pages [OF less.prems(1,2,4), of C End] by blast
    let ?s1 = "s\<lparr>T_Prefetch := T_Prefetch s @ map (reading_of E) b, T_Failure := F, T_Pooled := n\<rparr>"
    have "T_Prefetch ?s1 \<noteq> []" using True f(5) less.prems(1) by (auto simp: tx_fair_def)
    then obtain R Rs' where R: "T_Prefetch s @ map (reading_of E) b = R # Rs'" by (cases "T_Prefetch ?s1") auto
    let ?fly = "drop (length (T_InFlight s) - (Window (tx_G E) - 1)) (T_InFlight s)"
    let ?s2 = "?s1\<lparr>T_InFlight := ?fly\<rparr>"
    have d: "tx_drain (Window (tx_G E) - 1) ?s1 = (Inr (), ?s2)" using tx_drain_ok [of ?s1] less.prems(3) by simp
    obtain F' where sh: "shipReady X E ?s2 = (Inr (), ?s2\<lparr>T_Shipped := T_Shipped ?s2 + 1, T_Failure := F',
        T_Whole := Verifier_update X (T_Whole ?s2) (reading_bytes R), T_Prefetch := Rs', T_Sent := T_Sent ?s2 @ [tx_out E R],
        T_InFlight := T_InFlight ?s2 @ [\<lparr>S_Pooled = (R_Direct R = None), S_Op = Inr ()\<rparr>]\<rparr>)"
      "is_ok F' \<longleftrightarrow> is_ok (T_Failure ?s2) \<and> await_ok R"
      by (rule shipReady_page [of E ?s2 R Rs' X]) (use less.prems(1,2) R in \<open>simp_all add: tx_fair_def\<close>)
    let ?s3 = "?s2\<lparr>T_Shipped := T_Shipped ?s2 + 1, T_Failure := F',
        T_Whole := Verifier_update X (T_Whole ?s2) (reading_bytes R), T_Prefetch := Rs', T_Sent := T_Sent ?s2 @ [tx_out E R],
        T_InFlight := T_InFlight ?s2 @ [\<lparr>S_Pooled = (R_Direct R = None), S_Op = Inr ()\<rparr>]\<rparr>"
    have l: "tx_loop X E L End C s = tx_loop X E L End C' ?s3"
      using True f(3) R d sh(1) by (subst tx_loop.simps) simp
    have Rs: "Rs = R # Rs' @ map (reading_of E) c" using less.prems(5) f(1) R by (simp flip: append_Cons)
    have fly: "\<forall>S \<in> set (T_InFlight ?s3). S_Op S = Inr ()" "length (T_InFlight ?s3) \<le> Window (tx_G E)"
      using less.prems(1,3,4) set_drop_subset [of _ "T_InFlight s"] by (auto simp: tx_fair_def)
    have "\<exists>r s'. tx_loop X E L End C' ?s3 = Some (r, s') \<and> T_Sent s' = T_Sent ?s3 @ map (tx_out E) (Rs' @ map (reading_of E) c) \<and>
      T_Whole s' = foldl (Verifier_update X) (T_Whole ?s3) (map reading_bytes (Rs' @ map (reading_of E) c)) \<and> T_LeftUnsent s' = T_LeftUnsent ?s3 \<and>
      (r = Inr L \<longleftrightarrow> is_ok r) \<and>
      (is_ok r \<longleftrightarrow> is_ok (T_Failure ?s3) \<and> (\<forall>R \<in> set (Rs' @ map (reading_of E) c). await_ok R) \<and>
         (\<forall>p \<in> set (pages ?PB C' End). \<not> R_Failed (reading_of E p)))"
      by (rule less.hyps) (use Rs less.prems(1,2) fly f(2) in simp_all)
    then show ?thesis using l Rs f(1,4) f(2) [symmetric] sh(2) by auto
  qed
qed

section \<open>The receiver lands every page\<close>

definition posted_ok :: "rx_env \<Rightarrow> Posted \<Rightarrow> bool" where
  "posted_ok E P \<longleftrightarrow> (case P_Op P of Inl _ \<Rightarrow> False | Inr bs \<Rightarrow> length bs \<le> rx_PageBytes E)"

definition posted_bytes :: "Posted \<Rightarrow> byte list" where
  "posted_bytes P = (case P_Op P of Inl _ \<Rightarrow> [] | Inr bs \<Rightarrow> bs)"

definition posted_pair :: "Posted \<Rightarrow> nat \<times> byte list" where
  "posted_pair P = (P_Offset P, posted_bytes P)"

text \<open>A sink that writes what it is given, completes its writes, and takes arriving bytes as a write.\<close>

definition plain_sink :: "'s sink_ops \<Rightarrow> bool" where
  "plain_sink K \<longleftrightarrow> (\<forall>n. so_writeLength K n = n) \<and> (\<forall>At. so_awaitWrite K At = Inr ()) \<and>
     (\<forall>s bs At n s'. so_submitWrite K s bs At = (Inr n, s') \<longrightarrow> so_arrive K s bs At = s')"

lemma land_cons:
  "land W s ((At, bs) # ps) = (Inr (), t) \<longleftrightarrow> (\<exists>n s'. W s bs At = (Inr n, s') \<and> land W s' ps = (Inr (), t))"
  by (auto split: prod.splits sum.splits)

lemma rx_store_step:
  assumes "plain_sink K" and "Rx_Receiving s = P # Ps" and "length Ps \<ge> Keep" and "posted_ok E P"
    and "posted_pair P = (At, bs)" and "so_submitWrite K (Rx_Sink s) bs At = (Inr n, k)"
  shows "rx_store X K E Keep s = rx_store X K E Keep (s\<lparr>Rx_Whole := Verifier_update X (Rx_Whole s) bs, Rx_Receiving := Ps, Rx_Sink := k,
      Rx_Writes := Rx_Writes s @ (if P_Direct P then [] else [At])\<rparr>)"
proof -
  obtain bs' where b: "P_Op P = Inr bs'" "bs' = bs" "P_Offset P = At" "length bs \<le> rx_PageBytes E"
    using assms(4,5) by (auto simp: posted_ok_def posted_pair_def posted_bytes_def split: sum.splits)
  then show ?thesis
    using assms(1-3,6) by (subst rx_store.simps) (auto simp: Let_def plain_sink_def)
qed

lemma rx_store_pages:
  assumes "plain_sink K" and "\<forall>P \<in> set (Rx_Receiving s). posted_ok E P"
    and "land (so_submitWrite K) (Rx_Sink s) (map posted_pair (Rx_Receiving s) @ rest) = (Inr (), t)"
    and "m = length (Rx_Receiving s) - Keep"
  shows "\<exists>s'. rx_store X K E Keep s = (Inr (), s') \<and> Rx_Receiving s' = drop m (Rx_Receiving s) \<and>
    Rx_Whole s' = foldl (Verifier_update X) (Rx_Whole s) (map posted_bytes (take m (Rx_Receiving s))) \<and>
    land (so_submitWrite K) (Rx_Sink s') (map posted_pair (Rx_Receiving s') @ rest) = (Inr (), t)"
  using assms
proof (induction m arbitrary: s)
  case 0
  then have "rx_store X K E Keep s = (Inr (), s)" by (subst rx_store.simps) (auto split: list.split)
  with 0 show ?case by simp
next
  case (Suc m)
  then obtain P Ps where r: "Rx_Receiving s = P # Ps" by (cases "Rx_Receiving s") auto
  obtain At bs where P: "posted_pair P = (At, bs)" by fastforce
  obtain n k where w: "so_submitWrite K (Rx_Sink s) bs At = (Inr n, k)" "land (so_submitWrite K) k (map posted_pair Ps @ rest) = (Inr (), t)"
    using Suc.prems(3) r P by (auto simp: land_cons simp del: land.simps)
  let ?s = "s\<lparr>Rx_Whole := Verifier_update X (Rx_Whole s) bs, Rx_Receiving := Ps, Rx_Sink := k,
      Rx_Writes := Rx_Writes s @ (if P_Direct P then [] else [At])\<rparr>"
  have "rx_store X K E Keep s = rx_store X K E Keep ?s"
    by (rule rx_store_step [OF Suc.prems(1) r _ _ P w(1)]) (use Suc.prems r in auto)
  moreover have "\<exists>s'. rx_store X K E Keep ?s = (Inr (), s') \<and> Rx_Receiving s' = drop m (Rx_Receiving ?s) \<and>
    Rx_Whole s' = foldl (Verifier_update X) (Rx_Whole ?s) (map posted_bytes (take m (Rx_Receiving ?s))) \<and>
    land (so_submitWrite K) (Rx_Sink s') (map posted_pair (Rx_Receiving s') @ rest) = (Inr (), t)"
    by (rule Suc.IH) (use Suc.prems r w(2) in auto)
  moreover have "bs = posted_bytes P" using P by (simp add: posted_pair_def)
  ultimately show ?case using r by auto
qed

lemma awaitWrites_ok:
  assumes "plain_sink K"
  shows "awaitWrites K Keep s = (Inr (), s\<lparr>Rx_Writes := drop (length (Rx_Writes s) - Keep) (Rx_Writes s)\<rparr>)"
proof -
  have "rx_join K Keep Ws = (Inr (), drop (length Ws - Keep) Ws)" for Ws
    using assms by (induction Ws) (auto simp: plain_sink_def Suc_diff_le not_less)
  then show ?thesis by (simp add: awaitWrites_def)
qed

definition rx_fair :: "rx_env \<Rightarrow> bool" where
  "rx_fair E \<longleftrightarrow> 0 < rx_PageBytes E \<and> rx_PageBytes E < 2 ^ 32 \<and> rx_Backed E \<and> 0 < Window (rx_G E) \<and> Window (rx_G E) + WriteDepth (rx_G E) \<le> rx_Pages E"

definition delivers :: "rx_env \<Rightarrow> (nat \<times> nat \<Rightarrow> byte list) \<Rightarrow> (nat \<times> nat) list \<Rightarrow> bool" where
  "delivers E data ps \<longleftrightarrow> (\<forall>(k, l) \<in> set ps. length (data (k, l)) = l \<and> rx_recv E (rx_tag E k) l = Inr (data (k, l)))"

lemma rx_loop_pages:
  assumes "rx_fair E" and "plain_sink K" and "\<forall>P \<in> set (Rx_Receiving s). posted_ok E P"
    and "delivers E data (pages (rx_PageBytes E) At End)"
    and "land (so_submitWrite K) (Rx_Sink s) (map posted_pair (Rx_Receiving s) @ map (\<lambda>p. (fst p, data p)) (pages (rx_PageBytes E) At End)) = (Inr (), t)"
    and "length (Rx_Receiving s) \<le> Window (rx_G E)"
  shows "\<exists>s'. rx_loop X K E L End At s = Some (Inr L, s') \<and> Rx_Sink s' = t \<and>
    Rx_Whole s' = foldl (Verifier_update X) (Rx_Whole s) (map posted_bytes (Rx_Receiving s) @ map data (pages (rx_PageBytes E) At End))"
  using assms(3-6)
proof (induction "End - At" arbitrary: s At rule: less_induct)
  case less
  let ?PB = "rx_PageBytes E" and ?W = "so_submitWrite K"
  show ?case
  proof (cases "At < End")
    case False
    then have n: "pages ?PB At End = []" by (simp add: pages.simps)
    obtain s1 where s1: "rx_store X K E 0 s = (Inr (), s1)" "Rx_Receiving s1 = []"
      "Rx_Whole s1 = foldl (Verifier_update X) (Rx_Whole s) (map posted_bytes (Rx_Receiving s))"
      "land ?W (Rx_Sink s1) [] = (Inr (), t)"
      using rx_store_pages [OF assms(2) less.prems(1), of "[]" t _ 0 X] less.prems(3) n by auto
    then show ?thesis using False n awaitWrites_ok [OF assms(2), of 0 s1] by (simp add: rx_loop.simps rx_finish_def)
  next
    case True
    define T where "T = min ?PB (End - At)"
    have T: "0 < T" "T \<le> ?PB" "T mod 2 ^ 32 = T" using True assms(1) by (auto simp: T_def rx_fair_def min_less_iff_disj)
    have p: "pages ?PB At End = (At, T) # pages ?PB (At + T) End" using True assms(1) unfolding T_def rx_fair_def by (subst pages.simps) simp
    have dl: "length (data (At, T)) = T" "rx_recv E (rx_tag E At) T = Inr (data (At, T))" "delivers E data (pages ?PB (At + T) End)"
      using less.prems(2) unfolding p by (auto simp: delivers_def)
    let ?keep = "Window (rx_G E) - 1" and ?rest = "map (\<lambda>p. (fst p, data p)) (pages ?PB At End)"
    let ?m = "length (Rx_Receiving s) - ?keep"
    obtain s1 where s1: "rx_store X K E ?keep s = (Inr (), s1)" "Rx_Receiving s1 = drop ?m (Rx_Receiving s)"
      "Rx_Whole s1 = foldl (Verifier_update X) (Rx_Whole s) (map posted_bytes (take ?m (Rx_Receiving s)))"
      "land ?W (Rx_Sink s1) (map posted_pair (Rx_Receiving s1) @ ?rest) = (Inr (), t)"
      using rx_store_pages [OF assms(2) less.prems(1,3) refl, where Keep = ?keep and X = X] by auto
    let ?s2 = "s1\<lparr>Rx_Writes := drop (length (Rx_Writes s1) - WriteDepth (rx_G E)) (Rx_Writes s1)\<rparr>"
    let ?P = "\<lparr>P_Direct = so_landing K (Rx_Sink ?s2) At T, P_Op = Inr (data (At, T)), P_Offset = At, P_Length = T\<rparr>"
    let ?s3 = "?s2\<lparr>Rx_Receiving := Rx_Receiving ?s2 @ [?P]\<rparr>"
    have len: "length (Rx_Receiving ?s3) \<le> Window (rx_G E)" using s1(2) assms(1) by (auto simp: rx_fair_def)
    have "length (Rx_Writes ?s2) \<le> WriteDepth (rx_G E)" by simp
    moreover have "rx_held ?s2 \<le> length (Rx_Receiving ?s2) + length (Rx_Writes ?s2)" unfolding rx_held_def by (rule add_mono) simp_all
    moreover have "length (Rx_Receiving ?s2) < Window (rx_G E)" using len by simp
    ultimately have "rx_held ?s2 < Window (rx_G E) + WriteDepth (rx_G E)" by linarith
    then have held: "\<not> rx_Pages E \<le> rx_held ?s2" using assms(1) unfolding rx_fair_def by linarith
    have "rx_loop X K E L End At s = rx_loop X K E L End (At + T) ?s3"
      using True s1(1) awaitWrites_ok [OF assms(2), of "WriteDepth (rx_G E)" s1] held assms(1) T(3) dl(2)
      by (subst rx_loop.simps) (simp add: Let_def rx_fair_def flip: T_def)
    moreover have "\<exists>s'. rx_loop X K E L End (At + T) ?s3 = Some (Inr L, s') \<and> Rx_Sink s' = t \<and>
      Rx_Whole s' = foldl (Verifier_update X) (Rx_Whole ?s3) (map posted_bytes (Rx_Receiving ?s3) @ map data (pages ?PB (At + T) End))"
    proof (rule less.hyps)
      show "\<forall>P \<in> set (Rx_Receiving ?s3). posted_ok E P"
        using less.prems(1) s1(2) T(2) dl(1) set_drop_subset [of ?m "Rx_Receiving s"] by (auto simp: posted_ok_def)
      show "land ?W (Rx_Sink ?s3) (map posted_pair (Rx_Receiving ?s3) @ map (\<lambda>p. (fst p, data p)) (pages ?PB (At + T) End)) = (Inr (), t)"
        using s1(4) p by (simp add: posted_pair_def posted_bytes_def)
    qed (use True T(1) dl(3) len in auto)
    moreover have "foldl (Verifier_update X) (Rx_Whole ?s3) (map posted_bytes (Rx_Receiving ?s3) @ map data (pages ?PB (At + T) End)) =
      foldl (Verifier_update X) (Rx_Whole s) (map posted_bytes (Rx_Receiving s) @ map data (pages ?PB At End))"
    proof -
      have "map posted_bytes (Rx_Receiving s) = map posted_bytes (take ?m (Rx_Receiving s)) @ map posted_bytes (drop ?m (Rx_Receiving s))"
        by (simp flip: map_append)
      then show ?thesis using s1(2,3) p by (simp add: posted_bytes_def)
    qed
    ultimately show ?thesis by simp
  qed
qed

section \<open>A transfer into an address space\<close>

definition space_ops :: "space sink_ops" where
  "space_ops = \<lparr>so_writeLength = (\<lambda>n. n), so_submitWrite = space_write, so_awaitWrite = (\<lambda>_. Inr ()),
     so_landing = (\<lambda>S At n. landing (Sp_Space S) At n \<noteq> None), so_arrive = (\<lambda>S bs At. snd (space_write S bs At))\<rparr>"

lemma space_ops_plain: "plain_sink space_ops"
  by (auto simp: plain_sink_def space_ops_def)

lemma space_accepts:
  assumes "AS_Base (Sp_Space S) \<le> k" and "AS_PageBytes (Sp_Space S) dvd k - AS_Base (Sp_Space S)"
    and "length bs \<le> AS_PageBytes (Sp_Space S)" and "bs \<noteq> []" and "k - AS_Base (Sp_Space S) + length bs \<le> capacity (Sp_Space S)"
  shows "\<exists>n S'. space_write S bs k = (Inr n, S') \<and> Sp_Space S' = Sp_Space S"
proof -
  let ?A = "Sp_Space S"
  have pb: "0 < AS_PageBytes ?A" using assms(3,4) by (cases bs) auto
  have "k - AS_Base ?A < length (AS_Views ?A) * AS_PageBytes ?A" using assms(4,5) by (cases bs) (auto simp: capacity_def)
  then have i: "(k - AS_Base ?A) div AS_PageBytes ?A < length (AS_Views ?A)" using pb by (simp add: less_mult_imp_div_less)
  moreover have "(k - AS_Base ?A) mod AS_PageBytes ?A = 0" using assms(2) by simp
  moreover have "AS_Views ?A \<noteq> []" using i by auto
  ultimately have "space_at ?A k (length bs) = \<lparr>Map_Where = Some (AS_Views ?A ! ((k - AS_Base ?A) div AS_PageBytes ?A)), Map_Offset = 0, Map_Length = length bs\<rparr>"
    using assms(1,3) by (simp add: space_at_def Let_def not_le)
  then show ?thesis by (simp add: space_write_def)
qed

lemma space_lands:
  assumes "\<forall>(k, bs) \<in> set ps. AS_Base (Sp_Space S) \<le> k \<and> AS_PageBytes (Sp_Space S) dvd k - AS_Base (Sp_Space S) \<and>
    length bs \<le> AS_PageBytes (Sp_Space S) \<and> bs \<noteq> [] \<and> k - AS_Base (Sp_Space S) + length bs \<le> capacity (Sp_Space S)"
  shows "\<exists>T. land space_write S ps = (Inr (), T)"
  using assms
proof (induction ps arbitrary: S)
  case (Cons p ps)
  obtain k bs where p: "p = (k, bs)" by fastforce
  obtain n S' where w: "space_write S bs k = (Inr n, S')" "Sp_Space S' = Sp_Space S"
    using space_accepts [of S k bs] Cons.prems p by auto
  then show ?case using Cons.IH [of S'] Cons.prems p by auto
qed simp

text \<open>A window into which all pages of a transfer landed holds the bytes of the transfer.\<close>

lemma space_landed:
  assumes "space_sound S" and "0 < PB" and "land space_write S (map (\<lambda>p. (fst p, data p)) (pages PB At End)) = (Inr (), T)"
    and "AS_Base (Sp_Space S) = At" and "\<forall>(k, l) \<in> set (pages PB At End). length (data (k, l)) = l"
  shows "take (End - At) (space_contents T) = concat (map data (pages PB At End))"
proof -
  let ?C = "replicate At 0 @ space_contents T"
  have "take l (drop k ?C) = data (k, l)" if kl: "(k, l) \<in> set (pages PB At End)" for k l
  proof -
    obtain a b where s: "pages PB At End = a @ (k, l) # b" using split_list [OF kl] by blast
    have len: "length (data (k, l)) = l" using assms(5) kl by blast
    have "\<forall>(k', bs) \<in> set (map (\<lambda>p. (fst p, data p)) b). k + length (data (k, l)) \<le> k' \<or> k' + length bs \<le> k"
      using pages_split [OF s] pages_bounds [of _ _ PB "k + l" End] len by fastforce
    from space_sink.land_all [OF _ assms(1) this, of "map (\<lambda>p. (fst p, data p)) a" T] assms(3,4) s len
    have "At \<le> k \<and> take l (drop (k - At) (space_contents T)) = data (k, l)" by simp
    then show ?thesis by (simp add: drop_append)
  qed
  then have "concat (map data (pages PB At End)) = concat (map (\<lambda>(k, l). take l (drop k ?C)) (pages PB At End))"
    by (intro arg_cong [where f = concat] map_cong) auto
  also have "\<dots> = take (End - At) (drop At ?C)" by (rule pages_concat [OF assms(2)])
  finally show ?thesis by simp
qed

section \<open>Properties\<close>

text \<open>
  What a sender is set up with in the code: the geometry is computed from the pool, the fault
  injectors are off, and the fabric takes every send.
\<close>

definition tx_setup :: "tx_env \<Rightarrow> bool" where
  "tx_setup E \<longleftrightarrow> (\<exists>F D. tx_G E = forChannel (tx_Pages E) F D) \<and> 2 \<le> tx_Pages E \<and> tx_Backed E \<and>
     0 < tx_PageBytes E \<and> tx_PageBytes E < 2 ^ 32 \<and> tx_AbortAfterPages E = 0 \<and> tx_RefuseSendAfterPages E = 0 \<and> (\<forall>t. tx_send E t = Inr ())"

definition rx_setup :: "rx_env \<Rightarrow> bool" where
  "rx_setup E \<longleftrightarrow> (\<exists>F D. rx_G E = forChannel (rx_Pages E) F D) \<and> 2 \<le> rx_Pages E \<and> rx_Backed E \<and>
     0 < rx_PageBytes E \<and> rx_PageBytes E < 2 ^ 32"

lemma tx_setup_fair: "tx_setup E \<Longrightarrow> tx_fair E"
  using forChannel_fits [of "tx_Pages E"] by (auto simp: tx_setup_def tx_fair_def)

lemma rx_setup_fair: "rx_setup E \<Longrightarrow> rx_fair E"
  using forChannel_fits [of "rx_Pages E"] by (auto simp: rx_setup_def rx_fair_def)

text \<open>
  What the source answers for a page: bytes of its own, a completed read, or an error of the
  submission or of the completion.
\<close>

definition page_read :: "tx_env \<Rightarrow> nat \<times> nat \<Rightarrow> byte list Result" where
  "page_read E = (\<lambda>(k, l).
     case tx_sending E k l of
       Some Mine \<Rightarrow> Inr Mine
     | None \<Rightarrow> (case tx_submitRead E (tx_ask E l) k of Inl e \<Rightarrow> Inl e | Inr Op \<Rightarrow> map_sum id (take l) Op))"

definition page_sent :: "tx_env \<Rightarrow> nat \<times> nat \<Rightarrow> byte list" where
  "page_sent E p = (case page_read E p of Inl _ \<Rightarrow> replicate (snd p) 0 | Inr bs \<Rightarrow> bs)"

lemma reading_bytes_of: "reading_bytes (reading_of E p) = page_sent E p"
  by (cases p) (auto simp: reading_bytes_def reading_of_def page_sent_def page_read_def readOrZero_def markFailed_def Let_def
      split: option.split sum.split)

lemma is_ok_map_sum [simp]: "is_ok (map_sum id f r) = is_ok r"
  by (cases r) simp_all

lemma reading_ok_of: "await_ok (reading_of E p) \<and> \<not> R_Failed (reading_of E p) \<longleftrightarrow> is_ok (page_read E p)"
  by (cases p) (auto simp: await_ok_def reading_of_def page_read_def markFailed_def Let_def split: option.split sum.split)

lemma tx_stream_pages:
  assumes "tx_setup E" and "Offset + Length < 2 ^ 64"
  defines "ps \<equiv> pages (tx_PageBytes E) Offset (Offset + Length)"
  shows "\<exists>r s. tx_stream X E Offset Length (PageSender_new X False V W) = Some (r, s) \<and> \<not> T_LeftUnsent s \<and>
    T_Sent s = map (\<lambda>p. (tx_tag E (fst p), page_sent E p)) ps \<and>
    T_Whole s = foldl (Verifier_update X) (Verifier_new X V W) (map (page_sent E) ps) \<and>
    (r = Inr Length \<longleftrightarrow> is_ok r) \<and> (is_ok r \<longleftrightarrow> (\<forall>p \<in> set ps. is_ok (page_read E p)))"
proof -
  let ?s = "PageSender_new X False V W"
  obtain r s' where l: "tx_loop X E Length (Offset + Length) Offset ?s = Some (r, s')"
    "T_Sent s' = map (tx_out E) (map (reading_of E) ps)" "T_Whole s' = foldl (Verifier_update X) (T_Whole ?s) (map reading_bytes (map (reading_of E) ps))"
    "T_LeftUnsent s' = T_LeftUnsent ?s" "r = Inr Length \<longleftrightarrow> is_ok r"
    "is_ok r \<longleftrightarrow> (\<forall>R \<in> set (map (reading_of E) ps). await_ok R) \<and> (\<forall>p \<in> set ps. \<not> R_Failed (reading_of E p))"
    using tx_loop_pages [OF tx_setup_fair [OF assms(1)], of ?s "map (reading_of E) ps" Offset "Offset + Length" X Length]
    by (auto simp: PageSender_new_def ps_def)
  have "tx_stream X E Offset Length ?s = Some (r, tx_quiesce s')" using l(1) assms(2) by (simp add: tx_stream_def)
  moreover have "is_ok r \<longleftrightarrow> (\<forall>p \<in> set ps. is_ok (page_read E p))" using l(6) reading_ok_of [of E] by auto
  ultimately show ?thesis using l(2-5)
    by (auto simp: tx_quiesce_def PageSender_new_def tx_out_def reading_bytes_of comp_def intro!: exI [of _ r])
qed

text \<open>Concrete ends: three pages of two bytes, a file of six bytes, and a window at its third.\<close>

definition sample_tx :: tx_env where
  "sample_tx = \<lparr>tx_G = forChannel 3 4 8, tx_PageBytes = 2, tx_Pages = 3, tx_Backed = True, tx_direct = False,
     tx_sending = (\<lambda>_ _. None), tx_submitRead = (\<lambda>Ask k. Inr (Inr (take Ask (drop k [0, 1, 2, 3, 4, 5])))), tx_send = (\<lambda>_. Inr ()),
     tx_TagBase = 100, tx_AbortAfterPages = 0, tx_RefuseSendAfterPages = 0\<rparr>"

definition sample_rx :: rx_env where
  "sample_rx = \<lparr>rx_G = forChannel 3 4 8, rx_PageBytes = 2, rx_Pages = 3, rx_Backed = True,
     rx_recv = (\<lambda>tag _. if tag = 102 then Inr [2, 3] else Inr [4, 5]), rx_slack = (\<lambda>_. []), rx_TagBase = 100\<rparr>"

definition sample_window :: space where
  "sample_window = \<lparr>Sp_Space = \<lparr>AS_Held = [], AS_Heap = 4, AS_Views = [heap_page 10 2 0, heap_page 10 2 1], AS_PageBytes = 2, AS_Base = 2\<rparr>,
     Sp_Store = (\<lambda>_. 0)\<rparr>"

lemma sample_ends:
  "tx_setup sample_tx" "tx_setup (sample_tx\<lparr>tx_submitRead := rd\<rparr>)" "rx_setup sample_rx" "space_sound sample_window"
  "pages 2 2 6 = [(2, 2), (4, 2)]"
  by (auto simp: tx_setup_def rx_setup_def sample_tx_def sample_rx_def pages.simps
      space_sound_def sample_window_def views_apart_def heap_page_def page_range_def less_Suc_eq)

lemma pages_moved:
  assumes "tx_setup E" and "rx_setup E'" and "rx_PageBytes E' = tx_PageBytes E" and "rx_TagBase E' = tx_TagBase E"
    and "Offset + Length < 2 ^ 64" and "Offset + Length \<le> length File"
    and "\<forall>(k, l) \<in> set (pages (tx_PageBytes E) Offset (Offset + Length)). page_read E (k, l) = Inr (take l (drop k File))"
    and "space_sound S" and "AS_Base (Sp_Space S) = Offset" and "AS_PageBytes (Sp_Space S) = tx_PageBytes E" and "Length \<le> capacity (Sp_Space S)"
  shows "\<exists>sT. tx_stream X E Offset Length (PageSender_new X False V W) = Some (Inr Length, sT) \<and>
    ((\<forall>(tag, bs) \<in> set (T_Sent sT). rx_recv E' tag (length bs) = Inr bs) \<longrightarrow>
       (\<exists>sR. rx_land X space_ops E' Offset Length (PageReceiver_new X V W S) = Some (Inr Length, sR) \<and>
          take Length (space_contents (Rx_Sink sR)) = take Length (drop Offset File) \<and>
          Verifier_matches X (Rx_Whole sR) (Verifier_digest X (T_Whole sT))))"
proof -
  let ?ps = "pages (tx_PageBytes E) Offset (Offset + Length)" and ?data = "\<lambda>(k, l). take l (drop k File)"
  have pb: "0 < tx_PageBytes E" using assms(1) by (simp add: tx_setup_def)
  have b: "Offset \<le> k \<and> 0 < l \<and> l \<le> tx_PageBytes E \<and> k + l \<le> Offset + Length \<and> tx_PageBytes E dvd k - Offset" if "(k, l) \<in> set ?ps" for k l
    by (rule pages_bounds [OF that])
  have sent: "map (page_sent E) ?ps = map ?data ?ps" "map (\<lambda>p. (tx_tag E (fst p), page_sent E p)) ?ps = map (\<lambda>p. (tx_tag E (fst p), ?data p)) ?ps"
    and good: "\<forall>p \<in> set ?ps. is_ok (page_read E p)" using assms(7) by (auto simp: page_sent_def)
  obtain sT where sT: "tx_stream X E Offset Length (PageSender_new X False V W) = Some (Inr Length, sT)"
    "T_Sent sT = map (\<lambda>p. (tx_tag E (fst p), ?data p)) ?ps" "T_Whole sT = foldl (Verifier_update X) (Verifier_new X V W) (map ?data ?ps)"
    using tx_stream_pages [OF assms(1,5), of X V W] good sent by auto
  have "\<exists>sR. rx_land X space_ops E' Offset Length (PageReceiver_new X V W S) = Some (Inr Length, sR) \<and>
      take Length (space_contents (Rx_Sink sR)) = take Length (drop Offset File) \<and> Rx_Whole sR = T_Whole sT"
    if arrive: "\<forall>(tag, bs) \<in> set (T_Sent sT). rx_recv E' tag (length bs) = Inr bs"
  proof -
    have len: "length (?data (k, l)) = l" if "(k, l) \<in> set ?ps" for k l
    proof -
      have "l \<le> length File - k" using b [OF that] assms(6) by linarith
      then show ?thesis by simp
    qed
    have "delivers E' ?data (pages (rx_PageBytes E') Offset (Offset + Length))"
      using arrive len unfolding delivers_def assms(3) sT(2) by (fastforce simp: rx_tag_def tx_tag_def assms(4))
    moreover obtain T where T: "land space_write S (map (\<lambda>p. (fst p, ?data p)) ?ps) = (Inr (), T)"
      using space_lands [of "map (\<lambda>p. (fst p, ?data p)) ?ps" S] b len assms(9-11) by fastforce
    ultimately obtain sR where sR: "rx_loop X space_ops E' Length (Offset + Length) Offset (PageReceiver_new X V W S) = Some (Inr Length, sR)"
      "Rx_Sink sR = T" "Rx_Whole sR = foldl (Verifier_update X) (Verifier_new X V W) (map ?data ?ps)"
      using rx_loop_pages [OF rx_setup_fair [OF assms(2)] space_ops_plain, of "PageReceiver_new X V W S" ?data Offset "Offset + Length" T X Length]
      by (auto simp: PageReceiver_new_def assms(3) space_ops_def)
    have "take (Offset + Length - Offset) (space_contents T) = concat (map ?data ?ps)"
      by (rule space_landed [OF assms(8) pb T assms(9)]) (use len in auto)
    then have "take Length (space_contents T) = take Length (drop Offset File)" using pages_concat [OF pb, of File Offset "Offset + Length"] by simp
    then show ?thesis using sR sT(3) assms(5) by (auto simp: rx_land_def rx_quiesce_def)
  qed
  then show ?thesis using sT(1) by (auto simp: Verifier_matches_def Verifier_digest_def intro!: exI [of _ sT])
qed

text \<open>
  C8. A transfer between two ends whose geometry is what the code computes from pools of at
  least two pages ends and moves the bytes: the sender never waits for a page it holds itself,
  and when its reads answer with the bytes of the file it reports the whole length; if the
  fabric delivers to each posted receive what was sent under its tag, the receiver reports the
  whole length too, the window of the address space holds the bytes of the range, and the
  receiver accepts the sender's digest.
\<close>

theorem page_transfer:
  assumes "tx_setup E" and "rx_setup E'" and "rx_PageBytes E' = tx_PageBytes E" and "rx_TagBase E' = tx_TagBase E"
    and "Offset + Length < 2 ^ 64" and "Offset + Length \<le> length File"
    and "\<forall>(k, l) \<in> set (pages (tx_PageBytes E) Offset (Offset + Length)). page_read E (k, l) = Inr (take l (drop k File))"
    and "space_sound S" and "AS_Base (Sp_Space S) = Offset" and "AS_PageBytes (Sp_Space S) = tx_PageBytes E" and "Length \<le> capacity (Sp_Space S)"
  shows "\<exists>sT. tx_stream X E Offset Length (PageSender_new X False V W) = Some (Inr Length, sT) \<and>
    ((\<forall>(tag, bs) \<in> set (T_Sent sT). rx_recv E' tag (length bs) = Inr bs) \<longrightarrow>
       (\<exists>sR. rx_land X space_ops E' Offset Length (PageReceiver_new X V W S) = Some (Inr Length, sR) \<and>
          take Length (space_contents (Rx_Sink sR)) = take Length (drop Offset File) \<and>
          Verifier_matches X (Rx_Whole sR) (Verifier_digest X (T_Whole sT))))"
  by (rule pages_moved [OF assms])

theorem page_transfer_witness:
  "\<exists>sR. rx_land counting_xx space_ops sample_rx 2 4 (PageReceiver_new counting_xx True XxH3 sample_window) = Some (Inr 4, sR) \<and>
     take 4 (space_contents (Rx_Sink sR)) = [2, 3, 4, 5]"
proof -
  have pr: "page_read sample_tx (2, 2) = Inr [2, 3]" "page_read sample_tx (4, 2) = Inr [4, 5]"
    by (simp_all add: page_read_def sample_tx_def tx_ask_def)
  have f: "tx_PageBytes sample_tx = 2" "rx_PageBytes sample_rx = 2" "tx_TagBase sample_tx = 100" "rx_TagBase sample_rx = 100"
    "AS_Base (Sp_Space sample_window) = 2" "AS_PageBytes (Sp_Space sample_window) = 2" "capacity (Sp_Space sample_window) = 4"
    by (simp_all add: sample_tx_def sample_rx_def sample_window_def capacity_def)
  have "\<exists>sT. tx_stream counting_xx sample_tx 2 4 (PageSender_new counting_xx False True XxH3) = Some (Inr 4, sT) \<and>
    ((\<forall>(tag, bs) \<in> set (T_Sent sT). rx_recv sample_rx tag (length bs) = Inr bs) \<longrightarrow>
       (\<exists>sR. rx_land counting_xx space_ops sample_rx 2 4 (PageReceiver_new counting_xx True XxH3 sample_window) = Some (Inr 4, sR) \<and>
          take 4 (space_contents (Rx_Sink sR)) = take 4 (drop 2 [0, 1, 2, 3, 4, 5]) \<and>
          Verifier_matches counting_xx (Rx_Whole sR) (Verifier_digest counting_xx (T_Whole sT))))"
    by (rule page_transfer) (simp_all add: sample_ends f pr)
  then obtain sT where sT: "tx_stream counting_xx sample_tx 2 4 (PageSender_new counting_xx False True XxH3) = Some (Inr 4, sT)"
    "(\<forall>(tag, bs) \<in> set (T_Sent sT). rx_recv sample_rx tag (length bs) = Inr bs) \<longrightarrow>
       (\<exists>sR. rx_land counting_xx space_ops sample_rx 2 4 (PageReceiver_new counting_xx True XxH3 sample_window) = Some (Inr 4, sR) \<and>
          take 4 (space_contents (Rx_Sink sR)) = take 4 (drop 2 [0, 1, 2, 3, 4, 5]))" by blast
  have "T_Sent sT = [(102, [2, 3]), (104, [4, 5])]"
    using tx_stream_pages [OF sample_ends(1), of 2 4 counting_xx True XxH3] sT(1)
    by (auto simp: sample_ends f pr tx_tag_def page_sent_def)
  then show ?thesis using sT(2) by (simp add: sample_rx_def)
qed

text \<open>
  A page whose read fails still goes out: whatever the reads of a transfer answer, as long
  as those that succeed are not short, the sender ships one message per page with the page's
  tag and length, so that no receive of the peer waits for good; it reports success exactly when
  every read succeeded, and the pages whose reads failed went out as zeros.
\<close>

theorem failed_reads_ship:
  assumes "tx_setup E" and "Offset + Length < 2 ^ 64"
    and "\<forall>(k, l) \<in> set (pages (tx_PageBytes E) Offset (Offset + Length)). \<forall>bs. page_read E (k, l) = Inr bs \<longrightarrow> length bs = l"
  shows "\<exists>r s. tx_stream X E Offset Length (PageSender_new X False V W) = Some (r, s) \<and> \<not> T_LeftUnsent s \<and>
    map (\<lambda>(tag, bs). (tag, length bs)) (T_Sent s) = map (\<lambda>(k, l). (tx_tag E k, l)) (pages (tx_PageBytes E) Offset (Offset + Length)) \<and>
    (is_ok r \<longleftrightarrow> (\<forall>p \<in> set (pages (tx_PageBytes E) Offset (Offset + Length)). is_ok (page_read E p))) \<and>
    (\<forall>(k, l) \<in> set (pages (tx_PageBytes E) Offset (Offset + Length)).
       \<not> is_ok (page_read E (k, l)) \<longrightarrow> (tx_tag E k, replicate l 0) \<in> set (T_Sent s))"
proof -
  let ?ps = "pages (tx_PageBytes E) Offset (Offset + Length)"
  obtain r s where s: "tx_stream X E Offset Length (PageSender_new X False V W) = Some (r, s)" "\<not> T_LeftUnsent s"
    "T_Sent s = map (\<lambda>p. (tx_tag E (fst p), page_sent E p)) ?ps" "is_ok r \<longleftrightarrow> (\<forall>p \<in> set ?ps. is_ok (page_read E p))"
    using tx_stream_pages [OF assms(1,2), of X V W] by blast
  have "length (page_sent E (k, l)) = l" if "(k, l) \<in> set ?ps" for k l
    using assms(3) that by (auto simp: page_sent_def split: sum.split)
  then have "map (\<lambda>(tag, bs). (tag, length bs)) (T_Sent s) = map (\<lambda>(k, l). (tx_tag E k, l)) ?ps"
    unfolding s(3) by (auto intro!: map_cong simp: comp_def)
  moreover have "(tx_tag E k, replicate l 0) \<in> set (T_Sent s)" if "(k, l) \<in> set ?ps" "\<not> is_ok (page_read E (k, l))" for k l
    using that unfolding s(3) by (auto simp: page_sent_def is_ok_def image_iff split: sum.splits intro!: bexI [of _ "(k, l)"])
  ultimately show ?thesis using s(1,2,4) by blast
qed

definition sample_failing :: tx_env where
  "sample_failing = sample_tx\<lparr>tx_submitRead := \<lambda>Ask k. if k = 4 then failErrno 5 ''read'' else Inr (Inr [9, 9])\<rparr>"

theorem failed_reads_ship_witness:
  "\<exists>r s. tx_stream counting_xx sample_failing 2 4 (PageSender_new counting_xx False True XxH3) = Some (r, s) \<and> \<not> is_ok r \<and>
     (104, [0, 0]) \<in> set (T_Sent s)"
proof -
  have pr: "page_read sample_failing (2, 2) = Inr [9, 9]" "page_read sample_failing (4, 2) = failErrno 5 ''read''"
    by (simp_all add: page_read_def sample_failing_def sample_tx_def tx_ask_def failErrno_def fail_def)
  have f: "tx_PageBytes sample_failing = 2" "tx_tag sample_failing 4 = 104" "tx_setup sample_failing"
    using sample_ends(2) by (simp_all add: sample_failing_def) (simp_all add: sample_tx_def tx_tag_def)
  obtain r s where "tx_stream counting_xx sample_failing 2 4 (PageSender_new counting_xx False True XxH3) = Some (r, s)" "\<not> is_ok r"
    "(104, replicate 2 0) \<in> set (T_Sent s)"
    using failed_reads_ship [OF f(3), of 2 4 counting_xx True XxH3] by (auto simp: f pr sample_ends)
  then show ?thesis by (auto simp: numeral_2_eq_2)
qed

text \<open>
  A pool of one page is too small for a stream of more than one: with the geometry the code
  computes for it, the sender asks for its second page while its first is still in flight, and
  since only the sender could complete that send, it waits for good.
\<close>

theorem one_page_stream_waits:
  assumes "tx_Pages E = 1" and "tx_G E = forChannel 1 F D" and "tx_Backed E" and "0 < tx_PageBytes E" and "tx_PageBytes E < 2 ^ 32"
    and "tx_AbortAfterPages E = 0" and "tx_RefuseSendAfterPages E = 0"
    and "\<forall>k l. tx_sending E k l = None" and "tx_PageBytes E < Length" and "Offset + Length < 2 ^ 64"
  shows "tx_stream X E Offset Length (PageSender_new X False V W) = None"
proof -
  let ?s = "PageSender_new X False V W" and ?End = "Offset + Length" and ?PB = "tx_PageBytes E"
  have G: "Window (tx_G E) = 1" "ReadAhead (tx_G E) = 1" by (simp_all add: assms(2) forChannel_def Let_def max_def min_def)
  have T: "min ?PB (?End - Offset) = ?PB" "?PB mod 2 ^ 32 = ?PB" using assms(5,9) by simp_all
  let ?R = "reading_of E (Offset, ?PB)"
  have dir: "R_Direct ?R = None" using assms(8) by (auto simp: reading_of_def markFailed_def Let_def split: sum.split)
  obtain Fl n where f: "tx_fill E ?End ?s Offset =
      tx_fill E ?End (?s\<lparr>T_Prefetch := T_Prefetch ?s @ [?R], T_Failure := Fl, T_Pooled := n\<rparr>) (Offset + ?PB)"
    by (rule tx_fill_step [of E ?s Offset ?End ?PB]) (use assms T G in \<open>auto simp: PageSender_new_def tx_held_def\<close>)
  let ?s1 = "?s\<lparr>T_Prefetch := [?R], T_Failure := Fl, T_Pooled := n\<rparr>"
  have f1: "tx_fill E ?End ?s Offset = Some (Inr (), ?s1, Offset + ?PB)"
    using f G tx_fill_stop [of ?s1 E "Offset + ?PB" ?End] by (simp add: PageSender_new_def)
  obtain s2 where s2: "shipReady X E ?s1 = (Inr (), s2)" "T_Prefetch s2 = []" "tx_held s2 = 1" "\<not> T_FlipOneBit s2"
    by (rule shipReady_page [of E ?s1 ?R "[]" X]) (use assms(7) dir in \<open>auto simp: PageSender_new_def tx_held_def\<close>)
  have d: "tx_drain 0 ?s1 = (Inr (), ?s1)" by (simp add: tx_drain_def PageSender_new_def)
  have stuck: "tx_fill E ?End s2 (Offset + ?PB) = None"
    using s2 G assms by (subst tx_fill.simps) (simp add: Let_def)
  have "tx_loop X E Length ?End Offset ?s = tx_loop X E Length ?End (Offset + ?PB) s2"
    using f1 d s2(1) G assms(4,9) by (subst tx_loop.simps) simp
  also have "\<dots> = None" using stuck assms(9) by (subst tx_loop.simps) simp
  finally show ?thesis using assms(10) by (simp add: tx_stream_def)
qed

theorem one_page_stream_waits_witness:
  "tx_stream counting_xx (sample_tx\<lparr>tx_Pages := 1, tx_G := forChannel 1 4 8\<rparr>) 2 4 (PageSender_new counting_xx False True XxH3) = None"
  using one_page_stream_waits [of "sample_tx\<lparr>tx_Pages := 1, tx_G := forChannel 1 4 8\<rparr>" 4 8 4 2] by (simp add: sample_tx_def)

end
