(* ===== verification/FdCache.thy ===== *)
theory FdCache
  imports FileWriter Transition
begin

text \<open>
  The descriptor cache of \<^verbatim>\<open>src/file-service.cc\<close>: descriptors by path and open flags, shared by
  every session of the daemon behind one mutex, least recently used first out. What \<^verbatim>\<open>stat\<close> and
  \<^verbatim>\<open>open\<close> answer are arguments. The theorems show that the two containers always hold the same
  keys, that the cache refines a plain list of entries with the latest in front, that a cached
  descriptor is only handed out for the file the path names now, and that a path that was
  removed is held under no flags.
\<close>

section \<open>State and operations\<close>

record Entry =
  E_File :: int
  E_Device :: u64
  E_Inode :: u64

record FdCache =
  FC_Limit :: nat
  FC_Order :: "string list"
  FC_Open :: "string \<rightharpoonup> Entry"

definition FdCache_new :: "nat \<Rightarrow> FdCache" where
  "FdCache_new Limit = \<lparr>FC_Limit = Limit, FC_Order = [], FC_Open = Map.empty\<rparr>"

definition fd_key :: "nat \<Rightarrow> string \<Rightarrow> string" where
  "fd_key Flags Path = decimal Flags @ '':'' @ Path"

definition evictOldest :: "FdCache \<Rightarrow> FdCache" where
  "evictOldest C =
     (if FC_Order C = [] then C
      else C\<lparr>FC_Open := (FC_Open C)(last (FC_Order C) := None), FC_Order := butlast (FC_Order C)\<rparr>)"

text \<open>The iterator an entry keeps into the order names its key; \<^verbatim>\<open>Open.size()\<close> is the order's length.\<close>

definition fd_insert :: "string \<Rightarrow> Entry \<Rightarrow> FdCache \<Rightarrow> FdCache" where
  "fd_insert Key E C =
     (let C = (if length (FC_Order C) \<ge> FC_Limit C then evictOldest C else C)
      in C\<lparr>FC_Order := Key # FC_Order C, FC_Open := (FC_Open C)(Key \<mapsto> E)\<rparr>)"

definition fd_get :: "(u64 \<times> u64) option \<Rightarrow> (int + int) \<Rightarrow> string \<Rightarrow> nat \<Rightarrow> FdCache \<Rightarrow> int Result \<times> FdCache" where
  "fd_get Now Opened Path Flags C =
     (let Key = fd_key Flags Path;
          fresh = (\<lambda>C.
            case Opened of
              Inl errno \<Rightarrow> (failErrno errno (''open '' @ Path), C)
            | Inr Fd \<Rightarrow>
                (Inr Fd, fd_insert Key \<lparr>E_File = Fd, E_Device = (case Now of None \<Rightarrow> 0 | Some (d, i) \<Rightarrow> d),
                   E_Inode = (case Now of None \<Rightarrow> 0 | Some (d, i) \<Rightarrow> i)\<rparr> C))
      in case FC_Open C Key of
           Some E \<Rightarrow>
             if Now = Some (E_Device E, E_Inode E)
             then (Inr (E_File E), C\<lparr>FC_Order := Key # remove1 Key (FC_Order C)\<rparr>)
             else fresh (C\<lparr>FC_Order := remove1 Key (FC_Order C), FC_Open := (FC_Open C)(Key := None)\<rparr>)
         | None \<Rightarrow> fresh C)"

definition fd_tail :: "string \<Rightarrow> string \<Rightarrow> bool" where
  "fd_tail Path Key \<longleftrightarrow> length Key > length ('':'' @ Path) \<and> drop (length Key - length ('':'' @ Path)) Key = '':'' @ Path"

definition fd_forget :: "string \<Rightarrow> FdCache \<Rightarrow> FdCache" where
  "fd_forget Path C =
     C\<lparr>FC_Order := filter (\<lambda>k. \<not> fd_tail Path k) (FC_Order C), FC_Open := (\<lambda>k. if fd_tail Path k then None else FC_Open C k)\<rparr>"

section \<open>The invariant and the list it refines\<close>

definition fd_wf :: "FdCache \<Rightarrow> bool" where
  "fd_wf C \<longleftrightarrow> distinct (FC_Order C) \<and> set (FC_Order C) = dom (FC_Open C) \<and> length (FC_Order C) \<le> max 1 (FC_Limit C)"

definition fd_list :: "FdCache \<Rightarrow> (string \<times> Entry) list" where
  "fd_list C = map (\<lambda>k. (k, the (FC_Open C k))) (FC_Order C)"

text \<open>The reference: entries in a list, the latest first, cut to the limit.\<close>

definition lru_add :: "nat \<Rightarrow> string \<Rightarrow> Entry \<Rightarrow> (string \<times> Entry) list \<Rightarrow> (string \<times> Entry) list" where
  "lru_add Limit Key E L = (Key, E) # take (max 1 Limit - 1) L"

definition lru_get ::
  "nat \<Rightarrow> (u64 \<times> u64) option \<Rightarrow> (int + int) \<Rightarrow> string \<Rightarrow> nat \<Rightarrow> (string \<times> Entry) list \<Rightarrow> int Result \<times> (string \<times> Entry) list" where
  "lru_get Limit Now Opened Path Flags L =
     (let Key = fd_key Flags Path; L' = filter (\<lambda>(k, _). k \<noteq> Key) L
      in case map_of L Key of
           Some E \<Rightarrow> if Now = Some (E_Device E, E_Inode E) then (Inr (E_File E), (Key, E) # L')
             else (case Opened of Inl errno \<Rightarrow> (failErrno errno (''open '' @ Path), L')
                   | Inr Fd \<Rightarrow> (Inr Fd, lru_add Limit Key \<lparr>E_File = Fd, E_Device = (case Now of None \<Rightarrow> 0 | Some (d, i) \<Rightarrow> d),
                       E_Inode = (case Now of None \<Rightarrow> 0 | Some (d, i) \<Rightarrow> i)\<rparr> L'))
         | None \<Rightarrow> (case Opened of Inl errno \<Rightarrow> (failErrno errno (''open '' @ Path), L)
                   | Inr Fd \<Rightarrow> (Inr Fd, lru_add Limit Key \<lparr>E_File = Fd, E_Device = (case Now of None \<Rightarrow> 0 | Some (d, i) \<Rightarrow> d),
                       E_Inode = (case Now of None \<Rightarrow> 0 | Some (d, i) \<Rightarrow> i)\<rparr> L)))"

lemma remove1_filter: "distinct xs \<Longrightarrow> remove1 k xs = filter (\<lambda>x. x \<noteq> k) xs"
  by (simp add: distinct_remove1_removeAll removeAll_filter_not_eq) (metis (mono_tags, lifting))

lemma fd_list_drop: "filter (\<lambda>(k, _). k \<noteq> Key) (fd_list C) = map (\<lambda>k. (k, the (FC_Open C k))) (filter (\<lambda>k. k \<noteq> Key) (FC_Order C))"
  by (simp add: fd_list_def filter_map comp_def)

lemma map_of_fd_list: "fd_wf C \<Longrightarrow> map_of (fd_list C) = FC_Open C"
proof (rule ext)
  fix k assume w: "fd_wf C"
  have "map_of (map (\<lambda>k. (k, the (FC_Open C k))) ks) k = (if k \<in> set ks then Some (the (FC_Open C k)) else None)" for ks
    by (induction ks) auto
  then show "map_of (fd_list C) k = FC_Open C k" using w by (auto simp: fd_list_def fd_wf_def)
qed

lemma fd_insert_ok:
  assumes "fd_wf C" and "FC_Open C Key = None"
  shows "fd_wf (fd_insert Key E C) \<and> fd_list (fd_insert Key E C) = lru_add (FC_Limit C) Key E (fd_list C) \<and> FC_Limit (fd_insert Key E C) = FC_Limit C"
proof (cases "length (FC_Order C) \<ge> FC_Limit C \<and> FC_Order C \<noteq> []")
  case True
  then obtain ks k where o: "FC_Order C = ks @ [k]" by (metis append_butlast_last_id)
  then have "Key \<notin> set ks" "k \<noteq> Key" "k \<notin> set ks" "length ks = max 1 (FC_Limit C) - 1" "dom (FC_Open C) = insert k (set ks)"
    using assms True by (auto simp: fd_wf_def)
  then show ?thesis
    using assms True o by (auto simp: fd_insert_def evictOldest_def fd_wf_def fd_list_def lru_add_def Let_def)
next
  case False
  have "Key \<notin> set (FC_Order C)" using assms by (auto simp: fd_wf_def)
  moreover have "length (FC_Order C) \<le> max 1 (FC_Limit C) - 1" using False by (cases "FC_Order C = []") auto
  ultimately show ?thesis
    using assms False by (auto simp: fd_insert_def evictOldest_def fd_wf_def fd_list_def lru_add_def Let_def)
qed

lemma fd_wf_drop:
  fixes Key
  assumes "fd_wf C"
  defines "C' \<equiv> C\<lparr>FC_Order := remove1 Key (FC_Order C), FC_Open := (FC_Open C)(Key := None)\<rparr>"
  shows "fd_wf C'" and "fd_list C' = filter (\<lambda>(k, _). k \<noteq> Key) (fd_list C)" and "FC_Open C' Key = None" and "FC_Limit C' = FC_Limit C"
proof -
  have d: "distinct (FC_Order C)" "set (FC_Order C) = dom (FC_Open C)" "length (FC_Order C) \<le> max 1 (FC_Limit C)" using assms(1) by (simp_all add: fd_wf_def)
  have "length (remove1 Key (FC_Order C)) \<le> length (FC_Order C)" by (simp add: length_remove1)
  then show "fd_wf C'" using d unfolding fd_wf_def C'_def by (auto simp: set_remove1_eq)
  show "fd_list C' = filter (\<lambda>(k, _). k \<noteq> Key) (fd_list C)"
    unfolding fd_list_drop C'_def by (auto simp: fd_list_def remove1_filter [OF d(1)])
qed (simp_all add: C'_def)

lemma fd_get_refines:
  assumes "fd_wf C" and "fd_get Now Opened Path Flags C = (r, C')"
  shows "fd_wf C' \<and> (r, fd_list C') = lru_get (FC_Limit C) Now Opened Path Flags (fd_list C) \<and> FC_Limit C' = FC_Limit C"
proof (cases "FC_Open C (fd_key Flags Path)")
  case None
  then show ?thesis
    using assms fd_insert_ok [OF assms(1) None]
    by (cases Opened) (auto simp: fd_get_def lru_get_def Let_def map_of_fd_list)
next
  case (Some E)
  let ?k = "fd_key Flags Path" and ?D = "C\<lparr>FC_Order := remove1 (fd_key Flags Path) (FC_Order C), FC_Open := (FC_Open C)(fd_key Flags Path := None)\<rparr>"
  note d = fd_wf_drop [OF assms(1), where Key = ?k]
  show ?thesis
  proof (cases "Now = Some (E_Device E, E_Inode E)")
    case True
    have w: "distinct (FC_Order C)" "set (FC_Order C) = dom (FC_Open C)" "?k \<in> set (FC_Order C)" using assms(1) Some by (auto simp: fd_wf_def)
    then have "length (?k # remove1 ?k (FC_Order C)) = length (FC_Order C)" using length_pos_if_in_set [OF w(3)] by (simp add: length_remove1)
    then have "fd_wf (C\<lparr>FC_Order := ?k # remove1 ?k (FC_Order C)\<rparr>)"
      using assms(1) w by (auto simp: fd_wf_def set_remove1_eq)
    moreover have "fd_list (C\<lparr>FC_Order := ?k # remove1 ?k (FC_Order C)\<rparr>) = (?k, E) # filter (\<lambda>(k, _). k \<noteq> ?k) (fd_list C)"
      unfolding fd_list_drop using Some by (simp add: fd_list_def remove1_filter [OF w(1)])
    ultimately show ?thesis using assms True Some by (auto simp: fd_get_def lru_get_def Let_def map_of_fd_list)
  next
    case False
    then show ?thesis using assms Some d fd_insert_ok [OF d(1,3)]
      by (cases Opened) (auto simp: fd_get_def lru_get_def Let_def map_of_fd_list)
  qed
qed

lemma fd_forget_wf:
  assumes "fd_wf C"
  shows "fd_wf (fd_forget Path C) \<and> FC_Limit (fd_forget Path C) = FC_Limit C"
proof -
  have "length (filter (\<lambda>k. \<not> fd_tail Path k) (FC_Order C)) \<le> max 1 (FC_Limit C)"
    by (rule order_trans [OF length_filter_le]) (use assms in \<open>simp add: fd_wf_def\<close>)
  then show ?thesis using assms unfolding fd_wf_def fd_forget_def by (auto split: if_splits)
qed

lemma fd_tail_key: "fd_tail Path (fd_key Flags Path)"
proof -
  have "decimal Flags \<noteq> []" by (subst decimal.simps) simp
  then show ?thesis by (simp add: fd_tail_def fd_key_def)
qed

section \<open>Runs of the daemon\<close>

text \<open>Any session's calls, in the order the mutex admits them.\<close>

inductive fd_step :: "FdCache \<Rightarrow> FdCache \<Rightarrow> bool" where
  got: "fd_get Now Opened Path Flags C = (r, C') \<Longrightarrow> fd_step C C'"
| forgot: "fd_step C (fd_forget Path C)"

interpretation fdc: transition_system "FdCache_new Limit" fd_step "\<lambda>C. fd_wf C \<and> FC_Limit C = Limit" for Limit
proof
  show "fd_wf (FdCache_new Limit) \<and> FC_Limit (FdCache_new Limit) = Limit" by (simp add: fd_wf_def FdCache_new_def)
  fix C C' assume "fd_wf C \<and> FC_Limit C = Limit" "fd_step C C'"
  then show "fd_wf C' \<and> FC_Limit C' = Limit" by (auto elim!: fd_step.cases simp: fd_get_refines fd_forget_wf)
qed

text \<open>
  C21. In every run of the daemon the descriptor cache behaves as a list of entries with the
  latest in front, cut to the limit: a lookup answers and changes it as the reference does, a
  descriptor that is answered was opened just now or is cached for the very file, by device and
  inode, that the path names now, and after a path is forgotten no descriptor is cached for it
  whichever flags it was opened with.
\<close>

theorem fd_cache_refines_lru:
  assumes "fd_step\<^sup>*\<^sup>* (FdCache_new Limit) C" and "fd_get Now Opened Path Flags C = (r, C')"
  shows "(r, fd_list C') = lru_get Limit Now Opened Path Flags (fd_list C) \<and> length (fd_list C') \<le> max 1 Limit \<and>
    (\<forall>Fd. r = Inr Fd \<longrightarrow> Opened = Inr Fd \<or>
       (\<exists>E. FC_Open C (fd_key Flags Path) = Some E \<and> E_File E = Fd \<and> Now = Some (E_Device E, E_Inode E))) \<and>
    (\<forall>Flags'. FC_Open (fd_forget Path C') (fd_key Flags' Path) = None)"
proof -
  have w: "fd_wf C" "FC_Limit C = Limit" using fdc.reachable_inv [of Limit C] assms(1) by (simp_all add: fdc.reachable_def)
  note r = fd_get_refines [OF w(1) assms(2)]
  have "Opened = Inr Fd \<or> (\<exists>E. FC_Open C (fd_key Flags Path) = Some E \<and> E_File E = Fd \<and> Now = Some (E_Device E, E_Inode E))" if "r = Inr Fd" for Fd
    using assms(2) that by (auto simp: fd_get_def Let_def split: option.splits sum.splits if_splits)
  moreover have "length (fd_list C') \<le> max 1 Limit" using r w(2) by (auto simp: fd_wf_def fd_list_def)
  ultimately show ?thesis using r w(2) by (auto simp: fd_forget_def fd_tail_key)
qed

theorem fd_cache_refines_lru_witness:
  "fst (fd_get (Some (1, 5)) (Inl 2) ''r/a'' 0 (snd (fd_get (Some (1, 5)) (Inr 7) ''r/a'' 0 (FdCache_new 2)))) = Inr 7"
proof -
  let ?C = "snd (fd_get (Some (1, 5)) (Inr 7) ''r/a'' 0 (FdCache_new 2))"
  have "fd_step (FdCache_new 2) ?C" by (rule fd_step.got [OF prod.collapse [symmetric]])
  then have "fd_step\<^sup>*\<^sup>* (FdCache_new 2) ?C" by blast
  from fd_cache_refines_lru [OF this prod.collapse [symmetric], of "Some (1, 5)" "Inl 2" "''r/a''" 0]
  have "fst (fd_get (Some (1, 5)) (Inl 2) ''r/a'' 0 ?C) = fst (lru_get 2 (Some (1, 5)) (Inl 2) ''r/a'' 0 (fd_list ?C))" by (metis fst_conv)
  also have "fd_list ?C = [(fd_key 0 ''r/a'', \<lparr>E_File = 7, E_Device = 1, E_Inode = 5\<rparr>)]"
    by (simp add: fd_get_def FdCache_new_def Let_def fd_insert_def fd_list_def)
  finally show ?thesis by (simp add: lru_get_def Let_def)
qed

end
