(* ===== verification/LexPath.thy ===== *)
theory LexPath
  imports FileWriter
begin

text \<open>
  Paths below a root, by their parts: what \<open>underRoot\<close> accepts, an entry of a directory, and the
  parent of an accepted path stay below it. The file service and the receiver of a sync rest on
  these facts.
\<close>

definition lex_under :: "string \<Rightarrow> string \<Rightarrow> bool" where
  "lex_under Root p \<longleftrightarrow> prefix (parts Root) (parts p) \<and> ''..'' \<notin> set (drop (length (parts Root)) (parts p))"

lemma parts_slash: "last a = CHR ''/'' \<Longrightarrow> a \<noteq> [] \<Longrightarrow> parts (a @ b) = parts a @ parts b"
  using parts_append [of "butlast a" b] parts_trailing [of "butlast a"] append_butlast_last_id [of a]
  by (metis append.assoc append_Cons append_Nil)

lemma parts_path_append: "\<not> is_absolute n \<Longrightarrow> parts (path_append r n) = parts r @ parts n"
  by (cases "r = []") (auto simp: path_append_def parts_append parts_slash)

lemma split_slash_head: "s = [] \<or> hd s \<noteq> CHR ''/'' \<or> acc \<noteq> [] \<Longrightarrow> acc @ s \<noteq> [] \<Longrightarrow> hd (split_slash acc s) \<noteq> []"
proof (induction acc s rule: split_slash.induct)
  case (2 acc c cs)
  then show ?case by (cases "c = CHR ''/''") auto
qed simp

lemma split_slash_nonempty: "split_slash acc s \<noteq> []"
  by (induction acc s rule: split_slash.induct) auto

lemma parts_relative: "n \<noteq> [] \<Longrightarrow> \<not> is_absolute n \<Longrightarrow> parts n \<noteq> []"
  using split_slash_head [of n "[]"] split_slash_nonempty [of "[]" n]
  by (cases "split_slash [] n") (auto simp: parts_def is_absolute_def)

lemma underRoot_accepted:
  assumes "underRoot fs Root Name = Inr p"
  shows "p = path_append Root Name" and "Name \<noteq> []" and "\<not> is_absolute Name" and "''..'' \<notin> set (parts Name)"
  using assms by (auto simp: underRoot_def Let_def failMessage_def fail_def split: if_splits)

lemma underRoot_parts:
  assumes "underRoot fs Root Name = Inr p"
  shows "parts p = parts Root @ parts Name"
  using underRoot_accepted [OF assms] by (simp add: parts_path_append)

lemma underRoot_lex: "underRoot fs Root Name = Inr p \<Longrightarrow> lex_under Root p"
  using underRoot_parts underRoot_accepted(4) by (simp add: lex_under_def)

text \<open>A directory's entry and a path's parent.\<close>

definition plain_name :: "string \<Rightarrow> bool" where
  "plain_name n \<longleftrightarrow> \<not> is_absolute n \<and> ''..'' \<notin> set (parts n)"

lemma entry_lex: "lex_under Root d \<Longrightarrow> plain_name n \<Longrightarrow> lex_under Root (path_append d n)"
  by (auto simp: lex_under_def plain_name_def parts_path_append dest: in_set_dropD)

lemma strip_slashes_parts: "parts (strip_slashes a) = parts a"
proof (induction a rule: rev_induct)
  case (snoc c a)
  then show ?case by (cases "c = CHR ''/''") (simp_all add: strip_slashes_def parts_trailing)
qed (simp add: strip_slashes_def)

lemma split_slash_single: "CHR ''/'' \<notin> set f \<Longrightarrow> split_slash acc f = [acc @ f]"
  by (induction f arbitrary: acc) auto

lemma parent_parts: "\<exists>f. parts p = parts (parent_path p) @ f \<and> length f \<le> 1"
proof -
  define f where "f = rev (takeWhile (\<lambda>c. c \<noteq> CHR ''/'') (rev p))"
  define a where "a = rev (dropWhile (\<lambda>c. c \<noteq> CHR ''/'') (rev p))"
  have p: "p = a @ f" unfolding a_def f_def by (metis rev_append rev_rev_ident takeWhile_dropWhile_id)
  have "CHR ''/'' \<notin> set f" unfolding f_def using set_takeWhileD by fastforce
  then have l: "length (parts f) \<le> 1" by (simp add: parts_def split_slash_single)
  have "parent_path p = (if a \<noteq> [] \<and> strip_slashes a = [] then ''/'' else strip_slashes a)" by (simp add: parent_path_def Let_def a_def)
  then have "parts (parent_path p) = parts a" using strip_slashes_parts [of a] by (auto simp: parts_def)
  moreover have "parts p = parts a @ parts f"
  proof (cases "a = []")
    case False
    then have "last a = CHR ''/''" using hd_dropWhile [of "\<lambda>c. c \<noteq> CHR ''/''" "rev p"] by (simp add: a_def last_rev)
    then show ?thesis using parts_slash [OF _ False, of f] p by simp
  qed (simp add: p)
  ultimately show ?thesis using l by auto
qed

lemma parent_lex:
  assumes "underRoot fs Root Name = Inr p"
  shows "lex_under Root (parent_path p)"
proof -
  obtain f where f: "parts Root @ parts Name = parts (parent_path p) @ f" "length f \<le> 1"
    using parent_parts [of p] underRoot_parts [OF assms] by auto
  have n: "parts Name \<noteq> []" "''..'' \<notin> set (parts Name)" using underRoot_accepted [OF assms] parts_relative by auto
  then have "1 \<le> length (parts Name)" by (cases "parts Name") auto
  moreover have "length (parts Root) + length (parts Name) = length (parts (parent_path p)) + length f" using f(1) by (metis length_append)
  ultimately have le: "length (parts Root) \<le> length (parts (parent_path p))" using f(2) by linarith
  have "prefix (parts (parent_path p)) (parts Root @ parts Name)" unfolding f(1) by (rule prefixI [OF refl])
  from prefix_length_prefix [OF prefixI [OF refl] this le] have "prefix (parts Root) (parts (parent_path p))" .
  then obtain g where g: "parts (parent_path p) = parts Root @ g" by (auto simp: prefix_def)
  then have "parts Name = g @ f" using f(1) by simp
  then show ?thesis using n(2) g by (simp add: lex_under_def)
qed

end
