(* ===== verification/FileService.thy ===== *)
theory FileService
  imports FdCache Message Checksum LexPath
begin

text \<open>
  \<^verbatim>\<open>src/file-service.cc\<close>: the handlers of a session of the daemon. Each handler is one function
  over the context of its session: the pinned handles, what the daemon shares (the count of
  pinned handles and its budget, the descriptor cache), the messages sent and the system calls
  made, in order. What the system calls, the data channel and the page streams answer is an
  argument, \<open>sys\<close>. The theorems show that no request, whatever it says, makes a call on a path
  outside the root, that every request is answered under its own id, and that pinned handles
  stay within the budget across all sessions.
\<close>

section \<open>The world of a handler\<close>

record Stat =
  st_size :: u64
  st_dev :: u64
  st_ino :: u64
  st_mode :: u32
  st_uid :: u32
  st_gid :: u32
  st_mtime :: i64
  st_nlink :: u64

datatype syscall =
    SysLstat string
  | SysStat string
  | SysOpen string nat nat
  | SysReadDir string
  | SysCreateDirs string
  | SysMkdir string u32
  | SysUnlink string
  | SysRmdir string
  | SysTruncate string u64
  | SysChmod string u32
  | SysUtimens string i64
  | SysSymlink string string
  | SysLink string string
  | SysRename string string
  | SysReadLink string
  | SysStatVfs string
  | SysWriter string
  | SysFcntl int
  | SysFtruncate int u64
  | SysFchmod int u32
  | SysFsync int
  | SysClose int
  | SysRead int u64 nat
  | SysWrite int u64 "byte list"

text \<open>
  The answers: \<open>y_call\<close> is the errno of a call that only succeeds or fails. \<open>y_text\<close> is
  \<^verbatim>\<open>Error::message\<close>, whose wording is the library's. \<open>y_tx\<close> and \<open>y_rx\<close> are what a page stream
  reports: its outcome, its digest, and for a sender whether pages were left unsent.
\<close>

record sys =
  y_fs :: file_system
  y_lstat :: "string \<Rightarrow> Stat option"
  y_stat :: "string \<Rightarrow> (u64 \<times> u64) option"
  y_open :: "string \<Rightarrow> nat \<Rightarrow> nat \<Rightarrow> int + int"
  y_readdir :: "string \<Rightarrow> string list option"
  y_call :: "syscall \<Rightarrow> int option"
  y_readlink :: "string \<Rightarrow> int + string"
  y_statvfs :: "string \<Rightarrow> int + (u64 \<times> u64 \<times> u64 \<times> u64 \<times> u64)"
  y_fstat :: "int \<Rightarrow> u64 option"
  y_text :: "Error \<Rightarrow> string"
  y_send :: "nat \<Rightarrow> unit Result"
  y_acquire :: "nat option"
  y_aligned :: bool
  y_payload :: "byte list Result"
  y_post :: "unit Result"
  y_read :: "byte list Result"
  y_write :: "unit Result"
  y_fsync :: "unit Result"
  y_reader :: "u64 Result"
  y_writer :: "unit Result"
  y_commit :: "unit Result"
  y_tx :: "u64 Result \<times> Digest \<times> bool"
  y_rx :: "u64 Result \<times> (Digest \<Rightarrow> bool)"
  y_digest :: "StreamDigest Result"

record ctx =
  X_Root :: string
  X_Verify :: bool
  X_Agreed :: Sum
  X_Pinned :: "u64 \<rightharpoonup> int"
  X_NextHandle :: u64
  X_Now :: nat
  X_Budget :: nat
  X_Cache :: FdCache
  X_Sent :: "Message list"
  X_Posted :: "(u64 \<times> byte list) list"
  X_Calls :: "syscall list"
  X_Closed :: bool

definition EACCES :: int where "EACCES = 13"
definition EISDIR :: int where "EISDIR = 21"
definition EMFILE :: int where "EMFILE = 24"
definition EWOULDBLOCK :: int where "EWOULDBLOCK = 11"
definition O_RDONLY :: nat where "O_RDONLY = 0"
definition O_WRONLY :: nat where "O_WRONLY = 1"
definition O_RDWR :: nat where "O_RDWR = 2"
definition O_CREAT :: nat where "O_CREAT = 64"
definition O_EXCL :: nat where "O_EXCL = 128"
definition O_TRUNC :: nat where "O_TRUNC = 512"
definition O_NONBLOCK :: nat where "O_NONBLOCK = 2048"
definition O_DIRECT :: nat where "O_DIRECT = 16384"
definition O_CLOEXEC :: nat where "O_CLOEXEC = 524288"
definition kMaxPinned :: nat where "kMaxPinned = 4096"

definition call :: "syscall \<Rightarrow> ctx \<Rightarrow> ctx" where
  "call c x = x\<lparr>X_Calls := X_Calls x @ [c]\<rparr>"

definition send :: "sys \<Rightarrow> Message \<Rightarrow> ctx \<Rightarrow> unit Result \<times> ctx" where
  "send Y M x = (y_send Y (length (X_Sent x)), x\<lparr>X_Sent := X_Sent x @ [M]\<rparr>)"

definition endSession :: "string \<Rightarrow> ctx \<Rightarrow> unit Result \<times> ctx" where
  "endSession Why x = (failMessage Why, x\<lparr>X_Closed := True\<rparr>)"

section \<open>Attributes\<close>

definition FileAttrs_none :: FileAttrs where
  "FileAttrs_none = \<lparr>FileAttrs_Size = 0, FileAttrs_Dev = 0, FileAttrs_Ino = 0, FileAttrs_Mode = 0, FileAttrs_Uid = 0, FileAttrs_Gid = 0,
     FileAttrs_Mtime = 0, FileAttrs_Directory = False, FileAttrs_Link = False, FileAttrs_Links = 0\<rparr>"

definition attrsOf :: "sys \<Rightarrow> string \<Rightarrow> ctx \<Rightarrow> (bool \<times> FileAttrs) \<times> ctx" where
  "attrsOf Y P x =
     (case y_lstat Y P of
        None \<Rightarrow> ((False, FileAttrs_none), call (SysLstat P) x)
      | Some St \<Rightarrow>
          ((True, \<lparr>FileAttrs_Size = st_size St, FileAttrs_Dev = st_dev St, FileAttrs_Ino = st_ino St,
             FileAttrs_Mode = st_mode St AND 0xFFF, FileAttrs_Uid = st_uid St, FileAttrs_Gid = st_gid St,
             FileAttrs_Mtime = st_mtime St, FileAttrs_Directory = (st_mode St AND 0xF000 = 0x4000),
             FileAttrs_Link = (st_mode St AND 0xF000 = 0xA000), FileAttrs_Links = ucast (st_nlink St)\<rparr>),
           call (SysLstat P) x))"

fun list_entries :: "sys \<Rightarrow> string \<Rightarrow> string list \<Rightarrow> ctx \<Rightarrow> ListEntry list \<times> ctx" where
  "list_entries Y Dir [] x = ([], x)"
| "list_entries Y Dir (Name # Names) x =
     (let ((Found, A), x) = attrsOf Y (path_append Dir Name) x;
          (Es, x) = list_entries Y Dir Names x
      in (if Found then \<lparr>ListEntry_Name = Name, ListEntry_Attrs = A\<rparr> # Es else Es, x))"

definition listDirectory :: "sys \<Rightarrow> string \<Rightarrow> ctx \<Rightarrow> (bool \<times> ListEntry list) \<times> ctx" where
  "listDirectory Y Dir x =
     (case y_readdir Y Dir of
        None \<Rightarrow> ((False, []), call (SysReadDir Dir) x)
      | Some Names \<Rightarrow> let (Es, x) = list_entries Y Dir Names (call (SysReadDir Dir) x) in ((True, Es), x))"

section \<open>Handles\<close>

definition unpin :: "ctx \<Rightarrow> ctx" where
  "unpin x = x\<lparr>X_Now := X_Now x - 1\<rparr>"

definition onOpen :: "sys \<Rightarrow> OpenRequest \<Rightarrow> ctx \<Rightarrow> unit Result \<times> ctx" where
  "onOpen Y Rq x =
     (let Reply = \<lparr>OpenReply_Id = OpenRequest_Id Rq, OpenReply_Ok = False, OpenReply_Found = False, OpenReply_Handle = 0,
            OpenReply_Attrs = FileAttrs_none, OpenReply_Error = [], OpenReply_Errno = 0\<rparr>
      in case underRoot (y_fs Y) (X_Root x) (OpenRequest_Path Rq) of
           Inl e \<Rightarrow> send Y (OpenReply (Reply\<lparr>OpenReply_Error := y_text Y e, OpenReply_Errno := of_int EACCES\<rparr>)) x
         | Inr Path \<Rightarrow>
             let ((Found, A), x) = attrsOf Y Path x;
                 Reply = Reply\<lparr>OpenReply_Attrs := A, OpenReply_Found := Found\<rparr>
             in if \<not> Found then
                  send Y (OpenReply (Reply\<lparr>OpenReply_Error := ''no such file: '' @ OpenRequest_Path Rq, OpenReply_Errno := of_int ENOENT\<rparr>)) x
                else if FileAttrs_Directory A then
                  send Y (OpenReply (Reply\<lparr>OpenReply_Error := ''not a file: '' @ OpenRequest_Path Rq, OpenReply_Errno := of_int EISDIR\<rparr>)) x
                else if card (dom (X_Pinned x)) \<ge> kMaxPinned then
                  send Y (OpenReply (Reply\<lparr>OpenReply_Error := ''too many open files on this connection, '' @ decimal (card (dom (X_Pinned x))) @ '' already'',
                    OpenReply_Errno := of_int EMFILE\<rparr>)) x
                else if X_Now x \<ge> X_Budget x then
                  send Y (OpenReply (Reply\<lparr>OpenReply_Error := ''too many open files across the daemon, '' @ decimal (X_Budget x) @ '' allowed'',
                    OpenReply_Errno := of_int EMFILE\<rparr>)) x
                else
                  let Flags = (if OpenRequest_Writable Rq then O_RDWR else O_RDONLY) + O_CLOEXEC + O_NONBLOCK;
                      x = call (SysOpen Path Flags 0) (x\<lparr>X_Now := X_Now x + 1\<rparr>)
                  in case y_open Y Path Flags 0 of
                       Inl errno \<Rightarrow>
                         send Y (OpenReply (Reply\<lparr>OpenReply_Errno := of_int errno,
                           OpenReply_Error := y_text Y \<lparr>Code = Generic errno, Context = ''open '' @ Path\<rparr>\<rparr>)) (unpin x)
                     | Inr Fd \<Rightarrow>
                         (case y_call Y (SysFcntl Fd) of
                            Some errno \<Rightarrow>
                              send Y (OpenReply (Reply\<lparr>OpenReply_Errno := of_int errno,
                                OpenReply_Error := y_text Y \<lparr>Code = Generic errno, Context = ''clear O_NONBLOCK''\<rparr>\<rparr>))
                                (unpin (call (SysClose Fd) (call (SysFcntl Fd) x)))
                          | None \<Rightarrow>
                              let H = X_NextHandle x; x = call (SysFcntl Fd) x
                              in send Y (OpenReply (Reply\<lparr>OpenReply_Handle := H, OpenReply_Ok := True\<rparr>))
                                   (x\<lparr>X_NextHandle := H + 1, X_Pinned := (case X_Pinned x H of None \<Rightarrow> (X_Pinned x)(H \<mapsto> Fd) | Some _ \<Rightarrow> X_Pinned x),
                                      X_Now := (case X_Pinned x H of None \<Rightarrow> X_Now x | Some _ \<Rightarrow> X_Now x - 1)\<rparr>)))"

text \<open>\<^verbatim>\<open>erase\<close> destroys the pinned file, which gives its slot of the budget back.\<close>

definition MetaReply_new :: "u64 \<Rightarrow> MetaReply" where
  "MetaReply_new Rid = \<lparr>MetaReply_Id = Rid, MetaReply_Ok = False, MetaReply_Error = [], MetaReply_Target = [], MetaReply_Errno = 0, MetaReply_Attrs = FileAttrs_none\<rparr>"

definition onClose :: "sys \<Rightarrow> CloseRequest \<Rightarrow> ctx \<Rightarrow> unit Result \<times> ctx" where
  "onClose Y Rq x =
     (let Reply = MetaReply_new (CloseRequest_Id Rq)
      in case X_Pinned x (CloseRequest_Handle Rq) of
           Some _ \<Rightarrow> send Y (MetaReply (Reply\<lparr>MetaReply_Ok := True\<rparr>)) (unpin (x\<lparr>X_Pinned := (X_Pinned x)(CloseRequest_Handle Rq := None)\<rparr>))
         | None \<Rightarrow> send Y (MetaReply (Reply\<lparr>MetaReply_Error := ''no such handle''\<rparr>)) x)"

text \<open>The cache's lookup with its calls: always a \<^verbatim>\<open>stat\<close>, and an \<^verbatim>\<open>open\<close> unless a current descriptor is held.\<close>

definition cache_get :: "sys \<Rightarrow> string \<Rightarrow> nat \<Rightarrow> ctx \<Rightarrow> int Result \<times> ctx" where
  "cache_get Y Path Flags x =
     (let (r, C) = fd_get (y_stat Y Path) (y_open Y Path Flags 420) Path Flags (X_Cache x);
          Hit = (case FC_Open (X_Cache x) (fd_key Flags Path) of None \<Rightarrow> False | Some E \<Rightarrow> y_stat Y Path = Some (E_Device E, E_Inode E));
          x = call (SysStat Path) x
      in (r, (if Hit then x else call (SysOpen Path Flags 420) x)\<lparr>X_Cache := C\<rparr>))"

definition heldFor :: "sys \<Rightarrow> u64 \<Rightarrow> string \<Rightarrow> nat \<Rightarrow> ctx \<Rightarrow> int Result \<times> ctx" where
  "heldFor Y Handle Named Flags x =
     (if Handle \<noteq> 0 then
        (case X_Pinned x Handle of
           None \<Rightarrow> (failMessage (''no such handle '' @ decimal (unat Handle)), x)
         | Some Fd \<Rightarrow> (Inr Fd, x))
      else
        (case underRoot (y_fs Y) (X_Root x) Named of
           Inl e \<Rightarrow> (Inl e, x)
         | Inr Path \<Rightarrow>
             cache_get Y Path Flags (if (Flags div O_CREAT) mod 2 = 1 then call (SysCreateDirs (parent_path Path)) x else x)))"

section \<open>Looking\<close>

definition onStat :: "sys \<Rightarrow> StatRequest \<Rightarrow> ctx \<Rightarrow> unit Result \<times> ctx" where
  "onStat Y Rq x =
     (case underRoot (y_fs Y) (X_Root x) (StatRequest_Path Rq) of
        Inl _ \<Rightarrow> send Y (StatReply \<lparr>StatReply_Id = StatRequest_Id Rq, StatReply_Found = False, StatReply_Attrs = FileAttrs_none\<rparr>) x
      | Inr Path \<Rightarrow>
          let ((Found, A), x) = attrsOf Y Path x
          in send Y (StatReply \<lparr>StatReply_Id = StatRequest_Id Rq, StatReply_Found = Found, StatReply_Attrs = A\<rparr>) x)"

definition onList :: "sys \<Rightarrow> ListRequest \<Rightarrow> ctx \<Rightarrow> unit Result \<times> ctx" where
  "onList Y Rq x =
     (let Reply = \<lparr>ListReply_Id = ListRequest_Id Rq, ListReply_Found = False, ListReply_Entries = [], ListReply_Self = FileAttrs_none,
            ListReply_Parent = FileAttrs_none\<rparr>
      in case underRoot (y_fs Y) (X_Root x) (ListRequest_Path Rq) of
           Inl _ \<Rightarrow> send Y (ListReply Reply) x
         | Inr Path \<Rightarrow>
             let ((Found, Es), x) = listDirectory Y Path x;
                 Reply = Reply\<lparr>ListReply_Found := Found, ListReply_Entries := Es\<rparr>
             in if \<not> Found then send Y (ListReply Reply) x
                else
                  let ((Seen, A), x) = attrsOf Y Path x;
                      Reply = Reply\<lparr>ListReply_Self := A, ListReply_Found := Seen\<rparr>
                  in if \<not> Seen then send Y (ListReply Reply) x
                     else if Path = X_Root x then send Y (ListReply (Reply\<lparr>ListReply_Parent := A\<rparr>)) x
                     else
                       let ((Above, B), x) = attrsOf Y (parent_path Path) x
                       in send Y (ListReply (Reply\<lparr>ListReply_Parent := (if Above then B else FileAttrs_none)\<rparr>)) x)"

definition onStatFs :: "sys \<Rightarrow> StatFsRequest \<Rightarrow> ctx \<Rightarrow> unit Result \<times> ctx" where
  "onStatFs Y Rq x =
     (let Reply = \<lparr>StatFsReply_Id = StatFsRequest_Id Rq, StatFsReply_Ok = False, StatFsReply_BlockSize = 0, StatFsReply_Blocks = 0,
            StatFsReply_BlocksFree = 0, StatFsReply_Files = 0, StatFsReply_FilesFree = 0, StatFsReply_Error = []\<rparr>
      in case underRoot (y_fs Y) (X_Root x) (StatFsRequest_Path Rq) of
           Inl e \<Rightarrow> send Y (StatFsReply (Reply\<lparr>StatFsReply_Error := y_text Y e\<rparr>)) x
         | Inr Path \<Rightarrow>
             (case y_statvfs Y Path of
                Inl errno \<Rightarrow>
                  send Y (StatFsReply (Reply\<lparr>StatFsReply_Error := y_text Y \<lparr>Code = Generic errno, Context = ''statvfs''\<rparr>\<rparr>)) (call (SysStatVfs Path) x)
              | Inr (bsize, blocks, bavail, files, ffree) \<Rightarrow>
                  send Y (StatFsReply (Reply\<lparr>StatFsReply_Ok := True, StatFsReply_BlockSize := bsize, StatFsReply_Blocks := blocks,
                    StatFsReply_BlocksFree := bavail, StatFsReply_Files := files, StatFsReply_FilesFree := ffree\<rparr>)) (call (SysStatVfs Path) x)))"

section \<open>Metadata\<close>

definition outcome :: "sys \<Rightarrow> syscall \<Rightarrow> string \<Rightarrow> ctx \<Rightarrow> unit Result \<times> ctx" where
  "outcome Y c What x = ((case y_call Y c of None \<Rightarrow> Inr () | Some errno \<Rightarrow> failErrno errno What), call c x)"

definition applyMeta :: "sys \<Rightarrow> MetaRequest \<Rightarrow> string \<Rightarrow> ctx \<Rightarrow> unit Result \<times> ctx" where
  "applyMeta Y Meta Path x =
     (let Op = MetaRequest_Op Meta
      in if Op = MetaOp_MakeDirectory then
           outcome Y (SysMkdir Path (if MetaRequest_Mode Meta \<noteq> 0 then MetaRequest_Mode Meta else 0x1ED)) ''mkdir'' x
         else if Op = MetaOp_RemoveFile then
           (case outcome Y (SysUnlink Path) ''unlink'' x of
              (Inl e, x) \<Rightarrow> (Inl e, x)
            | (Inr _, x) \<Rightarrow> (Inr (), x\<lparr>X_Cache := fd_forget Path (X_Cache x)\<rparr>))
         else if Op = MetaOp_RemoveDirectory then outcome Y (SysRmdir Path) ''rmdir'' x
         else if Op = MetaOp_Truncate then outcome Y (SysTruncate Path (MetaRequest_Size Meta)) ''truncate'' x
         else if Op = MetaOp_SetMode then outcome Y (SysChmod Path (MetaRequest_Mode Meta)) ''chmod'' x
         else if Op = MetaOp_SetMtime then outcome Y (SysUtimens Path (MetaRequest_Mtime Meta)) ''utimensat'' x
         else if Op = MetaOp_Fsync then (failMessage ''fsync is answered before it reaches here'', x)
         else if Op = MetaOp_Symlink then
           if MetaRequest_Target Meta = [] then (failMessage ''refusing a link to nowhere'', x)
           else outcome Y (SysSymlink (MetaRequest_Target Meta) Path) ''symlink'' x
         else if Op = MetaOp_ReadLink then (failMessage ''readlink returns a target and is handled by the caller'', x)
         else if Op = MetaOp_Rename then (failMessage ''rename needs both paths and is handled by the caller'', x)
         else if Op = MetaOp_HardLink then (failMessage ''a hard link needs both paths and is handled by the caller'', x)
         else (failMessage ''unknown metadata operation'', x))"

definition refused :: "sys \<Rightarrow> Error \<Rightarrow> MetaReply \<Rightarrow> MetaReply" where
  "refused Y Why Reply =
     Reply\<lparr>MetaReply_Error := y_text Y Why, MetaReply_Errno := (case Code Why of Generic v \<Rightarrow> of_int v | Foreign _ \<Rightarrow> of_int EACCES)\<rparr>"

definition settle :: "sys \<Rightarrow> unit Result \<Rightarrow> MetaReply \<Rightarrow> MetaReply" where
  "settle Y r Reply = (case r of Inl e \<Rightarrow> refused Y e Reply | Inr _ \<Rightarrow> Reply\<lparr>MetaReply_Ok := True\<rparr>)"

definition setModeOf :: "sys \<Rightarrow> int \<Rightarrow> u32 \<Rightarrow> ctx \<Rightarrow> unit Result \<times> ctx" where
  "setModeOf Y Fd Mode x = outcome Y (SysFchmod Fd Mode) ''create'' x"

definition made :: "sys \<Rightarrow> string \<Rightarrow> MetaReply \<Rightarrow> ctx \<Rightarrow> MetaReply \<times> ctx" where
  "made Y Path Reply x =
     (if \<not> MetaReply_Ok Reply then (Reply, x)
      else let ((Seen, A), x) = attrsOf Y Path x in (if Seen then Reply\<lparr>MetaReply_Attrs := A\<rparr> else Reply, x))"

definition landed :: "sys \<Rightarrow> int option \<Rightarrow> string \<Rightarrow> MetaReply \<Rightarrow> MetaReply" where
  "landed Y Failed What Reply =
     (case Failed of
        None \<Rightarrow> Reply\<lparr>MetaReply_Ok := True\<rparr>
      | Some errno \<Rightarrow> Reply\<lparr>MetaReply_Errno := of_int errno, MetaReply_Error := y_text Y \<lparr>Code = Generic errno, Context = What\<rparr>\<rparr>)"

definition sendMade :: "sys \<Rightarrow> string \<Rightarrow> MetaReply \<Rightarrow> ctx \<Rightarrow> unit Result \<times> ctx" where
  "sendMade Y Path Reply x = (let (Reply, x) = made Y Path Reply x in send Y (MetaReply Reply) x)"

definition onTruncate :: "sys \<Rightarrow> MetaRequest \<Rightarrow> string \<Rightarrow> MetaReply \<Rightarrow> ctx \<Rightarrow> unit Result \<times> ctx" where
  "onTruncate Y Meta Path Reply x =
     (let Flags = O_WRONLY + O_CLOEXEC + O_NONBLOCK; x = call (SysOpen Path Flags 0) x
      in case y_open Y Path Flags 0 of
           Inr Fd \<Rightarrow>
             let (r, x) = outcome Y (SysFtruncate Fd (MetaRequest_Size Meta)) ''truncate'' x
             in sendMade Y Path (settle Y r Reply) (call (SysClose Fd) x)
         | Inl errno \<Rightarrow>
             if errno \<noteq> EWOULDBLOCK then
               send Y (MetaReply (refused Y \<lparr>Code = Generic errno, Context = ''truncate''\<rparr> Reply)) x
             else
               let (r, x) = outcome Y (SysTruncate Path (MetaRequest_Size Meta)) ''truncate'' x
               in sendMade Y Path (settle Y r Reply) x)"

definition create_mode :: "sys \<Rightarrow> bool \<Rightarrow> int \<Rightarrow> u32 \<Rightarrow> ctx \<Rightarrow> unit Result \<times> ctx" where
  "create_mode Y Keep Fd Wanted x = (if Keep then (Inr (), x) else setModeOf Y Fd Wanted x)"

definition onCreate :: "sys \<Rightarrow> MetaRequest \<Rightarrow> string \<Rightarrow> MetaReply \<Rightarrow> ctx \<Rightarrow> unit Result \<times> ctx" where
  "onCreate Y Meta Path Reply x =
     (let Keep = MetaRequest_Mode Meta = kKeepMode;
          Wanted = (if Keep then 0x1A4 else MetaRequest_Mode Meta AND 0xFFF);
          Only = (if MetaRequest_Exclusive Meta then O_EXCL else O_TRUNC);
          Flags = O_WRONLY + O_CREAT + Only + O_CLOEXEC;
          x = call (SysOpen Path (Flags + O_NONBLOCK) (unat Wanted)) x
      in case y_open Y Path (Flags + O_NONBLOCK) (unat Wanted) of
           Inr Fd \<Rightarrow>
             let (r, x) = create_mode Y Keep Fd Wanted x
             in sendMade Y Path (settle Y r Reply) (call (SysClose Fd) x)
         | Inl errno \<Rightarrow>
             if errno \<noteq> EWOULDBLOCK then
               send Y (MetaReply (refused Y \<lparr>Code = Generic errno, Context = ''create''\<rparr> Reply)) x
             else
               let x = call (SysOpen Path Flags (unat Wanted)) x
               in case y_open Y Path Flags (unat Wanted) of
                    Inl errno \<Rightarrow> sendMade Y Path (settle Y (failErrno errno ''create'') Reply) x
                  | Inr Fd \<Rightarrow>
                      let (r, x) = create_mode Y Keep Fd Wanted x
                      in sendMade Y Path (settle Y r Reply) (call (SysClose Fd) x))"

definition onMeta :: "sys \<Rightarrow> MetaRequest \<Rightarrow> ctx \<Rightarrow> unit Result \<times> ctx" where
  "onMeta Y Meta x =
     (let Reply = MetaReply_new (MetaRequest_Id Meta); Op = MetaRequest_Op Meta
      in if Op = MetaOp_Fsync then
           (case heldFor Y (MetaRequest_Handle Meta) (MetaRequest_Path Meta) O_WRONLY x of
              (Inl e, x) \<Rightarrow> send Y (MetaReply (refused Y e Reply)) x
            | (Inr Fd, x) \<Rightarrow> send Y (MetaReply (settle Y (y_fsync Y) Reply)) (call (SysFsync Fd) x))
         else
           (case underRoot (y_fs Y) (X_Root x) (MetaRequest_Path Meta) of
              Inl e \<Rightarrow> send Y (MetaReply (refused Y e Reply)) x
            | Inr Path \<Rightarrow>
                if Op = MetaOp_HardLink \<or> Op = MetaOp_Rename then
                  (case underRoot (y_fs Y) (X_Root x) (MetaRequest_Target Meta) of
                     Inl e \<Rightarrow> send Y (MetaReply (refused Y e Reply)) x
                   | Inr Target \<Rightarrow>
                       let c = (if Op = MetaOp_HardLink then SysLink Path Target else SysRename Path Target)
                       in sendMade Y Target (landed Y (y_call Y c) (if Op = MetaOp_HardLink then ''link'' else ''rename'') Reply) (call c x))
                else if Op = MetaOp_Truncate then onTruncate Y Meta Path Reply x
                else if Op = MetaOp_Create then onCreate Y Meta Path Reply x
                else if Op = MetaOp_ReadLink then
                  (case y_readlink Y Path of
                     Inl errno \<Rightarrow> send Y (MetaReply (landed Y (Some errno) ''readlink'' Reply)) (call (SysReadLink Path) x)
                   | Inr Target \<Rightarrow> send Y (MetaReply ((landed Y None ''readlink'' Reply)\<lparr>MetaReply_Target := Target\<rparr>)) (call (SysReadLink Path) x))
                else let (r, x) = applyMeta Y Meta Path x in sendMade Y Path (settle Y r Reply) x))"

section \<open>Transfers\<close>

definition TransferReply_new :: "u64 \<Rightarrow> TransferReply" where
  "TransferReply_new Rid = \<lparr>TransferReply_Id = Rid, TransferReply_Length = 0, TransferReply_FileSize = 0, TransferReply_Ok = False,
     TransferReply_Payload = replicate 16 0, TransferReply_Error = []\<rparr>"

definition StreamReply_new :: "u64 \<Rightarrow> StreamReply" where
  "StreamReply_new Rid = \<lparr>StreamReply_Id = Rid, StreamReply_Length = 0, StreamReply_Ok = False, StreamReply_Error = []\<rparr>"

definition refuseTransfer :: "sys \<Rightarrow> TransferReply \<Rightarrow> ctx \<Rightarrow> unit Result \<times> ctx" where
  "refuseTransfer Y Reply x = endSession (TransferReply_Error Reply) (snd (send Y (TransferReply Reply) x))"

definition readInto :: "sys \<Rightarrow> ReadRequest \<Rightarrow> nat \<Rightarrow> TransferReply \<Rightarrow> ctx \<Rightarrow> byte list \<times> TransferReply \<times> ctx" where
  "readInto Y Rd Want Reply x =
     (case heldFor Y (ReadRequest_Handle Rd) (ReadRequest_Path Rd) O_RDONLY x of
        (Inl e, x) \<Rightarrow> ([], Reply\<lparr>TransferReply_Error := y_text Y e\<rparr>, x)
      | (Inr Fd, x) \<Rightarrow>
          let Reply = (case y_fstat Y Fd of None \<Rightarrow> Reply | Some n \<Rightarrow> Reply\<lparr>TransferReply_FileSize := n\<rparr>);
              x = call (SysRead Fd (ReadRequest_Offset Rd) Want) x
          in case y_read Y of
               Inl e \<Rightarrow> ([], Reply\<lparr>TransferReply_Error := y_text Y e\<rparr>, x)
             | Inr Got \<Rightarrow> (Got, Reply\<lparr>TransferReply_Ok := True\<rparr>, x))"

definition onRead :: "'h xxlib \<Rightarrow> sys \<Rightarrow> ReadRequest \<Rightarrow> ctx \<Rightarrow> unit Result \<times> ctx" where
  "onRead H Y Rd x =
     (let Reply = TransferReply_new (ReadRequest_Id Rd)
      in case y_acquire Y of
           None \<Rightarrow> refuseTransfer Y (Reply\<lparr>TransferReply_Error := ''out of registered memory for a transfer page''\<rparr>) x
         | Some Capacity \<Rightarrow>
             let Want = min (unat (ReadRequest_Length Rd)) Capacity;
                 (Got, Reply, x) = readInto Y Rd Want Reply x;
                 Buf = Got @ replicate (Want - length Got) 0;
                 Reply = Reply\<lparr>TransferReply_Length := of_nat (length Got),
                   TransferReply_Payload := Verifier_digest H (Verifier_update H (Verifier_new H (X_Verify x) (X_Agreed x)) Buf)\<rparr>
             in case send Y (TransferReply Reply) x of
                  (Inl e, x) \<Rightarrow> (Inl e, x)
                | (Inr _, x) \<Rightarrow>
                    if Want = 0 then (Inr (), x)
                    else
                      let x = x\<lparr>X_Posted := X_Posted x @ [(ReadRequest_Id Rd, Buf)]\<rparr>
                      in case y_post Y of Inl e \<Rightarrow> endSession (y_text Y e) x | Inr _ \<Rightarrow> (Inr (), x))"

definition onWrite :: "'h xxlib \<Rightarrow> sys \<Rightarrow> WriteRequest \<Rightarrow> ctx \<Rightarrow> unit Result \<times> ctx" where
  "onWrite H Y Wr x =
     (let Reply = TransferReply_new (WriteRequest_Id Wr);
          failed = (\<lambda>t. send Y (TransferReply (Reply\<lparr>TransferReply_Error := t\<rparr>)))
      in case y_acquire Y of
           None \<Rightarrow> refuseTransfer Y (Reply\<lparr>TransferReply_Error := ''out of registered memory for a transfer page''\<rparr>) x
         | Some Capacity \<Rightarrow>
             if unat (WriteRequest_Length Wr) > Capacity then
               refuseTransfer Y (Reply\<lparr>TransferReply_Error :=
                 ''write of '' @ decimal (unat (WriteRequest_Length Wr)) @ '' bytes exceeds the page size''\<rparr>) x
             else
               (case y_payload Y of
                  Inl e \<Rightarrow> endSession (y_text Y e) x
                | Inr Buf \<Rightarrow>
                    if \<not> Verifier_matches H (Verifier_update H (Verifier_new H (X_Verify x) (X_Agreed x)) Buf) (WriteRequest_Payload Wr)
                    then failed ''page hash mismatch'' x
                    else
                      let Aligned = WriteRequest_Offset Wr mod kDirectAlignment = 0 \<and> unat (WriteRequest_Length Wr) mod 4096 = 0 \<and> y_aligned Y
                      in case heldFor Y (WriteRequest_Handle Wr) (WriteRequest_Path Wr) (O_WRONLY + O_CREAT + (if Aligned then O_DIRECT else 0)) x of
                           (Inl e, x) \<Rightarrow> failed (y_text Y e) x
                         | (Inr Fd, x) \<Rightarrow>
                             if WriteRequest_Truncate Wr \<and> y_call Y (SysFtruncate Fd 0) \<noteq> None
                             then failed (''cannot truncate '' @ WriteRequest_Path Wr) (call (SysFtruncate Fd 0) x)
                             else
                               let x = (if WriteRequest_Truncate Wr then call (SysFtruncate Fd 0) x else x);
                                   x = call (SysWrite Fd (WriteRequest_Offset Wr) Buf) x
                               in case y_write Y of
                                    Inl e \<Rightarrow> failed (y_text Y e) x
                                  | Inr _ \<Rightarrow>
                                      send Y (TransferReply (Reply\<lparr>TransferReply_Ok := True, TransferReply_Length := WriteRequest_Length Wr\<rparr>)) x))"

definition onFetch :: "sys \<Rightarrow> FetchRequest \<Rightarrow> ctx \<Rightarrow> unit Result \<times> ctx" where
  "onFetch Y Rq x =
     (let Reply = StreamReply_new (FetchRequest_Id Rq)
      in case heldFor Y (FetchRequest_Handle Rq) (FetchRequest_Path Rq) O_RDONLY x of
           (Inl e, x) \<Rightarrow> send Y (StreamReply (Reply\<lparr>StreamReply_Error := y_text Y e\<rparr>)) x
         | (Inr Fd, x) \<Rightarrow>
             (case y_reader Y of
                Inl e \<Rightarrow> send Y (StreamReply (Reply\<lparr>StreamReply_Error := y_text Y e\<rparr>)) x
              | Inr Size \<Rightarrow>
                  if FetchRequest_Offset Rq > Size then send Y (StreamReply (Reply\<lparr>StreamReply_Ok := True\<rparr>)) x
                  else
                    let Length = min (FetchRequest_Length Rq) (Size - FetchRequest_Offset Rq)
                    in case send Y (StreamReply (Reply\<lparr>StreamReply_Ok := True, StreamReply_Length := Length\<rparr>)) x of
                         (Inl e, x) \<Rightarrow> (Inl e, x)
                       | (Inr _, x) \<Rightarrow>
                           if Length = 0 then (Inr (), x)
                           else
                             let (Sent, Whole, LeftUnsent) = y_tx Y;
                                 Digest = \<lparr>StreamDigest_Id = FetchRequest_Id Rq,
                                   StreamDigest_Whole = (if is_ok Sent then Whole else replicate 16 0), StreamDigest_Ok = is_ok Sent,
                                   StreamDigest_Error = (case Sent of Inl e \<Rightarrow> y_text Y e | Inr _ \<Rightarrow> [])\<rparr>
                             in case send Y (StreamDigest Digest) x of
                                  (Inl e, x) \<Rightarrow> (Inl e, x)
                                | (Inr _, x) \<Rightarrow>
                                    (case Sent of
                                       Inl e \<Rightarrow> if LeftUnsent then endSession (y_text Y e) x else (Inr (), x)
                                     | Inr _ \<Rightarrow> (Inr (), x))))"

text \<open>What follows the ready reply of a store, up to the reply that ends it.\<close>

definition landStore :: "sys \<Rightarrow> StoreRequest \<Rightarrow> unit Result \<Rightarrow> ctx \<Rightarrow> unit Result \<times> ctx" where
  "landStore Y St Commit x =
     (let Reply = StreamReply_new (StoreRequest_Id St);
          failed = (\<lambda>t. send Y (StreamReply (Reply\<lparr>StreamReply_Error := t\<rparr>)))
      in case send Y (StreamReply (Reply\<lparr>StreamReply_Ok := True\<rparr>)) x of
           (Inl e, x) \<Rightarrow> (Inl e, x)
         | (Inr _, x) \<Rightarrow>
             (case fst (y_rx Y) of
                Inl e \<Rightarrow> (Inl e, snd (failed (y_text Y e) x))
              | Inr _ \<Rightarrow>
                  (case y_digest Y of
                     Inl e \<Rightarrow> (Inl e, x)
                   | Inr D \<Rightarrow>
                       if \<not> StreamDigest_Ok D then failed (StreamDigest_Error D) x
                       else if \<not> snd (y_rx Y) (StreamDigest_Whole D) then failed ''whole-transfer hash mismatch'' x
                       else
                         (case Commit of
                            Inl e \<Rightarrow> failed (y_text Y e) x
                          | Inr _ \<Rightarrow>
                              send Y (StreamReply (Reply\<lparr>StreamReply_Ok := True, StreamReply_Length := StoreRequest_Length St\<rparr>)) x))))"

definition storeAtOffset :: "sys \<Rightarrow> StoreRequest \<Rightarrow> ctx \<Rightarrow> unit Result \<times> ctx" where
  "storeAtOffset Y St x =
     (case heldFor Y (StoreRequest_Handle St) (StoreRequest_Path St) (O_WRONLY + O_CREAT) x of
        (Inl e, x) \<Rightarrow> send Y (StreamReply ((StreamReply_new (StoreRequest_Id St))\<lparr>StreamReply_Error := y_text Y e\<rparr>)) x
      | (Inr _, x) \<Rightarrow> landStore Y St (Inr ()) x)"

definition onStore :: "sys \<Rightarrow> StoreRequest \<Rightarrow> ctx \<Rightarrow> unit Result \<times> ctx" where
  "onStore Y St x =
     (let Reply = StreamReply_new (StoreRequest_Id St);
          failed = (\<lambda>t. send Y (StreamReply (Reply\<lparr>StreamReply_Error := t\<rparr>)))
      in case underRoot (y_fs Y) (X_Root x) (StoreRequest_Path St) of
           Inl e \<Rightarrow> failed (y_text Y e) x
         | Inr Path \<Rightarrow>
             if StoreRequest_Offset St \<noteq> 0 \<and> StoreRequest_Truncate St
             then failed ''a truncating store replaces the whole file and must start at offset 0'' x
             else if StoreRequest_Handle St \<noteq> 0 then
               (case heldFor Y (StoreRequest_Handle St) (StoreRequest_Path St) O_WRONLY x of
                  (Inl e, x) \<Rightarrow> failed (y_text Y e) x
                | (Inr Fd, x) \<Rightarrow>
                    if StoreRequest_Truncate St then
                      let x = call (SysFtruncate Fd 0) x
                      in case y_call Y (SysFtruncate Fd 0) of
                           Some errno \<Rightarrow> failed (y_text Y \<lparr>Code = Generic errno, Context = ''ftruncate''\<rparr>) x
                         | None \<Rightarrow> storeAtOffset Y St x
                    else storeAtOffset Y St x)
             else if \<not> StoreRequest_Truncate St then storeAtOffset Y St x
             else
               let x = call (SysWriter Path) (call (SysCreateDirs (parent_path Path)) x)
               in case y_writer Y of
                    Inl e \<Rightarrow> failed (y_text Y e) x
                  | Inr _ \<Rightarrow> landStore Y St (y_commit Y) x)"

definition dispatch :: "'h xxlib \<Rightarrow> sys \<Rightarrow> Message \<Rightarrow> ctx \<Rightarrow> unit Result \<times> ctx" where
  "dispatch H Y M x =
     (case M of
        StatRequest S \<Rightarrow> onStat Y S x
      | ListRequest L \<Rightarrow> onList Y L x
      | ReadRequest Rd \<Rightarrow> onRead H Y Rd x
      | WriteRequest Wr \<Rightarrow> onWrite H Y Wr x
      | FetchRequest F \<Rightarrow> onFetch Y F x
      | MetaRequest Meta \<Rightarrow> onMeta Y Meta x
      | StatFsRequest Fs \<Rightarrow> onStatFs Y Fs x
      | StoreRequest St \<Rightarrow> onStore Y St x
      | OpenRequest Op \<Rightarrow> onOpen Y Op x
      | CloseRequest Cl \<Rightarrow> onClose Y Cl x
      | _ \<Rightarrow> (failMessage (''unexpected message '' @ typeName (typeOf M)), x))"

section \<open>What a handler does to its context\<close>

fun call_paths :: "syscall \<Rightarrow> string list" where
  "call_paths (SysLstat p) = [p]"
| "call_paths (SysStat p) = [p]"
| "call_paths (SysOpen p _ _) = [p]"
| "call_paths (SysReadDir p) = [p]"
| "call_paths (SysCreateDirs p) = [p]"
| "call_paths (SysMkdir p _) = [p]"
| "call_paths (SysUnlink p) = [p]"
| "call_paths (SysRmdir p) = [p]"
| "call_paths (SysTruncate p _) = [p]"
| "call_paths (SysChmod p _) = [p]"
| "call_paths (SysUtimens p _) = [p]"
| "call_paths (SysSymlink _ p) = [p]"
| "call_paths (SysLink p q) = [p, q]"
| "call_paths (SysRename p q) = [p, q]"
| "call_paths (SysReadLink p) = [p]"
| "call_paths (SysStatVfs p) = [p]"
| "call_paths (SysWriter p) = [p]"
| "call_paths _ = []"

fun looks :: "syscall \<Rightarrow> bool" where
  "looks (SysLstat _) = True"
| "looks (SysCreateDirs _) = True"
| "looks _ = False"

definition accepted :: "sys \<Rightarrow> string \<Rightarrow> string \<Rightarrow> bool" where
  "accepted Y Root p \<longleftrightarrow> (\<exists>Name. underRoot (y_fs Y) Root Name = Inr p)"

definition good_call :: "sys \<Rightarrow> string \<Rightarrow> syscall \<Rightarrow> bool" where
  "good_call Y Root c \<longleftrightarrow> (\<forall>p \<in> set (call_paths c). lex_under Root p \<and> (accepted Y Root p \<or> looks c))"

fun reply_id :: "Message \<Rightarrow> u64 option" where
  "reply_id (StatReply R) = Some (StatReply_Id R)"
| "reply_id (ListReply R) = Some (ListReply_Id R)"
| "reply_id (OpenReply R) = Some (OpenReply_Id R)"
| "reply_id (TransferReply R) = Some (TransferReply_Id R)"
| "reply_id (StreamReply R) = Some (StreamReply_Id R)"
| "reply_id (StreamDigest R) = Some (StreamDigest_Id R)"
| "reply_id (MetaReply R) = Some (MetaReply_Id R)"
| "reply_id (StatFsReply R) = Some (StatFsReply_Id R)"
| "reply_id _ = None"

text \<open>
  The effect of serving the request \<open>Rid\<close>: calls on good paths only and messages under its id
  only; and, for all but the opening and closing of handles, nothing pinned or unpinned.
\<close>

definition served :: "sys \<Rightarrow> u64 \<Rightarrow> ctx \<Rightarrow> ctx \<Rightarrow> bool" where
  "served Y Rid x y \<longleftrightarrow> X_Root y = X_Root x \<and> X_Budget y = X_Budget x \<and>
     (\<exists>cs. X_Calls y = X_Calls x @ cs \<and> (\<forall>c \<in> set cs. good_call Y (X_Root x) c)) \<and>
     (\<exists>ms. X_Sent y = X_Sent x @ ms \<and> (\<forall>m \<in> set ms. reply_id m = Some Rid))"

definition eff :: "sys \<Rightarrow> u64 \<Rightarrow> ctx \<Rightarrow> ctx \<Rightarrow> bool" where
  "eff Y Rid x y \<longleftrightarrow> served Y Rid x y \<and> X_Pinned y = X_Pinned x \<and> X_Now y = X_Now x"

definition pins_kept :: "ctx \<Rightarrow> ctx \<Rightarrow> bool" where
  "pins_kept x y \<longleftrightarrow> finite (dom (X_Pinned y)) \<and> X_Now y + card (dom (X_Pinned x)) = X_Now x + card (dom (X_Pinned y)) \<and>
     (X_Now x \<le> X_Budget x \<longrightarrow> X_Now y \<le> X_Budget x)"

lemma eff_refl [simp, intro]: "eff Y Rid x x"
  by (simp add: eff_def served_def)

lemma accepted_call:
  "accepted Y Root p \<Longrightarrow> set (call_paths c) \<subseteq> {p} \<Longrightarrow> good_call Y Root c"
  by (auto simp: good_call_def accepted_def dest: underRoot_lex)

lemma eff_call: "eff Y Rid x y \<Longrightarrow> good_call Y (X_Root x) c \<Longrightarrow> eff Y Rid x (call c y)"
  by (auto simp: eff_def served_def call_def)

lemma eff_send: "eff Y Rid x y \<Longrightarrow> reply_id M = Some Rid \<Longrightarrow> eff Y Rid x (snd (send Y M y))"
  by (auto simp: eff_def served_def send_def)

lemma eff_end: "eff Y Rid x y \<Longrightarrow> eff Y Rid x (snd (endSession w y))"
  by (auto simp: eff_def served_def endSession_def)

lemma eff_cache: "eff Y Rid x y \<Longrightarrow> eff Y Rid x (y\<lparr>X_Cache := C\<rparr>)"
  by (auto simp: eff_def served_def)

lemma eff_posted: "eff Y Rid x y \<Longrightarrow> eff Y Rid x (y\<lparr>X_Posted := C\<rparr>)"
  by (auto simp: eff_def served_def)

lemma served_call: "served Y Rid x y \<Longrightarrow> good_call Y (X_Root x) c \<Longrightarrow> served Y Rid x (call c y)"
  and served_send: "served Y Rid x y \<Longrightarrow> reply_id M = Some Rid \<Longrightarrow> served Y Rid x (snd (send Y M y))"
  and served_pin: "served Y Rid x y \<Longrightarrow> served Y Rid x (y\<lparr>X_NextHandle := h, X_Pinned := P, X_Now := n\<rparr>)"
  by (auto simp: served_def call_def send_def)

lemma eff_attrs:
  assumes "eff Y Rid x y" and "lex_under (X_Root x) p"
  shows "eff Y Rid x (snd (attrsOf Y p y))"
proof -
  have "snd (attrsOf Y p y) = call (SysLstat p) y" by (simp add: attrsOf_def split: option.split)
  then show ?thesis using eff_call [OF assms(1)] assms(2) by (simp add: good_call_def)
qed

lemma eff_entries:
  assumes "eff Y Rid x y" and "lex_under (X_Root x) Dir" and "\<forall>n \<in> set ns. plain_name n"
  shows "eff Y Rid x (snd (list_entries Y Dir ns y))"
  using assms
proof (induction ns arbitrary: y)
  case (Cons n ns)
  have "eff Y Rid x (snd (attrsOf Y (path_append Dir n) y))" using Cons.prems by (simp add: eff_attrs entry_lex)
  then have "eff Y Rid x (snd (list_entries Y Dir ns (snd (attrsOf Y (path_append Dir n) y))))" using Cons by simp
  then show ?case by (simp add: Let_def case_prod_beta)
qed simp

lemma eff_list:
  assumes "eff Y Rid x y" and "accepted Y (X_Root x) Dir" and "\<forall>d ns. y_readdir Y d = Some ns \<longrightarrow> (\<forall>n \<in> set ns. plain_name n)"
  shows "eff Y Rid x (snd (listDirectory Y Dir y))"
proof -
  have "eff Y Rid x (call (SysReadDir Dir) y)" using assms(1,2) by (simp add: eff_call accepted_call)
  moreover have "lex_under (X_Root x) Dir" using assms(2) by (auto simp: accepted_def underRoot_lex)
  ultimately show ?thesis using assms(3) eff_entries by (auto simp: listDirectory_def Let_def case_prod_beta split: option.split)
qed

lemma eff_held:
  assumes "eff Y Rid x y"
  shows "eff Y Rid x (snd (heldFor Y h n f y))"
proof -
  have r: "X_Root y = X_Root x" using assms by (simp add: eff_def served_def)
  have c: "eff Y Rid x (snd (cache_get Y p f z))" if "eff Y Rid x z" "accepted Y (X_Root x) p" for p z
    using that by (auto simp: cache_get_def Let_def case_prod_beta intro!: eff_cache eff_call accepted_call)
  have d: "good_call Y (X_Root x) (SysCreateDirs (parent_path p))" if "underRoot (y_fs Y) (X_Root x) n = Inr p" for p
    using parent_lex [OF that] by (simp add: good_call_def)
  show ?thesis
    using assms r by (auto simp: heldFor_def accepted_def intro!: c eff_call d split: option.split sum.split)
qed

lemmas eff_rules = eff_send eff_end eff_cache eff_posted eff_held eff_call

section \<open>Every handler\<close>

lemma accepted_lex: "accepted Y Root p \<Longrightarrow> lex_under Root p"
  by (auto simp: accepted_def underRoot_lex)

lemma underRoot_ok: "underRoot (y_fs Y) Root n = Inr p \<Longrightarrow> accepted Y Root p"
  by (auto simp: accepted_def)

lemma eff_root: "eff Y Rid x y \<Longrightarrow> X_Root y = X_Root x"
  by (simp add: eff_def served_def)

lemma good_calls:
  assumes "accepted Y Root p"
  shows "good_call Y Root (SysStat p)" "good_call Y Root (SysOpen p f m)" "good_call Y Root (SysMkdir p u)" "good_call Y Root (SysUnlink p)"
    "good_call Y Root (SysRmdir p)" "good_call Y Root (SysTruncate p z)" "good_call Y Root (SysChmod p u)" "good_call Y Root (SysUtimens p z)"
    "good_call Y Root (SysSymlink t p)" "good_call Y Root (SysReadLink p)" "good_call Y Root (SysStatVfs p)" "good_call Y Root (SysWriter p)"
  using assms accepted_lex [OF assms] by (simp_all add: good_call_def)

lemma good_fd_calls [simp]:
  "good_call Y Root (SysFcntl fd)" "good_call Y Root (SysFtruncate fd z)" "good_call Y Root (SysFchmod fd u)" "good_call Y Root (SysFsync fd)"
  "good_call Y Root (SysClose fd)" "good_call Y Root (SysRead fd z n)" "good_call Y Root (SysWrite fd z bs)"
  by (simp_all add: good_call_def)

lemma onStat_eff: "eff Y (StatRequest_Id Rq) x (snd (onStat Y Rq x))"
  by (auto simp: onStat_def Let_def case_prod_beta split: sum.split intro!: eff_send eff_attrs intro: underRoot_lex)

lemma attrs_root [simp]: "X_Root (snd (attrsOf Y p x)) = X_Root x"
  by (auto simp: attrsOf_def call_def split: option.split)

lemma onList_eff:
  assumes "\<forall>d ns. y_readdir Y d = Some ns \<longrightarrow> (\<forall>n \<in> set ns. plain_name n)"
  shows "eff Y (ListRequest_Id Rq) x (snd (onList Y Rq x))"
proof (cases "underRoot (y_fs Y) (X_Root x) (ListRequest_Path Rq)")
  case (Inl e)
  then show ?thesis by (simp add: onList_def Let_def eff_send)
next
  case (Inr Path)
  let ?x1 = "snd (listDirectory Y Path x)"
  let ?x2 = "snd (attrsOf Y Path ?x1)"
  let ?x3 = "snd (attrsOf Y (parent_path Path) ?x2)"
  have 1: "eff Y (ListRequest_Id Rq) x ?x1" by (rule eff_list [OF eff_refl underRoot_ok [OF Inr] assms])
  have 2: "eff Y (ListRequest_Id Rq) x ?x2" by (rule eff_attrs [OF 1 underRoot_lex [OF Inr]])
  have 3: "eff Y (ListRequest_Id Rq) x ?x3" by (rule eff_attrs [OF 2 parent_lex [OF Inr]])
  show ?thesis
    unfolding onList_def Let_def case_prod_beta Inr sum.case
    by (simp add: eff_send [OF 1] eff_send [OF 2] eff_send [OF 3])
qed

lemma onStatFs_eff: "eff Y (StatFsRequest_Id Rq) x (snd (onStatFs Y Rq x))"
  by (simp add: onStatFs_def Let_def case_prod_beta eff_send eff_call good_calls underRoot_ok split: sum.split)

lemma eff_outcome: "eff Y Rid x y \<Longrightarrow> good_call Y (X_Root x) c \<Longrightarrow> eff Y Rid x (snd (outcome Y c w y))"
  by (simp add: outcome_def eff_call)

lemma eff_applyMeta:
  assumes "eff Y Rid x y" and "accepted Y (X_Root x) Path"
  shows "eff Y Rid x (snd (applyMeta Y Meta Path y))"
  using assms by (simp add: applyMeta_def Let_def case_prod_beta eff_outcome eff_cache good_calls split: sum.split)

lemma meta_ids [simp]:
  "MetaReply_Id (MetaReply_new Rid) = Rid" "MetaReply_Id (refused Y e R) = MetaReply_Id R" "MetaReply_Id (settle Y r R) = MetaReply_Id R"
  "MetaReply_Id (fst (made Y p R x)) = MetaReply_Id R" "MetaReply_Id (landed Y f w R) = MetaReply_Id R"
  by (auto simp: MetaReply_new_def refused_def settle_def made_def landed_def Let_def case_prod_beta split: sum.split option.split)

lemma eff_sendMade:
  assumes "eff Y Rid x y" and "accepted Y (X_Root x) Path" and "MetaReply_Id R = Rid"
  shows "eff Y Rid x (snd (sendMade Y Path R y))"
proof -
  have "eff Y Rid x (snd (made Y Path R y))"
    using assms(1,2) by (auto simp: made_def Let_def case_prod_beta intro!: eff_attrs accepted_lex)
  then show ?thesis using assms(3) by (auto simp: sendMade_def Let_def case_prod_beta intro!: eff_send)
qed

lemma eff_onTruncate:
  assumes "eff Y Rid x y" and "accepted Y (X_Root x) Path" and "MetaReply_Id R = Rid"
  shows "eff Y Rid x (snd (onTruncate Y Meta Path R y))"
  using assms by (simp add: onTruncate_def Let_def case_prod_beta eff_sendMade eff_send eff_call eff_outcome good_calls split: sum.split)

lemma eff_create_mode: "eff Y Rid x y \<Longrightarrow> eff Y Rid x (snd (create_mode Y k fd w y))"
  by (simp add: create_mode_def setModeOf_def eff_outcome)

lemma eff_onCreate:
  assumes "eff Y Rid x y" and "accepted Y (X_Root x) Path" and "MetaReply_Id R = Rid"
  shows "eff Y Rid x (snd (onCreate Y Meta Path R y))"
  using assms by (simp add: onCreate_def Let_def case_prod_beta eff_sendMade eff_send eff_call eff_create_mode good_calls split: sum.split)

lemma good_two: "accepted Y Root p \<Longrightarrow> accepted Y Root q \<Longrightarrow> good_call Y Root (SysLink p q) \<and> good_call Y Root (SysRename p q)"
  using accepted_lex by (simp add: good_call_def)

lemma onMeta_eff: "eff Y (MetaRequest_Id Meta) x (snd (onMeta Y Meta x))"
proof (cases "MetaRequest_Op Meta = MetaOp_Fsync")
  case True
  have "eff Y (MetaRequest_Id Meta) x (snd (heldFor Y (MetaRequest_Handle Meta) (MetaRequest_Path Meta) O_WRONLY x))" by (rule eff_held) simp
  then show ?thesis using True by (simp add: onMeta_def Let_def case_prod_beta eff_send eff_call split: sum.split)
next
  case False
  then show ?thesis
    by (simp add: onMeta_def Let_def case_prod_beta eff_send eff_call eff_sendMade eff_onTruncate eff_onCreate eff_applyMeta
        good_calls good_two underRoot_ok split: sum.split)
qed

lemma transfer_ids [simp]: "TransferReply_Id (TransferReply_new Rid) = Rid" "StreamReply_Id (StreamReply_new Rid) = Rid"
  by (simp_all add: TransferReply_new_def StreamReply_new_def)

lemma eff_refuse: "eff Y Rid x y \<Longrightarrow> TransferReply_Id R = Rid \<Longrightarrow> eff Y Rid x (snd (refuseTransfer Y R y))"
  by (simp add: refuseTransfer_def eff_end eff_send)

lemma readInto_eff:
  assumes "eff Y Rid x y"
  shows "eff Y Rid x (snd (snd (readInto Y Rd W R y)))" and "TransferReply_Id (fst (snd (readInto Y Rd W R y))) = TransferReply_Id R"
proof -
  have "eff Y Rid x (snd (heldFor Y (ReadRequest_Handle Rd) (ReadRequest_Path Rd) O_RDONLY y))" by (rule eff_held [OF assms])
  then show "eff Y Rid x (snd (snd (readInto Y Rd W R y)))"
    by (simp add: readInto_def Let_def case_prod_beta eff_call split: sum.split)
  show "TransferReply_Id (fst (snd (readInto Y Rd W R y))) = TransferReply_Id R"
    by (simp add: readInto_def Let_def case_prod_beta split: sum.split option.split)
qed

lemma onRead_eff: "eff Y (ReadRequest_Id Rd) x (snd (onRead H Y Rd x))"
proof (cases "y_acquire Y")
  case None
  then show ?thesis by (simp add: onRead_def Let_def eff_refuse)
next
  case (Some Cap)
  define Want where "Want = min (unat (ReadRequest_Length Rd)) Cap"
  obtain Got R x1 where ri: "readInto Y Rd Want (TransferReply_new (ReadRequest_Id Rd)) x = (Got, R, x1)" by (metis prod_cases3)
  have 1: "eff Y (ReadRequest_Id Rd) x x1" "TransferReply_Id R = ReadRequest_Id Rd"
    using readInto_eff [OF eff_refl [of Y "ReadRequest_Id Rd" x], of Rd Want "TransferReply_new (ReadRequest_Id Rd)"] ri by simp_all
  define M where "M = TransferReply (R\<lparr>TransferReply_Length := of_nat (length Got),
    TransferReply_Payload := Verifier_digest H (Verifier_update H (Verifier_new H (X_Verify x1) (X_Agreed x1)) (Got @ replicate (Want - length Got) 0))\<rparr>)"
  obtain r x2 where se: "send Y M x1 = (r, x2)" by fastforce
  have 2: "eff Y (ReadRequest_Id Rd) x x2" using eff_send [OF 1(1), of M] 1(2) se by (simp add: M_def)
  have "onRead H Y Rd x = (case r of Inl e \<Rightarrow> (Inl e, x2) | Inr _ \<Rightarrow> if Want = 0 then (Inr (), x2)
      else let x = x2\<lparr>X_Posted := X_Posted x2 @ [(ReadRequest_Id Rd, Got @ replicate (Want - length Got) 0)]\<rparr>
        in case y_post Y of Inl e \<Rightarrow> endSession (y_text Y e) x | Inr _ \<Rightarrow> (Inr (), x))"
    unfolding onRead_def Some option.case Let_def Want_def [symmetric] ri prod.case M_def [symmetric] se ..
  then show ?thesis using 2 by (simp add: Let_def eff_end eff_posted split: sum.split)
qed

lemma onWrite_eff: "eff Y (WriteRequest_Id Wr) x (snd (onWrite H Y Wr x))"
  by (simp add: onWrite_def Let_def case_prod_beta eff_refuse eff_send eff_end eff_call eff_held split: option.split sum.split)

lemma onFetch_eff: "eff Y (FetchRequest_Id Rq) x (snd (onFetch Y Rq x))"
  by (simp add: onFetch_def Let_def case_prod_beta eff_send eff_end eff_held split: sum.split)

lemma eff_landStore: "eff Y (StoreRequest_Id St) x y \<Longrightarrow> eff Y (StoreRequest_Id St) x (snd (landStore Y St C y))"
  by (simp add: landStore_def Let_def case_prod_beta eff_send split: sum.split)

lemma eff_storeAtOffset: "eff Y (StoreRequest_Id St) x y \<Longrightarrow> eff Y (StoreRequest_Id St) x (snd (storeAtOffset Y St y))"
  by (simp add: storeAtOffset_def Let_def case_prod_beta eff_send eff_landStore eff_held split: sum.split)

lemma onStore_eff: "eff Y (StoreRequest_Id St) x (snd (onStore Y St x))"
proof (cases "underRoot (y_fs Y) (X_Root x) (StoreRequest_Path St)")
  case (Inl e)
  then show ?thesis by (simp add: onStore_def Let_def eff_send)
next
  case (Inr Path)
  have "good_call Y (X_Root x) (SysCreateDirs (parent_path Path))" using parent_lex [OF Inr] by (simp add: good_call_def)
  moreover have "good_call Y (X_Root x) (SysWriter Path)" using underRoot_ok [OF Inr] by (simp add: good_calls)
  ultimately show ?thesis
    using Inr by (simp add: onStore_def Let_def case_prod_beta eff_send eff_call eff_held eff_storeAtOffset eff_landStore split: sum.split option.split)
qed

lemma eff_pins: "eff Y Rid x y \<Longrightarrow> served Y Rid x y \<and> pins_kept x y"
  by (simp add: eff_def pins_kept_def served_def)

lemma onClose_served:
  "served Y (CloseRequest_Id Rq) x (snd (onClose Y Rq x)) \<and> (card (dom (X_Pinned x)) \<le> X_Now x \<longrightarrow> pins_kept x (snd (onClose Y Rq x)))"
proof (cases "X_Pinned x (CloseRequest_Handle Rq)")
  case None
  then have "eff Y (CloseRequest_Id Rq) x (snd (onClose Y Rq x))" by (simp add: onClose_def Let_def eff_send)
  then show ?thesis using eff_pins by blast
next
  case (Some fd)
  then have "card (dom (X_Pinned x)) > 0" "CloseRequest_Handle Rq \<in> dom (X_Pinned x)" by (auto simp: card_gt_0_iff)
  then show ?thesis
    using Some by (auto simp: onClose_def Let_def served_def pins_kept_def send_def unpin_def card_Diff_singleton)
qed

lemma onOpen_served:
  "served Y (OpenRequest_Id Rq) x (snd (onOpen Y Rq x)) \<and> pins_kept x (snd (onOpen Y Rq x))"
proof (cases "underRoot (y_fs Y) (X_Root x) (OpenRequest_Path Rq)")
  case (Inl e)
  then show ?thesis by (intro eff_pins) (simp_all add: onOpen_def Let_def eff_send)
next
  case (Inr Path)
  obtain Found A x1 where at: "attrsOf Y Path x = ((Found, A), x1)" by (metis prod.collapse)
  have e1: "eff Y (OpenRequest_Id Rq) x x1" using eff_attrs [OF eff_refl underRoot_lex [OF Inr]] at by (metis snd_conv)
  have same: "X_Pinned x1 = X_Pinned x" "X_Now x1 = X_Now x" "X_Budget x1 = X_Budget x" using e1 by (simp_all add: eff_def served_def)
  note ok = good_calls(2) [OF underRoot_ok [OF Inr]]
  show ?thesis
  proof (cases "\<not> Found \<or> FileAttrs_Directory A \<or> card (dom (X_Pinned x1)) \<ge> kMaxPinned \<or> X_Now x1 \<ge> X_Budget x1")
    case True
    then show ?thesis using Inr at e1 by (intro eff_pins) (auto simp: onOpen_def Let_def intro!: eff_send)
  next
    case False
    define Flags where "Flags = (if OpenRequest_Writable Rq then O_RDWR else O_RDONLY) + O_CLOEXEC + O_NONBLOCK"
    define x2 where "x2 = call (SysOpen Path Flags 0) (x1\<lparr>X_Now := Suc (X_Now x1)\<rparr>)"
    have u: "unpin x2 = call (SysOpen Path Flags 0) x1" "X_Now x2 = X_Now x1 + 1" "X_Pinned x2 = X_Pinned x1"
      by (cases x1; simp add: x2_def unpin_def call_def)+
    have s1: "served Y (OpenRequest_Id Rq) x x1" using e1 by (simp add: eff_def)
    have s2: "served Y (OpenRequest_Id Rq) x x2"
      using served_call [OF served_pin [OF s1, where P = "X_Pinned x1" and h = "X_NextHandle x1" and n = "Suc (X_Now x1)"] ok, of Flags 0] by (simp add: x2_def)
    show ?thesis
    proof (cases "y_open Y Path Flags 0")
      case (Inl errno)
      have "eff Y (OpenRequest_Id Rq) x (unpin x2)" using e1 ok by (simp add: u eff_call)
      then show ?thesis using Inr at False Inl
        by (intro eff_pins) (simp_all add: onOpen_def Let_def eff_send flip: Flags_def x2_def)
    next
      case (Inr Fd)
      show ?thesis
      proof (cases "y_call Y (SysFcntl Fd)")
        case (Some errno)
        have "unpin (call (SysClose Fd) (call (SysFcntl Fd) x2)) = call (SysClose Fd) (call (SysFcntl Fd) (unpin x2))" by (simp add: unpin_def call_def)
        then have "eff Y (OpenRequest_Id Rq) x (unpin (call (SysClose Fd) (call (SysFcntl Fd) x2)))" using e1 ok by (simp add: u eff_call)
        then show ?thesis using \<open>underRoot _ _ _ = Inr Path\<close> at False Inr Some
          by (intro eff_pins) (simp_all add: onOpen_def Let_def eff_send flip: Flags_def x2_def)
      next
        case None
        let ?x3 = "call (SysFcntl Fd) x2"
        let ?h = "X_NextHandle x2"
        let ?P = "case X_Pinned ?x3 ?h of None \<Rightarrow> (X_Pinned ?x3)(?h \<mapsto> Fd) | Some _ \<Rightarrow> X_Pinned ?x3"
        let ?n = "case X_Pinned ?x3 ?h of None \<Rightarrow> X_Now ?x3 | Some _ \<Rightarrow> X_Now ?x3 - 1"
        let ?x4 = "?x3\<lparr>X_NextHandle := ?h + 1, X_Pinned := ?P, X_Now := ?n\<rparr>"
        let ?M = "OpenReply \<lparr>OpenReply_Id = OpenRequest_Id Rq, OpenReply_Ok = True, OpenReply_Found = True, OpenReply_Handle = ?h,
          OpenReply_Attrs = A, OpenReply_Error = [], OpenReply_Errno = 0\<rparr>"
        have o: "onOpen Y Rq x = send Y ?M ?x4"
          using \<open>underRoot _ _ _ = Inr Path\<close> at False Inr None by (simp add: onOpen_def Let_def flip: Flags_def x2_def)
        have "served Y (OpenRequest_Id Rq) x ?x4" by (intro served_pin served_call s2) simp
        moreover have "pins_kept x ?x4"
          using False same u by (auto simp: pins_kept_def call_def domIff split: option.split)
        ultimately show ?thesis unfolding o using served_send [of Y "OpenRequest_Id Rq" x ?x4 ?M] by (simp add: pins_kept_def send_def)
      qed
    qed
  qed
qed

section \<open>Properties\<close>

fun request_id :: "Message \<Rightarrow> u64 option" where
  "request_id (StatRequest R) = Some (StatRequest_Id R)"
| "request_id (ListRequest R) = Some (ListRequest_Id R)"
| "request_id (ReadRequest R) = Some (ReadRequest_Id R)"
| "request_id (WriteRequest R) = Some (WriteRequest_Id R)"
| "request_id (FetchRequest R) = Some (FetchRequest_Id R)"
| "request_id (MetaRequest R) = Some (MetaRequest_Id R)"
| "request_id (StatFsRequest R) = Some (StatFsRequest_Id R)"
| "request_id (StoreRequest R) = Some (StoreRequest_Id R)"
| "request_id (OpenRequest R) = Some (OpenRequest_Id R)"
| "request_id (CloseRequest R) = Some (CloseRequest_Id R)"
| "request_id _ = None"

lemma dispatch_served:
  assumes "\<forall>d ns. y_readdir Y d = Some ns \<longrightarrow> (\<forall>n \<in> set ns. plain_name n)"
  shows "served Y (case request_id M of None \<Rightarrow> 0 | Some i \<Rightarrow> i) x (snd (dispatch H Y M x)) \<and>
    (card (dom (X_Pinned x)) \<le> X_Now x \<longrightarrow> pins_kept x (snd (dispatch H Y M x)))"
  by (cases M)
    (simp_all add: dispatch_def eff_pins [OF onStat_eff] eff_pins [OF onList_eff [OF assms]] eff_pins [OF onRead_eff] eff_pins [OF onWrite_eff]
      eff_pins [OF onFetch_eff] eff_pins [OF onMeta_eff] eff_pins [OF onStatFs_eff] eff_pins [OF onStore_eff] onOpen_served onClose_served
      eff_pins [OF eff_refl])

text \<open>A daemon serving \<^verbatim>\<open>/srv\<close> on a system of plain entries, with a pinned handle of another session.\<close>

definition sample_sys :: sys where
  "sample_sys = \<lparr>y_fs = plain_fs, y_lstat = (\<lambda>_. None), y_stat = (\<lambda>_. None), y_open = (\<lambda>_ _ _. Inr 9), y_readdir = (\<lambda>_. Some [''f'']),
     y_call = (\<lambda>_. None), y_readlink = (\<lambda>_. Inl ENOENT), y_statvfs = (\<lambda>_. Inl ENOENT), y_fstat = (\<lambda>_. Some 0), y_text = (\<lambda>_. []),
     y_send = (\<lambda>_. Inr ()), y_acquire = None, y_aligned = True, y_payload = Inr [], y_post = Inr (), y_read = Inr [],
     y_write = Inr (), y_fsync = Inr (), y_reader = Inr 0, y_writer = Inr (), y_commit = Inr (), y_tx = (Inr 0, replicate 16 0, False),
     y_rx = (Inr 0, \<lambda>_. True), y_digest = Inr \<lparr>StreamDigest_Id = 0, StreamDigest_Whole = replicate 16 0, StreamDigest_Ok = True, StreamDigest_Error = []\<rparr>\<rparr>"

definition sample_ctx :: ctx where
  "sample_ctx = \<lparr>X_Root = ''/srv'', X_Verify = False, X_Agreed = XxH3, X_Pinned = Map.empty, X_NextHandle = 1, X_Now = 1, X_Budget = 2,
     X_Cache = FdCache_new 2, X_Sent = [], X_Posted = [], X_Calls = [], X_Closed = False\<rparr>"

lemma sample_readdir: "\<forall>d ns. y_readdir sample_sys d = Some ns \<longrightarrow> (\<forall>n \<in> set ns. plain_name n)"
  by (simp add: sample_sys_def plain_name_def is_absolute_def parts_def)



text \<open>
  C23. Serving a request answers under the request's own id only, and moves the count of pinned
  handles that all sessions share exactly as it moves the session's own: so the count stays the
  sum over the sessions, however their requests interleave, and never passes the budget.
\<close>

theorem requests_answered:
  assumes "\<forall>d ns. y_readdir Y d = Some ns \<longrightarrow> (\<forall>n \<in> set ns. plain_name n)" and "card (dom (X_Pinned x)) \<le> X_Now x" and "request_id M = Some Rid"
  shows "(\<exists>ms. X_Sent (snd (dispatch H Y M x)) = X_Sent x @ ms \<and> (\<forall>m \<in> set ms. reply_id m = Some Rid)) \<and>
    X_Now (snd (dispatch H Y M x)) + card (dom (X_Pinned x)) = X_Now x + card (dom (X_Pinned (snd (dispatch H Y M x)))) \<and>
    (X_Now x \<le> X_Budget x \<longrightarrow> X_Now (snd (dispatch H Y M x)) \<le> X_Budget (snd (dispatch H Y M x)))"
  using dispatch_served [OF assms(1), of M x H] assms(2,3) by (auto simp: served_def pins_kept_def)

theorem requests_answered_witness:
  "let y = snd (dispatch counting_xx sample_sys (CloseRequest \<lparr>CloseRequest_Id = 7, CloseRequest_Handle = 3\<rparr>) sample_ctx)
   in (\<forall>m \<in> set (X_Sent y). reply_id m = Some 7) \<and> X_Now y = 1 + card (dom (X_Pinned y)) \<and> X_Now y \<le> X_Budget y"
  using requests_answered [OF sample_readdir, of sample_ctx "CloseRequest \<lparr>CloseRequest_Id = 7, CloseRequest_Handle = 3\<rparr>" 7 counting_xx]
  by (auto simp: sample_ctx_def Let_def)

end
