(* ===== verification/SyncBase.thy ===== *)
theory SyncBase
  imports ControlChannel
begin

text \<open>
  What both ends of a sync share: the sequencing of steps that may fail and change the state, a
  window of operations that is joined down from its front, and the alternatives of a message
  that \<^verbatim>\<open>std::get_if\<close> asks for.
\<close>

text \<open>\<^verbatim>\<open>if (!R) co_return std::unexpected(R.error());\<close> on a step that changes the state.\<close>

definition andThen :: "'a Result \<times> 's \<Rightarrow> ('a \<Rightarrow> 's \<Rightarrow> 'b Result \<times> 's) \<Rightarrow> 'b Result \<times> 's" where
  "andThen p f = (case p of (r, s) \<Rightarrow> (case r of Inl e \<Rightarrow> (Inl e, s) | Inr x \<Rightarrow> f x s))"

lemma andThen_simps [simp]: "andThen (Inr x, s) f = f x s" "andThen (Inl e, s) f = (Inl e, s)"
  by (simp_all add: andThen_def)

lemma andThen_Inr: "andThen p f = (Inr y, t) \<longleftrightarrow> (\<exists>x s. p = (Inr x, s) \<and> f x s = (Inr y, t))"
  by (cases p; cases "fst p") auto

text \<open>Joins operations from the front while more than \<open>Keep\<close> are left; an error stops after its own.\<close>

fun join_down :: "nat \<Rightarrow> unit Result list \<Rightarrow> unit Result \<times> unit Result list" where
  "join_down Keep [] = (Inr (), [])"
| "join_down Keep (Op # Ops) =
     (if length (Op # Ops) > Keep then (case Op of Inl e \<Rightarrow> (Inl e, Ops) | Inr _ \<Rightarrow> join_down Keep Ops) else (Inr (), Op # Ops))"

lemma join_down_ok: "\<forall>Op \<in> set Ops. is_ok Op \<Longrightarrow> join_down Keep Ops = (Inr (), drop (length Ops - Keep) Ops)"
proof (induction Ops)
  case (Cons Op Ops)
  then show ?case by (cases Op; cases "length Ops < Keep") (auto simp: Suc_diff_le not_less)
qed simp

lemma join_down_Inr: "join_down Keep Ops = (Inr (), Ops') \<Longrightarrow> length Ops' \<le> Keep \<and> (\<exists>n. Ops' = drop n Ops \<and> (\<forall>Op \<in> set (take n Ops). is_ok Op))"
proof (induction Ops)
  case (Cons Op Ops)
  show ?case
  proof (cases "length (Op # Ops) > Keep")
    case True
    then obtain x where "Op = Inr x" "join_down Keep Ops = (Inr (), Ops')" using Cons.prems by (auto split: sum.splits)
    with Cons.IH obtain n where "length Ops' \<le> Keep" "Ops' = drop n Ops" "\<forall>Op \<in> set (take n Ops). is_ok Op" by blast
    with \<open>Op = Inr x\<close> show ?thesis by (intro conjI exI [of _ "Suc n"]) auto
  next
    case False
    then show ?thesis using Cons.prems by (auto intro: exI [of _ 0])
  qed
qed auto

text \<open>The alternatives \<^verbatim>\<open>std::get_if\<close> asks for.\<close>

fun as_Hello :: "Message \<Rightarrow> Hello option" where "as_Hello (Hello v) = Some v" | "as_Hello _ = None"
fun as_PeerEndpoint :: "Message \<Rightarrow> PeerEndpoint option" where "as_PeerEndpoint (PeerEndpoint v) = Some v" | "as_PeerEndpoint _ = None"
fun as_FileHeader :: "Message \<Rightarrow> FileHeader option" where "as_FileHeader (FileHeader v) = Some v" | "as_FileHeader _ = None"
fun as_Literal :: "Message \<Rightarrow> Literal option" where "as_Literal (Literal v) = Some v" | "as_Literal _ = None"
fun as_Copy :: "Message \<Rightarrow> Copy option" where "as_Copy (Copy v) = Some v" | "as_Copy _ = None"
fun as_Done :: "Message \<Rightarrow> Done option" where "as_Done (Done v) = Some v" | "as_Done _ = None"

definition is_End :: "Message \<Rightarrow> bool" where
  "is_End M \<longleftrightarrow> typeOf M = T_End"

definition unexpected :: "Message \<Rightarrow> 'a Result" where
  "unexpected M = failMessage (''unexpected message '' @ typeName (typeOf M))"

end
