(* ===== verification/DifferSink.thy ===== *)
theory DifferSink
  imports Differ
begin

text \<open>
  The scan does not depend on what its sink does with an instruction it takes: a sink that takes
  the instructions which the scan emits into a sink that takes everything meets exactly these.
  The report counts the emitted instructions. The sender of a sync relies on both.
\<close>

definition take_all :: InstructionSink where
  "take_all = (\<lambda>_ _. None)"

definition agree :: "InstructionSink \<Rightarrow> Instruction list \<Rightarrow> bool" where
  "agree Out E \<longleftrightarrow> (\<forall>es i fs. E = es @ i # fs \<longrightarrow> Out es i = None)"

definition bytes_of :: "Kind \<Rightarrow> Instruction list \<Rightarrow> nat" where
  "bytes_of K E = sum_list (map Ins_Length (filter (\<lambda>i. Ins_K i = K) E))"

definition tallied :: "Differ \<Rightarrow> bool" where
  "tallied D \<longleftrightarrow> Rep_LiteralBytes (D_Rep D) = bytes_of K_Literal (D_Emitted D) \<and> Rep_MatchedBytes (D_Rep D) = bytes_of K_Copy (D_Emitted D)"

definition grows :: "Differ \<Rightarrow> Differ \<Rightarrow> bool" where
  "grows D D' \<longleftrightarrow> (\<exists>js. D_Emitted D' = D_Emitted D @ js) \<and> (tallied D \<longrightarrow> tallied D')"

lemma grows_refl [simp]: "grows D D"
  by (simp add: grows_def)

lemma grows_trans: "grows D D1 \<Longrightarrow> grows D1 D2 \<Longrightarrow> grows D D2"
  by (auto simp: grows_def)

lemma agree_grows: "agree Out (D_Emitted D') \<Longrightarrow> grows D D' \<Longrightarrow> agree Out (D_Emitted D)"
  by (auto simp: agree_def grows_def)

lemma bytes_of_snoc [simp]: "bytes_of K (E @ [i]) = bytes_of K E + (if Ins_K i = K then Ins_Length i else 0)"
  by (simp add: bytes_of_def)

lemma emit_agree:
  "emit take_all Ins D = Inr D' \<Longrightarrow> D' = D\<lparr>D_Emitted := D_Emitted D @ [Ins]\<rparr> \<and> (agree Out (D_Emitted D') \<longrightarrow> emit Out Ins D = Inr D')"
  by (auto simp: emit_def take_all_def agree_def)

lemma emitLiteral_agree:
  "emitLiteral take_all Offset Len D = Inr D' \<Longrightarrow> grows D D' \<and> (agree Out (D_Emitted D') \<longrightarrow> emitLiteral Out Offset Len D = Inr D')"
proof (induction take_all Offset Len D rule: emitLiteral.induct)
  case (1 Offset Len D)
  show ?case
  proof (cases "0 < Len")
    case True
    define N where "N = min Len kMaxWindow"
    define Ins where "Ins = \<lparr>Ins_K = K_Literal, Ins_BlockIndex = 0, Ins_SrcOffset = Offset, Ins_DstOffset = D_DstCursor D, Ins_Length = N, Ins_Bytes = []\<rparr>"
    define D1 where "D1 = D\<lparr>D_Emitted := D_Emitted D @ [Ins]\<rparr>"
    define D2 where "D2 = D1\<lparr>D_Rep := (D_Rep D1)\<lparr>Rep_LiteralBytes := Rep_LiteralBytes (D_Rep D1) + N\<rparr>, D_DstCursor := D_DstCursor D1 + N\<rparr>"
    have step: "emitLiteral Out Offset Len D = bindR (emit Out Ins D) (\<lambda>D. emitLiteral Out (Offset + N) (Len - N)
        (D\<lparr>D_Rep := (D_Rep D)\<lparr>Rep_LiteralBytes := Rep_LiteralBytes (D_Rep D) + N\<rparr>, D_DstCursor := D_DstCursor D + N\<rparr>))" for Out
      using True by (subst emitLiteral.simps) (simp add: Let_def N_def Ins_def)
    have e: "emit take_all Ins D = Inr D1" by (simp add: emit_def take_all_def D1_def)
    have l: "emitLiteral take_all (Offset + N) (Len - N) D2 = Inr D'" using "1.prems" by (simp add: step e D2_def)
    have ih: "grows D2 D' \<and> (agree Out (D_Emitted D') \<longrightarrow> emitLiteral Out (Offset + N) (Len - N) D2 = Inr D')"
      using "1.hyps" [of N Ins D1] True l by (simp add: N_def Ins_def D2_def)
    have g: "grows D D2" by (auto simp: grows_def tallied_def D2_def D1_def Ins_def)
    moreover have "emitLiteral Out Offset Len D = Inr D'" if "agree Out (D_Emitted D')"
    proof -
      have "agree Out (D_Emitted D2)" using agree_grows [OF that] ih by blast
      then have "emit Out Ins D = Inr D1" using emit_agree [OF e, of Out] by (simp add: D2_def)
      then show ?thesis using ih that by (simp add: step D2_def)
    qed
    ultimately show ?thesis using ih grows_trans by blast
  next
    case False
    then show ?thesis using "1.prems" by (simp add: emitLiteral.simps)
  qed
qed

lemma emitCopy_agree:
  assumes "emitCopy take_all I At Bs D = Inr D'"
  shows "grows D D' \<and> (agree Out (D_Emitted D') \<longrightarrow> emitCopy Out I At Bs D = Inr D')"
  using assms unfolding emitCopy_def Let_def
  by (auto simp: bindR_Inr_iff emit_def take_all_def grows_def tallied_def agree_def)

lemma if_literal_agree:
  assumes "(if b then emitLiteral take_all At Len D else Inr D) = Inr D'"
  shows "grows D D' \<and> (agree Out (D_Emitted D') \<longrightarrow> (if b then emitLiteral Out At Len D else Inr D) = Inr D')"
  using assms emitLiteral_agree [of At Len D D' Out] by (cases b) auto

definition final_emit :: "InstructionSink \<Rightarrow> nat \<Rightarrow> nat \<Rightarrow> int \<Rightarrow> byte list \<Rightarrow> Differ \<Rightarrow> (bool \<times> Differ) Result" where
  "final_emit Out From At I View D =
     bindR (if From < At then emitLiteral Out From (At - From) D else Inr D) (\<lambda>D. bindR (emitCopy Out I At View D) (\<lambda>D. Inr (True, D)))"

lemma final_emit_agree:
  assumes "final_emit take_all From At I View D = Inr (M, D')"
  shows "grows D D' \<and> (agree Out (D_Emitted D') \<longrightarrow> final_emit Out From At I View D = Inr (M, D'))"
proof -
  obtain D1 where d: "(if From < At then emitLiteral take_all From (At - From) D else Inr D) = Inr D1" "emitCopy take_all I At View D1 = Inr D'" "M"
    using assms unfolding final_emit_def bindR_Inr_iff by blast
  note l = if_literal_agree [OF d(1), of Out] and c = emitCopy_agree [OF d(2), of Out]
  have "final_emit Out From At I View D = Inr (M, D')" if "agree Out (D_Emitted D')"
    using l c that agree_grows [of Out D' D1] d(3) by (simp add: final_emit_def)
  then show ?thesis using l c grows_trans by blast
qed

lemma matchFinalBlock_agree:
  assumes "matchFinalBlock rd strong Sig take_all From D = Inr (M, D')"
  shows "grows D D' \<and> (agree Out (D_Emitted D') \<longrightarrow> matchFinalBlock rd strong Sig Out From D = Inr (M, D'))"
proof -
  define I where "I = (of_nat (length (Signature_Sums Sig) - 1) :: u32)"
  define L where "L = unat (blockLengthAt Sig I)"
  define At where "At = D_SourceLen D - L"
  define ok where "ok = (\<lambda>View. length View = L \<and> weakChecksum View = BlockSum_Weak (Signature_Sums Sig ! unat I) \<and> strong_equal Sig (strong View) (unat I))"
  have m: "matchFinalBlock rd strong Sig Out From D =
      (if L = 0 \<or> unat (Signature_BlockLength Sig) \<le> L \<or> D_SourceLen D < L \<or> At < From then Inr (False, D)
       else bindR (rd At L) (\<lambda>View. if \<not> ok View then Inr (False, D) else final_emit Out From At (int (unat I)) View D))" for Out
    unfolding matchFinalBlock_def Let_def I_def [symmetric] L_def [symmetric] At_def [symmetric] final_emit_def ok_def
    by (cases "rd At L") auto
  show ?thesis
  proof (cases "L = 0 \<or> unat (Signature_BlockLength Sig) \<le> L \<or> D_SourceLen D < L \<or> At < From")
    case True
    then show ?thesis using assms unfolding m if_P [OF True] by simp
  next
    case False
    then obtain View where v: "rd At L = Inr View" "(if \<not> ok View then Inr (False, D) else final_emit take_all From At (int (unat I)) View D) = Inr (M, D')"
      using assms unfolding m if_not_P [OF False] bindR_Inr_iff by blast
    then show ?thesis using final_emit_agree [of From At "int (unat I)" View D M D' Out] unfolding m if_not_P [OF False] v(1) bindR_simps
      by (cases "ok View") auto
  qed
qed

lemma lookup_grows: "lookup strong Sig D Wk Win = (I, D') \<Longrightarrow> grows D D'"
  by (auto simp: lookup_def Let_def grows_def tallied_def split: if_splits prod.splits)

lemma fillWindow_grows: "fillWindow rd At D = Inr D' \<Longrightarrow> grows D D'"
  by (auto simp: fillWindow_def bindR_Inr_iff grows_def tallied_def)

lemma ensureWindow_grows: "ensureWindow rd Sig At D = Inr D' \<Longrightarrow> grows D D'"
  by (auto simp: ensureWindow_def Let_def fillWindow_grows split: if_splits)

fun turn_scan :: "Scan turn \<Rightarrow> Scan" where
  "turn_scan (Leave S) = S"
| "turn_scan (Again S) = S"

abbreviation emitted :: "Scan \<Rightarrow> Instruction list" where
  "emitted S \<equiv> D_Emitted (S_Diff S)"

lemma scan_hit_agree:
  assumes "scan_hit Sig take_all W I S = Inr T"
  shows "grows (S_Diff S) (S_Diff (turn_scan T)) \<and> (agree Out (emitted (turn_scan T)) \<longrightarrow> scan_hit Sig Out W I S = Inr T)"
proof -
  define m where "m = unat (blockLengthAt Sig (of_nat (nat I)))"
  define lit where "lit = (\<lambda>Out. if S_LastMatch S < S_Offset S then emitLiteral Out (S_LastMatch S) (S_Offset S - S_LastMatch S) (S_Diff S) else Inr (S_Diff S))"
  define fin where "fin = (\<lambda>D. Again (S\<lparr>S_Diff := D\<lparr>D_WantI := I + 1\<rparr>, S_Offset := S_Offset S + m, S_LastMatch := S_Offset S + m, S_Stale := True\<rparr>))"
  have h: "scan_hit Sig Out W I S = bindR (lit Out) (\<lambda>D. bindR (emitCopy Out I (S_Offset S) (take m (drop W (D_Window D))) D) (\<lambda>D. Inr (fin D)))" for Out
    by (simp only: scan_hit_def Let_def m_def lit_def fin_def)
  obtain D1 where d1: "lit take_all = Inr D1" "bindR (emitCopy take_all I (S_Offset S) (take m (drop W (D_Window D1))) D1) (\<lambda>D. Inr (fin D)) = Inr T"
    using assms unfolding h by (cases "lit take_all") simp_all
  obtain D2 where d2: "emitCopy take_all I (S_Offset S) (take m (drop W (D_Window D1))) D1 = Inr D2" "T = fin D2"
    using d1(2) by (cases "emitCopy take_all I (S_Offset S) (take m (drop W (D_Window D1))) D1") simp_all
  note l = if_literal_agree [OF d1(1) [unfolded lit_def], of Out, folded lit_def] and c = emitCopy_agree [OF d2(1), of Out]
  have T: "S_Diff (turn_scan T) = D2\<lparr>D_WantI := I + 1\<rparr>" by (simp add: d2(2) fin_def)
  have g: "grows D2 (D2\<lparr>D_WantI := I + 1\<rparr>)" by (simp add: grows_def tallied_def)
  have "grows (S_Diff S) (S_Diff (turn_scan T))" unfolding T using l c g grows_trans by blast
  moreover have "scan_hit Sig Out W I S = Inr T" if "agree Out (emitted (turn_scan T))"
  proof -
    have a: "agree Out (D_Emitted D2)" using that by (simp add: T)
    then have "lit Out = Inr D1" using l agree_grows [OF a, of D1] c by (simp add: lit_def)
    then show ?thesis using c a by (simp add: h d2(2))
  qed
  ultimately show ?thesis by blast
qed

lemma scan_miss_grows: "scan_miss rd Sig W S = Inr T \<Longrightarrow> grows (S_Diff S) (S_Diff (turn_scan T))"
  by (auto simp: scan_miss_def Let_def bindR_Inr_iff fillWindow_grows split: if_splits)

lemma scan_turn_agree:
  assumes "scan_turn rd strong Sig take_all S = Inr T"
  shows "grows (S_Diff S) (S_Diff (turn_scan T)) \<and> (agree Out (emitted (turn_scan T)) \<longrightarrow> scan_turn rd strong Sig Out S = Inr T)"
proof (cases "S_Offset S + scan_block Sig \<le> D_SourceLen (S_Diff S)")
  case True
  obtain D1 where e: "ensureWindow rd Sig (S_Offset S) (S_Diff S) = Inr D1"
    using assms True by (auto simp: scan_turn_def Let_def bindR_Inr_iff)
  define W where "W = S_Offset S - D_WindowBase D1"
  define Wk where "Wk = (if S_Stale S then weakChecksum (take (scan_block Sig) (drop W (D_Window D1))) else S_Weak S)"
  obtain I D2 where k: "lookup strong Sig D1 Wk (take (scan_block Sig) (drop W (D_Window D1))) = (I, D2)" by fastforce
  let ?S = "S\<lparr>S_Diff := D2, S_Weak := Wk, S_Stale := False\<rparr>"
  have t: "scan_turn rd strong Sig Out S = (if I < 0 then scan_miss rd Sig W ?S else scan_hit Sig Out W I ?S)" for Out
    using True by (simp only: scan_turn_def Let_def e bindR_simps flip: W_def) (simp add: k flip: Wk_def)
  have g: "grows (S_Diff S) D2" using ensureWindow_grows [OF e] lookup_grows [OF k] grows_trans by blast
  show ?thesis
  proof (cases "I < 0")
    case True
    then have "scan_miss rd Sig W ?S = Inr T" using assms by (simp add: t)
    then show ?thesis using scan_miss_grows [of rd Sig W ?S T] g grows_trans True by (auto simp: t)
  next
    case False
    then have "scan_hit Sig take_all W I ?S = Inr T" using assms by (simp add: t)
    then show ?thesis using scan_hit_agree [of Sig W I ?S T Out] g grows_trans False by (auto simp: t)
  qed
qed (use assms in \<open>auto simp: scan_turn_def Let_def\<close>)

lemma scan_loop_agree:
  assumes "scan_loop rd strong Sig take_all S = Some (Inr S')"
  shows "grows (S_Diff S) (S_Diff S') \<and> (agree Out (emitted S') \<longrightarrow> scan_loop rd strong Sig Out S = Some (Inr S'))"
proof -
  have "r = Inr S' \<longrightarrow> grows (S_Diff S) (S_Diff S') \<and> (agree Out (emitted S') \<longrightarrow> scan_loop rd strong Sig Out S = Some (Inr S'))"
    if "scan_loop rd' strong' Sig' All S = Some r" "rd' = rd" "strong' = strong" "Sig' = Sig" "All = take_all" for rd' strong' Sig' All S r
    using that(2-5)
  proof (induction rd' strong' Sig' All S r rule: scan_loop.raw_induct)
    case (1 loop rd' strong' Sig' All S r)
    show ?case
    proof (cases "scan_turn rd strong Sig take_all S")
      case (Inl e)
      then show ?thesis using 1 by auto
    next
      case (Inr T)
      note t = scan_turn_agree [OF Inr, of Out]
      show ?thesis
      proof (cases T)
        case (Leave S1)
        then show ?thesis using "1.hyps" "1.prems" Inr t by (auto simp: scan_loop.simps [of rd strong Sig Out S])
      next
        case (Again S1)
        then have "loop rd strong Sig take_all S1 = Some r" using "1.hyps" "1.prems" Inr by simp
        then have "r = Inr S' \<longrightarrow> grows (S_Diff S1) (S_Diff S') \<and> (agree Out (emitted S') \<longrightarrow> scan_loop rd strong Sig Out S1 = Some (Inr S'))"
          using "1.IH" by blast
        then show ?thesis using t Again grows_trans agree_grows [of Out "S_Diff S'" "S_Diff S1"]
          by (auto simp: scan_loop.simps [of rd strong Sig Out S])
      qed
    qed
  qed (rule that(1))
  then show ?thesis using assms by blast
qed

lemma scan_finish_agree:
  assumes "scan_finish rd strong Sig take_all S = Inr D"
  shows "grows (S_Diff S) D \<and> (agree Out (D_Emitted D) \<longrightarrow> scan_finish rd strong Sig Out S = Inr D)"
proof -
  let ?m = "\<lambda>Out. if S_LastMatch S < D_SourceLen (S_Diff S) then matchFinalBlock rd strong Sig Out (S_LastMatch S) (S_Diff S) else Inr (False, S_Diff S)"
  obtain M D1 where d: "?m take_all = Inr (M, D1)"
    "(if (if M then D_SourceLen D1 else S_LastMatch S) < D_SourceLen D1
      then emitLiteral take_all (if M then D_SourceLen D1 else S_LastMatch S) (D_SourceLen D1 - (if M then D_SourceLen D1 else S_LastMatch S)) D1
      else Inr D1) = Inr D"
    using assms unfolding scan_finish_def Let_def bindR_Inr_iff by (auto simp del: if_weak_cong)
  have m: "grows (S_Diff S) D1 \<and> (agree Out (D_Emitted D1) \<longrightarrow> ?m Out = Inr (M, D1))"
    using d(1) matchFinalBlock_agree [of rd strong Sig "S_LastMatch S" "S_Diff S" M D1 Out] by (auto split: if_splits)
  note l = if_literal_agree [OF d(2), of Out]
  have "scan_finish rd strong Sig Out S = Inr D" if "agree Out (D_Emitted D)"
    using m l that agree_grows [of Out D D1] by (simp add: scan_finish_def Let_def)
  then show ?thesis using m l grows_trans by blast
qed

lemma diff_agree:
  assumes "diff rd Size strong Sig take_all (Differ_new n) = Some (Inr D)"
  shows "tallied D" and "agree Out (D_Emitted D) \<Longrightarrow> diff rd Size strong Sig Out (Differ_new n) = Some (Inr D)"
proof -
  let ?D0 = "(Differ_new n)\<lparr>D_SourceLen := Size, D_DstCursor := 0, D_WantI := 0\<rparr>"
  let ?D1 = "(buildHashTable Sig ?D0)\<lparr>D_Window := replicate (min kMaxWindow Size) 0, D_WindowBase := 0, D_WindowLen := 0\<rparr>"
  have t: "tallied ?D0" "tallied ?D1" by (simp_all add: tallied_def Differ_new_def bytes_of_def buildHashTable_def Let_def split: prod.split)
  have "tallied D \<and> (agree Out (D_Emitted D) \<longrightarrow> diff rd Size strong Sig Out (Differ_new n) = Some (Inr D))"
  proof (cases "Signature_Sums Sig = [] \<or> Signature_BlockLength Sig = 0 \<or> Size < scan_block Sig")
    case True
    then show ?thesis using assms t(1) emitLiteral_agree [of 0 Size ?D0 D Out] by (simp add: diff_def Let_def grows_def)
  next
    case False
    obtain D2 where f: "fillWindow rd 0 ?D1 = Inr D2" using assms False by (auto simp: diff_def Let_def split: sum.splits)
    let ?S = "\<lparr>S_Diff = D2, S_Offset = 0, S_LastMatch = 0, S_Weak = 0, S_Stale = True\<rparr>"
    obtain S where s: "scan_loop rd strong Sig take_all ?S = Some (Inr S)" "scan_finish rd strong Sig take_all S = Inr D"
      using assms False f by (auto simp: diff_def Let_def split: option.splits sum.splits)
    note l = scan_loop_agree [OF s(1), of Out] and e = scan_finish_agree [OF s(2), of Out]
    have "tallied D" using fillWindow_grows [OF f] l e t(2) by (auto simp: grows_def)
    moreover have "diff rd Size strong Sig Out (Differ_new n) = Some (Inr D)" if "agree Out (D_Emitted D)"
      using l e f False that agree_grows [of Out D "S_Diff S"] by (simp add: diff_def Let_def)
    ultimately show ?thesis by blast
  qed
  then show "tallied D" "agree Out (D_Emitted D) \<Longrightarrow> diff rd Size strong Sig Out (Differ_new n) = Some (Inr D)" by blast+
qed

end
