(* ===== verification/SessionPush.thy ===== *)
theory SessionPush
  imports SyncBase DifferSink FileWriter PageLayout
begin

text \<open>
  \<^verbatim>\<open>src/session-push.cc\<close>: the sending side of a sync. For each item it sends a header, takes the
  signature of the receiver's copy if it wants one, sends the file whole or as a delta with the
  payload in pages on the data channel, and closes with the digest of what it sent. A window of
  sends and a window of reads share the pool. What the source, the fabric and the peer answer are
  arguments; a step that fails ends the push, so it returns the error and no state, and an
  acquisition with every page in the hands of the sender itself is \<open>None\<close>.
\<close>

section \<open>Options and geometry\<close>

datatype DeltaPolicy = Always | Never | Auto

record SyncOptions =
  O_Backend :: string
  O_Policy :: DeltaPolicy
  O_BlockSize :: u32
  O_PageCount :: u64
  O_WindowPages :: u64
  O_PageSize :: u64
  O_RemoteCommand :: string
  O_Recursive :: bool
  O_MinSize :: u64
  O_MaxSize :: u64
  O_FlipOneLiteralBit :: bool
  O_Durable :: Durability

text \<open>
  The doubling loop, which starts at 1 MiB: every turn doubles a page below 64 MiB, so the word has
  bits for it, and the test for zero is never met.
\<close>

function page_bytes :: "u64 \<Rightarrow> u64 \<Rightarrow> u64" where
  "page_bytes PageBytes Bytes =
     (if PageBytes < 64 * 2 ^ 20 \<and> PageBytes * 4 < Bytes \<and> PageBytes \<noteq> 0 then page_bytes (PageBytes * 2) Bytes else PageBytes)"
  by pat_completeness auto
termination
proof (relation "measure (\<lambda>(P, B). 2 ^ 64 - unat P)")
  fix P B :: u64
  assume a: "P < 64 * 2 ^ 20 \<and> P * 4 < B \<and> P \<noteq> 0"
  then have "unat P < 67108864" "0 < unat P" by (auto simp: word_less_nat_alt unat_gt_0)
  then have "unat (P * 2) = unat P * 2" by (simp add: unat_word_ariths)
  then show "((P * 2, B), (P, B)) \<in> measure (\<lambda>(P, B). 2 ^ 64 - unat P)" using \<open>0 < unat P\<close> \<open>unat P < 67108864\<close> by simp
qed simp

declare page_bytes.simps [simp del]

definition withGeometry :: "SyncOptions \<Rightarrow> u64 \<Rightarrow> SyncOptions" where
  "withGeometry Opts Bytes =
     (let Opts = (if O_PageSize Opts = 0 then Opts\<lparr>O_PageSize := page_bytes (2 ^ 20) Bytes\<rparr> else Opts);
          Opts = (if O_WindowPages Opts = 0 then Opts\<lparr>O_WindowPages := 2\<rparr> else Opts);
          Opts = (if O_PageCount Opts = 0 then Opts\<lparr>O_PageCount := O_WindowPages Opts + 4\<rparr> else Opts)
      in Opts\<lparr>O_PageCount := max 2 (O_PageCount Opts)\<rparr>)"

definition shouldUseDelta :: "Signature \<Rightarrow> u64 \<Rightarrow> DeltaPolicy \<Rightarrow> bool" where
  "shouldUseDelta Sig SourceSize Policy =
     (if Policy = Never then False
      else if Signature_Sums Sig = [] \<or> Signature_FileLength Sig = 0 then False
      else if Policy = Always then True
      else
        let Larger = max SourceSize (Signature_FileLength Sig); Smaller = min SourceSize (Signature_FileLength Sig)
        in Smaller * 2 \<ge> Larger)"

section \<open>Commands\<close>

definition shellQuote :: "string \<Rightarrow> string" where
  "shellQuote Word = [CHR 0x27] @ concat (map (\<lambda>C. if C = CHR 0x27 then [CHR 0x27, CHR 0x5C, CHR 0x27, CHR 0x27] else [C]) Word) @ [CHR 0x27]"

record RemotePath =
  RP_Host :: string
  RP_Path :: string

definition RemotePath_parse :: "string \<Rightarrow> RemotePath Result" where
  "RemotePath_parse Spec =
     (let Host = takeWhile (\<lambda>c. c \<noteq> CHR '':'') Spec; Rest = drop (length Host) Spec
      in if Rest = [] \<or> Host = [] then failMessage (''expected host:path, got '' @ Spec)
         else if tl Rest = [] then failMessage (''empty remote path in '' @ Spec)
         else Inr \<lparr>RP_Host = Host, RP_Path = tl Rest\<rparr>)"

definition pullArgv :: "RemotePath \<Rightarrow> SyncOptions \<Rightarrow> string list" where
  "pullArgv Src Opts =
     [''ssh'', ''-o'', ''BatchMode=yes'', RP_Host Src,
      O_RemoteCommand Opts @ '' --server --sender'' @ (if O_Recursive Opts then '' --recursive'' else []) @
      (if O_Policy Opts \<noteq> Never then '' --no-whole-file'' else []) @
      (if O_BlockSize Opts \<noteq> 0 then '' --block-size '' @ decimal (unat (O_BlockSize Opts)) else []) @
      (if O_Backend Opts \<noteq> ''tcp'' then '' --backend '' @ shellQuote (O_Backend Opts) else []) @
      '' '' @ shellQuote (RP_Path Src)]"

definition sshArgv :: "RemotePath \<Rightarrow> SyncOptions \<Rightarrow> string list" where
  "sshArgv Dst Opts =
     [''ssh'', ''-o'', ''BatchMode=yes'', RP_Host Dst,
      O_RemoteCommand Opts @ '' --server'' @ (if O_Durable Opts = Fsync then '' --fsync'' else []) @ '' '' @ shellQuote (RP_Path Dst)]"

section \<open>State\<close>

record Item =
  It_Local :: string
  It_Name :: string
  It_Mode :: u32
  It_Mtime :: i64
  It_Directory :: bool
  It_Link :: bool
  It_Target :: string

text \<open>An open source: its metadata, plain reads, and the submission of a read of a number of bytes at an offset.\<close>

record source =
  src_Meta :: FileMeta
  src_direct :: bool
  src_read :: reader
  src_submit :: "nat \<Rightarrow> nat \<Rightarrow> (byte list Result) Result"

record SReading =
  SR_Op :: "byte list Result"
  SR_Offset :: u64
  SR_Length :: u32

record Awaited =
  Aw_Name :: string
  Aw_LiteralBytes :: u64
  Aw_MatchedBytes :: u64

record Sums =
  Sum_Files :: u64
  Sum_FileSize :: u64
  Sum_LiteralBytes :: u64
  Sum_MatchedBytes :: u64
  Sum_HashHits :: u64
  Sum_FalseAlarms :: u64
  Sum_DeltaUsed :: bool

record 'h Push =
  P_Window :: nat
  P_ReadWindow :: nat
  P_Corrupted :: bool
  P_Streaming :: bool
  P_Aligned :: bool
  P_Source :: "source option"
  P_Moving :: string
  P_MovingDone :: u64
  P_Whole :: "'h Hasher"
  P_Rep :: Sums
  P_File :: Report
  P_InFlight :: "unit Result list"
  P_Prefetch :: "SReading list"
  P_Awaiting :: "Awaited list"
  P_TagBase :: u64
  P_In :: "rx_event list"
  P_Sent :: "Message list"
  P_Pages :: "(u64 \<times> byte list) list"

record 'h push_env =
  q_X :: "'h xxlib"
  q_strong :: "byte list \<Rightarrow> Digest"
  q_Opts :: SyncOptions
  q_IsRdma :: bool
  q_MaxInFlight :: nat
  q_Depth :: nat
  q_Backed :: bool
  q_land :: "u64 \<Rightarrow> unit Result"
  q_send :: "nat \<Rightarrow> unit Result"
  q_prepare :: "unit Result"
  q_connect :: "string \<Rightarrow> unit Result"
  q_wants :: bool
  q_local :: "string Result"
  q_open :: "string \<Rightarrow> bool \<Rightarrow> source Result"

definition kReceiptWindow :: nat where
  "kReceiptWindow = 64"

definition Report_none :: Report where
  "Report_none = \<lparr>Rep_LiteralBytes = 0, Rep_MatchedBytes = 0, Rep_HashHits = 0, Rep_FalseAlarms = 0\<rparr>"

definition Push_new :: "'h push_env \<Rightarrow> rx_event list \<Rightarrow> 'h Push" where
  "Push_new Q es =
     (let Pages = unat (O_PageCount (q_Opts Q));
          W = max 1 (min (min (unat (O_WindowPages (q_Opts Q))) (q_MaxInFlight Q)) (Pages - 1))
      in \<lparr>P_Window = W, P_ReadWindow = min (max (Pages - W) 1) (q_Depth Q), P_Corrupted = False, P_Streaming = False, P_Aligned = False,
          P_Source = None, P_Moving = [], P_MovingDone = 0, P_Whole = Hasher_new (q_X Q) XxH3,
          P_Rep = \<lparr>Sum_Files = 0, Sum_FileSize = 0, Sum_LiteralBytes = 0, Sum_MatchedBytes = 0, Sum_HashHits = 0, Sum_FalseAlarms = 0,
                   Sum_DeltaUsed = False\<rparr>,
          P_File = Report_none, P_InFlight = [], P_Prefetch = [], P_Awaiting = [], P_TagBase = 0, P_In = es, P_Sent = [], P_Pages = []\<rparr>)"

section \<open>Steps\<close>

definition push_send :: "'h push_env \<Rightarrow> Message \<Rightarrow> 'h Push \<Rightarrow> 'h Push Result" where
  "push_send Q M p = bindR (q_send Q (length (P_Sent p))) (\<lambda>_. Inr (p\<lparr>P_Sent := P_Sent p @ [M]\<rparr>))"

definition push_expect :: "(Message \<Rightarrow> 'a option) \<Rightarrow> 'h Push \<Rightarrow> ('a \<times> 'h Push) Result" where
  "push_expect proj p = (case expect proj (P_In p) of (r, es) \<Rightarrow> bindR r (\<lambda>v. Inr (v, p\<lparr>P_In := es\<rparr>)))"

definition awaitSends :: "nat \<Rightarrow> 'h Push \<Rightarrow> 'h Push Result" where
  "awaitSends Keep p = (case join_down Keep (P_InFlight p) of (r, Ops) \<Rightarrow> bindR r (\<lambda>_. Inr (p\<lparr>P_InFlight := Ops\<rparr>)))"

fun as_HelloAck :: "Message \<Rightarrow> HelloAck option" where "as_HelloAck (HelloAck v) = Some v" | "as_HelloAck _ = None"
fun as_Signature :: "Message \<Rightarrow> Signature option" where "as_Signature (Signature v) = Some v" | "as_Signature _ = None"
fun as_Receipt :: "Message \<Rightarrow> Receipt option" where "as_Receipt (Receipt v) = Some v" | "as_Receipt _ = None"

definition push_negotiate :: "'h push_env \<Rightarrow> 'h Push \<Rightarrow> 'h Push Result" where
  "push_negotiate Q p =
     bindR (q_prepare Q) (\<lambda>_.
       let O' = q_Opts Q;
           H = \<lparr>Hello_Version = kVersion, Hello_Backend = O_Backend O', Hello_BlockSize = O_BlockSize O', Hello_PageCount = O_PageCount O',
                Hello_PageSize = O_PageSize O', Hello_WindowPages = of_nat (P_Window p), Hello_Recursive = O_Recursive O',
                Hello_Verify = True, Hello_Sum = 1\<rparr>
       in bindR (push_send Q (Hello H) p) (\<lambda>p.
            bindR (push_expect as_HelloAck p) (\<lambda>(Ack, p).
              if HelloAck_Backend Ack \<noteq> O_Backend O' then failMessage (''server refused backend '' @ O_Backend O')
              else bindR (q_connect Q (HelloAck_ChannelEndpoint Ack)) (\<lambda>_.
                if \<not> q_wants Q then Inr p
                else bindR (q_local Q) (\<lambda>Local. push_send Q (PeerEndpoint \<lparr>PeerEndpoint_Blob = Local\<rparr>) p)))))"

function reapReceipts :: "nat \<Rightarrow> 'h Push \<Rightarrow> 'h Push Result" where
  "reapReceipts Keep p =
     (case P_Awaiting p of
        [] \<Rightarrow> Inr p
      | Expected # As \<Rightarrow>
          if length (Expected # As) > Keep then
            (case push_expect as_Receipt p of
               Inl e \<Rightarrow> Inl e
             | Inr (Got, p) \<Rightarrow>
                 if Receipt_LiteralBytes Got \<noteq> Aw_LiteralBytes Expected \<or> Receipt_MatchedBytes Got \<noteq> Aw_MatchedBytes Expected
                 then failMessage (''sender and receiver disagree on '' @ Aw_Name Expected @ '': sender sent '' @
                        decimal (unat (Aw_LiteralBytes Expected)) @ '' literal / '' @ decimal (unat (Aw_MatchedBytes Expected)) @
                        '' matched, receiver saw '' @ decimal (unat (Receipt_LiteralBytes Got)) @ '' / '' @ decimal (unat (Receipt_MatchedBytes Got)))
                 else reapReceipts Keep (p\<lparr>P_Awaiting := As\<rparr>))
          else Inr p)"
  by pat_completeness auto
termination by (relation "measure (\<lambda>(Keep, p). length (P_Awaiting p))") auto

declare reapReceipts.simps [simp del]

definition header_of :: "'h push_env \<Rightarrow> Item \<Rightarrow> 'h Push \<Rightarrow> FileHeader" where
  "header_of Q It p =
     (let M = src_Meta (the (P_Source p))
      in \<lparr>FileHeader_Name = It_Name It, FileHeader_Size = Meta_Size M, FileHeader_Mode = Meta_Mode M, FileHeader_Mtime = Meta_Mtime M,
          FileHeader_Directory = False, FileHeader_Link = False, FileHeader_Target = [],
          FileHeader_WantSignature = (O_Policy (q_Opts Q) \<noteq> Never), FileHeader_Streamed = P_Streaming p\<rparr>)"

definition exchangeHeader :: "'h push_env \<Rightarrow> Item \<Rightarrow> 'h Push \<Rightarrow> (Signature \<times> 'h Push) Result" where
  "exchangeHeader Q It p =
     (let FH = header_of Q It p
      in bindR (push_send Q (FileHeader FH) p) (\<lambda>p.
           if \<not> FileHeader_WantSignature FH
           then Inr (\<lparr>Signature_BlockLength = 0, Signature_StrongLength = 0, Signature_FileLength = 0, Signature_Sums = []\<rparr>, p)
           else bindR (reapReceipts 0 p) (\<lambda>p. push_expect as_Signature p)))"

definition advanced :: "u64 \<Rightarrow> 'h Push \<Rightarrow> 'h Push" where
  "advanced Bytes p = p\<lparr>P_MovingDone := P_MovingDone p + Bytes\<rparr>"

definition push_hash :: "'h push_env \<Rightarrow> byte list \<Rightarrow> 'h Push \<Rightarrow> 'h Push" where
  "push_hash Q Bs p = p\<lparr>P_Whole := Hasher_update (q_X Q) (P_Whole p) Bs\<rparr>"

text \<open>The fault injector flips a bit of the first page after it was hashed.\<close>

definition corruptOnceIfAsked :: "'h push_env \<Rightarrow> byte list \<Rightarrow> 'h Push \<Rightarrow> byte list \<times> 'h Push" where
  "corruptOnceIfAsked Q Buf p =
     (if \<not> O_FlipOneLiteralBit (q_Opts Q) \<or> P_Corrupted p then (Buf, p)
      else (Buf[0 := Buf ! 0 XOR 1], p\<lparr>P_Corrupted := True\<rparr>))"

definition start_send :: "'h push_env \<Rightarrow> u64 \<Rightarrow> byte list \<Rightarrow> 'h Push \<Rightarrow> 'h Push" where
  "start_send Q At Buf p =
     p\<lparr>P_InFlight := P_InFlight p @ [q_land Q (P_TagBase p + At)], P_Pages := P_Pages p @ [(P_TagBase p + At, Buf)]\<rparr>"

definition push_held :: "'h Push \<Rightarrow> nat" where
  "push_held p = length (P_Prefetch p) + length (P_InFlight p)"

text \<open>Hashes a page, announces it unless the transfer is streamed, and hands it to the channel.\<close>

definition ship_page :: "'h push_env \<Rightarrow> u64 \<Rightarrow> byte list \<Rightarrow> 'h Push \<Rightarrow> 'h Push Result" where
  "ship_page Q Dst Bs p =
     (case corruptOnceIfAsked Q Bs (push_hash Q Bs p) of
        (Buf, p) \<Rightarrow>
          bindR (if P_Streaming p then Inr p
                 else push_send Q (Literal \<lparr>Literal_Offset = Dst, Literal_Length = of_nat (length Bs)\<rparr>) p) (\<lambda>p.
            Inr (start_send Q Dst Buf p)))"

definition sendPage :: "'h push_env \<Rightarrow> u64 \<Rightarrow> u64 \<Rightarrow> nat \<Rightarrow> 'h Push \<Rightarrow> (nat \<times> 'h Push) Result option" where
  "sendPage Q Src Dst Rest p =
     (if \<not> q_Backed Q then Some (failMessage ''out of registered memory for a transfer page'')
      else if push_held p \<ge> unat (O_PageCount (q_Opts Q)) then None
      else
        Some (bindR (src_read (the (P_Source p)) (unat Src) (min (unat (O_PageSize (q_Opts Q))) Rest)) (\<lambda>N.
          if N = [] then failMessage ''short read on source''
          else bindR (ship_page Q Dst N p) (\<lambda>p. Inr (length N, p)))))"

lemma sendPage_progress: "sendPage Q Src Dst Rest p = Some (Inr (n, p')) \<Longrightarrow> 0 < n"
  by (auto simp: sendPage_def bindR_Inr_iff split: if_splits)

function sendLiteral :: "'h push_env \<Rightarrow> u64 \<Rightarrow> u64 \<Rightarrow> nat \<Rightarrow> 'h Push \<Rightarrow> 'h Push Result option" where
  "sendLiteral Q Src Dst Rest p =
     (if Rest > 0 then
        (case awaitSends (P_Window p - 1) p of
           Inl e \<Rightarrow> Some (Inl e)
         | Inr p \<Rightarrow>
             (case sendPage Q Src Dst Rest p of
                None \<Rightarrow> None
              | Some (Inl e) \<Rightarrow> Some (Inl e)
              | Some (Inr (Sent, p)) \<Rightarrow> sendLiteral Q (Src + of_nat Sent) (Dst + of_nat Sent) (Rest - Sent) (advanced (of_nat Sent) p)))
      else Some (Inr p))"
  by pat_completeness auto
termination by (relation "measure (\<lambda>(Q, Src, Dst, Rest, p). Rest)") (auto dest: sendPage_progress)

declare sendLiteral.simps [simp del]

definition push_alignUp :: "u64 \<Rightarrow> u64" where
  "push_alignUp N = (N + kDirectAlignment - 1) AND NOT (kDirectAlignment - 1)"

lemma push_alignUp_roundUp: "push_alignUp = roundUp"
  by (simp add: fun_eq_iff push_alignUp_def roundUp_def)

function push_fill :: "'h push_env \<Rightarrow> u64 \<Rightarrow> 'h Push \<Rightarrow> (u64 \<times> 'h Push) Result option" where
  "push_fill Q Offset p =
     (let S = the (P_Source p); Size = Meta_Size (src_Meta S); Capacity = O_PageSize (q_Opts Q)
      in if length (P_Prefetch p) < P_ReadWindow p \<and> Offset < Size then
           if \<not> q_Backed Q then Some (failMessage ''out of registered memory for a transfer page'')
           else if push_held p \<ge> unat (O_PageCount (q_Opts Q)) then None
           else
             let Length = (ucast (min Capacity (Size - Offset)) :: u32);
                 Ask = (if P_Aligned p then min (push_alignUp (ucast Length)) Capacity else ucast Length)
             in (case src_submit S (unat Ask) (unat Offset) of
                   Inl e \<Rightarrow> Some (Inl e)
                 | Inr Op \<Rightarrow>
                     push_fill Q (Offset + ucast Length)
                       (p\<lparr>P_Prefetch := P_Prefetch p @ [\<lparr>SR_Op = Op, SR_Offset = Offset, SR_Length = Length\<rparr>]\<rparr>))
         else Some (Inr (Offset, p)))"
  by pat_completeness auto
termination by (relation "measure (\<lambda>(Q, Offset, p). P_ReadWindow p - length (P_Prefetch p))") auto

declare push_fill.simps [simp del]

definition push_shipReady :: "'h push_env \<Rightarrow> 'h Push \<Rightarrow> 'h Push Result" where
  "push_shipReady Q p =
     (let Ready = hd (P_Prefetch p); Length = SR_Length Ready
      in bindR (SR_Op Ready) (\<lambda>N.
           if length N < unat Length then failMessage ''short read on source''
           else bindR (ship_page Q (SR_Offset Ready) (take (unat Length) N) (p\<lparr>P_Prefetch := tl (P_Prefetch p)\<rparr>)) (\<lambda>p.
             Inr (advanced (ucast Length) (p\<lparr>P_File := (P_File p)\<lparr>Rep_LiteralBytes := Rep_LiteralBytes (P_File p) + unat Length\<rparr>\<rparr>)))))"

partial_function (option) sendWholeFile :: "'h push_env \<Rightarrow> u64 \<Rightarrow> 'h Push \<Rightarrow> 'h Push Result option" where
  "sendWholeFile Q Offset p =
     (if Offset < Meta_Size (src_Meta (the (P_Source p))) \<or> P_Prefetch p \<noteq> [] then
        (case push_fill Q Offset p of
           None \<Rightarrow> None
         | Some r \<Rightarrow>
             (case r of
                Inl e \<Rightarrow> Some (Inl e)
              | Inr (Offset, p) \<Rightarrow>
                  if P_Prefetch p = [] then Some (Inr p)
                  else
                    (case bindR (awaitSends (P_Window p - 1) p) (push_shipReady Q) of
                       Inl e \<Rightarrow> Some (Inl e)
                     | Inr p \<Rightarrow> sendWholeFile Q Offset p)))
      else Some (Inr p))"

definition deliver :: "'h push_env \<Rightarrow> Instruction \<Rightarrow> 'h Push \<Rightarrow> 'h Push Result option" where
  "deliver Q Ins p =
     (if Ins_K Ins = K_Literal then sendLiteral Q (of_nat (Ins_SrcOffset Ins)) (of_nat (Ins_DstOffset Ins)) (Ins_Length Ins) p
      else
        Some (push_send Q (Copy \<lparr>Copy_BlockIndex = of_nat (Ins_BlockIndex Ins), Copy_Count = 1, Copy_DstOffset = of_nat (Ins_DstOffset Ins)\<rparr>)
          (advanced (of_nat (length (Ins_Bytes Ins))) (push_hash Q (Ins_Bytes Ins) p))))"

text \<open>
  The sink of the scan: what delivering the instructions one by one leads to. A delivery that
  waits for ever shows as an error of its own, which no call reports.
\<close>

fun deliver_all :: "'h push_env \<Rightarrow> Instruction list \<Rightarrow> 'h Push \<Rightarrow> 'h Push Result option" where
  "deliver_all Q [] p = Some (Inr p)"
| "deliver_all Q (i # is) p =
     (case deliver Q i p of None \<Rightarrow> None | Some (Inl e) \<Rightarrow> Some (Inl e) | Some (Inr p) \<Rightarrow> deliver_all Q is p)"

definition waits :: Error where
  "waits = \<lparr>Code = Foreign (- 1), Context = ''waits for a page it holds itself''\<rparr>"

definition push_sink :: "'h push_env \<Rightarrow> 'h Push \<Rightarrow> InstructionSink" where
  "push_sink Q p es i =
     (case deliver_all Q (es @ [i]) p of None \<Rightarrow> Some waits | Some (Inl e) \<Rightarrow> Some e | Some (Inr _) \<Rightarrow> None)"

definition sendDelta :: "'h push_env \<Rightarrow> Signature \<Rightarrow> 'h Push \<Rightarrow> 'h Push Result option" where
  "sendDelta Q Sig p =
     (let S = the (P_Source p)
      in case diff (src_read S) (unat (Meta_Size (src_Meta S))) (q_strong Q) Sig (push_sink Q p) (Differ_new 32) of
           None \<Rightarrow> None
         | Some (Inl e) \<Rightarrow> if e = waits then None else Some (Inl e)
         | Some (Inr D) \<Rightarrow> map_option (map_sum id (\<lambda>p. p\<lparr>P_File := D_Rep D\<rparr>)) (deliver_all Q (D_Emitted D) p))"

definition push_confirm :: "'h push_env \<Rightarrow> 'h Push \<Rightarrow> 'h Push Result" where
  "push_confirm Q p =
     bindR (push_send Q (Done \<lparr>Done_WholeFileHash = Hasher_digest (q_X Q) (P_Whole p)\<rparr>) p) (\<lambda>p.
       reapReceipts kReceiptWindow
         (p\<lparr>P_Awaiting := P_Awaiting p @ [\<lparr>Aw_Name = P_Moving p, Aw_LiteralBytes = of_nat (Rep_LiteralBytes (P_File p)),
             Aw_MatchedBytes = of_nat (Rep_MatchedBytes (P_File p))\<rparr>]\<rparr>))"

section \<open>Items\<close>

definition entry_header :: "Item \<Rightarrow> FileHeader" where
  "entry_header It =
     \<lparr>FileHeader_Name = It_Name It, FileHeader_Size = 0, FileHeader_Mode = It_Mode It, FileHeader_Mtime = It_Mtime It,
      FileHeader_Directory = False, FileHeader_Link = False, FileHeader_Target = [], FileHeader_WantSignature = False,
      FileHeader_Streamed = False\<rparr>"

definition sendDirectory :: "'h push_env \<Rightarrow> Item \<Rightarrow> 'h Push \<Rightarrow> 'h Push Result" where
  "sendDirectory Q It p = push_send Q (FileHeader ((entry_header It)\<lparr>FileHeader_Directory := True\<rparr>)) p"

definition sendLink :: "'h push_env \<Rightarrow> Item \<Rightarrow> 'h Push \<Rightarrow> 'h Push Result" where
  "sendLink Q It p = push_send Q (FileHeader ((entry_header It)\<lparr>FileHeader_Link := True, FileHeader_Target := It_Target It\<rparr>)) p"

definition open_item :: "'h push_env \<Rightarrow> Item \<Rightarrow> 'h Push \<Rightarrow> 'h Push Result" where
  "open_item Q It p =
     (let Streaming = (O_Policy (q_Opts Q) = Never \<and> q_IsRdma Q)
      in bindR (q_open Q (It_Local It) Streaming) (\<lambda>S.
           Inr (p\<lparr>P_Streaming := Streaming, P_Source := Some S, P_Aligned := src_direct S, P_File := Report_none,
             P_Whole := Hasher_reset (q_X Q) (P_Whole p), P_Corrupted := False, P_Moving := It_Name It, P_MovingDone := 0\<rparr>)))"

definition close_item :: "'h push_env \<Rightarrow> bool \<Rightarrow> 'h Push \<Rightarrow> 'h Push Result" where
  "close_item Q Delta p =
     bindR (awaitSends 0 p) (\<lambda>p. bindR (push_confirm Q p) (\<lambda>p.
       let Size = Meta_Size (src_Meta (the (P_Source p))); F = P_File p; R = P_Rep p
       in Inr (p\<lparr>P_TagBase := P_TagBase p + tagSpan Size (O_PageSize (q_Opts Q)),
            P_Rep := \<lparr>Sum_Files = Sum_Files R + 1, Sum_FileSize = Sum_FileSize R + Size,
              Sum_LiteralBytes = Sum_LiteralBytes R + of_nat (Rep_LiteralBytes F), Sum_MatchedBytes = Sum_MatchedBytes R + of_nat (Rep_MatchedBytes F),
              Sum_HashHits = Sum_HashHits R + of_nat (Rep_HashHits F), Sum_FalseAlarms = Sum_FalseAlarms R + of_nat (Rep_FalseAlarms F),
              Sum_DeltaUsed = (Sum_DeltaUsed R \<or> Delta)\<rparr>\<rparr>)))"

definition pushOne :: "'h push_env \<Rightarrow> Item \<Rightarrow> 'h Push \<Rightarrow> 'h Push Result option" where
  "pushOne Q It p =
     (if It_Directory It then Some (sendDirectory Q It p)
      else if It_Link It then Some (sendLink Q It p)
      else
        (case bindR (open_item Q It p) (exchangeHeader Q It) of
           Inl e \<Rightarrow> Some (Inl e)
         | Inr (Sig, p) \<Rightarrow>
             let Delta = shouldUseDelta Sig (Meta_Size (src_Meta (the (P_Source p)))) (O_Policy (q_Opts Q))
             in (case (if Delta then sendDelta Q Sig p else sendWholeFile Q 0 p) of
                   None \<Rightarrow> None
                 | Some (Inl e) \<Rightarrow> Some (Inl e)
                 | Some (Inr p) \<Rightarrow> Some (close_item Q Delta p))))"

fun push_items :: "'h push_env \<Rightarrow> Item list \<Rightarrow> 'h Push \<Rightarrow> 'h Push Result option" where
  "push_items Q [] p = Some (Inr p)"
| "push_items Q (It # Items) p =
     (case pushOne Q It p of None \<Rightarrow> None | Some (Inl e) \<Rightarrow> Some (Inl e) | Some (Inr p) \<Rightarrow> push_items Q Items p)"

definition push_carry :: "'h push_env \<Rightarrow> Item list \<Rightarrow> 'h Push \<Rightarrow> 'h Push Result option" where
  "push_carry Q Items p =
     (case push_negotiate Q p of
        Inl e \<Rightarrow> Some (Inl e)
      | Inr p \<Rightarrow>
          map_option (\<lambda>r. bindR r (\<lambda>p. bindR (reapReceipts 0 p) (push_send Q End))) (push_items Q Items p))"

end
