(* ===== verification/PushSteps.thy ===== *)
theory PushSteps
  imports SessionPush
begin

text \<open>
  What the sender of a sync does on a source that does not change, over a channel that takes what
  it is given: the pages and messages that go out for a whole file and for the instructions of a
  delta, in order, with the bytes that enter the digest; and that neither window ever waits for a
  page the sender holds itself.
\<close>

definition steady_source :: "byte list \<Rightarrow> source \<Rightarrow> bool" where
  "steady_source Src S \<longleftrightarrow> Meta_Size (src_Meta S) = of_nat (length Src) \<and> length Src < 2 ^ 63 \<and>
     (\<forall>At n. src_read S At n = Inr (take n (drop At Src))) \<and> (\<forall>n At. src_submit S n At = Inr (Inr (take n (drop At Src))))"

definition push_fair :: "'h push_env \<Rightarrow> bool" where
  "push_fair Q \<longleftrightarrow> q_Backed Q \<and> (\<forall>n. q_send Q n = Inr ()) \<and> (\<forall>t. q_land Q t = Inr ()) \<and> \<not> O_FlipOneLiteralBit (q_Opts Q) \<and>
     0 < unat (O_PageSize (q_Opts Q)) \<and> unat (O_PageSize (q_Opts Q)) < 2 ^ 32"

abbreviation page_size :: "'h push_env \<Rightarrow> nat" where
  "page_size Q \<equiv> unat (O_PageSize (q_Opts Q))"

text \<open>The windows and the pool: what is read ahead and what is in flight fits.\<close>

definition push_room :: "'h push_env \<Rightarrow> 'h Push \<Rightarrow> bool" where
  "push_room Q p \<longleftrightarrow> 1 \<le> P_Window p \<and> 1 \<le> P_ReadWindow p \<and> P_Window p + P_ReadWindow p \<le> unat (O_PageCount (q_Opts Q)) \<and>
     (\<forall>Op \<in> set (P_InFlight p). is_ok Op) \<and> length (P_InFlight p) \<le> P_Window p"

lemma Push_new_room:
  assumes "2 \<le> unat (O_PageCount (q_Opts Q))" and "1 \<le> q_Depth Q"
  shows "push_room Q (Push_new Q es)"
proof -
  define n where "n = unat (O_PageCount (q_Opts Q))"
  define W where "W = max 1 (min (min (unat (O_WindowPages (q_Opts Q))) (q_MaxInFlight Q)) (n - 1))"
  have w: "1 \<le> W" "W \<le> n - 1" using assms(1) unfolding W_def n_def by (simp_all add: min.coboundedI2)
  define R where "R = min (max (n - W) 1) (q_Depth Q)"
  have "R \<le> n - W" using w assms(1) by (simp add: R_def n_def min.coboundedI1)
  then have "W + R \<le> n" using w by linarith
  moreover have "1 \<le> R" using assms(2) by (simp add: R_def)
  moreover have "P_Window (Push_new Q es) = W" "P_ReadWindow (Push_new Q es) = R" "P_InFlight (Push_new Q es) = []"
    by (simp_all add: Push_new_def Let_def W_def n_def R_def)
  ultimately show ?thesis using w by (simp add: push_room_def n_def)
qed

section \<open>One page\<close>

lemma awaitSends_ok:
  assumes "\<forall>Op \<in> set (P_InFlight p). is_ok Op"
  shows "awaitSends Keep p = Inr (p\<lparr>P_InFlight := drop (length (P_InFlight p) - Keep) (P_InFlight p)\<rparr>)"
  using join_down_ok [OF assms, of Keep] by (simp add: awaitSends_def)

text \<open>What shipping the bytes \<open>Bs\<close> for the offset \<open>k\<close> leaves of the sender.\<close>

definition shipped :: "'h push_env \<Rightarrow> nat \<Rightarrow> byte list \<Rightarrow> 'h Push \<Rightarrow> 'h Push" where
  "shipped Q k Bs p =
     p\<lparr>P_Whole := Hasher_update (q_X Q) (P_Whole p) Bs,
       P_Sent := P_Sent p @ (if P_Streaming p then [] else [Literal \<lparr>Literal_Offset = of_nat k, Literal_Length = of_nat (length Bs)\<rparr>]),
       P_InFlight := P_InFlight p @ [Inr ()], P_Pages := P_Pages p @ [(P_TagBase p + of_nat k, Bs)]\<rparr>"

lemma ship_page_ok:
  assumes "push_fair Q"
  shows "ship_page Q (of_nat k) Bs p = Inr (shipped Q k Bs p)"
  using assms by (cases p) (simp add: ship_page_def push_fair_def corruptOnceIfAsked_def push_hash_def push_send_def start_send_def shipped_def)

section \<open>A whole file\<close>

definition reads :: "byte list \<Rightarrow> SReading \<Rightarrow> nat \<times> nat \<Rightarrow> bool" where
  "reads Src R = (\<lambda>(k, l). SR_Offset R = of_nat k \<and> SR_Length R = of_nat l \<and> l < 2 ^ 32 \<and>
     (\<exists>N. SR_Op R = Inr N \<and> l \<le> length N \<and> take l N = take l (drop k Src)))"

lemma unat_min: "unat (min a b :: 'a::len word) = min (unat a) (unat b)"
  by (simp add: min_def word_le_nat_alt)

lemma fill_length:
  fixes Cap :: u64
  assumes "off < n" and "n < 2 ^ 63" and "unat Cap < 2 ^ 32"
  shows "(ucast (min Cap (of_nat n - of_nat off)) :: u32) = of_nat (min (unat Cap) (n - off))"
    and "unat (ucast (min Cap (of_nat n - of_nat off)) :: u32) = min (unat Cap) (n - off)"
proof -
  have d: "(of_nat n - of_nat off :: u64) = of_nat (n - off)" using assms(1) by simp
  have u: "unat (of_nat (n - off) :: u64) = n - off" using assms(2) by (intro unat_of_nat_small) simp
  have m: "unat (min Cap (of_nat (n - off))) = min (unat Cap) (n - off)" unfolding unat_min u ..
  then have c: "unat (ucast (min Cap (of_nat (n - off))) :: u32) = min (unat Cap) (n - off)"
    using assms(3) by (simp add: unsigned_ucast_eq take_bit_nat_eq_self min_less_iff_disj)
  then show "unat (ucast (min Cap (of_nat n - of_nat off)) :: u32) = min (unat Cap) (n - off)" unfolding d .
  show "(ucast (min Cap (of_nat n - of_nat off)) :: u32) = of_nat (min (unat Cap) (n - off))"
    unfolding d word_unat_eq_iff c using assms(3) by (simp add: unat_of_nat_small min_less_iff_disj)
qed

lemma push_fill_stop:
  "\<not> (length (P_Prefetch p) < P_ReadWindow p \<and> Offset < Meta_Size (src_Meta (the (P_Source p)))) \<Longrightarrow> push_fill Q Offset p = Some (Inr (Offset, p))"
  by (subst push_fill.simps) (simp only: Let_def if_False)

lemma push_fill_step:
  assumes "push_fair Q" and "P_Source p = Some S" and "steady_source Src S" and "off < length Src"
    and "length (P_Prefetch p) < P_ReadWindow p" and "push_held p < unat (O_PageCount (q_Opts Q))"
    and l: "l = min (page_size Q) (length Src - off)"
  obtains R where "push_fill Q (of_nat off) p = push_fill Q (of_nat (off + l)) (p\<lparr>P_Prefetch := P_Prefetch p @ [R]\<rparr>)" and "reads Src R (off, l)"
proof -
  let ?n = "length Src" and ?Cap = "O_PageSize (q_Opts Q)"
  have src: "Meta_Size (src_Meta S) = of_nat ?n" "?n < 2 ^ 63" and sub: "\<And>n At. src_submit S n At = Inr (Inr (take n (drop At Src)))"
    using assms(3) by (simp_all add: steady_source_def)
  have cap: "unat ?Cap < 2 ^ 32" using assms(1) by (simp add: push_fair_def)
  define L where "L = (ucast (min ?Cap (of_nat ?n - of_nat off)) :: u32)"
  note fl = fill_length [OF assms(4) src(2) cap, folded l L_def]
  define Ask where "Ask = (if P_Aligned p then min (push_alignUp (ucast L)) ?Cap else ucast L)"
  have l32: "l < 2 ^ 32" using cap by (simp add: l min_less_iff_disj)
  have u: "unat (ucast L :: u64) = l" using fl(2) l32 by (simp add: unsigned_ucast_eq take_bit_nat_eq_self)
  have off: "unat (of_nat off :: u64) = off" using assms(4) src(2) by (intro unat_of_nat_small) simp
  have "l \<le> unat (roundUp (ucast L :: u64))" using roundUp_le [of "ucast L :: u64"] u l32 by simp
  then have ask: "l \<le> unat Ask" using u by (auto simp: Ask_def push_alignUp_roundUp unat_min l)
  have lt: "(of_nat off :: u64) < of_nat ?n" using assms(4) src(2) off by (simp add: word_less_nat_alt unat_of_nat_small)
  have "(of_nat off + ucast L :: u64) = of_nat (off + l)" using u by (metis of_nat_add of_nat_unat ucast_id)
  moreover have "push_fill Q (of_nat off) p = push_fill Q (of_nat off + ucast L)
      (p\<lparr>P_Prefetch := P_Prefetch p @ [\<lparr>SR_Op = Inr (take (unat Ask) (drop off Src)), SR_Offset = of_nat off, SR_Length = L\<rparr>]\<rparr>)"
    using assms(1,2,5,6) lt by (subst push_fill.simps) (simp add: Let_def src(1) sub off push_fair_def not_le flip: L_def Ask_def)
  ultimately show ?thesis
    using that [of "\<lparr>SR_Op = Inr (take (unat Ask) (drop off Src)), SR_Offset = of_nat off, SR_Length = L\<rparr>"] fl(1) ask l32
    by (simp add: reads_def l)
qed

lemma push_fill_pages:
  assumes "push_fair Q" and "P_Source p = Some S" and "steady_source Src S" and "off \<le> length Src" and "push_room Q p"
  shows "\<exists>b C Rs. pages (page_size Q) off (length Src) = b @ pages (page_size Q) C (length Src) \<and> C \<le> length Src \<and>
    push_fill Q (of_nat off) p = Some (Inr (of_nat C, p\<lparr>P_Prefetch := P_Prefetch p @ Rs\<rparr>)) \<and> list_all2 (reads Src) Rs b \<and>
    (length (P_Prefetch p) < P_ReadWindow p \<and> off < length Src \<longrightarrow> Rs \<noteq> [])"
  using assms(2,4,5)
proof (induction "P_ReadWindow p - length (P_Prefetch p)" arbitrary: p off rule: less_induct)
  case less
  let ?PB = "page_size Q" and ?n = "length Src"
  show ?case
  proof (cases "length (P_Prefetch p) < P_ReadWindow p \<and> off < ?n")
    case False
    have "\<not> (of_nat off :: u64) < of_nat ?n" if "\<not> off < ?n" using that less.prems(2) by simp
    then have "push_fill Q (of_nat off) p = Some (Inr (of_nat off, p))"
      using False less.prems(1) assms(3) by (intro push_fill_stop) (auto simp: steady_source_def)
    then show ?thesis using False less.prems(2) by (intro exI [of _ "[]"] exI [of _ off]) auto
  next
    case True
    define l where "l = min ?PB (?n - off)"
    have room: "push_held p < unat (O_PageCount (q_Opts Q))" using True less.prems(3) by (simp add: push_room_def push_held_def)
    obtain R where R: "push_fill Q (of_nat off) p = push_fill Q (of_nat (off + l)) (p\<lparr>P_Prefetch := P_Prefetch p @ [R]\<rparr>)" "reads Src R (off, l)"
      using push_fill_step [OF assms(1) less.prems(1) assms(3) _ _ room l_def] True by blast
    let ?p = "p\<lparr>P_Prefetch := P_Prefetch p @ [R]\<rparr>"
    have pg: "pages ?PB off ?n = (off, l) # pages ?PB (off + l) ?n"
      using True assms(1) unfolding l_def push_fair_def by (subst pages.simps) simp
    have "P_ReadWindow ?p - length (P_Prefetch ?p) < P_ReadWindow p - length (P_Prefetch p)" "P_Source ?p = Some S" "off + l \<le> ?n" "push_room Q ?p"
      using True less.prems by (auto simp: l_def push_room_def)
    from less.hyps [OF this] obtain b C Rs where ih: "pages ?PB (off + l) ?n = b @ pages ?PB C ?n" "C \<le> ?n"
      "push_fill Q (of_nat (off + l)) ?p = Some (Inr (of_nat C, ?p\<lparr>P_Prefetch := P_Prefetch ?p @ Rs\<rparr>))" "list_all2 (reads Src) Rs b"
      by blast
    then show ?thesis using R by (intro exI [of _ "(off, l) # b"] exI [of _ C] exI [of _ "R # Rs"]) (simp add: pg)
  qed
qed

text \<open>The sender without its windows, and what a page of the file leaves of it.\<close>

definition bare :: "'h Push \<Rightarrow> 'h Push" where
  "bare p = p\<lparr>P_InFlight := [], P_Prefetch := []\<rparr>"

definition put :: "'h push_env \<Rightarrow> byte list \<Rightarrow> 'h Push \<Rightarrow> nat \<times> nat \<Rightarrow> 'h Push" where
  "put Q Src p = (\<lambda>(k, l).
     let p = shipped Q k (take l (drop k Src)) p
     in bare (p\<lparr>P_File := (P_File p)\<lparr>Rep_LiteralBytes := Rep_LiteralBytes (P_File p) + l\<rparr>, P_MovingDone := P_MovingDone p + of_nat l\<rparr>))"

lemma bare_fields [simp]:
  "P_Source (bare p) = P_Source p" "P_Streaming (bare p) = P_Streaming p" "P_TagBase (bare p) = P_TagBase p" "P_Sent (bare p) = P_Sent p"
  "P_Pages (bare p) = P_Pages p" "P_Whole (bare p) = P_Whole p" "P_File (bare p) = P_File p" "P_In (bare p) = P_In p"
  "P_Window (bare p) = P_Window p" "P_ReadWindow (bare p) = P_ReadWindow p" "P_Awaiting (bare p) = P_Awaiting p" "P_Moving (bare p) = P_Moving p"
  "P_Rep (bare p) = P_Rep p" "P_InFlight (bare p) = []" "P_Prefetch (bare p) = []" "bare (bare p) = bare p"
  by (simp_all add: bare_def)

lemma push_shipReady_page:
  assumes "push_fair Q" and "P_Prefetch p = R # Rs" and "reads Src R (k, l)" and "k + l \<le> length Src"
  shows "\<exists>p'. push_shipReady Q p = Inr p' \<and> bare p' = put Q Src (bare p) (k, l) \<and> P_Prefetch p' = Rs \<and>
    P_InFlight p' = P_InFlight p @ [Inr ()]"
proof -
  obtain N where N: "SR_Offset R = of_nat k" "SR_Length R = of_nat l" "l < 2 ^ 32" "SR_Op R = Inr N" "l \<le> length N" "take l N = take l (drop k Src)"
    using assms(3) by (auto simp: reads_def)
  have u: "unat (of_nat l :: u32) = l" using N(3) by (intro unat_of_nat_small) simp
  have c: "(ucast (of_nat l :: u32) :: u64) = of_nat l" using u N(3) by (simp add: word_unat_eq_iff unsigned_ucast_eq take_bit_nat_eq_self unat_of_nat_small)
  show ?thesis
    using assms(2) N u c ship_page_ok [OF assms(1)]
    by (cases p) (simp add: push_shipReady_def Let_def shipped_def put_def bare_def advanced_def)
qed

lemma put_fields [simp]:
  "P_Source (put Q Src p x) = P_Source p" "P_Streaming (put Q Src p x) = P_Streaming p" "P_TagBase (put Q Src p x) = P_TagBase p"
  "P_In (put Q Src p x) = P_In p" "P_Window (put Q Src p x) = P_Window p" "P_ReadWindow (put Q Src p x) = P_ReadWindow p"
  "P_Awaiting (put Q Src p x) = P_Awaiting p" "P_Moving (put Q Src p x) = P_Moving p" "P_Rep (put Q Src p x) = P_Rep p"
  by (cases x; simp add: put_def shipped_def bare_def)+

lemma bare_eq_fields:
  assumes "bare p = bare q"
  shows "P_Source p = P_Source q" "P_Window p = P_Window q" "P_ReadWindow p = P_ReadWindow q"
  using assms by (metis bare_fields)+

lemma awaitSends_room:
  assumes "push_room Q p"
  obtains p' where "awaitSends (P_Window p - 1) p = Inr p'" and "bare p' = bare p" and "P_Prefetch p' = P_Prefetch p"
    and "\<forall>Op \<in> set (P_InFlight p'). is_ok Op" and "length (P_InFlight p') < P_Window p"
proof -
  let ?fly = "drop (length (P_InFlight p) - (P_Window p - 1)) (P_InFlight p)"
  have "awaitSends (P_Window p - 1) p = Inr (p\<lparr>P_InFlight := ?fly\<rparr>)" using assms by (intro awaitSends_ok) (simp add: push_room_def)
  moreover have "length ?fly < P_Window p" using assms by (auto simp: push_room_def)
  moreover have "\<forall>Op \<in> set ?fly. is_ok Op" using assms set_drop_subset by (fastforce simp: push_room_def)
  ultimately show ?thesis using that [of "p\<lparr>P_InFlight := ?fly\<rparr>"] by (simp add: bare_def)
qed

lemma sendWholeFile_pages:
  assumes "push_fair Q" and "steady_source Src S" and "P_Source p = Some S" and "off \<le> length Src" and "push_room Q p"
    and "list_all2 (reads Src) (P_Prefetch p) b0" and "\<forall>(k, l) \<in> set b0. k + l \<le> length Src"
  shows "\<exists>p'. sendWholeFile Q (of_nat off) p = Some (Inr p') \<and> push_room Q p' \<and> P_Prefetch p' = [] \<and>
    bare p' = foldl (put Q Src) (bare p) (b0 @ pages (page_size Q) off (length Src))"
  using assms(3-7)
proof (induction "length (b0 @ pages (page_size Q) off (length Src))" arbitrary: p off b0 rule: less_induct)
  case less
  let ?PB = "page_size Q" and ?n = "length Src"
  have pb: "0 < ?PB" using assms(1) by (simp add: push_fair_def)
  have n63: "?n < 2 ^ 63" and meta: "Meta_Size (src_Meta S) = of_nat ?n" using assms(2) by (simp_all add: steady_source_def)
  have lt: "(of_nat off :: u64) < of_nat ?n \<longleftrightarrow> off < ?n" using n63 less.prems(2) by (simp add: word_less_nat_alt unat_of_nat_small)
  show ?case
  proof (cases "off < ?n \<or> P_Prefetch p \<noteq> []")
    case False
    then have n: "b0 = []" "pages ?PB off ?n = []" using less.prems(4) by (simp_all add: pages.simps)
    have "sendWholeFile Q (of_nat off) p = Some (Inr p)" using False less.prems(1) lt meta by (subst sendWholeFile.simps) simp
    then show ?thesis using n False less.prems(3) by simp
  next
    case True
    obtain b C Rs where f: "pages ?PB off ?n = b @ pages ?PB C ?n" "C \<le> ?n"
      "push_fill Q (of_nat off) p = Some (Inr (of_nat C, p\<lparr>P_Prefetch := P_Prefetch p @ Rs\<rparr>))" "list_all2 (reads Src) Rs b"
      "length (P_Prefetch p) < P_ReadWindow p \<and> off < ?n \<longrightarrow> Rs \<noteq> []"
      using push_fill_pages [OF assms(1) less.prems(1) assms(2) less.prems(2,3)] by blast
    let ?p1 = "p\<lparr>P_Prefetch := P_Prefetch p @ Rs\<rparr>"
    have l2: "list_all2 (reads Src) (P_Prefetch ?p1) (b0 @ b)" using less.prems(4) f(4) by (simp add: list_all2_appendI)
    have "P_Prefetch ?p1 \<noteq> []" using True f(5) less.prems(3) by (auto simp: push_room_def)
    then obtain R Rs' k l ps where R: "P_Prefetch ?p1 = R # Rs'" "b0 @ b = (k, l) # ps" "reads Src R (k, l)" "list_all2 (reads Src) Rs' ps"
      using l2 by (cases "P_Prefetch ?p1"; cases "b0 @ b") auto
    have fits: "\<forall>(k, l) \<in> set (b0 @ b). k + l \<le> ?n" using less.prems(5) pages_bounds [of _ _ ?PB off ?n] f(1) by fastforce
    have "push_room Q ?p1" using less.prems(3) by (simp add: push_room_def)
    then obtain p2 where p2: "awaitSends (P_Window ?p1 - 1) ?p1 = Inr p2" "bare p2 = bare ?p1" "P_Prefetch p2 = P_Prefetch ?p1"
      "\<forall>Op \<in> set (P_InFlight p2). is_ok Op" "length (P_InFlight p2) < P_Window ?p1"
      by (rule awaitSends_room)
    obtain p3 where p3: "push_shipReady Q p2 = Inr p3" "bare p3 = put Q Src (bare p2) (k, l)" "P_Prefetch p3 = Rs'" "P_InFlight p3 = P_InFlight p2 @ [Inr ()]"
      using push_shipReady_page [OF assms(1) _ R(3), of p2 Rs'] p2(3) R(1,2) fits by auto
    have same: "P_Source p3 = P_Source p" "P_Window p3 = P_Window p" "P_ReadWindow p3 = P_ReadWindow p"
      using arg_cong [OF p3(2), of P_Source] arg_cong [OF p3(2), of P_Window] arg_cong [OF p3(2), of P_ReadWindow] bare_eq_fields [OF p2(2)] by simp_all
    have "sendWholeFile Q (of_nat off) p = sendWholeFile Q (of_nat C) p3"
      using True less.prems(1) lt meta f(3) R(1) p2(1) p3(1) by (subst sendWholeFile.simps) simp
    moreover have "\<exists>p'. sendWholeFile Q (of_nat C) p3 = Some (Inr p') \<and> push_room Q p' \<and> P_Prefetch p' = [] \<and>
      bare p' = foldl (put Q Src) (bare p3) (ps @ pages ?PB C ?n)"
    proof (rule less.hyps)
      have "length (b0 @ pages ?PB off ?n) = Suc (length (ps @ pages ?PB C ?n))" using R(2) f(1) by (metis append.assoc length_Cons append_Cons)
      then show "length (ps @ pages ?PB C ?n) < length (b0 @ pages ?PB off ?n)" by simp
      show "push_room Q p3" using less.prems(3) same p2(4,5) p3(4) by (simp add: push_room_def)
    qed (use same less.prems(1) f(2) R p3(3) fits in auto)
    moreover have "foldl (put Q Src) (bare p3) (ps @ pages ?PB C ?n) = foldl (put Q Src) (bare p) (b0 @ pages ?PB off ?n)"
    proof -
      have "bare p2 = bare p" using p2(2) by (simp add: bare_def)
      then have "bare p3 = foldl (put Q Src) (bare p) [(k, l)]" using p3(2) by simp
      moreover have "b0 @ pages ?PB off ?n = [(k, l)] @ ps @ pages ?PB C ?n" using R(2) f(1) by (metis append.assoc append_Cons append_Nil)
      ultimately show ?thesis by (simp only: foldl_append)
    qed
    ultimately show ?thesis by simp
  qed
qed

section \<open>The instructions of a delta\<close>

text \<open>A page of a literal, which the scan counts and not the sender.\<close>

definition lit :: "'h push_env \<Rightarrow> byte list \<Rightarrow> 'h Push \<Rightarrow> nat \<times> nat \<Rightarrow> 'h Push" where
  "lit Q Src p = (\<lambda>(k, l). bare (advanced (of_nat l) (shipped Q k (take l (drop k Src)) p)))"

definition copied :: "'h push_env \<Rightarrow> Instruction \<Rightarrow> 'h Push \<Rightarrow> 'h Push" where
  "copied Q i p = (advanced (of_nat (length (Ins_Bytes i))) (push_hash Q (Ins_Bytes i) p))\<lparr>P_Sent := P_Sent p @
     [Copy \<lparr>Copy_BlockIndex = of_nat (Ins_BlockIndex i), Copy_Count = 1, Copy_DstOffset = of_nat (Ins_DstOffset i)\<rparr>]\<rparr>"

definition told :: "'h push_env \<Rightarrow> byte list \<Rightarrow> 'h Push \<Rightarrow> Instruction \<Rightarrow> 'h Push" where
  "told Q Src p i =
     (if Ins_K i = K_Literal then foldl (lit Q Src) p (pages (page_size Q) (Ins_SrcOffset i) (Ins_SrcOffset i + Ins_Length i)) else copied Q i p)"

lemma lit_fields [simp]:
  "P_Source (lit Q Src p x) = P_Source p" "P_Window (lit Q Src p x) = P_Window p" "P_ReadWindow (lit Q Src p x) = P_ReadWindow p"
  by (cases x; simp add: lit_def shipped_def bare_def advanced_def)+

lemma sendPage_lit:
  assumes "push_fair Q" and "steady_source Src S" and "P_Source p = Some S" and "push_held p < unat (O_PageCount (q_Opts Q))"
    and "0 < n" and "k + n \<le> length Src" and l: "l = min (page_size Q) n"
  shows "\<exists>p'. sendPage Q (of_nat k) (of_nat k) n p = Some (Inr (l, p')) \<and> bare (advanced (of_nat l) p') = lit Q Src (bare p) (k, l) \<and>
    P_Prefetch p' = P_Prefetch p \<and> P_InFlight p' = P_InFlight p @ [Inr ()]"
proof -
  have k: "unat (of_nat k :: u64) = k" using assms(2,6) by (intro unat_of_nat_small) (simp add: steady_source_def)
  have len: "length (take l (drop k Src)) = l" using assms(6) by (simp add: l min.coboundedI2)
  have "0 < l" using assms(1,5) by (simp add: l push_fair_def)
  then have ne: "take l (drop k Src) \<noteq> []" using len by (metis length_greater_0_conv)
  have "sendPage Q (of_nat k) (of_nat k) n p = Some (Inr (l, shipped Q k (take l (drop k Src)) p))"
    using assms(1-4) k ne len ship_page_ok [OF assms(1), of k "take l (drop k Src)" p]
    by (simp add: sendPage_def push_fair_def steady_source_def not_le flip: l)
  then show ?thesis by (simp add: lit_def bare_def advanced_def shipped_def)
qed

lemma sendLiteral_pages:
  assumes "push_fair Q" and "steady_source Src S" and "P_Source p = Some S" and "push_room Q p" and "P_Prefetch p = []" and "k + n \<le> length Src"
  shows "\<exists>p'. sendLiteral Q (of_nat k) (of_nat k) n p = Some (Inr p') \<and> push_room Q p' \<and> P_Prefetch p' = [] \<and> P_Source p' = Some S \<and>
    bare p' = foldl (lit Q Src) (bare p) (pages (page_size Q) k (k + n))"
  using assms(3-6)
proof (induction n arbitrary: k p rule: less_induct)
  case (less n)
  let ?PB = "page_size Q"
  show ?case
  proof (cases "0 < n")
    case False
    then show ?thesis using less.prems by (simp add: sendLiteral.simps [of Q _ _ 0] pages.simps)
  next
    case True
    define l where "l = min ?PB n"
    have pb: "0 < ?PB" using assms(1) by (simp add: push_fair_def)
    have l: "0 < l" "l \<le> n" using True pb by (simp_all add: l_def)
    have pg: "pages ?PB k (k + n) = (k, l) # pages ?PB (k + l) (k + l + (n - l))"
      using True pb l(2) by (subst pages.simps) (simp add: l_def)
    obtain p1 where p1: "awaitSends (P_Window p - 1) p = Inr p1" "bare p1 = bare p" "P_Prefetch p1 = P_Prefetch p"
      "\<forall>Op \<in> set (P_InFlight p1). is_ok Op" "length (P_InFlight p1) < P_Window p"
      by (rule awaitSends_room [OF less.prems(2)])
    note b1 = bare_eq_fields [OF p1(2)]
    have held: "push_held p1 < unat (O_PageCount (q_Opts Q))" using p1(3,5) less.prems(2,3) by (simp add: push_held_def push_room_def)
    obtain p2 where p2: "sendPage Q (of_nat k) (of_nat k) n p1 = Some (Inr (l, p2))" "bare (advanced (of_nat l) p2) = lit Q Src (bare p1) (k, l)"
      "P_Prefetch p2 = P_Prefetch p1" "P_InFlight p2 = P_InFlight p1 @ [Inr ()]"
      using sendPage_lit [OF assms(1,2) _ held True less.prems(4) l_def] b1(1) less.prems(1) by auto
    let ?p3 = "advanced (of_nat l) p2"
    have same: "P_Source ?p3 = Some S" "P_Window ?p3 = P_Window p" "P_ReadWindow ?p3 = P_ReadWindow p" "P_InFlight ?p3 = P_InFlight p2" "P_Prefetch ?p3 = []"
      using arg_cong [OF p2(2), of P_Source] arg_cong [OF p2(2), of P_Window] arg_cong [OF p2(2), of P_ReadWindow] b1 less.prems(1,3) p1(3) p2(3)
      by (simp_all add: advanced_def)
    have step: "sendLiteral Q (of_nat k) (of_nat k) n p = sendLiteral Q (of_nat (k + l)) (of_nat (k + l)) (n - l) ?p3"
      using True p1(1) p2(1) by (subst sendLiteral.simps) simp
    have "push_room Q ?p3" using less.prems(2) same p1(4,5) p2(4) by (simp add: push_room_def)
    then obtain p' where "sendLiteral Q (of_nat (k + l)) (of_nat (k + l)) (n - l) ?p3 = Some (Inr p')" "push_room Q p'" "P_Prefetch p' = []" "P_Source p' = Some S"
      "bare p' = foldl (lit Q Src) (bare ?p3) (pages ?PB (k + l) (k + l + (n - l)))"
      using less.IH [of "n - l" ?p3 "k + l"] l same(1,5) less.prems(4) by auto
    then show ?thesis using step p1(2) p2(2) by (simp add: pg)
  qed
qed

end
