(* ===== verification/PushDelta.thy ===== *)
theory PushDelta
  imports PushSteps
begin

text \<open>
  The instructions of a delta as the sender delivers them: the scan meets the sender's own sink as
  if it took everything, and what goes out are the instructions in order, a literal in pages.
\<close>

text \<open>Instructions that lay the source out from an offset to its end, with whole blocks of the basis as copies.\<close>

fun lays :: "byte list \<Rightarrow> nat \<Rightarrow> byte list \<Rightarrow> nat \<Rightarrow> Instruction list \<Rightarrow> bool" where
  "lays Basis B Src At [] \<longleftrightarrow> At = length Src"
| "lays Basis B Src At (i # is) \<longleftrightarrow>
     Ins_SrcOffset i = At \<and> Ins_DstOffset i = At \<and> 0 < Ins_Length i \<and> At + Ins_Length i \<le> length Src \<and>
     (Ins_K i = K_Copy \<longrightarrow> Ins_Bytes i = take (Ins_Length i) (drop At Src) \<and> take B (drop (Ins_BlockIndex i * B) Basis) = Ins_Bytes i) \<and>
     lays Basis B Src (At + Ins_Length i) is"

lemma rebuild_lays:
  assumes "rebuild Basis B Src At E = Some (drop At Src)" and "At \<le> length Src"
    and "list_all (\<lambda>i. Ins_DstOffset i = Ins_SrcOffset i \<and> 0 < Ins_Length i \<and>
       (Ins_K i = K_Copy \<longrightarrow> Ins_Bytes i = take (Ins_Length i) (drop (Ins_SrcOffset i) Src) \<and>
         Ins_Length i = length (take B (drop (Ins_BlockIndex i * B) Basis)))) E"
  shows "lays Basis B Src At E"
  using assms
proof (induction E arbitrary: At)
  case Nil
  then show ?case by auto
next
  case (Cons i E)
  let ?l = "Ins_Length i"
  obtain out where r: "Ins_DstOffset i = At" "length (piece Basis B Src i) = ?l" "rebuild Basis B Src (At + ?l) E = Some out"
    "drop At Src = piece Basis B Src i @ out"
    using Cons.prems(1) by (auto split: if_splits)
  have p: "piece Basis B Src i = take ?l (drop At Src)" and o: "out = drop (At + ?l) Src"
    using r(2,4) by (simp, metis append_eq_conv_conj drop_drop add.commute)
  have le: "At + ?l \<le> length Src" using r(2) p Cons.prems(2,3) by auto
  have "take B (drop (Ins_BlockIndex i * B) Basis) = Ins_Bytes i" if "Ins_K i = K_Copy"
  proof -
    have "?l = length (take B (drop (Ins_BlockIndex i * B) Basis))" "Ins_Bytes i = take ?l (drop At Src)" using Cons.prems(3) that r(1) by auto
    moreover have "piece Basis B Src i = take ?l (drop (Ins_BlockIndex i * B) Basis)" using that by (simp add: piece_def)
    ultimately show ?thesis using p by (metis append_take_drop_id take_append_length)
  qed
  then show ?case using Cons.IH [of "At + ?l"] Cons.prems(3) r(1,3) o le by auto
qed

lemma covered_lays: "covered Basis B Src D (length Src) \<Longrightarrow> lays Basis B Src 0 (D_Emitted D)"
  by (rule rebuild_lays) (auto simp: covered_def list_all_iff)

section \<open>Delivering\<close>

lemma copied_fields [simp]:
  "P_Source (copied Q i p) = P_Source p" "P_Window (copied Q i p) = P_Window p" "P_ReadWindow (copied Q i p) = P_ReadWindow p"
  "P_InFlight (copied Q i p) = P_InFlight p" "P_Prefetch (copied Q i p) = P_Prefetch p" "bare (copied Q i p) = copied Q i (bare p)"
  by (simp_all add: copied_def advanced_def push_hash_def bare_def)

lemma deliver_told:
  assumes "push_fair Q" and "steady_source Src S" and "P_Source p = Some S" and "push_room Q p" and "P_Prefetch p = []"
    and "Ins_DstOffset i = Ins_SrcOffset i" and "Ins_SrcOffset i + Ins_Length i \<le> length Src"
  shows "\<exists>p'. deliver Q i p = Some (Inr p') \<and> push_room Q p' \<and> P_Prefetch p' = [] \<and> P_Source p' = Some S \<and> bare p' = told Q Src (bare p) i"
proof (cases "Ins_K i = K_Literal")
  case True
  then show ?thesis using sendLiteral_pages [OF assms(1-5,7)] assms(6) by (simp add: deliver_def told_def)
next
  case False
  have "deliver Q i p = Some (Inr (copied Q i p))"
    using False assms(1) by (simp add: deliver_def push_send_def push_fair_def copied_def advanced_def push_hash_def)
  then show ?thesis using False assms(3-5) by (simp add: told_def push_room_def)
qed

lemma deliver_all_told:
  assumes "push_fair Q" and "steady_source Src S" and "P_Source p = Some S" and "push_room Q p" and "P_Prefetch p = []" and "lays Basis B Src At E"
  shows "\<exists>p'. deliver_all Q E p = Some (Inr p') \<and> push_room Q p' \<and> P_Prefetch p' = [] \<and> P_Source p' = Some S \<and> bare p' = foldl (told Q Src) (bare p) E"
  using assms(3-6)
proof (induction E arbitrary: p At)
  case (Cons i E)
  obtain p1 where p1: "deliver Q i p = Some (Inr p1)" "push_room Q p1" "P_Prefetch p1 = []" "P_Source p1 = Some S" "bare p1 = told Q Src (bare p) i"
    using deliver_told [OF assms(1,2) Cons.prems(1-3), of i] Cons.prems(4) by auto
  then show ?case using Cons.IH [OF p1(4,2,3)] Cons.prems(4) by auto
qed auto

lemma deliver_all_append:
  "deliver_all Q (es @ fs) p = (case deliver_all Q es p of None \<Rightarrow> None | Some (Inl e) \<Rightarrow> Some (Inl e) | Some (Inr p) \<Rightarrow> deliver_all Q fs p)"
  by (induction es arbitrary: p) (auto split: option.split sum.split)

lemma push_sink_agrees: "deliver_all Q E p = Some (Inr p') \<Longrightarrow> agree (push_sink Q p) E"
  by (auto simp: agree_def push_sink_def deliver_all_append split: option.splits sum.splits)

text \<open>The scan of the source against the signature of the basis.\<close>

lemma scan_lays:
  assumes "steady_source Src S" and "length Basis < 2 ^ 63" and "BlockLength \<noteq> 0" and "length (blocks (unat BlockLength) Basis) < 2 ^ 31"
    and "unat BlockLength < kMaxWindow \<or> length Src \<le> kMaxWindow"
    and "buildSignature (\<lambda>Offset n. FileReader_read Basis (calm_schedule (bsched Offset n)) Offset n)
        (of_nat (length Basis)) strong BlockLength StrongLength = Inr Sig"
    and "no_collision strong Sig Basis Src"
  obtains D where "diff (src_read S) (length Src) strong Sig take_all (Differ_new 32) = Some (Inr D)"
    and "lays Basis (unat BlockLength) Src 0 (D_Emitted D)" and "tallied D"
proof -
  have n: "length Src < 2 ^ 63" using assms(1) by (simp add: steady_source_def)
  have rd: "src_read S = (\<lambda>Offset n. FileReader_read Src (calm_schedule ([] :: nat option list)) Offset n)"
    using assms(1) reader.rd_full [of Src "\<lambda>_ _. []"] by (simp add: steady_source_def fun_eq_iff)
  obtain r where r: "diff (src_read S) (length Src) strong Sig take_all (Differ_new 32) = Some r" "accepts take_all \<longrightarrow> is_ok r"
    "\<forall>D. r = Inr D \<longrightarrow> covered Basis (unat BlockLength) Src D (length Src)"
    using diff_covers [OF n assms(2-7), of "\<lambda>_ _. []" take_all] unfolding rd by blast
  then obtain D where D: "r = Inr D" by (cases r) (auto simp: accepts_def take_all_def)
  have "lays Basis (unat BlockLength) Src 0 (D_Emitted D)" using r(3) D covered_lays by blast
  then show ?thesis using that r(1) D diff_agree(1) [OF r(1) [unfolded D]] by blast
qed

text \<open>Its delivery.\<close>

lemma sendDelta_told:
  assumes "push_fair Q" and "steady_source Src S" and "P_Source p = Some S" and "push_room Q p" and "P_Prefetch p = []"
    and "diff (src_read S) (length Src) (q_strong Q) Sig take_all (Differ_new 32) = Some (Inr D)"
    and "lays Basis B Src 0 (D_Emitted D)"
  shows "\<exists>p'. sendDelta Q Sig p = Some (Inr p') \<and> push_room Q p' \<and> P_Prefetch p' = [] \<and>
    bare p' = (foldl (told Q Src) (bare p) (D_Emitted D))\<lparr>P_File := D_Rep D\<rparr>"
proof -
  have n: "unat (Meta_Size (src_Meta S)) = length Src" using assms(2) by (auto simp: steady_source_def unat_of_nat_small)
  obtain p' where p': "deliver_all Q (D_Emitted D) p = Some (Inr p')" "push_room Q p'" "P_Prefetch p' = []"
    "bare p' = foldl (told Q Src) (bare p) (D_Emitted D)"
    using deliver_all_told [OF assms(1-5,7)] by blast
  have "sendDelta Q Sig p = Some (Inr (p'\<lparr>P_File := D_Rep D\<rparr>))"
    using diff_agree(2) [OF assms(6) push_sink_agrees [OF p'(1)]] p'(1) assms(3) n by (simp add: sendDelta_def)
  moreover have "bare (p'\<lparr>P_File := D_Rep D\<rparr>) = (foldl (told Q Src) (bare p) (D_Emitted D))\<lparr>P_File := D_Rep D\<rparr>"
    unfolding p'(4) [symmetric] by (simp add: bare_def)
  ultimately show ?thesis using p'(2,3) by (intro exI [of _ "p'\<lparr>P_File := D_Rep D\<rparr>"]) (simp add: push_room_def)
qed

end
