(* ===== verification/SyncPieces.thy ===== *)
theory SyncPieces
  imports SyncBase PageLayout Checksum
begin

text \<open>
  What both ends of a sync agree on: messages in a row on the control channel, and the pieces of a
  file, each a page of the source or a block of the receiver's own file.
\<close>

section \<open>Messages on the control channel\<close>

definition small :: "Message \<Rightarrow> bool" where
  "small M \<longleftrightarrow> wf_Message M \<and> length (encode M) \<le> unat kMaxFrame"

definition carries :: "rx_event list \<Rightarrow> Message list \<Rightarrow> byte list \<Rightarrow> bool" where
  "carries es Ms rest \<longleftrightarrow> live es \<and> flow es = concat (map frame Ms) @ rest \<and> list_all small Ms"

lemma receive_carries:
  assumes "carries es (M # Ms) rest"
  obtains es' where "receive es = (Inr M, es')" and "carries es' Ms rest"
  using receive_frame [of M es "concat (map frame Ms) @ rest"] assms by (auto simp: carries_def small_def)

section \<open>The pieces of a file\<close>

datatype piece = PLit nat "byte list" | PCopy nat nat "byte list"

fun piece_at :: "piece \<Rightarrow> nat" where
  "piece_at (PLit k bs) = k"
| "piece_at (PCopy i k bs) = k"

fun piece_bytes :: "piece \<Rightarrow> byte list" where
  "piece_bytes (PLit k bs) = bs"
| "piece_bytes (PCopy i k bs) = bs"

fun piece_message :: "piece \<Rightarrow> Message" where
  "piece_message (PLit k bs) = Literal \<lparr>Literal_Offset = of_nat k, Literal_Length = of_nat (length bs)\<rparr>"
| "piece_message (PCopy i k bs) = Copy \<lparr>Copy_BlockIndex = of_nat i, Copy_Count = 1, Copy_DstOffset = of_nat k\<rparr>"

fun literal_bytes :: "piece \<Rightarrow> nat" where
  "literal_bytes (PLit k bs) = length bs"
| "literal_bytes (PCopy i k bs) = 0"

fun matched_bytes :: "piece \<Rightarrow> nat" where
  "matched_bytes (PLit k bs) = 0"
| "matched_bytes (PCopy i k bs) = length bs"

text \<open>Pieces that follow one another from an offset to the end of the source.\<close>

fun consecutive :: "byte list \<Rightarrow> nat \<Rightarrow> piece list \<Rightarrow> bool" where
  "consecutive Src At [] \<longleftrightarrow> At = length Src"
| "consecutive Src At (x # xs) \<longleftrightarrow>
     piece_at x = At \<and> piece_bytes x = take (length (piece_bytes x)) (drop At Src) \<and> piece_bytes x \<noteq> [] \<and>
     At + length (piece_bytes x) \<le> length Src \<and> consecutive Src (At + length (piece_bytes x)) xs"

text \<open>Pages of the source, as pieces.\<close>

definition literals :: "byte list \<Rightarrow> (nat \<times> nat) list \<Rightarrow> piece list" where
  "literals Src = map (\<lambda>(k, l). PLit k (take l (drop k Src)))"

lemma literals_simps [simp]:
  "literals Src [] = []" "literals Src ((k, l) # ps) = PLit k (take l (drop k Src)) # literals Src ps"
  "literals Src (ps @ qs) = literals Src ps @ literals Src qs"
  by (simp_all add: literals_def)

lemma consecutive_literals:
  "0 < PB \<Longrightarrow> At \<le> Stop \<Longrightarrow> Stop \<le> length Src \<Longrightarrow> consecutive Src Stop ys \<Longrightarrow> consecutive Src At (literals Src (pages PB At Stop) @ ys)"
proof (induction PB At Stop rule: pages.induct)
  case (1 PB At Stop)
  show ?case
  proof (cases "At < Stop")
    case True
    define l where "l = min PB (Stop - At)"
    have pg: "pages PB At Stop = (At, l) # pages PB (At + l) Stop" using True "1.prems"(1) by (subst pages.simps) (simp add: l_def)
    have l: "0 < l" "At + l \<le> Stop" using True "1.prems"(1) by (auto simp: l_def)
    have "consecutive Src (At + l) (literals Src (pages PB (At + l) Stop) @ ys)" using "1.IH" True "1.prems" l by (simp add: l_def)
    moreover have "length (take l (drop At Src)) = l" using l "1.prems"(3) by simp
    moreover have "take l (drop At Src) \<noteq> []" using calculation(2) l(1) by (metis length_0_conv less_irrefl)
    ultimately show ?thesis using l "1.prems"(3) unfolding pg by simp
  next
    case False
    then show ?thesis using "1.prems" by (simp add: pages.simps)
  qed
qed

lemma literals_tally:
  "0 < PB \<Longrightarrow> At \<le> Stop \<Longrightarrow> Stop \<le> length Src \<Longrightarrow>
    (\<Sum>x\<leftarrow>literals Src (pages PB At Stop). literal_bytes x) = Stop - At \<and> (\<Sum>x\<leftarrow>literals Src (pages PB At Stop). matched_bytes x) = 0"
proof (induction PB At Stop rule: pages.induct)
  case (1 PB At Stop)
  show ?case
  proof (cases "At < Stop")
    case True
    define l where "l = min PB (Stop - At)"
    have pg: "pages PB At Stop = (At, l) # pages PB (At + l) Stop" using True "1.prems"(1) by (subst pages.simps) (simp add: l_def)
    have l: "0 < l" "At + l \<le> Stop" using True "1.prems"(1) by (auto simp: l_def)
    then show ?thesis using "1.IH" True "1.prems" unfolding pg by (simp add: l_def [symmetric])
  next
    case False
    then show ?thesis using "1.prems" by (simp add: pages.simps)
  qed
qed

text \<open>The tags and bytes of the pages among the pieces of a file whose tags start at \<open>Tag\<close>.\<close>

fun piece_page :: "u64 \<Rightarrow> piece \<Rightarrow> (u64 \<times> byte list) list" where
  "piece_page Tag (PLit k bs) = [(Tag + of_nat k, bs)]"
| "piece_page Tag (PCopy i k bs) = []"

definition piece_pages :: "u64 \<Rightarrow> piece list \<Rightarrow> (u64 \<times> byte list) list" where
  "piece_pages Tag xs = concat (map (piece_page Tag) xs)"

lemma piece_pages_simps [simp]:
  "piece_pages Tag [] = []" "piece_pages Tag (x # xs) = piece_page Tag x @ piece_pages Tag xs"
  "piece_pages Tag (xs @ ys) = piece_pages Tag xs @ piece_pages Tag ys"
  by (simp_all add: piece_pages_def)

text \<open>The digest that closes a file, and the receipt that answers it.\<close>

definition digest_of :: "'h xxlib \<Rightarrow> byte list list \<Rightarrow> Digest" where
  "digest_of X bss = Hasher_digest X (foldl (Hasher_update X) (Hasher_new X XxH3) bss)"

abbreviation receipt :: "nat \<Rightarrow> nat \<Rightarrow> Receipt" where
  "receipt L M \<equiv> \<lparr>Receipt_LiteralBytes = of_nat L, Receipt_MatchedBytes = of_nat M, Receipt_HashHits = 0, Receipt_FalseAlarms = 0\<rparr>"

abbreviation no_signature :: Signature where
  "no_signature \<equiv> \<lparr>Signature_BlockLength = 0, Signature_StrongLength = 0, Signature_FileLength = 0, Signature_Sums = []\<rparr>"

end
