(* ===== verification/PushFile.thy ===== *)
theory PushFile
  imports PushDelta SyncPieces
begin

text \<open>
  One file as the sender of a sync sends it: the pieces it is cut into, and what goes out for them
  on the two channels, with the receipts that come back.
\<close>

section \<open>Pieces going out\<close>

text \<open>\<open>goes_out\<close>: from one state to another the sender has put out the pieces \<open>xs\<close>.\<close>

definition goes_out :: "'h push_env \<Rightarrow> piece list \<Rightarrow> 'h Push \<Rightarrow> 'h Push \<Rightarrow> bool" where
  "goes_out Q xs p p' \<longleftrightarrow>
     P_Sent p' = P_Sent p @ (if P_Streaming p then [] else map piece_message xs) \<and> P_Pages p' = P_Pages p @ piece_pages (P_TagBase p) xs \<and>
     P_Whole p' = foldl (Hasher_update (q_X Q)) (P_Whole p) (map piece_bytes xs) \<and>
     P_Streaming p' = P_Streaming p \<and> P_TagBase p' = P_TagBase p \<and> P_In p' = P_In p \<and> P_Source p' = P_Source p \<and> P_Awaiting p' = P_Awaiting p \<and>
     P_Moving p' = P_Moving p \<and> P_Rep p' = P_Rep p \<and> P_Window p' = P_Window p \<and> P_ReadWindow p' = P_ReadWindow p"

lemma goes_out_refl: "goes_out Q [] p p"
  by (simp add: goes_out_def)

lemma goes_out_trans: "goes_out Q xs p p1 \<Longrightarrow> goes_out Q ys p1 p2 \<Longrightarrow> goes_out Q (xs @ ys) p p2"
  by (simp add: goes_out_def)

lemma goes_out_bare: "goes_out Q xs (bare p) p' \<Longrightarrow> bare p2 = p' \<Longrightarrow> goes_out Q xs p p2"
  by (auto simp: goes_out_def)

lemma goes_out_put:
  assumes "k + l \<le> length Src"
  shows "goes_out Q [PLit k (take l (drop k Src))] p (put Q Src p (k, l))"
  using assms by (simp add: goes_out_def put_def shipped_def bare_def)

lemma goes_out_lit:
  assumes "k + l \<le> length Src"
  shows "goes_out Q [PLit k (take l (drop k Src))] p (lit Q Src p (k, l))"
  using assms by (simp add: goes_out_def lit_def shipped_def bare_def advanced_def)

lemma goes_out_copied:
  "\<not> P_Streaming p \<Longrightarrow> goes_out Q [PCopy (Ins_BlockIndex i) (Ins_DstOffset i) (Ins_Bytes i)] p (copied Q i p)"
  by (simp add: goes_out_def copied_def push_hash_def advanced_def)

lemma goes_out_fold:
  assumes "\<And>p x. x \<in> set ps \<Longrightarrow> goes_out Q (literals Src [x]) p (step p x)"
  shows "goes_out Q (literals Src ps) p (foldl step p ps)"
  using assms
proof (induction ps arbitrary: p)
  case (Cons x ps)
  have "goes_out Q (literals Src [x] @ literals Src ps) p (foldl step (step p x) ps)"
    by (rule goes_out_trans [of _ _ _ "step p x"]) (use Cons in auto)
  then show ?case by (cases x) simp
qed (simp add: goes_out_refl)

lemma goes_out_whole:
  "goes_out Q (literals Src (pages PB At (length Src))) p (foldl (put Q Src) p (pages PB At (length Src)))"
  by (rule goes_out_fold) (use pages_bounds goes_out_put in fastforce)

text \<open>The pieces of an instruction.\<close>

definition pieces_of :: "nat \<Rightarrow> byte list \<Rightarrow> Instruction \<Rightarrow> piece list" where
  "pieces_of PB Src i =
     (if Ins_K i = K_Literal then literals Src (pages PB (Ins_SrcOffset i) (Ins_SrcOffset i + Ins_Length i))
      else [PCopy (Ins_BlockIndex i) (Ins_DstOffset i) (Ins_Bytes i)])"

lemma goes_out_told:
  assumes "\<not> P_Streaming p" and "Ins_SrcOffset i + Ins_Length i \<le> length Src"
  shows "goes_out Q (pieces_of (page_size Q) Src i) p (told Q Src p i)"
proof (cases "Ins_K i = K_Literal")
  case True
  have "k + l \<le> length Src" if "(k, l) \<in> set (pages (page_size Q) (Ins_SrcOffset i) (Ins_SrcOffset i + Ins_Length i))" for k l
    using pages_bounds [OF that] assms(2) by simp
  then have "goes_out Q (literals Src (pages (page_size Q) (Ins_SrcOffset i) (Ins_SrcOffset i + Ins_Length i))) p
      (foldl (lit Q Src) p (pages (page_size Q) (Ins_SrcOffset i) (Ins_SrcOffset i + Ins_Length i)))"
    by (intro goes_out_fold) (metis goes_out_lit literals_simps(1,2) surj_pair)
  then show ?thesis using True by (simp add: pieces_of_def told_def)
next
  case False
  then show ?thesis using goes_out_copied [OF assms(1)] by (simp add: pieces_of_def told_def)
qed

lemma goes_out_delta:
  assumes "\<not> P_Streaming p" and "lays Basis B Src At E"
  shows "goes_out Q (concat (map (pieces_of (page_size Q) Src) E)) p (foldl (told Q Src) p E)"
  using assms
proof (induction E arbitrary: p At)
  case (Cons i E)
  have g: "goes_out Q (pieces_of (page_size Q) Src i) p (told Q Src p i)" using Cons.prems by (intro goes_out_told) auto
  then have "\<not> P_Streaming (told Q Src p i)" using Cons.prems(1) by (simp add: goes_out_def)
  then show ?case using goes_out_trans [OF g] Cons.IH Cons.prems(2) by auto
qed (simp add: goes_out_refl)

section \<open>The pieces of a delta\<close>

lemma pieces_of_literal:
  assumes "Ins_K i = K_Literal" and "0 < PB" and "Ins_SrcOffset i + Ins_Length i \<le> length Src"
  shows "(\<Sum>x\<leftarrow>pieces_of PB Src i. literal_bytes x) = Ins_Length i \<and> (\<Sum>x\<leftarrow>pieces_of PB Src i. matched_bytes x) = 0"
  using literals_tally [of PB "Ins_SrcOffset i" "Ins_SrcOffset i + Ins_Length i" Src] assms by (simp add: pieces_of_def)

lemma Kind_cases: "k \<noteq> K_Literal \<longleftrightarrow> k = K_Copy"
  by (cases k) simp_all

lemma delta_pieces:
  assumes "lays Basis B Src At E" and "0 < PB"
  defines "xs \<equiv> concat (map (pieces_of PB Src) E)"
  shows "consecutive Src At xs \<and> (\<Sum>x\<leftarrow>xs. literal_bytes x) = bytes_of K_Literal E \<and> (\<Sum>x\<leftarrow>xs. matched_bytes x) = bytes_of K_Copy E"
  unfolding xs_def using assms(1)
proof (induction E arbitrary: At)
  case (Cons i E)
  have i: "Ins_SrcOffset i = At" "Ins_DstOffset i = At" "0 < Ins_Length i" "At + Ins_Length i \<le> length Src"
    "Ins_K i = K_Copy \<longrightarrow> Ins_Bytes i = take (Ins_Length i) (drop At Src)"
    using Cons.prems by simp_all
  note ih = Cons.IH [of "At + Ins_Length i"]
  show ?case
  proof (cases "Ins_K i = K_Literal")
    case True
    then show ?thesis using ih Cons.prems i pieces_of_literal [OF True assms(2)] consecutive_literals [OF assms(2)]
      by (simp add: pieces_of_def bytes_of_def)
  next
    case False
    then have "Ins_K i = K_Copy" "length (Ins_Bytes i) = Ins_Length i" using i(4,5) by (simp_all add: Kind_cases)
    then show ?thesis using False ih Cons.prems i by (auto simp: pieces_of_def bytes_of_def)
  qed
qed (simp_all add: bytes_of_def)

text \<open>Where the copies come from.\<close>

lemma delta_copies:
  "lays Basis B Src At E \<Longrightarrow> PCopy i k bs \<in> set (concat (map (pieces_of PB Src) E)) \<Longrightarrow> bs \<noteq> [] \<and> take B (drop (i * B) Basis) = bs"
proof (induction E arbitrary: At)
  case (Cons j E)
  show ?case
  proof (cases "PCopy i k bs \<in> set (pieces_of PB Src j)")
    case True
    then have "Ins_K j = K_Copy" "i = Ins_BlockIndex j" "bs = Ins_Bytes j" by (auto simp: pieces_of_def literals_def Kind_cases split: if_splits)
    then show ?thesis using Cons.prems(1) by auto
  next
    case False
    then show ?thesis using Cons.IH Cons.prems by auto
  qed
qed simp

lemma delta_literals:
  "lays Basis B Src At E \<Longrightarrow> PLit k bs \<in> set (concat (map (pieces_of PB Src) E)) \<Longrightarrow> length bs \<le> PB"
  using pages_bounds by (fastforce simp: pieces_of_def literals_def split: if_splits)

section \<open>Receipts\<close>

definition owed :: "'h Push \<Rightarrow> Message list" where
  "owed p = map (\<lambda>a. Receipt \<lparr>Receipt_LiteralBytes = Aw_LiteralBytes a, Receipt_MatchedBytes = Aw_MatchedBytes a, Receipt_HashHits = 0,
     Receipt_FalseAlarms = 0\<rparr>) (P_Awaiting p)"

lemma push_expect_carries:
  assumes "carries (P_In p) (M # Ms) rest" and "proj M = Some v"
  obtains es where "push_expect proj p = Inr (v, p\<lparr>P_In := es\<rparr>)" and "carries es Ms rest"
proof -
  obtain es where "receive (P_In p) = (Inr M, es)" "carries es Ms rest" by (rule receive_carries [OF assms(1)])
  then show ?thesis using that assms(2) by (simp add: push_expect_def expect_def)
qed

lemma reapReceipts_owed:
  assumes "carries (P_In p) (owed p @ Ms) rest"
  obtains es As where "reapReceipts Keep p = Inr (p\<lparr>P_In := es, P_Awaiting := As\<rparr>)" and "As = drop (length (P_Awaiting p) - Keep) (P_Awaiting p)"
    and "carries es (owed (p\<lparr>P_Awaiting := As\<rparr>) @ Ms) rest"
proof -
  have "\<exists>es. reapReceipts Keep p = Inr (p\<lparr>P_In := es, P_Awaiting := drop (length (P_Awaiting p) - Keep) (P_Awaiting p)\<rparr>) \<and>
      carries es (owed (p\<lparr>P_Awaiting := drop (length (P_Awaiting p) - Keep) (P_Awaiting p)\<rparr>) @ Ms) rest"
    using assms
  proof (induction "P_Awaiting p" arbitrary: p)
    case Nil
    then have "P_Awaiting p = []" by simp
    then show ?case using Nil.prems by (intro exI [of _ "P_In p"]) (cases p, simp add: reapReceipts.simps owed_def)
  next
    case (Cons a As)
    note aw = Cons.hyps(2) [symmetric]
    show ?case
    proof (cases "length (P_Awaiting p) > Keep")
      case False
      then show ?thesis using aw Cons.prems by (intro exI [of _ "P_In p"]) (cases p, simp add: reapReceipts.simps)
    next
      case True
      let ?R = "\<lparr>Receipt_LiteralBytes = Aw_LiteralBytes a, Receipt_MatchedBytes = Aw_MatchedBytes a, Receipt_HashHits = 0, Receipt_FalseAlarms = 0\<rparr>"
      have "carries (P_In p) (Receipt ?R # owed (p\<lparr>P_Awaiting := As\<rparr>) @ Ms) rest" using Cons.prems aw by (simp add: owed_def)
      then obtain es where es: "push_expect as_Receipt p = Inr (?R, p\<lparr>P_In := es\<rparr>)" and c: "carries es (owed (p\<lparr>P_Awaiting := As\<rparr>) @ Ms) rest"
        by (rule push_expect_carries [where proj = as_Receipt]) simp_all
      have "reapReceipts Keep p = reapReceipts Keep (p\<lparr>P_In := es, P_Awaiting := As\<rparr>)"
        using True aw es by (subst reapReceipts.simps) simp
      then show ?thesis using Cons.hyps(1) [of "p\<lparr>P_In := es, P_Awaiting := As\<rparr>"] c True aw
        by (auto simp: owed_def Suc_diff_le)
    qed
  qed
  then show ?thesis using that by blast
qed

section \<open>One file\<close>

abbreviation streaming :: "'h push_env \<Rightarrow> bool" where
  "streaming Q \<equiv> O_Policy (q_Opts Q) = Never \<and> q_IsRdma Q"

abbreviation wants_signature :: "'h push_env \<Rightarrow> bool" where
  "wants_signature Q \<equiv> O_Policy (q_Opts Q) \<noteq> Never"

definition file_header :: "'h push_env \<Rightarrow> Item \<Rightarrow> FileMeta \<Rightarrow> FileHeader" where
  "file_header Q It M =
     \<lparr>FileHeader_Name = It_Name It, FileHeader_Size = Meta_Size M, FileHeader_Mode = Meta_Mode M, FileHeader_Mtime = Meta_Mtime M,
      FileHeader_Directory = False, FileHeader_Link = False, FileHeader_Target = [], FileHeader_WantSignature = wants_signature Q,
      FileHeader_Streamed = streaming Q\<rparr>"

text \<open>The pieces that answer a signature.\<close>

definition plan :: "'h push_env \<Rightarrow> byte list \<Rightarrow> source \<Rightarrow> Signature \<Rightarrow> piece list \<Rightarrow> bool" where
  "plan Q Src S Sig xs \<longleftrightarrow>
     (if shouldUseDelta Sig (Meta_Size (src_Meta S)) (O_Policy (q_Opts Q))
      then \<exists>D Basis B. diff (src_read S) (length Src) (q_strong Q) Sig take_all (Differ_new 32) = Some (Inr D) \<and> tallied D \<and>
             lays Basis B Src 0 (D_Emitted D) \<and> xs = concat (map (pieces_of (page_size Q) Src) (D_Emitted D))
      else xs = literals Src (pages (page_size Q) 0 (length Src)))"

lemma plan_consecutive:
  assumes "push_fair Q" and "plan Q Src S Sig xs"
  shows "consecutive Src 0 xs"
proof -
  have pb: "0 < page_size Q" using assms(1) by (simp add: push_fair_def)
  show ?thesis
    using assms(2) delta_pieces [OF _ pb] consecutive_literals [OF pb, of 0 "length Src" Src "[]"]
    by (auto simp: plan_def split: if_splits)
qed

text \<open>The payload: what is counted is what the pieces hold.\<close>

lemma payload_sent:
  assumes "push_fair Q" and "steady_source Src S" and "P_Source p = Some S" and "push_room Q p" and "P_Prefetch p = []"
    and "P_File p = Report_none" and "P_Streaming p = streaming Q" and "plan Q Src S Sig xs"
  obtains p' where "(if shouldUseDelta Sig (Meta_Size (src_Meta S)) (O_Policy (q_Opts Q)) then sendDelta Q Sig p else sendWholeFile Q 0 p) = Some (Inr p')"
    and "push_room Q p'" and "P_Prefetch p' = []" and "goes_out Q xs p p'"
    and "Rep_LiteralBytes (P_File p') = (\<Sum>x\<leftarrow>xs. literal_bytes x)" and "Rep_MatchedBytes (P_File p') = (\<Sum>x\<leftarrow>xs. matched_bytes x)"
proof (cases "shouldUseDelta Sig (Meta_Size (src_Meta S)) (O_Policy (q_Opts Q))")
  case True
  have pb: "0 < page_size Q" using assms(1) by (simp add: push_fair_def)
  have ns: "\<not> P_Streaming (bare p)" using True assms(7) by (auto simp: shouldUseDelta_def)
  obtain D Basis B where D: "diff (src_read S) (length Src) (q_strong Q) Sig take_all (Differ_new 32) = Some (Inr D)" "tallied D"
    "lays Basis B Src 0 (D_Emitted D)" "xs = concat (map (pieces_of (page_size Q) Src) (D_Emitted D))"
    using assms(8) True by (auto simp: plan_def)
  obtain p' where p': "sendDelta Q Sig p = Some (Inr p')" "push_room Q p'" "P_Prefetch p' = []"
    "bare p' = (foldl (told Q Src) (bare p) (D_Emitted D))\<lparr>P_File := D_Rep D\<rparr>"
    using sendDelta_told [OF assms(1-5) D(1,3)] by blast
  have "goes_out Q xs (bare p) (bare p')" using goes_out_delta [OF ns D(3), of Q] unfolding p'(4) D(4) by (simp add: goes_out_def)
  then have "goes_out Q xs p p'" by (rule goes_out_bare) simp
  moreover have "P_File p' = D_Rep D" using arg_cong [OF p'(4), of P_File] by simp
  ultimately show ?thesis using that [of p'] p'(1-3) True D(2) delta_pieces [OF D(3) pb] by (simp add: tallied_def D(4))
next
  case False
  have pb: "0 < page_size Q" using assms(1) by (simp add: push_fair_def)
  let ?ps = "pages (page_size Q) 0 (length Src)"
  have xs: "xs = literals Src ?ps" using assms(8) False by (simp add: plan_def)
  obtain p' where p': "sendWholeFile Q (of_nat 0) p = Some (Inr p')" "push_room Q p'" "P_Prefetch p' = []" "bare p' = foldl (put Q Src) (bare p) ([] @ ?ps)"
    using sendWholeFile_pages [OF assms(1-3) _ assms(4), of 0 "[]"] assms(5) by auto
  have "goes_out Q xs p p'" unfolding xs by (rule goes_out_bare [OF goes_out_whole]) (simp add: p'(4))
  moreover have "Rep_LiteralBytes (P_File (foldl (put Q Src) q ps)) = Rep_LiteralBytes (P_File q) + (\<Sum>(k, l)\<leftarrow>ps. l) \<and>
      Rep_MatchedBytes (P_File (foldl (put Q Src) q ps)) = Rep_MatchedBytes (P_File q)" for q :: "'a Push" and ps
    by (induction ps arbitrary: q) (auto simp: put_def shipped_def bare_def)
  then have "Rep_LiteralBytes (P_File (bare p')) = (\<Sum>(k, l)\<leftarrow>?ps. l)" "Rep_MatchedBytes (P_File (bare p')) = 0"
    unfolding p'(4) using assms(6) by (simp_all add: Report_none_def)
  moreover have "(\<Sum>(k, l)\<leftarrow>?ps. l) = (\<Sum>x\<leftarrow>xs. literal_bytes x)"
    unfolding xs literals_def map_map by (rule arg_cong [of _ _ sum_list], rule map_cong) (use pages_bounds in \<open>fastforce+\<close>)
  ultimately show ?thesis using that [of p'] p'(1-3) False literals_tally [OF pb, of 0 "length Src" Src] xs by simp
qed

text \<open>The header and the signature that answers it.\<close>

lemma header_exchanged:
  assumes "push_fair Q" and "P_Source p = Some S" and "P_Streaming p = streaming Q"
    and "carries (P_In p) (owed p @ (if wants_signature Q then [Signature Sig] else []) @ Ms) rest" and "wants_signature Q \<or> Sig = no_signature"
  obtains es As where "exchangeHeader Q It p = Inr (Sig, p\<lparr>P_Sent := P_Sent p @ [FileHeader (file_header Q It (src_Meta S))], P_In := es, P_Awaiting := As\<rparr>)"
    and "carries es (owed (p\<lparr>P_Awaiting := As\<rparr>) @ Ms) rest"
proof -
  let ?FH = "file_header Q It (src_Meta S)"
  let ?p = "p\<lparr>P_Sent := P_Sent p @ [FileHeader ?FH]\<rparr>"
  have h: "header_of Q It p = ?FH" using assms(2,3) by (simp add: header_of_def file_header_def Let_def)
  have snd: "push_send Q (FileHeader ?FH) p = Inr ?p" using assms(1) by (simp add: push_send_def push_fair_def)
  have w: "FileHeader_WantSignature ?FH = wants_signature Q" by (simp add: file_header_def)
  show ?thesis
  proof (cases "wants_signature Q")
    case False
    then show ?thesis using that [of "P_Awaiting p" "P_In p"] assms(4,5) snd w
      by (simp add: exchangeHeader_def Let_def h)
  next
    case True
    have "carries (P_In ?p) (owed ?p @ Signature Sig # Ms) rest" using assms(4) True by (simp add: owed_def)
    then obtain es As where r: "reapReceipts 0 ?p = Inr (?p\<lparr>P_In := es, P_Awaiting := As\<rparr>)" "As = drop (length (P_Awaiting ?p) - 0) (P_Awaiting ?p)"
      "carries es (owed (?p\<lparr>P_Awaiting := As\<rparr>) @ Signature Sig # Ms) rest"
      by (rule reapReceipts_owed)
    then have "carries (P_In (?p\<lparr>P_In := es, P_Awaiting := As\<rparr>)) (Signature Sig # Ms) rest" by (simp add: owed_def)
    then obtain es' where "push_expect as_Signature (?p\<lparr>P_In := es, P_Awaiting := As\<rparr>) = Inr (Sig, ?p\<lparr>P_In := es, P_Awaiting := As\<rparr>\<lparr>P_In := es'\<rparr>)"
      "carries es' Ms rest"
      by (rule push_expect_carries [where proj = as_Signature]) simp_all
    then show ?thesis using that [of As es'] True snd w r(1,2) by (simp add: exchangeHeader_def Let_def h owed_def)
  qed
qed

text \<open>The end of a file: every page has gone, the digest is sent and the receipt is awaited.\<close>

lemma item_closed:
  assumes "push_fair Q" and "push_room Q p" and "P_Source p = Some S"
    and "carries (P_In p) (owed p @ Receipt (receipt L M) # Rs) rest" and "Rep_LiteralBytes (P_File p) = L" and "Rep_MatchedBytes (P_File p) = M"
  obtains p' where "close_item Q Delta p = Inr p'" and "push_room Q p'" and "P_Prefetch p' = P_Prefetch p" and "P_Whole p' = P_Whole p"
    and "P_Sent p' = P_Sent p @ [Done \<lparr>Done_WholeFileHash = Hasher_digest (q_X Q) (P_Whole p)\<rparr>]" and "P_Pages p' = P_Pages p"
    and "P_TagBase p' = P_TagBase p + tagSpan (Meta_Size (src_Meta S)) (O_PageSize (q_Opts Q))" and "carries (P_In p') (owed p' @ Rs) rest"
    and "P_InFlight p' = []"
proof -
  let ?a = "\<lparr>Aw_Name = P_Moving p, Aw_LiteralBytes = of_nat L, Aw_MatchedBytes = of_nat M\<rparr>"
  let ?D = "Done \<lparr>Done_WholeFileHash = Hasher_digest (q_X Q) (P_Whole p)\<rparr>"
  let ?p = "p\<lparr>P_InFlight := [], P_Sent := P_Sent p @ [?D], P_Awaiting := P_Awaiting p @ [?a]\<rparr>"
  have "awaitSends 0 p = Inr (p\<lparr>P_InFlight := []\<rparr>)" using awaitSends_ok [of p 0] assms(2) by (simp add: push_room_def)
  moreover have "carries (P_In ?p) (owed ?p @ Rs) rest" using assms(4) by (simp add: owed_def)
  then obtain es As where r: "reapReceipts kReceiptWindow ?p = Inr (?p\<lparr>P_In := es, P_Awaiting := As\<rparr>)"
    "carries es (owed (?p\<lparr>P_Awaiting := As\<rparr>) @ Rs) rest"
    using reapReceipts_owed by metis
  moreover have "push_confirm Q (p\<lparr>P_InFlight := []\<rparr>) = Inr (?p\<lparr>P_In := es, P_Awaiting := As\<rparr>)"
    using r(1) assms(1,5,6) by (simp add: push_confirm_def push_send_def push_fair_def)
  ultimately obtain R where "close_item Q Delta p =
      Inr (?p\<lparr>P_In := es, P_Awaiting := As, P_TagBase := P_TagBase p + tagSpan (Meta_Size (src_Meta S)) (O_PageSize (q_Opts Q)), P_Rep := R\<rparr>)"
    using assms(3) by (simp add: close_item_def Let_def)
  then show ?thesis
    by (rule that) (use assms(2) r(2) in \<open>simp_all add: push_room_def owed_def\<close>)
qed

definition file_messages :: "'h push_env \<Rightarrow> Item \<Rightarrow> source \<Rightarrow> piece list \<Rightarrow> Message list" where
  "file_messages Q It S xs =
     FileHeader (file_header Q It (src_Meta S)) # (if streaming Q then [] else map piece_message xs) @
     [Done \<lparr>Done_WholeFileHash = digest_of (q_X Q) (map piece_bytes xs)\<rparr>]"

text \<open>The sender between two files.\<close>

definition push_idle :: "'h push_env \<Rightarrow> 'h Push \<Rightarrow> bool" where
  "push_idle Q p \<longleftrightarrow> push_room Q p \<and> P_Prefetch p = [] \<and> Which (P_Whole p) = XxH3"

lemma Hasher_reset_new: "Which H = XxH3 \<Longrightarrow> Hasher_reset X H = Hasher_new X XxH3"
  by (cases H) (simp add: Hasher_reset_def Hasher_new_def)

lemma pushOne_file:
  assumes "push_fair Q" and "push_idle Q p" and "\<not> It_Directory It" and "\<not> It_Link It" and "q_open Q (It_Local It) (streaming Q) = Inr S"
    and "steady_source Src S" and "plan Q Src S Sig xs" and "wants_signature Q \<or> Sig = no_signature"
    and "carries (P_In p) (owed p @ (if wants_signature Q then [Signature Sig] else []) @
      Receipt (receipt (\<Sum>x\<leftarrow>xs. literal_bytes x) (\<Sum>x\<leftarrow>xs. matched_bytes x)) # Rs) rest"
  obtains p' where "pushOne Q It p = Some (Inr p')" and "push_idle Q p'" and "P_Sent p' = P_Sent p @ file_messages Q It S xs"
    and "P_Pages p' = P_Pages p @ piece_pages (P_TagBase p) xs"
    and "P_TagBase p' = P_TagBase p + tagSpan (Meta_Size (src_Meta S)) (O_PageSize (q_Opts Q))" and "carries (P_In p') (owed p' @ Rs) rest"
proof -
  let ?R = "Receipt (receipt (\<Sum>x\<leftarrow>xs. literal_bytes x) (\<Sum>x\<leftarrow>xs. matched_bytes x))"
  define p1 where "p1 = p\<lparr>P_Streaming := streaming Q, P_Source := Some S, P_Aligned := src_direct S, P_File := Report_none,
     P_Whole := Hasher_new (q_X Q) XxH3, P_Corrupted := False, P_Moving := It_Name It, P_MovingDone := 0\<rparr>"
  have opn: "open_item Q It p = Inr p1" using assms(2,5) by (simp add: open_item_def Let_def p1_def push_idle_def Hasher_reset_new)
  have p1: "P_Source p1 = Some S" "P_Streaming p1 = streaming Q" by (simp_all add: p1_def)
  have "carries (P_In p1) (owed p1 @ (if wants_signature Q then [Signature Sig] else []) @ ?R # Rs) rest" using assms(9) by (simp add: p1_def owed_def)
  then obtain es As where x: "exchangeHeader Q It p1 =
      Inr (Sig, p1\<lparr>P_Sent := P_Sent p1 @ [FileHeader (file_header Q It (src_Meta S))], P_In := es, P_Awaiting := As\<rparr>)"
    "carries es (owed (p1\<lparr>P_Awaiting := As\<rparr>) @ ?R # Rs) rest"
    by (rule header_exchanged [OF assms(1) p1 _ assms(8)])
  define p2 where "p2 = p1\<lparr>P_Sent := P_Sent p1 @ [FileHeader (file_header Q It (src_Meta S))], P_In := es, P_Awaiting := As\<rparr>"
  have p2: "P_Source p2 = Some S" "push_room Q p2" "P_Prefetch p2 = []" "P_File p2 = Report_none" "P_Streaming p2 = streaming Q"
    using assms(2) by (simp_all add: p2_def p1_def push_idle_def push_room_def)
  obtain p3 where p3: "(if shouldUseDelta Sig (Meta_Size (src_Meta S)) (O_Policy (q_Opts Q)) then sendDelta Q Sig p2 else sendWholeFile Q 0 p2) = Some (Inr p3)"
    "push_room Q p3" "P_Prefetch p3 = []" "goes_out Q xs p2 p3"
    "Rep_LiteralBytes (P_File p3) = (\<Sum>x\<leftarrow>xs. literal_bytes x)" "Rep_MatchedBytes (P_File p3) = (\<Sum>x\<leftarrow>xs. matched_bytes x)"
    by (rule payload_sent [OF assms(1,6) p2 assms(7)])
  note g = p3(4) [unfolded goes_out_def]
  have "carries (P_In p3) (owed p3 @ ?R # Rs) rest" using x(2) g by (simp add: owed_def p2_def)
  then obtain p' where p': "close_item Q (shouldUseDelta Sig (Meta_Size (src_Meta S)) (O_Policy (q_Opts Q))) p3 = Inr p'" "push_room Q p'"
    "P_Prefetch p' = P_Prefetch p3" "P_Whole p' = P_Whole p3" "P_Sent p' = P_Sent p3 @ [Done \<lparr>Done_WholeFileHash = Hasher_digest (q_X Q) (P_Whole p3)\<rparr>]"
    "P_Pages p' = P_Pages p3" "P_TagBase p' = P_TagBase p3 + tagSpan (Meta_Size (src_Meta S)) (O_PageSize (q_Opts Q))" "carries (P_In p') (owed p' @ Rs) rest"
    using item_closed [OF assms(1) p3(2) _ _ p3(5,6)] g p2(1) by metis
  have "pushOne Q It p = Some (Inr p')" using assms(3,4) opn x(1) p3(1) p'(1) p2(1)
    by (simp add: pushOne_def Let_def flip: p2_def split: if_splits)
  moreover have "P_Whole p3 = foldl (Hasher_update (q_X Q)) (Hasher_new (q_X Q) XxH3) (map piece_bytes xs)" using g by (simp add: p2_def p1_def)
  then have "P_Sent p' = P_Sent p @ file_messages Q It S xs" "push_idle Q p'"
    using p' g p3(3) by (simp_all add: file_messages_def digest_of_def p2_def p1_def push_idle_def foldl_Hasher_update Hasher_new_def)
  ultimately show ?thesis using that p' g by (simp add: p2_def p1_def)
qed

end
