(* ===== verification/SessionReceive.thy ===== *)
theory SessionReceive
  imports SyncBase Block_Signature FileWriter
begin

text \<open>
  \<^verbatim>\<open>src/session-receive.cc\<close>: the receiving side of a sync. It agrees on a geometry, then takes
  one header after the other: a directory, a link, or a file that arrives as instructions or as
  pages in order, is hashed as it arrives, staged by a \<open>FileWriter\<close> and committed when the digest
  of the sender matches. The control channel is a schedule of bytes read by
  \<open>ControlChannel.receive\<close>; what the fabric, the disk and the pool answer are arguments. An
  acquisition with every page of the pool in the hands of the receiver itself never returns,
  which is \<open>None\<close>.
\<close>

section \<open>State\<close>

record Posted =
  Po_Op :: "byte list Result"
  Po_Offset :: u64
  Po_Length :: u32

record Totals =
  Tot_Files :: u64
  Tot_FileSize :: u64
  Tot_LiteralBytes :: u64
  Tot_MatchedBytes :: u64

text \<open>The calls on paths, in order.\<close>

datatype rcall =
    MakeDirs string
  | Chmod string u32
  | RemovePath string
  | MakeLink string string
  | OpenBasis string
  | CreateFile string

record 'h Receive =
  V_Recursive :: bool
  V_PageCount :: nat
  V_PageBytes :: nat
  V_RecvWindow :: nat
  V_WriteWindow :: nat
  V_Basis :: "byte list option"
  V_Writer :: "FileWriter option"
  V_Sig :: Signature
  V_Received :: Receipt
  V_Rep :: Totals
  V_Whole :: "'h Hasher"
  V_Writing :: "unit Result list"
  V_TagBase :: u64
  V_Receiving :: "Posted list"
  V_In :: "rx_event list"
  V_Sent :: "Message list"
  V_Next :: nat
  V_Files :: files
  V_Calls :: "rcall list"

text \<open>
  What the receiver meets. \<open>rv_recv\<close> is what a receive of a tag and a length reports, \<open>rv_slack\<close>
  what the page holds behind the bytes that arrived, \<open>rv_submit\<close> and \<open>rv_written\<close> what the
  submission and the completion of the write at an offset report, \<open>rv_pread\<close> and \<open>rv_pwrite\<close> the
  splits of the plain reads and writes.
\<close>

record 'h rcv_env =
  rv_X :: "'h xxlib"
  rv_strong :: "byte list \<Rightarrow> Digest"
  rv_Dst :: string
  rv_Durable :: Durability
  rv_channel :: "string \<Rightarrow> nat \<Rightarrow> nat \<Rightarrow> bool"
  rv_listen :: "string Result"
  rv_wants :: bool
  rv_attach :: "string \<Rightarrow> unit Result"
  rv_accept :: "unit Result"
  rv_MaxBlock :: u32
  rv_Backed :: bool
  rv_recv :: "u64 \<Rightarrow> nat \<Rightarrow> byte list Result"
  rv_slack :: "u64 \<Rightarrow> byte list"
  rv_send :: "nat \<Rightarrow> unit Result"
  rv_fs :: file_system
  rv_isdir :: "string \<Rightarrow> bool"
  rv_mkdirs :: "string \<Rightarrow> string option"
  rv_symlink :: "string \<Rightarrow> int option"
  rv_open :: "string \<Rightarrow> bool"
  rv_pread :: "nat \<Rightarrow> nat \<Rightarrow> pread_event list"
  rv_sys :: answers
  rv_pid :: nat
  rv_pwrite :: "nat \<Rightarrow> pwrite_event list"
  rv_submit :: "u64 \<Rightarrow> unit Result"
  rv_written :: "u64 \<Rightarrow> unit Result"

definition Receipt_none :: Receipt where
  "Receipt_none = \<lparr>Receipt_LiteralBytes = 0, Receipt_MatchedBytes = 0, Receipt_HashHits = 0, Receipt_FalseAlarms = 0\<rparr>"

definition Signature_none :: Signature where
  "Signature_none = \<lparr>Signature_BlockLength = 0, Signature_StrongLength = 0, Signature_FileLength = 0, Signature_Sums = []\<rparr>"

definition Receive_new :: "'h rcv_env \<Rightarrow> rx_event list \<Rightarrow> nat \<Rightarrow> files \<Rightarrow> 'h Receive" where
  "Receive_new E es Next fs =
     \<lparr>V_Recursive = False, V_PageCount = 0, V_PageBytes = 0, V_RecvWindow = 1, V_WriteWindow = 1, V_Basis = None, V_Writer = None,
      V_Sig = Signature_none, V_Received = Receipt_none,
      V_Rep = \<lparr>Tot_Files = 0, Tot_FileSize = 0, Tot_LiteralBytes = 0, Tot_MatchedBytes = 0\<rparr>,
      V_Whole = Hasher_new (rv_X E) XxH3, V_Writing = [], V_TagBase = 0, V_Receiving = [], V_In = es, V_Sent = [], V_Next = Next,
      V_Files = fs, V_Calls = []\<rparr>"

definition rcv_send :: "'h rcv_env \<Rightarrow> Message \<Rightarrow> 'h Receive \<Rightarrow> unit Result \<times> 'h Receive" where
  "rcv_send E M s = (rv_send E (length (V_Sent s)), s\<lparr>V_Sent := V_Sent s @ [M]\<rparr>)"

definition rcv_call :: "rcall \<Rightarrow> 'h Receive \<Rightarrow> 'h Receive" where
  "rcv_call c s = s\<lparr>V_Calls := V_Calls s @ [c]\<rparr>"

definition nextMessage :: "'h Receive \<Rightarrow> Message Result \<times> 'h Receive" where
  "nextMessage s = (case receive (V_In s) of (r, es) \<Rightarrow> (r, s\<lparr>V_In := es\<rparr>))"

definition rcv_expect :: "(Message \<Rightarrow> 'a option) \<Rightarrow> 'h Receive \<Rightarrow> 'a Result \<times> 'h Receive" where
  "rcv_expect proj s = (case expect proj (V_In s) of (r, es) \<Rightarrow> (r, s\<lparr>V_In := es\<rparr>))"

section \<open>Agreeing on a geometry\<close>

definition rcv_negotiate :: "'h rcv_env \<Rightarrow> 'h Receive \<Rightarrow> unit Result \<times> 'h Receive" where
  "rcv_negotiate E s =
     andThen (rcv_expect as_Hello s) (\<lambda>H s.
       if Hello_Version H \<noteq> kVersion then (failMessage ''protocol version mismatch'', s)
       else
         let PageCount = (if Hello_PageCount H \<noteq> 0 then unat (Hello_PageCount H) else 6);
             RecvWindow = max 1 (min (if Hello_WindowPages H \<noteq> 0 then unat (Hello_WindowPages H) else 1) (PageCount div 2));
             WriteWindow = (if PageCount > RecvWindow + 1 then PageCount - RecvWindow - 1 else 0);
             PageSize = (if Hello_PageSize H \<noteq> 0 then unat (Hello_PageSize H) else 64 * 2 ^ 20);
             s = s\<lparr>V_Recursive := Hello_Recursive H, V_PageCount := PageCount, V_PageBytes := PageSize, V_RecvWindow := RecvWindow,
                   V_WriteWindow := WriteWindow\<rparr>
         in if \<not> rv_channel E (Hello_Backend H) PageCount PageSize then (failMessage (''unknown backend: '' @ Hello_Backend H), s)
            else
              (case rv_listen E of
                 Inl e \<Rightarrow> (Inl e, s)
               | Inr Endpoint \<Rightarrow>
                   andThen (rcv_send E (HelloAck \<lparr>HelloAck_Backend = Hello_Backend H, HelloAck_ChannelEndpoint = Endpoint\<rparr>) s) (\<lambda>_ s.
                     andThen (if rv_wants E then andThen (rcv_expect as_PeerEndpoint s) (\<lambda>Peer s. (rv_attach E (PeerEndpoint_Blob Peer), s))
                              else (Inr (), s)) (\<lambda>_ s. (rv_accept E, s)))))"

section \<open>Names from the peer\<close>

definition resolve :: "'h rcv_env \<Rightarrow> bool \<Rightarrow> string \<Rightarrow> string Result" where
  "resolve E Recursive Name =
     (if Name = [] then failMessage ''refusing empty path from peer''
      else bindR (underRoot (rv_fs E) (rv_Dst E) Name) (\<lambda>Safe.
        if \<not> Recursive then Inr (if rv_isdir E (rv_Dst E) then Safe else rv_Dst E) else Inr Safe))"

definition makeDirectory :: "'h rcv_env \<Rightarrow> FileHeader \<Rightarrow> 'h Receive \<Rightarrow> unit Result \<times> 'h Receive" where
  "makeDirectory E FH s =
     (case resolve E (V_Recursive s) (FileHeader_Name FH) of
        Inl e \<Rightarrow> (Inl e, s)
      | Inr Target \<Rightarrow>
          let s = rcv_call (MakeDirs Target) s
          in case rv_mkdirs E Target of
               Some EC \<Rightarrow>
                 if \<not> rv_isdir E Target then (failMessage (''mkdir '' @ Target @ '': '' @ EC), s)
                 else (Inr (), if FileHeader_Mode FH \<noteq> 0 then rcv_call (Chmod Target (FileHeader_Mode FH)) s else s)
             | None \<Rightarrow> (Inr (), if FileHeader_Mode FH \<noteq> 0 then rcv_call (Chmod Target (FileHeader_Mode FH)) s else s))"

text \<open>What is at the name goes, and is not restored when the link cannot be made.\<close>

definition makeLink :: "'h rcv_env \<Rightarrow> FileHeader \<Rightarrow> 'h Receive \<Rightarrow> unit Result \<times> 'h Receive" where
  "makeLink E FH s =
     (case resolve E (V_Recursive s) (FileHeader_Name FH) of
        Inl e \<Rightarrow> (Inl e, s)
      | Inr Where \<Rightarrow>
          if FileHeader_Target FH = [] then (failMessage (''refusing a link to nowhere: '' @ FileHeader_Name FH), s)
          else
            let s = (if V_Recursive s \<and> has_parent_path Where then rcv_call (MakeDirs (parent_path Where)) s else s);
                s = (rcv_call (RemovePath Where) s)\<lparr>V_Files := (V_Files s)(Where := None)\<rparr>;
                s = rcv_call (MakeLink (FileHeader_Target FH) Where) s
            in case rv_symlink E Where of
                 Some errno \<Rightarrow> (failErrno errno (''symlink '' @ Where), s)
               | None \<Rightarrow> (Inr (), s))"

text \<open>A writer that is replaced or dies with the session gives up its temporary file.\<close>

definition drop_writer :: "'h Receive \<Rightarrow> 'h Receive" where
  "drop_writer s =
     (case V_Writer s of
        None \<Rightarrow> s
      | Some w \<Rightarrow> s\<lparr>V_Writer := None, V_Files := snd (FileWriter_abandon w (V_Files s))\<rparr>)"

definition openTarget :: "'h rcv_env \<Rightarrow> FileHeader \<Rightarrow> 'h Receive \<Rightarrow> unit Result \<times> 'h Receive" where
  "openTarget E FH s =
     (let Meta = \<lparr>Meta_Size = FileHeader_Size FH, Meta_Mode = FileHeader_Mode FH, Meta_Mtime = FileHeader_Mtime FH\<rparr>
      in case resolve E (V_Recursive s) (FileHeader_Name FH) of
           Inl e \<Rightarrow> (Inl e, s)
         | Inr Target \<Rightarrow>
             let s = (if V_Recursive s \<and> has_parent_path Target then rcv_call (MakeDirs (parent_path Target)) s else s);
                 s = rcv_call (OpenBasis Target) s;
                 s = (if rv_open E Target then s\<lparr>V_Basis := map_option f_data (V_Files s Target)\<rparr> else s);
                 Direct = (FileHeader_Streamed FH \<and> V_PageBytes s mod unat kDirectAlignment = 0);
                 s = rcv_call (CreateFile Target) s
             in case FileWriter_create (rv_sys E) (rv_pid E) Target Meta (rv_Durable E) Direct (V_Next s, V_Files s) of
                  (r, Next, fs) \<Rightarrow>
                    (case r of
                       Inl e \<Rightarrow> (Inl e, s\<lparr>V_Next := Next, V_Files := fs\<rparr>)
                     | Inr w \<Rightarrow>
                         let s = (drop_writer (s\<lparr>V_Next := Next, V_Files := fs\<rparr>))\<lparr>V_Writer := Some w\<rparr>
                         in if \<not> FileHeader_WantSignature FH then (Inr (), s)
                            else
                              (case (case V_Basis s of
                                       None \<Rightarrow> Inr (V_Sig s)
                                     | Some Data \<Rightarrow>
                                         if Data = [] then Inr (V_Sig s)
                                         else
                                           let Block = chooseBlockLength (FileHeader_Size FH) (rv_MaxBlock E)
                                           in buildSignature (\<lambda>Offset n. FileReader_read Data (rv_pread E Offset n) Offset n)
                                                (of_nat (length Data)) (rv_strong E) Block (chooseStrongLength (FileHeader_Size FH) Block)) of
                                 Inl e \<Rightarrow> (Inl e, s)
                               | Inr Sig \<Rightarrow> rcv_send E (Signature Sig) (s\<lparr>V_Sig := Sig\<rparr>))))"

section \<open>Pages and instructions\<close>

definition hashed :: "'h rcv_env \<Rightarrow> byte list \<Rightarrow> 'h Receive \<Rightarrow> 'h Receive" where
  "hashed E Bs s = s\<lparr>V_Whole := Hasher_update (rv_X E) (V_Whole s) Bs\<rparr>"

text \<open>
  The bytes a page is written with: padded for a direct writer, up to the page. The write is
  applied when it is submitted; an error of its completion is met before any commit.
\<close>

definition padded :: "'h rcv_env \<Rightarrow> FileWriter \<Rightarrow> nat \<Rightarrow> u64 \<Rightarrow> byte list \<Rightarrow> byte list" where
  "padded E w PageBytes Offset Bs =
     take (min (unat (writeLength w (of_nat (length Bs)))) PageBytes) (Bs @ rv_slack E Offset)"

definition submit_page :: "'h rcv_env \<Rightarrow> u64 \<Rightarrow> byte list \<Rightarrow> 'h Receive \<Rightarrow> unit Result \<times> 'h Receive" where
  "submit_page E Offset Bs s =
     (let w = the (V_Writer s)
      in case rv_submit E Offset of
           Inl e \<Rightarrow> (Inl e, s)
         | Inr _ \<Rightarrow>
             (Inr (), s\<lparr>V_Writing := V_Writing s @ [rv_written E Offset],
                V_Files := change_file (fw_TempPath w) (f_data_update (overwrite (unat Offset) (padded E w (V_PageBytes s) Offset Bs))) (V_Files s)\<rparr>))"

function storeReceived :: "'h rcv_env \<Rightarrow> nat \<Rightarrow> 'h Receive \<Rightarrow> unit Result \<times> 'h Receive" where
  "storeReceived E Keep s =
     (case V_Receiving s of
        [] \<Rightarrow> (Inr (), s)
      | P # Ps \<Rightarrow>
          if length (P # Ps) > Keep then
            (case Po_Op P of
               Inl e \<Rightarrow> (Inl e, s\<lparr>V_Receiving := Ps\<rparr>)
             | Inr Bs \<Rightarrow>
                 let s = (hashed E Bs s)\<lparr>V_Receiving := Ps,
                       V_Received := (V_Received s)\<lparr>Receipt_LiteralBytes := Receipt_LiteralBytes (V_Received s) + ucast (Po_Length P)\<rparr>\<rparr>
                 in (case submit_page E (Po_Offset P) Bs s of
                       (r, s) \<Rightarrow> (case r of Inl e \<Rightarrow> (Inl e, s) | Inr _ \<Rightarrow> storeReceived E Keep s)))
          else (Inr (), s))"
  by pat_completeness auto
termination by (relation "measure (\<lambda>(E, Keep, s). length (V_Receiving s))") (auto simp: submit_page_def Let_def split: sum.splits)

declare storeReceived.simps [simp del]

definition awaitWrites :: "nat \<Rightarrow> 'h Receive \<Rightarrow> unit Result \<times> 'h Receive" where
  "awaitWrites Keep s = (case join_down Keep (V_Writing s) of (r, Ws) \<Rightarrow> (r, s\<lparr>V_Writing := Ws\<rparr>))"

definition settle_pages :: "'h rcv_env \<Rightarrow> nat \<Rightarrow> nat \<Rightarrow> 'h Receive \<Rightarrow> unit Result \<times> 'h Receive" where
  "settle_pages E KeepReads KeepWrites s = andThen (storeReceived E KeepReads s) (\<lambda>_ s. awaitWrites KeepWrites s)"

text \<open>Makes room, takes a page of the pool and posts a receive into it.\<close>

definition post_receive :: "'h rcv_env \<Rightarrow> u64 \<Rightarrow> u32 \<Rightarrow> 'h Receive \<Rightarrow> (unit Result \<times> 'h Receive) option" where
  "post_receive E Offset Length s =
     (case settle_pages E (V_RecvWindow s - 1) (V_WriteWindow s) s of
        (r, s) \<Rightarrow>
          (case r of
             Inl e \<Rightarrow> Some (Inl e, s)
           | Inr _ \<Rightarrow>
               if \<not> rv_Backed E then Some (failMessage ''out of registered memory for a transfer page'', s)
               else if length (V_Receiving s) + length (V_Writing s) \<ge> V_PageCount s then None
               else Some (Inr (), s\<lparr>V_Receiving := V_Receiving s @
                 [\<lparr>Po_Op = rv_recv E (V_TagBase s + Offset) (unat Length), Po_Offset = Offset, Po_Length = Length\<rparr>]\<rparr>)))"

definition applyLiteral :: "'h rcv_env \<Rightarrow> Literal \<Rightarrow> 'h Receive \<Rightarrow> (unit Result \<times> 'h Receive) option" where
  "applyLiteral E Lit s =
     (if unat (Literal_Length Lit) > V_PageBytes s
      then Some (failMessage (''literal of '' @ decimal (unat (Literal_Length Lit)) @ '' bytes exceeds the page size''), s)
      else post_receive E (Literal_Offset Lit) (Literal_Length Lit) s)"

definition applyCopy :: "'h rcv_env \<Rightarrow> Copy \<Rightarrow> 'h Receive \<Rightarrow> unit Result \<times> 'h Receive" where
  "applyCopy E C s =
     andThen (settle_pages E 0 0 s) (\<lambda>_ s.
       case V_Basis s of
         None \<Rightarrow> (failMessage ''Copy instruction with no basis file'', s)
       | Some Data \<Rightarrow>
           let Length = blockLengthAt (V_Sig s) (Copy_BlockIndex C);
               At = unat (ucast (Copy_BlockIndex C) * ucast (Signature_BlockLength (V_Sig s)) :: u64)
           in if Length = 0 then (failMessage ''Copy references an out-of-range block'', s)
              else
                (case FileReader_read Data (rv_pread E At (unat Length)) At (unat Length) of
                   Inl e \<Rightarrow> (Inl e, s)
                 | Inr N \<Rightarrow>
                     if length N \<noteq> unat Length then (failMessage ''short read from basis file'', s)
                     else
                       let s = hashed E N s; Dst = unat (Copy_DstOffset C)
                       in (case FileWriter_write (rv_pwrite E Dst) (the (V_Writer s)) N Dst (V_Files s) of
                             (r, fs) \<Rightarrow>
                               andThen (r, s\<lparr>V_Files := fs\<rparr>) (\<lambda>_ s.
                                 (Inr (), s\<lparr>V_Received := (V_Received s)\<lparr>Receipt_MatchedBytes := Receipt_MatchedBytes (V_Received s) + ucast Length\<rparr>\<rparr>)))))"

definition counted :: "Receipt \<Rightarrow> Totals \<Rightarrow> Totals" where
  "counted R T =
     T\<lparr>Tot_Files := Tot_Files T + 1, Tot_LiteralBytes := Tot_LiteralBytes T + Receipt_LiteralBytes R,
       Tot_MatchedBytes := Tot_MatchedBytes T + Receipt_MatchedBytes R,
       Tot_FileSize := Tot_FileSize T + (Receipt_LiteralBytes R + Receipt_MatchedBytes R)\<rparr>"

definition complete :: "'h rcv_env \<Rightarrow> Done \<Rightarrow> 'h Receive \<Rightarrow> unit Result \<times> 'h Receive" where
  "complete E D s =
     andThen (settle_pages E 0 0 s) (\<lambda>_ s.
       if Hasher_digest (rv_X E) (V_Whole s) \<noteq> Done_WholeFileHash D then (failMessage ''whole-file hash mismatch'', s)
       else
         (case FileWriter_commit (rv_sys E) (the (V_Writer s)) (V_Files s) of
            (r, w, fs) \<Rightarrow>
              andThen (r, s\<lparr>V_Writer := Some w, V_Files := fs\<rparr>) (\<lambda>_ s.
                rcv_send E (Receipt (V_Received s)) (s\<lparr>V_Rep := counted (V_Received s) (V_Rep s)\<rparr>))))"

section \<open>Files and sessions\<close>

partial_function (option) receiveDelta :: "'h rcv_env \<Rightarrow> 'h Receive \<Rightarrow> (unit Result \<times> 'h Receive) option" where
  "receiveDelta E s =
     (case nextMessage s of
        (r, s) \<Rightarrow>
          (case r of
             Inl e \<Rightarrow> Some (Inl e, s)
           | Inr M \<Rightarrow>
               (case as_Literal M of
                  Some Lit \<Rightarrow>
                    (case applyLiteral E Lit s of
                       None \<Rightarrow> None
                     | Some (r, s) \<Rightarrow> (case r of Inl e \<Rightarrow> Some (Inl e, s) | Inr _ \<Rightarrow> receiveDelta E s))
                | None \<Rightarrow>
                    (case as_Copy M of
                       Some C \<Rightarrow> (case applyCopy E C s of (r, s) \<Rightarrow> (case r of Inl e \<Rightarrow> Some (Inl e, s) | Inr _ \<Rightarrow> receiveDelta E s))
                     | None \<Rightarrow>
                         (case as_Done M of
                            Some D \<Rightarrow> Some (complete E D s)
                          | None \<Rightarrow> Some (unexpected M, s))))))"

definition stream_end :: "'h rcv_env \<Rightarrow> 'h Receive \<Rightarrow> unit Result \<times> 'h Receive" where
  "stream_end E s =
     andThen (settle_pages E 0 0 s) (\<lambda>_ s.
       andThen (nextMessage s) (\<lambda>M s.
         case as_Done M of
           Some D \<Rightarrow> complete E D s
         | None \<Rightarrow> (failMessage (''expected Done, got '' @ typeName (typeOf M)), s)))"

partial_function (option) receiveStream :: "'h rcv_env \<Rightarrow> u64 \<Rightarrow> u64 \<Rightarrow> 'h Receive \<Rightarrow> (unit Result \<times> 'h Receive) option" where
  "receiveStream E Size Offset s =
     (if Offset < Size then
        (let Length = (of_nat (min (V_PageBytes s) (unat (Size - Offset))) :: u32)
         in case post_receive E Offset Length s of
              None \<Rightarrow> None
            | Some (r, s) \<Rightarrow> (case r of Inl e \<Rightarrow> Some (Inl e, s) | Inr _ \<Rightarrow> receiveStream E Size (Offset + ucast Length) s))
      else Some (stream_end E s))"

definition receiveFile :: "'h rcv_env \<Rightarrow> FileHeader \<Rightarrow> 'h Receive \<Rightarrow> (unit Result \<times> 'h Receive) option" where
  "receiveFile E FH s =
     (let s = s\<lparr>V_Whole := Hasher_reset (rv_X E) (V_Whole s), V_Received := Receipt_none, V_Sig := Signature_none, V_Basis := None\<rparr>
      in case openTarget E FH s of
           (Inl e, s) \<Rightarrow> Some (Inl e, s)
         | (Inr _, s) \<Rightarrow>
             (case (if FileHeader_Streamed FH then receiveStream E (FileHeader_Size FH) 0 s else receiveDelta E s) of
                None \<Rightarrow> None
              | Some (Inl e, s) \<Rightarrow> Some (Inl e, s)
              | Some (Inr _, s) \<Rightarrow> Some (Inr (), s\<lparr>V_TagBase := V_TagBase s + tagSpan (FileHeader_Size FH) (of_nat (V_PageBytes s))\<rparr>)))"

definition receive_entry :: "'h rcv_env \<Rightarrow> FileHeader \<Rightarrow> 'h Receive \<Rightarrow> (unit Result \<times> 'h Receive) option" where
  "receive_entry E FH s =
     (if FileHeader_Directory FH then Some (makeDirectory E FH s)
      else if FileHeader_Link FH then Some (makeLink E FH s)
      else receiveFile E FH s)"

partial_function (option) serve_loop :: "'h rcv_env \<Rightarrow> 'h Receive \<Rightarrow> (unit Result \<times> 'h Receive) option" where
  "serve_loop E s =
     (case nextMessage s of
        (r, s) \<Rightarrow>
          (case r of
             Inl e \<Rightarrow> Some (Inl e, s)
           | Inr M \<Rightarrow>
               if is_End M then Some (Inr (), s)
               else
                 (case as_FileHeader M of
                    Some FH \<Rightarrow>
                      (case receive_entry E FH s of
                         None \<Rightarrow> None
                       | Some (r, s) \<Rightarrow> (case r of Inl e \<Rightarrow> Some (Inl e, s) | Inr _ \<Rightarrow> serve_loop E s))
                  | None \<Rightarrow> Some (unexpected M, s))))"

definition serve :: "'h rcv_env \<Rightarrow> 'h Receive \<Rightarrow> (unit Result \<times> 'h Receive) option" where
  "serve E s =
     (case rcv_negotiate E s of
        (Inl e, s) \<Rightarrow> Some (Inl e, s)
      | (Inr _, s) \<Rightarrow> serve_loop E s)"

definition rcv_quiesce :: "'h Receive \<Rightarrow> 'h Receive" where
  "rcv_quiesce s = s\<lparr>V_Receiving := [], V_Writing := []\<rparr>"

text \<open>\<^verbatim>\<open>serveReceive\<close>: the run, and the end of the object with the writer it still has.\<close>

definition serveReceive :: "'h rcv_env \<Rightarrow> rx_event list \<Rightarrow> nat \<Rightarrow> files \<Rightarrow> (unit Result \<times> 'h Receive) option" where
  "serveReceive E es Next fs = map_option (\<lambda>(r, s). (r, drop_writer (rcv_quiesce s))) (serve E (Receive_new E es Next fs))"

end
