(* ===== verification/ReceiveSteps.thy ===== *)
theory ReceiveSteps
  imports SessionReceive SyncPieces
begin

text \<open>
  What the receiver of a sync makes of the pieces of a file: pages that arrive on the channel and
  blocks it copies from its own file, each of them at the place where the one before ended. When
  all are stored the staged file holds the source, and the digest is that of the pieces in order.
\<close>

lemma nextMessage_carries:
  assumes "carries (V_In s) (M # Ms) rest"
  obtains es' where "nextMessage s = (Inr M, s\<lparr>V_In := es'\<rparr>)" and "carries es' Ms rest"
proof -
  obtain es' where r: "receive (V_In s) = (Inr M, es')" and c: "carries es' Ms rest"
    by (rule receive_carries [OF assms])
  show ?thesis by (rule that [OF _ c]) (simp add: nextMessage_def r)
qed

section \<open>What is staged\<close>

definition filled :: "byte list \<Rightarrow> nat \<Rightarrow> byte list \<Rightarrow> bool" where
  "filled Src At d \<longleftrightarrow> At \<le> length d \<and> take At d = take At Src"

lemma filled_overwrite:
  assumes "filled Src At d" and "At + l \<le> length Src" and "l \<le> length bs" and "take l bs = take l (drop At Src)" and "0 < l"
  shows "filled Src (At + l) (overwrite At bs d)"
proof -
  have ne: "bs \<noteq> []" using assms(3,5) by auto
  have o: "overwrite At bs d = take At d @ bs @ drop (At + length bs) d"
    using assms(1) ne by (simp add: overwrite_def filled_def)
  have m: "length (take At d) = At" using assms(1,2) by (simp add: filled_def)
  have "take (At + l) (overwrite At bs d) = take At d @ take l bs"
    using m assms(3) by (simp add: o take_append)
  also have "\<dots> = take (At + l) Src" using assms(1,4) by (simp add: filled_def take_add)
  finally show ?thesis using m assms(3) by (simp add: filled_def o)
qed

lemma filled_resize: "filled Src (length Src) d \<Longrightarrow> resize (length Src) d = Src"
  by (simp add: filled_def resize_def)

section \<open>The receiver and its pages\<close>

definition rcv_fair :: "'h rcv_env \<Rightarrow> bool" where
  "rcv_fair E \<longleftrightarrow> rv_Backed E \<and> (\<forall>At. rv_submit E At = Inr ()) \<and> (\<forall>At. is_ok (rv_written E At)) \<and> (\<forall>n. rv_send E n = Inr ()) \<and>
     (\<forall>At. \<forall>ev \<in> set (rv_pwrite E At). \<forall>e. ev \<noteq> PW_Fail e) \<and> (\<exists>sched. rv_pread E = (\<lambda>Offset n. calm_schedule (sched Offset n))) \<and>
     rv_sys E = (\<lambda>_. None)"

definition rcv_room :: "'h Receive \<Rightarrow> bool" where
  "rcv_room s \<longleftrightarrow> 1 \<le> V_RecvWindow s \<and> V_RecvWindow s + V_WriteWindow s \<le> V_PageCount s"

text \<open>
  \<open>staged\<close>: the writer at work and its temporary file, which holds \<open>d\<close> once the posted pages are
  stored, \<open>bss\<close> as hashed once they are hashed, and the counters once they are counted.
\<close>

definition page_write :: "'h rcv_env \<Rightarrow> FileWriter \<Rightarrow> nat \<Rightarrow> byte list \<Rightarrow> Posted \<Rightarrow> byte list" where
  "page_write E w PB d P = overwrite (unat (Po_Offset P)) (padded E w PB (Po_Offset P) (projr (Po_Op P))) d"

definition staged ::
  "'h rcv_env \<Rightarrow> files \<Rightarrow> FileWriter \<Rightarrow> byte list \<Rightarrow> byte list list \<Rightarrow> u64 \<Rightarrow> u64 \<Rightarrow> 'h Receive \<Rightarrow> bool" where
  "staged E F w d bss L M s \<longleftrightarrow>
     V_Writer s = Some w \<and>
     (\<exists>f. V_Files s = F(fw_TempPath w \<mapsto> f) \<and> foldl (page_write E w (V_PageBytes s)) (f_data f) (V_Receiving s) = d \<and>
        f_mode f = 0x180 \<and> f_mtime f = 0) \<and>
     foldl (Hasher_update (rv_X E)) (V_Whole s) (map (projr \<circ> Po_Op) (V_Receiving s)) =
       foldl (Hasher_update (rv_X E)) (Hasher_new (rv_X E) XxH3) bss \<and>
     Receipt_LiteralBytes (V_Received s) + (\<Sum>P\<leftarrow>V_Receiving s. ucast (Po_Length P)) = L \<and> Receipt_MatchedBytes (V_Received s) = M \<and>
     Receipt_HashHits (V_Received s) = 0 \<and> Receipt_FalseAlarms (V_Received s) = 0 \<and>
     (\<forall>P \<in> set (V_Receiving s). is_ok (Po_Op P)) \<and> (\<forall>r \<in> set (V_Writing s). is_ok r)"

text \<open>All that storing pages leaves alone.\<close>

definition core :: "'h rcv_env \<Rightarrow> 'h Receive \<Rightarrow> 'h Receive" where
  "core E s = s\<lparr>V_Whole := Hasher_new (rv_X E) XxH3, V_Received := Receipt_none, V_Writing := [], V_Receiving := [], V_Files := Map.empty\<rparr>"

lemma core_fields:
  assumes "core E s' = core E s"
  shows "V_Recursive s' = V_Recursive s" "V_PageCount s' = V_PageCount s" "V_PageBytes s' = V_PageBytes s" "V_RecvWindow s' = V_RecvWindow s"
    "V_WriteWindow s' = V_WriteWindow s" "V_Basis s' = V_Basis s" "V_Writer s' = V_Writer s" "V_Sig s' = V_Sig s" "V_Rep s' = V_Rep s"
    "V_TagBase s' = V_TagBase s" "V_In s' = V_In s" "V_Sent s' = V_Sent s" "V_Next s' = V_Next s" "V_Calls s' = V_Calls s"
  using arg_cong [OF assms, of V_Recursive] arg_cong [OF assms, of V_PageCount] arg_cong [OF assms, of V_PageBytes] arg_cong [OF assms, of V_RecvWindow]
    arg_cong [OF assms, of V_WriteWindow] arg_cong [OF assms, of V_Basis] arg_cong [OF assms, of V_Writer] arg_cong [OF assms, of V_Sig]
    arg_cong [OF assms, of V_Rep] arg_cong [OF assms, of V_TagBase] arg_cong [OF assms, of V_In] arg_cong [OF assms, of V_Sent]
    arg_cong [OF assms, of V_Next] arg_cong [OF assms, of V_Calls]
  by (simp_all add: core_def)

lemma core_V_In: "core E (s\<lparr>V_In := es\<rparr>) = (core E s)\<lparr>V_In := es\<rparr>" "(core E s)\<lparr>V_In := V_In s\<rparr> = core E s"
  by (cases s; simp add: core_def)+

text \<open>The first posted page, hashed and submitted.\<close>

definition stored :: "'h rcv_env \<Rightarrow> Posted \<Rightarrow> Posted list \<Rightarrow> 'h Receive \<Rightarrow> 'h Receive" where
  "stored E P Ps s =
     (let w = the (V_Writer s); bs = projr (Po_Op P)
      in (hashed E bs s)\<lparr>V_Receiving := Ps, V_Writing := V_Writing s @ [rv_written E (Po_Offset P)],
           V_Received := (V_Received s)\<lparr>Receipt_LiteralBytes := Receipt_LiteralBytes (V_Received s) + ucast (Po_Length P)\<rparr>,
           V_Files := change_file (fw_TempPath w) (f_data_update (overwrite (unat (Po_Offset P)) (padded E w (V_PageBytes s) (Po_Offset P) bs))) (V_Files s)\<rparr>)"

lemma core_stored: "core E (stored E P Ps s) = core E s"
  by (simp add: stored_def core_def hashed_def Let_def)

lemma staged_stored:
  assumes "rcv_fair E" and "staged E F w d bss L M s" and "V_Receiving s = P # Ps"
  shows "staged E F w d bss L M (stored E P Ps s)"
proof -
  obtain f where f: "V_Files s = F(fw_TempPath w \<mapsto> f)" "foldl (page_write E w (V_PageBytes s)) (f_data f) (P # Ps) = d" "f_mode f = 0x180" "f_mtime f = 0"
    using assms(2,3) by (auto simp: staged_def)
  have w: "V_Writer s = Some w" using assms(2) by (simp add: staged_def)
  let ?g = "f_data_update (\<lambda>d. page_write E w (V_PageBytes s) d P) f"
  have "V_Files (stored E P Ps s) = F(fw_TempPath w \<mapsto> ?g)"
    using f(1) by (simp add: stored_def Let_def w change_file_def page_write_def)
  then have "\<exists>f. V_Files (stored E P Ps s) = F(fw_TempPath w \<mapsto> f) \<and> foldl (page_write E w (V_PageBytes s)) (f_data f) Ps = d \<and> f_mode f = 0x180 \<and> f_mtime f = 0"
    using f(2-4) by (intro exI [of _ ?g]) simp
  then show ?thesis using assms by (auto simp: staged_def stored_def Let_def hashed_def rcv_fair_def add.assoc)
qed

lemma storeReceived_step:
  assumes "rcv_fair E" and "V_Receiving s = P # Ps" and "Keep < length (P # Ps)" and "is_ok (Po_Op P)"
  shows "storeReceived E Keep s = storeReceived E Keep (stored E P Ps s)"
proof -
  obtain bs where bs: "Po_Op P = Inr bs" using assms(4) by (cases "Po_Op P") auto
  show ?thesis using assms(1-3) bs
    by (subst storeReceived.simps) (cases s, simp add: submit_page_def Let_def rcv_fair_def stored_def hashed_def)
qed

lemma storeReceived_staged:
  assumes "rcv_fair E" and "staged E F w d bss L M s"
  shows "\<exists>s'. storeReceived E Keep s = (Inr (), s') \<and> staged E F w d bss L M s' \<and> core E s' = core E s \<and> length (V_Receiving s') \<le> Keep"
  using assms(2)
proof (induction "length (V_Receiving s)" arbitrary: s)
  case 0
  then show ?case by (simp add: storeReceived.simps)
next
  case (Suc n)
  then obtain P Ps where r: "V_Receiving s = P # Ps" by (cases "V_Receiving s") auto
  show ?case
  proof (cases "Keep < length (P # Ps)")
    case False
    then show ?thesis using r Suc.prems by (simp add: storeReceived.simps)
  next
    case True
    have ok: "is_ok (Po_Op P)" using Suc.prems r by (simp add: staged_def)
    have "n = length (V_Receiving (stored E P Ps s))" using Suc.hyps(2) r by (simp add: stored_def Let_def)
    from Suc.hyps(1) [OF this staged_stored [OF assms(1) Suc.prems r]] show ?thesis
      using storeReceived_step [OF assms(1) r True ok] core_stored [of E P Ps s] by auto
  qed
qed

lemma awaitWrites_staged:
  assumes "staged E F w d bss L M s"
  shows "\<exists>s'. awaitWrites Keep s = (Inr (), s') \<and> staged E F w d bss L M s' \<and> core E s' = core E s \<and> V_Receiving s' = V_Receiving s \<and>
    length (V_Writing s') \<le> Keep"
proof -
  let ?ws = "drop (length (V_Writing s) - Keep) (V_Writing s)"
  have "awaitWrites Keep s = (Inr (), s\<lparr>V_Writing := ?ws\<rparr>)"
    using assms join_down_ok [of "V_Writing s" Keep] by (simp add: awaitWrites_def staged_def)
  moreover have "staged E F w d bss L M (s\<lparr>V_Writing := ?ws\<rparr>)" using assms set_drop_subset by (fastforce simp: staged_def)
  ultimately show ?thesis by (simp add: core_def)
qed

lemma settle_staged:
  assumes "rcv_fair E" and "staged E F w d bss L M s"
  obtains s' where "settle_pages E K1 K2 s = (Inr (), s')" and "staged E F w d bss L M s'" and "core E s' = core E s"
    and "length (V_Receiving s') \<le> K1" and "length (V_Writing s') \<le> K2"
proof -
  obtain s1 where s1: "storeReceived E K1 s = (Inr (), s1)" "staged E F w d bss L M s1" "core E s1 = core E s" "length (V_Receiving s1) \<le> K1"
    using storeReceived_staged [OF assms, of K1] by blast
  obtain s2 where "awaitWrites K2 s1 = (Inr (), s2)" "staged E F w d bss L M s2" "core E s2 = core E s1" "V_Receiving s2 = V_Receiving s1"
    "length (V_Writing s2) \<le> K2"
    using awaitWrites_staged [OF s1(2), of K2] by blast
  with s1 that [of s2] show ?thesis by (simp add: settle_pages_def)
qed

section \<open>One piece\<close>

lemma padded_prefix:
  assumes "length bs \<le> PB" and "length bs < 2 ^ 32"
  shows "length bs \<le> length (padded E w PB At bs) \<and> take (length bs) (padded E w PB At bs) = bs"
proof -
  have u: "unat (of_nat (length bs) :: u64) = length bs" using assms(2) by (intro unat_of_nat_small) simp
  have "length bs \<le> unat (roundUp (of_nat (length bs)))" using roundUp_le [of "of_nat (length bs)"] u assms(2) by simp
  then have "length bs \<le> unat (writeLength w (of_nat (length bs)))" by (simp add: writeLength_def u)
  then show ?thesis using assms(1) by (simp add: padded_def)
qed

text \<open>Room is made and a receive is posted; the receiver never waits for a page it holds itself.\<close>

lemma post_receive_staged:
  assumes "rcv_fair E" and "rcv_room s" and "staged E F w d bss L M s"
    and "rv_recv E (V_TagBase s + Offset) (unat Length) = Inr bs"
  obtains s' where "post_receive E Offset Length s = Some (Inr (), s')" and "core E s' = core E s"
    and "staged E F w (overwrite (unat Offset) (padded E w (V_PageBytes s) Offset bs) d) (bss @ [bs]) (L + ucast Length) M s'"
proof -
  obtain s1 where s1: "settle_pages E (V_RecvWindow s - 1) (V_WriteWindow s) s = (Inr (), s1)" "staged E F w d bss L M s1" "core E s1 = core E s"
    "length (V_Receiving s1) \<le> V_RecvWindow s - 1" "length (V_Writing s1) \<le> V_WriteWindow s"
    by (rule settle_staged [OF assms(1,3)])
  note c = core_fields [OF s1(3)]
  let ?P = "\<lparr>Po_Op = Inr bs, Po_Offset = Offset, Po_Length = Length\<rparr>"
  let ?s = "s1\<lparr>V_Receiving := V_Receiving s1 @ [?P]\<rparr>"
  have "length (V_Receiving s1) + length (V_Writing s1) < V_PageCount s" using assms(2) s1(4,5) unfolding rcv_room_def by linarith
  then have "post_receive E Offset Length s = Some (Inr (), ?s)"
    using assms(1,4) s1(1) c by (simp add: post_receive_def rcv_fair_def)
  moreover have "core E ?s = core E s" using s1(3) by (simp add: core_def)
  moreover have "staged E F w (overwrite (unat Offset) (padded E w (V_PageBytes s) Offset bs) d) (bss @ [bs]) (L + ucast Length) M ?s"
    using s1(2) c(3) by (auto simp: staged_def page_write_def)
  ultimately show ?thesis by (rule that)
qed

lemma write_from_ok:
  assumes "\<forall>ev \<in> set es. \<forall>e. ev \<noteq> PW_Fail e"
  shows "is_ok (fst (write_from es w Src Offset N fs))"
  using assms by (induction es w Src Offset N fs rule: write_from.induct) (auto simp: Let_def split: pwrite_event.split)

lemma hashed_fields [simp]:
  "V_Recursive (hashed E Bs s) = V_Recursive s" "V_Writer (hashed E Bs s) = V_Writer s" "V_Files (hashed E Bs s) = V_Files s"
  "V_Received (hashed E Bs s) = V_Received s" "V_Receiving (hashed E Bs s) = V_Receiving s" "V_Writing (hashed E Bs s) = V_Writing s"
  "V_Whole (hashed E Bs s) = Hasher_update (rv_X E) (V_Whole s) Bs" "V_PageBytes (hashed E Bs s) = V_PageBytes s"
  by (simp_all add: hashed_def)

text \<open>A block of the basis: what a copy of it writes.\<close>

definition block_of :: "'h Receive \<Rightarrow> u32 \<Rightarrow> byte list \<Rightarrow> bool" where
  "block_of s Index bs \<longleftrightarrow>
     (\<exists>Data. V_Basis s = Some Data \<and> bs \<noteq> [] \<and> unat (blockLengthAt (V_Sig s) Index) = length bs \<and>
        bs = take (length bs) (drop (unat (ucast Index * ucast (Signature_BlockLength (V_Sig s)) :: u64)) Data))"

lemma applyCopy_staged:
  assumes "rcv_fair E" and "staged E F w d bss L M s" and "block_of s (Copy_BlockIndex C) bs"
  obtains s' where "applyCopy E C s = (Inr (), s')" and "core E s' = core E s"
    and "staged E F w (overwrite (unat (Copy_DstOffset C)) bs d) (bss @ [bs]) L (M + of_nat (length bs)) s'"
proof -
  obtain s1 where s1: "settle_pages E 0 0 s = (Inr (), s1)" "staged E F w d bss L M s1" "core E s1 = core E s"
    "length (V_Receiving s1) \<le> 0" "length (V_Writing s1) \<le> 0"
    by (rule settle_staged [OF assms(1,2)])
  note c = core_fields [OF s1(3)]
  define Len where "Len = blockLengthAt (V_Sig s) (Copy_BlockIndex C)"
  define At where "At = unat (ucast (Copy_BlockIndex C) * ucast (Signature_BlockLength (V_Sig s)) :: u64)"
  obtain Data where b: "V_Basis s = Some Data" "bs \<noteq> []" "unat Len = length bs" "bs = take (length bs) (drop At Data)"
    using assms(3) by (auto simp: block_of_def Len_def At_def)
  have len: "Len \<noteq> 0" using b(2,3) by (metis length_0_conv unsigned_0)
  have rd: "FileReader_read Data (rv_pread E At (unat Len)) At (unat Len) = Inr bs"
    using assms(1) reader.rd_full [of Data] b(3,4) by (auto simp: rcv_fair_def)
  obtain f where f: "V_Files s1 = F(fw_TempPath w \<mapsto> f)" "f_data f = d" "f_mode f = 0x180" "f_mtime f = 0" and w: "V_Writer s1 = Some w"
    using s1(2,4) by (auto simp: staged_def)
  define Dst where "Dst = unat (Copy_DstOffset C)"
  obtain r fs where wr: "FileWriter_write (rv_pwrite E Dst) w bs Dst (V_Files s1) = (r, fs)" by fastforce
  have ok: "is_ok r" using write_from_ok [of "rv_pwrite E Dst" w bs Dst 0 "V_Files s1"] assms(1) wr by (simp add: rcv_fair_def FileWriter_write_def)
  obtain g where g: "fs = F(fw_TempPath w \<mapsto> g)" "f_mode g = 0x180" "f_mtime g = 0" "f_data g = overwrite Dst bs d"
    using write_from_data [of "V_Files s1" w f Dst 0 bs d "rv_pwrite E Dst" r fs] f wr ok
    by (auto simp: FileWriter_write_def overwrite_def)
  let ?s = "(hashed E bs s1)\<lparr>V_Files := fs, V_Received := (V_Received s1)\<lparr>Receipt_MatchedBytes := Receipt_MatchedBytes (V_Received s1) + ucast Len\<rparr>\<rparr>"
  have "applyCopy E C s = (Inr (), ?s)"
    using s1(1) b(1,3) c(6,8) len rd w wr ok
    by (cases r) (simp_all add: applyCopy_def Let_def flip: Len_def At_def Dst_def)
  moreover have "core E ?s = core E s" using s1(3) by (simp add: core_def hashed_def)
  moreover have "ucast Len = (of_nat (length bs) :: u64)" using b(3) by (metis of_nat_unat)
  then have "staged E F w (overwrite Dst bs d) (bss @ [bs]) L (M + of_nat (length bs)) ?s"
    using s1(2,4) g w by (auto simp: staged_def)
  ultimately show ?thesis unfolding Dst_def by (rule that)
qed

section \<open>The end of a file\<close>

text \<open>The file at its destination: the source with the announced mode and time.\<close>

definition image :: "byte list \<Rightarrow> FileMeta \<Rightarrow> file_image" where
  "image Src Meta = \<lparr>f_data = Src, f_mode = (if Meta_Mode Meta \<noteq> 0 then Meta_Mode Meta else 0x180), f_mtime = Meta_Mtime Meta\<rparr>"

lemma FileWriter_commit_ok:
  assumes "F' = F(fw_TempPath w \<mapsto> f)" and "f_mode f = 0x180" and "f_mtime f = 0" and "resize (unat (Meta_Size (fw_Meta w))) (f_data f) = Src"
  shows "FileWriter_commit (\<lambda>_. None) w F' =
    (Inr (), w\<lparr>fw_Open := False, fw_Committed := True\<rparr>, (F(fw_TempPath w := None))(fw_FinalPath w \<mapsto> image Src (fw_Meta w)))"
  using assms by (cases f) (simp add: FileWriter_commit_def commit_meta_def Let_def change_file_def image_def)

definition landed :: "'h rcv_env \<Rightarrow> files \<Rightarrow> FileWriter \<Rightarrow> byte list \<Rightarrow> Receipt \<Rightarrow> 'h Receive \<Rightarrow> 'h Receive \<Rightarrow> bool" where
  "landed E F w Src R s s' \<longleftrightarrow>
     V_Files s' = (F(fw_TempPath w := None))(fw_FinalPath w \<mapsto> image Src (fw_Meta w)) \<and> V_Receiving s' = [] \<and> V_Writing s' = [] \<and>
     Which (V_Whole s') = XxH3 \<and>
     core E s' = (core E s)\<lparr>V_Writer := Some (w\<lparr>fw_Open := False, fw_Committed := True\<rparr>), V_Sent := V_Sent s @ [Receipt R],
       V_Rep := counted R (V_Rep s), V_In := V_In s'\<rparr>"

lemma complete_staged:
  assumes "rcv_fair E" and "staged E F w d bss L M s" and "filled Src (length Src) d" and "unat (Meta_Size (fw_Meta w)) = length Src"
    and "Done_WholeFileHash D = digest_of (rv_X E) bss"
  obtains s' where "complete E D s = (Inr (), s')" and "V_In s' = V_In s"
    and "landed E F w Src \<lparr>Receipt_LiteralBytes = L, Receipt_MatchedBytes = M, Receipt_HashHits = 0, Receipt_FalseAlarms = 0\<rparr> s s'"
proof -
  let ?R = "\<lparr>Receipt_LiteralBytes = L, Receipt_MatchedBytes = M, Receipt_HashHits = 0, Receipt_FalseAlarms = 0\<rparr>"
  let ?w = "w\<lparr>fw_Open := False, fw_Committed := True\<rparr>"
  obtain s1 where s1: "settle_pages E 0 0 s = (Inr (), s1)" "staged E F w d bss L M s1" "core E s1 = core E s"
    "length (V_Receiving s1) \<le> 0" "length (V_Writing s1) \<le> 0"
    by (rule settle_staged [OF assms(1,2)])
  have nil: "V_Receiving s1 = []" "V_Writing s1 = []" using s1(4,5) by simp_all
  obtain f where f: "V_Files s1 = F(fw_TempPath w \<mapsto> f)" "f_data f = d" "f_mode f = 0x180" "f_mtime f = 0" and w: "V_Writer s1 = Some w"
    and h: "V_Whole s1 = foldl (Hasher_update (rv_X E)) (Hasher_new (rv_X E) XxH3) bss" and R: "V_Received s1 = ?R"
    using s1(2) nil by (cases "V_Received s1") (auto simp: staged_def)
  note c = FileWriter_commit_ok [OF f(1,3,4), unfolded f(2) assms(4) filled_resize [OF assms(3)], OF refl]
  have sys: "rv_sys E = (\<lambda>_. None)" "rv_send E n = Inr ()" for n using assms(1) by (simp_all add: rcv_fair_def)
  let ?s = "s1\<lparr>V_Writer := Some ?w, V_Files := (F(fw_TempPath w := None))(fw_FinalPath w \<mapsto> image Src (fw_Meta w)),
     V_Rep := counted ?R (V_Rep s1), V_Sent := V_Sent s1 @ [Receipt ?R]\<rparr>"
  have "complete E D s = (Inr (), ?s)"
    using s1(1) w h R assms(5) by (simp add: complete_def sys c digest_of_def rcv_send_def)
  moreover have "Which (V_Whole s1) = XxH3" by (simp add: h foldl_Hasher_update Hasher_new_def)
  then have "landed E F w Src ?R s ?s"
    using s1(3) nil core_fields(9,12) [OF s1(3)] by (cases s; cases s1) (simp add: landed_def core_def)
  moreover have "V_In ?s = V_In s" using core_fields(11) [OF s1(3)] by simp
  ultimately show ?thesis using that by blast
qed

section \<open>Instructions and pages in a row\<close>

text \<open>What a piece needs: its page on the channel, or its block in the basis.\<close>

fun at_hand :: "'h rcv_env \<Rightarrow> 'h Receive \<Rightarrow> piece \<Rightarrow> bool" where
  "at_hand E s (PLit k bs) \<longleftrightarrow> length bs \<le> V_PageBytes s \<and> length bs < 2 ^ 32 \<and> rv_recv E (V_TagBase s + of_nat k) (length bs) = Inr bs"
| "at_hand E s (PCopy i k bs) \<longleftrightarrow> block_of s (of_nat i) bs"

lemma at_hand_core:
  assumes "core E s' = (core E s)\<lparr>V_In := es\<rparr>"
  shows "at_hand E s' = at_hand E s" "rcv_room s' = rcv_room s"
proof -
  have "core E s' = core E (s\<lparr>V_In := es\<rparr>)" using assms by (simp add: core_def)
  note c = core_fields [OF this]
  show "at_hand E s' = at_hand E s"
  proof
    fix x show "at_hand E s' x = at_hand E s x" using c by (cases x) (simp_all add: block_of_def)
  qed
  show "rcv_room s' = rcv_room s" using c by (simp add: rcv_room_def)
qed

lemma receiveDelta_piece:
  assumes "rcv_fair E" and "rcv_room s" and "staged E F w d bss L M s" and "filled Src At d" and "length Src < 2 ^ 63"
    and "consecutive Src At (x # xs)" and "at_hand E s x" and "carries (V_In s) (piece_message x # Ms) rest"
  obtains s' d' where "receiveDelta E s = receiveDelta E s'"
    and "staged E F w d' (bss @ [piece_bytes x]) (L + of_nat (literal_bytes x)) (M + of_nat (matched_bytes x)) s'"
    and "filled Src (At + length (piece_bytes x)) d'" and "carries (V_In s') Ms rest" and "core E s' = (core E s)\<lparr>V_In := V_In s'\<rparr>"
proof -
  obtain es where es: "nextMessage s = (Inr (piece_message x), s\<lparr>V_In := es\<rparr>)" "carries es Ms rest"
    by (rule nextMessage_carries [OF assms(8)])
  let ?s = "s\<lparr>V_In := es\<rparr>"
  have st: "staged E F w d bss L M ?s" using assms(3) by (simp add: staged_def)
  have x: "piece_at x = At" "piece_bytes x = take (length (piece_bytes x)) (drop At Src)" "piece_bytes x \<noteq> []" "At + length (piece_bytes x) \<le> length Src"
    using assms(6) by simp_all
  have At: "unat (of_nat At :: u64) = At" using x(4) assms(5) by (intro unat_of_nat_small) simp
  show ?thesis
  proof (cases x)
    case (PLit k bs)
    have h: "length bs \<le> V_PageBytes s" "length bs < 2 ^ 32" "rv_recv E (V_TagBase s + of_nat k) (length bs) = Inr bs" using assms(7) PLit by simp_all
    have u: "unat (of_nat (length bs) :: u32) = length bs" using h(2) by (intro unat_of_nat_small) simp
    have room: "rcv_room ?s" using assms(2) by (simp add: rcv_room_def)
    obtain s' where s': "post_receive E (of_nat k) (of_nat (length bs)) ?s = Some (Inr (), s')" "core E s' = core E ?s"
      "staged E F w (overwrite (unat (of_nat k :: u64)) (padded E w (V_PageBytes ?s) (of_nat k) bs) d) (bss @ [bs]) (L + ucast (of_nat (length bs) :: u32)) M s'"
      by (rule post_receive_staged [OF assms(1) room st, of "of_nat k" "of_nat (length bs)" bs]) (simp_all add: u h(3))
    have k: "k = At" using x(1) PLit by simp
    have "ucast (of_nat (length bs) :: u32) = (of_nat (length bs) :: u64)" using u by (metis of_nat_unat)
    then have "staged E F w (overwrite At (padded E w (V_PageBytes s) (of_nat k) bs) d) (bss @ [bs]) (L + of_nat (length bs)) M s'"
      using s'(3) k At by simp
    moreover have "filled Src (At + length bs) (overwrite At (padded E w (V_PageBytes s) (of_nat k) bs) d)"
      using filled_overwrite [OF assms(4) _ _ _] padded_prefix [OF h(1,2), of E w "of_nat k"] x PLit by simp
    moreover have "receiveDelta E s = receiveDelta E s'"
      using es(1) s'(1) h(1) u PLit by (subst receiveDelta.simps) (simp add: applyLiteral_def)
    moreover have "V_In s' = es" using core_fields(11) [OF s'(2)] by simp
    ultimately show ?thesis using that [of s'] PLit es(2) s'(2) by (simp add: core_def)
  next
    case (PCopy i k bs)
    let ?C = "\<lparr>Copy_BlockIndex = of_nat i, Copy_Count = 1, Copy_DstOffset = of_nat k\<rparr>"
    have "block_of ?s (Copy_BlockIndex ?C) bs" using assms(7) PCopy by (simp add: block_of_def)
    then obtain s' where s': "applyCopy E ?C ?s = (Inr (), s')" "core E s' = core E ?s"
      "staged E F w (overwrite (unat (Copy_DstOffset ?C)) bs d) (bss @ [bs]) L (M + of_nat (length bs)) s'"
      by (rule applyCopy_staged [OF assms(1) st])
    have k: "k = At" using x(1) PCopy by simp
    have "filled Src (At + length bs) (overwrite At bs d)" using filled_overwrite [OF assms(4), of "length bs" bs] x PCopy by simp
    moreover have "receiveDelta E s = receiveDelta E s'" using es(1) s'(1) PCopy by (subst receiveDelta.simps) simp
    moreover have "V_In s' = es" using core_fields(11) [OF s'(2)] by simp
    ultimately show ?thesis using that [of s' "overwrite At bs d"] PCopy es(2) s'(2,3) k At by (simp add: core_def)
  qed
qed

lemma receiveDelta_pieces:
  assumes "rcv_fair E" and "rcv_room s" and "staged E F w d bss L M s" and "filled Src At d" and "length Src < 2 ^ 63"
    and "consecutive Src At xs" and "list_all (at_hand E s) xs" and "carries (V_In s) (map piece_message xs @ Ms) rest"
  obtains s' d' where "receiveDelta E s = receiveDelta E s'"
    and "staged E F w d' (bss @ map piece_bytes xs) (L + of_nat (\<Sum>x\<leftarrow>xs. literal_bytes x)) (M + of_nat (\<Sum>x\<leftarrow>xs. matched_bytes x)) s'"
    and "filled Src (length Src) d'" and "carries (V_In s') Ms rest" and "core E s' = (core E s)\<lparr>V_In := V_In s'\<rparr>"
proof -
  have "\<exists>s' d'. receiveDelta E s = receiveDelta E s' \<and>
      staged E F w d' (bss @ map piece_bytes xs) (L + of_nat (\<Sum>x\<leftarrow>xs. literal_bytes x)) (M + of_nat (\<Sum>x\<leftarrow>xs. matched_bytes x)) s' \<and>
      filled Src (length Src) d' \<and> carries (V_In s') Ms rest \<and> core E s' = (core E s)\<lparr>V_In := V_In s'\<rparr>"
    using assms(2-4,6-8)
  proof (induction xs arbitrary: s d bss L M At)
    case Nil
    then show ?case by (intro exI [of _ s] exI [of _ d]) (simp add: core_def)
  next
    case (Cons x xs)
    obtain s1 d1 where s1: "receiveDelta E s = receiveDelta E s1"
      "staged E F w d1 (bss @ [piece_bytes x]) (L + of_nat (literal_bytes x)) (M + of_nat (matched_bytes x)) s1"
      "filled Src (At + length (piece_bytes x)) d1" "carries (V_In s1) (map piece_message xs @ Ms) rest" "core E s1 = (core E s)\<lparr>V_In := V_In s1\<rparr>"
      using receiveDelta_piece [OF assms(1) Cons.prems(1-3) assms(5) Cons.prems(4), of "map piece_message xs @ Ms" rest] Cons.prems(5,6) by auto
    note same = at_hand_core [OF s1(5)]
    have "rcv_room s1" "consecutive Src (At + length (piece_bytes x)) xs" "list_all (at_hand E s1) xs"
      using same Cons.prems(1,4,5) by simp_all
    from Cons.IH [OF this(1) s1(2,3) this(2,3) s1(4)] show ?case using s1(1,5) by (auto simp: add.assoc core_def)
  qed
  then show ?thesis using that by blast
qed

lemma landed_core: "core E s = (core E s0)\<lparr>V_In := V_In s\<rparr> \<Longrightarrow> landed E F w Src R s s' \<Longrightarrow> landed E F w Src R s0 s'"
proof -
  assume a: "core E s = (core E s0)\<lparr>V_In := V_In s\<rparr>" and l: "landed E F w Src R s s'"
  have "core E s = core E (s0\<lparr>V_In := V_In s\<rparr>)" using a by (simp add: core_def)
  from core_fields(9,12) [OF this] show ?thesis using l unfolding landed_def a by simp
qed

lemma receiveDelta_lands:
  assumes "rcv_fair E" and "rcv_room s" and "staged E F w [] [] 0 0 s" and "length Src < 2 ^ 63"
    and "consecutive Src 0 xs" and "list_all (at_hand E s) xs" and "unat (Meta_Size (fw_Meta w)) = length Src"
    and "carries (V_In s) (map piece_message xs @ Done \<lparr>Done_WholeFileHash = digest_of (rv_X E) (map piece_bytes xs)\<rparr> # Ms) rest"
  obtains s' where "receiveDelta E s = Some (Inr (), s')" and "carries (V_In s') Ms rest"
    and "landed E F w Src (receipt (\<Sum>x\<leftarrow>xs. literal_bytes x) (\<Sum>x\<leftarrow>xs. matched_bytes x)) s s'"
proof -
  let ?D = "\<lparr>Done_WholeFileHash = digest_of (rv_X E) (map piece_bytes xs)\<rparr>"
  have f0: "filled Src 0 []" by (simp add: filled_def)
  obtain s1 d where s1: "receiveDelta E s = receiveDelta E s1"
    "staged E F w d ([] @ map piece_bytes xs) (0 + of_nat (\<Sum>x\<leftarrow>xs. literal_bytes x)) (0 + of_nat (\<Sum>x\<leftarrow>xs. matched_bytes x)) s1"
    "filled Src (length Src) d" "carries (V_In s1) (Done ?D # Ms) rest" "core E s1 = (core E s)\<lparr>V_In := V_In s1\<rparr>"
    by (rule receiveDelta_pieces [OF assms(1-3) f0 assms(4-6,8)])
  obtain es where es: "nextMessage s1 = (Inr (Done ?D), s1\<lparr>V_In := es\<rparr>)" "carries es Ms rest"
    by (rule nextMessage_carries [OF s1(4)])
  let ?s = "s1\<lparr>V_In := es\<rparr>"
  have "staged E F w d (map piece_bytes xs) (of_nat (\<Sum>x\<leftarrow>xs. literal_bytes x)) (of_nat (\<Sum>x\<leftarrow>xs. matched_bytes x)) ?s"
    using s1(2) by (simp add: staged_def)
  then obtain s' where s': "complete E ?D ?s = (Inr (), s')" "V_In s' = V_In ?s"
    "landed E F w Src (receipt (\<Sum>x\<leftarrow>xs. literal_bytes x) (\<Sum>x\<leftarrow>xs. matched_bytes x)) ?s s'"
    by (rule complete_staged [OF assms(1) _ s1(3) assms(7), where D = ?D]) simp_all
  have "core E ?s = (core E s)\<lparr>V_In := V_In ?s\<rparr>" using s1(5) by (simp add: core_V_In)
  note l = landed_core [OF this s'(3)]
  have "receiveDelta E s1 = Some (Inr (), s')" using es(1) s'(1) by (subst receiveDelta.simps) simp
  then show ?thesis using that [of s'] l s1(1) s'(2) es(2) by simp
qed

section \<open>A streamed file\<close>

lemma receiveStream_pages:
  assumes "rcv_fair E" and "rcv_room s" and "staged E F w d bss L M s" and "filled Src At d" and "length Src < 2 ^ 63" and "At \<le> length Src"
    and "0 < V_PageBytes s" and "V_PageBytes s < 2 ^ 32" and "list_all (at_hand E s) (literals Src (pages (V_PageBytes s) At (length Src)))"
  shows "\<exists>s' d'. receiveStream E (of_nat (length Src)) (of_nat At) s = Some (stream_end E s') \<and>
    staged E F w d' (bss @ map piece_bytes (literals Src (pages (V_PageBytes s) At (length Src)))) (L + of_nat (length Src - At)) M s' \<and>
    filled Src (length Src) d' \<and> core E s' = core E s"
  using assms(2-4,6-9)
proof (induction "length Src - At" arbitrary: s d bss L At rule: less_induct)
  case less
  let ?n = "length Src" and ?PB = "V_PageBytes s"
  have At: "unat (of_nat At :: u64) = At" "unat (of_nat ?n :: u64) = ?n" using less.prems(4) assms(5) by (simp_all add: unat_of_nat_small)
  show ?case
  proof (cases "At < ?n")
    case False
    then have "receiveStream E (of_nat ?n) (of_nat At) s = Some (stream_end E s)" using less.prems(4) by (subst receiveStream.simps) simp
    then show ?thesis using False less.prems by (intro exI [of _ s] exI [of _ d]) (simp add: pages.simps literals_def)
  next
    case True
    define l where "l = min ?PB (?n - At)"
    have l: "0 < l" "l \<le> ?PB" "At + l \<le> ?n" "l < 2 ^ 32" using True less.prems(5,6) by (auto simp: l_def)
    have u: "unat (of_nat l :: u32) = l" using l(4) by (intro unat_of_nat_small) simp
    define bs where "bs = take l (drop At Src)"
    have bs: "length bs = l" using l(3) by (simp add: bs_def)
    have pg: "pages ?PB At ?n = (At, l) # pages ?PB (At + l) ?n" using True less.prems(5) by (subst pages.simps) (simp add: l_def)
    have h: "rv_recv E (V_TagBase s + of_nat At) (unat (of_nat l :: u32)) = Inr bs" using less.prems(7) bs by (simp add: pg literals_def u bs_def)
    obtain s1 where s1: "post_receive E (of_nat At) (of_nat l) s = Some (Inr (), s1)" "core E s1 = core E s"
      "staged E F w (overwrite (unat (of_nat At :: u64)) (padded E w ?PB (of_nat At) bs) d) (bss @ [bs]) (L + ucast (of_nat l :: u32)) M s1"
      by (rule post_receive_staged [OF assms(1) less.prems(1,2) h])
    have c: "ucast (of_nat l :: u32) = (of_nat l :: u64)" using u by (metis of_nat_unat)
    let ?d = "overwrite At (padded E w ?PB (of_nat At) bs) d"
    have st: "staged E F w ?d (bss @ [bs]) (L + of_nat l) M s1" using s1(3) At(1) c by simp
    have fl: "filled Src (At + l) ?d"
      using filled_overwrite [OF less.prems(3) l(3), of "padded E w ?PB (of_nat At) bs"] padded_prefix [of bs ?PB E w "of_nat At"] l bs by (simp add: bs_def)
    have sz: "unat (of_nat ?n - of_nat At :: u64) = ?n - At" using True assms(5) by (simp add: unat_of_nat_small flip: of_nat_diff)
    have lt: "(of_nat At :: u64) < of_nat ?n" using True At by (simp add: word_less_nat_alt)
    have step: "receiveStream E (of_nat ?n) (of_nat At) s = receiveStream E (of_nat ?n) (of_nat (At + l)) s1"
      using lt s1(1) c by (subst receiveStream.simps) (simp add: sz flip: l_def)
    note same = core_fields [OF s1(2)]
    have "at_hand E s1 = at_hand E s" "rcv_room s1 = rcv_room s" using at_hand_core [of E s1 "V_In s" s] s1(2) by (simp_all add: core_V_In)
    then have "\<exists>s' d'. receiveStream E (of_nat ?n) (of_nat (At + l)) s1 = Some (stream_end E s') \<and>
      staged E F w d' ((bss @ [bs]) @ map piece_bytes (literals Src (pages ?PB (At + l) ?n))) ((L + of_nat l) + of_nat (?n - (At + l))) M s' \<and>
      filled Src ?n d' \<and> core E s' = core E s1"
      using less.hyps [OF _ _ st fl] less.prems l same(3) True by (simp add: pg literals_def)
    moreover have "(L + of_nat l) + of_nat (?n - (At + l)) = L + of_nat (?n - At)" 
    proof -
      have "?n - At = l + (?n - (At + l))" using l(3) by simp
      then show ?thesis by (simp only: of_nat_add add.assoc)
    qed
    ultimately show ?thesis using step s1(2) by (simp add: pg literals_def bs_def)
  qed
qed

lemma receiveStream_lands:
  assumes "rcv_fair E" and "rcv_room s" and "staged E F w [] [] 0 0 s" and "length Src < 2 ^ 63"
    and "0 < V_PageBytes s" and "V_PageBytes s < 2 ^ 32" and "list_all (at_hand E s) (literals Src (pages (V_PageBytes s) 0 (length Src)))"
    and "unat (Meta_Size (fw_Meta w)) = length Src"
    and "carries (V_In s) (Done \<lparr>Done_WholeFileHash = digest_of (rv_X E) (map piece_bytes (literals Src (pages (V_PageBytes s) 0 (length Src))))\<rparr> # Ms) rest"
  obtains s' where "receiveStream E (of_nat (length Src)) 0 s = Some (Inr (), s')" and "carries (V_In s') Ms rest"
    and "landed E F w Src (receipt (length Src) 0) s s'"
proof -
  let ?bss = "map piece_bytes (literals Src (pages (V_PageBytes s) 0 (length Src)))"
  let ?D = "\<lparr>Done_WholeFileHash = digest_of (rv_X E) ?bss\<rparr>"
  have f0: "filled Src 0 []" by (simp add: filled_def)
  obtain s1 d where s1: "receiveStream E (of_nat (length Src)) (of_nat 0) s = Some (stream_end E s1)" "staged E F w d ([] @ ?bss) (0 + of_nat (length Src - 0)) 0 s1"
    "filled Src (length Src) d" "core E s1 = core E s"
    using receiveStream_pages [OF assms(1-3) f0 assms(4) _ assms(5-7)] by blast
  obtain s2 where s2: "settle_pages E 0 0 s1 = (Inr (), s2)" "staged E F w d ([] @ ?bss) (0 + of_nat (length Src - 0)) 0 s2" "core E s2 = core E s1"
    "length (V_Receiving s2) \<le> 0" "length (V_Writing s2) \<le> 0"
    by (rule settle_staged [OF assms(1) s1(2)])
  have "V_In s2 = V_In s" using core_fields(11) s1(4) s2(3) by metis
  then obtain es where es: "nextMessage s2 = (Inr (Done ?D), s2\<lparr>V_In := es\<rparr>)" "carries es Ms rest"
    using nextMessage_carries [of s2 "Done ?D" Ms rest] assms(9) by auto
  let ?s = "s2\<lparr>V_In := es\<rparr>"
  have "staged E F w d ?bss (of_nat (length Src)) (of_nat 0) ?s" using s2(2) by (simp add: staged_def)
  then obtain s' where s': "complete E ?D ?s = (Inr (), s')" "V_In s' = V_In ?s" "landed E F w Src (receipt (length Src) 0) ?s s'"
    by (rule complete_staged [OF assms(1) _ s1(3) assms(8), where D = ?D]) simp_all
  have "core E ?s = (core E s)\<lparr>V_In := V_In ?s\<rparr>" using s1(4) s2(3) by (simp add: core_V_In)
  note l = landed_core [OF this s'(3)]
  have "stream_end E s1 = (Inr (), s')" using s2(1) es(1) s'(1) by (simp add: stream_end_def)
  then show ?thesis using that [of s'] l s1(1) s'(2) es(2) by simp
qed

end
