(* ===== verification/ReceiveFile.thy ===== *)
theory ReceiveFile
  imports ReceiveSteps
begin

text \<open>
  One file as the receiver of a sync takes it: the target is resolved and opened, the copy that is
  there is offered by its signature, the pieces land in a temporary file, and the file appears at
  its target when the digest agrees.
\<close>

text \<open>What the receiver has of the file, and the signature it sends of that.\<close>

definition basis_of :: "'h rcv_env \<Rightarrow> files \<Rightarrow> string \<Rightarrow> byte list option" where
  "basis_of E F Target = (if rv_open E Target then map_option f_data (F Target) else None)"

definition offered :: "'h rcv_env \<Rightarrow> u64 \<Rightarrow> byte list option \<Rightarrow> Signature Result" where
  "offered E Size Basis =
     (case Basis of
        None \<Rightarrow> Inr no_signature
      | Some Data \<Rightarrow>
          if Data = [] then Inr no_signature
          else
            let Block = chooseBlockLength Size (rv_MaxBlock E)
            in buildSignature (\<lambda>Offset n. FileReader_read Data (rv_pread E Offset n) Offset n) (of_nat (length Data)) (rv_strong E) Block
                 (chooseStrongLength Size Block))"

text \<open>The receiver between two files.\<close>

definition rcv_idle :: "'h Receive \<Rightarrow> bool" where
  "rcv_idle s \<longleftrightarrow> rcv_room s \<and> V_Receiving s = [] \<and> V_Writing s = [] \<and> Which (V_Whole s) = XxH3 \<and>
     (case V_Writer s of None \<Rightarrow> True | Some w \<Rightarrow> fw_Committed w)"

definition meta_of :: "FileHeader \<Rightarrow> FileMeta" where
  "meta_of FH = \<lparr>Meta_Size = FileHeader_Size FH, Meta_Mode = FileHeader_Mode FH, Meta_Mtime = FileHeader_Mtime FH\<rparr>"

definition writer_for :: "'h rcv_env \<Rightarrow> FileHeader \<Rightarrow> string \<Rightarrow> 'h Receive \<Rightarrow> FileWriter" where
  "writer_for E FH Target s =
     \<lparr>fw_Open = True, fw_TempPath = temp_path (rv_pid E) (V_Next s) Target, fw_FinalPath = Target, fw_Meta = meta_of FH, fw_Durable = rv_Durable E,
      fw_Direct = (FileHeader_Streamed FH \<and> V_PageBytes s mod unat kDirectAlignment = 0), fw_Committed = False\<rparr>"

definition opened :: "'h rcv_env \<Rightarrow> FileHeader \<Rightarrow> string \<Rightarrow> Signature \<Rightarrow> rcall list \<Rightarrow> 'h Receive \<Rightarrow> 'h Receive" where
  "opened E FH Target Sig Cs s =
     s\<lparr>V_Whole := Hasher_new (rv_X E) XxH3, V_Received := Receipt_none, V_Sig := (if FileHeader_WantSignature FH then Sig else no_signature),
       V_Basis := basis_of E (V_Files s) Target, V_Calls := V_Calls s @ Cs, V_Next := Suc (V_Next s), V_Writer := Some (writer_for E FH Target s),
       V_Files := (V_Files s)(fw_TempPath (writer_for E FH Target s) \<mapsto> \<lparr>f_data = [], f_mode = 0x180, f_mtime = 0\<rparr>),
       V_Sent := V_Sent s @ (if FileHeader_WantSignature FH then [Signature Sig] else [])\<rparr>"

text \<open>The calls on paths.\<close>

definition open_calls :: "bool \<Rightarrow> string \<Rightarrow> rcall list" where
  "open_calls Recursive Target =
     (if Recursive \<and> has_parent_path Target then [MakeDirs (parent_path Target)] else []) @ [OpenBasis Target, CreateFile Target]"

lemma openTarget_opened:
  assumes "rcv_fair E" and "rcv_idle s" and "resolve E (V_Recursive s) (FileHeader_Name FH) = Inr Target"
    and "FileHeader_WantSignature FH \<longrightarrow> offered E (FileHeader_Size FH) (basis_of E (V_Files s) Target) = Inr Sig"
  shows "openTarget E FH (s\<lparr>V_Whole := Hasher_reset (rv_X E) (V_Whole s), V_Received := Receipt_none, V_Sig := Signature_none, V_Basis := None\<rparr>) =
    (Inr (), opened E FH Target Sig (open_calls (V_Recursive s) Target) s)"
proof -
  have new: "Hasher_reset (rv_X E) (V_Whole s) = Hasher_new (rv_X E) XxH3"
    using assms(2) by (cases "V_Whole s") (simp add: rcv_idle_def Hasher_reset_def Hasher_new_def)
  have sys: "rv_sys E = (\<lambda>_. None)" "rv_send E n = Inr ()" for n using assms(1) by (simp_all add: rcv_fair_def)
  have drop: "drop_writer t = t\<lparr>V_Writer := None\<rparr>" if "V_Writer t = V_Writer s" for t :: "'a Receive"
    using assms(2) that by (cases t) (auto simp: drop_writer_def rcv_idle_def FileWriter_abandon_def split: option.splits)
  have c: "(if b then rcv_call c t else t) = t\<lparr>V_Calls := V_Calls t @ (if b then [c] else [])\<rparr>" for b c and t :: "'a Receive"
    by (cases t) (simp add: rcv_call_def)
  have o: "(if b then t\<lparr>V_Basis := B\<rparr> else t) = t\<lparr>V_Basis := (if b then B else V_Basis t)\<rparr>" for b B and t :: "'a Receive"
    by (cases t) simp
  have od: "openDestination (\<lambda>_. None) d = Inr d" for d by (simp add: openDestination_def)
  let ?s = "(s\<lparr>V_Whole := Hasher_new (rv_X E) XxH3, V_Received := Receipt_none, V_Sig := no_signature, V_Basis := basis_of E (V_Files s) Target,
     V_Calls := V_Calls s @ open_calls (V_Recursive s) Target, V_Next := Suc (V_Next s), V_Files := (V_Files s)(fw_TempPath (writer_for E FH Target s) \<mapsto>
     \<lparr>f_data = [], f_mode = 0x180, f_mtime = 0\<rparr>), V_Writer := Some (writer_for E FH Target s)\<rparr>)"
  have "openTarget E FH (s\<lparr>V_Whole := Hasher_reset (rv_X E) (V_Whole s), V_Received := Receipt_none, V_Sig := Signature_none, V_Basis := None\<rparr>) =
      (if \<not> FileHeader_WantSignature FH then (Inr (), ?s)
       else case offered E (FileHeader_Size FH) (basis_of E (V_Files s) Target) of
         Inl e \<Rightarrow> (Inl e, ?s) | Inr Sig \<Rightarrow> rcv_send E (Signature Sig) (?s\<lparr>V_Sig := Sig\<rparr>))"
    using assms(3) unfolding openTarget_def c o new
    by (simp add: Let_def FileWriter_create_def od sys drop rcv_call_def writer_for_def open_calls_def basis_of_def Signature_none_def
        meta_of_def offered_def split del: if_split cong: if_cong option.case_cong sum.case_cong)
  then show ?thesis using assms(4) by (cases s) (simp add: opened_def rcv_send_def sys)
qed

section \<open>Pieces in reach\<close>

text \<open>A page the channel brings, or a block the basis has where the signature says.\<close>

fun in_reach :: "'h rcv_env \<Rightarrow> u64 \<Rightarrow> nat \<Rightarrow> byte list option \<Rightarrow> Signature \<Rightarrow> piece \<Rightarrow> bool" where
  "in_reach E Tag PB Basis Sig (PLit k bs) \<longleftrightarrow> length bs \<le> PB \<and> length bs < 2 ^ 32 \<and> rv_recv E (Tag + of_nat k) (length bs) = Inr bs"
| "in_reach E Tag PB Basis Sig (PCopy i k bs) \<longleftrightarrow>
     (\<exists>Data. Basis = Some Data \<and> bs \<noteq> [] \<and> unat (blockLengthAt Sig (of_nat i)) = length bs \<and>
        bs = take (length bs) (drop (unat (ucast (of_nat i :: u32) * ucast (Signature_BlockLength Sig) :: u64)) Data))"

lemma at_hand_in_reach: "at_hand E s = in_reach E (V_TagBase s) (V_PageBytes s) (V_Basis s) (V_Sig s)"
proof
  fix x show "at_hand E s x = in_reach E (V_TagBase s) (V_PageBytes s) (V_Basis s) (V_Sig s) x" by (cases x) (simp_all add: block_of_def)
qed

lemma receiveFile_lands:
  assumes "rcv_fair E" and "rcv_idle s" and "resolve E (V_Recursive s) (FileHeader_Name FH) = Inr Target"
    and "FileHeader_WantSignature FH \<longrightarrow> offered E (FileHeader_Size FH) (basis_of E (V_Files s) Target) = Inr Sig"
    and "FileHeader_Size FH = of_nat (length Src)" and "length Src < 2 ^ 63" and "consecutive Src 0 xs"
    and "list_all (in_reach E (V_TagBase s) (V_PageBytes s) (basis_of E (V_Files s) Target) (if FileHeader_WantSignature FH then Sig else no_signature)) xs"
    and "FileHeader_Streamed FH \<longrightarrow> 0 < V_PageBytes s \<and> V_PageBytes s < 2 ^ 32 \<and> xs = literals Src (pages (V_PageBytes s) 0 (length Src))"
    and "carries (V_In s) ((if FileHeader_Streamed FH then [] else map piece_message xs) @
      Done \<lparr>Done_WholeFileHash = digest_of (rv_X E) (map piece_bytes xs)\<rparr> # Ms) rest"
  obtains s' where "receiveFile E FH s = Some (Inr (), s')" and "rcv_idle s'" and "carries (V_In s') Ms rest"
    and "V_Sent s' = V_Sent s @ (if FileHeader_WantSignature FH then [Signature Sig] else []) @
      [Receipt (receipt (\<Sum>x\<leftarrow>xs. literal_bytes x) (\<Sum>x\<leftarrow>xs. matched_bytes x))]"
    and "V_Files s' = ((V_Files s)(temp_path (rv_pid E) (V_Next s) Target := None))(Target \<mapsto> image Src (meta_of FH))"
    and "V_TagBase s' = V_TagBase s + tagSpan (FileHeader_Size FH) (of_nat (V_PageBytes s))"
    and "V_PageBytes s' = V_PageBytes s" and "V_Recursive s' = V_Recursive s"
    and "V_Calls s' = V_Calls s @ open_calls (V_Recursive s) Target"
proof -
  let ?w = "writer_for E FH Target s" and ?L = "\<Sum>x\<leftarrow>xs. literal_bytes x" and ?M = "\<Sum>x\<leftarrow>xs. matched_bytes x"
  define s1 where "s1 = opened E FH Target Sig (open_calls (V_Recursive s) Target) s"
  have room: "rcv_room s1" using assms(2) by (simp add: s1_def opened_def rcv_idle_def rcv_room_def)
  have st: "staged E (V_Files s) ?w [] [] 0 0 s1"
    using assms(2) unfolding staged_def s1_def opened_def rcv_idle_def
    by (intro conjI exI [of _ "\<lparr>f_data = [], f_mode = 0x180, f_mtime = 0\<rparr>"]) (simp_all add: Receipt_none_def)
  have hand: "list_all (at_hand E s1) xs" using assms(8) by (simp add: at_hand_in_reach s1_def opened_def)
  have size: "unat (Meta_Size (fw_Meta ?w)) = length Src" using assms(5,6) by (simp add: writer_for_def meta_of_def unat_of_nat_small)
  have In: "V_In s1 = V_In s" "V_PageBytes s1 = V_PageBytes s" by (simp_all add: s1_def opened_def)
  obtain s2 where s2: "(if FileHeader_Streamed FH then receiveStream E (FileHeader_Size FH) 0 s1 else receiveDelta E s1) = Some (Inr (), s2)"
    "carries (V_In s2) Ms rest" "landed E (V_Files s) ?w Src (receipt ?L ?M) s1 s2"
  proof (cases "FileHeader_Streamed FH")
    case True
    then have x: "0 < V_PageBytes s1" "V_PageBytes s1 < 2 ^ 32" "xs = literals Src (pages (V_PageBytes s1) 0 (length Src))" using assms(9) In(2) by auto
    have t: "?L = length Src" "?M = 0" using literals_tally [OF x(1), of 0 "length Src" Src] x(3) by simp_all
    have c: "carries (V_In s1) (Done \<lparr>Done_WholeFileHash = digest_of (rv_X E) (map piece_bytes (literals Src (pages (V_PageBytes s1) 0 (length Src))))\<rparr> # Ms) rest"
      using assms(10) True In x(3) by simp
    show ?thesis
      by (rule receiveStream_lands [OF assms(1) room st assms(6) x(1,2) hand [unfolded x(3)] size c])
        (rule that, simp_all add: True t assms(5))
  next
    case False
    have c: "carries (V_In s1) (map piece_message xs @ Done \<lparr>Done_WholeFileHash = digest_of (rv_X E) (map piece_bytes xs)\<rparr> # Ms) rest"
      using assms(10) False In by simp
    show ?thesis by (rule receiveDelta_lands [OF assms(1) room st assms(6,7) hand size c]) (rule that, simp_all add: False)
  qed
  note l = s2(3) [unfolded landed_def]
  define t where "t = s2\<lparr>V_TagBase := V_TagBase s2 + tagSpan (FileHeader_Size FH) (of_nat (V_PageBytes s2))\<rparr>"
  have c: "core E s2 = core E (s1\<lparr>V_Writer := Some (?w\<lparr>fw_Open := False, fw_Committed := True\<rparr>), V_Sent := V_Sent s1 @ [Receipt (receipt ?L ?M)],
      V_Rep := counted (receipt ?L ?M) (V_Rep s1), V_In := V_In s2\<rparr>)"
    using l by (cases s1) (simp add: core_def)
  note cf = core_fields [OF c]
  have "receiveFile E FH s = Some (Inr (), t)"
    using openTarget_opened [OF assms(1-4)] s2(1) by (cases "FileHeader_Streamed FH") (simp_all add: receiveFile_def t_def s1_def Let_def)
  moreover have "rcv_idle t" using l cf room by (simp add: rcv_idle_def t_def rcv_room_def)
  moreover have "V_Files t = ((V_Files s)(temp_path (rv_pid E) (V_Next s) Target := None))(Target \<mapsto> image Src (meta_of FH))"
    using l by (simp add: t_def writer_for_def)
  moreover have "V_TagBase t = V_TagBase s + tagSpan (FileHeader_Size FH) (of_nat (V_PageBytes s))" "V_PageBytes t = V_PageBytes s" "V_Recursive t = V_Recursive s"
    "V_Sent t = V_Sent s @ (if FileHeader_WantSignature FH then [Signature Sig] else []) @ [Receipt (receipt ?L ?M)]"
    "V_Calls t = V_Calls s @ open_calls (V_Recursive s) Target" "V_In t = V_In s2"
    using cf by (simp_all add: t_def s1_def opened_def)
  ultimately show ?thesis using that s2(2) by simp
qed

end
