(* ===== verification/SyncPlan.thy ===== *)
theory SyncPlan
  imports PushFile ReceiveFile
begin

text \<open>
  The two ends of a sync on one file: the signature the receiver offers leads the sender to pieces
  the receiver can put together, whether the file goes whole or as a delta.
\<close>

text \<open>Two ends that answer each other.\<close>

definition ends :: "'h push_env \<Rightarrow> 'h rcv_env \<Rightarrow> bool" where
  "ends Q E \<longleftrightarrow> push_fair Q \<and> rcv_fair E \<and> rv_X E = q_X Q \<and> rv_strong E = q_strong Q \<and>
     kDefaultBlockSize \<le> rv_MaxBlock E \<and> (\<exists>m < 32. rv_MaxBlock E = 2 ^ m)"

text \<open>
  No block of the basis and no window of the source share their checksums without being equal:
  what the signature is trusted for.
\<close>

definition delta_safe :: "'h rcv_env \<Rightarrow> byte list \<Rightarrow> byte list option \<Rightarrow> bool" where
  "delta_safe E Src Basis \<longleftrightarrow>
     (case Basis of
        None \<Rightarrow> True
      | Some Data \<Rightarrow> length Data < 2 ^ 40 \<and> (\<forall>Sig. offered E (of_nat (length Src)) Basis = Inr Sig \<longrightarrow> no_collision (rv_strong E) Sig Data Src))"

lemma block_length_bounds:
  assumes "ends Q E" and "length Src < 2 ^ 40"
  defines "B \<equiv> chooseBlockLength (of_nat (length Src)) (rv_MaxBlock E)"
  shows "700 \<le> unat B \<and> unat B < kMaxWindow"
proof -
  obtain m where m: "rv_MaxBlock E = 2 ^ m" "m < 32" "kDefaultBlockSize \<le> rv_MaxBlock E" using assms(1) by (auto simp: ends_def)
  note f = chooseBlockLength_fits [OF m, of "of_nat (length Src)", folded B_def]
  have n: "unat (of_nat (length Src) :: u64) = length Src" using assms(2) by (intro unat_of_nat_small) simp
  have d: "unat kDefaultBlockSize = 700" by (simp add: kDefaultBlockSize_def)
  have "unat B < 2 ^ 20" if "B \<noteq> kDefaultBlockSize"
  proof (rule ccontr)
    assume "\<not> unat B < 2 ^ 20"
    then have "2 ^ 20 * 2 ^ 20 \<le> unat B * unat B" by (intro mult_le_mono) simp_all
    then show False using f that n assms(2) by simp
  qed
  then have "unat B < kMaxWindow" using d by (cases "B = kDefaultBlockSize") (auto simp: kMaxWindow_def)
  then show ?thesis using f d by (simp add: word_le_nat_alt)
qed

lemma length_blocks_le: "0 < B \<Longrightarrow> length (blocks B xs) * B \<le> length xs + B"
proof (induction B xs rule: blocks.induct)
  case (1 B xs)
  show ?case
  proof (cases "xs = []")
    case False
    then have "length (blocks B xs) = Suc (length (blocks B (drop B xs)))" using "1.prems" by (subst blocks.simps) simp
    moreover have "length (blocks B (drop B xs)) * B \<le> length xs - B + B" using 1 False by simp
    moreover have "blocks B (drop B xs) = []" if "length xs \<le> B" using that by (simp add: blocks.simps)
    ultimately show ?thesis by (cases "length xs \<le> B") auto
  qed (simp add: blocks.simps)
qed

lemma nth_block_index: "0 < B \<Longrightarrow> i * B < length xs \<Longrightarrow> i < length (blocks B xs)"
proof (induction B xs arbitrary: i rule: blocks.induct)
  case (1 B xs)
  then have l: "length (blocks B xs) = Suc (length (blocks B (drop B xs)))" by (subst blocks.simps) auto
  show ?case
  proof (cases i)
    case (Suc j)
    then have "j < length (blocks B (drop B xs))" using 1 by (intro "1.IH") auto
    then show ?thesis using l Suc by simp
  qed (simp add: l)
qed

lemma blocks_few: "700 \<le> B \<Longrightarrow> length xs < 2 ^ 40 \<Longrightarrow> length (blocks B xs) < 2 ^ 31"
proof (rule ccontr)
  assume a: "700 \<le> B" "length xs < 2 ^ 40" "\<not> length (blocks B xs) < 2 ^ 31"
  have "(2 ^ 31 - 1) * 700 \<le> (length (blocks B xs) - 1) * B" using a(1,3) by (intro mult_le_mono) simp_all
  also have "\<dots> \<le> length xs" using length_blocks_le [of B xs] a(1) by (simp add: diff_mult_distrib)
  finally show False using a(2) by simp
qed

lemma offered_signature:
  assumes "ends Q E" and "length Src < 2 ^ 40" and "delta_safe E Src Basis"
  obtains Sig where "offered E (of_nat (length Src)) Basis = Inr Sig"
    and "\<forall>Data. Basis = Some Data \<and> Data \<noteq> [] \<longrightarrow> (\<exists>StrongLength. Sig = \<lparr>Signature_BlockLength = chooseBlockLength (of_nat (length Src)) (rv_MaxBlock E), Signature_StrongLength = StrongLength,
        Signature_FileLength = of_nat (length Data),
        Signature_Sums = map (sum_of (rv_strong E)) (blocks (unat (chooseBlockLength (of_nat (length Src)) (rv_MaxBlock E))) Data)\<rparr>)"
    and "Basis = None \<or> Basis = Some [] \<longrightarrow> Sig = no_signature"
proof (cases "Basis = None \<or> Basis = Some []")
  case True
  then show ?thesis using that [of no_signature] by (auto simp: offered_def)
next
  case False
  then obtain Data where D: "Basis = Some Data" "Data \<noteq> []" by (cases Basis) auto
  obtain sched where sched: "rv_pread E = (\<lambda>Offset n. calm_schedule (sched Offset n))" using assms(1) by (auto simp: ends_def rcv_fair_def)
  define B where "B = chooseBlockLength (of_nat (length Src)) (rv_MaxBlock E)"
  have "B \<noteq> 0" using block_length_bounds [OF assms(1,2)] by (auto simp: B_def)
  moreover have "length Data < 2 ^ 64" using assms(3) D by (simp add: delta_safe_def)
  ultimately have "offered E (of_nat (length Src)) Basis = Inr \<lparr>Signature_BlockLength = B, Signature_StrongLength = chooseStrongLength (of_nat (length Src)) B,
      Signature_FileLength = of_nat (length Data), Signature_Sums = map (sum_of (rv_strong E)) (blocks (unat B) Data)\<rparr>"
    using D buildSignature_reader [of Data B sched "rv_strong E"] by (simp add: offered_def Let_def sched flip: B_def)
  then show ?thesis using that D by (auto simp: B_def)
qed

section \<open>Pieces the receiver can put together\<close>

definition delivered :: "'h rcv_env \<Rightarrow> (u64 \<times> byte list) list \<Rightarrow> bool" where
  "delivered E Pages \<longleftrightarrow> (\<forall>(Tag, bs) \<in> set Pages. rv_recv E Tag (length bs) = Inr bs)"

lemma delivered_append [simp]: "delivered E (xs @ ys) \<longleftrightarrow> delivered E xs \<and> delivered E ys"
  by (auto simp: delivered_def)

lemma literal_in_reach:
  assumes "delivered E (piece_pages Tag xs)" and "PLit k bs \<in> set xs" and "length bs \<le> PB" and "PB < 2 ^ 32"
  shows "in_reach E Tag PB Basis Sig (PLit k bs)"
proof -
  have "(Tag + of_nat k, bs) \<in> set (piece_pages Tag xs)" using assms(2) by (force simp: piece_pages_def)
  then show ?thesis using assms by (auto simp: delivered_def)
qed

lemma copy_in_reach:
  fixes i :: nat
  assumes "Sig = \<lparr>Signature_BlockLength = B, Signature_StrongLength = StrongLength, Signature_FileLength = of_nat (length Data),
        Signature_Sums = map h (blocks (unat B) Data)\<rparr>"
    and "B \<noteq> 0" and "length Data < 2 ^ 40" and "length (blocks (unat B) Data) < 2 ^ 31" and "bs \<noteq> []" and "take (unat B) (drop (i * unat B) Data) = bs"
  shows "in_reach E Tag PB (Some Data) Sig (PCopy i k bs)"
proof -
  let ?B = "unat B"
  have lt: "i * ?B < length Data" using assms(5,6) by (rule_tac ccontr) simp
  have B: "0 < ?B" using assms(2) by (simp add: unat_gt_0)
  have i: "i < length (blocks ?B Data)" using nth_block_index [OF B lt] .
  have u: "unat (of_nat i :: u32) = i" using i assms(4) by (intro unat_of_nat_small) simp
  have "unat (blockLengthAt Sig (of_nat i)) = length (blocks ?B Data ! unat (of_nat i :: u32))"
    using blockLengthAt_blocks [of Sig Data "of_nat i"] assms(1-3) i u by simp
  moreover have "blocks ?B Data ! i = bs" using nth_blocks [OF i] assms(6) by simp
  moreover have "unat (ucast (of_nat i :: u32) * ucast B :: u64) = i * ?B" using lt assms(3) u by (simp add: unat_word_ariths)
  moreover have "bs = take (length bs) (drop (i * ?B) Data)" by (metis append_eq_conv_conj append_take_drop_id assms(6))
  ultimately show ?thesis using assms(1,5) u by simp
qed

lemma whole_plan:
  assumes "push_fair Q" and "\<not> shouldUseDelta Sig (Meta_Size (src_Meta S)) (O_Policy (q_Opts Q))"
    and "xs = literals Src (pages (page_size Q) 0 (length Src))"
  shows "plan Q Src S Sig xs" and "delivered E (piece_pages Tag xs) \<Longrightarrow> list_all (in_reach E Tag (page_size Q) Basis Sig') xs"
proof -
  show "plan Q Src S Sig xs" using assms(2,3) by (simp add: plan_def)
  assume d: "delivered E (piece_pages Tag xs)"
  have "in_reach E Tag (page_size Q) Basis Sig' x" if x: "x \<in> set xs" for x
  proof -
    obtain k l where kl: "(k, l) \<in> set (pages (page_size Q) 0 (length Src))" "x = PLit k (take l (drop k Src))"
      using x assms(3) by (auto simp: literals_def)
    show ?thesis unfolding kl(2)
      by (rule literal_in_reach [OF d]) (use x kl pages_bounds [OF kl(1)] assms(1) in \<open>auto simp: push_fair_def\<close>)
  qed
  then show "list_all (in_reach E Tag (page_size Q) Basis Sig') xs" by (simp add: list_all_iff)
qed

lemma no_signature_no_delta: "\<not> shouldUseDelta no_signature Size Policy" "\<not> shouldUseDelta Sig Size Never"
  by (simp_all add: shouldUseDelta_def)

text \<open>What the sender answers a signature with.\<close>

lemma answering_plan:
  assumes "ends Q E" and "steady_source Src S" and "length Src < 2 ^ 40" and "delta_safe E Src Basis"
    and "wants_signature Q" and "offered E (of_nat (length Src)) Basis = Inr Sig"
  obtains xs where "plan Q Src S Sig xs" and "\<And>Tag. delivered E (piece_pages Tag xs) \<Longrightarrow> list_all (in_reach E Tag (page_size Q) Basis Sig) xs"
proof (cases "shouldUseDelta Sig (Meta_Size (src_Meta S)) (O_Policy (q_Opts Q))")
  case False
  have f: "push_fair Q" using assms(1) by (simp add: ends_def)
  show ?thesis using that whole_plan [OF f False refl] by blast
next
  case True
  define B where "B = chooseBlockLength (of_nat (length Src)) (rv_MaxBlock E)"
  obtain Sig' where o: "offered E (of_nat (length Src)) Basis = Inr Sig'"
    "\<forall>Data. Basis = Some Data \<and> Data \<noteq> [] \<longrightarrow> (\<exists>StrongLength. Sig' = \<lparr>Signature_BlockLength = B, Signature_StrongLength = StrongLength,
        Signature_FileLength = of_nat (length Data), Signature_Sums = map (sum_of (rv_strong E)) (blocks (unat B) Data)\<rparr>)"
    "Basis = None \<or> Basis = Some [] \<longrightarrow> Sig' = no_signature"
    by (rule offered_signature [OF assms(1,3,4), folded B_def])
  have "Sig' = Sig" using o(1) assms(6) by simp
  then have "\<not> (Basis = None \<or> Basis = Some [])" using True o(3) no_signature_no_delta by metis
  then obtain Data where D: "Basis = Some Data" "Data \<noteq> []" by (cases Basis) auto
  obtain StrongLength where sig: "Sig = \<lparr>Signature_BlockLength = B, Signature_StrongLength = StrongLength,
      Signature_FileLength = of_nat (length Data), Signature_Sums = map (sum_of (rv_strong E)) (blocks (unat B) Data)\<rparr>"
    using o(2) D \<open>Sig' = Sig\<close> by blast
  note b = block_length_bounds [OF assms(1,3), folded B_def]
  have B0: "B \<noteq> 0" using b by auto
  have len: "length Data < 2 ^ 40" and nc: "no_collision (q_strong Q) Sig Data Src" using assms(1,4,6) D by (auto simp: delta_safe_def ends_def)
  have few: "length (blocks (unat B) Data) < 2 ^ 31" using blocks_few b len by simp
  have bs: "buildSignature (\<lambda>Offset n. FileReader_read Data (calm_schedule ([] :: nat option list)) Offset n) (of_nat (length Data)) (q_strong Q) B StrongLength = Inr Sig"
    using buildSignature_reader [of Data B "\<lambda>_ _. []" "q_strong Q" StrongLength] len B0 assms(1) sig by (simp add: ends_def)
  obtain P where P: "diff (src_read S) (length Src) (q_strong Q) Sig take_all (Differ_new 32) = Some (Inr P)" "lays Data (unat B) Src 0 (D_Emitted P)" "tallied P"
    by (rule scan_lays [OF assms(2) _ B0 few _ bs nc]) (use len b in auto)
  let ?xs = "concat (map (pieces_of (page_size Q) Src) (D_Emitted P))"
  have pb: "page_size Q < 2 ^ 32" using assms(1) by (simp add: ends_def push_fair_def)
  have "in_reach E Tag (page_size Q) Basis Sig x" if d: "delivered E (piece_pages Tag ?xs)" and x: "x \<in> set ?xs" for Tag x
  proof (cases x)
    case (PLit k bs)
    then show ?thesis using literal_in_reach [OF d _ _ pb] delta_literals [OF P(2)] x by blast
  next
    case (PCopy i k bs)
    then have c: "bs \<noteq> []" "take (unat B) (drop (i * unat B) Data) = bs" using delta_copies [OF P(2)] x by blast+
    show ?thesis unfolding PCopy D(1) by (rule copy_in_reach [OF sig B0 len few c])
  qed
  moreover have "plan Q Src S Sig ?xs" using True P by (auto simp: plan_def)
  ultimately show ?thesis using that by (auto simp: list_all_iff)
qed

end
