(* ===== verification/Sync.thy ===== *)
theory Sync
  imports SyncPlan
begin

text \<open>
  A sync as a whole: the sender of \<^verbatim>\<open>src/session-push.cc\<close> and the receiver of
  \<^verbatim>\<open>src/session-receive.cc\<close> on the two ends of a control channel and a data channel. What
  each end says is what the other expects, and the receiver's files become those of the sender.
\<close>

section \<open>What a sync should do\<close>

text \<open>The files after an item: a directory changes none, a link takes the place of a file, a file is the source.\<close>

definition mirror_item :: "'h push_env \<Rightarrow> 'h rcv_env \<Rightarrow> (Item \<Rightarrow> byte list) \<Rightarrow> bool \<Rightarrow> files \<Rightarrow> Item \<Rightarrow> files" where
  "mirror_item Q E Src Recursive F It =
     (case resolve E Recursive (It_Name It) of
        Inl e \<Rightarrow> F
      | Inr T \<Rightarrow>
          if It_Directory It then F
          else if It_Link It then F(T := None)
          else F(T \<mapsto> image (Src It) (src_Meta (projr (q_open Q (It_Local It) (streaming Q))))))"

definition mirror :: "'h push_env \<Rightarrow> 'h rcv_env \<Rightarrow> (Item \<Rightarrow> byte list) \<Rightarrow> bool \<Rightarrow> files \<Rightarrow> Item list \<Rightarrow> files" where
  "mirror Q E Src Recursive F Items = foldl (mirror_item Q E Src Recursive) F Items"

text \<open>
  What an item needs: a name the receiver accepts, calls that succeed, and for a file a source that
  does not change, a target that is no temporary name, and checksums that tell the blocks apart.
\<close>

definition is_temp :: "'h rcv_env \<Rightarrow> string \<Rightarrow> bool" where
  "is_temp E T \<longleftrightarrow> (\<exists>i D. T = temp_path (rv_pid E) i D)"

definition item_ok :: "'h push_env \<Rightarrow> 'h rcv_env \<Rightarrow> (Item \<Rightarrow> byte list) \<Rightarrow> bool \<Rightarrow> files \<Rightarrow> Item \<Rightarrow> bool" where
  "item_ok Q E Src Recursive F It \<longleftrightarrow>
     (\<exists>T. resolve E Recursive (It_Name It) = Inr T \<and>
        (if It_Directory It then rv_mkdirs E T = None
         else if It_Link It then It_Target It \<noteq> [] \<and> rv_symlink E T = None
         else (\<exists>S. q_open Q (It_Local It) (streaming Q) = Inr S \<and> steady_source (Src It) S) \<and> length (Src It) < 2 ^ 40 \<and> \<not> is_temp E T \<and>
           (wants_signature Q \<longrightarrow> delta_safe E (Src It) (basis_of E F T))))"

fun items_ok :: "'h push_env \<Rightarrow> 'h rcv_env \<Rightarrow> (Item \<Rightarrow> byte list) \<Rightarrow> bool \<Rightarrow> files \<Rightarrow> Item list \<Rightarrow> bool" where
  "items_ok Q E Src Recursive F [] \<longleftrightarrow> True"
| "items_ok Q E Src Recursive F (It # Items) \<longleftrightarrow>
     item_ok Q E Src Recursive F It \<and> items_ok Q E Src Recursive (mirror_item Q E Src Recursive F It) Items"

section \<open>Both halves of a transcript\<close>

text \<open>The sender says \<open>Up\<close> and moves \<open>Pages\<close> when it hears \<open>Down\<close>.\<close>

definition sender_plays ::
  "'h push_env \<Rightarrow> ('h Push \<Rightarrow> 'h Push Result option) \<Rightarrow> u64 \<Rightarrow> u64 \<Rightarrow> Message list \<Rightarrow> Message list \<Rightarrow> (u64 \<times> byte list) list \<Rightarrow> bool" where
  "sender_plays Q f Tag Tag' Up Down Pages \<longleftrightarrow>
     (\<forall>p Rs rest. push_idle Q p \<and> P_TagBase p = Tag \<and> carries (P_In p) (owed p @ Down @ Rs) rest \<longrightarrow>
        (\<exists>p'. f p = Some (Inr p') \<and> push_idle Q p' \<and> P_TagBase p' = Tag' \<and> P_Sent p' = P_Sent p @ Up \<and> P_Pages p' = P_Pages p @ Pages \<and>
           carries (P_In p') (owed p' @ Rs) rest))"

text \<open>The receiver says \<open>Down\<close> when it hears \<open>Up\<close> and the pages arrive, and its files become \<open>F'\<close>.\<close>

definition receiving :: "nat \<Rightarrow> bool \<Rightarrow> files \<Rightarrow> u64 \<Rightarrow> 'h Receive \<Rightarrow> bool" where
  "receiving PB Recursive F Tag s \<longleftrightarrow> rcv_idle s \<and> V_PageBytes s = PB \<and> V_Recursive s = Recursive \<and> V_Files s = F \<and> V_TagBase s = Tag"

definition receiver_plays ::
  "'h rcv_env \<Rightarrow> nat \<Rightarrow> bool \<Rightarrow> files \<Rightarrow> files \<Rightarrow> u64 \<Rightarrow> u64 \<Rightarrow> Message list \<Rightarrow> Message list \<Rightarrow> (u64 \<times> byte list) list \<Rightarrow> bool" where
  "receiver_plays E PB Recursive F F' Tag Tag' Up Down Pages \<longleftrightarrow>
     (\<forall>s Ms rest. receiving PB Recursive F Tag s \<and> delivered E Pages \<and> carries (V_In s) (Up @ Ms) rest \<longrightarrow>
        (\<exists>s'. serve_loop E s = serve_loop E s' \<and> receiving PB Recursive F' Tag' s' \<and> V_Sent s' = V_Sent s @ Down \<and> carries (V_In s') Ms rest))"

lemma sender_plays_comp:
  assumes "sender_plays Q f Tag Tag1 Up Down Pages" and "sender_plays Q g Tag1 Tag2 Up' Down' Pages'"
  shows "sender_plays Q (\<lambda>p. case f p of None \<Rightarrow> None | Some (Inl e) \<Rightarrow> Some (Inl e) | Some (Inr p) \<Rightarrow> g p) Tag Tag2 (Up @ Up') (Down @ Down') (Pages @ Pages')"
  unfolding sender_plays_def
proof (intro allI impI)
  fix p Rs rest
  assume "push_idle Q p \<and> P_TagBase p = Tag \<and> carries (P_In p) (owed p @ (Down @ Down') @ Rs) rest"
  then obtain p1 where p1: "f p = Some (Inr p1)" "push_idle Q p1" "P_TagBase p1 = Tag1" "P_Sent p1 = P_Sent p @ Up" "P_Pages p1 = P_Pages p @ Pages"
    "carries (P_In p1) (owed p1 @ Down' @ Rs) rest"
    using assms(1) unfolding sender_plays_def append_assoc by blast
  then obtain p2 where "g p1 = Some (Inr p2)" "push_idle Q p2" "P_TagBase p2 = Tag2" "P_Sent p2 = P_Sent p1 @ Up'" "P_Pages p2 = P_Pages p1 @ Pages'"
    "carries (P_In p2) (owed p2 @ Rs) rest"
    using assms(2) unfolding sender_plays_def by blast
  with p1 show "\<exists>p'. (case f p of None \<Rightarrow> None | Some (Inl e) \<Rightarrow> Some (Inl e) | Some (Inr p) \<Rightarrow> g p) = Some (Inr p') \<and> push_idle Q p' \<and> P_TagBase p' = Tag2 \<and>
      P_Sent p' = P_Sent p @ (Up @ Up') \<and> P_Pages p' = P_Pages p @ (Pages @ Pages') \<and> carries (P_In p') (owed p' @ Rs) rest"
    by (intro exI [of _ p2]) simp
qed

lemma receiver_plays_comp:
  assumes "receiver_plays E PB r F F1 Tag Tag1 Up Down Pages" and "receiver_plays E PB r F1 F2 Tag1 Tag2 Up' Down' Pages'"
  shows "receiver_plays E PB r F F2 Tag Tag2 (Up @ Up') (Down @ Down') (Pages @ Pages')"
  unfolding receiver_plays_def
proof (intro allI impI)
  fix s :: "'a Receive" and Ms rest
  assume a: "receiving PB r F Tag s \<and> delivered E (Pages @ Pages') \<and> carries (V_In s) ((Up @ Up') @ Ms) rest"
  then obtain s1 where s1: "serve_loop E s = serve_loop E s1" "receiving PB r F1 Tag1 s1" "V_Sent s1 = V_Sent s @ Down" "carries (V_In s1) (Up' @ Ms) rest"
    using assms(1) unfolding receiver_plays_def append_assoc delivered_append by blast
  then obtain s2 where "serve_loop E s1 = serve_loop E s2" "receiving PB r F2 Tag2 s2" "V_Sent s2 = V_Sent s1 @ Down'" "carries (V_In s2) Ms rest"
    using assms(2) a unfolding receiver_plays_def delivered_append by blast
  with s1 show "\<exists>s'. serve_loop E s = serve_loop E s' \<and> receiving PB r F2 Tag2 s' \<and> V_Sent s' = V_Sent s @ (Down @ Down') \<and> carries (V_In s') Ms rest"
    by (intro exI [of _ s2]) simp
qed

section \<open>One item\<close>

text \<open>A header of a directory or a link is all there is to say about it.\<close>

lemma sender_plays_header:
  assumes "push_fair Q" and "pushOne Q It = (\<lambda>p. Some (push_send Q M p))"
  shows "sender_plays Q (pushOne Q It) Tag Tag [M] [] []"
  using assms by (auto simp: sender_plays_def push_send_def push_fair_def push_idle_def push_room_def owed_def)

lemma serve_loop_entry:
  assumes "carries (V_In s) (FileHeader FH # Ms) rest" and "\<And>es. carries es Ms rest \<Longrightarrow> receive_entry E FH (s\<lparr>V_In := es\<rparr>) = Some (Inr (), h es)"
  obtains es where "serve_loop E s = serve_loop E (h es)" and "carries es Ms rest"
proof -
  obtain es where es: "nextMessage s = (Inr (FileHeader FH), s\<lparr>V_In := es\<rparr>)" "carries es Ms rest" by (rule nextMessage_carries [OF assms(1)])
  have "serve_loop E s = serve_loop E (h es)" using es(1) assms(2) [OF es(2)] by (subst serve_loop.simps) (simp add: is_End_def)
  then show ?thesis using that es(2) by blast
qed

lemma directory_plays:
  assumes "push_fair Q" and "It_Directory It" and "item_ok Q E Src r F It"
  shows "sender_plays Q (pushOne Q It) Tag Tag [FileHeader ((entry_header It)\<lparr>FileHeader_Directory := True\<rparr>)] [] [] \<and>
    receiver_plays E PB r F (mirror_item Q E Src r F It) Tag Tag [FileHeader ((entry_header It)\<lparr>FileHeader_Directory := True\<rparr>)] [] []"
proof
  let ?FH = "(entry_header It)\<lparr>FileHeader_Directory := True\<rparr>"
  show "sender_plays Q (pushOne Q It) Tag Tag [FileHeader ?FH] [] []"
    by (rule sender_plays_header [OF assms(1)]) (simp add: fun_eq_iff pushOne_def assms(2) sendDirectory_def)
  obtain T where T: "resolve E r (It_Name It) = Inr T" "rv_mkdirs E T = None" using assms(2,3) by (auto simp: item_ok_def)
  show "receiver_plays E PB r F (mirror_item Q E Src r F It) Tag Tag [FileHeader ?FH] [] []"
    unfolding receiver_plays_def
  proof (intro allI impI)
    fix s :: "'a Receive" and Ms rest
    assume a: "receiving PB r F Tag s \<and> delivered E [] \<and> carries (V_In s) ([FileHeader ?FH] @ Ms) rest"
    let ?h = "\<lambda>es. (let t = rcv_call (MakeDirs T) (s\<lparr>V_In := es\<rparr>) in if It_Mode It \<noteq> 0 then rcv_call (Chmod T (It_Mode It)) t else t)"
    obtain es where es: "serve_loop E s = serve_loop E (?h es)" "carries es Ms rest"
      by (rule serve_loop_entry [of s ?FH Ms rest E ?h])
        (use a T in \<open>simp_all add: receive_entry_def makeDirectory_def Let_def entry_header_def receiving_def\<close>)
    then show "\<exists>s'. serve_loop E s = serve_loop E s' \<and> receiving PB r (mirror_item Q E Src r F It) Tag s' \<and> V_Sent s' = V_Sent s @ [] \<and> carries (V_In s') Ms rest"
      using a T assms(2) by (intro exI [of _ "?h es"])
        (auto simp: Let_def rcv_call_def receiving_def rcv_idle_def rcv_room_def mirror_item_def)
  qed
qed

lemma link_plays:
  assumes "push_fair Q" and "\<not> It_Directory It" and "It_Link It" and "item_ok Q E Src r F It"
  shows "sender_plays Q (pushOne Q It) Tag Tag [FileHeader ((entry_header It)\<lparr>FileHeader_Link := True, FileHeader_Target := It_Target It\<rparr>)] [] [] \<and>
    receiver_plays E PB r F (mirror_item Q E Src r F It) Tag Tag
      [FileHeader ((entry_header It)\<lparr>FileHeader_Link := True, FileHeader_Target := It_Target It\<rparr>)] [] []"
proof
  let ?FH = "(entry_header It)\<lparr>FileHeader_Link := True, FileHeader_Target := It_Target It\<rparr>"
  show "sender_plays Q (pushOne Q It) Tag Tag [FileHeader ?FH] [] []"
    by (rule sender_plays_header [OF assms(1)]) (simp add: fun_eq_iff pushOne_def assms(2,3) sendLink_def)
  obtain T where T: "resolve E r (It_Name It) = Inr T" "It_Target It \<noteq> []" "rv_symlink E T = None" using assms(2-4) by (auto simp: item_ok_def)
  show "receiver_plays E PB r F (mirror_item Q E Src r F It) Tag Tag [FileHeader ?FH] [] []"
    unfolding receiver_plays_def
  proof (intro allI impI)
    fix s :: "'a Receive" and Ms rest
    assume a: "receiving PB r F Tag s \<and> delivered E [] \<and> carries (V_In s) ([FileHeader ?FH] @ Ms) rest"
    let ?h = "\<lambda>es. (let t = (if r \<and> has_parent_path T then rcv_call (MakeDirs (parent_path T)) (s\<lparr>V_In := es\<rparr>) else s\<lparr>V_In := es\<rparr>);
        t = (rcv_call (RemovePath T) t)\<lparr>V_Files := F(T := None)\<rparr> in rcv_call (MakeLink (It_Target It) T) t)"
    obtain es where es: "serve_loop E s = serve_loop E (?h es)" "carries es Ms rest"
      by (rule serve_loop_entry [of s ?FH Ms rest E ?h])
        (use a T in \<open>simp_all add: receive_entry_def makeLink_def Let_def entry_header_def receiving_def rcv_call_def\<close>)
    then show "\<exists>s'. serve_loop E s = serve_loop E s' \<and> receiving PB r (mirror_item Q E Src r F It) Tag s' \<and> V_Sent s' = V_Sent s @ [] \<and> carries (V_In s') Ms rest"
      using a T assms(2,3) by (intro exI [of _ "?h es"])
        (auto simp: Let_def rcv_call_def receiving_def rcv_idle_def rcv_room_def mirror_item_def)
  qed
qed

text \<open>A file: the signature of what is there, the pieces, and the receipt.\<close>

definition no_temps :: "'h rcv_env \<Rightarrow> files \<Rightarrow> bool" where
  "no_temps E F \<longleftrightarrow> (\<forall>T. is_temp E T \<longrightarrow> F T = None)"

lemma file_plan:
  assumes "ends Q E" and "steady_source Src S" and "length Src < 2 ^ 40" and "wants_signature Q \<longrightarrow> delta_safe E Src Basis"
  obtains Sig xs where "plan Q Src S Sig xs" and "wants_signature Q \<or> Sig = no_signature"
    and "wants_signature Q \<longrightarrow> offered E (of_nat (length Src)) Basis = Inr Sig"
    and "\<forall>Tag. delivered E (piece_pages Tag xs) \<longrightarrow> list_all (in_reach E Tag (page_size Q) Basis Sig) xs"
    and "streaming Q \<longrightarrow> xs = literals Src (pages (page_size Q) 0 (length Src))"
proof (cases "wants_signature Q")
  case True
  obtain Sig where o: "offered E (of_nat (length Src)) Basis = Inr Sig" using offered_signature [OF assms(1,3)] True assms(4) by metis
  obtain xs where xs: "plan Q Src S Sig xs" "\<And>Tag. delivered E (piece_pages Tag xs) \<Longrightarrow> list_all (in_reach E Tag (page_size Q) Basis Sig) xs"
    using answering_plan [OF assms(1-3) _ True o] True assms(4) by blast
  show ?thesis using that [OF xs(1)] True o xs(2) by blast
next
  case False
  have f: "push_fair Q" using assms(1) by (simp add: ends_def)
  have n: "\<not> shouldUseDelta no_signature (Meta_Size (src_Meta S)) (O_Policy (q_Opts Q))" by (rule no_signature_no_delta)
  show ?thesis using that [OF whole_plan(1) [OF f n refl]] whole_plan(2) [OF f n refl] False by blast
qed

lemma file_plays:
  assumes "ends Q E" and "\<not> It_Directory It" and "\<not> It_Link It" and "item_ok Q E Src r F It" and "no_temps E F"
  shows "\<exists>Tag' Up Down Pages. sender_plays Q (pushOne Q It) Tag Tag' Up Down Pages \<and>
    receiver_plays E (page_size Q) r F (mirror_item Q E Src r F It) Tag Tag' Up Down Pages"
proof -
  have fair: "push_fair Q" "rcv_fair E" "rv_X E = q_X Q" using assms(1) by (simp_all add: ends_def)
  obtain T S where T: "resolve E r (It_Name It) = Inr T" "q_open Q (It_Local It) (streaming Q) = Inr S" "steady_source (Src It) S" "length (Src It) < 2 ^ 40"
    "\<not> is_temp E T" "wants_signature Q \<longrightarrow> delta_safe E (Src It) (basis_of E F T)"
    using assms(2-4) by (auto simp: item_ok_def)
  let ?Src = "Src It" and ?B = "basis_of E F T"
  obtain Sig xs where x: "plan Q ?Src S Sig xs" "wants_signature Q \<or> Sig = no_signature" "wants_signature Q \<longrightarrow> offered E (of_nat (length ?Src)) ?B = Inr Sig"
    "\<forall>Tag. delivered E (piece_pages Tag xs) \<longrightarrow> list_all (in_reach E Tag (page_size Q) ?B Sig) xs"
    "streaming Q \<longrightarrow> xs = literals ?Src (pages (page_size Q) 0 (length ?Src))"
    by (rule file_plan [OF assms(1) T(3,4,6)])
  let ?FH = "file_header Q It (src_Meta S)" and ?Tag' = "Tag + tagSpan (Meta_Size (src_Meta S)) (O_PageSize (q_Opts Q))"
  let ?Down = "(if wants_signature Q then [Signature Sig] else []) @ [Receipt (receipt (\<Sum>x\<leftarrow>xs. literal_bytes x) (\<Sum>x\<leftarrow>xs. matched_bytes x))]"
  have "sender_plays Q (pushOne Q It) Tag ?Tag' (file_messages Q It S xs) ?Down (piece_pages Tag xs)"
    unfolding sender_plays_def
  proof (intro allI impI)
    fix p Rs rest
    assume a: "push_idle Q p \<and> P_TagBase p = Tag \<and> carries (P_In p) (owed p @ ?Down @ Rs) rest"
    obtain p' where "pushOne Q It p = Some (Inr p')" "push_idle Q p'" "P_Sent p' = P_Sent p @ file_messages Q It S xs"
      "P_Pages p' = P_Pages p @ piece_pages (P_TagBase p) xs" "P_TagBase p' = P_TagBase p + tagSpan (Meta_Size (src_Meta S)) (O_PageSize (q_Opts Q))"
      "carries (P_In p') (owed p' @ Rs) rest"
      by (rule pushOne_file [OF fair(1) _ assms(2,3) T(2,3) x(1,2), of p Rs rest]) (use a in auto)
    with a show "\<exists>p'. pushOne Q It p = Some (Inr p') \<and> push_idle Q p' \<and> P_TagBase p' = ?Tag' \<and> P_Sent p' = P_Sent p @ file_messages Q It S xs \<and>
        P_Pages p' = P_Pages p @ piece_pages Tag xs \<and> carries (P_In p') (owed p' @ Rs) rest"
      by auto
  qed
  moreover have "receiver_plays E (page_size Q) r F (mirror_item Q E Src r F It) Tag ?Tag' (file_messages Q It S xs) ?Down (piece_pages Tag xs)"
    unfolding receiver_plays_def
  proof (intro allI impI)
    fix s :: "'a Receive" and Ms rest
    assume a: "receiving (page_size Q) r F Tag s \<and> delivered E (piece_pages Tag xs) \<and> carries (V_In s) (file_messages Q It S xs @ Ms) rest"
    define Body where "Body = (if streaming Q then [] else map piece_message xs) @ Done \<lparr>Done_WholeFileHash = digest_of (q_X Q) (map piece_bytes xs)\<rparr> # Ms"
    have "carries (V_In s) (FileHeader ?FH # Body) rest" using a by (simp add: file_messages_def Body_def)
    then obtain es where es: "nextMessage s = (Inr (FileHeader ?FH), s\<lparr>V_In := es\<rparr>)" "carries es Body rest" by (rule nextMessage_carries)
    have fh: "FileHeader_Name ?FH = It_Name It" "FileHeader_WantSignature ?FH = wants_signature Q" "FileHeader_Streamed ?FH = streaming Q"
      "FileHeader_Size ?FH = of_nat (length ?Src)" "\<not> FileHeader_Directory ?FH" "\<not> FileHeader_Link ?FH" "meta_of ?FH = src_Meta S"
      using T(3) by (simp_all add: file_header_def meta_of_def steady_source_def)
    let ?s = "s\<lparr>V_In := es\<rparr>"
    have st: "rcv_idle ?s" "V_Recursive ?s = r" "V_Files ?s = F" "V_TagBase ?s = Tag" "V_PageBytes ?s = page_size Q" "V_Sent ?s = V_Sent s"
      using a by (simp_all add: receiving_def rcv_idle_def rcv_room_def)
    have pb: "0 < page_size Q" "page_size Q < 2 ^ 32" using fair(1) by (simp_all add: push_fair_def)
    have reach: "list_all (in_reach E Tag (page_size Q) ?B (if wants_signature Q then Sig else no_signature)) xs" using x(2,4) a by auto
    obtain s' where s': "receiveFile E ?FH ?s = Some (Inr (), s')" "rcv_idle s'" "carries (V_In s') Ms rest" "V_Sent s' = V_Sent s @ ?Down"
      "V_Files s' = (F(temp_path (rv_pid E) (V_Next ?s) T := None))(T \<mapsto> image ?Src (meta_of ?FH))"
      "V_TagBase s' = Tag + tagSpan (of_nat (length ?Src)) (of_nat (page_size Q))" "V_PageBytes s' = page_size Q" "V_Recursive s' = r"
      "V_Calls s' = V_Calls ?s @ open_calls r T"
      by (rule receiveFile_lands [OF fair(2) st(1), of ?FH T Sig ?Src xs Ms rest, unfolded fh(1-4) st])
        (use T(1,4) x(3,5) es(2) plan_consecutive [OF fair(1) x(1)] reach pb fair(3) in \<open>simp_all add: Body_def\<close>)
    have "F(temp_path (rv_pid E) (V_Next ?s) T := None) = F" using assms(5) by (intro fun_upd_idem) (auto simp: no_temps_def is_temp_def)
    then have "V_Files s' = mirror_item Q E Src r F It" using s'(5) T(1,2) assms(2,3) fh(7) by (simp add: mirror_item_def)
    moreover have "serve_loop E s = serve_loop E s'" using es(1) s'(1) fh(5,6) by (subst serve_loop.simps) (simp add: is_End_def receive_entry_def)
    moreover have "V_TagBase s' = ?Tag'" using s'(6) T(3) by (simp add: steady_source_def of_nat_unat)
    ultimately show "\<exists>s'. serve_loop E s = serve_loop E s' \<and> receiving (page_size Q) r (mirror_item Q E Src r F It) ?Tag' s' \<and> V_Sent s' = V_Sent s @ ?Down \<and>
        carries (V_In s') Ms rest"
      using s' by (intro exI [of _ s']) (simp add: receiving_def)
  qed
  ultimately show ?thesis by blast
qed

lemma item_plays:
  assumes "ends Q E" and "item_ok Q E Src r F It" and "no_temps E F"
  shows "\<exists>Tag' Up Down Pages. sender_plays Q (pushOne Q It) Tag Tag' Up Down Pages \<and>
    receiver_plays E (page_size Q) r F (mirror_item Q E Src r F It) Tag Tag' Up Down Pages"
  using directory_plays [of Q It E Src r F Tag "page_size Q"] link_plays [of Q It E Src r F Tag "page_size Q"] file_plays [OF assms(1) _ _ assms(2,3)] assms
  by (cases "It_Directory It"; cases "It_Link It") (blast dest: iffD1 [OF ends_def])+

lemma no_temps_mirror: "item_ok Q E Src r F It \<Longrightarrow> no_temps E F \<Longrightarrow> no_temps E (mirror_item Q E Src r F It)"
  by (auto simp: item_ok_def mirror_item_def no_temps_def split: if_splits)

lemma items_play:
  assumes "ends Q E" and "items_ok Q E Src r F Items" and "no_temps E F"
  shows "\<exists>Tag' Up Down Pages. sender_plays Q (push_items Q Items) Tag Tag' Up Down Pages \<and>
    receiver_plays E (page_size Q) r F (mirror Q E Src r F Items) Tag Tag' Up Down Pages"
  using assms(2,3)
proof (induction Items arbitrary: F Tag)
  case Nil
  have "sender_plays Q (push_items Q []) Tag Tag [] [] []" by (simp add: sender_plays_def)
  moreover have "receiver_plays E (page_size Q) r F F Tag Tag [] [] []" by (auto simp: receiver_plays_def)
  ultimately show ?case unfolding mirror_def by fastforce
next
  case (Cons It Items)
  let ?F = "mirror_item Q E Src r F It"
  have ok: "item_ok Q E Src r F It" "items_ok Q E Src r ?F Items" using Cons.prems(1) by simp_all
  obtain Tag1 Up Down Pages where 1: "sender_plays Q (pushOne Q It) Tag Tag1 Up Down Pages" "receiver_plays E (page_size Q) r F ?F Tag Tag1 Up Down Pages"
    using item_plays [OF assms(1) ok(1) Cons.prems(2)] by blast
  obtain Tag2 Up' Down' Pages' where 2: "sender_plays Q (push_items Q Items) Tag1 Tag2 Up' Down' Pages'"
    "receiver_plays E (page_size Q) r ?F (mirror Q E Src r ?F Items) Tag1 Tag2 Up' Down' Pages'"
    using Cons.IH [OF ok(2) no_temps_mirror [OF ok(1) Cons.prems(2)]] by blast
  have e: "push_items Q (It # Items) = (\<lambda>p. case pushOne Q It p of None \<Rightarrow> None | Some (Inl e) \<Rightarrow> Some (Inl e) | Some (Inr p) \<Rightarrow> push_items Q Items p)"
    by (simp add: fun_eq_iff)
  show ?case unfolding e using sender_plays_comp [OF 1(1) 2(1)] receiver_plays_comp [OF 1(2) 2(2)] by (auto simp: mirror_def)
qed

section \<open>A session\<close>

text \<open>The calls around a session succeed, and the ends agree on the transport.\<close>

definition connects :: "'h push_env \<Rightarrow> 'h rcv_env \<Rightarrow> string \<Rightarrow> string \<Rightarrow> bool" where
  "connects Q E Endpoint Local \<longleftrightarrow>
     2 \<le> unat (O_PageCount (q_Opts Q)) \<and> 1 \<le> q_Depth Q \<and> q_prepare Q = Inr () \<and>
     rv_channel E (O_Backend (q_Opts Q)) (unat (O_PageCount (q_Opts Q))) (page_size Q) \<and>
     rv_listen E = Inr Endpoint \<and> q_connect Q Endpoint = Inr () \<and> q_local Q = Inr Local \<and> rv_attach E Local = Inr () \<and>
     q_wants Q = rv_wants E \<and> rv_accept E = Inr ()"

definition hello_of :: "'h push_env \<Rightarrow> nat \<Rightarrow> Hello" where
  "hello_of Q Window =
     \<lparr>Hello_Version = kVersion, Hello_Backend = O_Backend (q_Opts Q), Hello_BlockSize = O_BlockSize (q_Opts Q), Hello_PageCount = O_PageCount (q_Opts Q),
      Hello_PageSize = O_PageSize (q_Opts Q), Hello_WindowPages = of_nat Window, Hello_Recursive = O_Recursive (q_Opts Q),
      Hello_Verify = True, Hello_Sum = 1\<rparr>"

definition hello_up :: "'h push_env \<Rightarrow> string \<Rightarrow> Message list" where
  "hello_up Q Local =
     Hello (hello_of Q (P_Window (Push_new Q []))) # (if q_wants Q then [PeerEndpoint \<lparr>PeerEndpoint_Blob = Local\<rparr>] else [])"

definition hello_down :: "'h push_env \<Rightarrow> string \<Rightarrow> Message" where
  "hello_down Q Endpoint = HelloAck \<lparr>HelloAck_Backend = O_Backend (q_Opts Q), HelloAck_ChannelEndpoint = Endpoint\<rparr>"

lemma push_negotiates:
  assumes "push_fair Q" and "connects Q E Endpoint Local" and "carries es (hello_down Q Endpoint # Rs) rest"
  obtains p where "push_negotiate Q (Push_new Q es) = Inr p" and "push_idle Q p" and "P_TagBase p = 0" and "P_Sent p = hello_up Q Local" and "P_Pages p = []"
    and "owed p = []" and "carries (P_In p) Rs rest"
proof -
  have c: "q_connect Q Endpoint = Inr ()" "q_local Q = Inr Local" "2 \<le> unat (O_PageCount (q_Opts Q))" "1 \<le> q_Depth Q" "q_prepare Q = Inr ()"
    using assms(2) by (simp_all add: connects_def)
  have send: "push_send Q M p = Inr (p\<lparr>P_Sent := P_Sent p @ [M]\<rparr>)" for M and p :: "'a Push" using assms(1) by (simp add: push_send_def push_fair_def)
  define p where "p = Push_new Q es"
  have p: "P_In p = es" "P_Sent p = []" "P_Pages p = []" "P_Awaiting p = []" "P_TagBase p = 0" "P_Prefetch p = []" "Which (P_Whole p) = XxH3"
    "P_Window p = P_Window (Push_new Q [])"
    by (simp_all only: p_def Push_new_def Let_def Hasher_new_def Push.select_convs Hasher.select_convs)
  have room: "push_room Q p" unfolding p_def by (rule Push_new_room [OF c(3,4)])
  let ?H = "Hello (hello_of Q (P_Window p))"
  let ?p = "p\<lparr>P_Sent := [?H]\<rparr>"
  have "carries (P_In ?p) (hello_down Q Endpoint # Rs) rest" using assms(3) p(1) by simp
  then obtain es' where es': "push_expect as_HelloAck ?p =
      Inr (\<lparr>HelloAck_Backend = O_Backend (q_Opts Q), HelloAck_ChannelEndpoint = Endpoint\<rparr>, ?p\<lparr>P_In := es'\<rparr>)" "carries es' Rs rest"
    by (rule push_expect_carries [where proj = as_HelloAck]) (simp_all add: hello_down_def)
  let ?q = "?p\<lparr>P_In := es', P_Sent := hello_up Q Local\<rparr>"
  have q: "?q = (if q_wants Q then ?p\<lparr>P_In := es', P_Sent := [?H, PeerEndpoint \<lparr>PeerEndpoint_Blob = Local\<rparr>]\<rparr> else ?p\<lparr>P_In := es'\<rparr>)"
    unfolding hello_up_def p(8) by (cases p) simp
  have "push_negotiate Q p = Inr ?q"
    unfolding q push_negotiate_def Let_def hello_of_def [symmetric] c(5) bindR_simps send p(2) append_Nil es'(1) by (simp add: c send)
  then show ?thesis
    by (rule that [folded p_def]) (use p room es'(2) in \<open>simp_all add: push_idle_def push_room_def owed_def\<close>)
qed

lemma rcv_negotiates:
  assumes "push_fair Q" and "rcv_fair E" and "connects Q E Endpoint Local" and "carries es (hello_up Q Local @ Ms) rest"
  obtains s where "rcv_negotiate E (Receive_new E es Next F) = (Inr (), s)" and "receiving (page_size Q) (O_Recursive (q_Opts Q)) F 0 s"
    and "V_Sent s = [hello_down Q Endpoint]" and "carries (V_In s) Ms rest"
proof -
  have c: "rv_listen E = Inr Endpoint" "rv_attach E Local = Inr ()" "rv_accept E = Inr ()" "q_wants Q = rv_wants E" "2 \<le> unat (O_PageCount (q_Opts Q))"
    "rv_channel E (O_Backend (q_Opts Q)) (unat (O_PageCount (q_Opts Q))) (page_size Q)"
    using assms(3) by (simp_all add: connects_def)
  have nz: "O_PageCount (q_Opts Q) \<noteq> 0" "O_PageSize (q_Opts Q) \<noteq> 0" using c(5) assms(1) by (auto simp: push_fair_def)
  have send: "rcv_send E M s = (Inr (), s\<lparr>V_Sent := V_Sent s @ [M]\<rparr>)" for M and s :: "'a Receive" using assms(2) by (simp add: rcv_send_def rcv_fair_def)
  define H where "H = hello_of Q (P_Window (Push_new Q []))"
  define n where "n = unat (O_PageCount (q_Opts Q))"
  define R where "R = max 1 (min (if Hello_WindowPages H \<noteq> 0 then unat (Hello_WindowPages H) else 1) (n div 2))"
  define W where "W = (if n > R + 1 then n - R - 1 else 0)"
  have "1 \<le> R" "R \<le> n" using c(5) by (simp_all add: R_def n_def min.coboundedI2)
  then have room: "1 \<le> R" "R + W \<le> n" by (auto simp: W_def)
  have "carries es (Hello H # tl (hello_up Q Local) @ Ms) rest" using assms(4) by (simp add: hello_up_def H_def)
  then obtain es1 where es1: "receive es = (Inr (Hello H), es1)" "carries es1 (tl (hello_up Q Local) @ Ms) rest" by (rule receive_carries)
  let ?s = "(Receive_new E es Next F)\<lparr>V_In := es1, V_Recursive := O_Recursive (q_Opts Q), V_PageCount := n, V_PageBytes := page_size Q, V_RecvWindow := R,
     V_WriteWindow := W, V_Sent := [hello_down Q Endpoint]\<rparr>"
  obtain es2 where es2: "carries es2 Ms rest" "rv_wants E \<longrightarrow> receive es1 = (Inr (PeerEndpoint \<lparr>PeerEndpoint_Blob = Local\<rparr>), es2)" "\<not> rv_wants E \<longrightarrow> es2 = es1"
  proof (cases "rv_wants E")
    case True
    then have "carries es1 (PeerEndpoint \<lparr>PeerEndpoint_Blob = Local\<rparr> # Ms) rest" using es1(2) c(4) by (simp add: hello_up_def)
    then show ?thesis by (rule receive_carries) (rule that, simp_all add: True)
  next
    case False
    then show ?thesis using that [of es1] es1(2) c(4) by (simp add: hello_up_def)
  qed
  have geo: "(if Hello_PageCount H \<noteq> 0 then unat (Hello_PageCount H) else 6) = n" "(if Hello_PageSize H \<noteq> 0 then unat (Hello_PageSize H) else 64 * 2 ^ 20) = page_size Q"
    "Hello_Version H = kVersion" "Hello_Backend H = O_Backend (q_Opts Q)" "Hello_Recursive H = O_Recursive (q_Opts Q)"
    using nz by (simp_all add: H_def hello_of_def n_def)
  have e: "rcv_expect as_Hello (Receive_new E es Next F) = (Inr H, (Receive_new E es Next F)\<lparr>V_In := es1\<rparr>)"
    using es1(1) by (simp add: rcv_expect_def expect_def Receive_new_def)
  have "rcv_negotiate E (Receive_new E es Next F) = (Inr (), ?s\<lparr>V_In := es2\<rparr>)"
    unfolding rcv_negotiate_def e andThen_simps geo Let_def R_def [symmetric] W_def [symmetric]
    using es2(2,3) c(1-3,6) [folded n_def]
    by (cases "rv_wants E") (simp_all add: send hello_down_def rcv_expect_def expect_def Receive_new_def)
  then show ?thesis
    by (rule that) (use room es2(1) in \<open>simp_all add: receiving_def rcv_idle_def rcv_room_def Receive_new_def Hasher_new_def\<close>)
qed

lemma push_carry_plays:
  assumes "push_fair Q" and "connects Q E Endpoint Local" and "sender_plays Q (push_items Q Items) 0 Tag Up Down Pages"
    and "carries es (hello_down Q Endpoint # Down) rest"
  shows "\<exists>p. push_carry Q Items (Push_new Q es) = Some (Inr p) \<and> P_Sent p = hello_up Q Local @ Up @ [End] \<and> P_Pages p = Pages"
proof -
  obtain p where p: "push_negotiate Q (Push_new Q es) = Inr p" "push_idle Q p" "P_TagBase p = 0" "P_Sent p = hello_up Q Local" "P_Pages p = []"
    "owed p = []" "carries (P_In p) Down rest"
    by (rule push_negotiates [OF assms(1,2,4)])
  then obtain p1 where p1: "push_items Q Items p = Some (Inr p1)" "P_Sent p1 = P_Sent p @ Up" "P_Pages p1 = P_Pages p @ Pages" "carries (P_In p1) (owed p1 @ []) rest"
    using assms(3) [unfolded sender_plays_def, rule_format, of p "[]" rest] by auto
  obtain es' As where "reapReceipts 0 p1 = Inr (p1\<lparr>P_In := es', P_Awaiting := As\<rparr>)" using reapReceipts_owed [OF p1(4)] by metis
  then show ?thesis using p p1 assms(1) by (simp add: push_carry_def push_send_def push_fair_def)
qed

lemma serveReceive_plays:
  assumes "push_fair Q" and "rcv_fair E" and "connects Q E Endpoint Local"
    and "receiver_plays E (page_size Q) (O_Recursive (q_Opts Q)) F F' 0 Tag Up Down Pages" and "delivered E Pages"
    and "carries es (hello_up Q Local @ Up @ [End]) rest"
  shows "\<exists>s. serveReceive E es Next F = Some (Inr (), s) \<and> V_Sent s = hello_down Q Endpoint # Down \<and> V_Files s = F'"
proof -
  let ?r = "O_Recursive (q_Opts Q)"
  obtain s where s: "rcv_negotiate E (Receive_new E es Next F) = (Inr (), s)" "receiving (page_size Q) ?r F 0 s" "V_Sent s = [hello_down Q Endpoint]"
    "carries (V_In s) (Up @ [End]) rest"
    by (rule rcv_negotiates [OF assms(1-3,6)])
  then obtain s1 where s1: "serve_loop E s = serve_loop E s1" "receiving (page_size Q) ?r F' Tag s1" "V_Sent s1 = V_Sent s @ Down" "carries (V_In s1) [End] rest"
    using assms(4,5) unfolding receiver_plays_def by blast
  obtain es' where es': "nextMessage s1 = (Inr End, s1\<lparr>V_In := es'\<rparr>)" by (rule nextMessage_carries [OF s1(4)])
  let ?s = "s1\<lparr>V_In := es'\<rparr>"
  have "serve_loop E s1 = Some (Inr (), ?s)" using es' by (subst serve_loop.simps) (simp add: is_End_def)
  moreover have "V_Files (drop_writer (rcv_quiesce ?s)) = F'" "V_Sent (drop_writer (rcv_quiesce ?s)) = V_Sent s1"
    using s1(2) by (auto simp: receiving_def rcv_idle_def drop_writer_def rcv_quiesce_def FileWriter_abandon_def split: option.splits)
  ultimately show ?thesis using s s1 by (simp add: serveReceive_def serve_def)
qed


text \<open>A directory and a file of one byte, which the receiver has already, as a delta.\<close>

definition small_source :: source where
  "small_source = \<lparr>src_Meta = \<lparr>Meta_Size = 1, Meta_Mode = 0x1a4, Meta_Mtime = 5\<rparr>, src_direct = False, src_read = (\<lambda>At n. Inr (take n (drop At [7]))),
     src_submit = (\<lambda>n At. Inr (Inr (take n (drop At [7]))))\<rparr>"

definition small_sender :: "nat push_env" where
  "small_sender = \<lparr>q_X = counting_xx, q_strong = (\<lambda>bs. replicate 16 0),
     q_Opts = \<lparr>O_Backend = ''tcp'', O_Policy = Always, O_BlockSize = 0, O_PageCount = 6, O_WindowPages = 2, O_PageSize = 4096, O_RemoteCommand = ''rail'',
       O_Recursive = True, O_MinSize = 0, O_MaxSize = 0, O_FlipOneLiteralBit = False, O_Durable = PageCache\<rparr>,
     q_IsRdma = False, q_MaxInFlight = 16, q_Depth = 8, q_Backed = True, q_land = (\<lambda>_. Inr ()), q_send = (\<lambda>_. Inr ()), q_prepare = Inr (),
     q_connect = (\<lambda>_. Inr ()), q_wants = True, q_local = Inr ''peer'', q_open = (\<lambda>_ _. Inr small_source)\<rparr>"

definition small_receiver :: "nat rcv_env" where
  "small_receiver = \<lparr>rv_X = counting_xx, rv_strong = (\<lambda>bs. replicate 16 0), rv_Dst = ''/d'', rv_Durable = PageCache, rv_channel = (\<lambda>_ _ _. True),
     rv_listen = Inr ''host:1'', rv_wants = True, rv_attach = (\<lambda>_. Inr ()), rv_accept = Inr (), rv_MaxBlock = 2 ^ 22, rv_Backed = True,
     rv_recv = (\<lambda>_ n. Inr (replicate n 7)), rv_slack = (\<lambda>_. []), rv_send = (\<lambda>_. Inr ()), rv_fs = plain_fs, rv_isdir = (\<lambda>_. True),
     rv_mkdirs = (\<lambda>_. None), rv_symlink = (\<lambda>_. None), rv_open = (\<lambda>_. True), rv_pread = (\<lambda>_ _. []), rv_sys = (\<lambda>_. None), rv_pid = 9,
     rv_pwrite = (\<lambda>_. []), rv_submit = (\<lambda>_. Inr ()), rv_written = (\<lambda>_. Inr ())\<rparr>"

definition small_item :: "string \<Rightarrow> bool \<Rightarrow> Item" where
  "small_item Name Dir = \<lparr>It_Local = Name, It_Name = Name, It_Mode = 0x1ed, It_Mtime = 0, It_Directory = Dir, It_Link = False, It_Target = []\<rparr>"

lemma small_resolve: "resolve small_receiver True ''s'' = Inr ''/d/s''" "resolve small_receiver True ''s/a'' = Inr ''/d/s/a''"
  by (simp_all add: resolve_def small_receiver_def underRoot_def is_absolute_def parts_def has_parent_path_def path_append_def within_def real_of_def plain_fs_def Let_def)

lemma small_not_temp: "\<not> is_temp small_receiver ''/d/s/a''"
proof -
  have "filename ''/d/s/a'' \<noteq> filename (temp_path 9 i D)" for i D unfolding filename_temp by (simp add: filename_def)
  then have "''/d/s/a'' \<noteq> temp_path 9 i D" for i D by metis
  then show ?thesis by (simp add: is_temp_def small_receiver_def)
qed

lemma small_safe: "delta_safe small_receiver [7] (Some [7])"
proof -
  have "b = [7]" if "b \<in> set (blocks B [7])" for b :: "byte list" and B
    using that by (cases B) (auto simp: blocks.simps [of _ "[7]"] blocks.simps [of _ "[]"])
  then show ?thesis by (auto simp: delta_safe_def no_collision_def Let_def take_Cons' drop_Cons' split: if_splits)
qed


end
