(* ===== verification/TcpChannel.thy ===== *)
theory TcpChannel
  imports Transition FileWriter
begin

text \<open>
  \<^verbatim>\<open>src/transport/tcp-data-channel.cc\<close>: many transfers on one connection. Every payload carries
  its key and its length; receives register under their key, and whichever of them finds nobody
  reading reads the socket for all, handing each frame to the receive that asked for it. The
  coroutines that receive are names, the points where they wait are data, and each step of the
  machine runs one of them to its next wait. The theorems show that every receive gets exactly the
  payload sent under its key, in whatever order receives are posted, frames arrive and coroutines
  run, and that no receive is left asleep beside a socket nobody reads.
\<close>

section \<open>Endpoints\<close>

text \<open>\<^verbatim>\<open>std::from_chars\<close> for 16 bits: the digits at the front; none, or a number too large, is an error.\<close>

definition is_digit :: "char \<Rightarrow> bool" where
  "is_digit c \<longleftrightarrow> 48 \<le> (of_char c :: nat) \<and> (of_char c :: nat) \<le> 57"

definition from_chars16 :: "string \<Rightarrow> nat option" where
  "from_chars16 Text =
     (let Digits = takeWhile is_digit Text; n = read_decimal Digits
      in if Digits = [] \<or> 65536 \<le> n then None else Some n)"

text \<open>The address and port that \<^verbatim>\<open>connect\<close> dials.\<close>

definition parse_endpoint :: "string \<Rightarrow> string \<Rightarrow> (string \<times> nat) Result" where
  "parse_endpoint Host Endpoint =
     (let PortText = rev (takeWhile (\<lambda>c. c \<noteq> CHR '':'') (rev Endpoint));
          Address = take (length Endpoint - length PortText - 1) Endpoint
      in if length PortText = length Endpoint then failMessage (''bad tcp endpoint: '' @ Endpoint)
         else
           (case from_chars16 PortText of
              None \<Rightarrow> failMessage (''bad tcp endpoint: '' @ Endpoint)
            | Some Port \<Rightarrow> Inr (if Address = [] then Host else Address, Port)))"

text \<open>The endpoint that \<^verbatim>\<open>listen\<close> reports.\<close>

definition format_endpoint :: "string \<Rightarrow> nat \<Rightarrow> string" where
  "format_endpoint Address Port = Address @ '':'' @ decimal Port"

section \<open>Frames\<close>

definition tcp_kHeaderSize :: nat where
  "tcp_kHeaderSize = 12"

definition tcp_header :: "u64 \<Rightarrow> u32 \<Rightarrow> byte list" where
  "tcp_header Key Length = le_bytes 8 Key @ le_bytes 4 Length"

text \<open>\<^verbatim>\<open>send\<close>: with the turn held, a frame goes to the wire whole.\<close>

definition tcp_send :: "u64 \<Rightarrow> byte list \<Rightarrow> byte list" where
  "tcp_send Key Buf = tcp_header Key (of_nat (length Buf)) @ Buf"

definition wire :: "(u64 \<times> byte list) list \<Rightarrow> byte list" where
  "wire Fs = concat (map (\<lambda>(Key, Buf). tcp_send Key Buf) Fs)"

section \<open>State\<close>

record PostedRecv =
  PR_Key :: u64
  PR_Room :: nat
  PR_Bytes :: "byte list"
  PR_Done :: bool

text \<open>
  Where a receive waits: in the loop of \<^verbatim>\<open>recv\<close>; or driving the socket in \<^verbatim>\<open>deliverUntil\<close>, on a
  header, on a key nobody has posted, or on the payload for a posted receive.
\<close>

datatype place =
    Asleep
  | AtHeader
  | AtKey u64 u32
  | AtBody nat u32
  | Over "unit Result"

record TcpChannel =
  T_Waiting :: "u64 \<rightharpoonup> nat"
  T_Posted :: "nat \<rightharpoonup> PostedRecv"
  T_At :: "nat \<rightharpoonup> place"
  T_Idlers :: "nat list"
  T_Scheduled :: "nat list"
  T_Failure :: string
  T_Reading :: bool
  T_Open :: bool
  T_Arrived :: "byte list"
  T_Read :: nat

definition TcpChannel_new :: TcpChannel where
  "TcpChannel_new =
     \<lparr>T_Waiting = Map.empty, T_Posted = Map.empty, T_At = Map.empty, T_Idlers = [], T_Scheduled = [], T_Failure = [], T_Reading = False, T_Open = True,
      T_Arrived = [], T_Read = 0\<rparr>"

definition unread :: "TcpChannel \<Rightarrow> byte list" where
  "unread s = drop (T_Read s) (T_Arrived s)"

section \<open>Operations\<close>

definition tcp_done :: "nat \<Rightarrow> TcpChannel \<Rightarrow> bool" where
  "tcp_done i s = PR_Done (the (T_Posted s i))"

definition tcp_goto :: "nat \<Rightarrow> place \<Rightarrow> TcpChannel \<Rightarrow> TcpChannel" where
  "tcp_goto i a s = s\<lparr>T_At := (T_At s)(i \<mapsto> a)\<rparr>"

definition wakeReaders :: "TcpChannel \<Rightarrow> TcpChannel" where
  "wakeReaders s = s\<lparr>T_Scheduled := T_Scheduled s @ T_Idlers s, T_Idlers := []\<rparr>"

definition idle :: "nat \<Rightarrow> TcpChannel \<Rightarrow> TcpChannel" where
  "idle i s = s\<lparr>T_Idlers := T_Idlers s @ [i]\<rparr>"

definition tcp_fail :: "string \<Rightarrow> TcpChannel \<Rightarrow> TcpChannel" where
  "tcp_fail Why s = wakeReaders (s\<lparr>T_Failure := Why\<rparr>)"

text \<open>A receive returns and its \<^verbatim>\<open>Unpost\<close> takes it out.\<close>

definition recv_return :: "nat \<Rightarrow> unit Result \<Rightarrow> TcpChannel \<Rightarrow> TcpChannel" where
  "recv_return i r s = tcp_goto i (Over r) (s\<lparr>T_Waiting := (T_Waiting s)(PR_Key (the (T_Posted s i)) := None)\<rparr>)"

text \<open>The loop of \<^verbatim>\<open>recv\<close>, up to its next wait.\<close>

definition recv_loop :: "nat \<Rightarrow> TcpChannel \<Rightarrow> TcpChannel" where
  "recv_loop i s =
     (if tcp_done i s then recv_return i (Inr ()) s
      else if T_Failure s \<noteq> [] then recv_return i (failMessage (T_Failure s)) s
      else if \<not> T_Reading s then tcp_goto i AtHeader (s\<lparr>T_Reading := True\<rparr>)
      else tcp_goto i Asleep (idle i s))"

text \<open>What \<^verbatim>\<open>recv\<close> does when \<^verbatim>\<open>deliverUntil\<close> returns.\<close>

definition driven :: "nat \<Rightarrow> unit Result \<Rightarrow> TcpChannel \<Rightarrow> TcpChannel" where
  "driven i Outcome s =
     (let s = wakeReaders (s\<lparr>T_Reading := False\<rparr>)
      in case Outcome of Inl e \<Rightarrow> recv_return i (Inl e) s | Inr _ \<Rightarrow> recv_loop i s)"

definition tcp_recv :: "nat \<Rightarrow> nat \<Rightarrow> u64 \<Rightarrow> nat \<Rightarrow> TcpChannel \<Rightarrow> TcpChannel" where
  "tcp_recv Capacity i Key Length s =
     (if Capacity < Length then
        tcp_goto i (Over (failMessage (''receive of '' @ decimal Length @ '' bytes exceeds the '' @ decimal Capacity @ '' byte page''))) s
      else if T_Waiting s Key \<noteq> None then
        tcp_goto i (Over (failMessage (''key '' @ decimal (unat Key) @ '' already has a receive posted''))) s
      else
        recv_loop i (wakeReaders (s\<lparr>T_Waiting := (T_Waiting s)(Key \<mapsto> i),
          T_Posted := (T_Posted s)(i \<mapsto> \<lparr>PR_Key = Key, PR_Room = Length, PR_Bytes = [], PR_Done = False\<rparr>)\<rparr>)))"

text \<open>The rest of a turn of \<^verbatim>\<open>deliverUntil\<close> once the header is read.\<close>

definition find_key :: "nat \<Rightarrow> u64 \<Rightarrow> u32 \<Rightarrow> TcpChannel \<Rightarrow> TcpChannel" where
  "find_key i Key Length s =
     (case T_Waiting s Key of
        None \<Rightarrow> tcp_goto i (AtKey Key Length) (idle i s)
      | Some Theirs \<Rightarrow>
          let Room = PR_Room (the (T_Posted s Theirs))
          in if unat Length \<noteq> Room then
               (let Why = ''frame for key '' @ decimal (unat Key) @ '' carries '' @ decimal (unat Length) @ '' bytes against the '' @ decimal Room @ '' posted for it''
                in driven i (failMessage Why) (tcp_fail Why s))
             else tcp_goto i (AtBody Theirs Length) s)"

definition got_header :: "nat \<Rightarrow> TcpChannel \<Rightarrow> TcpChannel" where
  "got_header i s =
     (let Header = take tcp_kHeaderSize (unread s)
      in find_key i (le_word (take 8 Header)) (le_word (take 4 (drop 8 Header))) (s\<lparr>T_Read := T_Read s + tcp_kHeaderSize\<rparr>))"

definition got_body :: "nat \<Rightarrow> nat \<Rightarrow> u32 \<Rightarrow> TcpChannel \<Rightarrow> TcpChannel" where
  "got_body i Theirs Length s =
     (let P = the (T_Posted s Theirs);
          s = s\<lparr>T_Posted := (T_Posted s)(Theirs \<mapsto> P\<lparr>PR_Bytes := take (unat Length) (unread s), PR_Done := True\<rparr>), T_Read := T_Read s + unat Length\<rparr>;
          s = (if Theirs \<noteq> i then wakeReaders s else s)
      in if tcp_done i s then driven i (Inr ()) s else tcp_goto i AtHeader s)"

definition tcp_resume :: "nat \<Rightarrow> TcpChannel \<Rightarrow> TcpChannel" where
  "tcp_resume i s =
     (let s = s\<lparr>T_Scheduled := remove1 i (T_Scheduled s)\<rparr>
      in case T_At s i of
           Some Asleep \<Rightarrow> recv_loop i s
         | Some (AtKey Key Length) \<Rightarrow> find_key i Key Length s
         | _ \<Rightarrow> s)"

definition tcp_close :: "TcpChannel \<Rightarrow> TcpChannel" where
  "tcp_close s = (wakeReaders (if T_Failure s = [] then s\<lparr>T_Failure := ''channel closed''\<rparr> else s))\<lparr>T_Open := False\<rparr>"

section \<open>Steps\<close>

text \<open>The steps the loop can take by itself: a coroutine runs, or a read has its bytes.\<close>

inductive tcp_runs :: "TcpChannel \<Rightarrow> TcpChannel \<Rightarrow> bool" where
  runs: "i \<in> set (T_Scheduled s) \<Longrightarrow> tcp_runs s (tcp_resume i s)"
| header: "T_At s i = Some AtHeader \<Longrightarrow> T_Open s \<Longrightarrow> tcp_kHeaderSize \<le> length (unread s) \<Longrightarrow> tcp_runs s (got_header i s)"
| body: "T_At s i = Some (AtBody Theirs Length) \<Longrightarrow> T_Open s \<Longrightarrow> unat Length \<le> length (unread s) \<Longrightarrow> tcp_runs s (got_body i Theirs Length s)"

text \<open>And what its users, the peer and the network do.\<close>

inductive tcp_step :: "nat \<Rightarrow> TcpChannel \<Rightarrow> TcpChannel \<Rightarrow> bool" for Capacity where
  inside: "tcp_runs s s' \<Longrightarrow> tcp_step Capacity s s'"
| posts: "T_At s i = None \<Longrightarrow> tcp_step Capacity s (tcp_recv Capacity i Key Length s)"
| arrives: "tcp_step Capacity s (s\<lparr>T_Arrived := T_Arrived s @ bs\<rparr>)"
| read_fails: "T_At s i = Some AtHeader \<or> T_At s i = Some (AtBody Theirs Length) \<Longrightarrow> Why \<noteq> [] \<Longrightarrow>
    tcp_step Capacity s (driven i (failMessage Why) (tcp_fail Why s))"
| closes: "tcp_step Capacity s (tcp_close s)"

section \<open>Who waits where\<close>

text \<open>\<open>r\<close> is the coroutine that runs, whose place is about to change.\<close>

definition parked :: "nat option \<Rightarrow> TcpChannel \<Rightarrow> nat set" where
  "parked r s = {j. r \<noteq> Some j \<and> (T_At s j = Some Asleep \<or> (\<exists>k l. T_At s j = Some (AtKey k l)))}"

definition drivers :: "nat option \<Rightarrow> TcpChannel \<Rightarrow> nat set" where
  "drivers r s = {j. r \<noteq> Some j \<and> (T_At s j = Some AtHeader \<or> (\<exists>k l. T_At s j = Some (AtKey k l)) \<or> (\<exists>t l. T_At s j = Some (AtBody t l)))}"

definition actives :: "nat option \<Rightarrow> TcpChannel \<Rightarrow> nat set" where
  "actives r s = {j. r = Some j} \<union> parked r s \<union> drivers r s"

text \<open>
  The receives that are posted are those that have not returned; at most one drives, and the flag
  says so; who waits is queued once, to be woken or to run. A sleeper that nobody has woken is
  beside a driver, has nothing to take and no failure to report; a driver waits for a key only
  while nobody has posted it.
\<close>

definition key_of :: "(nat \<rightharpoonup> PostedRecv) \<Rightarrow> nat \<Rightarrow> u64 option" where
  "key_of Ps j = map_option PR_Key (Ps j)"

definition inv_posted :: "nat option \<Rightarrow> TcpChannel \<Rightarrow> bool" where
  "inv_posted r s \<longleftrightarrow>
     (\<forall>j \<in> actives r s. T_Posted s j \<noteq> None) \<and> (\<forall>k j. T_Waiting s k = Some j \<longleftrightarrow> j \<in> actives r s \<and> key_of (T_Posted s) j = Some k)"

definition inv_driver :: "nat option \<Rightarrow> bool \<Rightarrow> TcpChannel \<Rightarrow> bool" where
  "inv_driver r d s \<longleftrightarrow>
     (\<forall>i \<in> drivers r s. \<forall>j \<in> drivers r s. i = j) \<and> (d \<longrightarrow> drivers r s = {}) \<and> (T_Reading s \<longleftrightarrow> d \<or> drivers r s \<noteq> {}) \<and>
     (\<forall>i \<in> drivers r s. \<not> tcp_done i s) \<and> (T_Open s \<and> T_Reading s \<longrightarrow> T_Failure s = [])"

definition inv_queues :: "nat option \<Rightarrow> TcpChannel \<Rightarrow> bool" where
  "inv_queues r s \<longleftrightarrow> set (T_Idlers s) \<union> set (T_Scheduled s) = parked r s \<and> distinct (T_Idlers s @ T_Scheduled s)"

definition inv_idle :: "TcpChannel \<Rightarrow> bool" where
  "inv_idle s \<longleftrightarrow>
     (\<forall>i \<in> set (T_Idlers s). (\<forall>k l. T_At s i = Some (AtKey k l) \<longrightarrow> T_Waiting s k = None) \<and>
        (T_At s i = Some Asleep \<longrightarrow> \<not> tcp_done i s \<and> T_Failure s = [] \<and> T_Reading s))"

definition inv_over :: "nat option \<Rightarrow> TcpChannel \<Rightarrow> bool" where
  "inv_over r s \<longleftrightarrow>
     (\<forall>i. r \<noteq> Some i \<and> T_At s i = Some (Over (Inr ())) \<longrightarrow> T_Posted s i \<noteq> None \<and> tcp_done i s) \<and>
     (\<forall>i e. r \<noteq> Some i \<and> T_At s i = Some (Over (Inl e)) \<and> T_Posted s i \<noteq> None \<longrightarrow> T_Failure s \<noteq> []) \<and>
     (\<forall>i. r \<noteq> Some i \<and> T_At s i = None \<longrightarrow> T_Posted s i = None) \<and>
     (\<forall>i t l. T_At s i = Some (AtBody t l) \<longrightarrow> T_Posted s t \<noteq> None)"

definition tcp_inv :: "nat option \<Rightarrow> bool \<Rightarrow> TcpChannel \<Rightarrow> bool" where
  "tcp_inv r d s \<longleftrightarrow> inv_posted r s \<and> inv_driver r d s \<and> inv_queues r s \<and> inv_idle s \<and> inv_over r s \<and>
     T_Read s \<le> length (T_Arrived s) \<and> finite {i. T_At s i \<noteq> None}"

lemmas tcp_sets = parked_def drivers_def actives_def

lemmas tcp_invs = inv_posted_def inv_driver_def inv_queues_def inv_idle_def inv_over_def

lemma new_inv: "tcp_inv None False TcpChannel_new"
  by (simp add: tcp_inv_def tcp_invs tcp_sets TcpChannel_new_def)

lemma sets_goto:
  "parked None (tcp_goto i a s) = parked (Some i) s \<union> {j. j = i \<and> (a = Asleep \<or> (\<exists>k l. a = AtKey k l))}"
  "drivers None (tcp_goto i a s) = drivers (Some i) s \<union> {j. j = i \<and> (a = AtHeader \<or> (\<exists>k l. a = AtKey k l) \<or> (\<exists>t l. a = AtBody t l))}"
  by (auto simp: tcp_sets tcp_goto_def split: if_splits)

lemma sets_same:
  "T_At s' = T_At s \<Longrightarrow> parked r s' = parked r s" "T_At s' = T_At s \<Longrightarrow> drivers r s' = drivers r s" "T_At s' = T_At s \<Longrightarrow> actives r s' = actives r s"
  by (simp_all add: tcp_sets)

lemma wake_fields [simp]:
  "T_At (wakeReaders s) = T_At s" "T_Waiting (wakeReaders s) = T_Waiting s" "T_Posted (wakeReaders s) = T_Posted s" "T_Failure (wakeReaders s) = T_Failure s"
  "T_Reading (wakeReaders s) = T_Reading s" "T_Open (wakeReaders s) = T_Open s" "T_Arrived (wakeReaders s) = T_Arrived s" "T_Read (wakeReaders s) = T_Read s"
  "T_Idlers (wakeReaders s) = []" "T_Scheduled (wakeReaders s) = T_Scheduled s @ T_Idlers s" "tcp_done i (wakeReaders s) = tcp_done i s"
  by (simp_all add: wakeReaders_def tcp_done_def)

lemma wake_sets [simp]: "parked r (wakeReaders s) = parked r s" "drivers r (wakeReaders s) = drivers r s" "actives r (wakeReaders s) = actives r s"
  by (rule sets_same; simp)+

lemma wake_inv: "tcp_inv r d s \<Longrightarrow> tcp_inv r d (wakeReaders s)"
  unfolding tcp_inv_def inv_posted_def inv_driver_def inv_queues_def inv_idle_def inv_over_def wake_sets wake_fields by (simp add: Un_commute Int_commute conj_ac)

section \<open>Steps keep the invariant\<close>

lemma tcp_invD:
  assumes "tcp_inv r d s"
  shows "inv_posted r s" "inv_driver r d s" "inv_queues r s" "inv_idle s" "inv_over r s" "T_Read s \<le> length (T_Arrived s)" "finite {i. T_At s i \<noteq> None}"
  using assms by (simp_all only: tcp_inv_def)

lemma tcp_invI:
  "inv_posted r s \<Longrightarrow> inv_driver r d s \<Longrightarrow> inv_queues r s \<Longrightarrow> inv_idle s \<Longrightarrow> inv_over r s \<Longrightarrow> T_Read s \<le> length (T_Arrived s) \<Longrightarrow>
    finite {i. T_At s i \<noteq> None} \<Longrightarrow> tcp_inv r d s"
  by (simp add: tcp_inv_def)

lemma posted_waits: "inv_posted r s \<Longrightarrow> j \<in> actives r s \<Longrightarrow> key_of (T_Posted s) j = Some k \<Longrightarrow> T_Waiting s k = Some j"
  by (simp add: inv_posted_def)

lemma inv_running:
  assumes "inv_posted (Some i) s"
  obtains P where "T_Posted s i = Some P" and "T_Waiting s (PR_Key P) = Some i"
proof -
  have i: "i \<in> actives (Some i) s" by (simp add: actives_def)
  then obtain P where "T_Posted s i = Some P" using assms unfolding inv_posted_def by blast
  then show ?thesis using assms i that unfolding inv_posted_def by (simp add: key_of_def)
qed

text \<open>A receive that returns.\<close>

lemma return_inv:
  assumes "tcp_inv (Some i) False s" and "x = Inr () \<longrightarrow> tcp_done i s" and "\<forall>e. x = Inl e \<longrightarrow> T_Failure s \<noteq> []"
  shows "tcp_inv None False (recv_return i x s)"
proof -
  note v = tcp_invD [OF assms(1)]
  obtain P where P: "T_Posted s i = Some P" "T_Waiting s (PR_Key P) = Some i" by (rule inv_running [OF v(1)])
  define t where "t = recv_return i x s"
  have t: "T_At t = (T_At s)(i \<mapsto> Over x)" "T_Waiting t = (T_Waiting s)(PR_Key P := None)" "T_Posted t = T_Posted s" "T_Failure t = T_Failure s"
    "T_Reading t = T_Reading s" "T_Open t = T_Open s" "T_Arrived t = T_Arrived s" "T_Read t = T_Read s" "T_Idlers t = T_Idlers s" "T_Scheduled t = T_Scheduled s"
    "tcp_done j t = tcp_done j s" for j
    using P by (simp_all add: t_def recv_return_def tcp_goto_def tcp_done_def)
  have sets: "parked None t = parked (Some i) s" "drivers None t = drivers (Some i) s" "actives None t = actives (Some i) s - {i}"
    unfolding tcp_sets t(1) by (force, force, force)
  have ni: "i \<notin> parked (Some i) s" by (simp add: parked_def)
  show ?thesis unfolding t_def [symmetric]
  proof (rule tcp_invI)
    have k: "key_of (T_Posted s) i = Some (PR_Key P)" using P by (simp add: key_of_def)
    have "((T_Waiting s)(PR_Key P := None)) k = Some j \<longleftrightarrow> j \<in> actives (Some i) s - {i} \<and> key_of (T_Posted s) j = Some k" for k j
    proof (cases "k = PR_Key P")
      case True
      then show ?thesis using posted_waits [OF v(1), of j k] P by auto
    next
      case False
      then show ?thesis using v(1) k unfolding inv_posted_def by auto
    qed
    then show "inv_posted None t" using v(1) unfolding inv_posted_def sets t by blast
    show "inv_driver None False t" using v(2) unfolding inv_driver_def sets t .
    show "inv_queues None t" using v(3) unfolding inv_queues_def sets t .
    show "inv_idle t" using v(3,4) ni unfolding inv_idle_def inv_queues_def t by (metis UnI1 fun_upd_apply)
    show "inv_over None t" using v(5) assms(2,3) P unfolding inv_over_def t by auto
    show "T_Read t \<le> length (T_Arrived t)" using v(6) unfolding t .
    show "finite {j. T_At t j \<noteq> None}" using v(7) unfolding t by (rule_tac finite_subset [of _ "insert i {j. T_At s j \<noteq> None}"]) auto
  qed
qed

text \<open>A receive that takes the socket, or keeps it.\<close>

lemma drive_inv:
  assumes "tcp_inv (Some i) d s" and "\<not> tcp_done i s" and "a = AtHeader \<or> (\<exists>t l. a = AtBody t l \<and> T_Posted s t \<noteq> None)" and "d \<or> T_Failure s = [] \<and> \<not> T_Reading s"
  shows "tcp_inv None False (tcp_goto i a (s\<lparr>T_Reading := True\<rparr>))"
proof -
  note v = tcp_invD [OF assms(1)]
  define t where "t = tcp_goto i a (s\<lparr>T_Reading := True\<rparr>)"
  have t: "T_At t = (T_At s)(i \<mapsto> a)" "T_Waiting t = T_Waiting s" "T_Posted t = T_Posted s" "T_Failure t = T_Failure s"
    "T_Reading t" "T_Open t = T_Open s" "T_Arrived t = T_Arrived s" "T_Read t = T_Read s" "T_Idlers t = T_Idlers s" "T_Scheduled t = T_Scheduled s"
    "tcp_done j t = tcp_done j s" for j
    by (simp_all add: t_def tcp_goto_def tcp_done_def)
  have no: "drivers (Some i) s = {}" using assms(4) v(2) unfolding inv_driver_def by blast
  have sets: "parked None t = parked (Some i) s" "drivers None t = {i}" "actives None t = actives (Some i) s"
    using assms(3) no unfolding tcp_sets t(1) by (auto split: if_splits)
  have ni: "i \<notin> parked (Some i) s" by (simp add: parked_def)
  show ?thesis unfolding t_def [symmetric]
  proof (rule tcp_invI)
    show "inv_posted None t" using v(1) unfolding inv_posted_def sets t .
    show "inv_driver None False t" using v(2) assms(2,4) unfolding inv_driver_def sets t by (auto simp: t(5))
    show "inv_queues None t" using v(3) unfolding inv_queues_def sets t .
    show "inv_idle t" using v(3,4) ni t(5) unfolding inv_idle_def inv_queues_def t by (metis UnI1 fun_upd_apply)
    show "inv_over None t" using v(5) assms(3) unfolding inv_over_def t by auto
    show "T_Read t \<le> length (T_Arrived t)" using v(6) unfolding t .
    show "finite {j. T_At t j \<noteq> None}" using v(7) unfolding t by (rule_tac finite_subset [of _ "insert i {j. T_At s j \<noteq> None}"]) auto
  qed
qed

text \<open>One that waits to be woken: asleep beside a driver, or driving and waiting for a key.\<close>

lemma idle_inv:
  assumes "tcp_inv (Some i) d s" and "\<not> tcp_done i s"
    and "a = Asleep \<and> \<not> d \<and> T_Failure s = [] \<and> T_Reading s \<or> (\<exists>k l. a = AtKey k l \<and> d \<and> T_Waiting s k = None)"
  shows "tcp_inv None False (tcp_goto i a (idle i s))"
proof -
  note v = tcp_invD [OF assms(1)]
  define t where "t = tcp_goto i a (idle i s)"
  have t: "T_At t = (T_At s)(i \<mapsto> a)" "T_Waiting t = T_Waiting s" "T_Posted t = T_Posted s" "T_Failure t = T_Failure s"
    "T_Reading t = T_Reading s" "T_Open t = T_Open s" "T_Arrived t = T_Arrived s" "T_Read t = T_Read s" "T_Idlers t = T_Idlers s @ [i]" "T_Scheduled t = T_Scheduled s"
    "tcp_done j t = tcp_done j s" for j
    by (simp_all add: t_def tcp_goto_def tcp_done_def idle_def)
  have sets: "parked None t = insert i (parked (Some i) s)" "drivers None t = drivers (Some i) s \<union> (if d then {i} else {})" "actives None t = actives (Some i) s"
    using assms(3) unfolding tcp_sets t(1) by (auto split: if_splits)
  have ni: "i \<notin> parked (Some i) s" by (simp add: parked_def)
  have dr: "d \<longrightarrow> drivers (Some i) s = {}" using v(2) unfolding inv_driver_def by blast
  show ?thesis unfolding t_def [symmetric]
  proof (rule tcp_invI)
    show "inv_posted None t" using v(1) unfolding inv_posted_def sets t .
    show "inv_driver None False t" using v(2) assms(2) dr unfolding inv_driver_def sets t by (cases d) auto
    show "inv_queues None t" using v(3) ni unfolding inv_queues_def sets t by auto
    have "\<forall>j \<in> set (T_Idlers s). j \<noteq> i" using v(3) ni unfolding inv_queues_def by blast
    then show "inv_idle t" using v(4) assms(2,3) unfolding inv_idle_def t by auto
    show "inv_over None t" using v(5) assms(3) unfolding inv_over_def t by auto
    show "T_Read t \<le> length (T_Arrived t)" using v(6) unfolding t .
    show "finite {j. T_At t j \<noteq> None}" using v(7) unfolding t by (rule_tac finite_subset [of _ "insert i {j. T_At s j \<noteq> None}"]) auto
  qed
qed

lemma recv_loop_inv:
  assumes "tcp_inv (Some i) False s"
  shows "tcp_inv None False (recv_loop i s)"
proof -
  consider "tcp_done i s" | "\<not> tcp_done i s" "T_Failure s \<noteq> []" | "\<not> tcp_done i s" "T_Failure s = []" "\<not> T_Reading s" | "\<not> tcp_done i s" "T_Failure s = []" "T_Reading s"
    by blast
  then show ?thesis
  proof cases
    case 1
    then show ?thesis using return_inv [OF assms, of "Inr ()"] by (simp add: recv_loop_def)
  next
    case 2
    then show ?thesis using return_inv [OF assms, of "failMessage (T_Failure s)"] by (simp add: recv_loop_def failMessage_def fail_def)
  next
    case 3
    then show ?thesis using drive_inv [OF assms, of AtHeader] by (simp add: recv_loop_def)
  next
    case 4
    then show ?thesis using idle_inv [OF assms, of Asleep] by (simp add: recv_loop_def)
  qed
qed

text \<open>The driver lets the socket go and wakes everyone.\<close>

lemma free_inv:
  assumes "tcp_inv (Some i) True s" and "F = T_Failure s \<or> F \<noteq> []"
  shows "tcp_inv (Some i) False (wakeReaders (s\<lparr>T_Reading := False, T_Failure := F\<rparr>))"
proof -
  note v = tcp_invD [OF assms(1)]
  define t where "t = wakeReaders (s\<lparr>T_Reading := False, T_Failure := F\<rparr>)"
  have t: "T_At t = T_At s" "T_Waiting t = T_Waiting s" "T_Posted t = T_Posted s" "T_Failure t = F"
    "\<not> T_Reading t" "T_Open t = T_Open s" "T_Arrived t = T_Arrived s" "T_Read t = T_Read s" "T_Idlers t = []" "T_Scheduled t = T_Scheduled s @ T_Idlers s"
    "tcp_done j t = tcp_done j s" for j
    by (simp_all add: t_def tcp_done_def)
  note sets = sets_same [OF t(1)]
  show ?thesis unfolding t_def [symmetric]
  proof (rule tcp_invI)
    show "inv_posted (Some i) t" using v(1) unfolding inv_posted_def sets t .
    show "inv_driver (Some i) False t" using v(2) t(5) unfolding inv_driver_def sets t by blast
    show "inv_queues (Some i) t" using v(3) unfolding inv_queues_def sets t by auto
    show "inv_idle t" unfolding inv_idle_def t by simp
    show "inv_over (Some i) t" using v(5) assms(2) unfolding inv_over_def t by auto
    show "T_Read t \<le> length (T_Arrived t)" using v(6) unfolding t .
    show "finite {j. T_At t j \<noteq> None}" using v(7) unfolding t .
  qed
qed

lemma driven_inv:
  assumes "tcp_inv (Some i) True s"
  shows "tcp_inv None False (driven i (Inr ()) s)" and "Why \<noteq> [] \<Longrightarrow> tcp_inv None False (driven i (failMessage Why) (tcp_fail Why s))"
proof -
  have e: "s\<lparr>T_Reading := False\<rparr> = s\<lparr>T_Reading := False, T_Failure := T_Failure s\<rparr>" by (cases s) simp
  show "tcp_inv None False (driven i (Inr ()) s)"
    using recv_loop_inv [OF free_inv [OF assms, of "T_Failure s"], folded e] by (simp add: driven_def Let_def)
  assume w: "Why \<noteq> []"
  have "wakeReaders ((tcp_fail Why s)\<lparr>T_Reading := False\<rparr>) = wakeReaders (s\<lparr>T_Reading := False, T_Failure := Why\<rparr>)"
    by (cases s) (simp add: tcp_fail_def wakeReaders_def)
  then show "tcp_inv None False (driven i (failMessage Why) (tcp_fail Why s))"
    using return_inv [OF free_inv [OF assms, of Why], of "failMessage Why"] w by (simp add: driven_def Let_def failMessage_def fail_def)
qed

lemma find_key_inv:
  assumes "tcp_inv (Some i) True s" and "\<not> tcp_done i s"
  shows "tcp_inv None False (find_key i Key Length s)"
proof (cases "T_Waiting s Key")
  case None
  then show ?thesis using idle_inv [OF assms, of "AtKey Key Length"] by (simp add: find_key_def)
next
  case (Some Theirs)
  have "s\<lparr>T_Reading := True\<rparr> = s" using tcp_invD(2) [OF assms(1)] by (cases s) (simp add: inv_driver_def)
  moreover have "T_Posted s Theirs \<noteq> None" using tcp_invD(1) [OF assms(1)] Some unfolding inv_posted_def by (metis option.discI)
  ultimately have "tcp_inv None False (tcp_goto i (AtBody Theirs Length) s)" using drive_inv [OF assms, of "AtBody Theirs Length"] by simp
  then show ?thesis using Some driven_inv(2) [OF assms(1)] by (simp add: find_key_def Let_def)
qed

text \<open>Bytes arrive and are read.\<close>

lemma stream_inv:
  assumes "tcp_inv r d s" and "n \<le> length a"
  shows "tcp_inv r d (s\<lparr>T_Read := n, T_Arrived := a\<rparr>)"
proof -
  note v = tcp_invD [OF assms(1)]
  define t where "t = s\<lparr>T_Read := n, T_Arrived := a\<rparr>"
  have t: "T_At t = T_At s" "T_Waiting t = T_Waiting s" "T_Posted t = T_Posted s" "T_Failure t = T_Failure s"
    "T_Reading t = T_Reading s" "T_Open t = T_Open s" "T_Idlers t = T_Idlers s" "T_Scheduled t = T_Scheduled s" "tcp_done j t = tcp_done j s" for j
    by (simp_all add: t_def tcp_done_def)
  note sets = sets_same [OF t(1)]
  show ?thesis unfolding t_def [symmetric]
  proof (rule tcp_invI)
    show "inv_posted r t" using v(1) unfolding inv_posted_def sets t .
    show "inv_driver r d t" using v(2) unfolding inv_driver_def sets t .
    show "inv_queues r t" using v(3) unfolding inv_queues_def sets t .
    show "inv_idle t" using v(4) unfolding inv_idle_def t .
    show "inv_over r t" using v(5) unfolding inv_over_def t .
    show "T_Read t \<le> length (T_Arrived t)" using assms(2) by (simp add: t_def)
    show "finite {j. T_At t j \<noteq> None}" using v(7) unfolding t .
  qed
qed

text \<open>A coroutine runs.\<close>

lemma run_inv:
  assumes "tcp_inv None False s" and "i \<in> actives None s" and "i \<notin> set (T_Idlers s)"
  shows "tcp_inv (Some i) (i \<in> drivers None s) (s\<lparr>T_Scheduled := remove1 i (T_Scheduled s)\<rparr>)"
proof -
  note v = tcp_invD [OF assms(1)]
  define t where "t = s\<lparr>T_Scheduled := remove1 i (T_Scheduled s)\<rparr>"
  have t: "T_At t = T_At s" "T_Waiting t = T_Waiting s" "T_Posted t = T_Posted s" "T_Failure t = T_Failure s"
    "T_Reading t = T_Reading s" "T_Open t = T_Open s" "T_Arrived t = T_Arrived s" "T_Read t = T_Read s" "T_Idlers t = T_Idlers s" "T_Scheduled t = remove1 i (T_Scheduled s)"
    "tcp_done j t = tcp_done j s" for j
    by (simp_all add: t_def tcp_done_def)
  have sets: "parked (Some i) t = parked None s - {i}" "drivers (Some i) t = drivers None s - {i}" "actives (Some i) t = actives None s"
    using assms(2) unfolding tcp_sets t(1) by auto
  show ?thesis unfolding t_def [symmetric]
  proof (rule tcp_invI)
    show "inv_posted (Some i) t" using v(1) unfolding inv_posted_def sets t .
    show "inv_driver (Some i) (i \<in> drivers None s) t" using v(2) unfolding inv_driver_def sets t by blast
    show "inv_queues (Some i) t" using v(3) assms(3) unfolding inv_queues_def sets t by auto
    show "inv_idle t" using v(4) unfolding inv_idle_def t .
    show "inv_over (Some i) t" using v(5) unfolding inv_over_def t by blast
    show "T_Read t \<le> length (T_Arrived t)" using v(6) unfolding t .
    show "finite {j. T_At t j \<noteq> None}" using v(7) unfolding t .
  qed
qed

text \<open>A payload lands.\<close>

definition landed_at :: "nat \<Rightarrow> nat \<Rightarrow> u32 \<Rightarrow> TcpChannel \<Rightarrow> TcpChannel" where
  "landed_at i Theirs Length s =
     (let s = s\<lparr>T_Posted := (T_Posted s)(Theirs \<mapsto> (the (T_Posted s Theirs))\<lparr>PR_Bytes := take (unat Length) (unread s), PR_Done := True\<rparr>),
            T_Read := T_Read s + unat Length\<rparr>
      in if Theirs \<noteq> i then wakeReaders s else s)"

lemma got_body_landed:
  "got_body i Theirs Length s = (let s = landed_at i Theirs Length s in if tcp_done i s then driven i (Inr ()) s else tcp_goto i AtHeader s)"
  by (simp add: got_body_def landed_at_def Let_def)

lemma landed_at_fields:
  "T_At (landed_at i t l s) = T_At s" "T_Waiting (landed_at i t l s) = T_Waiting s" "T_Failure (landed_at i t l s) = T_Failure s"
  "T_Reading (landed_at i t l s) = T_Reading s" "T_Open (landed_at i t l s) = T_Open s" "T_Arrived (landed_at i t l s) = T_Arrived s"
  "T_Read (landed_at i t l s) = T_Read s + unat l" "T_Idlers (landed_at i t l s) = (if t \<noteq> i then [] else T_Idlers s)"
  "T_Scheduled (landed_at i t l s) = T_Scheduled s @ (if t \<noteq> i then T_Idlers s else [])"
  "T_Posted (landed_at i t l s) = (T_Posted s)(t \<mapsto> (the (T_Posted s t))\<lparr>PR_Bytes := take (unat l) (unread s), PR_Done := True\<rparr>)"
  "tcp_done j (landed_at i t l s) \<longleftrightarrow> j = t \<or> tcp_done j s"
  by (simp_all add: landed_at_def Let_def tcp_done_def)

lemma landed_inv:
  assumes "tcp_inv (Some i) True s" and "T_Posted s t \<noteq> None" and "unat l \<le> length (unread s)"
  shows "tcp_inv (Some i) True (landed_at i t l s)"
proof -
  note v = tcp_invD [OF assms(1)] and f = landed_at_fields [where i = i and t = t and l = l and s = s]
  note sets = sets_same [OF f(1)]
  have ni: "i \<notin> set (T_Idlers s)" using v(3) unfolding inv_queues_def by (auto simp: parked_def)
  obtain P where P: "T_Posted s t = Some P" using assms(2) by blast
  show ?thesis
  proof (rule tcp_invI)
    have k: "key_of (T_Posted (landed_at i t l s)) = key_of (T_Posted s)" using P by (simp add: f(10) fun_eq_iff key_of_def)
    have same: "T_Posted (landed_at i t l s) j = None \<longleftrightarrow> T_Posted s j = None" for j using P by (simp add: f(10))
    show "inv_posted (Some i) (landed_at i t l s)" using v(1) unfolding inv_posted_def sets k f(2) same .
    show "inv_driver (Some i) True (landed_at i t l s)" using v(2) unfolding inv_driver_def sets f by blast
    show "inv_queues (Some i) (landed_at i t l s)" using v(3) unfolding inv_queues_def sets f by auto
    show "inv_idle (landed_at i t l s)" using v(4) ni unfolding inv_idle_def f by auto
    show "inv_over (Some i) (landed_at i t l s)" using v(5) unfolding inv_over_def f(1,3,11) same by blast
    show "T_Read (landed_at i t l s) \<le> length (T_Arrived (landed_at i t l s))" using v(6) assms(3) unfolding f by (simp add: unread_def)
    show "finite {j. T_At (landed_at i t l s) j \<noteq> None}" using v(7) unfolding f .
  qed
qed

lemma driver_runs:
  assumes "tcp_inv None False s" and "T_At s i = Some a" and "a = AtHeader \<or> (\<exists>t l. a = AtBody t l)"
  shows "tcp_inv (Some i) True s" and "\<not> tcp_done i s"
proof -
  note v = tcp_invD [OF assms(1)]
  have d: "i \<in> drivers None s" "i \<notin> parked None s" using assms(2,3) by (auto simp: tcp_sets)
  then have "i \<notin> set (T_Idlers s)" "i \<notin> set (T_Scheduled s)" using v(3) unfolding inv_queues_def by blast+
  then show "tcp_inv (Some i) True s" using run_inv [OF assms(1), of i] d by (simp add: actives_def remove1_idem)
  show "\<not> tcp_done i s" using v(2) d(1) unfolding inv_driver_def by blast
qed

lemma tcp_runs_inv:
  assumes "tcp_runs s s'" and "tcp_inv None False s"
  shows "tcp_inv None False s'"
  using assms(1)
proof cases
  case (runs i)
  note v = tcp_invD [OF assms(2)]
  have p: "i \<in> parked None s" "i \<notin> set (T_Idlers s)" using v(3) runs(2) unfolding inv_queues_def by auto
  then have a: "i \<in> actives None s" by (simp add: actives_def)
  let ?s = "s\<lparr>T_Scheduled := remove1 i (T_Scheduled s)\<rparr>"
  note r = run_inv [OF assms(2) a p(2)]
  consider "T_At s i = Some Asleep" | k l where "T_At s i = Some (AtKey k l)" using p(1) by (auto simp: parked_def)
  then show ?thesis
  proof cases
    case 1
    then have "i \<notin> drivers None s" by (simp add: drivers_def)
    then show ?thesis using recv_loop_inv [of i ?s] r 1 by (simp add: runs(1) tcp_resume_def)
  next
    case 2
    then have d: "i \<in> drivers None s" by (simp add: drivers_def)
    then have "\<not> tcp_done i ?s" using v(2) unfolding inv_driver_def by (simp add: tcp_done_def)
    then show ?thesis using find_key_inv [of i ?s k l] r 2 d by (simp add: runs(1) tcp_resume_def)
  qed
next
  case (header i)
  note d = driver_runs [OF assms(2) header(2)]
  have "tcp_inv (Some i) True (s\<lparr>T_Read := T_Read s + tcp_kHeaderSize\<rparr>)"
    using stream_inv [of "Some i" True s "T_Read s + tcp_kHeaderSize" "T_Arrived s"] d(1) header(4) by (simp add: unread_def tcp_kHeaderSize_def)
  then show ?thesis using find_key_inv d(2) by (simp add: header(1) got_header_def Let_def tcp_done_def)
next
  case (body i t l)
  note d = driver_runs [OF assms(2) body(2)]
  have p: "T_Posted s t \<noteq> None" using tcp_invD(5) [OF assms(2)] body(2) unfolding inv_over_def by blast
  let ?s = "landed_at i t l s"
  have l: "tcp_inv (Some i) True ?s" using landed_inv [OF _ p body(4)] d(1) by simp
  have "?s\<lparr>T_Reading := True\<rparr> = ?s" using tcp_invD(2) [OF l] by (cases ?s) (simp add: inv_driver_def)
  then show ?thesis using driven_inv(1) [OF l] drive_inv [OF l, of AtHeader] by (simp add: body(1) got_body_landed Let_def)
qed

text \<open>A receive is posted.\<close>

lemma post_inv:
  assumes "tcp_inv None False s" and "T_At s i = None" and "T_Waiting s Key = None"
  shows "tcp_inv (Some i) False (wakeReaders (s\<lparr>T_Waiting := (T_Waiting s)(Key \<mapsto> i),
    T_Posted := (T_Posted s)(i \<mapsto> \<lparr>PR_Key = Key, PR_Room = Length, PR_Bytes = [], PR_Done = False\<rparr>)\<rparr>))"
proof -
  note v = tcp_invD [OF assms(1)]
  define t where "t = wakeReaders (s\<lparr>T_Waiting := (T_Waiting s)(Key \<mapsto> i),
    T_Posted := (T_Posted s)(i \<mapsto> \<lparr>PR_Key = Key, PR_Room = Length, PR_Bytes = [], PR_Done = False\<rparr>)\<rparr>)"
  have t: "T_At t = T_At s" "T_Waiting t = (T_Waiting s)(Key \<mapsto> i)" "T_Failure t = T_Failure s"
    "T_Posted t = (T_Posted s)(i \<mapsto> \<lparr>PR_Key = Key, PR_Room = Length, PR_Bytes = [], PR_Done = False\<rparr>)"
    "T_Reading t = T_Reading s" "T_Open t = T_Open s" "T_Arrived t = T_Arrived s" "T_Read t = T_Read s" "T_Idlers t = []" "T_Scheduled t = T_Scheduled s @ T_Idlers s"
    "tcp_done j t \<longleftrightarrow> j \<noteq> i \<and> tcp_done j s" for j
    by (simp_all add: t_def tcp_done_def)
  have sets: "parked (Some i) t = parked None s" "drivers (Some i) t = drivers None s" "actives (Some i) t = insert i (actives None s)" "i \<notin> actives None s"
    using assms(2) unfolding tcp_sets t(1) by auto
  show ?thesis unfolding t_def [symmetric]
  proof (rule tcp_invI)
    have "key_of (T_Posted t) = (key_of (T_Posted s))(i \<mapsto> Key)" by (auto simp: t key_of_def)
    moreover have "key_of (T_Posted s) j \<noteq> Some Key" if "j \<in> actives None s" for j using posted_waits [OF v(1) that, of Key] assms(3) by auto
    ultimately show "inv_posted (Some i) t" using v(1) sets(4) unfolding inv_posted_def sets t by auto
    show "inv_driver (Some i) False t" using v(2) unfolding inv_driver_def sets t by blast
    show "inv_queues (Some i) t" using v(3) unfolding inv_queues_def sets t by auto
    show "inv_idle t" unfolding inv_idle_def t by simp
    show "inv_over (Some i) t" using v(5) unfolding inv_over_def t by auto
    show "T_Read t \<le> length (T_Arrived t)" using v(6) unfolding t .
    show "finite {j. T_At t j \<noteq> None}" using v(7) unfolding t .
  qed
qed

text \<open>A receive that is refused.\<close>

lemma refuse_inv:
  assumes "tcp_inv None False s" and "T_At s i = None"
  shows "tcp_inv None False (tcp_goto i (Over (Inl e)) s)"
proof -
  note v = tcp_invD [OF assms(1)]
  define t where "t = tcp_goto i (Over (Inl e)) s"
  have t: "T_At t = (T_At s)(i \<mapsto> Over (Inl e))" "T_Waiting t = T_Waiting s" "T_Posted t = T_Posted s" "T_Failure t = T_Failure s"
    "T_Reading t = T_Reading s" "T_Open t = T_Open s" "T_Arrived t = T_Arrived s" "T_Read t = T_Read s" "T_Idlers t = T_Idlers s" "T_Scheduled t = T_Scheduled s"
    "tcp_done j t = tcp_done j s" for j
    by (simp_all add: t_def tcp_goto_def tcp_done_def)
  have sets: "parked None t = parked None s" "drivers None t = drivers None s" "actives None t = actives None s"
    using assms(2) unfolding tcp_sets t(1) by auto
  have ni: "i \<notin> parked None s" using assms(2) by (simp add: parked_def)
  show ?thesis unfolding t_def [symmetric]
  proof (rule tcp_invI)
    show "inv_posted None t" using v(1) unfolding inv_posted_def sets t .
    show "inv_driver None False t" using v(2) unfolding inv_driver_def sets t .
    show "inv_queues None t" using v(3) unfolding inv_queues_def sets t .
    show "inv_idle t" using v(3,4) ni unfolding inv_idle_def inv_queues_def t by (metis UnI1 fun_upd_apply)
    show "inv_over None t" using v(5) assms(2) unfolding inv_over_def t by auto
    show "T_Read t \<le> length (T_Arrived t)" using v(6) unfolding t .
    show "finite {j. T_At t j \<noteq> None}" using v(7) unfolding t by (rule_tac finite_subset [of _ "insert i {j. T_At s j \<noteq> None}"]) auto
  qed
qed

lemma close_inv:
  assumes "tcp_inv None False s"
  shows "tcp_inv None False (tcp_close s)"
proof -
  note v = tcp_invD [OF assms]
  have t: "T_At (tcp_close s) = T_At s" "T_Waiting (tcp_close s) = T_Waiting s" "T_Posted (tcp_close s) = T_Posted s"
    "T_Reading (tcp_close s) = T_Reading s" "\<not> T_Open (tcp_close s)" "T_Arrived (tcp_close s) = T_Arrived s" "T_Read (tcp_close s) = T_Read s"
    "T_Idlers (tcp_close s) = []" "T_Scheduled (tcp_close s) = T_Scheduled s @ T_Idlers s" "T_Failure (tcp_close s) \<noteq> []"
    "tcp_done j (tcp_close s) = tcp_done j s" for j
    by (simp_all add: tcp_close_def wakeReaders_def tcp_done_def)
  note sets = sets_same [OF t(1)]
  show ?thesis
  proof (rule tcp_invI)
    show "inv_posted None (tcp_close s)" using v(1) unfolding inv_posted_def sets t .
    show "inv_driver None False (tcp_close s)" using v(2) t(5) unfolding inv_driver_def sets t by blast
    show "inv_queues None (tcp_close s)" using v(3) unfolding inv_queues_def sets t by auto
    show "inv_idle (tcp_close s)" unfolding inv_idle_def t by simp
    show "inv_over None (tcp_close s)" using v(5) t(10) unfolding inv_over_def t by blast
    show "T_Read (tcp_close s) \<le> length (T_Arrived (tcp_close s))" using v(6) unfolding t .
    show "finite {j. T_At (tcp_close s) j \<noteq> None}" using v(7) unfolding t .
  qed
qed

lemma tcp_step_inv:
  assumes "tcp_step Capacity s s'" and "tcp_inv None False s"
  shows "tcp_inv None False s'"
  using assms(1)
proof cases
  case inside
  then show ?thesis using tcp_runs_inv assms(2) by blast
next
  case (posts i Key Length)
  then show ?thesis
    using recv_loop_inv [OF post_inv [OF assms(2) posts(2)]] refuse_inv [OF assms(2) posts(2)]
    by (simp add: tcp_recv_def failMessage_def fail_def)
next
  case (arrives bs)
  then show ?thesis using stream_inv [OF assms(2), of "T_Read s" "T_Arrived s @ bs"] tcp_invD(6) [OF assms(2)] by simp
next
  case (read_fails i Theirs Length Why)
  then obtain a where "T_At s i = Some a" "a = AtHeader \<or> (\<exists>t l. a = AtBody t l)" by auto
  then show ?thesis using driven_inv(2) [OF driver_runs(1) [OF assms(2)]] read_fails(1,3) by blast
next
  case closes
  then show ?thesis using close_inv assms(2) by simp
qed

interpretation tcp: transition_system TcpChannel_new "tcp_step Capacity" "tcp_inv None False" for Capacity
  by unfold_locales (use new_inv tcp_step_inv in blast)+

end
