(* ===== verification/TcpFrames.thy ===== *)
theory TcpFrames
  imports TcpChannel
begin

text \<open>
  What the receives of a TCP data channel get from a peer that sends each key once: the socket
  always stands at a frame or inside the one that its driver is reading, and every frame goes to
  the receive posted under its key.
\<close>

section \<open>Frames in order\<close>

text \<open>A peer that sends the frames \<open>Fs\<close>, each key once; what has arrived is a part of that.\<close>

definition sends :: "(u64 \<times> byte list) list \<Rightarrow> TcpChannel \<Rightarrow> bool" where
  "sends Fs s \<longleftrightarrow> prefix (T_Arrived s) (wire Fs) \<and> distinct (map fst Fs) \<and> (\<forall>f \<in> set Fs. length (snd f) < 2 ^ 32)"

definition start :: "(u64 \<times> byte list) list \<Rightarrow> nat \<Rightarrow> nat" where
  "start Fs n = length (wire (take n Fs))"

lemma length_tcp_send: "length (tcp_send Key Buf) = 12 + length Buf"
  by (simp add: tcp_send_def tcp_header_def)

lemma wire_split: "n < length Fs \<Longrightarrow> wire Fs = wire (take n Fs) @ tcp_send (fst (Fs ! n)) (snd (Fs ! n)) @ wire (drop (Suc n) Fs)"
  by (subst id_take_nth_drop, assumption) (simp add: wire_def case_prod_beta)

lemma start_Suc: "n < length Fs \<Longrightarrow> start Fs (Suc n) = start Fs n + 12 + length (snd (Fs ! n))"
  by (simp add: start_def take_Suc_conv_app_nth wire_def case_prod_beta length_tcp_send)

lemma arrived_at:
  assumes "sends Fs s" and "n < length Fs" and "start Fs n + k + m \<le> length (T_Arrived s)" and "k + m \<le> 12 + length (snd (Fs ! n))"
  shows "take m (drop (start Fs n + k) (T_Arrived s)) = take m (drop k (tcp_send (fst (Fs ! n)) (snd (Fs ! n))))"
proof -
  obtain z where z: "wire Fs = T_Arrived s @ z" using assms(1) by (auto simp: sends_def prefix_def)
  let ?f = "tcp_send (fst (Fs ! n)) (snd (Fs ! n))"
  have "take m (drop (start Fs n + k) (T_Arrived s)) = take m (drop (start Fs n + k) (wire Fs))" using assms(3) z by simp
  also have "\<dots> = take m (drop k (?f @ wire (drop (Suc n) Fs)))" unfolding wire_split [OF assms(2)] start_def by simp
  also have "\<dots> = take m (drop k ?f)" using assms(4) length_tcp_send [of "fst (Fs ! n)" "snd (Fs ! n)"] by simp
  finally show ?thesis .
qed

lemma no_more:
  assumes "sends Fs s" and "start Fs n < length (T_Arrived s)"
  shows "n < length Fs"
proof (rule ccontr)
  assume "\<not> n < length Fs"
  then have "start Fs n = length (wire Fs)" by (simp add: start_def)
  then show False using assms by (auto simp: sends_def prefix_def)
qed

text \<open>Where the socket stands for a driver: before the frame \<open>n\<close>, or between its header and its payload.\<close>

fun stands :: "(u64 \<times> byte list) list \<Rightarrow> nat \<Rightarrow> TcpChannel \<Rightarrow> place \<Rightarrow> bool" where
  "stands Fs n s AtHeader \<longleftrightarrow> T_Read s = start Fs n"
| "stands Fs n s (AtKey k l) \<longleftrightarrow> n < length Fs \<and> T_Read s = start Fs n + 12 \<and> k = fst (Fs ! n) \<and> unat l = length (snd (Fs ! n))"
| "stands Fs n s (AtBody t l) \<longleftrightarrow> n < length Fs \<and> T_Read s = start Fs n + 12 \<and> unat l = length (snd (Fs ! n)) \<and>
     key_of (T_Posted s) t = Some (fst (Fs ! n)) \<and> PR_Room (the (T_Posted s t)) = unat l"
| "stands Fs n s _ \<longleftrightarrow> True"

definition handed_out :: "(u64 \<times> byte list) list \<Rightarrow> nat \<Rightarrow> (nat \<rightharpoonup> PostedRecv) \<Rightarrow> bool" where
  "handed_out Fs n Ps \<longleftrightarrow> n \<le> length Fs \<and>
     (\<forall>j P. Ps j = Some P \<and> PR_Done P \<longrightarrow> (\<exists>m < n. Fs ! m = (PR_Key P, PR_Bytes P)) \<and> length (PR_Bytes P) = PR_Room P) \<and>
     (\<forall>m < n. \<exists>j P. Ps j = Some P \<and> PR_Done P \<and> PR_Key P = fst (Fs ! m))"

definition framed :: "nat option \<Rightarrow> (u64 \<times> byte list) list \<Rightarrow> nat \<Rightarrow> TcpChannel \<Rightarrow> bool" where
  "framed r Fs n s \<longleftrightarrow>
     (\<forall>i \<in> drivers r s. stands Fs n s (the (T_At s i))) \<and> (\<not> T_Reading s \<and> T_Failure s = [] \<longrightarrow> T_Read s = start Fs n) \<and> handed_out Fs n (T_Posted s)"

lemma stands_cong: "T_Read s' = T_Read s \<Longrightarrow> T_Posted s' = T_Posted s \<Longrightarrow> stands Fs n s' a = stands Fs n s a"
  by (cases a) simp_all

lemma framed_cong:
  assumes "framed r Fs n s" and "T_Read s' = T_Read s" and "T_Posted s' = T_Posted s" and "T_At s' = T_At s" and "drivers r' s' \<subseteq> drivers r s"
    and "\<not> T_Reading s' \<and> T_Failure s' = [] \<longrightarrow> \<not> T_Reading s \<and> T_Failure s = [] \<or> T_Read s = start Fs n"
  shows "framed r' Fs n s'"
  using assms stands_cong [OF assms(2,3)] unfolding framed_def by (metis subsetD)

lemma framed_goto:
  assumes "framed (Some i) Fs n s" and "stands Fs n s a"
  shows "framed None Fs n (tcp_goto i a s)"
proof -
  have "stands Fs n (tcp_goto i a s) b = stands Fs n s b" for b by (rule stands_cong) (simp_all add: tcp_goto_def)
  then show ?thesis using assms unfolding framed_def by (auto simp: sets_goto) (auto simp: tcp_goto_def drivers_def)
qed

lemma framed_idle: "framed r Fs n s \<Longrightarrow> framed r Fs n (idle i s)"
  by (erule framed_cong) (simp_all add: idle_def drivers_def)

lemma framed_wake: "framed r Fs n s \<Longrightarrow> framed r Fs n (wakeReaders s)"
  by (erule framed_cong) simp_all

lemma framed_return: "framed (Some i) Fs n s \<Longrightarrow> framed None Fs n (recv_return i x s)"
  unfolding recv_return_def by (rule framed_goto, erule framed_cong) (simp_all add: drivers_def)

lemma framed_recv_loop:
  assumes "framed (Some i) Fs n s"
  shows "framed None Fs n (recv_loop i s)"
proof -
  have "framed None Fs n (tcp_goto i AtHeader (s\<lparr>T_Reading := True\<rparr>))" if "T_Failure s = []" "\<not> T_Reading s"
  proof (rule framed_goto)
    show "framed (Some i) Fs n (s\<lparr>T_Reading := True\<rparr>)" by (rule framed_cong [OF assms]) (simp_all add: drivers_def)
    show "stands Fs n (s\<lparr>T_Reading := True\<rparr>) AtHeader" using assms that by (simp add: framed_def)
  qed
  moreover have "framed None Fs n (tcp_goto i Asleep (idle i s))" by (rule framed_goto [OF framed_idle [OF assms]]) simp
  ultimately show ?thesis using framed_return [OF assms] by (simp add: recv_loop_def)
qed

lemma framed_driven:
  assumes "framed (Some i) Fs n s"
  shows "T_Read s = start Fs n \<Longrightarrow> framed None Fs n (driven i (Inr ()) s)" and "Why \<noteq> [] \<Longrightarrow> framed None Fs n (driven i (failMessage Why) (tcp_fail Why s))"
proof -
  assume "T_Read s = start Fs n"
  then have "framed (Some i) Fs n (s\<lparr>T_Reading := False\<rparr>)" by (intro framed_cong [OF assms]) (simp_all add: drivers_def)
  then show "framed None Fs n (driven i (Inr ()) s)" using framed_recv_loop [OF framed_wake] by (simp add: driven_def Let_def)
next
  assume "Why \<noteq> []"
  then have "framed (Some i) Fs n ((tcp_fail Why s)\<lparr>T_Reading := False\<rparr>)" by (intro framed_cong [OF assms]) (simp_all add: tcp_fail_def drivers_def)
  then show "framed None Fs n (driven i (failMessage Why) (tcp_fail Why s))"
    using framed_return [OF framed_wake] by (simp add: driven_def Let_def failMessage_def fail_def)
qed

lemma framed_find_key:
  assumes "framed (Some i) Fs n s" and "inv_posted r s" and "stands Fs n s (AtKey Key Length)"
  shows "framed None Fs n (find_key i Key Length s)"
proof (cases "T_Waiting s Key")
  case None
  have "framed None Fs n (tcp_goto i (AtKey Key Length) (idle i s))"
    using assms(3) by (intro framed_goto [OF framed_idle [OF assms(1)]]) (simp add: idle_def)
  then show ?thesis using None by (simp add: find_key_def)
next
  case (Some Theirs)
  have "key_of (T_Posted s) Theirs = Some Key" using assms(2) Some unfolding inv_posted_def by blast
  then have "framed None Fs n (tcp_goto i (AtBody Theirs Length) s)" if "unat Length = PR_Room (the (T_Posted s Theirs))"
    using assms(3) that by (intro framed_goto [OF assms(1)]) simp
  then show ?thesis using Some framed_driven(2) [OF assms(1)] by (simp add: find_key_def Let_def)
qed

lemma framed_landed:
  assumes "framed (Some i) Fs n s" and "sends Fs s" and "drivers (Some i) s = {}" and "stands Fs n s (AtBody t l)" and "T_Posted s t \<noteq> None"
    and "unat l \<le> length (unread s)" and "T_Read s \<le> length (T_Arrived s)" and "T_Reading s"
  shows "framed (Some i) Fs (Suc n) (landed_at i t l s)" and "T_Read (landed_at i t l s) = start Fs (Suc n)"
proof -
  let ?f = "Fs ! n" and ?s = "landed_at i t l s"
  note f = landed_at_fields [where i = i and t = t and l = l and s = s]
  obtain P where P: "T_Posted s t = Some P" using assms(5) by blast
  have n: "n < length Fs" "T_Read s = start Fs n + 12" "unat l = length (snd ?f)" "PR_Key P = fst ?f" "PR_Room P = unat l"
    using assms(4) P by (simp_all add: key_of_def)
  show r: "T_Read ?s = start Fs (Suc n)" using start_Suc [OF n(1)] n(2,3) by (simp add: f)
  have "take (unat l) (unread s) = take (unat l) (drop 12 (tcp_send (fst ?f) (snd ?f)))"
    unfolding unread_def n(2) by (rule arrived_at [OF assms(2) n(1)]) (use assms(6,7) n(2,3) in \<open>auto simp: unread_def\<close>)
  then have b: "take (unat l) (unread s) = snd ?f" using n(3) by (simp add: tcp_send_def tcp_header_def)
  have h: "handed_out Fs n (T_Posted s)" using assms(1) by (simp add: framed_def)
  let ?P = "P\<lparr>PR_Bytes := snd ?f, PR_Done := True\<rparr>"
  have ps: "T_Posted ?s = (T_Posted s)(t \<mapsto> ?P)" using P b by (simp add: f)
  have "handed_out Fs (Suc n) (T_Posted ?s)" unfolding handed_out_def ps
  proof (intro conjI allI impI)
    show "Suc n \<le> length Fs" using n(1) by simp
  next
    fix j R
    assume a: "((T_Posted s)(t \<mapsto> ?P)) j = Some R \<and> PR_Done R"
    show "\<exists>m < Suc n. Fs ! m = (PR_Key R, PR_Bytes R)"
    proof (cases "j = t")
      case True
      then have "Fs ! n = (PR_Key R, PR_Bytes R)" using a n(4) by (auto simp: prod_eq_iff)
      then show ?thesis by blast
    next
      case False
      then show ?thesis using a h unfolding handed_out_def by (metis fun_upd_apply less_SucI)
    qed
    show "length (PR_Bytes R) = PR_Room R" using a h n(3,5) unfolding handed_out_def by (cases "j = t") auto
  next
    fix m
    assume m: "m < Suc n"
    show "\<exists>j R. ((T_Posted s)(t \<mapsto> ?P)) j = Some R \<and> PR_Done R \<and> PR_Key R = fst (Fs ! m)"
    proof (cases "m = n")
      case True
      then show ?thesis using n(4) by (intro exI [of _ t] exI [of _ ?P]) simp
    next
      case False
      then obtain j R where jR: "T_Posted s j = Some R" "PR_Done R" "PR_Key R = fst (Fs ! m)" using h m unfolding handed_out_def by (metis less_SucE)
      show ?thesis
      proof (cases "j = t")
        case True
        then show ?thesis using jR P by (intro exI [of _ t] exI [of _ ?P]) auto
      next
        case False
        then show ?thesis using jR by (intro exI [of _ j] exI [of _ R]) simp
      qed
    qed
  qed
  then show "framed (Some i) Fs (Suc n) ?s" using assms(3,8) r sets_same(2) [OF f(1), of "Some i"] unfolding framed_def by (simp add: f(4))
qed

lemma sends_back: "sends Fs s' \<Longrightarrow> prefix (T_Arrived s) (T_Arrived s') \<Longrightarrow> sends Fs s"
  by (auto simp: sends_def intro: prefix_order.trans)

lemma arrived_same [simp]:
  "T_Arrived (tcp_goto i a s) = T_Arrived s" "T_Arrived (idle i s) = T_Arrived s" "T_Arrived (recv_return i x s) = T_Arrived s"
  "T_Arrived (tcp_fail Why s) = T_Arrived s"
  by (simp_all add: tcp_goto_def idle_def recv_return_def tcp_fail_def)

lemma arrived_loop [simp]: "T_Arrived (recv_loop i s) = T_Arrived s" "T_Arrived (driven i x s) = T_Arrived s" "T_Arrived (find_key i k l s) = T_Arrived s"
proof -
  show l: "T_Arrived (recv_loop i s) = T_Arrived s" for s by (simp add: recv_loop_def)
  show d: "T_Arrived (driven i x s) = T_Arrived s" for x s by (simp add: driven_def Let_def l split: sum.split)
  show "T_Arrived (find_key i k l s) = T_Arrived s" by (simp add: find_key_def Let_def d split: option.split)
qed

lemma tcp_runs_arrived: "tcp_runs s s' \<Longrightarrow> T_Arrived s' = T_Arrived s"
  by (induction rule: tcp_runs.induct)
    (simp_all add: tcp_resume_def got_header_def got_body_landed Let_def landed_at_fields split: option.split place.split)

lemma tcp_step_arrived: "tcp_step Capacity s s' \<Longrightarrow> prefix (T_Arrived s) (T_Arrived s')"
  by (induction rule: tcp_step.induct) (simp_all add: tcp_runs_arrived tcp_recv_def tcp_close_def)

lemma sole_driver: "inv_driver None False s \<Longrightarrow> i \<in> drivers None s \<Longrightarrow> drivers (Some i) s = {}" "inv_driver None False s \<Longrightarrow> i \<in> drivers None s \<Longrightarrow> T_Reading s"
  by (auto simp: inv_driver_def drivers_def)

lemma drivers_less: "drivers (Some i) s \<subseteq> drivers None s"
  by (auto simp: drivers_def)

text \<open>The header a driver reads is that of the next frame.\<close>

lemma header_stands:
  assumes "tcp_inv None False s" and "sends Fs s" and "framed None Fs n s" and "T_At s i = Some AtHeader" and "tcp_kHeaderSize \<le> length (unread s)"
  obtains k l where "got_header i s = find_key i k l (s\<lparr>T_Read := T_Read s + 12\<rparr>)" and "stands Fs n (s\<lparr>T_Read := T_Read s + 12\<rparr>) (AtKey k l)"
proof -
  have "i \<in> drivers None s" using assms(4) by (simp add: drivers_def)
  then have r: "T_Read s = start Fs n" using assms(3,4) unfolding framed_def by force
  have l: "start Fs n + 12 \<le> length (T_Arrived s)" using assms(5) r by (simp add: unread_def tcp_kHeaderSize_def)
  then have n: "n < length Fs" using no_more [OF assms(2), of n] by simp
  let ?k = "fst (Fs ! n)" and ?bs = "snd (Fs ! n)" and ?s = "s\<lparr>T_Read := T_Read s + 12\<rparr>"
  have "take 12 (unread s) = take 12 (tcp_send ?k ?bs)" using arrived_at [OF assms(2) n, of 0 12] l by (simp add: unread_def r)
  then have h: "take 12 (unread s) = tcp_header ?k (of_nat (length ?bs))" by (simp add: tcp_send_def tcp_header_def)
  have len: "length ?bs < 2 ^ 32" using assms(2) n by (simp add: sends_def)
  have "got_header i s = find_key i ?k (of_nat (length ?bs)) ?s"
    unfolding got_header_def Let_def tcp_kHeaderSize_def h by (simp add: tcp_header_def le_word_le_bytes)
  moreover have "stands Fs n ?s (AtKey ?k (of_nat (length ?bs)))" using n r len by (simp add: unat_of_nat_small)
  ultimately show ?thesis by (rule that)
qed

lemma framed_runs:
  assumes "tcp_runs s s'" and "tcp_inv None False s" and "sends Fs s" and "framed None Fs n s"
  shows "\<exists>n'. framed None Fs n' s'"
  using assms(1)
proof cases
  case (runs i)
  note v = tcp_invD [OF assms(2)]
  let ?s = "s\<lparr>T_Scheduled := remove1 i (T_Scheduled s)\<rparr>"
  have f: "framed (Some i) Fs n ?s" by (rule framed_cong [OF assms(4)]) (use drivers_less sets_same(2) [of ?s s "Some i"] in simp_all)
  have p: "i \<in> parked None s" using v(3) runs(2) unfolding inv_queues_def by auto
  consider "T_At s i = Some Asleep" | k l where "T_At s i = Some (AtKey k l)" using p by (auto simp: parked_def)
  then show ?thesis
  proof cases
    case 1
    then show ?thesis using framed_recv_loop [OF f] by (auto simp: runs(1) tcp_resume_def)
  next
    case 2
    then have "i \<in> drivers None s" by (simp add: drivers_def)
    then have "stands Fs n s (AtKey k l)" using assms(4) 2 unfolding framed_def by force
    moreover have "inv_posted None ?s" using v(1) sets_same(3) [of ?s s None] by (simp add: inv_posted_def)
    ultimately show ?thesis using framed_find_key [OF f, of None k l] 2 by (auto simp: runs(1) tcp_resume_def)
  qed
next
  case (header i)
  note v = tcp_invD [OF assms(2)]
  let ?s = "s\<lparr>T_Read := T_Read s + 12\<rparr>"
  obtain k l where kl: "got_header i s = find_key i k l ?s" "stands Fs n ?s (AtKey k l)" by (rule header_stands [OF assms(2-4) header(2,4)])
  have "i \<in> drivers None s" using header(2) by (simp add: drivers_def)
  note d = sole_driver [OF v(2) this]
  have "framed (Some i) Fs n ?s" using assms(4) d sets_same(2) [of ?s s "Some i"] by (simp add: framed_def)
  moreover have "inv_posted None ?s" using v(1) sets_same(3) [of ?s s None] by (simp add: inv_posted_def)
  ultimately have "framed None Fs n (got_header i s)" unfolding kl(1) using kl(2) by (rule framed_find_key)
  then show ?thesis using header(1) by blast
next
  case (body i t l)
  note v = tcp_invD [OF assms(2)]
  have i: "i \<in> drivers None s" using body(2) by (simp add: drivers_def)
  then have st: "stands Fs n s (AtBody t l)" using assms(4) body(2) unfolding framed_def by force
  have p: "T_Posted s t \<noteq> None" using v(5) body(2) unfolding inv_over_def by blast
  note d = sole_driver [OF v(2) i]
  have "framed (Some i) Fs n s" by (rule framed_cong [OF assms(4)]) (use drivers_less in simp_all)
  note l = framed_landed [OF this assms(3) d(1) st p body(4) v(6) d(2)]
  have "framed None Fs (Suc n) (tcp_goto i AtHeader (landed_at i t l s))" using l by (intro framed_goto) simp_all
  then show ?thesis using framed_driven(1) [OF l] by (auto simp: body(1) got_body_landed Let_def)
qed

lemma framed_post:
  assumes "framed None Fs n s" and "T_Posted s i = None" and "inv_over None s" and "T_At s i = None" and "\<not> PR_Done P"
  shows "framed (Some i) Fs n (s\<lparr>T_Waiting := W, T_Posted := (T_Posted s)(i \<mapsto> P)\<rparr>)" (is "framed _ _ _ ?s")
proof -
  have d: "drivers (Some i) ?s = drivers None s" using assms(4) by (auto simp: drivers_def)
  have "stands Fs n ?s (the (T_At s j))" if j: "j \<in> drivers None s" for j
  proof -
    have st: "stands Fs n s (the (T_At s j))" using assms(1) j unfolding framed_def by blast
    consider "T_At s j = Some AtHeader" | k l where "T_At s j = Some (AtKey k l)" | t l where "T_At s j = Some (AtBody t l)" using j by (auto simp: drivers_def)
    then show ?thesis
    proof cases
      case 3
      then have "T_Posted s t \<noteq> None" using assms(3) unfolding inv_over_def by blast
      then have "t \<noteq> i" using assms(2) by metis
      then show ?thesis using st 3 by (simp add: key_of_def)
    qed (use st in simp_all)
  qed
  moreover have "handed_out Fs n ((T_Posted s)(i \<mapsto> P))"
  proof -
    have h: "handed_out Fs n (T_Posted s)" using assms(1) by (simp add: framed_def)
    have "\<exists>j R. ((T_Posted s)(i \<mapsto> P)) j = Some R \<and> PR_Done R \<and> PR_Key R = fst (Fs ! m)" if "m < n" for m
      using h that assms(2) unfolding handed_out_def by (metis fun_upd_apply option.discI)
    then show ?thesis using h assms(5) unfolding handed_out_def by auto
  qed
  ultimately show ?thesis using assms(1) unfolding framed_def d by auto
qed

lemma framed_step:
  assumes "tcp_step Capacity s s'" and "tcp_inv None False s" and "sends Fs s" and "framed None Fs n s"
  shows "\<exists>n'. framed None Fs n' s'"
  using assms(1)
proof cases
  case inside
  then show ?thesis using framed_runs assms(2-4) by blast
next
  case (posts i Key Length)
  note v = tcp_invD [OF assms(2)]
  let ?P = "\<lparr>PR_Key = Key, PR_Room = Length, PR_Bytes = [], PR_Done = False\<rparr>"
  have p: "T_Posted s i = None" using v(5) posts(2) unfolding inv_over_def by blast
  have refused: "framed None Fs n (tcp_goto i (Over x) s)" for x
    by (rule framed_goto, rule framed_cong [OF assms(4)]) (use drivers_less in simp_all)
  have "framed (Some i) Fs n (s\<lparr>T_Waiting := (T_Waiting s)(Key \<mapsto> i), T_Posted := (T_Posted s)(i \<mapsto> ?P)\<rparr>)"
    by (rule framed_post [OF assms(4) p v(5) posts(2)]) simp
  then have "framed None Fs n (tcp_recv Capacity i Key Length s)" using framed_recv_loop [OF framed_wake] refused by (simp add: tcp_recv_def)
  then show ?thesis using posts(1) by blast
next
  case (arrives bs)
  have "framed None Fs n s'" unfolding arrives by (rule framed_cong [OF assms(4)]) (simp_all add: drivers_def)
  then show ?thesis by blast
next
  case (read_fails i Theirs Length Why)
  have "framed (Some i) Fs n s" by (rule framed_cong [OF assms(4)]) (use drivers_less in simp_all)
  then show ?thesis using framed_driven(2) read_fails(1,3) by blast
next
  case closes
  have "framed None Fs n s'" unfolding closes by (rule framed_cong [OF assms(4)]) (simp_all add: tcp_close_def wakeReaders_def drivers_def)
  then show ?thesis by blast
qed

lemma reachable_framed:
  assumes "(tcp_step Capacity)\<^sup>*\<^sup>* TcpChannel_new s" and "sends Fs s"
  shows "tcp_inv None False s \<and> (\<exists>n. framed None Fs n s)"
  using assms
proof (induction rule: rtranclp_induct)
  case base
  have "framed None Fs 0 TcpChannel_new" by (simp add: framed_def drivers_def TcpChannel_new_def start_def wire_def handed_out_def)
  then show ?case using new_inv by blast
next
  case (step s s')
  then show ?case using framed_step [OF step(2)] tcp_step_inv [OF step(2)] sends_back [OF step.prems tcp_step_arrived [OF step(2)]] by blast
qed

section \<open>Nobody sleeps beside an idle socket\<close>

lemma actives_None: "i \<in> actives None s \<longleftrightarrow> (\<exists>a. T_At s i = Some a \<and> (\<forall>x. a \<noteq> Over x))"
proof
  assume "\<exists>a. T_At s i = Some a \<and> (\<forall>x. a \<noteq> Over x)"
  then obtain a where "T_At s i = Some a" "\<forall>x. a \<noteq> Over x" by blast
  then show "i \<in> actives None s" by (cases a) (simp_all add: tcp_sets)
qed (auto simp: tcp_sets)

text \<open>When nothing runs any more, nobody has failed and all frames are there, every receive whose frame was sent has returned.\<close>

lemma quiet_received:
  assumes "tcp_inv None False s" and "framed None Fs n s" and "sends Fs s" and "T_Arrived s = wire Fs" and "T_Open s" and "T_Failure s = []"
    and "\<forall>s'. \<not> tcp_runs s s'" and "\<forall>f \<in> set Fs. \<exists>j P. T_Posted s j = Some P \<and> PR_Key P = fst f"
    and "\<forall>j k P R. T_Posted s j = Some P \<and> T_Posted s k = Some R \<and> PR_Key P = PR_Key R \<longrightarrow> j = k"
    and "T_Posted s i = Some P" and "PR_Key P \<in> fst ` set Fs"
  shows "T_At s i = Some (Over (Inr ()))"
proof (rule ccontr)
  assume no: "T_At s i \<noteq> Some (Over (Inr ()))"
  note v = tcp_invD [OF assms(1)]
  have over: "T_At s j = Some (Over (Inr ())) \<or> j \<in> actives None s" if j: "T_Posted s j \<noteq> None" for j
  proof -
    obtain a where a: "T_At s j = Some a" using v(5) j unfolding inv_over_def by (metis not_None_eq option.distinct(1))
    show ?thesis
    proof (cases a)
      case (Over x)
      then have "x = Inr ()" using v(5) a j assms(6) unfolding inv_over_def by (cases x) auto
      then show ?thesis using a Over by simp
    qed (use a actives_None in blast)+
  qed
  have quiet: "T_Scheduled s = []" using assms(7) runs by (metis list.set_intros(1) list.exhaust)
  have i: "i \<in> actives None s" using over [of i] assms(10) no by auto
  have reading: "T_Reading s"
  proof (rule ccontr)
    assume nr: "\<not> T_Reading s"
    then have "drivers None s = {}" using v(2) unfolding inv_driver_def by blast
    then have "T_At s i = Some Asleep" using i by (auto simp: tcp_sets)
    moreover from this have "i \<in> set (T_Idlers s)" using v(3) quiet unfolding inv_queues_def by (auto simp: parked_def)
    ultimately show False using v(4) nr unfolding inv_idle_def by blast
  qed
  then obtain d where d: "d \<in> drivers None s" using v(2) unfolding inv_driver_def by blast
  have st: "stands Fs n s (the (T_At s d))" using assms(2) d unfolding framed_def by blast
  have h: "handed_out Fs n (T_Posted s)" using assms(2) by (simp add: framed_def)
  have dist: "distinct (map fst Fs)" using assms(3) by (simp add: sends_def)
  have nle: "n \<le> length Fs" using h by (simp add: handed_out_def)
  consider "T_At s d = Some AtHeader" | k l where "T_At s d = Some (AtKey k l)" | t l where "T_At s d = Some (AtBody t l)" using d by (auto simp: drivers_def)
  then show False
  proof cases
    case 1
    then have r: "T_Read s = start Fs n" using st by simp
    have "n = length Fs"
    proof (rule ccontr)
      assume "n \<noteq> length Fs"
      then have "n < length Fs" using nle by simp
      then have "start Fs n + 12 \<le> length (wire Fs)" using wire_split [of n Fs] by (metis (no_types, lifting) le_add1 length_append length_tcp_send start_def add.assoc)
      then have "12 \<le> length (wire Fs) - start Fs n" by linarith
      then show False using header [OF 1 assms(5)] assms(4,7) r by (simp add: unread_def tcp_kHeaderSize_def)
    qed
    then obtain m where m: "m < n" "fst (Fs ! m) = PR_Key P" using assms(11) by (auto simp: in_set_conv_nth)
    then obtain j R where "T_Posted s j = Some R" "PR_Done R" "PR_Key R = PR_Key P" using h unfolding handed_out_def by metis
    then have di: "tcp_done i s" using assms(9,10) by (metis option.sel tcp_done_def)
    then have "i \<notin> drivers None s" using v(2) unfolding inv_driver_def by blast
    then have "T_At s i = Some Asleep" using i by (auto simp: tcp_sets)
    moreover from this have "i \<in> set (T_Idlers s)" using v(3) quiet unfolding inv_queues_def by (auto simp: parked_def)
    ultimately show False using v(4) di unfolding inv_idle_def by blast
  next
    case 2
    then have k: "n < length Fs" "k = fst (Fs ! n)" using st by simp_all
    have "d \<in> set (T_Idlers s)" using v(3) quiet 2 unfolding inv_queues_def by (auto simp: parked_def)
    then have w: "T_Waiting s k = None" using v(4) 2 unfolding inv_idle_def by blast
    obtain j R where j: "T_Posted s j = Some R" "PR_Key R = k" using assms(8) k nth_mem by metis
    have "j \<notin> actives None s" using posted_waits [OF v(1), of j k] j w by (auto simp: key_of_def)
    then have "T_At s j = Some (Over (Inr ()))" using over [of j] j(1) by auto
    then have "tcp_done j s" using v(5) unfolding inv_over_def by blast
    then have "PR_Done R" using j(1) by (simp add: tcp_done_def)
    then obtain m where "m < n" "Fs ! m = (PR_Key R, PR_Bytes R)" using h j(1) unfolding handed_out_def by blast
    then have "m < length (map fst Fs)" "m \<noteq> n" "map fst Fs ! m = map fst Fs ! n" using k j(2) by simp_all
    then show False using dist k(1) nth_eq_iff_index_eq [of "map fst Fs" m n] by simp
  next
    case 3
    then have n: "n < length Fs" "T_Read s = start Fs n + 12" "unat l = length (snd (Fs ! n))" using st by simp_all
    have "length (wire Fs) = start Fs n + (12 + length (snd (Fs ! n))) + length (wire (drop (Suc n) Fs))"
      unfolding wire_split [OF n(1)] by (simp add: start_def length_tcp_send)
    then have "unat l \<le> length (unread s)" using assms(4) n(2,3) by (simp add: unread_def)
    then show False using body [OF 3 assms(5)] assms(7) by blast
  qed
qed

text \<open>The loop comes to rest by itself: each run returns a receive, reads bytes, ends a frame or empties the queue.\<close>

definition phase :: "TcpChannel \<Rightarrow> nat" where
  "phase s = (if \<exists>i k l. T_At s i = Some (AtKey k l) then 2 else if \<exists>i t l. T_At s i = Some (AtBody t l) then 1 else 0)"

definition work :: "(TcpChannel \<times> TcpChannel) set" where
  "work = inv_image (less_than <*lex*> less_than <*lex*> less_than <*lex*> less_than)
     (\<lambda>s. (card (actives None s), length (unread s), phase s, length (T_Scheduled s)))"

lemma wf_work: "wf work"
  by (auto simp: work_def)

lemma workI:
  assumes "card (actives None s') \<le> card (actives None s)"
    and "card (actives None s') = card (actives None s) \<Longrightarrow> length (unread s') \<le> length (unread s) \<and>
      (length (unread s') = length (unread s) \<longrightarrow> phase s' < phase s \<or> phase s' = phase s \<and> length (T_Scheduled s') < length (T_Scheduled s))"
  shows "(s', s) \<in> work"
  using assms by (force simp: work_def)

lemma actives_moved:
  assumes "T_At s' = (T_At s)(i \<mapsto> a)" and "i \<in> actives None s"
  shows "actives None s' = (if \<exists>x. a = Over x then actives None s - {i} else actives None s)"
  using assms by (auto simp: actives_None split: if_splits)

lemma finite_actives: "tcp_inv None False s \<Longrightarrow> finite (actives None s)"
  by (rule finite_subset [of _ "{i. T_At s i \<noteq> None}"]) (auto simp: actives_None tcp_inv_def)

lemma work_return:
  assumes "tcp_inv None False s" and "i \<in> actives None s" and "T_At s' = (T_At s)(i \<mapsto> Over x)"
  shows "(s', s) \<in> work"
proof -
  have "card (actives None s') < card (actives None s)"
    using actives_moved [OF assms(3,2)] card_Diff1_less [OF finite_actives [OF assms(1)] assms(2)] by simp
  then show ?thesis by (intro workI) simp_all
qed

lemma work_moved:
  assumes "i \<in> actives None s" and "T_At s' = (T_At s)(i \<mapsto> a)" and "\<forall>x. a \<noteq> Over x" and "length (unread s') \<le> length (unread s)"
    and "length (unread s') = length (unread s) \<Longrightarrow> phase s' < phase s \<or> phase s' = phase s \<and> length (T_Scheduled s') < length (T_Scheduled s)"
  shows "(s', s) \<in> work"
  using actives_moved [OF assms(2,1)] assms(3-5) by (intro workI) simp_all

lemma phase_cong: "T_At s' = (T_At s)(i \<mapsto> a) \<Longrightarrow> T_At s i = Some b \<Longrightarrow> (\<exists>k l. a = AtKey k l) = (\<exists>k l. b = AtKey k l) \<Longrightarrow> (\<exists>t l. a = AtBody t l) = (\<exists>t l. b = AtBody t l) \<Longrightarrow> phase s' = phase s"
  unfolding phase_def by (smt (verit, ccfv_threshold) fun_upd_apply option.inject)

lemma same_move: "f(i \<mapsto> b) = f(i \<mapsto> a) \<longleftrightarrow> b = a"
  by (auto dest: map_upd_eqD1)

lemma recv_loop_moves:
  "\<exists>a. T_At (recv_loop i s) = (T_At s)(i \<mapsto> a) \<and> unread (recv_loop i s) = unread s \<and>
     ((\<exists>x. a = Over x) \<or> (a = AtHeader \<or> a = Asleep) \<and> T_Scheduled (recv_loop i s) = T_Scheduled s)"
  by (simp add: recv_loop_def recv_return_def tcp_goto_def idle_def unread_def same_move)

lemma driven_moves:
  "T_At (driven i (Inl e) s) = (T_At s)(i \<mapsto> Over (Inl e))" "tcp_done i s \<Longrightarrow> T_At (driven i (Inr ()) s) = (T_At s)(i \<mapsto> Over (Inr ()))"
  by (auto simp: driven_def Let_def recv_loop_def recv_return_def tcp_goto_def tcp_done_def)

lemma find_key_moves:
  "\<exists>a. T_At (find_key i k l s) = (T_At s)(i \<mapsto> a) \<and>
     ((\<exists>x. a = Over x) \<or> (a = AtKey k l \<or> (\<exists>t. a = AtBody t l)) \<and> unread (find_key i k l s) = unread s \<and> T_Scheduled (find_key i k l s) = T_Scheduled s)"
  by (simp add: find_key_def Let_def tcp_goto_def idle_def unread_def failMessage_def fail_def tcp_fail_def driven_moves same_move split: option.split)

lemma sole_phase:
  assumes "\<forall>j. j \<noteq> i \<longrightarrow> (\<forall>k l. T_At s j \<noteq> Some (AtKey k l)) \<and> (\<forall>t l. T_At s j \<noteq> Some (AtBody t l))" and "T_At s i = Some a"
  shows "phase s = (case a of AtKey k l \<Rightarrow> 2 | AtBody t l \<Rightarrow> 1 | _ \<Rightarrow> 0)"
proof -
  have "(\<exists>j k l. T_At s j = Some (AtKey k l)) \<longleftrightarrow> (\<exists>k l. a = AtKey k l)" "(\<exists>j t l. T_At s j = Some (AtBody t l)) \<longleftrightarrow> (\<exists>t l. a = AtBody t l)"
    using assms by (metis option.inject)+
  then show ?thesis by (cases a) (simp_all add: phase_def)
qed

lemma driver_phase:
  assumes "inv_driver None False s" and "i \<in> drivers None s" and "T_At s i = Some b" and "T_At s' = (T_At s)(i \<mapsto> a)"
  shows "phase s' = (case a of AtKey k l \<Rightarrow> 2 | AtBody t l \<Rightarrow> 1 | _ \<Rightarrow> 0)" and "phase s = (case b of AtKey k l \<Rightarrow> 2 | AtBody t l \<Rightarrow> 1 | _ \<Rightarrow> 0)"
proof -
  have u: "\<forall>j. j \<noteq> i \<longrightarrow> (\<forall>k l. T_At s j \<noteq> Some (AtKey k l)) \<and> (\<forall>t l. T_At s j \<noteq> Some (AtBody t l))"
    using sole_driver(1) [OF assms(1,2)] by (auto simp: drivers_def)
  show "phase s = (case b of AtKey k l \<Rightarrow> 2 | AtBody t l \<Rightarrow> 1 | _ \<Rightarrow> 0)" by (rule sole_phase [OF u assms(3)])
  show "phase s' = (case a of AtKey k l \<Rightarrow> 2 | AtBody t l \<Rightarrow> 1 | _ \<Rightarrow> 0)" by (rule sole_phase [of i]) (use u assms(4) in simp_all)
qed

lemma tcp_runs_work:
  assumes "tcp_runs s s'" and "tcp_inv None False s"
  shows "(s', s) \<in> work"
  using assms(1)
proof cases
  case (runs i)
  note v = tcp_invD [OF assms(2)]
  let ?s = "s\<lparr>T_Scheduled := remove1 i (T_Scheduled s)\<rparr>"
  have p: "i \<in> parked None s" using v(3) runs(2) unfolding inv_queues_def by auto
  then have act: "i \<in> actives None s" by (simp add: actives_def)
  have q: "length (T_Scheduled ?s) < length (T_Scheduled s)" using length_pos_if_in_set [OF runs(2)] runs(2) by (simp add: length_remove1)
  consider "T_At s i = Some Asleep" | k l where "T_At s i = Some (AtKey k l)" using p by (auto simp: parked_def)
  then show ?thesis
  proof cases
    case 1
    then have s': "s' = recv_loop i ?s" by (simp add: runs(1) tcp_resume_def)
    obtain a where a: "T_At s' = (T_At s)(i \<mapsto> a)" "unread s' = unread s" "(\<exists>x. a = Over x) \<or> (a = AtHeader \<or> a = Asleep) \<and> T_Scheduled s' = T_Scheduled ?s"
      using recv_loop_moves [of i ?s] unfolding s' by (auto simp: unread_def)
    show ?thesis
    proof (cases "\<exists>x. a = Over x")
      case True
      then show ?thesis using work_return [OF assms(2) act] a(1) by blast
    next
      case False
      have "phase s' = phase s" by (rule phase_cong [OF a(1) 1]) (use a(3) False in auto)
      then show ?thesis using work_moved [OF act a(1)] a(2,3) False q by auto
    qed
  next
    case 2
    then have s': "s' = find_key i k l ?s" by (simp add: runs(1) tcp_resume_def)
    obtain a where a: "T_At s' = (T_At s)(i \<mapsto> a)"
      "(\<exists>x. a = Over x) \<or> (a = AtKey k l \<or> (\<exists>t. a = AtBody t l)) \<and> unread s' = unread s \<and> T_Scheduled s' = T_Scheduled ?s"
      using find_key_moves [of i k l ?s] unfolding s' by (auto simp: unread_def)
    have "i \<in> drivers None s" using 2 by (simp add: drivers_def)
    note ph = driver_phase [OF v(2) this 2 a(1)]
    show ?thesis
    proof (cases "\<exists>x. a = Over x")
      case True
      then show ?thesis using work_return [OF assms(2) act] a(1) by blast
    next
      case False
      then show ?thesis using work_moved [OF act a(1)] a(2) ph q by auto
    qed
  qed
next
  case (header i)
  let ?s = "s\<lparr>T_Read := T_Read s + tcp_kHeaderSize\<rparr>"
  obtain k l where s': "s' = find_key i k l ?s" by (simp add: header(1) got_header_def Let_def)
  obtain a where a: "T_At s' = (T_At s)(i \<mapsto> a)" "(\<exists>x. a = Over x) \<or> (a = AtKey k l \<or> (\<exists>t. a = AtBody t l)) \<and> unread s' = unread ?s"
    using find_key_moves [of i k l ?s] unfolding s' by auto
  have act: "i \<in> actives None s" using header(2) by (simp add: actives_None)
  have "length (unread ?s) < length (unread s)" using header(4) by (simp add: unread_def tcp_kHeaderSize_def)
  then show ?thesis using work_return [OF assms(2) act] work_moved [OF act a(1)] a by (cases "\<exists>x. a = Over x") auto
next
  case (body i t l)
  let ?s = "landed_at i t l s"
  note v = tcp_invD [OF assms(2)] and f = landed_at_fields [where i = i and t = t and l = l and s = s]
  have d: "i \<in> drivers None s" and act: "i \<in> actives None s" using body(2) by (simp_all add: drivers_def actives_None)
  show ?thesis
  proof (cases "tcp_done i ?s")
    case True
    then show ?thesis using work_return [OF assms(2) act, of s' "Inr ()"] driven_moves(2) [OF True] f(1) by (simp add: body(1) got_body_landed Let_def)
  next
    case False
    then have s': "s' = tcp_goto i AtHeader ?s" by (simp add: body(1) got_body_landed Let_def)
    have a: "T_At s' = (T_At s)(i \<mapsto> AtHeader)" by (simp add: s' tcp_goto_def f)
    have "length (unread s') \<le> length (unread s)" by (simp add: s' tcp_goto_def unread_def f)
    then show ?thesis using work_moved [OF act a] driver_phase [OF v(2) d body(2) a] by simp
  qed
qed

text \<open>What the loop leaves alone: who posted what, and that nothing failed, as long as the receives ask for what is sent.\<close>

definition asked :: "(nat \<rightharpoonup> PostedRecv) \<Rightarrow> nat \<Rightarrow> (u64 \<times> nat) option" where
  "asked Ps j = map_option (\<lambda>P. (PR_Key P, PR_Room P)) (Ps j)"

lemma same_posted [simp]:
  "T_Posted (tcp_goto i a s) = T_Posted s" "T_Posted (idle i s) = T_Posted s" "T_Posted (recv_return i x s) = T_Posted s" "T_Posted (tcp_fail Why s) = T_Posted s"
  "T_Open (tcp_goto i a s) = T_Open s" "T_Open (idle i s) = T_Open s" "T_Open (recv_return i x s) = T_Open s" "T_Open (tcp_fail Why s) = T_Open s"
  "T_Failure (tcp_goto i a s) = T_Failure s" "T_Failure (idle i s) = T_Failure s" "T_Failure (recv_return i x s) = T_Failure s"
  by (simp_all add: tcp_goto_def idle_def recv_return_def tcp_fail_def)

lemma same_loop [simp]:
  "T_Posted (recv_loop i s) = T_Posted s" "T_Open (recv_loop i s) = T_Open s" "T_Failure (recv_loop i s) = T_Failure s"
  "T_Posted (driven i x s) = T_Posted s" "T_Open (driven i x s) = T_Open s" "T_Failure (driven i x s) = T_Failure s"
  by (simp_all add: recv_loop_def driven_def Let_def split: sum.split)

lemma find_key_same:
  "T_Posted (find_key i k l s) = T_Posted s" "T_Open (find_key i k l s) = T_Open s"
  "(\<And>t. T_Waiting s k = Some t \<Longrightarrow> unat l = PR_Room (the (T_Posted s t))) \<Longrightarrow> T_Failure (find_key i k l s) = T_Failure s"
  by (simp_all add: find_key_def Let_def split: option.split)

text \<open>Every frame has a receive of its size, and only one receive asks for a key.\<close>

definition all_asked :: "(u64 \<times> byte list) list \<Rightarrow> (nat \<rightharpoonup> PostedRecv) \<Rightarrow> bool" where
  "all_asked Fs Ps \<longleftrightarrow>
     (\<forall>f \<in> set Fs. \<exists>j. asked Ps j = Some (fst f, length (snd f))) \<and>
     (\<forall>j k a b. asked Ps j = Some a \<and> asked Ps k = Some b \<and> fst a = fst b \<longrightarrow> j = k)"

lemma asked_key: "asked Ps j = Some (k, l) \<Longrightarrow> key_of Ps j = Some k"
  by (auto simp: asked_def key_of_def)

lemma find_key_fits:
  assumes "all_asked Fs (T_Posted s)" and "inv_posted r s" and "stands Fs n s (AtKey k l)" and "T_Waiting s k = Some t"
  shows "unat l = PR_Room (the (T_Posted s t))"
proof -
  obtain P where P: "T_Posted s t = Some P" "PR_Key P = k" using assms(2,4) unfolding inv_posted_def by (auto simp: key_of_def)
  have f: "Fs ! n \<in> set Fs" "fst (Fs ! n) = k" "unat l = length (snd (Fs ! n))" using assms(3) by simp_all
  then obtain j where j: "asked (T_Posted s) j = Some (k, unat l)" using assms(1) unfolding all_asked_def by metis
  have "asked (T_Posted s) t = Some (k, PR_Room P)" using P by (simp add: asked_def)
  then show ?thesis using j P assms(1) unfolding all_asked_def by (metis fst_conv option.inject option.sel snd_conv)
qed

lemma tcp_runs_same:
  assumes "tcp_runs s s'" and "tcp_inv None False s" and "sends Fs s" and "framed None Fs n s" and "all_asked Fs (T_Posted s)"
  shows "asked (T_Posted s') = asked (T_Posted s) \<and> T_Open s' = T_Open s \<and> T_Failure s' = T_Failure s"
  using assms(1)
proof cases
  case (runs i)
  note v = tcp_invD [OF assms(2)]
  let ?s = "s\<lparr>T_Scheduled := remove1 i (T_Scheduled s)\<rparr>"
  have p: "i \<in> parked None s" using v(3) runs(2) unfolding inv_queues_def by auto
  consider "T_At s i = Some Asleep" | k l where "T_At s i = Some (AtKey k l)" using p by (auto simp: parked_def)
  then show ?thesis
  proof cases
    case 1
    then show ?thesis by (simp add: runs(1) tcp_resume_def)
  next
    case 2
    then have "i \<in> drivers None s" by (simp add: drivers_def)
    then have "stands Fs n s (AtKey k l)" using assms(4) 2 unfolding framed_def by force
    note fits = find_key_fits [OF assms(5) v(1) this]
    have "T_Failure (find_key i k l ?s) = T_Failure ?s" by (rule find_key_same(3)) (use fits in simp)
    then show ?thesis using 2 by (simp add: runs(1) tcp_resume_def find_key_same)
  qed
next
  case (header i)
  let ?s = "s\<lparr>T_Read := T_Read s + 12\<rparr>"
  obtain k l where kl: "got_header i s = find_key i k l ?s" "stands Fs n ?s (AtKey k l)" by (rule header_stands [OF assms(2-4) header(2,4)])
  have "inv_posted None ?s" using tcp_invD(1) [OF assms(2)] sets_same(3) [of ?s s None] by (simp add: inv_posted_def)
  note fits = find_key_fits [OF _ this kl(2)]
  have "T_Failure (find_key i k l ?s) = T_Failure ?s" by (rule find_key_same(3)) (use fits assms(5) in simp)
  then show ?thesis by (simp add: header(1) kl(1) find_key_same)
next
  case (body i t l)
  have p: "T_Posted s t \<noteq> None" using tcp_invD(5) [OF assms(2)] body(2) unfolding inv_over_def by blast
  have "asked (T_Posted (landed_at i t l s)) = asked (T_Posted s)" using p by (auto simp: landed_at_fields asked_def fun_eq_iff)
  then show ?thesis by (simp add: body(1) got_body_landed Let_def landed_at_fields)
qed

text \<open>Runs keep everything the last step needs.\<close>

lemma runs_ready:
  assumes "tcp_runs\<^sup>*\<^sup>* s s'" and "tcp_inv None False s" and "sends Fs s" and "framed None Fs n s" and "all_asked Fs (T_Posted s)"
  shows "tcp_inv None False s' \<and> sends Fs s' \<and> (\<exists>n. framed None Fs n s') \<and> asked (T_Posted s') = asked (T_Posted s) \<and>
    T_Open s' = T_Open s \<and> T_Failure s' = T_Failure s \<and> T_Arrived s' = T_Arrived s"
  using assms(1)
proof (induction rule: rtranclp_induct)
  case base
  then show ?case using assms(2-4) by blast
next
  case (step t t')
  then obtain n where n: "framed None Fs n t" by blast
  have i: "tcp_inv None False t" "sends Fs t" using step.IH by blast+
  have a: "all_asked Fs (T_Posted t)" using assms(5) step.IH by (simp add: all_asked_def)
  have ar: "T_Arrived t' = T_Arrived t" by (rule tcp_runs_arrived [OF step(2)])
  then have "sends Fs t'" using i(2) by (simp add: sends_def)
  then show ?case
    using ar tcp_runs_same [OF step(2) i n a] tcp_runs_inv [OF step(2) i(1)] framed_runs [OF step(2) i n] step.IH by simp
qed

lemma no_endless_runs:
  assumes "tcp_inv None False (f 0)"
  shows "\<not> (\<forall>n. tcp_runs (f n) (f (Suc n)))"
proof
  assume r: "\<forall>n. tcp_runs (f n) (f (Suc n))"
  have "tcp_inv None False (f n)" for n by (induction n) (use assms r tcp_runs_inv in blast)+
  then have "(f (Suc n), f n) \<in> work" for n using tcp_runs_work r by blast
  then show False using wf_work unfolding wf_iff_no_infinite_down_chain by blast
qed

section \<open>A channel at work\<close>

text \<open>A channel with two receives posted and the frame of the second first on the wire.\<close>

definition two_posted :: TcpChannel where
  "two_posted = (tcp_recv 8 1 9 1 (tcp_recv 8 0 7 2 TcpChannel_new))\<lparr>T_Arrived := wire [(9, [3]), (7, [1, 2])]\<rparr>"

lemmas tcp_ops = tcp_recv_def recv_loop_def recv_return_def driven_def tcp_goto_def idle_def tcp_done_def wakeReaders_def TcpChannel_new_def

lemma two_posted_reached: "(tcp_step 8)\<^sup>*\<^sup>* TcpChannel_new two_posted"
proof -
  let ?a = "tcp_recv 8 0 7 2 TcpChannel_new"
  have "tcp_step 8 TcpChannel_new ?a" by (rule posts) (simp add: TcpChannel_new_def)
  moreover have "tcp_step 8 ?a (tcp_recv 8 1 9 1 ?a)" by (rule posts) (simp add: tcp_ops)
  moreover have "tcp_step 8 (tcp_recv 8 1 9 1 ?a) two_posted"
    using arrives [of 8 "tcp_recv 8 1 9 1 ?a" "wire [(9, [3]), (7, [1, 2])]"] by (simp add: two_posted_def) (simp add: tcp_ops)
  ultimately show ?thesis by (meson converse_rtranclp_into_rtranclp rtranclp.rtrancl_refl)
qed

lemma two_posted_state:
  "two_posted = \<lparr>T_Waiting = [7 \<mapsto> 0, 9 \<mapsto> 1],
     T_Posted = [0 \<mapsto> \<lparr>PR_Key = 7, PR_Room = 2, PR_Bytes = [], PR_Done = False\<rparr>, 1 \<mapsto> \<lparr>PR_Key = 9, PR_Room = 1, PR_Bytes = [], PR_Done = False\<rparr>],
     T_At = [0 \<mapsto> AtHeader, 1 \<mapsto> Asleep], T_Idlers = [1], T_Scheduled = [], T_Failure = [], T_Reading = True, T_Open = True,
     T_Arrived = wire [(9, [3]), (7, [1, 2])], T_Read = 0\<rparr>"
  by (simp add: two_posted_def tcp_ops)

lemma two_posted_asked: "all_asked [(9, [3]), (7, [1, 2])] (T_Posted two_posted)"
  by (auto simp: all_asked_def asked_def two_posted_state split: if_splits)

definition one_served :: TcpChannel where
  "one_served = tcp_resume 1 (got_body 0 1 1 (got_header 0 two_posted))"

lemma one_served_state: "T_At one_served 1 = Some (Over (Inr ()))" "T_Arrived one_served = wire [(9, [3]), (7, [1, 2])]"
  "T_Posted one_served 1 = Some \<lparr>PR_Key = 9, PR_Room = 1, PR_Bytes = [3], PR_Done = True\<rparr>"
  by code_simp+

lemma one_served_reached: "(tcp_step 8)\<^sup>*\<^sup>* TcpChannel_new one_served"
proof -
  have "tcp_runs two_posted (got_header 0 two_posted)" by (rule header) code_simp+
  moreover have "tcp_runs (got_header 0 two_posted) (got_body 0 1 1 (got_header 0 two_posted))" by (rule body) code_simp+
  moreover have "tcp_runs (got_body 0 1 1 (got_header 0 two_posted)) one_served" unfolding one_served_def by (rule runs) code_simp
  ultimately show ?thesis using two_posted_reached inside by (meson rtranclp.rtrancl_into_rtrancl)
qed

text \<open>Both receives served, nothing left to do.\<close>

definition all_served :: TcpChannel where
  "all_served = tcp_resume 1 (got_body 0 0 2 (got_header 0 (got_body 0 1 1 (got_header 0 two_posted))))"

lemma all_served_reached: "tcp_runs\<^sup>*\<^sup>* two_posted all_served"
proof -
  let ?a = "got_header 0 two_posted" and ?b = "got_body 0 1 1 (got_header 0 two_posted)"
  have "tcp_runs two_posted ?a" by (rule header) code_simp+
  moreover have "tcp_runs ?a ?b" by (rule body) code_simp+
  moreover have "tcp_runs ?b (got_header 0 ?b)" by (rule header) code_simp+
  moreover have "tcp_runs (got_header 0 ?b) (got_body 0 0 2 (got_header 0 ?b))" by (rule body) code_simp+
  moreover have "tcp_runs (got_body 0 0 2 (got_header 0 ?b)) all_served" unfolding all_served_def by (rule runs) code_simp
  ultimately show ?thesis by (meson rtranclp.rtrancl_into_rtrancl rtranclp.rtrancl_refl)
qed

lemma all_served_quiet: "\<nexists>t. tcp_runs all_served t"
proof -
  have se: "sends [(9, [3]), (7, [1, 2])] two_posted" by (simp add: sends_def two_posted_state)
  then obtain n where n: "tcp_inv None False two_posted" "framed None [(9, [3]), (7, [1, 2])] n two_posted" using reachable_framed [OF two_posted_reached] by blast
  note r = runs_ready [OF all_served_reached n(1) se n(2) two_posted_asked]
  have q: "T_Scheduled all_served = []" "T_At all_served 0 = Some (Over (Inr ()))" "T_At all_served 1 = Some (Over (Inr ()))" by code_simp+
  have "T_At all_served i \<noteq> Some AtHeader \<and> T_At all_served i \<noteq> Some (AtBody t l)" for i t l
  proof (cases "T_Posted all_served i")
    case None
    then have "i \<notin> actives None all_served" using r unfolding tcp_inv_def inv_posted_def by blast
    then show ?thesis by (auto simp: actives_None)
  next
    case Some
    have "asked (T_Posted all_served) = asked (T_Posted two_posted)" using r by blast
    moreover have "asked (T_Posted all_served) i \<noteq> None" using Some by (simp add: asked_def)
    ultimately have "asked (T_Posted two_posted) i \<noteq> None" by simp
    then have "i = 0 \<or> i = 1" by (auto simp: two_posted_state asked_def split: if_splits)
    then show ?thesis using q by auto
  qed
  then show ?thesis using q(1) by (auto elim: tcp_runs.cases)
qed

section \<open>Every receive gets its payload\<close>

text \<open>
  C9. Every receive on a TCP data channel gets its own payload. Whatever receives are posted, when
  and in whatever order, however the stream is cut into arrivals, whoever reads the socket for the
  others and whatever fails: a receive that succeeds holds exactly the bytes that the peer sent under
  its key, as many as it asked for, if the peer sends each key once.
\<close>

theorem tcp_delivers:
  assumes "(tcp_step Capacity)\<^sup>*\<^sup>* TcpChannel_new s" and "prefix (T_Arrived s) (wire Fs)" and "distinct (map fst Fs)" and "\<forall>f \<in> set Fs. length (snd f) < 2 ^ 32"
    and "T_At s i = Some (Over (Inr ()))"
  shows "\<exists>P. T_Posted s i = Some P \<and> (PR_Key P, PR_Bytes P) \<in> set Fs \<and> length (PR_Bytes P) = PR_Room P"
proof -
  have "sends Fs s" using assms(2-4) by (simp add: sends_def)
  then obtain n where n: "tcp_inv None False s" "framed None Fs n s" using reachable_framed [OF assms(1)] by blast
  have "T_Posted s i \<noteq> None \<and> tcp_done i s" using tcp_invD(5) [OF n(1)] assms(5) unfolding inv_over_def by blast
  then obtain P where P: "T_Posted s i = Some P" "PR_Done P" by (auto simp: tcp_done_def)
  then obtain m where m: "m < n" "Fs ! m = (PR_Key P, PR_Bytes P)" "length (PR_Bytes P) = PR_Room P"
    using n(2) unfolding framed_def handed_out_def by blast
  moreover have "m < length Fs" using m(1) n(2) unfolding framed_def handed_out_def by linarith
  ultimately show ?thesis using P(1) by (metis nth_mem)
qed

theorem tcp_delivers_witness:
  "\<exists>P. T_Posted one_served 1 = Some P \<and> (PR_Key P, PR_Bytes P) \<in> set [(9, [3]), (7, [1, 2])] \<and> length (PR_Bytes P) = PR_Room P"
  by (rule tcp_delivers [OF one_served_reached]) (simp_all add: one_served_state [unfolded One_nat_def])

text \<open>
  C10. No receive on a TCP data channel is left waiting. Once every frame has arrived and every one
  has a receive of its size posted, the loop comes to rest after finitely many runs, whichever
  coroutine it runs first, and every receive of one of those frames has then returned its payload: no wakeup is lost and no
  receive sleeps while nobody reads the socket.
\<close>

theorem tcp_receives_all:
  assumes "(tcp_step Capacity)\<^sup>*\<^sup>* TcpChannel_new s" and "T_Arrived s = wire Fs" and "distinct (map fst Fs)" and "\<forall>f \<in> set Fs. length (snd f) < 2 ^ 32"
    and "T_Open s" and "T_Failure s = []" and "all_asked Fs (T_Posted s)" and "(Key, Buf) \<in> set Fs" and "asked (T_Posted s) i = Some (Key, length Buf)"
  shows "(\<nexists>f. f 0 = s \<and> (\<forall>n. tcp_runs (f n) (f (Suc n)))) \<and>
    (\<forall>s'. tcp_runs\<^sup>*\<^sup>* s s' \<and> (\<nexists>t. tcp_runs s' t) \<longrightarrow>
       T_At s' i = Some (Over (Inr ())) \<and> T_Posted s' i = Some \<lparr>PR_Key = Key, PR_Room = length Buf, PR_Bytes = Buf, PR_Done = True\<rparr>)"
proof -
  have se: "sends Fs s" using assms(2-4) by (simp add: sends_def)
  then obtain n where n: "tcp_inv None False s" "framed None Fs n s" using reachable_framed [OF assms(1)] by blast
  have "T_At s' i = Some (Over (Inr ())) \<and> T_Posted s' i = Some \<lparr>PR_Key = Key, PR_Room = length Buf, PR_Bytes = Buf, PR_Done = True\<rparr>"
    if runs: "tcp_runs\<^sup>*\<^sup>* s s'" "\<nexists>t. tcp_runs s' t" for s'
  proof -
    note r = runs_ready [OF runs(1) n(1) se n(2) assms(7)]
    then obtain m where m: "framed None Fs m s'" by blast
    have a: "all_asked Fs (T_Posted s')" "asked (T_Posted s') i = Some (Key, length Buf)" using assms(7,9) r by (simp_all add: all_asked_def)
    obtain P where P: "T_Posted s' i = Some P" "PR_Key P = Key" "PR_Room P = length Buf" using a(2) by (auto simp: asked_def)
    have posted: "\<forall>f \<in> set Fs. \<exists>j P. T_Posted s' j = Some P \<and> PR_Key P = fst f" using a(1) unfolding all_asked_def by (fastforce simp: asked_def)
    have one: "\<forall>j k P R. T_Posted s' j = Some P \<and> T_Posted s' k = Some R \<and> PR_Key P = PR_Key R \<longrightarrow> j = k" using a(1) unfolding all_asked_def by (fastforce simp: asked_def)
    have k: "PR_Key P \<in> fst ` set Fs" using P(2) assms(8) by force
    have over: "T_At s' i = Some (Over (Inr ()))"
      by (rule quiet_received [OF _ m _ _ _ _ _ posted one P(1) k]) (use r runs(2) assms(2,5,6) in simp_all)
    then have "PR_Done P" using r P(1) unfolding tcp_inv_def inv_over_def by (auto simp: tcp_done_def)
    then obtain q where q: "q < m" "Fs ! q = (PR_Key P, PR_Bytes P)" "m \<le> length Fs" using m P(1) unfolding framed_def handed_out_def by blast
    then have "(PR_Key P, PR_Bytes P) \<in> set Fs" by (metis less_le_trans nth_mem)
    then have "PR_Bytes P = Buf" using assms(3,8) P(2) by (metis eq_key_imp_eq_value)
    then show ?thesis using over P \<open>PR_Done P\<close> by simp
  qed
  moreover have "\<nexists>f. f 0 = s \<and> (\<forall>n. tcp_runs (f n) (f (Suc n)))" using no_endless_runs n(1) by blast
  ultimately show ?thesis by blast
qed

theorem tcp_receives_all_witness:
  "T_At all_served 0 = Some (Over (Inr ())) \<and> T_Posted all_served 0 = Some \<lparr>PR_Key = 7, PR_Room = length [1, 2 :: byte], PR_Bytes = [1, 2], PR_Done = True\<rparr>"
  using tcp_receives_all [OF two_posted_reached _ _ _ _ _ two_posted_asked, of 7 "[1, 2]" 0] all_served_reached all_served_quiet
  by (simp add: two_posted_state asked_def)

section \<open>Endpoints\<close>

lemma is_digit_decimal: "c \<in> set (decimal n) \<Longrightarrow> is_digit c \<and> c \<noteq> CHR '':''"
proof -
  assume "c \<in> set (decimal n)"
  then obtain d where d: "d < 10" "c = digit d" using set_decimal by auto
  then have "(of_char c :: nat) = 48 + d" using digit_of_char by simp
  then show ?thesis using d(1) by (auto simp: is_digit_def)
qed

text \<open>What \<^verbatim>\<open>listen\<close> reports, \<^verbatim>\<open>connect\<close> dials, whatever colons the address has.\<close>

theorem endpoint_round_trip:
  assumes "Port < 65536"
  shows "parse_endpoint Host (format_endpoint Address Port) = Inr (if Address = [] then Host else Address, Port)"
proof -
  let ?d = "decimal Port"
  have a: "rev (takeWhile (\<lambda>c. c \<noteq> CHR '':'') (rev (format_endpoint Address Port))) = ?d"
  proof -
    have "takeWhile (\<lambda>c. c \<noteq> CHR '':'') (rev ?d @ CHR '':'' # rev Address) = rev ?d"
      using is_digit_decimal by (simp add: takeWhile_tail takeWhile_eq_all_conv)
    then show ?thesis by (simp add: format_endpoint_def)
  qed
  have b: "takeWhile is_digit ?d = ?d" using is_digit_decimal by (simp add: takeWhile_eq_all_conv)
  have d: "?d \<noteq> []" by (simp add: decimal.simps [of Port])
  have c: "read_decimal ?d = Port" by (simp add: read_decimal_decimal)
  show ?thesis unfolding parse_endpoint_def from_chars16_def Let_def a b c using assms d by (simp add: format_endpoint_def)
qed

section \<open>A close that leaves a reader behind\<close>

text \<open>A frame for a key nobody has posted: its reader waits for the receive.\<close>

definition parked_on_key :: TcpChannel where
  "parked_on_key = got_header 0 ((tcp_recv 8 0 7 2 TcpChannel_new)\<lparr>T_Arrived := wire [(9, [3])]\<rparr>)"

lemma parked_on_key_reached: "(tcp_step 8)\<^sup>*\<^sup>* TcpChannel_new parked_on_key"
proof -
  let ?a = "tcp_recv 8 0 7 2 TcpChannel_new" and ?b = "(tcp_recv 8 0 7 2 TcpChannel_new)\<lparr>T_Arrived := wire [(9, [3])]\<rparr>"
  have "tcp_step 8 TcpChannel_new ?a" by (rule posts) (simp add: TcpChannel_new_def)
  moreover have "tcp_step 8 ?a ?b" using arrives [of 8 ?a "wire [(9, [3])]"] by (simp add: tcp_ops)
  moreover have "tcp_runs ?b parked_on_key" unfolding parked_on_key_def by (rule header) code_simp+
  ultimately show ?thesis using inside by (meson converse_rtranclp_into_rtranclp rtranclp.rtrancl_refl)
qed

lemma parked_on_key_state:
  "parked_on_key = \<lparr>T_Waiting = [7 \<mapsto> 0], T_Posted = [0 \<mapsto> \<lparr>PR_Key = 7, PR_Room = 2, PR_Bytes = [], PR_Done = False\<rparr>], T_At = [0 \<mapsto> AtKey 9 1],
     T_Idlers = [0], T_Scheduled = [], T_Failure = [], T_Reading = True, T_Open = True, T_Arrived = wire [(9, [3])], T_Read = 12\<rparr>"
proof -
  let ?s = "(tcp_recv 8 0 7 2 TcpChannel_new)\<lparr>T_Arrived := wire [(9, [3])]\<rparr>"
  have "(le_word (take 8 (take tcp_kHeaderSize (unread ?s))) :: u64) = 9" "(le_word (take 4 (drop 8 (take tcp_kHeaderSize (unread ?s)))) :: u32) = 1" by code_simp+
  then have "parked_on_key = find_key 0 9 1 (?s\<lparr>T_Read := T_Read ?s + tcp_kHeaderSize\<rparr>)" unfolding parked_on_key_def got_header_def Let_def by metis
  then show ?thesis by (simp add: find_key_def tcp_ops tcp_kHeaderSize_def)
qed

text \<open>
  Closing a TCP data channel may leave a receive behind. A receive that is reading the socket
  for the others and has read a frame whose key nobody has posted is woken by \<^verbatim>\<open>close\<close>, looks
  for the key alone and sleeps again: the channel is closed, nothing is left to run and the receive
  has not returned.
\<close>

theorem tcp_close_strands:
  "\<exists>s s' i. (tcp_step 8)\<^sup>*\<^sup>* TcpChannel_new s \<and> tcp_runs (tcp_close s) s' \<and> (\<nexists>t. tcp_runs s' t) \<and> T_Failure s' = ''channel closed'' \<and> i \<in> actives None s'"
proof -
  let ?s = "tcp_resume 0 (tcp_close parked_on_key)"
  have s: "T_At ?s = [0 \<mapsto> AtKey 9 1]" "T_Scheduled ?s = []" "T_Failure ?s = ''channel closed''" "T_Scheduled (tcp_close parked_on_key) = [0]"
    by (simp_all add: tcp_resume_def tcp_close_def find_key_def tcp_ops parked_on_key_state)
  then have "tcp_runs (tcp_close parked_on_key) ?s" by (intro runs) simp
  moreover have "\<nexists>t. tcp_runs ?s t" using s(1,2) by (auto elim: tcp_runs.cases split: if_splits)
  moreover have "0 \<in> actives None ?s" using s(1) by (simp add: actives_None)
  ultimately show ?thesis using parked_on_key_reached s(3) by blast
qed

end
