(* ===== verification/KernelProto.thy ===== *)
theory KernelProto
  imports ControlChannel
begin

text \<open>
  \<^verbatim>\<open>src/linux/railfs-proto.c\<close> and \<^verbatim>\<open>railfs-msg.h\<close>: the control frame a second time, in kernel C.
  A cursor walks one buffer; writes past its end latch an overrun, reads past it fail. The lemmas
  show that its puts append what the C++ writer appends and that its gets take what the C++ writer
  wrote. Errors are the negative numbers that the kernel returns.
\<close>

section \<open>Numbers of railfs-msg.h and of errno\<close>

definition RAILFS_WIRE_MAGIC :: u32 where "RAILFS_WIRE_MAGIC = 0x5241494c"
definition RAILFS_WIRE_VERSION :: u16 where "RAILFS_WIRE_VERSION = 1"
definition RAILFS_HEADER_SIZE :: nat where "RAILFS_HEADER_SIZE = 10"
definition RAILFS_DATA_HEADER_SIZE :: nat where "RAILFS_DATA_HEADER_SIZE = 12"
definition RAILFS_DIGEST_SIZE :: nat where "RAILFS_DIGEST_SIZE = 16"
definition RAILFS_SUM_XXH64 :: u8 where "RAILFS_SUM_XXH64 = 2"
definition RAILFS_PAGE_SIZE :: nat where "RAILFS_PAGE_SIZE = 1048576"
definition RAILFS_CONN_DEPTH :: nat where "RAILFS_CONN_DEPTH = 16"
definition RAILFS_PAGE_COUNT :: nat where "RAILFS_PAGE_COUNT = RAILFS_CONN_DEPTH"
definition RAILFS_MAX_FRAME :: nat where "RAILFS_MAX_FRAME = 1048576"

definition RAILFS_MSG_HELLO :: u16 where "RAILFS_MSG_HELLO = 1"
definition RAILFS_MSG_HELLO_ACK :: u16 where "RAILFS_MSG_HELLO_ACK = 2"
definition RAILFS_MSG_STAT :: u16 where "RAILFS_MSG_STAT = 12"
definition RAILFS_MSG_STAT_REPLY :: u16 where "RAILFS_MSG_STAT_REPLY = 13"
definition RAILFS_MSG_LIST :: u16 where "RAILFS_MSG_LIST = 14"
definition RAILFS_MSG_LIST_REPLY :: u16 where "RAILFS_MSG_LIST_REPLY = 15"
definition RAILFS_MSG_READ :: u16 where "RAILFS_MSG_READ = 16"
definition RAILFS_MSG_WRITE :: u16 where "RAILFS_MSG_WRITE = 17"
definition RAILFS_MSG_TRANSFER_REPLY :: u16 where "RAILFS_MSG_TRANSFER_REPLY = 18"
definition RAILFS_MSG_PEER_ENDPOINT :: u16 where "RAILFS_MSG_PEER_ENDPOINT = 19"
definition RAILFS_MSG_META :: u16 where "RAILFS_MSG_META = 24"
definition RAILFS_MSG_META_REPLY :: u16 where "RAILFS_MSG_META_REPLY = 25"
definition RAILFS_MSG_STATFS :: u16 where "RAILFS_MSG_STATFS = 26"
definition RAILFS_MSG_STATFS_REPLY :: u16 where "RAILFS_MSG_STATFS_REPLY = 27"

lemmas railfs_msg_defs =
  RAILFS_MSG_HELLO_def RAILFS_MSG_HELLO_ACK_def RAILFS_MSG_STAT_def RAILFS_MSG_STAT_REPLY_def RAILFS_MSG_LIST_def RAILFS_MSG_LIST_REPLY_def
  RAILFS_MSG_READ_def RAILFS_MSG_WRITE_def RAILFS_MSG_TRANSFER_REPLY_def RAILFS_MSG_PEER_ENDPOINT_def RAILFS_MSG_META_def RAILFS_MSG_META_REPLY_def
  RAILFS_MSG_STATFS_def RAILFS_MSG_STATFS_REPLY_def

definition ENOENT :: int where "ENOENT = 2"
definition EIO :: int where "EIO = 5"
definition ENOMEM :: int where "ENOMEM = 12"
definition EPROTO :: int where "EPROTO = 71"
definition EBADMSG :: int where "EBADMSG = 74"
definition EOVERFLOW :: int where "EOVERFLOW = 75"
definition EMSGSIZE :: int where "EMSGSIZE = 90"
definition ENOTCONN :: int where "ENOTCONN = 107"
definition MAX_ERRNO :: nat where "MAX_ERRNO = 4095"

record railfs_attrs =
  a_size :: u64
  a_dev :: u64
  a_ino :: u64
  a_mode :: u32
  a_uid :: u32
  a_gid :: u32
  a_mtime :: i64
  a_directory :: u8
  a_link :: u8
  a_links :: u32

record railfs_space =
  s_block_size :: u64
  s_blocks :: u64
  s_blocks_free :: u64
  s_files :: u64
  s_files_free :: u64

section \<open>The cursor\<close>

record railfs_cursor =
  c_buf :: "byte list"
  c_len :: nat
  c_at :: nat
  c_overrun :: bool

definition put_raw :: "byte list \<Rightarrow> railfs_cursor \<Rightarrow> railfs_cursor" where
  "put_raw p c =
     (let n = length p
      in if c_len c < n \<or> c_len c - n < c_at c then c\<lparr>c_overrun := True\<rparr>
         else c\<lparr>c_buf := memcpy_at (c_at c) p (c_buf c), c_at := c_at c + n\<rparr>)"

definition railfs_cursor_ok :: "railfs_cursor \<Rightarrow> bool" where
  "railfs_cursor_ok c \<longleftrightarrow> \<not> c_overrun c"

definition railfs_put_u8 :: "u8 \<Rightarrow> railfs_cursor \<Rightarrow> railfs_cursor" where
  "railfs_put_u8 v = put_raw (le_bytes 1 v)"

definition railfs_put_u16 :: "u16 \<Rightarrow> railfs_cursor \<Rightarrow> railfs_cursor" where
  "railfs_put_u16 v = put_raw (le_bytes 2 v)"

definition railfs_put_u32 :: "u32 \<Rightarrow> railfs_cursor \<Rightarrow> railfs_cursor" where
  "railfs_put_u32 v = put_raw (le_bytes 4 v)"

definition railfs_put_u64 :: "u64 \<Rightarrow> railfs_cursor \<Rightarrow> railfs_cursor" where
  "railfs_put_u64 v = put_raw (le_bytes 8 v)"

text \<open>A C string is the characters before its terminator.\<close>

definition railfs_put_str :: "string \<Rightarrow> railfs_cursor \<Rightarrow> railfs_cursor" where
  "railfs_put_str s c =
     (let n = length s; c = railfs_put_u32 (of_nat n) c
      in if n \<noteq> 0 then put_raw (map byte_of_char s) c else c)"

type_synonym 'a get = "railfs_cursor \<Rightarrow> int + 'a \<times> railfs_cursor"

definition get_raw :: "nat \<Rightarrow> byte list get" where
  "get_raw n c =
     (if c_len c < n \<or> c_len c - n < c_at c then Inl (- EBADMSG)
      else Inr (take n (drop (c_at c) (c_buf c)), c\<lparr>c_at := c_at c + n\<rparr>))"

text \<open>\<^verbatim>\<open>if (!err) err = ...\<close>\<close>

definition get_then :: "'a get \<Rightarrow> ('a \<Rightarrow> 'b get) \<Rightarrow> 'b get" where
  "get_then m f c = (case m c of Inl e \<Rightarrow> Inl e | Inr (v, c) \<Rightarrow> f v c)"

definition got :: "'a \<Rightarrow> 'a get" where
  "got v c = Inr (v, c)"

definition failed :: "int \<Rightarrow> 'a get" where
  "failed e c = Inl e"

definition railfs_get_u8 :: "u8 get" where
  "railfs_get_u8 = get_then (get_raw 1) (\<lambda>bs. got (le_word bs))"

definition railfs_get_u16 :: "u16 get" where
  "railfs_get_u16 = get_then (get_raw 2) (\<lambda>bs. got (le_word bs))"

definition railfs_get_u32 :: "u32 get" where
  "railfs_get_u32 = get_then (get_raw 4) (\<lambda>bs. got (le_word bs))"

definition railfs_get_u64 :: "u64 get" where
  "railfs_get_u64 = get_then (get_raw 8) (\<lambda>bs. got (le_word bs))"

text \<open>\<open>mem n\<close> says whether an allocation of \<open>n\<close> bytes succeeds; what is read is the buffer before the terminator that is put behind it.\<close>

definition railfs_get_str :: "(nat \<Rightarrow> bool) \<Rightarrow> string get" where
  "railfs_get_str mem =
     get_then railfs_get_u32 (\<lambda>n c.
       if c_len c < unat n \<or> c_len c - unat n < c_at c then Inl (- EBADMSG)
       else if \<not> mem (unat (n + 1)) then Inl (- ENOMEM)
       else Inr (map char_of_byte (take (unat n) (drop (c_at c) (c_buf c))), c\<lparr>c_at := c_at c + unat n\<rparr>))"

definition railfs_get_attrs :: "railfs_attrs get" where
  "railfs_get_attrs =
     get_then railfs_get_u64 (\<lambda>size.
     get_then railfs_get_u64 (\<lambda>dev.
     get_then railfs_get_u64 (\<lambda>ino.
     get_then railfs_get_u32 (\<lambda>mode.
     get_then railfs_get_u32 (\<lambda>uid.
     get_then railfs_get_u32 (\<lambda>gid.
     get_then (get_raw 8) (\<lambda>mtime.
     get_then railfs_get_u8 (\<lambda>directory.
     get_then railfs_get_u8 (\<lambda>link.
     get_then railfs_get_u32 (\<lambda>links.
     got \<lparr>a_size = size, a_dev = dev, a_ino = ino, a_mode = mode, a_uid = uid, a_gid = gid, a_mtime = le_word mtime,
       a_directory = directory, a_link = link, a_links = links\<rparr>))))))))))"

definition railfs_skip :: "nat \<Rightarrow> unit get" where
  "railfs_skip n c = (if c_len c < n \<or> c_len c - n < c_at c then Inl (- EBADMSG) else Inr ((), c\<lparr>c_at := c_at c + n\<rparr>))"

definition railfs_frame :: "byte list \<Rightarrow> u16 \<Rightarrow> u32 \<Rightarrow> byte list" where
  "railfs_frame buf type payload_len =
     memcpy_at 6 (le_bytes 4 payload_len) (memcpy_at 4 (le_bytes 2 type) (memcpy_at 0 (le_bytes 4 RAILFS_WIRE_MAGIC) buf))"

text \<open>\<^verbatim>\<open>railfs_read_header\<close> of \<^verbatim>\<open>railfs-tcp.c\<close>.\<close>

definition railfs_read_header :: "byte list \<Rightarrow> int + (u16 \<times> u32)" where
  "railfs_read_header header =
     (let magic = (le_word (take 4 header) :: u32); type = le_word (take 2 (drop 4 header)); len = (le_word (take 4 (drop 6 header)) :: u32)
      in if magic \<noteq> RAILFS_WIRE_MAGIC then Inl (- EPROTO)
         else if RAILFS_MAX_FRAME < unat len then Inl (- EMSGSIZE)
         else Inr (type, len))"

text \<open>\<^verbatim>\<open>xxh64\<close> is the kernel's; eight bytes of a sixteen byte field.\<close>

definition railfs_digest :: "(byte list \<Rightarrow> u64) \<Rightarrow> byte list \<Rightarrow> byte list" where
  "railfs_digest xxh64 data = memcpy_at 0 (le_bytes 8 (xxh64 data)) (replicate RAILFS_DIGEST_SIZE 0)"

section \<open>Writing\<close>

text \<open>A cursor that has written \<open>ws\<close> behind the header and has room for \<open>n\<close> more bytes.\<close>

definition begun :: "nat \<Rightarrow> railfs_cursor" where
  "begun cap = \<lparr>c_buf = replicate cap 0, c_len = cap, c_at = RAILFS_HEADER_SIZE, c_overrun = False\<rparr>"

definition roomy :: "nat \<Rightarrow> railfs_cursor \<Rightarrow> bool" where
  "roomy n c \<longleftrightarrow> c_len c = length (c_buf c) \<and> c_at c + n \<le> c_len c \<and> \<not> c_overrun c"

lemma put_raw_roomy: "roomy (length p + n) c \<Longrightarrow> roomy n (put_raw p c)"
  by (auto simp: roomy_def put_raw_def Let_def memcpy_at_def)

lemma roomy_less: "roomy n c \<Longrightarrow> m \<le> n \<Longrightarrow> roomy m c"
  by (auto simp: roomy_def)

lemma memcpy_at_append:
  assumes "At + length p + length q \<le> length Buf"
  shows "memcpy_at (At + length p) q (memcpy_at At p Buf) = memcpy_at At (p @ q) Buf"
  using assms by (simp add: memcpy_at_def ac_simps)

lemma put_raw_append:
  assumes "roomy (length p + length q) c"
  shows "put_raw q (put_raw p c) = put_raw (p @ q) c"
  using assms memcpy_at_append [of "c_at c" p q "c_buf c"] by (auto simp: roomy_def put_raw_def Let_def)

lemma put_raw_Nil: "roomy n c \<Longrightarrow> put_raw [] c = c"
  by (auto simp: roomy_def put_raw_def memcpy_at_def)

named_theorems put_simps

lemma put_words [put_simps]:
  "railfs_put_u8 b = put_raw (w_u8 b)" "railfs_put_u16 h = put_raw (w_u16 h)" "railfs_put_u32 w = put_raw (w_u32 w)" "railfs_put_u64 d = put_raw (w_u64 d)"
  by (simp_all add: railfs_put_u8_def railfs_put_u16_def railfs_put_u32_def railfs_put_u64_def w_u8_def w_u16_def w_u32_def w_u64_def)

lemma put_str: "roomy (length (w_str s)) c \<Longrightarrow> railfs_put_str s c = put_raw (w_str s) c"
  using put_raw_append [of "w_u32 (of_nat (length s))" "map byte_of_char s" c]
  by (cases s) (simp_all add: railfs_put_str_def Let_def put_words w_str_def)

lemma length_words [simp]: "length (w_u8 b) = 1" "length (w_u16 h) = 2" "length (w_u32 w) = 4" "length (w_u64 d) = 8" "length (w_i64 i) = 8"
  "length (w_str s) = 4 + length s" "length (w_bool t) = 1"
  by (simp_all add: w_u8_def w_u16_def w_u32_def w_u64_def w_i64_def w_str_def w_bool_def)

text \<open>One put after what has been put so far.\<close>

lemma put_next:
  assumes "RAILFS_HEADER_SIZE + length bs + length q \<le> cap"
  shows "put_raw q (put_raw bs (begun cap)) = put_raw (bs @ q) (begun cap)"
  using assms by (intro put_raw_append) (simp add: roomy_def begun_def)

lemma put_next_str:
  assumes "RAILFS_HEADER_SIZE + length bs + (4 + length s) \<le> cap"
  shows "railfs_put_str s (put_raw bs (begun cap)) = put_raw (bs @ w_str s) (begun cap)"
proof -
  have "roomy (length (w_str s)) (put_raw bs (begun cap))" using assms by (intro put_raw_roomy) (simp add: roomy_def begun_def)
  then have "railfs_put_str s (put_raw bs (begun cap)) = put_raw (w_str s) (put_raw bs (begun cap))" by (rule put_str)
  then show ?thesis using put_next [of bs "w_str s" cap] assms by simp
qed

text \<open>The frame that goes out, when everything fitted.\<close>

lemma sent_frame:
  assumes "RAILFS_HEADER_SIZE + length bs \<le> cap"
  shows "railfs_cursor_ok (put_raw bs (begun cap))" and "c_at (put_raw bs (begun cap)) = RAILFS_HEADER_SIZE + length bs"
    and "take (RAILFS_HEADER_SIZE + length bs) (railfs_frame (c_buf (put_raw bs (begun cap))) T L) = w_u32 RAILFS_WIRE_MAGIC @ w_u16 T @ w_u32 L @ bs"
proof -
  have p: "put_raw bs (begun cap) = (begun cap)\<lparr>c_buf := memcpy_at 10 bs (replicate cap 0), c_at := 10 + length bs\<rparr>"
    using assms by (auto simp: put_raw_def begun_def Let_def RAILFS_HEADER_SIZE_def)
  show "railfs_cursor_ok (put_raw bs (begun cap))" "c_at (put_raw bs (begun cap)) = RAILFS_HEADER_SIZE + length bs"
    unfolding p by (simp_all add: railfs_cursor_ok_def begun_def RAILFS_HEADER_SIZE_def)
  obtain n where n: "cap = 10 + length bs + n" using assms by (auto simp: RAILFS_HEADER_SIZE_def le_iff_add)
  have "memcpy_at 10 bs (replicate cap 0) = replicate 10 0 @ bs @ replicate n 0"
    unfolding n by (simp add: memcpy_at_def replicate_add)
  then show "take (RAILFS_HEADER_SIZE + length bs) (railfs_frame (c_buf (put_raw bs (begun cap))) T L) = w_u32 RAILFS_WIRE_MAGIC @ w_u16 T @ w_u32 L @ bs"
    unfolding p by (simp add: railfs_frame_def memcpy_at_def RAILFS_HEADER_SIZE_def w_u32_def w_u16_def numeral_eq_Suc)
qed

lemma same_magic: "RAILFS_WIRE_MAGIC = kMagic"
  by (simp add: RAILFS_WIRE_MAGIC_def kMagic_def)

section \<open>Reading\<close>

text \<open>A cursor between what it has read and what it has not.\<close>

definition reading :: "byte list \<Rightarrow> byte list \<Rightarrow> railfs_cursor" where
  "reading pre rest = \<lparr>c_buf = pre @ rest, c_len = length (pre @ rest), c_at = length pre, c_overrun = False\<rparr>"

named_theorems get_simps

lemma get_raw_reading: "length bs = n \<Longrightarrow> get_raw n (reading pre (bs @ rest)) = Inr (bs, reading (pre @ bs) rest)"
  by (auto simp: get_raw_def reading_def)

lemma get_words [get_simps]:
  "railfs_get_u8 (reading pre (w_u8 b @ rest)) = Inr (b, reading (pre @ w_u8 b) rest)"
  "railfs_get_u16 (reading pre (w_u16 h @ rest)) = Inr (h, reading (pre @ w_u16 h) rest)"
  "railfs_get_u32 (reading pre (w_u32 w @ rest)) = Inr (w, reading (pre @ w_u32 w) rest)"
  "railfs_get_u64 (reading pre (w_u64 d @ rest)) = Inr (d, reading (pre @ w_u64 d) rest)"
  "get_raw 8 (reading pre (w_i64 i @ rest)) = Inr (w_i64 i, reading (pre @ w_i64 i) rest)"
  "railfs_get_u8 (reading pre (w_bool t @ rest)) = Inr (if t then 1 else 0, reading (pre @ w_bool t) rest)"
  by (simp_all add: railfs_get_u8_def railfs_get_u16_def railfs_get_u32_def railfs_get_u64_def get_then_def got_def get_raw_reading
      w_u8_def w_u16_def w_u32_def w_u64_def w_i64_def w_bool_def le_word_le_bytes)

lemma get_str [get_simps]:
  assumes "wf_str s"
  shows "railfs_get_str mem (reading pre (w_str s @ rest)) =
    (if mem (unat (of_nat (length s) + 1 :: u32)) then Inr (s, reading (pre @ w_str s) rest) else Inl (- ENOMEM))"
proof -
  have n: "unat (of_nat (length s) :: u32) = length s" using assms by (intro unat_of_nat_small) (simp add: wf_str_def)
  have "railfs_get_u32 (reading pre (w_str s @ rest)) = Inr (of_nat (length s), reading (pre @ w_u32 (of_nat (length s))) (map byte_of_char s @ rest))"
    using get_words(3) by (simp add: w_str_def)
  then show ?thesis unfolding railfs_get_str_def get_then_def
    by (simp add: n) (simp add: reading_def w_str_def)
qed

lemma get_then_simps [get_simps]:
  "get_then m f c = (case m c of Inl e \<Rightarrow> Inl e | Inr (v, c) \<Rightarrow> f v c)" "got v c = Inr (v, c)" "failed e c = Inl e"
  by (simp_all add: get_then_def got_def failed_def)

definition attrs_of :: "FileAttrs \<Rightarrow> railfs_attrs" where
  "attrs_of A =
     \<lparr>a_size = FileAttrs_Size A, a_dev = FileAttrs_Dev A, a_ino = FileAttrs_Ino A, a_mode = FileAttrs_Mode A, a_uid = FileAttrs_Uid A,
      a_gid = FileAttrs_Gid A, a_mtime = FileAttrs_Mtime A, a_directory = (if FileAttrs_Directory A then 1 else 0),
      a_link = (if FileAttrs_Link A then 1 else 0), a_links = FileAttrs_Links A\<rparr>"

lemma get_attrs [get_simps]: "railfs_get_attrs (reading pre (writeAttrs A @ rest)) = Inr (attrs_of A, reading (pre @ writeAttrs A) rest)"
  by (simp add: railfs_get_attrs_def writeAttrs_def get_simps attrs_of_def) (simp add: w_i64_def le_word_le_bytes)

lemma start_reading: "\<lparr>c_buf = bs, c_len = length bs, c_at = 0, c_overrun = False\<rparr> = reading [] bs"
  by (simp add: reading_def)

end
