(* ===== verification/KernelClient.thy ===== *)
theory KernelClient
  imports KernelProto TcpChannel FileService
begin

text \<open>
  \<^verbatim>\<open>src/linux/railfs-tcp.c\<close>: the requests of the kernel mount, each as the code makes it: a frame
  of its own, the exchange, and the fields of the reply in order. What memory, the socket and the
  waits answer are arguments. The theorems show that each request is byte for byte the frame of the
  C++ codec, that every reply the C++ codec writes is read back as it was, and, through the daemon's
  own handlers, what a call on the mount returns. The transport is TCP; the fabric's pages are not
  modelled.
\<close>

section \<open>The connection\<close>

text \<open>
  How a wait ends: its deadline passes, a fatal signal, or the completion, with what the reader or
  the kill left in the call.
\<close>

datatype 'a waited = TimedOut | Signalled | Completed "int + 'a"

record kernel_env =
  k_mem :: "nat \<Rightarrow> bool"
  k_send :: "byte list \<Rightarrow> int option"
  k_reply :: "u64 \<Rightarrow> u16 \<Rightarrow> byte list waited"
  k_admit :: "int option"
  k_data :: "u64 \<Rightarrow> byte list waited"
  k_data_send :: "byte list \<Rightarrow> int option"
  k_xxh64 :: "byte list \<Rightarrow> u64"

record railfs_conn =
  n_next_id :: u64
  n_data :: bool
  n_verify :: bool
  n_dead :: bool
  n_why :: int
  n_sent :: "byte list"
  n_data_sent :: "byte list"

definition ETIMEDOUT :: int where "ETIMEDOUT = 110"
definition ERESTARTSYS :: int where "ERESTARTSYS = 512"
definition EINTR :: int where "EINTR = 4"
definition EOPNOTSUPP :: int where "EOPNOTSUPP = 95"

definition railfs_conn_kill :: "int \<Rightarrow> railfs_conn \<Rightarrow> railfs_conn" where
  "railfs_conn_kill why conn = (if n_dead conn then conn else conn\<lparr>n_dead := True, n_why := why\<rparr>)"

definition railfs_wait_on :: "'a waited \<Rightarrow> railfs_conn \<Rightarrow> (int + 'a) \<times> railfs_conn" where
  "railfs_wait_on w conn =
     (case w of
        TimedOut \<Rightarrow> (Inl (- ETIMEDOUT), railfs_conn_kill (- ETIMEDOUT) conn)
      | Signalled \<Rightarrow> (Inl (- ERESTARTSYS), conn)
      | Completed r \<Rightarrow> (r, conn))"

text \<open>A frame that the socket refuses is counted as not sent.\<close>

definition railfs_send :: "kernel_env \<Rightarrow> byte list \<Rightarrow> railfs_conn \<Rightarrow> int option \<times> railfs_conn" where
  "railfs_send K Frame conn =
     (case if n_dead conn then Some (- ENOTCONN) else k_send K Frame of
        None \<Rightarrow> (None, conn\<lparr>n_sent := n_sent conn @ Frame\<rparr>)
      | Some err \<Rightarrow> (Some err, railfs_conn_kill err conn))"

definition railfs_request :: "kernel_env \<Rightarrow> nat \<Rightarrow> railfs_conn \<Rightarrow> (railfs_cursor \<times> u64) option \<times> railfs_conn" where
  "railfs_request K cap conn =
     (if \<not> k_mem K cap then (None, conn)
      else
        let Rid = n_next_id conn + 1
        in (Some (railfs_put_u64 Rid \<lparr>c_buf = replicate cap 0, c_len = cap, c_at = RAILFS_HEADER_SIZE, c_overrun = False\<rparr>, Rid), conn\<lparr>n_next_id := Rid\<rparr>))"

text \<open>\<^verbatim>\<open>railfs_frame\<close> over the cursor's buffer, as far as it was written.\<close>

definition sealed :: "u16 \<Rightarrow> railfs_cursor \<Rightarrow> byte list" where
  "sealed type c = take (c_at c) (railfs_frame (c_buf c) type (of_nat (c_at c - RAILFS_HEADER_SIZE)))"

definition exchange :: "kernel_env \<Rightarrow> byte list \<Rightarrow> u64 \<Rightarrow> u16 \<Rightarrow> railfs_conn \<Rightarrow> (int + byte list) \<times> railfs_conn" where
  "exchange K Frame Rid want conn =
     (if n_dead conn then (Inl (- ENOTCONN), conn)
      else
        (case railfs_send K Frame conn of
           (Some err, conn) \<Rightarrow> (Inl err, conn)
         | (None, conn) \<Rightarrow> railfs_wait_on (k_reply K Rid want) conn))"

definition opened :: "byte list \<Rightarrow> railfs_cursor" where
  "opened payload = \<lparr>c_buf = payload, c_len = length payload, c_at = 0, c_overrun = False\<rparr>"

definition railfs_reply_for :: "u64 \<Rightarrow> unit get" where
  "railfs_reply_for Rid = get_then railfs_get_u64 (\<lambda>replied. if replied = Rid then got () else failed (- EPROTO))"

text \<open>The kill in \<^verbatim>\<open>railfs_reply_for\<close>.\<close>

definition reply_kills :: "u64 \<Rightarrow> byte list \<Rightarrow> railfs_conn \<Rightarrow> railfs_conn" where
  "reply_kills Rid payload conn =
     (case railfs_get_u64 (opened payload) of
        Inl _ \<Rightarrow> conn
      | Inr (replied, _) \<Rightarrow> if replied = Rid then conn else railfs_conn_kill (- EPROTO) conn)"

definition read_fields :: "u64 \<Rightarrow> byte list \<Rightarrow> 'a get \<Rightarrow> int + 'a" where
  "read_fields Rid payload m = (case get_then (railfs_reply_for Rid) (\<lambda>_. m) (opened payload) of Inl e \<Rightarrow> Inl e | Inr (v, _) \<Rightarrow> Inr v)"

text \<open>A request made by \<open>puts\<close> and its reply read by \<open>m\<close>: the shape that \<^verbatim>\<open>railfs_stat\<close>, \<^verbatim>\<open>railfs_list\<close>, \<^verbatim>\<open>railfs_space_of\<close> and \<^verbatim>\<open>railfs_meta_send\<close> share.\<close>

definition asks :: "kernel_env \<Rightarrow> nat \<Rightarrow> (railfs_cursor \<Rightarrow> railfs_cursor) \<Rightarrow> u16 \<Rightarrow> u16 \<Rightarrow> (nat \<Rightarrow> 'a get) \<Rightarrow> railfs_conn \<Rightarrow> (int + 'a) \<times> railfs_conn" where
  "asks K cap puts type want m conn =
     (case railfs_request K cap conn of
        (None, conn) \<Rightarrow> (Inl (- ENOMEM), conn)
      | (Some (c, Rid), conn) \<Rightarrow>
          let c = puts c
          in if \<not> railfs_cursor_ok c then (Inl (- EOVERFLOW), conn)
             else
               (case exchange K (sealed type c) Rid want conn of
                  (Inl err, conn) \<Rightarrow> (Inl err, conn)
                | (Inr payload, conn) \<Rightarrow> (read_fields Rid payload (m (length payload)), reply_kills Rid payload conn)))"

section \<open>Requests\<close>

text \<open>\<open>None\<close>: the peer has no such name.\<close>

definition railfs_stat :: "kernel_env \<Rightarrow> string \<Rightarrow> railfs_conn \<Rightarrow> (int + railfs_attrs option) \<times> railfs_conn" where
  "railfs_stat K path =
     asks K (RAILFS_HEADER_SIZE + 8 + 4 + length path) (railfs_put_str path) RAILFS_MSG_STAT RAILFS_MSG_STAT_REPLY
       (\<lambda>_. get_then railfs_get_u8 (\<lambda>here.
          if here = 0 then got None else get_then railfs_get_attrs (\<lambda>a. got (Some a))))"

primrec get_dirents :: "(nat \<Rightarrow> bool) \<Rightarrow> nat \<Rightarrow> (string \<times> railfs_attrs) list get" where
  "get_dirents mem 0 = got []"
| "get_dirents mem (Suc n) =
     get_then (railfs_get_str mem) (\<lambda>name. get_then railfs_get_attrs (\<lambda>a. get_then (get_dirents mem n) (\<lambda>es. got ((name, a) # es))))"

text \<open>\<^verbatim>\<open>sizeof(struct railfs_dirent)\<close>\<close>

definition RAILFS_DIRENT_SIZE :: nat where "RAILFS_DIRENT_SIZE = 64"

definition railfs_list :: "kernel_env \<Rightarrow> string \<Rightarrow> railfs_conn \<Rightarrow> (int + (string \<times> railfs_attrs) list) \<times> railfs_conn" where
  "railfs_list K path =
     asks K (RAILFS_HEADER_SIZE + 8 + 4 + length path) (railfs_put_str path) RAILFS_MSG_LIST RAILFS_MSG_LIST_REPLY
       (\<lambda>payload_len. get_then railfs_get_u8 (\<lambda>found. get_then railfs_get_u32 (\<lambda>n.
          if found = 0 then failed (- ENOENT)
          else if payload_len < unat n * 54 then failed (- EBADMSG)
          else if \<not> k_mem K (max 1 (unat n) * RAILFS_DIRENT_SIZE) then failed (- ENOMEM)
          else get_dirents (k_mem K) (unat n))))"

definition railfs_space_of :: "kernel_env \<Rightarrow> string \<Rightarrow> railfs_conn \<Rightarrow> (int + railfs_space) \<times> railfs_conn" where
  "railfs_space_of K path =
     asks K (RAILFS_HEADER_SIZE + 8 + 4 + length path) (railfs_put_str path) RAILFS_MSG_STATFS RAILFS_MSG_STATFS_REPLY
       (\<lambda>_. get_then railfs_get_u8 (\<lambda>ok. get_then railfs_get_u64 (\<lambda>block_size. get_then railfs_get_u64 (\<lambda>blocks.
          get_then railfs_get_u64 (\<lambda>blocks_free. get_then railfs_get_u64 (\<lambda>files. get_then railfs_get_u64 (\<lambda>files_free.
          if ok = 0 then failed (- EIO)
          else got \<lparr>s_block_size = block_size, s_blocks = blocks, s_blocks_free = blocks_free, s_files = files, s_files_free = files_free\<rparr>)))))))"

record railfs_meta_req =
  m_op :: u16
  m_path :: string
  m_target :: "string option"
  m_size :: u64
  m_mode :: u32
  m_mtime :: i64

text \<open>What it leaves in \<^verbatim>\<open>link\<close> and \<^verbatim>\<open>made\<close>.\<close>

definition railfs_meta_send :: "kernel_env \<Rightarrow> railfs_meta_req \<Rightarrow> railfs_conn \<Rightarrow> (int + (string \<times> railfs_attrs)) \<times> railfs_conn" where
  "railfs_meta_send K req =
     (let target = (case m_target req of None \<Rightarrow> [] | Some t \<Rightarrow> t)
      in asks K (RAILFS_HEADER_SIZE + 8 + 2 + 4 + length (m_path req) + 4 + length target + 8 + 4 + 8 + 8 + 1)
           (\<lambda>c. railfs_put_u8 0 (railfs_put_u64 0 (railfs_put_u64 (m_mtime req) (railfs_put_u32 (m_mode req) (railfs_put_u64 (m_size req)
              (railfs_put_str target (railfs_put_str (m_path req) (railfs_put_u16 (m_op req) c))))))))
           RAILFS_MSG_META RAILFS_MSG_META_REPLY
           (\<lambda>_. get_then railfs_get_u8 (\<lambda>ok. get_then (railfs_get_str (k_mem K)) (\<lambda>message. get_then (railfs_get_str (k_mem K)) (\<lambda>reported.
              get_then railfs_get_u32 (\<lambda>code. get_then railfs_get_attrs (\<lambda>attrs.
              if ok = 0 then failed (if 0 < unat code \<and> unat code < MAX_ERRNO then - int (unat code) else - EIO)
              else got (reported, attrs))))))))"

definition railfs_meta :: "kernel_env \<Rightarrow> u16 \<Rightarrow> string \<Rightarrow> u64 \<Rightarrow> railfs_conn \<Rightarrow> (int + (string \<times> railfs_attrs)) \<times> railfs_conn" where
  "railfs_meta K op path Size = railfs_meta_send K \<lparr>m_op = op, m_path = path, m_target = None, m_size = Size, m_mode = 0, m_mtime = 0\<rparr>"

definition railfs_meta_to :: "kernel_env \<Rightarrow> u16 \<Rightarrow> string \<Rightarrow> string \<Rightarrow> u64 \<Rightarrow> railfs_conn \<Rightarrow> (int + (string \<times> railfs_attrs)) \<times> railfs_conn" where
  "railfs_meta_to K op path target Size = railfs_meta_send K \<lparr>m_op = op, m_path = path, m_target = Some target, m_size = Size, m_mode = 0, m_mtime = 0\<rparr>"

definition railfs_abandon_or_kill :: "int \<Rightarrow> bool \<Rightarrow> railfs_conn \<Rightarrow> railfs_conn" where
  "railfs_abandon_or_kill err must_kill conn =
     (if err = - ERESTARTSYS \<and> \<not> must_kill then conn else railfs_conn_kill (if err = - ERESTARTSYS then - EINTR else err) conn)"

text \<open>The reply to a transfer: its length, the file's size, whether it went well, and the cursor, which then stands on the digest.\<close>

definition railfs_read_reply :: "u64 \<Rightarrow> (u32 \<times> u64 \<times> u8) get" where
  "railfs_read_reply Rid =
     get_then (railfs_reply_for Rid) (\<lambda>_. get_then railfs_get_u32 (\<lambda>reply_len. get_then railfs_get_u64 (\<lambda>file_size. get_then railfs_get_u8 (\<lambda>ok.
       got (reply_len, file_size, ok)))))"

definition railfs_matches_digest :: "kernel_env \<Rightarrow> railfs_cursor \<Rightarrow> byte list \<Rightarrow> int option" where
  "railfs_matches_digest K c buf =
     (if c_len c < c_at c + RAILFS_DIGEST_SIZE then Some (- EBADMSG)
      else if take RAILFS_DIGEST_SIZE (drop (c_at c) (c_buf c)) \<noteq> railfs_digest (k_xxh64 K) buf then Some (- EBADMSG)
      else None)"

text \<open>
  \<^verbatim>\<open>railfs_read\<close>: \<^verbatim>\<open>railfs_read_core\<close> on a TCP connection with the caller's buffer. \<open>read_landing\<close> is
  its second half, from the reply on. The answer is the count and the bytes that landed in the buffer.
\<close>

definition read_landing :: "kernel_env \<Rightarrow> u64 \<Rightarrow> railfs_conn \<Rightarrow> (int + (nat \<times> byte list)) \<times> railfs_conn" where
  "read_landing K Rid conn =
     (case railfs_wait_on (k_reply K Rid RAILFS_MSG_TRANSFER_REPLY) conn of
        (Inl err, conn) \<Rightarrow> (Inl err, railfs_abandon_or_kill err False conn)
      | (Inr payload, conn) \<Rightarrow>
          let conn = reply_kills Rid payload conn
          in case railfs_read_reply Rid (opened payload) of
               Inl err \<Rightarrow> (Inl err, conn)
             | Inr ((reply_len, file_size, ok), c) \<Rightarrow>
                 (case railfs_wait_on (k_data K Rid) conn of
                    (Inl err, conn) \<Rightarrow> (Inl err, railfs_abandon_or_kill err False conn)
                  | (Inr buf, conn) \<Rightarrow>
                      if ok = 0 then (Inl (- EIO), conn)
                      else if n_verify conn \<and> railfs_matches_digest K c buf \<noteq> None then (Inl (- EBADMSG), conn)
                      else (Inr (min (unat reply_len) (length buf), buf), conn)))"

definition railfs_read :: "kernel_env \<Rightarrow> string \<Rightarrow> u64 \<Rightarrow> u32 \<Rightarrow> railfs_conn \<Rightarrow> (int + (nat \<times> byte list)) \<times> railfs_conn" where
  "railfs_read K path offset len conn =
     (let len = (if RAILFS_PAGE_SIZE < unat len then of_nat RAILFS_PAGE_SIZE else len)
      in if \<not> n_data conn then (Inl (- EOPNOTSUPP), conn)
         else if len = 0 then (Inr (0, []), conn)
         else
           (case railfs_request K (RAILFS_HEADER_SIZE + 8 + 4 + length path + 8 + 4 + 8) conn of
              (None, conn) \<Rightarrow> (Inl (- ENOMEM), conn)
            | (Some (c, Rid), conn) \<Rightarrow>
                let c = railfs_put_u64 0 (railfs_put_u32 len (railfs_put_u64 offset (railfs_put_str path c)))
                in if \<not> railfs_cursor_ok c then (Inl (- EOVERFLOW), conn)
                   else if n_dead conn then (Inl (- ENOTCONN), conn)
                   else
                     (case k_admit K of
                        Some err \<Rightarrow> (Inl err, conn)
                      | None \<Rightarrow>
                          (case railfs_send K (sealed RAILFS_MSG_READ c) conn of
                             (Some err, conn) \<Rightarrow> (Inl err, conn)
                           | (None, conn) \<Rightarrow> read_landing K Rid conn))))"

text \<open>\<^verbatim>\<open>railfs_give_payload\<close>: header and payload under one lock.\<close>

definition railfs_give_payload :: "kernel_env \<Rightarrow> u64 \<Rightarrow> byte list \<Rightarrow> railfs_conn \<Rightarrow> int option \<times> railfs_conn" where
  "railfs_give_payload K Rid buf conn =
     (let header = le_bytes 8 Rid @ le_bytes 4 (of_nat (length buf) :: u32)
      in case k_data_send K header of
           Some err \<Rightarrow> (Some err, conn)
         | None \<Rightarrow>
             (case k_data_send K buf of
                Some err \<Rightarrow> (Some err, conn\<lparr>n_data_sent := n_data_sent conn @ header\<rparr>)
              | None \<Rightarrow> (None, conn\<lparr>n_data_sent := n_data_sent conn @ header @ buf\<rparr>)))"

text \<open>\<^verbatim>\<open>railfs_write\<close>: \<^verbatim>\<open>railfs_write_from\<close> on a TCP connection from one buffer of at most a page, its payload and reply in \<open>write_payload\<close>.\<close>

definition write_payload :: "kernel_env \<Rightarrow> u64 \<Rightarrow> byte list \<Rightarrow> railfs_conn \<Rightarrow> (int + nat) \<times> railfs_conn" where
  "write_payload K Rid buf conn =
     (case railfs_give_payload K Rid buf conn of
        (Some err, conn) \<Rightarrow> (Inl err, railfs_conn_kill err conn)
      | (None, conn) \<Rightarrow>
          (case railfs_wait_on (k_reply K Rid RAILFS_MSG_TRANSFER_REPLY) conn of
             (Inl err, conn) \<Rightarrow> (Inl err, railfs_abandon_or_kill err False conn)
           | (Inr payload, conn) \<Rightarrow>
               let conn = reply_kills Rid payload conn
               in case railfs_read_reply Rid (opened payload) of
                    Inl err \<Rightarrow> (Inl err, conn)
                  | Inr ((reply_len, file_size, ok), c) \<Rightarrow> (if ok \<noteq> 0 then Inr (unat reply_len) else Inl (- EIO), conn)))"

definition railfs_write :: "kernel_env \<Rightarrow> string \<Rightarrow> u64 \<Rightarrow> byte list \<Rightarrow> bool \<Rightarrow> railfs_conn \<Rightarrow> (int + nat) \<times> railfs_conn" where
  "railfs_write K path offset buf Trunc conn =
     (let buf = take RAILFS_PAGE_SIZE buf; len = (of_nat (length buf) :: u32)
      in if \<not> n_data conn then (Inl (- EOPNOTSUPP), conn)
         else
           (case railfs_request K (RAILFS_HEADER_SIZE + 8 + 4 + length path + 8 + 4 + 1 + RAILFS_DIGEST_SIZE + 8) conn of
              (None, conn) \<Rightarrow> (Inl (- ENOMEM), conn)
            | (Some (c, Rid), conn) \<Rightarrow>
                let c = railfs_put_u64 0 (put_raw (railfs_digest (k_xxh64 K) buf) (railfs_put_u8 (if Trunc then 1 else 0)
                          (railfs_put_u32 len (railfs_put_u64 offset (railfs_put_str path c)))))
                in if \<not> railfs_cursor_ok c then (Inl (- EOVERFLOW), conn)
                   else if n_dead conn then (Inl (- ENOTCONN), conn)
                   else
                     (case k_admit K of
                        Some err \<Rightarrow> (Inl err, conn)
                      | None \<Rightarrow>
                          (case railfs_send K (sealed RAILFS_MSG_WRITE c) conn of
                             (Some err, conn) \<Rightarrow> (Inl err, conn)
                           | (None, conn) \<Rightarrow> write_payload K Rid buf conn))))"

definition railfs_create_file :: "kernel_env \<Rightarrow> string \<Rightarrow> railfs_conn \<Rightarrow> int option \<times> railfs_conn" where
  "railfs_create_file K path conn = (case railfs_write K path 0 [] True conn of (Inl err, conn) \<Rightarrow> (Some err, conn) | (Inr _, conn) \<Rightarrow> (None, conn))"

text \<open>The frame of \<^verbatim>\<open>railfs_say_hello_frame\<close>.\<close>

definition RAILFS_HELLO_BYTES :: nat where "RAILFS_HELLO_BYTES = 256"

definition railfs_say_hello_frame :: "bool \<Rightarrow> bool \<Rightarrow> int + byte list" where
  "railfs_say_hello_frame rdma verify =
     (let c = \<lparr>c_buf = replicate RAILFS_HELLO_BYTES 0, c_len = RAILFS_HELLO_BYTES, c_at = RAILFS_HEADER_SIZE, c_overrun = False\<rparr>;
          c = railfs_put_u16 RAILFS_WIRE_VERSION c;
          c = railfs_put_str (if rdma then ''rdma'' else ''tcp'') c;
          c = railfs_put_u32 0 c;
          c = railfs_put_u64 (of_nat RAILFS_PAGE_COUNT) c;
          c = railfs_put_u64 (of_nat RAILFS_PAGE_SIZE) c;
          c = railfs_put_u64 1 c;
          c = railfs_put_u8 0 c;
          c = railfs_put_u8 (if verify then 1 else 0) c;
          c = railfs_put_u8 RAILFS_SUM_XXH64 c
      in if \<not> railfs_cursor_ok c then Inl (- EOVERFLOW) else Inr (sealed RAILFS_MSG_HELLO c))"

section \<open>Requests are the frames of the codec\<close>

lemma begun_request: "railfs_request K cap conn = (if k_mem K cap then (Some (put_raw (w_u64 (n_next_id conn + 1)) (begun cap), n_next_id conn + 1), conn\<lparr>n_next_id := n_next_id conn + 1\<rparr>) else (None, conn))"
  by (simp add: railfs_request_def begun_def put_words Let_def)

lemma sealed_frame:
  assumes "RAILFS_HEADER_SIZE + length (encode M) \<le> cap" and "T = type_code (typeOf M)"
  shows "sealed T (put_raw (encode M) (begun cap)) = frame M"
  using sent_frame(2,3) [OF assms(1)] assms(2) by (simp add: sealed_def frame_def same_magic)

lemmas put_chain = put_words put_next put_next_str RAILFS_HEADER_SIZE_def RAILFS_DIGEST_SIZE_def

lemma asks_sends:
  assumes "k_mem K cap" and "\<not> n_dead conn" and "k_send K (frame M) = None" and "T = type_code (typeOf M)" and "RAILFS_HEADER_SIZE + length (encode M) \<le> cap"
    and "puts (put_raw (w_u64 (n_next_id conn + 1)) (begun cap)) = put_raw (encode M) (begun cap)"
  shows "asks K cap puts T want m conn =
    (case railfs_wait_on (k_reply K (n_next_id conn + 1) want) (conn\<lparr>n_next_id := n_next_id conn + 1, n_sent := n_sent conn @ frame M\<rparr>) of
       (Inl err, conn') \<Rightarrow> (Inl err, conn')
     | (Inr payload, conn') \<Rightarrow> (read_fields (n_next_id conn + 1) payload (m (length payload)), reply_kills (n_next_id conn + 1) payload conn'))"
  using assms sealed_frame [OF assms(5,4)] sent_frame(1) [OF assms(5)]
  by (simp add: asks_def begun_request exchange_def railfs_send_def Let_def)

lemma put_path:
  "cap = RAILFS_HEADER_SIZE + 8 + 4 + length path \<Longrightarrow> railfs_put_str path (put_raw (w_u64 Rid) (begun cap)) = put_raw (w_u64 Rid @ w_str path) (begun cap)"
  by (simp add: put_next_str)

lemma put_meta:
  assumes "cap = RAILFS_HEADER_SIZE + 8 + 2 + 4 + length path + 4 + length target + 8 + 4 + 8 + 8 + 1"
  shows "railfs_put_u8 0 (railfs_put_u64 0 (railfs_put_u64 mtime (railfs_put_u32 mode (railfs_put_u64 sz
      (railfs_put_str target (railfs_put_str path (railfs_put_u16 op (put_raw (w_u64 Rid) (begun cap))))))))) =
    put_raw (encode_MetaRequest \<lparr>MetaRequest_Id = Rid, MetaRequest_Op = op, MetaRequest_Path = path, MetaRequest_Target = target, MetaRequest_Size = sz,
      MetaRequest_Mode = mode, MetaRequest_Mtime = mtime, MetaRequest_Handle = 0, MetaRequest_Exclusive = False\<rparr>) (begun cap)"
  using assms by (simp add: put_words put_next put_next_str encode_MetaRequest_def w_i64_def w_u64_def w_bool_def)

lemma put_read:
  assumes "cap = RAILFS_HEADER_SIZE + 8 + 4 + length path + 8 + 4 + 8"
  shows "railfs_put_u64 0 (railfs_put_u32 len (railfs_put_u64 offset (railfs_put_str path (put_raw (w_u64 Rid) (begun cap))))) =
    put_raw (encode_ReadRequest \<lparr>ReadRequest_Id = Rid, ReadRequest_Path = path, ReadRequest_Offset = offset, ReadRequest_Length = len, ReadRequest_Handle = 0\<rparr>) (begun cap)"
  using assms by (simp add: put_words put_next put_next_str encode_ReadRequest_def)

lemma length_railfs_digest [simp]: "length (railfs_digest h bs) = 16"
  by (simp add: railfs_digest_def memcpy_at_def RAILFS_DIGEST_SIZE_def)

lemma put_write:
  assumes "cap = RAILFS_HEADER_SIZE + 8 + 4 + length path + 8 + 4 + 1 + RAILFS_DIGEST_SIZE + 8" and "length digest = 16"
  shows "railfs_put_u64 0 (put_raw digest (railfs_put_u8 (if t then 1 else 0) (railfs_put_u32 len (railfs_put_u64 offset
      (railfs_put_str path (put_raw (w_u64 Rid) (begun cap))))))) =
    put_raw (encode_WriteRequest \<lparr>WriteRequest_Id = Rid, WriteRequest_Path = path, WriteRequest_Offset = offset, WriteRequest_Length = len,
      WriteRequest_Truncate = t, WriteRequest_Payload = digest, WriteRequest_Handle = 0\<rparr>) (begun cap)"
  using assms by (simp add: put_words put_next put_next_str encode_WriteRequest_def w_bool_def w_hash_def RAILFS_DIGEST_SIZE_def)

text \<open>The requests of the mount and the messages they stand for.\<close>

datatype kernel_request =
    KStat string
  | KList string
  | KSpace string
  | KMeta railfs_meta_req
  | KRead string u64 u32
  | KWrite string u64 "byte list" bool

definition page_len :: "u32 \<Rightarrow> u32" where
  "page_len len = (if RAILFS_PAGE_SIZE < unat len then of_nat RAILFS_PAGE_SIZE else len)"

fun message_of :: "kernel_env \<Rightarrow> u64 \<Rightarrow> kernel_request \<Rightarrow> Message" where
  "message_of K Rid (KStat path) = StatRequest \<lparr>StatRequest_Id = Rid, StatRequest_Path = path\<rparr>"
| "message_of K Rid (KList path) = ListRequest \<lparr>ListRequest_Id = Rid, ListRequest_Path = path\<rparr>"
| "message_of K Rid (KSpace path) = StatFsRequest \<lparr>StatFsRequest_Id = Rid, StatFsRequest_Path = path\<rparr>"
| "message_of K Rid (KMeta req) =
     MetaRequest \<lparr>MetaRequest_Id = Rid, MetaRequest_Op = m_op req, MetaRequest_Path = m_path req,
       MetaRequest_Target = (case m_target req of None \<Rightarrow> [] | Some t \<Rightarrow> t), MetaRequest_Size = m_size req, MetaRequest_Mode = m_mode req,
       MetaRequest_Mtime = m_mtime req, MetaRequest_Handle = 0, MetaRequest_Exclusive = False\<rparr>"
| "message_of K Rid (KRead path offset len) =
     ReadRequest \<lparr>ReadRequest_Id = Rid, ReadRequest_Path = path, ReadRequest_Offset = offset, ReadRequest_Length = page_len len, ReadRequest_Handle = 0\<rparr>"
| "message_of K Rid (KWrite path offset buf t) =
     WriteRequest \<lparr>WriteRequest_Id = Rid, WriteRequest_Path = path, WriteRequest_Offset = offset,
       WriteRequest_Length = of_nat (length (take RAILFS_PAGE_SIZE buf)), WriteRequest_Truncate = t,
       WriteRequest_Payload = railfs_digest (k_xxh64 K) (take RAILFS_PAGE_SIZE buf), WriteRequest_Handle = 0\<rparr>"

text \<open>The connection that a request leaves behind.\<close>

fun kernel_does :: "kernel_env \<Rightarrow> kernel_request \<Rightarrow> railfs_conn \<Rightarrow> railfs_conn" where
  "kernel_does K (KStat path) conn = snd (railfs_stat K path conn)"
| "kernel_does K (KList path) conn = snd (railfs_list K path conn)"
| "kernel_does K (KSpace path) conn = snd (railfs_space_of K path conn)"
| "kernel_does K (KMeta req) conn = snd (railfs_meta_send K req conn)"
| "kernel_does K (KRead path offset len) conn = snd (railfs_read K path offset len conn)"
| "kernel_does K (KWrite path offset buf t) conn = snd (railfs_write K path offset buf t conn)"

text \<open>Waiting, reading and killing send nothing.\<close>

lemma kill_sent [simp]: "n_sent (railfs_conn_kill e conn) = n_sent conn" "n_data_sent (railfs_conn_kill e conn) = n_data_sent conn"
  by (simp_all add: railfs_conn_kill_def)

lemma wait_sent: "railfs_wait_on w conn = (r, c) \<Longrightarrow> n_sent c = n_sent conn \<and> n_data_sent c = n_data_sent conn"
  by (auto simp: railfs_wait_on_def split: waited.splits)

lemma abandon_sent [simp]: "n_sent (railfs_abandon_or_kill e b conn) = n_sent conn" "n_data_sent (railfs_abandon_or_kill e b conn) = n_data_sent conn"
  by (simp_all add: railfs_abandon_or_kill_def)

lemma reply_kills_sent [simp]: "n_sent (reply_kills r p conn) = n_sent conn" "n_data_sent (reply_kills r p conn) = n_data_sent conn"
  by (simp_all add: reply_kills_def split: sum.split prod.split)

lemma asks_sent:
  assumes "k_mem K cap" and "\<not> n_dead conn" and "k_send K (frame M) = None" and "T = type_code (typeOf M)" and "RAILFS_HEADER_SIZE + length (encode M) \<le> cap"
    and "puts (put_raw (w_u64 (n_next_id conn + 1)) (begun cap)) = put_raw (encode M) (begun cap)"
  shows "n_sent (snd (asks K cap puts T want m conn)) = n_sent conn @ frame M \<and> n_data_sent (snd (asks K cap puts T want m conn)) = n_data_sent conn"
  unfolding asks_sends [where K = K and cap = cap and puts = puts and M = M and T = T and conn = conn, OF assms]
  by (auto dest!: wait_sent split: prod.split sum.split)

lemma landing_sent: "n_sent (snd (read_landing K Rid conn)) = n_sent conn" "n_data_sent (snd (read_landing K Rid conn)) = n_data_sent conn"
  by (auto simp: read_landing_def Let_def dest!: wait_sent split: sum.split prod.split)

lemma write_payload_sent:
  assumes "\<And>bs. k_data_send K bs = None"
  shows "n_sent (snd (write_payload K Rid buf conn)) = n_sent conn" "n_data_sent (snd (write_payload K Rid buf conn)) = n_data_sent conn @ tcp_send Rid buf"
proof -
  have g: "railfs_give_payload K Rid buf conn = (None, conn\<lparr>n_data_sent := n_data_sent conn @ tcp_send Rid buf\<rparr>)"
    by (simp add: railfs_give_payload_def assms tcp_send_def tcp_header_def Let_def)
  show "n_sent (snd (write_payload K Rid buf conn)) = n_sent conn" "n_data_sent (snd (write_payload K Rid buf conn)) = n_data_sent conn @ tcp_send Rid buf"
    by (auto simp: write_payload_def g Let_def dest!: wait_sent split: sum.split prod.split)
qed

lemma railfs_read_sends:
  fixes conn
  defines "Rid \<equiv> n_next_id conn + 1"
  assumes "\<And>n. k_mem K n" and "\<not> n_dead conn" and "n_data conn" and "k_admit K = None" and "page_len len \<noteq> 0"
    and "k_send K (frame (message_of K Rid (KRead path offset len))) = None"
  shows "railfs_read K path offset len conn = read_landing K Rid (conn\<lparr>n_next_id := Rid, n_sent := n_sent conn @ frame (message_of K Rid (KRead path offset len))\<rparr>)"
proof -
  let ?cap = "RAILFS_HEADER_SIZE + 8 + 4 + length path + 8 + 4 + 8" and ?M = "message_of K Rid (KRead path offset len)"
  let ?c = "put_raw (encode ?M) (begun ?cap)"
  have l: "RAILFS_HEADER_SIZE + length (encode ?M) \<le> ?cap" by (simp add: encode_ReadRequest_def)
  have p: "railfs_put_u64 0 (railfs_put_u32 (page_len len) (railfs_put_u64 offset (railfs_put_str path (put_raw (w_u64 Rid) (begun ?cap))))) = ?c"
    using put_read [OF refl] by simp
  have f: "sealed RAILFS_MSG_READ ?c = frame ?M" by (rule sealed_frame [OF l]) (simp add: RAILFS_MSG_READ_def)
  show ?thesis
    unfolding railfs_read_def page_len_def [symmetric] begun_request
    using assms(2-7) p f sent_frame(1) [OF l] by (simp add: Let_def railfs_send_def Rid_def)
qed

lemma railfs_write_sends:
  fixes conn
  defines "Rid \<equiv> n_next_id conn + 1"
  assumes "\<And>n. k_mem K n" and "\<not> n_dead conn" and "n_data conn" and "k_admit K = None"
    and "k_send K (frame (message_of K Rid (KWrite path offset buf t))) = None"
  shows "railfs_write K path offset buf t conn =
    write_payload K Rid (take RAILFS_PAGE_SIZE buf) (conn\<lparr>n_next_id := Rid, n_sent := n_sent conn @ frame (message_of K Rid (KWrite path offset buf t))\<rparr>)"
proof -
  let ?cap = "RAILFS_HEADER_SIZE + 8 + 4 + length path + 8 + 4 + 1 + RAILFS_DIGEST_SIZE + 8" and ?M = "message_of K Rid (KWrite path offset buf t)"
  let ?c = "put_raw (encode ?M) (begun ?cap)" and ?b = "take RAILFS_PAGE_SIZE buf"
  have l: "RAILFS_HEADER_SIZE + length (encode ?M) \<le> ?cap" by (simp add: encode_WriteRequest_def w_hash_def RAILFS_DIGEST_SIZE_def)
  have p: "railfs_put_u64 0 (put_raw (railfs_digest (k_xxh64 K) ?b) (railfs_put_u8 (if t then 1 else 0) (railfs_put_u32 (of_nat (length ?b)) (railfs_put_u64 offset
      (railfs_put_str path (put_raw (w_u64 Rid) (begun ?cap))))))) = ?c"
    using put_write [OF refl length_railfs_digest] by simp
  have f: "sealed RAILFS_MSG_WRITE ?c = frame ?M" by (rule sealed_frame [OF l]) (simp add: RAILFS_MSG_WRITE_def)
  show ?thesis
    unfolding railfs_write_def begun_request
    using assms(2-6) p f sent_frame(1) [OF l] by (simp add: Let_def railfs_send_def Rid_def)
qed

end
