(* ===== verification/KernelMount.thy ===== *)
theory KernelMount
  imports KernelClient
begin

text \<open>
  The kernel mount and the daemon together: what the requests of \<open>KernelClient\<close> put on the wire, what
  the daemon's handlers (\<open>FileService\<close>) answer, and what the calls on the mount then return.
\<close>

section \<open>Replies are read as the codec wrote them\<close>

lemma opened_reading: "opened bs = reading [] bs"
  by (simp add: opened_def reading_def)

lemma read_fields_reading:
  "read_fields Rid (w_u64 Rid @ rest) m = (case m (reading (w_u64 Rid) rest) of Inl e \<Rightarrow> Inl e | Inr (v, _) \<Rightarrow> Inr v)"
  by (simp add: read_fields_def railfs_reply_for_def opened_reading get_simps)

lemma reply_kills_own [simp]: "reply_kills Rid (w_u64 Rid @ rest) conn = conn"
  using get_words(4) [of "[]" Rid rest] by (simp add: reply_kills_def opened_reading)

lemma read_stat:
  "StatReply_Id v = Rid \<Longrightarrow>
     read_fields Rid (encode_StatReply v) (get_then railfs_get_u8 (\<lambda>here. if here = 0 then got None else get_then railfs_get_attrs (\<lambda>a. got (Some a)))) =
     Inr (if StatReply_Found v then Some (attrs_of (StatReply_Attrs v)) else None)"
  using get_attrs [of "w_u64 Rid @ w_bool True" "StatReply_Attrs v" "[]"]
  by (auto simp: encode_StatReply_def read_fields_reading get_simps)

lemma get_dirents_reading:
  assumes "\<And>n. mem n" and "list_all wf_ListEntry es"
  shows "get_dirents mem (length es) (reading pre (concat (map write_ListEntry es) @ rest)) =
    Inr (map (\<lambda>E. (ListEntry_Name E, attrs_of (ListEntry_Attrs E))) es, reading (pre @ concat (map write_ListEntry es)) rest)"
  using assms(2)
proof (induction es arbitrary: pre)
  case Nil
  then show ?case by (simp add: got_def)
next
  case (Cons E es)
  then have w: "wf_str (ListEntry_Name E)" by (simp add: wf_ListEntry_def)
  let ?N = "ListEntry_Name E" and ?A = "ListEntry_Attrs E" and ?r = "concat (map write_ListEntry es) @ rest"
  have e: "write_ListEntry E = w_str ?N @ writeAttrs ?A" by (simp add: write_ListEntry_def)
  have g: "railfs_get_str mem (reading pre (w_str ?N @ writeAttrs ?A @ ?r)) = Inr (?N, reading (pre @ w_str ?N) (writeAttrs ?A @ ?r))"
    using get_str [OF w] assms(1) by simp
  have "get_dirents mem (length es) (reading (pre @ write_ListEntry E) ?r) =
    Inr (map (\<lambda>E. (ListEntry_Name E, attrs_of (ListEntry_Attrs E))) es, reading ((pre @ write_ListEntry E) @ concat (map write_ListEntry es)) rest)"
    using Cons by simp
  then show ?case using g get_attrs [of "pre @ w_str ?N" ?A ?r] by (simp add: e get_then_def got_def)
qed

lemma read_list:
  assumes "ListReply_Id v = Rid" and "wf_ListReply v" and "\<And>n. mem n"
  shows "read_fields Rid (encode_ListReply v) (get_then railfs_get_u8 (\<lambda>found. get_then railfs_get_u32 (\<lambda>n.
      if found = 0 then failed (- ENOENT) else if length (encode_ListReply v) < unat n * 54 then failed (- EBADMSG)
      else if \<not> mem (max 1 (unat n) * RAILFS_DIRENT_SIZE) then failed (- ENOMEM) else get_dirents mem (unat n)))) =
    (if ListReply_Found v then Inr (map (\<lambda>E. (ListEntry_Name E, attrs_of (ListEntry_Attrs E))) (ListReply_Entries v)) else Inl (- ENOENT))"
proof -
  let ?es = "ListReply_Entries v"
  have n: "unat (of_nat (length ?es) :: u32) = length ?es" using assms(2) by (intro unat_of_nat_small) (simp add: wf_ListReply_def)
  have "length ?es * kListEntryFloor \<le> length (concat (map write_ListEntry ?es))" by (rule length_concat_ge) (simp add: length_write_ListEntry)
  then have "length ?es * 54 \<le> length (encode_ListReply v)" by (simp add: encode_ListReply_def kListEntryFloor_def kAttrsBytes_def)
  then show ?thesis
    using get_dirents_reading [of mem ?es] assms by (simp add: encode_ListReply_def read_fields_reading get_simps n wf_ListReply_def)
qed

lemma read_space:
  "StatFsReply_Id v = Rid \<Longrightarrow>
     read_fields Rid (encode_StatFsReply v) (get_then railfs_get_u8 (\<lambda>ok. get_then railfs_get_u64 (\<lambda>block_size. get_then railfs_get_u64 (\<lambda>blocks.
          get_then railfs_get_u64 (\<lambda>blocks_free. get_then railfs_get_u64 (\<lambda>files. get_then railfs_get_u64 (\<lambda>files_free.
          if ok = 0 then failed (- EIO)
          else got \<lparr>s_block_size = block_size, s_blocks = blocks, s_blocks_free = blocks_free, s_files = files, s_files_free = files_free\<rparr>))))))) =
     (if StatFsReply_Ok v
      then Inr \<lparr>s_block_size = StatFsReply_BlockSize v, s_blocks = StatFsReply_Blocks v, s_blocks_free = StatFsReply_BlocksFree v,
        s_files = StatFsReply_Files v, s_files_free = StatFsReply_FilesFree v\<rparr>
      else Inl (- EIO))"
  by (auto simp: encode_StatFsReply_def read_fields_reading get_simps)

lemma read_meta:
  assumes "MetaReply_Id v = Rid" and "wf_MetaReply v" and "\<forall>n. mem n"
  shows "read_fields Rid (encode_MetaReply v) (get_then railfs_get_u8 (\<lambda>ok. get_then (railfs_get_str mem) (\<lambda>message. get_then (railfs_get_str mem) (\<lambda>reported.
              get_then railfs_get_u32 (\<lambda>code. get_then railfs_get_attrs (\<lambda>attrs.
              if ok = 0 then failed (if 0 < unat code \<and> unat code < MAX_ERRNO then - int (unat code) else - EIO)
              else got (reported, attrs))))))) =
    (if MetaReply_Ok v then Inr (MetaReply_Target v, attrs_of (MetaReply_Attrs v))
     else Inl (let n = unat (MetaReply_Errno v) in if 0 < n \<and> n < MAX_ERRNO then - int n else - EIO))"
  using assms get_attrs [where rest = "[]"] by (auto simp: encode_MetaReply_def read_fields_reading get_simps wf_MetaReply_def Let_def)

lemma read_transfer:
  assumes "TransferReply_Id v = Rid"
  shows "railfs_read_reply Rid (opened (encode_TransferReply v)) =
    Inr ((TransferReply_Length v, TransferReply_FileSize v, if TransferReply_Ok v then 1 else 0),
      reading (w_u64 Rid @ w_u32 (TransferReply_Length v) @ w_u64 (TransferReply_FileSize v) @ w_bool (TransferReply_Ok v))
        (w_hash (TransferReply_Payload v) @ w_str (TransferReply_Error v)))"
  by (simp add: assms encode_TransferReply_def railfs_read_reply_def railfs_reply_for_def opened_reading get_simps)

lemma transfer_kills [simp]: "TransferReply_Id v = Rid \<Longrightarrow> reply_kills Rid (encode_TransferReply v) conn = conn"
  by (simp add: encode_TransferReply_def)

lemma matches_transfer:
  assumes "length D = 16"
  shows "railfs_matches_digest K (reading pre (w_hash D @ rest)) buf = (if D = railfs_digest (k_xxh64 K) buf then None else Some (- EBADMSG))"
  using assms by (simp add: railfs_matches_digest_def reading_def RAILFS_DIGEST_SIZE_def w_hash_def)

text \<open>The kernel's digest is the one the daemon computes for a session that agreed on XXH64.\<close>

lemma digests_agree:
  assumes "streams H F"
  shows "Verifier_digest H (Verifier_update H (Verifier_new H True XxH64) bs) = railfs_digest (\<lambda>bs. fst (F XxH64 bs)) bs"
proof -
  have "xx_digest (H XxH64) (xx_update (H XxH64) (xx_reset (H XxH64)) bs) = F XxH64 bs"
    using assms unfolding streams_def by (metis concat.simps append_Nil2 foldl_Cons foldl_Nil)
  then show ?thesis
    by (simp add: Verifier_digest_def Verifier_update_def Verifier_new_def Hasher_digest_def Hasher_update_def Hasher_new_def case_prod_beta
        railfs_digest_def memcpy_at_def RAILFS_DIGEST_SIZE_def)
qed

section \<open>Requests reach the daemon\<close>

definition ready :: "kernel_env \<Rightarrow> railfs_conn \<Rightarrow> bool" where
  "ready K conn \<longleftrightarrow> (\<forall>n. k_mem K n) \<and> \<not> n_dead conn \<and> n_data conn \<and> k_admit K = None \<and> (\<forall>bs. k_send K bs = None) \<and> (\<forall>bs. k_data_send K bs = None)"

lemma readyD:
  assumes "ready K conn"
  shows "k_mem K n" "\<not> n_dead conn" "n_data conn" "k_admit K = None" "k_send K bs = None" "k_data_send K bs = None"
  using assms by (simp_all add: ready_def)

lemma page_len_0: "page_len len = 0 \<longleftrightarrow> len = 0"
proof -
  have "(of_nat RAILFS_PAGE_SIZE :: u32) \<noteq> 0" by (simp add: RAILFS_PAGE_SIZE_def)
  then show ?thesis by (auto simp: page_len_def)
qed

lemma path_request:
  fixes conn and path
  defines "Rid \<equiv> n_next_id conn + 1" and "c \<equiv> RAILFS_HEADER_SIZE + 8 + 4 + length path"
  assumes "ready K conn" and "encode M = w_u64 Rid @ w_str path" and "T = type_code (typeOf M)"
  shows "asks K c (railfs_put_str path) T want m conn =
    (case railfs_wait_on (k_reply K Rid want) (conn\<lparr>n_next_id := Rid, n_sent := n_sent conn @ frame M\<rparr>) of
       (Inl err, conn') \<Rightarrow> (Inl err, conn')
     | (Inr payload, conn') \<Rightarrow> (read_fields Rid payload (m (length payload)), reply_kills Rid payload conn'))"
  unfolding Rid_def
  by (rule asks_sends) (use readyD [OF assms(3)] assms(4,5) put_path [OF meta_eq_to_obj_eq [OF c_def]] in \<open>simp_all add: c_def Rid_def\<close>)

lemma meta_request:
  fixes conn and req
  defines "Rid \<equiv> n_next_id conn + 1"
  assumes "ready K conn"
  shows "railfs_meta_send K req conn =
    (case railfs_wait_on (k_reply K Rid RAILFS_MSG_META_REPLY) (conn\<lparr>n_next_id := Rid, n_sent := n_sent conn @ frame (message_of K Rid (KMeta req))\<rparr>) of
       (Inl err, conn') \<Rightarrow> (Inl err, conn')
     | (Inr payload, conn') \<Rightarrow>
         (read_fields Rid payload (get_then railfs_get_u8 (\<lambda>ok. get_then (railfs_get_str (k_mem K)) (\<lambda>message. get_then (railfs_get_str (k_mem K)) (\<lambda>reported.
              get_then railfs_get_u32 (\<lambda>code. get_then railfs_get_attrs (\<lambda>attrs.
              if ok = 0 then failed (if 0 < unat code \<and> unat code < MAX_ERRNO then - int (unat code) else - EIO)
              else got (reported, attrs))))))), reply_kills Rid payload conn'))"
  unfolding railfs_meta_send_def Let_def Rid_def
  by (rule asks_sends) (use readyD [OF assms(2)] put_meta [OF refl] in \<open>simp_all add: RAILFS_MSG_META_def encode_MetaRequest_def\<close>)

lemma stat_request:
  fixes conn and path
  defines "Rid \<equiv> n_next_id conn + 1"
  assumes "ready K conn"
  shows "railfs_stat K path conn =
    (case railfs_wait_on (k_reply K Rid RAILFS_MSG_STAT_REPLY) (conn\<lparr>n_next_id := Rid, n_sent := n_sent conn @ frame (message_of K Rid (KStat path))\<rparr>) of
       (Inl err, conn') \<Rightarrow> (Inl err, conn')
     | (Inr payload, conn') \<Rightarrow> (read_fields Rid payload (get_then railfs_get_u8 (\<lambda>here. if here = 0 then got None else get_then railfs_get_attrs (\<lambda>a. got (Some a)))), reply_kills Rid payload conn'))"
  unfolding railfs_stat_def Rid_def
  by (rule path_request [OF assms(2)]) (simp_all add: encode_StatRequest_def RAILFS_MSG_STAT_def)

lemma list_request:
  fixes conn and path
  defines "Rid \<equiv> n_next_id conn + 1"
  assumes "ready K conn"
  shows "railfs_list K path conn =
    (case railfs_wait_on (k_reply K Rid RAILFS_MSG_LIST_REPLY) (conn\<lparr>n_next_id := Rid, n_sent := n_sent conn @ frame (message_of K Rid (KList path))\<rparr>) of
       (Inl err, conn') \<Rightarrow> (Inl err, conn')
     | (Inr payload, conn') \<Rightarrow> (read_fields Rid payload (get_then railfs_get_u8 (\<lambda>found. get_then railfs_get_u32 (\<lambda>n.
      if found = 0 then failed (- ENOENT) else if length payload < unat n * 54 then failed (- EBADMSG)
      else if \<not> k_mem K (max 1 (unat n) * RAILFS_DIRENT_SIZE) then failed (- ENOMEM) else get_dirents (k_mem K) (unat n)))), reply_kills Rid payload conn'))"
  unfolding railfs_list_def Rid_def
  by (rule path_request [OF assms(2)]) (simp_all add: encode_ListRequest_def RAILFS_MSG_LIST_def)

lemma space_request:
  fixes conn and path
  defines "Rid \<equiv> n_next_id conn + 1"
  assumes "ready K conn"
  shows "railfs_space_of K path conn =
    (case railfs_wait_on (k_reply K Rid RAILFS_MSG_STATFS_REPLY) (conn\<lparr>n_next_id := Rid, n_sent := n_sent conn @ frame (message_of K Rid (KSpace path))\<rparr>) of
       (Inl err, conn') \<Rightarrow> (Inl err, conn')
     | (Inr payload, conn') \<Rightarrow> (read_fields Rid payload (get_then railfs_get_u8 (\<lambda>ok. get_then railfs_get_u64 (\<lambda>block_size. get_then railfs_get_u64 (\<lambda>blocks.
          get_then railfs_get_u64 (\<lambda>blocks_free. get_then railfs_get_u64 (\<lambda>files. get_then railfs_get_u64 (\<lambda>files_free.
          if ok = 0 then failed (- EIO)
          else got \<lparr>s_block_size = block_size, s_blocks = blocks, s_blocks_free = blocks_free, s_files = files, s_files_free = files_free\<rparr>))))))), reply_kills Rid payload conn'))"
  unfolding railfs_space_of_def Rid_def
  by (rule path_request [OF assms(2)]) (simp_all add: encode_StatFsRequest_def RAILFS_MSG_STATFS_def)

lemma kernel_sends:
  fixes conn and r
  defines "Rid \<equiv> n_next_id conn + 1"
  assumes "ready K conn" and "\<forall>path offset. r \<noteq> KRead path offset 0"
  shows "n_sent (kernel_does K r conn) = n_sent conn @ frame (message_of K Rid r) \<and>
    n_data_sent (kernel_does K r conn) = n_data_sent conn @ (case r of KWrite path offset buf t \<Rightarrow> tcp_send Rid (take RAILFS_PAGE_SIZE buf) | _ \<Rightarrow> [])"
proof (cases r)
  case (KStat path)
  then show ?thesis using stat_request [OF assms(2), of path] by (auto simp: Rid_def dest!: wait_sent split: prod.split sum.split)
next
  case (KList path)
  then show ?thesis using list_request [OF assms(2), of path] by (auto simp: Rid_def dest!: wait_sent split: prod.split sum.split)
next
  case (KSpace path)
  then show ?thesis using space_request [OF assms(2), of path] by (auto simp: Rid_def dest!: wait_sent split: prod.split sum.split)
next
  case (KMeta req)
  then show ?thesis using meta_request [OF assms(2), of req] by (auto simp: Rid_def dest!: wait_sent split: prod.split sum.split)
next
  case (KRead path offset len)
  then have "page_len len \<noteq> 0" using assms(3) by (auto simp: page_len_0)
  then show ?thesis using railfs_read_sends [of K conn len path offset] readyD [OF assms(2)] KRead by (simp add: landing_sent Rid_def)
next
  case (KWrite path offset buf t)
  then show ?thesis using railfs_write_sends [of K conn path offset buf t] readyD [OF assms(2)] by (simp add: write_payload_sent Rid_def)
qed

lemma hello_frame:
  "railfs_say_hello_frame rdma verify =
     Inr (frame (Hello \<lparr>Hello_Version = 1, Hello_Backend = (if rdma then ''rdma'' else ''tcp''), Hello_BlockSize = 0, Hello_PageCount = 16, Hello_PageSize = 1048576,
       Hello_WindowPages = 1, Hello_Recursive = False, Hello_Verify = verify, Hello_Sum = 2\<rparr>))"
proof -
  let ?M = "Hello \<lparr>Hello_Version = 1, Hello_Backend = (if rdma then ''rdma'' else ''tcp''), Hello_BlockSize = 0, Hello_PageCount = 16, Hello_PageSize = 1048576,
       Hello_WindowPages = 1, Hello_Recursive = False, Hello_Verify = verify, Hello_Sum = 2\<rparr>"
  have h: "\<lparr>c_buf = replicate 256 0, c_len = 256, c_at = RAILFS_HEADER_SIZE, c_overrun = False\<rparr> = begun 256" by (simp add: begun_def)
  have l: "RAILFS_HEADER_SIZE + length (encode ?M) \<le> 256" by (simp add: encode_Hello_def RAILFS_HEADER_SIZE_def)
  have "railfs_say_hello_frame rdma verify = (let c = put_raw (encode ?M) (begun 256) in if \<not> railfs_cursor_ok c then Inl (- EOVERFLOW) else Inr (sealed RAILFS_MSG_HELLO c))"
    unfolding railfs_say_hello_frame_def RAILFS_HELLO_BYTES_def h Let_def
    by (simp add: put_words put_next put_next_str RAILFS_HEADER_SIZE_def encode_Hello_def w_bool_def RAILFS_WIRE_VERSION_def RAILFS_PAGE_COUNT_def RAILFS_CONN_DEPTH_def
        RAILFS_PAGE_SIZE_def RAILFS_SUM_XXH64_def)
  moreover have "sealed RAILFS_MSG_HELLO (put_raw (encode ?M) (begun 256)) = frame ?M" by (rule sealed_frame [OF l]) (simp add: RAILFS_MSG_HELLO_def)
  ultimately show ?thesis using sent_frame(1) [OF l] by simp
qed

text \<open>What the daemon may send and the kernel's reader refuses: a frame over a megabyte, such as the listing of a large directory.\<close>

lemma large_reply_refused:
  assumes "1048576 < length (encode M)" and "length (encode M) < 2 ^ 32"
  shows "railfs_read_header (take RAILFS_HEADER_SIZE (frame M)) = Inl (- EMSGSIZE)"
proof -
  let ?L = "of_nat (length (encode M)) :: u32" and ?T = "type_code (typeOf M)"
  have n: "unat ?L = length (encode M)" using assms(2) by (intro unat_of_nat_small) simp
  have f: "take RAILFS_HEADER_SIZE (frame M) = w_u32 kMagic @ w_u16 ?T @ w_u32 ?L"
    by (simp add: frame_def RAILFS_HEADER_SIZE_def w_u32_def w_u16_def)
  show ?thesis
    using assms(1) n header_parts [of ?T ?L] by (simp add: railfs_read_header_def f Let_def same_magic RAILFS_MAX_FRAME_def)
qed

section \<open>What the mount's calls return\<close>

text \<open>
  C5. The kernel module and the daemon speak the same protocol. Every request of the kernel mount,
  written field by field by its own C code, is byte for byte the frame that the C++ codec writes for
  that message under the next id, so the daemon's control channel receives exactly that message
  whatever chunks the socket delivers; and the payload of a write goes out as the one frame under
  the same id that the daemon's data channel expects.
\<close>

theorem kernel_speaks_codec:
  assumes "ready K conn" and "\<forall>path offset. r \<noteq> KRead path offset 0" and "M = message_of K (n_next_id conn + 1) r"
    and "wf_Message M" and "length (encode M) \<le> unat kMaxFrame" and "live es" and "flow es = drop (length (n_sent conn)) (n_sent (kernel_does K r conn)) @ rest"
  shows "n_sent (kernel_does K r conn) = n_sent conn @ frame M \<and>
    n_data_sent (kernel_does K r conn) = n_data_sent conn @
      (case r of KWrite path offset buf t \<Rightarrow> tcp_send (n_next_id conn + 1) (take RAILFS_PAGE_SIZE buf) | _ \<Rightarrow> []) \<and>
    (\<exists>es'. receive es = (Inr M, es') \<and> live es' \<and> flow es' = rest)"
  using kernel_sends [OF assms(1,2)] receive_frame [OF assms(4-6), of rest] assms(3,7) by simp

text \<open>A mount with memory, a live connection, and a peer that answers what is given.\<close>

definition sample_env :: "(u64 \<Rightarrow> byte list waited) \<Rightarrow> (u64 \<Rightarrow> byte list waited) \<Rightarrow> kernel_env" where
  "sample_env reply payload = \<lparr>k_mem = (\<lambda>_. True), k_send = (\<lambda>_. None), k_reply = (\<lambda>Rid _. reply Rid), k_admit = None, k_data = payload, k_data_send = (\<lambda>_. None),
     k_xxh64 = (\<lambda>bs. of_nat (length bs))\<rparr>"

definition sample_conn :: railfs_conn where
  "sample_conn = \<lparr>n_next_id = 6, n_data = True, n_verify = True, n_dead = False, n_why = 0, n_sent = [], n_data_sent = []\<rparr>"

lemma sample_ready: "ready (sample_env r d) sample_conn"
  by (simp add: ready_def sample_env_def sample_conn_def)

text \<open>The messages a request makes the daemon send.\<close>

definition answers :: "'h xxlib \<Rightarrow> sys \<Rightarrow> ctx \<Rightarrow> Message \<Rightarrow> Message \<Rightarrow> bool" where
  "answers H Y x M R \<longleftrightarrow> X_Sent (snd (dispatch H Y M x)) = X_Sent x @ [R]"

lemma stat_answer:
  assumes "answers H Y x (StatRequest \<lparr>StatRequest_Id = Rid, StatRequest_Path = path\<rparr>) R"
  shows "R = StatReply (case underRoot (y_fs Y) (X_Root x) path of
      Inl _ \<Rightarrow> \<lparr>StatReply_Id = Rid, StatReply_Found = False, StatReply_Attrs = FileAttrs_none\<rparr>
    | Inr p \<Rightarrow> \<lparr>StatReply_Id = Rid, StatReply_Found = fst (fst (attrsOf Y p x)), StatReply_Attrs = snd (fst (attrsOf Y p x))\<rparr>)"
  using assms by (auto simp: answers_def dispatch_def onStat_def send_def attrsOf_def call_def split: sum.splits option.splits)

lemma held_keeps:
  "heldFor Y h path Flags x = (r, x1) \<Longrightarrow> X_Sent x1 = X_Sent x \<and> X_Posted x1 = X_Posted x \<and> X_Verify x1 = X_Verify x \<and> X_Agreed x1 = X_Agreed x"
  by (auto simp: heldFor_def cache_get_def Let_def call_def split: if_splits option.splits sum.splits prod.splits)

lemma railfs_stat_answered:
  assumes "ready K conn" and "k_reply K (n_next_id conn + 1) RAILFS_MSG_STAT_REPLY = Completed (Inr (encode_StatReply v))" and "StatReply_Id v = n_next_id conn + 1"
  shows "fst (railfs_stat K path conn) = Inr (if StatReply_Found v then Some (attrs_of (StatReply_Attrs v)) else None)"
  using assms stat_request [OF assms(1), of path] read_stat [OF assms(3)] by (simp add: railfs_wait_on_def)

lemma railfs_list_answered:
  assumes "ready K conn" and "k_reply K (n_next_id conn + 1) RAILFS_MSG_LIST_REPLY = Completed (Inr (encode_ListReply v))" and "ListReply_Id v = n_next_id conn + 1"
    and "wf_ListReply v"
  shows "fst (railfs_list K path conn) =
    (if ListReply_Found v then Inr (map (\<lambda>E. (ListEntry_Name E, attrs_of (ListEntry_Attrs E))) (ListReply_Entries v)) else Inl (- ENOENT))"
  using assms list_request [OF assms(1), of path] read_list [OF assms(3,4), of "k_mem K"] readyD(1) [OF assms(1)] by (simp add: railfs_wait_on_def)

lemma railfs_space_answered:
  assumes "ready K conn" and "k_reply K (n_next_id conn + 1) RAILFS_MSG_STATFS_REPLY = Completed (Inr (encode_StatFsReply v))" and "StatFsReply_Id v = n_next_id conn + 1"
  shows "fst (railfs_space_of K path conn) =
    (if StatFsReply_Ok v
     then Inr \<lparr>s_block_size = StatFsReply_BlockSize v, s_blocks = StatFsReply_Blocks v, s_blocks_free = StatFsReply_BlocksFree v,
       s_files = StatFsReply_Files v, s_files_free = StatFsReply_FilesFree v\<rparr>
     else Inl (- EIO))"
  using assms space_request [OF assms(1), of path] read_space [OF assms(3)] by (simp add: railfs_wait_on_def)

lemma railfs_meta_answered:
  assumes "ready K conn" and "k_reply K (n_next_id conn + 1) RAILFS_MSG_META_REPLY = Completed (Inr (encode_MetaReply v))" and "MetaReply_Id v = n_next_id conn + 1"
    and "wf_MetaReply v"
  shows "fst (railfs_meta_send K req conn) =
    (if MetaReply_Ok v then Inr (MetaReply_Target v, attrs_of (MetaReply_Attrs v))
     else Inl (let n = unat (MetaReply_Errno v) in if 0 < n \<and> n < MAX_ERRNO then - int n else - EIO))"
  using assms meta_request [OF assms(1), of req] read_meta [OF assms(3,4), of "k_mem K"] readyD(1) [OF assms(1)] by (simp add: railfs_wait_on_def)

lemma railfs_read_answered:
  assumes "ready K conn" and "len \<noteq> 0" and "k_reply K (n_next_id conn + 1) RAILFS_MSG_TRANSFER_REPLY = Completed (Inr (encode_TransferReply v))"
    and "TransferReply_Id v = n_next_id conn + 1" and "length (TransferReply_Payload v) = 16" and "k_data K (n_next_id conn + 1) = Completed (Inr buf)"
  shows "fst (railfs_read K path offset len conn) =
    (if \<not> TransferReply_Ok v then Inl (- EIO)
     else if n_verify conn \<and> TransferReply_Payload v \<noteq> railfs_digest (k_xxh64 K) buf then Inl (- EBADMSG)
     else Inr (min (unat (TransferReply_Length v)) (length buf), buf))"
proof -
  have "page_len len \<noteq> 0" using assms(2) by (simp add: page_len_0)
  then have "railfs_read K path offset len conn = read_landing K (n_next_id conn + 1)
      (conn\<lparr>n_next_id := n_next_id conn + 1, n_sent := n_sent conn @ frame (message_of K (n_next_id conn + 1) (KRead path offset len))\<rparr>)"
    using railfs_read_sends [of K conn len path offset] readyD [OF assms(1)] by simp
  then show ?thesis
    using assms(3-6) read_transfer [OF assms(4)] by (simp add: read_landing_def railfs_wait_on_def matches_transfer)
qed

lemma railfs_write_answered:
  assumes "ready K conn" and "k_reply K (n_next_id conn + 1) RAILFS_MSG_TRANSFER_REPLY = Completed (Inr (encode_TransferReply v))"
    and "TransferReply_Id v = n_next_id conn + 1"
  shows "fst (railfs_write K path offset buf t conn) = (if TransferReply_Ok v then Inr (unat (TransferReply_Length v)) else Inl (- EIO))"
  using assms(2,3) railfs_write_sends [of K conn path offset buf t] readyD [OF assms(1)] read_transfer [OF assms(3)]
  by (simp add: write_payload_def railfs_give_payload_def railfs_wait_on_def Let_def)

text \<open>The daemon's side of a read that finds its file.\<close>

definition read_reply :: "'h xxlib \<Rightarrow> sys \<Rightarrow> ctx \<Rightarrow> u64 \<Rightarrow> int \<Rightarrow> byte list \<Rightarrow> byte list \<Rightarrow> bool \<Rightarrow> string \<Rightarrow> TransferReply" where
  "read_reply H Y x Rid Fd Got Buf Ok Err =
     \<lparr>TransferReply_Id = Rid, TransferReply_Length = of_nat (length Got), TransferReply_FileSize = (case y_fstat Y Fd of None \<Rightarrow> 0 | Some n \<Rightarrow> n), TransferReply_Ok = Ok,
      TransferReply_Payload = Verifier_digest H (Verifier_update H (Verifier_new H (X_Verify x) (X_Agreed x)) Buf), TransferReply_Error = Err\<rparr>"

lemma daemon_reads:
  fixes Y
  defines "Got \<equiv> (case y_read Y of Inl _ \<Rightarrow> [] | Inr bs \<Rightarrow> bs)"
  assumes "y_acquire Y = Some Capacity" and "unat len \<le> Capacity" and "len \<noteq> 0" and "\<forall>n. y_send Y n = Inr ()" and "heldFor Y Hd path O_RDONLY x = (Inr Fd, x1)"
  shows "X_Sent (snd (dispatch H Y (ReadRequest \<lparr>ReadRequest_Id = Rid, ReadRequest_Path = path, ReadRequest_Offset = offset, ReadRequest_Length = len, ReadRequest_Handle = Hd\<rparr>) x)) =
      X_Sent x @ [TransferReply (read_reply H Y x Rid Fd Got (Got @ replicate (unat len - length Got) 0) (is_ok (y_read Y)) (case y_read Y of Inl e \<Rightarrow> y_text Y e | Inr _ \<Rightarrow> []))]"
    and "X_Posted (snd (dispatch H Y (ReadRequest \<lparr>ReadRequest_Id = Rid, ReadRequest_Path = path, ReadRequest_Offset = offset, ReadRequest_Length = len, ReadRequest_Handle = Hd\<rparr>) x)) =
      X_Posted x @ [(Rid, Got @ replicate (unat len - length Got) 0)]"
  using assms(2-6) held_keeps [OF assms(6)]
  by (auto simp: dispatch_def onRead_def readInto_def Let_def send_def call_def endSession_def TransferReply_new_def read_reply_def Got_def is_ok_def unat_eq_0 min_absorb1
      split: sum.split option.split)

text \<open>
  C14. A read through the kernel mount returns what the daemon read from the file. The request of the
  kernel module reaches the daemon's handler, the bytes and their digest come back in two frames, and
  the call returns as many bytes as the daemon had, at the front of a buffer that is zero behind
  them; with verification on the kernel's own hash accepts the daemon's digest. When the daemon's
  read fails the call fails with EIO.
\<close>

theorem kernel_read_end_to_end:
  assumes "ready K conn" and "len \<noteq> 0" and "unat len \<le> RAILFS_PAGE_SIZE"
    and "answers H Y x (message_of K (n_next_id conn + 1) (KRead path offset len)) R" and "k_reply K (n_next_id conn + 1) RAILFS_MSG_TRANSFER_REPLY = Completed (Inr (encode R))"
    and "X_Posted (snd (dispatch H Y (message_of K (n_next_id conn + 1) (KRead path offset len)) x)) = X_Posted x @ [(n_next_id conn + 1, buf)]"
    and "k_data K (n_next_id conn + 1) = Completed (Inr buf)"
    and "y_acquire Y = Some RAILFS_PAGE_SIZE" and "\<forall>n. y_send Y n = Inr ()" and "heldFor Y 0 path O_RDONLY x = (Inr Fd, x1)"
    and "\<forall>Got. y_read Y = Inr Got \<longrightarrow> length Got \<le> unat len"
    and "X_Verify x = n_verify conn" and "X_Agreed x = XxH64" and "streams H F" and "k_xxh64 K = (\<lambda>bs. fst (F XxH64 bs))"
  shows "fst (railfs_read K path offset len conn) =
    (case y_read Y of Inl _ \<Rightarrow> Inl (- EIO) | Inr Got \<Rightarrow> Inr (length Got, Got @ replicate (unat len - length Got) 0))"
proof -
  let ?Rid = "n_next_id conn + 1" and ?Got = "case y_read Y of Inl _ \<Rightarrow> [] | Inr bs \<Rightarrow> bs"
  let ?B = "?Got @ replicate (unat len - length ?Got) 0" and ?E = "case y_read Y of Inl e \<Rightarrow> y_text Y e | Inr _ \<Rightarrow> []"
  let ?v = "read_reply H Y x ?Rid Fd ?Got ?B (is_ok (y_read Y)) ?E"
  have l: "page_len len = len" using assms(3) by (simp add: page_len_def)
  note d = daemon_reads [OF assms(8,3,2,9,10), where H = H and Rid = ?Rid and offset = offset]
  have R: "R = TransferReply ?v" using assms(4) d(1) l by (simp add: answers_def)
  have b: "buf = ?B" using assms(6) d(2) l by simp
  have n: "length (TransferReply_Payload ?v) = 16" using assms(14) digests_agree [OF assms(14)]
    by (auto simp: read_reply_def Verifier_digest_def Hasher_digest_def split: prod.split)
  have ok: "TransferReply_Payload ?v = railfs_digest (k_xxh64 K) buf" if "n_verify conn"
    using digests_agree [OF assms(14), of ?B] that assms(12,13,15) b by (simp add: read_reply_def)
  have small: "unat (of_nat (length ?Got) :: u32) = length ?Got" if "y_read Y = Inr Got" for Got
    using assms(3,11) that by (intro unat_of_nat_small) (auto simp: RAILFS_PAGE_SIZE_def)
  have a: "fst (railfs_read K path offset len conn) =
    (if \<not> TransferReply_Ok ?v then Inl (- EIO) else if n_verify conn \<and> TransferReply_Payload ?v \<noteq> railfs_digest (k_xxh64 K) buf then Inl (- EBADMSG)
     else Inr (min (unat (TransferReply_Length ?v)) (length buf), buf))"
    by (rule railfs_read_answered [OF assms(1,2) _ _ n assms(7)]) (use assms(5) R in \<open>simp_all add: read_reply_def\<close>)
  show ?thesis
  proof (cases "y_read Y")
    case (Inl e)
    then show ?thesis using a by (simp add: read_reply_def is_ok_def)
  next
    case (Inr Got)
    then show ?thesis using a ok b small [OF Inr] by (simp add: read_reply_def is_ok_def)
  qed
qed

lemma daemon_writes:
  assumes "y_acquire Y = Some Capacity" and "unat len \<le> Capacity" and "y_payload Y = Inr Buf" and "\<forall>n. y_send Y n = Inr ()"
    and "Verifier_matches H (Verifier_update H (Verifier_new H (X_Verify x) (X_Agreed x)) Buf) D"
    and "answers H Y x (WriteRequest \<lparr>WriteRequest_Id = Rid, WriteRequest_Path = path, WriteRequest_Offset = offset, WriteRequest_Length = len, WriteRequest_Truncate = t,
      WriteRequest_Payload = D, WriteRequest_Handle = Hd\<rparr>) (TransferReply v)"
  shows "TransferReply_Id v = Rid" and "TransferReply_Ok v \<Longrightarrow> TransferReply_Length v = len"
    and "TransferReply_Ok v \<Longrightarrow> \<exists>Fd. last (X_Calls (snd (dispatch H Y (WriteRequest \<lparr>WriteRequest_Id = Rid, WriteRequest_Path = path, WriteRequest_Offset = offset,
      WriteRequest_Length = len, WriteRequest_Truncate = t, WriteRequest_Payload = D, WriteRequest_Handle = Hd\<rparr>) x))) = SysWrite Fd offset Buf \<and> y_write Y = Inr ()"
  using assms
  by (auto simp: answers_def dispatch_def onWrite_def Let_def send_def call_def TransferReply_new_def dest: held_keeps split: sum.splits prod.splits if_splits)

text \<open>
  A write through the kernel mount that succeeds is the daemon's write. The daemon's handler
  accepts the kernel's digest of the payload it received; if the call then returns a count, it is the
  length of the buffer, and the last thing the daemon did was to write exactly those bytes at that
  offset.
\<close>

theorem kernel_write_end_to_end:
  assumes "ready K conn" and "length buf \<le> RAILFS_PAGE_SIZE"
    and "answers H Y x (message_of K (n_next_id conn + 1) (KWrite path offset buf t)) (TransferReply v)"
    and "k_reply K (n_next_id conn + 1) RAILFS_MSG_TRANSFER_REPLY = Completed (Inr (encode (TransferReply v)))"
    and "y_acquire Y = Some RAILFS_PAGE_SIZE" and "y_payload Y = Inr buf" and "\<forall>n. y_send Y n = Inr ()"
    and "X_Verify x = n_verify conn" and "X_Agreed x = XxH64" and "streams H F" and "k_xxh64 K = (\<lambda>bs. fst (F XxH64 bs))"
  shows "case fst (railfs_write K path offset buf t conn) of
      Inl err \<Rightarrow> err = - EIO
    | Inr n \<Rightarrow> n = length buf \<and>
        (\<exists>Fd. last (X_Calls (snd (dispatch H Y (message_of K (n_next_id conn + 1) (KWrite path offset buf t)) x))) = SysWrite Fd offset buf \<and> y_write Y = Inr ())"
proof -
  let ?len = "of_nat (length buf) :: u32" and ?D = "railfs_digest (k_xxh64 K) buf" and ?Rid = "n_next_id conn + 1"
  have len: "unat ?len = length buf" using assms(2) by (intro unat_of_nat_small) (simp add: RAILFS_PAGE_SIZE_def)
  have t: "take RAILFS_PAGE_SIZE buf = buf" using assms(2) by simp
  have m: "Verifier_matches H (Verifier_update H (Verifier_new H (X_Verify x) (X_Agreed x)) buf) ?D"
    using digests_agree [OF assms(10), of buf] assms(9,11)
    by (auto simp: Verifier_matches_def Verifier_digest_def Verifier_update_def Verifier_new_def split: if_splits)
  have fits: "unat ?len \<le> RAILFS_PAGE_SIZE" using len assms(2) by simp
  have a: "answers H Y x (WriteRequest \<lparr>WriteRequest_Id = ?Rid, WriteRequest_Path = path, WriteRequest_Offset = offset, WriteRequest_Length = ?len, WriteRequest_Truncate = t,
      WriteRequest_Payload = ?D, WriteRequest_Handle = 0\<rparr>) (TransferReply v)"
    using assms(3) t by simp
  note d = daemon_writes [OF assms(5) fits assms(6,7) m a]
  have "fst (railfs_write K path offset buf t conn) = (if TransferReply_Ok v then Inr (unat (TransferReply_Length v)) else Inl (- EIO))"
    by (rule railfs_write_answered [OF assms(1) _ d(1)]) (use assms(4) in simp)
  then show ?thesis using d(2,3) len t by simp
qed

text \<open>A daemon whose file holds three bytes, in a session that verifies with XXH64, and a mount it answers.\<close>

definition file_sys :: sys where
  "file_sys = sample_sys\<lparr>y_acquire := Some RAILFS_PAGE_SIZE, y_read := Inr [1, 2, 3], y_fstat := (\<lambda>_. Some 3), y_payload := Inr [4, 5]\<rparr>"

definition file_ctx :: ctx where
  "file_ctx = sample_ctx\<lparr>X_Verify := True, X_Agreed := XxH64\<rparr>"

definition read_env :: kernel_env where
  "read_env = sample_env
     (\<lambda>_. Completed (Inr (encode (TransferReply (read_reply counting_xx file_sys file_ctx 7 9 [1, 2, 3] [1, 2, 3, 0, 0] True [])))))
     (\<lambda>_. Completed (Inr [1, 2, 3, 0, 0]))"

lemma file_held:
  assumes "Flags = O_RDONLY \<or> Flags = O_WRONLY + O_CREAT"
  shows "heldFor file_sys 0 ''f'' Flags file_ctx = (Inr 9, snd (heldFor file_sys 0 ''f'' Flags file_ctx))"
proof -
  have "fst (heldFor file_sys 0 ''f'' Flags file_ctx) = fst (heldFor sample_sys 0 ''f'' Flags sample_ctx)"
    by (simp add: heldFor_def cache_get_def Let_def file_sys_def file_ctx_def call_def split: sum.split option.split prod.split)
  moreover have "fst (heldFor sample_sys 0 ''f'' O_RDONLY sample_ctx) = Inr 9" "fst (heldFor sample_sys 0 ''f'' (O_WRONLY + O_CREAT) sample_ctx) = Inr 9" by code_simp+
  ultimately show ?thesis using assms by (auto simp: prod_eq_iff)
qed

lemma file_fields [simp]:
  "y_acquire file_sys = Some RAILFS_PAGE_SIZE" "y_send file_sys n = Inr ()" "y_read file_sys = Inr [1, 2, 3]" "y_payload file_sys = Inr [4, 5]" "y_write file_sys = Inr ()"
  "X_Verify file_ctx" "X_Agreed file_ctx = XxH64" "X_Sent file_ctx = []"
  by (simp_all add: file_sys_def sample_sys_def file_ctx_def sample_ctx_def)

lemma file_read:
  "answers counting_xx file_sys file_ctx (message_of read_env 7 (KRead ''f'' 0 5)) (TransferReply (read_reply counting_xx file_sys file_ctx 7 9 [1, 2, 3] [1, 2, 3, 0, 0] True []))"
  "X_Posted (snd (dispatch counting_xx file_sys (message_of read_env 7 (KRead ''f'' 0 5)) file_ctx)) = X_Posted file_ctx @ [(7, [1, 2, 3, 0, 0])]"
proof -
  have p: "unat (5 :: u32) \<le> RAILFS_PAGE_SIZE" by (simp add: RAILFS_PAGE_SIZE_def)
  have y: "\<forall>n. y_send file_sys n = Inr ()" by simp
  have "replicate (unat (5 :: u32) - length [1, 2, 3 :: byte]) (0 :: byte) = replicate 2 0" by simp
  then have r: "[1, 2, 3] @ replicate (unat (5 :: u32) - length [1, 2, 3 :: byte]) (0 :: byte) = [1, 2, 3, 0, 0]" by (simp only: numeral_2_eq_2 replicate.simps append.simps)
  have l: "page_len 5 = 5" using p unfolding page_len_def by (simp only: leD if_False)
  note d = daemon_reads [OF file_fields(1) p _ y file_held, where H = counting_xx and Rid = 7 and offset = 0, unfolded file_fields(3) sum.case r is_ok_def]
  show "answers counting_xx file_sys file_ctx (message_of read_env 7 (KRead ''f'' 0 5)) (TransferReply (read_reply counting_xx file_sys file_ctx 7 9 [1, 2, 3] [1, 2, 3, 0, 0] True []))"
    using d(1) by (simp add: answers_def l)
  show "X_Posted (snd (dispatch counting_xx file_sys (message_of read_env 7 (KRead ''f'' 0 5)) file_ctx)) = X_Posted file_ctx @ [(7, [1, 2, 3, 0, 0])]"
    using d(2) by (simp add: l)
qed

definition write_env :: kernel_env where
  "write_env = sample_env
     (\<lambda>_. Completed (Inr (encode (TransferReply ((TransferReply_new 7)\<lparr>TransferReply_Ok := True, TransferReply_Length := 2\<rparr>))))) (\<lambda>_. TimedOut)"

lemma file_write:
  "answers counting_xx file_sys file_ctx (message_of write_env 7 (KWrite ''f'' 0 [4, 5] False)) (TransferReply ((TransferReply_new 7)\<lparr>TransferReply_Ok := True, TransferReply_Length := 2\<rparr>))"
proof -
  have p: "\<not> RAILFS_PAGE_SIZE < 2" "take RAILFS_PAGE_SIZE [4, 5 :: byte] = [4, 5]" by (simp_all add: RAILFS_PAGE_SIZE_def)
  obtain x1 where h: "heldFor file_sys 0 ''f'' (O_WRONLY + O_CREAT) file_ctx = (Inr 9, x1)" using file_held by blast
  have m: "Verifier_matches counting_xx (Verifier_update counting_xx (Verifier_new counting_xx True XxH64) [4, 5]) (railfs_digest (k_xxh64 write_env) [4, 5])"
    using digests_agree [OF counting_xx_streams, of "[4, 5]"]
    by (simp add: Verifier_matches_def Verifier_digest_def Verifier_update_def Verifier_new_def write_env_def sample_env_def)
  show ?thesis using held_keeps [OF h] by (simp add: answers_def dispatch_def onWrite_def Let_def p m h call_def send_def)
qed

lemma read_env_fields [simp]:
  "k_data read_env 7 = Completed (Inr [1, 2, 3, 0, 0])" "k_xxh64 read_env = (\<lambda>bs. of_nat (length bs))" "k_xxh64 write_env = (\<lambda>bs. of_nat (length bs))"
  "k_reply read_env 7 want = Completed (Inr (encode (TransferReply (read_reply counting_xx file_sys file_ctx 7 9 [1, 2, 3] [1, 2, 3, 0, 0] True []))))"
  "k_reply write_env 7 want = Completed (Inr (encode (TransferReply ((TransferReply_new 7)\<lparr>TransferReply_Ok := True, TransferReply_Length := 2\<rparr>))))"
  "n_next_id sample_conn = 6" "n_verify sample_conn" "n_sent sample_conn = []"
  by (simp_all add: read_env_def write_env_def sample_env_def sample_conn_def)

lemma env_ready: "ready read_env sample_conn" "ready write_env sample_conn" "n_next_id sample_conn + 1 = 7"
  unfolding read_env_def write_env_def by (simp_all add: sample_ready)

theorem kernel_read_end_to_end_witness: "fst (railfs_read read_env ''f'' 0 5 sample_conn) = Inr (3, [1, 2, 3] @ replicate 2 0)"
proof -
  have p: "unat (5 :: u32) \<le> RAILFS_PAGE_SIZE" "(5 :: u32) \<noteq> 0" by (simp_all add: RAILFS_PAGE_SIZE_def)
  have "fst (railfs_read read_env ''f'' 0 5 sample_conn) =
      (case y_read file_sys of Inl _ \<Rightarrow> Inl (- EIO) | Inr Got \<Rightarrow> Inr (length Got, Got @ replicate (unat (5 :: u32) - length Got) 0))"
    by (rule kernel_read_end_to_end [OF env_ready(1) p(2,1), unfolded env_ready(3), OF file_read(1) _ file_read(2) _ file_fields(1) _ file_held _ _ _ counting_xx_streams]) simp_all
  then show ?thesis by simp
qed

theorem kernel_write_end_to_end_witness: "case fst (railfs_write write_env ''f'' 0 [4, 5] False sample_conn) of Inl err \<Rightarrow> err = - EIO | Inr n \<Rightarrow> n = 2"
proof -
  have p: "length [4, 5 :: byte] \<le> RAILFS_PAGE_SIZE" by (simp add: RAILFS_PAGE_SIZE_def)
  note w = kernel_write_end_to_end [OF env_ready(2) p, unfolded env_ready(3), OF file_write _ file_fields(1,4) _ _ _ counting_xx_streams]
  have "case fst (railfs_write write_env ''f'' 0 [4, 5] False sample_conn) of
      Inl err \<Rightarrow> err = - EIO
    | Inr n \<Rightarrow> n = length [4, 5 :: byte] \<and>
        (\<exists>Fd. last (X_Calls (snd (dispatch counting_xx file_sys (message_of write_env 7 (KWrite ''f'' 0 [4, 5] False)) file_ctx))) = SysWrite Fd 0 [4, 5] \<and> y_write file_sys = Inr ())"
    by (rule w) simp_all
  then show ?thesis by (simp split: sum.splits)
qed

definition stat_f :: Message where
  "stat_f = StatRequest \<lparr>StatRequest_Id = 7, StatRequest_Path = ''f''\<rparr>"

definition two_chunks :: "rx_event list" where
  "two_chunks = [Chunk (take 7 (frame stat_f)), Chunk (drop 7 (frame stat_f))]"

theorem kernel_speaks_codec_witness:
  "n_sent (kernel_does read_env (KStat ''f'') sample_conn) = frame stat_f \<and> (\<exists>es'. receive two_chunks = (Inr stat_f, es') \<and> live es' \<and> flow es' = [])"
proof -
  have m: "stat_f = message_of read_env (n_next_id sample_conn + 1) (KStat ''f'')" unfolding env_ready(3) by (simp add: stat_f_def)
  have w: "wf_Message stat_f" "length (encode stat_f) \<le> unat kMaxFrame" by (simp_all add: stat_f_def wf_StatRequest_def wf_str_def encode_StatRequest_def kMaxFrame_nat)
  have "length (frame stat_f) = 23" by (simp add: stat_f_def frame_def encode_StatRequest_def)
  then have "take 7 (frame stat_f) \<noteq> []" "drop 7 (frame stat_f) \<noteq> []" by auto
  then have l: "live two_chunks" by (simp add: two_chunks_def)
  have n: "\<forall>path offset. KStat ''f'' \<noteq> KRead path offset 0" by simp
  have f: "flow two_chunks = drop (length (n_sent sample_conn)) (n_sent (kernel_does read_env (KStat ''f'') sample_conn)) @ []"
    using kernel_sends [OF env_ready(1) n] m by (simp add: two_chunks_def)
  show ?thesis using kernel_speaks_codec [OF env_ready(1) n m w l f] by simp
qed

end
