(* ===== verification/KernelCalls.thy ===== *)
theory KernelCalls
  imports KernelProto Transition
begin

text \<open>
  The calls of one kernel connection (\<^verbatim>\<open>src/linux/railfs-tcp.c\<close>): callers register a call that lives
  in their own frame, the reader thread hands each control frame to the call with its id, the data
  reader fills the call's buffer outside the lock, and a kill fails what is outstanding. Each step is
  one critical section of one thread, in any interleaving. A call is known by its id; it is in
  \<open>q_call\<close> as long as its caller's frame exists.
\<close>

section \<open>State\<close>

record railfs_call =
  l_want :: u16
  l_err :: int
  l_payload :: "(u16 \<times> byte list) option"
  l_replied :: bool
  l_answered :: bool
  l_delivered :: bool
  l_room :: nat
  l_bytes :: "byte list"
  l_data_err :: int
  l_wants_data :: bool
  l_busy :: bool
  l_landed :: bool
  l_released :: bool

record railfs_calls =
  q_calls :: "u64 list"
  q_call :: "u64 \<rightharpoonup> railfs_call"
  q_dead :: bool
  q_why :: int
  q_target :: "(u64 \<times> nat) option"

definition calls_new :: railfs_calls where
  "calls_new = \<lparr>q_calls = [], q_call = Map.empty, q_dead = False, q_why = 0, q_target = None\<rparr>"

section \<open>Operations\<close>

definition call_begin :: "u64 \<Rightarrow> u16 \<Rightarrow> nat option \<Rightarrow> railfs_calls \<Rightarrow> int option \<times> railfs_calls" where
  "call_begin Rid want buf q =
     (let call = \<lparr>l_want = want, l_err = 0, l_payload = None, l_replied = False, l_answered = False, l_delivered = False,
            l_room = (case buf of None \<Rightarrow> 0 | Some n \<Rightarrow> n), l_bytes = [], l_data_err = 0, l_wants_data = (buf \<noteq> None), l_busy = False,
            l_landed = False, l_released = False\<rparr>
      in if q_dead q then (Some (- ENOTCONN), q)
         else (None, q\<lparr>q_calls := q_calls q @ [Rid], q_call := (q_call q)(Rid \<mapsto> call)\<rparr>))"

definition call_for :: "railfs_calls \<Rightarrow> u64 \<Rightarrow> railfs_call option" where
  "call_for q Rid = (if Rid \<in> set (q_calls q) then q_call q Rid else None)"

definition set_call :: "u64 \<Rightarrow> railfs_call \<Rightarrow> railfs_calls \<Rightarrow> railfs_calls" where
  "set_call Rid call q = q\<lparr>q_call := (q_call q)(Rid \<mapsto> call)\<rparr>"

text \<open>The list walk of \<^verbatim>\<open>railfs_conn_kill\<close>.\<close>

definition fail_call :: "int \<Rightarrow> railfs_call \<Rightarrow> railfs_call" where
  "fail_call why call =
     call\<lparr>l_err := (if l_answered call then l_err call else why), l_data_err := (if l_delivered call then l_data_err call else why),
       l_replied := True, l_landed := True\<rparr>"

definition conn_kill :: "int \<Rightarrow> railfs_calls \<Rightarrow> railfs_calls" where
  "conn_kill why q =
     (if q_dead q then q
      else q\<lparr>q_dead := True, q_why := why,
             q_call := (\<lambda>Rid. if Rid \<in> set (q_calls q) then map_option (fail_call why) (q_call q Rid) else q_call q Rid)\<rparr>)"

definition railfs_deliver :: "u16 \<Rightarrow> byte list \<Rightarrow> railfs_calls \<Rightarrow> int option \<times> railfs_calls" where
  "railfs_deliver type payload q =
     (if length payload < 8 then (Some (- EBADMSG), q)
      else
        let Rid = le_word (take 8 payload)
        in case call_for q Rid of
             None \<Rightarrow> (None, q)
           | Some call \<Rightarrow>
               if l_want call \<noteq> type then (Some (- EPROTO), q)
               else if l_answered call then (Some (- EPROTO), q)
               else (None, set_call Rid (call\<lparr>l_payload := Some (type, payload), l_err := 0, l_answered := True, l_replied := True\<rparr>) q))"

text \<open>\<^verbatim>\<open>railfs_take_frame\<close> up to the receive: what it refuses, and which buffer it fills. No target: the frame is drained.\<close>

definition take_frame :: "u64 \<Rightarrow> nat \<Rightarrow> railfs_calls \<Rightarrow> int option \<times> railfs_calls" where
  "take_frame key frame_len q =
     (if RAILFS_PAGE_SIZE < frame_len then (Some (- EMSGSIZE), q)
      else
        (case call_for q key of
           None \<Rightarrow> (None, q)
         | Some call \<Rightarrow>
             if \<not> l_wants_data call then (None, q)
             else if l_room call < frame_len then (Some (- EMSGSIZE), q)
             else (None, (set_call key (call\<lparr>l_busy := True\<rparr>) q)\<lparr>q_target := Some (key, frame_len)\<rparr>)))"

text \<open>And from the receive on: the bytes it got or its error.\<close>

definition frame_taken :: "u64 \<Rightarrow> int + byte list \<Rightarrow> railfs_calls \<Rightarrow> int option \<times> railfs_calls" where
  "frame_taken key r q =
     (case q_call q key of
        None \<Rightarrow> (None, q)
      | Some call \<Rightarrow>
          (case r of Inl err \<Rightarrow> Some err | Inr _ \<Rightarrow> None,
           (set_call key
             (call\<lparr>l_busy := False, l_bytes := (case r of Inl _ \<Rightarrow> l_bytes call | Inr bs \<Rightarrow> bs), l_data_err := (case r of Inl err \<Rightarrow> err | Inr _ \<Rightarrow> 0),
                l_delivered := (case r of Inl _ \<Rightarrow> False | Inr _ \<Rightarrow> True), l_landed := True, l_released := True\<rparr>) q)\<lparr>q_target := None\<rparr>))"

text \<open>A reader's loop: an error ends it, and it kills the connection.\<close>

definition read_on :: "int option \<times> railfs_calls \<Rightarrow> railfs_calls" where
  "read_on = (\<lambda>(err, q). case err of None \<Rightarrow> q | Some e \<Rightarrow> conn_kill e q)"

text \<open>\<^verbatim>\<open>railfs_call_end\<close>: off the list; the frame goes at once unless the data reader is in its buffer.\<close>

definition call_end :: "u64 \<Rightarrow> railfs_calls \<Rightarrow> railfs_calls" where
  "call_end Rid q =
     (let q' = q\<lparr>q_calls := remove1 Rid (q_calls q)\<rparr>
      in case q_call q Rid of
           None \<Rightarrow> q'
         | Some call \<Rightarrow> if l_busy call then q' else q'\<lparr>q_call := (q_call q)(Rid := None)\<rparr>)"

section \<open>Steps\<close>

text \<open>\<open>once\<close>: the peer sends no second payload for a call that has had one.\<close>

inductive calls_step :: "bool \<Rightarrow> railfs_calls \<Rightarrow> railfs_calls \<Rightarrow> bool" for once where
  begins: "q_call q Rid = None \<Longrightarrow> (\<forall>n. q_target q \<noteq> Some (Rid, n)) \<Longrightarrow> calls_step once q (snd (call_begin Rid want buf q))"
| delivers: "calls_step once q (read_on (railfs_deliver type payload q))"
| takes: "q_target q = None \<Longrightarrow> (once \<Longrightarrow> \<forall>call. q_call q key = Some call \<longrightarrow> \<not> l_released call) \<Longrightarrow> calls_step once q (read_on (take_frame key frame_len q))"
| taken: "q_target q = Some (key, frame_len) \<Longrightarrow> (\<forall>bs. r = Inr bs \<longrightarrow> length bs = frame_len) \<Longrightarrow> calls_step once q (read_on (frame_taken key r q))"
| kills: "calls_step once q (conn_kill why q)"
| ends: "Rid \<in> set (q_calls q) \<Longrightarrow> calls_step once q (call_end Rid q)"
| leaves: "q_call q Rid = Some call \<Longrightarrow> Rid \<notin> set (q_calls q) \<Longrightarrow> l_released call \<Longrightarrow> calls_step once q (q\<lparr>q_call := (q_call q)(Rid := None)\<rparr>)"

text \<open>The data reader is filling the buffer of a call whose caller has left.\<close>

definition stray :: "railfs_calls \<Rightarrow> bool" where
  "stray q \<longleftrightarrow> (\<exists>key n. q_target q = Some (key, n) \<and> q_call q key = None)"

section \<open>Invariant\<close>

definition own_answer :: "u64 \<Rightarrow> railfs_call \<Rightarrow> bool" where
  "own_answer Rid call \<longleftrightarrow>
     (l_answered call \<longrightarrow> l_replied call \<and> l_err call = 0 \<and> (\<exists>p. l_payload call = Some (l_want call, p) \<and> 8 \<le> length p \<and> le_word (take 8 p) = Rid)) \<and>
     (l_delivered call \<longrightarrow> l_landed call \<and> l_data_err call = 0 \<and> length (l_bytes call) \<le> l_room call)"

definition calls_inv :: "railfs_calls \<Rightarrow> bool" where
  "calls_inv q \<longleftrightarrow>
     distinct (q_calls q) \<and> set (q_calls q) \<subseteq> dom (q_call q) \<and>
     (\<forall>k n. q_target q = Some (k, n) \<longrightarrow> (\<exists>call. q_call q k = Some call \<and> l_busy call \<and> \<not> l_released call \<and> n \<le> l_room call)) \<and>
     (\<forall>k call. q_call q k = Some call \<longrightarrow>
        own_answer k call \<and> (l_busy call \<longrightarrow> (\<exists>n. q_target q = Some (k, n))) \<and>
        (k \<notin> set (q_calls q) \<longrightarrow> l_busy call \<or> l_released call) \<and>
        (k \<in> set (q_calls q) \<and> q_dead q \<longrightarrow> l_replied call \<and> l_landed call))"

lemma calls_invI:
  assumes "distinct (q_calls q)" and "set (q_calls q) \<subseteq> dom (q_call q)"
    and "\<And>k n. q_target q = Some (k, n) \<Longrightarrow> \<exists>call. q_call q k = Some call \<and> l_busy call \<and> \<not> l_released call \<and> n \<le> l_room call"
    and "\<And>k call. q_call q k = Some call \<Longrightarrow> own_answer k call" and "\<And>k call. q_call q k = Some call \<Longrightarrow> l_busy call \<Longrightarrow> \<exists>n. q_target q = Some (k, n)"
    and "\<And>k call. q_call q k = Some call \<Longrightarrow> k \<notin> set (q_calls q) \<Longrightarrow> l_busy call \<or> l_released call"
    and "\<And>k call. q_call q k = Some call \<Longrightarrow> k \<in> set (q_calls q) \<Longrightarrow> q_dead q \<Longrightarrow> l_replied call \<and> l_landed call"
  shows "calls_inv q"
  using assms unfolding calls_inv_def by blast

lemma calls_invD:
  assumes "calls_inv q"
  shows "distinct (q_calls q)" and "set (q_calls q) \<subseteq> dom (q_call q)"
    and "q_target q = Some (k, n) \<Longrightarrow> \<exists>call. q_call q k = Some call \<and> l_busy call \<and> \<not> l_released call \<and> n \<le> l_room call"
    and "q_call q k = Some call \<Longrightarrow> own_answer k call" and "q_call q k = Some call \<Longrightarrow> l_busy call \<Longrightarrow> \<exists>n. q_target q = Some (k, n)"
    and "q_call q k = Some call \<Longrightarrow> k \<notin> set (q_calls q) \<Longrightarrow> l_busy call \<or> l_released call"
    and "q_call q k = Some call \<Longrightarrow> k \<in> set (q_calls q) \<Longrightarrow> q_dead q \<Longrightarrow> l_replied call \<and> l_landed call"
  using assms unfolding calls_inv_def by blast+

lemma kill_inv:
  assumes "calls_inv q"
  shows "calls_inv (conn_kill why q)"
proof (cases "q_dead q")
  case True
  then show ?thesis using assms by (simp add: conn_kill_def)
next
  case False
  note v = calls_invD [OF assms]
  let ?q = "conn_kill why q"
  have q: "q_calls ?q = q_calls q" "q_target ?q = q_target q"
    "q_call ?q = (\<lambda>Rid. if Rid \<in> set (q_calls q) then map_option (fail_call why) (q_call q Rid) else q_call q Rid)" using False by (simp_all add: conn_kill_def)
  have f: "own_answer k (fail_call why call)" if "own_answer k call" for k call using that by (auto simp: own_answer_def fail_call_def)
  have same: "l_busy (fail_call why call) = l_busy call" "l_released (fail_call why call) = l_released call" "l_room (fail_call why call) = l_room call" for call
    by (simp_all add: fail_call_def)
  show ?thesis
  proof (rule calls_invI, unfold q)
    show "distinct (q_calls q)" by (rule v(1))
    show "set (q_calls q) \<subseteq> dom (\<lambda>Rid. if Rid \<in> set (q_calls q) then map_option (fail_call why) (q_call q Rid) else q_call q Rid)" using v(2) by auto
  next
    fix k n
    assume "q_target q = Some (k, n)"
    then show "\<exists>call. (if k \<in> set (q_calls q) then map_option (fail_call why) (q_call q k) else q_call q k) = Some call \<and> l_busy call \<and> \<not> l_released call \<and> n \<le> l_room call"
      using v(3) same by fastforce
  next
    fix k call
    assume c: "(if k \<in> set (q_calls q) then map_option (fail_call why) (q_call q k) else q_call q k) = Some call"
    show "own_answer k call" using c v(4) f by (auto split: if_splits)
    show "\<exists>n. q_target q = Some (k, n)" if "l_busy call" using c that v(5) same by (auto split: if_splits)
    show "l_busy call \<or> l_released call" if "k \<notin> set (q_calls q)" using c that v(6) by auto
    show "l_replied call \<and> l_landed call" if "k \<in> set (q_calls q)" using c that by (auto simp: fail_call_def)
  qed
qed

text \<open>One call changes, and with it perhaps the data reader's target.\<close>

lemma update_inv:
  assumes "calls_inv q" and "q_call q k = Some c" and "own_answer k c'"
    and "k \<notin> set (q_calls q) \<Longrightarrow> l_busy c' \<or> l_released c'" and "k \<in> set (q_calls q) \<Longrightarrow> q_dead q \<Longrightarrow> l_replied c' \<and> l_landed c'"
    and "l_busy c' \<longleftrightarrow> (\<exists>n. T = Some (k, n))" and "T \<noteq> None \<Longrightarrow> (\<exists>n. T = Some (k, n) \<and> \<not> l_released c' \<and> n \<le> l_room c') \<or> T = q_target q \<and> \<not> l_busy c'"
    and "T = q_target q \<or> q_target q = None \<or> (\<exists>n. q_target q = Some (k, n))"
  shows "calls_inv ((set_call k c' q)\<lparr>q_target := T\<rparr>)"
proof -
  note v = calls_invD [OF assms(1)]
  show ?thesis
  proof (rule calls_invI)
    fix j n
    assume "q_target ((set_call k c' q)\<lparr>q_target := T\<rparr>) = Some (j, n)"
    then have T: "T = Some (j, n)" by simp
    show "\<exists>call. q_call ((set_call k c' q)\<lparr>q_target := T\<rparr>) j = Some call \<and> l_busy call \<and> \<not> l_released call \<and> n \<le> l_room call"
    proof (cases "j = k")
      case True
      then show ?thesis using T assms(6,7) by (auto simp: set_call_def)
    next
      case False
      then have "q_target q = Some (j, n)" using T assms(7) by auto
      then show ?thesis using v(3) False by (simp add: set_call_def)
    qed
  next
    fix j call
    assume c: "q_call ((set_call k c' q)\<lparr>q_target := T\<rparr>) j = Some call" and b: "l_busy call"
    show "\<exists>n. q_target ((set_call k c' q)\<lparr>q_target := T\<rparr>) = Some (j, n)"
    proof (cases "j = k")
      case True
      then show ?thesis using c b assms(6) by (simp add: set_call_def)
    next
      case False
      then obtain n where "q_target q = Some (j, n)" using c b v(5) by (auto simp: set_call_def)
      then show ?thesis using assms(8) False by auto
    qed
  qed (use v(1,2,4,6,7) assms(2-5) in \<open>auto simp: set_call_def split: if_splits\<close>)
qed

lemma same_target: "(set_call k c q)\<lparr>q_target := q_target q\<rparr> = set_call k c q"
  by (cases q) (simp add: set_call_def)

lemma call_for_Some: "call_for q k = Some c \<Longrightarrow> q_call q k = Some c \<and> k \<in> set (q_calls q)"
  by (simp add: call_for_def split: if_splits)

lemma deliver_inv:
  assumes "calls_inv q"
  shows "calls_inv (snd (railfs_deliver type payload q))"
proof (cases "call_for q (le_word (take 8 payload))")
  case None
  then show ?thesis using assms by (simp add: railfs_deliver_def Let_def)
next
  case (Some call)
  let ?k = "le_word (take 8 payload) :: u64" and ?c = "call\<lparr>l_payload := Some (type, payload), l_err := 0, l_answered := True, l_replied := True\<rparr>"
  note v = calls_invD [OF assms]
  have c: "q_call q ?k = Some call" "?k \<in> set (q_calls q)" using call_for_Some [OF Some] by blast+
  have "calls_inv (set_call ?k ?c q)" if "8 \<le> length payload" "l_want call = type"
  proof -
    have o: "own_answer ?k ?c" using v(4) [OF c(1)] that by (simp add: own_answer_def)
    have t: "l_busy call \<and> \<not> l_released call \<and> n \<le> l_room call" if "q_target q = Some (?k, n)" for n using v(3) [OF that] c(1) by simp
    have b: "l_busy ?c \<longleftrightarrow> (\<exists>n. q_target q = Some (?k, n))" using v(5) [OF c(1)] t by auto
    have "calls_inv ((set_call ?k ?c q)\<lparr>q_target := q_target q\<rparr>)"
      by (rule update_inv [OF assms c(1) o _ _ b]) (use c(2) v(7) [OF c(1)] b t in auto)
    then show ?thesis by (simp add: same_target)
  qed
  then show ?thesis using Some assms by (simp add: railfs_deliver_def Let_def)
qed

lemma take_inv:
  assumes "calls_inv q" and "q_target q = None" and "\<forall>call. q_call q key = Some call \<longrightarrow> \<not> l_released call"
  shows "calls_inv (snd (take_frame key frame_len q))"
proof (cases "call_for q key")
  case None
  then show ?thesis using assms(1) by (simp add: take_frame_def)
next
  case (Some call)
  note v = calls_invD [OF assms(1)]
  have c: "q_call q key = Some call" "key \<in> set (q_calls q)" using call_for_Some [OF Some] by blast+
  have o: "own_answer key (call\<lparr>l_busy := True\<rparr>)" using v(4) [OF c(1)] by (simp add: own_answer_def)
  have "calls_inv ((set_call key (call\<lparr>l_busy := True\<rparr>) q)\<lparr>q_target := Some (key, frame_len)\<rparr>)" if "frame_len \<le> l_room call"
    by (rule update_inv [OF assms(1) c(1) o]) (use c v(7) [OF c(1)] assms(2,3) that in auto)
  then show ?thesis using Some assms(1) by (simp add: take_frame_def)
qed

lemma taken_inv:
  assumes "calls_inv q" and "q_target q = Some (key, n)" and "\<forall>bs. r = Inr bs \<longrightarrow> length bs = n"
  shows "calls_inv (snd (frame_taken key r q))"
proof -
  note v = calls_invD [OF assms(1)]
  obtain call where c: "q_call q key = Some call" "l_busy call" "n \<le> l_room call" using v(3) [OF assms(2)] by blast
  let ?c = "call\<lparr>l_busy := False, l_bytes := (case r of Inl _ \<Rightarrow> l_bytes call | Inr bs \<Rightarrow> bs), l_data_err := (case r of Inl err \<Rightarrow> err | Inr _ \<Rightarrow> 0),
                l_delivered := (case r of Inl _ \<Rightarrow> False | Inr _ \<Rightarrow> True), l_landed := True, l_released := True\<rparr>"
  have o: "own_answer key ?c" using v(4) [OF c(1)] assms(3) c(3) by (auto simp: own_answer_def split: sum.split)
  have "calls_inv ((set_call key ?c q)\<lparr>q_target := None\<rparr>)" by (rule update_inv [OF assms(1) c(1) o]) (use v(7) [OF c(1)] assms(2) in auto)
  then show ?thesis using c(1) by (simp add: frame_taken_def)
qed

lemma read_on_inv: "calls_inv (snd x) \<Longrightarrow> calls_inv (read_on x)"
  using kill_inv by (cases x) (simp add: read_on_def split: option.split)

lemma begin_inv:
  assumes "calls_inv q" and "q_call q Rid = None"
  shows "calls_inv (snd (call_begin Rid want buf q))"
proof -
  note v = calls_invD [OF assms(1)]
  have n: "Rid \<notin> set (q_calls q)" using v(2) assms(2) by auto
  have t: "q_target q \<noteq> Some (Rid, n)" for n using v(3) [of Rid n] assms(2) by auto
  have "calls_inv (q\<lparr>q_calls := q_calls q @ [Rid], q_call := (q_call q)(Rid \<mapsto> c)\<rparr>)"
    if "\<not> q_dead q" "\<not> l_answered c" "\<not> l_delivered c" "\<not> l_busy c" for c
  proof (rule calls_invI)
    fix k m
    assume "q_target (q\<lparr>q_calls := q_calls q @ [Rid], q_call := (q_call q)(Rid \<mapsto> c)\<rparr>) = Some (k, m)"
    then show "\<exists>call. q_call (q\<lparr>q_calls := q_calls q @ [Rid], q_call := (q_call q)(Rid \<mapsto> c)\<rparr>) k = Some call \<and> l_busy call \<and> \<not> l_released call \<and> m \<le> l_room call"
      using v(3) [of k m] t [of m] by auto
  next
    fix k call
    assume "q_call (q\<lparr>q_calls := q_calls q @ [Rid], q_call := (q_call q)(Rid \<mapsto> c)\<rparr>) k = Some call"
    then have k: "k = Rid \<and> call = c \<or> k \<noteq> Rid \<and> q_call q k = Some call" by (auto split: if_splits)
    show "own_answer k call" using k that v(4) by (auto simp: own_answer_def)
  qed (use v(1,2,5,6) n that in \<open>auto split: if_splits\<close>)
  then show ?thesis using assms(1) by (simp add: call_begin_def Let_def)
qed

lemma end_inv:
  assumes "calls_inv q" and "Rid \<in> set (q_calls q)"
  shows "calls_inv (call_end Rid q)"
proof -
  note v = calls_invD [OF assms(1)]
  obtain call where c: "q_call q Rid = Some call" using v(2) assms(2) by auto
  show ?thesis
  proof (cases "l_busy call")
    case True
    then have "call_end Rid q = q\<lparr>q_calls := remove1 Rid (q_calls q)\<rparr>" using c by (simp add: call_end_def Let_def)
    moreover have "calls_inv (q\<lparr>q_calls := remove1 Rid (q_calls q)\<rparr>)"
    proof (rule calls_invI)
      fix k d
      assume d: "q_call (q\<lparr>q_calls := remove1 Rid (q_calls q)\<rparr>) k = Some d" "k \<notin> set (q_calls (q\<lparr>q_calls := remove1 Rid (q_calls q)\<rparr>))"
      show "l_busy d \<or> l_released d" using d v(6) [of k d] c True v(1) by (cases "k = Rid") auto
    qed (use v(1,2,3,4,5,7) in \<open>auto simp: distinct_remove1\<close>)
    ultimately show ?thesis by simp
  next
    case False
    then have e: "call_end Rid q = q\<lparr>q_calls := remove1 Rid (q_calls q), q_call := (q_call q)(Rid := None)\<rparr>" using c by (simp add: call_end_def Let_def)
    have "q_target q \<noteq> Some (Rid, n)" for n using v(3) [of Rid n] c False by auto
    then show ?thesis unfolding e
    proof (intro calls_invI)
      fix k d
      assume d: "q_call (q\<lparr>q_calls := remove1 Rid (q_calls q), q_call := (q_call q)(Rid := None)\<rparr>) k = Some d"
        "k \<notin> set (q_calls (q\<lparr>q_calls := remove1 Rid (q_calls q), q_call := (q_call q)(Rid := None)\<rparr>))"
      show "l_busy d \<or> l_released d" using d v(6) [of k d] v(1) by (auto split: if_splits)
    next
      fix k n
      assume "\<And>n. q_target q \<noteq> Some (Rid, n)" and "q_target (q\<lparr>q_calls := remove1 Rid (q_calls q), q_call := (q_call q)(Rid := None)\<rparr>) = Some (k, n)"
      then show "\<exists>call. q_call (q\<lparr>q_calls := remove1 Rid (q_calls q), q_call := (q_call q)(Rid := None)\<rparr>) k = Some call \<and> l_busy call \<and> \<not> l_released call \<and> n \<le> l_room call"
        using v(3) [of k n] by (cases "k = Rid") auto
    qed (use v(1,2,4,5,7) in \<open>auto simp: distinct_remove1 split: if_splits\<close>)
  qed
qed

lemma leave_inv:
  assumes "calls_inv q" and "q_call q Rid = Some call" and "Rid \<notin> set (q_calls q)" and "l_released call"
  shows "calls_inv (q\<lparr>q_call := (q_call q)(Rid := None)\<rparr>)"
proof -
  note v = calls_invD [OF assms(1)]
  have t: "q_target q \<noteq> Some (Rid, n)" for n using v(3) [of Rid n] assms(2,4) by auto
  show ?thesis
  proof (rule calls_invI)
    fix k n
    assume "q_target (q\<lparr>q_call := (q_call q)(Rid := None)\<rparr>) = Some (k, n)"
    then show "\<exists>call. q_call (q\<lparr>q_call := (q_call q)(Rid := None)\<rparr>) k = Some call \<and> l_busy call \<and> \<not> l_released call \<and> n \<le> l_room call"
      using v(3) [of k n] t [of n] by auto
  qed (use v(1,2,4,5,6,7) assms(3) in \<open>auto split: if_splits\<close>)
qed

lemma calls_step_inv:
  assumes "calls_step True q q'" and "calls_inv q"
  shows "calls_inv q'"
  using assms(1)
proof cases
  case (begins Rid want buf)
  then show ?thesis using begin_inv [OF assms(2)] by simp
next
  case (delivers type payload)
  then show ?thesis using read_on_inv deliver_inv [OF assms(2)] by simp
next
  case (takes key frame_len)
  then show ?thesis using read_on_inv [OF take_inv [OF assms(2)]] by simp
next
  case (taken key frame_len r)
  then show ?thesis using read_on_inv [OF taken_inv [OF assms(2)]] by simp
next
  case (kills why)
  then show ?thesis using kill_inv [OF assms(2)] by simp
next
  case (ends Rid)
  then show ?thesis using end_inv [OF assms(2)] by simp
next
  case (leaves Rid call)
  then show ?thesis using leave_inv [OF assms(2)] by simp
qed

lemma calls_new_inv: "calls_inv calls_new"
  by (simp add: calls_inv_def calls_new_def)

interpretation kcalls: transition_system calls_new "calls_step True" calls_inv
  by unfold_locales (use calls_new_inv calls_step_inv in blast)+

text \<open>
  C19. The calls of a kernel connection keep to themselves. However callers, the two readers and a
  kill interleave, a call that was answered holds a reply of the type it wanted under its own id and
  no later kill takes it away; bytes that were delivered fit the call's buffer; once the connection
  is dead nobody on the list is left waiting; and, as long as the peer sends no second payload for
  a call, the data reader never fills the buffer of a caller that has gone.
\<close>

theorem kernel_calls_safe:
  assumes "(calls_step True)\<^sup>*\<^sup>* calls_new q"
  shows "\<not> stray q \<and>
    (\<forall>Rid call. q_call q Rid = Some call \<longrightarrow>
       (l_answered call \<longrightarrow> l_err call = 0 \<and> (\<exists>p. l_payload call = Some (l_want call, p) \<and> 8 \<le> length p \<and> le_word (take 8 p) = Rid)) \<and>
       (l_delivered call \<longrightarrow> l_data_err call = 0 \<and> length (l_bytes call) \<le> l_room call)) \<and>
    (q_dead q \<longrightarrow> (\<forall>Rid \<in> set (q_calls q). \<exists>call. q_call q Rid = Some call \<and> l_replied call \<and> l_landed call))"
proof -
  have i: "calls_inv q" by (rule kcalls.inv_steps [OF assms calls_new_inv])
  note v = calls_invD [OF i]
  have "\<not> stray q" using v(3) by (fastforce simp: stray_def)
  moreover have "own_answer Rid call" if "q_call q Rid = Some call" for Rid call using v(4) that by blast
  moreover have "\<exists>call. q_call q Rid = Some call \<and> l_replied call \<and> l_landed call" if "q_dead q" "Rid \<in> set (q_calls q)" for Rid
    using v(2,7) that by blast
  ultimately show ?thesis unfolding own_answer_def by blast
qed

definition one_call :: railfs_calls where
  "one_call = snd (call_begin 7 RAILFS_MSG_TRANSFER_REPLY (Some 4) calls_new)"

lemma one_call_begun: "calls_step once calls_new one_call"
  unfolding one_call_def by (rule begins) (simp_all add: calls_new_def)

theorem kernel_calls_safe_witness:
  "\<not> stray (conn_kill (- EPROTO) one_call) \<and> (\<exists>call. q_call (conn_kill (- EPROTO) one_call) 7 = Some call \<and> l_replied call \<and> l_landed call)"
proof -
  have "(calls_step True)\<^sup>*\<^sup>* calls_new (conn_kill (- EPROTO) one_call)"
    using one_call_begun kills by (meson converse_rtranclp_into_rtranclp rtranclp.rtrancl_refl)
  moreover have "q_dead (conn_kill (- EPROTO) one_call)" "7 \<in> set (q_calls (conn_kill (- EPROTO) one_call))"
    by (simp_all add: one_call_def call_begin_def conn_kill_def calls_new_def Let_def)
  ultimately show ?thesis using kernel_calls_safe [of "conn_kill (- EPROTO) one_call"] by blast
qed

text \<open>
  A peer that sends two payloads under one id makes the kernel write into freed memory: the data
  reader takes the second frame for a call that already has its bytes, the completion that a leaving
  caller waits on was completed by the first, so the caller leaves while the reader fills its buffer.
\<close>

theorem kernel_second_frame_strays: "\<exists>q. (calls_step False)\<^sup>*\<^sup>* calls_new q \<and> stray q"
proof -
  let ?a = "read_on (take_frame 7 1 one_call)"
  let ?b = "read_on (frame_taken 7 (Inr [1]) ?a)"
  let ?c = "read_on (take_frame 7 1 ?b)"
  let ?d = "call_end 7 ?c"
  let ?e = "?d\<lparr>q_call := (q_call ?d)(7 := None)\<rparr>"
  note ops = one_call_def call_begin_def calls_new_def take_frame_def frame_taken_def read_on_def call_for_def set_call_def call_end_def Let_def RAILFS_PAGE_SIZE_def
  have "calls_step False one_call ?a" by (rule takes) (simp_all add: ops)
  moreover have "calls_step False ?a ?b" by (rule taken) (simp_all add: ops)
  moreover have "calls_step False ?b ?c" by (rule takes) (simp_all add: ops)
  moreover have "calls_step False ?c ?d" by (rule ends) (simp add: ops)
  moreover have "calls_step False ?d ?e" by (rule leaves [of _ _ "the (q_call ?d 7)"]) (simp_all add: ops)
  ultimately have "(calls_step False)\<^sup>*\<^sup>* calls_new ?e"
    using one_call_begun by (meson converse_rtranclp_into_rtranclp rtranclp.rtrancl_refl)
  moreover have "stray ?e" by (simp add: ops stray_def)
  ultimately show ?thesis by blast
qed

end
