(* ===== verification/ClientExchange.thy ===== *)
theory ClientExchange
  imports Message Transition
begin

text \<open>
  The exchanges of a file client (\<^verbatim>\<open>src/file-client.cc\<close>, \<^verbatim>\<open>Impl::Exchange\<close>, \<^verbatim>\<open>pump\<close> and \<^verbatim>\<open>fail\<close>): callers
  register a slot under the id of their request before they send it, one coroutine reads every
  message and hands it to the oldest slot of its id, and a broken connection fails them all. Any
  number of coroutines interleave between their suspension points; each step is what runs between
  two of them. Slots are numbered in the order they are made, so a number stands for the address of
  a slot that lives. The theorems show that replies go to the slots of their id in the order these
  were made, that a suspended caller is always where the next reply or the failure finds it, that it
  is woken once, and that none is left behind when the connection closes.
\<close>

section \<open>State and operations\<close>

record Waiting =
  W_Id :: u64
  W_Reply :: "Message option"
  W_Caller :: "nat option"
  W_Done :: bool

record Exchanges =
  E_Slot :: "nat \<rightharpoonup> Waiting"
  E_Waiters :: "u64 \<rightharpoonup> nat list"
  E_Closed :: bool
  E_Failure :: string
  E_Scheduled :: "nat list"
  E_Made :: nat

definition Exchanges_new :: Exchanges where
  "Exchanges_new = \<lparr>E_Slot = Map.empty, E_Waiters = Map.empty, E_Closed = False, E_Failure = [], E_Scheduled = [], E_Made = 0\<rparr>"

definition waiters :: "Exchanges \<Rightarrow> u64 \<Rightarrow> nat list" where
  "waiters s i = (case E_Waiters s i of None \<Rightarrow> [] | Some q \<Rightarrow> q)"

text \<open>\<^verbatim>\<open>Waiters[Id].push_back(&Slot)\<close>, which makes the queue when there is none.\<close>

definition Exchange_new :: "u64 \<Rightarrow> Exchanges \<Rightarrow> Exchanges" where
  "Exchange_new i s =
     s\<lparr>E_Slot := (E_Slot s)(E_Made s \<mapsto> \<lparr>W_Id = i, W_Reply = None, W_Caller = None, W_Done = False\<rparr>),
       E_Waiters := (E_Waiters s)(i \<mapsto> waiters s i @ [E_Made s]), E_Made := E_Made s + 1\<rparr>"

text \<open>The destructor; the slot is gone with it.\<close>

definition Exchange_destroy :: "nat \<Rightarrow> Exchanges \<Rightarrow> Exchanges" where
  "Exchange_destroy a s =
     (case E_Slot s a of
        None \<Rightarrow> s
      | Some w \<Rightarrow>
          let s' = s\<lparr>E_Slot := (E_Slot s)(a := None)\<rparr>
          in case E_Waiters s (W_Id w) of
               None \<Rightarrow> s'
             | Some q \<Rightarrow>
                 let q = filter (\<lambda>b. b \<noteq> a) q
                 in s'\<lparr>E_Waiters := (E_Waiters s)(W_Id w := (if q = [] then None else Some q))\<rparr>)"

text \<open>The three functions of the awaiter.\<close>

definition wait_ready :: "nat \<Rightarrow> Exchanges \<Rightarrow> bool" where
  "wait_ready a s = (case E_Slot s a of None \<Rightarrow> False | Some w \<Rightarrow> W_Done w \<or> E_Closed s)"

definition wait_suspend :: "nat \<Rightarrow> nat \<Rightarrow> Exchanges \<Rightarrow> Exchanges" where
  "wait_suspend a h s = s\<lparr>E_Slot := (E_Slot s)(a := map_option (\<lambda>w. w\<lparr>W_Caller := Some h\<rparr>) (E_Slot s a))\<rparr>"

definition wait_resume :: "nat \<Rightarrow> Exchanges \<Rightarrow> Message Result" where
  "wait_resume a s =
     (case E_Slot s a of
        Some w \<Rightarrow>
          (case W_Reply w of
             Some M \<Rightarrow> Inr M
           | None \<Rightarrow> failMessage (if E_Failure s = [] then ''the peer closed'' else E_Failure s))
      | None \<Rightarrow> failMessage (if E_Failure s = [] then ''the peer closed'' else E_Failure s))"

text \<open>The body of the two loops of \<^verbatim>\<open>fail\<close>: done, and the caller taken out for the loop to resume.\<close>

definition fail_slot :: "Exchanges \<Rightarrow> nat \<Rightarrow> Exchanges" where
  "fail_slot s a =
     (case E_Slot s a of
        None \<Rightarrow> s
      | Some w \<Rightarrow>
          s\<lparr>E_Slot := (E_Slot s)(a \<mapsto> w\<lparr>W_Done := True, W_Caller := None\<rparr>),
            E_Scheduled := E_Scheduled s @ (case W_Caller w of None \<Rightarrow> [] | Some h \<Rightarrow> [h])\<rparr>)"

text \<open>
  An \<^verbatim>\<open>unordered_map\<close> is walked in an order the program does not choose: \<open>order\<close> lists its keys.
\<close>

definition Exchange_fail :: "u64 list \<Rightarrow> string \<Rightarrow> Exchanges \<Rightarrow> Exchanges" where
  "Exchange_fail order Why s = foldl fail_slot (s\<lparr>E_Failure := Why, E_Closed := True\<rparr>) (concat (map (waiters s) order))"

definition walks :: "u64 list \<Rightarrow> Exchanges \<Rightarrow> bool" where
  "walks order s \<longleftrightarrow> distinct order \<and> set order = dom (E_Waiters s)"

text \<open>A turn of \<^verbatim>\<open>pump\<close> that received a message.\<close>

definition pump_message :: "Message \<Rightarrow> Exchanges \<Rightarrow> Exchanges" where
  "pump_message M s =
     (case waiters s (idOf M) of
        [] \<Rightarrow> s
      | a # q \<Rightarrow>
          (case E_Slot s a of
             None \<Rightarrow> s
           | Some w \<Rightarrow>
               s\<lparr>E_Waiters := (E_Waiters s)(idOf M \<mapsto> q),
                 E_Slot := (E_Slot s)(a \<mapsto> w\<lparr>W_Reply := Some M, W_Done := True, W_Caller := None\<rparr>),
                 E_Scheduled := E_Scheduled s @ (case W_Caller w of None \<Rightarrow> [] | Some h \<Rightarrow> [h])\<rparr>))"

section \<open>Steps\<close>

definition callers :: "Exchanges \<Rightarrow> nat set" where
  "callers s = {h. \<exists>a w. E_Slot s a = Some w \<and> W_Caller w = Some h}"

text \<open>
  A coroutine suspends on one exchange at a time, and an exchange is awaited by one coroutine. A
  coroutine that is destroyed is cancelled at the loop first, as the turn of the loop does.
\<close>

inductive exchange_step :: "Exchanges \<Rightarrow> Exchanges \<Rightarrow> bool" where
  registers: "exchange_step s (Exchange_new i s)"
| suspends: "E_Slot s a = Some w \<Longrightarrow> \<not> wait_ready a s \<Longrightarrow> W_Caller w = None \<Longrightarrow> h \<notin> callers s \<Longrightarrow> h \<notin> set (E_Scheduled s) \<Longrightarrow>
    exchange_step s (wait_suspend a h s)"
| resumes: "h \<in> set (E_Scheduled s) \<Longrightarrow> exchange_step s (s\<lparr>E_Scheduled := filter (\<lambda>x. x \<noteq> h) (E_Scheduled s)\<rparr>)"
| leaves: "E_Slot s a = Some w \<Longrightarrow> exchange_step s (Exchange_destroy a s)"
| receives: "\<not> E_Closed s \<Longrightarrow> exchange_step s (pump_message M s)"
| breaks: "\<not> E_Closed s \<Longrightarrow> walks order s \<Longrightarrow> exchange_step s (Exchange_fail order Why s)"

section \<open>Invariant\<close>

definition slot_ok :: "Exchanges \<Rightarrow> nat \<Rightarrow> Waiting \<Rightarrow> bool" where
  "slot_ok s a w \<longleftrightarrow> a < E_Made s \<and>
     (case W_Reply w of
        None \<Rightarrow> a \<in> set (waiters s (W_Id w)) \<and> (W_Done w \<longrightarrow> E_Closed s)
      | Some M \<Rightarrow> idOf M = W_Id w \<and> W_Done w \<and> (\<forall>b \<in> set (waiters s (W_Id w)). a < b)) \<and>
     (W_Caller w \<noteq> None \<longrightarrow> \<not> W_Done w \<and> \<not> E_Closed s)"

definition exchange_inv :: "Exchanges \<Rightarrow> bool" where
  "exchange_inv s \<longleftrightarrow>
     (\<forall>a w. E_Slot s a = Some w \<longrightarrow> slot_ok s a w) \<and>
     (\<forall>i. sorted_wrt (<) (waiters s i) \<and> (\<forall>a \<in> set (waiters s i). \<exists>w. E_Slot s a = Some w \<and> W_Id w = i \<and> W_Reply w = None)) \<and>
     (\<forall>a b v w h. E_Slot s a = Some v \<longrightarrow> E_Slot s b = Some w \<longrightarrow> W_Caller v = Some h \<longrightarrow> W_Caller w = Some h \<longrightarrow> a = b) \<and>
     distinct (E_Scheduled s) \<and> set (E_Scheduled s) \<inter> callers s = {}"

lemma exchange_invI:
  assumes "\<And>a w. E_Slot s a = Some w \<Longrightarrow> slot_ok s a w" and "\<And>i. sorted_wrt (<) (waiters s i)"
    and "\<And>i a. a \<in> set (waiters s i) \<Longrightarrow> \<exists>w. E_Slot s a = Some w \<and> W_Id w = i \<and> W_Reply w = None"
    and "\<And>a b v w h. E_Slot s a = Some v \<Longrightarrow> E_Slot s b = Some w \<Longrightarrow> W_Caller v = Some h \<Longrightarrow> W_Caller w = Some h \<Longrightarrow> a = b"
    and "distinct (E_Scheduled s)" and "set (E_Scheduled s) \<inter> callers s = {}"
  shows "exchange_inv s"
  unfolding exchange_inv_def using assms by blast

lemma exchange_invD:
  assumes "exchange_inv s"
  shows "E_Slot s a = Some w \<Longrightarrow> slot_ok s a w" and "sorted_wrt (<) (waiters s i)"
    and "a \<in> set (waiters s i) \<Longrightarrow> \<exists>w. E_Slot s a = Some w \<and> W_Id w = i \<and> W_Reply w = None"
    and "E_Slot s a = Some v \<Longrightarrow> E_Slot s b = Some w \<Longrightarrow> W_Caller v = Some h \<Longrightarrow> W_Caller w = Some h \<Longrightarrow> a = b"
    and "distinct (E_Scheduled s)" and "set (E_Scheduled s) \<inter> callers s = {}"
  using assms unfolding exchange_inv_def by blast+

lemma waiters_upd [simp]:
  "waiters (s\<lparr>E_Waiters := (E_Waiters s)(i \<mapsto> q)\<rparr>) j = (if j = i then q else waiters s j)"
  "waiters (s\<lparr>E_Slot := f\<rparr>) = waiters s" "waiters (s\<lparr>E_Scheduled := l\<rparr>) = waiters s" "waiters (s\<lparr>E_Made := n\<rparr>) = waiters s"
  "waiters (s\<lparr>E_Failure := y\<rparr>) = waiters s" "waiters (s\<lparr>E_Closed := c\<rparr>) = waiters s"
  by (auto simp: waiters_def)

lemma registered_inv:
  assumes "exchange_inv s"
  shows "exchange_inv (Exchange_new i s)"
proof -
  note v = exchange_invD [OF assms]
  have below: "a < E_Made s" if "a \<in> set (waiters s j)" for a j
    using v(1,3) that unfolding slot_ok_def by blast
  have q: "waiters (Exchange_new i s) j = (if j = i then waiters s i @ [E_Made s] else waiters s j)" for j
    by (auto simp: Exchange_new_def waiters_def)
  have fresh: "E_Slot s (E_Made s) = None" using v(1) [of "E_Made s"] by (cases "E_Slot s (E_Made s)") (auto simp: slot_ok_def)
  have c: "callers (Exchange_new i s) = callers s" using fresh by (auto simp: callers_def Exchange_new_def split: if_splits) (metis option.distinct(1))
  show ?thesis
  proof (rule exchange_invI)
    fix a w
    assume "E_Slot (Exchange_new i s) a = Some w"
    then show "slot_ok (Exchange_new i s) a w"
      using v(1) [of a w] unfolding slot_ok_def q by (auto simp: Exchange_new_def split: if_splits option.splits)
  next
    fix j
    show "sorted_wrt (<) (waiters (Exchange_new i s) j)" using v(2) below by (simp add: q sorted_wrt_append)
  next
    fix j a
    assume "a \<in> set (waiters (Exchange_new i s) j)"
    then have "a = E_Made s \<and> j = i \<or> a \<in> set (waiters s j) \<and> a < E_Made s" using below [of a j] by (auto simp: q split: if_splits)
    then show "\<exists>w. E_Slot (Exchange_new i s) a = Some w \<and> W_Id w = j \<and> W_Reply w = None"
      using v(3) [of a j] by (auto simp: Exchange_new_def)
  next
    fix a b x y h
    assume "E_Slot (Exchange_new i s) a = Some x" "E_Slot (Exchange_new i s) b = Some y" "W_Caller x = Some h" "W_Caller y = Some h"
    then show "a = b" using v(4) [of a x b y h] by (auto simp: Exchange_new_def split: if_splits)
  qed (use v(5,6) c in \<open>simp_all add: Exchange_new_def\<close>)
qed

lemma suspend_inv:
  assumes "exchange_inv s" and "E_Slot s a = Some w" and "\<not> wait_ready a s" and "W_Caller w = None" and "h \<notin> callers s" and "h \<notin> set (E_Scheduled s)"
  shows "exchange_inv (wait_suspend a h s)"
proof -
  note v = exchange_invD [OF assms(1)]
  let ?w = "w\<lparr>W_Caller := Some h\<rparr>"
  have e: "wait_suspend a h s = s\<lparr>E_Slot := (E_Slot s)(a \<mapsto> ?w)\<rparr>" using assms(2) by (simp add: wait_suspend_def)
  have open': "\<not> W_Done w" "\<not> E_Closed s" using assms(2,3) by (simp_all add: wait_ready_def)
  have c: "callers (wait_suspend a h s) \<subseteq> insert h (callers s)" by (auto simp: e callers_def split: if_splits)
  show ?thesis
  proof (rule exchange_invI)
    fix b x
    assume b: "E_Slot (wait_suspend a h s) b = Some x"
    show "slot_ok (wait_suspend a h s) b x"
    proof (cases "b = a")
      case True
      then show ?thesis using b v(1) [OF assms(2)] open' by (auto simp: e slot_ok_def split: option.splits)
    next
      case False
      then show ?thesis using b v(1) [of b x] by (simp add: e slot_ok_def split: option.splits)
    qed
  next
    fix j b
    assume "b \<in> set (waiters (wait_suspend a h s) j)"
    then show "\<exists>x. E_Slot (wait_suspend a h s) b = Some x \<and> W_Id x = j \<and> W_Reply x = None" using v(3) [of b j] assms(2) by (auto simp: e)
  next
    fix b d x y k
    assume "E_Slot (wait_suspend a h s) b = Some x" "E_Slot (wait_suspend a h s) d = Some y" "W_Caller x = Some k" "W_Caller y = Some k"
    then show "b = d" using v(4) [of b x d y k] assms(5) by (auto simp: e callers_def split: if_splits)
  qed (use v(2,5,6) assms(6) c in \<open>auto simp: e\<close>)
qed

lemma resume_inv:
  assumes "exchange_inv s"
  shows "exchange_inv (s\<lparr>E_Scheduled := filter P (E_Scheduled s)\<rparr>)"
proof -
  have "slot_ok (s\<lparr>E_Scheduled := l\<rparr>) = slot_ok s" "callers (s\<lparr>E_Scheduled := l\<rparr>) = callers s" for l
    by (simp_all add: fun_eq_iff slot_ok_def callers_def split: option.split)
  then show ?thesis using assms by (auto simp: exchange_inv_def)
qed

lemma destroy_waiters:
  assumes "E_Slot s a = Some w" and "\<And>j. a \<in> set (waiters s j) \<Longrightarrow> j = W_Id w"
  shows "waiters (Exchange_destroy a s) j = filter (\<lambda>b. b \<noteq> a) (waiters s j)"
proof (cases "j = W_Id w")
  case True
  then show ?thesis using assms(1) by (auto simp: Exchange_destroy_def waiters_def Let_def split: option.splits)
next
  case False
  then have "a \<notin> set (waiters s j)" using assms(2) by blast
  then have "filter (\<lambda>b. b \<noteq> a) (waiters s j) = waiters s j" by (induction "waiters s j") (auto simp: filter_id_conv)
  then show ?thesis using assms(1) False by (auto simp: Exchange_destroy_def waiters_def Let_def split: option.splits)
qed

lemma destroy_fields:
  "E_Slot (Exchange_destroy a s) = (E_Slot s)(a := None)" "E_Made (Exchange_destroy a s) = E_Made s"
  "E_Closed (Exchange_destroy a s) = E_Closed s" "E_Scheduled (Exchange_destroy a s) = E_Scheduled s"
  by (auto simp: Exchange_destroy_def Let_def fun_eq_iff split: option.splits)

lemma destroy_inv:
  assumes "exchange_inv s" and "E_Slot s a = Some w"
  shows "exchange_inv (Exchange_destroy a s)"
proof -
  note v = exchange_invD [OF assms(1)]
  have own: "j = W_Id w" if "a \<in> set (waiters s j)" for j using v(3) [OF that] assms(2) by auto
  note q = destroy_waiters [OF assms(2) own]
  show ?thesis
  proof (rule exchange_invI)
    fix b x
    assume "E_Slot (Exchange_destroy a s) b = Some x"
    then show "slot_ok (Exchange_destroy a s) b x"
      using v(1) [of b x] by (auto simp: slot_ok_def destroy_fields q split: if_splits option.splits)
  next
    fix j
    show "sorted_wrt (<) (waiters (Exchange_destroy a s) j)" using v(2) by (simp add: q sorted_wrt_filter)
  next
    fix j b
    assume "b \<in> set (waiters (Exchange_destroy a s) j)"
    then show "\<exists>x. E_Slot (Exchange_destroy a s) b = Some x \<and> W_Id x = j \<and> W_Reply x = None" using v(3) [of b j] by (auto simp: q destroy_fields)
  next
    fix b d x y h
    assume "E_Slot (Exchange_destroy a s) b = Some x" "E_Slot (Exchange_destroy a s) d = Some y" "W_Caller x = Some h" "W_Caller y = Some h"
    then show "b = d" using v(4) [of b x d y h] by (auto simp: destroy_fields split: if_splits)
  qed (use v(5,6) in \<open>auto simp: destroy_fields callers_def split: if_splits\<close>)
qed

text \<open>Waking the caller of one slot, as the pump and the failure both do.\<close>

lemma wake_callers:
  assumes "exchange_inv s" and "E_Slot s a = Some w" and "W_Caller w' = None"
  shows "distinct (E_Scheduled s @ (case W_Caller w of None \<Rightarrow> [] | Some h \<Rightarrow> [h]))"
    and "set (E_Scheduled s @ (case W_Caller w of None \<Rightarrow> [] | Some h \<Rightarrow> [h])) \<inter> {h. \<exists>b x. ((E_Slot s)(a \<mapsto> w')) b = Some x \<and> W_Caller x = Some h} = {}"
proof -
  note v = exchange_invD [OF assms(1)]
  show "distinct (E_Scheduled s @ (case W_Caller w of None \<Rightarrow> [] | Some h \<Rightarrow> [h]))"
    using v(5,6) assms(2) by (auto simp: callers_def split: option.splits)
  show "set (E_Scheduled s @ (case W_Caller w of None \<Rightarrow> [] | Some h \<Rightarrow> [h])) \<inter> {h. \<exists>b x. ((E_Slot s)(a \<mapsto> w')) b = Some x \<and> W_Caller x = Some h} = {}"
  proof (intro equalityI subsetI)
    fix h
    assume "h \<in> set (E_Scheduled s @ (case W_Caller w of None \<Rightarrow> [] | Some h \<Rightarrow> [h])) \<inter> {h. \<exists>b x. ((E_Slot s)(a \<mapsto> w')) b = Some x \<and> W_Caller x = Some h}"
    then obtain b x where b: "b \<noteq> a" "E_Slot s b = Some x" "W_Caller x = Some h" and h: "h \<in> set (E_Scheduled s) \<or> W_Caller w = Some h"
      using assms(3) by (auto split: if_splits option.splits)
    then show "h \<in> {}" using v(6) v(4) [OF b(2) assms(2) b(3)] by (auto simp: callers_def)
  qed simp
qed

lemma pump_eq:
  assumes "exchange_inv s" and "waiters s (idOf M) = a # q"
  obtains w where "E_Slot s a = Some w" "W_Id w = idOf M" "W_Reply w = None"
    "pump_message M s = s\<lparr>E_Waiters := (E_Waiters s)(idOf M \<mapsto> q), E_Slot := (E_Slot s)(a \<mapsto> w\<lparr>W_Reply := Some M, W_Done := True, W_Caller := None\<rparr>),
        E_Scheduled := E_Scheduled s @ (case W_Caller w of None \<Rightarrow> [] | Some h \<Rightarrow> [h])\<rparr>"
proof -
  obtain w where "E_Slot s a = Some w" "W_Id w = idOf M" "W_Reply w = None" using exchange_invD(3) [OF assms(1), of a "idOf M"] assms(2) by auto
  then show thesis using that assms(2) by (simp add: pump_message_def)
qed

lemma pump_inv:
  assumes "exchange_inv s" and "\<not> E_Closed s"
  shows "exchange_inv (pump_message M s)"
proof (cases "waiters s (idOf M)")
  case Nil
  then show ?thesis using assms(1) by (simp add: pump_message_def)
next
  case (Cons a q)
  note v = exchange_invD [OF assms(1)]
  obtain w where w: "E_Slot s a = Some w" "W_Id w = idOf M" "W_Reply w = None"
    and e: "pump_message M s = s\<lparr>E_Waiters := (E_Waiters s)(idOf M \<mapsto> q), E_Slot := (E_Slot s)(a \<mapsto> w\<lparr>W_Reply := Some M, W_Done := True, W_Caller := None\<rparr>),
        E_Scheduled := E_Scheduled s @ (case W_Caller w of None \<Rightarrow> [] | Some h \<Rightarrow> [h])\<rparr>" (is "_ = ?s")
    using pump_eq [OF assms(1) Cons] .
  have q: "waiters ?s j = (if j = idOf M then q else waiters s j)" for j by (auto simp: waiters_def)
  have sorted: "\<forall>b \<in> set q. a < b" "sorted_wrt (<) q" using v(2) [of "idOf M"] Cons by simp_all
  have apart: "a \<notin> set (waiters s j)" if "j \<noteq> idOf M" for j using v(3) [of a j] w that by auto
  show ?thesis unfolding e
  proof (rule exchange_invI)
    fix b x
    assume b: "E_Slot ?s b = Some x"
    show "slot_ok ?s b x"
    proof (cases "b = a")
      case True
      then show ?thesis using b w v(1) [OF w(1)] sorted by (auto simp: slot_ok_def q)
    next
      case False
      then have "E_Slot s b = Some x" using b by simp
      then show ?thesis using v(1) [of b x] False Cons assms(2) by (auto simp: slot_ok_def q split: option.splits)
    qed
  next
    fix j
    show "sorted_wrt (<) (waiters ?s j)" unfolding q using v(2) sorted by simp
  next
    fix j b
    assume b: "b \<in> set (waiters ?s j)"
    then have "b \<noteq> a" using sorted(1) apart [of j] unfolding q by (auto split: if_splits)
    then show "\<exists>x. E_Slot ?s b = Some x \<and> W_Id x = j \<and> W_Reply x = None" using b v(3) [of b j] Cons unfolding q by (auto split: if_splits)
  next
    fix b d x y h
    assume "E_Slot ?s b = Some x" "E_Slot ?s d = Some y" "W_Caller x = Some h" "W_Caller y = Some h"
    then show "b = d" using v(4) [of b x d y h] by (auto split: if_splits)
  qed (use wake_callers [OF assms(1) w(1), of "w\<lparr>W_Reply := Some M, W_Done := True, W_Caller := None\<rparr>"] in \<open>simp_all add: callers_def\<close>)
qed

definition caller_of :: "Exchanges \<Rightarrow> nat \<Rightarrow> nat list" where
  "caller_of s a = (case E_Slot s a of None \<Rightarrow> [] | Some w \<Rightarrow> (case W_Caller w of None \<Rightarrow> [] | Some h \<Rightarrow> [h]))"

lemma in_caller_of: "h \<in> set (caller_of s a) \<longleftrightarrow> (\<exists>w. E_Slot s a = Some w \<and> W_Caller w = Some h)"
  by (cases "E_Slot s a") (auto simp: caller_of_def split: option.split)

lemma fail_slots:
  assumes "distinct as"
  shows "foldl fail_slot s as =
    s\<lparr>E_Slot := (\<lambda>a. if a \<in> set as then map_option (\<lambda>w. w\<lparr>W_Done := True, W_Caller := None\<rparr>) (E_Slot s a) else E_Slot s a),
      E_Scheduled := E_Scheduled s @ concat (map (caller_of s) as)\<rparr>"
  using assms
proof (induction as arbitrary: s)
  case (Cons a as)
  have "caller_of (fail_slot s a) b = caller_of s b" if "b \<in> set as" for b
    using that Cons.prems by (auto simp: caller_of_def fail_slot_def split: option.splits)
  then have m: "map (caller_of (fail_slot s a)) as = map (caller_of s) as" by simp
  have f: "E_Scheduled (fail_slot s a) = E_Scheduled s @ caller_of s a"
    "E_Slot (fail_slot s a) = (E_Slot s)(a := map_option (\<lambda>w. w\<lparr>W_Done := True, W_Caller := None\<rparr>) (E_Slot s a))"
    "s\<lparr>E_Slot := E_Slot (fail_slot s a), E_Scheduled := E_Scheduled (fail_slot s a)\<rparr> = fail_slot s a"
    by (auto simp: fail_slot_def caller_of_def fun_eq_iff split: option.splits)
  have "fail_slot s a\<lparr>E_Slot := x, E_Scheduled := y\<rparr> = s\<lparr>E_Slot := x, E_Scheduled := y\<rparr>" for x y by (subst f(3) [symmetric]) simp
  moreover have "(\<lambda>b. if b \<in> set as then map_option (\<lambda>w. w\<lparr>W_Done := True, W_Caller := None\<rparr>) (E_Slot (fail_slot s a) b) else E_Slot (fail_slot s a) b) =
      (\<lambda>b. if b \<in> set (a # as) then map_option (\<lambda>w. w\<lparr>W_Done := True, W_Caller := None\<rparr>) (E_Slot s b) else E_Slot s b)"
    using Cons.prems by (auto simp: f(2) fun_eq_iff)
  ultimately show ?case using Cons by (simp add: m f(1))
qed simp

definition all_waiters :: "u64 list \<Rightarrow> Exchanges \<Rightarrow> nat list" where
  "all_waiters order s = concat (map (waiters s) order)"

lemma all_waiters:
  assumes "exchange_inv s" and "walks order s"
  shows "distinct (all_waiters order s)" and "set (all_waiters order s) = (\<Union>i. set (waiters s i))"
proof -
  note v = exchange_invD [OF assms(1)]
  have d: "distinct (waiters s i)" for i using v(2) [of i] by (simp add: strict_sorted_iff)
  have apart: "i = j" if "a \<in> set (waiters s i)" "a \<in> set (waiters s j)" for a i j using v(3) [OF that(1)] v(3) [OF that(2)] by auto
  have "distinct order" using assms(2) by (simp add: walks_def)
  then show "distinct (all_waiters order s)" unfolding all_waiters_def
  proof (induction order)
    case (Cons i order)
    then have "set (waiters s i) \<inter> set (concat (map (waiters s) order)) = {}" using apart by auto
    then show ?case using Cons d by simp
  qed simp
  have "waiters s i = []" if "i \<notin> set order" for i using assms(2) that by (auto simp: walks_def waiters_def split: option.splits)
  then show "set (all_waiters order s) = (\<Union>i. set (waiters s i))" unfolding all_waiters_def by fastforce
qed

lemma Exchange_fail_eq:
  assumes "exchange_inv s" and "walks order s"
  shows "Exchange_fail order Why s = s\<lparr>E_Failure := Why, E_Closed := True,
      E_Slot := (\<lambda>a. if a \<in> set (all_waiters order s) then map_option (\<lambda>w. w\<lparr>W_Done := True, W_Caller := None\<rparr>) (E_Slot s a) else E_Slot s a),
      E_Scheduled := E_Scheduled s @ concat (map (caller_of s) (all_waiters order s))\<rparr>"
proof -
  have "caller_of (s\<lparr>E_Failure := Why, E_Closed := True\<rparr>) = caller_of s" by (simp add: fun_eq_iff caller_of_def)
  then show ?thesis using fail_slots [OF all_waiters(1) [OF assms], of "s\<lparr>E_Failure := Why, E_Closed := True\<rparr>"] by (simp add: Exchange_fail_def all_waiters_def cong: if_cong)
qed

lemma distinct_callers:
  assumes "exchange_inv s" and "distinct as"
  shows "distinct (concat (map (caller_of s) as))"
  using assms(2)
proof (induction as)
  case (Cons a as)
  have "h \<notin> set (concat (map (caller_of s) as))" if own: "h \<in> set (caller_of s a)" for h
  proof
    assume "h \<in> set (concat (map (caller_of s) as))"
    then obtain b v w where "b \<in> set as" "E_Slot s a = Some v" "E_Slot s b = Some w" "W_Caller v = Some h" "W_Caller w = Some h"
      using own by (auto simp: in_caller_of)
    then show False using exchange_invD(4) [OF assms(1), of a v b w h] Cons.prems by auto
  qed
  moreover have "distinct (caller_of s a)" by (simp add: caller_of_def split: option.split)
  ultimately show ?case using Cons by auto
qed simp

text \<open>Every suspended caller is queued, so the failure finds it.\<close>

lemma caller_queued:
  assumes "exchange_inv s" and "E_Slot s a = Some w" and "W_Caller w = Some h"
  shows "a \<in> set (waiters s (W_Id w))" and "\<not> E_Closed s"
  using exchange_invD(1) [OF assms(1,2)] assms(3) by (auto simp: slot_ok_def split: option.splits)

lemma fail_inv:
  assumes "exchange_inv s" and "walks order s"
  shows "exchange_inv (Exchange_fail order Why s)" and "callers (Exchange_fail order Why s) = {}"
proof -
  note v = exchange_invD [OF assms(1)]
  note aw = all_waiters [OF assms]
  define s' where "s' = Exchange_fail order Why s"
  have q: "waiters s' = waiters s" by (simp add: s'_def Exchange_fail_eq [OF assms] waiters_def fun_eq_iff)
  have slot: "\<exists>x. E_Slot s a = Some x \<and> W_Id w = W_Id x \<and> W_Reply w = W_Reply x \<and> (W_Done x \<longrightarrow> W_Done w) \<and> W_Caller w = None" if "E_Slot s' a = Some w" for a w
  proof (cases "a \<in> set (all_waiters order s)")
    case True
    then show ?thesis using that by (auto simp: s'_def Exchange_fail_eq [OF assms])
  next
    case False
    then have "E_Slot s a = Some w" using that by (simp add: s'_def Exchange_fail_eq [OF assms])
    moreover have "W_Caller w = None" using caller_queued(1) [OF assms(1) calculation] False aw(2) by (cases "W_Caller w") auto
    ultimately show ?thesis by blast
  qed
  have still: "\<exists>x. E_Slot s' a = Some x \<and> W_Id w = W_Id x \<and> W_Reply w = W_Reply x" if "E_Slot s a = Some w" for a w
    using that by (auto simp: s'_def Exchange_fail_eq [OF assms])
  have fields: "E_Closed s'" "E_Made s' = E_Made s" "E_Scheduled s' = E_Scheduled s @ concat (map (caller_of s) (all_waiters order s))"
    by (simp_all add: s'_def Exchange_fail_eq [OF assms])
  show none: "callers (Exchange_fail order Why s) = {}" using slot unfolding s'_def [symmetric] by (fastforce simp: callers_def)
  have "set (concat (map (caller_of s) (all_waiters order s))) \<subseteq> callers s" by (auto simp: in_caller_of callers_def)
  then have sched: "distinct (E_Scheduled s')" using v(5,6) distinct_callers [OF assms(1) aw(1)] unfolding fields by auto
  show "exchange_inv (Exchange_fail order Why s)" unfolding s'_def [symmetric]
  proof (rule exchange_invI)
    fix a w
    assume "E_Slot s' a = Some w"
    from slot [OF this] obtain x where x: "E_Slot s a = Some x" "W_Id w = W_Id x" "W_Reply w = W_Reply x" "W_Done x \<longrightarrow> W_Done w" "W_Caller w = None" by blast
    then show "slot_ok s' a w" using v(1) [OF x(1)] fields by (auto simp: slot_ok_def q split: option.splits)
  next
    fix i a
    assume "a \<in> set (waiters s' i)"
    then show "\<exists>w. E_Slot s' a = Some w \<and> W_Id w = i \<and> W_Reply w = None" using v(3) [of a i] still unfolding q by metis
  next
    fix a b x y h
    assume "E_Slot s' a = Some x" "W_Caller x = Some h"
    then show "a = b" using slot by fastforce
  qed (use v(2) sched none in \<open>simp_all add: q s'_def [symmetric]\<close>)
qed

lemma exchange_step_inv:
  assumes "exchange_inv s" and "exchange_step s s'"
  shows "exchange_inv s'"
  using assms(2)
proof cases
  case (registers i)
  then show ?thesis using registered_inv [OF assms(1)] by simp
next
  case (suspends a w h)
  then show ?thesis using suspend_inv [OF assms(1)] by simp
next
  case (resumes h)
  then show ?thesis using resume_inv [OF assms(1)] by simp
next
  case (leaves a w)
  then show ?thesis using destroy_inv [OF assms(1)] by simp
next
  case (receives M)
  then show ?thesis using pump_inv [OF assms(1)] by simp
next
  case (breaks order Why)
  then show ?thesis using fail_inv(1) [OF assms(1)] by simp
qed

lemma Exchanges_new_inv: "exchange_inv Exchanges_new"
  by (rule exchange_invI) (simp_all add: Exchanges_new_def waiters_def callers_def)

interpretation exchanges: transition_system Exchanges_new exchange_step exchange_inv
  by unfold_locales (use Exchanges_new_inv exchange_step_inv in blast)+

section \<open>Replies find their callers\<close>

text \<open>
  C13. The exchanges of a client never mix and never leave anyone behind. However callers, the pump and
  a failure interleave, a slot that holds a reply holds one of its own id and was made before every
  slot of that id which still waits; a caller that is suspended has its slot queued under its id on
  an open connection, so that the next reply or the failure finds it, and is not already on its way
  back; no caller is scheduled twice; and once the connection is closed nobody is suspended.
\<close>

theorem exchanges_safe:
  assumes "exchange_step\<^sup>*\<^sup>* Exchanges_new s"
  shows "(\<forall>a w M. E_Slot s a = Some w \<and> W_Reply w = Some M \<longrightarrow>
      idOf M = W_Id w \<and> (\<forall>b x. E_Slot s b = Some x \<and> W_Id x = W_Id w \<and> W_Reply x = None \<longrightarrow> a < b)) \<and>
    (\<forall>a w h. E_Slot s a = Some w \<and> W_Caller w = Some h \<longrightarrow> a \<in> set (waiters s (W_Id w)) \<and> \<not> E_Closed s \<and> h \<notin> set (E_Scheduled s)) \<and>
    distinct (E_Scheduled s) \<and> (E_Closed s \<longrightarrow> callers s = {})"
proof -
  have i: "exchange_inv s" by (rule exchanges.inv_steps [OF assms Exchanges_new_inv])
  note v = exchange_invD [OF i]
  have "idOf M = W_Id w \<and> a < b" if "E_Slot s a = Some w" "W_Reply w = Some M" "E_Slot s b = Some x" "W_Id x = W_Id w" "W_Reply x = None" for a b w x M
    using v(1) [OF that(1)] v(1) [OF that(3)] that(2,4,5) by (simp add: slot_ok_def)
  moreover have "idOf M = W_Id w" if "E_Slot s a = Some w" "W_Reply w = Some M" for a w M using v(1) [OF that(1)] that(2) by (simp add: slot_ok_def)
  moreover have "h \<notin> set (E_Scheduled s)" if "E_Slot s a = Some w" "W_Caller w = Some h" for a w h using v(6) that by (auto simp: callers_def)
  moreover have "callers s = {}" if "E_Closed s" using caller_queued(2) [OF i] that by (auto simp: callers_def)
  ultimately show ?thesis using caller_queued [OF i] v(5) by blast
qed

definition two_waiting :: Exchanges where
  "two_waiting = wait_suspend 1 21 (wait_suspend 0 20 (Exchange_new 5 (Exchange_new 5 Exchanges_new)))"

lemma two_waiting_reached: "exchange_step\<^sup>*\<^sup>* Exchanges_new two_waiting"
proof -
  let ?b = "Exchange_new 5 (Exchange_new 5 Exchanges_new)"
  note ops = Exchange_new_def Exchanges_new_def waiters_def wait_ready_def wait_suspend_def callers_def
  have "exchange_step Exchanges_new (Exchange_new 5 Exchanges_new)" "exchange_step (Exchange_new 5 Exchanges_new) ?b" by (rule registers)+
  moreover have "exchange_step ?b (wait_suspend 0 20 ?b)" by (rule suspends [of _ _ "the (E_Slot ?b 0)"]) (auto simp: ops split: if_splits)
  moreover have "exchange_step (wait_suspend 0 20 ?b) two_waiting" unfolding two_waiting_def
    by (rule suspends [of _ _ "the (E_Slot (wait_suspend 0 20 ?b) 1)"]) (auto simp: ops split: if_splits)
  ultimately show ?thesis by (meson converse_rtranclp_into_rtranclp rtranclp.rtrancl_refl)
qed

theorem exchanges_safe_witness: "\<not> E_Closed two_waiting \<and> 0 \<in> set (waiters two_waiting 5) \<and> 20 \<notin> set (E_Scheduled two_waiting)"
proof -
  have "E_Slot two_waiting 0 = Some \<lparr>W_Id = 5, W_Reply = None, W_Caller = Some 20, W_Done = False\<rparr>"
    by (simp add: two_waiting_def Exchange_new_def Exchanges_new_def waiters_def wait_suspend_def)
  then show ?thesis using exchanges_safe [OF two_waiting_reached] by fastforce
qed

lemma pump_keeps:
  assumes "exchange_inv s" and "E_Slot s a = Some w" and "W_Reply w \<noteq> None"
  shows "E_Slot (pump_message M s) a = Some w"
proof (cases "waiters s (idOf M)")
  case Nil
  then show ?thesis using assms by (simp add: pump_message_def)
next
  case (Cons b q)
  then show ?thesis using assms(2,3) by (elim pump_eq [OF assms(1)]) auto
qed

lemma pump_waiters: "exchange_inv s \<Longrightarrow> waiters (pump_message M s) i = (if i = idOf M then tl (waiters s i) else waiters s i)"
proof (cases "waiters s (idOf M)")
  case Nil
  then show ?thesis by (simp add: pump_message_def)
next
  case (Cons b q)
  assume "exchange_inv s"
  from pump_eq [OF this Cons] obtain w where "pump_message M s = s\<lparr>E_Waiters := (E_Waiters s)(idOf M \<mapsto> q),
      E_Slot := (E_Slot s)(b \<mapsto> w\<lparr>W_Reply := Some M, W_Done := True, W_Caller := None\<rparr>), E_Scheduled := E_Scheduled s @ (case W_Caller w of None \<Rightarrow> [] | Some h \<Rightarrow> [h])\<rparr>" .
  then show ?thesis using Cons by (auto simp: waiters_def)
qed

lemma pump_head:
  assumes "exchange_inv s" and "waiters s (idOf M) = a # q"
  shows "\<exists>w. E_Slot (pump_message M s) a = Some w \<and> W_Reply w = Some M"
  by (rule pump_eq [OF assms]) simp

lemma pump_closed: "E_Closed (pump_message M s) = E_Closed s"
  by (simp add: pump_message_def split: list.split option.split)

lemma pump_all:
  fixes i
  defines "Rs \<equiv> filter (\<lambda>M. idOf M = i)"
  assumes "exchange_inv s" and "\<not> E_Closed s" and "length (Rs Ms) \<le> length (waiters s i)"
  shows "exchange_inv (fold pump_message Ms s) \<and> \<not> E_Closed (fold pump_message Ms s) \<and> waiters (fold pump_message Ms s) i = drop (length (Rs Ms)) (waiters s i) \<and>
    (\<forall>k < length (Rs Ms). \<exists>w. E_Slot (fold pump_message Ms s) (waiters s i ! k) = Some w \<and> W_Reply w = Some (Rs Ms ! k))"
  using assms(4)
proof (induction Ms rule: rev_induct)
  case Nil
  then show ?case using assms(2,3) by (simp add: Rs_def)
next
  case (snoc M Ms)
  let ?s = "fold pump_message Ms s" and ?n = "length (Rs Ms)"
  have IH: "exchange_inv ?s" "\<not> E_Closed ?s" "waiters ?s i = drop ?n (waiters s i)"
    "\<And>k. k < ?n \<Longrightarrow> \<exists>w. E_Slot ?s (waiters s i ! k) = Some w \<and> W_Reply w = Some (Rs Ms ! k)" using snoc by (auto simp: Rs_def)
  have kept: "\<exists>w. E_Slot (pump_message M ?s) (waiters s i ! k) = Some w \<and> W_Reply w = Some (Rs Ms ! k)" if "k < ?n" for k
    using IH(4) [OF that] pump_keeps [OF IH(1)] by fastforce
  have inv: "exchange_inv (pump_message M ?s)" "\<not> E_Closed (pump_message M ?s)" using pump_inv [OF IH(1,2)] pump_closed IH(2) by simp_all
  show ?case
  proof (cases "idOf M = i")
    case True
    then have n: "?n < length (waiters s i)" using snoc.prems by (simp add: Rs_def)
    then have w: "waiters ?s i = waiters s i ! ?n # drop (Suc ?n) (waiters s i)" using IH(3) by (simp add: Cons_nth_drop_Suc)
    then have "\<exists>w. E_Slot (pump_message M ?s) (waiters s i ! ?n) = Some w \<and> W_Reply w = Some M" using pump_head [OF IH(1)] True by blast
    then have "\<exists>w. E_Slot (pump_message M ?s) (waiters s i ! k) = Some w \<and> W_Reply w = Some (Rs (Ms @ [M]) ! k)" if "k < Suc ?n" for k
      using kept [of k] that True by (cases "k = ?n") (auto simp: Rs_def nth_append)
    then show ?thesis using inv pump_waiters [OF IH(1), of M i] w True by (simp add: Rs_def)
  next
    case False
    then show ?thesis using inv kept pump_waiters [OF IH(1), of M i] IH(3) by (simp add: Rs_def)
  qed
qed

text \<open>
  C39. Replies reach the exchanges of their id in order. Whatever messages a client receives, those of
  one id answer the exchanges that wait for it first come, first served: the reply that the k-th of
  them resumes with is the k-th message of that id, however messages of other ids fall between.
\<close>

theorem replies_in_order:
  assumes "exchange_step\<^sup>*\<^sup>* Exchanges_new s" and "\<not> E_Closed s" and "length (filter (\<lambda>M. idOf M = i) Ms) \<le> length (waiters s i)"
    and "k < length (filter (\<lambda>M. idOf M = i) Ms)"
  shows "wait_resume (waiters s i ! k) (fold pump_message Ms s) = Inr (filter (\<lambda>M. idOf M = i) Ms ! k)"
proof -
  have "exchange_inv s" by (rule exchanges.inv_steps [OF assms(1) Exchanges_new_inv])
  then show ?thesis using pump_all [OF _ assms(2,3)] assms(4) by (fastforce simp: wait_resume_def)
qed

definition stream_frames :: "Message list" where
  "stream_frames = [StreamReply \<lparr>StreamReply_Id = 5, StreamReply_Length = 9, StreamReply_Ok = True, StreamReply_Error = []\<rparr>,
     StreamReply \<lparr>StreamReply_Id = 6, StreamReply_Length = 0, StreamReply_Ok = False, StreamReply_Error = []\<rparr>,
     StreamDigest \<lparr>StreamDigest_Id = 5, StreamDigest_Whole = [], StreamDigest_Ok = True, StreamDigest_Error = []\<rparr>]"

theorem replies_in_order_witness:
  "wait_resume 1 (fold pump_message stream_frames two_waiting) =
     Inr (StreamDigest \<lparr>StreamDigest_Id = 5, StreamDigest_Whole = [], StreamDigest_Ok = True, StreamDigest_Error = []\<rparr>)"
proof -
  have w: "waiters two_waiting 5 = [0, 1]" "\<not> E_Closed two_waiting"
    by (simp_all add: two_waiting_def Exchange_new_def Exchanges_new_def waiters_def wait_suspend_def)
  have f: "filter (\<lambda>M. idOf M = 5) stream_frames = [stream_frames ! 0, stream_frames ! 2]" by (simp add: stream_frames_def)
  show ?thesis using replies_in_order [OF two_waiting_reached w(2), of 5 stream_frames 1] unfolding f w(1) by (simp add: stream_frames_def)
qed

end
