(* ===== verification/FileClient.thy ===== *)
theory FileClient
  imports KernelMount ClientExchange PageStream
begin

text \<open>
  \<^verbatim>\<open>src/file-client.cc\<close>: the operations of a file client, each as the code makes it, from the guards
  to the reply. What the control channel, the exchanges (\<open>ClientExchange\<close>), the data channel, the
  buffer pool, the page streams (\<open>PageStream\<close>) and the local file answer are arguments. One operation
  runs at a time here; the exchanges say how replies reach several, and \<open>Turn\<close> keeps streams apart.
  The theorems put the client and the daemon's handlers (\<open>FileService\<close>) together.
\<close>

section \<open>The world of a client\<close>

text \<open>
  \<open>c_reply C i k\<close> is what the \<open>k\<close>-th exchange made under the id \<open>i\<close> resumes with. \<open>c_tx\<close> and \<open>c_rx\<close> are
  what a page stream reports, as in the daemon's \<open>sys\<close>.
\<close>

record client_env =
  c_send :: "nat \<Rightarrow> unit Result"
  c_reply :: "u64 \<Rightarrow> nat \<Rightarrow> Message Result"
  c_acquire :: bool
  c_recv :: "u64 \<Rightarrow> nat \<Rightarrow> byte list Result"
  c_post :: "u64 \<Rightarrow> unit Result"
  c_tx :: "u64 Result \<times> Digest \<times> bool"
  c_rx :: "u64 Result \<times> (Digest \<Rightarrow> bool)"
  c_open :: "u64 Result"
  c_create :: "unit Result"
  c_commit :: "unit Result"
  c_text :: "Error \<Rightarrow> string"
  c_pageSize :: nat
  c_pageCount :: nat
  c_maxInFlight :: nat

text \<open>A posted read: whether it lands in the caller's page, and how many bytes were asked for, which is the room there is.\<close>

record PostedRead =
  P_Id :: u64
  P_Direct :: bool
  P_Want :: nat

text \<open>
  \<open>F_Sent\<close> and \<open>F_Pages\<close> are what went out on the control and the data channel, \<open>F_Landed\<close> the tag bases
  of the streams it received, \<open>F_Commits\<close> the local files it committed; \<open>F_Gone\<close>: both channels were
  closed; \<open>F_Overrun\<close>: bytes were copied past the end of a buffer.
\<close>

record file_client =
  F_NextId :: u64
  F_TagCursor :: u64
  F_Reads :: "PostedRead list"
  F_PagesSent :: nat
  F_RefuseSendAfterPages :: nat
  F_Verify :: bool
  F_Agreed :: Sum
  F_Sent :: "Message list"
  F_Pages :: "(u64 \<times> byte list) list"
  F_Landed :: "u64 list"
  F_Commits :: nat
  F_Gone :: bool
  F_Overrun :: bool

definition kStreamTags :: u64 where
  "kStreamTags = push_bit 63 1"

definition maxTransfer :: "client_env \<Rightarrow> nat" where
  "maxTransfer C = c_pageSize C"

definition maxOutstanding :: "client_env \<Rightarrow> nat" where
  "maxOutstanding C = (let Pages = c_pageCount C; ByPool = (if Pages > 2 then Pages - 2 else 1) in min ByPool (c_maxInFlight C))"

definition nextId :: "file_client \<Rightarrow> u64 \<times> file_client" where
  "nextId f = (F_NextId f, f\<lparr>F_NextId := F_NextId f + 1\<rparr>)"

definition control_send :: "client_env \<Rightarrow> Message \<Rightarrow> file_client \<Rightarrow> unit Result \<times> file_client" where
  "control_send C M f = (c_send C (length (F_Sent f)), f\<lparr>F_Sent := F_Sent f @ [M]\<rparr>)"

text \<open>\<^verbatim>\<open>asReply\<close>: \<open>proj\<close> is the \<^verbatim>\<open>std::get_if\<close> of the alternative.\<close>

definition asReply :: "(Message \<Rightarrow> 'a option) \<Rightarrow> Message Result \<Rightarrow> 'a Result" where
  "asReply proj r =
     bindR r (\<lambda>M. case proj M of Some v \<Rightarrow> Inr v | None \<Rightarrow> failMessage (''unexpected message '' @ typeName (typeOf M)))"

definition get_StatReply :: "Message \<Rightarrow> StatReply option" where "get_StatReply M = (case M of StatReply v \<Rightarrow> Some v | _ \<Rightarrow> None)"
definition get_OpenReply :: "Message \<Rightarrow> OpenReply option" where "get_OpenReply M = (case M of OpenReply v \<Rightarrow> Some v | _ \<Rightarrow> None)"
definition get_MetaReply :: "Message \<Rightarrow> MetaReply option" where "get_MetaReply M = (case M of MetaReply v \<Rightarrow> Some v | _ \<Rightarrow> None)"
definition get_ListReply :: "Message \<Rightarrow> ListReply option" where "get_ListReply M = (case M of ListReply v \<Rightarrow> Some v | _ \<Rightarrow> None)"
definition get_TransferReply :: "Message \<Rightarrow> TransferReply option" where "get_TransferReply M = (case M of TransferReply v \<Rightarrow> Some v | _ \<Rightarrow> None)"
definition get_StatFsReply :: "Message \<Rightarrow> StatFsReply option" where "get_StatFsReply M = (case M of StatFsReply v \<Rightarrow> Some v | _ \<Rightarrow> None)"
definition get_StreamReply :: "Message \<Rightarrow> StreamReply option" where "get_StreamReply M = (case M of StreamReply v \<Rightarrow> Some v | _ \<Rightarrow> None)"
definition get_StreamDigest :: "Message \<Rightarrow> StreamDigest option" where "get_StreamDigest M = (case M of StreamDigest v \<Rightarrow> Some v | _ \<Rightarrow> None)"

lemmas get_defs = get_StatReply_def get_OpenReply_def get_MetaReply_def get_ListReply_def get_TransferReply_def get_StatFsReply_def
  get_StreamReply_def get_StreamDigest_def

text \<open>\<^verbatim>\<open>refusal\<close>: the daemon's errno, where it sent one.\<close>

definition refusal :: "MetaReply \<Rightarrow> 'a Result" where
  "refusal Reply =
     (if MetaReply_Errno Reply = 0 then failMessage (MetaReply_Error Reply) else fail (Generic (sint (MetaReply_Errno Reply))) (MetaReply_Error Reply))"

text \<open>The shape the requests share: the exchange is made, the request sent, the reply awaited.\<close>

definition exchanges_for :: "client_env \<Rightarrow> (Message \<Rightarrow> 'a option) \<Rightarrow> Message \<Rightarrow> file_client \<Rightarrow> 'a Result \<times> file_client" where
  "exchanges_for C proj M f =
     (case control_send C M f of
        (Inl e, f) \<Rightarrow> (Inl e, f)
      | (Inr _, f) \<Rightarrow> (asReply proj (c_reply C (idOf M) 0), f))"

section \<open>Requests\<close>

definition FileClient_stat :: "client_env \<Rightarrow> string \<Rightarrow> file_client \<Rightarrow> StatReply Result \<times> file_client" where
  "FileClient_stat C Path f = (let (i, f) = nextId f in exchanges_for C get_StatReply (StatRequest \<lparr>StatRequest_Id = i, StatRequest_Path = Path\<rparr>) f)"

definition FileClient_openFile :: "client_env \<Rightarrow> string \<Rightarrow> bool \<Rightarrow> file_client \<Rightarrow> OpenReply Result \<times> file_client" where
  "FileClient_openFile C Path Writable f =
     (let (i, f) = nextId f
      in exchanges_for C get_OpenReply (OpenRequest \<lparr>OpenRequest_Id = i, OpenRequest_Path = Path, OpenRequest_Writable = Writable\<rparr>) f)"

definition FileClient_closeFile :: "client_env \<Rightarrow> u64 \<Rightarrow> file_client \<Rightarrow> unit Result \<times> file_client" where
  "FileClient_closeFile C Handle f =
     (let (i, f) = nextId f;
          (r, f) = exchanges_for C get_MetaReply (CloseRequest \<lparr>CloseRequest_Id = i, CloseRequest_Handle = Handle\<rparr>) f
      in (bindR r (\<lambda>Reply. if \<not> MetaReply_Ok Reply then refusal Reply else Inr ()), f))"

definition FileClient_list :: "client_env \<Rightarrow> string \<Rightarrow> file_client \<Rightarrow> ListReply Result \<times> file_client" where
  "FileClient_list C Path f = (let (i, f) = nextId f in exchanges_for C get_ListReply (ListRequest \<lparr>ListRequest_Id = i, ListRequest_Path = Path\<rparr>) f)"

definition FileClient_statFs :: "client_env \<Rightarrow> string \<Rightarrow> file_client \<Rightarrow> StatFsReply Result \<times> file_client" where
  "FileClient_statFs C Path f =
     (let (i, f) = nextId f;
          (r, f) = exchanges_for C get_StatFsReply (StatFsRequest \<lparr>StatFsRequest_Id = i, StatFsRequest_Path = Path\<rparr>) f
      in (bindR r (\<lambda>Reply. if \<not> StatFsReply_Ok Reply then failMessage (StatFsReply_Error Reply) else Inr Reply), f))"

definition metaOf :: "MetaOp \<Rightarrow> string \<Rightarrow> MetaRequest" where
  "metaOf Op Path =
     \<lparr>MetaRequest_Id = 0, MetaRequest_Op = Op, MetaRequest_Path = Path, MetaRequest_Target = [], MetaRequest_Size = 0, MetaRequest_Mode = 0,
      MetaRequest_Mtime = 0, MetaRequest_Handle = 0, MetaRequest_Exclusive = False\<rparr>"

definition sendMeta :: "client_env \<Rightarrow> MetaRequest \<Rightarrow> file_client \<Rightarrow> FileAttrs Result \<times> file_client" where
  "sendMeta C Given f =
     (let (i, f) = nextId f;
          (r, f) = exchanges_for C get_MetaReply (MetaRequest (Given\<lparr>MetaRequest_Id := i\<rparr>)) f
      in (bindR r (\<lambda>Reply. if \<not> MetaReply_Ok Reply then refusal Reply else Inr (MetaReply_Attrs Reply)), f))"

definition only_outcome :: "'a Result \<times> file_client \<Rightarrow> unit Result \<times> file_client" where
  "only_outcome = (\<lambda>(r, f). (bindR r (\<lambda>_. Inr ()), f))"

definition FileClient_createFile :: "client_env \<Rightarrow> string \<Rightarrow> u32 \<Rightarrow> bool \<Rightarrow> file_client \<Rightarrow> FileAttrs Result \<times> file_client" where
  "FileClient_createFile C Path Mode Exclusive = sendMeta C ((metaOf MetaOp_Create Path)\<lparr>MetaRequest_Mode := Mode, MetaRequest_Exclusive := Exclusive\<rparr>)"

definition FileClient_makeDirectory :: "client_env \<Rightarrow> string \<Rightarrow> u32 \<Rightarrow> file_client \<Rightarrow> FileAttrs Result \<times> file_client" where
  "FileClient_makeDirectory C Path Mode = sendMeta C ((metaOf MetaOp_MakeDirectory Path)\<lparr>MetaRequest_Mode := Mode\<rparr>)"

definition FileClient_removeFile :: "client_env \<Rightarrow> string \<Rightarrow> file_client \<Rightarrow> unit Result \<times> file_client" where
  "FileClient_removeFile C Path f = only_outcome (sendMeta C (metaOf MetaOp_RemoveFile Path) f)"

definition FileClient_removeDirectory :: "client_env \<Rightarrow> string \<Rightarrow> file_client \<Rightarrow> unit Result \<times> file_client" where
  "FileClient_removeDirectory C Path f = only_outcome (sendMeta C (metaOf MetaOp_RemoveDirectory Path) f)"

definition FileClient_makeLink :: "client_env \<Rightarrow> string \<Rightarrow> string \<Rightarrow> file_client \<Rightarrow> FileAttrs Result \<times> file_client" where
  "FileClient_makeLink C Path Target = sendMeta C ((metaOf MetaOp_Symlink Path)\<lparr>MetaRequest_Target := Target\<rparr>)"

definition FileClient_readLink :: "client_env \<Rightarrow> string \<Rightarrow> file_client \<Rightarrow> string Result \<times> file_client" where
  "FileClient_readLink C Path f =
     (let (i, f) = nextId f;
          (r, f) = exchanges_for C get_MetaReply (MetaRequest ((metaOf MetaOp_ReadLink Path)\<lparr>MetaRequest_Id := i\<rparr>)) f
      in (bindR r (\<lambda>Reply. if \<not> MetaReply_Ok Reply then refusal Reply else Inr (MetaReply_Target Reply)), f))"

definition FileClient_hardLink :: "client_env \<Rightarrow> string \<Rightarrow> string \<Rightarrow> file_client \<Rightarrow> FileAttrs Result \<times> file_client" where
  "FileClient_hardLink C Path Target = sendMeta C ((metaOf MetaOp_HardLink Path)\<lparr>MetaRequest_Target := Target\<rparr>)"

definition FileClient_rename :: "client_env \<Rightarrow> string \<Rightarrow> string \<Rightarrow> file_client \<Rightarrow> unit Result \<times> file_client" where
  "FileClient_rename C From To f = only_outcome (sendMeta C ((metaOf MetaOp_Rename From)\<lparr>MetaRequest_Target := To\<rparr>) f)"

definition FileClient_truncate :: "client_env \<Rightarrow> string \<Rightarrow> u64 \<Rightarrow> file_client \<Rightarrow> FileAttrs Result \<times> file_client" where
  "FileClient_truncate C Path Size = sendMeta C ((metaOf MetaOp_Truncate Path)\<lparr>MetaRequest_Size := Size\<rparr>)"

definition FileClient_setMode :: "client_env \<Rightarrow> string \<Rightarrow> u32 \<Rightarrow> file_client \<Rightarrow> FileAttrs Result \<times> file_client" where
  "FileClient_setMode C Path Mode = sendMeta C ((metaOf MetaOp_SetMode Path)\<lparr>MetaRequest_Mode := Mode\<rparr>)"

definition FileClient_setMtime :: "client_env \<Rightarrow> string \<Rightarrow> i64 \<Rightarrow> file_client \<Rightarrow> FileAttrs Result \<times> file_client" where
  "FileClient_setMtime C Path Mtime = sendMeta C ((metaOf MetaOp_SetMtime Path)\<lparr>MetaRequest_Mtime := Mtime\<rparr>)"

definition FileClient_fsync :: "client_env \<Rightarrow> string \<Rightarrow> u64 \<Rightarrow> file_client \<Rightarrow> unit Result \<times> file_client" where
  "FileClient_fsync C Path Handle f = only_outcome (sendMeta C ((metaOf MetaOp_Fsync Path)\<lparr>MetaRequest_Handle := Handle\<rparr>) f)"

section \<open>Ranged reads and writes\<close>

definition posted :: "u64 \<Rightarrow> file_client \<Rightarrow> PostedRead option" where
  "posted i f = find (\<lambda>p. P_Id p = i) (F_Reads f)"

text \<open>An entry is known by its id: ids are not used twice.\<close>

definition forget :: "u64 \<Rightarrow> file_client \<Rightarrow> file_client" where
  "forget i f = f\<lparr>F_Reads := filter (\<lambda>p. P_Id p \<noteq> i) (F_Reads f)\<rparr>"

text \<open>\<open>Landing\<close>: the caller's own page is registered and takes the bytes.\<close>

definition submitPosted :: "client_env \<Rightarrow> string \<Rightarrow> u64 \<Rightarrow> bool \<Rightarrow> nat \<Rightarrow> u64 \<Rightarrow> file_client \<Rightarrow> u64 Result \<times> file_client" where
  "submitPosted C Path Offset Landing Want Handle f =
     (if Want = 0 then (failMessage ''read of no bytes'', f)
      else if Want > maxTransfer C then (failMessage (''read of '' @ decimal Want @ '' bytes exceeds the page size''), f)
      else if length (F_Reads f) \<ge> maxOutstanding C then (failMessage ''too many reads in flight for the buffer pool'', f)
      else
        let (i, f) = nextId f;
            f = f\<lparr>F_Reads := F_Reads f @ [\<lparr>P_Id = i, P_Direct = Landing, P_Want = Want\<rparr>]\<rparr>
        in case control_send C (ReadRequest \<lparr>ReadRequest_Id = i, ReadRequest_Path = Path, ReadRequest_Offset = Offset, ReadRequest_Length = of_nat Want,
                 ReadRequest_Handle = Handle\<rparr>) f of
             (Inl e, f) \<Rightarrow> (Inl e, forget i f)
           | (Inr _, f) \<Rightarrow>
               if Landing then (Inr i, f)
               else if \<not> c_acquire C then (failMessage ''out of registered memory for a transfer page'', forget i f)
               else (Inr i, f))"

text \<open>
  \<^verbatim>\<open>collectRead(Id)\<close>. The answer is the outcome, length and file size, and the bytes at the front of the
  caller's buffer: the page itself, or the copy of as many bytes as the reply says.
\<close>

definition collectRead :: "'h xxlib \<Rightarrow> client_env \<Rightarrow> u64 \<Rightarrow> file_client \<Rightarrow> (nat \<times> u64 \<times> byte list) Result \<times> file_client" where
  "collectRead H C i f =
     (case posted i f of
        None \<Rightarrow> (failMessage (''no read in flight with id '' @ decimal (unat i)), f)
      | Some Mine \<Rightarrow>
          (case asReply get_TransferReply (c_reply C i 0) of
             Inl e \<Rightarrow> (Inl e, forget i f)
           | Inr Reply \<Rightarrow>
               let Landed = c_recv C i (P_Want Mine);
                   Where = (case Landed of Inl _ \<Rightarrow> [] | Inr bs \<Rightarrow> bs);
                   Checked = is_ok Landed \<and> TransferReply_Ok Reply;
                   Intact = (Checked \<longrightarrow> Verifier_matches H (Verifier_update H (Verifier_new H (F_Verify f) (F_Agreed f)) Where) (TransferReply_Payload Reply));
                   Length = unat (TransferReply_Length Reply);
                   f = f\<lparr>F_Overrun := F_Overrun f \<or> Checked \<and> Intact \<and> \<not> P_Direct Mine \<and> Length > P_Want Mine\<rparr>;
                   f = forget i f
               in if \<not> TransferReply_Ok Reply then (failMessage (TransferReply_Error Reply), f)
                  else
                    (case Landed of
                       Inl e \<Rightarrow> (Inl e, f)
                     | Inr _ \<Rightarrow>
                         if \<not> Intact then (failMessage ''page hash mismatch'', f)
                         else (Inr (Length, TransferReply_FileSize Reply, if P_Direct Mine then Where else take Length Where), f))))"

definition collectOldest :: "'h xxlib \<Rightarrow> client_env \<Rightarrow> file_client \<Rightarrow> (nat \<times> u64 \<times> byte list) Result \<times> file_client" where
  "collectOldest H C f = (case F_Reads f of [] \<Rightarrow> (failMessage ''no read in flight'', f) | p # _ \<Rightarrow> collectRead H C (P_Id p) f)"

text \<open>Both overloads of \<^verbatim>\<open>read\<close>.\<close>

definition FileClient_read :: "'h xxlib \<Rightarrow> client_env \<Rightarrow> string \<Rightarrow> u64 \<Rightarrow> bool \<Rightarrow> nat \<Rightarrow> u64 \<Rightarrow> file_client \<Rightarrow> (nat \<times> u64 \<times> byte list) Result \<times> file_client" where
  "FileClient_read H C Path Offset Landing Want Handle f =
     (case submitPosted C Path Offset Landing Want Handle f of
        (Inl e, f) \<Rightarrow> (Inl e, f)
      | (Inr i, f) \<Rightarrow> collectRead H C i f)"

definition abandonSend :: "file_client \<Rightarrow> file_client" where
  "abandonSend f = f\<lparr>F_Gone := True\<rparr>"

definition FileClient_write :: "'h xxlib \<Rightarrow> client_env \<Rightarrow> string \<Rightarrow> u64 \<Rightarrow> byte list \<Rightarrow> bool \<Rightarrow> u64 \<Rightarrow> file_client \<Rightarrow> unit Result \<times> file_client" where
  "FileClient_write H C Path Offset From Truncate Handle f =
     (if length From > maxTransfer C then (failMessage (''write of '' @ decimal (length From) @ '' bytes exceeds the page size''), f)
      else
        let (i, f) = nextId f;
            Wr = \<lparr>WriteRequest_Id = i, WriteRequest_Path = Path, WriteRequest_Offset = Offset, WriteRequest_Length = of_nat (length From),
              WriteRequest_Truncate = Truncate,
              WriteRequest_Payload = Verifier_digest H (Verifier_update H (Verifier_new H (F_Verify f) (F_Agreed f)) From), WriteRequest_Handle = Handle\<rparr>
        in case control_send C (WriteRequest Wr) f of
             (Inl e, f) \<Rightarrow> (Inl e, f)
           | (Inr _, f) \<Rightarrow>
               if \<not> c_acquire C then (failMessage ''out of registered memory for a transfer page'', abandonSend f)
               else if F_RefuseSendAfterPages f > 0 \<and> F_PagesSent f \<ge> F_RefuseSendAfterPages f then (failMessage ''the fabric refused a send'', abandonSend f)
               else
                 let f = f\<lparr>F_PagesSent := F_PagesSent f + 1\<rparr>
                 in case c_post C i of
                      Inl e \<Rightarrow> (Inl e, abandonSend f)
                    | Inr _ \<Rightarrow>
                        (bindR (asReply get_TransferReply (c_reply C i 0))
                           (\<lambda>Reply. if \<not> TransferReply_Ok Reply then failMessage (TransferReply_Error Reply) else Inr ()),
                         f\<lparr>F_Pages := F_Pages f @ [(i, From)]\<rparr>))"

section \<open>Streams\<close>

text \<open>The second half of a fetch, from the pages on: \<open>ends\<close> is what is left to do once the digest agrees.\<close>

definition land_stream :: "client_env \<Rightarrow> u64 \<Rightarrow> u64 \<Rightarrow> u64 \<Rightarrow> (file_client \<Rightarrow> u64 Result \<times> file_client) \<Rightarrow> file_client \<Rightarrow> u64 Result \<times> file_client" where
  "land_stream C i TagBase Length ends f =
     (let f = f\<lparr>F_Landed := F_Landed f @ [TagBase]\<rparr>
      in case fst (c_rx C) of
           Inl e \<Rightarrow> (Inl e, f)
         | Inr _ \<Rightarrow>
             (case asReply get_StreamDigest (c_reply C i 1) of
                Inl e \<Rightarrow> (Inl e, f)
              | Inr D \<Rightarrow>
                  if \<not> StreamDigest_Ok D then (failMessage (StreamDigest_Error D), f)
                  else if \<not> snd (c_rx C) (StreamDigest_Whole D) then (failMessage ''whole-transfer hash mismatch'', f)
                  else ends f))"

text \<open>The first half: the request, its reply, and the tags it takes; \<open>rest\<close> runs when there are any.\<close>

definition open_stream ::
  "client_env \<Rightarrow> string \<Rightarrow> u64 \<Rightarrow> u64 \<Rightarrow> u64 \<Rightarrow> (u64 \<Rightarrow> u64 \<Rightarrow> u64 \<Rightarrow> file_client \<Rightarrow> u64 Result \<times> file_client) \<Rightarrow> file_client \<Rightarrow> u64 Result \<times> file_client" where
  "open_stream C Path Offset Want Handle rest f =
     (let (i, f) = nextId f; TagBase = F_TagCursor f OR kStreamTags
      in case control_send C (FetchRequest \<lparr>FetchRequest_Id = i, FetchRequest_TagBase = TagBase, FetchRequest_Path = Path, FetchRequest_Offset = Offset,
              FetchRequest_Length = Want, FetchRequest_Handle = Handle\<rparr>) f of
           (Inl e, f) \<Rightarrow> (Inl e, f)
         | (Inr _, f) \<Rightarrow>
             (case asReply get_StreamReply (c_reply C i 0) of
                Inl e \<Rightarrow> (Inl e, f)
              | Inr Reply \<Rightarrow>
                  if \<not> StreamReply_Ok Reply then (failMessage (StreamReply_Error Reply), f)
                  else
                    let Length = StreamReply_Length Reply; f = f\<lparr>F_TagCursor := F_TagCursor f + tagSpan Length (of_nat (c_pageSize C))\<rparr>
                    in if Length = 0 then (Inr 0, f) else rest i TagBase Length f))"

definition FileClient_fetch :: "client_env \<Rightarrow> string \<Rightarrow> file_client \<Rightarrow> u64 Result \<times> file_client" where
  "FileClient_fetch C Path f =
     open_stream C Path 0 (NOT 0) 0
       (\<lambda>i TagBase Length f.
          case c_create C of
            Inl e \<Rightarrow> (Inl e, f)
          | Inr _ \<Rightarrow>
              land_stream C i TagBase Length
                (\<lambda>f. case c_commit C of Inl e \<Rightarrow> (Inl e, f) | Inr _ \<Rightarrow> (Inr Length, f\<lparr>F_Commits := F_Commits f + 1\<rparr>)) f) f"

definition fetchThrough :: "client_env \<Rightarrow> string \<Rightarrow> u64 \<Rightarrow> u64 \<Rightarrow> u64 \<Rightarrow> file_client \<Rightarrow> u64 Result \<times> file_client" where
  "fetchThrough C Path Offset Want Handle f =
     (if Offset mod kDirectAlignment \<noteq> 0 then
        (failMessage (''a streamed fetch starts on a '' @ decimal (unat kDirectAlignment) @ '' byte boundary, not '' @ decimal (unat Offset)), f)
      else if Want = 0 then (Inr 0, f)
      else open_stream C Path Offset Want Handle (\<lambda>i TagBase Length f. land_stream C i TagBase Length (\<lambda>f. (Inr Length, f)) f) f)"

definition abandon :: "client_env \<Rightarrow> StreamDigest \<Rightarrow> Error \<Rightarrow> file_client \<Rightarrow> u64 Result \<times> file_client" where
  "abandon C Digest Why f =
     (let (_, f) = control_send C (StreamDigest (Digest\<lparr>StreamDigest_Error := c_text C Why\<rparr>)) f in (Inl Why, abandonSend f))"

definition end_store :: "client_env \<Rightarrow> u64 \<Rightarrow> StreamDigest \<Rightarrow> file_client \<Rightarrow> u64 Result \<times> file_client" where
  "end_store C i Digest f =
     (case control_send C (StreamDigest Digest) f of
        (Inl e, f) \<Rightarrow> (Inl e, f)
      | (Inr _, f) \<Rightarrow>
          (bindR (asReply get_StreamReply (c_reply C i 1))
             (\<lambda>Reply. if \<not> StreamReply_Ok Reply then failMessage (StreamReply_Error Reply) else Inr (StreamReply_Length Reply)), f))"

text \<open>\<open>end_store\<close> is the end of a store: the digest, and the daemon's last word.\<close>

definition storeThrough :: "client_env \<Rightarrow> string \<Rightarrow> u64 \<Rightarrow> u64 \<Rightarrow> bool \<Rightarrow> u64 \<Rightarrow> file_client \<Rightarrow> u64 Result \<times> file_client" where
  "storeThrough C Path Offset Length Truncate Handle f =
     (let (i, f) = nextId f; TagBase = F_TagCursor f OR kStreamTags
      in case control_send C (StoreRequest \<lparr>StoreRequest_Id = i, StoreRequest_TagBase = TagBase, StoreRequest_Path = Path, StoreRequest_Offset = Offset,
              StoreRequest_Length = Length, StoreRequest_Truncate = Truncate, StoreRequest_Handle = Handle\<rparr>) f of
           (Inl e, f) \<Rightarrow> (Inl e, f)
         | (Inr _, f) \<Rightarrow>
             let f = f\<lparr>F_TagCursor := F_TagCursor f + tagSpan Length (of_nat (c_pageSize C))\<rparr>
             in case asReply get_StreamReply (c_reply C i 0) of
                  Inl e \<Rightarrow> (Inl e, f)
                | Inr Accepted \<Rightarrow>
                    if \<not> StreamReply_Ok Accepted then (failMessage (StreamReply_Error Accepted), f)
                    else
                      let (Streamed, Whole, LeftUnsent) = c_tx C;
                          Digest = \<lparr>StreamDigest_Id = i, StreamDigest_Whole = replicate 16 0, StreamDigest_Ok = False, StreamDigest_Error = []\<rparr>;
                          Sent = Digest\<lparr>StreamDigest_Ok := True, StreamDigest_Whole := Whole\<rparr>
                      in case (if Length > 0 then Streamed else Inr 0) of
                           Inl e \<Rightarrow>
                             if LeftUnsent then abandon C Digest e f
                             else end_store C i (Digest\<lparr>StreamDigest_Error := c_text C e\<rparr>) f
                         | Inr _ \<Rightarrow> end_store C i Sent f)"

text \<open>\<^verbatim>\<open>store\<close> writes the same steps out for a local file of its size.\<close>

definition FileClient_store :: "client_env \<Rightarrow> string \<Rightarrow> file_client \<Rightarrow> u64 Result \<times> file_client" where
  "FileClient_store C Path f =
     (case c_open C of
        Inl e \<Rightarrow> (Inl e, f)
      | Inr Size \<Rightarrow> storeThrough C Path 0 Size True 0 f)"

definition FileClient_close :: "client_env \<Rightarrow> file_client \<Rightarrow> file_client" where
  "FileClient_close C f = abandonSend (snd (control_send C End f))"

section \<open>The handshake\<close>

record ServiceOptions =
  O_Backend :: string
  O_PageCount :: u64
  O_PageSize :: u64
  O_RefuseSendAfterPages :: nat
  O_Verify :: bool
  O_Checksum :: Sum
  O_PretendVersion :: u16

text \<open>What one end of a session meets: the socket, the control frames, the data channel.\<close>

record dial_env =
  d_sock :: "unit Result"
  d_known :: "string \<Rightarrow> bool"
  d_prepare :: "unit Result"
  d_send :: "nat \<Rightarrow> unit Result"
  d_receive :: "nat \<Rightarrow> Message Result"
  d_connect :: "string \<Rightarrow> unit Result"
  d_local :: "string Result"
  d_listen :: "string Result"
  d_attach :: "string \<Rightarrow> unit Result"
  d_accept :: "unit Result"

fun sum_code :: "Sum \<Rightarrow> u8" where
  "sum_code XxH3 = 1"
| "sum_code XxH64 = 2"

definition get_Hello :: "Message \<Rightarrow> Hello option" where "get_Hello M = (case M of Hello v \<Rightarrow> Some v | _ \<Rightarrow> None)"
definition get_HelloAck :: "Message \<Rightarrow> HelloAck option" where "get_HelloAck M = (case M of HelloAck v \<Rightarrow> Some v | _ \<Rightarrow> None)"
definition get_PeerEndpoint :: "Message \<Rightarrow> PeerEndpoint option" where "get_PeerEndpoint M = (case M of PeerEndpoint v \<Rightarrow> Some v | _ \<Rightarrow> None)"

definition hello_of :: "ServiceOptions \<Rightarrow> Hello" where
  "hello_of Opts =
     \<lparr>Hello_Version = (if O_PretendVersion Opts \<noteq> 0 then O_PretendVersion Opts else kVersion), Hello_Backend = O_Backend Opts, Hello_BlockSize = 0,
      Hello_PageCount = O_PageCount Opts, Hello_PageSize = O_PageSize Opts, Hello_WindowPages = 1, Hello_Recursive = False, Hello_Verify = O_Verify Opts,
      Hello_Sum = sum_code (O_Checksum Opts)\<rparr>"

definition client_of :: "ServiceOptions \<Rightarrow> Message list \<Rightarrow> file_client" where
  "client_of Opts Sent =
     \<lparr>F_NextId = 1, F_TagCursor = 0, F_Reads = [], F_PagesSent = 0, F_RefuseSendAfterPages = O_RefuseSendAfterPages Opts, F_Verify = O_Verify Opts,
      F_Agreed = O_Checksum Opts, F_Sent = Sent, F_Pages = [], F_Landed = [], F_Commits = 0, F_Gone = False, F_Overrun = False\<rparr>"

text \<open>The frames it sent, and the client or why there is none.\<close>

definition FileClient_connect :: "dial_env \<Rightarrow> ServiceOptions \<Rightarrow> file_client Result \<times> Message list" where
  "FileClient_connect D Opts =
     (case d_sock D of
        Inl e \<Rightarrow> (Inl e, [])
      | Inr _ \<Rightarrow>
          if \<not> d_known D (O_Backend Opts) then (failMessage (''unknown backend: '' @ O_Backend Opts), [])
          else
            (case d_prepare D of
               Inl e \<Rightarrow> (Inl e, [])
             | Inr _ \<Rightarrow>
                 let Hi = Hello (hello_of Opts)
                 in case bindR (d_send D 0) (\<lambda>_. bindR (asReply get_HelloAck (d_receive D 0)) (\<lambda>Ack.
                           bindR (d_connect D (HelloAck_ChannelEndpoint Ack)) (\<lambda>_. d_local D))) of
                      Inl e \<Rightarrow> (Inl e, [Hi])
                    | Inr Local \<Rightarrow>
                        let Mine = PeerEndpoint \<lparr>PeerEndpoint_Blob = Local\<rparr>
                        in (bindR (d_send D 1) (\<lambda>_. Inr (client_of Opts [Hi, Mine])), [Hi, Mine])))"

text \<open>The daemon's side: what the session agreed on, and the frames it sent.\<close>

definition negotiate :: "dial_env \<Rightarrow> (bool \<times> Sum) Result \<times> Message list" where
  "negotiate D =
     (case asReply get_Hello (d_receive D 0) of
        Inl e \<Rightarrow> (Inl e, [])
      | Inr Hi \<Rightarrow>
          if Hello_Version Hi \<noteq> kVersion then (failMessage ''protocol version mismatch'', [])
          else if Hello_Sum Hi \<noteq> sum_code XxH3 \<and> Hello_Sum Hi \<noteq> sum_code XxH64
          then (failMessage (''unknown checksum '' @ decimal (unat (Hello_Sum Hi))), [])
          else if \<not> d_known D (Hello_Backend Hi) then (failMessage (''unknown backend: '' @ Hello_Backend Hi), [])
          else
            (case d_listen D of
               Inl e \<Rightarrow> (Inl e, [])
             | Inr Endpoint \<Rightarrow>
                 let Ack = HelloAck \<lparr>HelloAck_Backend = Hello_Backend Hi, HelloAck_ChannelEndpoint = Endpoint\<rparr>
                 in (bindR (d_send D 0) (\<lambda>_. bindR (asReply get_PeerEndpoint (d_receive D 1)) (\<lambda>Peer.
                       bindR (d_attach D (PeerEndpoint_Blob Peer)) (\<lambda>_. bindR (d_accept D) (\<lambda>_.
                       Inr (Hello_Verify Hi, if Hello_Sum Hi = sum_code XxH3 then XxH3 else XxH64))))), [Ack])))"

end
