(* ===== verification/ClientSession.thy ===== *)
theory ClientSession
  imports FileClient
begin

text \<open>
  A file client (\<open>FileClient\<close>) and the daemon that serves it (\<open>FileService\<close>): the handshake, ranged
  reads and writes, and streams, from the caller's operation to the daemon's system calls and back.
\<close>

section \<open>What the daemon sends reaches the exchanges\<close>

definition daemon_sends :: "'h xxlib \<Rightarrow> sys \<Rightarrow> ctx \<Rightarrow> Message \<Rightarrow> Message list" where
  "daemon_sends H Y x M = drop (length (X_Sent x)) (X_Sent (snd (dispatch H Y M x)))"

text \<open>The exchanges of the request resume with what the daemon sent, first come, first served; one that is left fails with the connection.\<close>

definition served_by :: "client_env \<Rightarrow> 'h xxlib \<Rightarrow> sys \<Rightarrow> ctx \<Rightarrow> Message \<Rightarrow> bool" where
  "served_by C H Y x M \<longleftrightarrow>
     (\<forall>k < length (daemon_sends H Y x M). c_reply C (idOf M) k = Inr (daemon_sends H Y x M ! k)) \<and>
     (\<forall>k \<ge> length (daemon_sends H Y x M). \<not> is_ok (c_reply C (idOf M) k))"

definition fits :: "client_env \<Rightarrow> nat \<Rightarrow> file_client \<Rightarrow> bool" where
  "fits C Want f \<longleftrightarrow> (\<forall>n. c_send C n = Inr ()) \<and> c_acquire C \<and> 0 < Want \<and> Want \<le> c_pageSize C \<and> Want < 2 ^ 32 \<and> length (F_Reads f) < maxOutstanding C \<and>
     (\<forall>p \<in> set (F_Reads f). P_Id p \<noteq> F_NextId f)"

definition read_request :: "string \<Rightarrow> u64 \<Rightarrow> nat \<Rightarrow> u64 \<Rightarrow> file_client \<Rightarrow> Message" where
  "read_request Path Offset Want Handle f =
     ReadRequest \<lparr>ReadRequest_Id = F_NextId f, ReadRequest_Path = Path, ReadRequest_Offset = Offset, ReadRequest_Length = of_nat Want, ReadRequest_Handle = Handle\<rparr>"

lemma get_simps [simp]:
  "get_StatReply (StatReply a) = Some a" "get_OpenReply (OpenReply b) = Some b" "get_MetaReply (MetaReply c) = Some c" "get_ListReply (ListReply d) = Some d"
  "get_TransferReply (TransferReply e) = Some e" "get_StatFsReply (StatFsReply g) = Some g" "get_StreamReply (StreamReply h) = Some h"
  "get_StreamDigest (StreamDigest i) = Some i"
  by (simp_all add: get_defs)

lemma asReply_simps [simp]:
  "asReply proj (Inl e) = Inl e" "proj M = Some v \<Longrightarrow> asReply proj (Inr M) = Inr v"
  by (simp_all add: asReply_def)

lemma asReply_iff:
  "asReply get_StreamReply r = Inr a \<longleftrightarrow> r = Inr (StreamReply a)" "asReply get_StreamDigest r = Inr b \<longleftrightarrow> r = Inr (StreamDigest b)"
  "asReply get_TransferReply r = Inr c \<longleftrightarrow> r = Inr (TransferReply c)"
  by (cases r; auto simp: asReply_def get_defs split: option.splits Message.splits)+

lemma Verifier_own: "Verifier_matches H V (Verifier_digest H V)"
  by (simp add: Verifier_matches_def Verifier_digest_def)

text \<open>A read whose request went out and whose reply and page arrived.\<close>

lemma read_collects:
  fixes H :: "'h xxlib"
  assumes "fits C Want f" and "c_reply C (F_NextId f) 0 = Inr (TransferReply R)" and "c_recv C (F_NextId f) Want = Inr Buf"
  defines "Intact \<equiv> Verifier_matches H (Verifier_update H (Verifier_new H (F_Verify f) (F_Agreed f)) Buf) (TransferReply_Payload R)"
  shows "FileClient_read H C Path Offset Landing Want Handle f =
    (if \<not> TransferReply_Ok R then failMessage (TransferReply_Error R) else if \<not> Intact then failMessage ''page hash mismatch''
     else Inr (unat (TransferReply_Length R), TransferReply_FileSize R, if Landing then Buf else take (unat (TransferReply_Length R)) Buf),
     f\<lparr>F_NextId := F_NextId f + 1, F_Sent := F_Sent f @ [read_request Path Offset Want Handle f],
       F_Overrun := F_Overrun f \<or> TransferReply_Ok R \<and> Intact \<and> \<not> Landing \<and> unat (TransferReply_Length R) > Want\<rparr>)"
proof -
  have ids: "filter (\<lambda>p. P_Id p \<noteq> F_NextId f) (F_Reads f) = F_Reads f" using assms(1) by (auto simp: fits_def filter_id_conv)
  have find_app: "find P (xs @ [y]) = Some y" if "\<forall>x \<in> set xs. \<not> P x" "P y" for P y and xs :: "PostedRead list" using that by (induction xs) auto
  have id1: "find (\<lambda>p. P_Id p = F_NextId f) (F_Reads f @ [\<lparr>P_Id = F_NextId f, P_Direct = Landing, P_Want = Want\<rparr>]) = Some \<lparr>P_Id = F_NextId f, P_Direct = Landing, P_Want = Want\<rparr>"
    using assms(1) by (intro find_app) (auto simp: fits_def)
  have s: "submitPosted C Path Offset Landing Want Handle f = (Inr (F_NextId f),
      f\<lparr>F_NextId := F_NextId f + 1, F_Reads := F_Reads f @ [\<lparr>P_Id = F_NextId f, P_Direct = Landing, P_Want = Want\<rparr>], F_Sent := F_Sent f @ [read_request Path Offset Want Handle f]\<rparr>)"
    using assms(1) by (simp add: submitPosted_def fits_def maxTransfer_def nextId_def control_send_def read_request_def Let_def)
  show ?thesis unfolding FileClient_read_def s using assms(2,3)
    by (simp add: collectRead_def posted_def id1 forget_def ids Let_def is_ok_def Intact_def)
qed

section \<open>Reads and writes\<close>

text \<open>
  C15. A read through a file client returns what the daemon read from the file. The daemon's handler
  answers the request with the bytes it read, filled up with zeros to the length asked for, and their
  digest; the client, which agreed with it on the hash and on whether to verify, accepts the page and
  returns the count, the file's size and the bytes, and nothing is written past the caller's buffer.
  When the daemon's read fails the caller gets the daemon's words.
\<close>

theorem client_read_end_to_end:
  assumes "fits C Want f" and "served_by C H Y x (read_request Path Offset Want Handle f)"
    and "X_Posted (snd (dispatch H Y (read_request Path Offset Want Handle f) x)) = X_Posted x @ [(F_NextId f, Buf)]" and "c_recv C (F_NextId f) Want = Inr Buf"
    and "y_acquire Y = Some Capacity" and "Want \<le> Capacity" and "\<forall>n. y_send Y n = Inr ()" and "heldFor Y Handle Path O_RDONLY x = (Inr Fd, x1)"
    and "\<forall>Got. y_read Y = Inr Got \<longrightarrow> length Got \<le> Want" and "X_Verify x = F_Verify f" and "X_Agreed x = F_Agreed f" and "\<not> F_Overrun f"
  shows "fst (FileClient_read H C Path Offset Landing Want Handle f) =
      (case y_read Y of
         Inl e \<Rightarrow> failMessage (y_text Y e)
       | Inr Got \<Rightarrow> Inr (length Got, case y_fstat Y Fd of None \<Rightarrow> 0 | Some n \<Rightarrow> n, if Landing then Got @ replicate (Want - length Got) 0 else Got)) \<and>
    \<not> F_Overrun (snd (FileClient_read H C Path Offset Landing Want Handle f))"
proof -
  let ?Got = "case y_read Y of Inl _ \<Rightarrow> [] | Inr bs \<Rightarrow> bs"
  let ?B = "?Got @ replicate (Want - length ?Got) 0" and ?E = "case y_read Y of Inl e \<Rightarrow> y_text Y e | Inr _ \<Rightarrow> []"
  let ?v = "read_reply H Y x (F_NextId f) Fd ?Got ?B (is_ok (y_read Y)) ?E"
  have w: "unat (of_nat Want :: u32) = Want" "0 < Want" using assms(1) by (auto simp: fits_def intro!: unat_of_nat_small)
  have nz: "(of_nat Want :: u32) \<noteq> 0" using w by (metis unat_0 less_irrefl)
  have fit: "unat (of_nat Want :: u32) \<le> Capacity" using w(1) assms(6) by simp
  note d = daemon_reads [OF assms(5) fit nz assms(7,8), where H = H and Rid = "F_NextId f" and offset = Offset, unfolded w(1)]
  have "daemon_sends H Y x (read_request Path Offset Want Handle f) = [TransferReply ?v]" using d(1) by (simp add: daemon_sends_def read_request_def)
  then have r: "c_reply C (F_NextId f) 0 = Inr (TransferReply ?v)" using assms(2) by (simp add: served_by_def read_request_def)
  have b: "Buf = ?B" using assms(3) d(2) by (simp add: read_request_def)
  have ok: "Verifier_matches H (Verifier_update H (Verifier_new H (F_Verify f) (F_Agreed f)) Buf) (TransferReply_Payload ?v)"
    using Verifier_own assms(10,11) b by (simp add: read_reply_def)
  have small: "unat (of_nat (length ?Got) :: u32) = length ?Got" "length ?Got \<le> Want"
    using assms(1,9) by (auto simp: fits_def intro!: unat_of_nat_small split: sum.splits)
  show ?thesis
    using read_collects [OF assms(1) r assms(4), of H Path Offset Landing Handle] ok small b assms(12)
    by (auto simp: read_reply_def is_ok_def split: sum.splits)
qed

definition write_request :: "'h xxlib \<Rightarrow> string \<Rightarrow> u64 \<Rightarrow> byte list \<Rightarrow> bool \<Rightarrow> u64 \<Rightarrow> file_client \<Rightarrow> Message" where
  "write_request H Path Offset From Truncate Handle f =
     WriteRequest \<lparr>WriteRequest_Id = F_NextId f, WriteRequest_Path = Path, WriteRequest_Offset = Offset, WriteRequest_Length = of_nat (length From),
       WriteRequest_Truncate = Truncate, WriteRequest_Payload = Verifier_digest H (Verifier_update H (Verifier_new H (F_Verify f) (F_Agreed f)) From),
       WriteRequest_Handle = Handle\<rparr>"

text \<open>
  A write through a file client that succeeds is the daemon's write: it received the client's page,
  accepted the client's digest, and the last thing it did before it answered was to write exactly the
  caller's bytes at the caller's offset.
\<close>

theorem client_write_end_to_end:
  assumes "FileClient_write H C Path Offset From Truncate Handle f = (Inr (), f')" and "length From < 2 ^ 32"
    and "answers H Y x (write_request H Path Offset From Truncate Handle f) (TransferReply v)" and "c_reply C (F_NextId f) 0 = Inr (TransferReply v)"
    and "y_acquire Y = Some Capacity" and "length From \<le> Capacity" and "y_payload Y = Inr (snd (last (F_Pages f')))" and "\<forall>n. y_send Y n = Inr ()"
    and "X_Verify x = F_Verify f" and "X_Agreed x = F_Agreed f"
  shows "\<exists>Fd. last (X_Calls (snd (dispatch H Y (write_request H Path Offset From Truncate Handle f) x))) = SysWrite Fd Offset From \<and> y_write Y = Inr ()"
proof -
  have p: "F_Pages f' = F_Pages f @ [(F_NextId f, From)]" "TransferReply_Ok v"
    using assms(1,4) by (auto simp: FileClient_write_def nextId_def control_send_def Let_def split: if_splits sum.splits)
  have len: "unat (of_nat (length From) :: u32) = length From" using assms(2) by (intro unat_of_nat_small) simp
  have pay: "y_payload Y = Inr From" using assms(7) p(1) by simp
  have m: "Verifier_matches H (Verifier_update H (Verifier_new H (X_Verify x) (X_Agreed x)) From)
      (Verifier_digest H (Verifier_update H (Verifier_new H (F_Verify f) (F_Agreed f)) From))"
    using Verifier_own assms(9,10) by simp
  have fit: "unat (of_nat (length From) :: u32) \<le> Capacity" using len assms(6) by simp
  show ?thesis using daemon_writes(3) [OF assms(5) fit pay assms(8) m assms(3) [unfolded write_request_def] p(2)] by (simp add: write_request_def)
qed

text \<open>
  C40. A write never leaves the daemon parked on a payload that does not come: once its request went
  out, either its page went out under the request's id or both channels were closed.
\<close>

theorem write_never_strands:
  assumes "length (F_Sent (snd (FileClient_write H C Path Offset From Truncate Handle f))) > length (F_Sent f)" and "c_send C (length (F_Sent f)) = Inr ()"
  shows "F_Sent (snd (FileClient_write H C Path Offset From Truncate Handle f)) = F_Sent f @ [write_request H Path Offset From Truncate Handle f] \<and>
    (F_Gone (snd (FileClient_write H C Path Offset From Truncate Handle f)) \<or>
     F_Pages (snd (FileClient_write H C Path Offset From Truncate Handle f)) = F_Pages f @ [(F_NextId f, From)])"
  using assms
  by (auto simp: FileClient_write_def nextId_def control_send_def abandonSend_def write_request_def Let_def split: if_splits sum.splits)

text \<open>
  A peer that answers a read with a length beyond what was asked for makes the client write past
  the caller's buffer: the page is checked against its digest, the length is not checked at all.
\<close>

theorem read_overrun:
  assumes "fits C Want f" and "c_reply C (F_NextId f) 0 = Inr (TransferReply R)" and "c_recv C (F_NextId f) Want = Inr Buf" and "TransferReply_Ok R"
    and "TransferReply_Payload R = Verifier_digest H (Verifier_update H (Verifier_new H (F_Verify f) (F_Agreed f)) Buf)" and "Want < unat (TransferReply_Length R)"
  shows "is_ok (fst (FileClient_read H C Path Offset False Want Handle f)) \<and> F_Overrun (snd (FileClient_read H C Path Offset False Want Handle f))"
  using read_collects [OF assms(1-3), of H Path Offset False Handle] assms(4-6) Verifier_own by simp

section \<open>Streams\<close>

definition store_request :: "string \<Rightarrow> u64 \<Rightarrow> u64 \<Rightarrow> bool \<Rightarrow> u64 \<Rightarrow> file_client \<Rightarrow> Message" where
  "store_request Path Offset Length Truncate Handle f =
     StoreRequest \<lparr>StoreRequest_Id = F_NextId f, StoreRequest_TagBase = F_TagCursor f OR kStreamTags, StoreRequest_Path = Path, StoreRequest_Offset = Offset,
       StoreRequest_Length = Length, StoreRequest_Truncate = Truncate, StoreRequest_Handle = Handle\<rparr>"

text \<open>A store whose second answer is good has landed: the pages, the digest and the commit.\<close>

lemma landStore_ok:
  assumes "X_Sent (snd (landStore Y St Commit x)) = X_Sent x @ ms" and "1 < length ms" and "ms ! 1 = StreamReply R" and "StreamReply_Ok R"
  shows "is_ok (fst (y_rx Y)) \<and> (\<exists>D. y_digest Y = Inr D \<and> StreamDigest_Ok D \<and> snd (y_rx Y) (StreamDigest_Whole D)) \<and> Commit = Inr () \<and> StreamReply_Length R = StoreRequest_Length St"
  using assms by (auto simp: landStore_def send_def Let_def StreamReply_new_def is_ok_def split: sum.splits if_splits)

lemma storeAtOffset_ok:
  assumes "X_Sent (snd (storeAtOffset Y St x)) = X_Sent x @ ms" and "1 < length ms" and "ms ! 1 = StreamReply R" and "StreamReply_Ok R"
  shows "is_ok (fst (y_rx Y)) \<and> (\<exists>D. y_digest Y = Inr D \<and> StreamDigest_Ok D \<and> snd (y_rx Y) (StreamDigest_Whole D)) \<and> StreamReply_Length R = StoreRequest_Length St"
proof -
  obtain r x1 where h: "heldFor Y (StoreRequest_Handle St) (StoreRequest_Path St) (O_WRONLY + O_CREAT) x = (r, x1)" by fastforce
  show ?thesis
  proof (cases r)
    case (Inl e)
    then show ?thesis using assms h held_keeps [OF h] by (auto simp: storeAtOffset_def send_def)
  next
    case (Inr Fd)
    then have "X_Sent (snd (landStore Y St (Inr ()) x1)) = X_Sent x1 @ ms" using assms(1) h held_keeps [OF h] by (simp add: storeAtOffset_def)
    from landStore_ok [OF this assms(2-4)] show ?thesis by blast
  qed
qed

lemma onStore_ok:
  assumes "X_Sent (snd (onStore Y St x)) = X_Sent x @ ms" and "1 < length ms" and "ms ! 1 = StreamReply R" and "StreamReply_Ok R"
  shows "is_ok (fst (y_rx Y)) \<and> (\<exists>D. y_digest Y = Inr D \<and> StreamDigest_Ok D \<and> snd (y_rx Y) (StreamDigest_Whole D)) \<and> StreamReply_Length R = StoreRequest_Length St \<and>
    (StoreRequest_Truncate St \<and> StoreRequest_Handle St = 0 \<longrightarrow> y_commit Y = Inr ())"
proof -
  have one: ?thesis if "\<exists>M. onStore Y St x = send Y M z" "X_Sent z = X_Sent x" for z using that assms(1,2) by (auto simp: send_def)
  have atOffset: ?thesis if "onStore Y St x = storeAtOffset Y St z" "X_Sent z = X_Sent x" "\<not> (StoreRequest_Truncate St \<and> StoreRequest_Handle St = 0)" for z
    using storeAtOffset_ok [of Y St z ms R] assms that by auto
  show ?thesis
  proof (cases "underRoot (y_fs Y) (X_Root x) (StoreRequest_Path St)")
    case (Inl e)
    then show ?thesis by (intro one [of x]) (auto simp: onStore_def Let_def)
  next
    case p: (Inr Path)
    consider (misplaced) "StoreRequest_Offset St \<noteq> 0 \<and> StoreRequest_Truncate St"
      | (handle) "\<not> (StoreRequest_Offset St \<noteq> 0 \<and> StoreRequest_Truncate St)" "StoreRequest_Handle St \<noteq> 0"
      | (plain) "\<not> (StoreRequest_Offset St \<noteq> 0 \<and> StoreRequest_Truncate St)" "StoreRequest_Handle St = 0" by blast
    then show ?thesis
    proof cases
      case misplaced
      then show ?thesis using p by (intro one [of x]) (auto simp: onStore_def Let_def)
    next
      case handle
      obtain r x1 where h: "heldFor Y (StoreRequest_Handle St) (StoreRequest_Path St) O_WRONLY x = (r, x1)" by fastforce
      have k: "X_Sent x1 = X_Sent x" using held_keeps [OF h] by simp
      show ?thesis
      proof (cases r)
        case (Inl e)
        then show ?thesis using p handle h k by (intro one [of x1]) (auto simp: onStore_def Let_def)
      next
        case (Inr Fd)
        consider (refused) errno where "StoreRequest_Truncate St" "y_call Y (SysFtruncate Fd 0) = Some errno"
          | (emptied) "StoreRequest_Truncate St" "y_call Y (SysFtruncate Fd 0) = None" | (kept) "\<not> StoreRequest_Truncate St" by blast
        then show ?thesis
        proof cases
          case (refused errno)
          then show ?thesis using p handle h k Inr by (intro one [of "call (SysFtruncate Fd 0) x1"]) (auto simp: onStore_def Let_def call_def)
        next
          case emptied
          then show ?thesis using p handle h k Inr atOffset [of "call (SysFtruncate Fd 0) x1"] by (simp add: onStore_def Let_def call_def)
        next
          case kept
          then show ?thesis using p handle h k Inr atOffset [of x1] by (simp add: onStore_def Let_def)
        qed
      qed
    next
      case plain
      let ?z = "call (SysWriter Path) (call (SysCreateDirs (parent_path Path)) x)"
      consider (kept) "\<not> StoreRequest_Truncate St" | (refused) e where "StoreRequest_Truncate St" "y_writer Y = Inl e" | (written) "StoreRequest_Truncate St" "y_writer Y = Inr ()"
        by (cases "y_writer Y") auto
      then show ?thesis
      proof cases
        case kept
        then show ?thesis using p plain atOffset [of x] by (simp add: onStore_def Let_def)
      next
        case (refused e)
        then show ?thesis using p plain by (intro one [of ?z]) (auto simp: onStore_def Let_def call_def)
      next
        case written
        then have "onStore Y St x = landStore Y St (y_commit Y) ?z" using p plain by (simp add: onStore_def Let_def)
        then show ?thesis using landStore_ok [of Y St "y_commit Y" ?z ms R] assms by (simp add: call_def)
      qed
    qed
  qed
qed

text \<open>
  C12. A store that succeeds is the daemon's. The client returns the length only when the daemon received
  every page, took the digest that the client sent for one that matches what it received, and, for a
  store that replaces the file, committed it; and the client sent that digest for a stream that went
  well.
\<close>

theorem client_store_end_to_end:
  assumes "storeThrough C Path Offset Length Truncate Handle f = (Inr n, f')" and "served_by C H Y x (store_request Path Offset Length Truncate Handle f)"
    and "\<forall>D. y_digest Y = Inr D \<longrightarrow> F_Sent f' = F_Sent f @ [store_request Path Offset Length Truncate Handle f, StreamDigest D]"
  shows "n = Length \<and> is_ok (fst (y_rx Y)) \<and> (0 < Length \<longrightarrow> is_ok (fst (c_tx C))) \<and> snd (y_rx Y) (fst (snd (c_tx C))) \<and> (Truncate \<and> Handle = 0 \<longrightarrow> y_commit Y = Inr ())"
proof -
  let ?M = "store_request Path Offset Length Truncate Handle f"
  let ?ms = "daemon_sends H Y x ?M"
  obtain St where St: "?M = StoreRequest St" "StoreRequest_Length St = Length" "StoreRequest_Truncate St = Truncate" "StoreRequest_Handle St = Handle" "idOf ?M = F_NextId f"
    by (simp add: store_request_def)
  have e: "X_Sent (snd (onStore Y St x)) = X_Sent x @ ?ms"
    using onStore_eff [of Y St x] St(1) by (auto simp: daemon_sends_def dispatch_def eff_def served_def)
  obtain R where R: "c_reply C (F_NextId f) 1 = Inr (StreamReply R)" "StreamReply_Ok R" "n = StreamReply_Length R"
    using assms(1) by (auto simp: storeThrough_def nextId_def control_send_def end_store_def abandon_def asReply_iff bindR_Inr_iff Let_def
        split: sum.splits if_splits prod.splits)
  have two: "1 < length ?ms" "?ms ! 1 = StreamReply R"
    using assms(2) R(1) St(5) unfolding served_by_def by (metis is_ok_simps(1) not_le, metis is_ok_simps(1) not_le sum.inject(2))
  note ok = onStore_ok [OF e two R(2)]
  then obtain D where D: "y_digest Y = Inr D" "StreamDigest_Ok D" "snd (y_rx Y) (StreamDigest_Whole D)" by blast
  have "F_Sent f' = F_Sent f @ [?M, StreamDigest D]" using assms(3) D(1) by blast
  then have "(0 < Length \<longrightarrow> is_ok (fst (c_tx C))) \<and> StreamDigest_Whole D = fst (snd (c_tx C))"
    using assms(1) D(2) by (auto simp: storeThrough_def nextId_def control_send_def end_store_def abandon_def Let_def is_ok_def split: sum.splits if_splits prod.splits)
  then show ?thesis using ok D R(3) St by simp
qed

definition fetch_request :: "string \<Rightarrow> u64 \<Rightarrow> u64 \<Rightarrow> u64 \<Rightarrow> file_client \<Rightarrow> Message" where
  "fetch_request Path Offset Want Handle f =
     FetchRequest \<lparr>FetchRequest_Id = F_NextId f, FetchRequest_TagBase = F_TagCursor f OR kStreamTags, FetchRequest_Path = Path, FetchRequest_Offset = Offset,
       FetchRequest_Length = Want, FetchRequest_Handle = Handle\<rparr>"

text \<open>The daemon's side of a fetch that finds its file and streams it.\<close>

lemma daemon_streams:
  fixes Size Offset Want :: u64
  defines "Length \<equiv> min Want (Size - Offset)"
  assumes "\<forall>n. y_send Y n = Inr ()" and "heldFor Y Handle Path O_RDONLY x = (Inr Fd, x1)" and "y_reader Y = Inr Size" and "Offset \<le> Size" and "Length \<noteq> 0"
    and "y_tx Y = (Inr n, Whole, Unsent)"
  shows "daemon_sends H Y x (fetch_request Path Offset Want Handle f) =
    [StreamReply \<lparr>StreamReply_Id = F_NextId f, StreamReply_Length = Length, StreamReply_Ok = True, StreamReply_Error = []\<rparr>,
     StreamDigest \<lparr>StreamDigest_Id = F_NextId f, StreamDigest_Whole = Whole, StreamDigest_Ok = True, StreamDigest_Error = []\<rparr>]"
  using assms(2-7) held_keeps [OF assms(3)]
  by (auto simp: daemon_sends_def dispatch_def fetch_request_def onFetch_def send_def Let_def StreamReply_new_def Length_def is_ok_def)

lemma fetch_collects:
  assumes "\<forall>n. c_send C n = Inr ()" and "Offset mod kDirectAlignment = 0" and "Want \<noteq> 0"
    and "c_reply C (F_NextId f) 0 = Inr (StreamReply R)" and "StreamReply_Ok R" and "StreamReply_Length R \<noteq> 0"
    and "c_reply C (F_NextId f) 1 = Inr (StreamDigest D)" and "StreamDigest_Ok D" and "c_rx C = (Inr n, ok)" and "ok (StreamDigest_Whole D)"
  shows "fst (fetchThrough C Path Offset Want Handle f) = Inr (StreamReply_Length R)"
  using assms by (simp add: fetchThrough_def open_stream_def nextId_def control_send_def land_stream_def Let_def)

text \<open>
  C11. A streamed fetch into registered memory brings the bytes of the file. The daemon opens the file,
  answers with how much of the range there is, streams those pages with its sender and sends their
  digest; the client lands them with its receiver under the tag base of its request. If the fabric
  delivers to each posted receive what was sent under its tag, the fetch returns that length and the
  client's window holds exactly those bytes of the file.
\<close>

theorem client_fetch_end_to_end:
  fixes File :: "byte list" and Offset Want :: u64
  defines "Length \<equiv> min (unat Want) (length File - unat Offset)"
  assumes "\<forall>n. c_send C n = Inr ()" and "Offset mod kDirectAlignment = 0" and "Want \<noteq> 0" and "served_by C H Y x (fetch_request Path Offset Want Handle f)"
    and "\<forall>n. y_send Y n = Inr ()" and "heldFor Y Handle Path O_RDONLY x = (Inr Fd, x1)" and "y_reader Y = Inr (of_nat (length File))"
    and "length File < 2 ^ 64" and "unat Offset < length File" and "X_Verify x = F_Verify f" and "X_Agreed x = F_Agreed f"
    and "tx_setup E" and "rx_setup E'" and "rx_PageBytes E' = tx_PageBytes E"
    and "tx_TagBase E = unat (F_TagCursor f OR kStreamTags)" and "rx_TagBase E' = unat (F_TagCursor f OR kStreamTags)"
    and "\<forall>(k, l) \<in> set (pages (tx_PageBytes E) (unat Offset) (unat Offset + Length)). page_read E (k, l) = Inr (take l (drop k File))"
    and "space_sound S" and "AS_Base (Sp_Space S) = unat Offset" and "AS_PageBytes (Sp_Space S) = tx_PageBytes E" and "Length \<le> capacity (Sp_Space S)"
    and "tx_stream H E (unat Offset) Length (PageSender_new H False (X_Verify x) (X_Agreed x)) = Some (rT, sT)"
    and "y_tx Y = (map_sum id of_nat rT, Verifier_digest H (T_Whole sT), False)"
    and "\<forall>(tag, bs) \<in> set (T_Sent sT). rx_recv E' tag (length bs) = Inr bs"
    and "rx_land H space_ops E' (unat Offset) Length (PageReceiver_new H (F_Verify f) (F_Agreed f) S) = Some (rR, sR)"
    and "c_rx C = (map_sum id of_nat rR, Verifier_matches H (Rx_Whole sR))"
  shows "fst (fetchThrough C Path Offset Want Handle f) = Inr (of_nat Length) \<and>
    take Length (space_contents (Rx_Sink sR)) = take Length (drop (unat Offset) File)"
proof -
  let ?Size = "of_nat (length File) :: u64"
  have size: "unat ?Size = length File" using assms(9) by (intro unat_of_nat_small) simp
  have w: "Offset \<le> ?Size" "unat (?Size - Offset) = length File - unat Offset" using assms(10) size by (simp_all add: word_le_nat_alt unat_sub)
  have m: "unat (min Want (?Size - Offset)) = Length" unfolding Length_def w(2) [symmetric] by (simp add: min_def word_le_nat_alt)
  have "Length < 2 ^ 64" using assms(9) by (simp add: Length_def)
  then have L: "min Want (?Size - Offset) = of_nat Length" by (subst word_eq_iff_unsigned [where ?'a = nat]) (simp add: m unat_of_nat_small)
  have pos: "0 < Length" using assms(4,10) by (simp add: Length_def word_greater_zero_iff unat_gt_0)
  then have nz: "min Want (?Size - Offset) \<noteq> 0" using m by (metis unat_0 less_irrefl)
  have range: "unat Offset + Length < 2 ^ 64" "unat Offset + Length \<le> length File" using assms(9,10) by (simp_all add: Length_def)
  have tags: "rx_TagBase E' = tx_TagBase E" using assms(16,17) by simp
  note pm = pages_moved [OF assms(13-15) tags range assms(18-22), of H "F_Verify f" "F_Agreed f"]
  have moved: "rT = Inr Length" "rR = Inr Length" "take Length (space_contents (Rx_Sink sR)) = take Length (drop (unat Offset) File)"
    "Verifier_matches H (Rx_Whole sR) (Verifier_digest H (T_Whole sT))"
    using pm assms(11,12,23,25,26) by auto
  have "y_tx Y = (Inr (of_nat Length), Verifier_digest H (T_Whole sT), False)" using assms(24) moved(1) by simp
  from daemon_streams [OF assms(6,7,8) w(1) nz this] have sends: "daemon_sends H Y x (fetch_request Path Offset Want Handle f) =
    [StreamReply \<lparr>StreamReply_Id = F_NextId f, StreamReply_Length = of_nat Length, StreamReply_Ok = True, StreamReply_Error = []\<rparr>,
     StreamDigest \<lparr>StreamDigest_Id = F_NextId f, StreamDigest_Whole = Verifier_digest H (T_Whole sT), StreamDigest_Ok = True, StreamDigest_Error = []\<rparr>]"
    unfolding L .
  have "c_reply C (F_NextId f) 0 = Inr (daemon_sends H Y x (fetch_request Path Offset Want Handle f) ! 0)"
    "c_reply C (F_NextId f) 1 = Inr (daemon_sends H Y x (fetch_request Path Offset Want Handle f) ! 1)"
    using assms(5) unfolding served_by_def sends by (simp_all add: fetch_request_def)
  then have "fst (fetchThrough C Path Offset Want Handle f) = Inr (of_nat Length)"
    unfolding sends using fetch_collects [OF assms(2-4), of f] assms(27) moved(2,4) nz L by simp
  then show ?thesis using moved(3) by simp
qed

text \<open>
  A fetch commits its local file only when the daemon's digest of the whole stream matches what was
  received; in every other case nothing is committed and the caller gets an error, or the file is empty.
\<close>

theorem fetch_commits_verified:
  assumes "FileClient_fetch C Path f = (r, f')"
  shows "(F_Commits f' = F_Commits f \<and> (is_ok r \<longrightarrow> r = Inr 0)) \<or>
    (F_Commits f' = F_Commits f + 1 \<and> (\<exists>R D. c_reply C (F_NextId f) 0 = Inr (StreamReply R) \<and> StreamReply_Ok R \<and> r = Inr (StreamReply_Length R) \<and>
       is_ok (fst (c_rx C)) \<and> c_reply C (F_NextId f) 1 = Inr (StreamDigest D) \<and> StreamDigest_Ok D \<and> snd (c_rx C) (StreamDigest_Whole D) \<and> c_commit C = Inr ()))"
  using assms
  by (auto simp: FileClient_fetch_def open_stream_def nextId_def control_send_def land_stream_def Let_def asReply_iff is_ok_def split: sum.splits if_splits)

section \<open>The handshake\<close>

text \<open>
  C16. A session is what its two ends agreed on. When a client connects and the daemon negotiates over
  each other's frames and both succeed, the client spoke the daemon's version, both verify or neither
  does, with the same hash, the client dialled the endpoint the daemon listens on, and the daemon
  attached the endpoint the client gave.
\<close>

theorem handshake_agrees:
  assumes "FileClient_connect D Opts = (Inr f, sent)" and "negotiate D' = (Inr (v, s), sent')"
    and "\<forall>k < length sent. d_receive D' k = Inr (sent ! k)" and "\<forall>k < length sent'. d_receive D k = Inr (sent' ! k)"
  shows "O_PretendVersion Opts \<in> {0, kVersion} \<and> v = F_Verify f \<and> s = F_Agreed f \<and>
    (\<exists>e b. d_listen D' = Inr e \<and> d_connect D e = Inr () \<and> d_local D = Inr b \<and> d_attach D' b = Inr () \<and> d_accept D' = Inr ())"
proof -
  obtain Ack Local where c: "d_receive D 0 = Inr (HelloAck Ack)" "d_connect D (HelloAck_ChannelEndpoint Ack) = Inr ()" "d_local D = Inr Local"
    "sent = [Hello (hello_of Opts), PeerEndpoint \<lparr>PeerEndpoint_Blob = Local\<rparr>]" "f = client_of Opts sent"
    using assms(1) by (auto simp: FileClient_connect_def Let_def bindR_Inr_iff asReply_def get_HelloAck_def split: sum.splits if_splits option.splits Message.splits)
  have h: "d_receive D' 0 = Inr (Hello (hello_of Opts))" "d_receive D' 1 = Inr (PeerEndpoint \<lparr>PeerEndpoint_Blob = Local\<rparr>)" using assms(3) c(4) by auto
  have n: "Hello_Version (hello_of Opts) = kVersion" "\<exists>e. d_listen D' = Inr e \<and> sent' = [HelloAck \<lparr>HelloAck_Backend = O_Backend Opts, HelloAck_ChannelEndpoint = e\<rparr>]"
    "d_attach D' Local = Inr ()" "d_accept D' = Inr ()" "v = O_Verify Opts" "s = (if sum_code (O_Checksum Opts) = 1 then XxH3 else XxH64)"
    using assms(2) h by (auto simp: negotiate_def Let_def bindR_Inr_iff asReply_def get_Hello_def get_PeerEndpoint_def hello_of_def split: sum.splits if_splits)
  then obtain e where e: "d_listen D' = Inr e" "sent' = [HelloAck \<lparr>HelloAck_Backend = O_Backend Opts, HelloAck_ChannelEndpoint = e\<rparr>]" by blast
  then have "HelloAck_ChannelEndpoint Ack = e" using assms(4) c(1) by auto
  moreover have "s = O_Checksum Opts" using n(6) by (cases "O_Checksum Opts") simp_all
  moreover have "O_PretendVersion Opts \<in> {0, kVersion}" using n(1) by (auto simp: hello_of_def split: if_splits)
  ultimately show ?thesis using c(2,3,5) n(3-5) e(1) by (auto simp: client_of_def)
qed

section \<open>Concrete sessions\<close>

definition demo_opts :: ServiceOptions where
  "demo_opts = \<lparr>O_Backend = ''tcp'', O_PageCount = 12, O_PageSize = 2, O_RefuseSendAfterPages = 0, O_Verify = True, O_Checksum = XxH64, O_PretendVersion = 0\<rparr>"

definition demo_client :: file_client where
  "demo_client = (client_of demo_opts [])\<lparr>F_NextId := 7\<rparr>"

definition demo_env :: "Message list \<Rightarrow> byte list \<Rightarrow> u64 Result \<times> (Digest \<Rightarrow> bool) \<Rightarrow> client_env" where
  "demo_env replies page rx = \<lparr>c_send = (\<lambda>_. Inr ()), c_reply = (\<lambda>_ k. if k < length replies then Inr (replies ! k) else failMessage ''the peer closed''),
     c_acquire = True, c_recv = (\<lambda>_ _. Inr page), c_post = (\<lambda>_. Inr ()), c_tx = (Inr 4, replicate 16 1, False), c_rx = rx, c_open = Inr 4, c_create = Inr (),
     c_commit = Inr (), c_text = (\<lambda>_. []), c_pageSize = 1048576, c_pageCount = 12, c_maxInFlight = 8\<rparr>"

lemma demo_fields [simp]:
  "c_send (demo_env rs p rx) n = Inr ()" "c_reply (demo_env rs p rx) i k = (if k < length rs then Inr (rs ! k) else failMessage ''the peer closed'')" "c_acquire (demo_env rs p rx)"
  "c_recv (demo_env rs p rx) i m = Inr p" "c_rx (demo_env rs p rx) = rx" "c_tx (demo_env rs p rx) = (Inr 4, replicate 16 1, False)" "c_post (demo_env rs p rx) i = Inr ()"
  "c_pageSize (demo_env rs p rx) = 1048576" "maxOutstanding (demo_env rs p rx) = 8" "c_commit (demo_env rs p rx) = Inr ()" "c_create (demo_env rs p rx) = Inr ()"
  by (simp_all add: demo_env_def maxOutstanding_def)

lemma demo_client_fields [simp]:
  "F_NextId demo_client = 7" "F_TagCursor demo_client = 0" "F_Reads demo_client = []" "F_Verify demo_client" "F_Agreed demo_client = XxH64" "\<not> F_Overrun demo_client"
  "F_RefuseSendAfterPages demo_client = 0" "F_Sent demo_client = []" "F_Pages demo_client = []" "F_Commits demo_client = 0" "\<not> F_Gone demo_client"
  by (simp_all add: demo_client_def client_of_def demo_opts_def)

lemma demo_served: "daemon_sends H Y x M = rs \<Longrightarrow> served_by (demo_env rs p rx) H Y x M"
  by (simp add: served_by_def)

definition demo_read_reply :: TransferReply where
  "demo_read_reply = read_reply counting_xx file_sys file_ctx 7 9 [1, 2, 3] ([1, 2, 3] @ replicate 2 0) True []"

theorem client_read_end_to_end_witness:
  "fst (FileClient_read counting_xx (demo_env [TransferReply demo_read_reply] ([1, 2, 3] @ replicate 2 0) (Inr 0, \<lambda>_. True)) ''f'' 0 False 5 0 demo_client) = Inr (3, 3, [1, 2, 3])"
proof -
  let ?C = "demo_env [TransferReply demo_read_reply] ([1, 2, 3] @ replicate 2 0) (Inr 0, \<lambda>_. True)"
  have p: "unat (5 :: u32) \<le> RAILFS_PAGE_SIZE" "(5 :: u32) \<noteq> 0" "5 \<le> RAILFS_PAGE_SIZE" by (simp_all add: RAILFS_PAGE_SIZE_def)
  have y: "\<forall>n. y_send file_sys n = Inr ()" by simp
  have r: "unat (5 :: u32) - length [1, 2, 3 :: byte] = 2" by simp
  note h = file_held [of O_RDONLY]
  note d = daemon_reads [OF file_fields(1) p(1,2) y h [OF disjI1 [OF refl]], where H = counting_xx and Rid = 7 and offset = 0, unfolded file_fields(3) sum.case r is_ok_def]
  have s: "served_by ?C counting_xx file_sys file_ctx (read_request ''f'' 0 5 0 demo_client)"
    by (rule demo_served) (use d(1) in \<open>simp add: daemon_sends_def read_request_def demo_read_reply_def\<close>)
  have "fst (FileClient_read counting_xx ?C ''f'' 0 False 5 0 demo_client) =
      (case y_read file_sys of
         Inl e \<Rightarrow> failMessage (y_text file_sys e)
       | Inr Got \<Rightarrow> Inr (length Got, case y_fstat file_sys 9 of None \<Rightarrow> 0 | Some n \<Rightarrow> n, if False then Got @ replicate (5 - length Got) 0 else Got)) \<and>
    \<not> F_Overrun (snd (FileClient_read counting_xx ?C ''f'' 0 False 5 0 demo_client))"
    by (rule client_read_end_to_end [OF _ s _ _ file_fields(1) p(3) y h [OF disjI1 [OF refl]]]) (use d(2) in \<open>simp_all add: fits_def read_request_def\<close>)
  then show ?thesis by (simp add: file_sys_def)
qed

definition demo_write_reply :: TransferReply where
  "demo_write_reply = (TransferReply_new 7)\<lparr>TransferReply_Ok := True, TransferReply_Length := 2\<rparr>"

lemma demo_write:
  "FileClient_write counting_xx (demo_env [TransferReply demo_write_reply] [] (Inr 0, \<lambda>_. True)) ''f'' 0 [4, 5] False 0 demo_client =
     (Inr (), demo_client\<lparr>F_NextId := 8, F_Sent := [write_request counting_xx ''f'' 0 [4, 5] False 0 demo_client], F_PagesSent := 1, F_Pages := [(7, [4, 5])]\<rparr>)"
proof -
  have "F_PagesSent demo_client = 0" by (simp add: demo_client_def client_of_def)
  then show ?thesis
    by (simp add: FileClient_write_def nextId_def control_send_def maxTransfer_def Let_def demo_write_reply_def write_request_def)
qed

lemma demo_write_served:
  "answers counting_xx file_sys file_ctx (write_request counting_xx ''f'' 0 [4, 5] False 0 demo_client) (TransferReply demo_write_reply)"
proof -
  have p: "\<not> RAILFS_PAGE_SIZE < 2" by (simp add: RAILFS_PAGE_SIZE_def)
  obtain x1 where h: "heldFor file_sys 0 ''f'' (O_WRONLY + O_CREAT) file_ctx = (Inr 9, x1)" using file_held by blast
  have m: "Verifier_matches counting_xx (Verifier_update counting_xx (Verifier_new counting_xx True XxH64) [4, 5])
      (Verifier_digest counting_xx (Verifier_update counting_xx (Verifier_new counting_xx True XxH64) [4, 5]))" by (rule Verifier_own)
  show ?thesis using held_keeps [OF h]
    by (simp add: answers_def dispatch_def onWrite_def Let_def p m h call_def send_def write_request_def demo_write_reply_def)
qed

theorem client_write_end_to_end_witness:
  "\<exists>Fd. last (X_Calls (snd (dispatch counting_xx file_sys (write_request counting_xx ''f'' 0 [4, 5] False 0 demo_client) file_ctx))) = SysWrite Fd 0 [4, 5]"
proof -
  have "2 \<le> RAILFS_PAGE_SIZE" by (simp add: RAILFS_PAGE_SIZE_def)
  then show ?thesis using client_write_end_to_end [OF demo_write _ demo_write_served _ file_fields(1)] by simp
qed

theorem write_never_strands_witness:
  "let C = (demo_env [] [] (Inr 0, \<lambda>_. True))\<lparr>c_acquire := False\<rparr>; f = snd (FileClient_write counting_xx C ''f'' 0 [4, 5] False 0 demo_client)
   in F_Pages f = [] \<and> F_Gone f"
proof -
  let ?C = "(demo_env [] [] (Inr 0, \<lambda>_. True))\<lparr>c_acquire := False\<rparr>"
  have e: "FileClient_write counting_xx ?C ''f'' 0 [4, 5] False 0 demo_client =
      (failMessage ''out of registered memory for a transfer page'',
       demo_client\<lparr>F_NextId := 8, F_Sent := [write_request counting_xx ''f'' 0 [4, 5] False 0 demo_client], F_Gone := True\<rparr>)"
    by (simp add: FileClient_write_def nextId_def control_send_def maxTransfer_def Let_def write_request_def abandonSend_def demo_env_def)
  then have "length (F_Sent (snd (FileClient_write counting_xx ?C ''f'' 0 [4, 5] False 0 demo_client))) > length (F_Sent demo_client)" by simp
  from write_never_strands [OF this] show ?thesis using e by (simp add: Let_def demo_env_def)
qed

definition demo_digest :: StreamDigest where
  "demo_digest = \<lparr>StreamDigest_Id = 7, StreamDigest_Whole = replicate 16 1, StreamDigest_Ok = True, StreamDigest_Error = []\<rparr>"

definition store_sys :: sys where
  "store_sys = file_sys\<lparr>y_rx := (Inr 4, \<lambda>D. D = replicate 16 1), y_digest := Inr demo_digest\<rparr>"

definition store_replies :: "Message list" where
  "store_replies = [StreamReply ((StreamReply_new 7)\<lparr>StreamReply_Ok := True\<rparr>), StreamReply ((StreamReply_new 7)\<lparr>StreamReply_Ok := True, StreamReply_Length := 4\<rparr>)]"

lemma demo_store:
  "storeThrough (demo_env store_replies [] (Inr 0, \<lambda>_. True)) ''f'' 0 4 True 0 demo_client =
     (Inr 4, demo_client\<lparr>F_NextId := 8, F_Sent := [store_request ''f'' 0 4 True 0 demo_client, StreamDigest demo_digest], F_TagCursor := tagSpan 4 1048576\<rparr>)"
  by (simp add: storeThrough_def nextId_def control_send_def store_replies_def end_store_def demo_digest_def store_request_def Let_def StreamReply_new_def)

lemma demo_store_served: "daemon_sends counting_xx store_sys file_ctx (store_request ''f'' 0 4 True 0 demo_client) = store_replies"
proof -
  have r: "underRoot plain_fs ''/srv'' ''f'' = Inr ''/srv/f''" by code_simp
  then show ?thesis
    by (auto simp: daemon_sends_def dispatch_def store_request_def onStore_def landStore_def store_sys_def file_sys_def sample_sys_def file_ctx_def sample_ctx_def call_def
        send_def Let_def demo_digest_def store_replies_def StreamReply_new_def)
qed

theorem client_store_end_to_end_witness:
  "fst (storeThrough (demo_env store_replies [] (Inr 0, \<lambda>_. True)) ''f'' 0 4 True 0 demo_client) = Inr 4 \<and> snd (y_rx store_sys) (replicate 16 1) \<and> y_commit store_sys = Inr ()"
proof -
  have "y_digest store_sys = Inr demo_digest" by (simp add: store_sys_def)
  then have "(4 :: u64) = 4 \<and> is_ok (fst (y_rx store_sys)) \<and> (0 < (4 :: u64) \<longrightarrow> is_ok (fst (c_tx (demo_env store_replies [] (Inr 0, \<lambda>_. True))))) \<and>
      snd (y_rx store_sys) (fst (snd (c_tx (demo_env store_replies [] (Inr 0, \<lambda>_. True))))) \<and> (True \<and> (0 :: u64) = 0 \<longrightarrow> y_commit store_sys = Inr ())"
    by (intro client_store_end_to_end [OF demo_store demo_served [OF demo_store_served]]) simp
  then show ?thesis using demo_store by simp
qed

definition here_env :: dial_env where
  "here_env = \<lparr>d_sock = Inr (), d_known = (\<lambda>b. b = ''tcp''), d_prepare = Inr (), d_send = (\<lambda>_. Inr ()),
     d_receive = (\<lambda>_. Inr (HelloAck \<lparr>HelloAck_Backend = ''tcp'', HelloAck_ChannelEndpoint = '':80''\<rparr>)), d_connect = (\<lambda>_. Inr ()), d_local = Inr ''me'',
     d_listen = Inr '':80'', d_attach = (\<lambda>_. Inr ()), d_accept = Inr ()\<rparr>"

definition there_env :: dial_env where
  "there_env = here_env\<lparr>d_receive := (\<lambda>k. Inr ([Hello (hello_of demo_opts), PeerEndpoint \<lparr>PeerEndpoint_Blob = ''me''\<rparr>] ! k))\<rparr>"

theorem handshake_agrees_witness: "\<exists>f sent sent'. FileClient_connect here_env demo_opts = (Inr f, sent) \<and> negotiate there_env = (Inr (F_Verify f, F_Agreed f), sent')"
proof -
  let ?sent = "[Hello (hello_of demo_opts), PeerEndpoint \<lparr>PeerEndpoint_Blob = ''me''\<rparr>]"
  have c: "FileClient_connect here_env demo_opts = (Inr (client_of demo_opts ?sent), ?sent)"
    by (simp add: FileClient_connect_def here_env_def demo_opts_def get_HelloAck_def Let_def)
  have n: "negotiate there_env = (Inr (True, XxH64), [HelloAck \<lparr>HelloAck_Backend = ''tcp'', HelloAck_ChannelEndpoint = '':80''\<rparr>])"
    by (simp add: negotiate_def there_env_def here_env_def get_Hello_def get_PeerEndpoint_def hello_of_def demo_opts_def Let_def)
  have "\<forall>k < length ?sent. d_receive there_env k = Inr (?sent ! k)"
    "\<forall>k < length [HelloAck \<lparr>HelloAck_Backend = ''tcp'', HelloAck_ChannelEndpoint = '':80''\<rparr>]. d_receive here_env k = Inr ([HelloAck \<lparr>HelloAck_Backend = ''tcp'', HelloAck_ChannelEndpoint = '':80''\<rparr>] ! k)"
    by (simp_all add: there_env_def here_env_def)
  from handshake_agrees [OF c n this] show ?thesis using c n by auto
qed

definition fetch_tx :: tx_env where
  "fetch_tx = sample_tx\<lparr>tx_TagBase := 2 ^ 63\<rparr>"

definition fetch_rx :: rx_env where
  "fetch_rx = sample_rx\<lparr>rx_TagBase := 2 ^ 63, rx_recv := (\<lambda>tag _. if tag = 2 ^ 63 then Inr [0, 1] else Inr [2, 3])\<rparr>"

definition fetch_window :: space where
  "fetch_window = sample_window\<lparr>Sp_Space := (Sp_Space sample_window)\<lparr>AS_Base := 0\<rparr>\<rparr>"

lemma fetch_ends:
  "tx_setup fetch_tx" "rx_setup fetch_rx" "space_sound fetch_window" "pages 2 0 4 = [(0, 2), (2, 2)]"
  "page_read fetch_tx (0, 2) = Inr [0, 1]" "page_read fetch_tx (2, 2) = Inr [2, 3]"
  using sample_ends(1,3,4)
  by (simp_all add: tx_setup_def rx_setup_def fetch_tx_def fetch_rx_def fetch_window_def space_sound_def pages.simps page_read_def sample_tx_def tx_ask_def)

lemma fetch_fields:
  "tx_PageBytes fetch_tx = 2" "rx_PageBytes fetch_rx = 2" "tx_TagBase fetch_tx = 2 ^ 63" "rx_TagBase fetch_rx = 2 ^ 63"
  "AS_Base (Sp_Space fetch_window) = 0" "AS_PageBytes (Sp_Space fetch_window) = 2" "capacity (Sp_Space fetch_window) = 4" "unat kStreamTags = 2 ^ 63"
  by (simp_all add: fetch_tx_def fetch_rx_def fetch_window_def sample_tx_def sample_rx_def sample_window_def capacity_def kStreamTags_def)

theorem client_fetch_end_to_end_witness:
  "\<exists>C sR. rx_land counting_xx space_ops fetch_rx 0 4 (PageReceiver_new counting_xx True XxH64 fetch_window) = Some (Inr 4, sR) \<and>
     fst (fetchThrough C ''f'' 0 4 0 demo_client) = Inr 4 \<and> take 4 (space_contents (Rx_Sink sR)) = [0, 1, 2, 3]"
proof -
  let ?File = "[0, 1, 2, 3, 4, 5] :: byte list"
  obtain sT where t: "tx_stream counting_xx fetch_tx 0 4 (PageSender_new counting_xx False True XxH64) = Some (Inr 4, sT)" "T_Sent sT = [(2 ^ 63, [0, 1]), (2 ^ 63 + 2, [2, 3])]"
    using tx_stream_pages [OF fetch_ends(1), of 0 4 counting_xx True XxH64] by (auto simp: fetch_fields fetch_ends tx_tag_def page_sent_def)
  have a: "\<forall>(tag, bs) \<in> set (T_Sent sT). rx_recv fetch_rx tag (length bs) = Inr bs" unfolding t(2) by (simp add: fetch_rx_def)
  have "\<exists>sT. tx_stream counting_xx fetch_tx 0 4 (PageSender_new counting_xx False True XxH64) = Some (Inr 4, sT) \<and>
    ((\<forall>(tag, bs) \<in> set (T_Sent sT). rx_recv fetch_rx tag (length bs) = Inr bs) \<longrightarrow>
       (\<exists>sR. rx_land counting_xx space_ops fetch_rx 0 4 (PageReceiver_new counting_xx True XxH64 fetch_window) = Some (Inr 4, sR) \<and>
          take 4 (space_contents (Rx_Sink sR)) = take 4 (drop 0 ?File) \<and> Verifier_matches counting_xx (Rx_Whole sR) (Verifier_digest counting_xx (T_Whole sT))))"
    by (rule pages_moved) (simp_all add: fetch_ends fetch_fields)
  then obtain sR where r: "rx_land counting_xx space_ops fetch_rx 0 4 (PageReceiver_new counting_xx True XxH64 fetch_window) = Some (Inr 4, sR)" using t(1) a by auto
  define Y where "Y = file_sys\<lparr>y_reader := Inr 6, y_tx := (Inr 4, Verifier_digest counting_xx (T_Whole sT), False)\<rparr>"
  define C where "C = demo_env (daemon_sends counting_xx Y file_ctx (fetch_request ''f'' 0 4 0 demo_client)) [] (Inr 4, Verifier_matches counting_xx (Rx_Whole sR))"
  have same: "y_stat Y = y_stat file_sys" "y_open Y = y_open file_sys" "y_fs Y = y_fs file_sys" by (simp_all add: Y_def)
  have cached: "cache_get Y = cache_get file_sys" by (intro ext) (simp only: cache_get_def same)
  have "heldFor Y Hd n fl z = heldFor file_sys Hd n fl z" for Hd n fl z by (simp only: heldFor_def same cached)
  then have "\<exists>x1. heldFor Y 0 ''f'' O_RDONLY file_ctx = (Inr 9, x1)" using file_held [of O_RDONLY] by (metis (full_types))
  then obtain x1 where h: "heldFor Y 0 ''f'' O_RDONLY file_ctx = (Inr 9, x1)" by blast
  have n: "min (unat (4 :: u64)) (length ?File - unat (0 :: u64)) = 4" by simp
  have "fst (fetchThrough C ''f'' 0 4 0 demo_client) = Inr (of_nat 4) \<and> take 4 (space_contents (Rx_Sink sR)) = take 4 (drop (unat (0 :: u64)) ?File)"
    by (rule client_fetch_end_to_end [of C 0 4 counting_xx Y file_ctx "''f''" 0 demo_client 9 x1 ?File fetch_tx fetch_rx fetch_window "Inr 4" sT "Inr 4" sR, unfolded n])
      (use h t r a in \<open>simp_all add: fetch_ends fetch_fields C_def demo_served Y_def\<close>)
  then show ?thesis using r by (intro exI [of _ C] exI [of _ sR]) simp
qed

end
