(* ===== verification/NfsHandles.thy ===== *)
theory NfsHandles
  imports Checksum SafePath Transition "HOL-Library.AList"
begin

text \<open>
  \<^verbatim>\<open>src/nfs/server.cc\<close>, the names of the export: the test that a path stays inside it, and the table
  of handles. A handle is 64 bytes: a short path itself, the digest of a directory and a name, the
  digest of a path, or the mark of the export's root. The theorems show that a handle decodes to the
  path it was made for, at once and after whatever the export does to other names, as long as no two
  directories it knows share a digest, and that forgetting a name makes its digest handles stale.
\<close>

section \<open>Paths\<close>

definition joinPath :: "string \<Rightarrow> string \<Rightarrow> string" where
  "joinPath Parent Name = (if Parent = ''.'' then Name else Parent @ ''/'' @ Name)"

definition insideExport :: "string \<Rightarrow> string \<Rightarrow> bool" where
  "insideExport Path Root \<longleftrightarrow>
     \<not> (Path = [] \<or> hd Path = CHR ''/'') \<and> ''..'' \<notin> set (parts Path) \<and> (Root = ''.'' \<or> Path = Root \<or> prefix (Root @ ''/'') Path)"

text \<open>\<^verbatim>\<open>rfind('/')\<close>: what is before and after the last slash.\<close>

definition cut_last :: "string \<Rightarrow> (string \<times> string) option" where
  "cut_last Path =
     (let Name = rev (takeWhile (\<lambda>c. c \<noteq> CHR ''/'') (rev Path))
      in if CHR ''/'' \<in> set Path then Some (take (length Path - length Name - 1) Path, Name) else None)"

definition parentPath :: "string \<Rightarrow> string \<Rightarrow> string" where
  "parentPath Path Root =
     (if Path = Root then Root
      else let Parent = (case cut_last Path of None \<Rightarrow> ''.'' | Some (Before, _) \<Rightarrow> Before) in if insideExport Parent Root then Parent else Root)"

definition namedSafely :: "string \<Rightarrow> bool" where
  "namedSafely Name \<longleftrightarrow> Name \<noteq> [] \<and> Name \<noteq> ''.'' \<and> Name \<noteq> ''..'' \<and> CHR ''/'' \<notin> set Name"

section \<open>Handles\<close>

definition kHandleSize :: nat where "kHandleSize = 64"
definition kInlineLimit :: nat where "kInlineLimit = kHandleSize - 8"
definition kDigestAt :: nat where "kDigestAt = 2"
definition kNameAt :: nat where "kNameAt = kDigestAt + 16"
definition kNameRoom :: nat where "kNameRoom = kHandleSize - kNameAt"

lemmas handle_consts = kHandleSize_def kInlineLimit_def kDigestAt_def kNameAt_def kNameRoom_def

definition digestOf :: "'h xxlib \<Rightarrow> string \<Rightarrow> byte list" where
  "digestOf X Path = Hasher_digest X (Hasher_update X (Hasher_new X XxH3) (map byte_of_char Path))"

text \<open>\<open>H_ByPath\<close> is a \<^verbatim>\<open>std::map\<close>; what is below a path is found by its prefix.\<close>

record Handles =
  H_Anchor :: string
  H_Long :: "byte list \<rightharpoonup> string"
  H_ByPath :: "(string \<times> byte list) list"

definition Handles_new :: Handles where
  "Handles_new = \<lparr>H_Anchor = [], H_Long = Map.empty, H_ByPath = []\<rparr>"

definition h_pin :: "string \<Rightarrow> Handles \<Rightarrow> Handles" where
  "h_pin Path s = s\<lparr>H_Anchor := Path\<rparr>"

definition h_remember :: "byte list \<Rightarrow> string \<Rightarrow> Handles \<Rightarrow> Handles" where
  "h_remember D Path s = s\<lparr>H_Long := (H_Long s)(D \<mapsto> Path), H_ByPath := AList.update Path D (H_ByPath s)\<rparr>"

text \<open>\<^verbatim>\<open>memcpy\<close> into the zeroed handle at a place.\<close>

definition put_at :: "nat \<Rightarrow> byte list \<Rightarrow> byte list \<Rightarrow> byte list" where
  "put_at i bs H = take i H @ bs @ drop (i + length bs) H"

definition h_encode :: "'h xxlib \<Rightarrow> string \<Rightarrow> Handles \<Rightarrow> byte list \<times> Handles" where
  "h_encode X Path s =
     (let H = replicate kHandleSize 0
      in if H_Anchor s \<noteq> [] \<and> Path = H_Anchor s then (H[0 := 4], s)
         else if length Path \<le> kInlineLimit then (put_at 8 (map byte_of_char Path) (H[0 := 1, 1 := of_nat (length Path)]), s)
         else
           (case cut_last Path of
              Some (Parent, Name) \<Rightarrow>
                if 0 < length Name \<and> length Name \<le> kNameRoom then
                  (put_at kNameAt (map byte_of_char Name) (put_at kDigestAt (digestOf X Parent) (H[0 := 3, 1 := of_nat (length Name)])),
                   h_remember (digestOf X Parent) Parent s)
                else (put_at 8 (digestOf X Path) (H[0 := 2]), h_remember (digestOf X Path) Path s)
            | None \<Rightarrow> (put_at 8 (digestOf X Path) (H[0 := 2]), h_remember (digestOf X Path) Path s)))"

definition below :: "string \<Rightarrow> string \<Rightarrow> bool" where
  "below Path q \<longleftrightarrow> q = Path \<or> prefix (Path @ ''/'') q"

definition h_forget :: "string \<Rightarrow> Handles \<Rightarrow> Handles" where
  "h_forget Path s =
     (let Gone = map snd (filter (\<lambda>(q, _). below Path q) (H_ByPath s))
      in s\<lparr>H_Long := (\<lambda>k. if k \<in> set Gone then None else H_Long s k), H_ByPath := filter (\<lambda>(q, _). \<not> below Path q) (H_ByPath s)\<rparr>)"

definition h_decode :: "byte list \<Rightarrow> Handles \<Rightarrow> string option" where
  "h_decode H s =
     (if length H \<noteq> kHandleSize then None
      else if H ! 0 = 4 then (if H_Anchor s = [] then None else Some (H_Anchor s))
      else if H ! 0 = 1 then
        let Length = unat (H ! 1) in if Length > kInlineLimit then None else Some (map char_of_byte (take Length (drop 8 H)))
      else if H ! 0 \<noteq> 2 \<and> H ! 0 \<noteq> 3 then None
      else
        (case H_Long s (take 16 (drop (if H ! 0 = 3 then kDigestAt else 8) H)) of
           None \<Rightarrow> None
         | Some Known \<Rightarrow>
             if H ! 0 = 2 then Some Known
             else
               let Length = unat (H ! 1)
               in if Length = 0 \<or> Length > kNameRoom then None else Some (Known @ ''/'' @ map char_of_byte (take Length (drop kNameAt H)))))"

section \<open>Paths stay inside\<close>

lemma joinPath_parts: "joinPath Parent Name = Name \<and> Parent = ''.'' \<or> parts (joinPath Parent Name) = parts Parent @ parts Name"
  using parts_append [of Parent Name] by (simp add: joinPath_def)

lemma namedSafely_parts: "namedSafely Name \<Longrightarrow> parts Name = [Name]"
  by (simp add: namedSafely_def parts_no_slash)

lemma joinPath_inside:
  assumes "insideExport Directory Root" and "namedSafely Name"
  shows "insideExport (joinPath Directory Name) Root"
proof -
  have n: "parts Name = [Name]" "Name \<noteq> ''..''" "Name \<noteq> []" "hd Name \<noteq> CHR ''/''"
    using namedSafely_parts [OF assms(2)] assms(2) by (auto simp: namedSafely_def dest: hd_in_set)
  show ?thesis
  proof (cases "Directory = ''.''")
    case True
    then have "Root = ''.''" using assms(1) by (cases Root) (auto simp: insideExport_def prefix_def)
    then show ?thesis using True n by (simp add: insideExport_def joinPath_def)
  next
    case False
    have "parts (joinPath Directory Name) = parts Directory @ [Name]" using False n(1) parts_append [of Directory Name] by (simp add: joinPath_def)
    then show ?thesis using assms(1) False n
      by (auto simp: insideExport_def joinPath_def prefix_def)
  qed
qed

lemma parentPath_inside: "insideExport Root Root \<Longrightarrow> insideExport (parentPath Path Root) Root"
  by (auto simp: parentPath_def Let_def)

section \<open>Handles decode to their paths\<close>

lemma cut_last_Some:
  assumes "cut_last Path = Some (Parent, Name)"
  shows "Path = Parent @ ''/'' @ Name" and "CHR ''/'' \<notin> set Name"
proof -
  let ?r = "rev Path"
  let ?t = "takeWhile (\<lambda>c. c \<noteq> CHR ''/'') ?r" and ?d = "dropWhile (\<lambda>c. c \<noteq> CHR ''/'') ?r"
  have c: "CHR ''/'' \<in> set Path" "Name = rev ?t" "Parent = take (length Path - length Name - 1) Path"
    using assms by (auto simp: cut_last_def Let_def split: if_splits)
  have ne: "?d \<noteq> []" using c(1) by (auto simp: dropWhile_eq_Nil_conv)
  then have h: "hd ?d = CHR ''/''" using hd_dropWhile [of "\<lambda>c. c \<noteq> CHR ''/''" ?r] by simp
  have "?r = ?t @ ?d" by simp
  then have "Path = rev ?d @ rev ?t" by (metis rev_append rev_rev_ident)
  moreover have "rev ?d = rev (tl ?d) @ ''/''" using ne h by (metis list.collapse rev.simps(2))
  ultimately have p: "Path = rev (tl ?d) @ ''/'' @ Name" using c(2) by simp
  then have "length Path - length Name - 1 = length (rev (tl ?d))" by (metis add.commute add_diff_cancel_left' diff_diff_left length_append list.size(3,4) add_0 plus_1_eq_Suc)
  then have "Parent = rev (tl ?d)" using c(3) p by (metis append_eq_conv_conj)
  then show "Path = Parent @ ''/'' @ Name" using p by simp
  show "CHR ''/'' \<notin> set Name" using c(2) set_takeWhileD by fastforce
qed

lemma length_digestOf [simp]: "length (digestOf X Path) = 16"
  by (simp add: digestOf_def Hasher_digest_def split: prod.split)

text \<open>The entry of the table that a path's handle rests on.\<close>

definition rests_on :: "Handles \<Rightarrow> string \<Rightarrow> string option" where
  "rests_on s Path =
     (if H_Anchor s \<noteq> [] \<and> Path = H_Anchor s \<or> length Path \<le> kInlineLimit then None
      else case cut_last Path of Some (Parent, Name) \<Rightarrow> if 0 < length Name \<and> length Name \<le> kNameRoom then Some Parent else Some Path | None \<Rightarrow> Some Path)"

lemma unat_byte: "n < 256 \<Longrightarrow> unat (of_nat n :: byte) = n"
  by (rule unat_of_nat_small) simp

lemma put_at_length [simp]: "i + length bs \<le> length H \<Longrightarrow> length (put_at i bs H) = length H"
  by (simp add: put_at_def)

lemma put_at_nth: "j < i \<Longrightarrow> i \<le> length H \<Longrightarrow> put_at i bs H ! j = H ! j"
  by (simp add: put_at_def nth_append)

lemma put_at_before:
  assumes "j + n \<le> i" and "i \<le> length H"
  shows "take n (drop j (put_at i bs H)) = take n (drop j H)"
proof -
  have "drop j (put_at i bs H) = drop j (take i H) @ bs @ drop (i + length bs) H" using assms by (simp add: put_at_def)
  moreover have "n \<le> length (drop j (take i H))" using assms by simp
  ultimately have "take n (drop j (put_at i bs H)) = take n (drop j (take i H))" by simp
  then show ?thesis using assms(1) by (simp add: drop_take min_def)
qed

lemma put_at_back: "n = length bs \<Longrightarrow> i + length bs \<le> length H \<Longrightarrow> take n (drop i (put_at i bs H)) = bs"
  by (simp add: put_at_def)

text \<open>What each kind of handle decodes to, by what the table then knows.\<close>

lemma encode_kinds:
  assumes "h_encode X Path s = (H, s1)"
  obtains "H_Anchor s \<noteq> []" "Path = H_Anchor s" "s1 = s" "rests_on s Path = None" "\<And>t. h_decode H t = (if H_Anchor t = [] then None else Some (H_Anchor t))"
  | "s1 = s" "rests_on s Path = None" "\<And>t. h_decode H t = Some Path"
  | p where "rests_on s Path = Some p" "s1 = h_remember (digestOf X p) p s" "\<And>t. h_decode H t = (if H_Long t (digestOf X p) = Some p then Some Path else h_decode H t)"
      "\<And>t. H_Long t (digestOf X p) = None \<Longrightarrow> h_decode H t = None"
proof -
  let ?Z = "replicate kHandleSize (0 :: byte)"
  consider (anchor) "H_Anchor s \<noteq> [] \<and> Path = H_Anchor s" | (inline) "\<not> (H_Anchor s \<noteq> [] \<and> Path = H_Anchor s)" "length Path \<le> kInlineLimit"
    | (named) Parent Name where "\<not> (H_Anchor s \<noteq> [] \<and> Path = H_Anchor s)" "\<not> length Path \<le> kInlineLimit" "cut_last Path = Some (Parent, Name)" "0 < length Name" "length Name \<le> kNameRoom"
    | (whole) "\<not> (H_Anchor s \<noteq> [] \<and> Path = H_Anchor s)" "\<not> length Path \<le> kInlineLimit" "\<And>Parent Name. cut_last Path = Some (Parent, Name) \<Longrightarrow> \<not> (0 < length Name \<and> length Name \<le> kNameRoom)"
    by (cases "cut_last Path") auto
  then show thesis
  proof cases
    case anchor
    then have "H = ?Z[0 := 4]" "s1 = s" using assms by (auto simp: h_encode_def Let_def)
    then show thesis using anchor by (intro that(1)) (simp_all add: h_decode_def rests_on_def kHandleSize_def)
  next
    case inline
    let ?b = "?Z[0 := 1, 1 := of_nat (length Path)]"
    have H: "H = put_at 8 (map byte_of_char Path) ?b" "s1 = s" using assms inline by (auto simp: h_encode_def Let_def)
    have n: "length Path \<le> 56" using inline by (simp add: handle_consts)
    have f: "length H = 64" "H ! 0 = 1" "H ! 1 = of_nat (length Path)" "take (length Path) (drop 8 H) = map byte_of_char Path"
      using n unfolding H by (simp_all add: put_at_nth put_at_before put_at_back kHandleSize_def)
    have "unat (H ! 1) = length Path" unfolding f(3) by (rule unat_byte) (use n in simp)
    then show thesis using inline H(2) f n by (intro that(2)) (simp_all add: h_decode_def rests_on_def handle_consts Let_def)
  next
    case named
    let ?b = "?Z[0 := 3, 1 := of_nat (length Name)]"
    have H: "H = put_at kNameAt (map byte_of_char Name) (put_at kDigestAt (digestOf X Parent) ?b)" "s1 = h_remember (digestOf X Parent) Parent s"
      using assms named by (auto simp: h_encode_def Let_def)
    have n: "length Name \<le> 46" "0 < length Name" using named by (simp_all add: handle_consts)
    have f: "length H = 64" "H ! 0 = 3" "H ! 1 = of_nat (length Name)" "take (length Name) (drop 18 H) = map byte_of_char Name" "take 16 (drop 2 H) = digestOf X Parent"
      using n unfolding H by (simp_all add: put_at_nth put_at_before put_at_back handle_consts)
    have u: "unat (H ! 1) = length Name" unfolding f(3) by (rule unat_byte) (use n in simp)
    have "Path = Parent @ ''/'' @ Name" using cut_last_Some(1) [OF named(3)] .
    then show thesis using named H(2) f u n by (intro that(3) [of Parent]) (simp_all add: h_decode_def rests_on_def handle_consts Let_def)
  next
    case whole
    have H: "H = put_at 8 (digestOf X Path) (?Z[0 := 2])" "s1 = h_remember (digestOf X Path) Path s"
      using assms whole by (auto simp: h_encode_def Let_def split: option.splits prod.splits)
    have f: "length H = 64" "H ! 0 = 2" "take 16 (drop 8 H) = digestOf X Path" unfolding H by (simp_all add: put_at_nth put_at_before put_at_back handle_consts)
    have "rests_on s Path = Some Path" using whole by (auto simp: rests_on_def split: option.splits)
    then show thesis using H(2) f by (intro that(3) [of Path]) (simp_all add: h_decode_def handle_consts Let_def)
  qed
qed

text \<open>What the export does to the table; forgetting spares the entry \<open>Kept\<close>.\<close>

inductive handle_step :: "'h xxlib \<Rightarrow> string set \<Rightarrow> string \<Rightarrow> string option \<Rightarrow> Handles \<Rightarrow> Handles \<Rightarrow> bool" for X S Root Kept where
  pins: "handle_step X S Root Kept s (h_pin Root s)"
| encodes: "(\<And>p. rests_on s Path = Some p \<Longrightarrow> p \<in> S) \<Longrightarrow> handle_step X S Root Kept s (snd (h_encode X Path s))"
| forgets: "(\<And>p. Kept = Some p \<Longrightarrow> \<not> below Path p) \<Longrightarrow> handle_step X S Root Kept s (h_forget Path s)"

text \<open>Both maps say the same: the table knows a set of paths, each under its digest.\<close>

definition handles_ok :: "'h xxlib \<Rightarrow> string set \<Rightarrow> string \<Rightarrow> Handles \<Rightarrow> bool" where
  "handles_ok X S Root s \<longleftrightarrow>
     H_Anchor s \<in> {[], Root} \<and>
     (\<forall>p k. (p, k) \<in> set (H_ByPath s) \<longrightarrow> p \<in> S \<and> k = digestOf X p \<and> H_Long s k = Some p) \<and>
     (\<forall>k p. H_Long s k = Some p \<longrightarrow> (p, k) \<in> set (H_ByPath s))"

lemma handles_okD:
  assumes "handles_ok X S Root s"
  shows "H_Anchor s \<in> {[], Root}" and "(p, k) \<in> set (H_ByPath s) \<Longrightarrow> p \<in> S \<and> k = digestOf X p \<and> H_Long s k = Some p"
    and "H_Long s k = Some p \<Longrightarrow> (p, k) \<in> set (H_ByPath s) \<and> k = digestOf X p"
  using assms unfolding handles_ok_def by blast+

lemma handles_okI:
  assumes "H_Anchor s \<in> {[], Root}" and "\<And>p k. (p, k) \<in> set (H_ByPath s) \<Longrightarrow> p \<in> S \<and> k = digestOf X p \<and> H_Long s k = Some p"
    and "\<And>k p. H_Long s k = Some p \<Longrightarrow> (p, k) \<in> set (H_ByPath s)"
  shows "handles_ok X S Root s"
  using assms unfolding handles_ok_def by blast

lemma update_entries: "(\<And>k. (p, k) \<in> set al \<Longrightarrow> k = d) \<Longrightarrow> set (AList.update p d al) = insert (p, d) (set al)"
proof (induction al)
  case (Cons x al)
  obtain q e where x: "x = (q, e)" by fastforce
  have "(p, k) \<in> set al \<Longrightarrow> k = d" for k using Cons.prems by auto
  then have "set (AList.update p d al) = insert (p, d) (set al)" by (rule Cons.IH)
  then show ?case using Cons.prems [of e] x by auto
qed simp

lemma remember_ok:
  assumes "handles_ok X S Root s" and "inj_on (digestOf X) S" and "p \<in> S"
  shows "handles_ok X S Root (h_remember (digestOf X p) p s)" and "H_Long (h_remember (digestOf X p) p s) (digestOf X p) = Some p"
proof -
  note v = handles_okD [OF assms(1)]
  have b: "set (AList.update p (digestOf X p) (H_ByPath s)) = insert (p, digestOf X p) (set (H_ByPath s))" by (rule update_entries) (use v(2) in blast)
  have same: "q = p" if "q \<in> S" "digestOf X q = digestOf X p" for q using inj_onD [OF assms(2) that(2)] that(1) assms(3) by blast
  let ?s = "h_remember (digestOf X p) p s"
  have f: "H_Anchor ?s = H_Anchor s" "set (H_ByPath ?s) = insert (p, digestOf X p) (set (H_ByPath s))" "H_Long ?s k = (if k = digestOf X p then Some p else H_Long s k)" for k
    by (simp_all add: h_remember_def b)
  show "handles_ok X S Root ?s"
  proof (rule handles_okI)
    show "H_Anchor ?s \<in> {[], Root}" using v(1) f(1) by simp
    show "q \<in> S \<and> k = digestOf X q \<and> H_Long ?s k = Some q" if "(q, k) \<in> set (H_ByPath ?s)" for q k
    proof (cases "(q, k) = (p, digestOf X p)")
      case False
      then have q: "q \<in> S" "k = digestOf X q" "H_Long s k = Some q" using that v(2) [of q k] unfolding f(2) by blast+
      have "k \<noteq> digestOf X p"
      proof
        assume "k = digestOf X p"
        then have "digestOf X q = digestOf X p" using q(2) by metis
        then show False using same [OF q(1)] q(2) False by metis
      qed
      then show ?thesis using q unfolding f(3) by presburger
    qed (use assms(3) f(3) in simp)
    show "(q, k) \<in> set (H_ByPath ?s)" if "H_Long ?s k = Some q" for q k
    proof (cases "k = digestOf X p")
      case True
      then have "q = p" using that unfolding f(3) by simp
      then show ?thesis using True unfolding f(2) by blast
    next
      case False
      then have "H_Long s k = Some q" using that unfolding f(3) by presburger
      then show ?thesis using v(3) [of k q] unfolding f(2) by blast
    qed
  qed
  show "H_Long (h_remember (digestOf X p) p s) (digestOf X p) = Some p" by (simp add: h_remember_def)
qed

lemma forget_long:
  assumes "handles_ok X S Root s"
  shows "H_Long (h_forget Path s) k = (case H_Long s k of None \<Rightarrow> None | Some p \<Rightarrow> if below Path p then None else Some p)"
proof -
  let ?G = "set (map snd (filter (\<lambda>(q, _). below Path q) (H_ByPath s)))"
  have g: "k \<in> ?G \<longleftrightarrow> (\<exists>p. (p, k) \<in> set (H_ByPath s) \<and> below Path p)" by force
  have e: "(\<exists>p. (p, k) \<in> set (H_ByPath s) \<and> below Path p) \<longleftrightarrow> (\<exists>p. H_Long s k = Some p \<and> below Path p)"
    using handles_okD(2,3) [OF assms] by blast
  show ?thesis
  proof (cases "H_Long s k")
    case None
    then show ?thesis by (simp add: h_forget_def Let_def)
  next
    case (Some p)
    then have "k \<in> ?G \<longleftrightarrow> below Path p" using g e by simp
    then show ?thesis using Some by (simp add: h_forget_def Let_def)
  qed
qed

lemma forget_ok:
  assumes "handles_ok X S Root s"
  shows "handles_ok X S Root (h_forget Path s)"
proof (rule handles_okI)
  note v = handles_okD [OF assms] and l = forget_long [OF assms, of Path]
  have b: "(p, k) \<in> set (H_ByPath (h_forget Path s)) \<longleftrightarrow> (p, k) \<in> set (H_ByPath s) \<and> \<not> below Path p" for p k by (auto simp: h_forget_def Let_def)
  show "H_Anchor (h_forget Path s) \<in> {[], Root}" using v(1) by (simp add: h_forget_def Let_def)
  show "p \<in> S \<and> k = digestOf X p \<and> H_Long (h_forget Path s) k = Some p" if "(p, k) \<in> set (H_ByPath (h_forget Path s))" for p k
  proof -
    have p: "(p, k) \<in> set (H_ByPath s)" "\<not> below Path p" using that unfolding b by blast+
    then have "H_Long (h_forget Path s) k = Some p" using conjunct2 [OF conjunct2 [OF v(2) [OF p(1)]]] p(2) by (simp only: l [of k] option.case if_False)
    then show ?thesis using v(2) [OF p(1)] by blast
  qed
  show "(p, k) \<in> set (H_ByPath (h_forget Path s))" if "H_Long (h_forget Path s) k = Some p" for p k
  proof -
    have "H_Long s k = Some p \<and> \<not> below Path p" using that unfolding l by (simp split: option.splits if_splits)
    then show ?thesis using v(3) [of k p] unfolding b by blast
  qed
qed

lemma encode_ok:
  assumes "handles_ok X S Root s" and "inj_on (digestOf X) S" and "\<And>p. rests_on s Path = Some p \<Longrightarrow> p \<in> S"
  shows "handles_ok X S Root (snd (h_encode X Path s))"
proof -
  obtain H s1 where e: "h_encode X Path s = (H, s1)" by fastforce
  show ?thesis
  proof (rule encode_kinds [OF e])
    fix p
    assume "rests_on s Path = Some p" "s1 = h_remember (digestOf X p) p s"
    then show ?thesis using remember_ok(1) [OF assms(1,2)] assms(3) e by simp
  qed (use assms(1) e in simp_all)
qed

lemma handle_step_ok:
  assumes "handle_step X S Root Kept s s'" and "inj_on (digestOf X) S" and "handles_ok X S Root s"
  shows "handles_ok X S Root s'"
  using assms(1)
proof cases
  case pins
  have f: "H_Anchor s' = Root" "H_ByPath s' = H_ByPath s" "H_Long s' = H_Long s" using pins by (simp_all add: h_pin_def)
  show ?thesis unfolding handles_ok_def f using assms(3) unfolding handles_ok_def by blast
next
  case (encodes Path)
  then show ?thesis using encode_ok [OF assms(3,2)] by simp
next
  case (forgets Path)
  then show ?thesis using forget_ok [OF assms(3)] by simp
qed

interpretation handles: transition_system Handles_new "handle_step X S Root Kept" "\<lambda>s. inj_on (digestOf X) S \<longrightarrow> handles_ok X S Root s" for X S Root Kept
proof unfold_locales
  show "inj_on (digestOf X) S \<longrightarrow> handles_ok X S Root Handles_new" by (simp add: handles_ok_def Handles_new_def)
  show "inj_on (digestOf X) S \<longrightarrow> handles_ok X S Root t" if "inj_on (digestOf X) S \<longrightarrow> handles_ok X S Root s" "handle_step X S Root Kept s t" for s t
    using that handle_step_ok by blast
qed

text \<open>A table that keeps the entry of a handle, and does not move its root.\<close>

lemma handle_step_keeps:
  assumes "handle_step X S Root Kept s s'" and "inj_on (digestOf X) S" and "handles_ok X S Root s"
  shows "H_Anchor s = Root \<Longrightarrow> H_Anchor s' = Root" and "Kept = Some p \<Longrightarrow> p \<in> S \<Longrightarrow> H_Long s (digestOf X p) = Some p \<Longrightarrow> H_Long s' (digestOf X p) = Some p"
proof -
  have enc: "H_Anchor (snd (h_encode X Path s)) = H_Anchor s \<and>
      (\<forall>p \<in> S. H_Long s (digestOf X p) = Some p \<longrightarrow> H_Long (snd (h_encode X Path s)) (digestOf X p) = Some p)" if r: "\<And>p. rests_on s Path = Some p \<Longrightarrow> p \<in> S" for Path
  proof -
    obtain H s1 where e: "h_encode X Path s = (H, s1)" by fastforce
    show ?thesis
    proof (rule encode_kinds [OF e])
      fix q
      assume q: "rests_on s Path = Some q" "s1 = h_remember (digestOf X q) q s"
      have "p = q" if "p \<in> S" "digestOf X p = digestOf X q" for p using inj_onD [OF assms(2) that(2,1)] r [OF q(1)] by simp
      then show ?thesis using e q(2) by (auto simp: h_remember_def)
    qed (use e in simp_all)
  qed
  show "H_Anchor s' = Root" if "H_Anchor s = Root"
    using assms(1) by cases (use that enc in \<open>auto simp: h_pin_def h_forget_def Let_def\<close>)
  show "H_Long s' (digestOf X p) = Some p" if "Kept = Some p" "p \<in> S" "H_Long s (digestOf X p) = Some p"
    using assms(1) by cases (use that enc forget_long [OF assms(3)] in \<open>auto simp: h_pin_def\<close>)
qed

lemma handle_steps_keep:
  assumes "(handle_step X S Root Kept)\<^sup>*\<^sup>* s s'" and "inj_on (digestOf X) S" and "handles_ok X S Root s"
  shows "handles_ok X S Root s' \<and> (H_Anchor s = Root \<longrightarrow> H_Anchor s' = Root) \<and>
    (\<forall>p. Kept = Some p \<longrightarrow> p \<in> S \<longrightarrow> H_Long s (digestOf X p) = Some p \<longrightarrow> H_Long s' (digestOf X p) = Some p)"
  using assms(1)
proof (induction rule: rtranclp_induct)
  case base
  then show ?case using assms(3) by simp
next
  case (step t u)
  then have t: "handles_ok X S Root t" by blast
  show ?case using step.IH handle_step_ok [OF step.hyps(2) assms(2) t] handle_step_keeps [OF step.hyps(2) assms(2) t] by blast
qed

text \<open>
  C18. A handle of the export stays good while its name means what it did. Whatever handles were made and
  forgotten before, a handle decodes to the path it was made for, at once and after any further
  handles and forgotten names, as long as the directory or path it rests on is not among or below the
  forgotten ones and no two remembered paths share a digest.
\<close>

theorem handles_live:
  assumes "inj_on (digestOf X) S" and "Root \<noteq> []" and "(handle_step X S Root None)\<^sup>*\<^sup>* Handles_new s" and "\<forall>p. rests_on s Path = Some p \<longrightarrow> p \<in> S"
    and "h_encode X Path s = (H, s1)" and "(handle_step X S Root (rests_on s Path))\<^sup>*\<^sup>* s1 s2"
  shows "h_decode H s2 = Some Path"
proof -
  have s: "handles_ok X S Root s" using handles.reachable_inv [of X S Root None s] assms(1,3) by (simp add: handles.reachable_def)
  have s1: "handles_ok X S Root s1" using encode_ok [OF s assms(1), of Path] assms(4,5) by simp
  note k = handle_steps_keep [OF assms(6,1) s1]
  show ?thesis
  proof (rule encode_kinds [OF assms(5)])
    assume "H_Anchor s \<noteq> []" "Path = H_Anchor s" "s1 = s" "\<And>t. h_decode H t = (if H_Anchor t = [] then None else Some (H_Anchor t))"
    then show ?thesis using k handles_okD(1) [OF s] assms(2) by auto
  next
    fix p
    assume p: "rests_on s Path = Some p" "s1 = h_remember (digestOf X p) p s" "\<And>t. h_decode H t = (if H_Long t (digestOf X p) = Some p then Some Path else h_decode H t)"
    then have "H_Long s2 (digestOf X p) = Some p" using k remember_ok(2) [OF s assms(1)] assms(4) by auto
    then show ?thesis using p(3) [of s2] by simp
  qed simp
qed

text \<open>A path too long to be in its handle: its directory is remembered, and another name is forgotten.\<close>

theorem handles_live_witness:
  "h_decode (fst (h_encode counting_xx (replicate 50 CHR ''d'' @ ''/file.data'') Handles_new))
     (h_forget ''other'' (snd (h_encode counting_xx (replicate 50 CHR ''d'' @ ''/file.data'') Handles_new))) = Some (replicate 50 CHR ''d'' @ ''/file.data'')"
proof -
  let ?d = "replicate 50 CHR ''d''" and ?q = "replicate 50 CHR ''d'' @ ''/file.data''"
  let ?e = "h_encode counting_xx ?q Handles_new"
  have r: "rests_on Handles_new ?q = Some ?d" by code_simp
  have b: "\<not> below ''other'' ?d" by code_simp
  have "handle_step counting_xx {?d} ''.'' (rests_on Handles_new ?q) (snd ?e) (h_forget ''other'' (snd ?e))" unfolding r by (rule forgets) (use b in simp)
  note st = r_into_rtranclp [of "handle_step counting_xx {?d} ''.'' (rests_on Handles_new ?q)", OF this]
  then show ?thesis using handles_live [of counting_xx "{?d}" "''.''" Handles_new ?q "fst ?e" "snd ?e" "h_forget ''other'' (snd ?e)"] r by simp
qed

text \<open>Forgetting a name, or one above it, makes the handles that rest on it stale.\<close>

theorem handles_forgotten:
  assumes "inj_on (digestOf X) S" and "(handle_step X S Root None)\<^sup>*\<^sup>* Handles_new s2" and "h_encode X Path s = (H, s1)" and "rests_on s Path = Some p" and "p \<in> S"
    and "below Gone p"
  shows "h_decode H (h_forget Gone s2) = None"
proof -
  have s: "handles_ok X S Root s2" using handles.reachable_inv [of X S Root None s2] assms(1,2) by (simp add: handles.reachable_def)
  have "q = p" if "H_Long s2 (digestOf X p) = Some q" for q
    using handles_okD(2,3) [OF s] that inj_onD [OF assms(1), of p q] assms(5) by metis
  then have "H_Long (h_forget Gone s2) (digestOf X p) = None" using forget_long [OF s, of Gone] assms(6) by (auto split: option.split)
  then show ?thesis using assms(4) by (cases rule: encode_kinds [OF assms(3)]) auto
qed

end
