(* ===== verification/NfsServer.thy ===== *)
theory NfsServer
  imports NfsHandles Rpc Message "HOL-Library.List_Lexorder"
begin

text \<open>
  \<^verbatim>\<open>src/nfs/server.cc\<close>, \<^verbatim>\<open>class Session\<close>: one connection of the NFS export. A handler takes the arguments
  of a call and the session, and returns the reply and the session; the calls are answered one at a
  time. The sessions to the daemon that a handler borrows from the pool (\<^verbatim>\<open>vfs::Remotes\<close>) are the
  record \<open>peer\<close> of the operations it calls on them, over a state of their own. The theorems show
  that nothing outside the export is ever asked of the daemon, and that every session borrowed is
  given back.
\<close>

section \<open>What the session works with\<close>

definition kOk :: u32 where "kOk = 0"
definition kErrNoEnt :: u32 where "kErrNoEnt = 2"
definition kErrIo :: u32 where "kErrIo = 5"
definition kErrExist :: u32 where "kErrExist = 17"
definition kErrNotDir :: u32 where "kErrNotDir = 20"
definition kErrInval :: u32 where "kErrInval = 22"
definition kErrRoFs :: u32 where "kErrRoFs = 30"
definition kErrNameTooLong :: u32 where "kErrNameTooLong = 63"
definition kErrStale :: u32 where "kErrStale = 70"
definition kErrNotSupp :: u32 where "kErrNotSupp = 10004"
definition kUnstable :: u32 where "kUnstable = 0"
definition kTypeRegular :: u32 where "kTypeRegular = 1"
definition kTypeDirectory :: u32 where "kTypeDirectory = 2"
definition kNameLimit :: nat where "kNameLimit = 255"
definition kPathLimit :: nat where "kPathLimit = 4096"
definition kReadLimit :: nat where "kReadLimit = 1048576"
definition kWriteLimit :: nat where "kWriteLimit = 1048576"
definition kDirentSlack :: nat where "kDirentSlack = 128"
definition kFsId :: u64 where "kFsId = 0x1b53"
definition kOnDirectory :: u32 where "kOnDirectory = 0x1f"
definition kOnFile :: u32 where "kOnFile = 0x2d"
definition kNfsProgram :: u32 where "kNfsProgram = 100003"
definition kMountProgram :: u32 where "kMountProgram = 100005"

lemmas nfs_consts = kOk_def kErrNoEnt_def kErrIo_def kErrExist_def kErrNotDir_def kErrInval_def kErrRoFs_def kErrNameTooLong_def kErrStale_def
  kErrNotSupp_def kUnstable_def kTypeRegular_def kTypeDirectory_def kNameLimit_def kPathLimit_def kReadLimit_def kWriteLimit_def
  kDirentSlack_def kFsId_def kOnDirectory_def kOnFile_def kNfsProgram_def kMountProgram_def

text \<open>\<^verbatim>\<open>ExportOptions\<close>, with the identity of the process that runs the gateway.\<close>

record export_opts =
  O_Root :: string
  O_Readahead :: nat
  O_Uid :: u32
  O_Gid :: u32

text \<open>
  The pool and the client it lends. A read is of at most the bytes asked for, and gives how many
  came, the size of the file and the bytes.
\<close>

record 'p peer =
  P_warm :: "'p \<Rightarrow> unit Result \<times> 'p"
  P_take :: "'p \<Rightarrow> unit Result \<times> 'p"
  P_give :: "'p \<Rightarrow> 'p"
  P_alive :: "'p \<Rightarrow> bool"
  P_discard :: "'p \<Rightarrow> 'p"
  P_maxTransfer :: "'p \<Rightarrow> nat"
  P_stat :: "string \<Rightarrow> 'p \<Rightarrow> StatReply Result \<times> 'p"
  P_list :: "string \<Rightarrow> 'p \<Rightarrow> ListReply Result \<times> 'p"
  P_statFs :: "string \<Rightarrow> 'p \<Rightarrow> StatFsReply Result \<times> 'p"
  P_createFile :: "string \<Rightarrow> u32 \<Rightarrow> bool \<Rightarrow> 'p \<Rightarrow> FileAttrs Result \<times> 'p"
  P_makeDirectory :: "string \<Rightarrow> u32 \<Rightarrow> 'p \<Rightarrow> FileAttrs Result \<times> 'p"
  P_removeFile :: "string \<Rightarrow> 'p \<Rightarrow> unit Result \<times> 'p"
  P_removeDirectory :: "string \<Rightarrow> 'p \<Rightarrow> unit Result \<times> 'p"
  P_makeLink :: "string \<Rightarrow> string \<Rightarrow> 'p \<Rightarrow> FileAttrs Result \<times> 'p"
  P_readLink :: "string \<Rightarrow> 'p \<Rightarrow> string Result \<times> 'p"
  P_hardLink :: "string \<Rightarrow> string \<Rightarrow> 'p \<Rightarrow> FileAttrs Result \<times> 'p"
  P_rename :: "string \<Rightarrow> string \<Rightarrow> 'p \<Rightarrow> unit Result \<times> 'p"
  P_truncate :: "string \<Rightarrow> u64 \<Rightarrow> 'p \<Rightarrow> FileAttrs Result \<times> 'p"
  P_setMode :: "string \<Rightarrow> u32 \<Rightarrow> 'p \<Rightarrow> FileAttrs Result \<times> 'p"
  P_fsync :: "string \<Rightarrow> 'p \<Rightarrow> unit Result \<times> 'p"
  P_read :: "string \<Rightarrow> u64 \<Rightarrow> nat \<Rightarrow> 'p \<Rightarrow> (nat \<times> u64 \<times> byte list) Result \<times> 'p"
  P_write :: "string \<Rightarrow> u64 \<Rightarrow> byte list \<Rightarrow> 'p \<Rightarrow> unit Result \<times> 'p"

text \<open>
  A buffer is the window it has (\<^verbatim>\<open>vfs::Window\<close>): \<open>B_Data\<close> are its valid bytes. A file being read has a
  buffer that is served from and one that is filled.
\<close>

record Buffer =
  B_Path :: string
  B_Start :: u64
  B_FileSize :: u64
  B_Data :: "byte list"

record Cached =
  C_Path :: string
  C_End :: u64
  C_Used :: u64
  C_Users :: nat
  C_Front :: Buffer
  C_Back :: Buffer

record SortedListing =
  L_Path :: string
  L_Entries :: "ListEntry list"
  L_Self :: FileAttrs
  L_Parent :: FileAttrs

record 'p session =
  S_Known :: Handles
  S_Listing :: SortedListing
  S_Warmed :: bool
  S_Verifier :: "byte list"
  S_Windows :: "Cached list"
  S_Ticks :: u64
  S_Complained :: bool
  S_Served :: u64
  S_Fetched :: u64
  S_Peer :: 'p

type_synonym reply = "AcceptStatus \<times> XdrPayload"
type_synonym 'p handler = "'p session \<Rightarrow> reply \<times> 'p session"

section \<open>Replies\<close>

definition no_payload :: XdrPayload where
  "no_payload = payload_of [] [] 0"

definition Success :: AcceptStatus where "Success = 0"
definition ProgramUnavailable :: AcceptStatus where "ProgramUnavailable = 1"
definition ProgramMismatch :: AcceptStatus where "ProgramMismatch = 2"
definition ProcedureUnavailable :: AcceptStatus where "ProcedureUnavailable = 3"
definition GarbageArguments :: AcceptStatus where "GarbageArguments = 4"

lemmas accept_consts = Success_def ProgramUnavailable_def ProgramMismatch_def ProcedureUnavailable_def GarbageArguments_def

text \<open>What a writer holds after its calls, in the order they are made.\<close>

definition written :: "(XdrWriter \<Rightarrow> XdrWriter) list \<Rightarrow> XdrWriter" where
  "written Ws = fold (\<lambda>f W. f W) Ws XdrWriter_new"

definition reply :: "(XdrWriter \<Rightarrow> XdrWriter) list \<Rightarrow> reply" where
  "reply Ws = (Success, x_payload (written Ws))"

definition replyStatus :: "u32 \<Rightarrow> nat \<Rightarrow> reply" where
  "replyStatus Status Fields = reply (x_u32 Status # replicate Fields (x_boolean False))"

definition complain :: "'p session \<Rightarrow> 'p session" where
  "complain s = s\<lparr>S_Complained := True\<rparr>"

definition replyBroken :: "nat \<Rightarrow> 'p handler" where
  "replyBroken Fields s = (replyStatus kErrIo Fields, complain s)"

definition drop_dead :: "'p peer \<Rightarrow> 'p session \<Rightarrow> 'p session" where
  "drop_dead P s = (if \<not> P_alive P (S_Peer s) then s\<lparr>S_Peer := P_discard P (S_Peer s)\<rparr> else s)"

definition replyBroken_held :: "'p peer \<Rightarrow> nat \<Rightarrow> 'p handler" where
  "replyBroken_held P Fields s = replyBroken Fields (drop_dead P s)"

text \<open>
  The shapes the handlers share: the arguments are read first; a session is borrowed, and given back
  when the handler ends; a question to the daemon that fails ends the handler.
\<close>

definition with_args :: "(XdrReader, 'a) state \<Rightarrow> byte list \<Rightarrow> ('a \<Rightarrow> 'p handler) \<Rightarrow> 'p handler" where
  "with_args Read Args k s =
     (let (v, R) = run_state Read (XdrReader_open Args) in if \<not> XR_Ok R then ((GarbageArguments, no_payload), s) else k v s)"

definition on_peer :: "('p \<Rightarrow> 'a Result \<times> 'p) \<Rightarrow> 'p session \<Rightarrow> 'a Result \<times> 'p session" where
  "on_peer op s = (let (r, p) = op (S_Peer s) in (r, s\<lparr>S_Peer := p\<rparr>))"

definition lend :: "'p peer \<Rightarrow> (Error \<Rightarrow> 'p session \<Rightarrow> 'a \<times> 'p session) \<Rightarrow> ('p session \<Rightarrow> 'a \<times> 'p session) \<Rightarrow> 'p session \<Rightarrow> 'a \<times> 'p session" where
  "lend P broken k s =
     (case on_peer (P_take P) s of
        (Inl e, s) \<Rightarrow> broken e s
      | (Inr _, s) \<Rightarrow> let (r, s) = k s in (r, s\<lparr>S_Peer := P_give P (S_Peer s)\<rparr>))"

definition held :: "'p peer \<Rightarrow> nat \<Rightarrow> 'p handler \<Rightarrow> 'p handler" where
  "held P Fields k = lend P (\<lambda>_. replyBroken Fields) k"

definition asks :: "'p peer \<Rightarrow> nat \<Rightarrow> ('p \<Rightarrow> 'a Result \<times> 'p) \<Rightarrow> ('a \<Rightarrow> 'p handler) \<Rightarrow> 'p handler" where
  "asks P Fields op k s = (case on_peer op s of (Inl e, s) \<Rightarrow> replyBroken_held P Fields s | (Inr v, s) \<Rightarrow> k v s)"

section \<open>Attributes\<close>

definition vfs_fileIdOf :: "FileAttrs \<Rightarrow> u64" where
  "vfs_fileIdOf A =
     (let Id = FileAttrs_Ino A XOR (FileAttrs_Dev A * 0x9E3779B97F4A7C15);
          Id = Id XOR drop_bit 33 Id;
          Id = Id * 0xFF51AFD7ED558CCD;
          Id = Id XOR drop_bit 33 Id
      in if Id \<noteq> 0 then Id else 1)"

definition fileIdOf :: "'h xxlib \<Rightarrow> FileAttrs \<Rightarrow> string \<Rightarrow> u64" where
  "fileIdOf X A Path =
     (if FileAttrs_Ino A \<noteq> 0 then vfs_fileIdOf A
      else let Id = foldl (\<lambda>Id B. push_bit 8 Id OR ucast B) 0 (take 8 (digestOf X Path)) in if Id \<noteq> 0 then Id else 1)"

definition writeAttrs :: "'h xxlib \<Rightarrow> export_opts \<Rightarrow> FileAttrs \<Rightarrow> string \<Rightarrow> XdrWriter \<Rightarrow> XdrWriter" where
  "writeAttrs X Opts A Path W =
     fold (\<lambda>f W. f W)
       ([x_u32 (if FileAttrs_Directory A then kTypeDirectory else kTypeRegular), x_u32 (FileAttrs_Mode A), x_u32 (if FileAttrs_Directory A then 2 else 1),
         x_u32 (O_Uid Opts), x_u32 (O_Gid Opts), x_u64 (FileAttrs_Size A), x_u64 ((FileAttrs_Size A + 4095) AND NOT 4095), x_u32 0, x_u32 0, x_u64 kFsId,
         x_u64 (fileIdOf X A Path)] @ concat (replicate 3 [x_u32 (ucast (FileAttrs_Mtime A)), x_u32 0])) W"

definition writePostAttrs :: "'h xxlib \<Rightarrow> export_opts \<Rightarrow> FileAttrs \<Rightarrow> string \<Rightarrow> XdrWriter \<Rightarrow> XdrWriter" where
  "writePostAttrs X Opts A Path W = writeAttrs X Opts A Path (x_boolean True W)"

definition writeNoAttrs :: "XdrWriter \<Rightarrow> XdrWriter" where
  "writeNoAttrs = x_boolean False"

definition writeNoWcc :: "XdrWriter \<Rightarrow> XdrWriter" where
  "writeNoWcc W = x_boolean False (x_boolean False W)"

text \<open>\<^verbatim>\<open>struct Wanted\<close>: the size and the mode, each where it was given.\<close>

record Wanted =
  Wanted_Size :: "u64 option"
  Wanted_Mode :: "u32 option"

definition x_r_optional :: "(XdrReader, 'a) state \<Rightarrow> (XdrReader, 'a option) state" where
  "x_r_optional Read = do { b \<leftarrow> x_r_boolean; if b then do { v \<leftarrow> Read; State_Monad.return (Some v) } else State_Monad.return None }"

definition x_r_settime :: "(XdrReader, unit) state" where
  "x_r_settime = do { How \<leftarrow> x_r_u32; if How = 2 then do { _ \<leftarrow> x_r_u32; _ \<leftarrow> x_r_u32; State_Monad.return () } else State_Monad.return () }"

definition readWanted :: "(XdrReader, Wanted) state" where
  "readWanted = do {
     Mode \<leftarrow> x_r_optional x_r_u32;
     _ \<leftarrow> x_r_optional x_r_u32;
     _ \<leftarrow> x_r_optional x_r_u32;
     Size \<leftarrow> x_r_optional x_r_u64;
     _ \<leftarrow> x_r_settime;
     _ \<leftarrow> x_r_settime;
     State_Monad.return \<lparr>Wanted_Size = Size, Wanted_Mode = Mode\<rparr> }"

definition pathOf :: "export_opts \<Rightarrow> Handles \<Rightarrow> (XdrReader, string option) state" where
  "pathOf Opts Known = do {
     Raw \<leftarrow> x_r_opaque kHandleSize;
     R \<leftarrow> State_Monad.get;
     State_Monad.return (if \<not> XR_Ok R then None
       else case h_decode Raw Known of None \<Rightarrow> None | Some Path \<Rightarrow> if \<not> insideExport Path (O_Root Opts) then None else Some Path) }"

section \<open>Read windows\<close>

definition covers :: "Buffer \<Rightarrow> string \<Rightarrow> u64 \<Rightarrow> u64 \<Rightarrow> bool" where
  "covers B Want Offset Length \<longleftrightarrow>
     B_Data B \<noteq> [] \<and> B_Path B = Want \<and> B_Start B \<le> Offset \<and> Offset + Length \<le> B_Start B + of_nat (length (B_Data B))"

definition buffer_forget :: "Buffer \<Rightarrow> Buffer" where
  "buffer_forget B = B\<lparr>B_Data := [], B_Path := []\<rparr>"

definition cached_forget :: "Cached \<Rightarrow> Cached" where
  "cached_forget C = C\<lparr>C_Front := buffer_forget (C_Front C), C_Back := buffer_forget (C_Back C)\<rparr>"

definition session_forget :: "string \<Rightarrow> 'p session \<Rightarrow> 'p session" where
  "session_forget Path s = s\<lparr>S_Windows := map (\<lambda>W. if C_Path W \<noteq> Path then W else cached_forget (W\<lparr>C_End := 0\<rparr>)) (S_Windows s)\<rparr>"

definition knows_forget :: "string \<Rightarrow> 'p session \<Rightarrow> 'p session" where
  "knows_forget Path s = s\<lparr>S_Known := h_forget Path (S_Known s)\<rparr>"

text \<open>The scan of \<^verbatim>\<open>windowFor\<close>: the file's own window, or else the coldest one that nobody uses.\<close>

fun window_scan :: "string \<Rightarrow> nat \<Rightarrow> (nat \<times> u64) option \<Rightarrow> Cached list \<Rightarrow> nat + nat option" where
  "window_scan Path i Cold [] = Inr (map_option fst Cold)"
| "window_scan Path i Cold (W # Ws) =
     (if C_Path W = Path then Inl i
      else if C_Users W > 0 then window_scan Path (i + 1) Cold Ws
      else window_scan Path (i + 1) (case Cold of None \<Rightarrow> Some (i, C_Used W) | Some (_, u) \<Rightarrow> if C_Used W < u then Some (i, C_Used W) else Cold) Ws)"

definition at_window :: "nat \<Rightarrow> (Cached \<Rightarrow> Cached) \<Rightarrow> 'p session \<Rightarrow> 'p session" where
  "at_window i f s = s\<lparr>S_Windows := (S_Windows s)[i := f (S_Windows s ! i)]\<rparr>"

definition windowFor :: "string \<Rightarrow> 'p session \<Rightarrow> nat option \<times> 'p session" where
  "windowFor Path s =
     (case window_scan Path 0 None (S_Windows s) of
        Inl i \<Rightarrow> (Some i, at_window i (\<lambda>W. W\<lparr>C_Used := S_Ticks s + 1\<rparr>) (s\<lparr>S_Ticks := S_Ticks s + 1\<rparr>))
      | Inr None \<Rightarrow> (None, s)
      | Inr (Some i) \<Rightarrow>
          (Some i, at_window i (\<lambda>W. cached_forget (W\<lparr>C_Path := Path, C_End := 0, C_Used := S_Ticks s + 1\<rparr>)) (s\<lparr>S_Ticks := S_Ticks s + 1\<rparr>)))"

text \<open>
  \<^verbatim>\<open>fillWindow\<close> up to its read, and from the answer on. \<open>Room\<close> is what one call carries.
\<close>

definition fill_room :: "export_opts \<Rightarrow> 'p peer \<Rightarrow> 'p session \<Rightarrow> u64" where
  "fill_room Opts P s = of_nat (min (O_Readahead Opts) (P_maxTransfer P (S_Peer s)))"

definition fill_start :: "u64 \<Rightarrow> u64 \<Rightarrow> u64" where
  "fill_start Room Offset = (if Room > 0 then (Offset div Room) * Room else Offset)"

definition fill_end :: "nat \<Rightarrow> string \<Rightarrow> u64 \<Rightarrow> nat \<times> u64 \<times> byte list \<Rightarrow> 'p session \<Rightarrow> 'p session" where
  "fill_end i Path Start = (\<lambda>(Bytes, FileSize, Data) s.
     at_window i
       (\<lambda>W. W\<lparr>C_Front := \<lparr>B_Path = Path, B_Start = Start, B_FileSize = FileSize, B_Data = take Bytes Data\<rparr>, C_Back := C_Front W\<rparr>)
       (s\<lparr>S_Fetched := S_Fetched s + of_nat Bytes\<rparr>))"

definition fillWindow :: "export_opts \<Rightarrow> 'p peer \<Rightarrow> nat \<Rightarrow> string \<Rightarrow> u64 \<Rightarrow> 'p session \<Rightarrow> unit Result \<times> 'p session" where
  "fillWindow Opts P i Path Offset =
     lend P (\<lambda>e s. (Inl e, s))
       (\<lambda>s. let Room = fill_room Opts P s;
                Start = fill_start Room Offset;
                s = at_window i (\<lambda>W. W\<lparr>C_Back := buffer_forget (C_Back W)\<rparr>) s
            in case on_peer (P_read P Path Start (unat Room)) s of
                 (Inl e, s) \<Rightarrow> (Inl e, drop_dead P s)
               | (Inr Got, s) \<Rightarrow> (Inr (), fill_end i Path Start Got s))"

section \<open>Handlers\<close>

datatype Proc = Proc_Null | Proc_GetAttr | Proc_SetAttr | Proc_Lookup | Proc_Access | Proc_ReadLink | Proc_Read | Proc_Write | Proc_Create | Proc_MakeDirectory | Proc_Symlink | Proc_MakeNode | Proc_Remove
  | Proc_RemoveDirectory | Proc_Rename | Proc_Link | Proc_ReadDir | Proc_ReadDirPlus | Proc_FsStat | Proc_FsInfo | Proc_PathConf | Proc_Commit

definition Procs :: "Proc list" where
  "Procs = [Proc_Null, Proc_GetAttr, Proc_SetAttr, Proc_Lookup, Proc_Access, Proc_ReadLink, Proc_Read, Proc_Write, Proc_Create, Proc_MakeDirectory, Proc_Symlink, Proc_MakeNode, Proc_Remove, Proc_RemoveDirectory,
     Proc_Rename, Proc_Link, Proc_ReadDir, Proc_ReadDirPlus, Proc_FsStat, Proc_FsInfo, Proc_PathConf, Proc_Commit]"

datatype MountProc = Mount_Null | Mnt | Dump | Umnt | UmntAll | Export

definition MountProcs :: "MountProc list" where
  "MountProcs = [Mount_Null, Mnt, Dump, Umnt, UmntAll, Export]"

text \<open>The cast of a number to an enumeration, and the switch on it.\<close>

definition as_enum :: "'a list \<Rightarrow> u32 \<Rightarrow> 'a option" where
  "as_enum es n = (if unat n < length es then Some (es ! unat n) else None)"

definition failureFields :: "Proc \<Rightarrow> nat" where
  "failureFields Procedure = (case Procedure of Proc_Rename \<Rightarrow> 4 | Proc_Link \<Rightarrow> 3 | _ \<Rightarrow> 2)"

definition readCeiling :: "'p peer \<Rightarrow> 'p session \<Rightarrow> nat" where
  "readCeiling P s = min kReadLimit (P_maxTransfer P (S_Peer s))"

definition orAsk :: "'p peer \<Rightarrow> string \<Rightarrow> FileAttrs \<Rightarrow> 'p \<Rightarrow> FileAttrs Result \<times> 'p" where
  "orAsk P Path Made p =
     (if FileAttrs_Ino Made \<noteq> 0 then (Inr Made, p)
      else case P_stat P Path p of
             (Inl e, p) \<Rightarrow> (Inl e, p)
           | (Inr Seen, p) \<Rightarrow> (if \<not> StatReply_Found Seen then failMessage ''the peer lost a name it had just made'' else Inr (StatReply_Attrs Seen), p))"

definition encode :: "'h xxlib \<Rightarrow> string \<Rightarrow> 'p session \<Rightarrow> byte list \<times> 'p session" where
  "encode X Path s = (let (H, Known) = h_encode X Path (S_Known s) in (H, s\<lparr>S_Known := Known\<rparr>))"

definition onGetAttr :: "'h xxlib \<Rightarrow> export_opts \<Rightarrow> 'p peer \<Rightarrow> byte list \<Rightarrow> 'p handler" where
  "onGetAttr X Opts P Args s = with_args (pathOf Opts (S_Known s)) Args (\<lambda>Path s. case Path of
       None \<Rightarrow> (replyStatus kErrStale 0, s)
     | Some Path \<Rightarrow> held P 0 (asks P 0 (P_stat P Path) (\<lambda>Info s.
         if \<not> StatReply_Found Info then (replyStatus kErrNoEnt 0, s)
         else (reply [x_u32 kOk, writeAttrs X Opts (StatReply_Attrs Info) Path], s))) s) s"

definition onLookup :: "'h xxlib \<Rightarrow> export_opts \<Rightarrow> 'p peer \<Rightarrow> byte list \<Rightarrow> 'p handler" where
  "onLookup X Opts P Args s = with_args (do { d \<leftarrow> pathOf Opts (S_Known s); n \<leftarrow> x_r_text kPathLimit; State_Monad.return (d, n) }) Args (\<lambda>(Directory, Name) s. case Directory of
       None \<Rightarrow> (replyStatus kErrStale 1, s)
     | Some Directory \<Rightarrow>
         if length Name > kNameLimit then (replyStatus kErrNameTooLong 1, s)
         else if Name \<noteq> ''.'' \<and> Name \<noteq> ''..'' \<and> \<not> namedSafely Name then (replyStatus kErrNoEnt 1, s)
         else let Target = (if Name = ''.'' then Directory else if Name = ''..'' then parentPath Directory (O_Root Opts) else joinPath Directory Name)
         in held P 1 (asks P 1 (P_stat P Target) (\<lambda>Info s.
              if \<not> StatReply_Found Info then (replyStatus kErrNoEnt 1, s)
              else let (H, s) = encode X Target s
                   in (reply [x_u32 kOk, x_opaque H, writePostAttrs X Opts (StatReply_Attrs Info) Target, writeNoAttrs], s))) s) s"

definition onAccess :: "'h xxlib \<Rightarrow> export_opts \<Rightarrow> 'p peer \<Rightarrow> byte list \<Rightarrow> 'p handler" where
  "onAccess X Opts P Args s = with_args (do { d \<leftarrow> pathOf Opts (S_Known s); w \<leftarrow> x_r_u32; State_Monad.return (d, w) }) Args (\<lambda>(Path, Wanted) s. case Path of
       None \<Rightarrow> (replyStatus kErrStale 1, s)
     | Some Path \<Rightarrow> held P 1 (asks P 1 (P_stat P Path) (\<lambda>Info s.
         if \<not> StatReply_Found Info then (replyStatus kErrNoEnt 1, s)
         else let Allowed = (if FileAttrs_Directory (StatReply_Attrs Info) then kOnDirectory else kOnFile)
              in (reply [x_u32 kOk, writePostAttrs X Opts (StatReply_Attrs Info) Path, x_u32 (Wanted AND Allowed)], s))) s) s"

text \<open>The end of the handlers that make a name: its windows go, and its handle and attributes are the answer.\<close>

definition made :: "'h xxlib \<Rightarrow> export_opts \<Rightarrow> 'p peer \<Rightarrow> nat \<Rightarrow> string \<Rightarrow> FileAttrs \<Rightarrow> 'p handler" where
  "made X Opts P Fields Target Made s =
     asks P Fields (orAsk P Target Made) (\<lambda>Info s.
       let (H, s) = encode X Target s in (reply [x_u32 kOk, x_boolean True, x_opaque H, writePostAttrs X Opts Info Target, writeNoWcc], s))
       (session_forget Target s)"

definition onMakeDirectory :: "'h xxlib \<Rightarrow> export_opts \<Rightarrow> 'p peer \<Rightarrow> byte list \<Rightarrow> 'p handler" where
  "onMakeDirectory X Opts P Args s = (let F = failureFields Proc_MakeDirectory in
     with_args (do { d \<leftarrow> pathOf Opts (S_Known s); n \<leftarrow> x_r_text kPathLimit; a \<leftarrow> readWanted; State_Monad.return (d, n, a) }) Args (\<lambda>(Directory, Name, Ask) s. case Directory of
       None \<Rightarrow> (replyStatus kErrStale F, s)
     | Some Directory \<Rightarrow>
         if length Name > kNameLimit then (replyStatus kErrNameTooLong F, s)
         else if \<not> namedSafely Name then (replyStatus kErrInval F, s)
         else let Target = joinPath Directory Name
         in held P F (asks P F (P_stat P Target) (\<lambda>Seen.
              if StatReply_Found Seen then (\<lambda>s. (replyStatus kErrExist F, s))
              else asks P F (P_makeDirectory P Target (case Wanted_Mode Ask of Some Mode \<Rightarrow> Mode | None \<Rightarrow> 493)) (\<lambda>Made. made X Opts P F Target Made))) s) s)"

definition onRemoveDirectory :: "export_opts \<Rightarrow> 'p peer \<Rightarrow> byte list \<Rightarrow> 'p handler" where
  "onRemoveDirectory Opts P Args s = (let F = failureFields Proc_RemoveDirectory in
     with_args (do { d \<leftarrow> pathOf Opts (S_Known s); n \<leftarrow> x_r_text kPathLimit; State_Monad.return (d, n) }) Args (\<lambda>(Directory, Name) s. case Directory of
       None \<Rightarrow> (replyStatus kErrStale F, s)
     | Some Directory \<Rightarrow>
         if \<not> namedSafely Name then (replyStatus kErrNoEnt F, s)
         else let Target = joinPath Directory Name
         in held P F (asks P F (P_removeDirectory P Target) (\<lambda>_ s. (reply [x_u32 kOk, writeNoWcc], session_forget Target (knows_forget Target s)))) s) s)"

definition onRemove :: "export_opts \<Rightarrow> 'p peer \<Rightarrow> byte list \<Rightarrow> 'p handler" where
  "onRemove Opts P Args s = (let F = failureFields Proc_Remove in
     with_args (do { d \<leftarrow> pathOf Opts (S_Known s); n \<leftarrow> x_r_text kPathLimit; State_Monad.return (d, n) }) Args (\<lambda>(Directory, Name) s. case Directory of
       None \<Rightarrow> (replyStatus kErrStale F, s)
     | Some Directory \<Rightarrow>
         if \<not> namedSafely Name then (replyStatus kErrNoEnt F, s)
         else let Target = joinPath Directory Name
         in held P F (asks P F (P_removeFile P Target) (\<lambda>_ s. (reply [x_u32 kOk, writeNoWcc], session_forget Target (knows_forget Target s)))) s) s)"

definition onRename :: "export_opts \<Rightarrow> 'p peer \<Rightarrow> byte list \<Rightarrow> 'p handler" where
  "onRename Opts P Args s = (let F = failureFields Proc_Rename in
     with_args (do { fd \<leftarrow> pathOf Opts (S_Known s); fn \<leftarrow> x_r_text kPathLimit; td \<leftarrow> pathOf Opts (S_Known s); tn \<leftarrow> x_r_text kPathLimit; State_Monad.return (fd, fn, td, tn) }) Args
     (\<lambda>(FromDir, FromName, ToDir, ToName) s. case (FromDir, ToDir) of
       (Some FromDir, Some ToDir) \<Rightarrow>
         if \<not> namedSafely FromName \<or> \<not> namedSafely ToName then (replyStatus kErrInval F, s)
         else let From = joinPath FromDir FromName; To = joinPath ToDir ToName
         in held P F (asks P F (P_rename P From To) (\<lambda>_ s.
              (reply [x_u32 kOk, writeNoWcc, writeNoWcc],
               if From \<noteq> To then session_forget To (session_forget From (knows_forget To (knows_forget From s))) else s))) s
     | _ \<Rightarrow> (replyStatus kErrStale F, s)) s)"

definition onSymlink :: "'h xxlib \<Rightarrow> export_opts \<Rightarrow> 'p peer \<Rightarrow> byte list \<Rightarrow> 'p handler" where
  "onSymlink X Opts P Args s = (let F = failureFields Proc_Symlink in
     with_args (do { d \<leftarrow> pathOf Opts (S_Known s); n \<leftarrow> x_r_text kPathLimit; _ \<leftarrow> readWanted; p \<leftarrow> x_r_text kPathLimit; State_Monad.return (d, n, p) }) Args (\<lambda>(Directory, Name, Points) s. case Directory of
       None \<Rightarrow> (replyStatus kErrStale F, s)
     | Some Directory \<Rightarrow>
         if length Name > kNameLimit then (replyStatus kErrNameTooLong F, s)
         else if \<not> namedSafely Name then (replyStatus kErrInval F, s)
         else let Target = joinPath Directory Name
         in held P F (asks P F (P_makeLink P Target Points) (\<lambda>Made. made X Opts P F Target Made)) s) s)"

definition onLink :: "'h xxlib \<Rightarrow> export_opts \<Rightarrow> 'p peer \<Rightarrow> byte list \<Rightarrow> 'p handler" where
  "onLink X Opts P Args s = (let F = failureFields Proc_Link in
     with_args (do { e \<leftarrow> pathOf Opts (S_Known s); d \<leftarrow> pathOf Opts (S_Known s); n \<leftarrow> x_r_text kPathLimit; State_Monad.return (e, d, n) }) Args (\<lambda>(Existing, Directory, Name) s. case (Existing, Directory) of
       (Some Existing, Some Directory) \<Rightarrow>
         if length Name > kNameLimit then (replyStatus kErrNameTooLong F, s)
         else if \<not> namedSafely Name then (replyStatus kErrInval F, s)
         else let Target = joinPath Directory Name
         in held P F (asks P F (P_hardLink P Existing Target) (\<lambda>Made s.
              asks P F (orAsk P Existing Made) (\<lambda>Info s. (reply [x_u32 kOk, writePostAttrs X Opts Info Existing, writeNoWcc], s)) (session_forget Target s))) s
     | _ \<Rightarrow> (replyStatus kErrStale F, s)) s)"

definition onReadLink :: "export_opts \<Rightarrow> 'p peer \<Rightarrow> byte list \<Rightarrow> 'p handler" where
  "onReadLink Opts P Args s = (let F = failureFields Proc_ReadLink in
     with_args (pathOf Opts (S_Known s)) Args (\<lambda>Path s. case Path of
       None \<Rightarrow> (replyStatus kErrStale F, s)
     | Some Path \<Rightarrow> held P F (\<lambda>s. case on_peer (P_readLink P Path) s of
           (Inl _, s) \<Rightarrow> (replyStatus kErrInval F, s)
         | (Inr Points, s) \<Rightarrow> (reply [x_u32 kOk, writeNoAttrs, x_text Points], s)) s) s)"

definition onWrite :: "export_opts \<Rightarrow> 'p peer \<Rightarrow> byte list \<Rightarrow> 'p handler" where
  "onWrite Opts P Args s = (let F = failureFields Proc_Write in
     with_args (do { p \<leftarrow> pathOf Opts (S_Known s); off \<leftarrow> x_r_u64; c \<leftarrow> x_r_u32; _ \<leftarrow> x_r_u32; d \<leftarrow> x_r_opaque kWriteLimit; State_Monad.return (p, off, c, d) }) Args
     (\<lambda>(Path, Offset, Count, Data) s. case Path of
       None \<Rightarrow> (replyStatus kErrStale F, s)
     | Some Path \<Rightarrow>
         if length Data \<noteq> unat Count then (replyStatus kErrInval F, s)
         else held P F (asks P F (P_write P Path Offset Data) (\<lambda>_ s.
           (reply [x_u32 kOk, writeNoWcc, x_u32 Count, x_u32 kUnstable, x_fixed (S_Verifier s)], session_forget Path s))) s) s)"

definition onCommit :: "export_opts \<Rightarrow> 'p peer \<Rightarrow> byte list \<Rightarrow> 'p handler" where
  "onCommit Opts P Args s = (let F = failureFields Proc_Commit in
     with_args (do { p \<leftarrow> pathOf Opts (S_Known s); _ \<leftarrow> x_r_u64; _ \<leftarrow> x_r_u32; State_Monad.return p }) Args (\<lambda>Path s. case Path of
       None \<Rightarrow> (replyStatus kErrStale F, s)
     | Some Path \<Rightarrow> held P F (asks P F (P_fsync P Path) (\<lambda>_ s. (reply [x_u32 kOk, writeNoWcc, x_fixed (S_Verifier s)], s))) s) s)"

definition onCreate :: "'h xxlib \<Rightarrow> export_opts \<Rightarrow> 'p peer \<Rightarrow> byte list \<Rightarrow> 'p handler" where
  "onCreate X Opts P Args s = (let F = failureFields Proc_Create in
     with_args (do {
         d \<leftarrow> pathOf Opts (S_Known s); n \<leftarrow> x_r_text kPathLimit; How \<leftarrow> x_r_u32;
         a \<leftarrow> (if How = 2 then do { _ \<leftarrow> x_r_fixed 8; State_Monad.return \<lparr>Wanted_Size = None, Wanted_Mode = None\<rparr> } else readWanted);
         State_Monad.return (d, n, How, a) }) Args (\<lambda>(Directory, Name, How, Ask) s.
       if How > 2 then ((GarbageArguments, no_payload), s)
       else if How = 2 then (replyStatus kErrNotSupp F, s)
       else case Directory of
         None \<Rightarrow> (replyStatus kErrStale F, s)
       | Some Directory \<Rightarrow>
           if length Name > kNameLimit then (replyStatus kErrNameTooLong F, s)
           else if \<not> namedSafely Name then (replyStatus kErrInval F, s)
           else let Target = joinPath Directory Name
           in held P F (\<lambda>s. case on_peer (P_createFile P Target (case Wanted_Mode Ask of Some Mode \<Rightarrow> Mode | None \<Rightarrow> kKeepMode) (How = 1)) s of
                (Inl e, s) \<Rightarrow> if Code e = Generic 17 then (replyStatus kErrExist F, s) else replyBroken_held P F s
              | (Inr Made, s) \<Rightarrow> made X Opts P F Target Made s) s) s)"

definition onSetAttr :: "export_opts \<Rightarrow> 'p peer \<Rightarrow> byte list \<Rightarrow> 'p handler" where
  "onSetAttr Opts P Args s = (let F = failureFields Proc_SetAttr in
     with_args (do { p \<leftarrow> pathOf Opts (S_Known s); a \<leftarrow> readWanted; _ \<leftarrow> x_r_optional (do { _ \<leftarrow> x_r_u32; x_r_u32 }); State_Monad.return (p, a) }) Args (\<lambda>(Path, Ask) s. case Path of
       None \<Rightarrow> (replyStatus kErrStale F, s)
     | Some Path \<Rightarrow>
         let mode = (\<lambda>s. case Wanted_Mode Ask of
               None \<Rightarrow> (reply [x_u32 kOk, writeNoWcc], s)
             | Some Mode \<Rightarrow> asks P F (P_setMode P Path Mode) (\<lambda>_ s. (reply [x_u32 kOk, writeNoWcc], s)) s)
         in held P F (\<lambda>s. case Wanted_Size Ask of
               None \<Rightarrow> mode s
             | Some Size \<Rightarrow> asks P F (P_truncate P Path Size) (\<lambda>_ s. mode (session_forget Path s)) s) s) s)"

text \<open>
  A reader that goes forward is answered from the file's window, filled when it does not hold what is
  asked for; the entry counts its users while it is served from.
\<close>

definition onWindowedRead :: "export_opts \<Rightarrow> 'p peer \<Rightarrow> nat \<Rightarrow> string \<Rightarrow> u64 \<Rightarrow> u32 \<Rightarrow> 'p handler" where
  "onWindowedRead Opts P i Path Offset Count s =
     (let s = at_window i (\<lambda>W. W\<lparr>C_Users := C_Users W + 1\<rparr>) s;
          (Filled, s) = (if \<not> covers (C_Front (S_Windows s ! i)) Path Offset (ucast Count) then fillWindow Opts P i Path Offset s else (Inr (), s));
          (r, s) =
            (case Filled of
               Inl e \<Rightarrow> replyBroken 1 s
             | Inr _ \<Rightarrow>
                 let From = C_Front (S_Windows s ! i);
                     Into = Offset - B_Start From;
                     Mine = (if unat Into < length (B_Data From) then min (unat Count) (length (B_Data From) - unat Into) else 0)
                 in (reply [x_u32 kOk, writeNoAttrs, x_u32 (of_nat Mine), x_boolean (Offset + of_nat Mine \<ge> B_FileSize From),
                            x_opaqueTail (take Mine (drop (if Mine > 0 then unat Into else 0) (B_Data From)))],
                     s\<lparr>S_Served := S_Served s + of_nat Mine\<rparr>))
      in (r, at_window i (\<lambda>W. W\<lparr>C_Users := C_Users W - 1\<rparr>) s))"

definition plain_read :: "'p peer \<Rightarrow> string \<Rightarrow> u64 \<Rightarrow> u32 \<Rightarrow> 'p handler" where
  "plain_read P Path Offset Count s =
     (let Want = min (unat Count) (readCeiling P s)
      in if Want = 0 then (reply [x_u32 kOk, writeNoAttrs, x_u32 0, x_boolean False, x_opaque []], s)
      else asks P 1 (P_read P Path Offset Want) (\<lambda>(Bytes, FileSize, Data) s.
        (reply [x_u32 kOk, writeNoAttrs, x_u32 (of_nat Bytes), x_boolean (Offset + of_nat Bytes \<ge> FileSize), x_opaqueTail (take Bytes Data)],
         s\<lparr>S_Fetched := S_Fetched s + of_nat Bytes, S_Served := S_Served s + of_nat Bytes\<rparr>)) s)"

definition read_file :: "export_opts \<Rightarrow> 'p peer \<Rightarrow> string \<Rightarrow> u64 \<Rightarrow> u32 \<Rightarrow> 'p handler" where
  "read_file Opts P Path Offset Count s =
     (let (Seen, s) = windowFor Path s;
          Forward = (case Seen of None \<Rightarrow> False | Some i \<Rightarrow> Offset = C_End (S_Windows s ! i));
          s = (case Seen of None \<Rightarrow> s | Some i \<Rightarrow> at_window i (\<lambda>W. W\<lparr>C_End := Offset + ucast Count\<rparr>) s)
      in if Forward \<and> O_Readahead Opts > unat Count then onWindowedRead Opts P (the Seen) Path Offset Count s
         else held P 1 (plain_read P Path Offset Count) s)"

definition onRead :: "export_opts \<Rightarrow> 'p peer \<Rightarrow> byte list \<Rightarrow> 'p handler" where
  "onRead Opts P Args s =
     with_args (do { p \<leftarrow> pathOf Opts (S_Known s); off \<leftarrow> x_r_u64; c \<leftarrow> x_r_u32; State_Monad.return (p, off, c) }) Args (\<lambda>(Path, Offset, Count) s. case Path of
       None \<Rightarrow> (replyStatus kErrStale 1, s)
     | Some Path \<Rightarrow> read_file Opts P Path Offset Count s) s"

text \<open>
  A listing is sorted by name and kept for the calls that continue it. Its places are the directory, the one
  above and the entries; \<open>dirents\<close> is the loop that writes them until the reply is full.
\<close>

definition dir_name :: "SortedListing \<Rightarrow> nat \<Rightarrow> string" where
  "dir_name L Index = (if Index = 0 then ''.'' else if Index = 1 then ''..'' else ListEntry_Name (L_Entries L ! (Index - 2)))"

definition dir_target :: "export_opts \<Rightarrow> SortedListing \<Rightarrow> string \<Rightarrow> nat \<Rightarrow> string" where
  "dir_target Opts L Path Index =
     (if Index = 0 then Path else if Index = 1 then parentPath Path (O_Root Opts) else joinPath Path (dir_name L Index))"

definition dir_owner :: "SortedListing \<Rightarrow> nat \<Rightarrow> FileAttrs" where
  "dir_owner L Index = (if Index = 0 then L_Self L else if Index = 1 then L_Parent L else ListEntry_Attrs (L_Entries L ! (Index - 2)))"

definition dirent :: "'h xxlib \<Rightarrow> export_opts \<Rightarrow> SortedListing \<Rightarrow> string \<Rightarrow> bool \<Rightarrow> nat \<Rightarrow> XdrWriter \<times> Handles \<Rightarrow> XdrWriter \<times> Handles" where
  "dirent X Opts L Path WithAttrs Index = (\<lambda>(W, Known).
     let Target = dir_target Opts L Path Index;
         W = x_u64 (of_nat (Index + 1)) (x_text (dir_name L Index) (x_u64 (fileIdOf X (dir_owner L Index) Target) (x_boolean True W)))
     in if WithAttrs then
          let W = (if Index < 2 then writeNoAttrs W else writePostAttrs X Opts (dir_owner L Index) Target W);
              (H, Known) = h_encode X Target Known
          in (x_opaque H (x_boolean True W), Known)
        else (W, Known))"

fun dirents :: "'h xxlib \<Rightarrow> export_opts \<Rightarrow> SortedListing \<Rightarrow> string \<Rightarrow> bool \<Rightarrow> nat \<Rightarrow> nat \<Rightarrow> nat list \<Rightarrow> nat \<Rightarrow> XdrWriter \<times> Handles \<Rightarrow> nat \<times> XdrWriter \<times> Handles" where
  "dirents X Opts L Path WithAttrs Ceiling Start [] Entire (W, Known) = (Entire, W, Known)"
| "dirents X Opts L Path WithAttrs Ceiling Start (Index # Is) Entire (W, Known) =
     (let Mark = x_size W; (W, Known) = dirent X Opts L Path WithAttrs Index (W, Known)
      in if x_size W > Ceiling \<and> Index > Start then (Index, x_truncate Mark W, Known)
         else dirents X Opts L Path WithAttrs Ceiling Start Is Entire (W, Known))"

definition sort_entries :: "ListEntry list \<Rightarrow> ListEntry list" where
  "sort_entries = sort_key (\<lambda>E. map byte_of_char (ListEntry_Name E))"

definition list_page :: "'h xxlib \<Rightarrow> export_opts \<Rightarrow> string \<Rightarrow> bool \<Rightarrow> u64 \<Rightarrow> u32 \<Rightarrow> 'p handler" where
  "list_page X Opts Path WithAttrs Cookie Second s =
     (let L = S_Listing s;
          Ceiling = (if unat Second > kDirentSlack then unat Second - kDirentSlack else unat Second);
          Entire = length (L_Entries L) + 2;
          Start = min (unat Cookie) Entire;
          (Index, W, Known) = dirents X Opts L Path WithAttrs Ceiling Start [Start..<Entire] Entire
            (written [x_u32 kOk, writeNoAttrs, x_u32 0, x_u32 0], S_Known s)
      in ((Success, x_payload (x_boolean (Index \<ge> Entire) (x_boolean False W))), s\<lparr>S_Known := Known\<rparr>))"

definition set_listing :: "(SortedListing \<Rightarrow> SortedListing) \<Rightarrow> 'p session \<Rightarrow> 'p session" where
  "set_listing f s = s\<lparr>S_Listing := f (S_Listing s)\<rparr>"

definition fresh_listing :: "export_opts \<Rightarrow> 'p peer \<Rightarrow> string \<Rightarrow> 'p handler \<Rightarrow> 'p handler" where
  "fresh_listing Opts P Path k = held P 1 (asks P 1 (P_list P Path) (\<lambda>Listed s.
     if \<not> ListReply_Found Listed then (replyStatus kErrNotDir 1, s)
     else
       let Parent = (if Path = O_Root Opts then ListReply_Self Listed else ListReply_Parent Listed);
           s = set_listing (\<lambda>L. L\<lparr>L_Path := Path, L_Self := ListReply_Self Listed, L_Parent := Parent\<rparr>) s;
           rest = (\<lambda>s. k (set_listing (\<lambda>L. L\<lparr>L_Entries := sort_entries (ListReply_Entries Listed)\<rparr>) s))
       in if FileAttrs_Ino Parent = 0 then
            asks P 1 (P_stat P (parentPath Path (O_Root Opts))) (\<lambda>Above s.
              if \<not> StatReply_Found Above then (replyStatus kErrNoEnt 1, s)
              else rest (set_listing (\<lambda>L. L\<lparr>L_Parent := StatReply_Attrs Above\<rparr>) s)) s
          else rest s))"

definition onReadDir :: "'h xxlib \<Rightarrow> export_opts \<Rightarrow> 'p peer \<Rightarrow> bool \<Rightarrow> byte list \<Rightarrow> 'p handler" where
  "onReadDir X Opts P WithAttrs Args s =
     with_args (do {
         p \<leftarrow> pathOf Opts (S_Known s); Cookie \<leftarrow> x_r_u64; _ \<leftarrow> x_r_fixed 8; First \<leftarrow> x_r_u32;
         Second \<leftarrow> (if WithAttrs then x_r_u32 else State_Monad.return First);
         State_Monad.return (p, Cookie, Second) }) Args (\<lambda>(Path, Cookie, Second) s. case Path of
       None \<Rightarrow> (replyStatus kErrStale 1, s)
     | Some Path \<Rightarrow>
         if Cookie = 0 \<or> L_Path (S_Listing s) \<noteq> Path then fresh_listing Opts P Path (list_page X Opts Path WithAttrs Cookie Second) s
         else list_page X Opts Path WithAttrs Cookie Second s) s"

definition onFsStat :: "export_opts \<Rightarrow> 'p peer \<Rightarrow> byte list \<Rightarrow> 'p handler" where
  "onFsStat Opts P Args s = with_args (pathOf Opts (S_Known s)) Args (\<lambda>Path s. case Path of
       None \<Rightarrow> (replyStatus kErrStale 1, s)
     | Some Path \<Rightarrow> held P 1 (asks P 1 (P_statFs P Path) (\<lambda>Info s.
         if \<not> StatFsReply_Ok Info then (replyStatus kErrIo 1, s)
         else (reply [x_u32 kOk, writeNoAttrs, x_u64 (StatFsReply_Blocks Info * StatFsReply_BlockSize Info),
                 x_u64 (StatFsReply_BlocksFree Info * StatFsReply_BlockSize Info), x_u64 (StatFsReply_BlocksFree Info * StatFsReply_BlockSize Info),
                 x_u64 (StatFsReply_Files Info), x_u64 (StatFsReply_FilesFree Info), x_u64 (StatFsReply_FilesFree Info), x_u32 0], s))) s) s"

definition onFsInfo :: "export_opts \<Rightarrow> 'p peer \<Rightarrow> byte list \<Rightarrow> 'p handler" where
  "onFsInfo Opts P Args s = with_args (pathOf Opts (S_Known s)) Args (\<lambda>Path s. case Path of
       None \<Rightarrow> (replyStatus kErrStale 1, s)
     | Some Path \<Rightarrow> held P 1 (\<lambda>s. let Ceiling = of_nat (readCeiling P s) in
         (reply [x_u32 kOk, writeNoAttrs, x_u32 Ceiling, x_u32 Ceiling, x_u32 4096, x_u32 Ceiling, x_u32 Ceiling, x_u32 4096, x_u32 65536,
            x_u64 (drop_bit 1 (- 1)), x_u32 1, x_u32 0, x_u32 8], s)) s) s"

definition onPathConf :: "export_opts \<Rightarrow> byte list \<Rightarrow> 'p handler" where
  "onPathConf Opts Args s = with_args (pathOf Opts (S_Known s)) Args (\<lambda>Path s. case Path of
       None \<Rightarrow> (replyStatus kErrStale 1, s)
     | Some Path \<Rightarrow> (reply [x_u32 kOk, writeNoAttrs, x_u32 1, x_u32 (of_nat kNameLimit), x_boolean True, x_boolean True, x_boolean False, x_boolean True], s)) s"

section \<open>Dispatch\<close>

definition mismatch :: reply where
  "mismatch = (ProgramMismatch, x_payload (written [x_u32 kProgramVersion, x_u32 kProgramVersion]))"

definition onMnt :: "'h xxlib \<Rightarrow> export_opts \<Rightarrow> 'p peer \<Rightarrow> byte list \<Rightarrow> 'p handler" where
  "onMnt X Opts P Args = with_args (x_r_text kPathLimit) Args (\<lambda>_.
     lend P (\<lambda>_ s. (reply [x_u32 5], complain s)) (\<lambda>s.
       case on_peer (P_stat P (O_Root Opts)) s of
         (Inl _, s) \<Rightarrow> (reply [x_u32 5], drop_dead P (complain s))
       | (Inr Info, s) \<Rightarrow>
           if \<not> StatReply_Found Info \<or> \<not> FileAttrs_Directory (StatReply_Attrs Info) then (reply [x_u32 2], s)
           else let (H, s) = encode X (O_Root Opts) (s\<lparr>S_Known := h_pin (O_Root Opts) (S_Known s)\<rparr>)
                in (reply [x_u32 0, x_opaque H, x_u32 1, x_u32 1], s)))"

definition onMount :: "'h xxlib \<Rightarrow> export_opts \<Rightarrow> 'p peer \<Rightarrow> Call \<Rightarrow> 'p handler" where
  "onMount X Opts P C s =
     (if Call_Version C \<noteq> kProgramVersion then (mismatch, s)
      else case as_enum MountProcs (Call_Procedure C) of
        Some Mount_Null \<Rightarrow> (reply [], s)
      | Some Mnt \<Rightarrow> onMnt X Opts P (Call_Args C) s
      | Some Dump \<Rightarrow> (reply [x_boolean False], s)
      | Some Umnt \<Rightarrow> (reply [], s)
      | Some UmntAll \<Rightarrow> (reply [], s)
      | Some Export \<Rightarrow> (reply [x_boolean True, x_text ''/'', x_boolean False, x_boolean False], s)
      | None \<Rightarrow> ((ProcedureUnavailable, no_payload), s))"

definition warmed :: "'p peer \<Rightarrow> 'p session \<Rightarrow> 'p session" where
  "warmed P s =
     (if S_Warmed s then s
      else case on_peer (P_warm P) (s\<lparr>S_Warmed := True\<rparr>) of (Inl _, s) \<Rightarrow> complain s | (Inr _, s) \<Rightarrow> s)"

definition onNfs :: "'h xxlib \<Rightarrow> export_opts \<Rightarrow> 'p peer \<Rightarrow> Call \<Rightarrow> 'p handler" where
  "onNfs X Opts P C s =
     (let s = warmed P s; Args = Call_Args C
      in if Call_Version C \<noteq> kProgramVersion then (mismatch, s)
      else case as_enum Procs (Call_Procedure C) of
        None \<Rightarrow> ((ProcedureUnavailable, no_payload), s)
      | Some Procedure \<Rightarrow> (case Procedure of
          Proc_Null \<Rightarrow> ((Success, no_payload), s)
        | Proc_GetAttr \<Rightarrow> onGetAttr X Opts P Args s
        | Proc_Lookup \<Rightarrow> onLookup X Opts P Args s
        | Proc_Access \<Rightarrow> onAccess X Opts P Args s
        | Proc_ReadLink \<Rightarrow> onReadLink Opts P Args s
        | Proc_Read \<Rightarrow> onRead Opts P Args s
        | Proc_ReadDir \<Rightarrow> onReadDir X Opts P False Args s
        | Proc_ReadDirPlus \<Rightarrow> onReadDir X Opts P True Args s
        | Proc_FsStat \<Rightarrow> onFsStat Opts P Args s
        | Proc_FsInfo \<Rightarrow> onFsInfo Opts P Args s
        | Proc_PathConf \<Rightarrow> onPathConf Opts Args s
        | Proc_SetAttr \<Rightarrow> onSetAttr Opts P Args s
        | Proc_Write \<Rightarrow> onWrite Opts P Args s
        | Proc_Create \<Rightarrow> onCreate X Opts P Args s
        | Proc_Commit \<Rightarrow> onCommit Opts P Args s
        | Proc_Remove \<Rightarrow> onRemove Opts P Args s
        | Proc_MakeDirectory \<Rightarrow> onMakeDirectory X Opts P Args s
        | Proc_RemoveDirectory \<Rightarrow> onRemoveDirectory Opts P Args s
        | Proc_Symlink \<Rightarrow> onSymlink X Opts P Args s
        | Proc_Rename \<Rightarrow> onRename Opts P Args s
        | Proc_Link \<Rightarrow> onLink X Opts P Args s
        | Proc_MakeNode \<Rightarrow> (replyStatus kErrRoFs (failureFields Proc_MakeNode), s)))"

definition dispatch :: "'h xxlib \<Rightarrow> export_opts \<Rightarrow> 'p peer \<Rightarrow> Call \<Rightarrow> 'p handler" where
  "dispatch X Opts P C s =
     (if Call_Program C = kMountProgram then onMount X Opts P C s
      else if Call_Program C = kNfsProgram then onNfs X Opts P C s
      else ((ProgramUnavailable, no_payload), s))"

definition no_buffer :: Buffer where
  "no_buffer = \<lparr>B_Path = [], B_Start = 0, B_FileSize = 0, B_Data = []\<rparr>"

definition no_window :: Cached where
  "no_window = \<lparr>C_Path = [], C_End = 0, C_Used = 0, C_Users = 0, C_Front = no_buffer, C_Back = no_buffer\<rparr>"

definition no_attrs :: FileAttrs where
  "no_attrs = \<lparr>FileAttrs_Size = 0, FileAttrs_Dev = 0, FileAttrs_Ino = 0, FileAttrs_Mode = 0, FileAttrs_Uid = 0, FileAttrs_Gid = 0,
     FileAttrs_Mtime = 0, FileAttrs_Directory = False, FileAttrs_Link = False, FileAttrs_Links = 0\<rparr>"

definition no_listing :: SortedListing where
  "no_listing = \<lparr>L_Path = [], L_Entries = [], L_Self = no_attrs, L_Parent = no_attrs\<rparr>"

definition kWindows :: nat where
  "kWindows = 8"

text \<open>\<open>Count\<close> are the sessions of the pool.\<close>

definition Session_new :: "nat \<Rightarrow> Handles \<Rightarrow> 'p \<Rightarrow> 'p session" where
  "Session_new Count Known p =
     \<lparr>S_Known = Known, S_Listing = no_listing, S_Warmed = False, S_Verifier = replicate 8 0,
      S_Windows = replicate (max Count kWindows) no_window, S_Ticks = 0, S_Complained = False, S_Served = 0, S_Fetched = 0, S_Peer = p\<rparr>"

end
