(* ===== verification/NfsConfined.thy ===== *)
theory NfsConfined
  imports NfsServer
begin

text \<open>
  The contract between the handlers of the export and the pool of sessions they borrow from: a session
  is asked something only while it is borrowed, it is given back, and every path that is asked about is
  inside the export. The locale states it as what the pool keeps; its instance is a pool that writes
  down what it is asked.
\<close>

section \<open>The contract\<close>

definition keeps :: "('p \<Rightarrow> bool) \<Rightarrow> ('p \<Rightarrow> 'a \<times> 'p) \<Rightarrow> bool" where
  "keeps I op \<longleftrightarrow> (\<forall>p. I p \<longrightarrow> I (snd (op p)))"

text \<open>A path is the export's to serve when it is inside an export that has a sound root.\<close>

definition serves :: "export_opts \<Rightarrow> string \<Rightarrow> bool" where
  "serves Opts q \<longleftrightarrow> (insideExport (O_Root Opts) (O_Root Opts) \<longrightarrow> insideExport q (O_Root Opts))"

lemma serves_root: "serves Opts (O_Root Opts)"
  by (simp add: serves_def)

lemma serves_join: "serves Opts d \<Longrightarrow> namedSafely x \<Longrightarrow> serves Opts (joinPath d x)"
  by (simp add: serves_def joinPath_inside)

lemma serves_above: "serves Opts (parentPath d (O_Root Opts))"
  by (simp add: serves_def parentPath_inside)

text \<open>What the arguments of a call can be, by the reads they come from.\<close>

definition gives :: "('s, 'a) state \<Rightarrow> ('a \<Rightarrow> bool) \<Rightarrow> bool" where
  "gives Read G \<longleftrightarrow> (\<forall>R. G (fst (run_state Read R)))"

lemma gives_return: "G v \<Longrightarrow> gives (State_Monad.return v) G"
  by (simp add: gives_def)

lemma gives_bind:
  assumes "gives Read G" and "\<And>v. G v \<Longrightarrow> gives (f v) G'"
  shows "gives (Read \<bind> f) G'"
  unfolding gives_def
proof
  fix R
  obtain v R' where r: "run_state Read R = (v, R')" by fastforce
  have "G v" using assms(1) r unfolding gives_def by (metis fst_conv)
  then show "G' (fst (run_state (Read \<bind> f) R))" using assms(2) [of v] r by (simp add: gives_def)
qed

lemma gives_mono: "gives Read G \<Longrightarrow> (\<And>v. G v \<Longrightarrow> G' v) \<Longrightarrow> gives Read G'"
  by (simp add: gives_def)

lemma gives_any: "gives Read (\<lambda>_. True)"
  by (simp add: gives_def)

lemma gives_path: "gives (pathOf Opts Known) (\<lambda>d. d = None \<or> (\<exists>p. d = Some p \<and> serves Opts p))"
  by (auto simp: serves_def gives_def pathOf_def split: prod.split option.split)

text \<open>\<open>I n\<close> holds of a pool from which \<open>n\<close> sessions are borrowed.\<close>

locale borrowed =
  fixes P :: "'p peer" and Opts :: export_opts and I :: "nat \<Rightarrow> 'p \<Rightarrow> bool"
  assumes warm_kept: "keeps (I n) (P_warm P)"
    and take_failed: "I n p \<Longrightarrow> P_take P p = (Inl e, p') \<Longrightarrow> I n p'"
    and take_done: "I n p \<Longrightarrow> P_take P p = (Inr u, p') \<Longrightarrow> I (Suc n) p'"
    and give_kept: "I (Suc n) p \<Longrightarrow> I n (P_give P p)"
    and discard_kept: "I (Suc n) p \<Longrightarrow> I (Suc n) (P_discard P p)"
    and stat_kept: "serves Opts q \<Longrightarrow> keeps (I (Suc n)) (P_stat P q)"
    and list_kept: "serves Opts q \<Longrightarrow> keeps (I (Suc n)) (P_list P q)"
    and statFs_kept: "serves Opts q \<Longrightarrow> keeps (I (Suc n)) (P_statFs P q)"
    and createFile_kept: "serves Opts q \<Longrightarrow> keeps (I (Suc n)) (P_createFile P q m ex)"
    and makeDirectory_kept: "serves Opts q \<Longrightarrow> keeps (I (Suc n)) (P_makeDirectory P q m)"
    and removeFile_kept: "serves Opts q \<Longrightarrow> keeps (I (Suc n)) (P_removeFile P q)"
    and removeDirectory_kept: "serves Opts q \<Longrightarrow> keeps (I (Suc n)) (P_removeDirectory P q)"
    and makeLink_kept: "serves Opts q \<Longrightarrow> keeps (I (Suc n)) (P_makeLink P q t)"
    and readLink_kept: "serves Opts q \<Longrightarrow> keeps (I (Suc n)) (P_readLink P q)"
    and hardLink_kept: "serves Opts q \<Longrightarrow> serves Opts t \<Longrightarrow> keeps (I (Suc n)) (P_hardLink P q t)"
    and rename_kept: "serves Opts q \<Longrightarrow> serves Opts t \<Longrightarrow> keeps (I (Suc n)) (P_rename P q t)"
    and truncate_kept: "serves Opts q \<Longrightarrow> keeps (I (Suc n)) (P_truncate P q z)"
    and setMode_kept: "serves Opts q \<Longrightarrow> keeps (I (Suc n)) (P_setMode P q m)"
    and fsync_kept: "serves Opts q \<Longrightarrow> keeps (I (Suc n)) (P_fsync P q)"
    and read_kept: "serves Opts q \<Longrightarrow> keeps (I (Suc n)) (P_read P q z c)"
    and write_kept: "serves Opts q \<Longrightarrow> keeps (I (Suc n)) (P_write P q z d)"
begin

lemmas operations = stat_kept list_kept statFs_kept createFile_kept makeDirectory_kept removeFile_kept removeDirectory_kept makeLink_kept readLink_kept hardLink_kept rename_kept truncate_kept setMode_kept fsync_kept read_kept write_kept

definition safe :: "nat \<Rightarrow> ('p session \<Rightarrow> 'a \<times> 'p session) \<Rightarrow> bool" where
  "safe n h \<longleftrightarrow> (\<forall>s. I n (S_Peer s) \<longrightarrow> I n (S_Peer (snd (h s))))"

lemma safeI: "(\<And>s. I n (S_Peer s) \<Longrightarrow> I n (S_Peer (snd (h s)))) \<Longrightarrow> safe n h"
  by (simp add: safe_def)

lemma safeD: "safe n h \<Longrightarrow> I n (S_Peer s) \<Longrightarrow> I n (S_Peer (snd (h s)))"
  by (simp add: safe_def)

lemma safe_on_peer: "keeps (I n) op \<Longrightarrow> safe n (on_peer op)"
  by (auto simp: safe_def keeps_def on_peer_def split: prod.split)

lemma drop_dead_kept: "I (Suc n) (S_Peer s) \<Longrightarrow> I (Suc n) (S_Peer (drop_dead P s))"
  by (simp add: drop_dead_def discard_kept)

lemma safe_lend:
  assumes "\<And>e. safe n (broken e)" and "safe (Suc n) k"
  shows "safe n (lend P broken k)"
proof (rule safeI)
  fix s :: "'p session"
  assume i: "I n (S_Peer s)"
  obtain r p where t: "P_take P (S_Peer s) = (r, p)" by fastforce
  show "I n (S_Peer (snd (lend P broken k s)))"
  proof (cases r)
    case (Inl e)
    then show ?thesis using take_failed [OF i] t assms(1) by (simp add: lend_def on_peer_def safe_def)
  next
    case (Inr u)
    then have "I (Suc n) (S_Peer (snd (k (s\<lparr>S_Peer := p\<rparr>))))" using take_done [OF i] t assms(2) by (simp add: safe_def)
    then show ?thesis using Inr t give_kept by (auto simp: lend_def on_peer_def split: prod.split)
  qed
qed

lemma safe_broken: "safe n (replyBroken F)"
  by (simp add: safe_def replyBroken_def complain_def)

lemma safe_held: "safe (Suc n) k \<Longrightarrow> safe n (held P F k)"
  unfolding held_def by (intro safe_lend safe_broken)

lemma safe_asks:
  assumes "keeps (I (Suc n)) op" and "\<And>v. safe (Suc n) (k v)"
  shows "safe (Suc n) (asks P F op k)"
proof (rule safeI)
  fix s :: "'p session"
  assume "I (Suc n) (S_Peer s)"
  then have "I (Suc n) (S_Peer (snd (on_peer op s)))" using safe_on_peer [OF assms(1)] by (simp add: safe_def)
  then show "I (Suc n) (S_Peer (snd (asks P F op k s)))" using assms(2)
    by (auto simp: asks_def replyBroken_held_def replyBroken_def complain_def safe_def drop_dead_kept split: prod.split sum.split)
qed

lemma args_kept:
  assumes "I n (S_Peer s)" and "gives Read (\<lambda>v. safe n (k v))"
  shows "I n (S_Peer (snd (with_args Read Args k s)))"
proof -
  obtain v R where r: "run_state Read (XdrReader_open Args) = (v, R)" by fastforce
  have "safe n (k v)" using assms(2) r unfolding gives_def by (metis fst_conv)
  then show ?thesis using assms(1) r by (simp add: safe_def with_args_def)
qed

lemma safe_done: "(\<And>s. S_Peer (snd (h s)) = S_Peer s) \<Longrightarrow> safe n h"
  by (simp add: safe_def)

lemma safe_pair: "(\<And>s. S_Peer (f s) = S_Peer s) \<Longrightarrow> safe n (\<lambda>s. (r s, f s))"
  by (simp add: safe_def)

lemma safe_if: "(b \<Longrightarrow> safe n h) \<Longrightarrow> (\<not> b \<Longrightarrow> safe n h') \<Longrightarrow> safe n (\<lambda>s. if b then h s else h' s)"
  by (simp add: safe_def)

lemma safe_orAsk:
  assumes "serves Opts q"
  shows "keeps (I (Suc n)) (orAsk P q Made)"
proof -
  have "I (Suc n) p \<Longrightarrow> P_stat P q p = (r, p') \<Longrightarrow> I (Suc n) p'" for p r p' using stat_kept [OF assms, of n] unfolding keeps_def by (metis snd_conv)
  then show ?thesis by (auto simp: keeps_def orAsk_def split: prod.split sum.split)
qed

lemma safe_encode: "safe n (\<lambda>s. case encode X q s of (H, s') \<Rightarrow> (r H, s'))"
  by (simp add: safe_def encode_def Let_def split: prod.split)

lemma gives_path_only: "(\<And>d. d = None \<or> (\<exists>p. d = Some p \<and> serves Opts p) \<Longrightarrow> G d) \<Longrightarrow> gives (pathOf Opts Known) G"
  using gives_path [of Opts Known] by (simp add: gives_def)

lemmas reads = gives_bind [OF gives_path] gives_bind [OF gives_any] gives_return gives_path_only
lemma safe_if_fun: "(b \<Longrightarrow> safe n h) \<Longrightarrow> (\<not> b \<Longrightarrow> safe n h') \<Longrightarrow> safe n (if b then h else h')"
  by simp

lemma safe_Pair: "safe n (Pair r)"
  by (simp add: safe_def)

lemmas steps = safe_if safe_if_fun safe_Pair safe_held safe_asks safe_pair safe_orAsk safe_encode operations
lemmas plain = case_prod_conv option.case Let_def fst_conv snd_conv

lemma forget_peer [simp]: "S_Peer (session_forget q s) = S_Peer s" "S_Peer (knows_forget q s) = S_Peer s" "S_Peer (complain s) = S_Peer s"
  by (simp_all add: session_forget_def knows_forget_def complain_def)

lemma made_safe:
  assumes "serves Opts q"
  shows "safe (Suc n) (made X Opts P F q A)"
proof -
  have "safe (Suc n) (asks P F (orAsk P q A) (\<lambda>Info s. case encode X q s of
      (H, s) \<Rightarrow> (reply [x_u32 kOk, x_boolean True, x_opaque H, writePostAttrs X Opts Info q, writeNoWcc], s)))"
    by (intro safe_asks safe_orAsk safe_encode assms)
  then show ?thesis unfolding made_def Let_def safe_def by simp
qed

lemma safe_answer:
  assumes "keeps (I n) op" and "\<And>e. safe n (f e)" and "\<And>v. safe n (g v)"
  shows "safe n (\<lambda>s. case on_peer op s of (Inl e, s) \<Rightarrow> f e s | (Inr v, s) \<Rightarrow> g v s)"
proof (rule safeI)
  fix s :: "'p session"
  assume "I n (S_Peer s)"
  then have "I n (S_Peer (snd (on_peer op s)))" using safe_on_peer [OF assms(1)] by (simp add: safe_def)
  then show "I n (S_Peer (snd (case on_peer op s of (Inl e, s) \<Rightarrow> f e s | (Inr v, s) \<Rightarrow> g v s)))"
    using assms(2,3) by (auto simp: safe_def split: prod.split sum.split)
qed

lemma safe_dead: "safe (Suc n) (replyBroken_held P F)" "safe (Suc n) (\<lambda>s. (r, drop_dead P s))" "safe (Suc n) (\<lambda>s. (r, drop_dead P (complain s)))"
  by (simp_all add: safe_def replyBroken_held_def replyBroken_def drop_dead_kept)

lemma safe_after: "safe n h \<Longrightarrow> (\<And>s. S_Peer (f s) = S_Peer s) \<Longrightarrow> safe n (\<lambda>s. h (f s))"
  by (simp add: safe_def)

lemma safe_forgets: "safe n h \<Longrightarrow> safe n (\<lambda>s. h (session_forget q s))"
  by (rule safe_after) simp_all

lemma setmode_safe: "serves Opts q \<Longrightarrow> safe (Suc n) (\<lambda>s. case o' of None \<Rightarrow> (r, s) | Some m \<Rightarrow> asks P F (P_setMode P q m) (\<lambda>_ s. (r, s)) s)"
  by (cases o') (simp_all add: safe_Pair safe_asks operations)

lemma truncate_safe:
  assumes "serves Opts q" and "safe (Suc n) h"
  shows "safe (Suc n) (\<lambda>s. case o' of None \<Rightarrow> h s | Some z \<Rightarrow> asks P F (P_truncate P q z) (\<lambda>_ s. h (session_forget q s)) s)"
  using assms by (cases o') (simp_all add: safe_asks safe_forgets operations)

text \<open>The handlers that ask and answer, each a sequence of such steps.\<close>

lemma handlers_safe:
  "safe n (onGetAttr X Opts P Args)" "safe n (onLookup X Opts P Args)" "safe n (onAccess X Opts P Args)" "safe n (onMakeDirectory X Opts P Args)"
  "safe n (onRemoveDirectory Opts P Args)" "safe n (onRemove Opts P Args)" "safe n (onRename Opts P Args)" "safe n (onSymlink X Opts P Args)"
  "safe n (onLink X Opts P Args)" "safe n (onReadLink Opts P Args)" "safe n (onWrite Opts P Args)" "safe n (onCommit Opts P Args)"
  "safe n (onCreate X Opts P Args)" "safe n (onSetAttr Opts P Args)" "safe n (onFsStat Opts P Args)" "safe n (onFsInfo Opts P Args)" "safe n (onPathConf Opts Args)"
  unfolding onGetAttr_def onLookup_def onAccess_def onMakeDirectory_def onRemoveDirectory_def onRemove_def onRename_def onSymlink_def onLink_def
    onReadLink_def onWrite_def onCommit_def onCreate_def onSetAttr_def onFsStat_def onFsInfo_def onPathConf_def Let_def
  by (rule safeI, erule args_kept, (rule reads)+, elim disjE exE conjE; simp only: plain;
      intro safe_answer safe_dead(1) made_safe truncate_safe setmode_safe steps safe_forgets; (auto intro: serves_join serves_above)?)+

lemma windowFor_peer: "windowFor q s = (w, s') \<Longrightarrow> S_Peer s' = S_Peer s"
  by (auto simp: windowFor_def at_window_def split: sum.splits option.splits)

lemma fillWindow_safe: "serves Opts q \<Longrightarrow> safe n (fillWindow Opts P i q z)"
  unfolding fillWindow_def
proof (rule safe_lend)
  assume q: "serves Opts q"
  show "safe n (\<lambda>s. (Inl e, s))" for e by (simp add: safe_def)
  show "safe (Suc n) (\<lambda>s. let Room = fill_room Opts P s; Start = fill_start Room z; s = at_window i (\<lambda>W. W\<lparr>C_Back := buffer_forget (C_Back W)\<rparr>) s
      in case on_peer (P_read P q Start (unat Room)) s of (Inl e, s) \<Rightarrow> (Inl e, drop_dead P s) | (Inr Got, s) \<Rightarrow> (Inr (), fill_end i q Start Got s))" (is "safe _ ?h")
  proof (rule safeI)
    fix s :: "'p session"
    assume i: "I (Suc n) (S_Peer s)"
    define St where "St = fill_start (fill_room Opts P s) z"
    have "safe (Suc n) (\<lambda>t. case on_peer (P_read P q St (unat (fill_room Opts P s))) t of (Inl e, s) \<Rightarrow> (Inl e, drop_dead P s) | (Inr Got, s) \<Rightarrow> (Inr (), fill_end i q St Got s))"
      by (intro safe_answer operations q safe_dead safe_pair) (simp add: fill_end_def at_window_def split: prod.split)
    then show "I (Suc n) (S_Peer (snd (?h s)))" using i unfolding St_def [symmetric] Let_def safe_def by (simp add: at_window_def)
  qed
qed

lemma at_window_peer [simp]: "S_Peer (at_window i f s) = S_Peer s"
  by (simp add: at_window_def)

lemma onWindowedRead_safe:
  assumes "serves Opts q"
  shows "safe n (onWindowedRead Opts P i q z c)"
proof (rule safeI)
  fix s :: "'p session"
  assume i: "I n (S_Peer s)"
  define s0 where "s0 = at_window i (\<lambda>W. W\<lparr>C_Users := C_Users W + 1\<rparr>) s"
  obtain F s1 where f: "(if \<not> covers (C_Front (S_Windows s0 ! i)) q z (ucast c) then fillWindow Opts P i q z s0 else (Inr (), s0)) = (F, s1)" by fastforce
  have "I n (S_Peer s0)" using i by (simp add: s0_def)
  then have "I n (S_Peer s1)" using f fillWindow_safe [OF assms] unfolding safe_def by (metis snd_conv)
  then show "I n (S_Peer (snd (onWindowedRead Opts P i q z c s)))"
    unfolding onWindowedRead_def s0_def [symmetric] Let_def f by (cases F) (simp_all add: replyBroken_def)
qed

lemma plain_read_safe:
  assumes "serves Opts q"
  shows "safe (Suc n) (plain_read P q z c)"
proof (rule safeI)
  fix s :: "'p session"
  assume i: "I (Suc n) (S_Peer s)"
  have "safe (Suc n) (asks P 1 (P_read P q z m) (\<lambda>(Bytes, FileSize, Data) s. (r Bytes FileSize Data, s\<lparr>S_Fetched := f s Bytes, S_Served := g s Bytes\<rparr>)))" for m r f g
    by (rule safe_asks [OF read_kept [OF assms]]) (auto simp: safe_def split: prod.split)
  then show "I (Suc n) (S_Peer (snd (plain_read P q z c s)))" using i by (simp add: plain_read_def Let_def safe_def)
qed

lemma read_file_safe:
  assumes "serves Opts q"
  shows "safe n (read_file Opts P q z c)"
proof (rule safeI)
  fix s :: "'p session"
  assume i: "I n (S_Peer s)"
  obtain Seen s1 where sn: "windowFor q s = (Seen, s1)" by fastforce
  define s2 where "s2 = (case Seen of None \<Rightarrow> s1 | Some i \<Rightarrow> at_window i (\<lambda>W. W\<lparr>C_End := z + ucast c\<rparr>) s1)"
  have s2: "I n (S_Peer s2)" using i windowFor_peer [OF sn] by (simp add: s2_def split: option.split)
  have "I n (S_Peer (snd (onWindowedRead Opts P (the Seen) q z c s2)))" "I n (S_Peer (snd (held P 1 (plain_read P q z c) s2)))"
    using onWindowedRead_safe [OF assms] safe_held [OF plain_read_safe [OF assms]] s2 unfolding safe_def by blast+
  then show "I n (S_Peer (snd (read_file Opts P q z c s)))" unfolding read_file_def sn Let_def case_prod_conv s2_def [symmetric] by simp
qed

lemma list_page_safe: "safe n (list_page X Opts q a z c)"
  by (simp add: safe_def list_page_def Let_def split: prod.split)

lemma set_listing_peer [simp]: "S_Peer (set_listing f s) = S_Peer s"
  by (simp add: set_listing_def)

lemma fresh_listing_safe:
  assumes q: "serves Opts q" and k: "\<And>n. safe n k"
  shows "safe n (fresh_listing Opts P q k)"
  unfolding fresh_listing_def
proof (rule safe_held, rule safe_asks [OF list_kept [OF q]])
  fix L :: ListReply
  let ?p = "if q = O_Root Opts then ListReply_Self L else ListReply_Parent L"
  let ?r = "\<lambda>s. k (set_listing (\<lambda>L'. L'\<lparr>L_Entries := sort_entries (ListReply_Entries L)\<rparr>) s)"
  let ?f = "\<lambda>s. set_listing (\<lambda>L'. L'\<lparr>L_Path := q, L_Self := ListReply_Self L, L_Parent := ?p\<rparr>) s"
  have r: "safe (Suc n) ?r" by (rule safe_after [OF k]) simp
  have g: "safe (Suc n) (\<lambda>s. ?r (set_listing (\<lambda>L. L\<lparr>L_Parent := StatReply_Attrs A\<rparr>) s))" for A by (rule safe_after [OF k]) simp
  have a: "safe (Suc n) (asks P 1 (P_stat P (parentPath q (O_Root Opts))) (\<lambda>Above s. if \<not> StatReply_Found Above then (replyStatus kErrNoEnt 1, s)
              else ?r (set_listing (\<lambda>L. L\<lparr>L_Parent := StatReply_Attrs Above\<rparr>) s)))"
    by (intro safe_asks stat_kept serves_above safe_if safe_Pair g)
  have "safe (Suc n) (\<lambda>s. asks P 1 (P_stat P (parentPath q (O_Root Opts))) (\<lambda>Above s. if \<not> StatReply_Found Above then (replyStatus kErrNoEnt 1, s)
              else ?r (set_listing (\<lambda>L. L\<lparr>L_Parent := StatReply_Attrs Above\<rparr>) s)) (?f s))" by (rule safe_after [OF a]) simp
  moreover have "safe (Suc n) (\<lambda>s. ?r (?f s))" by (rule safe_after [OF r]) simp
  ultimately show "safe (Suc n) (\<lambda>s. if \<not> ListReply_Found L then (replyStatus kErrNotDir 1, s) else
       let Parent = ?p; s = set_listing (\<lambda>L'. L'\<lparr>L_Path := q, L_Self := ListReply_Self L, L_Parent := Parent\<rparr>) s; rest = ?r
       in if FileAttrs_Ino Parent = 0 then
            asks P 1 (P_stat P (parentPath q (O_Root Opts))) (\<lambda>Above s. if \<not> StatReply_Found Above then (replyStatus kErrNoEnt 1, s)
              else rest (set_listing (\<lambda>L. L\<lparr>L_Parent := StatReply_Attrs Above\<rparr>) s)) s
          else rest s)"
    unfolding Let_def by (intro safe_if safe_Pair)
qed

lemma reading_handlers_safe: "safe n (onRead Opts P Args)" "safe n (onReadDir X Opts P a Args)"
  unfolding onRead_def onReadDir_def
  by (rule safeI, erule args_kept, (rule reads)+, elim disjE exE conjE; simp only: plain;
      (intro safe_Pair read_file_safe | (rule safeI, simp add: list_page_safe [unfolded safe_def] fresh_listing_safe [OF _ list_page_safe, unfolded safe_def]));
      simp)+

lemma onMnt_safe: "safe n (onMnt X Opts P Args)"
proof -
  have e: "safe (Suc n) (\<lambda>s. let (H, s) = encode X (O_Root Opts) (s\<lparr>S_Known := h_pin (O_Root Opts) (S_Known s)\<rparr>) in (r H, s))" for r
    by (simp add: safe_def encode_def Let_def split: prod.split)
  show ?thesis unfolding onMnt_def
    by (rule safeI, erule args_kept, rule gives_any [THEN gives_mono], intro safe_lend safe_answer stat_kept serves_root safe_if safe_Pair safe_dead e)
      (simp add: safe_def)
qed

lemma warmed_kept: "I n (S_Peer s) \<Longrightarrow> I n (S_Peer (warmed P s))"
  using warm_kept [of n] by (auto simp: warmed_def on_peer_def keeps_def split: prod.split sum.split)

lemma dispatch_safe: "safe n (dispatch X Opts P C)"
proof -
  have m: "safe n (onMount X Opts P C)"
    using onMnt_safe [of n X "Call_Args C"] by (simp add: safe_def onMount_def split: option.split MountProc.split)
  have "safe n (onNfs X Opts P C)"
  proof (rule safeI)
    fix s :: "'p session"
    assume "I n (S_Peer s)"
    then have w: "I n (S_Peer (warmed P s))" by (rule warmed_kept)
    note d = handlers_safe [THEN safeD, OF w] reading_handlers_safe [THEN safeD, OF w]
    show "I n (S_Peer (snd (onNfs X Opts P C s)))" using w by (cases "as_enum Procs (Call_Procedure C)") (simp_all add: onNfs_def Let_def d split: Proc.split)
  qed
  then show ?thesis using m by (simp add: safe_def dispatch_def)
qed

end

section \<open>A pool that writes down what it is asked\<close>

text \<open>
  The pool below behaves as \<open>P\<close> does, and notes how many sessions are borrowed, the paths it was asked
  about, and whether it was ever asked while none was borrowed.
\<close>

record 'p watch =
  W_Pool :: 'p
  W_Held :: nat
  W_Asked :: "string list"
  W_Unheld :: bool

definition watch_op :: "string list \<Rightarrow> ('p \<Rightarrow> 'a \<times> 'p) \<Rightarrow> 'p watch \<Rightarrow> 'a \<times> 'p watch" where
  "watch_op Paths op w =
     (let (r, p) = op (W_Pool w) in (r, w\<lparr>W_Pool := p, W_Asked := W_Asked w @ Paths, W_Unheld := W_Unheld w \<or> W_Held w = 0\<rparr>))"

definition watched :: "'p peer \<Rightarrow> 'p watch peer" where
  "watched P =
     \<lparr>P_warm = (\<lambda>w. let (r, p) = P_warm P (W_Pool w) in (r, w\<lparr>W_Pool := p\<rparr>)),
      P_take = (\<lambda>w. let (r, p) = P_take P (W_Pool w) in (r, w\<lparr>W_Pool := p, W_Held := W_Held w + (case r of Inl _ \<Rightarrow> 0 | Inr _ \<Rightarrow> 1)\<rparr>)),
      P_give = (\<lambda>w. w\<lparr>W_Pool := P_give P (W_Pool w), W_Held := W_Held w - 1\<rparr>),
      P_alive = (\<lambda>w. P_alive P (W_Pool w)),
      P_discard = (\<lambda>w. w\<lparr>W_Pool := P_discard P (W_Pool w)\<rparr>),
      P_maxTransfer = (\<lambda>w. P_maxTransfer P (W_Pool w)),
      P_stat = (\<lambda>q. watch_op [q] (P_stat P q)),
      P_list = (\<lambda>q. watch_op [q] (P_list P q)),
      P_statFs = (\<lambda>q. watch_op [q] (P_statFs P q)),
      P_createFile = (\<lambda>q m e. watch_op [q] (P_createFile P q m e)),
      P_makeDirectory = (\<lambda>q m. watch_op [q] (P_makeDirectory P q m)),
      P_removeFile = (\<lambda>q. watch_op [q] (P_removeFile P q)),
      P_removeDirectory = (\<lambda>q. watch_op [q] (P_removeDirectory P q)),
      P_makeLink = (\<lambda>q t. watch_op [q] (P_makeLink P q t)),
      P_readLink = (\<lambda>q. watch_op [q] (P_readLink P q)),
      P_hardLink = (\<lambda>q t. watch_op [q, t] (P_hardLink P q t)),
      P_rename = (\<lambda>q t. watch_op [q, t] (P_rename P q t)),
      P_truncate = (\<lambda>q z. watch_op [q] (P_truncate P q z)),
      P_setMode = (\<lambda>q m. watch_op [q] (P_setMode P q m)),
      P_fsync = (\<lambda>q. watch_op [q] (P_fsync P q)),
      P_read = (\<lambda>q z c. watch_op [q] (P_read P q z c)),
      P_write = (\<lambda>q z d. watch_op [q] (P_write P q z d))\<rparr>"

definition well_asked :: "export_opts \<Rightarrow> nat \<Rightarrow> 'p watch \<Rightarrow> bool" where
  "well_asked Opts n w \<longleftrightarrow> W_Held w = n \<and> \<not> W_Unheld w \<and> (\<forall>q \<in> set (W_Asked w). serves Opts q)"

lemma watch_op_kept: "(\<And>q. q \<in> set Paths \<Longrightarrow> serves Opts q) \<Longrightarrow> keeps (well_asked Opts (Suc n)) (watch_op Paths op)"
  by (auto simp: keeps_def watch_op_def well_asked_def Let_def split: prod.split)

interpretation watched: borrowed "watched P" Opts "well_asked Opts" for P Opts
  by unfold_locales
    (auto simp: watched_def intro!: watch_op_kept; auto simp: keeps_def well_asked_def Let_def split: prod.splits sum.splits)+

text \<open>The calls of a connection, answered in turn.\<close>

primrec answers :: "'h xxlib \<Rightarrow> export_opts \<Rightarrow> 'p peer \<Rightarrow> Call list \<Rightarrow> 'p session \<Rightarrow> reply list \<times> 'p session" where
  "answers X Opts P [] s = ([], s)"
| "answers X Opts P (C # Cs) s = (let (r, s) = dispatch X Opts P C s; (rs, s) = answers X Opts P Cs s in (r # rs, s))"

text \<open>
  C17. An export serves nothing outside itself. Whatever calls a client sends, with whatever handles and
  names, every path the export asks the daemon about (to read, write, list, stat, make, move or
  remove) is inside the exported directory, it is asked only over a session borrowed from the pool,
  every borrowed session has been given back when the calls are answered, and each call gets a reply.
\<close>

theorem nfs_confined:
  assumes "insideExport (O_Root Opts) (O_Root Opts)" and "W_Held (S_Peer s) = 0" and "\<not> W_Unheld (S_Peer s)" and "W_Asked (S_Peer s) = []"
    and "answers X Opts (watched P) Cs s = (rs, s')"
  shows "(\<forall>q \<in> set (W_Asked (S_Peer s')). insideExport q (O_Root Opts)) \<and> W_Held (S_Peer s') = 0 \<and> \<not> W_Unheld (S_Peer s') \<and> length rs = length Cs"
proof -
  have "well_asked Opts 0 (S_Peer s') \<and> length rs = length Cs" if "well_asked Opts 0 (S_Peer s)"
    using assms(5) that
  proof (induction Cs arbitrary: s rs)
    case (Cons C Cs)
    obtain r t rs' where d: "dispatch X Opts (watched P) C s = (r, t)" "answers X Opts (watched P) Cs t = (rs', s')" "rs = r # rs'"
      using Cons.prems(1) by (auto simp: Let_def split: prod.splits)
    have "well_asked Opts 0 (S_Peer t)"
      using watched.safeD [OF watched.dispatch_safe Cons.prems(2), of X P C] d(1) by simp
    then show ?case using Cons.IH [OF d(2)] d(3) by simp
  qed simp
  then show ?thesis using assms(1-4) by (simp add: well_asked_def serves_def)
qed

text \<open>
  A daemon that knows every name as a directory of its own, for the evaluation: the client asks for the
  attributes of a handle that names a path above the export, and then for the parent of its root.
\<close>

definition sample_attrs :: FileAttrs where
  "sample_attrs = no_attrs\<lparr>FileAttrs_Ino := 7, FileAttrs_Directory := True\<rparr>"

definition sample_peer :: "unit peer" where
  "sample_peer =
     \<lparr>P_warm = (\<lambda>w. (Inr (), w)), P_take = (\<lambda>w. (Inr (), w)), P_give = (\<lambda>w. w), P_alive = (\<lambda>w. True), P_discard = (\<lambda>w. w), P_maxTransfer = (\<lambda>w. 4096),
      P_stat = (\<lambda>q w. (Inr \<lparr>StatReply_Id = 0, StatReply_Found = True, StatReply_Attrs = sample_attrs\<rparr>, w)),
      P_list = (\<lambda>q w. (failMessage [], w)), P_statFs = (\<lambda>q w. (failMessage [], w)), P_createFile = (\<lambda>q m e w. (failMessage [], w)),
      P_makeDirectory = (\<lambda>q m w. (failMessage [], w)), P_removeFile = (\<lambda>q w. (Inr (), w)), P_removeDirectory = (\<lambda>q w. (Inr (), w)),
      P_makeLink = (\<lambda>q t w. (failMessage [], w)), P_readLink = (\<lambda>q w. (failMessage [], w)), P_hardLink = (\<lambda>q t w. (failMessage [], w)),
      P_rename = (\<lambda>q t w. (Inr (), w)), P_truncate = (\<lambda>q z w. (failMessage [], w)), P_setMode = (\<lambda>q m w. (failMessage [], w)),
      P_fsync = (\<lambda>q w. (Inr (), w)), P_read = (\<lambda>q z c w. (failMessage [], w)), P_write = (\<lambda>q z d w. (Inr (), w))\<rparr>"

definition sample_opts :: export_opts where
  "sample_opts = \<lparr>O_Root = ''pub'', O_Readahead = 8192, O_Uid = 0, O_Gid = 0\<rparr>"

definition call_of :: "u32 \<Rightarrow> (XdrWriter \<Rightarrow> XdrWriter) list \<Rightarrow> Call" where
  "call_of Procedure Ws = \<lparr>Call_Xid = 1, Call_Program = kNfsProgram, Call_Version = kProgramVersion, Call_Procedure = Procedure, Call_Args = X_Out (written Ws)\<rparr>"

definition sample_calls :: "Call list" where
  "sample_calls =
     [call_of 1 [x_opaque (fst (h_encode counting_xx ''pub/../etc'' Handles_new))],
      call_of 3 [x_opaque (fst (h_encode counting_xx ''pub'' Handles_new)), x_text ''..'']]"

definition sample_session :: "unit watch session" where
  "sample_session = Session_new 1 Handles_new \<lparr>W_Pool = (), W_Held = 0, W_Asked = [], W_Unheld = False\<rparr>"

theorem nfs_confined_witness:
  "(let (rs, s) = answers counting_xx sample_opts (watched sample_peer) sample_calls sample_session
    in W_Asked (S_Peer s) = [''pub''] \<and> rs ! 0 = replyStatus kErrStale 0 \<and> W_Held (S_Peer s) = 0 \<and> length rs = 2)"
proof -
  let ?a = "answers counting_xx sample_opts (watched sample_peer) sample_calls sample_session"
  have "W_Asked (S_Peer (snd ?a)) = [''pub'']" "fst ?a ! 0 = replyStatus kErrStale 0" by code_simp+
  moreover have "insideExport (O_Root sample_opts) (O_Root sample_opts)" by code_simp
  moreover have "length sample_calls = 2" by (simp add: sample_calls_def)
  ultimately show ?thesis
    using nfs_confined [of sample_opts sample_session counting_xx sample_peer sample_calls "fst ?a" "snd ?a"]
    by (simp add: split_def sample_session_def Session_new_def)
qed

end
