(* ===== verification/Spec2Isabelle.thy ===== *)
theory Spec2Isabelle
  imports ControlChannel Differ FilterRules FileWriter Loop Turn Gate PagePool Rpc Inodes PageStream FileService Sync TcpFrames KernelMount KernelCalls ClientSession NfsConfined
begin

text \<open>
  Verification of \<^verbatim>\<open>rail\<close>, a file mover: \<^verbatim>\<open>rail\<close> synchronises trees over a control
  channel and a data channel (TCP or RDMA), \<^verbatim>\<open>raild\<close> serves files, a FUSE mount and an NFS
  server give a remote tree to local programs. All of it runs on one event loop with coroutines.

  \<^bold>\<open>Parts and theories.\<close> Paths are below \<^verbatim>\<open>src/src\<close> and \<^verbatim>\<open>src/include/rail\<close>.

  \<^item> Shared: \<open>Rail_Prelude\<close> has the machine words, \<open>Result\<close> (\<^verbatim>\<open>result.h\<close>: an error or a value,
    \<open>bindR\<close> for the early return), little-endian bytes and the facts on words and lists that the
    other theories use.

  \<^item> Wire: \<open>Message\<close> has the structs and type codes of \<^verbatim>\<open>proto/message.h\<close>, \<open>Wire\<close> the reader and
    writer of \<^verbatim>\<open>proto/wire.h\<close>, \<open>Codec\<close> every encoder and decoder of \<^verbatim>\<open>proto/codec.cc\<close>. Decoding
    inverts encoding, accepts only well-formed messages, and refuses truncations and counts the
    payload cannot hold. \<open>Stream_IO\<close> and \<open>ControlChannel\<close> are the reads and writes of a socket as
    schedules of answers and the framing of \<^verbatim>\<open>proto/control-channel.cc\<close>; messages arrive in order
    for every chunking.

  \<^item> Delta: \<open>Checksum\<close> (\<^verbatim>\<open>app/checksum.cc\<close>), \<open>FileReader\<close>, \<open>Block_Signature\<close> and \<open>Differ\<close>
    (\<^verbatim>\<open>app/signature.cc\<close>, \<^verbatim>\<open>app/differ.cc\<close>): rolling equals recomputing, a signature describes the
    blocks, the hash chains find what a bounded search finds, and the instructions rebuild the
    source. \<open>DifferSink\<close> shows that the scan does not depend on what its sink does with them.

  \<^item> Sync: \<open>SessionPush\<close> and \<open>SessionReceive\<close> are the two ends (\<^verbatim>\<open>session-push.cc\<close>,
    \<^verbatim>\<open>session-receive.cc\<close>), whole: negotiation, headers, signatures, windows of pages, digests,
    receipts. \<open>SyncBase\<close>, \<open>SyncPieces\<close> and \<open>PageLayout\<close> hold what they share. \<open>PushSteps\<close>,
    \<open>PushDelta\<close>, \<open>PushFile\<close> and \<open>ReceiveSteps\<close>, \<open>ReceiveFile\<close> follow each end through one file,
    \<open>SyncPlan\<close> and \<open>Sync\<close> put the ends together: one transcript is played by both, and the
    receiver's files become the mirror of the sender's.

  \<^item> Files: \<open>FilterRules\<close> (\<^verbatim>\<open>app/filter.cc\<close>), \<open>SafePath\<close> (\<^verbatim>\<open>fs/safe-path.cc\<close>), \<open>LexPath\<close> and
    \<open>FileWriter\<close> (\<^verbatim>\<open>fs/writer.cc\<close>): glob patterns as languages, no accepted name leads out of the
    root, a file arrives whole or not at all.

  \<^item> Loop: \<open>Loop\<close> (\<^verbatim>\<open>io/loop.cc\<close>), \<open>Transition\<close>, \<open>Turn\<close> and \<open>Gate\<close>: coroutines as names, the
    scheduler as a step relation; every suspended coroutine has one wakeup, turns are first come,
    first served.

  \<^item> Transport: \<open>TcpChannel\<close> and \<open>TcpFrames\<close> (\<^verbatim>\<open>transport/tcp-data-channel.cc\<close>): many transfers
    on one connection as a step relation over the places where receives wait; every receive gets
    its own payload and none is left asleep.

  \<^item> Memory: \<open>Memory\<close> (\<^verbatim>\<open>memory.cc\<close>), \<open>Sink\<close>, \<open>AddressSpace\<close>, \<open>PagePool\<close>: runs of registered
    memory, windows of the exported address space and pages never overlap, and what is written
    through one view is read through the other.

  \<^item> Service: \<open>PageStream\<close> (\<^verbatim>\<open>stream/page-stream.cc\<close>), \<open>FdCache\<close> and \<open>FileService\<close>
    (\<^verbatim>\<open>file-service.cc\<close>): a paged transfer moves the bytes it should with agreeing digests, the
    descriptor cache is least recently used, every request is answered once and no request
    reaches a path outside the served root.

  \<^item> Client: \<open>ClientExchange\<close> (the waiters of \<^verbatim>\<open>file-client.cc\<close> as a step relation), \<open>FileClient\<close> (its
    operations and both ends of the handshake) and \<open>ClientSession\<close>: replies reach the exchanges of
    their id in order and nobody is left waiting, and a read, a write, a fetch or a store through a
    client is what the daemon's handlers did.

  \<^item> Mounts: \<open>Xdr\<close> and \<open>Rpc\<close> (\<^verbatim>\<open>nfs/xdr.cc\<close>, \<^verbatim>\<open>nfs/rpc.cc\<close>) and \<open>Inodes\<close> (the inode table,
    \<^verbatim>\<open>fuse/inodes.cc\<close>). \<open>NfsHandles\<close> and \<open>NfsServer\<close> are the export (\<^verbatim>\<open>nfs/server.cc\<close>): its handle table and
    every procedure, over a pool of sessions given as a record of operations. \<open>NfsConfined\<close> shows
    that a handle keeps meaning its path and that an export asks for nothing outside itself.

  \<^item> Kernel module: \<open>KernelProto\<close> and \<open>KernelClient\<close> are the second implementation of the wire in
    kernel C (\<^verbatim>\<open>linux/railfs-proto.c\<close>, the requests of \<^verbatim>\<open>linux/railfs-tcp.c\<close>), \<open>KernelMount\<close> shows
    that it writes the frames of the C++ codec and follows reads and writes through the daemon's
    handlers and back, \<open>KernelCalls\<close> is the table of calls that its threads share.

  \<^bold>\<open>State and effects.\<close> A class is a record, an operation a function on it; a step that can fail
  returns a \<open>Result\<close> beside the state. What the kernel, the fabric, the peer and the hash library
  answer are arguments: schedules of answers for reads and writes, functions for the rest, fixed
  within a request. Files are a map from paths to images. Names keep the source's spelling, with
  a prefix where two classes share one.

  \<^bold>\<open>Loops.\<close> Loops that end by a measure are functions with a termination proof. The scan of the
  differ, the receiver's message loops and the whole-file sender are partial functions whose
  \<open>None\<close> is a run that never returns; that they return is part of the theorems about them, and
  where one does not that is a theorem as well. Nothing is bounded by fuel.

  \<^bold>\<open>Hypotheses.\<close> \<open>streams\<close> is the documented contract of xxHash (feeding in pieces is feeding the
  whole), \<open>no_collision\<close> that the strong checksum tells the blocks of the basis from the windows of
  the source, \<open>children_resolve\<close> that the canonical path of an entry of a directory is below that of
  the directory. Each has a witness.

  \<^bold>\<open>Not modelled.\<close> io_uring's rings and the RDMA verbs (the kernel's and the fabric's own state), the
  coroutine machinery, sockets and processes, the FUSE request handlers, NFS calls that run
  together on one connection and the threads that accept them, the kernel module beyond its TCP wire, and the command lines.
\<close>

end
